(* ===== verification/Prelude.thy ===== *)
theory Prelude
  imports Main "HOL-Library.Word" "HOL-Library.State_Monad"
begin

text \<open>
  Shared ground of the development: the machine types of the C code, byte-string
  helpers (slices, little- and big-endian encodings), the exclusive-or of a list of
  words, and the theorem collections the component theories extend.

  \<^item> \<open>byte\<close>, \<open>u32\<close>, \<open>u64\<close> are the C types \<open>uint8_t\<close>, \<open>uint32_t\<close>, \<open>uint64_t\<close>:
    addition wraps, \<open>push_bit\<close> and \<open>drop_bit\<close> are the unsigned shifts.
  \<^item> \<open>segment off len bs\<close> is the buffer content a \<open>memcpy\<close> of \<open>len\<close> bytes at
    \<open>bs + off\<close> reads.
  \<^item> \<open>load_le\<close> and \<open>bytes_le\<close> are the byte loops \<open>v |= b[k] << 8k\<close> and
    \<open>b[k] = v >> 8k\<close>; the big-endian pair reverses them.
\<close>

unbundle bit_operations_syntax

type_synonym byte = "8 word"
type_synonym u32 = "32 word"
type_synonym u64 = "64 word"
type_synonym bytes = "byte list"

named_theorems lens \<open>lengths of the buffers the operations produce\<close>
named_theorems additive_intros \<open>operations that commute with exclusive or\<close>

subsection \<open>Lists\<close>

definition segment :: "nat \<Rightarrow> nat \<Rightarrow> 'a list \<Rightarrow> 'a list" where
  "segment off len xs = take len (drop off xs)"

lemma length_segment [lens]: "off + len \<le> length xs \<Longrightarrow> length (segment off len xs) = len"
  by (simp add: segment_def)

lemma nth_segment: "i < len \<Longrightarrow> off + i < length xs \<Longrightarrow> segment off len xs ! i = xs ! (off + i)"
  by (simp add: segment_def)

lemma segment_append_left: "off + len \<le> length xs \<Longrightarrow> segment off len (xs @ ys) = segment off len xs"
  by (simp add: segment_def)

lemma segment_append_right: "length xs \<le> off \<Longrightarrow> segment off len (xs @ ys) = segment (off - length xs) len ys"
  by (simp add: segment_def)

lemma segment_0: "segment 0 len xs = take len xs"
  by (simp add: segment_def)

lemma segment_map: "segment off len (map f xs) = map f (segment off len xs)"
  by (simp add: segment_def take_map drop_map)

lemma map_nth_upt_segment:
  "off + len \<le> length xs \<Longrightarrow> map (\<lambda>i. xs ! (off + i)) [0..<len] = segment off len xs"
  by (rule nth_equalityI) (simp_all add: segment_def)

text \<open>Consecutive blocks of equal size, the rows of a C array of arrays.\<close>

definition blocks :: "nat \<Rightarrow> nat \<Rightarrow> 'a list \<Rightarrow> 'a list list" where
  "blocks w n xs = map (\<lambda>i. segment (i * w) w xs) [0..<n]"

lemma length_blocks [simp]: "length (blocks w n xs) = n"
  by (simp add: blocks_def)

lemma nth_blocks: "i < n \<Longrightarrow> blocks w n xs ! i = segment (i * w) w xs"
  by (simp add: blocks_def)

lemma length_nth_blocks [lens]: "i < n \<Longrightarrow> n * w \<le> length xs \<Longrightarrow> length (blocks w n xs ! i) = w"
proof -
  assume i: "i < n" and len: "n * w \<le> length xs"
  have "Suc i * w \<le> n * w" using i by (intro mult_le_mono1) simp
  with len i show ?thesis by (simp add: nth_blocks segment_def)
qed

lemma blocks_Suc: "blocks w (Suc n) xs = take w xs # blocks w n (drop w xs)"
proof -
  have "[0..<Suc n] = 0 # map Suc [0..<n]"
    by (simp add: map_Suc_upt upt_conv_Cons del: upt_Suc)
  then show ?thesis
    by (simp add: blocks_def segment_def add.commute comp_def del: upt_Suc)
qed

lemma blocks_0 [simp]: "blocks w 0 xs = []"
  by (simp add: blocks_def)

lemma blocks_concat:
  "(\<And>x. x \<in> set xss \<Longrightarrow> length x = w) \<Longrightarrow> length xss = n \<Longrightarrow> blocks w n (concat xss @ ys) = xss"
  by (induction xss arbitrary: n) (auto simp: blocks_Suc)

lemma blocks_concat0:
  "(\<And>x. x \<in> set xss \<Longrightarrow> length x = w) \<Longrightarrow> length xss = n \<Longrightarrow> blocks w n (concat xss) = xss"
  using blocks_concat [of xss w n "[]"] by simp

lemma concat_blocks: "n * w = length xs \<Longrightarrow> concat (blocks w n xs) = xs"
  by (induction n arbitrary: xs) (auto simp: blocks_Suc)

lemma length_concat_const:
  "(\<And>x. x \<in> set xss \<Longrightarrow> length x = w) \<Longrightarrow> length (concat xss) = length xss * w"
  by (induction xss) auto

subsection \<open>Endian encodings\<close>

fun load_le :: "bytes \<Rightarrow> 'a::len word" where
  "load_le [] = 0"
| "load_le (b # bs) = ucast b OR push_bit 8 (load_le bs)"

fun bytes_le :: "nat \<Rightarrow> 'a::len word \<Rightarrow> bytes" where
  "bytes_le 0 v = []"
| "bytes_le (Suc n) v = ucast v # bytes_le n (drop_bit 8 v)"

definition load_be :: "bytes \<Rightarrow> 'a::len word" where
  "load_be bs = load_le (rev bs)"

definition bytes_be :: "nat \<Rightarrow> 'a::len word \<Rightarrow> bytes" where
  "bytes_be n v = rev (bytes_le n v)"

lemma length_bytes_le [simp]: "length (bytes_le n v) = n"
  by (induction n arbitrary: v) auto

lemma length_bytes_be [simp]: "length (bytes_be n v) = n"
  by (simp add: bytes_be_def)

lemma nth_bytes_le: "k < n \<Longrightarrow> bytes_le n v ! k = ucast (drop_bit (8 * k) v)"
  by (induction n arbitrary: v k)
     (auto simp: nth_Cons drop_bit_drop_bit add.commute split: nat.splits)

lemma bit_load_le:
  "bit (load_le bs :: 'a::len word) i \<longleftrightarrow>
     i < LENGTH('a) \<and> i div 8 < length bs \<and> bit (bs ! (i div 8)) (i mod 8)"
proof (induction bs arbitrary: i)
  case Nil
  then show ?case by simp
next
  case (Cons b bs)
  show ?case
  proof (cases "i < 8")
    case True
    then show ?thesis by (auto simp: bit_simps)
  next
    case False
    then have "i div 8 = Suc ((i - 8) div 8)" and "(i - 8) mod 8 = i mod 8"
      by (simp_all add: le_div_geq le_mod_geq)
    moreover have "\<not> bit b i"
      using False bit_imp_le_length [of b i] by auto
    ultimately show ?thesis
      using False by (auto simp: bit_simps Cons.IH)
  qed
qed

lemma load_le_bytes_le:
  "LENGTH('a) \<le> 8 * n \<Longrightarrow> load_le (bytes_le n v) = (v :: 'a::len word)"
proof (rule bit_word_eqI)
  fix i assume n: "LENGTH('a) \<le> 8 * n" and i: "i < LENGTH('a)"
  then have "i div 8 < n" by simp
  then show "bit (load_le (bytes_le n v) :: 'a word) i \<longleftrightarrow> bit v i"
    using i by (auto simp: bit_load_le nth_bytes_le bit_simps)
qed

lemma bytes_le_load_le:
  assumes "8 * length bs \<le> LENGTH('a)"
  shows "bytes_le (length bs) (load_le bs :: 'a::len word) = bs"
proof (rule nth_equalityI)
  fix k assume "k < length (bytes_le (length bs) (load_le bs :: 'a word))"
  then have k: "k < length bs" by simp
  show "bytes_le (length bs) (load_le bs :: 'a word) ! k = bs ! k"
  proof (rule bit_word_eqI)
    fix i assume "i < LENGTH(8)"
    then have i: "i < 8" by simp
    have "8 * k + i < LENGTH('a)" using assms k i by linarith
    then show "bit (bytes_le (length bs) (load_le bs :: 'a word) ! k) i = bit (bs ! k) i"
      using k i by (auto simp: nth_bytes_le bit_simps bit_load_le)
  qed
qed simp

lemma load_be_bytes_be:
  "LENGTH('a) \<le> 8 * n \<Longrightarrow> load_be (bytes_be n v) = (v :: 'a::len word)"
  by (simp add: load_be_def bytes_be_def load_le_bytes_le)

lemma bytes_be_load_be:
  "8 * length bs \<le> LENGTH('a) \<Longrightarrow> bytes_be (length bs) (load_be bs :: 'a::len word) = bs"
  using bytes_le_load_le [of "rev bs", where 'a = 'a] by (simp add: load_be_def bytes_be_def)

lemma unat_of_nat_u64: "n < 2 ^ 64 \<Longrightarrow> unat (of_nat n :: u64) = n"
  by (simp add: unsigned_of_nat take_bit_nat_eq_self)

lemma unat_one_shift: "k \<le> 32 \<Longrightarrow> unat (push_bit k 1 :: u64) = 2 ^ k"
proof -
  assume "k \<le> 32"
  then have "(2 :: nat) ^ k \<le> 2 ^ 32" by (intro power_increasing) auto
  then have "(2 :: nat) ^ k < 2 ^ 64" by simp
  then show ?thesis using unat_of_nat_u64 [of "2 ^ k"] by (simp add: push_bit_eq_mult)
qed

subsection \<open>Exclusive or of a list of words\<close>

definition xors :: "'a::len word list \<Rightarrow> 'a word" where
  "xors ws = foldr (XOR) ws 0"

lemma xors_Nil [simp]: "xors [] = 0"
  by (simp add: xors_def)

lemma xors_Cons [simp]: "xors (w # ws) = w XOR xors ws"
  by (simp add: xors_def)

lemma xors_append [simp]: "xors (xs @ ys) = xors xs XOR xors ys"
  by (induction xs) (simp_all add: ac_simps)

lemma xors_map_xor: "xors (map (\<lambda>i. f i XOR g i) is) = xors (map f is) XOR xors (map g is)"
  by (induction "is") (simp_all add: ac_simps)

lemma xors_map_and_left: "xors (map (\<lambda>i. c AND f i) is) = c AND xors (map f is)"
  by (induction "is") (simp_all add: bit_eq_iff bit_simps, blast)

lemma xors_map_zero [simp]: "xors (map (\<lambda>i. 0) is) = 0"
  by (induction "is") simp_all

lemma xors_replicate_zero [simp]: "xors (replicate n 0) = 0"
  by (induction n) simp_all

text \<open>One summand taken out: the shape of a sum in which one party is special.\<close>

lemma xors_remove:
  "e < length ws \<Longrightarrow> xors ws = ws ! e XOR xors (take e ws @ drop (Suc e) ws)"
proof -
  assume e: "e < length ws"
  then have "ws = take e ws @ ws ! e # drop (Suc e) ws" by (rule id_take_nth_drop)
  then have "xors ws = xors (take e ws @ ws ! e # drop (Suc e) ws)" by (rule arg_cong)
  then show ?thesis by (simp add: ac_simps)
qed

text \<open>A map between words is additive when it commutes with exclusive or.\<close>

definition additive :: "('a::len word \<Rightarrow> 'b::len word) \<Rightarrow> bool" where
  "additive f \<longleftrightarrow> (\<forall>x y. f (x XOR y) = f x XOR f y)"

lemma additiveI: "(\<And>x y. f (x XOR y) = f x XOR f y) \<Longrightarrow> additive f"
  by (simp add: additive_def)

lemma additive_xor: "additive f \<Longrightarrow> f (x XOR y) = f x XOR f y"
  by (simp add: additive_def)

lemma additive_zero: "additive f \<Longrightarrow> f 0 = 0"
  by (metis additive_xor bit.xor_self)

lemma additive_xors: "additive f \<Longrightarrow> f (xors ws) = xors (map f ws)"
  by (induction ws) (simp_all add: additive_zero additive_xor)

lemma additive_id [additive_intros]: "additive (\<lambda>x. x)"
  by (simp add: additive_def)

lemma additive_zero_fun [additive_intros]: "additive (\<lambda>x. 0)"
  by (simp add: additive_def)

lemma additive_xor_fun [additive_intros]:
  "additive f \<Longrightarrow> additive g \<Longrightarrow> additive (\<lambda>x. f x XOR g x)"
  by (simp add: additive_def ac_simps)

lemma additive_and [additive_intros]: "additive f \<Longrightarrow> additive (\<lambda>x. f x AND c)"
  by (simp add: additive_def bit.conj_xor_distrib2)

lemma additive_push_bit [additive_intros]: "additive f \<Longrightarrow> additive (\<lambda>x. push_bit n (f x))"
  by (simp add: additive_def push_bit_xor)

lemma additive_drop_bit [additive_intros]: "additive f \<Longrightarrow> additive (\<lambda>x. drop_bit n (f x))"
  by (simp add: additive_def drop_bit_xor)

lemma additive_ucast [additive_intros]: "additive f \<Longrightarrow> additive (\<lambda>x. ucast (f x))"
  by (simp add: additive_def unsigned_xor_eq)

subsection \<open>Codecs\<close>

text \<open>
  The contract of a wire format: a writer on the valid values and a reader that accepts
  exactly what the writer produces. Each message and file format of the code is an
  interpretation.
\<close>

locale codec =
  fixes enc :: "'a \<Rightarrow> bytes" and dec :: "bytes \<Rightarrow> 'a option" and valid :: "'a \<Rightarrow> bool"
  assumes dec_enc: "valid x \<Longrightarrow> dec (enc x) = Some x"
    and enc_dec: "dec bs = Some x \<Longrightarrow> enc x = bs"
    and dec_valid: "dec bs = Some x \<Longrightarrow> valid x"
begin

lemma enc_inject: "valid x \<Longrightarrow> valid y \<Longrightarrow> enc x = enc y \<longleftrightarrow> x = y"
  by (metis dec_enc option.inject)

lemma dec_inject: "dec bs = Some x \<Longrightarrow> dec cs = Some x \<Longrightarrow> bs = cs"
  using enc_dec by metis

lemma dec_Some_iff: "dec bs = Some x \<longleftrightarrow> valid x \<and> enc x = bs"
  using dec_enc enc_dec dec_valid by blast

lemma dec_None_iff: "dec bs = None \<longleftrightarrow> (\<forall>x. valid x \<longrightarrow> enc x \<noteq> bs)"
  by (metis dec_Some_iff not_None_eq)

end

end
