(* ===== verification/Blake3.thy ===== *)
theory Blake3
  imports Prelude
begin

text \<open>
  \<^verbatim>\<open>blake3_th.c\<close>, \<^verbatim>\<open>blake3_th_mpc.h\<close> and \<^verbatim>\<open>blake3_keyed_xof.c\<close>: the tweakable hash (BLAKE3 in
  derive-key mode over \<open>LE32(domain_len) || domain || data\<close>), its streaming context, the
  native compression function and the keyed extendable-output function.

  The upstream BLAKE3 library is not part of the repository: it is the parameter
  \<open>B :: b3\<close>, the function from a mode, the absorbed bytes and an output length to the
  output. A hasher object is its mode and the bytes absorbed so far, which is the
  documented behaviour of \<open>blake3_hasher_update\<close> and \<open>blake3_hasher_finalize\<close>. A C pointer
  with a length is an \<open>option\<close> (\<open>None\<close> for \<open>NULL\<close>) with a \<open>nat\<close>.
\<close>

subsection \<open>The upstream hasher\<close>

datatype b3_mode = Derive_key string | Keyed bytes

type_synonym b3 = "b3_mode \<Rightarrow> bytes \<Rightarrow> nat \<Rightarrow> bytes"

record blake3_hasher =
  hasher_mode :: b3_mode
  hasher_input :: bytes

definition blake3_hasher_update :: "blake3_hasher \<Rightarrow> bytes \<Rightarrow> blake3_hasher" where
  "blake3_hasher_update h bs = h\<lparr>hasher_input := hasher_input h @ bs\<rparr>"

definition blake3_hasher_finalize :: "b3 \<Rightarrow> blake3_hasher \<Rightarrow> nat \<Rightarrow> bytes" where
  "blake3_hasher_finalize B h n = B (hasher_mode h) (hasher_input h) n"

text \<open>The documented output length of the library.\<close>

definition b3_length :: "b3 \<Rightarrow> bool" where
  "b3_length B \<longleftrightarrow> (\<forall>m bs n. length (B m bs n) = n)"

lemma length_b3 [lens]: "b3_length B \<Longrightarrow> length (B m bs n) = n"
  by (simp add: b3_length_def)

subsection \<open>The tweakable hash\<close>

definition BLAKE3_TH_CONTEXT :: string where
  "BLAKE3_TH_CONTEXT = ''blind-mss tweakable hash v2''"

definition BLAKE3_TH_MAX_DOMAIN :: nat where "BLAKE3_TH_MAX_DOMAIN = 28"
definition BLAKE3_TH_FRAME_LEN :: nat where "BLAKE3_TH_FRAME_LEN = 4"
definition BLAKE3_OUT_LEN :: nat where "BLAKE3_OUT_LEN = 32"
definition BLAKE3_CHUNK_LEN :: nat where "BLAKE3_CHUNK_LEN = 1024"
definition BLAKE3_BLOCK_LEN :: nat where "BLAKE3_BLOCK_LEN = 64"

record blake3_th_ctx =
  hasher :: blake3_hasher
  poisoned :: bool

text \<open>What a pointer with a length reads.\<close>

definition deref :: "bytes option \<Rightarrow> nat \<Rightarrow> bytes" where
  "deref p n = (case p of None \<Rightarrow> [] | Some bs \<Rightarrow> take n bs)"

definition blake3_th_init ::
  "blake3_th_ctx \<Rightarrow> bytes option \<Rightarrow> nat \<Rightarrow> bool \<times> blake3_th_ctx" where
  "blake3_th_init ctx domain domain_len =
     (let bad = (domain_len > BLAKE3_TH_MAX_DOMAIN \<or> (domain = None \<and> domain_len \<noteq> 0));
          ctx = ctx\<lparr>poisoned := bad\<rparr>
      in if bad then (False, ctx)
         else let frame = bytes_le BLAKE3_TH_FRAME_LEN (of_nat domain_len :: u32);
                  h0 = \<lparr>hasher_mode = Derive_key BLAKE3_TH_CONTEXT, hasher_input = []\<rparr>;
                  h1 = blake3_hasher_update h0 frame;
                  h2 = (if domain_len \<noteq> 0 then blake3_hasher_update h1 (deref domain domain_len) else h1)
              in (True, ctx\<lparr>hasher := h2\<rparr>))"

definition blake3_th_update ::
  "blake3_th_ctx \<Rightarrow> bytes option \<Rightarrow> nat \<Rightarrow> bool \<times> blake3_th_ctx" where
  "blake3_th_update ctx data len =
     (let ctx = (if data = None \<and> len \<noteq> 0 then ctx\<lparr>poisoned := True\<rparr> else ctx)
      in if poisoned ctx then (False, ctx)
         else (True, if len \<noteq> 0
                     then ctx\<lparr>hasher := blake3_hasher_update (hasher ctx) (deref data len)\<rparr>
                     else ctx))"

definition blake3_th_final ::
  "b3 \<Rightarrow> blake3_th_ctx \<Rightarrow> bytes option \<Rightarrow> nat \<Rightarrow> bool \<times> bytes option" where
  "blake3_th_final B ctx out out_len =
     (if poisoned ctx \<or> out_len > BLAKE3_OUT_LEN \<or> (out = None \<and> out_len \<noteq> 0) then (False, out)
      else (True, if out_len \<noteq> 0
                  then map_option (\<lambda>b. blake3_hasher_finalize B (hasher ctx) out_len @ drop out_len b) out
                  else out))"

text \<open>
  The stack variable \<open>ctx\<close> of \<open>blake3_th\<close> is uninitialised; \<open>blake3_th_init\<close> sets all of it
  that later calls read.
\<close>

definition uninit_ctx :: blake3_th_ctx where
  "uninit_ctx = \<lparr>hasher = \<lparr>hasher_mode = Keyed [], hasher_input = []\<rparr>, poisoned = False\<rparr>"

definition blake3_th ::
  "b3 \<Rightarrow> bytes option \<Rightarrow> nat \<Rightarrow> bytes option \<Rightarrow> nat \<Rightarrow> bytes option \<Rightarrow> nat \<Rightarrow> bool \<times> bytes option" where
  "blake3_th B domain domain_len data data_len out out_len =
     (let (ok1, ctx1) = blake3_th_init uninit_ctx domain domain_len
      in if \<not> ok1 then (False, out)
         else let (ok2, ctx2) = blake3_th_update ctx1 data data_len
              in if \<not> ok2 then (False, out)
                 else blake3_th_final B ctx2 out out_len)"

text \<open>
  A call whose result code the caller ignores, into a buffer of \<open>out_len\<close> bytes: the
  buffer's content afterwards (zeros stand for the bytes a failed call leaves).
\<close>

definition blake3_th_into :: "b3 \<Rightarrow> bytes \<Rightarrow> bytes \<Rightarrow> nat \<Rightarrow> bytes" where
  "blake3_th_into B domain data out_len =
     (case snd (blake3_th B (Some domain) (length domain) (Some data) (length data)
                  (Some (replicate out_len 0)) out_len) of
        None \<Rightarrow> [] | Some out \<Rightarrow> out)"

text \<open>The framed preimage, the abstract meaning of the streaming interface.\<close>

definition th_frame :: "bytes \<Rightarrow> bytes \<Rightarrow> bytes" where
  "th_frame domain data = bytes_le BLAKE3_TH_FRAME_LEN (of_nat (length domain) :: u32) @ domain @ data"

definition th :: "b3 \<Rightarrow> bytes \<Rightarrow> bytes \<Rightarrow> nat \<Rightarrow> bytes" where
  "th B domain data out_len = B (Derive_key BLAKE3_TH_CONTEXT) (th_frame domain data) out_len"

lemma length_th [lens]: "b3_length B \<Longrightarrow> length (th B domain data n) = n"
  by (simp add: th_def lens)

subsection \<open>The keyed extendable-output function\<close>

definition ascii :: "string \<Rightarrow> bytes" where
  "ascii s = map of_char s"

definition BLAKE3_XOF_DOM_KKW_TAPE :: string where
  "BLAKE3_XOF_DOM_KKW_TAPE = ''blind-mss KKW tape expansion v1''"
definition BLAKE3_XOF_DOM_KKW_SEEDS :: string where
  "BLAKE3_XOF_DOM_KKW_SEEDS = ''blind-mss KKW party-seed expansion v1''"
definition BLAKE3_XOF_DOM_KKW_XSHARE :: string where
  "BLAKE3_XOF_DOM_KKW_XSHARE = ''blind-mss KKW witness-mask expansion v1''"
definition BLAKE3_XOF_DOM_XMSS_WOTS_SK :: string where
  "BLAKE3_XOF_DOM_XMSS_WOTS_SK = ''blind-mss XMSS WOTS secret-key expansion v1''"
definition BLAKE3_XOF_DOM_XMSS_UPPER :: string where
  "BLAKE3_XOF_DOM_XMSS_UPPER = ''blind-mss XMSS upper-sibling expansion v1''"

text \<open>\<open>sizeof framing\<close> counts the terminating zero byte of the string literal.\<close>

definition xof_framing :: bytes where
  "xof_framing = ascii ''blind-mss BLAKE3 keyed XOF v1'' @ [0]"

definition xof_frame :: "string \<Rightarrow> bytes \<Rightarrow> bytes" where
  "xof_frame domain input = xof_framing @ bytes_le 8 (of_nat (length domain) :: u64) @ ascii domain @ input"

definition blake3_keyed_xof :: "b3 \<Rightarrow> bytes \<Rightarrow> string \<Rightarrow> bytes \<Rightarrow> nat \<Rightarrow> bytes" where
  "blake3_keyed_xof B key domain input out_len =
     (let h0 = \<lparr>hasher_mode = Keyed key, hasher_input = []\<rparr>;
          h1 = blake3_hasher_update h0 xof_framing;
          h2 = blake3_hasher_update h1 (bytes_le 8 (of_nat (length domain) :: u64));
          h3 = blake3_hasher_update h2 (ascii domain);
          h4 = (if length input \<noteq> 0 then blake3_hasher_update h3 input else h3)
      in blake3_hasher_finalize B h4 out_len)"

lemma length_blake3_keyed_xof [lens]: "b3_length B \<Longrightarrow> length (blake3_keyed_xof B key s inp n) = n"
  by (simp add: blake3_keyed_xof_def blake3_hasher_finalize_def lens Let_def)

subsection \<open>The native compression function\<close>

definition ROTR32 :: "u32 \<Rightarrow> nat \<Rightarrow> u32" where
  "ROTR32 x n = drop_bit n x OR push_bit (32 - n) x"

definition B3_IV :: "u32 list" where
  "B3_IV = [0x6A09E667, 0xBB67AE85, 0x3C6EF372, 0xA54FF53A,
            0x510E527F, 0x9B05688C, 0x1F83D9AB, 0x5BE0CD19]"

definition MSG_PERMUTATION :: "nat list" where
  "MSG_PERMUTATION = [2, 6, 3, 10, 7, 0, 4, 13, 1, 11, 12, 5, 9, 14, 15, 8]"

definition blake3_th_context_key :: "u32 list" where
  "blake3_th_context_key = [0x92BC442A, 0x717EB9D9, 0xE6E35884, 0x65D1A3F5,
                            0xBE746F4F, 0x3B5F70D6, 0xAF7DE478, 0xECB68DB9]"

definition BLAKE3_CHUNK_START :: u32 where "BLAKE3_CHUNK_START = push_bit 0 1"
definition BLAKE3_CHUNK_END :: u32 where "BLAKE3_CHUNK_END = push_bit 1 1"
definition BLAKE3_ROOT :: u32 where "BLAKE3_ROOT = push_bit 3 1"
definition BLAKE3_DERIVE_KEY_MATERIAL :: u32 where "BLAKE3_DERIVE_KEY_MATERIAL = push_bit 6 1"

text \<open>The statement forms of \<open>g\<close>, and \<open>g\<close> as their sequence.\<close>

definition g_add3 :: "nat \<Rightarrow> nat \<Rightarrow> u32 \<Rightarrow> u32 list \<Rightarrow> u32 list" where
  "g_add3 a b x v = v[a := v ! a + v ! b + x]"

definition g_add :: "nat \<Rightarrow> nat \<Rightarrow> u32 list \<Rightarrow> u32 list" where
  "g_add c d v = v[c := v ! c + v ! d]"

definition g_rot :: "nat \<Rightarrow> nat \<Rightarrow> nat \<Rightarrow> u32 list \<Rightarrow> u32 list" where
  "g_rot d a n v = v[d := ROTR32 (v ! d XOR v ! a) n]"

definition b3_g :: "u32 list \<Rightarrow> nat \<Rightarrow> nat \<Rightarrow> nat \<Rightarrow> nat \<Rightarrow> u32 \<Rightarrow> u32 \<Rightarrow> u32 list" where
  "b3_g v a b c d x y =
     (let v = g_add3 a b x v;
          v = g_rot d a 16 v;
          v = g_add c d v;
          v = g_rot b c 12 v;
          v = g_add3 a b y v;
          v = g_rot d a 8 v;
          v = g_add c d v
      in g_rot b c 7 v)"

definition b3_round :: "u32 list \<Rightarrow> nat list \<Rightarrow> u32 list \<Rightarrow> u32 list" where
  "b3_round m s v =
     (let v = b3_g v 0 4  8 12 (m ! (s ! 0)) (m ! (s ! 1));
          v = b3_g v 1 5  9 13 (m ! (s ! 2)) (m ! (s ! 3));
          v = b3_g v 2 6 10 14 (m ! (s ! 4)) (m ! (s ! 5));
          v = b3_g v 3 7 11 15 (m ! (s ! 6)) (m ! (s ! 7));
          v = b3_g v 0 5 10 15 (m ! (s ! 8)) (m ! (s ! 9));
          v = b3_g v 1 6 11 12 (m ! (s ! 10)) (m ! (s ! 11));
          v = b3_g v 2 7  8 13 (m ! (s ! 12)) (m ! (s ! 13))
      in b3_g v 3 4 9 14 (m ! (s ! 14)) (m ! (s ! 15)))"

definition b3_permute :: "nat list \<Rightarrow> nat list" where
  "b3_permute s = map (\<lambda>i. s ! (MSG_PERMUTATION ! i)) [0..<16]"

fun b3_rounds :: "nat \<Rightarrow> u32 list \<Rightarrow> nat list \<Rightarrow> u32 list \<Rightarrow> u32 list" where
  "b3_rounds 0 m s v = v"
| "b3_rounds (Suc r) m s v = b3_rounds r m (b3_permute s) (b3_round m s v)"

definition blake3_compress :: "u32 list \<Rightarrow> u32 list \<Rightarrow> u64 \<Rightarrow> u32 \<Rightarrow> u32 \<Rightarrow> u32 list" where
  "blake3_compress cv block_words counter block_len flags =
     (let v = map (\<lambda>i. cv ! i) [0..<8]
            @ [B3_IV ! 0, B3_IV ! 1, B3_IV ! 2, B3_IV ! 3,
               ucast counter, ucast (drop_bit 32 counter), block_len, flags];
          v = b3_rounds 7 block_words [0..<16] v
      in map (\<lambda>i. v ! i XOR v ! (i + 8)) [0..<8])"

lemma length_g_steps [simp]:
  "length (g_add3 a b x v) = length v" "length (g_add c d v) = length v"
  "length (g_rot d a n v) = length v"
  by (simp_all add: g_add3_def g_add_def g_rot_def)

lemma length_b3_g [simp, lens]: "length (b3_g v a b c d x y) = length v"
  by (simp only: b3_g_def Let_def length_g_steps)

lemma length_b3_round [simp, lens]: "length (b3_round m s v) = length v"
  by (simp only: b3_round_def Let_def length_b3_g)

lemma length_b3_rounds [simp, lens]: "length (b3_rounds r m s v) = length v"
  by (induction r arbitrary: s v) simp_all

lemma length_blake3_compress [simp, lens]: "length (blake3_compress cv m ctr bl fl) = 8"
  by (simp only: blake3_compress_def Let_def length_map length_upt)

subsection \<open>Running the streaming context\<close>

lemmas th_ctx_defs = blake3_th_init_def blake3_th_update_def blake3_th_final_def
  blake3_hasher_update_def blake3_hasher_finalize_def deref_def Let_def

lemma blake3_th_final_poisoned:
  "poisoned ctx \<Longrightarrow> blake3_th_final B ctx out n = (False, out)"
  by (simp add: blake3_th_final_def)

lemma blake3_th_update_poisoned:
  "poisoned ctx \<Longrightarrow>
     \<not> fst (blake3_th_update ctx p n) \<and> poisoned (snd (blake3_th_update ctx p n))"
  by (simp add: blake3_th_update_def Let_def)

text \<open>A sequence of \<open>blake3_th_update\<close> calls, on buffers given with their lengths.\<close>

fun th_updates :: "blake3_th_ctx \<Rightarrow> (bytes option \<times> nat) list \<Rightarrow> blake3_th_ctx" where
  "th_updates ctx [] = ctx"
| "th_updates ctx ((p, n) # ps) = th_updates (snd (blake3_th_update ctx p n)) ps"

lemma th_updates_poisoned: "poisoned ctx \<Longrightarrow> poisoned (th_updates ctx ps)"
  by (induction ctx ps rule: th_updates.induct) (simp_all add: blake3_th_update_poisoned)

lemma th_updates_null: "(None, n) \<in> set ps \<Longrightarrow> n \<noteq> 0 \<Longrightarrow> poisoned (th_updates ctx ps)"
proof (induction ctx ps rule: th_updates.induct)
  case (2 ctx p m ps)
  show ?case
  proof (cases "(p, m) = (None, n)")
    case True
    then have "poisoned (snd (blake3_th_update ctx p m))"
      using 2 by (simp add: blake3_th_update_def)
    then show ?thesis by (simp add: th_updates_poisoned)
  next
    case False
    then show ?thesis using 2 by auto
  qed
qed simp

lemma th_updates_absorb:
  "\<not> poisoned ctx \<Longrightarrow>
     th_updates ctx (map (\<lambda>d. (Some d, length d)) ds) =
     ctx\<lparr>hasher := blake3_hasher_update (hasher ctx) (concat ds)\<rparr>"
proof (induction ds arbitrary: ctx)
  case (Cons d ds)
  let ?ctx = "ctx\<lparr>hasher := blake3_hasher_update (hasher ctx) d\<rparr>"
  have "snd (blake3_th_update ctx (Some d) (length d)) = ?ctx"
    using Cons.prems by (simp add: th_ctx_defs)
  moreover have "\<not> poisoned ?ctx" using Cons.prems by simp
  ultimately show ?case
    using Cons.IH [of ?ctx] by (simp add: blake3_hasher_update_def)
qed (simp add: blake3_hasher_update_def)

lemma th_init_ok:
  "length dm \<le> BLAKE3_TH_MAX_DOMAIN \<Longrightarrow>
     blake3_th_init ctx (Some dm) (length dm) =
     (True, \<lparr>hasher = \<lparr>hasher_mode = Derive_key BLAKE3_TH_CONTEXT, hasher_input = th_frame dm []\<rparr>,
             poisoned = False\<rparr>)"
  by (simp add: th_ctx_defs th_frame_def)

lemma th_init_bad:
  "length dm > BLAKE3_TH_MAX_DOMAIN \<Longrightarrow>
     \<not> fst (blake3_th_init ctx p (length dm)) \<and> poisoned (snd (blake3_th_init ctx p (length dm)))"
  by (simp add: th_ctx_defs)

lemma th_final_out:
  "b3_length B \<Longrightarrow> \<not> poisoned ctx \<Longrightarrow> n \<le> BLAKE3_OUT_LEN \<Longrightarrow>
     blake3_th_final B ctx (Some out) n =
     (True, Some (blake3_hasher_finalize B (hasher ctx) n @ drop n out))"
  using length_b3 [of B _ _ 0] by (cases "n = 0") (simp_all add: th_ctx_defs)

lemma blake3_th_ok:
  assumes "b3_length B" "length dm \<le> BLAKE3_TH_MAX_DOMAIN" "n \<le> BLAKE3_OUT_LEN"
  shows "blake3_th B (Some dm) (length dm) (Some data) (length data) (Some out) n =
    (True, Some (th B dm data n @ drop n out))"
proof -
  let ?ctx = "snd (blake3_th_init uninit_ctx (Some dm) (length dm))"
  have "blake3_th_update ?ctx (Some data) (length data) =
      (True, th_updates ?ctx (map (\<lambda>d. (Some d, length d)) [data]))"
    by (simp add: th_init_ok [OF assms(2)]) (simp add: th_ctx_defs)
  then show ?thesis
    using assms th_final_out [OF assms(1)]
    by (simp add: blake3_th_def th_init_ok th_updates_absorb del: th_updates.simps list.map)
       (simp add: blake3_hasher_update_def blake3_hasher_finalize_def th_def th_frame_def)
qed

lemma blake3_th_into_eq:
  assumes "b3_length B" "length dm \<le> BLAKE3_TH_MAX_DOMAIN" "n \<le> BLAKE3_OUT_LEN"
  shows "blake3_th_into B dm data n = th B dm data n"
  using blake3_th_ok [OF assms, of data "replicate n 0"] by (simp add: blake3_th_into_def)

text \<open>
  The pattern of the transcript hashes: initialise on a fixed domain, absorb pieces,
  finalise into a buffer, all result codes ignored.
\<close>

definition th_stream :: "b3 \<Rightarrow> bytes \<Rightarrow> (bytes option \<times> nat) list \<Rightarrow> nat \<Rightarrow> bytes" where
  "th_stream B domain pieces n =
     (case snd (blake3_th_final B (th_updates (snd (blake3_th_init uninit_ctx (Some domain) (length domain))) pieces)
                  (Some (replicate n 0)) n) of
        None \<Rightarrow> [] | Some out \<Rightarrow> out)"

lemma th_stream_eq:
  assumes "b3_length B" "length dm \<le> BLAKE3_TH_MAX_DOMAIN" "n \<le> BLAKE3_OUT_LEN"
  shows "th_stream B dm (map (\<lambda>d. (Some d, length d)) ds) n = th B dm (concat ds) n"
  using th_final_out [OF assms(1) _ assms(3)]
  by (simp add: th_stream_def th_init_ok [OF assms(2)] th_updates_absorb)
     (simp add: blake3_hasher_update_def blake3_hasher_finalize_def th_def th_frame_def)

subsection \<open>Framing is injective\<close>

lemma bytes_le_inject: "LENGTH('a) \<le> 8 * n \<Longrightarrow> bytes_le n (v :: 'a::len word) = bytes_le n w \<longleftrightarrow> v = w"
  by (metis load_le_bytes_le)

lemma of_nat_inject_word:
  "m < 2 ^ LENGTH('a) \<Longrightarrow> n < 2 ^ LENGTH('a) \<Longrightarrow> (of_nat m :: 'a::len word) = of_nat n \<longleftrightarrow> m = n"
  by (simp add: word_of_nat_eq_iff take_bit_nat_eq_self)

lemma th_frame_inject:
  assumes "length d < 2 ^ 32" and "length d' < 2 ^ 32"
  shows "th_frame d x = th_frame d' x' \<longleftrightarrow> d = d' \<and> x = x'"
  using assms by (auto simp: th_frame_def BLAKE3_TH_FRAME_LEN_def bytes_le_inject of_nat_inject_word)

lemma length_ascii [simp]: "length (ascii s) = length s"
  by (simp add: ascii_def)

lemma ascii_inject: "ascii s = ascii t \<longleftrightarrow> s = t"
proof -
  have "inj (of_char :: char \<Rightarrow> byte)"
  proof (rule injI)
    fix c d :: char assume eq: "(of_char c :: byte) = of_char d"
    then have "(of_nat (of_char c) :: byte) = of_nat (of_char d)" by (simp only: of_nat_of_char)
    then have "(of_char c :: nat) = of_char d" by (subst (asm) of_nat_inject_word) simp_all
    then show "c = d" by simp
  qed
  then show ?thesis by (simp add: ascii_def inj_map_eq_map)
qed

lemma xof_frame_inject:
  assumes "length d < 2 ^ 64" and "length d' < 2 ^ 64"
  shows "xof_frame d x = xof_frame d' x' \<longleftrightarrow> d = d' \<and> x = x'"
  using assms by (auto simp: xof_frame_def bytes_le_inject of_nat_inject_word ascii_inject)

lemma blake3_keyed_xof_frame: "blake3_keyed_xof B key d x n = B (Keyed key) (xof_frame d x) n"
  by (simp add: blake3_keyed_xof_def blake3_hasher_update_def blake3_hasher_finalize_def
      xof_frame_def Let_def)

end
