(* ===== verification/Platform.thy ===== *)
theory Platform
  imports Blake3
begin

text \<open>
  What the code takes from outside the repository, gathered in one record, and
  \<^verbatim>\<open>randombytes.c\<close>, the only reader of the operating system's entropy.

  \<^item> \<open>b3\<close>: the upstream BLAKE3 library (theory \<open>Blake3\<close>).
  \<^item> \<open>malloc_ok n\<close>: whether an allocation of \<open>n\<close> bytes succeeds.
  \<^item> \<open>getentropy c n\<close>: the outcome of the \<open>c\<close>-th call of the run, for \<open>n\<close> bytes;
    the call number is the state threaded through the code as \<open>rng\<close>.
  \<^item> \<open>fwrite_ok n\<close>: whether writing \<open>n\<close> bytes to an open file succeeds.
\<close>

type_synonym rng = nat

record platform =
  b3 :: b3
  malloc_ok :: "nat \<Rightarrow> bool"
  getentropy :: "rng \<Rightarrow> nat \<Rightarrow> bytes option"
  fwrite_ok :: "nat \<Rightarrow> bool"

text \<open>Documented behaviour: a successful call fills the buffer it was given.\<close>

definition platform_ok :: "platform \<Rightarrow> bool" where
  "platform_ok P \<longleftrightarrow> b3_length (b3 P) \<and>
     (\<forall>c n bs. getentropy P c n = Some bs \<longrightarrow> length bs = n)"

lemma platform_b3_length [intro]: "platform_ok P \<Longrightarrow> b3_length (b3 P)"
  by (simp add: platform_ok_def)

definition BLIND_MSS_GETENTROPY_MAX :: nat where
  "BLIND_MSS_GETENTROPY_MAX = 256"

text \<open>The loop of \<open>randombytes_fill\<close>: \<open>out\<close> is what has been written so far.\<close>

function randombytes_loop :: "platform \<Rightarrow> nat \<Rightarrow> bytes \<Rightarrow> rng \<Rightarrow> bytes option \<times> rng" where
  "randombytes_loop P n out c =
     (if n = 0 then (Some out, c)
      else let chunk = (if n < BLIND_MSS_GETENTROPY_MAX then n else BLIND_MSS_GETENTROPY_MAX)
           in case getentropy P c chunk of
                None \<Rightarrow> (None, Suc c)
              | Some bs \<Rightarrow> randombytes_loop P (n - chunk) (out @ bs) (Suc c))"
  by pat_completeness auto
termination
  by (relation "measure (\<lambda>(P, n, out, c). n)") (auto simp: BLIND_MSS_GETENTROPY_MAX_def)

declare randombytes_loop.simps [simp del]

text \<open>The result code, the buffer afterwards, and the entropy state.\<close>

definition randombytes_fill ::
  "platform \<Rightarrow> bytes option \<Rightarrow> nat \<Rightarrow> rng \<Rightarrow> (bool \<times> bytes option) \<times> rng" where
  "randombytes_fill P buffer n c =
     (case buffer of
        None \<Rightarrow> if n \<noteq> 0 then ((False, None), c) else ((True, None), c)
      | Some buf \<Rightarrow>
          (case randombytes_loop P n [] c of
             (None, c') \<Rightarrow> ((False, Some (replicate n 0 @ drop n buf)), c')
           | (Some out, c') \<Rightarrow> ((True, Some (out @ drop n buf)), c')))"

text \<open>A call on a buffer of exactly \<open>n\<close> bytes, as every caller makes it.\<close>

definition random_bytes :: "platform \<Rightarrow> nat \<Rightarrow> rng \<Rightarrow> bytes option \<times> rng" where
  "random_bytes P n c =
     (case randombytes_fill P (Some (replicate n 0)) n c of
        ((ok, out), c') \<Rightarrow> (if ok then out else None, c'))"

lemma randombytes_loop_length:
  "platform_ok P \<Longrightarrow> randombytes_loop P n out c = (Some bs, c') \<Longrightarrow> length bs = length out + n"
proof (induction P n out c rule: randombytes_loop.induct)
  case (1 P n out c)
  show ?case
  proof (cases "n = 0")
    case True
    with "1.prems" show ?thesis by (simp add: randombytes_loop.simps)
  next
    case False
    let ?chunk = "if n < BLIND_MSS_GETENTROPY_MAX then n else BLIND_MSS_GETENTROPY_MAX"
    from False "1.prems" obtain ent where e: "getentropy P c ?chunk = Some ent"
      and r: "randombytes_loop P (n - ?chunk) (out @ ent) (Suc c) = (Some bs, c')"
      by (subst (asm) randombytes_loop.simps) (simp add: Let_def split: option.splits)
    have "length ent = ?chunk" using "1.prems"(1) e unfolding platform_ok_def by blast
    with "1.IH" [OF False refl e "1.prems"(1) r] show ?thesis by auto
  qed
qed

text \<open>The loop makes one call for each started block of 256 bytes.\<close>

lemma randombytes_loop_calls:
  "randombytes_loop P n out c = (Some bs, c') \<Longrightarrow>
     c' = c + (n + (BLIND_MSS_GETENTROPY_MAX - 1)) div BLIND_MSS_GETENTROPY_MAX"
proof (induction P n out c rule: randombytes_loop.induct)
  case (1 P n out c)
  show ?case
  proof (cases "n = 0")
    case True
    with "1.prems" show ?thesis by (simp add: randombytes_loop.simps BLIND_MSS_GETENTROPY_MAX_def)
  next
    case False
    let ?chunk = "if n < BLIND_MSS_GETENTROPY_MAX then n else BLIND_MSS_GETENTROPY_MAX"
    from False "1.prems" obtain ent where e: "getentropy P c ?chunk = Some ent"
      and r: "randombytes_loop P (n - ?chunk) (out @ ent) (Suc c) = (Some bs, c')"
      by (subst (asm) randombytes_loop.simps) (simp add: Let_def split: option.splits)
    have "c' = Suc c + (n - ?chunk + (BLIND_MSS_GETENTROPY_MAX - 1)) div BLIND_MSS_GETENTROPY_MAX"
      by (rule "1.IH" [OF False refl e r])
    also have "\<dots> = c + (n + (BLIND_MSS_GETENTROPY_MAX - 1)) div BLIND_MSS_GETENTROPY_MAX"
      using False by (auto simp: BLIND_MSS_GETENTROPY_MAX_def)
    finally show ?thesis .
  qed
qed

lemma length_random_bytes [lens]:
  "platform_ok P \<Longrightarrow> random_bytes P n c = (Some bs, c') \<Longrightarrow> length bs = n"
  by (auto simp: random_bytes_def randombytes_fill_def split: prod.splits option.splits if_splits
      dest: randombytes_loop_length)

end
