(* ===== verification/Xmss.thy ===== *)
theory Xmss
  imports Platform
begin

text \<open>
  \<^verbatim>\<open>xmss.c\<close> and \<^verbatim>\<open>xmss.h\<close>: the stateful target-sum WOTS+/XMSS signature. A node is a list
  of 16 bytes, a tree level a list of nodes, a tree the list of its levels from the
  leaves up. Indices and epochs keep their widths (\<open>u32\<close>, \<open>u64\<close>); the heights, which the
  constructor bounds by 32, are \<open>nat\<close> once checked. Arrays of known size are lists whose
  lengths the type invariant of theory \<open>Xmss_Correct\<close> states.
\<close>

definition XMSS_NODE_BYTES :: nat where "XMSS_NODE_BYTES = 16"
definition XMSS_NODE_WORDS :: nat where "XMSS_NODE_WORDS = XMSS_NODE_BYTES div 4"
definition XMSS_PK_SEED_BYTES :: nat where "XMSS_PK_SEED_BYTES = 16"
definition XMSS_H :: nat where "XMSS_H = 32"
definition XMSS_H_DEFAULT :: nat where "XMSS_H_DEFAULT = 10"
definition XMSS_SUBTREE_H :: nat where "XMSS_SUBTREE_H = 16"
definition XMSS_WOTS_LEN :: nat where "XMSS_WOTS_LEN = 42"
definition XMSS_WOTS_MAX_STEPS :: nat where "XMSS_WOTS_MAX_STEPS = 7"
definition XMSS_TARGET_SUM :: nat where "XMSS_TARGET_SUM = 195"
definition XMSS_NONCE_LEN :: nat where "XMSS_NONCE_LEN = 24"
definition XMSS_MSG_HASH_LEN :: nat where "XMSS_MSG_HASH_LEN = 16"
definition XMSS_COORD_RES_BITS :: nat where "XMSS_COORD_RES_BITS = 3"
definition XMSS_EPOCH_BYTES :: nat where "XMSS_EPOCH_BYTES = 4"
definition XMSS_DIGITS_PER_WORD :: nat where "XMSS_DIGITS_PER_WORD = XMSS_WOTS_LEN div 2"

lemmas xmss_sizes = XMSS_NODE_BYTES_def XMSS_NODE_WORDS_def XMSS_PK_SEED_BYTES_def XMSS_H_def
  XMSS_H_DEFAULT_def XMSS_SUBTREE_H_def XMSS_WOTS_LEN_def XMSS_WOTS_MAX_STEPS_def
  XMSS_TARGET_SUM_def XMSS_NONCE_LEN_def XMSS_MSG_HASH_LEN_def XMSS_COORD_RES_BITS_def
  XMSS_EPOCH_BYTES_def XMSS_DIGITS_PER_WORD_def

definition XMSS_TWEAK_CHAIN :: byte where "XMSS_TWEAK_CHAIN = 0"
definition XMSS_TWEAK_TREE :: byte where "XMSS_TWEAK_TREE = 1"
definition XMSS_TWEAK_MESSAGE :: byte where "XMSS_TWEAK_MESSAGE = 2"
definition XMSS_TWEAK_LEAF :: byte where "XMSS_TWEAK_LEAF = 3"

type_synonym node = bytes

definition xmss_node_load_word :: "bytes \<Rightarrow> nat \<Rightarrow> u32" where
  "xmss_node_load_word node word = load_le (segment (4 * word) 4 node)"

definition xmss_node_store_word :: "bytes \<Rightarrow> nat \<Rightarrow> u32 \<Rightarrow> bytes" where
  "xmss_node_store_word node word val = take (4 * word) node @ bytes_le 4 val @ drop (4 * word + 4) node"

definition xmss_coord_bit_pos :: "nat \<Rightarrow> nat" where
  "xmss_coord_bit_pos i =
     (if i < XMSS_DIGITS_PER_WORD then XMSS_COORD_RES_BITS * i
      else 64 + XMSS_COORD_RES_BITS * (i - XMSS_DIGITS_PER_WORD))"

record xmss_sig =
  xs_leaf_index :: u32
  xs_nonce :: bytes
  xs_sig_hashes :: "node list"
  xs_auth_path :: "node list"

definition XMSS_SIG_BYTES :: nat where
  "XMSS_SIG_BYTES = 4 + XMSS_NONCE_LEN + XMSS_WOTS_LEN * XMSS_NODE_BYTES + XMSS_H * XMSS_NODE_BYTES"

subsection \<open>Hashes\<close>

definition put_epoch_be :: "u32 \<Rightarrow> bytes" where
  "put_epoch_be epoch = bytes_be XMSS_EPOCH_BYTES epoch"

definition xmss_hash_message :: "platform \<Rightarrow> bytes \<Rightarrow> u32 \<Rightarrow> bytes \<Rightarrow> bytes \<Rightarrow> bytes" where
  "xmss_hash_message P pk_seed epoch nonce message =
     (let dom = pk_seed @ [XMSS_TWEAK_MESSAGE] @ put_epoch_be epoch
      in if \<not> malloc_ok P (length nonce + length message) then replicate 32 0
         else blake3_th_into (b3 P) dom (nonce @ message) 32)"

definition xmss_hash_chain_step ::
  "platform \<Rightarrow> bytes \<Rightarrow> u32 \<Rightarrow> node \<Rightarrow> byte \<Rightarrow> byte \<Rightarrow> node" where
  "xmss_hash_chain_step P pk_seed epoch inp chain_idx pos =
     (let dom = inp @ [XMSS_TWEAK_CHAIN];
          data = pk_seed @ put_epoch_be epoch @ [chain_idx, pos]
      in blake3_th_into (b3 P) dom data XMSS_NODE_BYTES)"

definition xmss_hash_chain_multi ::
  "platform \<Rightarrow> bytes \<Rightarrow> u32 \<Rightarrow> node \<Rightarrow> byte \<Rightarrow> byte \<Rightarrow> byte \<Rightarrow> node" where
  "xmss_hash_chain_multi P pk_seed epoch start chain_idx start_pos steps =
     fold (\<lambda>i cur. let pos = start_pos + of_nat i + 1
                   in xmss_hash_chain_step P pk_seed epoch cur chain_idx pos)
          [0..<unat steps] start"

definition xmss_hash_tree_node ::
  "platform \<Rightarrow> bytes \<Rightarrow> node \<Rightarrow> node \<Rightarrow> u32 \<Rightarrow> u32 \<Rightarrow> node" where
  "xmss_hash_tree_node P pk_seed left right level index =
     (let dom = pk_seed @ [XMSS_TWEAK_TREE, ucast (level AND 0xff)] @ bytes_le 4 index;
          data = left @ right
      in blake3_th_into (b3 P) dom data XMSS_NODE_BYTES)"

definition xmss_hash_public_key :: "platform \<Rightarrow> bytes \<Rightarrow> u32 \<Rightarrow> node list \<Rightarrow> node" where
  "xmss_hash_public_key P pk_seed epoch pk_hashes =
     (let dom = pk_seed @ [XMSS_TWEAK_LEAF] @ put_epoch_be epoch
      in blake3_th_into (b3 P) dom (concat pk_hashes) XMSS_NODE_BYTES)"

text \<open>The result code and the coordinates.\<close>

definition xmss_extract_coords :: "bytes \<Rightarrow> bool \<times> byte list" where
  "xmss_extract_coords hash =
     (let coords = map (\<lambda>i.
            let pos = xmss_coord_bit_pos i
            in fold (\<lambda>k c. let j = pos + k
                           in c OR push_bit k (drop_bit (j mod 8) (hash ! (j div 8)) AND 1))
                    [0..<XMSS_COORD_RES_BITS] 0) [0..<XMSS_WOTS_LEN]
      in (drop_bit 7 (hash ! 7) OR drop_bit 7 (hash ! (XMSS_MSG_HASH_LEN - 1)) = 0, coords))"

subsection \<open>WOTS\<close>

definition xmss_wots_gen_sk :: "platform \<Rightarrow> bytes \<Rightarrow> u32 \<Rightarrow> node list" where
  "xmss_wots_gen_sk P sk_seed leaf_index =
     (let leaf_be = bytes_be 4 leaf_index
      in blocks XMSS_NODE_BYTES XMSS_WOTS_LEN
           (blake3_keyed_xof (b3 P) sk_seed BLAKE3_XOF_DOM_XMSS_WOTS_SK leaf_be
              (XMSS_NODE_BYTES * XMSS_WOTS_LEN)))"

definition xmss_wots_pk_from_sk :: "platform \<Rightarrow> bytes \<Rightarrow> u32 \<Rightarrow> node list \<Rightarrow> node list" where
  "xmss_wots_pk_from_sk P pk_seed epoch sk =
     map (\<lambda>i. xmss_hash_chain_multi P pk_seed epoch (sk ! i) (of_nat i) 0 (of_nat XMSS_WOTS_MAX_STEPS))
         [0..<XMSS_WOTS_LEN]"

definition xmss_wots_sign :: "platform \<Rightarrow> bytes \<Rightarrow> u32 \<Rightarrow> node list \<Rightarrow> byte list \<Rightarrow> node list" where
  "xmss_wots_sign P pk_seed epoch sk coords =
     map (\<lambda>i. if coords ! i = 0 then sk ! i
              else xmss_hash_chain_multi P pk_seed epoch (sk ! i) (of_nat i) 0 (coords ! i))
         [0..<XMSS_WOTS_LEN]"

definition xmss_wots_pk_from_sig :: "platform \<Rightarrow> bytes \<Rightarrow> u32 \<Rightarrow> node list \<Rightarrow> byte list \<Rightarrow> node list" where
  "xmss_wots_pk_from_sig P pk_seed epoch sig coords =
     map (\<lambda>i. let remaining = of_nat XMSS_WOTS_MAX_STEPS - coords ! i
              in if remaining = 0 then sig ! i
                 else xmss_hash_chain_multi P pk_seed epoch (sig ! i) (of_nat i) (coords ! i) remaining)
         [0..<XMSS_WOTS_LEN]"

subsection \<open>Trees\<close>

definition xmss_alloc_levels :: "platform \<Rightarrow> nat \<Rightarrow> bool" where
  "xmss_alloc_levels P levels =
     list_all (\<lambda>h. malloc_ok P (2 ^ (levels - h) * XMSS_NODE_BYTES)) [0..<levels + 1]"

definition xmss_subtree_leaf :: "platform \<Rightarrow> bytes \<Rightarrow> bytes \<Rightarrow> u32 \<Rightarrow> nat \<Rightarrow> nat \<Rightarrow> node" where
  "xmss_subtree_leaf P sk_seed pk_seed s subtree_h j =
     (let base_epoch = push_bit subtree_h (ucast s :: u64);
          epoch = ucast (base_epoch + of_nat j) :: u32;
          sk = xmss_wots_gen_sk P sk_seed epoch;
          pk = xmss_wots_pk_from_sk P pk_seed epoch sk
      in xmss_hash_public_key P pk_seed epoch pk)"

definition xmss_build_subtree :: "platform \<Rightarrow> bytes \<Rightarrow> bytes \<Rightarrow> u32 \<Rightarrow> nat \<Rightarrow> node list list" where
  "xmss_build_subtree P sk_seed pk_seed s subtree_h =
     fold (\<lambda>h sub.
             let n = 2 ^ (subtree_h - h);
                 base_index = push_bit (subtree_h - h) (ucast s :: u64)
             in sub @ [map (\<lambda>j. xmss_hash_tree_node P pk_seed (sub ! (h - 1) ! (2 * j))
                                  (sub ! (h - 1) ! (2 * j + 1)) (of_nat (h - 1))
                                  (ucast (base_index + of_nat j))) [0..<n]])
          [1..<subtree_h + 1]
          [map (xmss_subtree_leaf P sk_seed pk_seed s subtree_h) [0..<2 ^ subtree_h]]"

text \<open>\<open>top0\<close> is the bottom level the caller has filled.\<close>

definition xmss_build_top :: "platform \<Rightarrow> bytes \<Rightarrow> nat \<Rightarrow> nat \<Rightarrow> node list \<Rightarrow> node list list" where
  "xmss_build_top P pk_seed subtree_h top_h top0 =
     fold (\<lambda>r top.
             let n = 2 ^ (top_h - r)
             in top @ [map (\<lambda>i. xmss_hash_tree_node P pk_seed (top ! (r - 1) ! (2 * i))
                                  (top ! (r - 1) ! (2 * i + 1)) (of_nat (subtree_h + r - 1))
                                  (of_nat i)) [0..<n]])
          [1..<top_h + 1] [top0]"

definition xmss_derive_upper_siblings :: "platform \<Rightarrow> bytes \<Rightarrow> nat \<Rightarrow> node list" where
  "xmss_derive_upper_siblings P sk_seed levels =
     (if levels = 0 then []
      else blocks XMSS_NODE_BYTES levels
             (blake3_keyed_xof (b3 P) sk_seed BLAKE3_XOF_DOM_XMSS_UPPER [] (XMSS_NODE_BYTES * levels)))"

definition xmss_climb_upper :: "platform \<Rightarrow> bytes \<Rightarrow> node \<Rightarrow> nat \<Rightarrow> node list \<Rightarrow> node" where
  "xmss_climb_upper P pk_seed real_root height upper =
     fold (\<lambda>i node. xmss_hash_tree_node P pk_seed node (upper ! i) (of_nat (height + i)) 0)
          [0..<XMSS_H - height] real_root"

record xmss_keypair =
  kp_sk_seed :: bytes
  kp_pk_seed :: bytes
  kp_height :: nat
  kp_subtree_h :: nat
  kp_top :: "node list list"
  kp_bottom :: "node list list"
  kp_cached_subtree :: u64
  kp_upper :: "node list"
  kp_root :: node

text \<open>The size of the C structure on a 64-bit platform.\<close>

definition sizeof_xmss_keypair :: nat where
  "sizeof_xmss_keypair = 32 + 16 + 4 + 4 + 33 * 8 + 33 * 8 + 8 + 32 * 16 + 16"

text \<open>The sweep over the bottom subtrees: the top level's leaves and the last subtree built.\<close>

definition xmss_sweep :: "platform \<Rightarrow> bytes \<Rightarrow> bytes \<Rightarrow> nat \<Rightarrow> nat \<Rightarrow> node list \<times> node list list" where
  "xmss_sweep P sk_seed pk_seed top_h subtree_h =
     fold (\<lambda>s (top0, bottom).
             let bottom = xmss_build_subtree P sk_seed pk_seed (of_nat s) subtree_h
             in (top0 @ [bottom ! subtree_h ! 0], bottom))
          [0..<2 ^ top_h] ([], [])"

definition xmss_keypair_new_split ::
  "platform \<Rightarrow> bytes \<Rightarrow> bytes \<Rightarrow> int \<Rightarrow> int \<Rightarrow> xmss_keypair option" where
  "xmss_keypair_new_split P sk_seed pk_seed height_arg subtree_arg =
     (if height_arg < 1 \<or> height_arg > int XMSS_H then None
      else if subtree_arg < 1 \<or> subtree_arg > height_arg then None
      else if \<not> malloc_ok P sizeof_xmss_keypair then None
      else
        let height = nat height_arg;
            subtree_h = nat subtree_arg;
            top_h = height - subtree_h
        in if \<not> xmss_alloc_levels P top_h then None
           else if \<not> xmss_alloc_levels P subtree_h then None
           else
             let (top0, bottom) = xmss_sweep P sk_seed pk_seed top_h subtree_h;
                 cached = (if top_h = 0 then 0 else push_bit top_h 1 - 1);
                 top = xmss_build_top P pk_seed subtree_h top_h top0;
                 upper = xmss_derive_upper_siblings P sk_seed (XMSS_H - height);
                 root = xmss_climb_upper P pk_seed (top ! top_h ! 0) height upper
             in Some \<lparr>kp_sk_seed = sk_seed, kp_pk_seed = pk_seed, kp_height = height,
                      kp_subtree_h = subtree_h, kp_top = top, kp_bottom = bottom,
                      kp_cached_subtree = cached, kp_upper = upper, kp_root = root\<rparr>)"

definition xmss_keypair_new :: "platform \<Rightarrow> bytes \<Rightarrow> bytes \<Rightarrow> int \<Rightarrow> xmss_keypair option" where
  "xmss_keypair_new P sk_seed pk_seed height =
     xmss_keypair_new_split P sk_seed pk_seed height
       (if height < int XMSS_SUBTREE_H then height else int XMSS_SUBTREE_H)"

definition xmss_keypair_capacity :: "xmss_keypair \<Rightarrow> u64" where
  "xmss_keypair_capacity kp = push_bit (kp_height kp) 1"

definition xmss_compute_root :: "platform \<Rightarrow> bytes \<Rightarrow> bytes \<Rightarrow> int \<Rightarrow> node" where
  "xmss_compute_root P sk_seed pk_seed height =
     (case xmss_keypair_new P sk_seed pk_seed height of
        None \<Rightarrow> replicate XMSS_NODE_BYTES 0
      | Some kp \<Rightarrow> kp_root kp)"

subsection \<open>Signing and verifying\<close>

definition xmss_walk_step :: "platform \<Rightarrow> bytes \<Rightarrow> node list \<Rightarrow> nat \<Rightarrow> node \<times> u32 \<Rightarrow> node \<times> u32" where
  "xmss_walk_step P pk_seed auth_path h = (\<lambda>(node, idx).
     let parent = (if idx AND 1 = 0
                   then xmss_hash_tree_node P pk_seed node (auth_path ! h) (of_nat h) (drop_bit 1 idx)
                   else xmss_hash_tree_node P pk_seed (auth_path ! h) node (of_nat h) (drop_bit 1 idx))
     in (parent, drop_bit 1 idx))"

definition xmss_walk_auth_path :: "platform \<Rightarrow> bytes \<Rightarrow> node \<Rightarrow> u32 \<Rightarrow> node list \<Rightarrow> node" where
  "xmss_walk_auth_path P pk_seed leaf leaf_index auth_path =
     fst (fold (xmss_walk_step P pk_seed auth_path) [0..<XMSS_H] (leaf, leaf_index))"

definition coords_sum :: "byte list \<Rightarrow> nat" where
  "coords_sum coords = sum_list (map unat coords)"

text \<open>
  The nonce loop. The outer \<open>None\<close> is a run that never returns; \<open>Some (None, c)\<close> is the
  return value 0 after a failure of the entropy source.
\<close>

partial_function (option) grind_nonce ::
  "platform \<Rightarrow> bytes \<Rightarrow> u32 \<Rightarrow> bytes \<Rightarrow> rng \<Rightarrow> ((bytes \<times> byte list) option \<times> rng) option" where
  "grind_nonce P pk_seed epoch message c =
     (case random_bytes P XMSS_NONCE_LEN c of
        (None, c') \<Rightarrow> Some (None, c')
      | (Some nonce, c') \<Rightarrow>
          let mh = xmss_hash_message P pk_seed epoch nonce message;
              ok = fst (xmss_extract_coords mh);
              coords = snd (xmss_extract_coords mh)
          in if \<not> ok then grind_nonce P pk_seed epoch message c'
             else if coords_sum coords = XMSS_TARGET_SUM then Some (Some (nonce, coords), c')
             else grind_nonce P pk_seed epoch message c')"

text \<open>The authentication path: inside the bottom subtree, in the top tree, above the real root.\<close>

fun path_bottom :: "node list list \<Rightarrow> nat \<Rightarrow> u64 \<Rightarrow> nat list \<Rightarrow> u64 \<Rightarrow> node list \<times> u64" where
  "path_bottom bottom subtree_h s [] idx = ([], idx)"
| "path_bottom bottom subtree_h s (h # hs) idx =
     (let base = push_bit (subtree_h - h) s;
          entry = bottom ! h ! unat ((idx XOR 1) - base);
          (rest, idx') = path_bottom bottom subtree_h s hs (drop_bit 1 idx)
      in (entry # rest, idx'))"

fun path_top :: "node list list \<Rightarrow> nat list \<Rightarrow> u64 \<Rightarrow> node list" where
  "path_top levels [] idx = []"
| "path_top levels (r # rs) idx = levels ! r ! unat (idx XOR 1) # path_top levels rs (drop_bit 1 idx)"

text \<open>
  The updated key pair (its subtree cache), the signature on success, and the entropy
  state; the outer \<open>None\<close> is a nonce loop that never returns.
\<close>

definition xmss_keypair_sign ::
  "platform \<Rightarrow> xmss_keypair \<Rightarrow> u32 \<Rightarrow> bytes \<Rightarrow> rng \<Rightarrow> (xmss_keypair \<times> xmss_sig option \<times> rng) option" where
  "xmss_keypair_sign P kp leaf message c =
     (if ucast leaf \<ge> xmss_keypair_capacity kp then Some (kp, None, c)
      else case grind_nonce P (kp_pk_seed kp) leaf message c of
        None \<Rightarrow> None
      | Some (None, c') \<Rightarrow> Some (kp, None, c')
      | Some (Some (nonce, coords), c') \<Rightarrow>
          let sk = xmss_wots_gen_sk P (kp_sk_seed kp) leaf;
              hashes = xmss_wots_sign P (kp_pk_seed kp) leaf sk coords;
              s = drop_bit (kp_subtree_h kp) (ucast leaf :: u64);
              kp = (if kp_cached_subtree kp \<noteq> s
                    then kp\<lparr>kp_bottom := xmss_build_subtree P (kp_sk_seed kp) (kp_pk_seed kp)
                                           (ucast s) (kp_subtree_h kp),
                            kp_cached_subtree := s\<rparr>
                    else kp);
              (p1, idx) = path_bottom (kp_bottom kp) (kp_subtree_h kp) s [0..<kp_subtree_h kp] (ucast leaf);
              p2 = path_top (kp_top kp) [0..<kp_height kp - kp_subtree_h kp] idx;
              p3 = map (\<lambda>h. kp_upper kp ! (h - kp_height kp)) [kp_height kp..<XMSS_H]
          in Some (kp, Some \<lparr>xs_leaf_index = leaf, xs_nonce = nonce, xs_sig_hashes = hashes,
                             xs_auth_path = p1 @ p2 @ p3\<rparr>, c'))"

definition xmss_sign ::
  "platform \<Rightarrow> bytes \<Rightarrow> bytes \<Rightarrow> int \<Rightarrow> u32 \<Rightarrow> bytes \<Rightarrow> rng \<Rightarrow> (xmss_sig option \<times> rng) option" where
  "xmss_sign P sk_seed pk_seed height leaf message c =
     (case xmss_keypair_new P sk_seed pk_seed height of
        None \<Rightarrow> Some (None, c)
      | Some kp \<Rightarrow> map_option snd (xmss_keypair_sign P kp leaf message c))"

definition xmss_verify :: "platform \<Rightarrow> bytes \<Rightarrow> node \<Rightarrow> bytes \<Rightarrow> xmss_sig \<Rightarrow> bool" where
  "xmss_verify P pk_seed root message sig =
     (let mh = xmss_hash_message P pk_seed (xs_leaf_index sig) (xs_nonce sig) message;
          (ok, coords) = xmss_extract_coords mh
      in if \<not> ok then False
         else if coords_sum coords \<noteq> XMSS_TARGET_SUM then False
         else let pk_hashes = xmss_wots_pk_from_sig P pk_seed (xs_leaf_index sig) (xs_sig_hashes sig) coords;
                  leaf = xmss_hash_public_key P pk_seed (xs_leaf_index sig) pk_hashes
              in xmss_walk_auth_path P pk_seed leaf (xs_leaf_index sig) (xs_auth_path sig) = root)"

subsection \<open>Wire format\<close>

definition xmss_write_sig :: "xmss_sig \<Rightarrow> bytes" where
  "xmss_write_sig sig =
     bytes_le 4 (xs_leaf_index sig) @ xs_nonce sig @ concat (xs_sig_hashes sig) @ concat (xs_auth_path sig)"

definition xmss_read_sig :: "bytes \<Rightarrow> xmss_sig option" where
  "xmss_read_sig buf =
     (if length buf \<noteq> XMSS_SIG_BYTES then None
      else let o1 = 4; o2 = o1 + XMSS_NONCE_LEN; o3 = o2 + XMSS_WOTS_LEN * XMSS_NODE_BYTES
           in Some \<lparr>xs_leaf_index = load_le (segment 0 4 buf),
                    xs_nonce = segment o1 XMSS_NONCE_LEN buf,
                    xs_sig_hashes = blocks XMSS_NODE_BYTES XMSS_WOTS_LEN (drop o2 buf),
                    xs_auth_path = blocks XMSS_NODE_BYTES XMSS_H (drop o3 buf)\<rparr>)"

end
