(* ===== verification/Xmss_Correct.thy ===== *)
theory Xmss_Correct
  imports Xmss
begin

text \<open>
  Correctness of \<^verbatim>\<open>xmss.c\<close>. The specification is the Merkle tree as a function \<open>xtree\<close> of
  level and index; the arrays of a key pair are shown to hold its nodes (\<open>kp_wf\<close>), the
  authentication path the signer emits to be the siblings of the leaf, and the verifier's
  walk to climb the tree. The locale \<open>auth_tree\<close> is the contract between a tree and a
  walk along siblings.
\<close>

subsection \<open>Walking up a tree\<close>

fun walk :: "(nat \<Rightarrow> nat \<Rightarrow> 'n \<Rightarrow> 'n \<Rightarrow> 'n) \<Rightarrow> (nat \<Rightarrow> 'n) \<Rightarrow> nat \<Rightarrow> nat \<Rightarrow> 'n \<Rightarrow> 'n" where
  "walk combine path 0 idx x = x"
| "walk combine path (Suc h) idx x =
     (let y = walk combine path h idx x; j = idx div 2 ^ h
      in if even j then combine h (j div 2) y (path h) else combine h (j div 2) (path h) y)"

locale auth_tree =
  fixes tree :: "nat \<Rightarrow> nat \<Rightarrow> 'n"
    and combine :: "nat \<Rightarrow> nat \<Rightarrow> 'n \<Rightarrow> 'n \<Rightarrow> 'n"
  assumes tree_Suc: "tree (Suc h) i = combine h i (tree h (2 * i)) (tree h (2 * i + 1))"
begin

lemma climb_sibling:
  "(if even j then combine h (j div 2) (tree h j) (tree h (j XOR 1))
    else combine h (j div 2) (tree h (j XOR 1)) (tree h j)) = tree (Suc h) (j div 2)"
  by (cases "even j") (auto simp: tree_Suc xor_nat_unfold elim!: evenE oddE)

lemma walk_siblings:
  "(\<And>h. h < n \<Longrightarrow> path h = tree h (idx div 2 ^ h XOR 1)) \<Longrightarrow>
     walk combine path n idx (tree 0 idx) = tree n (idx div 2 ^ n)"
proof (induction n)
  case (Suc n)
  then have "walk combine path n idx (tree 0 idx) = tree n (idx div 2 ^ n)" by simp
  moreover have "path n = tree n (idx div 2 ^ n XOR 1)" using Suc.prems by simp
  moreover have "idx div 2 ^ n div 2 = idx div 2 ^ Suc n" by (metis div_exp_eq add.commute plus_1_eq_Suc power_one_right)
  ultimately show ?case
    using climb_sibling [of "idx div 2 ^ n" n] by (auto simp: Let_def split: if_splits)
qed simp

end

text \<open>Levels built bottom-up from a leaf level hold the tree they are built from.\<close>

lemma build_levels:
  fixes spec :: "nat \<Rightarrow> nat \<Rightarrow> 'n"
  assumes leaf: "\<And>j. j < 2 ^ n \<Longrightarrow> L0 ! j = spec 0 j" and L0: "length L0 = 2 ^ n"
    and step: "\<And>h j. h < n \<Longrightarrow> j < 2 ^ (n - Suc h) \<Longrightarrow>
                 spec (Suc h) j = g (Suc h) (spec h (2 * j)) (spec h (2 * j + 1)) j"
    and m: "m \<le> n"
  defines "T \<equiv> fold (\<lambda>h sub. sub @ [map (\<lambda>j. g h (sub ! (h - 1) ! (2 * j)) (sub ! (h - 1) ! (2 * j + 1)) j)
                                       [0..<2 ^ (n - h)]]) [1..<m + 1] [L0]"
  shows "length T = m + 1 \<and> (\<forall>h\<le>m. length (T ! h) = 2 ^ (n - h) \<and> (\<forall>j<2 ^ (n - h). T ! h ! j = spec h j))"
  using m unfolding T_def
proof (induction m)
  case 0
  then show ?case using leaf L0 by simp
next
  case (Suc m)
  let ?F = "\<lambda>h sub. sub @ [map (\<lambda>j. g h (sub ! (h - 1) ! (2 * j)) (sub ! (h - 1) ! (2 * j + 1)) j)
                                       [0..<2 ^ (n - h)]]"
  let ?T = "fold ?F [1..<m + 1] [L0]"
  have IH: "length ?T = m + 1"
    "\<And>h j. h \<le> m \<Longrightarrow> j < 2 ^ (n - h) \<Longrightarrow> ?T ! h ! j = spec h j"
    "\<And>h. h \<le> m \<Longrightarrow> length (?T ! h) = 2 ^ (n - h)"
    using Suc by auto
  have "n - m = Suc (n - Suc m)" using Suc.prems by simp
  then have pow: "(2 :: nat) ^ (n - m) = 2 * 2 ^ (n - Suc m)" by simp
  have new: "g (Suc m) (?T ! m ! (2 * j)) (?T ! m ! (2 * j + 1)) j = spec (Suc m) j"
    if "j < 2 ^ (n - Suc m)" for j
    using step [of m j] IH(2) [of m] Suc.prems that pow by simp
  have fold_eq: "fold ?F [1..<Suc m + 1] [L0] = ?F (Suc m) ?T" by simp
  show ?case
    unfolding fold_eq using IH new by (auto simp: nth_append le_Suc_eq)
qed

subsection \<open>The tree of a key\<close>

definition xleaf :: "platform \<Rightarrow> bytes \<Rightarrow> bytes \<Rightarrow> u32 \<Rightarrow> node" where
  "xleaf P sk_seed pk_seed epoch =
     xmss_hash_public_key P pk_seed epoch
       (xmss_wots_pk_from_sk P pk_seed epoch (xmss_wots_gen_sk P sk_seed epoch))"

fun xtree :: "platform \<Rightarrow> bytes \<Rightarrow> bytes \<Rightarrow> nat \<Rightarrow> nat \<Rightarrow> node" where
  "xtree P sk_seed pk_seed 0 i = xleaf P sk_seed pk_seed (of_nat i)"
| "xtree P sk_seed pk_seed (Suc h) i =
     xmss_hash_tree_node P pk_seed (xtree P sk_seed pk_seed h (2 * i))
       (xtree P sk_seed pk_seed h (2 * i + 1)) (of_nat h) (of_nat i)"

interpretation xt: auth_tree "xtree P sk_seed pk_seed"
    "\<lambda>h i l r. xmss_hash_tree_node P pk_seed l r (of_nat h) (of_nat i)" for P sk_seed pk_seed
  by unfold_locales simp

subsection \<open>Width lemmas\<close>

lemma ucast_of_nat_up: "n < 2 ^ 32 \<Longrightarrow> (ucast (of_nat n :: u32) :: u64) = of_nat n"
  by (simp add: unsigned_of_nat take_bit_nat_eq_self)

lemma ucast_of_nat_down: "(ucast (of_nat n :: u64) :: u32) = of_nat n"
  by (rule bit_word_eqI) (simp add: bit_simps)

lemma push_bit_of_nat_word: "push_bit k (of_nat n :: 'a::len word) = of_nat (n * 2 ^ k)"
  by (simp add: push_bit_eq_mult mult.commute)

subsection \<open>The arrays hold the tree\<close>

lemma subtree_leaf:
  assumes "s < 2 ^ 32"
  shows "xmss_subtree_leaf P sk pk (of_nat s) sh j = xtree P sk pk 0 (s * 2 ^ sh + j)"
proof -
  have "(ucast (push_bit sh (ucast (of_nat s :: u32) :: u64) + of_nat j :: u64) :: u32)
          = of_nat (s * 2 ^ sh + j)"
    unfolding ucast_of_nat_up [OF assms] push_bit_of_nat_word of_nat_add [symmetric]
    by (rule ucast_of_nat_down)
  then show ?thesis by (simp add: xmss_subtree_leaf_def xleaf_def Let_def)
qed

lemma build_subtree:
  assumes s: "s < 2 ^ 32"
    and T_def: "T = xmss_build_subtree P sk pk (of_nat s) sh"
  shows "length T = sh + 1 \<and> (\<forall>h\<le> sh. length (T ! h) = 2 ^ (sh - h) \<and>
           (\<forall>j<2 ^ (sh - h). T ! h ! j = xtree P sk pk h (s * 2 ^ (sh - h) + j)))"
proof -
  let ?g = "\<lambda>h l r j. xmss_hash_tree_node P pk l r (of_nat (h - 1)) (of_nat (s * 2 ^ (sh - h) + j))"
  have index: "(ucast (push_bit k (ucast (of_nat s :: u32) :: u64) + of_nat j :: u64) :: u32)
                 = of_nat (s * 2 ^ k + j)" for k j
    unfolding ucast_of_nat_up [OF s] push_bit_of_nat_word of_nat_add [symmetric]
    by (rule ucast_of_nat_down)
  have T: "T = fold (\<lambda>h sub. sub @ [map (\<lambda>j. ?g h (sub ! (h - 1) ! (2 * j)) (sub ! (h - 1) ! (2 * j + 1)) j)
                                       [0..<2 ^ (sh - h)]]) [1..<sh + 1]
               [map (xmss_subtree_leaf P sk pk (of_nat s) sh) [0..<2 ^ sh]]"
    unfolding T_def xmss_build_subtree_def Let_def index ..
  show ?thesis
    unfolding T
  proof (rule build_levels)
    fix h j :: nat assume h: "h < sh"
    then have "sh - h = Suc (sh - Suc h)" by simp
    then have "(2 :: nat) ^ (sh - h) = 2 * 2 ^ (sh - Suc h)" by simp
    then show "xtree P sk pk (Suc h) (s * 2 ^ (sh - Suc h) + j) =
        ?g (Suc h) (xtree P sk pk h (s * 2 ^ (sh - h) + 2 * j))
          (xtree P sk pk h (s * 2 ^ (sh - h) + (2 * j + 1))) j"
      by (simp add: algebra_simps)
  qed (simp_all add: subtree_leaf [OF s])
qed

lemma build_top:
  assumes top0: "\<And>i. i < 2 ^ t \<Longrightarrow> top0 ! i = xtree P sk pk sh i" and len: "length top0 = 2 ^ t"
    and T_def: "T = xmss_build_top P pk sh t top0"
  shows "length T = t + 1 \<and> (\<forall>r\<le>t. length (T ! r) = 2 ^ (t - r) \<and>
           (\<forall>i<2 ^ (t - r). T ! r ! i = xtree P sk pk (sh + r) i))"
proof -
  let ?g = "\<lambda>r a b i. xmss_hash_tree_node P pk a b (of_nat (sh + r - 1)) (of_nat i)"
  show ?thesis
    unfolding T_def xmss_build_top_def Let_def
    by (rule build_levels [where spec = "\<lambda>r. xtree P sk pk (sh + r)" and g = ?g])
       (use top0 len in simp_all)
qed

text \<open>The contents of the two arrays, as lists of levels.\<close>

definition bottom_spec :: "platform \<Rightarrow> bytes \<Rightarrow> bytes \<Rightarrow> nat \<Rightarrow> nat \<Rightarrow> node list list" where
  "bottom_spec P sk_seed pk_seed sh s =
     map (\<lambda>h. map (\<lambda>j. xtree P sk_seed pk_seed h (s * 2 ^ (sh - h) + j)) [0..<2 ^ (sh - h)]) [0..<sh + 1]"

definition top_spec :: "platform \<Rightarrow> bytes \<Rightarrow> bytes \<Rightarrow> nat \<Rightarrow> nat \<Rightarrow> node list list" where
  "top_spec P sk_seed pk_seed sh t =
     map (\<lambda>r. map (xtree P sk_seed pk_seed (sh + r)) [0..<2 ^ (t - r)]) [0..<t + 1]"

lemma build_subtree_eq:
  "s < 2 ^ 32 \<Longrightarrow> xmss_build_subtree P sk pk (of_nat s) sh = bottom_spec P sk pk sh s"
  using build_subtree [of s _ P sk pk sh]
  by (intro nth_equalityI) (auto simp: bottom_spec_def less_Suc_eq_le intro!: nth_equalityI simp del: upt_Suc)

lemma build_top_eq:
  "xmss_build_top P pk sh t (map (xtree P sk pk sh) [0..<2 ^ t]) = top_spec P sk pk sh t"
  using build_top [of t "map (xtree P sk pk sh) [0..<2 ^ t]" P sk pk sh]
  by (intro nth_equalityI) (auto simp: top_spec_def less_Suc_eq_le intro!: nth_equalityI simp del: upt_Suc)

lemma nth_bottom_spec:
  "h \<le> sh \<Longrightarrow> j < 2 ^ (sh - h) \<Longrightarrow> bottom_spec P sk pk sh s ! h ! j = xtree P sk pk h (s * 2 ^ (sh - h) + j)"
  by (simp add: bottom_spec_def del: upt_Suc)

lemma nth_top_spec:
  "r \<le> t \<Longrightarrow> i < 2 ^ (t - r) \<Longrightarrow> top_spec P sk pk sh t ! r ! i = xtree P sk pk (sh + r) i"
  by (simp add: top_spec_def del: upt_Suc)

lemma sweep_eq:
  assumes "t < 32"
  shows "xmss_sweep P sk pk t sh = (map (xtree P sk pk sh) [0..<2 ^ t], bottom_spec P sk pk sh (2 ^ t - 1))"
proof -
  let ?F = "\<lambda>s (top0, bottom). let bottom = xmss_build_subtree P sk pk (of_nat s) sh
                                 in (top0 @ [bottom ! sh ! 0], bottom)"
  have "n \<le> 2 ^ t \<Longrightarrow> fold ?F [0..<n] ([], []) =
          (map (xtree P sk pk sh) [0..<n], if n = 0 then [] else bottom_spec P sk pk sh (n - 1))" for n
  proof (induction n)
    case (Suc n)
    have "(2 :: nat) ^ t \<le> 2 ^ 31" using assms by (intro power_increasing) auto
    with Suc.prems have "n < 2 ^ 32" by simp
    then show ?case using Suc by (simp add: build_subtree_eq nth_bottom_spec)
  qed simp
  from this [of "2 ^ t"] show ?thesis by (simp add: xmss_sweep_def)
qed

subsection \<open>The key-pair invariant\<close>

definition xroot :: "platform \<Rightarrow> bytes \<Rightarrow> bytes \<Rightarrow> nat \<Rightarrow> node" where
  "xroot P sk_seed pk_seed height =
     xmss_climb_upper P pk_seed (xtree P sk_seed pk_seed height 0) height
       (xmss_derive_upper_siblings P sk_seed (XMSS_H - height))"

definition kp_wf :: "platform \<Rightarrow> xmss_keypair \<Rightarrow> bool" where
  "kp_wf P kp \<longleftrightarrow>
     1 \<le> kp_subtree_h kp \<and> kp_subtree_h kp \<le> kp_height kp \<and> kp_height kp \<le> XMSS_H \<and>
     kp_top kp = top_spec P (kp_sk_seed kp) (kp_pk_seed kp) (kp_subtree_h kp) (kp_height kp - kp_subtree_h kp) \<and>
     unat (kp_cached_subtree kp) < 2 ^ (kp_height kp - kp_subtree_h kp) \<and>
     kp_bottom kp = bottom_spec P (kp_sk_seed kp) (kp_pk_seed kp) (kp_subtree_h kp) (unat (kp_cached_subtree kp)) \<and>
     kp_upper kp = xmss_derive_upper_siblings P (kp_sk_seed kp) (XMSS_H - kp_height kp) \<and>
     kp_root kp = xroot P (kp_sk_seed kp) (kp_pk_seed kp) (kp_height kp)"

lemma unat_last: "t < 64 \<Longrightarrow> unat (push_bit t 1 - 1 :: u64) = 2 ^ t - 1"
proof -
  assume "t < 64"
  then have "(2 :: nat) ^ t < 2 ^ 64" by (intro power_strict_increasing) auto
  then have "2 ^ t - 1 < (2 :: nat) ^ 64" by linarith
  moreover have "(push_bit t 1 - 1 :: u64) = of_nat (2 ^ t - 1)"
    by (simp add: push_bit_eq_mult of_nat_diff)
  ultimately show ?thesis by (simp only: unat_of_nat_u64)
qed

lemma new_split_wf:
  assumes "xmss_keypair_new_split P sk pk ha sa = Some kp"
  shows "kp_wf P kp" "kp_sk_seed kp = sk" "kp_pk_seed kp = pk"
    "kp_height kp = nat ha" "kp_subtree_h kp = nat sa"
proof -
  have b: "1 \<le> sa" "sa \<le> ha" "ha \<le> 32"
    using assms by (auto simp: xmss_keypair_new_split_def xmss_sizes Let_def split: if_splits prod.splits)
  define t where "t = nat ha - nat sa"
  have t: "t < 32" "t < 64" using b by (auto simp: t_def)
  have sum: "nat sa + t = nat ha" using b by (simp add: t_def)
  have cached: "(if t = 0 then 0 else push_bit t 1 - 1) = (push_bit t 1 - 1 :: u64)" by simp
  have kp: "kp = \<lparr>kp_sk_seed = sk, kp_pk_seed = pk, kp_height = nat ha, kp_subtree_h = nat sa,
      kp_top = top_spec P sk pk (nat sa) t, kp_bottom = bottom_spec P sk pk (nat sa) (2 ^ t - 1),
      kp_cached_subtree = push_bit t 1 - 1,
      kp_upper = xmss_derive_upper_siblings P sk (XMSS_H - nat ha), kp_root = xroot P sk pk (nat ha)\<rparr>"
    using assms unfolding xmss_keypair_new_split_def Let_def t_def [symmetric] cached
    by (simp add: sweep_eq [OF t(1)] build_top_eq xroot_def nth_top_spec sum split: if_splits)
  show "kp_wf P kp" "kp_sk_seed kp = sk" "kp_pk_seed kp = pk"
    "kp_height kp = nat ha" "kp_subtree_h kp = nat sa"
    using b t(1) unat_last [OF t(2)] unfolding kp kp_wf_def by (auto simp: XMSS_H_def t_def [symmetric])
qed

lemma new_split_some_iff:
  "(\<exists>kp. xmss_keypair_new_split P sk pk ha sa = Some kp) \<longleftrightarrow>
     1 \<le> sa \<and> sa \<le> ha \<and> ha \<le> 32 \<and> malloc_ok P sizeof_xmss_keypair \<and>
     xmss_alloc_levels P (nat ha - nat sa) \<and> xmss_alloc_levels P (nat sa)"
  by (auto simp: xmss_keypair_new_split_def Let_def XMSS_H_def split: prod.splits)

subsection \<open>WOTS chains\<close>

lemma fold_chain_split:
  assumes "unat a + unat b < 256"
  shows "xmss_hash_chain_multi P pk e (xmss_hash_chain_multi P pk e x i 0 a) i a b =
           xmss_hash_chain_multi P pk e x i 0 (a + b)"
proof -
  have ab: "unat (a + b) = unat a + unat b" using assms by (simp add: unat_word_ariths)
  have shift: "[unat a..<unat a + unat b] = map (\<lambda>i. unat a + i) [0..<unat b]"
    by (simp add: map_add_upt add.commute)
  show ?thesis
    unfolding xmss_hash_chain_multi_def ab upt_add_eq_append [OF le0] fold_append shift fold_map
    by (simp add: comp_def add.assoc)
qed

definition coords_ok :: "byte list \<Rightarrow> bool" where
  "coords_ok coords \<longleftrightarrow> length coords = 42 \<and> (\<forall>c\<in>set coords. unat c \<le> 7)"

lemma three_bits:
  fixes f :: "nat \<Rightarrow> byte"
  shows "unat (fold (\<lambda>k c. c OR push_bit k (f k AND 1)) [0..<3] 0) \<le> 7"
proof -
  have upt: "[0..<3] = [0, 1, 2 :: nat]" by (simp add: upt_rec)
  show ?thesis
    unfolding upt
    by (cases "odd (f 0)"; cases "odd (f 1)"; cases "odd (f 2)")
       (simp_all add: and_one_eq mod_2_eq_odd push_bit_eq_mult)
qed

lemma extract_coords_ok: "coords_ok (snd (xmss_extract_coords h))"
proof -
  have "unat (fold (\<lambda>k c. c OR push_bit k (f k AND 1)) [0..<XMSS_COORD_RES_BITS] 0) \<le> 7"
    for f :: "nat \<Rightarrow> byte"
    using three_bits [of f] by (simp add: XMSS_COORD_RES_BITS_def del: upt_Suc)
  then show ?thesis
    by (simp add: coords_ok_def xmss_extract_coords_def Let_def XMSS_WOTS_LEN_def del: upt_Suc)
qed

lemma wots_sign_pk:
  assumes "coords_ok coords"
  shows "xmss_wots_pk_from_sig P pk e (xmss_wots_sign P pk e sk coords) coords =
           xmss_wots_pk_from_sk P pk e sk"
proof -
  have "(let remaining = of_nat XMSS_WOTS_MAX_STEPS - coords ! i
         in if remaining = 0 then xmss_wots_sign P pk e sk coords ! i
            else xmss_hash_chain_multi P pk e (xmss_wots_sign P pk e sk coords ! i) (of_nat i) (coords ! i) remaining)
        = xmss_hash_chain_multi P pk e (sk ! i) (of_nat i) 0 (of_nat XMSS_WOTS_MAX_STEPS)"
    if i: "i < XMSS_WOTS_LEN" for i
  proof -
    let ?c = "coords ! i"
    have c: "unat ?c \<le> 7" using assms i by (simp add: coords_ok_def XMSS_WOTS_LEN_def)
    then have c7: "?c \<le> 7" by (simp add: word_le_nat_alt)
    have sub: "unat (7 - ?c) = 7 - unat ?c" using c7 by (simp add: unat_sub_if_size word_le_nat_alt)
    have sig: "xmss_wots_sign P pk e sk coords ! i = xmss_hash_chain_multi P pk e (sk ! i) (of_nat i) 0 ?c"
      using i by (simp add: xmss_wots_sign_def xmss_hash_chain_multi_def)
    have "xmss_hash_chain_multi P pk e (xmss_wots_sign P pk e sk coords ! i) (of_nat i) ?c (7 - ?c) =
            xmss_hash_chain_multi P pk e (sk ! i) (of_nat i) 0 7"
      unfolding sig using fold_chain_split [of ?c "7 - ?c" P pk e "sk ! i" "of_nat i"] c sub by simp
    moreover have "xmss_hash_chain_multi P pk e y (of_nat i) ?c 0 = y" for y
      by (simp add: xmss_hash_chain_multi_def)
    ultimately show ?thesis by (auto simp: Let_def XMSS_WOTS_MAX_STEPS_def)
  qed
  then show ?thesis by (simp add: xmss_wots_pk_from_sig_def xmss_wots_pk_from_sk_def)
qed

subsection \<open>The authentication path\<close>

lemma sibling_block: "0 < d \<Longrightarrow> (q XOR 1) div 2 ^ d = q div (2 ^ d :: nat)"
proof -
  assume "0 < d"
  then obtain e where d: "d = Suc e" using gr0_conv_Suc by blast
  have "(q XOR 1) div 2 = q div 2" by (cases "even q") (auto simp: xor_nat_unfold elim!: evenE oddE)
  then show ?thesis by (simp add: d div_mult2_eq)
qed

lemma of_nat_xor_1: "(of_nat q :: u64) XOR 1 = of_nat (q XOR 1)"
  by (rule bit_word_eqI) (simp add: bit_simps)

lemma drop_bit_of_nat_u64: "q < 2 ^ 64 \<Longrightarrow> drop_bit 1 (of_nat q :: u64) = of_nat (q div 2)"
proof -
  assume q: "q < 2 ^ 64"
  then have "q div 2 < 2 ^ 64" using le_less_trans [OF div_le_dividend] by blast
  then have "unat (drop_bit 1 (of_nat q :: u64)) = unat (of_nat (q div 2) :: u64)"
    using q unfolding unat_drop_bit_eq by (simp only: unat_of_nat_u64 drop_bit_eq_div power_one_right)
  then show ?thesis by (simp only: unsigned_word_eqI)
qed

lemma path_bottom_siblings:
  assumes l: "l < 2 ^ 32" and sh: "sh \<le> 32"
  shows "k \<le> sh \<Longrightarrow>
    path_bottom (bottom_spec P sk pk sh (l div 2 ^ sh)) sh (of_nat (l div 2 ^ sh)) [k..<sh] (of_nat (l div 2 ^ k))
      = (map (\<lambda>h. xtree P sk pk h (l div 2 ^ h XOR 1)) [k..<sh], of_nat (l div 2 ^ sh))"
proof (induction "sh - k" arbitrary: k)
  case (Suc m)
  then have k: "k < sh" by simp
  let ?q = "l div 2 ^ k" and ?s = "l div 2 ^ sh"
  have q: "?q < 2 ^ 64" using le_less_trans [OF div_le_dividend l, of "2 ^ k"] by simp
  have s: "?s = (?q XOR 1) div 2 ^ (sh - k)"
    using k div_exp_eq [of l k "sh - k"] sibling_block [of "sh - k" ?q] by simp
  let ?r = "(?q XOR 1) mod 2 ^ (sh - k)"
  have split: "?q XOR 1 = ?s * 2 ^ (sh - k) + ?r" unfolding s by (simp add: div_mult_mod_eq)
  have r: "?r < 2 ^ (sh - k)" by simp
  have "(2 :: nat) ^ (sh - k) < 2 ^ 64" using sh by (intro power_strict_increasing) auto
  with r have r64: "?r < 2 ^ 64" by linarith
  have "(of_nat ?q XOR 1) - push_bit (sh - k) (of_nat ?s) = (of_nat ?r :: u64)"
    unfolding of_nat_xor_1 push_bit_of_nat_word using arg_cong [OF split, of "of_nat :: nat \<Rightarrow> u64"]
    by (simp only: of_nat_add add_diff_cancel_left')
  then have idx: "unat ((of_nat ?q XOR 1) - push_bit (sh - k) (of_nat ?s) :: u64) = ?r"
    using r64 by (simp only: unat_of_nat_u64)
  have entry: "bottom_spec P sk pk sh ?s ! k ! ?r = xtree P sk pk k (?q XOR 1)"
    using k r split by (simp add: nth_bottom_spec)
  have next_idx: "drop_bit 1 (of_nat ?q :: u64) = of_nat (l div 2 ^ Suc k)"
    using drop_bit_of_nat_u64 [OF q] div_exp_eq [of l k 1] by simp
  have "m = sh - Suc k" "Suc k \<le> sh" using Suc.hyps k by simp_all
  note IH = Suc.hyps(1) [OF this]
  show ?case
    unfolding upt_conv_Cons [OF k] path_bottom.simps Let_def idx entry next_idx IH by simp
qed simp

lemma path_top_siblings:
  assumes l: "l < 2 ^ (sh + t)" and h: "sh + t \<le> 32"
  shows "r \<le> t \<Longrightarrow> path_top (top_spec P sk pk sh t) [r..<t] (of_nat (l div 2 ^ (sh + r))) =
           map (\<lambda>r. xtree P sk pk (sh + r) (l div 2 ^ (sh + r) XOR 1)) [r..<t]"
proof (induction "t - r" arbitrary: r)
  case (Suc m)
  then have r: "r < t" by simp
  let ?q = "l div 2 ^ (sh + r)"
  have "(2 :: nat) ^ (sh + t) \<le> 2 ^ 32" using h by (intro power_increasing) auto
  with l have l32: "l < 2 ^ 32" by linarith
  have q64: "?q < 2 ^ 64" using le_less_trans [OF div_le_dividend l32, of "2 ^ (sh + r)"] by simp
  have "?q div 2 ^ (t - r) = 0" using l r div_exp_eq [of l "sh + r" "t - r"] by simp
  then have "(?q XOR 1) div 2 ^ (t - r) = 0" using r sibling_block [of "t - r" ?q] by simp
  then have x: "?q XOR 1 < 2 ^ (t - r)" by (simp add: div_eq_0_iff)
  have "(2 :: nat) ^ (t - r) < 2 ^ 64" using h by (intro power_strict_increasing) auto
  with x have x64: "?q XOR 1 < 2 ^ 64" by linarith
  have idx: "unat (of_nat ?q XOR 1 :: u64) = ?q XOR 1"
    unfolding of_nat_xor_1 by (rule unat_of_nat_u64 [OF x64])
  have entry: "top_spec P sk pk sh t ! r ! (?q XOR 1) = xtree P sk pk (sh + r) (?q XOR 1)"
    using r x by (intro nth_top_spec) auto
  have next_idx: "drop_bit 1 (of_nat ?q :: u64) = of_nat (l div 2 ^ (sh + Suc r))"
    using drop_bit_of_nat_u64 [OF q64] div_exp_eq [of l "sh + r" 1] by simp
  have "m = t - Suc r" "Suc r \<le> t" using Suc.hyps r by simp_all
  note IH = Suc.hyps(1) [OF this]
  show ?case
    unfolding upt_conv_Cons [OF r] path_top.simps idx entry next_idx IH by simp
qed simp

lemma drop_bit_of_nat_u32: "q < 2 ^ 32 \<Longrightarrow> drop_bit 1 (of_nat q :: u32) = of_nat (q div 2)"
proof -
  assume q: "q < 2 ^ 32"
  have val: "unat (of_nat x :: u32) = x" if "x < 2 ^ 32" for x
    using that by (simp add: unsigned_of_nat take_bit_nat_eq_self)
  have "q div 2 < 2 ^ 32" using q le_less_trans [OF div_le_dividend] by blast
  then have "unat (drop_bit 1 (of_nat q :: u32)) = unat (of_nat (q div 2) :: u32)"
    using q unfolding unat_drop_bit_eq by (simp only: val drop_bit_eq_div power_one_right)
  then show ?thesis by (simp only: unsigned_word_eqI)
qed

text \<open>The verifier's loop is the walk over the tree's combination function.\<close>

lemma walk_auth_path_walk:
  assumes l: "l < 2 ^ 32"
  shows "fold (xmss_walk_step P pk path) [0..<n] (leaf, of_nat l) =
     (walk (\<lambda>h i a b. xmss_hash_tree_node P pk a b (of_nat h) (of_nat i)) (nth path) n l leaf,
      of_nat (l div 2 ^ n))"
proof (induction n)
  case (Suc n)
  have q: "l div 2 ^ n < 2 ^ 32" using le_less_trans [OF div_le_dividend l] by blast
  have parity: "(of_nat (l div 2 ^ n) AND 1 :: u32) = 0 \<longleftrightarrow> even (l div 2 ^ n)"
    by (simp add: and_one_eq mod_2_eq_odd)
  have next_idx: "drop_bit 1 (of_nat (l div 2 ^ n) :: u32) = of_nat (l div 2 ^ n div 2)"
    by (rule drop_bit_of_nat_u32 [OF q])
  have "fold (xmss_walk_step P pk path) [0..<Suc n] (leaf, of_nat l) =
          xmss_walk_step P pk path n (fold (xmss_walk_step P pk path) [0..<n] (leaf, of_nat l))"
    by simp
  also have "\<dots> = (walk (\<lambda>h i a b. xmss_hash_tree_node P pk a b (of_nat h) (of_nat i)) (nth path) (Suc n) l leaf,
      of_nat (l div 2 ^ n div 2))"
    unfolding Suc.IH xmss_walk_step_def prod.case parity next_idx Let_def walk.simps by simp
  finally show ?case using div_exp_eq [of l n 1] by simp
qed simp

text \<open>Above the real root, the index is zero and the path is the derived siblings.\<close>

lemma walk_upper:
  assumes "l < 2 ^ height" and "\<And>i. i < m \<Longrightarrow> path (height + i) = upper ! i"
  shows "walk (\<lambda>h i a b. xmss_hash_tree_node P pk a b (of_nat h) (of_nat i)) path (height + m) l leaf =
     fold (\<lambda>i node. xmss_hash_tree_node P pk node (upper ! i) (of_nat (height + i)) 0) [0..<m]
       (walk (\<lambda>h i a b. xmss_hash_tree_node P pk a b (of_nat h) (of_nat i)) path height l leaf)"
  using assms(2)
proof (induction m)
  case (Suc m)
  have "l div 2 ^ (height + m) = 0"
    using assms(1) by (meson div_less less_le_trans le_add1 power_increasing one_le_numeral)
  then show ?case using Suc by (simp add: Let_def)
qed simp

subsection \<open>The signer against its specification\<close>

definition auth_path_spec :: "platform \<Rightarrow> bytes \<Rightarrow> bytes \<Rightarrow> nat \<Rightarrow> u32 \<Rightarrow> node list" where
  "auth_path_spec P sk_seed pk_seed height leaf =
     map (\<lambda>h. xtree P sk_seed pk_seed h (unat leaf div 2 ^ h XOR 1)) [0..<height]
     @ xmss_derive_upper_siblings P sk_seed (XMSS_H - height)"

text \<open>The signature on a leaf with the grinding outcome, with no cache and no split.\<close>

definition sig_spec :: "platform \<Rightarrow> bytes \<Rightarrow> bytes \<Rightarrow> nat \<Rightarrow> u32 \<Rightarrow> bytes \<Rightarrow> byte list \<Rightarrow> xmss_sig" where
  "sig_spec P sk_seed pk_seed height leaf nonce coords =
     \<lparr>xs_leaf_index = leaf, xs_nonce = nonce,
      xs_sig_hashes = xmss_wots_sign P pk_seed leaf (xmss_wots_gen_sk P sk_seed leaf) coords,
      xs_auth_path = auth_path_spec P sk_seed pk_seed height leaf\<rparr>"

text \<open>The cached bottom subtree after signing with a leaf.\<close>

definition kp_touch :: "platform \<Rightarrow> xmss_keypair \<Rightarrow> u32 \<Rightarrow> xmss_keypair" where
  "kp_touch P kp leaf =
     (let s = drop_bit (kp_subtree_h kp) (ucast leaf :: u64)
      in kp\<lparr>kp_bottom := bottom_spec P (kp_sk_seed kp) (kp_pk_seed kp) (kp_subtree_h kp) (unat s),
            kp_cached_subtree := s\<rparr>)"

lemma length_derive [simp]: "length (xmss_derive_upper_siblings P sk n) = n"
  by (simp add: xmss_derive_upper_siblings_def)

lemma unat_ucast_u64: "unat (ucast (x :: u32) :: u64) = unat x"
  by (simp add: unsigned_ucast_eq take_bit_nat_eq_self order.strict_trans [OF unsigned_less])

lemma unat_drop_div: "unat (drop_bit k w) = unat w div 2 ^ k"
  unfolding unat_drop_bit_eq by (rule drop_bit_eq_div)

lemma of_nat_unat_u64: "of_nat (unat x) = (x :: u64)"
  by simp

lemma capacity_less_iff:
  "kp_height kp \<le> 32 \<Longrightarrow> ucast (leaf :: u32) < xmss_keypair_capacity kp \<longleftrightarrow> unat leaf < 2 ^ kp_height kp"
proof -
  assume "kp_height kp \<le> 32"
  then have "(2 :: nat) ^ kp_height kp < 2 ^ 64" by (intro power_strict_increasing) auto
  moreover have "xmss_keypair_capacity kp = of_nat (2 ^ kp_height kp)"
    by (simp add: xmss_keypair_capacity_def push_bit_eq_mult)
  ultimately have "unat (xmss_keypair_capacity kp) = 2 ^ kp_height kp"
    by (simp only: unat_of_nat_u64)
  then show ?thesis unfolding word_less_nat_alt unat_ucast_u64 by (rule arg_cong)
qed

lemma sign_spec:
  assumes wf: "kp_wf P kp" and leaf: "unat leaf < 2 ^ kp_height kp"
  shows "xmss_keypair_sign P kp leaf message c =
     map_option (\<lambda>(r, c'). case r of
         None \<Rightarrow> (kp, None, c')
       | Some (nonce, coords) \<Rightarrow>
           (kp_touch P kp leaf,
            Some (sig_spec P (kp_sk_seed kp) (kp_pk_seed kp) (kp_height kp) leaf nonce coords), c'))
       (grind_nonce P (kp_pk_seed kp) leaf message c)"
proof -
  let ?sh = "kp_subtree_h kp" and ?sk = "kp_sk_seed kp" and ?pk = "kp_pk_seed kp" and ?l = "unat leaf"
  define t where "t = kp_height kp - ?sh"
  have h: "1 \<le> ?sh" "?sh + t = kp_height kp" "?sh \<le> 32" "kp_height kp \<le> 32" "?sh + t \<le> 32"
    using wf by (auto simp: kp_wf_def t_def XMSS_H_def)
  have l32: "?l < 2 ^ 32" using unsigned_less [of leaf] by simp
  have l: "?l < 2 ^ (?sh + t)" using leaf h by simp
  let ?s = "drop_bit ?sh (ucast leaf :: u64)"
  have ul: "(ucast leaf :: u64) = of_nat ?l" by simp
  have us: "unat ?s = ?l div 2 ^ ?sh" by (simp only: unat_drop_div unat_ucast_u64)
  then have s: "?s = of_nat (?l div 2 ^ ?sh)" using of_nat_unat_u64 [of ?s] by simp
  have s32: "?l div 2 ^ ?sh < 2 ^ 32" using le_less_trans [OF div_le_dividend l32] by blast
  have s_down: "(ucast ?s :: u32) = of_nat (?l div 2 ^ ?sh)" unfolding s by (rule ucast_of_nat_down)
  have touch: "(if kp_cached_subtree kp \<noteq> ?s
      then kp\<lparr>kp_bottom := xmss_build_subtree P ?sk ?pk (ucast ?s) ?sh, kp_cached_subtree := ?s\<rparr>
      else kp) = kp_touch P kp leaf"
    using wf unfolding s_down build_subtree_eq [OF s32] by (auto simp: kp_touch_def Let_def us kp_wf_def)
  have bottom: "path_bottom (bottom_spec P ?sk ?pk ?sh (unat ?s)) ?sh ?s [0..<?sh] (ucast leaf) =
      (map (\<lambda>h. xtree P ?sk ?pk h (?l div 2 ^ h XOR 1)) [0..<?sh], of_nat (?l div 2 ^ ?sh))"
    using path_bottom_siblings [OF l32 h(3) le0, of P ?sk ?pk]
    by (simp only: us s [symmetric] ul [symmetric] power_0 div_by_1)
  have shift: "[?sh..<kp_height kp] = map (\<lambda>r. ?sh + r) [0..<t]"
    using h(2) map_add_upt [of ?sh t] by (simp add: add.commute)
  have top: "path_top (top_spec P ?sk ?pk ?sh t) [0..<t] (of_nat (?l div 2 ^ ?sh)) =
      map (\<lambda>h. xtree P ?sk ?pk h (?l div 2 ^ h XOR 1)) [?sh..<kp_height kp]"
    using path_top_siblings [OF l h(5) le0, of P ?sk ?pk]
    by (simp only: shift map_map comp_def add_0_right)
  have upper: "map (\<lambda>h. kp_upper kp ! (h - kp_height kp)) [kp_height kp..<XMSS_H] =
      xmss_derive_upper_siblings P ?sk (XMSS_H - kp_height kp)"
    using wf by (intro nth_equalityI) (auto simp: kp_wf_def)
  have split: "[0..<kp_height kp] = [0..<?sh] @ [?sh..<kp_height kp]"
    using h by (metis le_add1 le0 upt_add_eq_append)
  have cap: "\<not> xmss_keypair_capacity kp \<le> ucast leaf" using capacity_less_iff [OF h(4)] leaf by (simp add: not_le)
  have top_kp: "kp_top kp = top_spec P ?sk ?pk ?sh t" using wf by (simp add: kp_wf_def t_def)
  show ?thesis
    unfolding xmss_keypair_sign_def Let_def touch
    using cap bottom top upper
    by (simp add: kp_touch_def Let_def t_def [symmetric] top_kp sig_spec_def auth_path_spec_def split
        split: option.split prod.split)
qed

lemma kp_touch_wf:
  assumes wf: "kp_wf P kp" and leaf: "unat leaf < 2 ^ kp_height kp"
  shows "kp_wf P (kp_touch P kp leaf)"
proof -
  have "(2 :: nat) ^ kp_height kp = 2 ^ (kp_height kp - kp_subtree_h kp) * 2 ^ kp_subtree_h kp"
    using wf by (simp add: kp_wf_def flip: power_add)
  then have "unat leaf div 2 ^ kp_subtree_h kp < 2 ^ (kp_height kp - kp_subtree_h kp)"
    using leaf by (simp add: div_less_iff_less_mult)
  then show ?thesis
    using wf unfolding kp_wf_def kp_touch_def Let_def
    by (simp add: unat_drop_div unat_ucast_u64)
qed

subsection \<open>The nonce loop\<close>

definition nonce_accepted :: "platform \<Rightarrow> bytes \<Rightarrow> u32 \<Rightarrow> bytes \<Rightarrow> bytes \<Rightarrow> bool" where
  "nonce_accepted P pk_seed epoch message nonce \<longleftrightarrow>
     (let mh = xmss_hash_message P pk_seed epoch nonce message
      in fst (xmss_extract_coords mh) \<and> coords_sum (snd (xmss_extract_coords mh)) = XMSS_TARGET_SUM)"

definition grind_good :: "platform \<Rightarrow> bytes \<Rightarrow> u32 \<Rightarrow> bytes \<Rightarrow> (bytes \<times> byte list) option \<Rightarrow> bool" where
  "grind_good P pk_seed epoch message r =
     (case r of None \<Rightarrow> \<exists>c. fst (random_bytes P XMSS_NONCE_LEN c) = None
      | Some (nonce, coords) \<Rightarrow> nonce_accepted P pk_seed epoch message nonce \<and>
          coords = snd (xmss_extract_coords (xmss_hash_message P pk_seed epoch nonce message)) \<and>
          (platform_ok P \<longrightarrow> length nonce = XMSS_NONCE_LEN))"

lemma grind_nonce_result:
  "grind_nonce P pk e message c = Some y \<Longrightarrow> grind_good P pk e message (fst y)"
proof -
  assume result: "grind_nonce P pk e message c = Some y"
  let ?Q = "\<lambda>((((P, pk), e), message), c) y. grind_good P pk e message (fst y)"
  have "?Q ((((P, pk), e), message), c) y"
  proof (rule grind_nonce.raw_induct [where Pa = ?Q, OF _ result])
    fix grind and P :: platform and pk e message c y
    assume IH: "\<And>pk e m c b y. grind pk e m c b = Some y \<Longrightarrow>
        ?Q ((((pk, e), m), c), b) y"
      and run: "(case random_bytes P XMSS_NONCE_LEN c of (None, c') \<Rightarrow> Some (None, c')
        | (Some nonce, c') \<Rightarrow>
            let mh = xmss_hash_message P pk e nonce message;
                ok = fst (xmss_extract_coords mh);
                coords = snd (xmss_extract_coords mh)
            in if \<not> ok then grind P pk e message c'
               else if coords_sum coords = XMSS_TARGET_SUM then Some (Some (nonce, coords), c')
               else grind P pk e message c') = Some y"
    obtain n c' where draw: "random_bytes P XMSS_NONCE_LEN c = (n, c')" by fastforce
    have "grind_good P pk e message (fst y)"
    proof (cases n)
      case None
      then have "fst (random_bytes P XMSS_NONCE_LEN c) = None" "fst y = None" using draw run by auto
      then show ?thesis by (auto simp: grind_good_def)
    next
      case (Some nonce)
      then show ?thesis
        using run IH [of P pk e message c' y] length_random_bytes [of P XMSS_NONCE_LEN c _ c']
        by (auto simp: draw grind_good_def nonce_accepted_def Let_def split: if_splits)
    qed
    then show "?Q ((((P, pk), e), message), c) y" by simp
  qed
  then show ?thesis by simp
qed

lemma grind_nonce_step:
  "grind_nonce P pk e message c =
     (case random_bytes P XMSS_NONCE_LEN c of
        (None, c') \<Rightarrow> Some (None, c')
      | (Some nonce, c') \<Rightarrow>
          if nonce_accepted P pk e message nonce
          then Some (Some (nonce, snd (xmss_extract_coords (xmss_hash_message P pk e nonce message))), c')
          else grind_nonce P pk e message c')"
  by (subst grind_nonce.simps) (auto simp: nonce_accepted_def Let_def split: option.split prod.split)

text \<open>The draws of the loop: one entropy call each.\<close>

definition draw :: "platform \<Rightarrow> rng \<Rightarrow> bytes option" where
  "draw P c = fst (random_bytes P XMSS_NONCE_LEN c)"

lemma random_bytes_24: "random_bytes P XMSS_NONCE_LEN c = (getentropy P c 24, Suc c)"
  by (simp add: random_bytes_def randombytes_fill_def randombytes_loop.simps XMSS_NONCE_LEN_def
      BLIND_MSS_GETENTROPY_MAX_def split: option.split)

lemma grind_nonce_returns:
  assumes "\<And>j. j < n \<Longrightarrow> (case getentropy P (c + j) 24 of None \<Rightarrow> False | Some nonce \<Rightarrow> \<not> nonce_accepted P pk e message nonce)"
  shows "grind_nonce P pk e message c = grind_nonce P pk e message (c + n)"
  using assms
proof (induction n)
  case (Suc n)
  then have "grind_nonce P pk e message c = grind_nonce P pk e message (c + n)" by simp
  also have "\<dots> = grind_nonce P pk e message (Suc (c + n))"
    using Suc.prems [of n] by (subst grind_nonce_step) (simp add: random_bytes_24 split: option.splits)
  finally show ?case by simp
qed simp

lemma path_walk:
  assumes leaf: "unat leaf < 2 ^ height" and h: "height \<le> 32"
  shows "xmss_walk_auth_path P pk (xleaf P sk pk leaf) leaf (auth_path_spec P sk pk height leaf) = xroot P sk pk height"
proof -
  let ?l = "unat leaf" and ?path = "auth_path_spec P sk pk height leaf"
  let ?comb = "\<lambda>h i a b. xmss_hash_tree_node P pk a b (of_nat h) (of_nat i)"
  have l32: "?l < 2 ^ 32" using unsigned_less [of leaf] by simp
  have sib: "?path ! k = xtree P sk pk k (?l div 2 ^ k XOR 1)" if "k < height" for k
    using that by (simp add: auth_path_spec_def nth_append)
  have up: "?path ! (height + i) = xmss_derive_upper_siblings P sk (XMSS_H - height) ! i" for i
    by (simp add: auth_path_spec_def nth_append)
  have base: "walk ?comb (nth ?path) height ?l (xleaf P sk pk leaf) = xtree P sk pk height 0"
    using xt.walk_siblings [of height "nth ?path" P sk pk ?l] sib leaf by simp
  have "walk ?comb (nth ?path) (height + (32 - height)) ?l (xleaf P sk pk leaf) = xroot P sk pk height"
    using walk_upper [OF leaf, of "32 - height" "nth ?path" "xmss_derive_upper_siblings P sk (XMSS_H - height)" P pk]
      up by (simp add: base xroot_def xmss_climb_upper_def XMSS_H_def)
  then have "walk ?comb (nth ?path) 32 ?l (xleaf P sk pk leaf) = xroot P sk pk height"
    using h by simp
  then show ?thesis
    using walk_auth_path_walk [OF l32, of P pk ?path 32 "xleaf P sk pk leaf"]
    by (simp add: xmss_walk_auth_path_def XMSS_H_def)
qed

lemma sig_spec_verifies:
  assumes leaf: "unat leaf < 2 ^ height" and h: "height \<le> 32" and "nonce_accepted P pk leaf message nonce"
  shows "xmss_verify P pk (xroot P sk pk height) message
    (sig_spec P sk pk height leaf nonce (snd (xmss_extract_coords (xmss_hash_message P pk leaf nonce message))))"
  using assms(3) path_walk [OF leaf h, of P pk sk]
  by (simp add: xmss_verify_def sig_spec_def nonce_accepted_def Let_def wots_sign_pk [OF extract_coords_ok]
      xleaf_def case_prod_beta)

subsection \<open>Coordinates\<close>

lemma bit_coord_fold:
  fixes f :: "nat \<Rightarrow> byte"
  shows "bit (fold (\<lambda>k c. c OR push_bit k (f k AND 1)) [0..<n] 0) j \<longleftrightarrow> j < n \<and> j < 8 \<and> odd (f j)"
proof (induction n)
  case (Suc n)
  have "bit (push_bit n (f n AND 1)) j \<longleftrightarrow> j = n \<and> j < 8 \<and> odd (f n)"
    unfolding bit_push_bit_iff bit_and_iff bit_1_iff by (auto simp: bit_0)
  then show ?case by (auto simp only: upt_Suc fold_append fold_simps comp_def le0 if_True bit_or_iff Suc.IH less_Suc_eq)
qed simp

lemma bit_extract_coords:
  assumes "i < 42" "k < 3"
  shows "bit (snd (xmss_extract_coords h) ! i) k \<longleftrightarrow>
     bit (h ! ((xmss_coord_bit_pos i + k) div 8)) ((xmss_coord_bit_pos i + k) mod 8)"
proof -
  let ?f = "\<lambda>k. drop_bit ((xmss_coord_bit_pos i + k) mod 8) (h ! ((xmss_coord_bit_pos i + k) div 8))"
  have "snd (xmss_extract_coords h) ! i = fold (\<lambda>k c. c OR push_bit k (?f k AND 1)) [0..<3] 0"
    using assms(1) unfolding xmss_extract_coords_def Let_def XMSS_WOTS_LEN_def XMSS_COORD_RES_BITS_def snd_conv
    by (subst nth_map) (simp_all del: upt_Suc)
  then have "bit (snd (xmss_extract_coords h) ! i) k \<longleftrightarrow> odd (?f k)"
    using assms(2) by (simp only: bit_coord_fold) simp
  then show ?thesis by (simp only: bit_iff_odd_drop_bit)
qed

lemma extract_coords_inject:
  assumes len: "16 \<le> length h" "16 \<le> length h'"
    and ok: "fst (xmss_extract_coords h)" "fst (xmss_extract_coords h')"
    and eq: "snd (xmss_extract_coords h) = snd (xmss_extract_coords h')"
  shows "take 16 h = take 16 h'"
proof (rule nth_equalityI)
  fix j assume "j < length (take 16 h)"
  then have j: "j < 16" by simp
  have top: "\<not> bit (x ! 7) 7 \<and> \<not> bit (x ! 15) 7" if "fst (xmss_extract_coords x)" for x
  proof -
    have "drop_bit 7 (x ! 7) OR drop_bit 7 (x ! 15) = 0"
      using that by (simp add: xmss_extract_coords_def Let_def XMSS_MSG_HASH_LEN_def)
    then have "\<not> bit (drop_bit 7 (x ! 7) OR drop_bit 7 (x ! 15)) 0" by simp
    then show ?thesis by (simp add: bit_simps)
  qed
  have "bit (h ! j) i = bit (h' ! j) i" if i: "i < 8" for i
  proof -
    let ?J = "8 * j + i"
    have pos: "?J div 8 = j" "?J mod 8 = i" using i by auto
    have via: "bit (h ! j) i = bit (h' ! j) i"
      if "c < 42" and "k < 3" and "xmss_coord_bit_pos c + k = ?J" for c k
      using bit_extract_coords [OF that(1,2), of h] bit_extract_coords [OF that(1,2), of h'] pos that(3) eq
      by simp
    consider "?J < 63" | "?J = 63" | "64 \<le> ?J" "?J < 127" | "?J = 127" using i j by linarith
    then show ?thesis
    proof cases
      case 1
      then have "xmss_coord_bit_pos (?J div 3) + ?J mod 3 = ?J"
        by (simp add: xmss_coord_bit_pos_def XMSS_DIGITS_PER_WORD_def XMSS_WOTS_LEN_def XMSS_COORD_RES_BITS_def
            less_mult_imp_div_less)
      with 1 show ?thesis by (intro via [of "?J div 3" "?J mod 3"]) auto
    next
      case 2
      then have "j = 7 \<and> i = 7" using i by presburger
      then show ?thesis using top ok by simp
    next
      case 3
      let ?d = "(?J - 64) div 3"
      have "?d < 21" using 3 by (intro less_mult_imp_div_less) auto
      moreover have "3 * ?d + (?J - 64) mod 3 = ?J - 64" by (rule mult_div_mod_eq)
      ultimately have "xmss_coord_bit_pos (21 + ?d) + (?J - 64) mod 3 = ?J"
        using 3 by (simp add: xmss_coord_bit_pos_def XMSS_DIGITS_PER_WORD_def XMSS_WOTS_LEN_def XMSS_COORD_RES_BITS_def)
      with \<open>?d < 21\<close> show ?thesis by (intro via [of "21 + ?d" "(?J - 64) mod 3"]) auto
    next
      case 4
      then have "j = 15 \<and> i = 7" using i by presburger
      then show ?thesis using top ok by simp
    qed
  qed
  then show "take 16 h ! j = take 16 h' ! j" using j by (auto intro: bit_word_eqI)
qed (use len in simp)

text \<open>Of two distinct codewords of equal sum, neither is pointwise below the other.\<close>

lemma sum_list_le_eq:
  fixes f g :: "'a \<Rightarrow> nat"
  shows "(\<And>x. x \<in> set xs \<Longrightarrow> f x \<le> g x) \<Longrightarrow> sum_list (map f xs) = sum_list (map g xs) \<Longrightarrow>
     x \<in> set xs \<Longrightarrow> f x = g x"
proof (induction xs)
  case (Cons a xs)
  have "sum_list (map f xs) \<le> sum_list (map g xs)" using Cons.prems(1) by (intro sum_list_mono) auto
  moreover have "f a \<le> g a" using Cons.prems(1) by simp
  ultimately have "f a = g a" "sum_list (map f xs) = sum_list (map g xs)" using Cons.prems(2) by simp_all
  then show ?case using Cons by auto
qed simp

lemma coords_incomparable:
  assumes len: "length c = length d" and sum: "coords_sum c = coords_sum d" and ne: "c \<noteq> d"
  shows "\<exists>i<length c. c ! i < d ! i"
proof (rule ccontr)
  assume "\<not> ?thesis"
  then have "\<not> c ! i < d ! i" if "i < length c" for i using that by blast
  then have le: "unat (d ! i) \<le> unat (c ! i)" if "i \<in> set [0..<length c]" for i
    using that by (simp add: word_less_nat_alt not_less)
  have list: "map unat x = map (\<lambda>i. unat (x ! i)) [0..<length x]" for x :: "byte list"
    by (rule nth_equalityI) auto
  have "sum_list (map (\<lambda>i. unat (d ! i)) [0..<length c]) = sum_list (map (\<lambda>i. unat (c ! i)) [0..<length c])"
    using sum len list [of c] list [of d] by (simp add: coords_sum_def)
  then have "unat (d ! i) = unat (c ! i)" if "i < length c" for i
    using sum_list_le_eq [OF le, of "[0..<length c]"] that by simp
  then have "d ! i = c ! i" if "i < length c" for i
    using that by (metis unsigned_word_eqI)
  then have "d = c" using len by (intro nth_equalityI) simp_all
  with ne show False by simp
qed

subsection \<open>The walk binds the leaf and the path\<close>

text \<open>Two different walks to one node contain a collision of the combining function.\<close>

lemma walk_collision:
  assumes "walk comb p n l x = walk comb q n l y" and "x \<noteq> y \<or> (\<exists>h<n. p h \<noteq> q h)"
  shows "\<exists>h i a b a' b'. h < n \<and> (a, b) \<noteq> (a', b') \<and> comb h i a b = comb h i a' b'"
  using assms
proof (induction n)
  case (Suc n)
  let ?a = "walk comb p n l x" and ?b = "walk comb q n l y" and ?j = "l div 2 ^ n"
  show ?case
  proof (cases "?a = ?b \<and> p n = q n")
    case True
    with Suc.prems(2) have "x \<noteq> y \<or> (\<exists>h<n. p h \<noteq> q h)" by (auto simp: less_Suc_eq)
    with Suc.IH True show ?thesis by (meson less_SucI)
  next
    case False
    show ?thesis
    proof (cases "even ?j")
      case True
      then have "comb n (?j div 2) ?a (p n) = comb n (?j div 2) ?b (q n)" using Suc.prems(1) by (simp add: Let_def)
      with False show ?thesis by blast
    next
      case odd: False
      then have "comb n (?j div 2) (p n) ?a = comb n (?j div 2) (q n) ?b" using Suc.prems(1) by (simp add: Let_def)
      with False show ?thesis by blast
    qed
  qed
qed simp

subsection \<open>Wire format\<close>

definition sig_wf :: "xmss_sig \<Rightarrow> bool" where
  "sig_wf sig \<longleftrightarrow> length (xs_nonce sig) = XMSS_NONCE_LEN \<and>
     length (xs_sig_hashes sig) = XMSS_WOTS_LEN \<and> (\<forall>n\<in>set (xs_sig_hashes sig). length n = XMSS_NODE_BYTES) \<and>
     length (xs_auth_path sig) = XMSS_H \<and> (\<forall>n\<in>set (xs_auth_path sig). length n = XMSS_NODE_BYTES)"

lemma length_write_sig: "sig_wf sig \<Longrightarrow> length (xmss_write_sig sig) = XMSS_SIG_BYTES"
  by (simp add: sig_wf_def xmss_write_sig_def XMSS_SIG_BYTES_def length_concat_const)

lemma read_write_sig: "sig_wf sig \<Longrightarrow> xmss_read_sig (xmss_write_sig sig) = Some sig"
proof -
  assume wf: "sig_wf sig"
  note w = wf [unfolded sig_wf_def xmss_sizes]
  have path: "blocks 16 32 (concat (xs_auth_path sig)) = xs_auth_path sig"
    using w by (intro blocks_concat0) auto
  have hashes: "blocks 16 42 (concat (xs_sig_hashes sig) @ ys) = xs_sig_hashes sig" for ys
    using w by (intro blocks_concat) auto
  have cl: "length (concat (xs_sig_hashes sig)) = 672" using w length_concat_const [of "xs_sig_hashes sig" 16] by simp
  show ?thesis
    using w length_write_sig [OF wf]
    by (simp add: xmss_read_sig_def xmss_write_sig_def Let_def segment_append_left segment_append_right xmss_sizes
        segment_0 load_le_bytes_le hashes path cl)
qed

lemma write_read_sig: "xmss_read_sig buf = Some sig \<Longrightarrow> xmss_write_sig sig = buf \<and> sig_wf sig"
proof -
  assume r: "xmss_read_sig buf = Some sig"
  then have len: "length buf = 1212" by (simp add: xmss_read_sig_def XMSS_SIG_BYTES_def xmss_sizes split: if_splits)
  have sig: "sig = \<lparr>xs_leaf_index = load_le (take 4 buf), xs_nonce = segment 4 24 buf,
      xs_sig_hashes = blocks 16 42 (drop 28 buf), xs_auth_path = blocks 16 32 (drop 700 buf)\<rparr>"
    using r len by (simp add: xmss_read_sig_def XMSS_SIG_BYTES_def xmss_sizes segment_0)
  have b1: "bytes_le 4 (load_le (take 4 buf) :: u32) = take 4 buf"
    using bytes_le_load_le [of "take 4 buf", where 'a = 32] len by simp
  have b3: "concat (blocks 16 42 (drop 28 buf)) = take 672 (drop 28 buf)"
  proof -
    have "blocks 16 42 (drop 28 buf) = blocks 16 42 (take 672 (drop 28 buf))"
      by (auto simp: blocks_def segment_def drop_take min_def intro!: map_cong)
    then show ?thesis using len by (simp add: concat_blocks)
  qed
  have b4: "concat (blocks 16 32 (drop 700 buf)) = drop 700 buf" using len by (intro concat_blocks) simp
  have "take 4 buf @ segment 4 24 buf @ take 672 (drop 28 buf) @ drop 700 buf = buf"
    unfolding segment_def using append_take_drop_id [of 4 buf] append_take_drop_id [of 24 "drop 4 buf"]
      append_take_drop_id [of 672 "drop 28 buf"] by simp
  moreover have "sig_wf sig"
    using len by (auto simp: sig sig_wf_def xmss_sizes in_set_conv_nth lens)
  ultimately show ?thesis by (simp add: sig xmss_write_sig_def b1 b3 b4)
qed

interpretation sc: codec xmss_write_sig xmss_read_sig sig_wf
  by unfold_locales (use read_write_sig write_read_sig in blast)+

subsection \<open>Sizes\<close>

lemma length_chain_step [lens]:
  "b3_length (b3 P) \<Longrightarrow> length x = 16 \<Longrightarrow> length (xmss_hash_chain_step P pk e x i pos) = 16"
  by (simp add: xmss_hash_chain_step_def blake3_th_into_eq BLAKE3_TH_MAX_DOMAIN_def BLAKE3_OUT_LEN_def
      XMSS_NODE_BYTES_def lens)

lemma length_chain_multi [lens]:
  assumes "b3_length (b3 P)" "length x = 16"
  shows "length (xmss_hash_chain_multi P pk e x i start steps) = 16"
proof -
  have "length (fold (\<lambda>j cur. let pos = start + of_nat j + 1 in xmss_hash_chain_step P pk e cur i pos) js x) = 16"
    for js using assms by (induction js arbitrary: x) (simp_all add: lens Let_def)
  then show ?thesis by (simp add: xmss_hash_chain_multi_def)
qed

lemma length_gen_sk: "b3_length (b3 P) \<Longrightarrow> i < 42 \<Longrightarrow> length (xmss_wots_gen_sk P sk leaf ! i) = 16"
  by (simp add: xmss_wots_gen_sk_def Let_def xmss_sizes lens)

lemma length_xtree [lens]:
  assumes "b3_length (b3 P)" "length pk = 16"
  shows "length (xtree P sk pk h i) = 16"
  using assms by (cases h) (simp_all add: xleaf_def xmss_hash_public_key_def xmss_hash_tree_node_def
      blake3_th_into_eq BLAKE3_TH_MAX_DOMAIN_def BLAKE3_OUT_LEN_def xmss_sizes lens put_epoch_be_def)

lemma sig_spec_wf:
  assumes "b3_length (b3 P)" "length pk = 16" "height \<le> 32" "length nonce = XMSS_NONCE_LEN"
  shows "sig_wf (sig_spec P sk pk height leaf nonce coords)"
  using assms
  by (auto simp: sig_wf_def sig_spec_def auth_path_spec_def xmss_wots_sign_def xmss_sizes lens length_gen_sk
      xmss_derive_upper_siblings_def in_set_conv_nth)

end
