(* ===== verification/Sample_Platform.thy ===== *)
theory Sample_Platform
  imports Xmss_Correct
begin

text \<open>
  A concrete platform, used only by the witnesses that show the hypotheses of the
  properties to be satisfiable: every allocation succeeds, the entropy source returns
  zeros, and the hash returns one fixed digest whose coordinates have the target sum.
\<close>

definition sample_digest :: bytes where
  "sample_digest = replicate 7 0xff @ [0x7f, 0xff, 0xff, 0x1b] @ replicate 21 0"

definition sample_platform :: platform where
  "sample_platform =
     \<lparr>b3 = (\<lambda>m bs n. take n (sample_digest @ replicate n 0)), malloc_ok = (\<lambda>n. True),
      getentropy = (\<lambda>c n. Some (replicate n 0)), fwrite_ok = (\<lambda>n. True)\<rparr>"

lemma sample_simps [simp]:
  "fwrite_ok sample_platform n = True" "malloc_ok sample_platform n = True" "getentropy sample_platform c n = Some (replicate n 0)"
  by (simp_all add: sample_platform_def)

lemma sample_b3: "b3 sample_platform m bs n = take n (sample_digest @ replicate n 0)"
  by (simp add: sample_platform_def)

lemma sample_platform_ok: "platform_ok sample_platform"
  by (auto simp: platform_ok_def b3_length_def sample_b3)

lemma sample_b3_length: "b3_length (b3 sample_platform)"
  using sample_platform_ok by blast

lemma length_sample_digest: "length sample_digest = 32"
  by (simp add: sample_digest_def)

lemma sample_coords:
  "fst (xmss_extract_coords sample_digest)" "coords_sum (snd (xmss_extract_coords sample_digest)) = 195"
  by code_simp+

lemma sample_message_hash: "length pk = 16 \<Longrightarrow> xmss_hash_message sample_platform pk e nonce m = sample_digest"
  by (simp add: xmss_hash_message_def blake3_th_into_eq sample_b3_length th_def BLAKE3_TH_MAX_DOMAIN_def
      BLAKE3_OUT_LEN_def put_epoch_be_def xmss_sizes length_sample_digest sample_b3)

lemma sample_accepted: "length pk = 16 \<Longrightarrow> nonce_accepted sample_platform pk e m nonce"
  by (simp add: nonce_accepted_def sample_message_hash sample_coords XMSS_TARGET_SUM_def)

lemma sample_grind:
  "length pk = 16 \<Longrightarrow> grind_nonce sample_platform pk e m c =
     Some (Some (replicate 24 0, snd (xmss_extract_coords sample_digest)), Suc c)"
  by (subst grind_nonce_step) (simp add: random_bytes_24 sample_accepted sample_message_hash)

lemma sample_alloc: "xmss_alloc_levels sample_platform n"
  by (simp add: xmss_alloc_levels_def list_all_iff)

text \<open>The same with a second digest for inputs that end in 1.\<close>

definition sample_digest2 :: bytes where
  "sample_digest2 = [0xfe] @ replicate 6 0xff @ [0x7f, 0xff, 0xff, 0x1f] @ replicate 21 0"

definition sample_platform2 :: platform where
  "sample_platform2 = sample_platform\<lparr>b3 := (\<lambda>m bs n.
     take n ((if last bs = 1 then sample_digest2 else sample_digest) @ replicate n 0))\<rparr>"

lemma sample_platform2_ok: "platform_ok sample_platform2"
  by (auto simp: platform_ok_def b3_length_def sample_platform2_def sample_platform_def)

lemma sample_coords2:
  "fst (xmss_extract_coords sample_digest2)" "coords_sum (snd (xmss_extract_coords sample_digest2)) = 195"
  by code_simp+

lemma sample_digests_differ: "take 16 sample_digest \<noteq> take 16 sample_digest2"
  by (simp add: sample_digest_def sample_digest2_def)

lemma sample_message_hash2:
  assumes "length pk = 16" "m \<noteq> []"
  shows "xmss_hash_message sample_platform2 pk e nonce m =
           (if last m = 1 then sample_digest2 else sample_digest)"
proof -
  have b: "b3 sample_platform2 md bs n =
      take n ((if last bs = 1 then sample_digest2 else sample_digest) @ replicate n 0)" for md bs n
    by (simp add: sample_platform2_def)
  have "length sample_digest2 = 32" by (simp add: sample_digest2_def)
  then show ?thesis
    using assms blake3_th_into_eq [OF platform_b3_length [OF sample_platform2_ok]]
    by (simp add: xmss_hash_message_def th_def th_frame_def BLAKE3_TH_MAX_DOMAIN_def BLAKE3_OUT_LEN_def
        put_epoch_be_def xmss_sizes length_sample_digest b) (simp add: sample_platform2_def)
qed

lemma sample_accepted2:
  "length pk = 16 \<Longrightarrow> m \<noteq> [] \<Longrightarrow> nonce_accepted sample_platform2 pk e m nonce"
  by (simp add: nonce_accepted_def sample_message_hash2 sample_coords sample_coords2 XMSS_TARGET_SUM_def)

end
