(* ===== verification/Xmss_Properties.thy ===== *)
theory Xmss_Properties
  imports Sample_Platform
begin

text \<open>
  The properties of \<^verbatim>\<open>xmss.c\<close>, over the lemmas of theory \<open>Xmss_Correct\<close>. A key pair is
  reachable when the constructor returned it or a call of \<open>xmss_keypair_sign\<close> on a
  reachable key pair left it behind.
\<close>

inductive kp_reachable :: "platform \<Rightarrow> bytes \<Rightarrow> bytes \<Rightarrow> int \<Rightarrow> xmss_keypair \<Rightarrow> bool"
  for P :: platform and sk_seed pk_seed :: bytes and height :: int where
  new: "xmss_keypair_new_split P sk_seed pk_seed height subtree = Some kp \<Longrightarrow>
          kp_reachable P sk_seed pk_seed height kp"
| sign: "kp_reachable P sk_seed pk_seed height kp \<Longrightarrow>
          xmss_keypair_sign P kp leaf message c = Some (kp', r, c') \<Longrightarrow>
          kp_reachable P sk_seed pk_seed height kp'"

lemma sign_out_of_range:
  "kp_wf P kp \<Longrightarrow> \<not> unat leaf < 2 ^ kp_height kp \<Longrightarrow> xmss_keypair_sign P kp leaf message c = Some (kp, None, c)"
  using capacity_less_iff [of kp leaf] by (auto simp: xmss_keypair_sign_def kp_wf_def XMSS_H_def not_less [symmetric])

lemma sign_kp:
  assumes "kp_wf P kp" "xmss_keypair_sign P kp leaf message c = Some (kp', r, c')"
  shows "kp' = kp \<or> unat leaf < 2 ^ kp_height kp \<and> kp' = kp_touch P kp leaf"
  using assms sign_spec [OF assms(1), of leaf message c] sign_out_of_range [OF assms(1), of leaf message c]
  by (cases "unat leaf < 2 ^ kp_height kp") (auto split: option.splits)

lemma reachable_wf:
  "kp_reachable P sk pk h kp \<Longrightarrow> kp_wf P kp \<and> kp_sk_seed kp = sk \<and> kp_pk_seed kp = pk \<and> kp_height kp = nat h"
proof (induction rule: kp_reachable.induct)
  case (new subtree kp)
  then show ?case using new_split_wf [OF new] by simp
next
  case (sign kp leaf message c kp' r c')
  then show ?case using sign_kp [of P kp leaf message c kp' r c'] kp_touch_wf [of P kp leaf]
    by (auto simp: kp_touch_def Let_def)
qed

lemma sample_reachable:
  obtains kp where "xmss_keypair_new_split sample_platform sk pk 2 1 = Some kp"
    "kp_reachable sample_platform sk pk 2 kp"
  using new_split_some_iff [of sample_platform sk pk 2 1] kp_reachable.new by (auto simp: sample_alloc)

lemma xmss_issued:
  assumes "kp_reachable P sk_seed pk_seed height kp"
    and "xmss_keypair_sign P kp leaf message c = Some (kp', Some sig, c')"
  shows "xmss_verify P pk_seed (kp_root kp) message sig \<and> xs_leaf_index sig = leaf \<and> kp_root kp' = kp_root kp"
proof -
  note wf = reachable_wf [OF assms(1)]
  have leaf: "unat leaf < 2 ^ kp_height kp"
    using assms(2) sign_out_of_range [of P kp leaf message c] wf by (cases "unat leaf < 2 ^ kp_height kp") auto
  have root: "kp_root kp = xroot P sk_seed pk_seed (kp_height kp)" and h: "kp_height kp \<le> 32"
    using wf by (auto simp: kp_wf_def XMSS_H_def)
  from assms(2) obtain nonce coords where
    g: "grind_nonce P pk_seed leaf message c = Some (Some (nonce, coords), c')" and
    sig: "sig = sig_spec P sk_seed pk_seed (kp_height kp) leaf nonce coords" and
    kp': "kp' = kp_touch P kp leaf"
    using sign_spec [OF _ leaf, of P message c] wf by (auto split: option.splits prod.splits)
  have "nonce_accepted P pk_seed leaf message nonce"
    "coords = snd (xmss_extract_coords (xmss_hash_message P pk_seed leaf nonce message))"
    using grind_nonce_result [OF g] by (auto simp: grind_good_def)
  then show ?thesis
    using sig_spec_verifies [OF leaf h] by (simp add: root sig kp' kp_touch_def Let_def sig_spec_def)
qed

text \<open>C12. Every signature a reachable key pair issues, whatever was signed before and
  whatever bottom subtree is cached, verifies under the public root the key was created with.\<close>

theorem xmss_issued_verifies:
  assumes "kp_reachable P sk_seed pk_seed height kp"
    and "xmss_keypair_sign P kp leaf message c = Some (kp', Some sig, c')"
  shows "xmss_verify P pk_seed (kp_root kp) message sig \<and> xs_leaf_index sig = leaf \<and> kp_root kp' = kp_root kp"
  by (rule xmss_issued [OF assms])

theorem xmss_issued_verifies_witness:
  "\<exists>(kp :: xmss_keypair) (kp' :: xmss_keypair) sig. kp_root kp' = kp_root kp \<and>
     xmss_verify sample_platform (replicate 16 5) (kp_root kp) [1, 2, 3] sig"
proof -
  obtain kp where r: "kp_reachable sample_platform (replicate 32 7) (replicate 16 5) 2 kp"
    using sample_reachable by blast
  note wf = reachable_wf [OF r]
  obtain kp' sig where "xmss_keypair_sign sample_platform kp 3 [1, 2, 3] 0 = Some (kp', Some sig, 1)"
    using sign_spec [of sample_platform kp 3 "[1, 2, 3]" 0] wf by (simp add: sample_grind)
  from xmss_issued_verifies [OF r this] show ?thesis
    by (intro exI [of _ kp] exI [of _ kp'] exI [of _ sig]) simp
qed

text \<open>C27. The key-pair invariant: in every reachable key pair the top levels, the cached
  bottom subtree, the upper siblings and the root are exactly the nodes of the tree of the
  seeds, and the seeds and the height never change.\<close>

theorem xmss_keypair_invariant:
  assumes "kp_reachable P sk_seed pk_seed height kp"
  shows "kp_wf P kp \<and> kp_sk_seed kp = sk_seed \<and> kp_pk_seed kp = pk_seed \<and> kp_height kp = nat height"
  by (rule reachable_wf [OF assms])

theorem xmss_keypair_invariant_witness: "\<exists>kp. kp_wf sample_platform kp \<and> kp_height kp = 2"
proof -
  obtain kp where "kp_reachable sample_platform (replicate 32 7) (replicate 16 5) 2 kp"
    using sample_reachable by blast
  from xmss_keypair_invariant [OF this] show ?thesis by auto
qed

text \<open>C26. The signer refines its specification: a leaf outside the tree is refused and
  leaves the key and the entropy untouched; otherwise the signature is the WOTS signature
  with the siblings of the leaf in the tree, whatever subtree was cached, and only the
  nonce loop can fail or fail to return.\<close>

theorem xmss_sign_refines:
  assumes "kp_reachable P sk_seed pk_seed height kp"
  shows "xmss_keypair_sign P kp leaf message c =
    (if 2 ^ nat height \<le> unat leaf then Some (kp, None, c)
     else map_option (\<lambda>(r, c'). case r of
         None \<Rightarrow> (kp, None, c')
       | Some (nonce, coords) \<Rightarrow>
           (kp_touch P kp leaf, Some (sig_spec P sk_seed pk_seed (nat height) leaf nonce coords), c'))
       (grind_nonce P pk_seed leaf message c))"
proof -
  have wf: "kp_wf P kp" and eqs: "kp_sk_seed kp = sk_seed" "kp_pk_seed kp = pk_seed" "kp_height kp = nat height"
    using reachable_wf [OF assms] by auto
  show ?thesis
    using sign_spec [OF wf, of leaf message c, unfolded eqs]
      sign_out_of_range [OF wf, of leaf message c, unfolded eqs]
    by (cases "unat leaf < 2 ^ nat height") (simp_all add: not_less)
qed

theorem xmss_sign_refines_witness:
  "\<exists>kp. xmss_keypair_sign sample_platform kp 4 [1] 0 = Some (kp, None, 0)"
proof -
  obtain kp where "kp_reachable sample_platform (replicate 32 7) (replicate 16 5) 2 kp"
    using sample_reachable by blast
  from xmss_sign_refines [OF this, of 4 "[1]" 0] show ?thesis by auto
qed

text \<open>The split into bottom subtrees is only a space trade-off: two reachable key pairs
  of the same seeds and height, built with any subtree heights and with any signing
  history, have one root and issue the same signatures.\<close>

theorem xmss_split_independent:
  assumes "kp_reachable P sk_seed pk_seed height kp1" "kp_reachable P sk_seed pk_seed height kp2"
  shows "kp_root kp1 = kp_root kp2 \<and>
    map_option snd (xmss_keypair_sign P kp1 leaf message c) = map_option snd (xmss_keypair_sign P kp2 leaf message c)"
proof -
  note w1 = reachable_wf [OF assms(1)] and w2 = reachable_wf [OF assms(2)]
  have "kp_root kp1 = kp_root kp2" using w1 w2 by (simp add: kp_wf_def)
  moreover have "map_option snd (xmss_keypair_sign P kp1 leaf message c) =
      map_option snd (xmss_keypair_sign P kp2 leaf message c)"
    using w1 w2 sign_spec [of P kp1 leaf message c] sign_spec [of P kp2 leaf message c]
      sign_out_of_range [of P kp1 leaf message c] sign_out_of_range [of P kp2 leaf message c]
    by (cases "unat leaf < 2 ^ nat height")
       (auto simp: option.map_comp comp_def intro!: option.map_cong split: option.split prod.split)
  ultimately show ?thesis by simp
qed

theorem xmss_split_independent_witness:
  "\<exists>(kp1 :: xmss_keypair) (kp2 :: xmss_keypair). kp_subtree_h kp1 \<noteq> kp_subtree_h kp2 \<and> kp_root kp1 = kp_root kp2"
proof -
  obtain kp1 where n1: "xmss_keypair_new_split sample_platform (replicate 32 7) (replicate 16 5) 2 1 = Some kp1"
    using new_split_some_iff [of sample_platform _ _ 2 1] by (auto simp: sample_alloc)
  obtain kp2 where n2: "xmss_keypair_new_split sample_platform (replicate 32 7) (replicate 16 5) 2 2 = Some kp2"
    using new_split_some_iff [of sample_platform _ _ 2 2] by (auto simp: sample_alloc)
  have "kp_subtree_h kp1 \<noteq> kp_subtree_h kp2" using new_split_wf [OF n1] new_split_wf [OF n2] by simp
  moreover have "kp_root kp1 = kp_root kp2"
    using xmss_split_independent [OF kp_reachable.new [OF n1] kp_reachable.new [OF n2]] by simp
  ultimately show ?thesis by blast
qed

text \<open>The WOTS public key recomputed from a signature is the signer's, for every hash
  whose coordinates are taken from a message hash.\<close>

theorem wots_pk_from_sig_correct:
  "xmss_wots_pk_from_sig P pk_seed epoch
     (xmss_wots_sign P pk_seed epoch sk (snd (xmss_extract_coords h))) (snd (xmss_extract_coords h)) =
   xmss_wots_pk_from_sk P pk_seed epoch sk"
  by (rule wots_sign_pk [OF extract_coords_ok])

text \<open>C36. Security of the encoding: two accepted message hashes that differ in their sixteen
  used bytes have codewords of which neither is pointwise below the other, so a signature
  on the one never yields, by hashing chains forward, a signature on the other.\<close>

theorem xmss_codewords_incomparable:
  assumes "nonce_accepted P pk_seed epoch m1 n1" "nonce_accepted P pk_seed epoch m2 n2"
    and "platform_ok P" "length pk_seed = 16"
    and "take 16 (xmss_hash_message P pk_seed epoch n1 m1) \<noteq> take 16 (xmss_hash_message P pk_seed epoch n2 m2)"
  shows "\<exists>i<XMSS_WOTS_LEN. snd (xmss_extract_coords (xmss_hash_message P pk_seed epoch n1 m1)) ! i
                        < snd (xmss_extract_coords (xmss_hash_message P pk_seed epoch n2 m2)) ! i"
proof -
  let ?h1 = "xmss_hash_message P pk_seed epoch n1 m1" and ?h2 = "xmss_hash_message P pk_seed epoch n2 m2"
  have len: "length (xmss_hash_message P pk_seed epoch n m) = 32" for n m
    using assms(3,4) by (simp add: xmss_hash_message_def blake3_th_into_eq platform_b3_length put_epoch_be_def
        xmss_sizes BLAKE3_TH_MAX_DOMAIN_def BLAKE3_OUT_LEN_def lens)
  have "snd (xmss_extract_coords ?h1) \<noteq> snd (xmss_extract_coords ?h2)"
    using extract_coords_inject [of ?h1 ?h2] assms len by (auto simp: nonce_accepted_def Let_def)
  moreover have "coords_sum (snd (xmss_extract_coords ?h1)) = coords_sum (snd (xmss_extract_coords ?h2))"
    using assms(1,2) by (simp add: nonce_accepted_def Let_def)
  moreover have "length (snd (xmss_extract_coords h)) = XMSS_WOTS_LEN" for h
    using extract_coords_ok [of h] by (simp add: coords_ok_def XMSS_WOTS_LEN_def)
  ultimately show ?thesis using coords_incomparable by metis
qed

theorem xmss_codewords_incomparable_witness:
  "\<exists>i<XMSS_WOTS_LEN.
     snd (xmss_extract_coords (xmss_hash_message sample_platform2 (replicate 16 5) 3 [7] [0])) ! i
   < snd (xmss_extract_coords (xmss_hash_message sample_platform2 (replicate 16 5) 3 [7] [1])) ! i"
  by (rule xmss_codewords_incomparable)
     (simp_all add: sample_accepted2 sample_platform2_ok sample_message_hash2 sample_digests_differ)



text \<open>C39. The nonce loop stops at the first draw that the entropy source refuses or whose
  message hash is accepted, with that outcome, having made one entropy call per draw.\<close>

theorem grind_nonce_outcome:
  assumes "\<And>j. j < n \<Longrightarrow> \<exists>nonce. getentropy P (c + j) 24 = Some nonce \<and> \<not> nonce_accepted P pk_seed epoch message nonce"
    and "\<And>nonce. getentropy P (c + n) 24 = Some nonce \<Longrightarrow> nonce_accepted P pk_seed epoch message nonce"
  shows "grind_nonce P pk_seed epoch message c =
    (case getentropy P (c + n) 24 of
       None \<Rightarrow> Some (None, c + n + 1)
     | Some nonce \<Rightarrow>
         Some (Some (nonce, snd (xmss_extract_coords (xmss_hash_message P pk_seed epoch nonce message))), c + n + 1))"
proof -
  have "grind_nonce P pk_seed epoch message c = grind_nonce P pk_seed epoch message (c + n)"
    using assms(1) by (intro grind_nonce_returns) fastforce
  also have "\<dots> = (case getentropy P (c + n) 24 of
       None \<Rightarrow> Some (None, c + n + 1)
     | Some nonce \<Rightarrow>
         Some (Some (nonce, snd (xmss_extract_coords (xmss_hash_message P pk_seed epoch nonce message))), c + n + 1))"
    using assms(2) by (subst grind_nonce_step) (simp add: random_bytes_24 split: option.split)
  finally show ?thesis .
qed

theorem grind_nonce_outcome_witness:
  "grind_nonce sample_platform (replicate 16 5) 3 [1] 0 =
     Some (Some (replicate 24 0, snd (xmss_extract_coords sample_digest)), 1)"
  using grind_nonce_outcome [of 0 sample_platform 0 "replicate 16 5" 3 "[1]"]
  by (simp add: sample_accepted sample_message_hash)

lemma issued_sig_wf:
  assumes "platform_ok P" "length pk_seed = 16" "kp_reachable P sk_seed pk_seed height kp"
    and "xmss_keypair_sign P kp leaf message c = Some (kp', Some sig, c')"
  shows "sig_wf sig"
proof -
  note wf = reachable_wf [OF assms(3)]
  have leaf: "unat leaf < 2 ^ kp_height kp"
    using assms(4) sign_out_of_range [of P kp leaf message c] wf by (cases "unat leaf < 2 ^ kp_height kp") auto
  from assms(4) obtain nonce coords where
    g: "grind_nonce P pk_seed leaf message c = Some (Some (nonce, coords), c')" and
    sig: "sig = sig_spec P sk_seed pk_seed (kp_height kp) leaf nonce coords"
    using sign_spec [OF _ leaf, of P message c] wf by (auto split: option.splits prod.splits)
  have "length nonce = XMSS_NONCE_LEN"
    using grind_nonce_result [OF g] assms(1) by (auto simp: grind_good_def)
  then show ?thesis
    using wf assms(1,2) by (auto simp: sig kp_wf_def XMSS_H_def intro!: sig_spec_wf)
qed

text \<open>Every signature a reachable key pair issues serialises to exactly
  \<open>XMSS_SIG_BYTES\<close> bytes, from which the reader recovers it.\<close>

theorem xmss_issued_roundtrip:
  assumes "platform_ok P" "length pk_seed = 16" "kp_reachable P sk_seed pk_seed height kp"
    and "xmss_keypair_sign P kp leaf message c = Some (kp', Some sig, c')"
  shows "length (xmss_write_sig sig) = XMSS_SIG_BYTES \<and> xmss_read_sig (xmss_write_sig sig) = Some sig"
  using issued_sig_wf [OF assms] by (simp add: length_write_sig sc.dec_enc)

theorem xmss_issued_roundtrip_witness:
  "\<exists>sig. xs_leaf_index sig = 3 \<and> xmss_read_sig (xmss_write_sig sig) = Some sig"
proof -
  obtain kp where r: "kp_reachable sample_platform (replicate 32 7) (replicate 16 5) 2 kp"
    using sample_reachable by blast
  note wf = reachable_wf [OF r]
  obtain kp' sig where s: "xmss_keypair_sign sample_platform kp 3 [1, 2, 3] 0 = Some (kp', Some sig, 1)"
    and i: "xs_leaf_index sig = 3"
    using sign_spec [of sample_platform kp 3 "[1, 2, 3]" 0] wf by (simp add: sample_grind sig_spec_def)
  have "length (replicate 16 5 :: bytes) = 16" by simp
  from xmss_issued_roundtrip [OF sample_platform_ok this r s] i show ?thesis by (intro exI [of _ sig]) simp
qed

text \<open>The wire format is exact: the reader accepts a buffer if and only if it is what
  the writer produces from a signature of the right sizes, which it returns.\<close>

theorem xmss_read_sig_exact:
  "xmss_read_sig buf = Some sig \<longleftrightarrow> sig_wf sig \<and> xmss_write_sig sig = buf"
  by (rule sc.dec_Some_iff)

text \<open>The one-call root computation returns the root of the tree of the seeds for every
  height from 1 to 32 if its allocations succeed, and the zero node otherwise.\<close>

theorem xmss_compute_root_correct:
  "xmss_compute_root P sk_seed pk_seed height =
     (if 1 \<le> height \<and> height \<le> 32 \<and> malloc_ok P sizeof_xmss_keypair \<and>
         xmss_alloc_levels P (nat height - min (nat height) 16) \<and> xmss_alloc_levels P (min (nat height) 16)
      then xroot P sk_seed pk_seed (nat height) else replicate 16 0)"
proof -
  define sub where "sub = (if height < 16 then height else 16)"
  have sub: "nat sub = min (nat height) 16" "1 \<le> sub \<longleftrightarrow> 1 \<le> height" "sub \<le> height \<longleftrightarrow> height < 16 \<or> 16 \<le> height"
    by (auto simp: sub_def)
  have new: "xmss_keypair_new P sk_seed pk_seed height = xmss_keypair_new_split P sk_seed pk_seed height sub"
    by (simp add: xmss_keypair_new_def sub_def XMSS_SUBTREE_H_def)
  show ?thesis
    using new_split_some_iff [of P sk_seed pk_seed height sub] new_split_wf [of P sk_seed pk_seed height sub] sub
    by (auto simp: xmss_compute_root_def new kp_wf_def XMSS_NODE_BYTES_def split: option.split)
qed

end
