(* ===== verification/Clmul.thy ===== *)
theory Clmul
  imports Main
begin

text \<open>
  Polynomials over GF(2) as natural numbers, bit \<open>i\<close> the coefficient of X^i: addition
  is \<open>XOR\<close>, multiplication is the carry-less product \<open>clmul\<close>. This is the specification
  side of the GF(2^128) arithmetic: ring laws, the degree of a product, and the
  uniqueness of remainders.
\<close>

unbundle bit_operations_syntax

fun clmul :: "nat \<Rightarrow> nat \<Rightarrow> nat" where
  "clmul a b = (if b = 0 then 0 else (if odd b then a else 0) XOR 2 * clmul a (b div 2))"

declare clmul.simps [simp del]

lemma double_xor: "2 * (x XOR y) = 2 * x XOR 2 * (y :: nat)"
  using push_bit_xor [of 1 x y] by (simp add: push_bit_eq_mult mult.commute)

lemma Suc_double_xor: "Suc (2 * n) = Suc 0 XOR 2 * n"
  by (subst xor_nat_rec) simp

lemmas xor_ac = xor.assoc xor.commute xor.left_commute

lemma clmul_0_right [simp]: "clmul a 0 = 0"
  by (simp add: clmul.simps)

lemma clmul_double_right: "clmul a (2 * b) = 2 * clmul a b"
  by (cases "b = 0") (simp_all add: clmul.simps [of a "2 * b"])

lemma clmul_Suc_double_right: "clmul a (Suc (2 * b)) = a XOR 2 * clmul a b"
  by (simp add: clmul.simps [of a "Suc (2 * b)"])

lemma clmul_0_left [simp]: "clmul 0 b = 0"
  by (induction b rule: nat_bit_induct) (simp_all add: clmul_double_right clmul_Suc_double_right)

lemma clmul_1_right [simp]: "clmul a (Suc 0) = a"
  using clmul_Suc_double_right [of a 0] by simp

lemma clmul_1_left [simp]: "clmul (Suc 0) b = b"
proof (induction b rule: nat_bit_induct)
  case (odd n)
  then show ?case by (simp only: clmul_Suc_double_right flip: Suc_double_xor)
qed (simp_all add: clmul_double_right)

lemma clmul_double_left: "clmul (2 * a) b = 2 * clmul a b"
  by (induction b rule: nat_bit_induct)
     (simp_all add: clmul_double_right clmul_Suc_double_right double_xor)

lemma clmul_xor_left: "clmul (a XOR a') b = clmul a b XOR clmul a' b"
  by (induction b rule: nat_bit_induct)
     (simp_all add: clmul_double_right clmul_Suc_double_right double_xor xor_ac)

lemma clmul_commute: "clmul a b = clmul b a"
proof (induction a rule: nat_bit_induct)
  case zero
  show ?case by simp
next
  case (even n)
  then show ?case by (simp add: clmul_double_right clmul_double_left)
next
  case (odd n)
  then show ?case
    by (simp only: clmul_Suc_double_right)
       (simp add: Suc_double_xor clmul_xor_left clmul_double_left)
qed

lemma clmul_xor_right: "clmul a (b XOR b') = clmul a b XOR clmul a b'"
  using clmul_xor_left [of b b' a] by (simp add: clmul_commute)

lemma clmul_assoc: "clmul (clmul a b) c = clmul a (clmul b c)"
  by (induction c rule: nat_bit_induct)
     (simp_all add: clmul_double_right clmul_Suc_double_right clmul_xor_right)

lemma clmul_push_bit_right: "clmul a (push_bit n b) = push_bit n (clmul a b)"
proof (induction n)
  case (Suc n)
  have *: "push_bit (Suc n) x = 2 * push_bit n x" for x :: nat
    by (simp add: push_bit_eq_mult)
  from Suc show ?case by (simp only: * clmul_double_right)
qed simp

text \<open>Degrees: the leading bits multiply.\<close>

lemma xor_less_exp: "x < 2 ^ n \<Longrightarrow> y < 2 ^ n \<Longrightarrow> x XOR y < (2 :: nat) ^ n"
  by (metis take_bit_nat_eq_self_iff take_bit_xor)

lemma xor_ge_exp:
  assumes "x < 2 ^ n" and "2 ^ n \<le> y" and "y < 2 ^ Suc n"
  shows "(2 :: nat) ^ n \<le> x XOR y"
proof (rule ccontr)
  assume "\<not> 2 ^ n \<le> x XOR y"
  then have "x XOR y < 2 ^ n" by simp
  with assms(1) have "x XOR (x XOR y) < 2 ^ n" by (rule xor_less_exp)
  moreover have "x XOR (x XOR y) = y" by (simp flip: xor.assoc)
  ultimately show False using assms(2) by (simp only:)
qed

lemma clmul_less: "a < 2 ^ Suc m \<Longrightarrow> b < 2 ^ n \<Longrightarrow> clmul a b < 2 ^ (m + n)"
proof (induction b arbitrary: n rule: nat_bit_induct)
  case zero
  show ?case by simp
next
  case (even b)
  then obtain k where n: "n = Suc k" by (cases n) auto
  with even have "clmul a b < 2 ^ (m + k)" by simp
  with n show ?case by (simp add: clmul_double_right)
next
  case (odd b)
  then obtain k where n: "n = Suc k" by (cases n) auto
  with odd have "clmul a b < 2 ^ (m + k)" by simp
  then have "2 * clmul a b < 2 ^ (m + n)" using n by simp
  moreover have "a < 2 ^ (m + n)"
  proof -
    have "(2 :: nat) ^ Suc m \<le> 2 ^ (m + n)" using n by (intro power_increasing) simp_all
    with odd.prems(1) show ?thesis by (rule less_le_trans)
  qed
  ultimately show ?case by (simp add: clmul_Suc_double_right xor_less_exp)
qed

lemma clmul_ge:
  "2 ^ m \<le> a \<Longrightarrow> a < 2 ^ Suc m \<Longrightarrow> 2 ^ n \<le> b \<Longrightarrow> b < 2 ^ Suc n \<Longrightarrow> 2 ^ (m + n) \<le> clmul a b"
proof (induction b arbitrary: n rule: nat_bit_induct)
  case zero
  then show ?case by simp
next
  case (even b)
  then obtain k where n: "n = Suc k" by (cases n) auto
  with even have "2 ^ (m + k) \<le> clmul a b" by simp
  with n show ?case by (simp add: clmul_double_right)
next
  case (odd b)
  show ?case
  proof (cases n)
    case 0
    with odd.prems have "b = 0" by simp
    with odd.prems 0 show ?thesis by simp
  next
    case (Suc k)
    with odd have ge: "2 ^ (m + k) \<le> clmul a b" by simp
    have "clmul a b < 2 ^ (m + Suc k)" using odd.prems Suc by (intro clmul_less) simp_all
    then have "2 * clmul a b < 2 ^ Suc (m + n)" using Suc by simp
    moreover have "2 ^ (m + n) \<le> 2 * clmul a b" using ge Suc by simp
    moreover have "a < 2 ^ (m + n)"
    proof -
      have "(2 :: nat) ^ Suc m \<le> 2 ^ (m + n)" using Suc by (intro power_increasing) simp_all
      with odd.prems(2) show ?thesis by (rule less_le_trans)
    qed
    ultimately show ?thesis
      by (simp add: clmul_Suc_double_right xor_ge_exp)
  qed
qed

lemma ex_leading_bit: "0 < (b :: nat) \<Longrightarrow> \<exists>n. 2 ^ n \<le> b \<and> b < 2 ^ Suc n"
proof (induction b rule: nat_bit_induct)
  case (even b)
  then obtain n where "2 ^ n \<le> b \<and> b < 2 ^ Suc n" by auto
  then show ?case by (intro exI [of _ "Suc n"]) simp
next
  case (odd b)
  show ?case
  proof (cases "b = 0")
    case True
    then show ?thesis by (intro exI [of _ 0]) simp
  next
    case False
    with odd.IH obtain n where "2 ^ n \<le> b \<and> b < 2 ^ Suc n" by auto
    then show ?thesis by (intro exI [of _ "Suc n"]) auto
  qed
qed simp

text \<open>
  Congruence modulo a polynomial \<open>f\<close> of degree \<open>m\<close>; two numbers below \<open>2 ^ m\<close> that are
  congruent are equal.
\<close>

definition clcong :: "nat \<Rightarrow> nat \<Rightarrow> nat \<Rightarrow> bool" where
  "clcong f x y \<longleftrightarrow> (\<exists>q. x XOR y = clmul f q)"

lemma clcong_refl: "clcong f x x"
  unfolding clcong_def by (rule exI [of _ 0]) simp

lemma clcong_sym: "clcong f x y \<Longrightarrow> clcong f y x"
  by (simp add: clcong_def xor.commute)

lemma clcong_trans: "clcong f x y \<Longrightarrow> clcong f y z \<Longrightarrow> clcong f x z"
proof -
  assume "clcong f x y" and "clcong f y z"
  then obtain p q where "x XOR y = clmul f p" and "y XOR z = clmul f q"
    by (auto simp: clcong_def)
  then have "(x XOR y) XOR (y XOR z) = clmul f (p XOR q)" by (simp add: clmul_xor_right)
  moreover have "(x XOR y) XOR (y XOR z) = x XOR z"
    by (metis xor.assoc xor.left_neutral xor_self_eq)
  ultimately show ?thesis by (auto simp: clcong_def)
qed

lemma clcong_xor: "clcong f x y \<Longrightarrow> clcong f x' y' \<Longrightarrow> clcong f (x XOR x') (y XOR y')"
proof -
  assume "clcong f x y" and "clcong f x' y'"
  then obtain p q where "x XOR y = clmul f p" and "x' XOR y' = clmul f q"
    by (auto simp: clcong_def)
  then have "(x XOR x') XOR (y XOR y') = clmul f (p XOR q)"
    by (simp add: clmul_xor_right xor.assoc xor.left_commute xor.commute
      flip: \<open>x XOR y = clmul f p\<close> \<open>x' XOR y' = clmul f q\<close>)
  then show ?thesis by (auto simp: clcong_def)
qed

lemma clcong_clmul_left: "clcong f x y \<Longrightarrow> clcong f (clmul z x) (clmul z y)"
proof -
  assume "clcong f x y"
  then obtain q where "x XOR y = clmul f q" by (auto simp: clcong_def)
  then have "clmul z x XOR clmul z y = clmul z (clmul f q)" by (metis clmul_xor_right)
  also have "\<dots> = clmul f (clmul z q)" by (metis clmul_assoc clmul_commute)
  finally show ?thesis by (auto simp: clcong_def)
qed

lemma clcong_clmul_right: "clcong f x y \<Longrightarrow> clcong f (clmul x z) (clmul y z)"
  using clcong_clmul_left [of f x y z] by (simp add: clmul_commute)

lemma clcong_unique:
  assumes f: "2 ^ m \<le> f" "f < 2 ^ Suc m" and x: "x < 2 ^ m" and y: "y < 2 ^ m"
    and c: "clcong f x y"
  shows "x = y"
proof -
  from c obtain q where q: "x XOR y = clmul f q" by (auto simp: clcong_def)
  have "q = 0"
  proof (rule ccontr)
    assume "q \<noteq> 0"
    then obtain n where n: "2 ^ n \<le> q" "q < 2 ^ Suc n" using ex_leading_bit by blast
    have "2 ^ (m + n) \<le> clmul f q" using f n by (rule clmul_ge)
    moreover have "(2 :: nat) ^ m \<le> 2 ^ (m + n)" by (intro power_increasing) simp_all
    ultimately show False using q xor_less_exp [OF x y] by simp
  qed
  with q have "x XOR y = 0" by simp
  then show ?thesis by (metis xor.assoc xor.left_neutral xor.right_neutral xor_self_eq)
qed

end
