(* ===== verification/Gf128.thy ===== *)
theory Gf128
  imports Prelude Clmul
begin

text \<open>
  \<^verbatim>\<open>gf128.c\<close>: multiplication in GF(2^128) on four little-endian 32-bit limbs, the
  schoolbook product accumulated in eight limbs and reduced bit by bit modulo
  X^128 + X^7 + X^2 + X + 1. The specification is carry-less multiplication \<open>clmul\<close> of
  polynomials over GF(2), a polynomial being the natural number with its coefficients
  as bits; \<open>limbs\<close> reads a limb array as such a number.
\<close>

subsection \<open>The code\<close>

definition xor_at :: "u32 list \<Rightarrow> nat \<Rightarrow> u32 \<Rightarrow> u32 list" where
  "xor_at acc k v = acc[k := acc ! k XOR v]"

definition gf128_word_shift_xor :: "u32 list \<Rightarrow> u32 \<Rightarrow> nat \<Rightarrow> u32 list" where
  "gf128_word_shift_xor acc word pos =
     (let wq = pos div 32;
          wr = pos mod 32;
          v = push_bit wr (ucast word :: u64);
          acc1 = xor_at acc wq (ucast v)
      in if wq + 1 < 8 then xor_at acc1 (wq + 1) (ucast (drop_bit 32 v)) else acc1)"

text \<open>One iteration of the reduction loop, for bit \<open>i\<close> (from 255 down to 128).\<close>

definition gf128_reduce_step :: "nat \<Rightarrow> u32 list \<Rightarrow> u32 list" where
  "gf128_reduce_step i acc =
     (if drop_bit (i mod 32) (acc ! (i div 32)) AND 1 \<noteq> 0
      then let acc0 = xor_at acc (i div 32) (push_bit (i mod 32) 1);
               t = i - 128;
               acc1 = xor_at acc0 ((t + 7) div 32) (push_bit ((t + 7) mod 32) 1);
               acc2 = xor_at acc1 ((t + 2) div 32) (push_bit ((t + 2) mod 32) 1);
               acc3 = xor_at acc2 ((t + 1) div 32) (push_bit ((t + 1) mod 32) 1)
           in xor_at acc3 ((t + 0) div 32) (push_bit ((t + 0) mod 32) 1)
      else acc)"

definition gf128_reduce :: "u32 list \<Rightarrow> u32 list" where
  "gf128_reduce acc_in = take 4 (fold gf128_reduce_step (rev [128..<256]) acc_in)"

definition gf128_mul_acc :: "u32 list \<Rightarrow> nat \<Rightarrow> u32 list \<Rightarrow> u32 list" where
  "gf128_mul_acc X j acc = fold (\<lambda>w acc. gf128_word_shift_xor acc (X ! w) (32 * w + j)) [0..<4] acc"

definition gf128_mul_words :: "u32 list \<Rightarrow> u32 list \<Rightarrow> u32 list" where
  "gf128_mul_words X Y =
     gf128_reduce
       (fold (\<lambda>j acc. if drop_bit (j mod 32) (Y ! (j div 32)) AND 1 \<noteq> 0
                      then gf128_mul_acc X j acc else acc)
             [0..<128] (replicate 8 0))"

definition gf128_load :: "bytes \<Rightarrow> u32 list" where
  "gf128_load b = map (\<lambda>i. load_le (segment (4 * i) 4 b)) [0..<4]"

definition gf128_store :: "u32 list \<Rightarrow> bytes" where
  "gf128_store w = concat (map (\<lambda>i. bytes_le 4 (w ! i)) [0..<4])"

definition gf128_mul :: "bytes \<Rightarrow> bytes \<Rightarrow> bytes" where
  "gf128_mul x y = gf128_store (gf128_mul_words (gf128_load x) (gf128_load y))"

subsection \<open>Lengths\<close>

lemma length_xor_at [simp, lens]: "length (xor_at acc k v) = length acc"
  by (simp add: xor_at_def)

lemma length_gf128_word_shift_xor [simp, lens]: "length (gf128_word_shift_xor acc w p) = length acc"
  by (simp add: gf128_word_shift_xor_def Let_def)

lemma length_gf128_reduce_step [simp, lens]: "length (gf128_reduce_step i acc) = length acc"
  by (simp add: gf128_reduce_step_def Let_def)

lemma length_fold_preserved:
  "(\<And>x acc. length (f x acc) = length acc) \<Longrightarrow> length (fold f xs acc) = length acc"
  by (induction xs arbitrary: acc) auto

lemma length_gf128_reduce [lens]: "4 \<le> length acc \<Longrightarrow> length (gf128_reduce acc) = 4"
  by (simp add: gf128_reduce_def length_fold_preserved)

lemma length_gf128_mul_acc [simp, lens]: "length (gf128_mul_acc X j acc) = length acc"
  by (simp add: gf128_mul_acc_def length_fold_preserved)

lemma length_gf128_mul_words [simp, lens]: "length (gf128_mul_words X Y) = 4"
  by (simp add: gf128_mul_words_def length_gf128_reduce length_fold_preserved)

lemma length_gf128_load [simp, lens]: "length (gf128_load b) = 4"
  by (simp add: gf128_load_def)

lemma length_gf128_store [simp, lens]: "length (gf128_store w) = 16"
  by (simp add: gf128_store_def upt_rec)

lemma length_gf128_mul [simp, lens]: "length (gf128_mul x y) = 16"
  by (simp add: gf128_mul_def)

subsection \<open>Bytes and limbs\<close>

lemma upt_4: "[0..<4] = [0, 1, 2, 3 :: nat]"
  by (simp add: upt_rec)

lemma list_4_nth: "length xs = 4 \<Longrightarrow> [xs ! 0, xs ! 1, xs ! 2, xs ! 3] = xs"
  by (rule nth_equalityI) (auto simp: less_Suc_eq numeral_eq_Suc)

lemma gf128_load_store: "length w = 4 \<Longrightarrow> gf128_load (gf128_store w) = w"
proof -
  assume w: "length w = 4"
  have "map (\<lambda>i. segment (4 * i) 4 (gf128_store w)) [0..<4] = blocks 4 4 (gf128_store w)"
    by (simp add: blocks_def mult.commute)
  also have "\<dots> = map (\<lambda>i. bytes_le 4 (w ! i)) [0..<4]"
    unfolding gf128_store_def by (rule blocks_concat0) auto
  finally have "map load_le (map (\<lambda>i. segment (4 * i) 4 (gf128_store w)) [0..<4]) =
      (map load_le (map (\<lambda>i. bytes_le 4 (w ! i)) [0..<4]) :: u32 list)"
    by (rule arg_cong)
  then show ?thesis
    using list_4_nth [OF w] by (simp add: gf128_load_def upt_4 load_le_bytes_le)
qed

lemma gf128_store_load: "length b = 16 \<Longrightarrow> gf128_store (gf128_load b) = b"
proof -
  assume b: "length b = 16"
  have "bytes_le 4 (load_le (segment (4 * i) 4 b) :: u32) = segment (4 * i) 4 b" if "i < 4" for i
  proof -
    have "length (segment (4 * i) 4 b) = 4" using that b by (intro length_segment) simp
    then show ?thesis using bytes_le_load_le [of "segment (4 * i) 4 b", where 'a = 32] by simp
  qed
  then have "map (\<lambda>i. bytes_le 4 (gf128_load b ! i)) [0..<4] = blocks 4 4 b"
    by (auto simp: gf128_load_def blocks_def mult.commute)
  then show ?thesis
    using concat_blocks [of 4 4 b] b by (simp add: gf128_store_def)
qed

subsection \<open>Limb arrays as polynomials\<close>

fun limbs :: "u32 list \<Rightarrow> nat" where
  "limbs [] = 0"
| "limbs (w # ws) = unat w XOR push_bit 32 (limbs ws)"

lemma bit_limbs: "bit (limbs ws) k \<longleftrightarrow> k div 32 < length ws \<and> bit (ws ! (k div 32)) (k mod 32)"
proof (induction ws arbitrary: k)
  case Nil
  then show ?case by simp
next
  case (Cons w ws)
  show ?case
  proof (cases "k < 32")
    case True
    then show ?thesis by (auto simp: bit_simps)
  next
    case False
    then have "k div 32 = Suc ((k - 32) div 32)" and "(k - 32) mod 32 = k mod 32"
      by (simp_all add: le_div_geq le_mod_geq)
    moreover have "\<not> bit w k" using False bit_imp_le_length [of w k] by auto
    ultimately show ?thesis using False by (auto simp: bit_simps Cons.IH)
  qed
qed

lemma limbs_less: "limbs ws < 2 ^ (32 * length ws)"
proof (induction ws)
  case (Cons w ws)
  have "unat w < 2 ^ 32" using unsigned_less [of w, where 'a = nat] by simp
  moreover have "(2 :: nat) ^ 32 \<le> 2 ^ (32 * length (w # ws))" by (intro power_increasing) simp_all
  ultimately have "unat w < 2 ^ (32 * length (w # ws))" by (rule less_le_trans)
  moreover have "push_bit 32 (limbs ws) < 2 ^ (32 * length (w # ws))"
    using Cons by (simp add: push_bit_eq_mult power_add)
  ultimately show ?case by (simp add: xor_less_exp)
qed simp

lemma limbs_inject: "limbs xs = limbs ys \<Longrightarrow> length xs = length ys \<Longrightarrow> xs = ys"
proof (rule nth_equalityI)
  fix i assume eq: "limbs xs = limbs ys" and len: "length xs = length ys" and i: "i < length xs"
  show "xs ! i = ys ! i"
  proof (rule bit_word_eqI)
    fix k assume "k < LENGTH(32)"
    then have k: "k < 32" by simp
    have "(32 * i + k) div 32 = i" and "(32 * i + k) mod 32 = k" using k by simp_all
    then show "bit (xs ! i) k = bit (ys ! i) k"
      using bit_limbs [of xs "32 * i + k"] bit_limbs [of ys "32 * i + k"] eq len i by simp
  qed
qed

lemma limbs_replicate_0 [simp]: "limbs (replicate n 0) = 0"
  by (induction n) simp_all

lemma limbs_xor_at:
  "k < length acc \<Longrightarrow> limbs (xor_at acc k v) = limbs acc XOR push_bit (32 * k) (unat v)"
proof (induction acc arbitrary: k)
  case (Cons w ws)
  have u: "unat (w XOR v) = unat w XOR unat v" for w v :: u32
    by (simp add: unsigned_xor_eq)
  show ?case
  proof (cases k)
    case 0
    then show ?thesis by (simp add: xor_at_def u xor_ac)
  next
    case (Suc j)
    with Cons show ?thesis
      by (simp add: xor_at_def push_bit_xor push_bit_push_bit xor_ac add.commute)
  qed
qed simp


lemma limbs_xor_bit:
  "p div 32 < length acc \<Longrightarrow>
     limbs (xor_at acc (p div 32) (push_bit (p mod 32) 1)) = limbs acc XOR 2 ^ p"
proof -
  assume p: "p div 32 < length acc"
  have "unat (push_bit (p mod 32) (1 :: u32)) = 2 ^ (p mod 32)"
    by (rule bit_eqI) (auto simp: bit_simps)
  then have "push_bit (32 * (p div 32)) (unat (push_bit (p mod 32) (1 :: u32))) = 2 ^ p"
    by (simp add: push_bit_eq_mult del: push_bit_of_1 flip: power_add)
  with p show ?thesis by (simp only: limbs_xor_at)
qed

lemma push_bit_exp: "push_bit n (2 ^ k) = (2 :: nat) ^ (n + k)"
  by (simp add: push_bit_eq_mult power_add)

definition gf128_poly :: nat where
  "gf128_poly = 2 ^ 128 XOR 2 ^ 7 XOR 2 ^ 2 XOR 2 ^ 1 XOR 2 ^ 0"

lemma test_bit_word: "drop_bit n w AND 1 \<noteq> 0 \<longleftrightarrow> bit w n" for w :: "'a::len word"
  by (simp only: and_one_eq bit_iff_odd_drop_bit even_iff_mod_2_eq_zero) 

lemma limbs_reduce_step:
  assumes len: "length acc = 8" and i: "128 \<le> i" "i < 256"
  shows "limbs (gf128_reduce_step i acc) =
    (if bit (limbs acc) i then limbs acc XOR push_bit (i - 128) gf128_poly else limbs acc)"
proof -
  have bit: "drop_bit (i mod 32) (acc ! (i div 32)) AND 1 \<noteq> 0 \<longleftrightarrow> bit (limbs acc) i"
    using len i by (auto simp: test_bit_word bit_limbs)
  show ?thesis
  proof (cases "bit (limbs acc) i")
    case True
    have d: "i div 32 < 8" "(i - 128 + 7) div 32 < 8" "(i - 128 + 2) div 32 < 8"
      "(i - 128 + 1) div 32 < 8" "(i - 128 + 0) div 32 < 8" using i by auto
    have "limbs (gf128_reduce_step i acc) = limbs acc XOR 2 ^ i XOR 2 ^ (i - 128 + 7)
        XOR 2 ^ (i - 128 + 2) XOR 2 ^ (i - 128 + 1) XOR 2 ^ (i - 128 + 0)"
      using True d unfolding gf128_reduce_step_def bit Let_def
      by (simp only: if_True limbs_xor_bit length_xor_at len xor.assoc)
    moreover have "push_bit (i - 128) gf128_poly = 2 ^ i XOR 2 ^ (i - 128 + 7)
        XOR 2 ^ (i - 128 + 2) XOR 2 ^ (i - 128 + 1) XOR 2 ^ (i - 128 + 0)"
      using i by (simp only: gf128_poly_def push_bit_xor push_bit_exp le_add_diff_inverse2)
    ultimately show ?thesis using True by (simp only: if_True xor.assoc)
  next
    case False
    then show ?thesis unfolding gf128_reduce_step_def bit by simp
  qed
qed

lemma bit_gf128_poly: "bit gf128_poly k \<longleftrightarrow> k \<in> {128, 7, 2, 1, 0}"
  by (simp only: gf128_poly_def bit_xor_iff bit_exp_iff possible_bit_nat insert_iff empty_iff) auto

lemma push_bit_clmul: "push_bit n f = clmul f (2 ^ n)"
  using clmul_push_bit_right [of f n 1] by simp

lemma reduce_step_inv:
  assumes len: "length acc = 8" and i: "128 \<le> i" "i < 256" and lt: "limbs acc < 2 ^ Suc i"
  shows "limbs (gf128_reduce_step i acc) < 2 ^ i"
    and "clcong gf128_poly (limbs (gf128_reduce_step i acc)) (limbs acc)"
proof -
  let ?x = "limbs acc" and ?y = "limbs (gf128_reduce_step i acc)"
  note step = limbs_reduce_step [OF len i]
  have x: "\<not> bit ?x k" if "Suc i \<le> k" for k
    using lt that by (metis bit_take_bit_iff not_less take_bit_nat_eq_self_iff)
  have "\<not> bit ?y k" if "i \<le> k" for k
  proof (cases "k = i")
    case True
    then show ?thesis using step i by (auto simp: bit_simps bit_gf128_poly)
  next
    case False
    with that have "Suc i \<le> k" by simp
    with x [OF this] show ?thesis using step i by (auto simp: bit_simps bit_gf128_poly)
  qed
  then have "take_bit i ?y = ?y" by (intro bit_eqI) (metis bit_take_bit_iff not_le)
  then show "?y < 2 ^ i" by (simp add: take_bit_nat_eq_self_iff)
  show "clcong gf128_poly ?y ?x"
  proof (cases "bit ?x i")
    case True
    then have "?y XOR ?x = clmul gf128_poly (2 ^ (i - 128))"
      using step by (simp add: push_bit_clmul [of _ gf128_poly] xor.commute flip: xor.assoc)
    then show ?thesis by (auto simp: clcong_def)
  next
    case False
    then show ?thesis using step by (simp add: clcong_refl)
  qed
qed

lemma reduce_loop_inv:
  "length acc = 8 \<Longrightarrow> limbs acc < 2 ^ (128 + n) \<Longrightarrow> n \<le> 128 \<Longrightarrow>
     length (fold gf128_reduce_step (rev [128..<128 + n]) acc) = 8 \<and>
     limbs (fold gf128_reduce_step (rev [128..<128 + n]) acc) < 2 ^ 128 \<and>
     clcong gf128_poly (limbs (fold gf128_reduce_step (rev [128..<128 + n]) acc)) (limbs acc)"
proof (induction n arbitrary: acc)
  case 0
  then show ?case by (simp add: clcong_refl)
next
  case (Suc n)
  let ?acc = "gf128_reduce_step (128 + n) acc"
  have "limbs ?acc < 2 ^ (128 + n)" and c: "clcong gf128_poly (limbs ?acc) (limbs acc)"
    using reduce_step_inv [of acc "128 + n"] Suc.prems by simp_all
  moreover have "rev [128..<128 + Suc n] = (128 + n) # rev [128..<128 + n]"
    by (simp only: add_Suc_right upt_Suc_append rev_append) simp
  ultimately show ?case using Suc.IH [of ?acc] Suc.prems
    by (simp only: fold_simps) (auto intro: clcong_trans)
qed

lemma limbs_take: "limbs ws < 2 ^ (32 * n) \<Longrightarrow> limbs (take n ws) = limbs ws"
proof (rule bit_eqI)
  fix k assume lt: "limbs ws < 2 ^ (32 * n)"
  then have "take_bit (32 * n) (limbs ws) = limbs ws" by (simp add: take_bit_nat_eq_self_iff)
  then have "bit (limbs ws) k \<Longrightarrow> k < 32 * n" by (metis bit_take_bit_iff)
  then have "bit (limbs ws) k \<Longrightarrow> k div 32 < n" by (simp add: less_mult_imp_div_less mult.commute)
  then show "bit (limbs (take n ws)) k = bit (limbs ws) k" by (auto simp: bit_limbs)
qed

lemma limbs_reduce:
  assumes "length acc = 8"
  shows "limbs (gf128_reduce acc) < 2 ^ 128"
    and "clcong gf128_poly (limbs (gf128_reduce acc)) (limbs acc)"
proof -
  have "limbs acc < 2 ^ (128 + 128)" using limbs_less [of acc] assms by simp
  then have *: "limbs (fold gf128_reduce_step (rev [128..<256]) acc) < 2 ^ 128 \<and>
      clcong gf128_poly (limbs (fold gf128_reduce_step (rev [128..<256]) acc)) (limbs acc)"
    using reduce_loop_inv [of acc 128] assms by simp
  moreover from * have "limbs (gf128_reduce acc) = limbs (fold gf128_reduce_step (rev [128..<256]) acc)"
    unfolding gf128_reduce_def by (intro limbs_take) simp
  ultimately show "limbs (gf128_reduce acc) < 2 ^ 128"
    and "clcong gf128_poly (limbs (gf128_reduce acc)) (limbs acc)" by simp_all
qed

text \<open>The accumulation loops compute the carry-less product.\<close>

lemma limbs_word_shift_xor:
  assumes len: "length acc = 8" and pos: "pos div 32 < 7"
  shows "limbs (gf128_word_shift_xor acc w pos) = limbs acc XOR push_bit pos (unat w)"
proof -
  let ?v = "push_bit (pos mod 32) (ucast w :: u64)"
  have v: "unat (ucast ?v :: u32) XOR push_bit 32 (unat (ucast (drop_bit 32 ?v) :: u32)) =
      push_bit (pos mod 32) (unat w)"
  proof (rule bit_eqI)
    fix k
    show "bit (unat (ucast ?v :: u32) XOR push_bit 32 (unat (ucast (drop_bit 32 ?v) :: u32))) k =
      bit (push_bit (pos mod 32) (unat w)) k"
      using bit_imp_le_length [of w "k - pos mod 32"] by (auto simp: bit_simps)
  qed
  have "limbs (gf128_word_shift_xor acc w pos) = limbs acc XOR
      push_bit (32 * (pos div 32)) (unat (ucast ?v :: u32)) XOR
      push_bit (32 * (pos div 32 + 1)) (unat (ucast (drop_bit 32 ?v) :: u32))"
    using len pos by (simp add: gf128_word_shift_xor_def Let_def limbs_xor_at xor.assoc)
  also have "push_bit (32 * (pos div 32 + 1)) (unat (ucast (drop_bit 32 ?v) :: u32)) =
      push_bit (32 * (pos div 32)) (push_bit 32 (unat (ucast (drop_bit 32 ?v) :: u32)))"
    by (simp add: push_bit_push_bit add.commute)
  also have "limbs acc XOR push_bit (32 * (pos div 32)) (unat (ucast ?v :: u32)) XOR \<dots> =
      limbs acc XOR push_bit (32 * (pos div 32)) (push_bit (pos mod 32) (unat w))"
    by (simp only: xor.assoc flip: push_bit_xor v)
  finally show ?thesis by (simp add: push_bit_push_bit)
qed

lemma limbs_mul_acc:
  assumes len: "length acc = 8" and X: "length X = 4" and j: "j < 128"
  shows "limbs (gf128_mul_acc X j acc) = limbs acc XOR push_bit j (limbs X)"
proof -
  have d: "(32 * w + j) div 32 < 7" if "w < 4" for w using that j by simp
  have "limbs X = limbs [X ! 0, X ! 1, X ! 2, X ! 3]" by (simp only: list_4_nth [OF X])
  then have "push_bit j (limbs X) = push_bit (32 * 0 + j) (unat (X ! 0)) XOR
      push_bit (32 * 1 + j) (unat (X ! 1)) XOR push_bit (32 * 2 + j) (unat (X ! 2)) XOR
      push_bit (32 * 3 + j) (unat (X ! 3))"
    by (simp only: limbs.simps push_bit_xor push_bit_push_bit push_bit_of_0)
       (simp add: add.commute)
  moreover have "limbs (gf128_mul_acc X j acc) = limbs acc XOR push_bit (32 * 0 + j) (unat (X ! 0)) XOR
      push_bit (32 * 1 + j) (unat (X ! 1)) XOR push_bit (32 * 2 + j) (unat (X ! 2)) XOR
      push_bit (32 * 3 + j) (unat (X ! 3))"
    using d [of 0] d [of 1] d [of 2] d [of 3] len
    by (simp add: gf128_mul_acc_def upt_4 limbs_word_shift_xor xor.assoc)
  ultimately show ?thesis by simp
qed

lemma take_bit_Suc_xor: "take_bit (Suc n) (y :: nat) = take_bit n y XOR (if bit y n then 2 ^ n else 0)"
  by (rule bit_eqI) (auto simp: bit_simps less_Suc_eq)

lemma limbs_mul_loop:
  assumes X: "length X = 4" and Y: "length Y = 4" and n: "n \<le> 128"
  shows "length (fold (\<lambda>j acc. if drop_bit (j mod 32) (Y ! (j div 32)) AND 1 \<noteq> 0
                  then gf128_mul_acc X j acc else acc) [0..<n] (replicate 8 0)) = 8 \<and>
    limbs (fold (\<lambda>j acc. if drop_bit (j mod 32) (Y ! (j div 32)) AND 1 \<noteq> 0
                  then gf128_mul_acc X j acc else acc) [0..<n] (replicate 8 0)) =
    clmul (limbs X) (take_bit n (limbs Y))"
  using n
proof (induction n)
  case (Suc n)
  have "bit (limbs Y) n \<longleftrightarrow> bit (Y ! (n div 32)) (n mod 32)"
    using Suc.prems Y by (auto simp: bit_limbs)
  then show ?case using Suc X
    by (simp add: test_bit_word limbs_mul_acc take_bit_Suc_xor clmul_xor_right push_bit_clmul)
qed simp

lemma limbs_mul_words:
  assumes X: "length X = 4" and Y: "length Y = 4"
  shows "limbs (gf128_mul_words X Y) < 2 ^ 128"
    and "clcong gf128_poly (limbs (gf128_mul_words X Y)) (clmul (limbs X) (limbs Y))"
proof -
  have "limbs Y < 2 ^ 128" using limbs_less [of Y] Y by simp
  then have t: "take_bit 128 (limbs Y) = limbs Y" by (simp add: take_bit_nat_eq_self_iff)
  let ?acc = "fold (\<lambda>j acc. if drop_bit (j mod 32) (Y ! (j div 32)) AND 1 \<noteq> 0
                  then gf128_mul_acc X j acc else acc) [0..<128] (replicate 8 0)"
  have "length ?acc = 8" and "limbs ?acc = clmul (limbs X) (limbs Y)"
    using limbs_mul_loop [OF X Y, of 128] t by simp_all
  then show "limbs (gf128_mul_words X Y) < 2 ^ 128"
    and "clcong gf128_poly (limbs (gf128_mul_words X Y)) (clmul (limbs X) (limbs Y))"
    using limbs_reduce [of ?acc] by (simp_all only: gf128_mul_words_def)
qed

subsection \<open>Ring laws\<close>

definition xor_words :: "'a::len word list \<Rightarrow> 'a word list \<Rightarrow> 'a word list" where
  "xor_words xs ys = map2 (XOR) xs ys"

lemma length_xor_words [simp, lens]: "length (xor_words xs ys) = min (length xs) (length ys)"
  by (simp add: xor_words_def)

lemma nth_xor_words [simp]:
  "i < length xs \<Longrightarrow> i < length ys \<Longrightarrow> xor_words xs ys ! i = xs ! i XOR ys ! i"
  by (simp add: xor_words_def)

lemma limbs_xor_words:
  "length xs = length ys \<Longrightarrow> limbs (xor_words xs ys) = limbs xs XOR limbs ys"
proof (rule bit_eqI)
  fix k assume "length xs = length ys"
  then show "bit (limbs (xor_words xs ys)) k = bit (limbs xs XOR limbs ys) k"
    by (cases "k div 32 < length ys") (simp_all add: bit_limbs bit_xor_iff)
qed

lemma gf128_poly_bounds: "2 ^ 128 \<le> gf128_poly" "gf128_poly < 2 ^ Suc 128"
  by (simp_all add: gf128_poly_def)

lemma limbs_cong_eq:
  assumes "clcong gf128_poly (limbs xs) (limbs ys)"
    and "limbs xs < 2 ^ 128" "limbs ys < 2 ^ 128" "length xs = length ys"
  shows "xs = ys"
  using clcong_unique [OF gf128_poly_bounds assms(2,3,1)] assms(4) by (rule limbs_inject)

lemma gf128_reduce_xor:
  assumes "length a = 8" "length b = 8"
  shows "gf128_reduce (xor_words a b) = xor_words (gf128_reduce a) (gf128_reduce b)"
proof (rule limbs_cong_eq)
  have ab: "limbs (xor_words a b) = limbs a XOR limbs b" using assms by (simp add: limbs_xor_words)
  have r: "limbs (xor_words (gf128_reduce a) (gf128_reduce b)) =
      limbs (gf128_reduce a) XOR limbs (gf128_reduce b)"
    using assms by (simp add: limbs_xor_words length_gf128_reduce)
  have "clcong gf128_poly (limbs (gf128_reduce a) XOR limbs (gf128_reduce b)) (limbs a XOR limbs b)"
    by (intro clcong_xor limbs_reduce assms)
  moreover have "clcong gf128_poly (limbs (gf128_reduce (xor_words a b))) (limbs a XOR limbs b)"
    using limbs_reduce(2) [of "xor_words a b"] assms ab by simp
  ultimately show "clcong gf128_poly (limbs (gf128_reduce (xor_words a b)))
      (limbs (xor_words (gf128_reduce a) (gf128_reduce b)))"
    unfolding r by (blast intro: clcong_trans clcong_sym)
  show "limbs (xor_words (gf128_reduce a) (gf128_reduce b)) < 2 ^ 128"
    unfolding r by (intro xor_less_exp limbs_reduce assms)
qed (use assms limbs_reduce(1) in \<open>simp_all add: length_gf128_reduce\<close>)

lemma gf128_mul_words_commute:
  assumes "length X = 4" "length Y = 4"
  shows "gf128_mul_words X Y = gf128_mul_words Y X"
proof (rule limbs_cong_eq)
  show "clcong gf128_poly (limbs (gf128_mul_words X Y)) (limbs (gf128_mul_words Y X))"
    using limbs_mul_words(2) [of X Y] limbs_mul_words(2) [of Y X] assms
    by (metis clcong_trans clcong_sym clmul_commute)
qed (use assms limbs_mul_words(1) in simp_all)

lemma gf128_mul_words_assoc:
  assumes X: "length X = 4" and Y: "length Y = 4" and Z: "length Z = 4"
  shows "gf128_mul_words (gf128_mul_words X Y) Z = gf128_mul_words X (gf128_mul_words Y Z)"
proof (rule limbs_cong_eq)
  let ?XY = "gf128_mul_words X Y" and ?YZ = "gf128_mul_words Y Z"
  have "clcong gf128_poly (limbs (gf128_mul_words ?XY Z)) (clmul (clmul (limbs X) (limbs Y)) (limbs Z))"
    using limbs_mul_words(2) [of ?XY Z] Z clcong_clmul_right [OF limbs_mul_words(2) [OF X Y]]
    by (auto intro: clcong_trans)
  moreover have "clcong gf128_poly (limbs (gf128_mul_words X ?YZ)) (clmul (limbs X) (clmul (limbs Y) (limbs Z)))"
    using limbs_mul_words(2) [of X ?YZ] X clcong_clmul_left [OF limbs_mul_words(2) [OF Y Z]]
    by (auto intro: clcong_trans)
  ultimately show "clcong gf128_poly (limbs (gf128_mul_words ?XY Z)) (limbs (gf128_mul_words X ?YZ))"
    unfolding clmul_assoc by (blast intro: clcong_trans clcong_sym)
qed (use assms limbs_mul_words(1) in simp_all)

lemma gf128_mul_words_xor:
  assumes X: "length X = 4" and Y: "length Y = 4" and Z: "length Z = 4"
  shows "gf128_mul_words X (xor_words Y Z) = xor_words (gf128_mul_words X Y) (gf128_mul_words X Z)"
proof (rule limbs_cong_eq)
  have r: "limbs (xor_words (gf128_mul_words X Y) (gf128_mul_words X Z)) =
      limbs (gf128_mul_words X Y) XOR limbs (gf128_mul_words X Z)"
    by (simp add: limbs_xor_words)
  have "clcong gf128_poly (limbs (gf128_mul_words X Y) XOR limbs (gf128_mul_words X Z))
      (clmul (limbs X) (limbs Y) XOR clmul (limbs X) (limbs Z))"
    by (intro clcong_xor limbs_mul_words assms)
  moreover have "clcong gf128_poly (limbs (gf128_mul_words X (xor_words Y Z)))
      (clmul (limbs X) (limbs Y) XOR clmul (limbs X) (limbs Z))"
    using limbs_mul_words(2) [of X "xor_words Y Z"] X Y Z
    by (simp add: limbs_xor_words clmul_xor_right)
  ultimately show "clcong gf128_poly (limbs (gf128_mul_words X (xor_words Y Z)))
      (limbs (xor_words (gf128_mul_words X Y) (gf128_mul_words X Z)))"
    unfolding r by (blast intro: clcong_trans clcong_sym)
  show "limbs (xor_words (gf128_mul_words X Y) (gf128_mul_words X Z)) < 2 ^ 128"
    unfolding r by (intro xor_less_exp limbs_mul_words assms)
qed (use assms limbs_mul_words(1) in simp_all)

lemma gf128_mul_words_one:
  assumes X: "length X = 4"
  shows "gf128_mul_words X [1, 0, 0, 0] = X"
proof (rule limbs_cong_eq)
  show "clcong gf128_poly (limbs (gf128_mul_words X [1, 0, 0, 0])) (limbs X)"
    using limbs_mul_words(2) [of X "[1, 0, 0, 0]"] X by simp
  show "limbs X < 2 ^ 128" using limbs_less [of X] X by simp
qed (use assms limbs_mul_words(1) in simp_all)

end
