(* ===== verification/Commitment.thy ===== *)
theory Commitment
  imports Blake3 Gf128
begin

text \<open>
  \<^verbatim>\<open>commitment.c\<close>: the Halevi-Micali commitment over GF(2^128) with two lines of six
  nonces, encoded \<open>a || b || y\<close>. Byte arrays are lists; \<open>x + k * HM_ELT\<close> with a length
  becomes \<open>segment\<close>.
\<close>

definition HM_NONCES :: nat where "HM_NONCES = 6"
definition HM_LINES :: nat where "HM_LINES = 2"
definition HM_ELT :: nat where "HM_ELT = 16"
definition HM_R_BYTES :: nat where "HM_R_BYTES = HM_NONCES * HM_ELT"
definition HM_A_BYTES :: nat where "HM_A_BYTES = HM_LINES * HM_NONCES * HM_ELT"
definition HM_B_BYTES :: nat where "HM_B_BYTES = HM_LINES * HM_ELT"
definition HM_Y_BYTES :: nat where "HM_Y_BYTES = 32"
definition HM_COM_BYTES :: nat where "HM_COM_BYTES = HM_A_BYTES + HM_B_BYTES + HM_Y_BYTES"

lemmas hm_sizes = HM_NONCES_def HM_LINES_def HM_ELT_def HM_R_BYTES_def HM_A_BYTES_def
  HM_B_BYTES_def HM_Y_BYTES_def HM_COM_BYTES_def

definition HM_DOM_Y :: bytes where "HM_DOM_Y = ascii ''HMy''"
definition HM_DOM_D :: bytes where "HM_DOM_D = ascii ''HMd''"

definition hm_y :: "b3 \<Rightarrow> bytes \<Rightarrow> bytes" where
  "hm_y B r = blake3_th_into B HM_DOM_Y r HM_Y_BYTES"

text \<open>Line \<open>k\<close>: the accumulator starts at the message half and absorbs the products.\<close>

definition hm_line :: "bytes \<Rightarrow> bytes \<Rightarrow> bytes \<Rightarrow> nat \<Rightarrow> bytes" where
  "hm_line m_hat a r k =
     fold (\<lambda>i acc.
             let prod = gf128_mul (segment ((k * HM_NONCES + i) * HM_ELT) HM_ELT a)
                                  (segment (i * HM_ELT) HM_ELT r)
             in xor_words acc prod)
          [0..<HM_NONCES] (segment (k * HM_ELT) HM_ELT m_hat)"

definition hm_lines :: "bytes \<Rightarrow> bytes \<Rightarrow> bytes \<Rightarrow> bytes" where
  "hm_lines m_hat a r = concat (map (hm_line m_hat a r) [0..<HM_LINES])"

definition hm_commitment :: "bytes \<Rightarrow> bytes \<Rightarrow> bytes \<Rightarrow> bytes" where
  "hm_commitment a b y = a @ b @ y"

definition hm_digest :: "b3 \<Rightarrow> bytes \<Rightarrow> bytes" where
  "hm_digest B com = blake3_th_into B HM_DOM_D com 32"

text \<open>The two output buffers: the commitment and its digest.\<close>

definition hm_commit :: "b3 \<Rightarrow> bytes \<Rightarrow> bytes \<Rightarrow> bytes \<Rightarrow> bytes \<times> bytes" where
  "hm_commit B m_hat r a =
     (let y = hm_y B r;
          b = hm_lines m_hat a r;
          com = hm_commitment a b y
      in (com, hm_digest B com))"

lemma length_hm_y [simp, lens]: "b3_length B \<Longrightarrow> length (hm_y B r) = 32"
  by (simp add: hm_y_def blake3_th_into_eq HM_DOM_Y_def HM_Y_BYTES_def BLAKE3_TH_MAX_DOMAIN_def
      BLAKE3_OUT_LEN_def lens)

lemma length_hm_digest [simp, lens]: "b3_length B \<Longrightarrow> length (hm_digest B com) = 32"
  by (simp add: hm_digest_def blake3_th_into_eq HM_DOM_D_def BLAKE3_TH_MAX_DOMAIN_def
      BLAKE3_OUT_LEN_def lens)

lemma length_fold_xor_words:
  "length acc = n \<Longrightarrow> (\<And>i. length (f i) = n) \<Longrightarrow> length (fold (\<lambda>i acc. xor_words acc (f i)) is acc) = n"
  by (induction "is" arbitrary: acc) simp_all

lemma length_hm_line [lens]: "length m_hat = 32 \<Longrightarrow> k < HM_LINES \<Longrightarrow> length (hm_line m_hat a r k) = 16"
  unfolding hm_line_def Let_def
  by (rule length_fold_xor_words) (auto simp: segment_def hm_sizes)

lemma length_hm_lines [lens]: "length m_hat = 32 \<Longrightarrow> length (hm_lines m_hat a r) = HM_B_BYTES"
  unfolding hm_lines_def
  by (subst length_concat_const [where w = 16]) (auto simp: length_hm_line hm_sizes)

lemma length_hm_commit:
  "b3_length B \<Longrightarrow> length m_hat = 32 \<Longrightarrow> length a = HM_A_BYTES \<Longrightarrow>
     length (fst (hm_commit B m_hat r a)) = HM_COM_BYTES \<and> length (snd (hm_commit B m_hat r a)) = 32"
  by (simp add: hm_commit_def Let_def hm_commitment_def length_hm_lines HM_COM_BYTES_def HM_Y_BYTES_def)

text \<open>
  What a line computes, over polynomials: the message half plus the inner product of the
  line's coefficients with the nonces.
\<close>

definition elt :: "bytes \<Rightarrow> nat" where
  "elt b = limbs (gf128_load b)"

definition hm_dot :: "bytes \<Rightarrow> bytes \<Rightarrow> nat \<Rightarrow> nat \<Rightarrow> nat" where
  "hm_dot a r k n = foldr (XOR)
     (map (\<lambda>i. clmul (elt (segment ((k * HM_NONCES + i) * HM_ELT) HM_ELT a))
                     (elt (segment (i * HM_ELT) HM_ELT r))) [0..<n]) 0"

lemma gf128_load_xor:
  assumes "length x = 16" "length y = 16"
  shows "gf128_load (xor_words x y) = xor_words (gf128_load x) (gf128_load y)"
proof (rule nth_equalityI)
  fix i assume "i < length (gf128_load (xor_words x y))"
  then have i: "i < 4" by simp
  have *: "(load_le (segment (4 * i) 4 (xor_words x y)) :: u32) =
      load_le (segment (4 * i) 4 x) XOR load_le (segment (4 * i) 4 y)"
  proof (rule bit_word_eqI)
    fix k assume "k < LENGTH(32)"
    then have "k div 8 < 4" by simp
    then show "bit (load_le (segment (4 * i) 4 (xor_words x y)) :: u32) k =
        bit (load_le (segment (4 * i) 4 x) XOR load_le (segment (4 * i) 4 y) :: u32) k"
      using i assms by (auto simp: bit_load_le bit_xor_iff segment_def)
  qed
  show "gf128_load (xor_words x y) ! i = xor_words (gf128_load x) (gf128_load y) ! i"
    using i * by (simp add: gf128_load_def)
qed simp

lemma elt_xor: "length x = 16 \<Longrightarrow> length y = 16 \<Longrightarrow> elt (xor_words x y) = elt x XOR elt y"
  by (simp add: elt_def gf128_load_xor limbs_xor_words)

lemma elt_mul: "clcong gf128_poly (elt (gf128_mul x y)) (clmul (elt x) (elt y))"
  using limbs_mul_words(2) [of "gf128_load x" "gf128_load y"]
  by (simp add: elt_def gf128_mul_def gf128_load_store)

lemma foldr_xor_append: "foldr (XOR) (xs @ [x]) (0 :: nat) = foldr (XOR) xs 0 XOR x"
  by (induction xs) (simp_all add: xor.assoc)

lemma hm_line_elt:
  assumes m: "length m_hat = 32" and k: "k < HM_LINES"
  shows "clcong gf128_poly (elt (hm_line m_hat a r k))
    (elt (segment (k * HM_ELT) HM_ELT m_hat) XOR hm_dot a r k HM_NONCES)"
proof -
  let ?f = "\<lambda>i acc. xor_words acc (gf128_mul (segment ((k * HM_NONCES + i) * HM_ELT) HM_ELT a)
      (segment (i * HM_ELT) HM_ELT r))"
  let ?m = "segment (k * HM_ELT) HM_ELT m_hat"
  have lm: "length ?m = 16" using m k by (auto simp: segment_def hm_sizes)
  have "length (fold ?f [0..<n] ?m) = 16 \<and>
      clcong gf128_poly (elt (fold ?f [0..<n] ?m)) (elt ?m XOR hm_dot a r k n)" for n
  proof (induction n)
    case 0
    show ?case using lm by (simp add: hm_dot_def clcong_refl)
  next
    case (Suc n)
    have "elt ?m XOR hm_dot a r k (Suc n) = (elt ?m XOR hm_dot a r k n) XOR
        clmul (elt (segment ((k * HM_NONCES + n) * HM_ELT) HM_ELT a)) (elt (segment (n * HM_ELT) HM_ELT r))"
      unfolding hm_dot_def upt_Suc_append [OF le0] map_append list.map foldr_xor_append
      by (simp only: xor.assoc)
    then show ?case using Suc
      by (simp add: elt_xor) (blast intro: clcong_xor elt_mul)
  qed
  then show ?thesis by (simp add: hm_line_def Let_def)
qed

text \<open>Adding to the message adds the same to the lines: the commitment is affine in \<open>m\<close>.\<close>

lemma fold_xor_words_shift:
  "length acc = n \<Longrightarrow> length d = n \<Longrightarrow> (\<And>i. length (f i) = n) \<Longrightarrow>
     fold (\<lambda>i acc. xor_words acc (f i)) is (xor_words acc d) =
     xor_words (fold (\<lambda>i acc. xor_words acc (f i)) is acc) d"
proof (induction "is" arbitrary: acc)
  case (Cons i "is")
  have "xor_words (xor_words acc d) (f i) = xor_words (xor_words acc (f i)) d"
    using Cons.prems by (intro nth_equalityI) (simp_all add: ac_simps)
  with Cons show ?case by simp
qed simp

lemma segment_xor_words: "segment off len (xor_words x y) = xor_words (segment off len x) (segment off len y)"
  by (simp add: segment_def xor_words_def take_map drop_map take_zip drop_zip)

lemma hm_line_affine:
  assumes "length m = 32" "length d = 32" "k < HM_LINES"
  shows "hm_line (xor_words m d) a r k = xor_words (hm_line m a r k) (segment (k * HM_ELT) HM_ELT d)"
  unfolding hm_line_def Let_def segment_xor_words
  using assms by (intro fold_xor_words_shift [where n = 16]) (auto simp: segment_def hm_sizes)

end
