(* ===== verification/Foundation_Properties.thy ===== *)
theory Foundation_Properties
  imports Commitment Sample_Platform
begin

text \<open>
  The properties of the field arithmetic, the commitment, the hash wrappers and the
  entropy reader, with the witnesses of their hypotheses.
\<close>

lemma elt_less: "elt b < 2 ^ 128"
  using limbs_less [of "gf128_load b"] by (simp add: elt_def)

text \<open>The product of two field elements is the one polynomial of degree below 128 that
  is congruent to the carry-less product modulo \<open>x^128 + x^7 + x^2 + x + 1\<close>.\<close>

theorem gf128_mul_reduced:
  "elt (gf128_mul x y) = r \<longleftrightarrow> r < 2 ^ 128 \<and> clcong gf128_poly r (clmul (elt x) (elt y))"
  using clcong_unique [OF gf128_poly_bounds elt_less, of r "gf128_mul x y"] elt_mul [of x y] elt_less [of "gf128_mul x y"]
  by (blast intro: clcong_trans clcong_sym)

text \<open>The 16-byte elements form a commutative ring under the code's product and
  byte-wise exclusive or, with the element 1 of the encoding as the unit.\<close>

theorem gf128_mul_ring:
  assumes "length x = 16" "length y = 16" "length z = 16"
  shows "gf128_mul x y = gf128_mul y x \<and> gf128_mul (gf128_mul x y) z = gf128_mul x (gf128_mul y z)
    \<and> gf128_mul x (xor_words y z) = xor_words (gf128_mul x y) (gf128_mul x z)
    \<and> gf128_mul x (1 # replicate 15 0) = x"
proof (intro conjI)
  show "gf128_mul x y = gf128_mul y x" by (simp add: gf128_mul_def gf128_mul_words_commute)
  show "gf128_mul (gf128_mul x y) z = gf128_mul x (gf128_mul y z)"
    by (simp add: gf128_mul_def gf128_load_store gf128_mul_words_assoc)
  have "gf128_load (gf128_mul x (xor_words y z)) = gf128_load (xor_words (gf128_mul x y) (gf128_mul x z))"
    using assms by (simp add: gf128_load_xor gf128_mul_def gf128_load_store gf128_mul_words_xor)
  then show "gf128_mul x (xor_words y z) = xor_words (gf128_mul x y) (gf128_mul x z)"
    by (auto dest!: arg_cong [where f = gf128_store] simp: gf128_store_load)
  have "gf128_load (1 # replicate 15 0) = [1, 0, 0, 0]" by code_simp
  then show "gf128_mul x (1 # replicate 15 0) = x"
    using assms(1) by (simp add: gf128_mul_def gf128_mul_words_one gf128_store_load)
qed

theorem gf128_mul_ring_witness:
  "gf128_mul (replicate 16 3) (replicate 16 5) = gf128_mul (replicate 16 5) (replicate 16 3)"
  using gf128_mul_ring [of "replicate 16 3" "replicate 16 5" "replicate 16 7"] by simp

text \<open>A line of the Halevi-Micali commitment is the message half plus the inner product,
  in the field, of the line's coefficients with the nonces.\<close>

theorem hm_line_inner_product:
  assumes "length m_hat = 32" "k < HM_LINES"
  shows "clcong gf128_poly (elt (hm_line m_hat a r k))
    (elt (segment (k * HM_ELT) HM_ELT m_hat) XOR hm_dot a r k HM_NONCES)"
  by (rule hm_line_elt [OF assms])

theorem hm_line_inner_product_witness:
  "clcong gf128_poly (elt (hm_line (replicate 32 1) (replicate 192 2) (replicate 96 3) 1))
    (elt (segment (1 * HM_ELT) HM_ELT (replicate 32 1)) XOR hm_dot (replicate 192 2) (replicate 96 3) 1 HM_NONCES)"
  by (rule hm_line_inner_product) (simp_all add: HM_LINES_def)

lemma xor_eq_self: "x = x XOR y \<longleftrightarrow> y = 0" for x y :: "'a::len word"
  by (metis xor_self_eq xor.assoc xor.left_neutral xor.right_neutral)

lemma hm_commit_message:
  assumes B: "b3_length B" and m: "length m = 32" "length m' = 32" and a: "length a = HM_A_BYTES"
    and eq: "fst (hm_commit B m r a) = fst (hm_commit B m' r a)"
  shows "m = m'"
proof -
  let ?d = "xor_words m m'"
  have d: "length ?d = 32" "xor_words m ?d = m'"
    using m by (auto intro!: nth_equalityI simp flip: xor.assoc)
  have "hm_lines m a r @ hm_y B r = hm_lines m' a r @ hm_y B r"
    using eq a by (simp add: hm_commit_def Let_def hm_commitment_def)
  then have "hm_lines m a r = hm_lines m' a r" by simp
  then have "hm_line m a r 0 = hm_line m' a r 0 \<and> hm_line m a r 1 = hm_line m' a r 1"
    using m by (auto simp: hm_lines_def HM_LINES_def numeral_2_eq_2 length_hm_line)
  then have "hm_line m' a r k = hm_line m a r k" if "k < HM_LINES" for k
    using that by (auto simp: HM_LINES_def less_2_cases_iff)
  then have "xor_words (hm_line m a r k) (segment (k * HM_ELT) HM_ELT ?d) = hm_line m a r k" if "k < HM_LINES" for k
    using hm_line_affine [OF m(1) d(1) that, of a r] d(2) that by simp
  moreover have "length (segment (k * HM_ELT) HM_ELT ?d) = 16" "length (hm_line m a r k) = 16" if "k < HM_LINES" for k
    using that m by (auto simp: segment_def HM_ELT_def HM_LINES_def length_hm_line)
  ultimately have zero: "segment (k * HM_ELT) HM_ELT ?d ! i = 0" if "k < HM_LINES" "i < 16" for k i
    using nth_xor_words [of i "hm_line m a r k" "segment (k * HM_ELT) HM_ELT ?d"] that
    by (simp add: xor_eq_self)
  have "?d ! i = 0" if "i < 32" for i
  proof (cases "i < 16")
    case True
    then show ?thesis using zero [of 0 i] m by (simp add: segment_def HM_LINES_def HM_ELT_def)
  next
    case False
    then show ?thesis using zero [of 1 "i - 16"] m that by (simp add: segment_def HM_LINES_def HM_ELT_def)
  qed
  then have "m ! i XOR m' ! i = 0" if "i < 32" for i using m that by (metis nth_xor_words)
  then have zero: "m ! i XOR m' ! i = 0" if "i < 32" for i using that by simp
  have "m ! i = m' ! i" if "i < 32" for i
  proof -
    have "m ! i XOR (m ! i XOR m' ! i) = m ! i" using zero [OF that] by simp
    then show ?thesis by (simp flip: xor.assoc)
  qed
  then show ?thesis using m by (intro nth_equalityI) auto
qed

text \<open>C40. With the nonces and the coefficients fixed, a commitment opens to one message only:
  changing the committed digest changes the commitment string.\<close>

theorem hm_commit_binds_message:
  assumes "b3_length B" "length m = 32" "length m' = 32" "length a = HM_A_BYTES"
    and "fst (hm_commit B m r a) = fst (hm_commit B m' r a)"
  shows "m = m'"
  by (rule hm_commit_message [OF assms])

theorem hm_commit_binds_message_witness:
  "(replicate 32 1 :: bytes) = replicate 16 1 @ replicate 16 1"
  by (rule hm_commit_binds_message [of "b3 sample_platform" _ _ "replicate 192 2" "replicate 96 3"])
     (simp_all add: sample_b3_length HM_A_BYTES_def HM_LINES_def HM_NONCES_def HM_ELT_def flip: replicate_add)

text \<open>Hashing in pieces is hashing at once: initialising on a domain that fits the frame,
  absorbing any pieces and finalising gives the one-shot hash of their concatenation.\<close>

theorem blake3_th_streaming:
  assumes "b3_length B" "length dm \<le> BLAKE3_TH_MAX_DOMAIN" "n \<le> BLAKE3_OUT_LEN"
  shows "th_stream B dm (map (\<lambda>d. (Some d, length d)) ds) n = blake3_th_into B dm (concat ds) n"
  using th_stream_eq [OF assms, of ds] blake3_th_into_eq [OF assms, of "concat ds"] by simp

theorem blake3_th_streaming_witness:
  "th_stream (b3 sample_platform) [1] (map (\<lambda>d. (Some d, length d)) [[2], [3, 4]]) 32 =
     blake3_th_into (b3 sample_platform) [1] (concat [[2], [3, 4]]) 32"
  by (rule blake3_th_streaming) (simp_all add: sample_b3_length BLAKE3_TH_MAX_DOMAIN_def BLAKE3_OUT_LEN_def)

text \<open>A context that was not initialised on a valid domain, or that was once given a null
  buffer of positive length, never produces output: finalising fails and leaves the buffer.\<close>

theorem blake3_th_poisoned:
  assumes "length dm > BLAKE3_TH_MAX_DOMAIN \<or> (None, n) \<in> set ps \<and> n \<noteq> 0"
  shows "blake3_th_final B (th_updates (snd (blake3_th_init ctx p (length dm))) ps) out k = (False, out)"
  using assms by (elim disjE conjE)
    (simp_all add: blake3_th_final_poisoned th_updates_poisoned th_init_bad th_updates_null)

theorem blake3_th_poisoned_witness:
  "blake3_th_final (b3 sample_platform) (th_updates (snd (blake3_th_init uninit_ctx (Some [7]) (length [7 :: byte])))
     [(Some [1], 1), (None, 2)]) (Some [9]) 1 = (False, Some [9])"
  by (rule blake3_th_poisoned [where n = 2]) simp

text \<open>Domain separation: the framings of the two hash modes are injective in the domain and
  the data together, so inputs of different domains never collide in what is absorbed.\<close>

theorem blake3_frames_injective:
  assumes "length d < 2 ^ 32" "length d' < 2 ^ 32"
  shows "(th_frame d x = th_frame d' x' \<longleftrightarrow> d = d' \<and> x = x') \<and>
    (blake3_keyed_xof B key s x n = B (Keyed key) (xof_frame s x) n) \<and>
    (length s < 2 ^ 64 \<and> length s' < 2 ^ 64 \<longrightarrow> (xof_frame s x = xof_frame s' x' \<longleftrightarrow> s = s' \<and> x = x'))"
  by (intro conjI impI) (simp_all only: th_frame_inject [OF assms] blake3_keyed_xof_frame xof_frame_inject)

theorem blake3_frames_injective_witness: "th_frame [1] [2, 3] \<noteq> th_frame [1, 2] [3]"
  using blake3_frames_injective [of "[1]" "[1, 2]" "[2, 3]" "[3]"] by simp

text \<open>The entropy reader: a null buffer is refused before any call; a success fills
  exactly the requested bytes with one call for each started block of 256, and a failure
  clears them; bytes past the request are never touched.\<close>

theorem randombytes_fill_outcome:
  assumes "platform_ok P"
  shows "randombytes_fill P None n c = ((n = 0, None), c) \<and>
    (case randombytes_fill P (Some buf) n c of
       ((True, res), c') \<Rightarrow> c' = c + (n + 255) div 256 \<and> (\<exists>out. length out = n \<and> res = Some (out @ drop n buf))
     | ((False, res), c') \<Rightarrow> res = Some (replicate n 0 @ drop n buf))"
proof (intro conjI)
  show "randombytes_fill P None n c = ((n = 0, None), c)" by (simp add: randombytes_fill_def)
  obtain res c' where r: "randombytes_loop P n [] c = (res, c')" by fastforce
  show "case randombytes_fill P (Some buf) n c of
       ((True, res), c') \<Rightarrow> c' = c + (n + 255) div 256 \<and> (\<exists>out. length out = n \<and> res = Some (out @ drop n buf))
     | ((False, res), c') \<Rightarrow> res = Some (replicate n 0 @ drop n buf)"
    using randombytes_loop_length [OF assms, of n "[]" c] randombytes_loop_calls [of P n "[]" c] r
    by (cases res) (auto simp: randombytes_fill_def BLIND_MSS_GETENTROPY_MAX_def)
qed

theorem randombytes_fill_outcome_witness: "randombytes_fill sample_platform None 3 0 = ((False, None), 0)"
  using randombytes_fill_outcome [OF sample_platform_ok, of 3 0 "[]"] by simp

end
