(* ===== verification/Mpc.thy ===== *)
theory Mpc
  imports Blake3
begin

text \<open>
  The masked words of the MPC-in-the-head circuit and its two non-linear gates:
  \<^verbatim>\<open>MPC_prove_functions.h/.c\<close> and \<^verbatim>\<open>MPC_verify_functions.h/.c\<close> up to the gates, with the tape
  accessors of \<^verbatim>\<open>shared.h\<close>.

  A masked value (\<open>mw\<close> for the prover, \<open>mwv\<close> for the verifier) is its public part with a
  list of mask shares, one for each party the evaluator knows: all of them for the
  prover, all but the hidden one for the verifier. A masked buffer, in C one public
  buffer and one buffer per party, is the list of its masked bytes. The arrays a gate
  writes at the gate counter are lists updated by index; the matrix \<open>s_all\<close>
  (\<open>s_slots\<close>) of one row of \<open>ySize\<close> words per party is the list of its rows.
\<close>

definition ySize :: nat where "ySize = 94186"
definition TAPE_SIZE :: nat where "TAPE_SIZE = 2 * ySize * 4"

definition tape_get32 :: "bytes \<Rightarrow> nat \<Rightarrow> u32" where
  "tape_get32 tape pos = load_le (segment pos 4 tape)"

definition tape_lam :: "bytes \<Rightarrow> nat \<Rightarrow> u32" where
  "tape_lam tape g = tape_get32 tape (g * 4)"

definition tape_prod :: "bytes \<Rightarrow> nat \<Rightarrow> u32" where
  "tape_prod tape g = tape_get32 tape (ySize * 4 + g * 4)"

subsection \<open>Masked words\<close>

record 'a mw =
  mw_h :: 'a
  mw_l :: "'a list"

definition mw_const :: "nat \<Rightarrow> 'a::len word \<Rightarrow> 'a word mw" where
  "mw_const np K = \<lparr>mw_h = K, mw_l = replicate np 0\<rparr>"

definition mpc_XOR :: "'a::len word mw \<Rightarrow> 'a word mw \<Rightarrow> 'a word mw" where
  "mpc_XOR x y = \<lparr>mw_h = mw_h x XOR mw_h y, mw_l = map2 (XOR) (mw_l x) (mw_l y)\<rparr>"

definition mpc_NEGATE :: "u32 mw \<Rightarrow> u32 mw" where
  "mpc_NEGATE x = x\<lparr>mw_h := NOT (mw_h x)\<rparr>"

definition RIGHTROTATE :: "u32 \<Rightarrow> nat \<Rightarrow> u32" where
  "RIGHTROTATE x n = drop_bit n x OR push_bit (32 - n) x"

text \<open>A function applied to the public part and to every share.\<close>

definition mw_map :: "('a \<Rightarrow> 'b) \<Rightarrow> 'a mw \<Rightarrow> 'b mw" where
  "mw_map f x = \<lparr>mw_h = f (mw_h x), mw_l = map f (mw_l x)\<rparr>"

definition mpc_RIGHTROTATE :: "u32 mw \<Rightarrow> nat \<Rightarrow> u32 mw" where
  "mpc_RIGHTROTATE x n = mw_map (\<lambda>w. RIGHTROTATE w n) x"

definition mpc_RIGHTSHIFT :: "u32 mw \<Rightarrow> nat \<Rightarrow> u32 mw" where
  "mpc_RIGHTSHIFT x n = mw_map (drop_bit n) x"

text \<open>The verifier's copies, over one share less: \<open>np\<close> is then \<open>N_PARTIES - 1\<close>.\<close>

definition mwv_const :: "nat \<Rightarrow> u32 \<Rightarrow> u32 mw" where
  "mwv_const np K = mw_const np K"

definition mpc_XOR_v :: "u32 mw \<Rightarrow> u32 mw \<Rightarrow> u32 mw" where
  "mpc_XOR_v x y = mpc_XOR x y"

definition mpc_NEGATE_v :: "u32 mw \<Rightarrow> u32 mw" where
  "mpc_NEGATE_v x = mpc_NEGATE x"

definition mpc_RIGHTROTATE_v :: "u32 mw \<Rightarrow> nat \<Rightarrow> u32 mw" where
  "mpc_RIGHTROTATE_v x n = mpc_RIGHTROTATE x n"

definition mpc_RIGHTSHIFT_v :: "u32 mw \<Rightarrow> nat \<Rightarrow> u32 mw" where
  "mpc_RIGHTSHIFT_v x n = mpc_RIGHTSHIFT x n"

text \<open>
  Masked buffers: the buffer of party \<open>p\<close>, the masked buffer of given components, and a
  function of a whole buffer computed once on the public and once on each party's buffer.
\<close>

definition share :: "nat \<Rightarrow> 'a mw list \<Rightarrow> 'a list" where
  "share p xs = map (\<lambda>x. mw_l x ! p) xs"

definition mw_rows :: "'a list mw \<Rightarrow> 'a mw list" where
  "mw_rows m = map (\<lambda>k. \<lparr>mw_h = mw_h m ! k, mw_l = map (\<lambda>row. row ! k) (mw_l m)\<rparr>) [0..<length (mw_h m)]"

definition mw_apply :: "nat \<Rightarrow> ('a list \<Rightarrow> 'b) \<Rightarrow> ('a list \<Rightarrow> 'b) \<Rightarrow> 'a mw list \<Rightarrow> 'b mw" where
  "mw_apply np f_pub f_lam xs =
     \<lparr>mw_h = f_pub (map mw_h xs), mw_l = map (\<lambda>p. f_lam (share p xs)) [0..<np]\<rparr>"

subsection \<open>The prover's gates\<close>

record prover_state =
  ps_gc :: nat
  ps_aux :: "u32 list"
  ps_s_all :: "u32 list list option"

definition put_column :: "nat \<Rightarrow> u32 list \<Rightarrow> u32 list list \<Rightarrow> u32 list list" where
  "put_column g ss rows = map2 (\<lambda>row s. row[g := s]) rows ss"

definition mpc_AND :: "bytes list \<Rightarrow> u32 mw \<Rightarrow> u32 mw \<Rightarrow> (prover_state, u32 mw) state" where
  "mpc_AND tapes x y = do {
     st \<leftarrow> State_Monad.get;
     let g = ps_gc st;
     let lz = map (\<lambda>tape. tape_lam tape g) tapes;
     let t = map (\<lambda>tape. tape_prod tape g) tapes;
     let lx = xors (mw_l x);
     let ly = xors (mw_l y);
     let corr = (lx AND ly) XOR xors t;
     let xh = mw_h x;
     let yh = mw_h y;
     let ss = map (\<lambda>i. (xh AND mw_l y ! i) XOR (yh AND mw_l x ! i) XOR t ! i XOR lz ! i
                        XOR (if i = 0 then (xh AND yh) XOR corr else 0)) [0..<length tapes];
     State_Monad.set (st\<lparr>ps_aux := (ps_aux st)[g := corr],
                         ps_s_all := map_option (put_column g ss) (ps_s_all st),
                         ps_gc := g + 1\<rparr>);
     State_Monad.return \<lparr>mw_h = xors ss, mw_l = lz\<rparr>
   }"

definition prefix_xor_shift :: "u32 \<Rightarrow> u32" where
  "prefix_xor_shift v =
     (let v = v XOR push_bit 1 v; v = v XOR push_bit 2 v; v = v XOR push_bit 4 v;
          v = v XOR push_bit 8 v; v = v XOR push_bit 16 v
      in push_bit 1 v)"

definition mpc_ADD :: "bytes list \<Rightarrow> u32 mw \<Rightarrow> u32 mw \<Rightarrow> (prover_state, u32 mw) state" where
  "mpc_ADD tapes x y = do {
     st \<leftarrow> State_Monad.get;
     let g = ps_gc st;
     let lr = map (\<lambda>tape. tape_lam tape g) tapes;
     let t = map (\<lambda>tape. tape_prod tape g) tapes;
     let lc = map prefix_xor_shift lr;
     let lx = xors (mw_l x);
     let ly = xors (mw_l y);
     let t_xor = xors t;
     let lc_xor = xors lc;
     let xv = mw_h x XOR lx;
     let yv = mw_h y XOR ly;
     let c = (xv + yv) XOR xv XOR yv;
     let ch = c XOR lc_xor;
     let ph = mw_h x XOR ch;
     let qh = mw_h y XOR ch;
     let corr = (((lx XOR lc_xor) AND (ly XOR lc_xor)) XOR t_xor) AND 0x7FFFFFFF;
     let ss = map (\<lambda>i. let lpi = mw_l x ! i XOR lc ! i;
                           lqi = mw_l y ! i XOR lc ! i
                       in (ph AND lqi) XOR (qh AND lpi) XOR t ! i XOR lr ! i
                          XOR (if i = 0 then (ph AND qh) XOR corr else 0)) [0..<length tapes];
     State_Monad.set (st\<lparr>ps_aux := (ps_aux st)[g := corr],
                         ps_s_all := map_option (put_column g ss) (ps_s_all st),
                         ps_gc := g + 1\<rparr>);
     State_Monad.return
       \<lparr>mw_h = mw_h x XOR mw_h y XOR ch,
        mw_l = map (\<lambda>i. mw_l x ! i XOR mw_l y ! i XOR lc ! i) [0..<length tapes]\<rparr>
   }"

subsection \<open>The verifier's gates\<close>

text \<open>The hidden party is \<open>e\<close>; slot \<open>j\<close> is party \<open>orig j e\<close>.\<close>

definition orig :: "nat \<Rightarrow> nat \<Rightarrow> nat" where
  "orig j e = (if j < e then j else j + 1)"

record verifier_env =
  ve_tapes :: "bytes list"
  ve_e :: nat
  ve_msgs_e :: "u32 list"
  ve_aux :: "u32 list"

record verifier_state =
  vs_gc :: nat
  vs_s_slots :: "u32 list list"

definition mpc_AND_verify :: "verifier_env \<Rightarrow> u32 mw \<Rightarrow> u32 mw \<Rightarrow> (verifier_state, u32 mw) state" where
  "mpc_AND_verify env x y = do {
     st \<leftarrow> State_Monad.get;
     let g = vs_gc st;
     let xh = mw_h x;
     let yh = mw_h y;
     let lz = map (\<lambda>tape. tape_lam tape g) (ve_tapes env);
     let t = map (\<lambda>tape. tape_prod tape g) (ve_tapes env);
     let ss = map (\<lambda>j. (xh AND mw_l y ! j) XOR (yh AND mw_l x ! j) XOR t ! j XOR lz ! j
                        XOR (if orig j (ve_e env) = 0 then (xh AND yh) XOR ve_aux env ! g else 0))
                  [0..<length (ve_tapes env)];
     State_Monad.set (st\<lparr>vs_s_slots := put_column g ss (vs_s_slots st), vs_gc := g + 1\<rparr>);
     State_Monad.return \<lparr>mw_h = ve_msgs_e env ! g XOR xors ss, mw_l = lz\<rparr>
   }"

text \<open>One bit of the carry, recovered from the broadcasts below it.\<close>

definition add_carry_bit ::
  "u32 \<Rightarrow> u32 \<Rightarrow> u32 \<Rightarrow> u32 \<Rightarrow> u32 \<Rightarrow> u32 \<Rightarrow> u32 \<Rightarrow> u32 \<Rightarrow> u32 \<Rightarrow> nat \<Rightarrow> u32 \<Rightarrow> u32" where
  "add_carry_bit xh yh Plp Plq Pt Plr corr me has0 b ch =
     (let pb = drop_bit b (xh XOR ch) AND 1;
          qb = drop_bit b (yh XOR ch) AND 1;
          srev = (pb AND (drop_bit b Plq AND 1)) XOR (qb AND (drop_bit b Plp AND 1))
                 XOR (drop_bit b Pt AND 1) XOR (drop_bit b Plr AND 1)
                 XOR (has0 AND ((pb AND qb) XOR (drop_bit b corr AND 1)));
          rb = (drop_bit b me AND 1) XOR srev
      in ch OR push_bit (b + 1) ((drop_bit b ch AND 1) XOR rb))"

definition mpc_ADD_verify :: "verifier_env \<Rightarrow> u32 mw \<Rightarrow> u32 mw \<Rightarrow> (verifier_state, u32 mw) state" where
  "mpc_ADD_verify env x y = do {
     st \<leftarrow> State_Monad.get;
     let g = vs_gc st;
     let np = length (ve_tapes env);
     let lr = map (\<lambda>tape. tape_lam tape g) (ve_tapes env);
     let t = map (\<lambda>tape. tape_prod tape g) (ve_tapes env);
     let lc = map prefix_xor_shift lr;
     let lp = map (\<lambda>j. mw_l x ! j XOR lc ! j) [0..<np];
     let lq = map (\<lambda>j. mw_l y ! j XOR lc ! j) [0..<np];
     let corr = ve_aux env ! g;
     let me = ve_msgs_e env ! g;
     let has0 = of_bool (ve_e env \<noteq> 0);
     let xh = mw_h x;
     let yh = mw_h y;
     let ch = fold (add_carry_bit xh yh (xors lp) (xors lq) (xors t) (xors lr) corr me has0) [0..<31] 0;
     let ph = xh XOR ch;
     let qh = yh XOR ch;
     let ss = map (\<lambda>j. (ph AND lq ! j) XOR (qh AND lp ! j) XOR t ! j XOR lr ! j
                        XOR (if orig j (ve_e env) = 0 then (ph AND qh) XOR corr else 0)) [0..<np];
     State_Monad.set (st\<lparr>vs_s_slots := put_column g ss (vs_s_slots st), vs_gc := g + 1\<rparr>);
     State_Monad.return
       \<lparr>mw_h = xh XOR yh XOR ch, mw_l = map (\<lambda>j. mw_l x ! j XOR mw_l y ! j XOR lc ! j) [0..<np]\<rparr>
   }"

subsection \<open>The gates a circuit is built from\<close>

text \<open>
  The circuit exists twice in the code, over the prover's and over the verifier's gates
  (\<^verbatim>\<open>pooled_chains.inc\<close> is a template instantiated for both). It is modelled once over a
  record of gates. \<open>plain_gates\<close> evaluates it in the clear: no parties, the two
  operations themselves, and a gate counter.
\<close>

record 's gates =
  g_np :: nat
  g_and :: "u32 mw \<Rightarrow> u32 mw \<Rightarrow> ('s, u32 mw) state"
  g_add :: "u32 mw \<Rightarrow> u32 mw \<Rightarrow> ('s, u32 mw) state"

definition prover_gates :: "bytes list \<Rightarrow> prover_state gates" where
  "prover_gates tapes = \<lparr>g_np = length tapes, g_and = mpc_AND tapes, g_add = mpc_ADD tapes\<rparr>"

definition verifier_gates :: "verifier_env \<Rightarrow> verifier_state gates" where
  "verifier_gates env = \<lparr>g_np = length (ve_tapes env), g_and = mpc_AND_verify env, g_add = mpc_ADD_verify env\<rparr>"

definition plain_gates :: "nat gates" where
  "plain_gates = \<lparr>g_np = 0,
     g_and = (\<lambda>x y. do { State_Monad.update Suc; State_Monad.return \<lparr>mw_h = mw_h x AND mw_h y, mw_l = []\<rparr> }),
     g_add = (\<lambda>x y. do { State_Monad.update Suc; State_Monad.return \<lparr>mw_h = mw_h x + mw_h y, mw_l = []\<rparr> })\<rparr>"

text \<open>A loop that threads an accumulator.\<close>

fun for_each :: "('i \<Rightarrow> 'a \<Rightarrow> ('s, 'a) state) \<Rightarrow> 'i list \<Rightarrow> 'a \<Rightarrow> ('s, 'a) state" where
  "for_each body [] acc = State_Monad.return acc"
| "for_each body (i # is) acc = do { acc' \<leftarrow> body i acc; for_each body is acc' }"

end
