(* ===== verification/Circuit.thy ===== *)
theory Circuit
  imports Mpc Commitment Xmss
begin

text \<open>
  The circuit of the proof system, over a record of gates: the BLAKE3 gadgets of
  \<^verbatim>\<open>MPC_prove_functions.c\<close>, the field multiplication and the statement of \<^verbatim>\<open>circuits.c\<close>,
  and the pooled hash chains of \<^verbatim>\<open>pooled_chains.inc\<close>. Each definition is the code of the
  prover; the verifier's copy in the sources differs only in the gates and in the number
  of shares, and is the same definition over the verifier's gates (the named instances
  are at the end of each section). A \<open>NULL\<close> buffer of mask shares is a buffer of zero
  shares. Buffers on the stack are values, and a loop over public indices is \<open>for_each\<close>
  or \<open>traverse_list\<close>, in the order of the code, which fixes the order of the gates.
\<close>

subsection \<open>Masked buffers\<close>

definition mw_consts :: "nat \<Rightarrow> 'a::len word list \<Rightarrow> 'a word mw list" where
  "mw_consts np bs = map (mw_const np) bs"

definition mw_xor_pub :: "'a::len word \<Rightarrow> 'a word mw \<Rightarrow> 'a word mw" where
  "mw_xor_pub c x = x\<lparr>mw_h := mw_h x XOR c\<rparr>"

text \<open>A function of a whole buffer to a word or to a buffer, on every component.\<close>

definition mw_word :: "nat \<Rightarrow> ('a list \<Rightarrow> 'b) \<Rightarrow> 'a mw list \<Rightarrow> 'b mw" where
  "mw_word np f xs = mw_apply np f f xs"

definition mw_buf :: "nat \<Rightarrow> ('a list \<Rightarrow> 'b list) \<Rightarrow> 'a mw list \<Rightarrow> 'b mw list" where
  "mw_buf np f xs = mw_rows (mw_apply np f f xs)"

subsection \<open>The BLAKE3 gadget\<close>

definition B3_IV4 :: "u32 list" where
  "B3_IV4 = [0x6A09E667, 0xBB67AE85, 0x3C6EF372, 0xA54FF53A]"

definition B3_PERM :: "nat list" where
  "B3_PERM = [2, 6, 3, 10, 7, 0, 4, 13, 1, 11, 12, 5, 9, 14, 15, 8]"

definition circ_add3 :: "'s gates \<Rightarrow> nat \<Rightarrow> nat \<Rightarrow> u32 mw \<Rightarrow> u32 mw list \<Rightarrow> ('s, u32 mw list) state" where
  "circ_add3 G a b x v = do {
     t \<leftarrow> g_add G (v ! a) (v ! b);
     r \<leftarrow> g_add G t x;
     State_Monad.return (v[a := r])
   }"

definition circ_add :: "'s gates \<Rightarrow> nat \<Rightarrow> nat \<Rightarrow> u32 mw list \<Rightarrow> ('s, u32 mw list) state" where
  "circ_add G c d v = do {
     r \<leftarrow> g_add G (v ! c) (v ! d);
     State_Monad.return (v[c := r])
   }"

definition circ_rot :: "nat \<Rightarrow> nat \<Rightarrow> nat \<Rightarrow> u32 mw list \<Rightarrow> u32 mw list" where
  "circ_rot d a n v = v[d := mpc_RIGHTROTATE (mpc_XOR (v ! d) (v ! a)) n]"

definition circ_b3_g ::
  "'s gates \<Rightarrow> nat \<Rightarrow> nat \<Rightarrow> nat \<Rightarrow> nat \<Rightarrow> u32 mw \<Rightarrow> u32 mw \<Rightarrow> u32 mw list \<Rightarrow> ('s, u32 mw list) state" where
  "circ_b3_g G a b c d x y v = do {
     v \<leftarrow> circ_add3 G a b x v;
     v \<leftarrow> circ_add G c d (circ_rot d a 16 v);
     v \<leftarrow> circ_add3 G a b y (circ_rot b c 12 v);
     v \<leftarrow> circ_add G c d (circ_rot d a 8 v);
     State_Monad.return (circ_rot b c 7 v)
   }"

definition circ_b3_round :: "'s gates \<Rightarrow> u32 mw list \<Rightarrow> nat list \<Rightarrow> u32 mw list \<Rightarrow> ('s, u32 mw list) state" where
  "circ_b3_round G m s v = do {
     v \<leftarrow> circ_b3_g G 0 4  8 12 (m ! (s ! 0)) (m ! (s ! 1)) v;
     v \<leftarrow> circ_b3_g G 1 5  9 13 (m ! (s ! 2)) (m ! (s ! 3)) v;
     v \<leftarrow> circ_b3_g G 2 6 10 14 (m ! (s ! 4)) (m ! (s ! 5)) v;
     v \<leftarrow> circ_b3_g G 3 7 11 15 (m ! (s ! 6)) (m ! (s ! 7)) v;
     v \<leftarrow> circ_b3_g G 0 5 10 15 (m ! (s ! 8)) (m ! (s ! 9)) v;
     v \<leftarrow> circ_b3_g G 1 6 11 12 (m ! (s ! 10)) (m ! (s ! 11)) v;
     v \<leftarrow> circ_b3_g G 2 7  8 13 (m ! (s ! 12)) (m ! (s ! 13)) v;
     circ_b3_g G 3 4 9 14 (m ! (s ! 14)) (m ! (s ! 15)) v
   }"

fun circ_b3_rounds :: "'s gates \<Rightarrow> nat \<Rightarrow> u32 mw list \<Rightarrow> nat list \<Rightarrow> u32 mw list \<Rightarrow> ('s, u32 mw list) state" where
  "circ_b3_rounds G 0 m s v = State_Monad.return v"
| "circ_b3_rounds G (Suc r) m s v = do {
     v \<leftarrow> circ_b3_round G m s v;
     circ_b3_rounds G r m (map (\<lambda>i. s ! (B3_PERM ! i)) [0..<16]) v
   }"

definition circ_blake3_compress ::
  "'s gates \<Rightarrow> u32 mw list \<Rightarrow> u32 mw list \<Rightarrow> u32 \<Rightarrow> u32 \<Rightarrow> ('s, u32 mw list) state" where
  "circ_blake3_compress G cv m block_len flags = do {
     let v = map (\<lambda>i. cv ! i) [0..<8] @ mw_consts (g_np G) (B3_IV4 @ [0, 0, block_len, flags]);
     v \<leftarrow> circ_b3_rounds G 7 m [0..<16] v;
     State_Monad.return (map (\<lambda>i. mpc_XOR (v ! i) (v ! (i + 8))) [0..<8])
   }"

definition blake3_th_mpc_valid_sizes :: "nat \<Rightarrow> nat \<Rightarrow> nat \<Rightarrow> bool" where
  "blake3_th_mpc_valid_sizes dm_len data_len out_len \<longleftrightarrow>
     dm_len \<le> BLAKE3_TH_MAX_DOMAIN \<and>
     data_len \<le> BLAKE3_CHUNK_LEN - BLAKE3_TH_FRAME_LEN - dm_len \<and> out_len \<le> BLAKE3_OUT_LEN"

definition blake3_th_mpc_word ::
  "bytes option \<Rightarrow> nat \<Rightarrow> bytes option \<Rightarrow> nat \<Rightarrow> nat \<Rightarrow> bool \<Rightarrow> u32" where
  "blake3_th_mpc_word dm dm_len data data_len off mask_share =
     load_le (map (\<lambda>b. let i = off + b
        in if i < BLAKE3_TH_FRAME_LEN
           then (if \<not> mask_share then ucast (drop_bit (8 * i) (of_nat dm_len :: u32)) else 0)
           else if i < BLAKE3_TH_FRAME_LEN + dm_len
           then (case dm of None \<Rightarrow> 0 | Some d \<Rightarrow> d ! (i - BLAKE3_TH_FRAME_LEN))
           else (let j = i - BLAKE3_TH_FRAME_LEN - dm_len
                 in case data of None \<Rightarrow> 0 | Some d \<Rightarrow> if j < data_len then d ! j else 0)) [0..<4])"

text \<open>Word \<open>off / 4\<close> of the framed message, masked.\<close>

definition circ_th_word :: "nat \<Rightarrow> byte mw list \<Rightarrow> byte mw list \<Rightarrow> nat \<Rightarrow> u32 mw" where
  "circ_th_word np dm data off =
     \<lparr>mw_h = blake3_th_mpc_word (Some (map mw_h dm)) (length dm) (Some (map mw_h data)) (length data) off False,
      mw_l = map (\<lambda>p. blake3_th_mpc_word (Some (share p dm)) (length dm)
                        (Some (share p data)) (length data) off True) [0..<np]\<rparr>"

definition circ_th_block ::
  "'s gates \<Rightarrow> byte mw list \<Rightarrow> byte mw list \<Rightarrow> nat \<Rightarrow> u32 mw list \<Rightarrow> ('s, u32 mw list) state" where
  "circ_th_block G dm data b cv =
     (let framed_len = BLAKE3_TH_FRAME_LEN + length dm + length data;
          nblocks = (framed_len + BLAKE3_BLOCK_LEN - 1) div BLAKE3_BLOCK_LEN;
          off = b * BLAKE3_BLOCK_LEN;
          blen = (if framed_len - off > BLAKE3_BLOCK_LEN then BLAKE3_BLOCK_LEN else framed_len - off);
          m = map (\<lambda>w. circ_th_word (g_np G) dm data (off + w * 4)) [0..<16];
          flags = BLAKE3_DERIVE_KEY_MATERIAL OR (if b = 0 then BLAKE3_CHUNK_START else 0)
                  OR (if b + 1 = nblocks then BLAKE3_CHUNK_END OR BLAKE3_ROOT else 0)
      in circ_blake3_compress G cv m (of_nat blen) flags)"

text \<open>\<open>None\<close> is the return value 0, which leaves the outputs and the gate counter alone.\<close>

definition circ_blake3_th ::
  "'s gates \<Rightarrow> byte mw list \<Rightarrow> byte mw list \<Rightarrow> nat \<Rightarrow> ('s, byte mw list option) state" where
  "circ_blake3_th G dm data out_len =
     (if \<not> blake3_th_mpc_valid_sizes (length dm) (length data) out_len then State_Monad.return None
      else do {
        let framed_len = BLAKE3_TH_FRAME_LEN + length dm + length data;
        let nblocks = (framed_len + BLAKE3_BLOCK_LEN - 1) div BLAKE3_BLOCK_LEN;
        cv \<leftarrow> for_each (circ_th_block G dm data) [0..<nblocks] (mw_consts (g_np G) blake3_th_context_key);
        State_Monad.return (Some (map (\<lambda>i. mw_map (\<lambda>w. ucast (drop_bit (8 * (i mod 4)) w)) (cv ! (i div 4)))
                                      [0..<out_len]))
      })"

text \<open>A call whose result code is ignored, as all calls of the circuit are.\<close>

definition circ_th :: "'s gates \<Rightarrow> byte mw list \<Rightarrow> byte mw list \<Rightarrow> nat \<Rightarrow> ('s, byte mw list) state" where
  "circ_th G dm data out_len = do {
     r \<leftarrow> circ_blake3_th G dm data out_len;
     State_Monad.return (case r of None \<Rightarrow> [] | Some out \<Rightarrow> out)
   }"

definition mpc_blake3_compress where
  "mpc_blake3_compress tapes = circ_blake3_compress (prover_gates tapes)"

definition mpc_blake3_th where
  "mpc_blake3_th tapes = circ_blake3_th (prover_gates tapes)"

definition b3_g_v where
  "b3_g_v env = circ_b3_g (verifier_gates env)"

definition mpc_blake3_compress_verify where
  "mpc_blake3_compress_verify env = circ_blake3_compress (verifier_gates env)"

definition mpc_blake3_th_verify where
  "mpc_blake3_th_verify env = circ_blake3_th (verifier_gates env)"

subsection \<open>Field multiplication\<close>

definition circ_bitmask :: "nat \<Rightarrow> u32 mw \<Rightarrow> u32 mw" where
  "circ_bitmask k x = mw_map (\<lambda>w. 0 - (drop_bit k w AND 1)) x"

definition circ_shift_xor :: "u32 mw list \<Rightarrow> u32 mw \<Rightarrow> nat \<Rightarrow> u32 mw list" where
  "circ_shift_xor acc z pos =
     mw_rows \<lparr>mw_h = gf128_word_shift_xor (map mw_h acc) (mw_h z) pos,
              mw_l = map (\<lambda>p. gf128_word_shift_xor (share p acc) (mw_l z ! p) pos) [0..<length (mw_l z)]\<rparr>"

definition circ_gf128_mul_bit ::
  "'s gates \<Rightarrow> u32 mw list \<Rightarrow> u32 mw list \<Rightarrow> nat \<Rightarrow> u32 mw list \<Rightarrow> ('s, u32 mw list) state" where
  "circ_gf128_mul_bit G X Y j acc =
     (let mask = circ_bitmask (j mod 32) (Y ! (j div 32))
      in for_each (\<lambda>w acc. do {
           z \<leftarrow> g_and G mask (X ! w);
           State_Monad.return (circ_shift_xor acc z (32 * w + j))
         }) [0..<4] acc)"

definition circ_gf128_mul :: "'s gates \<Rightarrow> u32 mw list \<Rightarrow> u32 mw list \<Rightarrow> ('s, u32 mw list) state" where
  "circ_gf128_mul G X Y = do {
     acc \<leftarrow> for_each (circ_gf128_mul_bit G X Y) [0..<128] (mw_consts (g_np G) (replicate 8 0));
     State_Monad.return (mw_buf (g_np G) gf128_reduce acc)
   }"

definition mpc_gf128_mul where
  "mpc_gf128_mul tapes = circ_gf128_mul (prover_gates tapes)"

definition mpc_gf128_mul_verify where
  "mpc_gf128_mul_verify env = circ_gf128_mul (verifier_gates env)"

end
