(* ===== verification/Pool.thy ===== *)
theory Pool
  imports Circuit
begin

text \<open>
  The witness layout of \<^verbatim>\<open>circuits.h\<close> and the pooled hash chains of \<^verbatim>\<open>pooled_chains.inc\<close>:
  99 hash evaluations whose chain is chosen by a secret schedule byte, decoded into
  one-hot masks. Positions are packed four to a word.
\<close>

definition W_R_OFF :: nat where "W_R_OFF = 0"
definition W_A_OFF :: nat where "W_A_OFF = W_R_OFF + HM_R_BYTES"
definition W_LEAFIDX_OFF :: nat where "W_LEAFIDX_OFF = W_A_OFF + HM_A_BYTES"
definition W_LEAFIDX_LEN :: nat where "W_LEAFIDX_LEN = 4"
definition W_NONCE_OFF :: nat where "W_NONCE_OFF = W_LEAFIDX_OFF + W_LEAFIDX_LEN"
definition W_SIG_OFF :: nat where "W_SIG_OFF = W_NONCE_OFF + XMSS_NONCE_LEN"
definition W_SIG_LEN :: nat where "W_SIG_LEN = XMSS_WOTS_LEN * XMSS_NODE_BYTES"
definition W_PATH_OFF :: nat where "W_PATH_OFF = W_SIG_OFF + W_SIG_LEN"
definition W_PATH_LEN :: nat where "W_PATH_LEN = XMSS_H * XMSS_NODE_BYTES"
definition W_SCHEDULE_OFF :: nat where "W_SCHEDULE_OFF = W_PATH_OFF + W_PATH_LEN"
definition W_SCHEDULE_LEN :: nat where
  "W_SCHEDULE_LEN = XMSS_WOTS_LEN * XMSS_WOTS_MAX_STEPS - XMSS_TARGET_SUM"
definition W_END :: nat where "W_END = W_SCHEDULE_OFF + W_SCHEDULE_LEN"

lemmas w_layout = W_R_OFF_def W_A_OFF_def W_LEAFIDX_OFF_def W_LEAFIDX_LEN_def W_NONCE_OFF_def W_SIG_OFF_def
  W_SIG_LEN_def W_PATH_OFF_def W_PATH_LEN_def W_SCHEDULE_OFF_def W_SCHEDULE_LEN_def W_END_def

lemma W_END_value: "W_SCHEDULE_LEN = 99" "W_END = 1599"
  by (simp_all add: w_layout hm_sizes xmss_sizes)

definition INPUT_LEN :: nat where "INPUT_LEN = W_END"

definition mh_bit :: "bytes \<Rightarrow> nat \<Rightarrow> u32" where
  "mh_bit buf j = ucast (drop_bit (j mod 8) (buf ! (j div 8)) AND 1)"

text \<open>Four words of a node buffer, and the buffer they are stored to.\<close>

definition node_words :: "bytes \<Rightarrow> u32 list" where
  "node_words node = map (xmss_node_load_word node) [0..<XMSS_NODE_WORDS]"

definition node_of_words :: "u32 list \<Rightarrow> node" where
  "node_of_words ws =
     fold (\<lambda>w node. xmss_node_store_word node w (ws ! w)) [0..<XMSS_NODE_WORDS] (replicate XMSS_NODE_BYTES 0)"

subsection \<open>Helpers of the template\<close>

definition pool_or_into :: "'s gates \<Rightarrow> u32 mw \<Rightarrow> u32 mw \<Rightarrow> ('s, u32 mw) state" where
  "pool_or_into G x y = do {
     t \<leftarrow> g_and G x y;
     State_Monad.return (mpc_XOR (mpc_XOR x y) t)
   }"

definition pool_bitmask :: "nat \<Rightarrow> u32 mw \<Rightarrow> u32 mw" where
  "pool_bitmask k x = mw_map (\<lambda>w. 0 - (drop_bit k w AND 1)) x"

definition pool_parity :: "u32 \<Rightarrow> u32" where
  "pool_parity x =
     (let x = x XOR drop_bit 16 x; x = x XOR drop_bit 8 x; x = x XOR drop_bit 4 x;
          x = x XOR drop_bit 2 x; x = x XOR drop_bit 1 x
      in x AND 1)"

subsection \<open>Initial nodes and positions\<close>

definition pool_groups :: nat where "pool_groups = (XMSS_WOTS_LEN + 3) div 4"

definition pool_nodes :: "nat \<Rightarrow> byte mw list \<Rightarrow> u32 mw list list" where
  "pool_nodes np d =
     map (\<lambda>ci. mw_buf np node_words (segment (W_SIG_OFF + ci * XMSS_NODE_BYTES) XMSS_NODE_BYTES d)) [0..<XMSS_WOTS_LEN]"

definition pool_positions :: "nat \<Rightarrow> byte mw list \<Rightarrow> u32 mw list" where
  "pool_positions np mh =
     fold (\<lambda>ci. fold (\<lambda>b ps.
             let shift = 8 * (ci mod 4) + b;
                 pos = xmss_coord_bit_pos ci + b
             in ps[ci div 4 := mpc_XOR (ps ! (ci div 4)) (mw_word np (\<lambda>h. push_bit shift (mh_bit h pos)) mh)])
           [0..<XMSS_COORD_RES_BITS])
       [0..<XMSS_WOTS_LEN] (mw_consts np (replicate pool_groups 0))"

subsection \<open>One step\<close>

definition pool_pattern :: "nat \<Rightarrow> nat \<Rightarrow> u32" where
  "pool_pattern g b =
     fold (\<lambda>lane p. p OR push_bit lane (1 XOR (drop_bit b (of_nat (32 * g + lane)) AND 1))) [0..<32] 0"

definition pool_onehot :: "'s gates \<Rightarrow> u32 mw \<Rightarrow> nat \<Rightarrow> ('s, u32 mw) state" where
  "pool_onehot G idx g =
     for_each (\<lambda>b acc.
         let match = mw_xor_pub (pool_pattern g b) (pool_bitmask b idx)
         in if b = 0 then State_Monad.return match else g_and G acc match)
       [0..<8] (mw_const (g_np G) 0)"

definition pool_invalid :: "u32 mw \<Rightarrow> u32 mw \<Rightarrow> u32 mw" where
  "pool_invalid o0 o1 = mw_xor_pub 1 (mw_map pool_parity (mpc_XOR o0 o1))"

definition pool_masks :: "u32 mw \<Rightarrow> u32 mw \<Rightarrow> u32 mw list" where
  "pool_masks o0 o1 = map (\<lambda>ci. pool_bitmask (ci mod 32) (if ci div 32 = 0 then o0 else o1)) [0..<XMSS_WOTS_LEN]"

definition pool_select :: "'s gates \<Rightarrow> u32 mw list \<Rightarrow> u32 mw list list \<Rightarrow> nat \<Rightarrow> ('s, u32 mw) state" where
  "pool_select G masks nodes w =
     for_each (\<lambda>ci sel. do {
         t \<leftarrow> g_and G (masks ! ci) (nodes ! ci ! w);
         State_Monad.return (mpc_XOR sel t)
       }) [0..<XMSS_WOTS_LEN] (mw_const (g_np G) 0)"

definition pool_lanes :: "nat \<Rightarrow> nat list" where
  "pool_lanes g = filter (\<lambda>lane. 4 * g + lane < XMSS_WOTS_LEN) [0..<4]"

definition pool_increment :: "nat \<Rightarrow> u32 mw list \<Rightarrow> nat \<Rightarrow> u32 mw" where
  "pool_increment np masks g =
     fold (\<lambda>lane acc. mpc_XOR acc (mw_map (\<lambda>m. push_bit (8 * lane) (m AND 1)) (masks ! (4 * g + lane))))
       (pool_lanes g) (mw_const np 0)"

definition pool_group_mask :: "nat \<Rightarrow> u32 mw list \<Rightarrow> nat \<Rightarrow> u32 mw" where
  "pool_group_mask np masks g =
     fold (\<lambda>lane acc. mpc_XOR acc (masks ! (4 * g + lane))) (pool_lanes g) (mw_const np 0)"

definition pool_advance ::
  "'s gates \<Rightarrow> u32 mw list \<Rightarrow> nat \<Rightarrow> u32 mw list \<times> u32 mw \<Rightarrow> ('s, u32 mw list \<times> u32 mw) state" where
  "pool_advance G masks g = (\<lambda>(positions, position). do {
     p \<leftarrow> g_add G (positions ! g) (pool_increment (g_np G) masks g);
     t \<leftarrow> g_and G (pool_group_mask (g_np G) masks g) p;
     State_Monad.return (positions[g := p], mpc_XOR position t)
   })"

definition pool_lane_select :: "'s gates \<Rightarrow> u32 mw \<Rightarrow> u32 mw \<Rightarrow> ('s, u32 mw) state" where
  "pool_lane_select G idx position =
     for_each (\<lambda>b position. do {
         let shift = push_bit b 8;
         let delta = mw_map (\<lambda>p. p XOR drop_bit shift p) position;
         t \<leftarrow> g_and G (pool_bitmask b idx) delta;
         State_Monad.return (mpc_XOR position t)
       }) [1, 0] position"

definition pool_hash ::
  "'s gates \<Rightarrow> byte mw list \<Rightarrow> bytes \<Rightarrow> u32 mw \<Rightarrow> u32 mw \<Rightarrow> u32 mw list \<Rightarrow> ('s, byte mw list) state" where
  "pool_hash G d pk_seed idx position selected =
     (let np = g_np G;
          tw = mw_consts np pk_seed @ segment W_LEAFIDX_OFF XMSS_EPOCH_BYTES d
               @ [mw_map ucast idx, mw_map ucast position];
          dm = mw_buf np node_of_words selected @ mw_consts np [XMSS_TWEAK_CHAIN]
      in circ_th G dm tw XMSS_NODE_BYTES)"

definition pool_writeback ::
  "'s gates \<Rightarrow> u32 mw list \<Rightarrow> u32 mw list \<Rightarrow> u32 mw list \<Rightarrow> nat \<Rightarrow> u32 mw list list \<Rightarrow> ('s, u32 mw list list) state" where
  "pool_writeback G masks selected hw w nodes =
     for_each (\<lambda>ci nodes. do {
         t \<leftarrow> g_and G (masks ! ci) (mpc_XOR (selected ! w) (hw ! w));
         State_Monad.return (nodes[ci := (nodes ! ci)[w := mpc_XOR (nodes ! ci ! w) t]])
       }) [0..<XMSS_WOTS_LEN] nodes"

type_synonym pool_state = "u32 mw list list \<times> u32 mw list \<times> u32 mw"

text \<open>The masks of a schedule byte, and the check with its validity absorbed.\<close>

definition pool_decode :: "'s gates \<Rightarrow> u32 mw \<Rightarrow> u32 mw \<Rightarrow> ('s, u32 mw list \<times> u32 mw) state" where
  "pool_decode G idx check = do {
     o0 \<leftarrow> pool_onehot G idx 0;
     o1 \<leftarrow> pool_onehot G idx 1;
     let o1 = mw_map (\<lambda>w. w AND 0x3ff) o1;
     check \<leftarrow> pool_or_into G check (pool_invalid o0 o1);
     State_Monad.return (pool_masks o0 o1, check)
   }"

text \<open>The position of the selected chain, after advancing it.\<close>

definition pool_position ::
  "'s gates \<Rightarrow> u32 mw \<Rightarrow> u32 mw list \<Rightarrow> u32 mw list \<Rightarrow> ('s, u32 mw list \<times> u32 mw) state" where
  "pool_position G idx masks positions = do {
     (positions, position) \<leftarrow> for_each (pool_advance G masks) [0..<pool_groups] (positions, mw_const (g_np G) 0);
     position \<leftarrow> pool_lane_select G idx position;
     State_Monad.return (positions, position)
   }"

definition pool_step ::
  "'s gates \<Rightarrow> byte mw list \<Rightarrow> bytes \<Rightarrow> nat \<Rightarrow> pool_state \<Rightarrow> ('s, pool_state) state" where
  "pool_step G d pk_seed step = (\<lambda>(nodes, positions, check). do {
     let idx = mw_map ucast (d ! (W_SCHEDULE_OFF + step));
     (masks, check) \<leftarrow> pool_decode G idx check;
     selected \<leftarrow> State_Monad.traverse_list (pool_select G masks nodes) [0..<XMSS_NODE_WORDS];
     (positions, position) \<leftarrow> pool_position G idx masks positions;
     h \<leftarrow> pool_hash G d pk_seed idx position selected;
     nodes \<leftarrow> for_each (pool_writeback G masks selected (mw_buf (g_np G) node_words h)) [0..<XMSS_NODE_WORDS] nodes;
     State_Monad.return (nodes, positions, check)
   })"

text \<open>Every position must end at 7.\<close>

definition pool_final :: "'s gates \<Rightarrow> u32 mw list \<Rightarrow> u32 mw \<Rightarrow> ('s, u32 mw) state" where
  "pool_final G positions check =
     for_each (\<lambda>g check.
         let p = mw_xor_pub (fold (\<lambda>lane acc. acc XOR push_bit (8 * lane) (of_nat XMSS_WOTS_MAX_STEPS)) (pool_lanes g) 0)
                   (positions ! g)
         in pool_or_into G check p) [0..<pool_groups] check"

definition pool_chains ::
  "'s gates \<Rightarrow> byte mw list \<Rightarrow> bytes \<Rightarrow> byte mw list \<Rightarrow> ('s, byte mw list \<times> u32 mw) state" where
  "pool_chains G d pk_seed mh = do {
     let np = g_np G;
     (nodes, positions, check) \<leftarrow> for_each (pool_step G d pk_seed) [0..<W_SCHEDULE_LEN]
                                     (pool_nodes np d, pool_positions np mh, mw_const np 0);
     check \<leftarrow> pool_final G positions check;
     State_Monad.return (concat (map (mw_buf np node_of_words) nodes), check)
   }"

end
