(* ===== verification/Shared.thy ===== *)
theory Shared
  imports Pool Platform
begin

text \<open>
  \<^verbatim>\<open>shared.h\<close> and \<^verbatim>\<open>shared.c\<close>: the parameter table, the expansion of seeds, the
  preprocessing commitments, the Fiat-Shamir challenge and the transcript hashes. The
  build-time macros \<open>N_PARTIES\<close>, \<open>M_KKW\<close>, \<open>NUM_ROUNDS\<close> and \<open>GRIND_W\<close> are a record.
\<close>

record kkw_params =
  N_PARTIES :: nat
  M_KKW :: nat
  NUM_ROUNDS :: nat
  GRIND_W :: nat

text \<open>The supported values: \<open>GRIND_W\<close>, then \<open>N_PARTIES\<close>, to \<open>M_KKW\<close> and \<open>NUM_ROUNDS\<close>.\<close>

definition kkw_table :: "(nat \<times> (nat \<times> nat \<times> nat) list) list" where
  "kkw_table =
     [(0, [(4, 218, 65), (8, 252, 44), (12, 295, 37), (16, 352, 33), (20, 366, 31), (24, 425, 29),
           (28, 433, 28), (32, 462, 27), (64, 631, 23), (128, 916, 20), (256, 1794, 17)]),
      (16, [(4, 189, 57), (8, 209, 39), (12, 237, 33), (16, 301, 29), (20, 330, 27), (24, 327, 26),
            (28, 344, 25), (32, 374, 24), (64, 573, 20), (128, 963, 17), (256, 1488, 15)]),
      (24, [(4, 175, 53), (8, 199, 36), (12, 211, 31), (16, 276, 27), (20, 259, 26), (24, 314, 24),
            (28, 335, 23), (32, 372, 22), (64, 474, 19), (128, 823, 16), (256, 1339, 14)])]"

definition kkw_params_ok :: "kkw_params \<Rightarrow> bool" where
  "kkw_params_ok prm \<longleftrightarrow>
     (case map_of kkw_table (GRIND_W prm) of
        None \<Rightarrow> False
      | Some row \<Rightarrow> map_of row (N_PARTIES prm) = Some (M_KKW prm, NUM_ROUNDS prm))"

definition SEED_SIZE :: nat where "SEED_SIZE = 32"

subsection \<open>Seeds\<close>

definition expand_tape :: "b3 \<Rightarrow> bytes \<Rightarrow> bytes" where
  "expand_tape B seed = blake3_keyed_xof B seed BLAKE3_XOF_DOM_KKW_TAPE [] TAPE_SIZE"

definition expand_seed_star :: "b3 \<Rightarrow> kkw_params \<Rightarrow> bytes \<Rightarrow> bytes list" where
  "expand_seed_star B prm seed_star =
     blocks SEED_SIZE (N_PARTIES prm)
       (blake3_keyed_xof B seed_star BLAKE3_XOF_DOM_KKW_SEEDS [] (N_PARTIES prm * SEED_SIZE))"

definition expand_xshare :: "b3 \<Rightarrow> bytes \<Rightarrow> bytes" where
  "expand_xshare B seed = blake3_keyed_xof B seed BLAKE3_XOF_DOM_KKW_XSHARE [] INPUT_LEN"

subsection \<open>Domains and hashes\<close>

definition KKW_DOM_PPCOM :: bytes where "KKW_DOM_PPCOM = ascii ''KKWppcom''"
definition KKW_DOM_HJ :: bytes where "KKW_DOM_HJ = ascii ''KKWhj''"
definition KKW_DOM_HPRIME :: bytes where "KKW_DOM_HPRIME = ascii ''KKWhprime''"
definition KKW_DOM_HOUT :: bytes where "KKW_DOM_HOUT = ascii ''KKWhout''"
definition KKW_DOM_HSTAR1 :: bytes where "KKW_DOM_HSTAR1 = ascii ''KKWhstar1''"
definition KKW_DOM_HSTAR2 :: bytes where "KKW_DOM_HSTAR2 = ascii ''KKWhstar2''"
definition KKW_DOM_HSTAR3 :: bytes where "KKW_DOM_HSTAR3 = ascii ''KKWhstar3''"
definition KKW_DOM_HSTAR :: bytes where "KKW_DOM_HSTAR = ascii ''KKWhstar''"
definition KKW_DOM_FS :: bytes where "KKW_DOM_FS = ascii ''KKWfs''"
definition KKW_DOM_GRIND :: bytes where "KKW_DOM_GRIND = ascii ''KKWgrind''"
definition KKW_DOM_PRG :: bytes where "KKW_DOM_PRG = ascii ''KKWprg''"
definition KKW_DOM_MHAT :: bytes where "KKW_DOM_MHAT = ascii ''KKWmhat''"

definition KKW_TH :: "b3 \<Rightarrow> bytes \<Rightarrow> bytes \<Rightarrow> bytes" where
  "KKW_TH B dm data = blake3_th_into B dm data 32"

text \<open>An array of words as the bytes in memory, on a little-endian host.\<close>

definition words_le :: "u32 list \<Rightarrow> bytes" where
  "words_le ws = concat (map (bytes_le 4) ws)"

definition preproc_com_party :: "b3 \<Rightarrow> nat \<Rightarrow> bytes \<Rightarrow> u32 list option \<Rightarrow> bytes" where
  "preproc_com_party B party seed aux =
     th_stream B KKW_DOM_PPCOM
       ([(Some [of_nat party], 1), (Some seed, SEED_SIZE)]
        @ (case aux of None \<Rightarrow> []
           | Some ws \<Rightarrow> if party = 0 then [(Some (words_le ws), ySize * 4)] else [])) 32"

definition preproc_commit_instance :: "b3 \<Rightarrow> kkw_params \<Rightarrow> bytes list \<Rightarrow> u32 list option \<Rightarrow> bytes" where
  "preproc_commit_instance B prm seeds aux =
     KKW_TH B KKW_DOM_HJ (concat (map (\<lambda>i. preproc_com_party B i (seeds ! i) aux) [0..<N_PARTIES prm]))"

subsection \<open>The challenge\<close>

record prg_ctx =
  prg_state :: bytes
  prg_ctr :: u32
  prg_buf :: bytes
  prg_pos :: nat

definition prg_fill :: "b3 \<Rightarrow> prg_ctx \<Rightarrow> prg_ctx" where
  "prg_fill B p =
     p\<lparr>prg_buf := KKW_TH B KKW_DOM_PRG (prg_state p @ bytes_be 4 (prg_ctr p)),
       prg_ctr := prg_ctr p + 1, prg_pos := 0\<rparr>"

definition prg_init :: "b3 \<Rightarrow> bytes \<Rightarrow> prg_ctx" where
  "prg_init B seed = prg_fill B \<lparr>prg_state = seed, prg_ctr = 0, prg_buf = replicate 32 0, prg_pos = 0\<rparr>"

definition prg_next :: "b3 \<Rightarrow> prg_ctx \<Rightarrow> byte \<times> prg_ctx" where
  "prg_next B p =
     (let p = (if prg_pos p \<ge> 32 then prg_fill B p else p)
      in (prg_buf p ! prg_pos p, p\<lparr>prg_pos := prg_pos p + 1\<rparr>))"

definition prg_u32 :: "b3 \<Rightarrow> prg_ctx \<Rightarrow> u32 \<times> prg_ctx" where
  "prg_u32 B p =
     fold (\<lambda>i (v, p). let (b, p) = prg_next B p in (push_bit 8 v OR ucast b, p)) [0..<4] (0, p)"

definition prg_limit :: "u32 \<Rightarrow> u64" where
  "prg_limit bound = push_bit 32 1 - push_bit 32 1 mod ucast bound"

partial_function (option) prg_below :: "b3 \<Rightarrow> u32 \<Rightarrow> prg_ctx \<Rightarrow> (u32 \<times> prg_ctx) option" where
  "prg_below B bound p =
     (let r = fst (prg_u32 B p); p = snd (prg_u32 B p)
      in if ucast r \<ge> prg_limit bound then prg_below B bound p else Some (r mod bound, p))"

definition kkw_fs_prefix :: "b3 \<Rightarrow> bytes \<Rightarrow> u32 list \<Rightarrow> bytes \<Rightarrow> bytes \<Rightarrow> bytes \<Rightarrow> bytes" where
  "kkw_fs_prefix B msg pubout pk_seed nonce h_star =
     (let pubout_bytes = concat (map (bytes_be 4) pubout)
      in KKW_TH B KKW_DOM_FS (msg @ pubout_bytes @ pk_seed @ nonce @ h_star))"

text \<open>The seed, and whether its last \<open>GRIND_W\<close> bits are zero.\<close>

definition kkw_fs_seed :: "b3 \<Rightarrow> kkw_params \<Rightarrow> bytes \<Rightarrow> u32 \<Rightarrow> bool \<times> bytes" where
  "kkw_fs_seed B prm h_pre ctr =
     (let seed_FS = KKW_TH B KKW_DOM_GRIND (h_pre @ bytes_be 4 ctr)
      in (list_all (\<lambda>b. drop_bit (b mod 8) (seed_FS ! (31 - b div 8)) AND 1 = 0) [0..<GRIND_W prm], seed_FS))"

fun fs_shuffle :: "b3 \<Rightarrow> nat \<Rightarrow> nat list \<Rightarrow> nat list \<Rightarrow> prg_ctx \<Rightarrow> (nat list \<times> prg_ctx) option" where
  "fs_shuffle B m [] arr prg = Some (arr, prg)"
| "fs_shuffle B m (i # is) arr prg =
     (case prg_below B (of_nat (m - i)) prg of
        None \<Rightarrow> None
      | Some (r, prg) \<Rightarrow>
          let j = i + unat r
          in fs_shuffle B m is (arr[i := arr ! j, j := arr ! i]) prg)"

partial_function (option) fs_party :: "b3 \<Rightarrow> nat \<Rightarrow> prg_ctx \<Rightarrow> (nat \<times> prg_ctx) option" where
  "fs_party B n prg =
     (let val = unat (fst (prg_next B prg)); prg = snd (prg_next B prg)
      in if val \<ge> n * (256 div n) then fs_party B n prg else Some (val mod n, prg))"

fun fs_parties :: "b3 \<Rightarrow> nat \<Rightarrow> nat \<Rightarrow> prg_ctx \<Rightarrow> nat list option" where
  "fs_parties B n 0 prg = Some []"
| "fs_parties B n (Suc k) prg =
     (case fs_party B n prg of
        None \<Rightarrow> None
      | Some (p, prg) \<Rightarrow> map_option ((#) p) (fs_parties B n k prg))"

text \<open>The challenge: the opened instances, sorted, and the hidden party of each; \<open>None\<close> is a
  rejection loop that never returns.\<close>

definition kkw_fs_expand :: "b3 \<Rightarrow> kkw_params \<Rightarrow> bytes \<Rightarrow> (nat list \<times> nat list) option" where
  "kkw_fs_expand B prm seed_FS =
     (case fs_shuffle B (M_KKW prm) [0..<NUM_ROUNDS prm] [0..<M_KKW prm] (prg_init B seed_FS) of
        None \<Rightarrow> None
      | Some (arr, prg) \<Rightarrow>
          map_option (\<lambda>ps. (sort (take (NUM_ROUNDS prm) arr), ps)) (fs_parties B (N_PARTIES prm) (NUM_ROUNDS prm) prg))"

subsection \<open>Transcript hashes\<close>

definition compute_h_prime :: "b3 \<Rightarrow> nat \<Rightarrow> bytes \<Rightarrow> u32 list list \<Rightarrow> bytes \<Rightarrow> bytes" where
  "compute_h_prime B n d_pub s_all r_j =
     th_stream B KKW_DOM_HPRIME
       [(Some d_pub, INPUT_LEN), (Some (words_le (concat s_all)), n * ySize * 4), (Some r_j, 32)] 32"

definition compute_msgs_e :: "nat \<Rightarrow> u32 list list \<Rightarrow> u32 list" where
  "compute_msgs_e e s_all = s_all ! e"

definition recompute_h_prime_verify ::
  "b3 \<Rightarrow> nat \<Rightarrow> nat \<Rightarrow> bytes \<Rightarrow> u32 list list \<Rightarrow> u32 list \<Rightarrow> bytes \<Rightarrow> bytes" where
  "recompute_h_prime_verify B n e d_pub s_slots msgs_e r_j =
     th_stream B KKW_DOM_HPRIME
       ([(Some d_pub, INPUT_LEN)]
        @ map (\<lambda>p. (Some (words_le (if p = e then msgs_e
                                    else s_slots ! (if p < e then p else p - 1))), ySize * 4)) [0..<n]
        @ [(Some r_j, 32)]) 32"

end
