(* ===== verification/Statement.thy ===== *)
theory Statement
  imports Shared
begin

text \<open>
  The statement of the proof, \<open>building_views\<close> and \<open>verify\<close> of \<^verbatim>\<open>circuits.c\<close>: the opening
  of the Halevi-Micali commitment, the XMSS message hash, the pooled chains, the leaf,
  the authentication path and the coordinate sum, with the eight output words. The two
  functions are the same circuit over the prover's and over the verifier's gates; the
  pieces below are in the order of the code.
\<close>

subsection \<open>The commitment opening\<close>

definition circ_hm_y :: "'s gates \<Rightarrow> byte mw list \<Rightarrow> ('s, byte mw list) state" where
  "circ_hm_y G d = circ_th G (mw_consts (g_np G) HM_DOM_Y) (segment W_R_OFF HM_R_BYTES d) 32"

definition circ_hm_product ::
  "'s gates \<Rightarrow> byte mw list \<Rightarrow> nat \<Rightarrow> nat \<Rightarrow> u32 mw list \<Rightarrow> ('s, u32 mw list) state" where
  "circ_hm_product G d line idx acc = do {
     let A = mw_buf (g_np G) gf128_load (segment (W_A_OFF + (line * HM_NONCES + idx) * HM_ELT) HM_ELT d);
     let R = mw_buf (g_np G) gf128_load (segment (W_R_OFF + idx * HM_ELT) HM_ELT d);
     P \<leftarrow> circ_gf128_mul G A R;
     State_Monad.return (map2 mpc_XOR acc P)
   }"

definition circ_hm_line :: "'s gates \<Rightarrow> bytes \<Rightarrow> byte mw list \<Rightarrow> nat \<Rightarrow> ('s, byte mw list) state" where
  "circ_hm_line G message_digest d line = do {
     acc \<leftarrow> for_each (circ_hm_product G d line) [0..<HM_NONCES] (mw_consts (g_np G) (replicate 4 0));
     let Mk = gf128_load (segment (line * HM_ELT) HM_ELT message_digest);
     let acc = map2 mw_xor_pub Mk acc;
     State_Monad.return (mw_buf (g_np G) gf128_store acc)
   }"

definition circ_commitment :: "'s gates \<Rightarrow> bytes \<Rightarrow> byte mw list \<Rightarrow> ('s, byte mw list) state" where
  "circ_commitment G message_digest d = do {
     ysh \<leftarrow> circ_hm_y G d;
     bsh \<leftarrow> State_Monad.traverse_list (circ_hm_line G message_digest d) [0..<HM_LINES];
     let sec = segment W_A_OFF HM_A_BYTES d @ concat bsh @ ysh;
     circ_th G (mw_consts (g_np G) HM_DOM_D) sec 32
   }"

subsection \<open>The XMSS signature\<close>

definition circ_leafidx :: "byte mw list \<Rightarrow> byte mw list" where
  "circ_leafidx d = segment W_LEAFIDX_OFF XMSS_EPOCH_BYTES d"

definition circ_message_hash ::
  "'s gates \<Rightarrow> bytes \<Rightarrow> byte mw list \<Rightarrow> byte mw list \<Rightarrow> ('s, byte mw list) state" where
  "circ_message_hash G pk_seed d dsh =
     circ_th G (mw_consts (g_np G) (pk_seed @ [XMSS_TWEAK_MESSAGE]) @ circ_leafidx d)
       (segment W_NONCE_OFF XMSS_NONCE_LEN d @ dsh) 32"

definition circ_leaf :: "'s gates \<Rightarrow> bytes \<Rightarrow> byte mw list \<Rightarrow> byte mw list \<Rightarrow> ('s, byte mw list) state" where
  "circ_leaf G pk_seed d pkh =
     circ_th G (mw_consts (g_np G) (pk_seed @ [XMSS_TWEAK_LEAF]) @ circ_leafidx d) pkh XMSS_NODE_BYTES"

definition shr32 :: "u32 \<Rightarrow> nat \<Rightarrow> u32" where
  "shr32 v k = (if k \<ge> 32 then 0 else drop_bit k v)"

definition put_idx_le :: "u32 \<Rightarrow> bytes" where
  "put_idx_le idx = map (\<lambda>k. ucast (drop_bit (8 * k) idx AND 0xFF)) [0..<4]"

definition mask_from_bit :: "u32 mw \<Rightarrow> u32 mw" where
  "mask_from_bit sel = mw_map (\<lambda>s. 0 - (s AND 1)) sel"

text \<open>The conditional swap of one word of the node and its sibling.\<close>

definition circ_swap_word ::
  "'s gates \<Rightarrow> u32 mw \<Rightarrow> u32 mw list \<Rightarrow> u32 mw list \<Rightarrow> nat \<Rightarrow> ('s, u32 mw \<times> u32 mw) state" where
  "circ_swap_word G sel nd sb w = do {
     mt \<leftarrow> g_and G sel (mpc_XOR (nd ! w) (sb ! w));
     State_Monad.return (mpc_XOR (nd ! w) mt, mpc_XOR (sb ! w) mt)
   }"

definition circ_level ::
  "'s gates \<Rightarrow> bytes \<Rightarrow> byte mw list \<Rightarrow> u32 mw \<Rightarrow> nat \<Rightarrow> byte mw list \<Rightarrow> ('s, byte mw list) state" where
  "circ_level G pk_seed d li level node = do {
     let np = g_np G;
     let sib = segment (W_PATH_OFF + level * XMSS_NODE_BYTES) XMSS_NODE_BYTES d;
     let sel = mask_from_bit (mw_map (\<lambda>x. drop_bit level x AND 1) li);
     lr \<leftarrow> State_Monad.traverse_list (circ_swap_word G sel (mw_buf np node_words node) (mw_buf np node_words sib))
             [0..<XMSS_NODE_WORDS];
     let left = mw_buf np node_of_words (map fst lr);
     let right = mw_buf np node_of_words (map snd lr);
     let dm = mw_consts np (pk_seed @ [XMSS_TWEAK_TREE, of_nat level])
              @ mw_rows (mw_map (\<lambda>x. put_idx_le (shr32 x (level + 1))) li);
     circ_th G dm (left @ right) XMSS_NODE_BYTES
   }"

definition circ_path :: "'s gates \<Rightarrow> bytes \<Rightarrow> byte mw list \<Rightarrow> byte mw list \<Rightarrow> ('s, byte mw list) state" where
  "circ_path G pk_seed d node =
     (let li = mw_word (g_np G) load_be (circ_leafidx d)
      in for_each (circ_level G pk_seed d li) [0..<XMSS_H] node)"

definition mh_coord :: "bytes \<Rightarrow> nat \<Rightarrow> u32" where
  "mh_coord mh ci =
     fold (\<lambda>k out. out OR push_bit k (mh_bit mh (xmss_coord_bit_pos ci + k) AND 1)) [0..<XMSS_COORD_RES_BITS] 0"

definition circ_sum :: "'s gates \<Rightarrow> byte mw list \<Rightarrow> ('s, u32 mw) state" where
  "circ_sum G mh =
     for_each (\<lambda>ci acc. g_add G acc (mw_word (g_np G) (\<lambda>h. mh_coord h ci) mh)) [0..<XMSS_WOTS_LEN] (mw_const (g_np G) 0)"

definition mh_leftover :: "bytes \<Rightarrow> u32" where
  "mh_leftover mh = mh_bit mh 63 OR push_bit 1 (mh_bit mh (8 * XMSS_MSG_HASH_LEN - 1))"

definition YP_ROOT_WORDS :: nat where "YP_ROOT_WORDS = XMSS_NODE_WORDS"

text \<open>The eight output words: the root, the sum, the leftover bits, the pool check, zero.\<close>

definition circ_statement :: "'s gates \<Rightarrow> bytes \<Rightarrow> bytes \<Rightarrow> byte mw list \<Rightarrow> ('s, u32 mw list) state" where
  "circ_statement G message_digest pk_seed d = do {
     let np = g_np G;
     dsh \<leftarrow> circ_commitment G message_digest d;
     mh \<leftarrow> circ_message_hash G pk_seed d dsh;
     (pkh, pool_check) \<leftarrow> pool_chains G d pk_seed mh;
     node \<leftarrow> circ_leaf G pk_seed d pkh;
     node \<leftarrow> circ_path G pk_seed d node;
     acc \<leftarrow> circ_sum G mh;
     State_Monad.return (mw_buf np node_words node @ [acc, mw_word np mh_leftover mh, pool_check, mw_const np 0])
   }"

subsection \<open>The prover\<close>

text \<open>A masked buffer from the public buffer and the buffers of the parties.\<close>

definition masked :: "bytes \<Rightarrow> bytes list \<Rightarrow> byte mw list" where
  "masked d_pub lam = mw_rows \<lparr>mw_h = d_pub, mw_l = lam\<rparr>"

record views =
  v_yp :: "u32 list list"
  v_h_prime :: "bytes option"
  v_zh :: "u32 list"
  v_aux :: "u32 list"
  v_s_all :: "u32 list list option"
  v_gates :: nat

text \<open>
  \<open>aux\<close> and \<open>s_all\<close> are the arrays as the caller passes them (\<open>s_all\<close> may be \<open>NULL\<close>); the
  result holds the arrays afterwards and the number of gates, which the code stores in
  the debugging variable \<open>g_circuit_gates\<close>.
\<close>

definition building_views ::
  "b3 \<Rightarrow> bytes \<Rightarrow> bytes \<Rightarrow> bytes \<Rightarrow> bytes list \<Rightarrow> bytes list \<Rightarrow> u32 list \<Rightarrow> u32 list list option \<Rightarrow> bytes \<Rightarrow> views" where
  "building_views B message_digest pk_seed d_pub lam tapes aux s_all r_j =
     (let (outs, st) = run_state (circ_statement (prover_gates tapes) message_digest pk_seed (masked d_pub lam))
                         \<lparr>ps_gc = 0, ps_aux = aux, ps_s_all = s_all\<rparr>
      in \<lparr>v_yp = map (\<lambda>i. share i outs) [0..<length tapes],
          v_h_prime = map_option (\<lambda>s. compute_h_prime B (length tapes) d_pub s r_j) (ps_s_all st),
          v_zh = map mw_h outs, v_aux = ps_aux st, v_s_all = ps_s_all st, v_gates = ps_gc st\<rparr>)"

text \<open>
  The correction words of an instance, from its seeds alone: the circuit on a zero
  public input. The second output is the hash of the output-mask shares. An allocation
  failure zeroes both. \<open>aux\<close> is the caller's output array as it was before.
\<close>

definition compute_aux_from_seeds ::
  "platform \<Rightarrow> kkw_params \<Rightarrow> bytes list \<Rightarrow> u32 list \<Rightarrow> u32 list \<times> bytes" where
  "compute_aux_from_seeds P prm seeds aux =
     (if \<not> (malloc_ok P TAPE_SIZE \<and> malloc_ok P INPUT_LEN)
      then (replicate ySize 0, replicate 32 0)
      else let tapes = map (expand_tape (b3 P)) (take (N_PARTIES prm) seeds);
               lam = map (expand_xshare (b3 P)) (take (N_PARTIES prm) seeds);
               v = building_views (b3 P) (replicate 32 0) (replicate XMSS_PK_SEED_BYTES 0) (replicate INPUT_LEN 0)
                     lam tapes aux None []
           in (v_aux v, KKW_TH (b3 P) KKW_DOM_HOUT (words_le (concat (v_yp v)))))"

subsection \<open>The verifier\<close>

record kkw_z =
  z_ke :: "bytes list"
  z_x_offset :: bytes
  z_aux :: "u32 list"
  z_msgs_e :: "u32 list"
  z_com_hidden :: bytes
  z_r_j :: bytes

text \<open>
  The second half of the source file repeats the circuit over \<open>mwv\<close> words and the
  verifier's gates; its pieces are the same definitions over \<open>verifier_gates\<close>.
\<close>

definition verify_hm_y :: "verifier_env \<Rightarrow> byte mw list \<Rightarrow> (verifier_state, byte mw list) state" where
  "verify_hm_y env = circ_hm_y (verifier_gates env)"

definition verify_hm_line :: "verifier_env \<Rightarrow> bytes \<Rightarrow> byte mw list \<Rightarrow> nat \<Rightarrow> (verifier_state, byte mw list) state" where
  "verify_hm_line env = circ_hm_line (verifier_gates env)"

definition verify_commitment :: "verifier_env \<Rightarrow> bytes \<Rightarrow> byte mw list \<Rightarrow> (verifier_state, byte mw list) state" where
  "verify_commitment env = circ_commitment (verifier_gates env)"

definition verify_message_hash ::
  "verifier_env \<Rightarrow> bytes \<Rightarrow> byte mw list \<Rightarrow> byte mw list \<Rightarrow> (verifier_state, byte mw list) state" where
  "verify_message_hash env = circ_message_hash (verifier_gates env)"

definition pool_v_chains ::
  "verifier_env \<Rightarrow> byte mw list \<Rightarrow> bytes \<Rightarrow> byte mw list \<Rightarrow> (verifier_state, byte mw list \<times> u32 mw) state" where
  "pool_v_chains env = pool_chains (verifier_gates env)"

definition verify_leaf ::
  "verifier_env \<Rightarrow> bytes \<Rightarrow> byte mw list \<Rightarrow> byte mw list \<Rightarrow> (verifier_state, byte mw list) state" where
  "verify_leaf env = circ_leaf (verifier_gates env)"

definition verify_level ::
  "verifier_env \<Rightarrow> bytes \<Rightarrow> byte mw list \<Rightarrow> u32 mw \<Rightarrow> nat \<Rightarrow> byte mw list \<Rightarrow> (verifier_state, byte mw list) state" where
  "verify_level env = circ_level (verifier_gates env)"

definition verify_path ::
  "verifier_env \<Rightarrow> bytes \<Rightarrow> byte mw list \<Rightarrow> byte mw list \<Rightarrow> (verifier_state, byte mw list) state" where
  "verify_path env = circ_path (verifier_gates env)"

definition verify_sum :: "verifier_env \<Rightarrow> byte mw list \<Rightarrow> (verifier_state, u32 mw) state" where
  "verify_sum env = circ_sum (verifier_gates env)"

definition verify_statement ::
  "verifier_env \<Rightarrow> bytes \<Rightarrow> bytes \<Rightarrow> byte mw list \<Rightarrow> (verifier_state, u32 mw list) state" where
  "verify_statement env message_digest pk_seed d = do {
     let np = length (ve_tapes env);
     dsh \<leftarrow> verify_commitment env message_digest d;
     mh \<leftarrow> verify_message_hash env pk_seed d dsh;
     (pkh, pool_check) \<leftarrow> pool_v_chains env d pk_seed mh;
     node \<leftarrow> verify_leaf env pk_seed d pkh;
     node \<leftarrow> verify_path env pk_seed d node;
     acc \<leftarrow> verify_sum env mh;
     State_Monad.return (mw_buf np node_words node @ [acc, mw_word np mh_leftover mh, pool_check, mw_const np 0])
   }"

lemma verify_statement_eq: "verify_statement env = circ_statement (verifier_gates env)"
  by (intro ext) (simp add: verify_statement_def circ_statement_def verify_commitment_def verify_message_hash_def
      pool_v_chains_def verify_leaf_def verify_path_def verify_sum_def verifier_gates_def)

text \<open>
  \<open>None\<close> is the early return after a failed allocation, with \<open>*error\<close> set and no output
  written; otherwise the error flag, the recomputed \<open>h_prime\<close> and the output words.
\<close>

definition verify ::
  "platform \<Rightarrow> kkw_params \<Rightarrow> bytes \<Rightarrow> bytes \<Rightarrow> bool \<Rightarrow> u32 list list \<Rightarrow> nat \<Rightarrow> kkw_z \<Rightarrow> (bool \<times> bytes \<times> u32 list) option" where
  "verify P prm message_digest pk_seed error yp e zp =
     (let n = N_PARTIES prm - 1
      in if \<not> malloc_ok P TAPE_SIZE then None
         else if \<not> malloc_ok P (n * ySize * 4) \<or> \<not> malloc_ok P (n * INPUT_LEN) then None
         else
           let tapes = map (\<lambda>j. expand_tape (b3 P) (z_ke zp ! j)) [0..<n];
               vlam = map (\<lambda>j. expand_xshare (b3 P) (z_ke zp ! j)) [0..<n];
               d_pub = z_x_offset zp;
               env = \<lparr>ve_tapes = tapes, ve_e = e, ve_msgs_e = z_msgs_e zp, ve_aux = z_aux zp\<rparr>;
               (outs, st) = run_state (verify_statement env message_digest pk_seed (masked d_pub vlam))
                              \<lparr>vs_gc = 0, vs_s_slots = replicate n (replicate ySize 0)\<rparr>
           in Some (error \<or> \<not> list_all (\<lambda>j. share j outs = yp ! orig j e) [0..<n],
                    recompute_h_prime_verify (b3 P) (N_PARTIES prm) e d_pub (vs_s_slots st) (z_msgs_e zp) (z_r_j zp),
                    map mw_h outs))"

end
