(* ===== verification/Kkw.thy ===== *)
theory Kkw
  imports Statement
begin

text \<open>
  The prover and the verifier of the cut-and-choose proof, \<^verbatim>\<open>kkw_prove.c\<close> and
  \<^verbatim>\<open>kkw_verify.c\<close>. A proof file is its byte string, with the little-endian words of the
  hosts the code runs on. The iterations of the OpenMP loops share no state but the
  scratch arrays of the threads; what those hold when an iteration begins depends on the
  schedule and is the parameter \<open>mem\<close> of the definitions. The outer option of a result is
  \<open>None\<close> when a rejection or grinding loop never ends.
\<close>

type_synonym scratch = "nat \<Rightarrow> u32 list \<times> u32 list list"

subsection \<open>Hashes shared by both sides\<close>

definition kkw_h_star :: "b3 \<Rightarrow> bytes list \<Rightarrow> bytes list \<Rightarrow> bytes list \<Rightarrow> bytes" where
  "kkw_h_star B h_j_all h_prime_all h_out_all =
     (let h_val = KKW_TH B KKW_DOM_HSTAR1 (concat h_j_all);
          h_prime_val = KKW_TH B KKW_DOM_HSTAR2 (concat h_prime_all);
          h_out_val = KKW_TH B KKW_DOM_HSTAR3 (concat h_out_all)
      in KKW_TH B KKW_DOM_HSTAR (h_val @ h_prime_val @ h_out_val))"

definition kkw_h_out :: "b3 \<Rightarrow> u32 list list \<Rightarrow> bytes" where
  "kkw_h_out B yp = KKW_TH B KKW_DOM_HOUT (words_le (concat yp))"

text \<open>The output shares of all parties and the public part add up to the public output.\<close>

definition kkw_opens_to :: "u32 list \<Rightarrow> u32 list list \<Rightarrow> u32 list \<Rightarrow> bool" where
  "kkw_opens_to zh yp pubout \<longleftrightarrow>
     list_all (\<lambda>w. fold (\<lambda>row v. v XOR row ! w) yp (zh ! w) = pubout ! w) [0..<8]"

subsection \<open>The prover\<close>

definition expand_instance_into ::
  "b3 \<Rightarrow> kkw_params \<Rightarrow> bytes \<Rightarrow> bytes \<Rightarrow> bytes list \<times> bytes list \<times> bytes list \<times> bytes" where
  "expand_instance_into B prm seed_star input =
     (let seeds = expand_seed_star B prm seed_star;
          tapes = map (expand_tape B) seeds;
          lam = map (expand_xshare B) seeds
      in (seeds, lam, tapes, fold (\<lambda>l d. map2 (XOR) d l) lam input))"

record kkw_instance =
  in_h_j :: bytes
  in_h_prime :: bytes
  in_h_out :: bytes
  in_ok :: bool

definition kkw_pass1 ::
  "b3 \<Rightarrow> kkw_params \<Rightarrow> scratch \<Rightarrow> bytes \<Rightarrow> bytes \<Rightarrow> bytes \<Rightarrow> u32 list \<Rightarrow> bytes list \<Rightarrow> bytes list \<Rightarrow> nat \<Rightarrow> kkw_instance" where
  "kkw_pass1 B prm mem input m_hat pk_seed pubout seed_stars r_all j =
     (let (seeds, lam, tapes, d) = expand_instance_into B prm (seed_stars ! j) input;
          (aux, s) = mem j;
          v = building_views B m_hat pk_seed d lam tapes aux (Some s) (r_all ! j)
      in \<lparr>in_h_j = preproc_commit_instance B prm seeds (Some (v_aux v)),
          in_h_prime = (case v_h_prime v of None \<Rightarrow> replicate 32 0 | Some h \<Rightarrow> h),
          in_h_out = kkw_h_out B (v_yp v),
          in_ok = kkw_opens_to (v_zh v) (v_yp v) pubout\<rparr>)"

record kkw_round =
  rd_yp :: "u32 list list"
  rd_z :: kkw_z

definition kkw_pass2 ::
  "b3 \<Rightarrow> kkw_params \<Rightarrow> scratch \<Rightarrow> bytes \<Rightarrow> bytes \<Rightarrow> bytes \<Rightarrow> bytes list \<Rightarrow> bytes list \<Rightarrow> nat \<Rightarrow> nat \<Rightarrow> kkw_round" where
  "kkw_pass2 B prm mem input m_hat pk_seed seed_stars r_all j e =
     (let (seeds, lam, tapes, d) = expand_instance_into B prm (seed_stars ! j) input;
          (aux, s) = mem j;
          v = building_views B m_hat pk_seed d lam tapes aux (Some s) (r_all ! j);
          msgs = compute_msgs_e e (case v_s_all v of None \<Rightarrow> [] | Some s \<Rightarrow> s)
      in \<lparr>rd_yp = v_yp v,
          rd_z = \<lparr>z_ke = map (\<lambda>q. seeds ! orig q e) [0..<N_PARTIES prm - 1],
                  z_x_offset = d, z_aux = v_aux v, z_msgs_e = msgs,
                  z_com_hidden = preproc_com_party B e (seeds ! e) (if e = 0 then Some (v_aux v) else None),
                  z_r_j = r_all ! j\<rparr>\<rparr>)"

text \<open>The counter of the grinding loop.\<close>

partial_function (option) kkw_grind :: "b3 \<Rightarrow> kkw_params \<Rightarrow> bytes \<Rightarrow> u32 \<Rightarrow> (u32 \<times> bytes) option" where
  "kkw_grind B prm h_pre ctr =
     (if fst (kkw_fs_seed B prm h_pre ctr) then Some (ctr, snd (kkw_fs_seed B prm h_pre ctr))
      else kkw_grind B prm h_pre (ctr + 1))"

definition kkw_header :: "kkw_params \<Rightarrow> u32 list" where
  "kkw_header prm = [of_nat (N_PARTIES prm), of_nat (M_KKW prm), of_nat (NUM_ROUNDS prm), of_nat ySize, of_nat (GRIND_W prm)]"

definition kkw_magic :: bytes where "kkw_magic = ascii ''KKW2''"

definition kkw_round_chunks :: "nat \<Rightarrow> kkw_round \<Rightarrow> bytes list" where
  "kkw_round_chunks e r =
     [z_com_hidden (rd_z r), words_le (concat (rd_yp r)), concat (z_ke (rd_z r)), z_x_offset (rd_z r)]
     @ (if e \<noteq> 0 then [words_le (z_aux (rd_z r))] else [])
     @ [words_le (z_msgs_e (rd_z r)), z_r_j (rd_z r)]"

text \<open>The pieces of the proof file, one for each \<open>fwrite\<close>.\<close>

definition kkw_proof_chunks ::
  "kkw_params \<Rightarrow> bytes \<Rightarrow> bytes \<Rightarrow> u32 \<Rightarrow> nat list \<Rightarrow> nat list \<Rightarrow> bytes list \<Rightarrow> bytes list \<Rightarrow> kkw_round list \<Rightarrow> bytes list" where
  "kkw_proof_chunks prm nonce h_star ctr C_out p_out seed_stars h_prime_all rounds =
     [kkw_magic, words_le (kkw_header prm), nonce, h_star, bytes_le 4 ctr]
     @ concat (map (\<lambda>j. if j \<in> set C_out then [] else [seed_stars ! j, h_prime_all ! j]) [0..<M_KKW prm])
     @ concat (map2 kkw_round_chunks p_out rounds)"

text \<open>The allocations of the two passes.\<close>

definition kkw_instances_alloc_ok :: "platform \<Rightarrow> kkw_params \<Rightarrow> bool" where
  "kkw_instances_alloc_ok P prm \<longleftrightarrow> malloc_ok P (M_KKW prm * SEED_SIZE) \<and> malloc_ok P (M_KKW prm * 32)"

definition kkw_scratch_alloc_ok :: "platform \<Rightarrow> kkw_params \<Rightarrow> nat \<Rightarrow> bool" where
  "kkw_scratch_alloc_ok P prm threads \<longleftrightarrow>
     malloc_ok P (threads * 8) \<and>
     (0 < threads \<longrightarrow>
        malloc_ok P (N_PARTIES prm * INPUT_LEN) \<and> malloc_ok P (N_PARTIES prm * TAPE_SIZE) \<and>
        malloc_ok P (ySize * 4) \<and> malloc_ok P (N_PARTIES prm * ySize * 4) \<and> malloc_ok P INPUT_LEN)"

definition sizeof_a :: "kkw_params \<Rightarrow> nat" where
  "sizeof_a prm = N_PARTIES prm * 32 + 32"

definition sizeof_z :: "kkw_params \<Rightarrow> nat" where
  "sizeof_z prm = (N_PARTIES prm - 1) * SEED_SIZE + 3 * 8 + 32 + 32"

definition kkw_rounds_alloc_ok :: "platform \<Rightarrow> kkw_params \<Rightarrow> bool" where
  "kkw_rounds_alloc_ok P prm \<longleftrightarrow>
     (0 < NUM_ROUNDS prm \<longrightarrow>
        malloc_ok P (sizeof_a prm) \<and> malloc_ok P (sizeof_z prm) \<and> malloc_ok P (ySize * 4) \<and> malloc_ok P INPUT_LEN)"

text \<open>The challenge of a transcript and the proof that answers it.\<close>

definition kkw_answer ::
  "platform \<Rightarrow> kkw_params \<Rightarrow> scratch \<Rightarrow> bytes \<Rightarrow> bytes \<Rightarrow> bytes \<Rightarrow> u32 list \<Rightarrow>
   bytes list \<Rightarrow> bytes list \<Rightarrow> kkw_instance list \<Rightarrow> bytes \<Rightarrow> bytes option option" where
  "kkw_answer P prm mem input m_hat pk_seed pubout seed_stars r_all insts nonce =
     (let h_star = kkw_h_star (b3 P) (map in_h_j insts) (map in_h_prime insts) (map in_h_out insts);
          h_pre = kkw_fs_prefix (b3 P) m_hat pubout pk_seed nonce h_star
      in case kkw_grind (b3 P) prm h_pre 0 of
           None \<Rightarrow> None
         | Some (ctr, seed_FS) \<Rightarrow>
             (case kkw_fs_expand (b3 P) prm seed_FS of
                None \<Rightarrow> None
              | Some (C_out, p_out) \<Rightarrow>
                  if \<not> kkw_rounds_alloc_ok P prm then Some None
                  else
                    let rounds = map2 (kkw_pass2 (b3 P) prm mem input m_hat pk_seed seed_stars r_all) C_out p_out;
                        chunks = kkw_proof_chunks prm nonce h_star ctr C_out p_out seed_stars (map in_h_prime insts) rounds
                    in if list_all (\<lambda>c. fwrite_ok P (length c)) chunks then Some (Some (concat chunks)) else Some None))"

text \<open>The result is the file written, or \<open>None\<close> for the code \<open>-1\<close>, and the entropy state.\<close>

definition kkw_prove ::
  "platform \<Rightarrow> kkw_params \<Rightarrow> nat \<Rightarrow> scratch \<Rightarrow> scratch \<Rightarrow> bytes \<Rightarrow> bytes \<Rightarrow> bytes \<Rightarrow> u32 list \<Rightarrow> rng \<Rightarrow> (bytes option \<times> rng) option" where
  "kkw_prove P prm threads mem1 mem2 input m_hat pk_seed pubout c =
     (if \<not> kkw_instances_alloc_ok P prm then Some (None, c)
      else case random_bytes P (M_KKW prm * SEED_SIZE) c of
        (None, c) \<Rightarrow> Some (None, c)
      | (Some ss, c) \<Rightarrow>
      (case random_bytes P (M_KKW prm * 32) c of
        (None, c) \<Rightarrow> Some (None, c)
      | (Some rs, c) \<Rightarrow>
        if \<not> kkw_scratch_alloc_ok P prm threads then Some (None, c)
        else
          let seed_stars = blocks SEED_SIZE (M_KKW prm) ss;
              r_all = blocks 32 (M_KKW prm) rs;
              insts = map (kkw_pass1 (b3 P) prm mem1 input m_hat pk_seed pubout seed_stars r_all) [0..<M_KKW prm]
          in if \<not> list_all in_ok insts then Some (None, c)
             else case random_bytes P 32 c of
               (None, c) \<Rightarrow> Some (None, c)
             | (Some nonce, c) \<Rightarrow>
                 map_option (\<lambda>out. (out, c))
                   (kkw_answer P prm mem2 input m_hat pk_seed pubout seed_stars r_all insts nonce)))"

subsection \<open>The verifier\<close>

text \<open>\<open>fread\<close> of \<open>n\<close> bytes: the bytes and the rest of the file.\<close>

definition fread :: "nat \<Rightarrow> bytes \<Rightarrow> (bytes \<times> bytes) option" where
  "fread n file = (if n \<le> length file then Some (take n file, drop n file) else None)"

definition words_of :: "nat \<Rightarrow> bytes \<Rightarrow> u32 list" where
  "words_of n bs = map load_le (blocks 4 n bs)"

definition read_round :: "kkw_params \<Rightarrow> nat \<Rightarrow> bytes \<Rightarrow> (kkw_round \<times> bytes) option" where
  "read_round prm e file = do {
     (com, file) \<leftarrow> fread 32 file;
     (yp, file) \<leftarrow> fread (N_PARTIES prm * 8 * 4) file;
     (ke, file) \<leftarrow> fread ((N_PARTIES prm - 1) * SEED_SIZE) file;
     (x_offset, file) \<leftarrow> fread INPUT_LEN file;
     (aux, file) \<leftarrow> (if e \<noteq> 0 then fread (ySize * 4) file else Some (replicate (ySize * 4) 0, file));
     (msgs, file) \<leftarrow> fread (ySize * 4) file;
     (r_j, file) \<leftarrow> fread 32 file;
     Some (\<lparr>rd_yp = blocks 8 (N_PARTIES prm) (words_of (N_PARTIES prm * 8) yp),
            rd_z = \<lparr>z_ke = blocks SEED_SIZE (N_PARTIES prm - 1) ke, z_x_offset = x_offset, z_aux = words_of ySize aux,
                    z_msgs_e = words_of ySize msgs, z_com_hidden = com, z_r_j = r_j\<rparr>\<rparr>, file)
   }"

fun read_rounds :: "kkw_params \<Rightarrow> nat list \<Rightarrow> bytes \<Rightarrow> (kkw_round list \<times> bytes) option" where
  "read_rounds prm [] file = Some ([], file)"
| "read_rounds prm (e # es) file = do {
     (r, file) \<leftarrow> read_round prm e file;
     (rs, file) \<leftarrow> read_rounds prm es file;
     Some (r # rs, file)
   }"

text \<open>The seed and the transcript hash of every instance that is not opened online.\<close>

fun read_preps :: "nat list \<Rightarrow> bytes \<Rightarrow> ((bytes \<times> bytes) list \<times> bytes) option" where
  "read_preps [] file = Some ([], file)"
| "read_preps (j # js) file = do {
     (seed_star, file) \<leftarrow> fread SEED_SIZE file;
     (h_prime, file) \<leftarrow> fread 32 file;
     (ps, file) \<leftarrow> read_preps js file;
     Some ((seed_star, h_prime) # ps, file)
   }"

definition read_header :: "kkw_params \<Rightarrow> bytes \<Rightarrow> bytes option" where
  "read_header prm file = do {
     (magic, file) \<leftarrow> fread 4 file;
     (hdr, file) \<leftarrow> fread 20 file;
     if magic = kkw_magic \<and> words_of 5 hdr = kkw_header prm then Some file else None
   }"

text \<open>The verifier's three hashes of an instance: recomputed from its seed, or from the
  opening of a round.\<close>

definition kkw_check_prep ::
  "platform \<Rightarrow> kkw_params \<Rightarrow> scratch \<Rightarrow> nat \<Rightarrow> bytes \<times> bytes \<Rightarrow> kkw_instance" where
  "kkw_check_prep P prm mem j = (\<lambda>(seed_star, h_prime).
     let seeds = expand_seed_star (b3 P) prm seed_star;
         (aux, h_out) = compute_aux_from_seeds P prm seeds (fst (mem j))
     in \<lparr>in_h_j = preproc_commit_instance (b3 P) prm seeds (Some aux), in_h_prime = h_prime, in_h_out = h_out, in_ok = True\<rparr>)"

definition kkw_coms :: "b3 \<Rightarrow> kkw_params \<Rightarrow> nat \<Rightarrow> kkw_z \<Rightarrow> bytes list" where
  "kkw_coms B prm e z =
     map (\<lambda>p. if p = e then z_com_hidden z
              else preproc_com_party B p (z_ke z ! (if p < e then p else p - 1)) (if p = 0 then Some (z_aux z) else None))
       [0..<N_PARTIES prm]"

definition kkw_check_round ::
  "platform \<Rightarrow> kkw_params \<Rightarrow> bytes \<Rightarrow> bytes \<Rightarrow> u32 list \<Rightarrow> nat \<Rightarrow> kkw_round \<Rightarrow> kkw_instance" where
  "kkw_check_round P prm m_hat pk_seed pubout e r =
     (let (err, h_prime, zh) = (case verify P prm m_hat pk_seed False (rd_yp r) e (rd_z r) of
                                  None \<Rightarrow> (True, replicate 32 0, []) | Some res \<Rightarrow> res)
      in \<lparr>in_h_j = KKW_TH (b3 P) KKW_DOM_HJ (concat (kkw_coms (b3 P) prm e (rd_z r))),
          in_h_prime = h_prime, in_h_out = kkw_h_out (b3 P) (rd_yp r),
          in_ok = (\<not> err \<and> kkw_opens_to zh (rd_yp r) pubout)\<rparr>)"

text \<open>The instances in order: each online round stored at the index it opens.\<close>

definition kkw_collect :: "nat \<Rightarrow> (nat \<times> kkw_instance) list \<Rightarrow> kkw_instance list" where
  "kkw_collect M entries =
     fold (\<lambda>(j, x) arr. arr[j := x]) entries
       (replicate M \<lparr>in_h_j = replicate 32 0, in_h_prime = replicate 32 0, in_h_out = replicate 32 0, in_ok = True\<rparr>)"

definition kkw_verify_alloc_ok :: "platform \<Rightarrow> kkw_params \<Rightarrow> nat \<Rightarrow> bool" where
  "kkw_verify_alloc_ok P prm threads \<longleftrightarrow>
     malloc_ok P (threads * 8) \<and> (0 < threads \<longrightarrow> malloc_ok P (ySize * 4))"

text \<open>The checks once the challenge is known; the result code 0 is \<open>True\<close>.\<close>

definition kkw_verify_challenge ::
  "platform \<Rightarrow> kkw_params \<Rightarrow> nat \<Rightarrow> scratch \<Rightarrow> bytes \<Rightarrow> bytes \<Rightarrow> bytes \<Rightarrow> u32 list \<Rightarrow> bytes \<Rightarrow> nat list \<Rightarrow> nat list \<Rightarrow> bool" where
  "kkw_verify_challenge P prm threads mem file m_hat pk_seed pubout h_star C_out p_out \<longleftrightarrow>
     (let unopened = filter (\<lambda>j. j \<notin> set C_out) [0..<M_KKW prm]
      in malloc_ok P (4 * M_KKW prm * 32) \<and>
         (case read_preps unopened file of
            None \<Rightarrow> False
          | Some (preps, file) \<Rightarrow>
              kkw_verify_alloc_ok P prm threads \<and> kkw_rounds_alloc_ok P prm \<and>
              (case read_rounds prm p_out file of
                 None \<Rightarrow> False
               | Some (rounds, file) \<Rightarrow>
                   file = [] \<and> malloc_ok P (NUM_ROUNDS prm * 8 * 4) \<and>
                   (let online = map2 (kkw_check_round P prm m_hat pk_seed pubout) p_out rounds;
                        insts = kkw_collect (M_KKW prm)
                                  (zip unopened (map2 (kkw_check_prep P prm mem) unopened preps) @ zip C_out online)
                    in list_all in_ok online \<and>
                       kkw_h_star (b3 P) (map in_h_j insts) (map in_h_prime insts) (map in_h_out insts) = h_star))))"

definition kkw_verify ::
  "platform \<Rightarrow> kkw_params \<Rightarrow> nat \<Rightarrow> scratch \<Rightarrow> bytes \<Rightarrow> bytes \<Rightarrow> bytes \<Rightarrow> u32 list \<Rightarrow> bool option" where
  "kkw_verify P prm threads mem file m_hat pk_seed pubout =
     (case do {
        file \<leftarrow> read_header prm file;
        (nonce, file) \<leftarrow> fread 32 file;
        (h_star, file) \<leftarrow> fread 32 file;
        (ctr, file) \<leftarrow> fread 4 file;
        let h_pre = kkw_fs_prefix (b3 P) m_hat pubout pk_seed nonce h_star;
        let seed = kkw_fs_seed (b3 P) prm h_pre (load_le ctr);
        if fst seed then Some (h_star, snd seed, file) else None
      } of
        None \<Rightarrow> Some False
      | Some (h_star, seed_FS, file) \<Rightarrow>
          map_option (\<lambda>(C_out, p_out). kkw_verify_challenge P prm threads mem file m_hat pk_seed pubout h_star C_out p_out)
            (kkw_fs_expand (b3 P) prm seed_FS))"

end
