(* ===== verification/Challenge.thy ===== *)
theory Challenge
  imports Kkw "HOL-Library.Multiset"
begin

text \<open>
  The Fiat-Shamir challenge: rejection sampling stays below its bound, the shuffle is a
  permutation, and the expanded challenge is a sorted list of distinct instances with one
  hidden party for each.
\<close>

lemma prg_below_bound:
  assumes "prg_below B bound p = Some z" "bound \<noteq> 0"
  shows "fst z < bound"
proof -
  have "bound \<noteq> 0 \<longrightarrow> fst z < bound"
  proof (rule prg_below.raw_induct [OF _ assms(1), where P = "\<lambda>B bound p z. bound \<noteq> 0 \<longrightarrow> fst z < bound"])
    fix rec :: "b3 \<Rightarrow> u32 \<Rightarrow> prg_ctx \<Rightarrow> (u32 \<times> prg_ctx) option" and B bound p z
    assume IH: "\<And>B bound p z. rec B bound p = Some z \<Longrightarrow> bound \<noteq> 0 \<longrightarrow> fst z < bound"
      and "(let r = fst (prg_u32 B p); p = snd (prg_u32 B p)
            in if ucast r \<ge> prg_limit bound then rec B bound p else Some (r mod bound, p)) = Some z"
    then show "bound \<noteq> 0 \<longrightarrow> fst z < bound"
      by (auto simp: Let_def word_mod_less_divisor word_gt_0 split: if_splits)
  qed
  then show ?thesis using assms(2) by blast
qed

lemma fs_party_bound:
  assumes "fs_party B n p = Some z" "0 < n"
  shows "fst z < n"
proof -
  have "0 < n \<longrightarrow> fst z < n"
  proof (rule fs_party.raw_induct [OF _ assms(1), where P = "\<lambda>B n p z. 0 < n \<longrightarrow> fst z < n"])
    fix rec :: "b3 \<Rightarrow> nat \<Rightarrow> prg_ctx \<Rightarrow> (nat \<times> prg_ctx) option" and B n p z
    assume "\<And>B n p z. rec B n p = Some z \<Longrightarrow> 0 < n \<longrightarrow> fst z < n"
      and "(let val = unat (fst (prg_next B p)); prg = snd (prg_next B p)
            in if val \<ge> n * (256 div n) then rec B n prg else Some (val mod n, prg)) = Some z"
    then show "0 < n \<longrightarrow> fst z < n" by (auto simp: Let_def split: if_splits)
  qed
  then show ?thesis using assms(2) by blast
qed

lemma fs_parties_bound:
  "fs_parties B n k p = Some ps \<Longrightarrow> 0 < n \<Longrightarrow> length ps = k \<and> (\<forall>e\<in>set ps. e < n)"
proof (induction k arbitrary: p ps)
  case (Suc k)
  then obtain e p' ps' where "fs_party B n p = Some (e, p')" "fs_parties B n k p' = Some ps'" "ps = e # ps'"
    by (auto split: option.splits)
  then show ?case using Suc.IH [of p' ps'] fs_party_bound [of B n p "(e, p')"] Suc.prems(2) by simp
qed simp

lemma fs_shuffle_mset:
  "fs_shuffle B m is arr p = Some (arr', p') \<Longrightarrow> length arr = m \<Longrightarrow> m < 2 ^ 32 \<Longrightarrow> \<forall>i\<in>set is. i < m \<Longrightarrow>
     mset arr' = mset arr \<and> length arr' = m"
proof (induction "is" arbitrary: arr p)
  case (Cons i "is")
  then obtain r q where below: "prg_below B (of_nat (m - i)) p = Some (r, q)"
    and rec: "fs_shuffle B m is (arr[i := arr ! (i + unat r), i + unat r := arr ! i]) q = Some (arr', p')"
    by (auto simp: Let_def split: option.splits)
  have i: "i < m" using Cons.prems by simp
  have unat: "unat (of_nat (m - i) :: u32) = m - i"
    using Cons.prems(3) by (simp add: unat_of_nat take_bit_nat_eq_self)
  then have "(of_nat (m - i) :: u32) \<noteq> 0" using i by (metis unat_0 zero_less_diff less_numeral_extra(3))
  from prg_below_bound [OF below this] have j: "i + unat r < m" using unat by (simp add: word_less_nat_alt)
  then have "mset (arr[i := arr ! (i + unat r), i + unat r := arr ! i]) = mset arr"
    using i Cons.prems(2) by (metis mset_swap)
  then show ?case using Cons.IH [OF rec] Cons.prems by simp
qed simp

theorem kkw_fs_expand_ok:
  assumes "kkw_fs_expand B prm seed = Some (C_out, p_out)" "M_KKW prm < 2 ^ 32" "NUM_ROUNDS prm \<le> M_KKW prm" "0 < N_PARTIES prm"
  shows "sorted C_out \<and> distinct C_out \<and> length C_out = NUM_ROUNDS prm \<and> (\<forall>j\<in>set C_out. j < M_KKW prm)
    \<and> length p_out = NUM_ROUNDS prm \<and> (\<forall>e\<in>set p_out. e < N_PARTIES prm)"
proof -
  obtain arr p where shuffle: "fs_shuffle B (M_KKW prm) [0..<NUM_ROUNDS prm] [0..<M_KKW prm] (prg_init B seed) = Some (arr, p)"
    and C: "C_out = sort (take (NUM_ROUNDS prm) arr)" and ps: "fs_parties B (N_PARTIES prm) (NUM_ROUNDS prm) p = Some p_out"
    using assms(1) by (auto simp: kkw_fs_expand_def split: option.splits)
  have arr: "mset arr = mset [0..<M_KKW prm]" "length arr = M_KKW prm"
    using fs_shuffle_mset [OF shuffle] assms(2,3) by auto
  then have "distinct arr" "set arr = {0..<M_KKW prm}"
    by (metis distinct_upt mset_eq_imp_distinct_iff) (metis arr(1) mset_eq_setD set_upt)
  then show ?thesis
    using C arr(2) assms(3,4) fs_parties_bound [OF ps] by (auto dest!: in_set_takeD)
qed

lemma kkw_grind_ok:
  assumes "kkw_grind B prm h ctr = Some z"
  shows "kkw_fs_seed B prm h (fst z) = (True, snd z)"
  by (rule kkw_grind.raw_induct [OF _ assms, where P = "\<lambda>B prm h ctr z. kkw_fs_seed B prm h (fst z) = (True, snd z)"])
     (auto split: if_splits simp: prod_eq_iff)

end
