(* ===== verification/Mpc_Gates.thy ===== *)
theory Mpc_Gates
  imports Mpc
begin

text \<open>
  Correctness of the gates: the prover's gates compute the conjunction and the sum of the
  masked values, and the verifier's gates, given the prover's correction word and the
  hidden party's broadcast, recompute the same public value and the shares of the other
  parties (for the adder by recovering the carries bit by bit).
\<close>

subsection \<open>Carries\<close>

lemma bit_add_nat:
  "bit (x + y :: nat) i \<longleftrightarrow> ((bit x i \<noteq> bit y i) \<noteq> (2 ^ i \<le> x mod 2 ^ i + y mod 2 ^ i))"
proof -
  define D A B where "D = (2 :: nat) ^ i" and "A = x mod 2 ^ i" and "B = y mod 2 ^ i"
  have D: "0 < D" "A < D" "B < D" by (simp_all add: D_def A_def B_def)
  then have "(A + B) div D = (if D \<le> A + B then 1 else 0)"
    by (auto intro!: div_nat_eqI)
  moreover have "(x + y) div D = x div D + y div D + (A + B) div D"
    unfolding D_def A_def B_def by (rule div_add1_eq)
  ultimately have "(x + y) div D = x div D + y div D + (if D \<le> A + B then 1 else 0)" by simp
  then show ?thesis
    unfolding bit_iff_odd A_def [symmetric] B_def [symmetric] unfolding D_def [symmetric] by auto
qed

lemma carry_Suc_nat:
  "2 ^ Suc i \<le> x mod 2 ^ Suc i + y mod 2 ^ Suc i \<longleftrightarrow>
     (bit x i \<and> bit y i \<or> (bit x i \<or> bit y i) \<and> 2 ^ i \<le> x mod 2 ^ i + y mod (2 ^ i :: nat))"
proof -
  define D A B where "D = (2 :: nat) ^ i" and "A = x mod 2 ^ i" and "B = y mod 2 ^ i"
  have D: "A < D" "B < D" by (simp_all add: D_def A_def B_def)
  have "z mod 2 ^ Suc i = z mod 2 ^ i + (if bit z i then D else 0)" for z :: nat
    using take_bit_Suc_from_most [of i z] by (simp add: take_bit_eq_mod add.commute D_def)
  then have split: "x mod 2 ^ Suc i = A + (if bit x i then D else 0)"
    "y mod 2 ^ Suc i = B + (if bit y i then D else 0)" by (simp_all add: A_def B_def)
  have suc: "2 ^ Suc i = D + D" by (simp add: D_def)
  show ?thesis
    unfolding split unfolding suc A_def [symmetric] B_def [symmetric] unfolding D_def [symmetric] using D by auto
qed

definition carries :: "u32 \<Rightarrow> u32 \<Rightarrow> u32" where
  "carries x y = (x + y) XOR x XOR y"

lemma bit_add_u32: "bit (x + y :: u32) i \<longleftrightarrow> i < 32 \<and> bit (unat x + unat y) i"
proof -
  have "x + y = of_nat (unat x + unat y)" by simp
  then have "bit (x + y) i \<longleftrightarrow> bit (of_nat (unat x + unat y) :: u32) i" by simp
  also have "\<dots> \<longleftrightarrow> i < 32 \<and> bit (unat x + unat y) i" by (simp only: bit_of_nat_iff) simp
  finally show ?thesis .
qed

lemma bit_carries:
  "i < 32 \<Longrightarrow> bit (carries x y) i \<longleftrightarrow> 2 ^ i \<le> unat x mod 2 ^ i + unat y mod 2 ^ i"
  unfolding carries_def bit_xor_iff bit_add_u32 bit_add_nat by (auto simp: bit_unsigned_iff)

lemma carries_0: "\<not> bit (carries x y) 0"
  using bit_carries [of 0 x y] by simp

lemma carries_Suc:
  assumes "Suc i < 32"
  shows "bit (carries x y) (Suc i) \<longleftrightarrow>
    (bit (carries x y) i \<noteq> ((bit x i \<noteq> bit (carries x y) i) \<and> (bit y i \<noteq> bit (carries x y) i)))"
  using assms carry_Suc_nat [of i "unat x" "unat y"]
  by (simp add: bit_carries bit_unsigned_iff del: power_Suc) blast

subsection \<open>The prefix parity of a tape word\<close>

lemma additive_prefix_xor_shift [additive_intros]: "additive prefix_xor_shift"
  unfolding prefix_xor_shift_def Let_def by (intro additive_intros)

definition shx :: "nat \<Rightarrow> u32 \<Rightarrow> u32" where
  "shx k w = w XOR push_bit k w"

lemma shx_commute: "shx j (shx k w) = shx k (shx j w)"
  by (simp add: shx_def push_bit_xor add.commute ac_simps)

lemma shx_square: "shx k (shx k w) = shx (k + k) w"
  by (simp add: shx_def push_bit_xor ac_simps)

lemma prefix_xor_shift_inverse:
  "prefix_xor_shift v = push_bit 1 (shx 16 (shx 8 (shx 4 (shx 2 (shx 1 v)))))"
  "shx 1 (shx 16 (shx 8 (shx 4 (shx 2 (shx 1 v))))) = v"
proof -
  have "shx 1 (shx 16 (shx 8 (shx 4 (shx 2 (shx 1 v))))) = shx 16 (shx 8 (shx 4 (shx 2 (shx 1 (shx 1 v)))))"
    by (simp only: shx_commute [of 1 16] shx_commute [of 1 8] shx_commute [of 1 4] shx_commute [of 1 2])
  also have "\<dots> = shx 32 v" by (simp only: shx_square one_add_one) (simp add: shx_square)
  also have "\<dots> = v" by (rule bit_word_eqI) (simp add: shx_def bit_simps)
  finally show "shx 1 (shx 16 (shx 8 (shx 4 (shx 2 (shx 1 v))))) = v" .
  show "prefix_xor_shift v = push_bit 1 (shx 16 (shx 8 (shx 4 (shx 2 (shx 1 v)))))"
    by (simp only: prefix_xor_shift_def Let_def shx_def)
qed

lemma prefix_xor_shift_0: "\<not> bit (prefix_xor_shift v) 0"
  unfolding prefix_xor_shift_inverse(1) by (simp only: bit_push_bit_iff) simp

lemma prefix_xor_shift_Suc:
  assumes "Suc i < 32"
  shows "bit (prefix_xor_shift v) (Suc i) \<longleftrightarrow> (bit (prefix_xor_shift v) i \<noteq> bit v i)"
proof -
  let ?u = "shx 16 (shx 8 (shx 4 (shx 2 (shx 1 v))))"
  have "bit v i \<longleftrightarrow> bit (shx 1 ?u) i" by (simp only: prefix_xor_shift_inverse(2))
  also have "\<dots> \<longleftrightarrow> (bit ?u i \<noteq> bit (push_bit 1 ?u) i)" unfolding shx_def [of 1 ?u] by (simp only: bit_xor_iff)
  finally have "bit v i \<longleftrightarrow> (bit ?u i \<noteq> bit (push_bit 1 ?u) i)" .
  moreover have "bit (push_bit 1 ?u) (Suc i) \<longleftrightarrow> bit ?u i"
    using assms unfolding bit_push_bit_iff by simp
  ultimately show ?thesis unfolding prefix_xor_shift_inverse(1) by blast
qed

subsection \<open>Unmasking\<close>

definition unmask :: "'a::len word mw \<Rightarrow> 'a word" where
  "unmask x = mw_h x XOR xors (mw_l x)"

lemma map_nth_all: "length xs = n \<Longrightarrow> map ((!) xs) [0..<n] = xs"
  using map_nth [of xs] by simp

lemma xors_first: "0 < n \<Longrightarrow> xors (map (\<lambda>i. if i = 0 then c else 0) [0..<n]) = c"
proof -
  assume "0 < n"
  then have "[0..<n] = 0 # map Suc [0..<n - 1]" by (simp add: map_Suc_upt upt_conv_Cons)
  then show ?thesis by (simp add: comp_def)
qed

text \<open>The sum of the parties' broadcasts.\<close>

lemma xors_broadcasts:
  assumes "0 < n" "length yl = n" "length xl = n" "length t = n" "length lz = n"
  shows "xors (map (\<lambda>i. (xh AND yl ! i) XOR (yh AND xl ! i) XOR t ! i XOR lz ! i XOR (if i = 0 then c else 0)) [0..<n])
    = (xh AND xors yl) XOR (yh AND xors xl) XOR xors t XOR xors lz XOR c"
  using assms by (simp add: xors_map_xor xors_map_and_left map_nth_all xors_first)

subsection \<open>The prover's gates\<close>

definition tape_lams :: "bytes list \<Rightarrow> nat \<Rightarrow> u32 list" where
  "tape_lams tapes g = map (\<lambda>tape. tape_lam tape g) tapes"

definition tape_prods :: "bytes list \<Rightarrow> nat \<Rightarrow> u32 list" where
  "tape_prods tapes g = map (\<lambda>tape. tape_prod tape g) tapes"

definition and_corr :: "bytes list \<Rightarrow> nat \<Rightarrow> u32 mw \<Rightarrow> u32 mw \<Rightarrow> u32" where
  "and_corr tapes g x y = (xors (mw_l x) AND xors (mw_l y)) XOR xors (tape_prods tapes g)"

definition and_shares :: "bytes list \<Rightarrow> nat \<Rightarrow> u32 mw \<Rightarrow> u32 mw \<Rightarrow> u32 list" where
  "and_shares tapes g x y =
     map (\<lambda>i. (mw_h x AND mw_l y ! i) XOR (mw_h y AND mw_l x ! i) XOR tape_prods tapes g ! i XOR tape_lams tapes g ! i
              XOR (if i = 0 then (mw_h x AND mw_h y) XOR and_corr tapes g x y else 0)) [0..<length tapes]"

definition add_lc :: "bytes list \<Rightarrow> nat \<Rightarrow> u32 list" where
  "add_lc tapes g = map prefix_xor_shift (tape_lams tapes g)"

definition add_ch :: "bytes list \<Rightarrow> nat \<Rightarrow> u32 mw \<Rightarrow> u32 mw \<Rightarrow> u32" where
  "add_ch tapes g x y = carries (unmask x) (unmask y) XOR xors (add_lc tapes g)"

definition add_corr :: "bytes list \<Rightarrow> nat \<Rightarrow> u32 mw \<Rightarrow> u32 mw \<Rightarrow> u32" where
  "add_corr tapes g x y =
     (((xors (mw_l x) XOR xors (add_lc tapes g)) AND (xors (mw_l y) XOR xors (add_lc tapes g)))
      XOR xors (tape_prods tapes g)) AND 0x7FFFFFFF"

definition add_shares :: "bytes list \<Rightarrow> nat \<Rightarrow> u32 mw \<Rightarrow> u32 mw \<Rightarrow> u32 list" where
  "add_shares tapes g x y =
     (let ph = mw_h x XOR add_ch tapes g x y; qh = mw_h y XOR add_ch tapes g x y; lc = add_lc tapes g
      in map (\<lambda>i. (ph AND (mw_l y ! i XOR lc ! i)) XOR (qh AND (mw_l x ! i XOR lc ! i))
                  XOR tape_prods tapes g ! i XOR tape_lams tapes g ! i
                  XOR (if i = 0 then (ph AND qh) XOR add_corr tapes g x y else 0)) [0..<length tapes])"

text \<open>What a gate writes: the correction word, the broadcasts, the counter.\<close>

definition prover_step :: "u32 \<Rightarrow> u32 list \<Rightarrow> prover_state \<Rightarrow> prover_state" where
  "prover_step corr ss st = st\<lparr>ps_aux := (ps_aux st)[ps_gc st := corr],
     ps_s_all := map_option (put_column (ps_gc st) ss) (ps_s_all st), ps_gc := ps_gc st + 1\<rparr>"

lemma run_mpc_AND:
  "run_state (mpc_AND tapes x y) st =
     (\<lparr>mw_h = xors (and_shares tapes (ps_gc st) x y), mw_l = tape_lams tapes (ps_gc st)\<rparr>,
      prover_step (and_corr tapes (ps_gc st) x y) (and_shares tapes (ps_gc st) x y) st)"
  unfolding mpc_AND_def Let_def prover_step_def and_shares_def and_corr_def tape_lams_def tape_prods_def
  by simp

lemma run_mpc_ADD:
  "run_state (mpc_ADD tapes x y) st =
     (\<lparr>mw_h = mw_h x XOR mw_h y XOR add_ch tapes (ps_gc st) x y,
       mw_l = map (\<lambda>i. mw_l x ! i XOR mw_l y ! i XOR add_lc tapes (ps_gc st) ! i) [0..<length tapes]\<rparr>,
      prover_step (add_corr tapes (ps_gc st) x y) (add_shares tapes (ps_gc st) x y) st)"
  unfolding mpc_ADD_def Let_def prover_step_def add_shares_def add_corr_def add_ch_def add_lc_def
    tape_lams_def tape_prods_def unmask_def carries_def
  by simp

lemma length_tape_lams [simp]: "length (tape_lams tapes g) = length tapes"
  "length (tape_prods tapes g) = length tapes" "length (add_lc tapes g) = length tapes"
  "length (and_shares tapes g x y) = length tapes" "length (add_shares tapes g x y) = length tapes"
  by (simp_all add: tape_lams_def tape_prods_def add_lc_def and_shares_def add_shares_def Let_def)

lemma mpc_AND_unmask:
  assumes "tapes \<noteq> []" "length (mw_l x) = length tapes" "length (mw_l y) = length tapes"
  shows "unmask (fst (run_state (mpc_AND tapes x y) st)) = unmask x AND unmask y"
proof -
  let ?n = "length tapes" and ?g = "ps_gc st"
  have "xors (and_shares tapes ?g x y) = (mw_h x AND xors (mw_l y)) XOR (mw_h y AND xors (mw_l x))
      XOR xors (tape_prods tapes ?g) XOR xors (tape_lams tapes ?g) XOR ((mw_h x AND mw_h y) XOR and_corr tapes ?g x y)"
    unfolding and_shares_def using assms by (intro xors_broadcasts) auto
  then show ?thesis
    unfolding run_mpc_AND unmask_def and_corr_def fst_conv mw.simps
    by (simp add: bit_eq_iff bit_simps) blast
qed

lemma mpc_ADD_unmask:
  assumes "length (mw_l x) = length tapes" "length (mw_l y) = length tapes"
  shows "unmask (fst (run_state (mpc_ADD tapes x y) st)) = unmask x + unmask y"
proof -
  have "xors (map (\<lambda>i. mw_l x ! i XOR mw_l y ! i XOR add_lc tapes g ! i) [0..<length tapes])
      = xors (mw_l x) XOR xors (mw_l y) XOR xors (add_lc tapes g)" for g
    using assms by (simp add: xors_map_xor map_nth_all)
  then show ?thesis
    unfolding run_mpc_ADD unmask_def [of "fst _"] fst_conv mw.simps add_ch_def carries_def unmask_def
    by (simp add: ac_simps)
qed

subsection \<open>The verifier's gates\<close>

text \<open>The parties the verifier knows, and what it sees of a masked value.\<close>

definition others :: "nat \<Rightarrow> nat \<Rightarrow> nat list" where
  "others n e = map (\<lambda>j. orig j e) [0..<n - 1]"

definition pick :: "nat list \<Rightarrow> 'a list \<Rightarrow> 'a list" where
  "pick K xs = map ((!) xs) K"

definition restrict :: "nat list \<Rightarrow> 'a mw \<Rightarrow> 'a mw" where
  "restrict K x = \<lparr>mw_h = mw_h x, mw_l = pick K (mw_l x)\<rparr>"

lemma length_pick [simp]: "length (pick K xs) = length K"
  by (simp add: pick_def)

lemma length_others [simp]: "length (others n e) = n - 1"
  by (simp add: others_def)

lemma nth_pick [simp]: "j < length K \<Longrightarrow> pick K xs ! j = xs ! (K ! j)"
  by (simp add: pick_def)

lemma nth_others [simp]: "j < n - 1 \<Longrightarrow> others n e ! j = orig j e"
  by (simp add: others_def)

lemma others_less: "k \<in> set (others n e) \<Longrightarrow> k < n"
  by (auto simp: others_def orig_def)

lemma pick_others: "e < n \<Longrightarrow> length xs = n \<Longrightarrow> pick (others n e) xs = take e xs @ drop (Suc e) xs"
  by (rule nth_equalityI) (auto simp: orig_def nth_append min_def)

lemma xors_pick_others: "e < n \<Longrightarrow> length ws = n \<Longrightarrow> ws ! e XOR xors (pick (others n e) ws) = xors ws"
  using xors_remove [of e ws] by (simp add: pick_others)

lemma pick_map: "(\<And>k. k \<in> set K \<Longrightarrow> k < length xs) \<Longrightarrow> pick K (map f xs) = map f (pick K xs)"
  by (simp add: pick_def)

lemma pick_map_upt: "(\<And>k. k \<in> set K \<Longrightarrow> k < n) \<Longrightarrow> pick K (map f [0..<n]) = map f K"
  by (simp add: pick_def)

lemma map_others: "map f (others n e) = map (\<lambda>j. f (orig j e)) [0..<n - 1]"
  by (simp add: others_def comp_def)

lemma bit_and_1: "drop_bit b w AND 1 = (of_bool (bit w b) :: u32)"
  by (simp add: and_one_eq mod_2_eq_odd bit_iff_odd_drop_bit)

lemma of_bool_xor_word: "of_bool p XOR of_bool q = (of_bool (p \<noteq> q) :: u32)"
  by (cases p; cases q) simp_all

lemma of_bool_and_word: "of_bool p AND of_bool q = (of_bool (p \<and> q) :: u32)"
  by (cases p; cases q) simp_all

lemma bit_push_of_bool: "bit (push_bit k (of_bool p :: u32)) i \<longleftrightarrow> i = k \<and> i < 32 \<and> p"
  by (cases p) (auto simp: bit_simps)

text \<open>If the carries obey the recurrence the broadcasts encode, the loop recovers them.\<close>

lemma add_carry_loop:
  assumes ch0: "\<not> bit ch 0"
    and rec: "\<And>b. b < 31 \<Longrightarrow> bit ch (Suc b) \<longleftrightarrow> (bit ch b \<noteq>
       (bit me b \<noteq> ((bit (xh XOR ch) b \<and> bit Plq b) \<noteq> ((bit (yh XOR ch) b \<and> bit Plp b) \<noteq> (bit Pt b \<noteq> (bit Plr b \<noteq>
         (h0 \<and> ((bit (xh XOR ch) b \<and> bit (yh XOR ch) b) \<noteq> bit corr b))))))))"
  shows "fold (add_carry_bit xh yh Plp Plq Pt Plr corr me (of_bool h0)) [0..<31] 0 = ch"
proof -
  have "n \<le> 31 \<Longrightarrow> fold (add_carry_bit xh yh Plp Plq Pt Plr corr me (of_bool h0)) [0..<n] 0 = take_bit (Suc n) ch" for n
  proof (induction n)
    case 0
    show ?case using ch0 by (simp add: take_bit_Suc even_iff_mod_2_eq_zero bit_0 flip: mod_2_eq_odd)
  next
    case (Suc b)
    then have b: "b < 31" by simp
    have bit: "bit (xh XOR take_bit (Suc b) ch) b = bit (xh XOR ch) b"
      "bit (yh XOR take_bit (Suc b) ch) b = bit (yh XOR ch) b" "bit (take_bit (Suc b) ch) b = bit ch b"
      by (simp_all add: bit_xor_iff bit_take_bit_iff)
    have "fold (add_carry_bit xh yh Plp Plq Pt Plr corr me (of_bool h0)) [0..<Suc b] 0
        = add_carry_bit xh yh Plp Plq Pt Plr corr me (of_bool h0) b (take_bit (Suc b) ch)"
      using Suc by simp
    also have "\<dots> = take_bit (Suc b) ch OR push_bit (Suc b) (of_bool (bit ch (Suc b)))"
      unfolding add_carry_bit_def Let_def bit_and_1 of_bool_xor_word of_bool_and_word bit
      unfolding rec [OF b] by (simp only: Suc_eq_plus1)
    also have "\<dots> = take_bit (Suc (Suc b)) ch"
      by (rule bit_word_eqI, unfold bit_or_iff bit_take_bit_iff bit_push_of_bool) (use b in \<open>auto simp: less_Suc_eq\<close>)
    finally show ?case .
  qed
  moreover have "take_bit 32 ch = ch" by (rule bit_word_eqI) (simp add: bit_take_bit_iff)
  moreover have "Suc 31 = 32" by simp
  ultimately show ?thesis by (metis order_refl)
qed

text \<open>The recurrence of the prover's adder.\<close>

lemma bit_mask31: "b < 31 \<Longrightarrow> bit (w AND 0x7FFFFFFF :: u32) b = bit w b"
proof -
  have "(0x7FFFFFFF :: u32) = mask 31" by (simp add: mask_eq_exp_minus_1)
  then show "b < 31 \<Longrightarrow> ?thesis" by (simp only: bit_and_iff bit_mask_iff) simp
qed

lemma add_ch_0: "\<not> bit (add_ch tapes g x y) 0"
  unfolding add_ch_def add_lc_def additive_xors [OF additive_prefix_xor_shift, symmetric] bit_xor_iff
  using carries_0 prefix_xor_shift_0 by blast

lemma xors_add_shares:
  assumes "tapes \<noteq> []" "length (mw_l x) = length tapes" "length (mw_l y) = length tapes"
  shows "xors (add_shares tapes g x y) =
    ((mw_h x XOR add_ch tapes g x y) AND (xors (mw_l y) XOR xors (add_lc tapes g)))
    XOR ((mw_h y XOR add_ch tapes g x y) AND (xors (mw_l x) XOR xors (add_lc tapes g)))
    XOR xors (tape_prods tapes g) XOR xors (tape_lams tapes g)
    XOR ((mw_h x XOR add_ch tapes g x y) AND (mw_h y XOR add_ch tapes g x y)) XOR add_corr tapes g x y"
  using assms unfolding add_shares_def Let_def
  by (simp add: xors_map_xor xors_map_and_left map_nth_all xors_first ac_simps)

lemma bit_add_corr:
  "b < 31 \<Longrightarrow> bit (add_corr tapes g x y) b \<longleftrightarrow>
     (((bit (xors (mw_l x)) b \<noteq> bit (xors (add_lc tapes g)) b) \<and> (bit (xors (mw_l y)) b \<noteq> bit (xors (add_lc tapes g)) b))
      \<noteq> bit (xors (tape_prods tapes g)) b)"
  unfolding add_corr_def by (subst bit_mask31, assumption) (simp only: bit_xor_iff bit_and_iff)

lemma add_ch_Suc:
  assumes "tapes \<noteq> []" "length (mw_l x) = length tapes" "length (mw_l y) = length tapes" and b: "b < 31"
  shows "bit (add_ch tapes g x y) (Suc b) \<longleftrightarrow>
    (bit (add_ch tapes g x y) b \<noteq> bit (xors (add_shares tapes g x y)) b)"
proof -
  let ?LR = "xors (tape_lams tapes g)" and ?LC = "xors (add_lc tapes g)" and ?c = "carries (unmask x) (unmask y)"
  have LC: "?LC = prefix_xor_shift ?LR"
    unfolding add_lc_def by (rule additive_xors [OF additive_prefix_xor_shift, symmetric])
  have lc: "bit ?LC (Suc b) \<longleftrightarrow> (bit ?LC b \<noteq> bit ?LR b)"
    unfolding LC using b by (intro prefix_xor_shift_Suc) simp
  have c: "bit ?c (Suc b) \<longleftrightarrow>
      (bit ?c b \<noteq> ((bit (unmask x) b \<noteq> bit ?c b) \<and> (bit (unmask y) b \<noteq> bit ?c b)))"
    using b by (intro carries_Suc) simp
  show ?thesis
    unfolding xors_add_shares [OF assms(1-3)] add_ch_def bit_xor_iff bit_and_iff bit_add_corr [OF b] lc c
    unfolding unmask_def bit_xor_iff
    by argo
qed

text \<open>
  With the other parties' tapes, the correction word the prover wrote at the current gate
  and the hidden party's broadcast there, a verifier gate returns what the verifier sees
  of the prover's result and fills its column with the other parties' broadcasts.
\<close>

definition verifier_step :: "u32 list \<Rightarrow> verifier_state \<Rightarrow> verifier_state" where
  "verifier_step ss st = st\<lparr>vs_s_slots := put_column (vs_gc st) ss (vs_s_slots st), vs_gc := vs_gc st + 1\<rparr>"

lemma pick_tape_lams: "pick (others (length tapes) e) (tape_lams tapes g) = tape_lams (pick (others (length tapes) e) tapes) g"
  and pick_tape_prods: "pick (others (length tapes) e) (tape_prods tapes g) = tape_prods (pick (others (length tapes) e) tapes) g"
  unfolding tape_lams_def tape_prods_def by (rule pick_map, erule others_less)+

definition and_shares_v :: "verifier_env \<Rightarrow> nat \<Rightarrow> u32 mw \<Rightarrow> u32 mw \<Rightarrow> u32 list" where
  "and_shares_v env g x y =
     map (\<lambda>j. (mw_h x AND mw_l y ! j) XOR (mw_h y AND mw_l x ! j)
              XOR tape_prods (ve_tapes env) g ! j XOR tape_lams (ve_tapes env) g ! j
              XOR (if orig j (ve_e env) = 0 then (mw_h x AND mw_h y) XOR ve_aux env ! g else 0))
         [0..<length (ve_tapes env)]"

definition add_ch_v :: "verifier_env \<Rightarrow> nat \<Rightarrow> u32 mw \<Rightarrow> u32 mw \<Rightarrow> u32" where
  "add_ch_v env g x y =
     (let lc = add_lc (ve_tapes env) g; n = length (ve_tapes env)
      in fold (add_carry_bit (mw_h x) (mw_h y)
                (xors (map (\<lambda>j. mw_l x ! j XOR lc ! j) [0..<n])) (xors (map (\<lambda>j. mw_l y ! j XOR lc ! j) [0..<n]))
                (xors (tape_prods (ve_tapes env) g)) (xors (tape_lams (ve_tapes env) g))
                (ve_aux env ! g) (ve_msgs_e env ! g) (of_bool (ve_e env \<noteq> 0))) [0..<31] 0)"

definition add_shares_v :: "verifier_env \<Rightarrow> nat \<Rightarrow> u32 mw \<Rightarrow> u32 mw \<Rightarrow> u32 list" where
  "add_shares_v env g x y =
     (let ph = mw_h x XOR add_ch_v env g x y; qh = mw_h y XOR add_ch_v env g x y; lc = add_lc (ve_tapes env) g;
          lp = map (\<lambda>j. mw_l x ! j XOR lc ! j) [0..<length (ve_tapes env)];
          lq = map (\<lambda>j. mw_l y ! j XOR lc ! j) [0..<length (ve_tapes env)]
      in map (\<lambda>j. (ph AND lq ! j) XOR (qh AND lp ! j)
                  XOR tape_prods (ve_tapes env) g ! j XOR tape_lams (ve_tapes env) g ! j
                  XOR (if orig j (ve_e env) = 0 then (ph AND qh) XOR ve_aux env ! g else 0))
             [0..<length (ve_tapes env)])"

lemma run_mpc_AND_verify:
  "run_state (mpc_AND_verify env x y) st =
     (\<lparr>mw_h = ve_msgs_e env ! vs_gc st XOR xors (and_shares_v env (vs_gc st) x y),
       mw_l = tape_lams (ve_tapes env) (vs_gc st)\<rparr>,
      verifier_step (and_shares_v env (vs_gc st) x y) st)"
  unfolding mpc_AND_verify_def Let_def verifier_step_def and_shares_v_def tape_lams_def tape_prods_def
  by simp

lemma run_mpc_ADD_verify:
  "run_state (mpc_ADD_verify env x y) st =
     (\<lparr>mw_h = mw_h x XOR mw_h y XOR add_ch_v env (vs_gc st) x y,
       mw_l = map (\<lambda>j. mw_l x ! j XOR mw_l y ! j XOR add_lc (ve_tapes env) (vs_gc st) ! j) [0..<length (ve_tapes env)]\<rparr>,
      verifier_step (add_shares_v env (vs_gc st) x y) st)"
  unfolding mpc_ADD_verify_def Let_def verifier_step_def add_shares_v_def add_ch_v_def add_lc_def
    tape_lams_def tape_prods_def
  by (simp only: run_state_bind run_state_get run_state_set run_state_return prod.case)

lemma orig_zero: "orig j e = 0 \<longleftrightarrow> j = 0 \<and> e \<noteq> 0"
  by (auto simp: orig_def)

lemma sim_mpc_AND:
  fixes tapes e
  defines "K \<equiv> others (length tapes) e"
  assumes e: "e < length tapes"
    and env: "ve_tapes env = pick K tapes" "ve_e env = e" and g: "vs_gc vst = ps_gc st"
    and aux: "e \<noteq> 0 \<Longrightarrow> ve_aux env ! ps_gc st = and_corr tapes (ps_gc st) x y"
    and msgs: "ve_msgs_e env ! ps_gc st = and_shares tapes (ps_gc st) x y ! e"
  shows "run_state (mpc_AND_verify env (restrict K x) (restrict K y)) vst =
     (restrict K (fst (run_state (mpc_AND tapes x y) st)),
      verifier_step (pick K (and_shares tapes (ps_gc st) x y)) vst)"
proof -
  let ?g = "ps_gc st" and ?n = "length tapes"
  have ss: "and_shares_v env ?g (restrict K x) (restrict K y) = pick K (and_shares tapes ?g x y)"
    unfolding and_shares_def K_def
    by (subst pick_map_upt, erule others_less)
       (simp add: and_shares_v_def map_others env aux orig_zero restrict_def K_def pick_tape_lams [symmetric]
         pick_tape_prods [symmetric] cong: map_cong)
  show ?thesis
    unfolding run_mpc_AND run_mpc_AND_verify g ss msgs
    using xors_pick_others [OF e, of "and_shares tapes ?g x y"]
    by (simp add: restrict_def env K_def pick_tape_lams)
qed

lemma sim_mpc_ADD:
  fixes tapes e
  defines "K \<equiv> others (length tapes) e"
  assumes e: "e < length tapes" and x: "length (mw_l x) = length tapes" and y: "length (mw_l y) = length tapes"
    and env: "ve_tapes env = pick K tapes" "ve_e env = e" and g: "vs_gc vst = ps_gc st"
    and aux: "e \<noteq> 0 \<Longrightarrow> ve_aux env ! ps_gc st = add_corr tapes (ps_gc st) x y"
    and msgs: "ve_msgs_e env ! ps_gc st = add_shares tapes (ps_gc st) x y ! e"
  shows "run_state (mpc_ADD_verify env (restrict K x) (restrict K y)) vst =
     (restrict K (fst (run_state (mpc_ADD tapes x y) st)),
      verifier_step (pick K (add_shares tapes (ps_gc st) x y)) vst)"
proof -
  let ?g = "ps_gc st" and ?n = "length tapes"
  have tapes: "tapes \<noteq> []" using e by auto
  have lc: "add_lc (ve_tapes env) ?g = pick K (add_lc tapes ?g)"
    unfolding add_lc_def env K_def pick_tape_lams [symmetric] by (rule pick_map [symmetric]) (auto dest: others_less)
  have len: "length (ve_tapes env) = ?n - 1" by (simp add: env K_def)
  have tp: "tape_prods (pick K tapes) ?g = pick K (tape_prods tapes ?g)"
    and tl: "tape_lams (pick K tapes) ?g = pick K (tape_lams tapes ?g)"
    unfolding K_def by (simp_all add: pick_tape_lams pick_tape_prods)
  have lp: "xors (map (\<lambda>j. pick K (mw_l z) ! j XOR pick K (add_lc tapes ?g) ! j) [0..<?n - 1])
      = xors (pick K (mw_l z)) XOR xors (pick K (add_lc tapes ?g))" for z :: "u32 mw"
    by (simp add: xors_map_xor map_nth_all K_def)
  have part: "bit (xors (pick K ws)) b \<longleftrightarrow> (bit (ws ! e) b \<noteq> bit (xors ws) b)" if "length ws = ?n" for ws b
    using xors_pick_others [OF e that, folded K_def] by (metis bit_xor_iff)
  have bit_if: "bit (if q then w else (0 :: u32)) b \<longleftrightarrow> q \<and> bit w b" for q w b by simp
  have se: "add_shares tapes ?g x y ! e =
      ((mw_h x XOR add_ch tapes ?g x y) AND (mw_l y ! e XOR add_lc tapes ?g ! e))
      XOR ((mw_h y XOR add_ch tapes ?g x y) AND (mw_l x ! e XOR add_lc tapes ?g ! e))
      XOR tape_prods tapes ?g ! e XOR tape_lams tapes ?g ! e
      XOR (if e = 0 then ((mw_h x XOR add_ch tapes ?g x y) AND (mw_h y XOR add_ch tapes ?g x y)) XOR add_corr tapes ?g x y
           else 0)"
    using e unfolding add_shares_def Let_def by (subst nth_map) simp_all
  have ch: "add_ch_v env ?g (restrict K x) (restrict K y) = add_ch tapes ?g x y"
    unfolding add_ch_v_def Let_def lc len restrict_def mw.simps lp
  proof (rule add_carry_loop)
    fix b :: nat assume b: "b < 31"
    show "bit (add_ch tapes ?g x y) (Suc b) \<longleftrightarrow> (bit (add_ch tapes ?g x y) b \<noteq> (bit (ve_msgs_e env ! ?g) b \<noteq>
      ((bit (mw_h x XOR add_ch tapes ?g x y) b \<and> bit (xors (pick K (mw_l y)) XOR xors (pick K (add_lc tapes ?g))) b) \<noteq>
       ((bit (mw_h y XOR add_ch tapes ?g x y) b \<and> bit (xors (pick K (mw_l x)) XOR xors (pick K (add_lc tapes ?g))) b) \<noteq>
        (bit (xors (tape_prods (ve_tapes env) ?g)) b \<noteq> (bit (xors (tape_lams (ve_tapes env) ?g)) b \<noteq>
         (ve_e env \<noteq> 0 \<and> ((bit (mw_h x XOR add_ch tapes ?g x y) b \<and> bit (mw_h y XOR add_ch tapes ?g x y) b) \<noteq>
           bit (ve_aux env ! ?g) b))))))))"
      using aux
      unfolding add_ch_Suc [OF tapes x y b] msgs env tp tl xors_add_shares [OF tapes x y] se bit_xor_iff bit_and_iff bit_if
        part [OF x] part [OF y] part [OF length_tape_lams(1)] part [OF length_tape_lams(2)] part [OF length_tape_lams(3)]
      by (cases "e = 0") (simp_all only: not_False_eq_True not_True_eq_False simp_thms, argo+)
  qed (rule add_ch_0)
  have ss: "add_shares_v env ?g (restrict K x) (restrict K y) = pick K (add_shares tapes ?g x y)"
    unfolding add_shares_v_def Let_def ch lc len unfolding env tp tl
    unfolding add_shares_def Let_def K_def
    by (subst pick_map_upt, erule others_less)
       (simp add: map_others aux orig_zero restrict_def cong: map_cong)
  have nth: "pick K (mw_l x) ! j XOR pick K (mw_l y) ! j XOR pick K (add_lc tapes ?g) ! j =
      pick K (map (\<lambda>i. mw_l x ! i XOR mw_l y ! i XOR add_lc tapes ?g ! i) [0..<?n]) ! j" if "j < ?n - 1" for j
  proof -
    have "orig j e < ?n" using that unfolding orig_def by auto
    then show ?thesis using that by (simp add: K_def)
  qed
  have l: "map (\<lambda>j. pick K (mw_l x) ! j XOR pick K (mw_l y) ! j XOR pick K (add_lc tapes ?g) ! j) [0..<?n - 1] =
      pick K (map (\<lambda>i. mw_l x ! i XOR mw_l y ! i XOR add_lc tapes ?g ! i) [0..<?n])"
    by (rule nth_equalityI) (simp_all add: nth [unfolded K_def] K_def del: nth_pick nth_others)
  show ?thesis
    unfolding run_mpc_ADD run_mpc_ADD_verify g ss ch lc len fst_conv unfolding restrict_def mw.simps l ..
qed

end
