(* ===== verification/Mpc_Sim.thy ===== *)
theory Mpc_Sim
  imports Mpc_Gates Statement
begin

text \<open>
  Relating two evaluations of one circuit. A masked value of the first evaluation, with
  \<open>n\<close> shares, is related to one of the second when the second holds the shares of the
  parties \<open>K\<close> and its public part is the first's with the shares of the parties \<open>S\<close> added
  (or is unconstrained, for \<open>S = None\<close>). Three instances matter: all shares summed and none
  kept (the evaluation in the clear), nothing summed and all but the hidden party kept
  (the verifier), and all kept with the public part ignored (the independence of the
  correction words from the inputs). The locale \<open>circuit_sim\<close> is the contract of two sets
  of gates; each gadget is proved once inside it.
\<close>

subsection \<open>Related masked values\<close>

definition mrel :: "nat list option \<Rightarrow> nat \<Rightarrow> nat list \<Rightarrow> 'a::len word mw \<Rightarrow> 'a word mw \<Rightarrow> bool" where
  "mrel S n K x y \<longleftrightarrow> length (mw_l x) = n \<and> mw_l y = pick K (mw_l x) \<and>
     (case S of None \<Rightarrow> True | Some S \<Rightarrow> mw_h y = mw_h x XOR xors (pick S (mw_l x)))"

definition below :: "nat \<Rightarrow> nat list \<Rightarrow> bool" where
  "below n K \<longleftrightarrow> (\<forall>k\<in>set K. k < n)"

lemma pick_map_below: "below (length xs) K \<Longrightarrow> pick K (map f xs) = map f (pick K xs)"
  by (simp add: below_def pick_map)

definition parties_ok :: "nat list option \<Rightarrow> nat \<Rightarrow> nat list \<Rightarrow> bool" where
  "parties_ok S n K \<longleftrightarrow> below n K \<and> (case S of None \<Rightarrow> True | Some S \<Rightarrow> below n S)"

lemma pick_replicate: "below n K \<Longrightarrow> pick K (replicate n c) = replicate (length K) c"
  by (rule nth_equalityI) (auto simp: below_def)

lemma pick_map2: "below n K \<Longrightarrow> length xs = n \<Longrightarrow> length ys = n \<Longrightarrow> pick K (map2 f xs ys) = map2 f (pick K xs) (pick K ys)"
  by (rule nth_equalityI) (auto simp: below_def)

lemma xors_map2: "length xs = length ys \<Longrightarrow> xors (map2 (XOR) xs ys) = xors xs XOR xors ys"
  by (induction xs ys rule: list_induct2) (simp_all add: ac_simps)

lemma mrel_const: "parties_ok S n K \<Longrightarrow> mrel S n K (mw_const n c) (mw_const (length K) c)"
  by (auto simp: mrel_def mw_const_def parties_ok_def pick_replicate split: option.splits)

lemma mrel_consts:
  "parties_ok S n K \<Longrightarrow> list_all2 (mrel S n K) (mw_consts n cs) (mw_consts (length K) cs)"
  by (simp add: mw_consts_def list_all2_map1 list_all2_map2 list_all2_same mrel_const)

lemma mrel_XOR:
  "parties_ok S n K \<Longrightarrow> mrel S n K x x' \<Longrightarrow> mrel S n K y y' \<Longrightarrow> mrel S n K (mpc_XOR x y) (mpc_XOR x' y')"
  by (auto simp: mrel_def mpc_XOR_def parties_ok_def pick_map2 xors_map2 ac_simps split: option.splits)

lemma mrel_xor_pub: "mrel S n K x x' \<Longrightarrow> mrel S n K (mw_xor_pub c x) (mw_xor_pub c x')"
  by (auto simp: mrel_def mw_xor_pub_def ac_simps split: option.splits)

lemma mrel_map:
  assumes "additive f" "parties_ok S n K" "mrel S n K x x'"
  shows "mrel S n K (mw_map f x) (mw_map f x')"
  using assms
  by (auto simp: mrel_def mw_map_def parties_ok_def pick_map_below additive_xor additive_xors split: option.splits)

subsection \<open>Functions of buffers\<close>

text \<open>Functions of a list of \<open>m\<close> words that commute with exclusive or, to a word and to a list.\<close>

definition ladd :: "nat \<Rightarrow> ('a::len word list \<Rightarrow> 'b::len word) \<Rightarrow> bool" where
  "ladd m f \<longleftrightarrow> (\<forall>xs ys. length xs = m \<longrightarrow> length ys = m \<longrightarrow> f (xor_words xs ys) = f xs XOR f ys)"

definition badd :: "nat \<Rightarrow> nat \<Rightarrow> ('a::len word list \<Rightarrow> 'b::len word list) \<Rightarrow> bool" where
  "badd m r f \<longleftrightarrow> (\<forall>xs. length xs = m \<longrightarrow> length (f xs) = r) \<and>
     (\<forall>xs ys. length xs = m \<longrightarrow> length ys = m \<longrightarrow> f (xor_words xs ys) = xor_words (f xs) (f ys))"

lemma ladd_zero: "ladd m f \<Longrightarrow> f (replicate m 0) = 0"
proof -
  assume f: "ladd m f"
  have "xor_words (replicate m 0) (replicate m (0 :: 'a word)) = replicate m 0"
    by (rule nth_equalityI) simp_all
  with f show ?thesis unfolding ladd_def by (metis bit.xor_self length_replicate)
qed

lemma ladd_sum:
  assumes f: "ladd m f" and m: "length xs = m"
  shows "f (map (\<lambda>x. xors (pick S (mw_l x))) xs) = xors (map (\<lambda>p. f (share p xs)) S)"
proof (induction S)
  case Nil
  then show ?case using ladd_zero [OF f] m by (simp add: pick_def map_replicate_const)
next
  case (Cons p S)
  have "map (\<lambda>x. xors (pick (p # S) (mw_l x))) xs = xor_words (share p xs) (map (\<lambda>x. xors (pick S (mw_l x))) xs)"
    by (rule nth_equalityI) (simp_all add: pick_def share_def)
  then show ?case using f m Cons by (simp add: ladd_def share_def)
qed

lemma share_rel:
  assumes "list_all2 (mrel S n K) xs ys" "j < length K"
  shows "share j ys = share (K ! j) xs"
  using assms by (auto simp: share_def mrel_def list_all2_conv_all_nth intro!: nth_equalityI)

lemma mrel_word:
  assumes f: "ladd m f" and ok: "parties_ok S n K" and xs: "list_all2 (mrel S n K) xs ys" and m: "length xs = m"
  shows "mrel S n K (mw_word n f xs) (mw_word (length K) f ys)"
proof -
  have shares: "map (\<lambda>p. f (share p ys)) [0..<length K] = map (\<lambda>p. f (share p xs)) K"
    using share_rel [OF xs] by (intro nth_equalityI) auto
  have pub: "f (map mw_h ys) = f (map mw_h xs) XOR xors (map (\<lambda>p. f (share p xs)) T)" if S: "S = Some T" for T
  proof -
    have "map mw_h ys = xor_words (map mw_h xs) (map (\<lambda>x. xors (pick T (mw_l x))) xs)"
      using xs by (auto simp: list_all2_conv_all_nth mrel_def S intro!: nth_equalityI)
    then show ?thesis using f m ladd_sum [OF f m, of T] by (simp add: ladd_def)
  qed
  have pick: "pick L (map (\<lambda>p. f (share p xs)) [0..<n]) = map (\<lambda>p. f (share p xs)) L" if "below n L" for L
    using that by (intro pick_map_upt) (auto simp: below_def)
  show ?thesis
    using ok pub by (auto simp: mrel_def mw_word_def mw_apply_def shares parties_ok_def pick split: option.splits)
qed

lemma badd_ladd: "badd m r f \<Longrightarrow> k < r \<Longrightarrow> ladd m (\<lambda>xs. f xs ! k)"
  by (simp add: badd_def ladd_def)

lemma mw_buf_eq:
  "length (f (map mw_h xs)) = r \<Longrightarrow> mw_buf n f xs = map (\<lambda>k. mw_word n (\<lambda>bs. f bs ! k) xs) [0..<r]"
  by (simp add: mw_buf_def mw_rows_def mw_apply_def mw_word_def comp_def)

lemma mrel_buf:
  assumes f: "badd m r f" and ok: "parties_ok S n K" and xs: "list_all2 (mrel S n K) xs ys" and m: "length xs = m"
  shows "list_all2 (mrel S n K) (mw_buf n f xs) (mw_buf (length K) f ys)"
proof -
  have "length ys = m" using xs m by (simp add: list_all2_lengthD)
  then have "length (f (map mw_h xs)) = r" "length (f (map mw_h ys)) = r"
    using f m by (simp_all add: badd_def)
  then show ?thesis
    using mrel_word [OF badd_ladd [OF f] ok xs m]
    by (simp add: mw_buf_eq list_all2_conv_all_nth)
qed

subsection \<open>The linear operations of the circuit\<close>

lemma laddI: "(\<And>xs ys. length xs = m \<Longrightarrow> length ys = m \<Longrightarrow> f (xor_words xs ys) = f xs XOR f ys) \<Longrightarrow> ladd m f"
  by (simp add: ladd_def)

lemma load_le_xor:
  "length xs = length ys \<Longrightarrow> load_le (xor_words xs ys) = load_le xs XOR (load_le ys :: 'a::len word)"
  by (rule bit_word_eqI) (auto simp: bit_load_le bit_xor_iff)

lemma segment_xor: "segment off len (xor_words xs ys) = xor_words (segment off len xs) (segment off len ys)"
  by (simp add: segment_def xor_words_def take_map drop_map take_zip drop_zip)

lemma load_le_segment_xor:
  "length xs = length ys \<Longrightarrow>
     load_le (segment off len (xor_words xs ys)) = load_le (segment off len xs) XOR (load_le (segment off len ys) :: 'a::len word)"
  unfolding segment_xor by (rule load_le_xor) (simp add: segment_def)

lemma xor_words_rev: "length xs = length ys \<Longrightarrow> rev (xor_words xs ys) = xor_words (rev xs) (rev ys)"
  by (simp add: xor_words_def rev_map zip_rev)

lemma ladd_load_be: "ladd m (load_be :: bytes \<Rightarrow> u32)"
  by (rule laddI) (simp add: load_be_def xor_words_rev load_le_xor)

lemma ladd_additive: "ladd m f \<Longrightarrow> additive g \<Longrightarrow> ladd m (\<lambda>xs. g (f xs))"
  by (simp add: ladd_def additive_def)

lemma ladd_nth: "k < m \<Longrightarrow> ladd m (\<lambda>xs. xs ! k)"
  by (simp add: ladd_def)

lemma ladd_xor: "ladd m f \<Longrightarrow> ladd m g \<Longrightarrow> ladd m (\<lambda>xs. f xs XOR g xs)"
  by (simp add: ladd_def ac_simps)

lemma badd_node_words: "badd 16 4 node_words"
proof -
  have "xmss_node_load_word (xor_words xs ys) w = xmss_node_load_word xs w XOR xmss_node_load_word ys w"
    if "length xs = 16" "length ys = 16" for xs ys w
    using that by (simp add: xmss_node_load_word_def load_le_segment_xor)
  then show ?thesis
    by (auto simp: badd_def node_words_def XMSS_NODE_WORDS_def XMSS_NODE_BYTES_def intro!: nth_equalityI)
qed

lemma badd_gf128_load: "badd 16 4 gf128_load"
  by (auto simp: badd_def gf128_load_def load_le_segment_xor intro!: nth_equalityI)

lemma bytes_le_xor: "bytes_le n (v XOR w) = xor_words (bytes_le n v) (bytes_le n w)"
  by (rule nth_equalityI) (simp_all add: nth_bytes_le drop_bit_xor unsigned_xor_eq)

lemma xor_words_append:
  "length a = length b \<Longrightarrow> xor_words (a @ c) (b @ d) = xor_words a b @ xor_words c d"
  by (simp add: xor_words_def)

lemma concat_bytes_xor:
  "concat (map (\<lambda>i. bytes_le 4 (f i XOR g i)) is) =
     xor_words (concat (map (\<lambda>i. bytes_le 4 (f i)) is)) (concat (map (\<lambda>i. bytes_le 4 (g i)) is))"
  by (induction "is") (simp_all add: xor_words_append bytes_le_xor, simp add: xor_words_def)

lemma badd_gf128_store: "badd 4 16 gf128_store"
proof -
  have "gf128_store (xor_words xs ys) = xor_words (gf128_store xs) (gf128_store ys)"
    if "length xs = 4" "length ys = 4" for xs ys
  proof -
    have "map (\<lambda>i. bytes_le 4 (xor_words xs ys ! i)) [0..<4] = map (\<lambda>i. bytes_le 4 (xs ! i XOR ys ! i)) [0..<4]"
      using that by (intro map_cong) auto
    then show ?thesis by (simp only: gf128_store_def concat_bytes_xor)
  qed
  then show ?thesis by (simp add: badd_def)
qed

lemma node_of_words_concat: "node_of_words ws = concat (map (\<lambda>i. bytes_le 4 (ws ! i)) [0..<4])"
proof -
  have "n \<le> 4 \<Longrightarrow> fold (\<lambda>w node. xmss_node_store_word node w (ws ! w)) [0..<n] (replicate 16 0) =
      concat (map (\<lambda>i. bytes_le 4 (ws ! i)) [0..<n]) @ replicate (16 - 4 * n) 0" for n
  proof (induction n)
    case (Suc n)
    let ?acc = "concat (map (\<lambda>i. bytes_le 4 (ws ! i)) [0..<n])"
    have "length ?acc = 4 * n" by (subst length_concat_const [where w = 4]) auto
    moreover have "16 - 4 * n = 4 + (16 - 4 * Suc n)" using Suc.prems by simp
    ultimately show ?case using Suc by (simp add: xmss_node_store_word_def)
  qed simp
  from this [of 4] show ?thesis by (simp add: node_of_words_def XMSS_NODE_WORDS_def XMSS_NODE_BYTES_def)
qed

lemma badd_node_of_words: "badd 4 16 node_of_words"
  using badd_gf128_store by (simp add: badd_def node_of_words_concat gf128_store_def)

lemma badd_gf128_reduce: "badd 8 4 gf128_reduce"
  by (simp add: badd_def gf128_reduce_xor length_gf128_reduce)

lemma additive_comp: "additive f \<Longrightarrow> additive g \<Longrightarrow> additive (\<lambda>x. f (g x))"
  by (simp add: additive_def)

lemma additive_neg_bit [additive_intros]: "additive (\<lambda>w :: u32. 0 - (drop_bit k w AND 1))"
proof (rule additiveI)
  have neg: "(0 - of_bool p) XOR (0 - of_bool q) = (0 - of_bool (p \<noteq> q) :: u32)" for p q
    by (cases p; cases q) simp_all
  fix x y :: u32
  show "0 - (drop_bit k (x XOR y) AND 1) = (0 - (drop_bit k x AND 1)) XOR (0 - (drop_bit k y AND 1))"
    unfolding bit_and_1 neg bit_xor_iff ..
qed

lemma additive_mask_from_bit [additive_intros]: "additive (\<lambda>s :: u32. 0 - (s AND 1))"
  using additive_neg_bit [of 0] by (simp only: drop_bit_0 id_apply)

lemma additive_RIGHTROTATE: "n \<le> 32 \<Longrightarrow> additive (\<lambda>w. RIGHTROTATE w n)"
proof (rule additiveI, rule bit_word_eqI)
  fix x y :: u32 and i assume n: "n \<le> 32" and i: "i < LENGTH(32)"
  have rot: "bit (RIGHTROTATE w n) i \<longleftrightarrow> (if i < 32 - n then bit w (n + i) else bit w (i - (32 - n)))" for w
    using n i bit_imp_le_length [of w "n + i"]
    unfolding RIGHTROTATE_def bit_or_iff bit_drop_bit_eq bit_push_bit_iff comp_def by auto
  show "bit (RIGHTROTATE (x XOR y) n) i = bit (RIGHTROTATE x n XOR RIGHTROTATE y n) i"
    unfolding bit_xor_iff rot by simp
qed

lemma additive_pool_parity [additive_intros]: "additive pool_parity"
  unfolding pool_parity_def Let_def by (intro additive_intros)

lemma additive_put_idx: "k < 4 \<Longrightarrow> additive (\<lambda>x. put_idx_le (shr32 x l) ! k)"
proof -
  assume k: "k < 4"
  have "additive (\<lambda>x. shr32 x l)"
    unfolding shr32_def by (cases "l \<ge> 32") (simp_all add: additive_intros)
  then have "additive (\<lambda>x. ucast (drop_bit (8 * k) (shr32 x l) AND 0xFF) :: byte)"
    by (intro additive_ucast additive_and additive_drop_bit)
  then show ?thesis using k by (simp add: put_idx_le_def)
qed

lemma mh_bit_of_bool: "mh_bit h j = of_bool (bit (h ! (j div 8)) (j mod 8))"
proof -
  have "(drop_bit (j mod 8) (h ! (j div 8)) AND 1 :: byte) = of_bool (bit (h ! (j div 8)) (j mod 8))"
    by (simp add: and_one_eq mod_2_eq_odd bit_iff_odd_drop_bit)
  then show ?thesis unfolding mh_bit_def by (cases "bit (h ! (j div 8)) (j mod 8)") simp_all
qed

lemma ladd_mh_bit: "j div 8 < m \<Longrightarrow> ladd m (\<lambda>h. mh_bit h j)"
  by (rule laddI) (auto simp: mh_bit_of_bool bit_xor_iff)

lemma three_bits_xor:
  "((0 OR push_bit 0 (of_bool p AND 1)) OR push_bit 1 (of_bool q AND 1)) OR push_bit 2 (of_bool r AND 1) =
     (of_bool p XOR push_bit 1 (of_bool q) XOR push_bit 2 (of_bool r) :: u32)"
  by (cases p; cases q; cases r) simp_all

lemma mh_coord_xor:
  "mh_coord h ci = mh_bit h (xmss_coord_bit_pos ci) XOR push_bit 1 (mh_bit h (xmss_coord_bit_pos ci + 1))
     XOR push_bit 2 (mh_bit h (xmss_coord_bit_pos ci + 2))"
proof -
  have upt: "[0..<3] = [0, 1, 2 :: nat]" by (simp add: upt_rec)
  show ?thesis
    unfolding mh_coord_def XMSS_COORD_RES_BITS_def upt mh_bit_of_bool fold_simps three_bits_xor add_0_right ..
qed

lemma ladd_mh_coord: "xmss_coord_bit_pos ci + 2 < 8 * m \<Longrightarrow> ladd m (\<lambda>h. mh_coord h ci)"
  unfolding mh_coord_xor
  by (intro ladd_xor ladd_additive [OF ladd_mh_bit additive_push_bit [OF additive_id]] ladd_mh_bit) auto

lemma mh_leftover_xor: "mh_leftover h = mh_bit h 63 XOR push_bit 1 (mh_bit h 127)"
proof -
  have "of_bool p OR push_bit 1 (of_bool q) = (of_bool p XOR push_bit 1 (of_bool q) :: u32)" for p q
    by (cases p; cases q) simp_all
  then show ?thesis by (simp only: mh_leftover_def mh_bit_of_bool XMSS_MSG_HASH_LEN_def) simp
qed

lemma ladd_mh_leftover: "ladd 32 mh_leftover"
proof -
  have "ladd 32 (\<lambda>h. mh_bit h 63 XOR push_bit 1 (mh_bit h 127))"
    by (intro ladd_xor ladd_additive [OF ladd_mh_bit additive_push_bit [OF additive_id]] ladd_mh_bit) simp_all
  then show ?thesis by (simp only: mh_leftover_xor [abs_def])
qed

lemma xor_at_xor:
  "length a = length b \<Longrightarrow> xor_at (xor_words a b) k (v XOR w) = xor_words (xor_at a k v) (xor_at b k w)"
  by (cases "k < length b") (auto simp: xor_at_def nth_list_update ac_simps intro!: nth_equalityI)

lemma badd_shift_xor: "badd 9 8 (\<lambda>bs. gf128_word_shift_xor (take 8 bs) (bs ! 8) pos)"
proof -
  have u: "(ucast (push_bit r (ucast (x XOR y) :: u64)) :: u32) =
      ucast (push_bit r (ucast x :: u64)) XOR ucast (push_bit r (ucast y :: u64))"
    "(ucast (drop_bit 32 (push_bit r (ucast (x XOR y) :: u64))) :: u32) =
      ucast (drop_bit 32 (push_bit r (ucast x :: u64))) XOR ucast (drop_bit 32 (push_bit r (ucast y :: u64)))"
    for x y :: u32 and r
    by (simp_all only: unsigned_xor_eq push_bit_xor drop_bit_xor)
  have "gf128_word_shift_xor (take 8 (xor_words xs ys)) (xor_words xs ys ! 8) pos =
      xor_words (gf128_word_shift_xor (take 8 xs) (xs ! 8) pos) (gf128_word_shift_xor (take 8 ys) (ys ! 8) pos)"
    if "length xs = 9" "length ys = 9" for xs ys
  proof -
    have t: "take 8 (xor_words xs ys) = xor_words (take 8 xs) (take 8 ys)" by (simp add: xor_words_def take_map take_zip)
    have n: "xor_words xs ys ! 8 = xs ! 8 XOR ys ! 8" using that by simp
    show ?thesis unfolding gf128_word_shift_xor_def Let_def t n u using that by (auto simp: xor_at_xor)
  qed
  then show ?thesis by (simp add: badd_def)
qed

lemma circ_shift_xor_eq:
  assumes "length acc = 8" "length (mw_l z) = n"
  shows "circ_shift_xor acc z pos = mw_buf n (\<lambda>bs. gf128_word_shift_xor (take 8 bs) (bs ! 8) pos) (acc @ [z])"
  using assms by (simp add: circ_shift_xor_def mw_buf_def mw_apply_def share_def nth_append)

text \<open>A word of the framed message is linear in the buffers up to the public length prefix.\<close>

definition th_word_lin :: "nat \<Rightarrow> nat \<Rightarrow> nat \<Rightarrow> bytes \<Rightarrow> u32" where
  "th_word_lin dl n off bs =
     blake3_th_mpc_word (Some (take dl bs)) dl (Some (drop dl bs)) n off True"

definition th_word_pub :: "nat \<Rightarrow> nat \<Rightarrow> u32" where
  "th_word_pub dl off =
     load_le (map (\<lambda>b. if off + b < 4 then ucast (drop_bit (8 * (off + b)) (of_nat dl :: u32)) else 0) [0..<4])"

lemma xor_words_map: "map f xs = xor_words (map g xs) (map h xs)" if "\<And>x. x \<in> set xs \<Longrightarrow> f x = g x XOR h x"
  using that by (induction xs) (simp_all add: xor_words_def)

lemma ladd_th_word: "ladd (dl + n) (th_word_lin dl n off)"
proof (rule laddI)
  fix xs ys :: bytes assume len: "length xs = dl + n" "length ys = dl + n"
  have t: "take dl (xor_words xs ys) = xor_words (take dl xs) (take dl ys)"
    "drop dl (xor_words xs ys) = xor_words (drop dl xs) (drop dl ys)"
    by (simp_all add: xor_words_def take_map take_zip drop_map drop_zip)
  show "th_word_lin dl n off (xor_words xs ys) = th_word_lin dl n off xs XOR th_word_lin dl n off ys"
    unfolding th_word_lin_def blake3_th_mpc_word_def t
    by (subst load_le_xor [symmetric], simp, rule arg_cong [where f = load_le], rule xor_words_map)
       (use len in \<open>auto simp: Let_def BLAKE3_TH_FRAME_LEN_def\<close>)
qed

lemma th_word_affine:
  assumes "length d = dl" "length data = n"
  shows "blake3_th_mpc_word (Some d) dl (Some data) n off False = th_word_lin dl n off (d @ data) XOR th_word_pub dl off"
  unfolding th_word_lin_def th_word_pub_def blake3_th_mpc_word_def
  by (subst load_le_xor [symmetric], simp, rule arg_cong [where f = load_le], rule xor_words_map)
     (use assms in \<open>auto simp: Let_def BLAKE3_TH_FRAME_LEN_def\<close>)

lemma circ_th_word_eq:
  "circ_th_word n dm data off =
     mw_xor_pub (th_word_pub (length dm) off) (mw_word n (th_word_lin (length dm) (length data) off) (dm @ data))"
  by (simp add: circ_th_word_def th_word_affine mw_xor_pub_def mw_word_def mw_apply_def)
     (simp add: th_word_lin_def share_def)

lemma mrel_th_word:
  assumes ok: "parties_ok S n K" and "list_all2 (mrel S n K) dm dm'" "list_all2 (mrel S n K) data data'"
  shows "mrel S n K (circ_th_word n dm data off) (circ_th_word (length K) dm' data' off)"
proof -
  have "length dm' = length dm" "length data' = length data" using assms by (simp_all add: list_all2_lengthD)
  moreover have "list_all2 (mrel S n K) (dm @ data) (dm' @ data')" using assms by (simp add: list_all2_appendI)
  ultimately show ?thesis
    unfolding circ_th_word_eq by (auto intro!: mrel_xor_pub mrel_word ok ladd_th_word)
qed

end
