(* ===== verification/Circuit_Sim.thy ===== *)
theory Circuit_Sim
  imports Mpc_Sim
begin

text \<open>
  The locale of two related sets of gates and, inside it, the simulation of every gadget
  up to the whole statement. The first evaluation may be judged backwards from its final
  state: \<open>G\<close> is a property of a state that every earlier state inherits (for the verifier,
  that the arrays it was given agree with what the prover has written so far), \<open>J\<close> a
  property of states every gate preserves, \<open>I\<close> the relation of the two states.
\<close>

subsection \<open>Simulation of computations\<close>

named_theorems safe_intros \<open>computations built from gates keep \<open>J\<close> and reflect \<open>G\<close>\<close>
named_theorems sim_intros \<open>simulation of the gadgets\<close>

definition safe :: "('s \<Rightarrow> bool) \<Rightarrow> ('s \<Rightarrow> bool) \<Rightarrow> ('s, 'a) state \<Rightarrow> bool" where
  "safe J G m \<longleftrightarrow>
     (\<forall>s. J s \<longrightarrow> J (snd (run_state m s)) \<and> (G (snd (run_state m s)) \<longrightarrow> G s))"

definition sim ::
  "('s \<Rightarrow> bool) \<Rightarrow> ('s \<Rightarrow> bool) \<Rightarrow> ('s \<Rightarrow> 't \<Rightarrow> bool) \<Rightarrow> ('a \<Rightarrow> 'b \<Rightarrow> bool) \<Rightarrow> ('s, 'a) state \<Rightarrow> ('t, 'b) state \<Rightarrow> bool" where
  "sim J G I Q m m' \<longleftrightarrow>
     (\<forall>s t. J s \<longrightarrow> I s t \<longrightarrow> G (snd (run_state m s)) \<longrightarrow>
        Q (fst (run_state m s)) (fst (run_state m' t)) \<and> I (snd (run_state m s)) (snd (run_state m' t)))"

lemma safe_return [safe_intros]: "safe J G (State_Monad.return x)"
  by (simp add: safe_def)

lemma safe_bind [safe_intros]:
  "safe J G m \<Longrightarrow> (\<And>z. safe J G (f z)) \<Longrightarrow> safe J G (State_Monad.bind m f)"
  unfolding safe_def run_state_bind by (metis (no_types, lifting) prod.case_eq_if)

lemma safe_for_each [safe_intros]: "(\<And>i acc. safe J G (f i acc)) \<Longrightarrow> safe J G (for_each f is acc)"
  by (induction "is" arbitrary: acc) (simp_all add: safe_intros)

lemma safe_traverse [safe_intros]: "(\<And>i. safe J G (f i)) \<Longrightarrow> safe J G (State_Monad.traverse_list f is)"
  by (induction "is") (simp_all add: safe_intros)

lemma sim_return: "Q x x' \<Longrightarrow> sim J G I Q (State_Monad.return x) (State_Monad.return x')"
  by (simp add: sim_def)

lemma sim_bind:
  assumes "sim J G I Q m m'" "safe J G m" "\<And>z. safe J G (f z)" "\<And>z z'. Q z z' \<Longrightarrow> sim J G I R (f z) (f' z')"
  shows "sim J G I R (State_Monad.bind m f) (State_Monad.bind m' f')"
  unfolding sim_def
proof (intro allI impI)
  fix s t
  assume J: "J s" and I: "I s t" and G: "G (snd (run_state (State_Monad.bind m f) s))"
  obtain z s1 where m: "run_state m s = (z, s1)" by fastforce
  obtain z' t1 where m': "run_state m' t = (z', t1)" by fastforce
  have G2: "G (snd (run_state (f z) s1))" using G by (simp add: m)
  have J1: "J s1" using assms(2) J m unfolding safe_def by (metis snd_conv)
  have G1: "G s1" using assms(3) [of z] J1 G2 unfolding safe_def by blast
  have "Q z z' \<and> I s1 t1" using assms(1) J I G1 m m' unfolding sim_def by (metis fst_conv snd_conv)
  then have "R (fst (run_state (f z) s1)) (fst (run_state (f' z') t1)) \<and>
      I (snd (run_state (f z) s1)) (snd (run_state (f' z') t1))"
    using assms(4) [of z z'] J1 G2 unfolding sim_def by blast
  then show "R (fst (run_state (State_Monad.bind m f) s)) (fst (run_state (State_Monad.bind m' f') t)) \<and>
      I (snd (run_state (State_Monad.bind m f) s)) (snd (run_state (State_Monad.bind m' f') t))"
    by (simp add: m m')
qed

lemma sim_for_each:
  assumes "\<And>i acc acc'. i \<in> set is \<Longrightarrow> Q acc acc' \<Longrightarrow> sim J G I Q (f i acc) (f' i acc')"
    and "\<And>i acc. safe J G (f i acc)" and "Q acc acc'"
  shows "sim J G I Q (for_each f is acc) (for_each f' is acc')"
  using assms
proof (induction "is" arbitrary: acc acc')
  case Nil
  then show ?case by (simp add: sim_return)
next
  case (Cons i "is")
  then show ?case unfolding for_each.simps by (intro sim_bind [where Q = Q] safe_for_each) simp_all
qed

lemma sim_traverse:
  assumes "\<And>i. i \<in> set is \<Longrightarrow> sim J G I R (f i) (f' i)" and "\<And>i. safe J G (f i)"
  shows "sim J G I (\<lambda>xs ys. list_all2 R xs ys \<and> length xs = length is)
           (State_Monad.traverse_list f is) (State_Monad.traverse_list f' is)"
  using assms(1)
proof (induction "is")
  case Nil
  then show ?case by (simp add: sim_return)
next
  case (Cons i "is")
  then have "sim J G I R (f i) (f' i)"
    "sim J G I (\<lambda>xs ys. list_all2 R xs ys \<and> length xs = length is)
       (State_Monad.traverse_list f is) (State_Monad.traverse_list f' is)" by simp_all
  then show ?case
    using assms(2)
    by (auto intro!: sim_bind [where Q = R] sim_bind [where Q = "\<lambda>xs ys. list_all2 R xs ys \<and> length xs = length is"]
        sim_return safe_intros)
qed

lemma sim_mono: "sim J G I Q m m' \<Longrightarrow> (\<And>z z'. Q z z' \<Longrightarrow> R z z') \<Longrightarrow> sim J G I R m m'"
  by (auto simp: sim_def)

text \<open>Related buffers of a fixed length.\<close>

definition lrel :: "nat list option \<Rightarrow> nat \<Rightarrow> nat list \<Rightarrow> nat \<Rightarrow> 'a::len word mw list \<Rightarrow> 'a word mw list \<Rightarrow> bool" where
  "lrel S n K m xs ys \<longleftrightarrow> list_all2 (mrel S n K) xs ys \<and> length xs = m"

lemma lrel_nth: "lrel S n K m xs ys \<Longrightarrow> i < m \<Longrightarrow> mrel S n K (xs ! i) (ys ! i)"
  by (simp add: lrel_def list_all2_conv_all_nth)

lemma lrel_update: "lrel S n K m xs ys \<Longrightarrow> mrel S n K x y \<Longrightarrow> lrel S n K m (xs[i := x]) (ys[i := y])"
  by (simp add: lrel_def list_all2_update_cong)

lemma lrel_append: "lrel S n K m xs ys \<Longrightarrow> lrel S n K m' xs' ys' \<Longrightarrow> lrel S n K (m + m') (xs @ xs') (ys @ ys')"
  by (simp add: lrel_def list_all2_appendI)

lemma lrel_map_upt: "(\<And>i. i < m \<Longrightarrow> mrel S n K (f i) (g i)) \<Longrightarrow> lrel S n K m (map f [0..<m]) (map g [0..<m])"
  by (simp add: lrel_def list_all2_conv_all_nth)

lemma lrel_segment: "lrel S n K m xs ys \<Longrightarrow> off + len \<le> m \<Longrightarrow> lrel S n K len (segment off len xs) (segment off len ys)"
  by (simp add: lrel_def segment_def)

lemma lrel_consts: "parties_ok S n K \<Longrightarrow> length cs = m \<Longrightarrow> lrel S n K m (mw_consts n cs) (mw_consts (length K) cs)"
  by (simp add: lrel_def mrel_consts) (simp add: mw_consts_def)

text \<open>Public constants, equal on both sides unless the public parts are unrelated.\<close>

definition pub :: "nat list option \<Rightarrow> nat \<Rightarrow> 'a list \<Rightarrow> 'a list \<Rightarrow> bool" where
  "pub S m cs ds \<longleftrightarrow> length cs = m \<and> length ds = m \<and> (S = None \<or> cs = ds)"

lemma pub_refl: "length cs = m \<Longrightarrow> pub S m cs cs"
  by (simp add: pub_def)

lemma pub_append: "pub S m cs ds \<Longrightarrow> length es = k \<Longrightarrow> pub S (m + k) (cs @ es) (ds @ es)"
  by (auto simp: pub_def)

lemma lrel_pub:
  assumes "parties_ok S n K" "pub S m cs ds"
  shows "lrel S n K m (mw_consts n cs) (mw_consts (length K) ds)"
proof -
  have "mrel S n K (mw_const n c) (mw_const (length K) d)" if "S = None \<or> c = d" for c d :: "'a::len word"
    using that assms(1) by (cases S) (auto simp: mrel_def mw_const_def parties_ok_def pick_replicate)
  then show ?thesis
    using assms(2) by (auto simp: lrel_def pub_def mw_consts_def list_all2_conv_all_nth)
qed

lemma lrel_buf:
  "badd m r f \<Longrightarrow> parties_ok S n K \<Longrightarrow> lrel S n K m xs ys \<Longrightarrow> lrel S n K r (mw_buf n f xs) (mw_buf (length K) f ys)"
  using mrel_buf [of m r f S n K xs ys] by (auto simp: lrel_def mw_buf_eq [of f _ r] badd_def)

lemma lrel_word:
  "ladd m f \<Longrightarrow> parties_ok S n K \<Longrightarrow> lrel S n K m xs ys \<Longrightarrow> mrel S n K (mw_word n f xs) (mw_word (length K) f ys)"
  by (auto simp: lrel_def mrel_word)

lemma sim_traverse_words:
  assumes "\<And>i. i < m \<Longrightarrow> sim J G I (mrel S n K) (f i) (f' i)" and "\<And>i. safe J G (f i)"
  shows "sim J G I (lrel S n K m) (State_Monad.traverse_list f [0..<m]) (State_Monad.traverse_list f' [0..<m])"
  using sim_traverse [of "[0..<m]" J G I "mrel S n K" f f'] assms unfolding lrel_def by simp

lemma lrel_lengths: "lrel S n K m xs ys \<Longrightarrow> length xs = m" "lrel S n K m xs ys \<Longrightarrow> length ys = m"
  by (auto simp: lrel_def list_all2_lengthD)

lemma safe_prod [safe_intros]: "(\<And>a b. safe J G (f a b)) \<Longrightarrow> safe J G (case z of (a, b) \<Rightarrow> f a b)"
  by (simp split: prod.split)

lemma safe_if [safe_intros]: "safe J G a \<Longrightarrow> safe J G b \<Longrightarrow> safe J G (if c then a else b)"
  by simp

text \<open>Matrices of nodes: a list of buffers of a fixed length.\<close>

definition nrel :: "nat list option \<Rightarrow> nat \<Rightarrow> nat list \<Rightarrow> nat \<Rightarrow> nat \<Rightarrow> 'a::len word mw list list \<Rightarrow> 'a word mw list list \<Rightarrow> bool" where
  "nrel S n K r m xs ys \<longleftrightarrow> list_all2 (lrel S n K m) xs ys \<and> length xs = r"

lemma nrel_nth: "nrel S n K r m xs ys \<Longrightarrow> i < r \<Longrightarrow> lrel S n K m (xs ! i) (ys ! i)"
  by (simp add: nrel_def list_all2_conv_all_nth)

lemma nrel_update: "nrel S n K r m xs ys \<Longrightarrow> lrel S n K m x y \<Longrightarrow> nrel S n K r m (xs[i := x]) (ys[i := y])"
  by (simp add: nrel_def list_all2_update_cong)

lemma nrel_map_upt: "(\<And>i. i < r \<Longrightarrow> lrel S n K m (f i) (g i)) \<Longrightarrow> nrel S n K r m (map f [0..<r]) (map g [0..<r])"
  by (simp add: nrel_def list_all2_conv_all_nth)

lemma nrel_concat: "nrel S n K r m xs ys \<Longrightarrow> lrel S n K (r * m) (concat xs) (concat ys)"
proof (induction r arbitrary: xs ys)
  case 0
  then show ?case by (auto simp: nrel_def lrel_def)
next
  case (Suc r)
  then obtain x xs' y ys' where eq: "xs = x # xs'" "ys = y # ys'"
    and rel: "lrel S n K m x y" "nrel S n K r m xs' ys'"
    by (auto simp: nrel_def length_Suc_conv list_all2_Cons1)
  show ?case using lrel_append [OF rel(1) Suc.IH [OF rel(2)]] by (simp add: eq)
qed

lemma nrel_map: "nrel S n K r m xs ys \<Longrightarrow> (\<And>x y. lrel S n K m x y \<Longrightarrow> lrel S n K m' (f x) (g y)) \<Longrightarrow> nrel S n K r m' (map f xs) (map g ys)"
  by (auto simp: nrel_def list_all2_map1 list_all2_map2 elim: list_all2_mono)

lemma fold_rel: "Q a b \<Longrightarrow> (\<And>i x y. i \<in> set is \<Longrightarrow> Q x y \<Longrightarrow> Q (f i x) (g i y)) \<Longrightarrow> Q (fold f is a) (fold g is b)"
  by (induction "is" arbitrary: a b) auto

definition pool_rel :: "nat list option \<Rightarrow> nat \<Rightarrow> nat list \<Rightarrow> pool_state \<Rightarrow> pool_state \<Rightarrow> bool" where
  "pool_rel S n K = (\<lambda>(nodes, positions, check) (nodes', positions', check').
     nrel S n K XMSS_WOTS_LEN 4 nodes nodes' \<and> lrel S n K pool_groups positions positions' \<and> mrel S n K check check')"

subsection \<open>The contract of two sets of gates\<close>

locale circuit_sim =
  fixes S :: "nat list option" and n :: nat and K :: "nat list"
    and A :: "'s gates" and B :: "'t gates"
    and J :: "'s \<Rightarrow> bool" and G :: "'s \<Rightarrow> bool" and I :: "'s \<Rightarrow> 't \<Rightarrow> bool"
  assumes ok: "parties_ok S n K" and np [simp]: "g_np A = n" "g_np B = length K"
    and safe_and [safe_intros]: "safe J G (g_and A x y)" and safe_add [safe_intros]: "safe J G (g_add A x y)"
    and sim_and: "mrel S n K x x' \<Longrightarrow> mrel S n K y y' \<Longrightarrow> sim J G I (mrel S n K) (g_and A x y) (g_and B x' y')"
    and sim_add: "mrel S n K x x' \<Longrightarrow> mrel S n K y y' \<Longrightarrow> sim J G I (mrel S n K) (g_add A x y) (g_add B x' y')"
begin

text \<open>The BLAKE3 gadget.\<close>

lemma safe_b3_g [safe_intros]: "safe J G (circ_b3_g A a b c d x y v)"
  unfolding circ_b3_g_def circ_add3_def circ_add_def by (intro safe_intros)

lemma sim_add3:
  assumes "lrel S n K m v v'" "a < m" "b < m" "mrel S n K x x'"
  shows "sim J G I (lrel S n K m) (circ_add3 A a b x v) (circ_add3 B a b x' v')"
  unfolding circ_add3_def
  by (intro sim_bind [OF sim_add] sim_return lrel_update safe_intros)
     (use assms in \<open>auto intro: lrel_nth lrel_update\<close>)

lemma sim_circ_add:
  assumes "lrel S n K m v v'" "c < m" "d < m"
  shows "sim J G I (lrel S n K m) (circ_add A c d v) (circ_add B c d v')"
  unfolding circ_add_def
  by (intro sim_bind [OF sim_add] sim_return lrel_update safe_intros)
     (use assms in \<open>auto intro: lrel_nth lrel_update\<close>)

lemma rel_rot:
  assumes "lrel S n K m v v'" "d < m" "a < m" "k \<le> 32"
  shows "lrel S n K m (circ_rot d a k v) (circ_rot d a k v')"
  unfolding circ_rot_def mpc_RIGHTROTATE_def
  using assms by (intro lrel_update mrel_map additive_RIGHTROTATE mrel_XOR ok lrel_nth)

lemma sim_b3_g:
  assumes v: "lrel S n K m v v'" and i: "a < m" "b < m" "c < m" "d < m" and x: "mrel S n K x x'" and y: "mrel S n K y y'"
  shows "sim J G I (lrel S n K m) (circ_b3_g A a b c d x y v) (circ_b3_g B a b c d x' y' v')"
  unfolding circ_b3_g_def
  by (intro sim_bind [where Q = "lrel S n K m"] sim_add3 sim_circ_add sim_return rel_rot safe_intros v i x y)
     (simp_all add: circ_add3_def circ_add_def safe_intros)

lemma safe_b3_round [safe_intros]: "safe J G (circ_b3_round A m s v)"
  unfolding circ_b3_round_def by (intro safe_intros)

lemma sim_b3_round:
  assumes "lrel S n K 16 v v'" and m: "\<And>i. i < 16 \<Longrightarrow> mrel S n K (m ! (s ! i)) (m' ! (s ! i))"
  shows "sim J G I (lrel S n K 16) (circ_b3_round A m s v) (circ_b3_round B m' s v')"
  unfolding circ_b3_round_def
  by (intro sim_bind [where Q = "lrel S n K 16"] sim_b3_g assms m safe_intros) simp_all

lemma safe_b3_rounds [safe_intros]: "safe J G (circ_b3_rounds A r m s v)"
  by (induction r arbitrary: s v) (simp_all add: safe_intros)

lemma sim_b3_rounds:
  assumes "lrel S n K 16 v v'" and m: "lrel S n K 16 m m'" and s: "length s = 16" "\<And>i. i < 16 \<Longrightarrow> s ! i < 16"
  shows "sim J G I (lrel S n K 16) (circ_b3_rounds A r m s v) (circ_b3_rounds B r m' s v')"
  using assms(1) s
proof (induction r arbitrary: s v v')
  case 0
  then show ?case by (simp add: sim_return)
next
  case (Suc r)
  have perm: "B3_PERM ! i < 16" if "i < 16" for i
  proof -
    have "\<forall>i\<in>set [0..<16]. B3_PERM ! i < 16" by code_simp
    then show ?thesis using that by simp
  qed
  show ?case
    unfolding circ_b3_rounds.simps
    by (intro sim_bind [where Q = "lrel S n K 16"] sim_b3_round safe_intros Suc.IH)
       (use Suc.prems m perm in \<open>auto simp del: upt_Suc intro: lrel_nth\<close>)
qed

lemma safe_compress [safe_intros]: "safe J G (circ_blake3_compress A cv m bl fl)"
  unfolding circ_blake3_compress_def Let_def by (intro safe_intros)

lemma sim_compress:
  assumes cv: "lrel S n K 8 cv cv'" and m: "lrel S n K 16 m m'"
  shows "sim J G I (lrel S n K 8) (circ_blake3_compress A cv m bl fl) (circ_blake3_compress B cv' m' bl fl)"
proof -
  have init: "lrel S n K 16 (map (\<lambda>i. cv ! i) [0..<8] @ mw_consts n (B3_IV4 @ [0, 0, bl, fl]))
      (map (\<lambda>i. cv' ! i) [0..<8] @ mw_consts (length K) (B3_IV4 @ [0, 0, bl, fl]))"
    using lrel_append [OF lrel_map_upt [of 8] lrel_consts [OF ok, of "B3_IV4 @ [0, 0, bl, fl]" 8]] lrel_nth [OF cv]
    by (simp add: B3_IV4_def)
  show ?thesis
    unfolding circ_blake3_compress_def Let_def np
    by (intro sim_bind [where Q = "lrel S n K 16"] sim_b3_rounds init m sim_return lrel_map_upt safe_intros)
       (auto intro!: mrel_XOR ok lrel_nth)
qed

lemma safe_th_block [safe_intros]: "safe J G (circ_th_block A dm data b cv)"
  unfolding circ_th_block_def Let_def by (intro safe_intros)

lemma sim_th_block:
  assumes "lrel S n K dl dm dm'" "lrel S n K l data data'" "lrel S n K 8 cv cv'"
  shows "sim J G I (lrel S n K 8) (circ_th_block A dm data b cv) (circ_th_block B dm' data' b cv')"
  using assms lrel_lengths [OF assms(1)] lrel_lengths [OF assms(2)]
  unfolding circ_th_block_def Let_def np
  by (auto intro!: sim_compress lrel_map_upt mrel_th_word ok simp: lrel_def)

lemma safe_blake3_th [safe_intros]: "safe J G (circ_blake3_th A dm data k)"
  unfolding circ_blake3_th_def Let_def by (intro safe_intros)

lemma sim_blake3_th:
  assumes "lrel S n K dl dm dm'" "lrel S n K l data data'"
  shows "sim J G I (rel_option (lrel S n K k)) (circ_blake3_th A dm data k) (circ_blake3_th B dm' data' k)"
proof -
  have cv0: "lrel S n K 8 (mw_consts n blake3_th_context_key) (mw_consts (length K) blake3_th_context_key)"
    by (rule lrel_consts [OF ok]) (simp add: blake3_th_context_key_def)
  have valid: "blake3_th_mpc_valid_sizes dl l k \<Longrightarrow> k \<le> 32"
    by (simp add: blake3_th_mpc_valid_sizes_def BLAKE3_OUT_LEN_def)
  have out: "mrel S n K (z ! (i div 4)) (z' ! (i div 4))" if "lrel S n K 8 z z'" "k \<le> 32" "i < k" for z z' i
    using that by (intro lrel_nth [OF that(1)]) linarith
  show ?thesis
    unfolding circ_blake3_th_def Let_def lrel_lengths [OF assms(1)] lrel_lengths [OF assms(2)] np
    by (cases "blake3_th_mpc_valid_sizes dl l k")
       (auto intro!: sim_bind [where Q = "lrel S n K 8"] sim_for_each [where Q = "lrel S n K 8"] sim_th_block assms cv0
          sim_return lrel_map_upt mrel_map ok additive_ucast additive_drop_bit additive_id safe_intros
          dest!: valid intro: out)
qed

lemma safe_th [safe_intros]: "safe J G (circ_th A dm data k)"
  unfolding circ_th_def by (intro safe_intros)

lemma sim_th:
  assumes "lrel S n K dl dm dm'" "lrel S n K l data data'" and valid: "blake3_th_mpc_valid_sizes dl l k"
  shows "sim J G I (lrel S n K k) (circ_th A dm data k) (circ_th B dm' data' k)"
proof -
  have some: "fst (run_state (circ_blake3_th A dm data k) s) \<noteq> None" for s
    using valid lrel_lengths [OF assms(1)] lrel_lengths [OF assms(2)]
    by (simp add: circ_blake3_th_def Let_def split: prod.split)
  have "sim J G I (\<lambda>r r'. rel_option (lrel S n K k) r r' \<and> r \<noteq> None) (circ_blake3_th A dm data k) (circ_blake3_th B dm' data' k)"
    using sim_blake3_th [OF assms(1,2), of k] some unfolding sim_def by blast
  then show ?thesis
    unfolding circ_th_def
    by (rule sim_bind) (auto intro!: sim_return safe_intros simp: option_rel_Some1)
qed

text \<open>The field multiplication.\<close>

lemma rel_bitmask: "mrel S n K x x' \<Longrightarrow> mrel S n K (circ_bitmask k x) (circ_bitmask k x')"
  unfolding circ_bitmask_def by (intro mrel_map additive_neg_bit ok)

lemma rel_shift_xor:
  assumes acc: "lrel S n K 8 acc acc'" and z: "mrel S n K z z'"
  shows "lrel S n K 8 (circ_shift_xor acc z p) (circ_shift_xor acc' z' p)"
proof -
  have zz: "lrel S n K 1 [z] [z']" using z by (simp add: lrel_def)
  have "length (mw_l z) = n" "length (mw_l z') = length K" using z by (simp_all add: mrel_def)
  then show ?thesis
    using lrel_buf [OF badd_shift_xor ok lrel_append [OF acc zz, simplified]] lrel_lengths [OF acc]
    by (simp add: circ_shift_xor_eq)
qed

lemma safe_gf128_mul [safe_intros]: "safe J G (circ_gf128_mul A X Y)"
  unfolding circ_gf128_mul_def circ_gf128_mul_bit_def Let_def by (intro safe_intros)

lemma sim_gf128_mul:
  assumes X: "lrel S n K 4 X X'" and Y: "lrel S n K 4 Y Y'"
  shows "sim J G I (lrel S n K 4) (circ_gf128_mul A X Y) (circ_gf128_mul B X' Y')"
proof -
  have bit: "sim J G I (lrel S n K 8) (circ_gf128_mul_bit A X Y j acc) (circ_gf128_mul_bit B X' Y' j acc')"
    if "j < 128" "lrel S n K 8 acc acc'" for j acc acc'
    unfolding circ_gf128_mul_bit_def Let_def
    using that X Y
    by (intro sim_for_each [where Q = "lrel S n K 8"] sim_bind [OF sim_and] sim_return rel_shift_xor rel_bitmask safe_intros)
       (auto intro: lrel_nth)
  show ?thesis
    unfolding circ_gf128_mul_def np
    by (intro sim_bind [where Q = "lrel S n K 8"] sim_for_each [where Q = "lrel S n K 8"] bit sim_return
        lrel_buf [OF badd_gf128_reduce ok] lrel_consts [OF ok] safe_intros)
       (auto simp: circ_gf128_mul_bit_def Let_def intro!: safe_intros)
qed

text \<open>The pooled chains.\<close>

lemma rel_pool_bitmask: "mrel S n K x x' \<Longrightarrow> mrel S n K (pool_bitmask k x) (pool_bitmask k x')"
  unfolding pool_bitmask_def by (intro mrel_map additive_neg_bit ok)

lemma rel_ucast: "mrel S n K x x' \<Longrightarrow> mrel S n K (mw_map ucast x) (mw_map ucast x')"
  by (intro mrel_map additive_ucast additive_id ok)

lemma rel_const: "mrel S n K (mw_const n c) (mw_const (length K) c)"
  by (rule mrel_const [OF ok])

lemma safe_or_into [safe_intros]: "safe J G (pool_or_into A x y)"
  unfolding pool_or_into_def by (intro safe_intros)

lemma sim_or_into:
  "mrel S n K x x' \<Longrightarrow> mrel S n K y y' \<Longrightarrow> sim J G I (mrel S n K) (pool_or_into A x y) (pool_or_into B x' y')"
  unfolding pool_or_into_def by (intro sim_bind [OF sim_and] sim_return mrel_XOR ok safe_intros)

lemma safe_onehot [safe_intros]: "safe J G (pool_onehot A idx g)"
  unfolding pool_onehot_def Let_def by (intro safe_intros)

lemma sim_onehot:
  assumes "mrel S n K idx idx'"
  shows "sim J G I (mrel S n K) (pool_onehot A idx g) (pool_onehot B idx' g)"
  unfolding pool_onehot_def Let_def np
  by (rule sim_for_each)
     (auto intro!: sim_return sim_and mrel_xor_pub rel_pool_bitmask assms rel_const safe_intros)

lemma rel_nodes0: "lrel S n K W_END d d' \<Longrightarrow> nrel S n K XMSS_WOTS_LEN 4 (pool_nodes n d) (pool_nodes (length K) d')"
  unfolding pool_nodes_def
  by (intro nrel_map_upt lrel_buf [OF badd_node_words ok] lrel_segment [where m = W_END, folded XMSS_NODE_BYTES_def])
     (auto simp: w_layout xmss_sizes hm_sizes intro: lrel_segment)

lemma coord_pos_less: "ci < 42 \<Longrightarrow> b < 3 \<Longrightarrow> xmss_coord_bit_pos ci + b < 127"
  by (auto simp: xmss_coord_bit_pos_def XMSS_DIGITS_PER_WORD_def XMSS_WOTS_LEN_def XMSS_COORD_RES_BITS_def)

lemma rel_positions0:
  assumes "lrel S n K 32 mh mh'"
  shows "lrel S n K pool_groups (pool_positions n mh) (pool_positions (length K) mh')"
  unfolding pool_positions_def Let_def
proof (rule fold_rel [where Q = "lrel S n K pool_groups"], rule lrel_consts [OF ok], simp, rule fold_rel [where Q = "lrel S n K pool_groups"], assumption)
  fix ci b and x y :: "u32 mw list"
  assume "ci \<in> set [0..<XMSS_WOTS_LEN]" "b \<in> set [0..<XMSS_COORD_RES_BITS]" and xy: "lrel S n K pool_groups x y"
  then have ci: "ci < 42" and b: "b < 3" by (simp_all add: XMSS_WOTS_LEN_def XMSS_COORD_RES_BITS_def)
  let ?p = "xmss_coord_bit_pos ci + b"
  have "?p div 8 < 32" using coord_pos_less [OF ci b] by simp
  then have bit: "ladd 32 (\<lambda>h. push_bit (8 * (ci mod 4) + b) (mh_bit h ?p))"
    by (intro ladd_additive [OF ladd_mh_bit additive_push_bit [OF additive_id]])
  have "ci div 4 < pool_groups" using ci by (simp add: pool_groups_def XMSS_WOTS_LEN_def)
  then show "lrel S n K pool_groups
     (x[ci div 4 := mpc_XOR (x ! (ci div 4)) (mw_word n (\<lambda>h. push_bit (8 * (ci mod 4) + b) (mh_bit h ?p)) mh)])
     (y[ci div 4 := mpc_XOR (y ! (ci div 4)) (mw_word (length K) (\<lambda>h. push_bit (8 * (ci mod 4) + b) (mh_bit h ?p)) mh')])"
    using xy by (intro lrel_update mrel_XOR ok lrel_word [OF bit ok assms]) (auto intro: lrel_nth)
qed

lemma rel_invalid: "mrel S n K a a' \<Longrightarrow> mrel S n K b b' \<Longrightarrow> mrel S n K (pool_invalid a b) (pool_invalid a' b')"
  unfolding pool_invalid_def by (intro mrel_xor_pub mrel_map additive_pool_parity mrel_XOR ok)

lemma rel_masks:
  "mrel S n K a a' \<Longrightarrow> mrel S n K b b' \<Longrightarrow> lrel S n K XMSS_WOTS_LEN (pool_masks a b) (pool_masks a' b')"
  unfolding pool_masks_def by (intro lrel_map_upt rel_pool_bitmask) simp

lemma safe_select [safe_intros]: "safe J G (pool_select A masks nodes w)"
  unfolding pool_select_def by (intro safe_intros)

lemma sim_select:
  assumes "lrel S n K XMSS_WOTS_LEN masks masks'" "nrel S n K XMSS_WOTS_LEN 4 nodes nodes'" "w < 4"
  shows "sim J G I (mrel S n K) (pool_select A masks nodes w) (pool_select B masks' nodes' w)"
  unfolding pool_select_def np
  using assms
  by (intro sim_for_each [where Q = "mrel S n K"] sim_bind [OF sim_and] sim_return mrel_XOR ok rel_const safe_intros)
     (auto intro: lrel_nth lrel_nth [OF nrel_nth])

lemma lanes: "lane \<in> set (pool_lanes g) \<Longrightarrow> 4 * g + lane < XMSS_WOTS_LEN"
  by (simp add: pool_lanes_def)

lemma rel_increment:
  assumes "lrel S n K XMSS_WOTS_LEN masks masks'"
  shows "mrel S n K (pool_increment n masks g) (pool_increment (length K) masks' g)"
  unfolding pool_increment_def
  by (rule fold_rel [where Q = "mrel S n K"], rule rel_const,
      intro mrel_XOR ok mrel_map additive_push_bit additive_and additive_id lrel_nth [OF assms])
     (auto dest: lanes)

lemma rel_group_mask:
  assumes "lrel S n K XMSS_WOTS_LEN masks masks'"
  shows "mrel S n K (pool_group_mask n masks g) (pool_group_mask (length K) masks' g)"
  unfolding pool_group_mask_def
  by (rule fold_rel [where Q = "mrel S n K"], rule rel_const, intro mrel_XOR ok lrel_nth [OF assms])
     (auto dest: lanes)

lemma safe_advance [safe_intros]: "safe J G (pool_advance A masks g z)"
  unfolding pool_advance_def by (intro safe_intros)

lemma sim_advance:
  assumes "lrel S n K XMSS_WOTS_LEN masks masks'" "g < pool_groups"
    and "rel_prod (lrel S n K pool_groups) (mrel S n K) z z'"
  shows "sim J G I (rel_prod (lrel S n K pool_groups) (mrel S n K)) (pool_advance A masks g z) (pool_advance B masks' g z')"
proof -
  obtain ps p ps' p' where z: "z = (ps, p)" "z' = (ps', p')" by fastforce
  have rel: "lrel S n K pool_groups ps ps'" "mrel S n K p p'" using assms(3) by (simp_all add: z)
  show ?thesis
    unfolding pool_advance_def z prod.case np
    using rel assms(1,2)
    by (intro sim_bind [OF sim_add] sim_bind [OF sim_and] sim_return rel_increment rel_group_mask safe_intros)
       (auto intro: lrel_nth intro!: lrel_update mrel_XOR ok)
qed

lemma safe_lane_select [safe_intros]: "safe J G (pool_lane_select A idx position)"
  unfolding pool_lane_select_def Let_def by (intro safe_intros)

lemma sim_lane_select:
  assumes "mrel S n K idx idx'" "mrel S n K position position'"
  shows "sim J G I (mrel S n K) (pool_lane_select A idx position) (pool_lane_select B idx' position')"
  unfolding pool_lane_select_def Let_def
  using assms
  by (intro sim_for_each [where Q = "mrel S n K"] sim_bind [OF sim_and] sim_return mrel_XOR ok rel_pool_bitmask
      mrel_map additive_xor_fun additive_drop_bit additive_id safe_intros)

lemma rel_byte: "mrel S n K x x' \<Longrightarrow> lrel S n K 1 [x] [x']"
  by (simp add: lrel_def)

lemma th_sizes: "dl \<le> 28 \<Longrightarrow> l \<le> 900 \<Longrightarrow> k \<le> 32 \<Longrightarrow> blake3_th_mpc_valid_sizes dl l k"
  by (simp add: blake3_th_mpc_valid_sizes_def BLAKE3_TH_MAX_DOMAIN_def BLAKE3_CHUNK_LEN_def BLAKE3_TH_FRAME_LEN_def
      BLAKE3_OUT_LEN_def)

lemma rel_leafidx: "lrel S n K W_END d d' \<Longrightarrow> lrel S n K 4 (circ_leafidx d) (circ_leafidx d')"
  unfolding circ_leafidx_def XMSS_EPOCH_BYTES_def
  by (erule lrel_segment) (simp add: w_layout xmss_sizes hm_sizes)

lemma safe_pool_hash [safe_intros]: "safe J G (pool_hash A d pk idx position selected)"
  unfolding pool_hash_def Let_def by (intro safe_intros)

lemma sim_pool_hash:
  assumes d: "lrel S n K W_END d d'" and pk: "pub S 16 pk pk'"
    and idx: "mrel S n K idx idx'" and pos: "mrel S n K position position'" and sel: "lrel S n K 4 selected selected'"
  shows "sim J G I (lrel S n K 16) (pool_hash A d pk idx position selected) (pool_hash B d' pk' idx' position' selected')"
proof -
  have tw: "lrel S n K 22 (mw_consts n pk @ circ_leafidx d @ [mw_map ucast idx] @ [mw_map ucast position])
      (mw_consts (length K) pk' @ circ_leafidx d' @ [mw_map ucast idx'] @ [mw_map ucast position'])"
    using lrel_append [OF lrel_pub [OF ok pk] lrel_append [OF rel_leafidx [OF d]
        lrel_append [OF rel_byte [OF rel_ucast [OF idx]] rel_byte [OF rel_ucast [OF pos]]]]] by simp
  have dm: "lrel S n K 17 (mw_buf n node_of_words selected @ mw_consts n [XMSS_TWEAK_CHAIN])
      (mw_buf (length K) node_of_words selected' @ mw_consts (length K) [XMSS_TWEAK_CHAIN])"
    using lrel_append [OF lrel_buf [OF badd_node_of_words ok sel] lrel_consts [OF ok, of "[XMSS_TWEAK_CHAIN]" 1]] by simp
  show ?thesis
    using sim_th [OF dm tw th_sizes, of 16]
    by (simp add: pool_hash_def Let_def XMSS_NODE_BYTES_def circ_leafidx_def)
qed

lemma safe_writeback [safe_intros]: "safe J G (pool_writeback A masks selected hw w nodes)"
  unfolding pool_writeback_def by (intro safe_intros)

lemma sim_writeback:
  assumes "lrel S n K XMSS_WOTS_LEN masks masks'" "lrel S n K 4 selected selected'" "lrel S n K 4 hw hw'" "w < 4"
    and "nrel S n K XMSS_WOTS_LEN 4 nodes nodes'"
  shows "sim J G I (nrel S n K XMSS_WOTS_LEN 4) (pool_writeback A masks selected hw w nodes)
     (pool_writeback B masks' selected' hw' w nodes')"
  unfolding pool_writeback_def
  using assms
  by (intro sim_for_each [where Q = "nrel S n K XMSS_WOTS_LEN 4"] sim_bind [OF sim_and] sim_return nrel_update
      lrel_update mrel_XOR ok safe_intros)
     (auto intro: lrel_nth nrel_nth lrel_nth [OF nrel_nth])


lemma safe_decode [safe_intros]: "safe J G (pool_decode A idx check)"
  unfolding pool_decode_def Let_def by (intro safe_intros)

lemma sim_decode:
  assumes idx: "mrel S n K idx idx'" and check: "mrel S n K check check'"
  shows "sim J G I (rel_prod (lrel S n K XMSS_WOTS_LEN) (mrel S n K)) (pool_decode A idx check) (pool_decode B idx' check')"
  unfolding pool_decode_def Let_def
  by (intro sim_bind [OF sim_onehot [OF idx]] sim_bind [OF sim_or_into] sim_return safe_intros rel_invalid check)
     (auto intro!: rel_masks mrel_map additive_and additive_id ok)

lemma safe_position [safe_intros]: "safe J G (pool_position A idx masks positions)"
  unfolding pool_position_def by (intro safe_intros)

lemma sim_position:
  assumes idx: "mrel S n K idx idx'" and masks: "lrel S n K XMSS_WOTS_LEN masks masks'" and ps: "lrel S n K pool_groups ps ps'"
  shows "sim J G I (rel_prod (lrel S n K pool_groups) (mrel S n K)) (pool_position A idx masks ps) (pool_position B idx' masks' ps')"
proof -
  let ?R = "rel_prod (lrel S n K pool_groups) (mrel S n K)"
  have init: "?R (ps, mw_const n 0) (ps', mw_const (length K) 0)" using ps by (simp add: rel_const)
  have loop: "sim J G I ?R (for_each (pool_advance A masks) [0..<pool_groups] (ps, mw_const n 0))
      (for_each (pool_advance B masks') [0..<pool_groups] (ps', mw_const (length K) 0))"
    by (rule sim_for_each [where Q = ?R]) (use masks init in \<open>auto intro: sim_advance safe_intros\<close>)
  show ?thesis
    unfolding pool_position_def np
    by (rule sim_bind [OF loop]) (auto intro!: sim_bind [OF sim_lane_select] sim_return safe_intros idx)
qed

lemma safe_pool_step [safe_intros]: "safe J G (pool_step A d pk step z)"
  unfolding pool_step_def Let_def by (intro safe_intros)

lemma sim_pool_step:
  assumes d: "lrel S n K W_END d d'" and pk: "pub S 16 pk pk'" and step: "step < W_SCHEDULE_LEN" and z: "pool_rel S n K z z'"
  shows "sim J G I (pool_rel S n K) (pool_step A d pk step z) (pool_step B d' pk' step z')"
proof -
  obtain nodes ps check nodes' ps' check' where zz: "z = (nodes, ps, check)" "z' = (nodes', ps', check')"
    by (metis prod_cases3)
  have nodes: "nrel S n K XMSS_WOTS_LEN 4 nodes nodes'" and ps: "lrel S n K pool_groups ps ps'" and check: "mrel S n K check check'"
    using z by (simp_all add: zz pool_rel_def)
  have idx: "mrel S n K (mw_map ucast (d ! (W_SCHEDULE_OFF + step))) (mw_map ucast (d' ! (W_SCHEDULE_OFF + step)))"
    by (intro rel_ucast lrel_nth [OF d]) (use step in \<open>simp add: W_END_def\<close>)
  have words: "XMSS_NODE_WORDS = 4" by (simp add: xmss_sizes)
  have sel: "sim J G I (lrel S n K 4) (State_Monad.traverse_list (pool_select A masks nodes) [0..<4])
      (State_Monad.traverse_list (pool_select B masks' nodes') [0..<4])"
    if "lrel S n K XMSS_WOTS_LEN masks masks'" for masks masks'
    by (rule sim_traverse_words) (auto intro: sim_select that nodes safe_intros)
  have wb: "sim J G I (nrel S n K XMSS_WOTS_LEN 4) (for_each (pool_writeback A masks s (mw_buf n node_words h)) [0..<4] nodes)
      (for_each (pool_writeback B masks' s' (mw_buf (length K) node_words h')) [0..<4] nodes')"
    if "lrel S n K XMSS_WOTS_LEN masks masks'" "lrel S n K 4 s s'" "lrel S n K 16 h h'" for masks masks' s s' h h'
    by (rule sim_for_each) (auto intro!: sim_writeback that nodes lrel_buf [OF badd_node_words ok] safe_intros)
  show ?thesis
    unfolding pool_step_def zz prod.case Let_def np words
    by (rule sim_bind [OF sim_decode [OF idx check]])
       (auto intro!: sim_bind [OF sel] sim_bind [OF sim_position [OF idx]] sim_bind [OF sim_pool_hash [OF d pk idx]]
          sim_bind [OF wb] sim_return safe_intros ps simp: pool_rel_def XMSS_NODE_BYTES_def)
qed

lemma safe_final [safe_intros]: "safe J G (pool_final A positions check)"
  unfolding pool_final_def Let_def by (intro safe_intros)

lemma sim_final:
  assumes "lrel S n K pool_groups ps ps'" "mrel S n K check check'"
  shows "sim J G I (mrel S n K) (pool_final A ps check) (pool_final B ps' check')"
  unfolding pool_final_def Let_def
  using assms
  by (intro sim_for_each [where Q = "mrel S n K"] sim_or_into mrel_xor_pub safe_intros) (auto intro: lrel_nth)

lemma safe_chains [safe_intros]: "safe J G (pool_chains A d pk mh)"
  unfolding pool_chains_def Let_def by (intro safe_intros)

lemma sim_chains:
  assumes d: "lrel S n K W_END d d'" and pk: "pub S 16 pk pk'" and mh: "lrel S n K 32 mh mh'"
  shows "sim J G I (rel_prod (lrel S n K 672) (mrel S n K)) (pool_chains A d pk mh) (pool_chains B d' pk' mh')"
proof -
  have init: "pool_rel S n K (pool_nodes n d, pool_positions n mh, mw_const n 0)
      (pool_nodes (length K) d', pool_positions (length K) mh', mw_const (length K) 0)"
    unfolding pool_rel_def prod.case by (intro conjI rel_nodes0 rel_positions0 rel_const d mh)
  have loop: "sim J G I (pool_rel S n K)
      (for_each (pool_step A d pk) [0..<W_SCHEDULE_LEN] (pool_nodes n d, pool_positions n mh, mw_const n 0))
      (for_each (pool_step B d' pk') [0..<W_SCHEDULE_LEN]
        (pool_nodes (length K) d', pool_positions (length K) mh', mw_const (length K) 0))"
    by (rule sim_for_each) (use init in \<open>auto intro!: sim_pool_step d pk safe_intros\<close>)
  have out: "lrel S n K 672 (concat (map (mw_buf n node_of_words) nodes)) (concat (map (mw_buf (length K) node_of_words) nodes'))"
    if "nrel S n K XMSS_WOTS_LEN 4 nodes nodes'" for nodes nodes'
  proof -
    have "nrel S n K XMSS_WOTS_LEN 16 (map (mw_buf n node_of_words) nodes) (map (mw_buf (length K) node_of_words) nodes')"
      by (rule nrel_map [OF that]) (rule lrel_buf [OF badd_node_of_words ok])
    from nrel_concat [OF this] show ?thesis by (simp add: XMSS_WOTS_LEN_def)
  qed
  show ?thesis
    unfolding pool_chains_def Let_def np
    by (rule sim_bind [OF loop])
       (auto intro!: sim_bind [OF sim_final] sim_return safe_intros out simp: pool_rel_def)
qed

text \<open>The commitment opening.\<close>

lemma safe_hm_y [safe_intros]: "safe J G (circ_hm_y A d)"
  unfolding circ_hm_y_def by (intro safe_intros)

lemma sim_hm_y:
  assumes "lrel S n K W_END d d'"
  shows "sim J G I (lrel S n K 32) (circ_hm_y A d) (circ_hm_y B d')"
  unfolding circ_hm_y_def np
  by (rule sim_th [OF lrel_consts [OF ok refl] lrel_segment [OF assms]])
     (simp_all add: w_layout hm_sizes xmss_sizes th_sizes HM_DOM_Y_def)

lemma rel_elt:
  assumes "lrel S n K W_END d d'" "off + 16 \<le> W_END"
  shows "lrel S n K 4 (mw_buf n gf128_load (segment off HM_ELT d)) (mw_buf (length K) gf128_load (segment off HM_ELT d'))"
  unfolding hm_sizes by (intro lrel_buf [OF badd_gf128_load ok] lrel_segment [OF assms(1)] assms(2))

lemma rel_map2_xor:
  "lrel S n K 4 x x' \<Longrightarrow> lrel S n K 4 y y' \<Longrightarrow> lrel S n K 4 (map2 mpc_XOR x y) (map2 mpc_XOR x' y')"
  by (auto simp: lrel_def list_all2_conv_all_nth intro!: mrel_XOR ok)

lemma rel_map2_xor_pub:
  fixes cs ds :: "u32 list"
  assumes "pub S 4 cs ds" "lrel S n K 4 y y'"
  shows "lrel S n K 4 (map2 mw_xor_pub cs y) (map2 mw_xor_pub ds y')"
proof -
  have "mrel S n K (mw_xor_pub c x) (mw_xor_pub c' x')" if "S = None \<or> c = c'" "mrel S n K x x'" for c c' :: u32 and x x'
    using that by (cases S) (auto simp: mrel_def mw_xor_pub_def ac_simps)
  then show ?thesis using assms by (auto simp: pub_def lrel_def list_all2_conv_all_nth)
qed

lemma safe_hm_product [safe_intros]: "safe J G (circ_hm_product A d line idx acc)"
  unfolding circ_hm_product_def Let_def by (intro safe_intros)

lemma sim_hm_product:
  assumes "lrel S n K W_END d d'" "line < HM_LINES" "idx < HM_NONCES" "lrel S n K 4 acc acc'"
  shows "sim J G I (lrel S n K 4) (circ_hm_product A d line idx acc) (circ_hm_product B d' line idx acc')"
  unfolding circ_hm_product_def Let_def np
  by (rule sim_bind [OF sim_gf128_mul], rule rel_elt [OF assms(1)], use assms in \<open>simp add: w_layout hm_sizes xmss_sizes\<close>,
      rule rel_elt [OF assms(1)], use assms in \<open>simp add: w_layout hm_sizes xmss_sizes\<close>)
     (intro safe_intros sim_return rel_map2_xor assms | assumption)+

lemma safe_hm_line [safe_intros]: "safe J G (circ_hm_line A md d line)"
  unfolding circ_hm_line_def Let_def by (intro safe_intros)

lemma sim_hm_line:
  assumes "lrel S n K W_END d d'" "line < HM_LINES" and md: "S = None \<or> md = md'"
  shows "sim J G I (lrel S n K 16) (circ_hm_line A md d line) (circ_hm_line B md' d' line)"
proof -
  have mk: "pub S 4 (gf128_load (segment (line * HM_ELT) HM_ELT md)) (gf128_load (segment (line * HM_ELT) HM_ELT md'))"
    using md by (auto simp: pub_def)
  have loop: "sim J G I (lrel S n K 4) (for_each (circ_hm_product A d line) [0..<HM_NONCES] (mw_consts n (replicate 4 0)))
      (for_each (circ_hm_product B d' line) [0..<HM_NONCES] (mw_consts (length K) (replicate 4 0)))"
    by (rule sim_for_each) (use assms(1,2) in \<open>auto intro!: sim_hm_product lrel_consts ok safe_intros\<close>)
  show ?thesis
    unfolding circ_hm_line_def Let_def np
    by (rule sim_bind [OF loop])
       (intro safe_intros sim_return lrel_buf [OF badd_gf128_store ok] rel_map2_xor_pub mk | assumption)+
qed

lemma safe_commitment [safe_intros]: "safe J G (circ_commitment A md d)"
  unfolding circ_commitment_def Let_def by (intro safe_intros)

lemma sim_commitment:
  assumes d: "lrel S n K W_END d d'" and md: "S = None \<or> md = md'"
  shows "sim J G I (lrel S n K 32) (circ_commitment A md d) (circ_commitment B md' d')"
proof -
  have lines: "sim J G I (nrel S n K HM_LINES 16) (State_Monad.traverse_list (circ_hm_line A md d) [0..<HM_LINES])
      (State_Monad.traverse_list (circ_hm_line B md' d') [0..<HM_LINES])"
    by (rule sim_mono [OF sim_traverse [where R = "lrel S n K 16"]])
       (auto simp: nrel_def intro!: sim_hm_line d md safe_intros)
  have sec: "lrel S n K (HM_A_BYTES + HM_LINES * 16 + 32) (segment W_A_OFF HM_A_BYTES d @ concat b @ y)
      (segment W_A_OFF HM_A_BYTES d' @ concat b' @ y')"
    if "nrel S n K HM_LINES 16 b b'" "lrel S n K 32 y y'" for b b' y y'
    unfolding add.assoc
    by (intro lrel_append lrel_segment [OF d] nrel_concat that) (simp add: w_layout hm_sizes xmss_sizes)
  show ?thesis
    unfolding circ_commitment_def Let_def np
    by (rule sim_bind [OF sim_hm_y [OF d]], intro safe_intros, intro safe_intros,
        rule sim_bind [OF lines], intro safe_intros, intro safe_intros,
        rule sim_th [OF lrel_consts [OF ok refl] sec], assumption, assumption)
       (simp add: hm_sizes th_sizes HM_DOM_D_def)
qed

text \<open>The signature and the whole statement.\<close>

lemma safe_message_hash [safe_intros]: "safe J G (circ_message_hash A pk d dsh)"
  unfolding circ_message_hash_def by (intro safe_intros)

lemma sim_message_hash:
  assumes d: "lrel S n K W_END d d'" and pk: "pub S 16 pk pk'" and dsh: "lrel S n K 32 dsh dsh'"
  shows "sim J G I (lrel S n K 32) (circ_message_hash A pk d dsh) (circ_message_hash B pk' d' dsh')"
proof -
  have nonce: "lrel S n K (XMSS_NONCE_LEN + 32) (segment W_NONCE_OFF XMSS_NONCE_LEN d @ dsh) (segment W_NONCE_OFF XMSS_NONCE_LEN d' @ dsh')"
    by (intro lrel_append lrel_segment [OF d] dsh) (simp add: w_layout hm_sizes xmss_sizes)
  show ?thesis
    unfolding circ_message_hash_def np
    by (rule sim_th [OF lrel_append [OF lrel_pub [OF ok pub_append [OF pk refl]] rel_leafidx [OF d]] nonce])
       (simp add: xmss_sizes th_sizes)
qed

lemma safe_leaf [safe_intros]: "safe J G (circ_leaf A pk d pkh)"
  unfolding circ_leaf_def by (intro safe_intros)

lemma sim_leaf:
  assumes d: "lrel S n K W_END d d'" and pk: "pub S 16 pk pk'" and h: "lrel S n K 672 pkh pkh'"
  shows "sim J G I (lrel S n K 16) (circ_leaf A pk d pkh) (circ_leaf B pk' d' pkh')"
  unfolding circ_leaf_def np XMSS_NODE_BYTES_def
  by (rule sim_th [OF lrel_append [OF lrel_pub [OF ok pub_append [OF pk refl]] rel_leafidx [OF d]] h]) (simp add: th_sizes)

lemma safe_level [safe_intros]: "safe J G (circ_level A pk d li level node)"
  unfolding circ_level_def circ_swap_word_def Let_def by (intro safe_intros)

lemma rel_put_idx:
  assumes "mrel S n K li li'"
  shows "lrel S n K 4 (mw_rows (mw_map (\<lambda>x. put_idx_le (shr32 x l)) li)) (mw_rows (mw_map (\<lambda>x. put_idx_le (shr32 x l)) li'))"
proof -
  have rows: "mw_rows (mw_map (\<lambda>x. put_idx_le (shr32 x l)) x) = map (\<lambda>k. mw_map (\<lambda>x. put_idx_le (shr32 x l) ! k) x) [0..<4]" for x
    by (simp add: mw_rows_def mw_map_def comp_def put_idx_le_def)
  show ?thesis unfolding rows by (intro lrel_map_upt mrel_map additive_put_idx ok assms)
qed

lemma sim_level:
  assumes d: "lrel S n K W_END d d'" and pk: "pub S 16 pk pk'" and li: "mrel S n K li li'" and level: "level < XMSS_H"
    and node: "lrel S n K 16 node node'"
  shows "sim J G I (lrel S n K 16) (circ_level A pk d li level node) (circ_level B pk' d' li' level node')"
proof -
  have sib: "lrel S n K 16 (segment (W_PATH_OFF + level * XMSS_NODE_BYTES) XMSS_NODE_BYTES d)
      (segment (W_PATH_OFF + level * XMSS_NODE_BYTES) XMSS_NODE_BYTES d')"
    unfolding XMSS_NODE_BYTES_def by (rule lrel_segment [OF d]) (use level in \<open>simp add: w_layout hm_sizes xmss_sizes\<close>)
  have sel: "mrel S n K (mask_from_bit (mw_map (\<lambda>x. drop_bit level x AND 1) li)) (mask_from_bit (mw_map (\<lambda>x. drop_bit level x AND 1) li'))"
    unfolding mask_from_bit_def
    by (intro mrel_map additive_mask_from_bit ok additive_and additive_drop_bit additive_id li)
  have words: "lrel S n K 4 (mw_buf n node_words x) (mw_buf (length K) node_words x')" if "lrel S n K 16 x x'" for x x'
    by (rule lrel_buf [OF badd_node_words ok that])
  have swap: "sim J G I (rel_prod (mrel S n K) (mrel S n K)) (circ_swap_word A s a b w) (circ_swap_word B s' a' b' w)"
    if "mrel S n K s s'" "lrel S n K 4 a a'" "lrel S n K 4 b b'" "w < 4" for s s' a a' b b' w
    unfolding circ_swap_word_def
    using that by (intro sim_bind [OF sim_and] sim_return safe_intros) (auto intro!: mrel_XOR ok lrel_nth)
  have swaps: "sim J G I (\<lambda>z z'. lrel S n K 4 (map fst z) (map fst z') \<and> lrel S n K 4 (map snd z) (map snd z'))
      (State_Monad.traverse_list (circ_swap_word A s a b) [0..<XMSS_NODE_WORDS])
      (State_Monad.traverse_list (circ_swap_word B s' a' b') [0..<XMSS_NODE_WORDS])"
    if "mrel S n K s s'" "lrel S n K 4 a a'" "lrel S n K 4 b b'" for s s' a a' b b'
    by (rule sim_mono [OF sim_traverse [where R = "rel_prod (mrel S n K) (mrel S n K)"]],
        rule swap [OF that], simp add: xmss_sizes, simp add: circ_swap_word_def safe_intros)
       (auto simp: lrel_def list_all2_conv_all_nth rel_prod_sel xmss_sizes)
  have dm: "lrel S n K ((16 + 2) + 4) (mw_consts n (pk @ [XMSS_TWEAK_TREE, of_nat level]) @ mw_rows (mw_map (\<lambda>x. put_idx_le (shr32 x (level + 1))) li))
      (mw_consts (length K) (pk' @ [XMSS_TWEAK_TREE, of_nat level]) @ mw_rows (mw_map (\<lambda>x. put_idx_le (shr32 x (level + 1))) li'))"
    by (intro lrel_append lrel_pub ok pub_append [OF pk] rel_put_idx li) simp
  have pair: "lrel S n K (16 + 16) (mw_buf n node_of_words a @ mw_buf n node_of_words b)
      (mw_buf (length K) node_of_words a' @ mw_buf (length K) node_of_words b')"
    if "lrel S n K 4 a a'" "lrel S n K 4 b b'" for a a' b b'
    by (intro lrel_append lrel_buf [OF badd_node_of_words ok] that)
  show ?thesis
    unfolding circ_level_def Let_def np
    by (rule sim_bind [OF swaps [OF sel words [OF node] words [OF sib]]],
        unfold circ_swap_word_def, intro safe_intros, intro safe_intros, erule conjE,
        unfold XMSS_NODE_BYTES_def, rule sim_th [OF dm pair], assumption+) (simp add: th_sizes)
qed

lemma safe_path [safe_intros]: "safe J G (circ_path A pk d node)"
  unfolding circ_path_def Let_def by (intro safe_intros)

lemma sim_path:
  assumes d: "lrel S n K W_END d d'" and pk: "pub S 16 pk pk'" and node: "lrel S n K 16 node node'"
  shows "sim J G I (lrel S n K 16) (circ_path A pk d node) (circ_path B pk' d' node')"
  unfolding circ_path_def Let_def np
  by (rule sim_for_each) (auto intro!: sim_level d pk lrel_word [OF ladd_load_be ok rel_leafidx [OF d]] node safe_intros)

lemma safe_sum [safe_intros]: "safe J G (circ_sum A mh)"
  unfolding circ_sum_def by (intro safe_intros)

lemma sim_sum:
  assumes "lrel S n K 32 mh mh'"
  shows "sim J G I (mrel S n K) (circ_sum A mh) (circ_sum B mh')"
  unfolding circ_sum_def np
  by (rule sim_for_each)
     (auto intro!: sim_add lrel_word [OF ladd_mh_coord ok assms] rel_const safe_intros dest: coord_pos_less [where b = 2]
        simp: XMSS_WOTS_LEN_def)

lemma safe_statement: "safe J G (circ_statement A md pk d)"
  unfolding circ_statement_def Let_def by (intro safe_intros)

theorem sim_statement:
  assumes d: "lrel S n K W_END d d'" and md: "S = None \<or> md = md'" and pk: "pub S 16 pk pk'"
  shows "sim J G I (lrel S n K 8) (circ_statement A md pk d) (circ_statement B md' pk' d')"
proof -
  have out: "lrel S n K 8 (mw_buf n node_words node @ [acc, mw_word n mh_leftover mh, check, mw_const n 0])
      (mw_buf (length K) node_words node' @ [acc', mw_word (length K) mh_leftover mh', check', mw_const (length K) 0])"
    if "lrel S n K 16 node node'" "mrel S n K acc acc'" "lrel S n K 32 mh mh'" "mrel S n K check check'"
    for node node' acc acc' mh mh' check check'
  proof -
    have "lrel S n K 4 [acc, mw_word n mh_leftover mh, check, mw_const n 0]
        [acc', mw_word (length K) mh_leftover mh', check', mw_const (length K) 0]"
      using that lrel_word [OF ladd_mh_leftover ok that(3)] rel_const by (simp add: lrel_def)
    from lrel_append [OF lrel_buf [OF badd_node_words ok that(1)] this] show ?thesis by simp
  qed
  show ?thesis
    unfolding circ_statement_def Let_def np
    by (rule sim_bind [OF sim_commitment [OF d md]], intro safe_intros, intro safe_intros,
        rule sim_bind [OF sim_message_hash [OF d pk]], assumption, intro safe_intros, intro safe_intros,
        rule sim_bind [OF sim_chains [OF d pk]], assumption, intro safe_intros, intro safe_intros)
       (auto intro!: sim_bind [OF sim_leaf [OF d pk]] sim_bind [OF sim_path [OF d pk]] sim_bind [OF sim_sum] sim_return safe_intros out)
qed

end

end
