(* ===== verification/Gate_Count.thy ===== *)
theory Gate_Count
  imports Circuit_Sim
begin

text \<open>
  The number of gates of the statement. \<open>ySize\<close> of \<^verbatim>\<open>shared.h\<close> is a constant that sizes the
  tapes and every array indexed by the gate counter; the locale \<open>gate_counter\<close> counts the
  gates of each gadget over any gates that advance a counter by one, and the total is
  exactly \<open>ySize\<close>.
\<close>

definition yields :: "('s \<Rightarrow> nat) \<Rightarrow> nat \<Rightarrow> ('a \<Rightarrow> bool) \<Rightarrow> ('s, 'a) state \<Rightarrow> bool" where
  "yields c k Q m \<longleftrightarrow> (\<forall>s. Q (fst (run_state m s)) \<and> c (snd (run_state m s)) = c s + k)"

lemma yields_return: "Q x \<Longrightarrow> yields c 0 Q (State_Monad.return x)"
  by (simp add: yields_def)

lemma yields_bind:
  assumes "yields c k Q m" "\<And>z. Q z \<Longrightarrow> yields c l R (f z)"
  shows "yields c (k + l) R (State_Monad.bind m f)"
  unfolding yields_def
proof
  fix s
  obtain z s' where m: "run_state m s = (z, s')" by fastforce
  then have "Q z" "c s' = c s + k" using assms(1) unfolding yields_def by (metis fst_conv snd_conv)+
  then show "R (fst (run_state (State_Monad.bind m f) s)) \<and> c (snd (run_state (State_Monad.bind m f) s)) = c s + (k + l)"
    using assms(2) [of z] m by (simp add: yields_def)
qed

lemma yields_mono: "yields c k Q m \<Longrightarrow> (\<And>z. Q z \<Longrightarrow> R z) \<Longrightarrow> yields c k R m"
  by (simp add: yields_def)

lemma yields_map: "yields c k Q m \<Longrightarrow> (\<And>z. Q z \<Longrightarrow> R (f z)) \<Longrightarrow> yields c k R (State_Monad.bind m (\<lambda>z. State_Monad.return (f z)))"
  using yields_bind [of c k Q m 0 R "\<lambda>z. State_Monad.return (f z)"] by (simp add: yields_return)

lemma yields_for_each:
  assumes "\<And>i acc. i \<in> set is \<Longrightarrow> Q acc \<Longrightarrow> yields c k Q (f i acc)" "Q acc"
  shows "yields c (length is * k) Q (for_each f is acc)"
  using assms
proof (induction "is" arbitrary: acc)
  case Nil
  then show ?case by (simp add: yields_return)
next
  case (Cons i "is")
  then have "yields c (k + length is * k) Q (for_each f (i # is) acc)"
    unfolding for_each.simps by (intro yields_bind [where Q = Q]) simp_all
  then show ?case by simp
qed

lemma yields_traverse:
  assumes "\<And>i. i \<in> set is \<Longrightarrow> yields c k Q (f i)"
  shows "yields c (length is * k) (\<lambda>xs. list_all Q xs \<and> length xs = length is) (State_Monad.traverse_list f is)"
  using assms
proof (induction "is")
  case Nil
  then show ?case by (simp add: yields_return)
next
  case (Cons i "is")
  then have "yields c (k + length is * k) (\<lambda>xs. list_all Q xs \<and> length xs = length (i # is)) (State_Monad.traverse_list f (i # is))"
    unfolding traverse_list.simps
    by (intro yields_bind [where Q = Q] yields_map [where Q = "\<lambda>xs. list_all Q xs \<and> length xs = length is"]) simp_all
  then show ?case by simp
qed

lemma yields_eq: "yields c k Q m \<Longrightarrow> k = l \<Longrightarrow> yields c l Q m"
  by simp

lemma length_mw_buf: "(\<And>xs. length (f xs) = k) \<Longrightarrow> length (mw_buf n f xs) = k"
  by (simp add: mw_buf_def mw_rows_def mw_apply_def)

lemma length_node_of_words: "length (node_of_words ws) = 16"
proof -
  have "length (concat (map (\<lambda>i. bytes_le 4 (ws ! i)) [0..<4])) = 4 * 4" by (subst length_concat_const [where w = 4]) auto
  then show ?thesis by (simp add: node_of_words_concat)
qed

lemma length_segment_le: "off + l \<le> length xs \<Longrightarrow> length (segment off l xs) = l"
  by (simp add: segment_def)

lemma th_valid: "dl \<le> 28 \<Longrightarrow> l \<le> 900 \<Longrightarrow> k \<le> 32 \<Longrightarrow> blake3_th_mpc_valid_sizes dl l k"
  by (simp add: blake3_th_mpc_valid_sizes_def BLAKE3_TH_MAX_DOMAIN_def BLAKE3_CHUNK_LEN_def BLAKE3_TH_FRAME_LEN_def
      BLAKE3_OUT_LEN_def)

locale gate_counter =
  fixes G :: "'s gates" and c :: "'s \<Rightarrow> nat"
  assumes count_and: "c (snd (run_state (g_and G x y) s)) = Suc (c s)"
    and count_add: "c (snd (run_state (g_add G x y) s)) = Suc (c s)"
begin

lemma yields_and: "yields c 1 (\<lambda>_. True) (g_and G x y)"
  by (simp add: yields_def count_and)

lemma yields_add: "yields c 1 (\<lambda>_. True) (g_add G x y)"
  by (simp add: yields_def count_add)

lemma yields_b3_g: "yields c 6 (\<lambda>_. True) (circ_b3_g G a b d e x y v)"
proof -
  have two: "yields c (1 + 1) (\<lambda>_. True) (circ_add3 G a b x v)" for a b x v
    unfolding circ_add3_def by (rule yields_bind [OF yields_add yields_map [OF yields_add]]) simp
  have one: "yields c 1 (\<lambda>_. True) (circ_add G a b v)" for a b v
    unfolding circ_add_def by (rule yields_map [OF yields_add]) simp
  have "yields c ((1 + 1) + (1 + ((1 + 1) + 1))) (\<lambda>_. True) (circ_b3_g G a b d e x y v)"
    unfolding circ_b3_g_def
    by (rule yields_bind [OF two yields_bind [OF one yields_bind [OF two yields_map [OF one]]]]) simp
  then show ?thesis by (rule yields_eq) simp
qed

lemma yields_b3_round: "yields c 48 (\<lambda>_. True) (circ_b3_round G m s v)"
  unfolding circ_b3_round_def
  by (rule yields_eq, (rule yields_bind [OF yields_b3_g])+, rule yields_b3_g, simp)

lemma yields_b3_rounds: "yields c (r * 48) (\<lambda>_. True) (circ_b3_rounds G r m s v)"
  by (induction r arbitrary: s v)
     (auto intro!: yields_return yields_eq [OF yields_bind [OF yields_b3_round]])

lemma yields_compress: "yields c 336 (\<lambda>_. True) (circ_blake3_compress G cv m bl fl)"
  unfolding circ_blake3_compress_def Let_def
  by (rule yields_eq [OF yields_map [OF yields_b3_rounds]]) simp_all

lemma yields_th:
  assumes "blake3_th_mpc_valid_sizes (length dm) (length data) k"
    and "nb = (4 + length dm + length data + 63) div 64"
  shows "yields c (nb * 336) (\<lambda>out. length out = k) (circ_th G dm data k)"
proof -
  have loop: "yields c (length [0..<nb] * 336) (\<lambda>_. True) (for_each (circ_th_block G dm data) [0..<nb] cv)" for cv
    by (rule yields_for_each) (simp_all add: circ_th_block_def Let_def yields_compress)
  have "yields c (length [0..<nb] * 336) (\<lambda>out. \<exists>o'. out = Some o' \<and> length o' = k) (circ_blake3_th G dm data k)"
    unfolding circ_blake3_th_def Let_def BLAKE3_TH_FRAME_LEN_def BLAKE3_BLOCK_LEN_def
  proof -
    have nb: "(4 + length dm + length data + 64 - 1) div 64 = nb" using assms(2) by simp
    show "yields c (length [0..<nb] * 336) (\<lambda>out. \<exists>o'. out = Some o' \<and> length o' = k)
      (if \<not> blake3_th_mpc_valid_sizes (length dm) (length data) k then State_Monad.return None
       else State_Monad.bind (for_each (circ_th_block G dm data) [0..<(4 + length dm + length data + 64 - 1) div 64]
              (mw_consts (g_np G) blake3_th_context_key))
            (\<lambda>cv. State_Monad.return (Some (map (\<lambda>i. mw_map (\<lambda>w. ucast (drop_bit (8 * (i mod 4)) w)) (cv ! (i div 4))) [0..<k]))))"
      unfolding nb using assms(1) by (simp del: length_upt) (rule yields_map [OF loop], simp)
  qed
  then have "yields c (length [0..<nb] * 336) (\<lambda>out. length out = k) (circ_th G dm data k)"
    unfolding circ_th_def by (rule yields_map) auto
  then show ?thesis by (rule yields_eq) simp
qed

lemma yields_gf128_mul: "yields c 512 (\<lambda>_. True) (circ_gf128_mul G X Y)"
proof -
  have bit: "yields c (length [0..<4] * 1) (\<lambda>_. True) (circ_gf128_mul_bit G X Y j acc)" for j acc
    unfolding circ_gf128_mul_bit_def Let_def
    by (rule yields_for_each) (rule yields_map [OF yields_and], simp_all)
  have "yields c (length [0..<128] * (length [0..<4] * 1)) (\<lambda>_. True) (circ_gf128_mul G X Y)"
    unfolding circ_gf128_mul_def
    by (rule yields_map [OF yields_for_each [where Q = "\<lambda>_. True"]])
       (simp_all del: upt_Suc add: bit [simplified])
  then show ?thesis by (rule yields_eq) simp
qed

text \<open>The pooled chains.\<close>

lemma yields_onehot: "yields c 7 (\<lambda>_. True) (pool_onehot G idx g)"
proof -
  have "[0..<8] = 0 # [1..<8]" by (simp add: upt_conv_Cons)
  then have "yields c (0 + length [1..<8] * 1) (\<lambda>_. True) (pool_onehot G idx g)"
    unfolding pool_onehot_def Let_def
    by (simp only: for_each.simps if_True refl)
       (rule yields_bind [OF yields_return], simp, rule yields_for_each, simp_all add: yields_and del: upt_Suc One_nat_def)
  then show ?thesis by (rule yields_eq) simp
qed

lemma yields_or_into: "yields c 1 (\<lambda>_. True) (pool_or_into G x y)"
  unfolding pool_or_into_def by (rule yields_map [OF yields_and]) simp

lemma yields_decode: "yields c 15 (\<lambda>_. True) (pool_decode G idx check)"
proof -
  have "yields c (7 + (7 + 1)) (\<lambda>_. True) (pool_decode G idx check)"
    unfolding pool_decode_def Let_def
    by (rule yields_bind [OF yields_onehot yields_bind [OF yields_onehot yields_map [OF yields_or_into]]]) simp
  then show ?thesis by simp
qed

lemma yields_select: "yields c 42 (\<lambda>_. True) (pool_select G masks nodes w)"
proof -
  have "yields c (length [0..<XMSS_WOTS_LEN] * 1) (\<lambda>_. True) (pool_select G masks nodes w)"
    unfolding pool_select_def by (rule yields_for_each) (rule yields_map [OF yields_and], simp_all)
  then show ?thesis by (simp add: XMSS_WOTS_LEN_def)
qed

lemma yields_position: "yields c 24 (\<lambda>_. True) (pool_position G idx masks positions)"
proof -
  have adv: "yields c (1 + 1) (\<lambda>_. True) (pool_advance G masks g z)" for g z
    unfolding pool_advance_def by (cases z) (simp only: prod.case, rule yields_bind [OF yields_add yields_map [OF yields_and]], simp)
  have lane: "yields c (length [1, 0 :: nat] * 1) (\<lambda>_. True) (pool_lane_select G idx p)" for p
    unfolding pool_lane_select_def Let_def by (rule yields_for_each) (rule yields_map [OF yields_and], simp_all)
  have "yields c (length [0..<pool_groups] * (1 + 1) + length [1, 0 :: nat] * 1) (\<lambda>_. True) (pool_position G idx masks positions)"
    unfolding pool_position_def
    by (rule yields_bind [OF yields_for_each [where Q = "\<lambda>_. True"]], rule adv, simp)
       (simp only: split_beta, rule yields_map [OF lane], simp)
  then show ?thesis by (rule yields_eq) (simp add: pool_groups_def XMSS_WOTS_LEN_def)
qed

lemma yields_hash:
  assumes "length d = W_END" "length pk = 16"
  shows "yields c 336 (\<lambda>h. length h = 16) (pool_hash G d pk idx position selected)"
proof -
  have "length (segment W_LEAFIDX_OFF XMSS_EPOCH_BYTES d) = 4"
    by (subst length_segment_le) (simp_all add: assms w_layout hm_sizes xmss_sizes)
  then show ?thesis
    unfolding pool_hash_def Let_def
    by (intro yields_eq [OF yields_mono [OF yields_th [where nb = 1 and k = XMSS_NODE_BYTES]]])
       (simp_all add: assms mw_consts_def length_mw_buf length_node_of_words th_valid xmss_sizes)
qed

definition nodes_ok :: "pool_state \<Rightarrow> bool" where
  "nodes_ok z \<longleftrightarrow> length (fst z) = XMSS_WOTS_LEN"

lemma yields_pool_step:
  assumes "length d = W_END" "length pk = 16" "nodes_ok z"
  shows "yields c 711 nodes_ok (pool_step G d pk step z)"
proof -
  have sel: "yields c (length [0..<XMSS_NODE_WORDS] * 42) (\<lambda>_. True) (State_Monad.traverse_list (pool_select G masks nodes) [0..<XMSS_NODE_WORDS])"
    for masks nodes by (rule yields_mono [OF yields_traverse [OF yields_select]]) simp
  have wb1: "yields c (length [0..<XMSS_WOTS_LEN] * 1) (\<lambda>ns. length ns = XMSS_WOTS_LEN) (pool_writeback G masks s h w nodes)"
    if "length nodes = XMSS_WOTS_LEN" for masks s h w nodes
    unfolding pool_writeback_def
    by (rule yields_for_each) (rule yields_map [OF yields_and], simp_all add: that)
  have wb: "yields c (length [0..<XMSS_NODE_WORDS] * (length [0..<XMSS_WOTS_LEN] * 1)) (\<lambda>ns. length ns = XMSS_WOTS_LEN)
      (for_each (pool_writeback G masks s h) [0..<XMSS_NODE_WORDS] nodes)"
    if "length nodes = XMSS_WOTS_LEN" for masks s h nodes
    by (rule yields_for_each) (simp_all only: wb1 that)
  obtain nodes positions check where z: "z = (nodes, positions, check)" by (cases z) auto
  have nodes: "length nodes = XMSS_WOTS_LEN" using assms(3) by (simp add: nodes_ok_def z)
  show ?thesis
    unfolding pool_step_def Let_def z prod.case
    by (rule yields_eq, rule yields_bind [OF yields_decode], simp only: split_beta, rule yields_bind [OF sel],
        rule yields_bind [OF yields_position], simp only: split_beta, rule yields_bind [OF yields_hash [OF assms(1,2)]],
        rule yields_map [OF wb [OF nodes]])
       (simp_all add: nodes_ok_def xmss_sizes)
qed

lemma yields_chains:
  assumes "length d = W_END" "length pk = 16"
  shows "yields c (99 * 711 + 11) (\<lambda>r. length (fst r) = 672) (pool_chains G d pk mh)"
proof -
  have loop: "yields c (length [0..<W_SCHEDULE_LEN] * 711) nodes_ok
      (for_each (pool_step G d pk) [0..<W_SCHEDULE_LEN] (pool_nodes n d, pool_positions n mh, chk))" for n chk
    by (rule yields_for_each) (simp_all add: yields_pool_step assms, simp add: nodes_ok_def pool_nodes_def)
  have fin: "yields c (length [0..<pool_groups] * 1) (\<lambda>_. True) (pool_final G ps chk)" for ps chk
    unfolding pool_final_def Let_def by (rule yields_for_each) (simp_all del: One_nat_def add: yields_or_into)
  have len: "length (concat (map (mw_buf n node_of_words) nodes)) = 672" if "length nodes = XMSS_WOTS_LEN" for n nodes
    using that by (subst length_concat_const [where w = 16]) (auto simp: length_mw_buf length_node_of_words XMSS_WOTS_LEN_def)
  show ?thesis
    unfolding pool_chains_def Let_def
    by (rule yields_eq, rule yields_bind [OF loop], simp only: split_beta, rule yields_map [OF fin])
       (simp_all add: len nodes_ok_def W_END_value pool_groups_def XMSS_WOTS_LEN_def)
qed

text \<open>The statement.\<close>

lemma yields_hm_y:
  assumes "length d = W_END"
  shows "yields c 672 (\<lambda>y. length y = 32) (circ_hm_y G d)"
proof -
  have "length (segment W_R_OFF HM_R_BYTES d) = 96"
    by (subst length_segment_le) (simp_all add: assms w_layout hm_sizes xmss_sizes)
  then show ?thesis
    unfolding circ_hm_y_def
    by (intro yields_eq [OF yields_th [where nb = 2]]) (simp_all add: mw_consts_def HM_DOM_Y_def th_valid)
qed

lemma yields_commitment:
  assumes "length d = W_END"
  shows "yields c (672 + (2 * (6 * 512) + 1680)) (\<lambda>r. length r = 32) (circ_commitment G md d)"
proof -
  have product: "yields c 512 (\<lambda>_. True) (circ_hm_product G d line idx acc)" for line idx acc
    unfolding circ_hm_product_def Let_def by (rule yields_map [OF yields_gf128_mul]) simp
  have loop: "yields c (length [0..<HM_NONCES] * 512) (\<lambda>_. True) (for_each (circ_hm_product G d line) [0..<HM_NONCES] acc)" for line acc
    by (rule yields_for_each) (simp_all add: product)
  have line: "yields c (length [0..<HM_NONCES] * 512) (\<lambda>b. length b = 16) (circ_hm_line G md d line)" for line
    unfolding circ_hm_line_def Let_def by (rule yields_map [OF loop]) (simp add: length_mw_buf)
  have A: "length (segment W_A_OFF HM_A_BYTES d) = 192"
    by (subst length_segment_le) (simp_all add: assms w_layout hm_sizes xmss_sizes)
  have lines: "yields c (length [0..<HM_LINES] * (length [0..<HM_NONCES] * 512)) (\<lambda>b. length (concat b) = 32)
      (State_Monad.traverse_list (circ_hm_line G md d) [0..<HM_LINES])"
    by (rule yields_mono [OF yields_traverse [OF line]])
       (subst length_concat_const [where w = 16], auto simp: list_all_iff HM_LINES_def)
  show ?thesis
    unfolding circ_commitment_def Let_def
    by (rule yields_bind [OF yields_hm_y [OF assms]], rule yields_bind,
        rule yields_eq [OF lines], simp add: hm_sizes,
        rule yields_eq [OF yields_th [where nb = 5]])
       (simp_all add: A mw_consts_def HM_DOM_D_def th_valid)
qed

lemma length_leafidx: "length d = W_END \<Longrightarrow> length (circ_leafidx d) = 4"
  unfolding circ_leafidx_def by (subst length_segment_le) (simp_all add: w_layout hm_sizes xmss_sizes)

lemma yields_message_hash:
  assumes "length d = W_END" "length pk = 16" "length dsh = 32"
  shows "yields c 672 (\<lambda>r. length r = 32) (circ_message_hash G pk d dsh)"
proof -
  have "length (segment W_NONCE_OFF XMSS_NONCE_LEN d) = 24"
    by (subst length_segment_le) (simp_all add: assms w_layout hm_sizes xmss_sizes)
  then show ?thesis
    unfolding circ_message_hash_def
    by (intro yields_eq [OF yields_th [where nb = 2]]) (simp_all add: assms mw_consts_def th_valid length_leafidx)
qed

lemma yields_leaf:
  assumes "length d = W_END" "length pk = 16" "length pkh = 672"
  shows "yields c 3696 (\<lambda>r. length r = 16) (circ_leaf G pk d pkh)"
  unfolding circ_leaf_def XMSS_NODE_BYTES_def
  by (intro yields_eq [OF yields_th [where nb = 11]]) (simp_all add: assms mw_consts_def th_valid length_leafidx)

lemma yields_path:
  assumes "length d = W_END" "length pk = 16" "length node = 16"
  shows "yields c (32 * 340) (\<lambda>r. length r = 16) (circ_path G pk d node)"
proof -
  have swap: "yields c 1 (\<lambda>_. True) (circ_swap_word G sel nd sb w)" for sel nd sb w
    unfolding circ_swap_word_def by (rule yields_map [OF yields_and]) simp
  have swaps: "yields c (length [0..<XMSS_NODE_WORDS] * 1) (\<lambda>_. True)
      (State_Monad.traverse_list (circ_swap_word G sel nd sb) [0..<XMSS_NODE_WORDS])" for sel nd sb
    by (rule yields_mono [OF yields_traverse [OF swap]]) simp
  have rows: "length (mw_rows (mw_map (\<lambda>x. put_idx_le (f x)) li)) = 4" for f li
    by (simp add: mw_rows_def mw_map_def put_idx_le_def)
  have level: "yields c 340 (\<lambda>r. length r = 16) (circ_level G pk d li level node)" for li level node
    unfolding circ_level_def Let_def XMSS_NODE_BYTES_def
    by (rule yields_eq, rule yields_bind [OF swaps], rule yields_th [where nb = 1])
       (simp_all add: assms mw_consts_def rows length_mw_buf length_node_of_words th_valid xmss_sizes)
  have "yields c (length [0..<XMSS_H] * 340) (\<lambda>r. length r = 16) (circ_path G pk d node)"
    unfolding circ_path_def Let_def by (rule yields_for_each) (simp_all add: level assms)
  then show ?thesis by (rule yields_eq) (simp add: xmss_sizes)
qed

lemma yields_sum: "yields c 42 (\<lambda>_. True) (circ_sum G mh)"
proof -
  have "yields c (length [0..<XMSS_WOTS_LEN] * 1) (\<lambda>_. True) (circ_sum G mh)"
    unfolding circ_sum_def by (rule yields_for_each) (simp_all add: yields_add del: One_nat_def)
  then show ?thesis by (rule yields_eq) (simp add: xmss_sizes)
qed

theorem yields_statement:
  assumes "length d = W_END" "length pk = 16"
  shows "yields c ySize (\<lambda>_. True) (circ_statement G md pk d)"
  unfolding circ_statement_def Let_def
  by (rule yields_eq, rule yields_bind [OF yields_commitment], rule assms,
      rule yields_bind [OF yields_message_hash], rule assms, rule assms, assumption,
      rule yields_bind [OF yields_chains], rule assms, rule assms,
      simp only: split_beta, rule yields_bind [OF yields_leaf], rule assms, rule assms, assumption,
      rule yields_bind [OF yields_path], rule assms, rule assms, assumption,
      rule yields_map [OF yields_sum])
     (simp_all add: ySize_def)

end

end
