(* ===== verification/Mpc_Instances.thy ===== *)
theory Mpc_Instances
  imports Gate_Count
begin

text \<open>
  The gates of the code satisfy the contracts: the prover's gates against the evaluation
  in the clear (\<open>clear\<close>), against the verifier's gates (\<open>online\<close>) and against themselves
  on another public input (\<open>preproc\<close>) and on other scratch arrays (\<open>rerun\<close>), and all
  three sets of gates advance the gate counter by one.
\<close>

subsection \<open>Prover and evaluation in the clear\<close>

lemma pick_Nil [simp]: "pick [] zs = []"
  by (simp add: pick_def)

lemma mrel_clear:
  "mrel (Some [0..<n]) n [] x y \<longleftrightarrow> length (mw_l x) = n \<and> mw_l y = [] \<and> mw_h y = unmask x"
proof -
  have "pick [0..<n] (mw_l x) = mw_l x" if "length (mw_l x) = n"
    using that by (simp add: pick_def map_nth_all)
  then show ?thesis by (auto simp: mrel_def unmask_def)
qed

lemma run_plain:
  "run_state (g_and plain_gates x y) k = (\<lparr>mw_h = mw_h x AND mw_h y, mw_l = []\<rparr>, Suc k)"
  "run_state (g_add plain_gates x y) k = (\<lparr>mw_h = mw_h x + mw_h y, mw_l = []\<rparr>, Suc k)"
  by (simp_all add: plain_gates_def State_Monad.update_def)

interpretation clear: circuit_sim "Some [0..<Suc (length tapes)]" "Suc (length tapes)" "[]"
  "prover_gates (t # tapes)" plain_gates "\<lambda>_. True" "\<lambda>_. True" "\<lambda>st k. ps_gc st = k"
proof unfold_locales
  fix x y x' y' :: "u32 mw"
  assume rel: "mrel (Some [0..<Suc (length tapes)]) (Suc (length tapes)) [] x x'"
    "mrel (Some [0..<Suc (length tapes)]) (Suc (length tapes)) [] y y'"
  show "sim (\<lambda>_. True) (\<lambda>_. True) (\<lambda>st k. ps_gc st = k) (mrel (Some [0..<Suc (length tapes)]) (Suc (length tapes)) [])
      (g_and (prover_gates (t # tapes)) x y) (g_and plain_gates x' y')"
    using rel mpc_AND_unmask [of "t # tapes" x y]
    unfolding sim_def mrel_clear
    by (auto simp: prover_gates_def run_plain run_mpc_AND prover_step_def)
  show "sim (\<lambda>_. True) (\<lambda>_. True) (\<lambda>st k. ps_gc st = k) (mrel (Some [0..<Suc (length tapes)]) (Suc (length tapes)) [])
      (g_add (prover_gates (t # tapes)) x y) (g_add plain_gates x' y')"
    using rel mpc_ADD_unmask [of x "t # tapes" y]
    unfolding sim_def mrel_clear
    by (auto simp: prover_gates_def run_plain run_mpc_ADD prover_step_def)
qed (auto simp: parties_ok_def below_def prover_gates_def plain_gates_def safe_def)

subsection \<open>Prover and prover\<close>

lemma mrel_preproc:
  "mrel None n [0..<n] x y \<longleftrightarrow> length (mw_l x) = n \<and> mw_l y = mw_l x"
  by (auto simp: mrel_def pick_def map_nth_all)

definition same_aux :: "prover_state \<Rightarrow> prover_state \<Rightarrow> bool" where
  "same_aux st st' \<longleftrightarrow> ps_gc st' = ps_gc st \<and> length (ps_aux st') = length (ps_aux st) \<and>
     (\<forall>i<ps_gc st. i < length (ps_aux st) \<longrightarrow> ps_aux st' ! i = ps_aux st ! i)"

interpretation preproc: circuit_sim None "length tapes" "[0..<length tapes]"
  "prover_gates tapes" "prover_gates tapes" "\<lambda>st. length (ps_aux st) = ySize" "\<lambda>_. True" same_aux
proof unfold_locales
  fix x y x' y' :: "u32 mw"
  assume rel: "mrel None (length tapes) [0..<length tapes] x x'" "mrel None (length tapes) [0..<length tapes] y y'"
  show "sim (\<lambda>st. length (ps_aux st) = ySize) (\<lambda>_. True) same_aux (mrel None (length tapes) [0..<length tapes])
      (g_and (prover_gates tapes) x y) (g_and (prover_gates tapes) x' y')"
    using rel unfolding sim_def mrel_preproc
    by (auto simp: prover_gates_def run_mpc_AND prover_step_def same_aux_def and_corr_def nth_list_update less_Suc_eq)
  show "sim (\<lambda>st. length (ps_aux st) = ySize) (\<lambda>_. True) same_aux (mrel None (length tapes) [0..<length tapes])
      (g_add (prover_gates tapes) x y) (g_add (prover_gates tapes) x' y')"
    using rel unfolding sim_def mrel_preproc
    by (auto simp: prover_gates_def run_mpc_ADD prover_step_def same_aux_def add_corr_def nth_list_update less_Suc_eq)
qed (auto simp: parties_ok_def below_def prover_gates_def safe_def run_mpc_AND run_mpc_ADD prover_step_def)

subsection \<open>Prover and verifier\<close>

lemma mrel_online:
  "mrel (Some []) n K x y \<longleftrightarrow> length (mw_l x) = n \<and> y = restrict K x"
  by (cases y) (auto simp: mrel_def restrict_def)

text \<open>The verifier's inputs of a round: the tapes of the other parties, the hidden party's
  broadcasts and the correction words.\<close>

definition env_of :: "bytes list \<Rightarrow> nat \<Rightarrow> u32 list \<Rightarrow> u32 list \<Rightarrow> verifier_env" where
  "env_of tapes e msgs aux = \<lparr>ve_tapes = pick (others (length tapes) e) tapes, ve_e = e, ve_msgs_e = msgs, ve_aux = aux\<rparr>"

text \<open>The prover's arrays have their sizes and a broadcast of every party.\<close>

definition rows_ok :: "nat \<Rightarrow> nat \<Rightarrow> prover_state \<Rightarrow> bool" where
  "rows_ok n e st \<longleftrightarrow> e < n \<and> length (ps_aux st) = ySize \<and>
     (\<exists>rows. ps_s_all st = Some rows \<and> length rows = n \<and> (\<forall>r\<in>set rows. length r = ySize))"

definition rows_of :: "prover_state \<Rightarrow> u32 list list" where
  "rows_of st = (case ps_s_all st of None \<Rightarrow> [] | Some rows \<Rightarrow> rows)"

text \<open>What the verifier was given agrees with what the prover has written so far.\<close>

definition agrees :: "nat \<Rightarrow> u32 list \<Rightarrow> u32 list \<Rightarrow> prover_state \<Rightarrow> bool" where
  "agrees e msgs aux st \<longleftrightarrow> ps_gc st \<le> ySize \<and>
     (\<forall>i<ps_gc st. msgs ! i = rows_of st ! e ! i \<and> (e \<noteq> 0 \<longrightarrow> aux ! i = ps_aux st ! i))"

definition slots_rel :: "nat \<Rightarrow> nat \<Rightarrow> prover_state \<Rightarrow> verifier_state \<Rightarrow> bool" where
  "slots_rel n e st vst \<longleftrightarrow> vs_gc vst = ps_gc st \<and> length (vs_s_slots vst) = n - 1 \<and>
     (\<forall>r\<in>set (vs_s_slots vst). length r = ySize) \<and>
     (\<forall>j<n - 1. \<forall>i<ps_gc st. i < ySize \<longrightarrow> vs_s_slots vst ! j ! i = rows_of st ! orig j e ! i)"

lemma length_put_column [simp]: "length (put_column g ss rows) = min (length rows) (length ss)"
  by (simp add: put_column_def)

lemma put_column_rows: "r \<in> set (put_column g ss rows) \<Longrightarrow> \<exists>r'\<in>set rows. length r = length r'"
  by (auto simp: put_column_def in_set_zip) (use nth_mem in blast)

lemma nth_put_column:
  "p < length rows \<Longrightarrow> p < length ss \<Longrightarrow> put_column g ss rows ! p = (rows ! p)[g := ss ! p]"
  by (simp add: put_column_def)

lemma rows_ok_step:
  assumes "rows_ok n e st" "length ss = n"
  shows "rows_ok n e (prover_step corr ss st)"
    and "rows_of (prover_step corr ss st) = put_column (ps_gc st) ss (rows_of st)"
  using assms by (auto simp: rows_ok_def prover_step_def rows_of_def dest!: put_column_rows)

lemma agrees_step:
  assumes ok: "rows_ok n e st" and ss: "length ss = n" and after: "agrees e msgs aux (prover_step corr ss st)"
  shows "agrees e msgs aux st" and "msgs ! ps_gc st = ss ! e" and "e \<noteq> 0 \<Longrightarrow> aux ! ps_gc st = corr"
proof -
  let ?g = "ps_gc st"
  have e: "e < n" and g: "?g < ySize" and aux: "length (ps_aux st) = ySize"
    and rows: "length (rows_of st) = n" "length (rows_of st ! e) = ySize"
    using ok after by (auto simp: rows_ok_def agrees_def prover_step_def rows_of_def)
  have all: "msgs ! i = (rows_of st ! e)[?g := ss ! e] ! i \<and> (e \<noteq> 0 \<longrightarrow> aux ! i = (ps_aux st)[?g := corr] ! i)"
    if "i < Suc ?g" for i
    using after that e ss rows
    unfolding agrees_def rows_ok_step [OF ok ss] by (simp add: nth_put_column) (simp add: prover_step_def)
  show "msgs ! ?g = ss ! e" "e \<noteq> 0 \<Longrightarrow> aux ! ?g = corr"
    using all [of ?g] g rows aux by simp_all
  show "agrees e msgs aux st"
    unfolding agrees_def
    using all [OF less_SucI] g by simp
qed

lemma slots_step:
  assumes ok: "rows_ok n e st" and ss: "length ss = n" and rel: "slots_rel n e st vst"
  shows "slots_rel n e (prover_step corr ss st) (verifier_step (pick (others n e) ss) vst)"
proof -
  have e: "e < n" and len: "length (rows_of st) = n" and rows: "\<And>p. p < n \<Longrightarrow> length (rows_of st ! p) = ySize"
    using ok by (auto simp: rows_ok_def rows_of_def)
  have orig: "orig j e < n" if "j < n - 1" for j using that by (auto simp: orig_def)
  have "put_column (ps_gc st) (pick (others n e) ss) (vs_s_slots vst) ! j ! i =
      put_column (ps_gc st) ss (rows_of st) ! orig j e ! i"
    if "j < n - 1" "i < Suc (ps_gc st)" "i < ySize" for i j
    using that rel orig [OF that(1)] len rows [OF orig [OF that(1)]] ss
    by (auto simp: slots_rel_def nth_put_column nth_list_update less_Suc_eq)
  moreover have "\<forall>r\<in>set (put_column (ps_gc st) (pick (others n e) ss) (vs_s_slots vst)). length r = ySize"
    using rel by (auto simp: slots_rel_def dest!: put_column_rows)
  ultimately show ?thesis
    using rel ss
    unfolding slots_rel_def rows_ok_step [OF ok ss] by (auto simp: verifier_step_def prover_step_def)
qed

interpretation online: circuit_sim "Some []" "length tapes" "others (length tapes) e"
  "prover_gates tapes" "verifier_gates (env_of tapes e msgs aux)"
  "rows_ok (length tapes) e" "agrees e msgs aux" "slots_rel (length tapes) e"
proof unfold_locales
  fix x y x' y' :: "u32 mw"
  show "safe (rows_ok (length tapes) e) (agrees e msgs aux) (g_and (prover_gates tapes) x y)"
    unfolding safe_def prover_gates_def gates.simps run_mpc_AND snd_conv
    by (intro allI impI conjI rows_ok_step(1) length_tape_lams) (assumption | rule agrees_step(1) [OF _ length_tape_lams(4)])+
  show "safe (rows_ok (length tapes) e) (agrees e msgs aux) (g_add (prover_gates tapes) x y)"
    unfolding safe_def prover_gates_def gates.simps run_mpc_ADD snd_conv
    by (intro allI impI conjI rows_ok_step(1) length_tape_lams) (assumption | rule agrees_step(1) [OF _ length_tape_lams(5)])+
  assume rel: "mrel (Some []) (length tapes) (others (length tapes) e) x x'"
    "mrel (Some []) (length tapes) (others (length tapes) e) y y'"
  have env: "ve_tapes (env_of tapes e msgs aux) = pick (others (length tapes) e) tapes" "ve_e (env_of tapes e msgs aux) = e"
    "ve_msgs_e (env_of tapes e msgs aux) = msgs" "ve_aux (env_of tapes e msgs aux) = aux"
    by (simp_all add: env_of_def)
  show "sim (rows_ok (length tapes) e) (agrees e msgs aux) (slots_rel (length tapes) e)
      (mrel (Some []) (length tapes) (others (length tapes) e))
      (g_and (prover_gates tapes) x y) (g_and (verifier_gates (env_of tapes e msgs aux)) x' y')"
    unfolding sim_def prover_gates_def verifier_gates_def gates.simps
  proof (intro allI impI)
    fix st vst
    assume J: "rows_ok (length tapes) e st" and I: "slots_rel (length tapes) e st vst"
      and G: "agrees e msgs aux (snd (run_state (mpc_AND tapes x y) st))"
    have e: "e < length tapes" and g: "vs_gc vst = ps_gc st" using J I by (auto simp: rows_ok_def slots_rel_def)
    note step = agrees_step [OF J length_tape_lams(4) G [unfolded run_mpc_AND snd_conv]]
    show "mrel (Some []) (length tapes) (others (length tapes) e) (fst (run_state (mpc_AND tapes x y) st))
          (fst (run_state (mpc_AND_verify (env_of tapes e msgs aux) x' y') vst)) \<and>
        slots_rel (length tapes) e (snd (run_state (mpc_AND tapes x y) st))
          (snd (run_state (mpc_AND_verify (env_of tapes e msgs aux) x' y') vst))"
      using rel sim_mpc_AND [OF e env(1,2) g, unfolded env, OF step(3,2)] slots_step [OF J length_tape_lams(4) I]
      by (simp add: mrel_online run_mpc_AND)
  qed
  show "sim (rows_ok (length tapes) e) (agrees e msgs aux) (slots_rel (length tapes) e)
      (mrel (Some []) (length tapes) (others (length tapes) e))
      (g_add (prover_gates tapes) x y) (g_add (verifier_gates (env_of tapes e msgs aux)) x' y')"
    unfolding sim_def prover_gates_def verifier_gates_def gates.simps
  proof (intro allI impI)
    fix st vst
    assume J: "rows_ok (length tapes) e st" and I: "slots_rel (length tapes) e st vst"
      and G: "agrees e msgs aux (snd (run_state (mpc_ADD tapes x y) st))"
    have e: "e < length tapes" and g: "vs_gc vst = ps_gc st" using J I by (auto simp: rows_ok_def slots_rel_def)
    have len: "length (mw_l x) = length tapes" "length (mw_l y) = length tapes" using rel by (simp_all add: mrel_online)
    note step = agrees_step [OF J length_tape_lams(5) G [unfolded run_mpc_ADD snd_conv]]
    show "mrel (Some []) (length tapes) (others (length tapes) e) (fst (run_state (mpc_ADD tapes x y) st))
          (fst (run_state (mpc_ADD_verify (env_of tapes e msgs aux) x' y') vst)) \<and>
        slots_rel (length tapes) e (snd (run_state (mpc_ADD tapes x y) st))
          (snd (run_state (mpc_ADD_verify (env_of tapes e msgs aux) x' y') vst))"
      using rel sim_mpc_ADD [OF e len env(1,2) g, unfolded env, OF step(3,2)] slots_step [OF J length_tape_lams(5) I]
      by (simp add: mrel_online run_mpc_ADD)
  qed
qed (auto simp: parties_ok_def below_def prover_gates_def verifier_gates_def env_of_def dest: others_less)

subsection \<open>Prover and prover on other scratch arrays\<close>

text \<open>The arrays a run begins with do not matter: every entry is written.\<close>

lemma mrel_rerun: "mrel (Some []) n [0..<n] x y \<longleftrightarrow> length (mw_l x) = n \<and> y = x"
  by (cases x; cases y) (auto simp: mrel_def pick_def map_nth_all)

definition same_rows :: "nat \<Rightarrow> prover_state \<Rightarrow> prover_state \<Rightarrow> bool" where
  "same_rows n st st' \<longleftrightarrow> same_aux st st' \<and> rows_ok n 0 st' \<and>
     (\<forall>p<n. \<forall>i<ps_gc st. i < ySize \<longrightarrow> rows_of st' ! p ! i = rows_of st ! p ! i)"

lemma same_rows_step:
  assumes ok: "rows_ok n 0 st" and ss: "length ss = n" and rel: "same_rows n st st'"
  shows "same_rows n (prover_step corr ss st) (prover_step corr ss st')"
proof -
  have ok': "rows_ok n 0 st'" and gc: "ps_gc st' = ps_gc st" using rel by (auto simp: same_rows_def same_aux_def)
  have len: "length (rows_of s) = n \<and> (\<forall>p<n. length (rows_of s ! p) = ySize)" if "rows_ok n 0 s" for s
    using that by (auto simp: rows_ok_def rows_of_def)
  have "same_aux (prover_step corr ss st) (prover_step corr ss st')"
    using rel by (auto simp: same_rows_def same_aux_def prover_step_def nth_list_update less_Suc_eq)
  moreover have "put_column (ps_gc st) ss (rows_of st') ! p ! i = put_column (ps_gc st) ss (rows_of st) ! p ! i"
    if "p < n" "i < Suc (ps_gc st)" "i < ySize" for p i
    using that rel len [OF ok] len [OF ok'] ss
    by (auto simp: same_rows_def nth_put_column nth_list_update less_Suc_eq)
  ultimately show ?thesis
    unfolding same_rows_def rows_ok_step(2) [OF ok ss] rows_ok_step(2) [OF ok' ss] gc
    using rows_ok_step(1) [OF ok' ss] by (simp add: prover_step_def)
qed

interpretation rerun: circuit_sim "Some []" "length tapes" "[0..<length tapes]"
  "prover_gates tapes" "prover_gates tapes" "rows_ok (length tapes) 0" "\<lambda>_. True" "same_rows (length tapes)"
proof unfold_locales
  fix x y x' y' :: "u32 mw"
  show "safe (rows_ok (length tapes) 0) (\<lambda>_. True) (g_and (prover_gates tapes) x y)"
    "safe (rows_ok (length tapes) 0) (\<lambda>_. True) (g_add (prover_gates tapes) x y)"
    by (simp_all add: safe_def prover_gates_def run_mpc_AND run_mpc_ADD rows_ok_step(1))
  assume rel: "mrel (Some []) (length tapes) [0..<length tapes] x x'" "mrel (Some []) (length tapes) [0..<length tapes] y y'"
  have gc: "ps_gc st' = ps_gc st" if "same_rows (length tapes) st st'" for st st'
    using that by (simp add: same_rows_def same_aux_def)
  show "sim (rows_ok (length tapes) 0) (\<lambda>_. True) (same_rows (length tapes)) (mrel (Some []) (length tapes) [0..<length tapes])
      (g_and (prover_gates tapes) x y) (g_and (prover_gates tapes) x' y')"
    using rel unfolding sim_def mrel_rerun
    by (auto simp: prover_gates_def run_mpc_AND gc same_rows_step)
  show "sim (rows_ok (length tapes) 0) (\<lambda>_. True) (same_rows (length tapes)) (mrel (Some []) (length tapes) [0..<length tapes])
      (g_add (prover_gates tapes) x y) (g_add (prover_gates tapes) x' y')"
    using rel unfolding sim_def mrel_rerun
    by (auto simp: prover_gates_def run_mpc_ADD gc same_rows_step)
qed (auto simp: parties_ok_def below_def prover_gates_def)

subsection \<open>Counting gates\<close>

interpretation prover_count: gate_counter "prover_gates tapes" ps_gc
  by unfold_locales (simp_all add: prover_gates_def run_mpc_AND run_mpc_ADD prover_step_def)

interpretation verifier_count: gate_counter "verifier_gates env" vs_gc
  by unfold_locales (simp_all add: verifier_gates_def run_mpc_AND_verify run_mpc_ADD_verify verifier_step_def)

interpretation plain_count: gate_counter plain_gates id
  by unfold_locales (simp_all add: run_plain)

end
