(* ===== verification/Rounds.thy ===== *)
theory Rounds
  imports Mpc_Instances
begin

text \<open>
  One instance of the proof system. The prover's \<open>building_views\<close> unmasks to the statement
  evaluated in the clear and fills its arrays exactly; the correction words and the
  output-mask shares depend only on the seeds, so \<open>compute_aux_from_seeds\<close> finds the same;
  and \<open>verify\<close>, given the opening of such an instance, recomputes the transcript.
\<close>

definition statement_outputs :: "bytes \<Rightarrow> bytes \<Rightarrow> bytes \<Rightarrow> u32 list" where
  "statement_outputs md pk w = map mw_h (fst (run_state (circ_statement plain_gates md pk (masked w [])) 0))"

lemma length_masked [simp]: "length (masked d lam) = length d"
  by (simp add: masked_def mw_rows_def)

lemma nth_masked: "k < length d \<Longrightarrow> masked d lam ! k = \<lparr>mw_h = d ! k, mw_l = map (\<lambda>row. row ! k) lam\<rparr>"
  by (simp add: masked_def mw_rows_def)

lemma lrel_masked:
  assumes "length d = m" "length d' = m" "\<And>k. k < m \<Longrightarrow> mrel S n K (masked d lam ! k) (masked d' lam' ! k)"
  shows "lrel S n K m (masked d lam) (masked d' lam')"
  using assms by (simp add: lrel_def list_all2_conv_all_nth)

text \<open>The witness under the mask: the public buffer with every party's share removed.\<close>

definition unmasked :: "bytes \<Rightarrow> bytes list \<Rightarrow> bytes" where
  "unmasked d lam = map (\<lambda>k. d ! k XOR xors (map (\<lambda>row. row ! k) lam)) [0..<length d]"

lemma rel_clear:
  "length d = W_END \<Longrightarrow> lrel (Some [0..<length lam]) (length lam) [] W_END (masked d lam) (masked (unmasked d lam) [])"
  by (rule lrel_masked) (simp_all add: unmasked_def mrel_clear nth_masked unmask_def)

lemma rel_preproc:
  "length d = W_END \<Longrightarrow> length d' = W_END \<Longrightarrow>
     lrel None (length lam) [0..<length lam] W_END (masked d lam) (masked d' lam)"
  by (rule lrel_masked) (simp_all add: mrel_preproc nth_masked)

lemma rel_online:
  "length d = W_END \<Longrightarrow>
     lrel (Some []) (length lam) (others (length lam) e) W_END (masked d lam) (masked d (pick (others (length lam) e) lam))"
  by (rule lrel_masked) (simp_all add: mrel_online nth_masked restrict_def pick_map others_less)

subsection \<open>The evaluation in the clear\<close>

definition prover_run ::
  "bytes \<Rightarrow> bytes \<Rightarrow> bytes \<Rightarrow> bytes list \<Rightarrow> bytes list \<Rightarrow> u32 list \<Rightarrow> u32 list list option \<Rightarrow> u32 mw list \<times> prover_state" where
  "prover_run md pk d lam tapes aux s_all =
     run_state (circ_statement (prover_gates tapes) md pk (masked d lam)) \<lparr>ps_gc = 0, ps_aux = aux, ps_s_all = s_all\<rparr>"

lemma building_views_run:
  "building_views B md pk d lam tapes aux s_all r_j =
     (let run = prover_run md pk d lam tapes aux s_all
      in \<lparr>v_yp = map (\<lambda>i. share i (fst run)) [0..<length tapes],
          v_h_prime = map_option (\<lambda>s. compute_h_prime B (length tapes) d s r_j) (ps_s_all (snd run)),
          v_zh = map mw_h (fst run), v_aux = ps_aux (snd run), v_s_all = ps_s_all (snd run),
          v_gates = ps_gc (snd run)\<rparr>)"
  by (simp add: building_views_def prover_run_def split: prod.split)

lemma prover_run_gates:
  "length d = W_END \<Longrightarrow> length pk = 16 \<Longrightarrow> ps_gc (snd (prover_run md pk d lam tapes aux s_all)) = ySize"
  using prover_count.yields_statement [of "masked d lam" pk tapes md]
  by (simp add: prover_run_def yields_def)

lemma prover_run_clear:
  assumes "tapes \<noteq> []" "length lam = length tapes" "length d = W_END" "length pk = 16"
  shows "lrel (Some [0..<length tapes]) (length tapes) [] 8 (fst (prover_run md pk d lam tapes aux s_all))
           (fst (run_state (circ_statement plain_gates md pk (masked (unmasked d lam) [])) 0))"
proof -
  obtain t ts where tapes: "tapes = t # ts" using assms(1) by (cases tapes) auto
  have "lrel (Some [0..<Suc (length ts)]) (Suc (length ts)) [] W_END (masked d lam) (masked (unmasked d lam) [])"
    using rel_clear [OF assms(3), of lam] assms(2) by (simp add: tapes del: upt_Suc)
  from clear.sim_statement [OF this, of md md pk pk t] assms(4) show ?thesis
    unfolding sim_def prover_run_def tapes
    by (simp add: pub_refl del: upt_Suc) (metis prover_state.select_convs(1))
qed

lemma unmask_outputs:
  assumes rel: "lrel (Some [0..<n]) n [] m outs plain" and "i < m"
  shows "map mw_h outs ! i XOR xors (map (\<lambda>p. share p outs ! i) [0..<n]) = map mw_h plain ! i"
proof -
  have "length (mw_l (outs ! i)) = n" "mw_h (plain ! i) = unmask (outs ! i)" "length outs = m" "length plain = m"
    using lrel_nth [OF assms] lrel_lengths [OF rel] by (simp_all add: mrel_clear)
  then show ?thesis using assms(2) by (simp add: share_def unmask_def map_nth_all)
qed

lemma views_outputs:
  assumes "tapes \<noteq> []" "length lam = length tapes" "length d = W_END" "length pk = 16" "i < 8"
  shows "v_zh (building_views B md pk d lam tapes aux s_all r_j) ! i
           XOR xors (map (\<lambda>row. row ! i) (v_yp (building_views B md pk d lam tapes aux s_all r_j)))
         = statement_outputs md pk (unmasked d lam) ! i"
  using unmask_outputs [OF prover_run_clear [OF assms(1-4)] assms(5), of md aux s_all]
  by (simp add: building_views_run Let_def statement_outputs_def comp_def)

lemma length_statement_outputs:
  assumes "length w = W_END" "length pk = 16"
  shows "length (statement_outputs md pk w) = 8"
proof -
  have "unmasked w [replicate W_END 0] = w"
    using assms(1) by (intro nth_equalityI) (simp_all add: unmasked_def)
  then show ?thesis
    using lrel_lengths(2) [OF prover_run_clear [of "[[]]" "[replicate W_END 0]" w pk md]] assms
    by (simp add: statement_outputs_def)
qed

subsection \<open>The correction words\<close>

lemma preproc_run:
  assumes "length lam = length tapes" "length d = W_END" "length d' = W_END" "length pk = 16" "length pk' = 16"
    and "length aux = ySize" "length aux' = ySize"
  shows "ps_aux (snd (prover_run md' pk' d' lam tapes aux' s_all')) = ps_aux (snd (prover_run md pk d lam tapes aux s_all))"
    and "length (ps_aux (snd (prover_run md pk d lam tapes aux s_all))) = ySize"
    and "i < length tapes \<Longrightarrow>
      share i (fst (prover_run md' pk' d' lam tapes aux' s_all')) = share i (fst (prover_run md pk d lam tapes aux s_all))"
proof -
  have rel: "lrel None (length tapes) [0..<length tapes] W_END (masked d lam) (masked e lam)" if "length e = W_END" for e
    using rel_preproc [OF assms(2) that, of lam] assms(1) by simp
  have init: "same_aux \<lparr>ps_gc = 0, ps_aux = aux, ps_s_all = s\<rparr> \<lparr>ps_gc = 0, ps_aux = aux', ps_s_all = s'\<rparr>"
    if "length aux = length aux'" for s s' and aux aux' :: "u32 list" using that by (simp add: same_aux_def)
  let ?st = "snd (prover_run md pk d lam tapes aux s_all)"
  have both: "lrel None (length tapes) [0..<length tapes] 8 (fst (prover_run md pk d lam tapes aux s_all))
      (fst (prover_run md' pk' d' lam tapes aux' s_all'))
    \<and> same_aux ?st (snd (prover_run md' pk' d' lam tapes aux' s_all'))"
    using preproc.sim_statement [OF rel [OF assms(3)], of md md' pk pk'] init [of aux aux' s_all s_all'] assms
    by (simp add: sim_def prover_run_def pub_def)
  show len: "length (ps_aux ?st) = ySize"
    using preproc.safe_statement [of tapes md pk "masked d lam"] assms(6) by (simp add: safe_def prover_run_def)
  show "ps_aux (snd (prover_run md' pk' d' lam tapes aux' s_all')) = ps_aux ?st"
    using both len prover_run_gates [OF assms(2,4), of md lam tapes aux s_all]
    by (intro nth_equalityI) (simp_all add: same_aux_def)
  show "i < length tapes \<Longrightarrow> share i (fst (prover_run md' pk' d' lam tapes aux' s_all')) =
      share i (fst (prover_run md pk d lam tapes aux s_all))"
    using both unfolding share_def by (auto simp: lrel_def list_all2_conv_all_nth mrel_preproc intro!: nth_equalityI)
qed

lemma compute_aux_correct:
  fixes md r_j :: bytes and s_all :: "u32 list list option" and aux0 :: "u32 list"
  assumes seeds: "length seeds = N_PARTIES prm" and d: "length d = W_END" and pk: "length pk = 16"
    and aux: "length aux = ySize" "length aux0 = ySize" and ok: "malloc_ok P TAPE_SIZE" "malloc_ok P INPUT_LEN"
  defines "v \<equiv> building_views (b3 P) md pk d (map (expand_xshare (b3 P)) seeds) (map (expand_tape (b3 P)) seeds) aux s_all r_j"
  shows "compute_aux_from_seeds P prm seeds aux0 = (v_aux v, KKW_TH (b3 P) KKW_DOM_HOUT (words_le (concat (v_yp v))))"
proof -
  let ?lam = "map (expand_xshare (b3 P)) seeds" and ?tapes = "map (expand_tape (b3 P)) seeds"
  let ?run = "\<lambda>md pk d aux s. prover_run md pk d ?lam ?tapes aux s"
  let ?zero = "?run (replicate 32 0) (replicate XMSS_PK_SEED_BYTES 0) (replicate INPUT_LEN 0) aux0 None"
  have run: "ps_aux (snd ?zero) = ps_aux (snd (?run md pk d aux s_all))"
    "i < length ?tapes \<Longrightarrow> share i (fst ?zero) = share i (fst (?run md pk d aux s_all))" for i
    by (rule preproc_run; simp add: d pk aux INPUT_LEN_def XMSS_PK_SEED_BYTES_def)+
  have "v_aux v = ps_aux (snd ?zero)"
    using run(1) by (simp add: v_def building_views_run Let_def)
  moreover have "v_yp v = map (\<lambda>i. share i (fst ?zero)) [0..<length ?tapes]"
    using run(2) by (simp add: v_def building_views_run Let_def)
  ultimately show ?thesis
    using seeds ok by (simp add: compute_aux_from_seeds_def building_views_run [of _ "replicate 32 0"] Let_def)
qed

subsection \<open>The opened instance\<close>

lemma online_run:
  fixes md :: bytes and msgs vaux :: "u32 list"
  assumes e: "e < length tapes" and lam: "length lam = length tapes" and d: "length d = W_END" and pk: "length pk = 16"
    and aux: "length aux = ySize" and rows: "length rows = length tapes" "\<forall>r\<in>set rows. length r = ySize"
    and slots: "length slots = length tapes - 1" "\<forall>r\<in>set slots. length r = ySize"
  defines "pr \<equiv> prover_run md pk d lam tapes aux (Some rows)"
  assumes msgs: "msgs = rows_of (snd pr) ! e" and vaux: "e \<noteq> 0 \<Longrightarrow> vaux = ps_aux (snd pr)"
  defines "vr \<equiv> run_state (circ_statement (verifier_gates (env_of tapes e msgs vaux)) md pk
                  (masked d (pick (others (length tapes) e) lam))) \<lparr>vs_gc = 0, vs_s_slots = slots\<rparr>"
  shows "map mw_h (fst vr) = map mw_h (fst pr)"
    and "j < length tapes - 1 \<Longrightarrow> share j (fst vr) = share (orig j e) (fst pr)"
    and "vs_s_slots (snd vr) = pick (others (length tapes) e) (rows_of (snd pr))"
    and "rows_ok (length tapes) e (snd pr)"
proof -
  let ?n = "length tapes"
  have J: "rows_ok ?n e \<lparr>ps_gc = 0, ps_aux = aux, ps_s_all = Some rows\<rparr>"
    using e aux rows by (simp add: rows_ok_def)
  have I: "slots_rel ?n e \<lparr>ps_gc = 0, ps_aux = aux, ps_s_all = Some rows\<rparr> \<lparr>vs_gc = 0, vs_s_slots = slots\<rparr>"
    using slots by (simp add: slots_rel_def)
  have gc: "ps_gc (snd pr) = ySize" unfolding pr_def by (rule prover_run_gates [OF d pk])
  have G: "agrees e msgs vaux (snd pr)"
    using gc vaux by (auto simp: agrees_def msgs)
  show J': "rows_ok ?n e (snd pr)"
    using online.safe_statement [of tapes e msgs vaux md pk "masked d lam"] J by (simp add: safe_def pr_def prover_run_def)
  have "lrel (Some []) ?n (others ?n e) W_END (masked d lam) (masked d (pick (others ?n e) lam))"
    using rel_online [OF d, of lam e] by (simp add: lam)
  from online.sim_statement [OF this, of md md pk pk msgs vaux]
  have both: "lrel (Some []) ?n (others ?n e) 8 (fst pr) (fst vr) \<and> slots_rel ?n e (snd pr) (snd vr)"
    using J I G pk unfolding sim_def pr_def vr_def prover_run_def by (simp add: pub_refl)
  then have rel: "lrel (Some []) ?n (others ?n e) 8 (fst pr) (fst vr)" and sl: "slots_rel ?n e (snd pr) (snd vr)" by auto
  have nth: "fst vr ! i = restrict (others ?n e) (fst pr ! i)" "i < 8 \<Longrightarrow> length (mw_l (fst pr ! i)) = ?n" if "i < 8" for i
    using lrel_nth [OF rel that] by (simp_all add: mrel_online)
  show "map mw_h (fst vr) = map mw_h (fst pr)"
    using nth lrel_lengths [OF rel] by (intro nth_equalityI) (simp_all add: restrict_def)
  show "share j (fst vr) = share (orig j e) (fst pr)" if "j < ?n - 1"
    using nth lrel_lengths [OF rel] that unfolding share_def by (intro nth_equalityI) (simp_all add: restrict_def)
  have rows_len: "\<And>p. p < ?n \<Longrightarrow> length (rows_of (snd pr) ! p) = ySize"
    using J' by (auto simp: rows_ok_def rows_of_def)
  show "vs_s_slots (snd vr) = pick (others ?n e) (rows_of (snd pr))"
  proof (rule nth_equalityI)
    show "length (vs_s_slots (snd vr)) = length (pick (others ?n e) (rows_of (snd pr)))"
      using sl by (simp add: slots_rel_def)
    fix j assume "j < length (vs_s_slots (snd vr))"
    then have j: "j < ?n - 1" using sl by (simp add: slots_rel_def)
    then have "orig j e < ?n" by (auto simp: orig_def)
    then show "vs_s_slots (snd vr) ! j = pick (others ?n e) (rows_of (snd pr)) ! j"
      using sl j rows_len gc by (intro nth_equalityI) (auto simp: slots_rel_def)
  qed
qed

lemma concat_words_le: "words_le (concat ws) = concat (map words_le ws)"
  by (induction ws) (simp_all add: words_le_def)

lemma length_words_le [simp]: "length (words_le ws) = 4 * length ws"
  by (induction ws) (simp_all add: words_le_def)

lemma compute_h_prime_eq:
  assumes "b3_length B" "length d = INPUT_LEN" "length rows = n" "\<forall>r\<in>set rows. length r = ySize" "length r_j = 32"
  shows "compute_h_prime B n d rows r_j = th B KKW_DOM_HPRIME (d @ words_le (concat rows) @ r_j) 32"
proof -
  have "length (concat rows) = n * ySize" using assms length_concat_const [of rows ySize] by auto
  then have len: "length (words_le (concat rows)) = n * ySize * 4" by simp
  have "compute_h_prime B n d rows r_j =
      th_stream B KKW_DOM_HPRIME (map (\<lambda>d. (Some d, length d)) [d, words_le (concat rows), r_j]) 32"
    using assms by (simp add: compute_h_prime_def len del: length_words_le)
  then show ?thesis
    using th_stream_eq [OF assms(1), of KKW_DOM_HPRIME 32 "[d, words_le (concat rows), r_j]"]
    by (simp add: KKW_DOM_HPRIME_def BLAKE3_TH_MAX_DOMAIN_def BLAKE3_OUT_LEN_def)
qed

lemma recompute_h_prime_eq:
  assumes B: "b3_length B" and d: "length d = INPUT_LEN" and n: "length rows = n" and rows: "\<forall>r\<in>set rows. length r = ySize"
    and r: "length r_j = 32" and e: "e < n"
  shows "recompute_h_prime_verify B n e d (pick (others n e) rows) (rows ! e) r_j = compute_h_prime B n d rows r_j"
proof -
  have row: "(if p = e then rows ! e else pick (others n e) rows ! (if p < e then p else p - 1)) = rows ! p" if "p < n" for p
    using that e by (auto simp: orig_def)
  have "map (\<lambda>p. (Some (words_le (if p = e then rows ! e else pick (others n e) rows ! (if p < e then p else p - 1))), ySize * 4)) [0..<n]
      = map (\<lambda>d. (Some d, length d)) (map words_le rows)"
    using n rows by (intro nth_equalityI) (simp_all only: row length_map length_upt nth_map nth_upt minus_nat.diff_0 add_0 length_words_le, simp)
  then have "recompute_h_prime_verify B n e d (pick (others n e) rows) (rows ! e) r_j =
      th_stream B KKW_DOM_HPRIME (map (\<lambda>d. (Some d, length d)) ([d] @ map words_le rows @ [r_j])) 32"
    using d r by (simp add: recompute_h_prime_verify_def)
  then show ?thesis
    using th_stream_eq [OF B, of KKW_DOM_HPRIME 32 "[d] @ map words_le rows @ [r_j]"] compute_h_prime_eq [OF B d n rows r]
    by (simp add: KKW_DOM_HPRIME_def BLAKE3_TH_MAX_DOMAIN_def BLAKE3_OUT_LEN_def concat_words_le)
qed

text \<open>What the verifier holds of an opened round.\<close>

definition opens :: "nat \<Rightarrow> nat \<Rightarrow> bytes list \<Rightarrow> bytes \<Rightarrow> views \<Rightarrow> bytes \<Rightarrow> kkw_z \<Rightarrow> bool" where
  "opens n e seeds d v r_j zp \<longleftrightarrow>
     z_ke zp = pick (others n e) seeds \<and> z_x_offset zp = d \<and> z_r_j zp = r_j \<and>
     z_msgs_e zp = compute_msgs_e e (case v_s_all v of None \<Rightarrow> [] | Some s \<Rightarrow> s) \<and>
     (e \<noteq> 0 \<longrightarrow> z_aux zp = v_aux v)"

lemma verify_accepts:
  fixes md r_j :: bytes and seeds :: "bytes list"
  assumes P: "b3_length (b3 P)" "\<And>k. malloc_ok P k"
    and n: "length seeds = N_PARTIES prm" and e: "e < N_PARTIES prm"
    and d: "length d = W_END" and pk: "length pk = 16" and r: "length r_j = 32"
    and aux: "length aux = ySize" and rows: "length rows = N_PARTIES prm" "\<forall>r\<in>set rows. length r = ySize"
  defines "v \<equiv> building_views (b3 P) md pk d (map (expand_xshare (b3 P)) seeds) (map (expand_tape (b3 P)) seeds) aux (Some rows) r_j"
  assumes zp: "opens (N_PARTIES prm) e seeds d v r_j zp"
  shows "verify P prm md pk error (v_yp v) e zp = Some (error, the (v_h_prime v), v_zh v)"
proof -
  let ?n = "N_PARTIES prm" and ?tapes = "map (expand_tape (b3 P)) seeds" and ?lam = "map (expand_xshare (b3 P)) seeds"
  let ?run = "prover_run md pk d ?lam ?tapes aux (Some rows)"
  have slots: "length (replicate (?n - 1) (replicate ySize (0 :: u32))) = length ?tapes - 1"
    "\<forall>r\<in>set (replicate (?n - 1) (replicate ySize (0 :: u32))). length r = ySize" using n by simp_all
  have rok: "rows_ok ?n e (snd ?run)"
    using online_run(4) [of e ?tapes ?lam d pk aux rows "replicate (?n - 1) (replicate ySize 0)", OF _ _ d pk aux _ _ slots]
    n e rows by simp
  then have s_all: "ps_s_all (snd ?run) = Some (rows_of (snd ?run))" "length (rows_of (snd ?run)) = ?n"
    "\<forall>r\<in>set (rows_of (snd ?run)). length r = ySize"
    by (auto simp: rows_ok_def rows_of_def)
  have zp': "z_ke zp = pick (others ?n e) seeds" "z_x_offset zp = d" "z_r_j zp = r_j"
    "z_msgs_e zp = rows_of (snd ?run) ! e" "e \<noteq> 0 \<Longrightarrow> z_aux zp = ps_aux (snd ?run)"
    using zp s_all(1) by (auto simp: opens_def v_def building_views_run compute_msgs_e_def Let_def)
  note on = online_run(1-3) [of e ?tapes ?lam d pk aux rows "replicate (?n - 1) (replicate ySize 0)",
      OF _ _ d pk aux _ _ slots zp'(4) zp'(5)]
  have tapes: "map (\<lambda>j. f (z_ke zp ! j)) [0..<?n - 1] = pick (others ?n e) (map f seeds)" for f :: "bytes \<Rightarrow> bytes"
    using n others_less [of _ ?n e] by (simp add: zp' pick_map) (rule nth_equalityI, simp_all)
  have env: "\<lparr>ve_tapes = pick (others ?n e) ?tapes, ve_e = e, ve_msgs_e = z_msgs_e zp, ve_aux = z_aux zp\<rparr> =
      env_of ?tapes e (z_msgs_e zp) (z_aux zp)" using n by (simp add: env_of_def)
  have yp: "share (orig j e) (fst ?run) = v_yp v ! orig j e" if "j < ?n - 1" for j
  proof -
    have "orig j e < ?n" using that by (auto simp: orig_def)
    then show ?thesis using n by (simp add: v_def building_views_run Let_def)
  qed
  let ?vr = "run_state (circ_statement (verifier_gates (env_of ?tapes e (z_msgs_e zp) (z_aux zp))) md pk
    (masked d (pick (others ?n e) ?lam))) \<lparr>vs_gc = 0, vs_s_slots = replicate (?n - 1) (replicate ySize 0)\<rparr>"
  have vr: "map mw_h (fst ?vr) = map mw_h (fst ?run)" "\<And>j. j < ?n - 1 \<Longrightarrow> share j (fst ?vr) = share (orig j e) (fst ?run)"
    "vs_s_slots (snd ?vr) = pick (others ?n e) (rows_of (snd ?run))"
    using on n e rows by simp_all
  have "verify P prm md pk error (v_yp v) e zp =
      Some (error \<or> \<not> list_all (\<lambda>j. share j (fst ?vr) = v_yp v ! orig j e) [0..<?n - 1],
            recompute_h_prime_verify (b3 P) ?n e d (vs_s_slots (snd ?vr)) (z_msgs_e zp) r_j, map mw_h (fst ?vr))"
    unfolding verify_def Let_def tapes zp'(2,3) env split_beta verify_statement_eq by (simp only: P(2) simp_thms if_False)
  moreover have "list_all (\<lambda>j. share j (fst ?vr) = v_yp v ! orig j e) [0..<?n - 1]"
    using vr(2) yp by (simp add: list_all_iff)
  moreover have "recompute_h_prime_verify (b3 P) ?n e d (vs_s_slots (snd ?vr)) (z_msgs_e zp) r_j = the (v_h_prime v)"
    unfolding vr(3) unfolding zp'(4)
    using recompute_h_prime_eq [OF P(1), of d "rows_of (snd ?run)" ?n r_j e] d s_all r e n
    by (simp add: v_def building_views_run Let_def INPUT_LEN_def)
  moreover have "map mw_h (fst ?vr) = v_zh v" unfolding vr(1) by (simp add: v_def building_views_run Let_def)
  ultimately show ?thesis by (simp only: simp_thms)
qed

subsection \<open>Independence of the scratch arrays\<close>

definition scratch_ok :: "nat \<Rightarrow> u32 list \<times> u32 list list \<Rightarrow> bool" where
  "scratch_ok n m \<longleftrightarrow> length (fst m) = ySize \<and> length (snd m) = n \<and> (\<forall>r\<in>set (snd m). length r = ySize)"

lemma rerun_views:
  assumes "scratch_ok (length tapes) (aux, rows)" "scratch_ok (length tapes) (aux', rows')" "tapes \<noteq> []"
    and "length lam = length tapes" "length d = W_END" "length pk = 16"
  shows "building_views B md pk d lam tapes aux' (Some rows') r_j = building_views B md pk d lam tapes aux (Some rows) r_j"
proof -
  let ?n = "length tapes" and ?run = "prover_run md pk d lam tapes"
  have J: "rows_ok ?n 0 \<lparr>ps_gc = 0, ps_aux = a, ps_s_all = Some r\<rparr>" if "scratch_ok ?n (a, r)" for a r
    using that assms(3) by (simp add: rows_ok_def scratch_ok_def)
  have len: "length aux = ySize" "length aux' = ySize" using assms(1,2) by (simp_all add: scratch_ok_def)
  have I: "same_rows ?n \<lparr>ps_gc = 0, ps_aux = aux, ps_s_all = Some rows\<rparr> \<lparr>ps_gc = 0, ps_aux = aux', ps_s_all = Some rows'\<rparr>"
    using J [OF assms(2)] len by (simp add: same_rows_def same_aux_def)
  have m: "lrel (Some []) ?n [0..<?n] W_END (masked d lam) (masked d lam)"
    by (rule lrel_masked) (simp_all add: assms mrel_rerun nth_masked)
  have st: "rows_ok ?n 0 (snd (?run aux (Some rows)))"
    using rerun.safe_statement [of tapes md pk "masked d lam"] J [OF assms(1)] by (simp add: safe_def prover_run_def)
  have both: "lrel (Some []) ?n [0..<?n] 8 (fst (?run aux (Some rows))) (fst (?run aux' (Some rows')))
      \<and> same_rows ?n (snd (?run aux (Some rows))) (snd (?run aux' (Some rows')))"
    using rerun.sim_statement [OF m, of md md pk pk] J [OF assms(1)] I assms(6) by (simp add: sim_def prover_run_def pub_refl)
  have gc: "ps_gc (snd (?run a s)) = ySize" for a s by (rule prover_run_gates [OF assms(5,6)])
  have outs: "fst (?run aux' (Some rows')) = fst (?run aux (Some rows))"
    using both by (intro nth_equalityI) (auto simp: lrel_def list_all2_conv_all_nth mrel_rerun)
  have "ps_aux (snd (?run aux' (Some rows'))) = ps_aux (snd (?run aux (Some rows)))"
    by (rule preproc_run(1)) (simp_all add: assms len)
  moreover have "ps_s_all (snd (?run aux' (Some rows'))) = ps_s_all (snd (?run aux (Some rows)))"
  proof -
    obtain r r' where r: "ps_s_all (snd (?run aux (Some rows))) = Some r" "length r = ?n" "\<forall>x\<in>set r. length x = ySize"
      and r': "ps_s_all (snd (?run aux' (Some rows'))) = Some r'" "length r' = ?n" "\<forall>x\<in>set r'. length x = ySize"
      using st both by (auto simp: rows_ok_def same_rows_def)
    have "r' ! p ! i = r ! p ! i" if "p < ?n" "i < ySize" for p i
      using both that gc by (simp add: same_rows_def rows_of_def r r')
    then have "r' = r" using r r' by (intro nth_equalityI) auto
    then show ?thesis by (simp add: r r')
  qed
  ultimately show ?thesis using outs gc by (simp add: building_views_run Let_def)
qed

end
