(* ===== verification/Kkw_Correct.thy ===== *)
theory Kkw_Correct
  imports Challenge Rounds
begin

text \<open>
  Every proof the prover writes is accepted by the verifier: the file is read back field
  by field, both sides derive the same challenge, and the recomputed hashes of opened and
  unopened instances are the ones the prover committed to.
\<close>

subsection \<open>Reading the file back\<close>

lemma fread_append: "length bs = n \<Longrightarrow> fread n (bs @ rest) = Some (bs, rest)"
  by (simp add: fread_def)

lemma load_le_bytes_le_u32 [simp]: "load_le (bytes_le 4 (v :: u32)) = v"
  by (rule load_le_bytes_le) simp

lemma words_of_words_le: "length ws = n \<Longrightarrow> words_of n (words_le ws) = ws"
  unfolding words_of_def words_le_def by (subst blocks_concat0) (auto simp: comp_def)

text \<open>The sizes of the fields of a round.\<close>

definition round_wf :: "kkw_params \<Rightarrow> nat \<Rightarrow> kkw_round \<Rightarrow> bool" where
  "round_wf prm e r \<longleftrightarrow>
     length (rd_yp r) = N_PARTIES prm \<and> (\<forall>y\<in>set (rd_yp r). length y = 8) \<and>
     length (z_ke (rd_z r)) = N_PARTIES prm - 1 \<and> (\<forall>k\<in>set (z_ke (rd_z r)). length k = SEED_SIZE) \<and>
     length (z_x_offset (rd_z r)) = INPUT_LEN \<and> length (z_aux (rd_z r)) = ySize \<and>
     length (z_msgs_e (rd_z r)) = ySize \<and> length (z_com_hidden (rd_z r)) = 32 \<and> length (z_r_j (rd_z r)) = 32"

text \<open>What a reader sees of a round: without the correction words when party 0 is hidden.\<close>

definition round_seen :: "nat \<Rightarrow> kkw_round \<Rightarrow> kkw_round" where
  "round_seen e r = (if e = 0 then r\<lparr>rd_z := (rd_z r)\<lparr>z_aux := replicate ySize 0\<rparr>\<rparr> else r)"

lemma blocks_zero: "blocks 4 n (replicate (n * 4) (0 :: byte)) = replicate n (replicate 4 0)"
  by (rule nth_equalityI) (auto simp: nth_blocks segment_def)

lemma read_round_correct:
  assumes "round_wf prm e r"
  shows "read_round prm e (concat (kkw_round_chunks e r) @ rest) = Some (round_seen e r, rest)"
proof -
  obtain yp z where r: "r = \<lparr>rd_yp = yp, rd_z = z\<rparr>" by (cases r)
  have yp: "length (concat yp) = N_PARTIES prm * 8"
    using assms length_concat_const [of yp 8] by (simp add: round_wf_def r)
  have ke: "length (concat (z_ke z)) = (N_PARTIES prm - 1) * SEED_SIZE"
    using assms length_concat_const [of "z_ke z" SEED_SIZE] by (simp add: round_wf_def r)
  have zero: "words_of ySize (replicate (ySize * 4) 0) = replicate ySize 0"
    by (simp add: words_of_def blocks_zero) (simp add: eval_nat_numeral)
  show ?thesis
    using assms yp ke
    by (cases "e = 0"; cases z)
       (auto simp: read_round_def kkw_round_chunks_def r fread_append words_of_words_le blocks_concat0 round_wf_def
         round_seen_def zero mult.commute)
qed

lemma read_rounds_correct:
  assumes "list_all2 (round_wf prm) es rs"
  shows "read_rounds prm es (concat (concat (map2 kkw_round_chunks es rs)) @ rest) = Some (map2 round_seen es rs, rest)"
  using assms by (induction rule: list_all2_induct) (simp_all add: read_round_correct)

lemma read_preps_correct:
  assumes "\<forall>j\<in>set js. length (a j) = SEED_SIZE \<and> length (b j) = 32"
  shows "read_preps js (concat (concat (map (\<lambda>j. [a j, b j]) js)) @ rest) = Some (map (\<lambda>j. (a j, b j)) js, rest)"
  using assms by (induction js) (simp_all add: fread_append)

lemma chunks_filter:
  "concat (map (\<lambda>j. if j \<in> C then [] else f j) js) = concat (map f (filter (\<lambda>j. j \<notin> C) js))"
  by (induction js) auto

lemma read_header_correct: "read_header prm (kkw_magic @ words_le (kkw_header prm) @ rest) = Some rest"
proof -
  have "length kkw_magic = 4" by (simp add: kkw_magic_def)
  then show ?thesis
    by (simp add: read_header_def fread_append kkw_header_def words_of_words_le)
qed

subsection \<open>The two sides agree\<close>

lemma blake3_th_into_length:
  "b3_length B \<Longrightarrow> length dm \<le> 28 \<Longrightarrow> n \<le> 32 \<Longrightarrow> length (blake3_th_into B dm data n) = n"
  by (simp add: blake3_th_into_eq th_def b3_length_def BLAKE3_TH_MAX_DOMAIN_def BLAKE3_OUT_LEN_def)

lemma expand_seed_star_sizes:
  assumes "b3_length B"
  shows "length (expand_seed_star B prm s) = N_PARTIES prm" "\<forall>k\<in>set (expand_seed_star B prm s). length k = SEED_SIZE"
proof -
  show "length (expand_seed_star B prm s) = N_PARTIES prm" by (simp add: expand_seed_star_def)
  show "\<forall>k\<in>set (expand_seed_star B prm s). length k = SEED_SIZE"
    using assms by (auto simp: expand_seed_star_def in_set_conv_nth length_blake3_keyed_xof intro!: length_nth_blocks)
qed

lemma length_expand_xshare: "b3_length B \<Longrightarrow> length (expand_xshare B s) = INPUT_LEN"
  by (simp add: expand_xshare_def length_blake3_keyed_xof)

lemma length_fold_xor:
  "\<forall>l\<in>set lam. length l = length d \<Longrightarrow> length (fold (\<lambda>l d. map2 (XOR) d l) lam d) = length d"
  for d :: bytes
  by (induction lam arbitrary: d) auto

text \<open>The instance of a seed, as every run of the prover sees it.\<close>

definition instance_views :: "b3 \<Rightarrow> kkw_params \<Rightarrow> u32 list \<times> u32 list list \<Rightarrow> bytes \<Rightarrow> bytes \<Rightarrow> bytes \<Rightarrow> bytes \<Rightarrow> bytes \<Rightarrow> views" where
  "instance_views B prm m input m_hat pk_seed seed_star r_j =
     (let (seeds, lam, tapes, d) = expand_instance_into B prm seed_star input
      in building_views B m_hat pk_seed d lam tapes (fst m) (Some (snd m)) r_j)"

lemma instance_inputs:
  assumes "b3_length B" "length input = INPUT_LEN" "expand_instance_into B prm s input = (seeds, lam, tapes, d)"
  shows "seeds = expand_seed_star B prm s" "lam = map (expand_xshare B) seeds" "tapes = map (expand_tape B) seeds"
    "length seeds = N_PARTIES prm" "length d = W_END"
proof -
  have eq: "seeds = expand_seed_star B prm s" "lam = map (expand_xshare B) seeds" "tapes = map (expand_tape B) seeds"
    "d = fold (\<lambda>l d. map2 (XOR) d l) lam input"
    using assms(3) by (auto simp: expand_instance_into_def Let_def)
  then show "seeds = expand_seed_star B prm s" "lam = map (expand_xshare B) seeds" "tapes = map (expand_tape B) seeds"
    by auto
  show "length seeds = N_PARTIES prm" using eq(1) assms(1) by (simp add: expand_seed_star_sizes)
  show "length d = W_END"
    using eq assms(1,2) length_fold_xor [of lam input] by (simp add: length_expand_xshare INPUT_LEN_def)
qed

lemma instance_rerun:
  assumes "b3_length B" "length input = INPUT_LEN" "length pk_seed = 16" "0 < N_PARTIES prm"
    and "scratch_ok (N_PARTIES prm) m" "scratch_ok (N_PARTIES prm) m'"
  shows "instance_views B prm m' input m_hat pk_seed s r_j = instance_views B prm m input m_hat pk_seed s r_j"
proof -
  obtain seeds lam tapes d where e: "expand_instance_into B prm s input = (seeds, lam, tapes, d)"
    by (metis prod_cases4)
  note i = instance_inputs [OF assms(1,2) e]
  have tapes: "length tapes = N_PARTIES prm" "tapes \<noteq> []" using i assms(4) by auto
  show ?thesis
    unfolding instance_views_def Let_def e prod.case
    by (rule rerun_views) (use i tapes assms in auto)
qed

lemma views_sizes:
  fixes B :: b3 and md r_j :: bytes
  assumes "length lam = length tapes" "length d = W_END" "length pk = 16" "scratch_ok (length tapes) (aux, rows)" "tapes \<noteq> []"
  defines "v \<equiv> building_views B md pk d lam tapes aux (Some rows) r_j"
  shows "length (v_yp v) = length tapes" "\<forall>y\<in>set (v_yp v). length y = 8" "length (v_aux v) = ySize"
    and "\<exists>s. v_s_all v = Some s \<and> length s = length tapes \<and> (\<forall>r\<in>set s. length r = ySize)
           \<and> v_h_prime v = Some (compute_h_prime B (length tapes) d s r_j)"
proof -
  let ?run = "prover_run md pk d lam tapes aux (Some rows)"
  have "length (fst ?run) = 8" using lrel_lengths(1) [OF prover_run_clear [OF assms(5,1,2,3)]] .
  then show "length (v_yp v) = length tapes" "\<forall>y\<in>set (v_yp v). length y = 8"
    by (auto simp: v_def building_views_run Let_def share_def)
  have aux: "length aux = ySize" using assms(4) by (simp add: scratch_ok_def)
  show "length (v_aux v) = ySize"
    using preproc_run(2) [of lam tapes d d pk pk aux aux md "Some rows"] assms(1-3) aux
    by (simp add: v_def building_views_run Let_def)
  have "rows_ok (length tapes) 0 (snd ?run)"
    using rerun.safe_statement [of tapes md pk "masked d lam"] assms(4,5)
    by (auto simp: safe_def prover_run_def rows_ok_def scratch_ok_def)
  then show "\<exists>s. v_s_all v = Some s \<and> length s = length tapes \<and> (\<forall>r\<in>set s. length r = ySize)
      \<and> v_h_prime v = Some (compute_h_prime B (length tapes) d s r_j)"
    by (auto simp: v_def building_views_run Let_def rows_ok_def)
qed

lemma compute_h_prime_length:
  "b3_length B \<Longrightarrow> length d = INPUT_LEN \<Longrightarrow> length rows = n \<Longrightarrow> \<forall>r\<in>set rows. length r = ySize \<Longrightarrow> length r_j = 32 \<Longrightarrow>
     length (compute_h_prime B n d rows r_j) = 32"
  using compute_h_prime_eq [of B d rows n r_j] by (simp add: th_def b3_length_def)

text \<open>The unopened instances.\<close>

lemma check_prep_correct:
  fixes m_hat :: bytes and pubout :: "u32 list" and ss rs :: "bytes list"
  assumes P: "b3_length (b3 P)" "\<And>k. malloc_ok P k"
    and input: "length input = INPUT_LEN" and pk: "length pk_seed = 16" and N: "0 < N_PARTIES prm"
    and mem: "scratch_ok (N_PARTIES prm) (memp j)" "length (fst (mem j)) = ySize"
  defines "x \<equiv> kkw_pass1 (b3 P) prm memp input m_hat pk_seed pubout ss rs j"
  assumes ok: "in_ok x"
  shows "kkw_check_prep P prm mem j (ss ! j, in_h_prime x) = x"
proof -
  obtain seeds lam tapes d where e: "expand_instance_into (b3 P) prm (ss ! j) input = (seeds, lam, tapes, d)"
    by (metis prod_cases4)
  note i = instance_inputs [OF P(1) input e]
  obtain aux s where m: "memp j = (aux, s)" by fastforce
  have "compute_aux_from_seeds P prm seeds (fst (mem j)) =
      (v_aux (building_views (b3 P) m_hat pk_seed d lam tapes aux (Some s) (rs ! j)),
       kkw_h_out (b3 P) (v_yp (building_views (b3 P) m_hat pk_seed d lam tapes aux (Some s) (rs ! j))))"
    unfolding kkw_h_out_def i(2,3)
    by (rule compute_aux_correct) (use i P pk mem m in \<open>simp_all add: scratch_ok_def\<close>)
  then show ?thesis
    using ok i(1) by (simp add: kkw_check_prep_def x_def kkw_pass1_def e m Let_def)
qed

text \<open>The opened rounds.\<close>

lemma pass2_views:
  assumes "instance_views B prm (mem j) input m_hat pk_seed (ss ! j) (rs ! j) = v"
    and "expand_instance_into B prm (ss ! j) input = (seeds, lam, tapes, d)"
  shows "kkw_pass2 B prm mem input m_hat pk_seed ss rs j e =
     \<lparr>rd_yp = v_yp v,
      rd_z = \<lparr>z_ke = map (\<lambda>q. seeds ! orig q e) [0..<N_PARTIES prm - 1], z_x_offset = d, z_aux = v_aux v,
              z_msgs_e = compute_msgs_e e (case v_s_all v of None \<Rightarrow> [] | Some s \<Rightarrow> s),
              z_com_hidden = preproc_com_party B e (seeds ! e) (if e = 0 then Some (v_aux v) else None),
              z_r_j = rs ! j\<rparr>\<rparr>"
  using assms by (auto simp: kkw_pass2_def instance_views_def Let_def split: prod.split)

lemma preproc_com_party_none: "p \<noteq> 0 \<Longrightarrow> preproc_com_party B p seed aux = preproc_com_party B p seed None"
  by (simp add: preproc_com_party_def split: option.split)

lemma preproc_com_party_length:
  assumes "b3_length B" "length seed = SEED_SIZE" "\<And>ws. aux = Some ws \<Longrightarrow> length ws = ySize"
  shows "length (preproc_com_party B p seed aux) = 32"
proof -
  let ?ds = "[[of_nat p], seed] @ (case aux of None \<Rightarrow> [] | Some ws \<Rightarrow> if p = 0 then [words_le ws] else [])"
  have "preproc_com_party B p seed aux = th_stream B KKW_DOM_PPCOM (map (\<lambda>d. (Some d, length d)) ?ds) 32"
    using assms by (auto simp: preproc_com_party_def mult.commute split: option.split)
  then show ?thesis
    using th_stream_eq [OF assms(1), of KKW_DOM_PPCOM 32 ?ds] assms(1)
    by (simp add: KKW_DOM_PPCOM_def BLAKE3_TH_MAX_DOMAIN_def BLAKE3_OUT_LEN_def th_def b3_length_def)
qed

lemma check_round_correct:
  fixes m_hat :: bytes and pubout :: "u32 list" and ss rs :: "bytes list"
  assumes P: "b3_length (b3 P)" "\<And>k. malloc_ok P k"
    and input: "length input = INPUT_LEN" and pk: "length pk_seed = 16" and e: "e < N_PARTIES prm"
    and mem: "scratch_ok (N_PARTIES prm) (memp j)" "scratch_ok (N_PARTIES prm) (memq j)" and r: "length (rs ! j) = 32"
  defines "x \<equiv> kkw_pass1 (b3 P) prm memp input m_hat pk_seed pubout ss rs j"
    and "rd \<equiv> kkw_pass2 (b3 P) prm memq input m_hat pk_seed ss rs j e"
  assumes ok: "in_ok x"
  shows "kkw_check_round P prm m_hat pk_seed pubout e (round_seen e rd) = x" and "round_wf prm e rd"
    and "length (in_h_prime x) = 32"
proof -
  obtain seeds lam tapes d where ex: "expand_instance_into (b3 P) prm (ss ! j) input = (seeds, lam, tapes, d)"
    by (metis prod_cases4)
  note i = instance_inputs [OF P(1) input ex]
  have seed_len: "\<And>p. p < N_PARTIES prm \<Longrightarrow> length (seeds ! p) = SEED_SIZE"
    using expand_seed_star_sizes(2) [OF P(1), of prm "ss ! j"] i by auto
  obtain aux s where m: "memp j = (aux, s)" by fastforce
  let ?v = "building_views (b3 P) m_hat pk_seed d lam tapes aux (Some s) (rs ! j)"
  have sizes: "scratch_ok (length tapes) (aux, s)" "length lam = length tapes" "tapes \<noteq> []" "length tapes = N_PARTIES prm"
    using mem m i e by auto
  note v = views_sizes [OF sizes(2) i(5) pk sizes(1,3), of "b3 P" m_hat "rs ! j"]
  obtain sa where sa: "v_s_all ?v = Some sa" "length sa = N_PARTIES prm" "\<forall>r\<in>set sa. length r = ySize"
    "v_h_prime ?v = Some (compute_h_prime (b3 P) (N_PARTIES prm) d sa (rs ! j))"
    using v(4) sizes(4) by auto
  have iv: "instance_views (b3 P) prm (memq j) input m_hat pk_seed (ss ! j) (rs ! j) = ?v"
    using instance_rerun [OF P(1) input pk _ mem, of m_hat "ss ! j" "rs ! j"] e by (auto simp: instance_views_def ex m)
  note rd = pass2_views [of "b3 P" prm memq j input m_hat pk_seed ss rs, OF iv ex, of e, folded rd_def]
  have x: "x = \<lparr>in_h_j = preproc_commit_instance (b3 P) prm seeds (Some (v_aux ?v)),
      in_h_prime = the (v_h_prime ?v), in_h_out = kkw_h_out (b3 P) (v_yp ?v), in_ok = kkw_opens_to (v_zh ?v) (v_yp ?v) pubout\<rparr>"
    by (simp add: x_def kkw_pass1_def ex m sa Let_def)
  show "length (in_h_prime x) = 32"
    using compute_h_prime_length [OF P(1), of d sa] i(5) r sa by (simp add: x INPUT_LEN_def)
  have ke: "map (\<lambda>q. seeds ! orig q e) [0..<N_PARTIES prm - 1] = pick (others (N_PARTIES prm) e) seeds"
    by (simp add: pick_def map_others)
  have orig: "orig q e < N_PARTIES prm" if "q < N_PARTIES prm - Suc 0" for q using that by (auto simp: orig_def)
  have msgs: "length (sa ! e) = ySize" using sa e by simp
  have ke_len: "\<And>k. k < N_PARTIES prm - Suc 0 \<Longrightarrow> length (seeds ! orig k e) = SEED_SIZE" using seed_len orig by blast
  show "round_wf prm e rd"
    using ke_len v(1-3) sizes(4) e sa i(5) r msgs preproc_com_party_length [OF P(1) seed_len [OF e], of "if e = 0 then Some (v_aux ?v) else None" e]
    by (auto simp: round_wf_def rd compute_msgs_e_def INPUT_LEN_def split: if_splits intro: seed_len orig)
  let ?r = "round_seen e rd"
  have seen: "rd_yp ?r = v_yp ?v" "z_com_hidden (rd_z ?r) = preproc_com_party (b3 P) e (seeds ! e) (if e = 0 then Some (v_aux ?v) else None)"
    "z_ke (rd_z ?r) = pick (others (N_PARTIES prm) e) seeds" "e \<noteq> 0 \<Longrightarrow> z_aux (rd_z ?r) = v_aux ?v"
    by (auto simp: round_seen_def rd ke simp del: One_nat_def)
  have opens: "opens (N_PARTIES prm) e seeds d ?v (rs ! j) (rd_z ?r)"
    by (auto simp: opens_def round_seen_def rd ke simp del: One_nat_def)
  have ver: "verify P prm m_hat pk_seed False (rd_yp ?r) e (rd_z ?r) = Some (False, the (v_h_prime ?v), v_zh ?v)"
    using verify_accepts [OF P i(4) e i(5) pk r, of aux s m_hat "rd_z ?r" False] sizes opens seen(1)
    by (simp add: scratch_ok_def flip: i(2,3))
  have "kkw_coms (b3 P) prm e (rd_z ?r) = map (\<lambda>p. preproc_com_party (b3 P) p (seeds ! p) (Some (v_aux ?v))) [0..<N_PARTIES prm]"
  proof -
    have "pick (others (N_PARTIES prm) e) seeds ! (if p < e then p else p - 1) = seeds ! p" if "p < N_PARTIES prm" "p \<noteq> e" for p
      using that e by (auto simp: orig_def)
    then show ?thesis
      using seen unfolding kkw_coms_def
      by (intro map_cong refl) (auto simp: preproc_com_party_none [of _ _ _ "Some _"] simp del: nth_pick)
  qed
  then show "kkw_check_round P prm m_hat pk_seed pubout e ?r = x"
    using ok unfolding kkw_check_round_def ver by (simp add: x seen preproc_commit_instance_def)
qed

subsection \<open>The whole proof\<close>

lemma collect_correct:
  assumes "distinct C_out" "\<forall>j\<in>set C_out. j < M" "\<forall>j\<in>set us. j < M" "\<forall>j<M. j \<in> set us \<or> j \<in> set C_out"
  shows "kkw_collect M (zip us (map f us) @ zip C_out (map f C_out)) = map f [0..<M]"
proof -
  have entries: "zip us (map f us) @ zip C_out (map f C_out) = map (\<lambda>j. (j, f j)) (us @ C_out)"
    by (simp add: zip_map2) (simp add: zip_same_conv_map)
  have upd: "length (fold (\<lambda>(j, x) arr. arr[j := x]) (map (\<lambda>j. (j, f j)) js) arr) = length arr \<and>
      (\<forall>k<length arr. fold (\<lambda>(j, x) arr. arr[j := x]) (map (\<lambda>j. (j, f j)) js) arr ! k = (if k \<in> set js then f k else arr ! k))"
    for js arr
    by (induction js arbitrary: arr) (auto simp: nth_list_update)
  define z :: "kkw_instance list" where
    "z = replicate M \<lparr>in_h_j = replicate 32 0, in_h_prime = replicate 32 0, in_h_out = replicate 32 0, in_ok = True\<rparr>"
  define arr where "arr = fold (\<lambda>(j, x) arr. arr[j := x]) (map (\<lambda>j. (j, f j)) (us @ C_out)) z"
  have len: "length arr = M" and nth: "\<And>k. k < M \<Longrightarrow> arr ! k = (if k \<in> set (us @ C_out) then f k else z ! k)"
    using upd [of "us @ C_out" z] unfolding arr_def [symmetric] by (simp_all add: z_def)
  have "arr = map f [0..<M]"
    by (rule nth_equalityI) (use assms(4) nth in \<open>simp_all add: len\<close>)
  then show ?thesis unfolding kkw_collect_def entries arr_def z_def .
qed

text \<open>The sizes the proof system relies on.\<close>

definition kkw_params_wf :: "kkw_params \<Rightarrow> bool" where
  "kkw_params_wf prm \<longleftrightarrow> 0 < N_PARTIES prm \<and> NUM_ROUNDS prm \<le> M_KKW prm \<and> M_KKW prm < 2 ^ 32"

lemma kkw_table_wf: "kkw_params_ok prm \<Longrightarrow> kkw_params_wf prm \<and> N_PARTIES prm \<le> 256 \<and> 0 < NUM_ROUNDS prm \<and> GRIND_W prm < 30"
proof -
  assume "kkw_params_ok prm"
  then obtain row where row: "(GRIND_W prm, row) \<in> set kkw_table" "(N_PARTIES prm, M_KKW prm, NUM_ROUNDS prm) \<in> set row"
    by (auto simp: kkw_params_ok_def split: option.splits dest!: map_of_SomeD)
  have "list_all (\<lambda>(w, row). w < 30 \<and> list_all (\<lambda>(n, m, t). 0 < n \<and> n \<le> 256 \<and> 0 < t \<and> t \<le> m \<and> m < 2000) row) kkw_table"
    by code_simp
  then have "0 < N_PARTIES prm \<and> N_PARTIES prm \<le> 256 \<and> 0 < NUM_ROUNDS prm \<and> NUM_ROUNDS prm \<le> M_KKW prm
      \<and> M_KKW prm < 2000 \<and> GRIND_W prm < 30"
    using row by (force simp: list_all_iff)
  then show ?thesis by (simp add: kkw_params_wf_def)
qed

lemma verify_challenge_accepts:
  fixes ss rs :: "bytes list" and m_hat :: bytes and pubout :: "u32 list"
  assumes P: "b3_length (b3 P)" "\<And>k. malloc_ok P k"
    and input: "length input = INPUT_LEN" and pk: "length pk_seed = 16" and prm: "kkw_params_wf prm"
    and mem: "\<And>j. scratch_ok (N_PARTIES prm) (memp j)" "\<And>j. scratch_ok (N_PARTIES prm) (memq j)" "\<And>j. length (fst (mem j)) = ySize"
    and ss: "\<And>j. j < M_KKW prm \<Longrightarrow> length (ss ! j) = SEED_SIZE" and rs: "\<And>j. j < M_KKW prm \<Longrightarrow> length (rs ! j) = 32"
    and C: "distinct C_out" "length C_out = NUM_ROUNDS prm" "\<forall>j\<in>set C_out. j < M_KKW prm"
    and ps: "length p_out = NUM_ROUNDS prm" "\<forall>e\<in>set p_out. e < N_PARTIES prm"
  defines "f \<equiv> kkw_pass1 (b3 P) prm memp input m_hat pk_seed pubout ss rs"
    and "rounds \<equiv> map2 (kkw_pass2 (b3 P) prm memq input m_hat pk_seed ss rs) C_out p_out"
    and "us \<equiv> filter (\<lambda>j. j \<notin> set C_out) [0..<M_KKW prm]"
  assumes ok: "\<forall>j<M_KKW prm. in_ok (f j)"
    and fl: "file = concat (concat (map (\<lambda>j. [ss ! j, in_h_prime (f j)]) us)) @ concat (concat (map2 kkw_round_chunks p_out rounds))"
    and h_star: "h_star = kkw_h_star (b3 P) (map in_h_j (map f [0..<M_KKW prm])) (map in_h_prime (map f [0..<M_KKW prm]))
                            (map in_h_out (map f [0..<M_KKW prm]))"
  shows "kkw_verify_challenge P prm threads mem file m_hat pk_seed pubout h_star C_out p_out"
proof -
  have round: "kkw_check_round P prm m_hat pk_seed pubout (p_out ! k) (round_seen (p_out ! k) (rounds ! k)) = f (C_out ! k)"
    "round_wf prm (p_out ! k) (rounds ! k)" if "k < NUM_ROUNDS prm" for k
    unfolding f_def rounds_def
    using check_round_correct [where e = "p_out ! k" and j = "C_out ! k" and m_hat = m_hat and pubout = pubout and ss = ss and rs = rs
        and memp = memp and memq = memq, OF P input pk _ mem(1,2) rs] that C ps ok
    by (auto simp: f_def)
  have hp: "length (in_h_prime (f j)) = 32" if "j < M_KKW prm" for j
    using check_round_correct(3) [where e = 0 and j = j and m_hat = m_hat and pubout = pubout and ss = ss and rs = rs
        and memp = memp and memq = memq, OF P input pk _ mem(1,2) rs] that ok prm
    by (auto simp: f_def kkw_params_wf_def)
  have us: "set us = {j. j < M_KKW prm \<and> j \<notin> set C_out}" by (auto simp: us_def)
  have preps: "read_preps us file = Some (map (\<lambda>j. (ss ! j, in_h_prime (f j))) us, concat (concat (map2 kkw_round_chunks p_out rounds)))"
    unfolding fl by (rule read_preps_correct) (use us ss hp in auto)
  have "list_all2 (round_wf prm) p_out rounds"
    using round(2) ps C by (auto simp: list_all2_conv_all_nth rounds_def)
  from read_rounds_correct [OF this, of "[]"]
  have rounds: "read_rounds prm p_out (concat (concat (map2 kkw_round_chunks p_out rounds))) = Some (map2 round_seen p_out rounds, [])"
    by simp
  have online: "map2 (kkw_check_round P prm m_hat pk_seed pubout) p_out (map2 round_seen p_out rounds) = map f C_out"
    using round(1) ps C by (intro nth_equalityI) (auto simp: rounds_def)
  have prep: "map2 (kkw_check_prep P prm mem) us (map (\<lambda>j. (ss ! j, in_h_prime (f j))) us) = map f us"
  proof (rule nth_equalityI)
    fix k assume "k < length (map2 (kkw_check_prep P prm mem) us (map (\<lambda>j. (ss ! j, in_h_prime (f j))) us))"
    then have k: "k < length us" "us ! k < M_KKW prm" using us nth_mem [of k us] by auto
    then show "map2 (kkw_check_prep P prm mem) us (map (\<lambda>j. (ss ! j, in_h_prime (f j))) us) ! k = map f us ! k"
      using check_prep_correct [where j = "us ! k" and m_hat = m_hat and pubout = pubout and ss = ss and rs = rs
        and memp = memp and mem = mem, OF P input pk _ mem(1,3)] ok prm
      by (simp add: f_def kkw_params_wf_def)
  qed simp
  have insts: "kkw_collect (M_KKW prm) (zip us (map f us) @ zip C_out (map f C_out)) = map f [0..<M_KKW prm]"
    by (rule collect_correct) (use C us in auto)
  show ?thesis
    unfolding kkw_verify_challenge_def Let_def us_def [symmetric] preps option.case prod.case rounds online prep insts
    using ok C P(2) by (simp add: h_star kkw_verify_alloc_ok_def kkw_rounds_alloc_ok_def list_all_iff)
qed

theorem prove_verify:
  assumes P: "platform_ok P" "\<And>k. malloc_ok P k"
    and input: "length input = INPUT_LEN" and pk: "length pk_seed = 16" and prm: "kkw_params_wf prm"
    and mem: "\<And>j. scratch_ok (N_PARTIES prm) (memp j)" "\<And>j. scratch_ok (N_PARTIES prm) (memq j)" "\<And>j. length (fst (mem j)) = ySize"
    and run: "kkw_prove P prm threads memp memq input m_hat pk_seed pubout c = Some (Some proof, c')"
  shows "kkw_verify P prm threads' mem proof m_hat pk_seed pubout = Some True"
proof -
  have B: "b3_length (b3 P)" using P(1) by blast
  obtain seeds c1 rand c2 nonce where
    seeds: "random_bytes P (M_KKW prm * SEED_SIZE) c = (Some seeds, c1)" and
    rand: "random_bytes P (M_KKW prm * 32) c1 = (Some rand, c2)" and
    nonce: "random_bytes P 32 c2 = (Some nonce, c')" and
    ok: "list_all in_ok (map (kkw_pass1 (b3 P) prm memp input m_hat pk_seed pubout (blocks SEED_SIZE (M_KKW prm) seeds)
            (blocks 32 (M_KKW prm) rand)) [0..<M_KKW prm])" and
    answer: "kkw_answer P prm memq input m_hat pk_seed pubout (blocks SEED_SIZE (M_KKW prm) seeds) (blocks 32 (M_KKW prm) rand)
       (map (kkw_pass1 (b3 P) prm memp input m_hat pk_seed pubout (blocks SEED_SIZE (M_KKW prm) seeds)
          (blocks 32 (M_KKW prm) rand)) [0..<M_KKW prm]) nonce = Some (Some proof)"
    using run unfolding kkw_prove_def Let_def by (auto split: if_splits option.splits prod.splits)
  let ?ss = "blocks SEED_SIZE (M_KKW prm) seeds" and ?rs = "blocks 32 (M_KKW prm) rand"
  let ?f = "kkw_pass1 (b3 P) prm memp input m_hat pk_seed pubout ?ss ?rs"
  let ?insts = "map ?f [0..<M_KKW prm]"
  let ?h = "kkw_h_star (b3 P) (map in_h_j ?insts) (map in_h_prime ?insts) (map in_h_out ?insts)"
  obtain ctr seed C_out p_out where
    grind: "kkw_grind (b3 P) prm (kkw_fs_prefix (b3 P) m_hat pubout pk_seed nonce ?h) 0 = Some (ctr, seed)" and
    expand: "kkw_fs_expand (b3 P) prm seed = Some (C_out, p_out)" and
    chunks: "proof = concat (kkw_proof_chunks prm nonce ?h ctr C_out p_out ?ss (map in_h_prime ?insts)
       (map2 (kkw_pass2 (b3 P) prm memq input m_hat pk_seed ?ss ?rs) C_out p_out))"
    using answer unfolding kkw_answer_def Let_def by (auto split: if_splits option.splits prod.splits)
  note C = kkw_fs_expand_ok [OF expand] prm [unfolded kkw_params_wf_def]
  let ?rounds = "map2 (kkw_pass2 (b3 P) prm memq input m_hat pk_seed ?ss ?rs) C_out p_out"
  let ?us = "filter (\<lambda>j. j \<notin> set C_out) [0..<M_KKW prm]"
  let ?file = "concat (concat (map (\<lambda>j. [?ss ! j, in_h_prime (?f j)]) ?us)) @ concat (concat (map2 kkw_round_chunks p_out ?rounds))"
  have lens: "length nonce = 32" "length ?h = 32" "length seeds = M_KKW prm * SEED_SIZE" "length rand = M_KKW prm * 32"
    using length_random_bytes [OF P(1)] nonce seeds rand
    by (auto simp: kkw_h_star_def Let_def KKW_TH_def KKW_DOM_HSTAR_def intro!: blake3_th_into_length B)
  have "kkw_verify_challenge P prm threads' mem ?file m_hat pk_seed pubout ?h C_out p_out"
    by (rule verify_challenge_accepts [OF B P(2) input pk prm mem])
       (use C lens ok in \<open>auto simp: list_all_iff intro!: length_nth_blocks\<close>)
  moreover have "proof = kkw_magic @ words_le (kkw_header prm) @ nonce @ ?h @ bytes_le 4 ctr @ ?file"
  proof -
    have "map (\<lambda>j. if j \<in> set C_out then [] else [?ss ! j, map in_h_prime ?insts ! j]) [0..<M_KKW prm] =
        map (\<lambda>j. if j \<in> set C_out then [] else [?ss ! j, in_h_prime (?f j)]) [0..<M_KKW prm]"
      by (intro map_cong refl) simp
    then show ?thesis by (simp only: chunks kkw_proof_chunks_def chunks_filter) simp
  qed
  ultimately show ?thesis
    using kkw_grind_ok [OF grind] expand lens
    by (simp add: kkw_verify_def read_header_correct fread_append)
qed

text \<open>
  When the prover succeeds: an instance opens to the public output exactly when the
  statement, evaluated in the clear on the witness, has it as its output; then a platform
  that never fails writes a proof, and otherwise none is ever written.
\<close>

lemma fold_xor_row: "fold (\<lambda>row v. v XOR row ! w) yp z = z XOR xors (map (\<lambda>row. row ! w) yp)"
  for yp :: "u32 list list"
  by (induction yp arbitrary: z) (simp_all add: ac_simps)

lemma unmasked_fold:
  assumes "\<forall>l\<in>set lam. length l = length input"
  shows "unmasked (fold (\<lambda>l d. map2 (XOR) d l) lam input) lam = input"
  using assms
proof (induction lam arbitrary: input)
  case Nil
  then show ?case by (simp add: unmasked_def map_nth)
next
  case (Cons l lam)
  define e where "e = map2 (XOR) input l"
  define d where "d = fold (\<lambda>l d. map2 (XOR) d l) lam e"
  have len: "length e = length input" using Cons.prems by (simp add: e_def)
  have "unmasked d lam = e" unfolding d_def by (rule Cons.IH) (use Cons.prems len in auto)
  moreover have "length d = length input"
    using length_fold_xor [of lam e] Cons.prems len by (simp add: d_def)
  moreover have "unmasked d (l # lam) ! k = unmasked d lam ! k XOR l ! k" if "k < length d" for k
    using that by (simp add: unmasked_def ac_simps)
  ultimately have "unmasked d (l # lam) = input"
    using Cons.prems len by (intro nth_equalityI) (simp_all add: unmasked_def e_def xor.assoc)
  then show ?case by (simp add: d_def e_def)
qed

definition output_ok :: "bytes \<Rightarrow> bytes \<Rightarrow> bytes \<Rightarrow> u32 list \<Rightarrow> bool" where
  "output_ok m_hat pk_seed input pubout \<longleftrightarrow> (\<forall>w<8. statement_outputs m_hat pk_seed input ! w = pubout ! w)"

lemma pass1_ok_iff:
  assumes "b3_length B" "length input = INPUT_LEN" "length pk_seed = 16" "0 < N_PARTIES prm"
  shows "in_ok (kkw_pass1 B prm mem input m_hat pk_seed pubout ss rs j) \<longleftrightarrow> output_ok m_hat pk_seed input pubout"
proof -
  obtain seeds lam tapes d where e: "expand_instance_into B prm (ss ! j) input = (seeds, lam, tapes, d)"
    by (metis prod_cases4)
  obtain aux s where m: "mem j = (aux, s)" by fastforce
  note i = instance_inputs [OF assms(1,2) e]
  have "d = fold (\<lambda>l d. map2 (XOR) d l) lam input" using e by (auto simp: expand_instance_into_def Let_def)
  moreover have "\<forall>l\<in>set lam. length l = length input" using i(2) assms(1,2) by (auto simp: length_expand_xshare)
  ultimately have d: "unmasked d lam = input" by (simp add: unmasked_fold)
  have "tapes \<noteq> []" "length lam = length tapes" using i assms(4) by auto
  from views_outputs [OF this i(5) assms(3), of _ B m_hat aux "Some s" "rs ! j"] show ?thesis
    by (simp add: kkw_pass1_def e m Let_def kkw_opens_to_def fold_xor_row output_ok_def d list_all_iff Ball_def)
qed


lemma randombytes_loop_total:
  "(\<And>c n. getentropy P c n \<noteq> None) \<Longrightarrow> \<exists>bs c'. randombytes_loop P n out c = (Some bs, c')"
proof (induction P n out c rule: randombytes_loop.induct)
  case (1 P n out c)
  let ?chunk = "if n < BLIND_MSS_GETENTROPY_MAX then n else BLIND_MSS_GETENTROPY_MAX"
  obtain bs where bs: "getentropy P c ?chunk = Some bs" using "1.prems" by blast
  show ?case
  proof (cases "n = 0")
    case False
    from "1.IH" [OF False refl bs "1.prems"] show ?thesis
      using False by (subst randombytes_loop.simps) (simp add: Let_def bs)
  qed (simp add: randombytes_loop.simps)
qed

lemma random_bytes_total:
  assumes "\<And>c n. getentropy P c n \<noteq> None"
  shows "\<exists>bs c'. random_bytes P n c = (Some bs, c')"
  using randombytes_loop_total [of P n "[]" c, OF assms] by (auto simp: random_bytes_def randombytes_fill_def)

lemma kkw_prove_succeeds:
  assumes P: "platform_ok P" "\<And>k. malloc_ok P k" "\<And>k. fwrite_ok P k" "\<And>c n. getentropy P c n \<noteq> None"
    and input: "length input = INPUT_LEN" "length pk_seed = 16" and prm: "0 < N_PARTIES prm"
    and ends: "\<And>h. kkw_grind (b3 P) prm h 0 \<noteq> None" "\<And>seed. kkw_fs_expand (b3 P) prm seed \<noteq> None"
    and ok: "output_ok m_hat pk_seed input pubout"
  shows "\<exists>proof c'. kkw_prove P prm threads memp memq input m_hat pk_seed pubout c = Some (Some proof, c')"
proof -
  obtain ss c1 where ss: "random_bytes P (M_KKW prm * SEED_SIZE) c = (Some ss, c1)" using random_bytes_total [OF P(4)] by blast
  obtain rs c2 where rs: "random_bytes P (M_KKW prm * 32) c1 = (Some rs, c2)" using random_bytes_total [OF P(4)] by blast
  obtain nonce c3 where nonce: "random_bytes P 32 c2 = (Some nonce, c3)" using random_bytes_total [OF P(4)] by blast
  have all: "list_all in_ok (map (kkw_pass1 (b3 P) prm memp input m_hat pk_seed pubout sl rl) js)" for sl rl js
    using pass1_ok_iff [OF platform_b3_length [OF P(1)] input prm] ok by (simp add: list_all_iff)
  have "\<exists>proof. kkw_answer P prm memq input m_hat pk_seed pubout sl rl insts nonce = Some (Some proof)" for sl rl insts
  proof -
    let ?h = "kkw_fs_prefix (b3 P) m_hat pubout pk_seed nonce
      (kkw_h_star (b3 P) (map in_h_j insts) (map in_h_prime insts) (map in_h_out insts))"
    obtain ctr seed where g: "kkw_grind (b3 P) prm ?h 0 = Some (ctr, seed)" using ends(1) by (metis not_None_eq surj_pair)
    obtain C_out p_out where "kkw_fs_expand (b3 P) prm seed = Some (C_out, p_out)" using ends(2) by (metis not_None_eq surj_pair)
    with g show ?thesis using P by (simp add: kkw_answer_def Let_def kkw_rounds_alloc_ok_def list_all_iff)
  qed
  then show ?thesis
    using P by (simp add: kkw_prove_def ss rs nonce all Let_def kkw_instances_alloc_ok_def kkw_scratch_alloc_ok_def)
qed

lemma kkw_prove_refuses:
  assumes "b3_length (b3 P)" "length input = INPUT_LEN" "length pk_seed = 16" "0 < N_PARTIES prm" "0 < M_KKW prm"
    and "\<not> output_ok m_hat pk_seed input pubout"
  shows "\<exists>c'. kkw_prove P prm threads memp memq input m_hat pk_seed pubout c = Some (None, c')"
proof -
  have "\<not> list_all in_ok (map (kkw_pass1 (b3 P) prm memp input m_hat pk_seed pubout sl rl) [0..<M_KKW prm])" for sl rl
    using pass1_ok_iff [OF assms(1-4)] assms(5,6) by (auto simp: list_all_iff Bex_def intro: exI [of _ 0])
  then show ?thesis by (auto simp: kkw_prove_def Let_def split: option.split prod.split)
qed

end
