(* ===== verification/Plain.thy ===== *)
theory Plain
  imports Statement
begin

text \<open>
  The gadgets of the circuit in the clear. Over \<open>plain_gates\<close> a masked word is its public
  part, and each gadget computes the native function it implements: the BLAKE3 chunk hash,
  the field multiplication and the words of a buffer.
\<close>

definition pl :: "'a \<Rightarrow> 'a mw" where
  "pl x = \<lparr>mw_h = x, mw_l = []\<rparr>"

text \<open>The value a program computes, whatever the gate counter.\<close>

definition computes :: "(nat, 'a) state \<Rightarrow> 'a \<Rightarrow> bool" where
  "computes m v \<longleftrightarrow> (\<forall>n. fst (run_state m n) = v)"

named_theorems computes_intros \<open>what the plain gadgets compute\<close>

lemma computes_return: "v = w \<Longrightarrow> computes (State_Monad.return v) w"
  by (simp add: computes_def)

lemma computes_bind: "computes m v \<Longrightarrow> computes (f v) w \<Longrightarrow> computes (State_Monad.bind m f) w"
  by (simp add: computes_def split: prod.split) (metis fst_conv)

lemma computes_for_each:
  "(\<And>i x. i \<in> set is \<Longrightarrow> computes (body i (g x)) (g (f i x))) \<Longrightarrow> computes (for_each body is (g x)) (g (fold f is x))"
  by (induction "is" arbitrary: x) (auto intro: computes_bind computes_return)

lemma computes_for_each_inv:
  assumes "I x" "\<And>i x. i \<in> set is \<Longrightarrow> I x \<Longrightarrow> computes (body i (g x)) (g (f i x)) \<and> I (f i x)"
  shows "computes (for_each body is (g x)) (g (fold f is x)) \<and> I (fold f is x)"
  using assms
proof (induction "is" arbitrary: x)
  case (Cons i "is")
  have "computes (body i (g x)) (g (f i x))" "I (f i x)" using Cons.prems by auto
  moreover have "computes (for_each body is (g (f i x))) (g (fold f is (f i x))) \<and> I (fold f is (f i x))"
    by (rule Cons.IH) (use Cons.prems calculation in auto)
  ultimately show ?case by (auto intro: computes_bind)
qed (simp add: computes_return)

lemma computes_traverse:
  "(\<And>i. i \<in> set is \<Longrightarrow> computes (f i) (g i)) \<Longrightarrow> computes (State_Monad.traverse_list f is) (map g is)"
  by (induction "is") (auto intro!: computes_bind computes_return)

lemma computes_eq: "computes m v \<Longrightarrow> v = w \<Longrightarrow> computes m w"
  by simp

lemma computes_and [computes_intros]: "computes (g_and plain_gates (pl x) (pl y)) (pl (x AND y))"
  by (simp add: computes_def plain_gates_def pl_def State_Monad.update_def)

lemma computes_add [computes_intros]: "computes (g_add plain_gates (pl x) (pl y)) (pl (x + y))"
  by (simp add: computes_def plain_gates_def pl_def State_Monad.update_def)

lemma plain_np [simp]: "g_np plain_gates = 0"
  by (simp add: plain_gates_def)

subsection \<open>Words and buffers\<close>

lemma pl_simps [simp]:
  "mw_h (pl x) = x" "mw_l (pl x) = []" "mpc_XOR (pl u) (pl v) = pl (u XOR v)" "mw_map f (pl x) = pl (f x)"
  "mw_const 0 u = pl u" "mw_xor_pub u (pl v) = pl (v XOR u)" "mpc_RIGHTROTATE (pl w) n = pl (RIGHTROTATE w n)"
  by (simp_all add: pl_def mpc_XOR_def mw_map_def mw_const_def mw_xor_pub_def mpc_RIGHTROTATE_def)

lemma pl_record: "\<lparr>mw_h = x, mw_l = []\<rparr> = pl x"
  by (simp add: pl_def)

lemma pl_consts [simp]: "mw_consts 0 cs = map pl cs"
  by (simp add: mw_consts_def)

lemma map_h_pl [simp]: "map mw_h (map pl xs) = xs"
  by (simp add: comp_def)

lemma mw_apply_pl [simp]: "mw_apply 0 f g (map pl xs) = pl (f xs)"
  by (simp add: mw_apply_def pl_def comp_def)

lemma mw_word_pl [simp]: "mw_word 0 f (map pl xs) = pl (f xs)"
  by (simp add: mw_word_def)

lemma rows_pl [simp]: "mw_rows (pl xs) = map pl xs"
  by (rule nth_equalityI) (simp_all add: mw_rows_def pl_def)

lemma mw_buf_pl [simp]: "mw_buf 0 f (map pl xs) = map pl (f xs)"
  by (simp add: mw_buf_def)

lemma masked_pl [simp]: "masked w [] = map pl w"
  using rows_pl [of w] by (simp add: masked_def pl_def)

lemma nth_pl [simp]: "i < length xs \<Longrightarrow> map pl xs ! i = pl (xs ! i)"
  by simp

lemma segment_pl [simp]: "segment off len (map pl xs) = map pl (segment off len xs)"
  by (rule segment_map)

subsection \<open>The BLAKE3 gadget\<close>

lemma ROTATE_eq: "RIGHTROTATE = ROTR32"
  by (intro ext) (simp add: RIGHTROTATE_def ROTR32_def)

lemma computes_add3:
  assumes "a < length v" "b < length v"
  shows "computes (circ_add3 plain_gates a b (pl x) (map pl v)) (map pl (g_add3 a b x v))"
  unfolding circ_add3_def g_add3_def nth_pl [OF assms(1)] nth_pl [OF assms(2)]
  by (rule computes_bind [OF computes_add])+ (simp add: computes_return map_update)

lemma computes_circ_add:
  assumes "c < length v" "d < length v"
  shows "computes (circ_add plain_gates c d (map pl v)) (map pl (Blake3.g_add c d v))"
  unfolding circ_add_def Blake3.g_add_def nth_pl [OF assms(1)] nth_pl [OF assms(2)]
  by (rule computes_bind [OF computes_add]) (simp add: computes_return map_update)

lemma plain_rot: "a < length v \<Longrightarrow> d < length v \<Longrightarrow> circ_rot d a n (map pl v) = map pl (g_rot d a n v)"
  by (simp add: circ_rot_def g_rot_def map_update ROTATE_eq)

lemma computes_b3_g:
  assumes "a < length v" "b < length v" "c < length v" "d < length v"
  shows "computes (circ_b3_g plain_gates a b c d (pl x) (pl y) (map pl v)) (map pl (b3_g v a b c d x y))"
proof -
  have len: "length (g_add3 i j z v) = length v" "length (g_rot i j n v) = length v" "length (Blake3.g_add i j v) = length v" for i j z n v
    by (simp_all add: g_add3_def g_rot_def Blake3.g_add_def)
  define v1 where "v1 = g_add3 a b x v"
  define v2 where "v2 = Blake3.g_add c d (g_rot d a 16 v1)"
  define v3 where "v3 = g_add3 a b y (g_rot b c 12 v2)"
  define v4 where "v4 = Blake3.g_add c d (g_rot d a 8 v3)"
  have l: "length v1 = length v" "length v2 = length v" "length v3 = length v" "length v4 = length v"
    by (simp_all add: v1_def v2_def v3_def v4_def len)
  have "b3_g v a b c d x y = g_rot b c 7 v4"
    by (simp add: b3_g_def v1_def v2_def v3_def v4_def Let_def)
  then show ?thesis
    unfolding circ_b3_g_def
    by (intro computes_bind [where v = "map pl v1"] computes_bind [where v = "map pl v2"] computes_bind [where v = "map pl v3"]
          computes_bind [where v = "map pl v4"] computes_return)
       (simp_all add: plain_rot l assms v1_def [symmetric] computes_add3 computes_circ_add len
         computes_add3 [of a v b x, folded v1_def] computes_circ_add [of c "g_rot d a 16 v1" d, folded v2_def]
         computes_add3 [of a "g_rot b c 12 v2" b y, folded v3_def] computes_circ_add [of c "g_rot d a 8 v3" d, folded v4_def])
qed


lemma length_b3_g_16: "length v = 16 \<Longrightarrow> length (b3_g v a b c d x y) = 16"
  by simp

definition schedule_ok :: "nat list \<Rightarrow> bool" where
  "schedule_ok s \<longleftrightarrow> length s = 16 \<and> (\<forall>i\<in>set s. i < 16)"

lemma schedule_nth: "schedule_ok s \<Longrightarrow> i < 16 \<Longrightarrow> s ! i < 16"
  by (auto simp: schedule_ok_def)

lemma schedule_permute: "schedule_ok s \<Longrightarrow> schedule_ok (b3_permute s)"
proof -
  assume s: "schedule_ok s"
  have "schedule_ok MSG_PERMUTATION" by (simp add: MSG_PERMUTATION_def schedule_ok_def)
  then have "s ! (MSG_PERMUTATION ! i) < 16" if "i < 16" for i
    using that s by (intro schedule_nth) auto
  then show ?thesis by (auto simp: schedule_ok_def b3_permute_def)
qed

lemma computes_round:
  assumes "length m = 16" "schedule_ok s" "length v = 16"
  shows "computes (circ_b3_round plain_gates (map pl m) s (map pl v)) (map pl (b3_round m s v))"
  unfolding circ_b3_round_def b3_round_def Let_def
  using assms schedule_nth [OF assms(2)]
  by (simp only: nth_pl nth_map)
     (intro computes_bind [OF computes_b3_g] computes_b3_g, simp_all)

lemma computes_rounds:
  "length m = 16 \<Longrightarrow> schedule_ok s \<Longrightarrow> length v = 16 \<Longrightarrow>
     computes (circ_b3_rounds plain_gates r (map pl m) s (map pl v)) (map pl (b3_rounds r m s v))"
proof (induction r arbitrary: s v)
  case (Suc r)
  have "B3_PERM = MSG_PERMUTATION" by (simp add: B3_PERM_def MSG_PERMUTATION_def)
  then have "map (\<lambda>i. s ! (B3_PERM ! i)) [0..<16] = b3_permute s" by (simp add: b3_permute_def)
  then show ?case
    using Suc.IH [of "b3_permute s" "b3_round m s v"] computes_round [OF Suc.prems] schedule_permute [OF Suc.prems(2)] Suc.prems
    by (auto intro!: computes_bind)
qed (simp add: computes_return)

lemma computes_compress:
  assumes cv: "length cv = 8" and m: "length m = 16"
  shows "computes (circ_blake3_compress plain_gates (map pl cv) (map pl m) bl fl) (map pl (blake3_compress cv m 0 bl fl))"
proof -
  define v where "v = map (\<lambda>i. cv ! i) [0..<8] @ [B3_IV ! 0, B3_IV ! 1, B3_IV ! 2, B3_IV ! 3, 0, 0, bl, fl]"
  have v: "length v = 16" by (simp add: v_def)
  have "map (\<lambda>i. map pl cv ! i) [0..<8] @ map pl (B3_IV4 @ [0, 0, bl, fl]) = map pl v"
    using cv by (simp add: v_def B3_IV4_def B3_IV_def)
  moreover have "computes (circ_b3_rounds plain_gates 7 (map pl m) [0..<16] (map pl v)) (map pl (b3_rounds 7 m [0..<16] v))"
    by (rule computes_rounds [OF m _ v]) (simp add: schedule_ok_def)
  moreover have "map (\<lambda>i. mpc_XOR (map pl (b3_rounds 7 m [0..<16] v) ! i) (map pl (b3_rounds 7 m [0..<16] v) ! (i + 8))) [0..<8]
      = map pl (blake3_compress cv m 0 bl fl)"
    by (simp add: blake3_compress_def Let_def v [unfolded v_def] comp_def flip: v_def) (simp add: v_def cong: map_cong)
  ultimately show ?thesis
    unfolding circ_blake3_compress_def Let_def
    by (intro computes_bind [where v = "map pl (b3_rounds 7 m [0..<16] v)"] computes_return) simp_all
qed


text \<open>
  The BLAKE3 hash of a framed input of at most one chunk, as the upstream library documents
  it: the chaining value runs through the blocks of the zero-padded input, with the flags of
  the derive-key mode, from the context key the code precomputes.
\<close>

definition block_words :: "bytes \<Rightarrow> nat \<Rightarrow> u32 list" where
  "block_words bs b =
     map (\<lambda>w. load_le (map (\<lambda>k. let i = b * 64 + w * 4 + k in if i < length bs then bs ! i else 0) [0..<4])) [0..<16]"

definition chunk_step :: "bytes \<Rightarrow> nat \<Rightarrow> u32 list \<Rightarrow> u32 list" where
  "chunk_step bs b cv =
     blake3_compress cv (block_words bs b) 0
       (of_nat (if length bs - b * 64 > 64 then 64 else length bs - b * 64))
       (BLAKE3_DERIVE_KEY_MATERIAL OR (if b = 0 then BLAKE3_CHUNK_START else 0)
        OR (if b + 1 = (length bs + 64 - 1) div 64 then BLAKE3_CHUNK_END OR BLAKE3_ROOT else 0))"

definition blake3_chunk :: "bytes \<Rightarrow> bytes" where
  "blake3_chunk bs = concat (map (bytes_le 4) (fold (chunk_step bs) [0..<(length bs + 64 - 1) div 64] blake3_th_context_key))"

text \<open>
  The documented behaviour is only needed on the frames the circuit hashes: those of at most
  one chunk whose domain is not one of the proof system's own.
\<close>

definition kkw_domains :: "bytes list" where
  "kkw_domains = [KKW_DOM_PPCOM, KKW_DOM_HJ, KKW_DOM_HPRIME, KKW_DOM_HOUT, KKW_DOM_HSTAR1, KKW_DOM_HSTAR2, KKW_DOM_HSTAR3,
     KKW_DOM_HSTAR, KKW_DOM_FS, KKW_DOM_GRIND, KKW_DOM_PRG, KKW_DOM_MHAT]"

definition circuit_domain :: "bytes \<Rightarrow> bool" where
  "circuit_domain dm \<longleftrightarrow> dm \<notin> set kkw_domains"

definition b3_chunk_ok :: "b3 \<Rightarrow> bool" where
  "b3_chunk_ok B \<longleftrightarrow> (\<forall>dm data n. circuit_domain dm \<and> blake3_th_mpc_valid_sizes (length dm) (length data) n \<longrightarrow>
     B (Derive_key BLAKE3_TH_CONTEXT) (th_frame dm data) n = take n (blake3_chunk (th_frame dm data)))"

lemma circuit_domains:
  "10 \<le> length dm \<Longrightarrow> circuit_domain dm" "circuit_domain HM_DOM_Y" "circuit_domain HM_DOM_D"
proof -
  have "\<forall>k\<in>set kkw_domains. length k < 10" "HM_DOM_Y \<notin> set kkw_domains" "HM_DOM_D \<notin> set kkw_domains" by code_simp+
  then show "10 \<le> length dm \<Longrightarrow> circuit_domain dm" "circuit_domain HM_DOM_Y" "circuit_domain HM_DOM_D"
    by (auto simp: circuit_domain_def)
qed

lemma th_word_pl:
  "circ_th_word 0 (map pl dm) (map pl data) off =
     pl (load_le (map (\<lambda>k. let i = off + k in if i < length (th_frame dm data) then th_frame dm data ! i else 0) [0..<4]))"
proof -
  have frame: "length (th_frame dm data) = 4 + length dm + length data"
    by (simp add: th_frame_def BLAKE3_TH_FRAME_LEN_def)
  have byte: "(if i < 4 then ucast (drop_bit (8 * i) (of_nat (length dm) :: u32))
      else if i < 4 + length dm then dm ! (i - 4)
      else if i - 4 - length dm < length data then data ! (i - 4 - length dm) else 0)
    = (if i < length (th_frame dm data) then th_frame dm data ! i else 0)" for i
    unfolding frame by (auto simp: th_frame_def BLAKE3_TH_FRAME_LEN_def nth_append nth_bytes_le)
  have "blake3_th_mpc_word (Some dm) (length dm) (Some data) (length data) off False =
      load_le (map (\<lambda>k. let i = off + k in if i < length (th_frame dm data) then th_frame dm data ! i else 0) [0..<4])"
    unfolding blake3_th_mpc_word_def Let_def
    by (intro arg_cong [where f = load_le] map_cong refl, unfold byte [symmetric]) (simp add: BLAKE3_TH_FRAME_LEN_def)
  then show ?thesis
    unfolding circ_th_word_def map_h_pl length_map by (simp add: pl_def)
qed

lemma length_compress: "length (blake3_compress cv m ctr bl fl) = 8"
  by simp

lemma length_chunk_step: "length (chunk_step bs b cv) = 8"
  by (simp add: chunk_step_def)

lemma length_context_key: "length blake3_th_context_key = 8"
  by (simp add: blake3_th_context_key_def)

lemma computes_th_block:
  assumes "length cv = 8"
  shows "computes (circ_th_block plain_gates (map pl dm) (map pl data) b (map pl cv)) (map pl (chunk_step (th_frame dm data) b cv))"
proof -
  have len: "BLAKE3_TH_FRAME_LEN + length dm + length data = length (th_frame dm data)"
    by (simp add: th_frame_def)
  have words: "map (\<lambda>w. circ_th_word 0 (map pl dm) (map pl data) (b * 64 + w * 4)) [0..<16] = map pl (block_words (th_frame dm data) b)"
    by (simp add: th_word_pl block_words_def comp_def)
  show ?thesis
    unfolding circ_th_block_def Let_def length_map len plain_np BLAKE3_BLOCK_LEN_def words chunk_step_def
    by (rule computes_compress [OF assms]) (simp add: block_words_def)
qed

lemma nth_concat_words:
  "i < 4 * length cv \<Longrightarrow> concat (map (bytes_le 4) cv) ! i = ucast (drop_bit (8 * (i mod 4)) (cv ! (i div 4)))" for cv :: "u32 list"
proof (induction cv arbitrary: i)
  case (Cons c cv)
  show ?case
  proof (cases "i < 4")
    case True
    then show ?thesis by (simp add: nth_append nth_bytes_le)
  next
    case False
    then have "(i - 4) mod 4 = i mod 4" "i div 4 = Suc ((i - 4) div 4)" by (simp_all add: le_mod_geq le_div_geq)
    then show ?thesis using False Cons by (simp add: nth_append)
  qed
qed simp

lemma computes_th:
  assumes "blake3_th_mpc_valid_sizes (length dm) (length data) n"
  shows "computes (circ_th plain_gates (map pl dm) (map pl data) n) (map pl (take n (blake3_chunk (th_frame dm data))))"
proof -
  let ?frame = "th_frame dm data"
  define cv where "cv = fold (chunk_step ?frame) [0..<(length ?frame + 64 - 1) div 64] blake3_th_context_key"
  have chunk: "blake3_chunk ?frame = concat (map (bytes_le 4) cv)" by (simp only: blake3_chunk_def cv_def)
  have len: "BLAKE3_TH_FRAME_LEN + length dm + length data = length ?frame" by (simp add: th_frame_def)
  have n: "n \<le> 32" using assms by (simp add: blake3_th_mpc_valid_sizes_def BLAKE3_OUT_LEN_def)
  have "computes (for_each (circ_th_block plain_gates (map pl dm) (map pl data)) [0..<(length ?frame + 64 - 1) div 64]
      (map pl blake3_th_context_key)) (map pl cv) \<and> length cv = 8"
    unfolding cv_def
    by (rule computes_for_each_inv [where g = "map pl" and I = "\<lambda>cv. length cv = 8"])
       (simp_all only: computes_th_block length_chunk_step length_context_key simp_thms)
  then have run: "computes (for_each (circ_th_block plain_gates (map pl dm) (map pl data)) [0..<(length ?frame + 64 - 1) div 64]
      (map pl blake3_th_context_key)) (map pl cv)" and lcv: "length cv = 8" by blast+
  have len32: "length (blake3_chunk ?frame) = 32"
    using lcv by (simp add: chunk length_concat comp_def sum_list_triv)
  have out: "map (\<lambda>i. mw_map (\<lambda>w. ucast (drop_bit (8 * (i mod 4)) w)) (map pl cv ! (i div 4))) [0..<n] = map pl (take n (blake3_chunk ?frame))"
  proof (rule nth_equalityI)
    show "length (map (\<lambda>i. mw_map (\<lambda>w. ucast (drop_bit (8 * (i mod 4)) w) :: byte) (map pl cv ! (i div 4))) [0..<n])
        = length (map pl (take n (blake3_chunk ?frame)))" using n len32 by simp
    fix i assume "i < length (map (\<lambda>i. mw_map (\<lambda>w. ucast (drop_bit (8 * (i mod 4)) w) :: byte) (map pl cv ! (i div 4))) [0..<n])"
    then have i: "i < n" "i < 32" using n by simp_all
    then show "map (\<lambda>i. mw_map (\<lambda>w. ucast (drop_bit (8 * (i mod 4)) w)) (map pl cv ! (i div 4))) [0..<n] ! i
        = map pl (take n (blake3_chunk ?frame)) ! i"
      using lcv nth_concat_words [of i cv] len32 n by (simp add: chunk)
  qed
  have body: "circ_blake3_th plain_gates (map pl dm) (map pl data) n =
      State_Monad.bind (for_each (circ_th_block plain_gates (map pl dm) (map pl data)) [0..<(length ?frame + 64 - 1) div 64]
        (map pl blake3_th_context_key))
        (\<lambda>cv. State_Monad.return (Some (map (\<lambda>i. mw_map (\<lambda>w. ucast (drop_bit (8 * (i mod 4)) w)) (cv ! (i div 4))) [0..<n])))"
    unfolding circ_blake3_th_def length_map len plain_np BLAKE3_BLOCK_LEN_def Let_def pl_consts
    by (rule if_not_P) (use assms in simp)
  have "computes (circ_blake3_th plain_gates (map pl dm) (map pl data) n) (Some (map pl (take n (blake3_chunk ?frame))))"
    unfolding body out [symmetric] by (rule computes_bind [OF run], rule computes_return, rule refl)
  then show ?thesis
    unfolding circ_th_def by (rule computes_bind) (simp add: computes_return)
qed

lemma th_chunk:
  assumes "b3_chunk_ok B" "b3_length B" "blake3_th_mpc_valid_sizes (length dm) (length data) n" "circuit_domain dm"
  shows "blake3_th_into B dm data n = take n (blake3_chunk (th_frame dm data))"
proof -
  have "length dm \<le> 28" "n \<le> 32"
    using assms(3) by (auto simp: blake3_th_mpc_valid_sizes_def BLAKE3_TH_MAX_DOMAIN_def BLAKE3_OUT_LEN_def)
  then show ?thesis
    using assms(1,3,4) unfolding b3_chunk_ok_def
    by (simp add: blake3_th_into_eq [OF assms(2)] th_def BLAKE3_TH_MAX_DOMAIN_def BLAKE3_OUT_LEN_def)
qed

lemma computes_hash:
  assumes "b3_chunk_ok B" "b3_length B" "blake3_th_mpc_valid_sizes (length dm) (length data) n" "circuit_domain dm"
  shows "computes (circ_th plain_gates (map pl dm) (map pl data) n) (map pl (blake3_th_into B dm data n))"
  unfolding th_chunk [OF assms] by (rule computes_th [OF assms(3)])

end
