(* ===== verification/Sample_Kkw.thy ===== *)
theory Sample_Kkw
  imports Kkw_Correct Sample_Platform Plain
begin

text \<open>
  Parameters of the code's table, and hashes that are constant on the proof system's own
  domains, on which every loop of the challenge ends: the instances at which the witnesses
  apply the proof-system properties. One such hash is the sample platform's; another is
  BLAKE3 itself on the frames of the circuit.
\<close>

definition sample_params :: kkw_params where
  "sample_params = \<lparr>N_PARTIES = 4, M_KKW = 218, NUM_ROUNDS = 65, GRIND_W = 0\<rparr>"

lemma sample_params_ok: "kkw_params_ok sample_params"
  by (simp add: kkw_params_ok_def sample_params_def kkw_table_def)

definition const_prg :: "prg_ctx \<Rightarrow> bool" where
  "const_prg p \<longleftrightarrow> prg_buf p = sample_digest"

definition const_ready :: "prg_ctx \<Rightarrow> bool" where
  "const_ready p \<longleftrightarrow> const_prg p \<and> prg_pos p \<in> {0, 4, 8, 12, 16, 20, 24, 28, 32}"

lemma sample_words: "k \<in> {12, 16, 20, 24, 28} \<Longrightarrow> load_be (segment k 4 sample_digest) = (0 :: u32)"
proof -
  have "list_all (\<lambda>k. load_be (segment k 4 sample_digest) = (0 :: u32)) [12, 16, 20, 24, 28]" by code_simp
  then show "k \<in> {12, 16, 20, 24, 28} \<Longrightarrow> load_be (segment k 4 sample_digest) = (0 :: u32)"
    unfolding list_all_iff by (rule bspec) simp_all
qed

lemma prg_limit_pos: "bound \<noteq> 0 \<Longrightarrow> 0 < prg_limit bound"
proof -
  assume "bound \<noteq> 0"
  have less: "unat bound < 2 ^ LENGTH(32)" by (rule unsigned_less)
  have b: "unat (ucast bound :: u64) = unat bound"
    using less by (simp add: unsigned_ucast_eq take_bit_nat_eq_self)
  have "unat (push_bit 32 1 mod ucast bound :: u64) < 2 ^ 32"
  proof -
    have "unat (push_bit 32 1 mod ucast bound :: u64) < unat bound"
      using \<open>bound \<noteq> 0\<close> b by (simp add: unat_mod_distrib unat_gt_0)
    also have "\<dots> < 2 ^ 32" using less by simp
    finally show ?thesis .
  qed
  then have "(push_bit 32 1 mod ucast bound :: u64) \<noteq> push_bit 32 1" by (auto simp: push_bit_eq_mult)
  then show ?thesis by (simp add: prg_limit_def word_gt_0)
qed

text \<open>A hash that is the sample digest on the proof system's own domains.\<close>

locale constant_challenge =
  fixes B :: b3
  assumes TH: "dm \<in> set kkw_domains \<Longrightarrow> KKW_TH B dm data = sample_digest"
begin

lemma prg_domain: "KKW_DOM_PRG \<in> set kkw_domains"
  by (simp add: kkw_domains_def)

lemma const_grind_ends: "kkw_grind B sample_params h ctr \<noteq> None"
  by (simp add: kkw_grind.simps kkw_fs_seed_def sample_params_def)

lemma const_fill: "const_prg (prg_fill B p)" "prg_pos (prg_fill B p) = 0"
  by (simp_all add: const_prg_def prg_fill_def TH prg_domain)

lemma const_next:
  assumes "const_prg p"
  shows "\<exists>p'. prg_next B p = (sample_digest ! (if prg_pos p \<ge> 32 then 0 else prg_pos p), p')
    \<and> const_prg p' \<and> prg_pos p' = (if prg_pos p \<ge> 32 then 1 else prg_pos p + 1)"
  using assms const_fill by (auto simp: prg_next_def Let_def const_prg_def)

lemma const_u32:
  assumes "const_prg p" "k = (if prg_pos p \<ge> 32 then 0 else prg_pos p)" "k \<in> {0, 4, 8, 12, 16, 20, 24, 28}"
  shows "\<exists>p'. prg_u32 B p = (load_be (segment k 4 sample_digest), p') \<and> const_prg p' \<and> prg_pos p' = k + 4"
proof -
  obtain p1 where 1: "prg_next B p = (sample_digest ! k, p1)" "const_prg p1" "prg_pos p1 = k + 1"
    using const_next [OF assms(1)] assms(2) by (auto split: if_splits)
  obtain p2 where 2: "prg_next B p1 = (sample_digest ! (k + 1), p2)" "const_prg p2" "prg_pos p2 = k + 2"
    using const_next [OF 1(2)] assms(3) 1(3) by auto
  obtain p3 where 3: "prg_next B p2 = (sample_digest ! (k + 2), p3)" "const_prg p3" "prg_pos p3 = k + 3"
    using const_next [OF 2(2)] assms(3) 2(3) by auto
  obtain p4 where 4: "prg_next B p3 = (sample_digest ! (k + 3), p4)" "const_prg p4" "prg_pos p4 = k + 4"
    using const_next [OF 3(2)] assms(3) 3(3) by auto
  have "list_all (\<lambda>k. push_bit 8 (push_bit 8 (push_bit 8 (ucast (sample_digest ! k)) OR ucast (sample_digest ! (k + 1)))
      OR ucast (sample_digest ! (k + 2))) OR ucast (sample_digest ! (k + 3)) = (load_be (segment k 4 sample_digest) :: u32))
      [0, 4, 8, 12, 16, 20, 24, 28]"
    by code_simp
  then have "push_bit 8 (push_bit 8 (push_bit 8 (ucast (sample_digest ! k)) OR ucast (sample_digest ! (k + 1)))
      OR ucast (sample_digest ! (k + 2))) OR ucast (sample_digest ! (k + 3)) = (load_be (segment k 4 sample_digest) :: u32)"
    unfolding list_all_iff by (rule bspec) (use assms(3) in simp)
  with 1 2 3 4 show ?thesis by (simp add: prg_u32_def upt_4)
qed


lemma const_u32_step:
  assumes "const_ready p"
  shows "\<exists>p'. prg_u32 B p = (load_be (segment (if prg_pos p = 32 then 0 else prg_pos p) 4 sample_digest), p')
    \<and> const_ready p' \<and> prg_pos p' = (if prg_pos p = 32 then 0 else prg_pos p) + 4"
  using const_u32 [of p "if prg_pos p \<ge> 32 then 0 else prg_pos p"] assms by (auto simp: const_ready_def)

lemma const_below_at:
  assumes "bound \<noteq> 0" "const_ready p"
  shows "prg_pos p \<in> {12, 16, 20, 24, 28} \<Longrightarrow> \<exists>r p'. prg_below B bound p = Some (r, p') \<and> const_ready p'"
  using const_u32_step [OF assms(2)] sample_words [of "prg_pos p"] prg_limit_pos [OF assms(1)]
  by (subst prg_below.simps) (auto simp: Let_def)

lemma const_below_step:
  assumes "bound \<noteq> 0" "const_ready p"
    and after: "\<And>p'. const_ready p' \<Longrightarrow> prg_pos p' = (if prg_pos p = 32 then 0 else prg_pos p) + 4 \<Longrightarrow>
       \<exists>r p''. prg_below B bound p' = Some (r, p'') \<and> const_ready p''"
  shows "\<exists>r p'. prg_below B bound p = Some (r, p') \<and> const_ready p'"
proof -
  obtain r p' where "prg_u32 B p = (r, p')" "const_ready p'"
    "prg_pos p' = (if prg_pos p = 32 then 0 else prg_pos p) + 4"
    using const_u32_step [OF assms(2)] by blast
  with after [of p'] show ?thesis by (subst prg_below.simps) (simp add: Let_def)
qed

lemma const_below:
  assumes "bound \<noteq> 0" "const_ready p"
  shows "\<exists>r p'. prg_below B bound p = Some (r, p') \<and> const_ready p'"
proof -
  have 8: "\<exists>r p'. prg_below B bound p = Some (r, p') \<and> const_ready p'"
    if "const_ready p" "prg_pos p = 8" for p
    by (rule const_below_step [OF assms(1) that(1)], rule const_below_at [OF assms(1)]) (use that in auto)
  have 4: "\<exists>r p'. prg_below B bound p = Some (r, p') \<and> const_ready p'"
    if "const_ready p" "prg_pos p = 4" for p
    by (rule const_below_step [OF assms(1) that(1)], rule 8) (use that in auto)
  have 0: "\<exists>r p'. prg_below B bound p = Some (r, p') \<and> const_ready p'"
    if "const_ready p" "prg_pos p \<in> {0, 32}" for p
    by (rule const_below_step [OF assms(1) that(1)], rule 4) (use that in auto)
  show ?thesis
    using 0 [OF assms(2)] 4 [OF assms(2)] 8 [OF assms(2)] const_below_at [OF assms] assms(2)
    unfolding const_ready_def by blast
qed

lemma const_shuffle:
  "const_ready p \<Longrightarrow> m < 2 ^ 32 \<Longrightarrow> \<forall>i\<in>set is. i < m \<Longrightarrow>
     \<exists>arr' p'. fs_shuffle B m is arr p = Some (arr', p') \<and> const_ready p'"
proof (induction "is" arbitrary: arr p)
  case (Cons i "is")
  have "(of_nat (m - i) :: u32) \<noteq> 0"
    using Cons.prems of_nat_inject_word [of "m - i" 0, where 'a = 32] by simp
  from const_below [OF this Cons.prems(1)] obtain r q where
    "prg_below B (of_nat (m - i)) p = Some (r, q)" "const_ready q" by blast
  then show ?case using Cons by (simp add: Let_def)
qed simp

lemma const_parties:
  "const_prg p \<Longrightarrow> \<exists>ps. fs_parties B 4 k p = Some ps"
proof (induction k arbitrary: p)
  case (Suc k)
  obtain b p' where n: "prg_next B p = (b, p')" "const_prg p'" using const_next [OF Suc.prems] by blast
  have "unat b < 2 ^ LENGTH(8)" by (rule unsigned_less)
  then have "fs_party B 4 p = Some (unat b mod 4, p')"
    by (subst fs_party.simps) (simp add: n Let_def)
  then show ?case using Suc.IH [OF n(2)] by auto
qed simp

lemma const_expand: "kkw_fs_expand B sample_params seed \<noteq> None"
proof -
  have "const_ready (prg_init B seed)"
    by (simp add: const_ready_def prg_init_def const_fill)
  from const_shuffle [OF this, of 218 "[0..<65]" "[0..<218]"] obtain arr p where
    "fs_shuffle B 218 [0..<65] [0..<218] (prg_init B seed) = Some (arr, p)" "const_ready p"
    by auto
  then show ?thesis using const_parties [of p 65] by (auto simp: kkw_fs_expand_def sample_params_def const_ready_def simp del: upt_Suc)
qed

end

lemma sample_TH: "dm \<in> set kkw_domains \<Longrightarrow> KKW_TH (b3 sample_platform) dm data = sample_digest"
proof -
  have "\<forall>dm\<in>set kkw_domains. length dm \<le> 28" by code_simp
  then show "dm \<in> set kkw_domains \<Longrightarrow> KKW_TH (b3 sample_platform) dm data = sample_digest"
    by (simp add: KKW_TH_def blake3_th_into_eq sample_b3_length th_def BLAKE3_TH_MAX_DOMAIN_def
        BLAKE3_OUT_LEN_def length_sample_digest sample_b3)
qed

interpretation sample: constant_challenge "b3 sample_platform"
  by unfold_locales (rule sample_TH)

subsection \<open>BLAKE3 on the frames of the circuit\<close>

definition circuit_frame :: "bytes \<Rightarrow> bool" where
  "circuit_frame bs \<longleftrightarrow> circuit_domain (take (unat (load_le (take 4 bs) :: u32)) (drop 4 bs))"

definition chunk_platform :: platform where
  "chunk_platform = sample_platform\<lparr>b3 := (\<lambda>m bs n.
     take n ((if m = Derive_key BLAKE3_TH_CONTEXT \<and> circuit_frame bs then blake3_chunk bs else sample_digest) @ replicate n 0))\<rparr>"

lemma chunk_simps [simp]:
  "fwrite_ok chunk_platform n = True" "malloc_ok chunk_platform n = True" "getentropy chunk_platform c n = Some (replicate n 0)"
  by (simp_all add: chunk_platform_def)

lemma chunk_b3: "b3 chunk_platform m bs n =
    take n ((if m = Derive_key BLAKE3_TH_CONTEXT \<and> circuit_frame bs then blake3_chunk bs else sample_digest) @ replicate n 0)"
  by (simp add: chunk_platform_def)

lemma chunk_platform_ok: "platform_ok chunk_platform"
  by (auto simp: platform_ok_def b3_length_def chunk_b3)

lemma frame_domain: "length dm < 2 ^ 32 \<Longrightarrow> circuit_frame (th_frame dm data) \<longleftrightarrow> circuit_domain dm"
  using load_le_bytes_le [of 4 "of_nat (length dm) :: u32"]
  by (simp add: circuit_frame_def th_frame_def BLAKE3_TH_FRAME_LEN_def unsigned_of_nat take_bit_nat_eq_self)

lemma chunk_b3_ok: "b3_chunk_ok (b3 chunk_platform)"
proof -
  have "length (fold (chunk_step bs) bl cv) = 8" if "length cv = 8" for bs bl cv
    using that by (induction bl arbitrary: cv) (simp_all add: length_chunk_step)
  then have "length (blake3_chunk bs) = 32" for bs
    unfolding blake3_chunk_def by (subst length_concat_const [where w = 4]) (auto simp: length_context_key)
  then show ?thesis
    unfolding b3_chunk_ok_def
    by (simp add: chunk_b3 frame_domain blake3_th_mpc_valid_sizes_def BLAKE3_TH_MAX_DOMAIN_def BLAKE3_OUT_LEN_def)
qed

interpretation chunk: constant_challenge "b3 chunk_platform"
proof
  fix dm data :: bytes assume dm: "dm \<in> set kkw_domains"
  have "\<forall>dm\<in>set kkw_domains. length dm \<le> 28" by code_simp
  then have "length dm \<le> 28" "\<not> circuit_domain dm" using dm by (simp_all add: circuit_domain_def)
  then show "KKW_TH (b3 chunk_platform) dm data = sample_digest"
    using platform_b3_length [OF chunk_platform_ok]
    by (simp add: KKW_TH_def blake3_th_into_eq th_def BLAKE3_TH_MAX_DOMAIN_def
        BLAKE3_OUT_LEN_def length_sample_digest chunk_b3 frame_domain)
qed

lemmas sample_grind_ends = sample.const_grind_ends chunk.const_grind_ends
lemmas sample_expand = sample.const_expand chunk.const_expand

end
