(* ===== verification/Kkw_Properties.thy ===== *)
theory Kkw_Properties
  imports Sample_Kkw
begin

text \<open>
  The properties of the proof system: its gates, its evaluation of the statement under a
  mask, the transcript both sides compute, the challenge, the proof file, and
  completeness, with the witnesses of their hypotheses.
\<close>

subsection \<open>Gates and instances\<close>

text \<open>The prover's two gates compute on the masked values: whatever the tapes and the
  state, the unmasked result of a gate is the conjunction, respectively the wrapping sum,
  of the unmasked operands.\<close>

theorem mpc_gates_compute:
  assumes "tapes \<noteq> []" "length (mw_l x) = length tapes" "length (mw_l y) = length tapes"
  shows "unmask (fst (run_state (mpc_AND tapes x y) st)) = unmask x AND unmask y
    \<and> unmask (fst (run_state (mpc_ADD tapes x y) st)) = unmask x + unmask y"
  using mpc_AND_unmask [OF assms] mpc_ADD_unmask [OF assms(2,3)] by simp

theorem mpc_gates_compute_witness:
  "unmask (fst (run_state (mpc_ADD [replicate TAPE_SIZE 1, []] \<lparr>mw_h = 1, mw_l = [2, 3]\<rparr> \<lparr>mw_h = 4, mw_l = [5, 6]\<rparr>)
     \<lparr>ps_gc = 0, ps_aux = [], ps_s_all = None\<rparr>)) = unmask \<lparr>mw_h = 1, mw_l = [2, 3]\<rparr> + unmask \<lparr>mw_h = 4, mw_l = [5, 6]\<rparr>"
  using mpc_gates_compute [of "[replicate TAPE_SIZE 1, []]" "\<lparr>mw_h = 1, mw_l = [2, 3]\<rparr>" "\<lparr>mw_h = 4, mw_l = [5, 6]\<rparr>"] by simp

text \<open>C29. The prover's evaluation is the statement in the clear: for any seeds, tapes and
  arrays, the public output words with the shares of all parties added are the eight output
  words of the circuit on the witness itself.\<close>

theorem views_unmask_statement:
  assumes "tapes \<noteq> []" "length lam = length tapes" "length d = W_END" "length pk = 16" "i < 8"
  shows "v_zh (building_views B md pk d lam tapes aux s_all r_j) ! i
           XOR xors (map (\<lambda>row. row ! i) (v_yp (building_views B md pk d lam tapes aux s_all r_j)))
         = statement_outputs md pk (unmasked d lam) ! i"
  by (rule views_outputs [OF assms])

theorem views_unmask_statement_witness:
  "let v = building_views (b3 sample_platform) (replicate 32 1) (replicate 16 2) (replicate W_END 3) [replicate W_END 4]
         [replicate TAPE_SIZE 5] [] None []
   in v_zh v ! 0 XOR xors (map (\<lambda>row. row ! 0) (v_yp v)) =
     statement_outputs (replicate 32 1) (replicate 16 2) (unmasked (replicate W_END 3) [replicate W_END 4]) ! 0"
  unfolding Let_def by (rule views_unmask_statement) simp_all

text \<open>C32. The circuit has exactly \<open>ySize\<close> gates on every input, so the tapes and the arrays
  sized by that constant are used up and never overrun.\<close>

theorem circuit_gate_count:
  assumes "length d = W_END" "length pk = 16"
  shows "v_gates (building_views B md pk d lam tapes aux s_all r_j) = ySize"
  using prover_run_gates [OF assms] by (simp add: building_views_run Let_def)

theorem circuit_gate_count_witness:
  "v_gates (building_views (b3 sample_platform) [] (replicate 16 0) (replicate W_END 0) [] [] [] None []) = ySize"
  by (rule circuit_gate_count) simp_all

text \<open>C30. The preprocessing does not see the witness: the correction words and output-mask
  shares the verifier recomputes from an instance's seeds are the ones of the prover's run
  on any witness, any message digest and any public seed.\<close>

theorem aux_from_seeds_correct:
  assumes "length seeds = N_PARTIES prm" "length d = W_END" "length pk = 16" "length aux = ySize" "length aux0 = ySize"
    and "malloc_ok P TAPE_SIZE" "malloc_ok P INPUT_LEN"
    and "v = building_views (b3 P) md pk d (map (expand_xshare (b3 P)) seeds) (map (expand_tape (b3 P)) seeds) aux s_all r_j"
  shows "compute_aux_from_seeds P prm seeds aux0 = (v_aux v, KKW_TH (b3 P) KKW_DOM_HOUT (words_le (concat (v_yp v))))"
  using compute_aux_correct [OF assms(1-7)] assms(8) by simp

theorem aux_from_seeds_correct_witness:
  "let seeds = replicate 4 (replicate 32 0);
       v = building_views (b3 sample_platform) [] (replicate 16 1) (replicate W_END 2) (map (expand_xshare (b3 sample_platform)) seeds)
             (map (expand_tape (b3 sample_platform)) seeds) (replicate ySize 3) None []
   in compute_aux_from_seeds sample_platform sample_params seeds (replicate ySize 0) =
     (v_aux v, KKW_TH (b3 sample_platform) KKW_DOM_HOUT (words_le (concat (v_yp v))))"
  unfolding Let_def by (rule aux_from_seeds_correct [OF _ _ _ _ _ _ _ refl]) (simp_all add: sample_params_def)

text \<open>C28. Opening an instance: given the seeds of all parties but the hidden one, the masked
  input, the hidden party's broadcasts and (when party 0 is not hidden) the correction
  words, \<open>verify\<close> raises no error and recomputes the transcript hash and the public output
  words of the prover.\<close>

theorem verify_opened_instance:
  assumes "b3_length (b3 P)" "\<And>k. malloc_ok P k" "length seeds = N_PARTIES prm" "e < N_PARTIES prm"
    and "length d = W_END" "length pk = 16" "length r_j = 32" "length aux = ySize"
    and "length rows = N_PARTIES prm" "\<forall>r\<in>set rows. length r = ySize"
    and "v = building_views (b3 P) md pk d (map (expand_xshare (b3 P)) seeds) (map (expand_tape (b3 P)) seeds) aux (Some rows) r_j"
    and "opens (N_PARTIES prm) e seeds d v r_j zp"
  shows "verify P prm md pk error (v_yp v) e zp = Some (error, the (v_h_prime v), v_zh v)"
  using verify_accepts [OF assms(1-10)] assms(11,12) by simp

theorem verify_opened_instance_witness:
  "\<exists>(v :: views) zp. verify sample_platform sample_params [] (replicate 16 0) False (v_yp v) 2 zp = Some (False, the (v_h_prime v), v_zh v)"
proof -
  define v where "v = building_views (b3 sample_platform) [] (replicate 16 0) (replicate W_END 0)
    (map (expand_xshare (b3 sample_platform)) (replicate 4 (replicate 32 0)))
    (map (expand_tape (b3 sample_platform)) (replicate 4 (replicate 32 0))) (replicate ySize 0)
    (Some (replicate 4 (replicate ySize 0))) (replicate 32 0)"
  define zp where "zp = \<lparr>z_ke = pick (others 4 2) (replicate 4 (replicate 32 0)), z_x_offset = replicate W_END 0,
    z_aux = v_aux v, z_msgs_e = compute_msgs_e 2 (case v_s_all v of None \<Rightarrow> [] | Some s \<Rightarrow> s), z_com_hidden = [],
    z_r_j = replicate 32 0\<rparr>"
  have "opens 4 2 (replicate 4 (replicate 32 0)) (replicate W_END 0) v (replicate 32 0) zp" by (simp add: opens_def zp_def)
  then have "verify sample_platform sample_params [] (replicate 16 0) False (v_yp v) 2 zp = Some (False, the (v_h_prime v), v_zh v)"
    by (intro verify_opened_instance [where seeds = "replicate 4 (replicate 32 0)", OF sample_b3_length _ _ _ _ _ _ _ _ _ v_def])
       (simp_all add: sample_params_def)
  then show ?thesis by blast
qed

text \<open>C31. What a worker thread's scratch arrays hold when an iteration begins does not matter:
  with any contents of the right sizes the views are the same.\<close>

theorem scratch_independent:
  assumes "scratch_ok (length tapes) (aux, rows)" "scratch_ok (length tapes) (aux', rows')" "tapes \<noteq> []"
    and "length lam = length tapes" "length d = W_END" "length pk = 16"
  shows "building_views B md pk d lam tapes aux' (Some rows') r_j = building_views B md pk d lam tapes aux (Some rows) r_j"
  by (rule rerun_views [OF assms])

theorem scratch_independent_witness:
  "building_views (b3 sample_platform) [] (replicate 16 0) (replicate W_END 0) [replicate W_END 1] [[]] (replicate ySize 7) (Some [replicate ySize 8]) [] =
   building_views (b3 sample_platform) [] (replicate 16 0) (replicate W_END 0) [replicate W_END 1] [[]] (replicate ySize 0) (Some [replicate ySize 0]) []"
  by (rule scratch_independent) (simp_all add: scratch_ok_def)

subsection \<open>The challenge and the proof file\<close>

text \<open>C34. The Fiat-Shamir expansion returns a well-formed challenge whenever it returns:
  \<open>NUM_ROUNDS\<close> distinct instances in increasing order, each with one party to hide.\<close>

theorem fs_challenge_well_formed:
  assumes "kkw_params_ok prm" "kkw_fs_expand B prm seed = Some (C_out, p_out)"
  shows "sorted C_out \<and> distinct C_out \<and> length C_out = NUM_ROUNDS prm \<and> (\<forall>j\<in>set C_out. j < M_KKW prm)
    \<and> length p_out = NUM_ROUNDS prm \<and> (\<forall>e\<in>set p_out. e < N_PARTIES prm)"
  using kkw_fs_expand_ok [OF assms(2)] kkw_table_wf [OF assms(1)] by (simp add: kkw_params_wf_def)

theorem fs_challenge_well_formed_witness:
  "\<exists>C_out p_out. kkw_fs_expand (b3 sample_platform) sample_params [] = Some (C_out, p_out) \<and> length C_out = NUM_ROUNDS sample_params"
proof -
  obtain C_out p_out where "kkw_fs_expand (b3 sample_platform) sample_params [] = Some (C_out, p_out)"
    using sample_expand [of "[]"] by auto
  with fs_challenge_well_formed [OF sample_params_ok this] show ?thesis by blast
qed

text \<open>The parameter table: every supported build has at most 256 parties (so an index
  fits the byte of the commitments), at least one round, no more rounds than instances, and
  fewer than 30 grinding bits.\<close>

theorem kkw_table_bounds:
  assumes "kkw_params_ok prm"
  shows "0 < N_PARTIES prm \<and> N_PARTIES prm \<le> 256 \<and> 0 < NUM_ROUNDS prm \<and> NUM_ROUNDS prm \<le> M_KKW prm
    \<and> M_KKW prm < 2 ^ 32 \<and> GRIND_W prm < 30"
  using kkw_table_wf [OF assms] by (simp add: kkw_params_wf_def)

theorem kkw_table_bounds_witness: "0 < NUM_ROUNDS sample_params"
  using kkw_table_bounds [OF sample_params_ok] by blast

text \<open>The rounds of a proof file are read back: what the reader sees of each round is what
  was written, with the correction words of a round that hides party 0 left out, and the
  rest of the file is untouched.\<close>

theorem rounds_roundtrip:
  assumes "list_all2 (round_wf prm) es rs"
  shows "read_rounds prm es (concat (concat (map2 kkw_round_chunks es rs)) @ rest) = Some (map2 round_seen es rs, rest)"
  by (rule read_rounds_correct [OF assms])

definition sample_round :: kkw_round where
  "sample_round = \<lparr>rd_yp = replicate 4 (replicate 8 1), rd_z = \<lparr>z_ke = replicate 3 (replicate 32 2),
     z_x_offset = replicate INPUT_LEN 3, z_aux = replicate ySize 4, z_msgs_e = replicate ySize 5,
     z_com_hidden = replicate 32 6, z_r_j = replicate 32 7\<rparr>\<rparr>"

theorem rounds_roundtrip_witness:
  "read_rounds sample_params [3] (concat (concat (map2 kkw_round_chunks [3] [sample_round])) @ [9]) =
     Some (map2 round_seen [3] [sample_round], [9])"
  by (rule rounds_roundtrip) (simp add: round_wf_def sample_round_def sample_params_def SEED_SIZE_def)

subsection \<open>Completeness\<close>

text \<open>C4. Every proof file the prover writes is accepted by the verifier, for every supported
  parameter set, any number of threads on either side, any scratch contents and any witness.\<close>

theorem kkw_completeness:
  assumes "platform_ok P" "\<And>k. malloc_ok P k" "kkw_params_ok prm"
    and "length input = INPUT_LEN" "length pk_seed = 16"
    and "\<And>j. scratch_ok (N_PARTIES prm) (memp j)" "\<And>j. scratch_ok (N_PARTIES prm) (memq j)" "\<And>j. length (fst (mem j)) = ySize"
    and "kkw_prove P prm threads memp memq input m_hat pk_seed pubout c = Some (Some proof, c')"
  shows "kkw_verify P prm threads' mem proof m_hat pk_seed pubout = Some True"
  using prove_verify [OF assms(1,2,4,5) _ assms(6-9)] kkw_table_wf [OF assms(3)] by simp

definition sample_scratch :: scratch where
  "sample_scratch j = (replicate ySize 0, replicate 4 (replicate ySize 0))"

lemma sample_scratch_ok: "scratch_ok (N_PARTIES sample_params) (sample_scratch j)" "length (fst (sample_scratch j)) = ySize"
  by (simp_all add: scratch_ok_def sample_scratch_def sample_params_def)

definition sample_pubout :: "u32 list" where
  "sample_pubout = statement_outputs (replicate 32 1) (replicate 16 2) (replicate INPUT_LEN 3)"

lemma sample_proof:
  "\<exists>proof c'. kkw_prove sample_platform sample_params 2 sample_scratch sample_scratch
     (replicate INPUT_LEN 3) (replicate 32 1) (replicate 16 2) sample_pubout 0 = Some (Some proof, c')"
  by (rule kkw_prove_succeeds [OF sample_platform_ok])
     (simp_all add: sample_grind_ends sample_expand [simplified] output_ok_def sample_pubout_def, simp_all add: sample_params_def)

theorem kkw_completeness_witness:
  "\<exists>proof. kkw_verify sample_platform sample_params 2 sample_scratch proof (replicate 32 1) (replicate 16 2) sample_pubout = Some True"
proof -
  obtain file' c' where "kkw_prove sample_platform sample_params 2 sample_scratch sample_scratch
      (replicate INPUT_LEN 3) (replicate 32 1) (replicate 16 2) sample_pubout 0 = Some (Some file', c')"
    using sample_proof by blast
  from kkw_completeness [where mem = sample_scratch, OF sample_platform_ok _ sample_params_ok _ _
      sample_scratch_ok(1) sample_scratch_ok(1) sample_scratch_ok(2) this, of 2]
  have "kkw_verify sample_platform sample_params 2 sample_scratch file' (replicate 32 1) (replicate 16 2) sample_pubout = Some True"
    by simp
  then show ?thesis by blast
qed

text \<open>C25. On a platform where nothing fails and the rejection and grinding loops end, the
  prover does write a proof when the public output is the statement's value on the witness.\<close>

theorem kkw_prove_total:
  assumes "platform_ok P" "\<And>k. malloc_ok P k" "\<And>k. fwrite_ok P k" "\<And>c n. getentropy P c n \<noteq> None"
    and "length input = INPUT_LEN" "length pk_seed = 16" "kkw_params_ok prm"
    and "\<And>h. kkw_grind (b3 P) prm h 0 \<noteq> None" "\<And>seed. kkw_fs_expand (b3 P) prm seed \<noteq> None"
    and "\<forall>w<8. statement_outputs m_hat pk_seed input ! w = pubout ! w"
  shows "\<exists>proof c'. kkw_prove P prm threads memp memq input m_hat pk_seed pubout c = Some (Some proof, c')"
  using kkw_prove_succeeds [OF assms(1-6) _ assms(8,9)] kkw_table_wf [OF assms(7)] assms(10)
  by (simp add: kkw_params_wf_def output_ok_def)

theorem kkw_prove_total_witness:
  "\<exists>proof c'. kkw_prove sample_platform sample_params 8 sample_scratch sample_scratch
     (replicate INPUT_LEN 0) [] (replicate 16 2) (statement_outputs [] (replicate 16 2) (replicate INPUT_LEN 0)) 0 = Some (Some proof, c')"
  by (rule kkw_prove_total [OF sample_platform_ok])
     (simp_all add: sample_grind_ends sample_expand [simplified] sample_params_ok)



end
