(* ===== verification/Plain_Xmss.thy ===== *)
theory Plain_Xmss
  imports Plain Xmss_Correct
begin

text \<open>
  The pieces of the statement in the clear, all but the pooled chains: the commitment
  opening is \<open>hm_commit\<close>, the hashes are those of \<^verbatim>\<open>xmss.c\<close>, the climb is its walk along the
  authentication path, and the coordinate sum and the leftover bits are the checks of the
  encoding.
\<close>

subsection \<open>Field multiplication\<close>

lemma mask_and:
  "(0 - (drop_bit k w AND 1)) AND x = (if drop_bit k w AND 1 \<noteq> 0 then x else 0)" for w x :: u32
proof (cases "bit w k")
  case True
  then have "drop_bit k w AND 1 = 1" by (simp add: bit_iff_and_drop_bit_eq_1)
  then show ?thesis by simp
next
  case False
  then have "drop_bit k w AND 1 = 0" by (simp add: test_bit_word [symmetric] flip: not_iff)
  then show ?thesis by simp
qed

lemma fold_ignore: "fold (\<lambda>x acc. acc) xs a = a"
  by (induction xs) simp_all

lemma shift_xor_zero: "gf128_word_shift_xor acc 0 pos = acc"
  by (simp add: gf128_word_shift_xor_def xor_at_def Let_def)

lemma shift_xor_pl: "circ_shift_xor (map pl acc) (pl z) pos = map pl (gf128_word_shift_xor acc z pos)"
  by (simp add: circ_shift_xor_def comp_def pl_record)

lemma computes_mul_bit:
  assumes "length X = 4" "length Y = 4" "j < 128"
  shows "computes (circ_gf128_mul_bit plain_gates (map pl X) (map pl Y) j (map pl acc))
    (map pl (if drop_bit (j mod 32) (Y ! (j div 32)) AND 1 \<noteq> 0 then gf128_mul_acc X j acc else acc))"
proof -
  let ?b = "drop_bit (j mod 32) (Y ! (j div 32)) AND 1 \<noteq> 0"
  have "circ_bitmask (j mod 32) (map pl Y ! (j div 32)) = pl (0 - (drop_bit (j mod 32) (Y ! (j div 32)) AND 1))"
    using assms by (simp add: circ_bitmask_def)
  moreover have "computes (for_each (\<lambda>w acc. do {
           z \<leftarrow> g_and plain_gates (pl (0 - (drop_bit (j mod 32) (Y ! (j div 32)) AND 1))) (map pl X ! w);
           State_Monad.return (circ_shift_xor acc z (32 * w + j))
         }) [0..<4] (map pl acc))
      (map pl (fold (\<lambda>w acc. gf128_word_shift_xor acc (if ?b then X ! w else 0) (32 * w + j)) [0..<4] acc))"
  proof (rule computes_for_each [where g = "map pl"])
    fix w x assume "w \<in> set [0..<4 :: nat]"
    then have "map pl X ! w = pl (X ! w)" using assms(1) by simp
    then show "computes (do {
           z \<leftarrow> g_and plain_gates (pl (0 - (drop_bit (j mod 32) (Y ! (j div 32)) AND 1))) (map pl X ! w);
           State_Monad.return (circ_shift_xor (map pl x) z (32 * w + j))
         }) (map pl (gf128_word_shift_xor x (if ?b then X ! w else 0) (32 * w + j)))"
      unfolding mask_and [symmetric]
      by (simp only:) (rule computes_bind [OF computes_and], rule computes_return, rule shift_xor_pl)
  qed
  moreover have "fold (\<lambda>w acc. gf128_word_shift_xor acc (if ?b then X ! w else 0) (32 * w + j)) [0..<4] acc
      = (if ?b then gf128_mul_acc X j acc else acc)"
    by (simp add: gf128_mul_acc_def shift_xor_zero fold_ignore)
  ultimately show ?thesis
    unfolding circ_gf128_mul_bit_def Let_def by (simp only:)
qed

lemma computes_gf128_mul:
  assumes "length X = 4" "length Y = 4"
  shows "computes (circ_gf128_mul plain_gates (map pl X) (map pl Y)) (map pl (gf128_mul_words X Y))"
proof -
  have "computes (for_each (circ_gf128_mul_bit plain_gates (map pl X) (map pl Y)) [0..<128] (map pl (replicate 8 0)))
      (map pl (fold (\<lambda>j acc. if drop_bit (j mod 32) (Y ! (j div 32)) AND 1 \<noteq> 0 then gf128_mul_acc X j acc else acc)
         [0..<128] (replicate 8 0)))"
    by (rule computes_for_each [where g = "map pl"]) (rule computes_mul_bit [OF assms], simp)
  then show ?thesis
    unfolding circ_gf128_mul_def gf128_mul_words_def plain_np pl_consts
    by (rule computes_bind) (rule computes_return, rule mw_buf_pl)
qed

subsection \<open>The commitment\<close>

lemma computes_hm_y:
  assumes B: "b3_chunk_ok B" "b3_length B" and d: "length d = W_END"
  shows "computes (circ_hm_y plain_gates (map pl d)) (map pl (hm_y B (segment W_R_OFF HM_R_BYTES d)))"
proof -
  have "length (segment W_R_OFF HM_R_BYTES d) = 96" using d by (simp add: segment_def w_layout hm_sizes xmss_sizes)
  then show ?thesis
    unfolding circ_hm_y_def hm_y_def plain_np pl_consts segment_pl HM_Y_BYTES_def
    by (intro computes_hash B) (simp_all add: circuit_domains(2) [unfolded HM_DOM_Y_def] blake3_th_mpc_valid_sizes_def BLAKE3_TH_MAX_DOMAIN_def BLAKE3_CHUNK_LEN_def
        BLAKE3_TH_FRAME_LEN_def BLAKE3_OUT_LEN_def HM_DOM_Y_def)
qed

lemma computes_hm_product:
  "computes (circ_hm_product plain_gates (map pl d) line i (map pl acc))
    (map pl (map2 (XOR) acc (gf128_mul_words (gf128_load (segment (W_A_OFF + (line * HM_NONCES + i) * HM_ELT) HM_ELT d))
                    (gf128_load (segment (W_R_OFF + i * HM_ELT) HM_ELT d)))))"
proof -
  have "map2 mpc_XOR (map pl xs) (map pl ys) = map pl (map2 (XOR) xs ys)" for xs ys :: "u32 list"
    by (simp add: zip_map_map case_prod_beta comp_def)
  then show ?thesis
    unfolding circ_hm_product_def Let_def plain_np segment_pl mw_buf_pl
    by (intro computes_bind [OF computes_gf128_mul] computes_return) simp_all
qed


definition hm_words :: "bytes \<Rightarrow> bytes \<Rightarrow> nat \<Rightarrow> nat \<Rightarrow> u32 list" where
  "hm_words a r k n =
     fold (\<lambda>i acc. xor_words acc (gf128_mul_words (gf128_load (segment ((k * HM_NONCES + i) * HM_ELT) HM_ELT a))
                                   (gf128_load (segment (i * HM_ELT) HM_ELT r)))) [0..<n] (replicate 4 0)"

lemma length_hm_words: "length (hm_words a r k n) = 4"
  unfolding hm_words_def by (rule length_fold_xor_words) simp_all

lemma hm_line_words:
  assumes m: "length m_hat = 32" and k: "k < HM_LINES"
  shows "hm_line m_hat a r k = gf128_store (xor_words (hm_words a r k HM_NONCES) (gf128_load (segment (k * HM_ELT) HM_ELT m_hat)))"
proof -
  let ?f = "\<lambda>i acc. xor_words acc (gf128_mul (segment ((k * HM_NONCES + i) * HM_ELT) HM_ELT a)
      (segment (i * HM_ELT) HM_ELT r))"
  let ?m = "segment (k * HM_ELT) HM_ELT m_hat"
  have lm: "length ?m = 16" using m k by (auto simp: segment_def hm_sizes)
  have "length (fold ?f [0..<n] ?m) = 16 \<and> gf128_load (fold ?f [0..<n] ?m) = xor_words (hm_words a r k n) (gf128_load ?m)" for n
  proof (induction n)
    case 0
    then show ?case using lm by (simp add: hm_words_def) (rule nth_equalityI, simp_all)
  next
    case (Suc n)
    then show ?case
      unfolding hm_words_def
      by (simp add: gf128_load_xor gf128_mul_def gf128_load_store flip: hm_words_def)
         (rule nth_equalityI, simp_all add: length_hm_words ac_simps)
  qed
  then have "length (hm_line m_hat a r k) = 16"
    "gf128_load (hm_line m_hat a r k) = xor_words (hm_words a r k HM_NONCES) (gf128_load ?m)"
    by (simp_all add: hm_line_def)
  then show ?thesis by (metis gf128_store_load)
qed

lemma segment_segment: "off + len \<le> n \<Longrightarrow> segment off len (segment base n xs) = segment (base + off) len xs"
  by (simp add: segment_def take_drop min_def add.commute)

lemma computes_hm_line:
  assumes m: "length m_hat = 32" and k: "k < HM_LINES"
  shows "computes (circ_hm_line plain_gates m_hat (map pl d) k)
    (map pl (hm_line m_hat (segment W_A_OFF HM_A_BYTES d) (segment W_R_OFF HM_R_BYTES d) k))"
proof -
  let ?a = "segment W_A_OFF HM_A_BYTES d" and ?r = "segment W_R_OFF HM_R_BYTES d"
  have seg: "segment (W_A_OFF + (k * HM_NONCES + i) * HM_ELT) HM_ELT d = segment ((k * HM_NONCES + i) * HM_ELT) HM_ELT ?a"
    "segment (W_R_OFF + i * HM_ELT) HM_ELT d = segment (i * HM_ELT) HM_ELT ?r" if "i < HM_NONCES" for i
    using that k by (simp_all add: segment_segment hm_sizes)
  have "computes (for_each (circ_hm_product plain_gates (map pl d) k) [0..<HM_NONCES] (map pl (replicate 4 0)))
      (map pl (hm_words ?a ?r k HM_NONCES))"
    unfolding hm_words_def
  proof (rule computes_for_each [where g = "map pl"])
    fix i acc assume "i \<in> set [0..<HM_NONCES]"
    then have i: "i < HM_NONCES" by simp
    show "computes (circ_hm_product plain_gates (map pl d) k i (map pl acc))
        (map pl (xor_words acc (gf128_mul_words (gf128_load (segment ((k * HM_NONCES + i) * HM_ELT) HM_ELT ?a))
           (gf128_load (segment (i * HM_ELT) HM_ELT ?r)))))"
      using computes_hm_product [of d k i acc] unfolding seg [OF i] by (simp only: xor_words_def)
  qed
  moreover have "map2 mw_xor_pub ms (map pl ws) = map pl (xor_words ws ms)" for ms ws :: "u32 list"
    by (rule nth_equalityI) (simp_all add: xor_words_def)
  ultimately show ?thesis
    unfolding circ_hm_line_def Let_def plain_np pl_consts hm_line_words [OF m k]
    by (intro computes_bind [where v = "map pl (hm_words ?a ?r k HM_NONCES)"] computes_return) simp_all
qed

lemma computes_commitment:
  assumes B: "b3_chunk_ok B" "b3_length B" and d: "length d = W_END" and m: "length m_hat = 32"
  shows "computes (circ_commitment plain_gates m_hat (map pl d))
    (map pl (snd (hm_commit B m_hat (segment W_R_OFF HM_R_BYTES d) (segment W_A_OFF HM_A_BYTES d))))"
proof -
  let ?a = "segment W_A_OFF HM_A_BYTES d" and ?r = "segment W_R_OFF HM_R_BYTES d"
  have a: "length ?a = HM_A_BYTES" using d by (simp add: segment_def w_layout hm_sizes xmss_sizes)
  have lines: "computes (State_Monad.traverse_list (circ_hm_line plain_gates m_hat (map pl d)) [0..<HM_LINES])
      (map (\<lambda>k. map pl (hm_line m_hat ?a ?r k)) [0..<HM_LINES])"
    by (rule computes_traverse) (simp add: computes_hm_line m)
  have sec: "segment W_A_OFF HM_A_BYTES (map pl d) @ concat (map (\<lambda>k. map pl (hm_line m_hat ?a ?r k)) [0..<HM_LINES]) @ map pl (hm_y B ?r)
      = map pl (hm_commitment ?a (hm_lines m_hat ?a ?r) (hm_y B ?r))"
    by (simp add: hm_commitment_def hm_lines_def map_concat comp_def)
  have len: "length (hm_commitment ?a (hm_lines m_hat ?a ?r) (hm_y B ?r)) = 256"
    using a m B by (simp add: hm_commitment_def length_hm_lines hm_sizes)
  show ?thesis
    unfolding circ_commitment_def Let_def plain_np
    by (rule computes_bind [OF computes_hm_y [OF B d]], rule computes_bind [OF lines], unfold sec pl_consts)
       (simp add: hm_commit_def Let_def hm_digest_def computes_hash [OF B] circuit_domains(3) [unfolded HM_DOM_D_def] len blake3_th_mpc_valid_sizes_def
         BLAKE3_TH_MAX_DOMAIN_def BLAKE3_CHUNK_LEN_def BLAKE3_TH_FRAME_LEN_def BLAKE3_OUT_LEN_def HM_DOM_D_def)
qed


subsection \<open>The hashes of the signature\<close>

text \<open>The parts of a witness.\<close>

definition w_epoch :: "bytes \<Rightarrow> u32" where
  "w_epoch d = load_be (segment W_LEAFIDX_OFF XMSS_EPOCH_BYTES d)"

definition w_nonce :: "bytes \<Rightarrow> bytes" where
  "w_nonce d = segment W_NONCE_OFF XMSS_NONCE_LEN d"

definition w_hashes :: "bytes \<Rightarrow> node list" where
  "w_hashes d = blocks XMSS_NODE_BYTES XMSS_WOTS_LEN (segment W_SIG_OFF W_SIG_LEN d)"

definition w_path :: "bytes \<Rightarrow> node list" where
  "w_path d = blocks XMSS_NODE_BYTES XMSS_H (segment W_PATH_OFF W_PATH_LEN d)"

definition w_sig :: "bytes \<Rightarrow> xmss_sig" where
  "w_sig d = \<lparr>xs_leaf_index = w_epoch d, xs_nonce = w_nonce d, xs_sig_hashes = w_hashes d, xs_auth_path = w_path d\<rparr>"

lemma epoch_bytes: "length d = W_END \<Longrightarrow> put_epoch_be (w_epoch d) = segment W_LEAFIDX_OFF XMSS_EPOCH_BYTES d"
  using bytes_be_load_be [of "segment W_LEAFIDX_OFF XMSS_EPOCH_BYTES d", where 'a = 32]
  by (simp add: put_epoch_be_def w_epoch_def segment_def w_layout hm_sizes xmss_sizes)

lemmas valid_sizes = blake3_th_mpc_valid_sizes_def BLAKE3_TH_MAX_DOMAIN_def BLAKE3_CHUNK_LEN_def
  BLAKE3_TH_FRAME_LEN_def BLAKE3_OUT_LEN_def

lemma computes_message_hash:
  assumes B: "b3_chunk_ok (b3 P)" "b3_length (b3 P)" and ok: "malloc_ok P 56" and d: "length d = W_END"
    and pk: "length pk = 16" and m: "length m = 32"
  shows "computes (circ_message_hash plain_gates pk (map pl d) (map pl m))
    (map pl (xmss_hash_message P pk (w_epoch d) (w_nonce d) m))"
proof -
  have n: "length (w_nonce d) = 24" using d by (simp add: w_nonce_def segment_def w_layout hm_sizes xmss_sizes)
  have e: "length (segment W_LEAFIDX_OFF XMSS_EPOCH_BYTES d) = 4" using d by (simp add: segment_def w_layout hm_sizes xmss_sizes)
  have "computes (circ_th plain_gates (map pl (pk @ [XMSS_TWEAK_MESSAGE] @ put_epoch_be (w_epoch d))) (map pl (w_nonce d @ m)) 32)
      (map pl (blake3_th_into (b3 P) (pk @ [XMSS_TWEAK_MESSAGE] @ put_epoch_be (w_epoch d)) (w_nonce d @ m) 32))"
    by (rule computes_hash [OF B]) (simp_all add: circuit_domains valid_sizes pk m n put_epoch_be_def XMSS_EPOCH_BYTES_def)
  then show ?thesis
    using ok n m by (simp add: circ_message_hash_def circ_leafidx_def epoch_bytes [OF d] w_nonce_def xmss_hash_message_def)
qed

lemma computes_leaf:
  assumes B: "b3_chunk_ok (b3 P)" "b3_length (b3 P)" and d: "length d = W_END" and pk: "length pk = 16"
    and h: "length (concat hashes) = 672"
  shows "computes (circ_leaf plain_gates pk (map pl d) (map pl (concat hashes)))
    (map pl (xmss_hash_public_key P pk (w_epoch d) hashes))"
proof -
  have "computes (circ_th plain_gates (map pl (pk @ [XMSS_TWEAK_LEAF] @ put_epoch_be (w_epoch d))) (map pl (concat hashes)) XMSS_NODE_BYTES)
      (map pl (blake3_th_into (b3 P) (pk @ [XMSS_TWEAK_LEAF] @ put_epoch_be (w_epoch d)) (concat hashes) XMSS_NODE_BYTES))"
    by (rule computes_hash [OF B]) (simp_all add: circuit_domains valid_sizes pk h put_epoch_be_def xmss_sizes del: length_concat)
  then show ?thesis
    by (simp add: circ_leaf_def circ_leafidx_def epoch_bytes [OF d] xmss_hash_public_key_def del: map_concat)
qed

subsection \<open>The climb\<close>

lemma put_idx_le_eq: "put_idx_le v = bytes_le 4 v"
proof (rule nth_equalityI)
  fix k assume "k < length (put_idx_le v)"
  then have k: "k < 4" by (simp add: put_idx_le_def)
  have ff: "(0xFF :: u32) = mask 8" by (simp add: mask_eq_exp_minus_1)
  have "(ucast (drop_bit (8 * k) v AND 0xFF) :: byte) = ucast (drop_bit (8 * k) v)"
    unfolding ff by (rule bit_word_eqI) (auto simp: bit_simps)
  then show "put_idx_le v ! k = bytes_le 4 v ! k" using k by (simp add: put_idx_le_def nth_bytes_le)
qed (simp add: put_idx_le_def)

lemma nth_node_words: "w < 4 \<Longrightarrow> node_words node ! w = load_le (segment (4 * w) 4 node)"
  by (simp add: node_words_def xmss_node_load_word_def xmss_sizes)

lemma length_node_words: "length (node_words node) = 4"
  by (simp add: node_words_def xmss_sizes)

lemma node_of_words_eq:
  assumes "length ws = 4"
  shows "node_of_words ws = concat (map (bytes_le 4) ws)"
proof -
  have "n \<le> 4 \<Longrightarrow> fold (\<lambda>w node. xmss_node_store_word node w (ws ! w)) [0..<n] (replicate 16 0)
      = concat (map (bytes_le 4) (take n ws)) @ replicate (16 - 4 * n) 0" for n
  proof (induction n)
    case (Suc n)
    have "length (concat (map (bytes_le 4 :: u32 \<Rightarrow> bytes) (take n ws))) = 4 * n"
      using Suc.prems assms by (simp add: length_concat comp_def sum_list_triv)
    moreover have "take (Suc n) ws = take n ws @ [ws ! n]" using Suc.prems assms by (simp add: take_Suc_conv_app_nth)
    ultimately show ?case using Suc by (simp add: xmss_node_store_word_def)
  qed simp
  from this [of 4] show ?thesis using assms by (simp add: node_of_words_def xmss_sizes)
qed

lemma node_words_of_words: "length node = 16 \<Longrightarrow> node_of_words (node_words node) = node"
proof -
  assume n: "length node = 16"
  have "node_of_words (node_words node) = concat (map (bytes_le 4) (map (\<lambda>w. load_le (segment (4 * w) 4 node) :: u32) [0..<4]))"
    by (simp add: node_of_words_eq length_node_words) (simp add: node_words_def xmss_node_load_word_def [abs_def] xmss_sizes)
  also have "\<dots> = concat (map (\<lambda>w. segment (4 * w) 4 node) [0..<4])"
  proof -
    have "bytes_le 4 (load_le (segment (4 * w) 4 node) :: u32) = segment (4 * w) 4 node" if "w < 4" for w
      using bytes_le_load_le [of "segment (4 * w) 4 node", where 'a = 32] n that by (simp add: segment_def)
    then show ?thesis unfolding map_map comp_def by (intro arg_cong [where f = concat] map_cong refl) simp
  qed
  also have "\<dots> = concat (blocks 4 4 node)" by (simp add: blocks_def mult.commute)
  also have "\<dots> = node" using n by (simp add: concat_blocks)
  finally show ?thesis .
qed

lemma computes_swap:
  assumes "length node = 16" "length sib = 16"
  shows "computes (State_Monad.traverse_list (circ_swap_word plain_gates (pl (0 - (drop_bit k li AND 1)))
      (map pl (node_words node)) (map pl (node_words sib))) [0..<XMSS_NODE_WORDS])
    (map (\<lambda>w. if drop_bit k li AND 1 \<noteq> 0 then (pl (node_words sib ! w), pl (node_words node ! w))
               else (pl (node_words node ! w), pl (node_words sib ! w))) [0..<XMSS_NODE_WORDS])"
proof (rule computes_traverse)
  fix w assume "w \<in> set [0..<XMSS_NODE_WORDS]"
  then have w: "w < length (node_words node)" "w < length (node_words sib)" by (simp_all add: length_node_words xmss_sizes)
  have xx: "x XOR (x XOR y) = y" "y XOR (x XOR y) = x" for x y :: u32
    by (simp_all flip: xor.assoc) (simp add: xor.commute [of y x] xor.assoc)
  show "computes (circ_swap_word plain_gates (pl (0 - (drop_bit k li AND 1))) (map pl (node_words node)) (map pl (node_words sib)) w)
      (if drop_bit k li AND 1 \<noteq> 0 then (pl (node_words sib ! w), pl (node_words node ! w))
       else (pl (node_words node ! w), pl (node_words sib ! w)))"
    unfolding circ_swap_word_def nth_pl [OF w(1)] nth_pl [OF w(2)] pl_simps
    by (rule computes_bind [OF computes_and], unfold mask_and) (simp add: computes_return xx)
qed


text \<open>One level: the node and its sibling in the order of the index bit.\<close>

definition climb_step :: "platform \<Rightarrow> bytes \<Rightarrow> u32 \<Rightarrow> node list \<Rightarrow> nat \<Rightarrow> node \<Rightarrow> node" where
  "climb_step P pk li path h node =
     (if drop_bit h li AND 1 \<noteq> 0
      then xmss_hash_tree_node P pk (path ! h) node (of_nat h) (drop_bit (h + 1) li)
      else xmss_hash_tree_node P pk node (path ! h) (of_nat h) (drop_bit (h + 1) li))"

lemma walk_climb:
  "fold (xmss_walk_step P pk path) [0..<n] (leaf, li) = (fold (climb_step P pk li path) [0..<n] leaf, drop_bit n li)"
  by (induction n) (simp_all add: xmss_walk_step_def climb_step_def Let_def drop_bit_drop_bit)

lemma level_byte: "h < 32 \<Longrightarrow> (ucast (of_nat h AND 0xff :: u32) :: byte) = of_nat h"
proof -
  have ff: "(0xff :: u32) = mask 8" by (simp add: mask_eq_exp_minus_1)
  show ?thesis unfolding ff by (rule bit_word_eqI) (auto simp: bit_simps)
qed

lemma shr32_eq: "shr32 x k = drop_bit k x"
proof (rule bit_word_eqI)
  fix i assume "i < LENGTH(32)"
  show "bit (shr32 x k) i = bit (drop_bit k x) i"
    using bit_imp_le_length [of x "k + i"] by (auto simp: shr32_def bit_simps)
qed

lemma nth_w_path: "h < 32 \<Longrightarrow> w_path d ! h = segment (W_PATH_OFF + h * XMSS_NODE_BYTES) XMSS_NODE_BYTES d"
  by (simp add: w_path_def nth_blocks segment_segment xmss_sizes W_PATH_LEN_def)

lemma computes_level:
  assumes B: "b3_chunk_ok (b3 P)" "b3_length (b3 P)" and d: "length d = W_END" and pk: "length pk = 16"
    and n: "length node = 16" and h: "h < 32"
  shows "computes (circ_level plain_gates pk (map pl d) (pl li) h (map pl node))
    (map pl (climb_step P pk li (w_path d) h node))"
proof -
  let ?sib = "w_path d ! h" and ?b = "drop_bit h li AND 1 \<noteq> 0"
  have sib: "length ?sib = 16"
    using d h by (simp add: nth_w_path segment_def w_layout hm_sizes xmss_sizes)
  let ?l = "if ?b then ?sib else node" and ?r = "if ?b then node else ?sib"
  let ?sw = "map (\<lambda>w. if ?b then (pl (node_words ?sib ! w), pl (node_words node ! w))
               else (pl (node_words node ! w), pl (node_words ?sib ! w))) [0..<XMSS_NODE_WORDS]"
  have "map (\<lambda>w. node_words x ! w) [0..<XMSS_NODE_WORDS] = node_words x" for x
    by (rule nth_equalityI) (simp_all add: length_node_words xmss_sizes)
  then have "map fst ?sw = map pl (node_words ?l)" "map snd ?sw = map pl (node_words ?r)"
    by (simp_all add: comp_def flip: map_map [of pl "\<lambda>w. node_words _ ! w", unfolded comp_def])
  then have lr: "mw_buf 0 node_of_words (map fst ?sw) = map pl ?l" "mw_buf 0 node_of_words (map snd ?sw) = map pl ?r"
    by (simp_all add: node_words_of_words n sib)
  have sel: "mask_from_bit (mw_map (\<lambda>x. drop_bit h x AND 1) (pl li)) = pl (0 - (drop_bit h li AND 1))"
    by (simp add: mask_from_bit_def)
  have dm: "map pl (pk @ [XMSS_TWEAK_TREE, of_nat h]) @ mw_rows (mw_map (\<lambda>x. put_idx_le (shr32 x (h + 1))) (pl li))
      = map pl (pk @ [XMSS_TWEAK_TREE, ucast (of_nat h AND 0xff :: u32)] @ bytes_le 4 (drop_bit (h + 1) li))"
    using h by (simp add: put_idx_le_eq level_byte shr32_eq)
  have "computes (circ_th plain_gates (map pl (pk @ [XMSS_TWEAK_TREE, ucast (of_nat h AND 0xff :: u32)] @ bytes_le 4 (drop_bit (h + 1) li)))
      (map pl (?l @ ?r)) XMSS_NODE_BYTES) (map pl (climb_step P pk li (w_path d) h node))"
  proof (rule computes_eq, rule computes_hash [OF B])
    show "blake3_th_mpc_valid_sizes (length (pk @ [XMSS_TWEAK_TREE, ucast (of_nat h AND 0xff :: u32)] @ bytes_le 4 (drop_bit (h + 1) li)))
        (length (?l @ ?r)) XMSS_NODE_BYTES" by (simp add: valid_sizes pk n sib xmss_sizes)
  qed (simp_all add: climb_step_def xmss_hash_tree_node_def circuit_domains pk)
  then show ?thesis
    unfolding circ_level_def Let_def plain_np pl_consts segment_pl mw_buf_pl sel dm nth_w_path [OF h, symmetric]
    by (intro computes_bind [OF computes_swap [OF n sib]]) (simp only: lr map_append)
qed


lemma computes_path:
  assumes B: "b3_chunk_ok (b3 P)" "b3_length (b3 P)" and d: "length d = W_END" and pk: "length pk = 16" and n: "length leaf = 16"
  shows "computes (circ_path plain_gates pk (map pl d) (map pl leaf))
    (map pl (xmss_walk_auth_path P pk leaf (w_epoch d) (w_path d)))"
proof -
  have len: "length (climb_step P pk li path h node) = 16" for li path h node
    by (simp add: climb_step_def xmss_hash_tree_node_def blake3_th_into_eq [OF B(2)] pk th_def length_b3 [OF B(2)]
        BLAKE3_TH_MAX_DOMAIN_def BLAKE3_OUT_LEN_def xmss_sizes)
  have "computes (for_each (circ_level plain_gates pk (map pl d) (pl (w_epoch d))) [0..<XMSS_H] (map pl leaf))
      (map pl (fold (climb_step P pk (w_epoch d) (w_path d)) [0..<XMSS_H] leaf))
    \<and> length (fold (climb_step P pk (w_epoch d) (w_path d)) [0..<XMSS_H] leaf) = 16"
    by (rule computes_for_each_inv [where g = "map pl" and I = "\<lambda>x. length x = 16"])
       (use n in \<open>simp_all add: len computes_level [OF B d pk] XMSS_H_def\<close>)
  then show ?thesis
    unfolding circ_path_def Let_def plain_np circ_leafidx_def segment_pl mw_word_pl w_epoch_def [symmetric]
    by (simp add: xmss_walk_auth_path_def walk_climb)
qed

subsection \<open>The encoding checks\<close>

lemma bit_coord_fold32:
  fixes f :: "nat \<Rightarrow> u32"
  shows "bit (fold (\<lambda>k out. out OR push_bit k (f k AND 1)) [0..<n] 0) j \<longleftrightarrow> j < n \<and> j < 32 \<and> odd (f j)"
proof (induction n)
  case (Suc n)
  have "bit (push_bit n (f n AND 1)) j \<longleftrightarrow> j = n \<and> j < 32 \<and> odd (f n)"
    by (auto simp: bit_simps even_iff_mod_2_eq_zero and_one_eq odd_iff_mod_2_eq_one bit_1_iff split: if_splits)
  then show ?case using Suc by (auto simp: bit_or_iff less_Suc_eq)
qed simp

lemma odd_mh_bit: "odd (mh_bit buf j) \<longleftrightarrow> bit (buf ! (j div 8)) (j mod 8)"
  by (simp add: mh_bit_def bit_simps flip: bit_0)

lemma mh_coord_eq:
  assumes "ci < 42"
  shows "mh_coord mh ci = ucast (snd (xmss_extract_coords mh) ! ci)"
proof (rule bit_word_eqI)
  fix k assume "k < LENGTH(32)"
  have "bit (snd (xmss_extract_coords mh) ! ci) k \<longrightarrow> k < 3"
  proof
    assume b: "bit (snd (xmss_extract_coords mh) ! ci) k"
    have "unat (snd (xmss_extract_coords mh) ! ci) \<le> 7"
      using extract_coords_ok [of mh] assms by (simp add: coords_ok_def)
    then have "take_bit 3 (unat (snd (xmss_extract_coords mh) ! ci)) = unat (snd (xmss_extract_coords mh) ! ci)"
      by (simp add: take_bit_nat_eq_self_iff)
    then have "bit (take_bit 3 (unat (snd (xmss_extract_coords mh) ! ci))) k" using b by (simp add: bit_unsigned_iff bit_imp_le_length)
    then show "k < 3" by (simp add: bit_take_bit_iff)
  qed
  then show "bit (mh_coord mh ci) k = bit (ucast (snd (xmss_extract_coords mh) ! ci) :: u32) k"
    using bit_extract_coords [OF assms, of k mh]
    unfolding mh_coord_def bit_coord_fold32 odd_mh_bit XMSS_COORD_RES_BITS_def
    by (auto simp: bit_simps)
qed

lemma computes_sum:
  assumes "length mh = 32"
  shows "computes (circ_sum plain_gates (map pl mh)) (pl (of_nat (coords_sum (snd (xmss_extract_coords mh)))))"
proof -
  let ?c = "snd (xmss_extract_coords mh)"
  have c: "length ?c = 42" using extract_coords_ok [of mh] by (simp add: coords_ok_def)
  have "computes (for_each (\<lambda>ci acc. g_add plain_gates acc (mw_word 0 (\<lambda>h. mh_coord h ci) (map pl mh))) [0..<42] (pl 0))
      (pl (fold (\<lambda>ci acc. acc + ucast (?c ! ci)) [0..<42] 0))"
    by (rule computes_for_each [where g = pl]) (simp add: computes_add mh_coord_eq)
  moreover have "fold (\<lambda>ci acc. acc + ucast (?c ! ci)) [0..<n] (0 :: u32) = of_nat (sum_list (map unat (take n ?c)))" if "n \<le> 42" for n
    using that
  proof (induction n)
    case (Suc n)
    have "take (Suc n) ?c = take n ?c @ [?c ! n]" using Suc.prems c by (simp add: take_Suc_conv_app_nth)
    then show ?case using Suc by simp
  qed simp
  ultimately show ?thesis
    using c unfolding circ_sum_def coords_sum_def plain_np XMSS_WOTS_LEN_def by simp
qed

lemma coords_sum_le: "coords_sum (snd (xmss_extract_coords mh)) \<le> 294"
proof -
  have "sum_list (map unat cs) \<le> length cs * 7" if "\<forall>c\<in>set cs. unat c \<le> 7" for cs :: "byte list"
    using that by (induction cs) auto
  then show ?thesis using extract_coords_ok [of mh] by (fastforce simp: coords_sum_def coords_ok_def)
qed

lemma sum_word_iff: "(of_nat (coords_sum (snd (xmss_extract_coords mh))) :: u32) = of_nat XMSS_TARGET_SUM
    \<longleftrightarrow> coords_sum (snd (xmss_extract_coords mh)) = XMSS_TARGET_SUM"
  using coords_sum_le [of mh] by (subst of_nat_inject_word) (simp_all add: XMSS_TARGET_SUM_def)

lemma mh_leftover_zero: "mh_leftover mh = 0 \<longleftrightarrow> fst (xmss_extract_coords mh)"
proof -
  have b: "mh_bit mh j = of_bool (bit (mh ! (j div 8)) (j mod 8))" for j
    by (simp add: mh_bit_def and_one_eq mod_2_eq_odd bit_iff_odd_drop_bit)
  have seven: "drop_bit 7 w = of_bool (bit w 7)" for w :: byte
  proof (rule bit_word_eqI)
    fix n assume "n < LENGTH(8)"
    have "\<not> bit w (7 + n)" if "0 < n"
      using bit_imp_le_length [of w "7 + n"] that by auto
    then show "bit (drop_bit 7 w) n = bit (of_bool (bit w 7) :: byte) n"
      by (cases "n = 0") (auto simp: bit_drop_bit_eq of_bool_def bit_1_iff)
  qed
  show ?thesis
    by (cases "bit (mh ! 7) 7"; cases "bit (mh ! 15) 7")
       (simp_all add: mh_leftover_def b seven xmss_extract_coords_def XMSS_MSG_HASH_LEN_def Let_def)
qed

end
