(* ===== verification/Plain_Pool.thy ===== *)
theory Plain_Pool
  imports Plain_Xmss
begin

text \<open>
  The pooled chains in the clear: a schedule byte advances the chain it names by one step of
  \<^verbatim>\<open>xmss_hash_chain_step\<close> and adds one to that chain's position, and the check word is
  zero exactly when every byte names a chain and every position ends at 7.
\<close>

subsection \<open>Folds with one active index\<close>

lemma fold_xor_single:
  fixes v :: "'b \<Rightarrow> u32"
  shows "distinct xs \<Longrightarrow> fold (\<lambda>x acc. acc XOR (if x = k then v x else 0)) xs a = (if k \<in> set xs then a XOR v k else a)"
  by (induction xs arbitrary: a) auto

lemma mask_value: "0 - (drop_bit k w AND 1) = (if bit w k then - 1 else 0)" for w :: u32
  using mask_and [of k w "- 1"] by (simp add: and_one_eq bit_iff_odd_drop_bit odd_iff_mod_2_eq_one)

lemma mask_value': "- (drop_bit k w AND 1) = (if bit w k then - 1 else 0)" for w :: u32
  using mask_value [of k w] by simp

lemma odd_and_1: "odd (x AND 1) \<longleftrightarrow> odd x" for x :: "'a::len word"
  by (simp add: even_and_iff)

subsection \<open>Decoding a schedule byte\<close>

text \<open>The masks of all chains, and the word that marks an invalid byte.\<close>

definition byte_masks :: "byte \<Rightarrow> u32 list" where
  "byte_masks i = map (\<lambda>ci. if unat i = ci then - 1 else 0) [0..<42]"

definition byte_invalid :: "byte \<Rightarrow> u32" where
  "byte_invalid i = (if unat i < 42 then 0 else 1)"

lemma bit_pattern: "bit (pool_pattern g b) lane \<longleftrightarrow> lane < 32 \<and> \<not> bit (of_nat (32 * g + lane) :: u32) b"
proof -
  have one: "1 XOR (x AND 1) = (1 XOR x) AND 1" for x :: u32
    by (rule bit_word_eqI) (auto simp: bit_simps)
  show ?thesis
    unfolding pool_pattern_def one bit_coord_fold32
    by (auto simp: even_xor_iff bit_iff_odd_drop_bit)
qed

definition onehot :: "byte \<Rightarrow> nat \<Rightarrow> u32" where
  "onehot i g = fold (\<lambda>b acc. let m = (0 - (drop_bit b (ucast i) AND 1)) XOR pool_pattern g b
                              in if b = 0 then m else acc AND m) [0..<8] 0"

lemma computes_onehot: "computes (pool_onehot plain_gates (pl (ucast i)) g) (pl (onehot i g))"
proof -
  have "computes (for_each (\<lambda>b acc.
         let match = mw_xor_pub (pool_pattern g b) (pool_bitmask b (pl (ucast i)))
         in if b = 0 then State_Monad.return match else g_and plain_gates acc match) [0..<8] (pl 0))
     (pl (fold (\<lambda>b acc. let m = (0 - (drop_bit b (ucast i) AND 1)) XOR pool_pattern g b
                              in if b = 0 then m else acc AND m) [0..<8] 0))"
    by (rule computes_for_each [where g = pl])
       (auto simp: Let_def pool_bitmask_def intro!: computes_return computes_and)
  then show ?thesis by (simp add: pool_onehot_def onehot_def)
qed

lemma bit_onehot: "bit (onehot i g) lane \<longleftrightarrow> lane < 32 \<and> (\<forall>b<8. bit (of_nat (32 * g + lane) :: u32) b \<longleftrightarrow> bit i b)"
proof -
  have m: "bit ((0 - (drop_bit b (ucast i :: u32) AND 1)) XOR pool_pattern g b) lane \<longleftrightarrow>
      lane < 32 \<and> (bit (of_nat (32 * g + lane) :: u32) b \<longleftrightarrow> bit i b)" if "b < 8" for b
    unfolding mask_value using that by (auto simp: bit_xor_iff bit_pattern bit_ucast_iff bit_minus_1_iff)
  have "0 < n \<Longrightarrow> n \<le> 8 \<Longrightarrow> bit (fold (\<lambda>b acc. let m = (0 - (drop_bit b (ucast i) AND 1)) XOR pool_pattern g b
        in if b = 0 then m else acc AND m) [0..<n] (0 :: u32)) lane
      \<longleftrightarrow> lane < 32 \<and> (\<forall>b<n. bit (of_nat (32 * g + lane) :: u32) b \<longleftrightarrow> bit i b)" for n
  proof (induction n)
    case (Suc n)
    then show ?case using m [of n] by (cases "n = 0") (auto simp: Let_def bit_and_iff less_Suc_eq)
  qed simp
  from this [of 8] show ?thesis by (simp add: onehot_def)
qed

lemma onehot_bit_iff:
  assumes "g < 2"
  shows "bit (onehot i g) lane \<longleftrightarrow> lane < 32 \<and> unat i = 32 * g + lane"
proof -
  have "(\<forall>b<8. bit (of_nat (32 * g + lane) :: u32) b \<longleftrightarrow> bit i b) \<longleftrightarrow> unat i = 32 * g + lane" if "lane < 32"
  proof -
    define n where "n = 32 * g + lane"
    have n: "n < 2 ^ 8" using assms that by (simp add: n_def)
    have w: "n < 2 ^ LENGTH(32)" using n by simp
    have "(\<forall>b<8. bit (of_nat n :: u32) b \<longleftrightarrow> bit i b) \<longleftrightarrow> (of_nat n :: byte) = i"
      by (auto simp: bit_simps intro!: bit_word_eqI)
    also have "\<dots> \<longleftrightarrow> unat i = n" using n by (auto simp: unsigned_of_nat take_bit_nat_eq_self)
    finally show ?thesis by (simp add: n_def)
  qed
  then show ?thesis by (auto simp: bit_onehot)
qed

lemma onehot_values:
  "onehot i 0 = (if unat i < 32 then push_bit (unat i) 1 else 0)"
  "onehot i 1 AND 0x3ff = (if 32 \<le> unat i \<and> unat i < 42 then push_bit (unat i - 32) 1 else 0)"
proof -
  have o: "bit (onehot i 0) lane \<longleftrightarrow> lane < 32 \<and> unat i = lane" "bit (onehot i 1) lane \<longleftrightarrow> lane < 32 \<and> unat i = 32 + lane" for lane
    using onehot_bit_iff [of 0 i lane] onehot_bit_iff [of 1 i lane] by simp_all
  show "onehot i 0 = (if unat i < 32 then push_bit (unat i) 1 else 0)"
    by (rule bit_word_eqI) (auto simp: o bit_push_bit_iff bit_1_iff simp del: push_bit_of_1)
  have m: "(0x3ff :: u32) = mask 10" by (simp add: mask_eq_exp_minus_1)
  show "onehot i 1 AND 0x3ff = (if 32 \<le> unat i \<and> unat i < 42 then push_bit (unat i - 32) 1 else 0)"
    unfolding m by (rule bit_word_eqI) (auto simp: o bit_and_iff bit_mask_iff bit_push_bit_iff bit_1_iff simp del: push_bit_of_1 One_nat_def)
qed

lemma pool_masks_pl:
  "pool_masks (pl (onehot i 0)) (pl (onehot i 1 AND 0x3ff)) = map pl (byte_masks i)"
proof -
  have mask: "pool_bitmask (ci mod 32) (if ci div 32 = 0 then pl (onehot i 0) else pl (onehot i 1 AND 0x3ff))
      = pl (if unat i = ci then - 1 else 0)" if "ci < 42" for ci
  proof (cases "ci < 32")
    case True
    then show ?thesis using onehot_bit_iff [of 0 i ci] unfolding pool_bitmask_def by (simp add: mask_value')
  next
    case False
    then have "ci div 32 = 1" "ci mod 32 = ci - 32" "ci - 32 < 10" using that le_mod_geq [of 32 ci] by (simp_all add: div_nat_eqI)
    moreover have m: "(0x3ff :: u32) = mask 10" by (simp add: mask_eq_exp_minus_1)
    ultimately show ?thesis using False that onehot_bit_iff [of 1 i "ci - 32"] unfolding pool_bitmask_def m
      by (simp add: mask_value' bit_and_iff bit_mask_iff)
  qed
  show ?thesis
    unfolding pool_masks_def byte_masks_def XMSS_WOTS_LEN_def map_map comp_def
    by (intro map_cong refl) (rule mask, simp)
qed

lemma parity_one: "k < 32 \<Longrightarrow> pool_parity (2 ^ k) = 1"
proof -
  have "list_all (\<lambda>x. pool_parity x = 1) (map ((^) 2) [0..<32])"
    by (simp add: pool_parity_def Let_def upt_rec del: upt_Suc)
  then show "pool_parity (2 ^ k) = 1" if "k < 32"
    unfolding list_all_iff by (rule bspec) (use that in \<open>simp del: upt.simps\<close>)
qed

lemma pool_invalid_pl:
  "pool_invalid (pl (onehot i 0)) (pl (onehot i 1 AND 0x3ff)) = pl (byte_invalid i)"
proof -
  have "onehot i 0 XOR (onehot i 1 AND 0x3ff) = (if unat i < 42 then push_bit (unat i mod 32) 1 else 0)"
  proof (cases "unat i < 32")
    case False
    then have "unat i mod 32 = unat i - 32" if "unat i < 42" using that le_mod_geq [of 32 "unat i"] by simp
    then show ?thesis using False by (simp add: onehot_values del: One_nat_def)
  qed (simp add: onehot_values del: One_nat_def)
  moreover have "pool_parity 0 = 0" by (simp add: pool_parity_def)
  ultimately show ?thesis
    unfolding pool_invalid_def pl_simps by (simp add: parity_one byte_invalid_def)
qed

lemma computes_or_into: "computes (pool_or_into plain_gates (pl x) (pl y)) (pl (x OR y))"
proof -
  have "(x XOR y) XOR (x AND y) = x OR y" by (rule bit_word_eqI) (auto simp: bit_simps)
  then show ?thesis unfolding pool_or_into_def by (intro computes_bind [OF computes_and] computes_return) simp
qed

lemma computes_decode:
  "computes (pool_decode plain_gates (pl (ucast i)) (pl c)) (map pl (byte_masks i), pl (c OR byte_invalid i))"
  unfolding pool_decode_def
  by (rule computes_bind [OF computes_onehot], rule computes_bind [OF computes_onehot], unfold Let_def pl_simps,
      rule computes_bind, unfold pool_invalid_pl, rule computes_or_into, rule computes_return, unfold pool_masks_pl, rule refl)

subsection \<open>The packed positions\<close>

text \<open>Positions as the code packs them, from one byte per chain.\<close>

definition pack_word :: "byte list \<Rightarrow> nat \<Rightarrow> u32" where
  "pack_word cs g = load_le (segment (4 * g) 4 cs)"

definition pack :: "byte list \<Rightarrow> u32 list" where
  "pack cs = map (pack_word cs) [0..<11]"

lemma load_le_increment:
  assumes "l < length bs" "unat (bs ! l) < 255" "length bs \<le> 4"
  shows "(load_le (bs[l := bs ! l + 1]) :: u32) = load_le bs + 2 ^ (8 * l)"
  using assms
proof (induction bs arbitrary: l)
  case (Cons b bs)
  have disj: "(ucast c OR push_bit 8 x :: u32) = ucast c + push_bit 8 x" for c :: byte and x :: u32
  proof (rule disjunctive_add_eq_or [symmetric], rule bit_word_eqI)
    fix n assume "n < LENGTH(32)"
    then show "bit (ucast c AND push_bit 8 x :: u32) n = bit (0 :: u32) n"
      using bit_imp_le_length [of c n] by (auto simp: bit_simps)
  qed
  show ?case
  proof (cases l)
    case 0
    have "(ucast (b + 1) :: u32) = ucast b + 1"
      using Cons.prems 0 by (intro word_unat_eq_iff [THEN iffD2]) (simp add: unsigned_ucast_eq unat_word_ariths take_bit_nat_eq_self)
    then show ?thesis using 0 disj [of "b + 1" "load_le bs"] by (simp add: disj)
  next
    case (Suc k)
    have "push_bit 8 (x + 2 ^ (8 * k)) = push_bit 8 x + (2 :: u32) ^ (8 + 8 * k)" for x :: u32
      by (simp add: push_bit_eq_mult algebra_simps power_add)
    then show ?thesis using Suc Cons disj [of b "load_le bs + 2 ^ (8 * k)"] by (simp add: disj add.assoc)
  qed
qed simp

lemma length_pack_segment: "length cs = 42 \<Longrightarrow> length (segment (4 * g) 4 cs) = min 4 (42 - 4 * g)"
  by (simp add: segment_def)

lemma nth_pack_segment:
  "length cs = 42 \<Longrightarrow> i < 42 \<Longrightarrow> i mod 4 < length (segment (4 * (i div 4)) 4 cs) \<and> segment (4 * (i div 4)) 4 cs ! (i mod 4) = cs ! i"
proof -
  assume len: "length cs = 42" and i: "i < 42"
  have "4 * (i div 4) + i mod 4 = i" by simp
  then have "i mod 4 < min 4 (42 - 4 * (i div 4))" using i by linarith
  then show ?thesis using len by (simp add: segment_def)
qed

lemma segment_update:
  "length cs = 42 \<Longrightarrow> i < 42 \<Longrightarrow>
     segment (4 * g) 4 (cs[i := v]) = (if g = i div 4 then (segment (4 * g) 4 cs)[i mod 4 := v] else segment (4 * g) 4 cs)"
proof (rule nth_equalityI)
  assume len: "length cs = 42" and i: "i < 42"
  show "length (segment (4 * g) 4 (cs[i := v])) =
      length (if g = i div 4 then (segment (4 * g) 4 cs)[i mod 4 := v] else segment (4 * g) 4 cs)"
    using len by (simp add: length_pack_segment)
  fix k assume "k < length (segment (4 * g) 4 (cs[i := v]))"
  then have k: "k < 4 \<and> k < 42 - 4 * g" using len by (simp add: length_pack_segment)
  have "4 * g + k = i \<longleftrightarrow> g = i div 4 \<and> k = i mod 4" using k by auto
  then show "segment (4 * g) 4 (cs[i := v]) ! k =
      (if g = i div 4 then (segment (4 * g) 4 cs)[i mod 4 := v] else segment (4 * g) 4 cs) ! k"
    using len i k by (auto simp: segment_def nth_list_update)
qed

text \<open>One step of a chain is one addition, without a carry into the next lane.\<close>

lemma pack_increment:
  assumes "length cs = 42" "i < 42" "unat (cs ! i) < 255"
  shows "pack (cs[i := cs ! i + 1]) = (pack cs)[i div 4 := pack cs ! (i div 4) + 2 ^ (8 * (i mod 4))]"
proof -
  have seg: "(load_le ((segment (4 * (i div 4)) 4 cs)[i mod 4 := cs ! i + 1]) :: u32)
      = load_le (segment (4 * (i div 4)) 4 cs) + 2 ^ (8 * (i mod 4))"
    using load_le_increment [of "i mod 4" "segment (4 * (i div 4)) 4 cs"] nth_pack_segment [OF assms(1,2)] assms
    by (simp add: length_pack_segment)
  show ?thesis
  proof (rule nth_equalityI)
    fix g assume "g < length (pack (cs[i := cs ! i + 1]))"
    then have g: "g < 11" by (simp add: pack_def)
    show "pack (cs[i := cs ! i + 1]) ! g = (pack cs)[i div 4 := pack cs ! (i div 4) + 2 ^ (8 * (i mod 4))] ! g"
      using g assms(2) seg segment_update [OF assms(1,2)]
      by (cases "g = i div 4") (simp_all add: pack_def pack_word_def)
  qed (simp add: pack_def)
qed

lemma pack_lane:
  assumes "length cs = 42" "i < 42"
  shows "(ucast (drop_bit (8 * (i mod 4)) (pack cs ! (i div 4))) :: byte) = cs ! i"
proof -
  let ?s = "segment (4 * (i div 4)) 4 cs"
  have "i div 4 < 11" using assms(2) by simp
  then have "pack cs ! (i div 4) = load_le ?s" by (simp add: pack_def pack_word_def)
  moreover have "bytes_le (length ?s) (load_le ?s :: u32) ! (i mod 4) = ?s ! (i mod 4)"
    using bytes_le_load_le [of ?s, where 'a = 32] assms by (simp add: length_pack_segment)
  ultimately show ?thesis using nth_pack_segment [OF assms] by (simp add: nth_bytes_le)
qed

subsection \<open>Selecting, advancing and writing back\<close>

definition nodes_words :: "node list \<Rightarrow> u32 list list" where
  "nodes_words ns = map node_words ns"

lemma computes_xor_and:
  assumes "\<And>x. x \<in> set is \<Longrightarrow> a x = pl (f x)" "\<And>x. x \<in> set is \<Longrightarrow> b x = pl (g x)"
  shows "computes (for_each (\<lambda>x acc. do { t \<leftarrow> g_and plain_gates (a x) (b x); State_Monad.return (mpc_XOR acc t) }) is (pl v))
    (pl (fold (\<lambda>x acc. acc XOR (f x AND g x)) is v))"
  by (rule computes_for_each [where g = pl])
     (use assms in \<open>auto intro!: computes_bind [OF computes_and] computes_return\<close>)

text \<open>The words of the chain a byte names, zero for an invalid byte.\<close>

definition chosen :: "byte \<Rightarrow> node list \<Rightarrow> node" where
  "chosen i ns = (if unat i < 42 then ns ! unat i else replicate 16 0)"

lemma load_le_zeros: "load_le (replicate n 0) = (0 :: 'a::len word)"
  by (induction n) simp_all

lemma node_words_zero: "node_words (replicate 16 0) = replicate 4 0"
proof (rule nth_equalityI)
  fix w assume "w < length (node_words (replicate 16 0))"
  then have "w < 4" by (simp add: length_node_words)
  then show "node_words (replicate 16 0) ! w = replicate 4 0 ! w"
    using load_le_zeros [of 4] by (simp add: nth_node_words segment_def)
qed (simp add: length_node_words)

lemma nth_byte_masks: "ci < 42 \<Longrightarrow> byte_masks i ! ci = (if unat i = ci then - 1 else 0)"
  by (simp add: byte_masks_def)

lemma length_byte_masks: "length (byte_masks i) = 42"
  by (simp add: byte_masks_def)

lemma computes_select:
  assumes "length ns = 42" "w < 4"
  shows "computes (pool_select plain_gates (map pl (byte_masks i)) (map (map pl) (nodes_words ns)) w) (pl (node_words (chosen i ns) ! w))"
proof -
  have "computes (pool_select plain_gates (map pl (byte_masks i)) (map (map pl) (nodes_words ns)) w)
      (pl (fold (\<lambda>ci acc. acc XOR ((if unat i = ci then - 1 else 0) AND node_words (ns ! ci) ! w)) [0..<42] 0))"
    unfolding pool_select_def plain_np XMSS_WOTS_LEN_def pl_simps
    by (rule computes_xor_and) (use assms in \<open>auto simp: nth_byte_masks length_byte_masks nodes_words_def length_node_words\<close>)
  moreover have "fold (\<lambda>ci acc. acc XOR ((if unat i = ci then - 1 else 0) AND node_words (ns ! ci) ! w)) [0..<42] 0
      = fold (\<lambda>ci acc. acc XOR (if ci = unat i then node_words (ns ! ci) ! w else 0)) [0..<42] 0"
    by (rule fold_cong) (auto simp: fun_eq_iff)
  ultimately show ?thesis
    using fold_xor_single [of "[0..<42]" "unat i" "\<lambda>ci. node_words (ns ! ci) ! w" 0] assms
    by (cases "unat i < 42") (simp_all add: chosen_def node_words_zero)
qed

lemma pool_lanes_iff: "lane \<in> set (pool_lanes g) \<longleftrightarrow> lane < 4 \<and> 4 * g + lane < 42"
  by (auto simp: pool_lanes_def XMSS_WOTS_LEN_def)

lemma fold_lanes:
  fixes v :: "nat \<Rightarrow> u32"
  shows "fold (\<lambda>lane acc. acc XOR (if n = 4 * g + lane then v lane else 0)) (pool_lanes g) 0
    = (if n < 42 \<and> n div 4 = g then v (n mod 4) else 0)"
proof -
  have "fold (\<lambda>lane acc. acc XOR (if n = 4 * g + lane then v lane else 0)) (pool_lanes g) 0
      = fold (\<lambda>lane acc. acc XOR (if lane = n mod 4 then (if n div 4 = g then v lane else 0) else 0)) (pool_lanes g) 0"
  proof (rule fold_cong [OF refl refl])
    fix lane assume "lane \<in> set (pool_lanes g)"
    then have "n = 4 * g + lane \<longleftrightarrow> n div 4 = g \<and> lane = n mod 4" by (auto simp: pool_lanes_iff)
    then show "(\<lambda>acc. acc XOR (if n = 4 * g + lane then v lane else 0)) =
        (\<lambda>acc. acc XOR (if lane = n mod 4 then (if n div 4 = g then v lane else 0) else 0))" by auto
  qed
  also have "\<dots> = (if n mod 4 \<in> set (pool_lanes g) then 0 XOR (if n div 4 = g then v (n mod 4) else 0) else 0)"
    by (rule fold_xor_single) (simp add: pool_lanes_def)
  also have "\<dots> = (if n < 42 \<and> n div 4 = g then v (n mod 4) else 0)"
  proof (cases "n div 4 = g")
    case True
    then have "4 * g + n mod 4 = n" by auto
    then show ?thesis by (simp add: pool_lanes_iff)
  qed simp
  finally show ?thesis .
qed

lemma fold_mpc_xor:
  assumes "\<And>x. x \<in> set xs \<Longrightarrow> f x = pl (g x)"
  shows "fold (\<lambda>x acc. mpc_XOR acc (f x)) xs (pl v) = pl (fold (\<lambda>x acc. acc XOR g x) xs v)"
  using assms by (induction xs arbitrary: v) auto

lemma group_values:
  "pool_increment 0 (map pl (byte_masks i)) g = pl (if unat i < 42 \<and> unat i div 4 = g then 2 ^ (8 * (unat i mod 4)) else 0)"
  "pool_group_mask 0 (map pl (byte_masks i)) g = pl (if unat i < 42 \<and> unat i div 4 = g then - 1 else 0)"
proof -
  have nth: "map pl (byte_masks i) ! (4 * g + lane) = pl (if unat i = 4 * g + lane then - 1 else 0)" if "lane \<in> set (pool_lanes g)" for lane
    using that by (simp add: nth_byte_masks length_byte_masks pool_lanes_iff)
  have one: "mw_map (\<lambda>m. push_bit (8 * lane) (m AND 1)) (pl (if b then - 1 else 0 :: u32)) = pl (if b then 2 ^ (8 * lane) else 0)" for lane b
    using push_bit_of_1 [of "8 * lane", where 'a = u32] by (simp del: push_bit_and)
  have "pool_increment 0 (map pl (byte_masks i)) g
      = pl (fold (\<lambda>lane acc. acc XOR (if unat i = 4 * g + lane then 2 ^ (8 * lane) else 0)) (pool_lanes g) 0)"
    unfolding pool_increment_def pl_simps by (rule fold_mpc_xor) (simp only: nth one)
  then show "pool_increment 0 (map pl (byte_masks i)) g = pl (if unat i < 42 \<and> unat i div 4 = g then 2 ^ (8 * (unat i mod 4)) else 0)"
    by (simp only: fold_lanes)
  have "pool_group_mask 0 (map pl (byte_masks i)) g
      = pl (fold (\<lambda>lane acc. acc XOR (if unat i = 4 * g + lane then - 1 else 0)) (pool_lanes g) 0)"
    unfolding pool_group_mask_def pl_simps by (rule fold_mpc_xor) (simp only: nth)
  then show "pool_group_mask 0 (map pl (byte_masks i)) g = pl (if unat i < 42 \<and> unat i div 4 = g then - 1 else 0)"
    by (simp only: fold_lanes)
qed

subsection \<open>The position of the chosen chain\<close>

definition advance :: "byte \<Rightarrow> nat \<Rightarrow> u32 list \<times> u32 \<Rightarrow> u32 list \<times> u32" where
  "advance i g = (\<lambda>(ps, position).
     let p = ps ! g + (if unat i < 42 \<and> unat i div 4 = g then 2 ^ (8 * (unat i mod 4)) else 0)
     in (ps[g := p], position XOR (if unat i < 42 \<and> unat i div 4 = g then p else 0)))"

lemma advance_all:
  assumes "length ps = 11" "n \<le> 11"
  shows "fold (advance i) [0..<n] (ps, 0) =
    (if unat i < 42 \<and> unat i div 4 < n
     then (ps[unat i div 4 := ps ! (unat i div 4) + 2 ^ (8 * (unat i mod 4))], ps ! (unat i div 4) + 2 ^ (8 * (unat i mod 4)))
     else (ps, 0))"
  using assms(2)
proof (induction n)
  case (Suc n)
  then show ?case using assms(1) by (auto simp: advance_def Let_def less_Suc_eq)
qed simp

lemma computes_advance:
  assumes "g < length ps"
  shows "computes (pool_advance plain_gates (map pl (byte_masks i)) g (map pl ps, pl position))
    (case advance i g (ps, position) of (ps, position) \<Rightarrow> (map pl ps, pl position))"
proof -
  have m: "(if b then - 1 else 0) AND x = (if b then x else 0)" for b and x :: u32 by simp
  show ?thesis
    unfolding pool_advance_def prod.case plain_np group_values advance_def Let_def nth_pl [OF assms]
    by (rule computes_bind [OF computes_add], rule computes_bind [OF computes_and], rule computes_return)
       (simp only: m map_update pl_simps)
qed

lemma computes_advance_pair:
  "g < length (fst x) \<Longrightarrow> computes (pool_advance plain_gates (map pl (byte_masks i)) g (case x of (ps, position) \<Rightarrow> (map pl ps, pl position)))
    (case advance i g x of (ps, position) \<Rightarrow> (map pl ps, pl position))"
  using computes_advance [of g "fst x" i "snd x"] by (simp add: case_prod_beta)

definition plain_position :: "byte \<Rightarrow> u32 list \<Rightarrow> u32 list \<times> u32" where
  "plain_position i ps =
     (if unat i < 42
      then (ps[unat i div 4 := ps ! (unat i div 4) + 2 ^ (8 * (unat i mod 4))],
            drop_bit (8 * (unat i mod 4)) (ps ! (unat i div 4) + 2 ^ (8 * (unat i mod 4))))
      else (ps, 0))"

lemma computes_lane_select:
  "computes (pool_lane_select plain_gates (pl (ucast i)) (pl position)) (pl (drop_bit (8 * (unat i mod 4)) position))"
proof -
  have xx: "p XOR (if b then p XOR q else 0) = (if b then q else p)" for b and p q :: u32
    by (simp flip: xor.assoc)
  have one: "computes (do {
         let shift = push_bit b 8;
         let delta = mw_map (\<lambda>p. p XOR drop_bit shift p) (pl p);
         t \<leftarrow> g_and plain_gates (pool_bitmask b (pl (ucast i))) delta;
         State_Monad.return (mpc_XOR (pl p) t) }) (pl (if bit i b then drop_bit (push_bit b 8) p else p))" if "b < 8" for b p
  proof -
    have "bit (ucast i :: u32) b = bit i b" using that by (simp add: bit_ucast_iff)
    then have m: "(0 - (drop_bit b (ucast i :: u32) AND 1)) AND x = (if bit i b then x else 0)" for x
      by (simp add: mask_value')
    show ?thesis
      unfolding Let_def pool_bitmask_def pl_simps
      by (rule computes_bind [OF computes_and], rule computes_return, unfold pl_simps m xx) (rule refl)
  qed
  have "unat i mod 4 = (if bit i 1 then 2 else 0) + (if bit i 0 then 1 else 0)"
  proof -
    have b: "bit i 0 \<longleftrightarrow> odd (unat i)" "bit i 1 \<longleftrightarrow> odd (unat i div 2)"
      using bit_unsigned_iff [of i 0, where ?'a = nat] bit_unsigned_iff [of i 1, where ?'a = nat] by (simp_all add: bit_iff_odd)
    show ?thesis unfolding b by presburger
  qed
  then have eq: "drop_bit (8 * (unat i mod 4)) position =
      (if bit i 0 then drop_bit (push_bit 0 8) (if bit i 1 then drop_bit (push_bit 1 8) position else position)
       else (if bit i 1 then drop_bit (push_bit 1 8) position else position))"
    by (simp add: drop_bit_drop_bit)
  show ?thesis
    unfolding pool_lane_select_def eq
    by (unfold for_each.simps, rule computes_bind [OF one], simp, (unfold for_each.simps)?, rule computes_bind [OF one], simp,
        (unfold for_each.simps)?, rule computes_return, simp)
qed

lemma computes_position:
  assumes "length ps = 11"
  shows "computes (pool_position plain_gates (pl (ucast i)) (map pl (byte_masks i)) (map pl ps))
    (case plain_position i ps of (ps, position) \<Rightarrow> (map pl ps, pl position))"
proof -
  let ?g = "\<lambda>(ps, position). (map pl ps, pl position)"
  have len: "length (fst (advance i k x)) = length (fst x)" for k x by (simp add: advance_def Let_def split: prod.split)
  have "computes (for_each (pool_advance plain_gates (map pl (byte_masks i))) [0..<11] (?g (ps, 0))) (?g (fold (advance i) [0..<11] (ps, 0)))
    \<and> length (fst (fold (advance i) [0..<11] (ps, 0))) = 11"
    by (rule computes_for_each_inv [where g = ?g and I = "\<lambda>x. length (fst x) = 11"])
       (use assms len in \<open>simp_all add: computes_advance_pair\<close>)
  moreover have "fold (advance i) [0..<11] (ps, 0) =
    (if unat i < 42 then (ps[unat i div 4 := ps ! (unat i div 4) + 2 ^ (8 * (unat i mod 4))], ps ! (unat i div 4) + 2 ^ (8 * (unat i mod 4)))
     else (ps, 0))"
  proof -
    have "unat i div 4 < 11" if "unat i < 42" using that by simp
    then show ?thesis using advance_all [OF assms, of 11 i] by (cases "unat i < 42") (simp_all del: upt.simps)
  qed
  ultimately have "computes (for_each (pool_advance plain_gates (map pl (byte_masks i))) [0..<11] (map pl ps, pl 0))
      (?g (if unat i < 42 then (ps[unat i div 4 := ps ! (unat i div 4) + 2 ^ (8 * (unat i mod 4))], ps ! (unat i div 4) + 2 ^ (8 * (unat i mod 4)))
     else (ps, 0)))" by (simp del: upt.simps)
  then show ?thesis
    unfolding pool_position_def plain_np pl_simps pool_groups_def XMSS_WOTS_LEN_def plain_position_def
    by (cases "unat i < 42") (auto intro!: computes_bind computes_bind [OF computes_lane_select] computes_return simp del: upt.simps)
qed

subsection \<open>The hash and the write-back\<close>

lemma computes_pool_hash:
  assumes B: "b3_chunk_ok (b3 P)" "b3_length (b3 P)" and d: "length d = W_END" and pk: "length pk = 16" and n: "length node = 16"
  shows "computes (pool_hash plain_gates (map pl d) pk (pl (ucast i)) (pl position) (map pl (node_words node)))
    (map pl (xmss_hash_chain_step P pk (w_epoch d) node i (ucast position)))"
proof -
  have i: "(ucast (ucast i :: u32) :: byte) = i" by (rule bit_word_eqI) (simp add: bit_simps)
  have tw: "mw_consts 0 pk @ segment W_LEAFIDX_OFF XMSS_EPOCH_BYTES (map pl d) @ [mw_map ucast (pl (ucast i :: u32)), mw_map ucast (pl position)]
      = map pl (pk @ put_epoch_be (w_epoch d) @ [i, ucast position])"
    by (simp add: epoch_bytes [OF d] i)
  have dm: "mw_buf 0 node_of_words (map pl (node_words node)) @ mw_consts 0 [XMSS_TWEAK_CHAIN] = map pl (node @ [XMSS_TWEAK_CHAIN])"
    by (simp add: node_words_of_words [OF n])
  show ?thesis
    unfolding pool_hash_def Let_def plain_np tw dm xmss_hash_chain_step_def
    by (rule computes_hash [OF B])
       (simp_all add: valid_sizes pk n put_epoch_be_def xmss_sizes circuit_domains)
qed

definition writeback :: "byte \<Rightarrow> u32 list \<Rightarrow> u32 list \<Rightarrow> nat \<Rightarrow> u32 list list \<Rightarrow> u32 list list" where
  "writeback i sel hw w nodes =
     fold (\<lambda>ci nodes. nodes[ci := (nodes ! ci)[w := nodes ! ci ! w XOR ((if unat i = ci then - 1 else 0) AND (sel ! w XOR hw ! w))]])
       [0..<42] nodes"

definition words_ok :: "u32 list list \<Rightarrow> bool" where
  "words_ok nodes \<longleftrightarrow> length nodes = 42 \<and> (\<forall>ci<42. length (nodes ! ci) = 4)"

lemma nth_update_if: "xs[i := x] ! j = (if i = j \<and> i < length xs then x else xs ! j)"
  by (cases "i < length xs") (auto simp: nth_list_update list_update_beyond)

lemma words_ok_update: "words_ok nodes \<Longrightarrow> words_ok (nodes[ci := (nodes ! ci)[w := x]])"
  by (auto simp: words_ok_def nth_update_if)

lemma computes_writeback:
  assumes "words_ok nodes" "w < 4" "length sel = 4" "length hw = 4"
  shows "computes (pool_writeback plain_gates (map pl (byte_masks i)) (map pl sel) (map pl hw) w (map (map pl) nodes))
      (map (map pl) (writeback i sel hw w nodes)) \<and> words_ok (writeback i sel hw w nodes)"
  unfolding pool_writeback_def writeback_def XMSS_WOTS_LEN_def
proof (rule computes_for_each_inv [where g = "map (map pl)" and I = words_ok, OF assms(1)])
  fix ci x assume ci: "ci \<in> set [0..<42]" and x: "words_ok x"
  let ?y = "x ! ci ! w XOR ((if unat i = ci then - 1 else 0) AND (sel ! w XOR hw ! w))"
  have nth: "map (map pl) x ! ci = map pl (x ! ci)" "map pl (x ! ci) ! w = pl (x ! ci ! w)" "map pl (byte_masks i) ! ci = pl (if unat i = ci then - 1 else 0)"
    using ci x assms(2) by (simp_all add: words_ok_def nth_byte_masks length_byte_masks)
  have eq: "(map (map pl) x)[ci := (map pl (x ! ci))[w := pl ?y]] = map (map pl) (x[ci := (x ! ci)[w := ?y]])"
    by (simp only: map_update)
  have "computes (do { t \<leftarrow> g_and plain_gates (map pl (byte_masks i) ! ci) (mpc_XOR (map pl sel ! w) (map pl hw ! w));
         State_Monad.return ((map (map pl) x)[ci := (map (map pl) x ! ci)[w := mpc_XOR (map (map pl) x ! ci ! w) t]]) })
      (map (map pl) (x[ci := (x ! ci)[w := ?y]]))"
    unfolding nth using assms
    by (simp only: nth_pl pl_simps) (rule computes_bind [OF computes_and], rule computes_return, simp only: pl_simps eq)
  then show "computes (do { t \<leftarrow> g_and plain_gates (map pl (byte_masks i) ! ci) (mpc_XOR (map pl sel ! w) (map pl hw ! w));
         State_Monad.return ((map (map pl) x)[ci := (map (map pl) x ! ci)[w := mpc_XOR (map (map pl) x ! ci ! w) t]]) })
      (map (map pl) (x[ci := (x ! ci)[w := ?y]])) \<and> words_ok (x[ci := (x ! ci)[w := ?y]])"
    using words_ok_update [OF x] by blast
qed

lemma writeback_eq:
  "writeback i sel hw w nodes =
    (if unat i < 42 then nodes[unat i := (nodes ! unat i)[w := nodes ! unat i ! w XOR (sel ! w XOR hw ! w)]] else nodes)"
proof -
  have "fold (\<lambda>ci nodes. nodes[ci := (nodes ! ci)[w := nodes ! ci ! w XOR ((if unat i = ci then - 1 else 0) AND (sel ! w XOR hw ! w))]])
       [0..<n] nodes
    = (if unat i < n then nodes[unat i := (nodes ! unat i)[w := nodes ! unat i ! w XOR (sel ! w XOR hw ! w)]] else nodes)" for n
  proof (induction n)
    case (Suc n)
    have "nodes[k := x, n := nodes ! n] = nodes[k := x]" if "k < n" for k x
      using list_update_swap [of k n nodes x "nodes ! n"] that by simp
    then show ?case using Suc by (auto simp: less_Suc_eq)
  qed simp
  then show ?thesis by (simp only: writeback_def)
qed

lemma writeback_all:
  assumes "words_ok nodes" "unat i < 42 \<longrightarrow> sel = nodes ! unat i" "length hw = 4"
  shows "fold (writeback i sel hw) [0..<4] nodes = (if unat i < 42 then nodes[unat i := hw] else nodes)"
proof (cases "unat i < 42")
  case True
  let ?i = "unat i"
  have sel: "sel = nodes ! ?i" "length sel = 4" "?i < length nodes" using assms True by (auto simp: words_ok_def)
  have "w \<le> 4 \<Longrightarrow> fold (writeback i sel hw) [0..<w] nodes = nodes[?i := take w hw @ drop w sel]" for w
  proof (induction w)
    case 0
    then show ?case using sel by simp
  next
    case (Suc w)
    have "(take w hw @ drop w sel)[w := sel ! w XOR (sel ! w XOR hw ! w)] = take (Suc w) hw @ drop (Suc w) sel"
      using Suc.prems assms(3) sel(2)
      by (simp add: list_update_append take_Suc_conv_app_nth flip: xor.assoc Cons_nth_drop_Suc)
    then show ?case
      using Suc sel assms(3) True by (simp add: writeback_eq nth_append)
  qed
  from this [of 4] show ?thesis using True sel(2) assms(3) by (simp del: upt.simps)
next
  case False
  have "fold (writeback i sel hw) ws nodes = nodes" for ws
    by (induction ws) (simp_all add: writeback_eq False)
  then show ?thesis using False by simp
qed

end
