(* ===== verification/Plain_Chains.thy ===== *)
theory Plain_Chains
  imports Plain_Pool
begin

text \<open>
  The loop over the schedule and the whole statement in the clear. After \<open>k\<close> schedule bytes
  every chain has advanced by the number of times it was named; at the end the check word
  is zero exactly when the schedule completes every chain, and then the nodes are the public
  key \<^verbatim>\<open>xmss_wots_pk_from_sig\<close> computes.
\<close>

subsection \<open>One step\<close>

type_synonym chain_state = "node list \<times> byte list \<times> u32"

definition chain_next :: "platform \<Rightarrow> bytes \<Rightarrow> u32 \<Rightarrow> byte \<Rightarrow> chain_state \<Rightarrow> chain_state" where
  "chain_next P pk e i = (\<lambda>(ns, cs, c).
     if unat i < 42
     then (ns[unat i := xmss_hash_chain_step P pk e (ns ! unat i) i (cs ! unat i + 1)], cs[unat i := cs ! unat i + 1], c)
     else (ns, cs, c OR 1))"

fun chain_rep :: "chain_state \<Rightarrow> pool_state" where
  "chain_rep (ns, cs, c) = (map (map pl) (nodes_words ns), map pl (pack cs), pl c)"

definition state_ok :: "chain_state \<Rightarrow> bool" where
  "state_ok = (\<lambda>(ns, cs, c). length ns = 42 \<and> (\<forall>n\<in>set ns. length n = 16) \<and> length cs = 42 \<and> (\<forall>x\<in>set cs. unat x < 255))"

lemma plain_position_pack:
  assumes "length cs = 42" "\<forall>x\<in>set cs. unat x < 255"
  shows "plain_position i (pack cs) = (if unat i < 42 then (pack (cs[unat i := cs ! unat i + 1]), snd (plain_position i (pack cs))) else (pack cs, 0))"
    and "unat i < 42 \<Longrightarrow> ucast (snd (plain_position i (pack cs))) = cs ! unat i + 1"
proof -
  show p: "plain_position i (pack cs) = (if unat i < 42 then (pack (cs[unat i := cs ! unat i + 1]), snd (plain_position i (pack cs))) else (pack cs, 0))"
    using assms by (simp add: plain_position_def pack_increment)
  assume i: "unat i < 42"
  let ?cs = "cs[unat i := cs ! unat i + 1]"
  have "unat i div 4 < length (pack cs)" using i by (simp add: pack_def)
  then have "pack ?cs ! (unat i div 4) = pack cs ! (unat i div 4) + 2 ^ (8 * (unat i mod 4))"
    using assms i by (simp add: pack_increment)
  then have "snd (plain_position i (pack cs)) = drop_bit (8 * (unat i mod 4)) (pack ?cs ! (unat i div 4))"
    using i by (simp add: plain_position_def)
  then show "ucast (snd (plain_position i (pack cs))) = cs ! unat i + 1"
    using pack_lane [of ?cs "unat i"] assms(1) i by simp
qed

lemma computes_step:
  assumes B: "b3_chunk_ok (b3 P)" "b3_length (b3 P)" and d: "length d = W_END" and pk: "length pk = 16"
    and x: "state_ok x" and k: "k < 99"
  shows "computes (pool_step plain_gates (map pl d) pk k (chain_rep x)) (chain_rep (chain_next P pk (w_epoch d) (d ! (W_SCHEDULE_OFF + k)) x))"
proof -
  obtain ns cs c where xs: "x = (ns, cs, c)" by (cases x)
  have ns: "length ns = 42" "\<And>ci. ci < 42 \<Longrightarrow> length (ns ! ci) = 16" and cs: "length cs = 42" "\<forall>x\<in>set cs. unat x < 255"
    using x by (auto simp: state_ok_def xs)
  let ?i = "d ! (W_SCHEDULE_OFF + k)"
  define node where "node = chosen ?i ns"
  define pos where "pos = snd (plain_position ?i (pack cs))"
  define h where "h = xmss_hash_chain_step P pk (w_epoch d) node ?i (ucast pos)"
  have node: "length node = 16" using ns by (simp add: node_def chosen_def)
  have h: "length h = 16" unfolding h_def by (rule length_chain_step [OF B(2) node])
  have idx: "mw_map ucast (map pl d ! (W_SCHEDULE_OFF + k)) = pl (ucast ?i :: u32)"
    using d k by (simp add: w_layout hm_sizes xmss_sizes)
  have words: "words_ok (nodes_words ns)" using ns by (simp add: words_ok_def nodes_words_def length_node_words)
  have sel: "map (\<lambda>w. pl (node_words node ! w)) [0..<4] = map pl (node_words node)"
    by (rule nth_equalityI) (simp_all add: length_node_words)
  have select: "computes (State_Monad.traverse_list (pool_select plain_gates (map pl (byte_masks ?i)) (map (map pl) (nodes_words ns))) [0..<4])
      (map pl (node_words node))"
    unfolding sel [symmetric] by (rule computes_traverse) (simp add: computes_select ns node_def)
  have position: "computes (pool_position plain_gates (pl (ucast ?i)) (map pl (byte_masks ?i)) (map pl (pack cs)))
      (case plain_position ?i (pack cs) of (ps, position) \<Rightarrow> (map pl ps, pl position))"
    by (rule computes_position) (simp add: pack_def)
  have wb: "computes (for_each (pool_writeback plain_gates (map pl (byte_masks ?i)) (map pl (node_words node)) (map pl (node_words h)))
        [0..<4] (map (map pl) (nodes_words ns)))
      (map (map pl) (fold (writeback ?i (node_words node) (node_words h)) [0..<4] (nodes_words ns)))
      \<and> words_ok (fold (writeback ?i (node_words node) (node_words h)) [0..<4] (nodes_words ns))"
    by (rule computes_for_each_inv [where g = "map (map pl)" and I = words_ok, OF words])
       (use computes_writeback in \<open>simp add: length_node_words\<close>)
  have all: "fold (writeback ?i (node_words node) (node_words h)) [0..<4] (nodes_words ns)
      = (if unat ?i < 42 then (nodes_words ns)[unat ?i := node_words h] else nodes_words ns)"
    by (rule writeback_all [OF words]) (simp_all add: node_def chosen_def nodes_words_def ns length_node_words)
  have final: "(map (map pl) (if unat ?i < 42 then (nodes_words ns)[unat ?i := node_words h] else nodes_words ns),
       map pl (fst (plain_position ?i (pack cs))), pl (c OR byte_invalid ?i)) = chain_rep (chain_next P pk (w_epoch d) ?i x)"
  proof (cases "unat ?i < 42")
    case True
    then have "h = xmss_hash_chain_step P pk (w_epoch d) (ns ! unat ?i) ?i (cs ! unat ?i + 1)"
      using plain_position_pack(2) [OF cs True] by (simp add: h_def pos_def node_def chosen_def)
    moreover have "fst (plain_position ?i (pack cs)) = pack (cs[unat ?i := cs ! unat ?i + 1])"
      using plain_position_pack(1) [OF cs, of ?i] True by (metis fst_conv)
    ultimately show ?thesis
      using True by (simp add: xs chain_next_def nodes_words_def map_update byte_invalid_def)
  next
    case False
    then show ?thesis
      using plain_position_pack(1) [OF cs, of ?i] by (simp add: xs chain_next_def byte_invalid_def)
  qed
  show ?thesis
    unfolding pool_step_def xs chain_rep.simps prod.case Let_def idx plain_np XMSS_NODE_WORDS_def XMSS_NODE_BYTES_def
    apply (rule computes_bind [OF computes_decode], unfold prod.case)
    apply (rule computes_bind)
     apply (simp, rule select)
    apply (rule computes_bind [OF position], unfold case_prod_beta fst_conv snd_conv)
    apply (fold pos_def)
    apply (rule computes_bind [OF computes_pool_hash [OF B d pk node]], fold h_def, unfold mw_buf_pl)
    apply (rule computes_bind)
     apply (simp, rule wb [THEN conjunct1, unfolded all])
    apply (rule computes_return)
    using final unfolding xs by simp
qed

subsection \<open>The loop\<close>

definition sched :: "bytes \<Rightarrow> nat \<Rightarrow> byte" where
  "sched d k = d ! (W_SCHEDULE_OFF + k)"

text \<open>How often the first \<open>k\<close> bytes name a chain.\<close>

definition named :: "bytes \<Rightarrow> nat \<Rightarrow> nat \<Rightarrow> nat" where
  "named d k ci = length (filter (\<lambda>j. unat (sched d j) = ci) [0..<k])"

definition chain :: "platform \<Rightarrow> bytes \<Rightarrow> u32 \<Rightarrow> nat \<Rightarrow> byte \<Rightarrow> nat \<Rightarrow> node \<Rightarrow> node" where
  "chain P pk e ci c n start = fold (\<lambda>j cur. xmss_hash_chain_step P pk e cur (of_nat ci) (c + of_nat j + 1)) [0..<n] start"

lemma named_le: "named d k ci \<le> k"
  using length_filter_le [of "\<lambda>j. unat (sched d j) = ci" "[0..<k]"] by (simp add: named_def)

lemma named_Suc: "named d (Suc k) ci = named d k ci + (if unat (sched d k) = ci then 1 else 0)"
  by (simp add: named_def)

lemma length_chain: "b3_length (b3 P) \<Longrightarrow> length pk = 16 \<Longrightarrow> length x = 16 \<Longrightarrow> length (chain P pk e ci c n x) = 16"
  by (induction n) (simp_all add: chain_def length_chain_step)

lemma computes_loop:
  assumes "I 0 x" "\<And>k x. k < n \<Longrightarrow> I k x \<Longrightarrow> computes (body k (g x)) (g (f k x)) \<and> I (Suc k) (f k x)"
  shows "computes (for_each body [0..<n] (g x)) (g (fold f [0..<n] x)) \<and> I n (fold f [0..<n] x)"
proof -
  have "I m x \<Longrightarrow> m + l \<le> n \<Longrightarrow>
      computes (for_each body [m..<m + l] (g x)) (g (fold f [m..<m + l] x)) \<and> I (m + l) (fold f [m..<m + l] x)" for m l x
  proof (induction l arbitrary: m x)
    case (Suc l)
    have "computes (body m (g x)) (g (f m x))" "I (Suc m) (f m x)" using assms(2) [of m x] Suc.prems by auto
    moreover have "[m..<m + Suc l] = m # [Suc m..<Suc m + l]" by (simp add: upt_conv_Cons)
    ultimately show ?case using Suc.IH [of "Suc m" "f m x"] Suc.prems by (auto intro: computes_bind)
  qed (simp add: computes_return)
  from this [of 0 x n] show ?thesis using assms(1) by simp
qed

text \<open>The state after \<open>k\<close> steps from the nodes \<open>ns0\<close> and the coordinates \<open>cs0\<close>.\<close>

definition loop_inv :: "platform \<Rightarrow> bytes \<Rightarrow> bytes \<Rightarrow> node list \<Rightarrow> byte list \<Rightarrow> nat \<Rightarrow> chain_state \<Rightarrow> bool" where
  "loop_inv P pk d ns0 cs0 k = (\<lambda>(ns, cs, c). length ns = 42 \<and> length cs = 42 \<and>
     (\<forall>ci<42. ns ! ci = chain P pk (w_epoch d) ci (cs0 ! ci) (named d k ci) (ns0 ! ci)
            \<and> cs ! ci = cs0 ! ci + of_nat (named d k ci)) \<and>
     (c = 0 \<longleftrightarrow> (\<forall>j<k. unat (sched d j) < 42)))"

lemma unat_advanced: "unat (c :: byte) \<le> 7 \<Longrightarrow> n \<le> 99 \<Longrightarrow> unat (c + of_nat n) = unat c + n"
  by (simp add: unat_word_ariths unsigned_of_nat take_bit_nat_eq_self)

lemma loop_inv_ok:
  assumes "loop_inv P pk d ns0 cs0 k x" "coords_ok cs0" "length ns0 = 42" "\<forall>n\<in>set ns0. length n = 16" "k \<le> 99"
    and "b3_length (b3 P)" "length pk = 16"
  shows "state_ok x"
proof -
  obtain ns cs c where x: "x = (ns, cs, c)" by (cases x)
  have l: "length ns = 42" "length cs = 42"
    and n: "\<And>ci. ci < 42 \<Longrightarrow> ns ! ci = chain P pk (w_epoch d) ci (cs0 ! ci) (named d k ci) (ns0 ! ci)"
    and c: "\<And>ci. ci < 42 \<Longrightarrow> cs ! ci = cs0 ! ci + of_nat (named d k ci)"
    using assms(1) by (auto simp: loop_inv_def x)
  have "length (ns ! ci) = 16" if "ci < 42" for ci
    using n [OF that] assms(3,4,6,7) that by (simp add: length_chain)
  moreover have "unat (cs ! ci) < 255" if "ci < 42" for ci
  proof -
    have "unat (cs0 ! ci) \<le> 7" using assms(2) that by (simp add: coords_ok_def)
    then show ?thesis
      using unat_advanced [of "cs0 ! ci" "named d k ci"] named_le [of d k ci] assms(5) unfolding c [OF that] by linarith
  qed
  ultimately show ?thesis using l by (auto simp: state_ok_def x in_set_conv_nth)
qed

lemma loop_inv_step:
  assumes "loop_inv P pk d ns0 cs0 k x"
  shows "loop_inv P pk d ns0 cs0 (Suc k) (chain_next P pk (w_epoch d) (sched d k) x)"
proof -
  obtain ns cs c where x: "x = (ns, cs, c)" by (cases x)
  have or1: "c OR 1 \<noteq> 0" for c :: u32
  proof
    assume "c OR 1 = 0"
    then have "bit (c OR 1) 0 = bit (0 :: u32) 0" by simp
    then show False by (simp add: bit_or_iff bit_1_iff)
  qed
  have i: "(of_nat (unat (sched d k)) :: byte) = sched d k" by simp
  show ?thesis
  proof (cases "unat (sched d k) < 42")
    case True
    then show ?thesis
      using assms i by (auto simp: x loop_inv_def chain_next_def named_Suc nth_update_if chain_def less_Suc_eq algebra_simps)
  next
    case False
    then show ?thesis
      using assms or1 by (auto simp: x loop_inv_def chain_next_def named_Suc less_Suc_eq)
  qed
qed

lemma computes_chains_loop:
  assumes B: "b3_chunk_ok (b3 P)" "b3_length (b3 P)" and d: "length d = W_END" and pk: "length pk = 16"
    and init: "coords_ok cs0" "length ns0 = 42" "\<forall>n\<in>set ns0. length n = 16"
  shows "\<exists>x. computes (for_each (pool_step plain_gates (map pl d) pk) [0..<99] (chain_rep (ns0, cs0, 0))) (chain_rep x)
    \<and> loop_inv P pk d ns0 cs0 99 x"
proof -
  have "loop_inv P pk d ns0 cs0 0 (ns0, cs0, 0)"
    using init by (simp add: loop_inv_def named_def chain_def coords_ok_def)
  moreover have "computes (pool_step plain_gates (map pl d) pk k (chain_rep x)) (chain_rep (chain_next P pk (w_epoch d) (sched d k) x))
      \<and> loop_inv P pk d ns0 cs0 (Suc k) (chain_next P pk (w_epoch d) (sched d k) x)"
    if "k < 99" "loop_inv P pk d ns0 cs0 k x" for k x
  proof -
    have "state_ok x" by (rule loop_inv_ok [OF that(2) init _ B(2) pk]) (use that(1) in simp)
    then show ?thesis using computes_step [OF B d pk _ that(1), of x] loop_inv_step [OF that(2)] by (simp add: sched_def)
  qed
  ultimately have "computes (for_each (pool_step plain_gates (map pl d) pk) [0..<99] (chain_rep (ns0, cs0, 0)))
      (chain_rep (fold (\<lambda>k. chain_next P pk (w_epoch d) (sched d k)) [0..<99] (ns0, cs0, 0)))
    \<and> loop_inv P pk d ns0 cs0 99 (fold (\<lambda>k. chain_next P pk (w_epoch d) (sched d k)) [0..<99] (ns0, cs0, 0))"
    by (rule computes_loop [where g = chain_rep])
  then show ?thesis by blast
qed

subsection \<open>The initial state and the final check\<close>

lemma nth_w_hashes: "ci < 42 \<Longrightarrow> w_hashes d ! ci = segment (W_SIG_OFF + ci * XMSS_NODE_BYTES) XMSS_NODE_BYTES d"
  by (simp add: w_hashes_def nth_blocks segment_segment xmss_sizes W_SIG_LEN_def)

lemma w_hashes_ok: "length d = W_END \<Longrightarrow> length (w_hashes d) = 42 \<and> (\<forall>n\<in>set (w_hashes d). length n = 16)"
  by (auto simp: w_hashes_def xmss_sizes blocks_def segment_def w_layout hm_sizes)

lemma pool_nodes_pl:
  assumes "length d = W_END"
  shows "pool_nodes 0 (map pl d) = map (map pl) (nodes_words (w_hashes d))"
proof (rule nth_equalityI)
  show "length (pool_nodes 0 (map pl d)) = length (map (map pl) (nodes_words (w_hashes d)))"
    using w_hashes_ok [OF assms] by (simp add: pool_nodes_def nodes_words_def XMSS_WOTS_LEN_def)
  fix ci assume "ci < length (pool_nodes 0 (map pl d))"
  then have "ci < 42" by (simp add: pool_nodes_def XMSS_WOTS_LEN_def)
  then show "pool_nodes 0 (map pl d) ! ci = map (map pl) (nodes_words (w_hashes d)) ! ci"
    using w_hashes_ok [OF assms] by (simp add: pool_nodes_def nodes_words_def nth_w_hashes XMSS_WOTS_LEN_def)
qed

lemma bit_mh_bit: "bit (mh_bit h j) k \<longleftrightarrow> k = 0 \<and> bit (h ! (j div 8)) (j mod 8)"
  by (auto simp: mh_bit_def bit_simps bit_1_iff)

lemma three_bits_coord:
  assumes "ci < 42" "s \<le> 24"
  shows "push_bit s (mh_bit mh (xmss_coord_bit_pos ci)) XOR push_bit (s + 1) (mh_bit mh (xmss_coord_bit_pos ci + 1))
      XOR push_bit (s + 2) (mh_bit mh (xmss_coord_bit_pos ci + 2)) = push_bit s (ucast (snd (xmss_extract_coords mh) ! ci))"
proof -
  have "bit (mh_coord mh ci) j \<longleftrightarrow> j < 3 \<and> odd (mh_bit mh (xmss_coord_bit_pos ci + j))" for j
    unfolding mh_coord_def bit_coord_fold32 XMSS_COORD_RES_BITS_def by auto
  then have c: "bit (ucast (snd (xmss_extract_coords mh) ! ci) :: u32) j \<longleftrightarrow>
      j < 3 \<and> bit (mh ! ((xmss_coord_bit_pos ci + j) div 8)) ((xmss_coord_bit_pos ci + j) mod 8)" for j
    unfolding mh_coord_eq [OF assms(1)] odd_mh_bit .
  show ?thesis
  proof (rule bit_word_eqI)
    fix n assume "n < LENGTH(32)"
    then have n: "n < 32" by simp
    consider "n = s" | "n = s + 1" | "n = s + 2" | "n < s" | "s + 2 < n" by linarith
    then show "bit (push_bit s (mh_bit mh (xmss_coord_bit_pos ci)) XOR push_bit (s + 1) (mh_bit mh (xmss_coord_bit_pos ci + 1))
        XOR push_bit (s + 2) (mh_bit mh (xmss_coord_bit_pos ci + 2))) n =
      bit (push_bit s (ucast (snd (xmss_extract_coords mh) ! ci)) :: u32) n"
      unfolding bit_xor_iff bit_push_bit_iff bit_mh_bit c by cases (use n in auto)
  qed
qed

lemma pack_append:
  assumes "length cs = 42" "n < 42"
  shows "(load_le (segment (4 * g) 4 (take (Suc n) cs)) :: u32) =
    (if g = n div 4 then load_le (segment (4 * g) 4 (take n cs)) XOR push_bit (8 * (n mod 4)) (ucast (cs ! n))
     else load_le (segment (4 * g) 4 (take n cs)))"
proof -
  have t: "take (Suc n) cs = take n cs @ [cs ! n]" using assms by (simp add: take_Suc_conv_app_nth)
  consider "n < 4 * g" | "g = n div 4" | "4 * g + 4 \<le> n" by linarith
  then show ?thesis
  proof cases
    case 1
    then have "g \<noteq> n div 4" by auto
    with 1 show ?thesis using assms by (simp add: segment_def)
  next
    case 2
    then have n: "n - 4 * g = n mod 4" "4 * g \<le> n" by (simp_all add: modulo_nat_def)
    let ?xs = "drop (4 * g) (take n cs)"
    have len: "length ?xs = n mod 4" using assms n by simp
    have seg: "segment (4 * g) 4 (take (Suc n) cs) = ?xs @ [cs ! n]" "segment (4 * g) 4 (take n cs) = ?xs"
      using assms n len by (simp_all add: segment_def t)
    have "(load_le (?xs @ [cs ! n]) :: u32) = load_le ?xs XOR push_bit (8 * (n mod 4)) (ucast (cs ! n))"
    proof (rule bit_word_eqI)
      fix k assume "k < LENGTH(32)"
      then have k: "k < 32" by simp
      show "bit (load_le (?xs @ [cs ! n]) :: u32) k = bit (load_le ?xs XOR push_bit (8 * (n mod 4)) (ucast (cs ! n)) :: u32) k"
      proof (cases "k div 8 < n mod 4")
        case True
        then have "k < 8 * (n mod 4)" by linarith
        then show ?thesis using k True len by (simp add: bit_load_le bit_xor_iff bit_push_bit_iff nth_append)
      next
        case False
        then have "8 * (n mod 4) \<le> k" by linarith
        moreover have "bit (cs ! n) (k - 8 * (n mod 4)) \<longleftrightarrow> k div 8 = n mod 4 \<and> bit (cs ! n) (k mod 8)"
        proof (cases "k div 8 = n mod 4")
          case True
          then show ?thesis by (simp add: minus_mult_div_eq_mod flip: True)
        next
          case f: False
          then have "8 \<le> k - 8 * (n mod 4)" using False by linarith
          then show ?thesis using f bit_imp_le_length [of "cs ! n" "k - 8 * (n mod 4)"] by auto
        qed
        ultimately show ?thesis
          using k False len by (auto simp: bit_load_le bit_xor_iff bit_push_bit_iff nth_append bit_ucast_iff)
      qed
    qed
    then show ?thesis unfolding seg using 2 by simp
  next
    case 3
    then have "g \<noteq> n div 4" by auto
    with 3 show ?thesis using assms by (simp add: segment_def t)
  qed
qed

definition partial_pack :: "byte list \<Rightarrow> nat \<Rightarrow> u32 list" where
  "partial_pack cs n = map (\<lambda>g. load_le (segment (4 * g) 4 (take n cs))) [0..<11]"

lemma partial_pack_step:
  assumes "length cs = 42" "n < 42"
  shows "partial_pack cs (Suc n) =
    (partial_pack cs n)[n div 4 := partial_pack cs n ! (n div 4) XOR push_bit (8 * (n mod 4)) (ucast (cs ! n))]"
proof (rule nth_equalityI)
  fix g assume "g < length (partial_pack cs (Suc n))"
  then have "g < 11" by (simp add: partial_pack_def)
  then show "partial_pack cs (Suc n) ! g =
      (partial_pack cs n)[n div 4 := partial_pack cs n ! (n div 4) XOR push_bit (8 * (n mod 4)) (ucast (cs ! n))] ! g"
    using pack_append [OF assms, of g] by (simp add: partial_pack_def nth_update_if)
qed (simp add: partial_pack_def)

lemma pool_positions_pl: "pool_positions 0 (map pl mh) = map pl (pack (snd (xmss_extract_coords mh)))"
proof -
  let ?cs = "snd (xmss_extract_coords mh)"
  have cs: "length ?cs = 42" using extract_coords_ok [of mh] by (simp add: coords_ok_def)
  let ?body = "\<lambda>ci b ps.
             let shift = 8 * (ci mod 4) + b;
                 pos = xmss_coord_bit_pos ci + b
             in ps[ci div 4 := mpc_XOR (ps ! (ci div 4)) (mw_word 0 (\<lambda>h. push_bit shift (mh_bit h pos)) (map pl mh))]"
  have inner: "fold (?body ci) [0..<3] (map pl Q) = map pl (Q[ci div 4 := Q ! (ci div 4) XOR push_bit (8 * (ci mod 4)) (ucast (?cs ! ci))])"
    if "ci < 42" "length Q = 11" for ci Q
  proof -
    have g: "ci div 4 < length Q" using that by simp
    have up: "[0..<3 :: nat] = [0, 1, 2]" by (simp add: upt_rec)
    have "fold (?body ci) [0..<3] (map pl Q) = map pl (Q[ci div 4 := Q ! (ci div 4)
        XOR push_bit (8 * (ci mod 4)) (mh_bit mh (xmss_coord_bit_pos ci))
        XOR push_bit (8 * (ci mod 4) + 1) (mh_bit mh (xmss_coord_bit_pos ci + 1))
        XOR push_bit (8 * (ci mod 4) + 2) (mh_bit mh (xmss_coord_bit_pos ci + 2))])"
      using g unfolding up Let_def by (simp del: push_bit_Suc One_nat_def add: map_update [symmetric] xor.assoc)
    also have "8 * (ci mod 4) \<le> 24" by presburger
    then have "push_bit (8 * (ci mod 4)) (mh_bit mh (xmss_coord_bit_pos ci))
        XOR push_bit (8 * (ci mod 4) + 1) (mh_bit mh (xmss_coord_bit_pos ci + 1))
        XOR push_bit (8 * (ci mod 4) + 2) (mh_bit mh (xmss_coord_bit_pos ci + 2)) = push_bit (8 * (ci mod 4)) (ucast (?cs ! ci))"
      by (rule three_bits_coord [OF that(1)])
    finally show ?thesis by (simp only: xor.assoc)
  qed
  have "n \<le> 42 \<Longrightarrow> fold (\<lambda>ci. fold (?body ci) [0..<3]) [0..<n] (map pl (replicate 11 0)) = map pl (partial_pack ?cs n)" for n
  proof (induction n)
    case 0
    have "replicate 11 0 = map (\<lambda>g. 0 :: u32) [0..<11]" by (simp add: map_replicate_const)
    then show ?case by (simp add: partial_pack_def segment_def)
  next
    case (Suc n)
    then show ?case
      using inner [of n "partial_pack ?cs n"] partial_pack_step [OF cs, of n]
      by (simp add: partial_pack_def [of _ n] del: upt.simps(2)) (simp add: partial_pack_def)
  qed
  from this [of 42] have "fold (\<lambda>ci. fold (?body ci) [0..<3]) [0..<42] (map pl (replicate 11 0)) = map pl (partial_pack ?cs 42)" by simp
  moreover have "partial_pack ?cs 42 = pack ?cs" using cs by (simp add: partial_pack_def pack_def pack_word_def [abs_def])
  ultimately show ?thesis
    unfolding pool_positions_def pl_consts XMSS_COORD_RES_BITS_def XMSS_WOTS_LEN_def pool_groups_def by simp
qed

text \<open>The constant of the final check is the packing of a 7 for every chain.\<close>

definition final_word :: "nat \<Rightarrow> u32" where
  "final_word g = fold (\<lambda>lane acc. acc XOR push_bit (8 * lane) (of_nat XMSS_WOTS_MAX_STEPS)) (pool_lanes g) 0"

lemma final_word_pack: "g < 11 \<Longrightarrow> final_word g = pack (replicate 42 7) ! g"
proof -
  have "list_all (\<lambda>g. final_word g = pack_word (replicate 42 7) g) [0..<11]" by code_simp
  then have "\<forall>g\<in>set [0..<11]. final_word g = pack_word (replicate 42 7) g" unfolding list_all_iff .
  then show "g < 11 \<Longrightarrow> final_word g = pack (replicate 42 7) ! g" by (simp add: pack_def del: upt.simps)
qed

lemma pack_inject:
  assumes "length cs = 42" "length cs' = 42"
  shows "(\<forall>g<11. pack cs ! g = pack cs' ! g) \<longleftrightarrow> cs = cs'"
proof
  assume eq: "\<forall>g<11. pack cs ! g = pack cs' ! g"
  show "cs = cs'"
  proof (rule nth_equalityI)
    fix i assume i: "i < length cs"
    then have "i div 4 < 11" using assms by simp
    then show "cs ! i = cs' ! i" using pack_lane [OF assms(1), of i] pack_lane [OF assms(2), of i] eq i assms by simp
  qed (use assms in simp)
qed simp

lemma xor_zero_iff: "x XOR y = 0 \<longleftrightarrow> x = y" for x y :: u32
  by (metis xor.right_neutral xor.assoc xor_self_eq xor.left_neutral)

lemma or_zero_iff: "x OR y = 0 \<longleftrightarrow> x = 0 \<and> y = 0" for x y :: u32
proof
  assume "x OR y = 0"
  then have "bit (x OR y) n = bit (0 :: u32) n" for n by simp
  then show "x = 0 \<and> y = 0" by (auto intro!: bit_word_eqI simp: bit_or_iff)
qed simp

lemma fold_or_zero_iff: "fold (\<lambda>g c. c OR f g) gs c = 0 \<longleftrightarrow> c = 0 \<and> (\<forall>g\<in>set gs. f g = 0)" for f :: "'b \<Rightarrow> u32"
  by (induction gs arbitrary: c) (auto simp: or_zero_iff)

lemma computes_final:
  assumes "length cs = 42"
  shows "\<exists>c'. computes (pool_final plain_gates (map pl (pack cs)) (pl c)) (pl c') \<and> (c' = 0 \<longleftrightarrow> c = 0 \<and> (\<forall>ci<42. cs ! ci = 7))"
proof -
  define c' where "c' = fold (\<lambda>g c. c OR (pack cs ! g XOR final_word g)) [0..<11] c"
  have "computes (pool_final plain_gates (map pl (pack cs)) (pl c)) (pl c')"
    unfolding pool_final_def Let_def final_word_def [symmetric] pool_groups_def XMSS_WOTS_LEN_def c'_def
  proof (rule computes_eq, rule computes_for_each [where g = pl and f = "\<lambda>g c. c OR (pack cs ! g XOR final_word g)"])
    fix g x assume "g \<in> set [0..<(42 + 3) div 4 :: nat]"
    then have "g < length (pack cs)" by (simp add: pack_def)
    then show "computes (pool_or_into plain_gates (pl x) (mw_xor_pub (final_word g) (map pl (pack cs) ! g))) (pl (x OR (pack cs ! g XOR final_word g)))"
      using computes_or_into [of x "pack cs ! g XOR final_word g"] by simp
  qed simp
  moreover have "c' = 0 \<longleftrightarrow> c = 0 \<and> (\<forall>ci<42. cs ! ci = 7)"
  proof -
    have "c' = 0 \<longleftrightarrow> c = 0 \<and> (\<forall>g<11. pack cs ! g = pack (replicate 42 7) ! g)"
      unfolding c'_def fold_or_zero_iff using final_word_pack by (auto simp: xor_zero_iff simp del: upt.simps)
    also have "\<dots> \<longleftrightarrow> c = 0 \<and> cs = replicate 42 7" by (simp add: pack_inject assms)
    also have "\<dots> \<longleftrightarrow> c = 0 \<and> (\<forall>ci<42. cs ! ci = 7)" using assms by (auto simp: list_eq_iff_nth_eq)
    finally show ?thesis .
  qed
  ultimately show ?thesis by blast
qed

text \<open>A schedule that completes the chains of some coordinates.\<close>

definition completes :: "byte list \<Rightarrow> bytes \<Rightarrow> bool" where
  "completes cs d \<longleftrightarrow> (\<forall>j<W_SCHEDULE_LEN. unat (sched d j) < XMSS_WOTS_LEN)
     \<and> (\<forall>ci<XMSS_WOTS_LEN. unat (cs ! ci) + named d W_SCHEDULE_LEN ci = XMSS_WOTS_MAX_STEPS)"

lemma chain_multi:
  assumes "unat c \<le> 7" "unat c + n = 7"
  shows "chain P pk e ci c n x =
    (let remaining = of_nat XMSS_WOTS_MAX_STEPS - c
     in if remaining = 0 then x else xmss_hash_chain_multi P pk e x (of_nat ci) c remaining)"
proof -
  have "7 - c = of_nat n"
  proof -
    have "of_nat (unat c + n) = (7 :: byte)" using assms(2) by simp
    then have "c + of_nat n = 7" by simp
    then show ?thesis by (simp add: algebra_simps)
  qed
  then have r: "of_nat XMSS_WOTS_MAX_STEPS - c = of_nat n" by (simp add: XMSS_WOTS_MAX_STEPS_def)
  have n: "unat (of_nat n :: byte) = n" using assms by (simp add: unsigned_of_nat take_bit_nat_eq_self)
  have zero: "(of_nat n :: byte) = 0 \<longleftrightarrow> n = 0" unfolding word_unat_eq_iff [of "of_nat n"] n by simp
  show ?thesis
  proof (cases "n = 0")
    case False
    then show ?thesis unfolding r Let_def chain_def xmss_hash_chain_multi_def n using zero by (simp only: if_False)
  qed (simp add: r chain_def)
qed

lemma computes_pool_chains:
  assumes B: "b3_chunk_ok (b3 P)" "b3_length (b3 P)" and d: "length d = W_END" and pk: "length pk = 16"
    and cs_def: "cs = snd (xmss_extract_coords mh)"
  shows "\<exists>ns c. computes (pool_chains plain_gates (map pl d) pk (map pl mh)) (map pl (concat ns), pl c)
    \<and> length ns = 42 \<and> (\<forall>n\<in>set ns. length n = 16)
    \<and> (c = 0 \<longleftrightarrow> completes cs d) \<and> (c = 0 \<longrightarrow> ns = xmss_wots_pk_from_sig P pk (w_epoch d) (w_hashes d) cs)"
proof -
  have cs: "coords_ok cs" unfolding cs_def by (rule extract_coords_ok)
  note ns0 = w_hashes_ok [OF d]
  obtain x where loop: "computes (for_each (pool_step plain_gates (map pl d) pk) [0..<99] (chain_rep (w_hashes d, cs, 0))) (chain_rep x)"
    and inv: "loop_inv P pk d (w_hashes d) cs 99 x"
    using computes_chains_loop [OF B d pk cs] ns0 by blast
  obtain ns cs' c0 where x: "x = (ns, cs', c0)" by (cases x)
  have ok: "state_ok x" by (rule loop_inv_ok [OF inv cs _ _ _ B(2) pk]) (use ns0 in auto)
  then have ns: "length ns = 42" "\<forall>n\<in>set ns. length n = 16" "length cs' = 42" by (auto simp: state_ok_def x)
  obtain c where final: "computes (pool_final plain_gates (map pl (pack cs')) (pl c0)) (pl c)"
    and c: "c = 0 \<longleftrightarrow> c0 = 0 \<and> (\<forall>ci<42. cs' ! ci = 7)"
    using computes_final [OF ns(3)] by blast
  have seven: "cs' ! ci = 7 \<longleftrightarrow> unat (cs ! ci) + named d 99 ci = 7" if "ci < 42" for ci
  proof -
    have "cs' ! ci = cs ! ci + of_nat (named d 99 ci)" using inv that by (simp add: loop_inv_def x)
    then have "unat (cs' ! ci) = unat (cs ! ci) + named d 99 ci"
      using unat_advanced [of "cs ! ci" "named d 99 ci"] named_le [of d 99 ci] cs that by (simp add: coords_ok_def)
    then show ?thesis by (auto simp: word_unat_eq_iff)
  qed
  have check: "c = 0 \<longleftrightarrow> completes cs d"
    using inv c seven by (auto simp: completes_def loop_inv_def x W_END_value XMSS_WOTS_LEN_def XMSS_WOTS_MAX_STEPS_def)
  moreover have "ns = xmss_wots_pk_from_sig P pk (w_epoch d) (w_hashes d) cs" if "completes cs d"
  proof (rule nth_equalityI)
    fix ci assume "ci < length ns"
    then have ci: "ci < 42" using ns by simp
    then have "unat (cs ! ci) + named d 99 ci = 7" using that by (simp add: completes_def W_END_value XMSS_WOTS_LEN_def XMSS_WOTS_MAX_STEPS_def)
    moreover have "ns ! ci = chain P pk (w_epoch d) ci (cs ! ci) (named d 99 ci) (w_hashes d ! ci)"
      using inv ci by (simp add: loop_inv_def x)
    moreover have "unat (cs ! ci) \<le> 7" using cs ci by (simp add: coords_ok_def)
    ultimately show "ns ! ci = xmss_wots_pk_from_sig P pk (w_epoch d) (w_hashes d) cs ! ci"
      using ci by (simp add: chain_multi xmss_wots_pk_from_sig_def XMSS_WOTS_LEN_def)
  qed (use ns in \<open>simp add: xmss_wots_pk_from_sig_def XMSS_WOTS_LEN_def\<close>)
  moreover have "computes (pool_chains plain_gates (map pl d) pk (map pl mh)) (map pl (concat ns), pl c)"
  proof -
    have out: "map (mw_buf 0 node_of_words) (map (map pl) (nodes_words ns)) = map (map pl) ns"
      using ns by (simp add: nodes_words_def node_words_of_words)
    show ?thesis
      unfolding pool_chains_def Let_def plain_np pool_nodes_pl [OF d] pool_positions_pl cs_def [symmetric] pl_simps W_END_value(1)
      by (rule computes_bind [OF loop [unfolded chain_rep.simps x]], unfold prod.case, rule computes_bind [OF final],
          rule computes_return, unfold out map_concat, rule refl)
  qed
  ultimately show ?thesis using ns by blast
qed

end
