(* ===== verification/Protocol.thy ===== *)
theory Protocol
  imports Kkw
begin

text \<open>
  \<^verbatim>\<open>protocol.c\<close> and \<^verbatim>\<open>protocol.h\<close>, with \<open>kkw_build_schedule\<close> of \<^verbatim>\<open>circuits.c\<close>, which only the
  protocol calls: the blind signature from the commitment, the XMSS signature on its
  digest and the proof, and the encodings of the keys and of the user's state. A result
  code 0 with the outputs it leaves is \<open>None\<close>; a message with its length is a list, which
  is empty exactly when the code's pointer may be \<open>NULL\<close>.
\<close>

subsection \<open>The schedule\<close>

text \<open>The inner loop, with the number of steps still to go, and the loop over the chains:
  the next slot and the witness, or \<open>None\<close> for the return on a full schedule.\<close>

fun schedule_chain :: "nat \<Rightarrow> nat \<Rightarrow> nat \<Rightarrow> bytes \<Rightarrow> (nat \<times> bytes) option" where
  "schedule_chain ci 0 slot input = Some (slot, input)"
| "schedule_chain ci (Suc k) slot input =
     (if slot = W_SCHEDULE_LEN then None
      else schedule_chain ci k (slot + 1) (input[W_SCHEDULE_OFF + slot := of_nat ci]))"

fun schedule_chains :: "byte list \<Rightarrow> nat list \<Rightarrow> nat \<Rightarrow> bytes \<Rightarrow> (nat \<times> bytes) option" where
  "schedule_chains coords [] slot input = Some (slot, input)"
| "schedule_chains coords (ci # cis) slot input =
     (case schedule_chain ci (XMSS_WOTS_MAX_STEPS - unat (coords ! ci)) slot input of
        None \<Rightarrow> None
      | Some (slot, input) \<Rightarrow> schedule_chains coords cis slot input)"

definition kkw_build_schedule :: "platform \<Rightarrow> bytes \<Rightarrow> bytes \<Rightarrow> bytes \<Rightarrow> bytes option" where
  "kkw_build_schedule P input m_hat pk_seed =
     (let (com, d) = hm_commit (b3 P) m_hat (segment W_R_OFF HM_R_BYTES input) (segment W_A_OFF HM_A_BYTES input);
          epoch = fold (\<lambda>b e. push_bit 8 e OR ucast (input ! (W_LEAFIDX_OFF + b))) [0..<XMSS_EPOCH_BYTES] (0 :: u32);
          mh = xmss_hash_message P pk_seed epoch (segment W_NONCE_OFF XMSS_NONCE_LEN input) d;
          (ok, coords) = xmss_extract_coords mh
      in if \<not> ok then None
         else case schedule_chains coords [0..<XMSS_WOTS_LEN] 0 input of
                None \<Rightarrow> None
              | Some (slot, input) \<Rightarrow> if slot = W_SCHEDULE_LEN then Some input else None)"

subsection \<open>Keys and states\<close>

definition BLIND_SK_SEED_BYTES :: nat where "BLIND_SK_SEED_BYTES = 32"
definition BLIND_SIGNER_KEY_BYTES :: nat where
  "BLIND_SIGNER_KEY_BYTES = BLIND_SK_SEED_BYTES + XMSS_PK_SEED_BYTES + 1 + 8"
definition BLIND_SIGNER_PUB_BYTES :: nat where
  "BLIND_SIGNER_PUB_BYTES = XMSS_NODE_BYTES + XMSS_PK_SEED_BYTES"

lemmas blind_sizes = BLIND_SK_SEED_BYTES_def BLIND_SIGNER_KEY_BYTES_def BLIND_SIGNER_PUB_BYTES_def

record blind_signer_key =
  bk_sk_seed :: bytes
  bk_pk_seed :: bytes
  bk_height :: int
  bk_next_leaf :: u64
  bk_tree :: "xmss_keypair option"

record blind_user_state =
  us_msg :: bytes
  us_com :: bytes
  us_r :: bytes

definition YP_SUM_WORD :: nat where "YP_SUM_WORD = YP_ROOT_WORDS"

definition build_pubout :: "node \<Rightarrow> u32 list" where
  "build_pubout root =
     (let pubout = fold (\<lambda>w p. p[w := xmss_node_load_word root w]) [0..<YP_ROOT_WORDS] (replicate 8 0)
      in pubout[YP_SUM_WORD := of_nat XMSS_TARGET_SUM])"

definition blind_msg_digest :: "b3 \<Rightarrow> bytes \<Rightarrow> bytes" where
  "blind_msg_digest B msg = KKW_TH B KKW_DOM_MHAT msg"

text \<open>The file's own \<open>put_epoch_be\<close>.\<close>

definition put_leaf_be :: "u32 \<Rightarrow> bytes" where
  "put_leaf_be v = map (\<lambda>k. ucast (drop_bit (8 * (XMSS_EPOCH_BYTES - 1 - k)) v)) [0..<XMSS_EPOCH_BYTES]"

subsection \<open>The five operations\<close>

definition blind_keygen :: "platform \<Rightarrow> int \<Rightarrow> rng \<Rightarrow> (blind_signer_key \<times> node) option \<times> rng" where
  "blind_keygen P height c =
     (if height < 1 \<or> height > int XMSS_H then (None, c)
      else case random_bytes P BLIND_SK_SEED_BYTES c of
        (None, c) \<Rightarrow> (None, c)
      | (Some sk_seed, c) \<Rightarrow>
      (case random_bytes P XMSS_PK_SEED_BYTES c of
        (None, c) \<Rightarrow> (None, c)
      | (Some pk_seed, c) \<Rightarrow>
      (case xmss_keypair_new P sk_seed pk_seed height of
        None \<Rightarrow> (None, c)
      | Some tree \<Rightarrow>
          (Some (\<lparr>bk_sk_seed = sk_seed, bk_pk_seed = pk_seed, bk_height = height, bk_next_leaf = 0, bk_tree = Some tree\<rparr>,
                 kp_root tree), c))))"

text \<open>After wiping: the seeds and the counter are zero and there is no tree.\<close>

definition blind_signer_key_free :: "blind_signer_key \<Rightarrow> blind_signer_key" where
  "blind_signer_key_free key =
     key\<lparr>bk_tree := None, bk_sk_seed := replicate (length (bk_sk_seed key)) 0,
         bk_pk_seed := replicate (length (bk_pk_seed key)) 0, bk_next_leaf := 0\<rparr>"

definition blind_user_commit :: "platform \<Rightarrow> bytes \<Rightarrow> rng \<Rightarrow> blind_user_state option \<times> rng" where
  "blind_user_commit P msg c =
     (case random_bytes P HM_R_BYTES c of
        (None, c) \<Rightarrow> (None, c)
      | (Some r, c) \<Rightarrow>
      (case random_bytes P HM_A_BYTES c of
        (None, c) \<Rightarrow> (None, c)
      | (Some a, c) \<Rightarrow>
          let m_hat = blind_msg_digest (b3 P) msg;
              (com, d) = hm_commit (b3 P) m_hat r a
          in if length msg > 0 \<and> \<not> malloc_ok P (length msg) then (None, c)
             else (Some \<lparr>us_msg = msg, us_com = com, us_r = r\<rparr>, c)))"

text \<open>The key afterwards, whatever the outcome; the outer \<open>None\<close> is a nonce loop without end.\<close>

definition blind_signer_sign ::
  "platform \<Rightarrow> blind_signer_key \<Rightarrow> bytes \<Rightarrow> rng \<Rightarrow> (blind_signer_key \<times> xmss_sig option \<times> rng) option" where
  "blind_signer_sign P key com c =
     (if bk_next_leaf key \<ge> push_bit (nat (bk_height key)) 1 then Some (key, None, c)
      else
        let d = hm_digest (b3 P) com
        in case (case bk_tree key of
                   None \<Rightarrow> xmss_keypair_new P (bk_sk_seed key) (bk_pk_seed key) (bk_height key)
                 | Some t \<Rightarrow> Some t) of
             None \<Rightarrow> Some (key, None, c)
           | Some tree \<Rightarrow>
               (case xmss_keypair_sign P tree (ucast (bk_next_leaf key)) d c of
                  None \<Rightarrow> None
                | Some (tree, None, c) \<Rightarrow> Some (key\<lparr>bk_tree := Some tree\<rparr>, None, c)
                | Some (tree, Some sig, c) \<Rightarrow>
                    Some (key\<lparr>bk_tree := Some tree, bk_next_leaf := bk_next_leaf key + 1\<rparr>, Some sig, c)))"

text \<open>
  The witness the user fills: \<open>junk\<close> is what the stack array holds where the schedule goes.
\<close>

definition user_input :: "blind_user_state \<Rightarrow> xmss_sig \<Rightarrow> bytes \<Rightarrow> bytes" where
  "user_input st sig junk =
     us_r st @ take HM_A_BYTES (us_com st) @ put_leaf_be (xs_leaf_index sig) @ xs_nonce sig
     @ concat (xs_sig_hashes sig) @ concat (xs_auth_path sig) @ junk"

definition blind_user_prove ::
  "platform \<Rightarrow> kkw_params \<Rightarrow> nat \<Rightarrow> scratch \<Rightarrow> scratch \<Rightarrow> bytes \<Rightarrow> blind_user_state \<Rightarrow> bytes \<Rightarrow> node \<Rightarrow> xmss_sig \<Rightarrow> rng \<Rightarrow>
   (bytes option \<times> rng) option" where
  "blind_user_prove P prm threads mem1 mem2 junk st pk_seed root sig c =
     (let m_hat = blind_msg_digest (b3 P) (us_msg st)
      in case kkw_build_schedule P (user_input st sig junk) m_hat pk_seed of
           None \<Rightarrow> Some (None, c)
         | Some input \<Rightarrow> kkw_prove P prm threads mem1 mem2 input m_hat pk_seed (build_pubout root) c)"

definition blind_verify_sig ::
  "platform \<Rightarrow> kkw_params \<Rightarrow> nat \<Rightarrow> scratch \<Rightarrow> bytes \<Rightarrow> bytes \<Rightarrow> bytes \<Rightarrow> node \<Rightarrow> bool option" where
  "blind_verify_sig P prm threads mem file msg pk_seed root =
     kkw_verify P prm threads mem file (blind_msg_digest (b3 P) msg) pk_seed (build_pubout root)"

subsection \<open>Encodings\<close>

definition blind_write_signer_key :: "blind_signer_key \<Rightarrow> bytes" where
  "blind_write_signer_key key =
     bk_sk_seed key @ bk_pk_seed key @ [of_int (bk_height key)]
     @ map (\<lambda>k. ucast (drop_bit (8 * k) (bk_next_leaf key) AND 0xff)) [0..<8]"

definition blind_read_signer_key :: "bytes \<Rightarrow> blind_signer_key option" where
  "blind_read_signer_key buf =
     (if length buf \<noteq> BLIND_SIGNER_KEY_BYTES then None
      else let o1 = BLIND_SK_SEED_BYTES + XMSS_PK_SEED_BYTES;
               height = uint (buf ! o1)
           in if height < 1 \<or> height > int XMSS_H then None
              else Some \<lparr>bk_sk_seed = segment 0 BLIND_SK_SEED_BYTES buf,
                         bk_pk_seed = segment BLIND_SK_SEED_BYTES XMSS_PK_SEED_BYTES buf, bk_height = height,
                         bk_next_leaf = fold (\<lambda>k v. v OR push_bit (8 * k) (ucast (buf ! (o1 + 1 + k)))) [0..<8] 0,
                         bk_tree = None\<rparr>)"

definition blind_write_signer_pub :: "node \<Rightarrow> bytes \<Rightarrow> bytes" where
  "blind_write_signer_pub root pk_seed = root @ pk_seed"

definition blind_read_signer_pub :: "bytes \<Rightarrow> (node \<times> bytes) option" where
  "blind_read_signer_pub buf =
     (if length buf \<noteq> BLIND_SIGNER_PUB_BYTES then None
      else Some (segment 0 XMSS_NODE_BYTES buf, segment XMSS_NODE_BYTES XMSS_PK_SEED_BYTES buf))"

definition put_u32le :: "u32 \<Rightarrow> bytes" where
  "put_u32le v = [ucast v, ucast (drop_bit 8 v), ucast (drop_bit 16 v), ucast (drop_bit 24 v)]"

definition get_u32le :: "bytes \<Rightarrow> u32" where
  "get_u32le p = ucast (p ! 0) OR push_bit 8 (ucast (p ! 1)) OR push_bit 16 (ucast (p ! 2)) OR push_bit 24 (ucast (p ! 3))"

definition blind_user_state_bytes :: "blind_user_state \<Rightarrow> nat" where
  "blind_user_state_bytes st = 4 + length (us_msg st) + HM_COM_BYTES + HM_R_BYTES"

definition blind_write_user_state :: "blind_user_state \<Rightarrow> bytes" where
  "blind_write_user_state st = put_u32le (of_nat (length (us_msg st))) @ us_msg st @ us_com st @ us_r st"

definition blind_read_user_state :: "platform \<Rightarrow> bytes \<Rightarrow> blind_user_state option" where
  "blind_read_user_state P buf =
     (if length buf < 4 + HM_COM_BYTES + HM_R_BYTES then None
      else let msg_len = unat (get_u32le buf)
           in if length buf \<noteq> 4 + msg_len + HM_COM_BYTES + HM_R_BYTES then None
              else if msg_len > 0 \<and> \<not> malloc_ok P msg_len then None
              else Some \<lparr>us_msg = segment 4 msg_len buf, us_com = segment (4 + msg_len) HM_COM_BYTES buf,
                         us_r = segment (4 + msg_len + HM_COM_BYTES) HM_R_BYTES buf\<rparr>)"

text \<open>After freeing: no message.\<close>

definition blind_user_state_free :: "blind_user_state \<Rightarrow> blind_user_state" where
  "blind_user_state_free st = st\<lparr>us_msg := []\<rparr>"

end
