(* ===== verification/Protocol_Correct.thy ===== *)
theory Protocol_Correct
  imports Protocol Xmss_Properties
begin

text \<open>
  Facts about the protocol that need no reasoning on the circuit: the three encodings are
  codecs, and the signer issues each leaf at most once, every signature verifying under
  the root of its seeds.
\<close>

subsection \<open>Words\<close>

lemma put_u32le_eq: "put_u32le v = bytes_le 4 v"
  by (simp add: put_u32le_def numeral_eq_Suc drop_bit_drop_bit)

lemma get_u32le_eq: "get_u32le p = load_le [p ! 0, p ! 1, p ! 2, p ! 3]"
  by (simp add: get_u32le_def push_bit_or push_bit_push_bit or.assoc)

lemma put_leaf_be_eq: "put_leaf_be v = bytes_be 4 v"
  unfolding put_leaf_be_def bytes_be_def XMSS_EPOCH_BYTES_def
  by (rule nth_equalityI) (simp_all add: rev_nth nth_bytes_le)

lemma next_leaf_bytes: "map (\<lambda>k. ucast (drop_bit (8 * k) v AND 0xff)) [0..<8] = bytes_le 8 (v :: u64)"
proof (rule nth_equalityI)
  fix k assume "k < length (map (\<lambda>k. ucast (drop_bit (8 * k) v AND 0xff) :: byte) [0..<8])"
  then have k: "k < 8" by simp
  have ff: "(0xff :: u64) = mask 8" by (simp add: mask_eq_exp_minus_1)
  have "(ucast (drop_bit (8 * k) v AND 0xff) :: byte) = ucast (drop_bit (8 * k) v)"
    unfolding ff by (rule bit_word_eqI) (auto simp: bit_simps)
  then show "map (\<lambda>k. ucast (drop_bit (8 * k) v AND 0xff) :: byte) [0..<8] ! k = bytes_le 8 v ! k"
    using k by (simp add: nth_bytes_le)
qed simp

lemma fold_or_load_le:
  fixes f :: "nat \<Rightarrow> byte"
  shows "fold (\<lambda>k v. v OR push_bit (8 * k) (ucast (f k))) [0..<n] 0 = (load_le (map f [0..<n]) :: 'a::len word)"
proof (rule bit_word_eqI)
  fix i assume i: "i < LENGTH('a)"
  have fold: "bit (fold (\<lambda>k v. v OR push_bit (8 * k) (ucast (f k))) [0..<m] (0 :: 'a word)) i \<longleftrightarrow>
      (\<exists>k<m. 8 * k \<le> i \<and> bit (f k) (i - 8 * k))" for m
    using i by (induction m) (auto simp: bit_simps less_Suc_eq)
  have "(\<exists>k<n. 8 * k \<le> i \<and> bit (f k) (i - 8 * k)) \<longleftrightarrow> i div 8 < n \<and> bit (f (i div 8)) (i mod 8)"
  proof
    assume "\<exists>k<n. 8 * k \<le> i \<and> bit (f k) (i - 8 * k)"
    then obtain k where k: "k < n" "8 * k \<le> i" "bit (f k) (i - 8 * k)" by blast
    then have "i - 8 * k < 8" using bit_imp_le_length [of "f k" "i - 8 * k"] by simp
    then have "i div 8 = k" "i mod 8 = i - 8 * k" using k(2) by (auto simp: div_nat_eqI modulo_nat_def)
    with k show "i div 8 < n \<and> bit (f (i div 8)) (i mod 8)" by simp
  next
    assume "i div 8 < n \<and> bit (f (i div 8)) (i mod 8)"
    then show "\<exists>k<n. 8 * k \<le> i \<and> bit (f k) (i - 8 * k)"
      by (intro exI [of _ "i div 8"]) (simp add: minus_mult_div_eq_mod)
  qed
  then show "bit (fold (\<lambda>k v. v OR push_bit (8 * k) (ucast (f k))) [0..<n] (0 :: 'a word)) i =
      bit (load_le (map f [0..<n]) :: 'a word) i"
    using i fold [of n] by (auto simp: bit_load_le)
qed

subsection \<open>Encodings\<close>

definition pub_wf :: "node \<times> bytes \<Rightarrow> bool" where
  "pub_wf p \<longleftrightarrow> length (fst p) = XMSS_NODE_BYTES \<and> length (snd p) = XMSS_PK_SEED_BYTES"

interpretation pub: codec "\<lambda>(root, pk_seed). blind_write_signer_pub root pk_seed" blind_read_signer_pub pub_wf
  by unfold_locales (auto simp: blind_write_signer_pub_def blind_read_signer_pub_def pub_wf_def blind_sizes xmss_sizes
      segment_def split: if_splits)

definition key_wf :: "blind_signer_key \<Rightarrow> bool" where
  "key_wf key \<longleftrightarrow> length (bk_sk_seed key) = BLIND_SK_SEED_BYTES \<and> length (bk_pk_seed key) = XMSS_PK_SEED_BYTES
     \<and> 1 \<le> bk_height key \<and> bk_height key \<le> int XMSS_H"

lemma read_write_key:
  assumes "key_wf key"
  shows "blind_read_signer_key (blind_write_signer_key key) = Some (key\<lparr>bk_tree := None\<rparr>)"
proof -
  have len: "length (bk_sk_seed key) = 32" "length (bk_pk_seed key) = 16" "1 \<le> bk_height key" "bk_height key \<le> 32"
    using assms by (auto simp: key_wf_def blind_sizes xmss_sizes)
  have h: "uint (of_int (bk_height key) :: byte) = bk_height key"
    using len by (simp add: unsigned_of_int take_bit_int_eq_self)
  have nl: "fold (\<lambda>k v. v OR push_bit (8 * k) (ucast (blind_write_signer_key key ! (49 + k)))) [0..<8] 0 = bk_next_leaf key"
  proof -
    have "map (\<lambda>k. blind_write_signer_key key ! (49 + k)) [0..<8] = bytes_le 8 (bk_next_leaf key)"
      unfolding blind_write_signer_key_def next_leaf_bytes
      by (rule nth_equalityI) (simp_all add: nth_append len)
    then show ?thesis by (simp only: fold_or_load_le) (simp add: load_le_bytes_le)
  qed
  have "length (blind_write_signer_key key) = 57" "blind_write_signer_key key ! 48 = of_int (bk_height key)"
    "segment 0 32 (blind_write_signer_key key) = bk_sk_seed key" "segment 32 16 (blind_write_signer_key key) = bk_pk_seed key"
    by (simp_all add: blind_write_signer_key_def len nth_append segment_def)
  then show ?thesis
    using len h nl by (simp add: blind_read_signer_key_def blind_sizes xmss_sizes Let_def)
qed

lemma write_read_key:
  assumes "blind_read_signer_key buf = Some key"
  shows "blind_write_signer_key key = buf \<and> key_wf key \<and> bk_tree key = None"
proof -
  have len: "length buf = 57" using assms by (simp add: blind_read_signer_key_def blind_sizes xmss_sizes split: if_splits)
  have key: "key = \<lparr>bk_sk_seed = segment 0 32 buf, bk_pk_seed = segment 32 16 buf, bk_height = uint (buf ! 48),
      bk_next_leaf = load_le (map (\<lambda>k. buf ! (49 + k)) [0..<8]), bk_tree = None\<rparr>"
    and h: "1 \<le> uint (buf ! 48)" "uint (buf ! 48) \<le> 32"
    using assms unfolding blind_read_signer_key_def blind_sizes xmss_sizes Let_def fold_or_load_le
    by (auto split: if_splits)
  have nl: "bytes_le 8 (load_le (map (\<lambda>k. buf ! (49 + k)) [0..<8]) :: u64) = drop 49 buf"
    using bytes_le_load_le [of "map (\<lambda>k. buf ! (49 + k)) [0..<8]", where 'a = 64] len
    by (auto intro!: nth_equalityI)
  have "buf = take 32 buf @ take 16 (drop 32 buf) @ [buf ! 48] @ drop 49 buf"
    using len Cons_nth_drop_Suc [of 48 buf] take_add [of 32 16 buf] append_take_drop_id [of 48 buf] by simp
  then have "blind_write_signer_key key = buf"
    using nl unfolding blind_write_signer_key_def next_leaf_bytes key by (simp add: segment_def)
  then show ?thesis using h len by (simp add: key key_wf_def blind_sizes xmss_sizes segment_def)
qed

interpretation sk: codec blind_write_signer_key blind_read_signer_key "\<lambda>key. key_wf key \<and> bk_tree key = None"
  by unfold_locales (use read_write_key write_read_key in auto)

definition user_state_wf :: "blind_user_state \<Rightarrow> bool" where
  "user_state_wf st \<longleftrightarrow> length (us_msg st) < 2 ^ 32 \<and> length (us_com st) = HM_COM_BYTES \<and> length (us_r st) = HM_R_BYTES"

lemma read_write_user_state:
  assumes "user_state_wf st" "\<And>n. malloc_ok P n"
  shows "blind_read_user_state P (blind_write_user_state st) = Some st"
proof -
  have len: "length (us_msg st) < 2 ^ 32" "length (us_com st) = 256 + 0" "length (us_r st) = 96"
    using assms(1) by (auto simp: user_state_wf_def hm_sizes)
  have "get_u32le (blind_write_user_state st) = of_nat (length (us_msg st))"
    unfolding get_u32le_eq blind_write_user_state_def put_u32le_eq
    using load_le_bytes_le [of 4 "of_nat (length (us_msg st)) :: u32"]
    by (simp add: numeral_eq_Suc)
  moreover have "unat (of_nat (length (us_msg st)) :: u32) = length (us_msg st)"
    using len by (simp add: unsigned_of_nat take_bit_nat_eq_self)
  ultimately show ?thesis
    using len assms(2) unfolding blind_read_user_state_def Let_def
    by (simp add: blind_write_user_state_def put_u32le_eq hm_sizes segment_def)
qed

lemma write_read_user_state:
  assumes "blind_read_user_state P buf = Some st"
  shows "blind_write_user_state st = buf \<and> user_state_wf st"
proof -
  let ?n = "unat (get_u32le buf)"
  have len: "length buf = 4 + ?n + 256 + 96"
    and st: "st = \<lparr>us_msg = segment 4 ?n buf, us_com = segment (4 + ?n) 256 buf, us_r = segment (4 + ?n + 256) 96 buf\<rparr>"
    using assms by (auto simp: blind_read_user_state_def hm_sizes Let_def split: if_splits)
  have msg: "length (us_msg st) = ?n" using len by (simp add: st segment_def)
  have n: "?n < 2 ^ LENGTH(32)" by (rule unsigned_less)
  have four: "[buf ! 0, buf ! 1, buf ! 2, buf ! 3] = take 4 buf"
    using len by (intro nth_equalityI) (auto simp: less_Suc_eq numeral_eq_Suc)
  have "bytes_le 4 (load_le (take 4 buf) :: u32) = take 4 buf"
    using bytes_le_load_le [of "take 4 buf", where 'a = 32] len by simp
  moreover have "(of_nat ?n :: u32) = load_le (take 4 buf)" by (simp only: get_u32le_eq four) simp
  ultimately have "put_u32le (of_nat ?n) = take 4 buf" by (simp only: put_u32le_eq)
  moreover have "take 4 buf @ segment 4 ?n buf @ segment (4 + ?n) 256 buf @ segment (4 + ?n + 256) 96 buf = buf"
    using len take_add [of 4 ?n buf] take_add [of "4 + ?n" 256 buf] take_add [of "4 + ?n + 256" 96 buf]
    by (simp add: segment_def)
  ultimately have "blind_write_user_state st = buf"
    unfolding blind_write_user_state_def msg by (simp add: st)
  then show ?thesis using n len by (simp add: user_state_wf_def st segment_def hm_sizes)
qed


text \<open>On a platform whose allocations succeed the state's encoding is a codec too.\<close>

interpretation us: codec blind_write_user_state "blind_read_user_state (P\<lparr>malloc_ok := \<lambda>n. True\<rparr>)" user_state_wf for P
  by unfold_locales (use read_write_user_state write_read_user_state in auto)

subsection \<open>The signer\<close>

text \<open>
  A signer's key as it is between calls: from the generator or read back from its file, the
  tree, when it is in memory, one that signing has left behind.
\<close>

definition signer_ok :: "platform \<Rightarrow> blind_signer_key \<Rightarrow> bool" where
  "signer_ok P key \<longleftrightarrow> key_wf key \<and> unat (bk_next_leaf key) \<le> 2 ^ nat (bk_height key) \<and>
     (\<forall>t. bk_tree key = Some t \<longrightarrow> kp_reachable P (bk_sk_seed key) (bk_pk_seed key) (bk_height key) t)"

definition signer_root :: "platform \<Rightarrow> blind_signer_key \<Rightarrow> node" where
  "signer_root P key = xroot P (bk_sk_seed key) (bk_pk_seed key) (nat (bk_height key))"

lemma keypair_new_reachable: "xmss_keypair_new P sk pk h = Some kp \<Longrightarrow> kp_reachable P sk pk h kp"
  unfolding xmss_keypair_new_def by (rule kp_reachable.new)

lemma reachable_root: "kp_reachable P sk pk h kp \<Longrightarrow> kp_root kp = xroot P sk pk (nat h)"
  using reachable_wf [of P sk pk h kp] by (auto simp: kp_wf_def)

lemma keygen_ok:
  assumes "platform_ok P" "blind_keygen P height c = (Some (key, root), c')"
  shows "signer_ok P key \<and> bk_next_leaf key = 0 \<and> bk_height key = height \<and> root = signer_root P key"
proof -
  obtain sk c1 pk tree where "random_bytes P 32 c = (Some sk, c1)" "random_bytes P 16 c1 = (Some pk, c')"
    and new: "xmss_keypair_new P sk pk height = Some tree" and h: "1 \<le> height" "height \<le> 32"
    and key: "key = \<lparr>bk_sk_seed = sk, bk_pk_seed = pk, bk_height = height, bk_next_leaf = 0, bk_tree = Some tree\<rparr>" "root = kp_root tree"
    using assms(2) by (auto simp: blind_keygen_def blind_sizes xmss_sizes split: if_splits option.splits prod.splits)
  then show ?thesis
    using length_random_bytes [OF assms(1)] keypair_new_reachable [OF new] reachable_root
    by (auto simp: signer_ok_def key_wf_def signer_root_def blind_sizes xmss_sizes)
qed

lemma signer_sign_ok:
  assumes ok: "signer_ok P key" and run: "blind_signer_sign P key com c = Some (key', r, c')"
  shows "signer_ok P key'" "signer_root P key' = signer_root P key" "bk_height key' = bk_height key"
    and "bk_sk_seed key' = bk_sk_seed key \<and> bk_pk_seed key' = bk_pk_seed key"
    and "r = None \<Longrightarrow> bk_next_leaf key' = bk_next_leaf key"
    and "r = Some sig \<Longrightarrow> unat (xs_leaf_index sig) = unat (bk_next_leaf key) \<and>
      unat (bk_next_leaf key') = Suc (unat (bk_next_leaf key)) \<and> unat (bk_next_leaf key) < 2 ^ nat (bk_height key) \<and>
      xmss_verify P (bk_pk_seed key) (signer_root P key) (hm_digest (b3 P) com) sig"
proof -
  let ?h = "nat (bk_height key)"
  have h: "?h \<le> 32" using ok by (auto simp: signer_ok_def key_wf_def xmss_sizes)
  have cap: "(2 :: u64) ^ ?h \<le> bk_next_leaf key \<longleftrightarrow> \<not> unat (bk_next_leaf key) < 2 ^ ?h"
    using unat_one_shift [OF h] by (simp add: word_le_nat_alt not_less)
  have all: "signer_ok P key' \<and> signer_root P key' = signer_root P key \<and> bk_height key' = bk_height key
     \<and> (bk_sk_seed key' = bk_sk_seed key \<and> bk_pk_seed key' = bk_pk_seed key)
     \<and> (r = None \<longrightarrow> bk_next_leaf key' = bk_next_leaf key)
     \<and> (\<forall>sig. r = Some sig \<longrightarrow> unat (xs_leaf_index sig) = unat (bk_next_leaf key) \<and>
      unat (bk_next_leaf key') = Suc (unat (bk_next_leaf key)) \<and> unat (bk_next_leaf key) < 2 ^ nat (bk_height key) \<and>
      xmss_verify P (bk_pk_seed key) (signer_root P key) (hm_digest (b3 P) com) sig)"
  proof (cases "unat (bk_next_leaf key) < 2 ^ ?h")
    case False
    then show ?thesis using run ok by (auto simp: blind_signer_sign_def cap)
  next
    case True
    let ?tree = "case bk_tree key of None \<Rightarrow> xmss_keypair_new P (bk_sk_seed key) (bk_pk_seed key) (bk_height key) | Some t \<Rightarrow> Some t"
    show ?thesis
    proof (cases ?tree)
      case None
      then show ?thesis using run ok True by (auto simp: blind_signer_sign_def cap Let_def)
    next
      case (Some tree)
      then have reach: "kp_reachable P (bk_sk_seed key) (bk_pk_seed key) (bk_height key) tree"
        using ok keypair_new_reachable by (auto simp: signer_ok_def split: option.splits)
      obtain tree' r' where sign: "xmss_keypair_sign P tree (ucast (bk_next_leaf key)) (hm_digest (b3 P) com) c = Some (tree', r', c')"
        and key': "key' = (case r' of None \<Rightarrow> key\<lparr>bk_tree := Some tree'\<rparr>
            | Some s \<Rightarrow> key\<lparr>bk_tree := Some tree', bk_next_leaf := bk_next_leaf key + 1\<rparr>)" and r: "r = r'"
        using run Some True by (auto simp: blind_signer_sign_def cap Let_def split: option.splits)
      have reach': "kp_reachable P (bk_sk_seed key) (bk_pk_seed key) (bk_height key) tree'"
        by (rule kp_reachable.sign [OF reach sign])
      have pow: "(2 :: nat) ^ ?h \<le> 2 ^ 32" using h by (intro power_increasing) auto
      have leaf: "unat (ucast (bk_next_leaf key) :: u32) = unat (bk_next_leaf key)"
        using True pow by (simp add: unsigned_ucast_eq take_bit_nat_eq_self)
      have suc: "unat (bk_next_leaf key + 1) = Suc (unat (bk_next_leaf key))"
        using True pow unat_of_nat_u64 [of "Suc (unat (bk_next_leaf key))"] by (simp add: add.commute)
      show ?thesis
      proof (cases r')
        case None
        then show ?thesis using ok reach' by (auto simp: key' r signer_ok_def signer_root_def key_wf_def)
      next
        case (Some sig)
        from xmss_issued [OF reach sign [unfolded Some]] reachable_root [OF reach]
        show ?thesis using ok reach' True suc leaf
          by (auto simp: key' r Some signer_ok_def signer_root_def key_wf_def)
      qed
    qed
  qed
  then show "signer_ok P key'" "signer_root P key' = signer_root P key" "bk_height key' = bk_height key"
    "bk_sk_seed key' = bk_sk_seed key \<and> bk_pk_seed key' = bk_pk_seed key"
    "r = None \<Longrightarrow> bk_next_leaf key' = bk_next_leaf key"
    "r = Some sig \<Longrightarrow> unat (xs_leaf_index sig) = unat (bk_next_leaf key) \<and>
      unat (bk_next_leaf key') = Suc (unat (bk_next_leaf key)) \<and> unat (bk_next_leaf key) < 2 ^ nat (bk_height key) \<and>
      xmss_verify P (bk_pk_seed key) (signer_root P key) (hm_digest (b3 P) com) sig"
    by blast+
qed

end
