(* ===== verification/Statement_Correct.thy ===== *)
theory Statement_Correct
  imports Plain_Chains Protocol_Correct Kkw_Correct
begin

text \<open>
  What the statement of the proof says: its eight output words on a witness are the public
  output of a root exactly when the witness holds an XMSS signature under that root on the
  digest of a commitment to the message digest, with a schedule that completes its chains;
  and \<^verbatim>\<open>kkw_build_schedule\<close> finds such a schedule.
\<close>

subsection \<open>The circuit's value\<close>

definition w_digest :: "platform \<Rightarrow> bytes \<Rightarrow> bytes \<Rightarrow> bytes" where
  "w_digest P m_hat d = snd (hm_commit (b3 P) m_hat (segment W_R_OFF HM_R_BYTES d) (segment W_A_OFF HM_A_BYTES d))"

definition w_message_hash :: "platform \<Rightarrow> bytes \<Rightarrow> bytes \<Rightarrow> bytes \<Rightarrow> bytes" where
  "w_message_hash P m_hat pk d = xmss_hash_message P pk (w_epoch d) (w_nonce d) (w_digest P m_hat d)"

lemma length_w_digest: "b3_length (b3 P) \<Longrightarrow> length (w_digest P m_hat d) = 32"
  by (simp add: w_digest_def hm_commit_def Let_def hm_digest_def HM_DOM_D_def blake3_th_into_eq th_def length_b3
      BLAKE3_TH_MAX_DOMAIN_def BLAKE3_OUT_LEN_def)

lemma length_w_message_hash:
  assumes "b3_length (b3 P)" "length d = W_END" "length pk = 16"
  shows "length (w_message_hash P m_hat pk d) = 32"
  using assms by (simp add: w_message_hash_def xmss_hash_message_def blake3_th_into_eq th_def length_b3
      put_epoch_be_def xmss_sizes BLAKE3_TH_MAX_DOMAIN_def BLAKE3_OUT_LEN_def)

lemma length_node_hash:
  assumes "b3_length (b3 P)" "length pk = 16"
  shows "length (xmss_hash_public_key P pk e hs) = 16"
  using assms by (simp add: xmss_hash_public_key_def blake3_th_into_eq th_def length_b3
      put_epoch_be_def xmss_sizes BLAKE3_TH_MAX_DOMAIN_def BLAKE3_OUT_LEN_def)

lemma length_walk_root:
  assumes "b3_length (b3 P)" "length pk = 16" "length leaf = 16"
  shows "length (xmss_walk_auth_path P pk leaf e path) = 16"
proof -
  have "length (fst (xmss_walk_step P pk path h x)) = 16" for h x
    using assms by (cases x) (simp add: xmss_walk_step_def Let_def xmss_hash_tree_node_def blake3_th_into_eq th_def length_b3
        xmss_sizes BLAKE3_TH_MAX_DOMAIN_def BLAKE3_OUT_LEN_def)
  then have "length (fst (fold (xmss_walk_step P pk path) hs x)) = 16" if "length (fst x) = 16" for hs x
    using that by (induction hs arbitrary: x) auto
  then show ?thesis using assms(3) by (simp add: xmss_walk_auth_path_def)
qed

lemma statement_value:
  assumes B: "b3_chunk_ok (b3 P)" "b3_length (b3 P)" and mem: "malloc_ok P 56" and m: "length m_hat = 32"
    and d: "length d = W_END" and pk: "length pk = 16"
    and mh: "mh = w_message_hash P m_hat pk d" and cs: "cs = snd (xmss_extract_coords mh)"
  shows "\<exists>ns c. statement_outputs m_hat pk d
      = node_words (xmss_walk_auth_path P pk (xmss_hash_public_key P pk (w_epoch d) ns) (w_epoch d) (w_path d))
        @ [of_nat (coords_sum cs), mh_leftover mh, c, 0]
    \<and> (c = 0 \<longleftrightarrow> completes cs d) \<and> (c = 0 \<longrightarrow> ns = xmss_wots_pk_from_sig P pk (w_epoch d) (w_hashes d) cs)"
proof -
  obtain ns c where chains: "computes (pool_chains plain_gates (map pl d) pk (map pl mh)) (map pl (concat ns), pl c)"
    and ns: "length ns = 42" "\<forall>n\<in>set ns. length n = 16"
    and c: "c = 0 \<longleftrightarrow> completes cs d" "c = 0 \<longrightarrow> ns = xmss_wots_pk_from_sig P pk (w_epoch d) (w_hashes d) cs"
    using computes_pool_chains [OF B d pk cs] by blast
  have len: "length (concat ns) = 672" using ns by (simp add: length_concat_const)
  let ?leaf = "xmss_hash_public_key P pk (w_epoch d) ns"
  let ?root = "xmss_walk_auth_path P pk ?leaf (w_epoch d) (w_path d)"
  have mh_comp: "computes (circ_message_hash plain_gates pk (map pl d) (map pl (w_digest P m_hat d))) (map pl mh)"
    unfolding mh w_message_hash_def by (rule computes_message_hash [OF B mem d pk length_w_digest [OF B(2)]])
  have path: "computes (circ_path plain_gates pk (map pl d) (map pl ?leaf)) (map pl ?root)"
    by (rule computes_path [OF B d pk length_node_hash [OF B(2) pk]])
  have sum: "computes (circ_sum plain_gates (map pl mh)) (pl (of_nat (coords_sum cs)))"
    unfolding cs by (rule computes_sum) (simp add: mh length_w_message_hash [OF B(2) d pk])
  have "computes (circ_statement plain_gates m_hat pk (map pl d))
      (map pl (node_words ?root @ [of_nat (coords_sum cs), mh_leftover mh, c, 0]))"
    unfolding circ_statement_def Let_def plain_np
    by (rule computes_bind [OF computes_commitment [OF B d m, folded w_digest_def]], rule computes_bind [OF mh_comp],
        rule computes_bind [OF chains], unfold prod.case, rule computes_bind [OF computes_leaf [OF B d pk len]],
        rule computes_bind [OF path], rule computes_bind [OF sum], rule computes_return) simp
  then have "statement_outputs m_hat pk d = node_words ?root @ [of_nat (coords_sum cs), mh_leftover mh, c, 0]"
    by (simp add: statement_outputs_def computes_def comp_def)
  with c show ?thesis by blast
qed

subsection \<open>The public output\<close>

lemma build_pubout_eq: "build_pubout root = node_words root @ [of_nat XMSS_TARGET_SUM, 0, 0, 0]"
proof -
  have four: "[0..<4 :: nat] = [0, 1, 2, 3]" by (simp add: upt_rec)
  have eight: "replicate 8 (0 :: u32) = [0, 0, 0, 0, 0, 0, 0, 0]" by (simp add: numeral_eq_Suc)
  have upd: "[a, b, c, d, e, f, g, h][0 := p, 1 := q, 2 := r, 3 := s, 4 := t] = [p, q, r, s, t, f, g, h]"
    for a b c d e f g h p q r s t :: u32 by (simp add: numeral_eq_Suc)
  have words: "(4 :: nat) = 16 div 4" by simp
  show ?thesis
    unfolding build_pubout_def node_words_def YP_ROOT_WORDS_def YP_SUM_WORD_def XMSS_NODE_WORDS_def XMSS_NODE_BYTES_def
      words [symmetric] four eight Let_def fold_simps id_apply comp_apply list.map upd by simp
qed

lemma node_words_inject: "length x = 16 \<Longrightarrow> length y = 16 \<Longrightarrow> node_words x = node_words y \<longleftrightarrow> x = y"
  by (metis node_words_of_words)

lemma outputs_eq_iff:
  assumes "length xs = 8" "length ys = 8"
  shows "(\<forall>w<8. xs ! w = ys ! w) \<longleftrightarrow> xs = ys"
  using assms by (auto intro: nth_equalityI)

text \<open>The meaning of the statement.\<close>

theorem statement_meaning:
  assumes B: "b3_chunk_ok (b3 P)" "b3_length (b3 P)" and mem: "malloc_ok P 56" and m: "length m_hat = 32"
    and d: "length d = W_END" and pk: "length pk = 16" and root: "length root = 16"
  shows "output_ok m_hat pk d (build_pubout root) \<longleftrightarrow>
    xmss_verify P pk root (w_digest P m_hat d) (w_sig d) \<and>
    completes (snd (xmss_extract_coords (w_message_hash P m_hat pk d))) d"
proof -
  define mh where "mh = w_message_hash P m_hat pk d"
  define cs where "cs = snd (xmss_extract_coords mh)"
  obtain ns c where out: "statement_outputs m_hat pk d
      = node_words (xmss_walk_auth_path P pk (xmss_hash_public_key P pk (w_epoch d) ns) (w_epoch d) (w_path d))
        @ [of_nat (coords_sum cs), mh_leftover mh, c, 0]"
    and c: "c = 0 \<longleftrightarrow> completes cs d" "c = 0 \<longrightarrow> ns = xmss_wots_pk_from_sig P pk (w_epoch d) (w_hashes d) cs"
    using statement_value [OF B mem m d pk mh_def cs_def] by blast
  let ?root = "xmss_walk_auth_path P pk (xmss_hash_public_key P pk (w_epoch d) ns) (w_epoch d) (w_path d)"
  have len: "length ?root = 16" by (rule length_walk_root [OF B(2) pk length_node_hash [OF B(2) pk]])
  have "output_ok m_hat pk d (build_pubout root) \<longleftrightarrow> statement_outputs m_hat pk d = build_pubout root"
    unfolding output_ok_def by (rule outputs_eq_iff) (simp_all add: out build_pubout_eq length_node_words)
  also have "\<dots> \<longleftrightarrow> ?root = root \<and> coords_sum cs = XMSS_TARGET_SUM \<and> fst (xmss_extract_coords mh) \<and> c = 0"
    unfolding out build_pubout_eq cs_def
    by (simp add: length_node_words node_words_inject [OF len root] sum_word_iff mh_leftover_zero)
  also have "\<dots> \<longleftrightarrow> xmss_verify P pk root (w_digest P m_hat d) (w_sig d) \<and> completes cs d"
    using c by (auto simp: xmss_verify_def w_sig_def Let_def case_prod_beta cs_def mh_def w_message_hash_def)
  finally show ?thesis by (simp add: cs_def mh_def)
qed

subsection \<open>Building the schedule\<close>

definition put :: "nat \<Rightarrow> bytes \<Rightarrow> bytes \<Rightarrow> bytes" where
  "put off xs buf = take off buf @ xs @ drop (off + length xs) buf"

definition chain_bytes :: "byte list \<Rightarrow> nat list \<Rightarrow> bytes" where
  "chain_bytes cs cis = concat (map (\<lambda>ci. replicate (7 - unat (cs ! ci)) (of_nat ci)) cis)"

lemma put_put:
  "off + length xs + length ys \<le> length buf \<Longrightarrow> put (off + length xs) ys (put off xs buf) = put off (xs @ ys) buf"
  by (cases xs) (auto simp: put_def min_def ac_simps)

lemma length_put: "off + length xs \<le> length buf \<Longrightarrow> length (put off xs buf) = length buf"
  by (simp add: put_def)

lemma schedule_chain_eq:
  assumes "slot \<le> W_SCHEDULE_LEN" "length input = W_END"
  shows "schedule_chain ci k slot input =
    (if slot + k \<le> W_SCHEDULE_LEN then Some (slot + k, put (W_SCHEDULE_OFF + slot) (replicate k (of_nat ci)) input) else None)"
  using assms
proof (induction k arbitrary: slot input)
  case 0
  then show ?case by (simp add: put_def)
next
  case (Suc k)
  show ?case
  proof (cases "slot = W_SCHEDULE_LEN")
    case False
    have off: "W_SCHEDULE_OFF + slot < length input" using Suc.prems False by (simp add: W_END_def)
    then have one: "input[W_SCHEDULE_OFF + slot := of_nat ci] = put (W_SCHEDULE_OFF + slot) [of_nat ci] input"
      by (simp add: put_def upd_conv_take_nth_drop)
    have "slot + Suc k \<le> W_SCHEDULE_LEN \<Longrightarrow>
        put (W_SCHEDULE_OFF + (slot + 1)) (replicate k (of_nat ci)) (put (W_SCHEDULE_OFF + slot) [of_nat ci] input)
        = put (W_SCHEDULE_OFF + slot) (replicate (Suc k) (of_nat ci)) input"
      using put_put [of "W_SCHEDULE_OFF + slot" "[of_nat ci]" "replicate k (of_nat ci)" input] Suc.prems by (simp add: W_END_def)
    then show ?thesis
      using Suc.IH [of "slot + 1" "put (W_SCHEDULE_OFF + slot) [of_nat ci] input"] Suc.prems False one off
      by (simp add: length_put)
  qed simp
qed

lemma schedule_chains_eq:
  assumes "slot \<le> W_SCHEDULE_LEN" "length input = W_END"
  shows "schedule_chains cs cis slot input =
    (if slot + length (chain_bytes cs cis) \<le> W_SCHEDULE_LEN
     then Some (slot + length (chain_bytes cs cis), put (W_SCHEDULE_OFF + slot) (chain_bytes cs cis) input) else None)"
  using assms
proof (induction cis arbitrary: slot input)
  case Nil
  then show ?case by (simp add: put_def chain_bytes_def)
next
  case (Cons ci cis)
  let ?k = "7 - unat (cs ! ci)"
  let ?xs = "replicate ?k (of_nat ci :: byte)"
  have b: "chain_bytes cs (ci # cis) = ?xs @ chain_bytes cs cis" by (simp add: chain_bytes_def)
  note one = schedule_chain_eq [OF Cons.prems, of ci ?k]
  show ?case
  proof (cases "slot + ?k \<le> W_SCHEDULE_LEN")
    case True
    have len: "length (put (W_SCHEDULE_OFF + slot) ?xs input) = W_END"
      using True Cons.prems by (simp add: length_put W_END_def)
    have "slot + ?k + length (chain_bytes cs cis) \<le> W_SCHEDULE_LEN \<Longrightarrow>
      put (W_SCHEDULE_OFF + (slot + ?k)) (chain_bytes cs cis) (put (W_SCHEDULE_OFF + slot) ?xs input)
        = put (W_SCHEDULE_OFF + slot) (?xs @ chain_bytes cs cis) input"
      using put_put [of "W_SCHEDULE_OFF + slot" ?xs "chain_bytes cs cis" input] Cons.prems by (simp add: W_END_def add.assoc)
    then show ?thesis
      using one True Cons.IH [OF True len] by (simp add: b XMSS_WOTS_MAX_STEPS_def add.assoc)
  next
    case False
    then show ?thesis using one by (simp add: b XMSS_WOTS_MAX_STEPS_def)
  qed
qed

lemma length_chain_bytes:
  "n \<le> length cs \<Longrightarrow> \<forall>c\<in>set cs. unat c \<le> 7 \<Longrightarrow> length (chain_bytes cs [0..<n]) + sum_list (map unat (take n cs)) = 7 * n"
proof (induction n)
  case (Suc n)
  then have "cs ! n \<in> set cs" by simp
  then have "unat (cs ! n) \<le> 7" using Suc.prems by blast
  then obtain k where "7 = unat (cs ! n) + k" using le_Suc_ex by blast
  moreover have "length (chain_bytes cs [0..<Suc n]) = length (chain_bytes cs [0..<n]) + (7 - unat (cs ! n))"
    by (simp add: chain_bytes_def)
  moreover have "sum_list (map unat (take (Suc n) cs)) = sum_list (map unat (take n cs)) + unat (cs ! n)"
    using Suc.prems by (simp add: take_Suc_conv_app_nth)
  moreover have "length (chain_bytes cs [0..<n]) + sum_list (map unat (take n cs)) = 7 * n" using Suc by simp
  ultimately show ?case by (simp del: upt.simps)
qed (simp add: chain_bytes_def)

lemma count_chain_bytes:
  "n \<le> 42 \<Longrightarrow> ci < 42 \<Longrightarrow> length (filter (\<lambda>b. unat b = ci) (chain_bytes cs [0..<n])) = (if ci < n then 7 - unat (cs ! ci) else 0)"
proof (induction n)
  case (Suc n)
  have "unat (of_nat n :: byte) = n" using Suc.prems by (simp add: unsigned_of_nat take_bit_nat_eq_self)
  then show ?case using Suc by (auto simp: chain_bytes_def filter_replicate less_Suc_eq)
qed (simp add: chain_bytes_def)

lemma chain_bytes_below: "n \<le> 42 \<Longrightarrow> b \<in> set (chain_bytes cs [0..<n]) \<Longrightarrow> unat b < 42"
  by (auto simp: chain_bytes_def unsigned_of_nat take_bit_nat_eq_self split: if_splits)

lemma sched_put:
  assumes "length input = W_END" "length L = W_SCHEDULE_LEN" "j < W_SCHEDULE_LEN"
  shows "sched (put W_SCHEDULE_OFF L input) j = L ! j"
  using assms by (simp add: sched_def put_def W_END_def nth_append)

lemma named_put:
  assumes "length input = W_END" "length L = W_SCHEDULE_LEN"
  shows "named (put W_SCHEDULE_OFF L input) W_SCHEDULE_LEN ci = length (filter (\<lambda>b. unat b = ci) L)"
proof -
  have "filter (\<lambda>j. unat (sched (put W_SCHEDULE_OFF L input) j) = ci) [0..<W_SCHEDULE_LEN]
      = filter (\<lambda>j. unat (L ! j) = ci) [0..<W_SCHEDULE_LEN]"
    by (rule filter_cong) (simp_all add: sched_put assms)
  also have "length \<dots> = length (filter (\<lambda>b. unat b = ci) (map ((!) L) [0..<W_SCHEDULE_LEN]))"
    by (simp add: filter_map comp_def)
  also have "map ((!) L) [0..<W_SCHEDULE_LEN] = L" using assms(2) by (metis map_nth)
  finally show ?thesis by (simp add: named_def)
qed

lemma segment_put: "off + len \<le> n \<Longrightarrow> n \<le> length buf \<Longrightarrow> segment off len (put n xs buf) = segment off len buf"
  by (simp add: segment_def put_def drop_take)

lemma epoch_fold:
  assumes "length d = W_END"
  shows "fold (\<lambda>b e. push_bit 8 e OR ucast (d ! (W_LEAFIDX_OFF + b))) [0..<XMSS_EPOCH_BYTES] (0 :: u32) = w_epoch d"
proof -
  have "[0..<4 :: nat] = [0, 1, 2, 3]" by (simp add: upt_rec)
  moreover have "segment W_LEAFIDX_OFF 4 d = [d ! W_LEAFIDX_OFF, d ! (W_LEAFIDX_OFF + 1), d ! (W_LEAFIDX_OFF + 2), d ! (W_LEAFIDX_OFF + 3)]"
    using assms by (intro nth_equalityI) (auto simp: segment_def w_layout hm_sizes xmss_sizes less_Suc_eq numeral_eq_Suc)
  ultimately show ?thesis
    by (simp add: w_epoch_def XMSS_EPOCH_BYTES_def load_be_def push_bit_or push_bit_push_bit or.assoc or.commute or.left_commute)
qed

lemma w_parts_put:
  assumes "length d = W_END" "length L = W_SCHEDULE_LEN"
  shows "w_sig (put W_SCHEDULE_OFF L d) = w_sig d" "w_digest P m (put W_SCHEDULE_OFF L d) = w_digest P m d"
    "w_message_hash P m pk (put W_SCHEDULE_OFF L d) = w_message_hash P m pk d"
proof -
  have seg: "segment off len (put W_SCHEDULE_OFF L d) = segment off len d" if "off + len \<le> W_SCHEDULE_OFF" for off len
    by (rule segment_put [OF that]) (use assms in \<open>simp add: W_END_def\<close>)
  have bounds: "W_R_OFF + HM_R_BYTES \<le> W_SCHEDULE_OFF" "W_A_OFF + HM_A_BYTES \<le> W_SCHEDULE_OFF"
    "W_LEAFIDX_OFF + XMSS_EPOCH_BYTES \<le> W_SCHEDULE_OFF" "W_NONCE_OFF + XMSS_NONCE_LEN \<le> W_SCHEDULE_OFF"
    "W_SIG_OFF + W_SIG_LEN \<le> W_SCHEDULE_OFF" "W_PATH_OFF + W_PATH_LEN \<le> W_SCHEDULE_OFF"
    by (simp_all add: w_layout hm_sizes xmss_sizes)
  show "w_sig (put W_SCHEDULE_OFF L d) = w_sig d" "w_digest P m (put W_SCHEDULE_OFF L d) = w_digest P m d"
    "w_message_hash P m pk (put W_SCHEDULE_OFF L d) = w_message_hash P m pk d"
    by (simp_all only: w_sig_def w_digest_def w_message_hash_def w_epoch_def w_nonce_def w_hashes_def w_path_def seg bounds)
qed

text \<open>The builder's answer: the witness with the bytes of all chains in the schedule, when the
  digest is accepted.\<close>

lemma build_schedule_eq:
  assumes d: "length d = W_END" and mh_def: "mh = w_message_hash P m_hat pk d"
  shows "kkw_build_schedule P d m_hat pk =
    (if fst (xmss_extract_coords mh) \<and> coords_sum (snd (xmss_extract_coords mh)) = XMSS_TARGET_SUM
     then Some (put W_SCHEDULE_OFF (chain_bytes (snd (xmss_extract_coords mh)) [0..<42]) d) else None)"
proof -
  let ?cs = "snd (xmss_extract_coords mh)" and ?ok = "fst (xmss_extract_coords mh)"
  let ?L = "chain_bytes ?cs [0..<42]"
  have cs: "length ?cs = 42" "\<forall>c\<in>set ?cs. unat c \<le> 7" using extract_coords_ok [of mh] by (simp_all add: coords_ok_def)
  have "length ?L + coords_sum ?cs = 294" using length_chain_bytes [of 42 ?cs] cs by (simp add: coords_sum_def)
  then have len: "length ?L = W_SCHEDULE_LEN \<longleftrightarrow> coords_sum ?cs = XMSS_TARGET_SUM"
    unfolding W_END_value XMSS_TARGET_SUM_def by linarith
  have "kkw_build_schedule P d m_hat pk =
      (if \<not> ?ok then None else case schedule_chains ?cs [0..<42] 0 d of None \<Rightarrow> None
        | Some (slot, input) \<Rightarrow> if slot = W_SCHEDULE_LEN then Some input else None)"
    unfolding kkw_build_schedule_def epoch_fold [OF d] mh_def w_message_hash_def w_digest_def w_nonce_def Let_def XMSS_WOTS_LEN_def
    by (simp add: case_prod_beta)
  then show ?thesis
    using schedule_chains_eq [of 0 d ?cs "[0..<42]"] d len by (auto simp del: upt.simps)
qed

theorem build_schedule_correct:
  assumes d: "length d = W_END" and built: "kkw_build_schedule P d m_hat pk = Some d'"
  shows "length d' = W_END" "w_sig d' = w_sig d" "w_digest P m_hat d' = w_digest P m_hat d"
    "completes (snd (xmss_extract_coords (w_message_hash P m_hat pk d'))) d'"
proof -
  define mh where "mh = w_message_hash P m_hat pk d"
  let ?cs = "snd (xmss_extract_coords mh)"
  let ?L = "chain_bytes ?cs [0..<42]"
  have sum: "coords_sum ?cs = XMSS_TARGET_SUM" and d': "d' = put W_SCHEDULE_OFF ?L d"
    using built build_schedule_eq [OF d mh_def] by (auto split: if_splits)
  have cs: "length ?cs = 42" "\<forall>c\<in>set ?cs. unat c \<le> 7" using extract_coords_ok [of mh] by (simp_all add: coords_ok_def)
  have "length ?L + coords_sum ?cs = 294" using length_chain_bytes [of 42 ?cs] cs by (simp add: coords_sum_def)
  then have L: "length ?L = W_SCHEDULE_LEN" using sum unfolding W_END_value XMSS_TARGET_SUM_def by linarith
  show "length d' = W_END" "w_sig d' = w_sig d" "w_digest P m_hat d' = w_digest P m_hat d"
    using d L by (simp_all add: d' length_put W_END_def w_parts_put)
  have "w_message_hash P m_hat pk d' = mh" 
    unfolding d' w_parts_put(3) [OF d L] by (rule mh_def [symmetric])
  moreover have "unat (sched d' j) < 42" if "j < W_SCHEDULE_LEN" for j
    using chain_bytes_below [of 42 "?L ! j" ?cs] that L by (simp add: d' sched_put [OF d L] del: upt.simps)
  moreover have "unat (?cs ! ci) + named d' W_SCHEDULE_LEN ci = 7" if "ci < 42" for ci
  proof -
    have "unat (?cs ! ci) \<le> 7" using cs that by simp
    then show ?thesis using count_chain_bytes [of 42 ci ?cs] that by (simp add: d' named_put [OF d L] del: upt.simps)
  qed
  ultimately show "completes (snd (xmss_extract_coords (w_message_hash P m_hat pk d'))) d'"
    by (simp add: completes_def XMSS_WOTS_LEN_def XMSS_WOTS_MAX_STEPS_def)
qed

lemma built_schedule:
  assumes d: "length d = W_END" and built: "kkw_build_schedule P d m_hat pk = Some d'"
  shows "length d' = W_END \<and> take W_SCHEDULE_OFF d' = take W_SCHEDULE_OFF d \<and>
    completes (snd (xmss_extract_coords (w_message_hash P m_hat pk d))) d'"
proof -
  note c = build_schedule_correct [OF d built]
  have "w_epoch d' = w_epoch d" "w_nonce d' = w_nonce d" using c(2) by (simp_all add: w_sig_def)
  then have "w_message_hash P m_hat pk d' = w_message_hash P m_hat pk d" using c(3) by (simp add: w_message_hash_def)
  moreover have "take W_SCHEDULE_OFF d' = take W_SCHEDULE_OFF d"
    using built build_schedule_eq [OF d refl, of P m_hat pk] d by (auto simp: put_def W_END_def min_def split: if_splits)
  ultimately show ?thesis using c by simp
qed

end
