(* ===== verification/Blind_Correct.thy ===== *)
theory Blind_Correct
  imports Statement_Correct
begin

text \<open>
  The protocol's witness: its parts are the signature and the opening it was filled from, so
  the prover answers with a proof exactly when the signature verifies on the commitment the
  opening gives for the message.
\<close>

definition us_a :: "blind_user_state \<Rightarrow> bytes" where
  "us_a st = take HM_A_BYTES (us_com st)"

text \<open>The commitment digest the user's randomness opens to for a message digest.\<close>

definition opened_digest :: "platform \<Rightarrow> blind_user_state \<Rightarrow> bytes" where
  "opened_digest P st = snd (hm_commit (b3 P) (blind_msg_digest (b3 P) (us_msg st)) (us_r st) (us_a st))"

definition state_sized :: "blind_user_state \<Rightarrow> bool" where
  "state_sized st \<longleftrightarrow> length (us_com st) = HM_COM_BYTES \<and> length (us_r st) = HM_R_BYTES"

lemma input_parts:
  assumes st: "state_sized st" and sig: "sig_wf sig" and junk: "length junk = W_SCHEDULE_LEN"
  defines "w \<equiv> user_input st sig junk"
  shows "length w = W_END" "w_sig w = sig" "segment W_R_OFF HM_R_BYTES w = us_r st" "segment W_A_OFF HM_A_BYTES w = us_a st"
proof -
  have lens: "length (us_r st) = 96" "length (take 192 (us_com st)) = 192" "length (put_leaf_be (xs_leaf_index sig)) = 4"
    "length (xs_nonce sig) = 24" "length (concat (xs_sig_hashes sig)) = 672" "length (concat (xs_auth_path sig)) = 512" "length junk = 99"
    using st sig junk length_concat_const [of "xs_sig_hashes sig" 16] length_concat_const [of "xs_auth_path sig" 16]
    by (simp_all add: state_sized_def sig_wf_def hm_sizes xmss_sizes put_leaf_be_def W_END_value)
  have w: "w = us_r st @ take 192 (us_com st) @ put_leaf_be (xs_leaf_index sig) @ xs_nonce sig
     @ concat (xs_sig_hashes sig) @ concat (xs_auth_path sig) @ junk"
    by (simp add: w_def user_input_def hm_sizes)
  show "length w = W_END" by (simp only: w length_append lens W_END_value)
  show "segment W_R_OFF HM_R_BYTES w = us_r st" "segment W_A_OFF HM_A_BYTES w = us_a st"
    using lens by (simp_all add: w segment_def w_layout hm_sizes xmss_sizes us_a_def)
  have "segment W_LEAFIDX_OFF 4 w = put_leaf_be (xs_leaf_index sig)" "segment W_NONCE_OFF 24 w = xs_nonce sig"
    "segment W_SIG_OFF 672 w = concat (xs_sig_hashes sig)" "segment W_PATH_OFF 512 w = concat (xs_auth_path sig)"
    using lens by (simp_all add: w segment_def w_layout hm_sizes xmss_sizes del: length_concat)
  moreover have "load_be (put_leaf_be (xs_leaf_index sig)) = xs_leaf_index sig"
    by (simp add: put_leaf_be_eq load_be_bytes_be)
  moreover have "blocks 16 42 (concat (xs_sig_hashes sig)) = xs_sig_hashes sig" "blocks 16 32 (concat (xs_auth_path sig)) = xs_auth_path sig"
    using sig blocks_concat0 [of "xs_sig_hashes sig" 16 42] blocks_concat0 [of "xs_auth_path sig" 16 32]
    by (auto simp: sig_wf_def xmss_sizes)
  ultimately show "w_sig w = sig"
    by (simp add: w_sig_def w_epoch_def w_nonce_def w_hashes_def w_path_def xmss_sizes W_SIG_LEN_def W_PATH_LEN_def)
qed

lemma length_msg_digest: "b3_length B \<Longrightarrow> length (blind_msg_digest B msg) = 32"
  by (simp add: blind_msg_digest_def KKW_TH_def KKW_DOM_MHAT_def blake3_th_into_eq th_def length_b3
      BLAKE3_TH_MAX_DOMAIN_def BLAKE3_OUT_LEN_def)

lemma opened_w_digest:
  assumes "state_sized st" "sig_wf sig" "length junk = W_SCHEDULE_LEN"
  shows "w_digest P (blind_msg_digest (b3 P) (us_msg st)) (user_input st sig junk) = opened_digest P st"
  by (simp add: w_digest_def opened_digest_def input_parts [OF assms])

text \<open>The schedule is built for exactly the digests the signature check accepts.\<close>

lemma verify_accepted:
  "xmss_verify P pk root d sig \<Longrightarrow>
     fst (xmss_extract_coords (xmss_hash_message P pk (xs_leaf_index sig) (xs_nonce sig) d)) \<and>
     coords_sum (snd (xmss_extract_coords (xmss_hash_message P pk (xs_leaf_index sig) (xs_nonce sig) d))) = XMSS_TARGET_SUM"
  by (auto simp: xmss_verify_def Let_def case_prod_beta split: if_splits)

lemma input_schedule:
  assumes sized: "state_sized st" "sig_wf sig" "length junk = W_SCHEDULE_LEN"
    and ok: "xmss_verify P pk root (opened_digest P st) sig"
  shows "\<exists>d. kkw_build_schedule P (user_input st sig junk) (blind_msg_digest (b3 P) (us_msg st)) pk = Some d"
proof -
  let ?w = "user_input st sig junk"
  have "w_message_hash P (blind_msg_digest (b3 P) (us_msg st)) pk ?w =
      xmss_hash_message P pk (xs_leaf_index sig) (xs_nonce sig) (opened_digest P st)"
    using arg_cong [OF input_parts(2) [OF sized], of xs_leaf_index] arg_cong [OF input_parts(2) [OF sized], of xs_nonce]
    unfolding w_message_hash_def opened_w_digest [OF sized] by (simp add: w_sig_def)
  then show ?thesis
    using build_schedule_eq [OF input_parts(1) [OF sized] refl, of P "blind_msg_digest (b3 P) (us_msg st)" pk] verify_accepted [OF ok]
    by simp
qed

lemma built_parts:
  assumes sized: "state_sized st" "sig_wf sig" "length junk = W_SCHEDULE_LEN"
    and built: "kkw_build_schedule P (user_input st sig junk) (blind_msg_digest (b3 P) (us_msg st)) pk = Some d"
  shows "length d = W_END" "w_sig d = sig" "w_digest P (blind_msg_digest (b3 P) (us_msg st)) d = opened_digest P st"
    "completes (snd (xmss_extract_coords (w_message_hash P (blind_msg_digest (b3 P) (us_msg st)) pk d))) d"
  using build_schedule_correct [OF input_parts(1) [OF sized] built] input_parts(2) [OF sized] opened_w_digest [OF sized]
  by simp_all

text \<open>A platform for the protocol: no call fails, the hash is BLAKE3 on the circuit's frames.\<close>

definition protocol_platform :: "platform \<Rightarrow> bool" where
  "protocol_platform P \<longleftrightarrow> platform_ok P \<and> b3_chunk_ok (b3 P) \<and> (\<forall>n. malloc_ok P n) \<and> (\<forall>n. fwrite_ok P n)
     \<and> (\<forall>c n. getentropy P c n \<noteq> None)"

text \<open>The loops of the challenge end.\<close>

definition challenge_ends :: "platform \<Rightarrow> kkw_params \<Rightarrow> bool" where
  "challenge_ends P prm \<longleftrightarrow> (\<forall>h. kkw_grind (b3 P) prm h 0 \<noteq> None) \<and> (\<forall>seed. kkw_fs_expand (b3 P) prm seed \<noteq> None)"

lemma built_output:
  assumes P: "protocol_platform P" and sized: "state_sized st" "sig_wf sig" "length junk = W_SCHEDULE_LEN"
    and pk: "length pk = 16" "length root = 16"
    and built: "kkw_build_schedule P (user_input st sig junk) (blind_msg_digest (b3 P) (us_msg st)) pk = Some d"
  shows "output_ok (blind_msg_digest (b3 P) (us_msg st)) pk d (build_pubout root) \<longleftrightarrow>
    xmss_verify P pk root (opened_digest P st) sig"
proof -
  have B: "b3_chunk_ok (b3 P)" "b3_length (b3 P)" "malloc_ok P 56" using P by (auto simp: protocol_platform_def)
  show ?thesis
    using statement_meaning [OF B length_msg_digest [OF B(2)] built_parts(1) [OF sized built] pk] built_parts [OF sized built] by simp
qed

theorem prove_iff:
  assumes P: "protocol_platform P" "challenge_ends P prm" and prm: "kkw_params_ok prm"
    and sized: "state_sized st" "sig_wf sig" "length junk = W_SCHEDULE_LEN" and pk: "length pk = 16" "length root = 16"
  shows "\<exists>r c'. blind_user_prove P prm threads mem1 mem2 junk st pk root sig c = Some (r, c')
    \<and> (r \<noteq> None \<longleftrightarrow> xmss_verify P pk root (opened_digest P st) sig)"
proof -
  let ?m = "blind_msg_digest (b3 P) (us_msg st)"
  have B: "b3_length (b3 P)" and ok: "platform_ok P" "\<And>k. malloc_ok P k" "\<And>k. fwrite_ok P k" "\<And>c n. getentropy P c n \<noteq> None"
    using P(1) by (auto simp: protocol_platform_def)
  have N: "0 < N_PARTIES prm" "0 < M_KKW prm" using kkw_table_wf [OF prm] by (auto simp: kkw_params_wf_def)
  show ?thesis
  proof (cases "kkw_build_schedule P (user_input st sig junk) ?m pk")
    case None
    then have "\<not> xmss_verify P pk root (opened_digest P st) sig"
      using input_schedule [OF sized, of P pk root] by auto
    then show ?thesis using None by (simp add: blind_user_prove_def)
  next
    case (Some d)
    note d = built_parts(1) [OF sized Some, folded INPUT_LEN_def]
    note out = built_output [OF P(1) sized pk Some]
    show ?thesis
    proof (cases "xmss_verify P pk root (opened_digest P st) sig")
      case True
      then have "output_ok ?m pk d (build_pubout root)" using out by simp
      from kkw_prove_succeeds [OF ok d pk(1) N(1) _ _ this] show ?thesis
        using P(2) True Some by (fastforce simp: blind_user_prove_def challenge_ends_def)
    next
      case False
      then have "\<not> output_ok ?m pk d (build_pubout root)" using out by simp
      from kkw_prove_refuses [OF B d pk(1) N this] show ?thesis
        using False Some by (fastforce simp: blind_user_prove_def)
    qed
  qed
qed

subsection \<open>The user\<close>

lemma commit_state:
  assumes "platform_ok P" "blind_user_commit P msg c = (Some st, c')"
  shows "us_msg st = msg" "state_sized st" "opened_digest P st = hm_digest (b3 P) (us_com st)"
proof -
  have B: "b3_length (b3 P)" using assms(1) by blast
  obtain r c1 a com d where r: "random_bytes P HM_R_BYTES c = (Some r, c1)" and a: "random_bytes P HM_A_BYTES c1 = (Some a, c')"
    and hm: "hm_commit (b3 P) (blind_msg_digest (b3 P) msg) r a = (com, d)" and st: "st = \<lparr>us_msg = msg, us_com = com, us_r = r\<rparr>"
    using assms(2) by (auto simp: blind_user_commit_def Let_def split: option.splits prod.splits if_splits)
  have len: "length r = 96" "length a = 192"
    using length_random_bytes [OF assms(1) r] length_random_bytes [OF assms(1) a] by (simp_all add: hm_sizes)
  have com: "us_com st = a @ hm_lines (blind_msg_digest (b3 P) msg) a r @ hm_y (b3 P) r"
    using hm by (auto simp: st hm_commit_def Let_def hm_commitment_def)
  show "us_msg st = msg" by (simp add: st)
  show "state_sized st" using len com B length_msg_digest [OF B, of msg]
    by (simp add: state_sized_def st hm_sizes length_hm_lines)
  have "us_a st = a" using com len by (simp add: us_a_def hm_sizes)
  then show "opened_digest P st = hm_digest (b3 P) (us_com st)"
    using hm by (auto simp: opened_digest_def st hm_commit_def Let_def)
qed

lemma signed_sized:
  assumes P: "platform_ok P" and ok: "signer_ok P key" and run: "blind_signer_sign P key com c = Some (key', Some sig, c')"
  shows "sig_wf sig"
proof -
  have pk: "length (bk_pk_seed key) = 16" using ok by (simp add: signer_ok_def key_wf_def xmss_sizes)
  obtain tree where tree: "(case bk_tree key of None \<Rightarrow> xmss_keypair_new P (bk_sk_seed key) (bk_pk_seed key) (bk_height key)
      | Some t \<Rightarrow> Some t) = Some tree"
    and sign: "\<exists>tree'. xmss_keypair_sign P tree (ucast (bk_next_leaf key)) (hm_digest (b3 P) com) c = Some (tree', Some sig, c')"
    using run unfolding blind_signer_sign_def Let_def by (auto split: if_splits option.splits)
  have "kp_reachable P (bk_sk_seed key) (bk_pk_seed key) (bk_height key) tree"
    using ok tree keypair_new_reachable by (auto simp: signer_ok_def split: option.splits)
  then show ?thesis using issued_sig_wf [OF P pk] sign by blast
qed

lemma verified_root:
  assumes "xmss_verify P pk root d sig"
  shows "\<exists>e hs. root = xmss_walk_auth_path P pk (xmss_hash_public_key P pk e hs) e (xs_auth_path sig)"
  using assms unfolding xmss_verify_def Let_def case_prod_beta by (metis (no_types))

lemma keypair_total:
  assumes "\<And>n. malloc_ok P n" "1 \<le> h" "h \<le> 32"
  shows "xmss_keypair_new P sk pk h \<noteq> None"
proof -
  have "xmss_alloc_levels P n" for n using assms(1) by (simp add: xmss_alloc_levels_def list_all_iff)
  then show ?thesis
    using new_split_some_iff [of P sk pk h "if h < 16 then h else 16"] assms
    by (auto simp: xmss_keypair_new_def XMSS_SUBTREE_H_def)
qed

lemma grind_endless:
  assumes total: "\<And>c n. getentropy P c n \<noteq> None" and none: "grind_nonce P pk e message c = None"
    and draw: "getentropy P (c + j) 24 = Some nonce"
  shows "\<not> nonce_accepted P pk e message nonce"
  using draw
proof (induction j arbitrary: nonce rule: less_induct)
  case (less j)
  have "grind_nonce P pk e message c = grind_nonce P pk e message (c + j)"
  proof (rule grind_nonce_returns)
    fix i assume "i < j"
    then show "case getentropy P (c + i) 24 of None \<Rightarrow> False | Some nonce \<Rightarrow> \<not> nonce_accepted P pk e message nonce"
      using less.IH [of i] total [of "c + i" 24] by (auto split: option.split)
  qed
  then have "grind_nonce P pk e message (c + j) = None" using none by simp
  then show ?case using less.prems by (subst (asm) grind_nonce_step) (simp add: random_bytes_24 split: if_splits)
qed

text \<open>On such a platform the signer answers unless its key is exhausted or no draw of the
  entropy source is accepted.\<close>

lemma sign_outcome:
  assumes P: "protocol_platform P" and key: "signer_ok P key"
  shows "case blind_signer_sign P key com c of
      None \<Rightarrow> (\<forall>j nonce. getentropy P (c + j) 24 = Some nonce \<longrightarrow>
          \<not> nonce_accepted P (bk_pk_seed key) (ucast (bk_next_leaf key)) (hm_digest (b3 P) com) nonce)
    | Some (key', None, c') \<Rightarrow> 2 ^ nat (bk_height key) \<le> unat (bk_next_leaf key)
    | Some (key', Some sig, c') \<Rightarrow> True"
proof (cases "unat (bk_next_leaf key) < 2 ^ nat (bk_height key)")
  case False
  have "nat (bk_height key) \<le> 32" using key by (auto simp: signer_ok_def key_wf_def xmss_sizes)
  then show ?thesis
    using False unat_one_shift [of "nat (bk_height key)"] by (simp add: blind_signer_sign_def word_le_nat_alt not_less)
next
  case True
  have h: "1 \<le> bk_height key" "bk_height key \<le> 32" "nat (bk_height key) \<le> 32" using key by (auto simp: signer_ok_def key_wf_def xmss_sizes)
  have total: "\<And>c n. getentropy P c n \<noteq> None" and mem: "\<And>n. malloc_ok P n" using P by (auto simp: protocol_platform_def)
  obtain tree where tree: "(case bk_tree key of None \<Rightarrow> xmss_keypair_new P (bk_sk_seed key) (bk_pk_seed key) (bk_height key)
      | Some t \<Rightarrow> Some t) = Some tree"
    using keypair_total [OF mem h(1,2), of "bk_sk_seed key" "bk_pk_seed key"] by (cases "bk_tree key") auto
  then have reach: "kp_reachable P (bk_sk_seed key) (bk_pk_seed key) (bk_height key) tree"
    using key keypair_new_reachable by (auto simp: signer_ok_def split: option.splits)
  note wf = reachable_wf [OF reach]
  let ?leaf = "ucast (bk_next_leaf key) :: u32" and ?d = "hm_digest (b3 P) com"
  have pow: "(2 :: nat) ^ nat (bk_height key) \<le> 2 ^ 32" using h by (intro power_increasing) auto
  have leaf: "unat ?leaf = unat (bk_next_leaf key)"
    using True pow by (simp add: unsigned_ucast_eq take_bit_nat_eq_self)
  have room: "\<not> bk_next_leaf key \<ge> push_bit (nat (bk_height key)) 1"
    using True unat_one_shift [OF h(3)] by (simp add: word_le_nat_alt not_le)
  have sign: "xmss_keypair_sign P tree ?leaf ?d c = map_option (\<lambda>(r, c'). case r of None \<Rightarrow> (tree, None, c')
       | Some (nonce, coords) \<Rightarrow> (kp_touch P tree ?leaf,
            Some (sig_spec P (kp_sk_seed tree) (kp_pk_seed tree) (kp_height tree) ?leaf nonce coords), c'))
       (grind_nonce P (kp_pk_seed tree) ?leaf ?d c)"
    by (rule sign_spec) (use wf leaf True in auto)
  have answers: "r \<noteq> None" if run: "grind_nonce P pk e m c = Some (r, c')" for pk e m r c'
  proof
    assume "r = None"
    then obtain c where "fst (random_bytes P XMSS_NONCE_LEN c) = None" using grind_nonce_result [OF run] by (auto simp: grind_good_def)
    moreover obtain bs c' where "random_bytes P XMSS_NONCE_LEN c = (Some bs, c')" using random_bytes_total [OF total] by blast
    ultimately show False by simp
  qed
  have unfold: "blind_signer_sign P key com c = (case xmss_keypair_sign P tree ?leaf ?d c of
      None \<Rightarrow> None
    | Some (tree, None, c) \<Rightarrow> Some (key\<lparr>bk_tree := Some tree\<rparr>, None, c)
    | Some (tree, Some sig, c) \<Rightarrow>
        Some (key\<lparr>bk_tree := Some tree, bk_next_leaf := bk_next_leaf key + 1\<rparr>, Some sig, c))"
    unfolding blind_signer_sign_def Let_def tree using room by simp
  show ?thesis
  proof (cases "grind_nonce P (kp_pk_seed tree) ?leaf ?d c")
    case None
    then have "\<forall>j nonce. getentropy P (c + j) 24 = Some nonce \<longrightarrow> \<not> nonce_accepted P (bk_pk_seed key) ?leaf ?d nonce"
      using grind_endless [OF total None] wf by simp
    then show ?thesis by (simp add: unfold sign None)
  next
    case (Some x)
    obtain r c' where x: "x = (r, c')" by (cases x)
    obtain nonce coords where "r = Some (nonce, coords)" using answers Some x by fastforce
    then show ?thesis by (simp add: unfold sign Some x)
  qed
qed

theorem honest_run:
  assumes P: "protocol_platform P" "challenge_ends P prm" and prm: "kkw_params_ok prm" and junk: "length junk = W_SCHEDULE_LEN"
    and mem: "\<And>j. scratch_ok (N_PARTIES prm) (mem1 j)" "\<And>j. scratch_ok (N_PARTIES prm) (mem2 j)" "\<And>j. length (fst (mem j)) = ySize"
    and commit: "blind_user_commit P msg c1 = (Some st, c2)"
    and key: "signer_ok P key" and sign: "blind_signer_sign P key (us_com st) c3 = Some (key', Some sig, c4)"
  shows "\<exists>proof c'. blind_user_prove P prm threads mem1 mem2 junk st (bk_pk_seed key) (signer_root P key) sig c = Some (Some proof, c')
    \<and> blind_verify_sig P prm threads' mem proof msg (bk_pk_seed key) (signer_root P key) = Some True"
proof -
  have ok: "platform_ok P" "\<And>k. malloc_ok P k" and B: "b3_length (b3 P)" using P(1) by (auto simp: protocol_platform_def)
  note st = commit_state [OF ok(1) commit]
  have sig: "sig_wf sig" by (rule signed_sized [OF ok(1) key sign])
  have v: "xmss_verify P (bk_pk_seed key) (signer_root P key) (opened_digest P st) sig"
    using signer_sign_ok(6) [OF key sign] st(3) by simp
  have pk: "length (bk_pk_seed key) = 16" using key by (simp add: signer_ok_def key_wf_def xmss_sizes)
  have root: "length (signer_root P key) = 16"
    using verified_root [OF v] length_walk_root [OF B pk length_node_hash [OF B pk]] by auto
  obtain proof' c' where run: "blind_user_prove P prm threads mem1 mem2 junk st (bk_pk_seed key) (signer_root P key) sig c = Some (Some proof', c')"
    using prove_iff [OF P prm st(2) sig junk pk root, of threads mem1 mem2 c] v by auto
  then obtain d where built: "kkw_build_schedule P (user_input st sig junk) (blind_msg_digest (b3 P) (us_msg st)) (bk_pk_seed key) = Some d"
    and kkw: "kkw_prove P prm threads mem1 mem2 d (blind_msg_digest (b3 P) (us_msg st)) (bk_pk_seed key) (build_pubout (signer_root P key)) c = Some (Some proof', c')"
    by (auto simp: blind_user_prove_def Let_def split: option.splits)
  have "kkw_verify P prm threads' mem proof' (blind_msg_digest (b3 P) (us_msg st)) (bk_pk_seed key) (build_pubout (signer_root P key)) = Some True"
    by (rule prove_verify [OF ok _ pk _ mem kkw])
       (use built_parts(1) [OF st(2) sig junk built] kkw_table_wf [OF prm] in \<open>simp_all add: INPUT_LEN_def\<close>)
  then show ?thesis using run st(1) by (auto simp: blind_verify_sig_def)
qed

end
