(* ===== verification/Cli.thy ===== *)
theory Cli
  imports Protocol
begin

text \<open>
  \<^verbatim>\<open>cli.c\<close>: the commands over a file system. The state is the content of the files by
  path with the entropy state; what the standard I/O calls answer is the record \<open>io\<close>, and
  what a write that fails leaves on disk is its \<open>io_partial\<close>. The path of an artefact is cut
  to the 1023 characters its buffer holds. The result of a command is its exit code.
  Messages to the terminal, timing and the wiping of freed memory are left out.
\<close>

record io =
  io_fopen_r :: "string \<Rightarrow> bool"
  io_fseek :: "string \<Rightarrow> bool"
  io_ftell :: "string \<Rightarrow> bool"
  io_fread :: "string \<Rightarrow> bool"
  io_fopen_w :: "string \<Rightarrow> bool"
  io_fwrite :: "string \<Rightarrow> bool"
  io_fclose :: "string \<Rightarrow> bool"
  io_partial :: "string \<Rightarrow> bytes \<Rightarrow> bytes"

type_synonym files = "string \<Rightarrow> bytes option"

text \<open>How a process runs: its platform, build parameters, threads, scratch memory, stack
  contents and I/O.\<close>

record process =
  pr_platform :: platform
  pr_params :: kkw_params
  pr_threads :: nat
  pr_mem1 :: scratch
  pr_mem2 :: scratch
  pr_junk :: bytes
  pr_io :: io

definition path_of :: "string \<Rightarrow> string \<Rightarrow> string" where
  "path_of dir name = take 1023 (dir @ ''/'' @ name)"

definition read_file :: "process \<Rightarrow> files \<Rightarrow> string \<Rightarrow> bytes option" where
  "read_file pr fs path =
     (let io = pr_io pr
      in case fs path of
           None \<Rightarrow> None
         | Some content \<Rightarrow>
             if \<not> io_fopen_r io path then None
             else if \<not> io_fseek io path then None
             else if \<not> io_ftell io path then None
             else let n = length content
                  in if \<not> malloc_ok (pr_platform pr) (if n \<noteq> 0 then n else 1) \<or> (n > 0 \<and> \<not> io_fread io path) then None
                     else Some content)"

definition write_file :: "process \<Rightarrow> files \<Rightarrow> string \<Rightarrow> bytes \<Rightarrow> bool \<times> files" where
  "write_file pr fs path buf =
     (let io = pr_io pr
      in if \<not> io_fopen_w io path then (False, fs)
         else let ok = ((length buf = 0 \<or> io_fwrite io path) \<and> io_fclose io path)
              in (ok, fs(path \<mapsto> (if ok then buf else io_partial io path buf))))"

text \<open>Two files written in sequence with \<open>||\<close> (or \<open>&&\<close>): the second only after the first.\<close>

definition write_files :: "process \<Rightarrow> files \<Rightarrow> string \<Rightarrow> bytes \<Rightarrow> string \<Rightarrow> bytes \<Rightarrow> bool \<times> files" where
  "write_files pr fs path1 buf1 path2 buf2 =
     (let (ok, fs) = write_file pr fs path1 buf1
      in if \<not> ok then (False, fs) else write_file pr fs path2 buf2)"

type_synonym machine = "files \<times> rng"

definition cmd_keygen :: "process \<Rightarrow> string \<Rightarrow> int \<Rightarrow> machine \<Rightarrow> int \<times> machine" where
  "cmd_keygen pr dir height = (\<lambda>(fs, c).
     (let key_path = path_of dir ''signer_key.bin''; pub_path = path_of dir ''signer_pub.bin''
      in case blind_keygen (pr_platform pr) height c of
           (None, c) \<Rightarrow> (1, fs, c)
         | (Some (key, root), c) \<Rightarrow>
             let (ok, fs) = write_files pr fs key_path (blind_write_signer_key key)
                              pub_path (blind_write_signer_pub root (bk_pk_seed key))
             in if \<not> ok then (1, fs, c) else (0, fs, c)))"

definition cmd_commit :: "process \<Rightarrow> string \<Rightarrow> string \<Rightarrow> machine \<Rightarrow> int \<times> machine" where
  "cmd_commit pr dir msg_file = (\<lambda>(fs, c).
     (let com_path = path_of dir ''commitment.bin''; state_path = path_of dir ''user_state.bin''
      in case read_file pr fs msg_file of
           None \<Rightarrow> (1, fs, c)
         | Some msg \<Rightarrow>
             (case blind_user_commit (pr_platform pr) msg c of
                (None, c) \<Rightarrow> (1, fs, c)
              | (Some st, c) \<Rightarrow>
                  if \<not> malloc_ok (pr_platform pr) (blind_user_state_bytes st) then (1, fs, c)
                  else let (ok, fs) = write_files pr fs com_path (us_com st) state_path (blind_write_user_state st)
                       in if \<not> ok then (1, fs, c) else (0, fs, c))))"

text \<open>The outer \<open>None\<close> of a result is a command that never returns.\<close>

definition cmd_sign :: "process \<Rightarrow> string \<Rightarrow> machine \<Rightarrow> (int \<times> machine) option" where
  "cmd_sign pr dir = (\<lambda>(fs, c).
     (let key_path = path_of dir ''signer_key.bin''; com_path = path_of dir ''commitment.bin'';
          sig_path = path_of dir ''xmss_sig.bin''
      in case read_file pr fs key_path of
           None \<Rightarrow> Some (1, fs, c)
         | Some key_buf \<Rightarrow>
         (case read_file pr fs com_path of
           None \<Rightarrow> Some (1, fs, c)
         | Some com_buf \<Rightarrow>
         (case blind_read_signer_key key_buf of
           None \<Rightarrow> Some (1, fs, c)
         | Some key \<Rightarrow>
             if length com_buf \<noteq> HM_COM_BYTES then Some (1, fs, c)
             else case blind_signer_sign (pr_platform pr) key com_buf c of
               None \<Rightarrow> None
             | Some (key, None, c) \<Rightarrow> Some (1, fs, c)
             | Some (key, Some sig, c) \<Rightarrow>
                 let (ok, fs) = write_files pr fs sig_path (xmss_write_sig sig) key_path (blind_write_signer_key key)
                 in if \<not> ok then Some (1, fs, c) else Some (0, fs, c)))))"

text \<open>
  The output file is truncated when it is opened and holds the proof only if every write and
  the final \<open>fclose\<close> succeed.
\<close>

definition cmd_prove :: "process \<Rightarrow> string \<Rightarrow> machine \<Rightarrow> (int \<times> machine) option" where
  "cmd_prove pr dir = (\<lambda>(fs, c).
     (let P = pr_platform pr; io = pr_io pr; out_path = path_of dir ''blind_sig.bin''
      in case read_file pr fs (path_of dir ''user_state.bin'') of
           None \<Rightarrow> Some (1, fs, c)
         | Some state_buf \<Rightarrow>
         (case do {
            pub_buf \<leftarrow> read_file pr fs (path_of dir ''signer_pub.bin'');
            sig_buf \<leftarrow> read_file pr fs (path_of dir ''xmss_sig.bin'');
            st \<leftarrow> blind_read_user_state P state_buf;
            (root, pk_seed) \<leftarrow> blind_read_signer_pub pub_buf;
            sig \<leftarrow> xmss_read_sig sig_buf;
            Some (st, root, pk_seed, sig)
          } of
            None \<Rightarrow> Some (1, fs, c)
          | Some (st, root, pk_seed, sig) \<Rightarrow>
              if \<not> xmss_verify P pk_seed root (hm_digest (b3 P) (us_com st)) sig then Some (1, fs, c)
              else if \<not> io_fopen_w io out_path then Some (1, fs, c)
              else case blind_user_prove P (pr_params pr) (pr_threads pr) (pr_mem1 pr) (pr_mem2 pr) (pr_junk pr)
                          st pk_seed root sig c of
                     None \<Rightarrow> None
                   | Some (None, c) \<Rightarrow> Some (1, fs(out_path \<mapsto> io_partial io out_path []), c)
                   | Some (Some proof, c) \<Rightarrow>
                       if \<not> io_fclose io out_path then Some (1, fs(out_path \<mapsto> io_partial io out_path proof), c)
                       else Some (if io_ftell io out_path then 0 else 1, fs(out_path \<mapsto> proof), c))))"

definition cmd_verify :: "process \<Rightarrow> string \<Rightarrow> string \<Rightarrow> machine \<Rightarrow> (int \<times> machine) option" where
  "cmd_verify pr dir msg_file = (\<lambda>(fs, c).
     (let io = pr_io pr; sig_path = path_of dir ''blind_sig.bin''
      in case read_file pr fs msg_file of
           None \<Rightarrow> Some (1, fs, c)
         | Some msg \<Rightarrow>
         (case do { pub_buf \<leftarrow> read_file pr fs (path_of dir ''signer_pub.bin''); blind_read_signer_pub pub_buf } of
            None \<Rightarrow> Some (1, fs, c)
          | Some (root, pk_seed) \<Rightarrow>
          (case fs sig_path of
             None \<Rightarrow> Some (1, fs, c)
           | Some file \<Rightarrow>
               if \<not> io_fopen_r io sig_path then Some (1, fs, c)
               else if \<not> io_fseek io sig_path then Some (1, fs, c)
               else map_option (\<lambda>valid. (if valid then 0 else 1, fs, c))
                      (blind_verify_sig (pr_platform pr) (pr_params pr) (pr_threads pr) (pr_mem1 pr) file msg pk_seed root)))))"

subsection \<open>Arguments\<close>

text \<open>\<open>atoi\<close> of the C library: leading space, a sign, digits.\<close>

definition is_space :: "char \<Rightarrow> bool" where
  "is_space ch \<longleftrightarrow> ch = CHR '' '' \<or> (9 \<le> (of_char ch :: nat) \<and> (of_char ch :: nat) \<le> 13)"

definition is_digit :: "char \<Rightarrow> bool" where
  "is_digit ch \<longleftrightarrow> 48 \<le> (of_char ch :: nat) \<and> (of_char ch :: nat) \<le> 57"

definition digits_value :: "string \<Rightarrow> int" where
  "digits_value s = fold (\<lambda>ch v. 10 * v + (of_char ch - 48)) (takeWhile is_digit s) 0"

definition atoi :: "string \<Rightarrow> int" where
  "atoi s =
     (case dropWhile is_space s of
        [] \<Rightarrow> 0
      | ch # rest \<Rightarrow> if ch = CHR ''-'' then - digits_value rest
                     else if ch = CHR ''+'' then digits_value rest else digits_value (ch # rest))"

record options =
  opt_msg_file :: "string option"
  opt_height :: int
  opt_dir :: string

text \<open>The option loop: the exit code of an early return, or the options.\<close>

fun parse_args :: "string list \<Rightarrow> options \<Rightarrow> int + options" where
  "parse_args [] o' = Inr o'"
| "parse_args (arg # args) o' =
     (if arg = ''--height''
      then (case args of
              [] \<Rightarrow> Inl 1
            | value # args \<Rightarrow>
                let height = atoi value
                in if height < 1 \<or> height > int XMSS_H then Inl 1
                   else parse_args args (o'\<lparr>opt_height := height\<rparr>))
      else if arg = ''-d'' \<or> arg = ''--dir''
      then (case args of [] \<Rightarrow> Inl 1 | value # args \<Rightarrow> parse_args args (o'\<lparr>opt_dir := value\<rparr>))
      else if arg = ''-h'' \<or> arg = ''--help'' then Inl 0
      else if arg \<noteq> [] \<and> hd arg = CHR ''-'' then Inl 1
      else if opt_msg_file o' = None then parse_args args (o'\<lparr>opt_msg_file := Some arg\<rparr>)
      else Inl 1)"

text \<open>\<open>argv\<close> without the program's name.\<close>

definition cli_main :: "process \<Rightarrow> string list \<Rightarrow> machine \<Rightarrow> (int \<times> machine) option" where
  "cli_main pr argv mc =
     (case argv of
        [] \<Rightarrow> Some (1, mc)
      | cmd # args \<Rightarrow>
          if cmd = ''-h'' \<or> cmd = ''--help'' \<or> cmd = ''help'' then Some (0, mc)
          else case parse_args args \<lparr>opt_msg_file = None, opt_height = int XMSS_H_DEFAULT, opt_dir = ''.''\<rparr> of
                 Inl code \<Rightarrow> Some (code, mc)
               | Inr opts \<Rightarrow>
                   let needs_msg = (cmd = ''commit'' \<or> cmd = ''verify'')
                   in if needs_msg \<and> opt_msg_file opts = None then Some (1, mc)
                      else if \<not> needs_msg \<and> opt_msg_file opts \<noteq> None then Some (1, mc)
                      else if cmd = ''keygen'' then Some (cmd_keygen pr (opt_dir opts) (opt_height opts) mc)
                      else if cmd = ''commit'' then Some (cmd_commit pr (opt_dir opts) (the (opt_msg_file opts)) mc)
                      else if cmd = ''sign'' then cmd_sign pr (opt_dir opts) mc
                      else if cmd = ''prove'' then cmd_prove pr (opt_dir opts) mc
                      else if cmd = ''verify'' then cmd_verify pr (opt_dir opts) (the (opt_msg_file opts)) mc
                      else Some (1, mc))"

end
