(* ===== verification/Protocol_Properties.thy ===== *)
theory Protocol_Properties
  imports Protocol_Correct Cli
begin

text \<open>
  The properties of the signer, of the encodings and of the commands that need no
  reasoning on the circuit.
\<close>

subsection \<open>A signer's life\<close>

text \<open>What happens to a key between its generation and now, with the signatures issued on the
  way: signing, with or without an answer, and a trip through its file.\<close>

inductive signer_run :: "platform \<Rightarrow> blind_signer_key \<Rightarrow> blind_signer_key \<Rightarrow> (bytes \<times> xmss_sig) list \<Rightarrow> bool"
  for P key where
  start: "signer_run P key key []"
| issue: "signer_run P key key' issued \<Longrightarrow> blind_signer_sign P key' com c = Some (key'', Some sig, c')
    \<Longrightarrow> signer_run P key key'' (issued @ [(com, sig)])"
| refuse: "signer_run P key key' issued \<Longrightarrow> blind_signer_sign P key' com c = Some (key'', None, c')
    \<Longrightarrow> signer_run P key key'' issued"
| reload: "signer_run P key key' issued \<Longrightarrow> blind_read_signer_key (blind_write_signer_key key') = Some key''
    \<Longrightarrow> signer_run P key key'' issued"

lemma reload_key: "key_wf key \<Longrightarrow> blind_read_signer_key (blind_write_signer_key key) = Some key' \<Longrightarrow> key' = key\<lparr>bk_tree := None\<rparr>"
  using read_write_key by simp

lemma reload_ok:
  assumes "signer_ok P key" "blind_read_signer_key (blind_write_signer_key key) = Some key'"
  shows "signer_ok P key'" "signer_root P key' = signer_root P key" "bk_next_leaf key' = bk_next_leaf key"
    "bk_height key' = bk_height key" "bk_pk_seed key' = bk_pk_seed key"
proof -
  have "key_wf key" using assms(1) by (simp add: signer_ok_def)
  then have k: "key' = key\<lparr>bk_tree := None\<rparr>" using assms(2) by (rule reload_key)
  show "signer_ok P key'" "signer_root P key' = signer_root P key" "bk_next_leaf key' = bk_next_leaf key"
    "bk_height key' = bk_height key" "bk_pk_seed key' = bk_pk_seed key"
    using assms(1) unfolding k by (simp_all add: signer_ok_def key_wf_def signer_root_def)
qed

lemma signer_run_ok:
  assumes "signer_run P key key' issued" "signer_ok P key" "bk_next_leaf key = 0"
  shows "signer_ok P key' \<and> signer_root P key' = signer_root P key \<and> bk_height key' = bk_height key
    \<and> bk_pk_seed key' = bk_pk_seed key \<and> length issued = unat (bk_next_leaf key')
    \<and> map (\<lambda>(com, sig). unat (xs_leaf_index sig)) issued = [0..<length issued]
    \<and> (\<forall>(com, sig)\<in>set issued. xmss_verify P (bk_pk_seed key) (signer_root P key) (hm_digest (b3 P) com) sig)"
  using assms(1)
proof induction
  case start
  then show ?case using assms(2,3) by simp
next
  case (issue key' issued com c key'' sig c')
  then show ?case using signer_sign_ok [of P key' com c key'' "Some sig" c'] by simp
next
  case (refuse key' issued com c key'' c')
  then show ?case using signer_sign_ok [of P key' com c key'' None c'] by simp
next
  case (reload key' issued key'')
  then show ?case using reload_ok [of P key' key''] by simp
qed

text \<open>C6. A signer never reuses a leaf: over any life of a freshly generated key, signing
  whatever commitments, interrupted by trips of the key through its file, the signatures it
  hands out use the leaves 0, 1, 2, ... in turn, at most \<open>2 ^ height\<close> of them, and each verifies
  under the published root.\<close>

theorem signer_never_reuses_leaf:
  assumes "platform_ok P" "blind_keygen P height c = (Some (key, root), c')" "signer_run P key key' issued"
  shows "map (\<lambda>(com, sig). unat (xs_leaf_index sig)) issued = [0..<length issued]
    \<and> length issued \<le> 2 ^ nat height
    \<and> (\<forall>(com, sig)\<in>set issued. xmss_verify P (bk_pk_seed key) root (hm_digest (b3 P) com) sig)"
proof -
  note k = keygen_ok [OF assms(1,2)]
  then have "signer_ok P key" "bk_next_leaf key = 0" by blast+
  note run = signer_run_ok [OF assms(3) this]
  then have "unat (bk_next_leaf key') \<le> 2 ^ nat height" using k by (auto simp: signer_ok_def)
  with run k show ?thesis by simp
qed

lemma sample_random: "random_bytes sample_platform n c = (Some bs, c') \<Longrightarrow> length bs = n"
  using length_random_bytes [OF sample_platform_ok] by blast

lemma sample_tree: "1 \<le> h \<Longrightarrow> h \<le> 32 \<Longrightarrow> xmss_keypair_new sample_platform sk pk h \<noteq> None"
  using new_split_some_iff [of sample_platform sk pk h "if h < 16 then h else 16"]
  by (auto simp: xmss_keypair_new_def XMSS_SUBTREE_H_def sample_alloc)

lemma sample_keygen:
  "\<exists>key root c'. blind_keygen sample_platform 2 0 = (Some (key, root), c') \<and> signer_ok sample_platform key
     \<and> bk_next_leaf key = 0 \<and> bk_height key = 2 \<and> root = signer_root sample_platform key"
proof -
  obtain sk c1 where 1: "random_bytes sample_platform 32 0 = (Some sk, c1)"
    by (auto simp: random_bytes_def randombytes_fill_def randombytes_loop.simps BLIND_MSS_GETENTROPY_MAX_def)
  obtain pk c2 where 2: "random_bytes sample_platform 16 c1 = (Some pk, c2)"
    by (auto simp: random_bytes_def randombytes_fill_def randombytes_loop.simps BLIND_MSS_GETENTROPY_MAX_def)
  obtain kp where "xmss_keypair_new sample_platform sk pk 2 = Some kp" using sample_tree [of 2 sk pk] by auto
  then have "\<exists>key root c'. blind_keygen sample_platform 2 0 = (Some (key, root), c')"
    using 1 2 by (simp add: blind_keygen_def blind_sizes xmss_sizes)
  then show ?thesis using keygen_ok [OF sample_platform_ok] by blast
qed

lemma sample_sign:
  assumes "signer_ok sample_platform key" "unat (bk_next_leaf key) < 2 ^ nat (bk_height key)"
  shows "\<exists>key' sig c'. blind_signer_sign sample_platform key com c = Some (key', Some sig, c')"
proof -
  have h: "1 \<le> bk_height key" "bk_height key \<le> 32" "nat (bk_height key) \<le> 32" and pk: "length (bk_pk_seed key) = 16"
    using assms(1) by (auto simp: signer_ok_def key_wf_def xmss_sizes)
  obtain tree where tree: "(case bk_tree key of None \<Rightarrow> xmss_keypair_new sample_platform (bk_sk_seed key) (bk_pk_seed key) (bk_height key)
      | Some t \<Rightarrow> Some t) = Some tree"
    using sample_tree [OF h(1,2), of "bk_sk_seed key" "bk_pk_seed key"] by (cases "bk_tree key") auto
  then have reach: "kp_reachable sample_platform (bk_sk_seed key) (bk_pk_seed key) (bk_height key) tree"
    using assms(1) keypair_new_reachable by (auto simp: signer_ok_def split: option.splits)
  note wf = reachable_wf [OF reach]
  have pow: "(2 :: nat) ^ nat (bk_height key) \<le> 2 ^ 32" using h by (intro power_increasing) auto
  have leaf: "unat (ucast (bk_next_leaf key) :: u32) = unat (bk_next_leaf key)"
    using assms(2) pow by (simp add: unsigned_ucast_eq take_bit_nat_eq_self)
  have "\<not> bk_next_leaf key \<ge> push_bit (nat (bk_height key)) 1"
    using assms(2) unat_one_shift [OF h(3)] by (simp add: word_le_nat_alt not_le)
  then show ?thesis
    using sign_spec [of sample_platform tree "ucast (bk_next_leaf key)" "hm_digest (b3 sample_platform) com" c] wf leaf assms pk
    by (simp add: blind_signer_sign_def Let_def sample_grind tree)
qed

theorem signer_never_reuses_leaf_witness:
  "\<exists>key root c' key' sig. blind_keygen sample_platform 2 0 = (Some (key, root), c')
     \<and> signer_run sample_platform key key' [([1], sig)] \<and> unat (xs_leaf_index sig) = 0"
proof -
  obtain key root c' where k: "blind_keygen sample_platform 2 0 = (Some (key, root), c')" "signer_ok sample_platform key"
      "bk_next_leaf key = 0" "bk_height key = 2"
    using sample_keygen by blast
  obtain key' sig c2 where "blind_signer_sign sample_platform key [1] 0 = Some (key', Some sig, c2)"
    using sample_sign [OF k(2), of "[1]" 0] k(3,4) by auto
  then have "signer_run sample_platform key key' ([] @ [([1], sig)])" by (rule signer_run.issue [OF signer_run.start])
  then have "signer_run sample_platform key key' [([1], sig)]" by simp
  with signer_never_reuses_leaf [OF sample_platform_ok k(1) this] k(1) show ?thesis by auto
qed

subsection \<open>Encodings\<close>

text \<open>C23. The three encodings are exact: a reader accepts a buffer if and only if it is what the
  writer makes of a well-formed value, which it returns (a signer's key without its tree;
  the user's state on a platform whose allocations succeed).\<close>

theorem protocol_encodings_exact:
  "(blind_read_signer_key buf = Some key \<longleftrightarrow> key_wf key \<and> bk_tree key = None \<and> blind_write_signer_key key = buf)
   \<and> (blind_read_signer_pub buf = Some pub \<longleftrightarrow> pub_wf pub \<and> blind_write_signer_pub (fst pub) (snd pub) = buf)
   \<and> (blind_read_user_state (P\<lparr>malloc_ok := \<lambda>n. True\<rparr>) buf = Some st \<longleftrightarrow>
        user_state_wf st \<and> blind_write_user_state st = buf)"
  using sk.dec_Some_iff [of buf key] pub.dec_Some_iff [of buf pub] us.dec_Some_iff [of P buf st]
  by (simp add: case_prod_beta conj_assoc)

end
