(* ===== verification/Cli_Properties.thy ===== *)
theory Cli_Properties
  imports Protocol_Properties Kkw_Properties
begin

text \<open>
  The properties of the commands: what each leaves in the files, whatever the I/O calls
  answer, and what a command makes of the files another has left.
\<close>

subsection \<open>Paths and files\<close>

text \<open>A directory whose artefacts' paths fit their buffers.\<close>

definition short_dir :: "string \<Rightarrow> bool" where
  "short_dir dir \<longleftrightarrow> length dir \<le> 1000"

lemma path_of_inject:
  "short_dir dir \<Longrightarrow> length name \<le> 22 \<Longrightarrow> length name' \<le> 22 \<Longrightarrow> path_of dir name = path_of dir name' \<longleftrightarrow> name = name'"
  by (simp add: path_of_def short_dir_def)

text \<open>What the standard calls of a process must answer for its reads and its writes to succeed.\<close>

definition reads_ok :: "process \<Rightarrow> bool" where
  "reads_ok pr \<longleftrightarrow> (\<forall>p. io_fopen_r (pr_io pr) p \<and> io_fseek (pr_io pr) p \<and> io_ftell (pr_io pr) p \<and> io_fread (pr_io pr) p)
     \<and> (\<forall>n. malloc_ok (pr_platform pr) n)"

lemma read_file_ok: "reads_ok pr \<Longrightarrow> read_file pr fs path = fs path"
  by (cases "fs path") (simp_all add: read_file_def reads_ok_def Let_def)

lemma read_file_some: "read_file pr fs path = Some buf \<Longrightarrow> fs path = Some buf"
  by (auto simp: read_file_def Let_def split: option.splits if_splits)

lemma write_file_ok: "write_file pr fs path buf = (True, fs') \<Longrightarrow> fs' = fs(path \<mapsto> buf)"
  by (auto simp: write_file_def Let_def split: if_splits)

lemma write_files_ok:
  "write_files pr fs p1 b1 p2 b2 = (True, fs') \<Longrightarrow> fs' = fs(p1 \<mapsto> b1, p2 \<mapsto> b2)"
  by (auto simp: write_files_def split: if_splits prod.splits dest!: write_file_ok)

subsection \<open>The signer's command\<close>

lemma sign_needs_leaf: "blind_signer_sign P key com c = Some (key', Some sig, c') \<Longrightarrow> bk_next_leaf key < push_bit (nat (bk_height key)) 1"
  by (auto simp: blind_signer_sign_def split: if_splits)

lemma sign_key:
  assumes "blind_signer_sign P key com c = Some (key', Some sig, c')"
  shows "\<exists>t. key' = key\<lparr>bk_tree := t, bk_next_leaf := bk_next_leaf key + 1\<rparr>"
proof -
  obtain t where "key' = key\<lparr>bk_tree := Some t, bk_next_leaf := bk_next_leaf key + 1\<rparr>"
    using assms unfolding blind_signer_sign_def Let_def by (auto split: if_splits option.splits)
  then show ?thesis by blast
qed

lemma key_file_signs:
  assumes "blind_read_signer_key buf = Some key" "blind_signer_sign P key com c = Some (key', Some sig, c')"
  shows "signer_ok P key" "bk_tree key = None"
proof -
  have key: "key_wf key" "bk_tree key = None" using write_read_key [OF assms(1)] by blast+
  have "nat (bk_height key) \<le> 32" using key by (auto simp: key_wf_def xmss_sizes)
  then have "unat (bk_next_leaf key) \<le> 2 ^ nat (bk_height key)"
    using sign_needs_leaf [OF assms(2)] unat_one_shift [of "nat (bk_height key)"] by (simp add: word_less_nat_alt)
  with key show "signer_ok P key" "bk_tree key = None" by (simp_all add: signer_ok_def)
qed

text \<open>C19. When the command that signs exits with 0, the signature file holds a signature on the
  commitment file under the root of the key's seeds, on the leaf the key file named before,
  and the key file now names the next leaf; no other file has changed.\<close>

theorem cli_sign_advances_key:
  assumes "short_dir dir" "cmd_sign pr dir (fs, c) = Some (0, fs', c')"
  shows "\<exists>key com sig.
    fs (path_of dir ''signer_key.bin'') = Some (blind_write_signer_key key)
    \<and> fs (path_of dir ''commitment.bin'') = Some com
    \<and> fs' = fs(path_of dir ''xmss_sig.bin'' \<mapsto> xmss_write_sig sig,
              path_of dir ''signer_key.bin'' \<mapsto> blind_write_signer_key (key\<lparr>bk_next_leaf := bk_next_leaf key + 1\<rparr>))
    \<and> unat (xs_leaf_index sig) = unat (bk_next_leaf key) \<and> unat (bk_next_leaf key) < 2 ^ nat (bk_height key)
    \<and> xmss_verify (pr_platform pr) (bk_pk_seed key) (signer_root (pr_platform pr) key) (hm_digest (b3 (pr_platform pr)) com) sig"
proof -
  let ?P = "pr_platform pr"
  obtain key_buf com key key1 sig c1 where
    key: "read_file pr fs (path_of dir ''signer_key.bin'') = Some key_buf" "blind_read_signer_key key_buf = Some key"
    and com: "read_file pr fs (path_of dir ''commitment.bin'') = Some com"
    and sign: "blind_signer_sign ?P key com c = Some (key1, Some sig, c1)"
    and w: "write_files pr fs (path_of dir ''xmss_sig.bin'') (xmss_write_sig sig) (path_of dir ''signer_key.bin'') (blind_write_signer_key key1)
      = (True, fs')"
    using assms(2) by (auto simp: cmd_sign_def Let_def split: option.splits if_splits prod.splits)
  note ok = key_file_signs [OF key(2) sign]
  note s = signer_sign_ok [OF ok(1) sign]
  obtain t where "key1 = key\<lparr>bk_tree := t, bk_next_leaf := bk_next_leaf key + 1\<rparr>"
    using sign_key [OF sign] by blast
  then have "blind_write_signer_key key1 = blind_write_signer_key (key\<lparr>bk_next_leaf := bk_next_leaf key + 1\<rparr>)"
    by (simp add: blind_write_signer_key_def)
  moreover have "key_buf = blind_write_signer_key key" using write_read_key [OF key(2)] by simp
  ultimately show ?thesis
    using read_file_some [OF key(1)] read_file_some [OF com] write_files_ok [OF w] s(6)
    by (intro exI [of _ key] exI [of _ com] exI [of _ sig]) simp
qed

text \<open>A process in which every call succeeds, the file system of a signer about to sign, and
  the same process without permission to write the key file.\<close>

definition sample_process :: process where
  "sample_process = \<lparr>pr_platform = sample_platform, pr_params = sample_params, pr_threads = 2, pr_mem1 = sample_scratch,
     pr_mem2 = sample_scratch, pr_junk = replicate 99 0,
     pr_io = \<lparr>io_fopen_r = \<lambda>p. True, io_fseek = \<lambda>p. True, io_ftell = \<lambda>p. True, io_fread = \<lambda>p. True, io_fopen_w = \<lambda>p. True,
       io_fwrite = \<lambda>p. True, io_fclose = \<lambda>p. True, io_partial = \<lambda>p buf. []\<rparr>\<rparr>"

definition sample_readonly_key :: process where
  "sample_readonly_key = sample_process\<lparr>pr_io := (pr_io sample_process)\<lparr>io_fopen_w := \<lambda>p. p \<noteq> path_of ''.'' ''signer_key.bin''\<rparr>\<rparr>"

definition sample_key :: blind_signer_key where
  "sample_key = \<lparr>bk_sk_seed = replicate 32 7, bk_pk_seed = replicate 16 5, bk_height = 2, bk_next_leaf = 1, bk_tree = None\<rparr>"

definition sample_files :: files where
  "sample_files = Map.empty(path_of ''.'' ''signer_key.bin'' \<mapsto> blind_write_signer_key sample_key,
     path_of ''.'' ''commitment.bin'' \<mapsto> replicate HM_COM_BYTES 9)"

lemma sample_reads: "reads_ok sample_process" "reads_ok sample_readonly_key"
  by (simp_all add: reads_ok_def sample_process_def sample_readonly_key_def)

lemma sample_pr:
  "pr_platform sample_process = sample_platform" "io_fopen_w (pr_io sample_process) p" "io_fwrite (pr_io sample_process) p"
  "io_fclose (pr_io sample_process) p"
  by (simp_all add: sample_process_def)

lemma sample_key_ok: "key_wf sample_key" "signer_ok sample_platform sample_key" "bk_tree sample_key = None" "bk_next_leaf sample_key = 1"
  by (simp_all add: sample_key_def signer_ok_def key_wf_def blind_sizes xmss_sizes)

lemma sample_dot: "short_dir ''.''"
  by (simp add: short_dir_def)

lemma sample_signs:
  "\<exists>key' sig c'. blind_signer_sign sample_platform sample_key (replicate HM_COM_BYTES 9) 0 = Some (key', Some sig, c')"
  by (rule sample_sign [OF sample_key_ok(2)]) (simp add: sample_key_def)

lemma sample_file_simps:
  "sample_files (path_of ''.'' ''signer_key.bin'') = Some (blind_write_signer_key sample_key)"
  "sample_files (path_of ''.'' ''commitment.bin'') = Some (replicate HM_COM_BYTES 9)"
  by (simp_all add: sample_files_def path_of_def)

theorem cli_sign_advances_key_witness:
  "\<exists>fs' c'. cmd_sign sample_process ''.'' (sample_files, 0) = Some (0, fs', c')
     \<and> (\<exists>key sig. fs' = sample_files(path_of ''.'' ''xmss_sig.bin'' \<mapsto> xmss_write_sig sig,
           path_of ''.'' ''signer_key.bin'' \<mapsto> blind_write_signer_key (key\<lparr>bk_next_leaf := bk_next_leaf key + 1\<rparr>)))"
proof -
  obtain key' sig c' where "blind_signer_sign sample_platform sample_key (replicate HM_COM_BYTES 9) 0 = Some (key', Some sig, c')"
    using sample_signs by blast
  then have "\<exists>fs' c'. cmd_sign sample_process ''.'' (sample_files, 0) = Some (0, fs', c')"
    using sk.dec_enc [of sample_key] sample_key_ok
    by (simp add: cmd_sign_def Let_def read_file_ok [OF sample_reads(1)] sample_file_simps write_files_def write_file_def sample_pr)
  then obtain fs' c' where run: "cmd_sign sample_process ''.'' (sample_files, 0) = Some (0, fs', c')" by blast
  from cli_sign_advances_key [OF sample_dot run] run show ?thesis by blast
qed

text \<open>C18. The command that signs hands out the signature before it saves the key: when the
  signature file is written and the key file cannot be opened, it exits with 1, but the
  signature is on disk and the key file still names its leaf, so the next run signs a
  second commitment with the same leaf.\<close>

theorem cli_sign_lost_key_write:
  assumes "short_dir dir" "reads_ok pr" "\<And>p. io_fwrite (pr_io pr) p" "\<And>p. io_fclose (pr_io pr) p"
    and "io_fopen_w (pr_io pr) (path_of dir ''xmss_sig.bin'')" "\<not> io_fopen_w (pr_io pr) (path_of dir ''signer_key.bin'')"
    and "fs (path_of dir ''signer_key.bin'') = Some (blind_write_signer_key key)" "key_wf key" "bk_tree key = None"
    and "fs (path_of dir ''commitment.bin'') = Some com" "length com = HM_COM_BYTES"
    and "blind_signer_sign (pr_platform pr) key com c = Some (key', Some sig, c')"
  shows "cmd_sign pr dir (fs, c) = Some (1, fs(path_of dir ''xmss_sig.bin'' \<mapsto> xmss_write_sig sig), c')
    \<and> (fs(path_of dir ''xmss_sig.bin'' \<mapsto> xmss_write_sig sig)) (path_of dir ''signer_key.bin'') = Some (blind_write_signer_key key)
    \<and> (\<forall>com2 c2 key2 sig2 c3. blind_signer_sign (pr_platform pr) key com2 c2 = Some (key2, Some sig2, c3) \<longrightarrow>
         xs_leaf_index sig2 = xs_leaf_index sig)"
proof -
  let ?P = "pr_platform pr"
  have dec: "blind_read_signer_key (blind_write_signer_key key) = Some key" using sk.dec_enc [of key] assms(8,9) by simp
  have "signer_ok ?P key" by (rule key_file_signs(1) [OF dec assms(12)])
  note leaf = signer_sign_ok(6) [OF this]
  have "\<forall>com2 c2 key2 sig2 c3. blind_signer_sign ?P key com2 c2 = Some (key2, Some sig2, c3) \<longrightarrow> xs_leaf_index sig2 = xs_leaf_index sig"
    using leaf [OF assms(12)] leaf by (metis word_unat_eq_iff)
  moreover have "cmd_sign pr dir (fs, c) = Some (1, fs(path_of dir ''xmss_sig.bin'' \<mapsto> xmss_write_sig sig), c')"
    using assms dec by (simp add: cmd_sign_def Let_def read_file_ok write_files_def write_file_def)
  moreover have "path_of dir ''signer_key.bin'' \<noteq> path_of dir ''xmss_sig.bin''"
    using path_of_inject [OF assms(1), of "''signer_key.bin''" "''xmss_sig.bin''"] by simp
  ultimately show ?thesis using assms(7) by simp
qed

theorem cli_sign_lost_key_write_witness:
  "\<exists>sig c'. cmd_sign sample_readonly_key ''.'' (sample_files, 0) =
     Some (1, sample_files(path_of ''.'' ''xmss_sig.bin'' \<mapsto> xmss_write_sig sig), c')"
proof -
  obtain key' sig c' where "blind_signer_sign (pr_platform sample_readonly_key) sample_key (replicate HM_COM_BYTES 9) 0 = Some (key', Some sig, c')"
    using sample_signs by (auto simp: sample_readonly_key_def sample_process_def)
  from cli_sign_lost_key_write [OF sample_dot sample_reads(2) _ _ _ _ sample_file_simps(1) sample_key_ok(1,3) sample_file_simps(2) _ this]
  show ?thesis by (auto simp: sample_readonly_key_def sample_process_def path_of_def)
qed

end
