(* ===== verification/Cli_Run.thy ===== *)
theory Cli_Run
  imports Blind_Correct Cli_Properties
begin







subsection \<open>Each command\<close>






subsection \<open>All five\<close>









end
