(* ===== verification/Blind_Properties.thy ===== *)
theory Blind_Properties
  imports Cli_Run
begin

text \<open>
  The properties of the whole: what the statement means, what the prover answers, and the
  honest run of the protocol, through its functions and through the commands.
\<close>

subsection \<open>The statement\<close>

text \<open>C3. The circuit is the specification: with BLAKE3 behind the hashes, the eight output
  words on a witness are the public output of a root if and only if the witness holds an
  XMSS signature under that root on the digest of the commitment its opening gives for the
  message digest, with a schedule that completes the chains of the signed coordinates.\<close>

theorem statement_is_signature_check:
  assumes "platform_ok P" "b3_chunk_ok (b3 P)" "malloc_ok P 56" "length m_hat = 32" "length w = W_END"
    and "length pk_seed = 16" "length root = 16"
  shows "(\<forall>k<8. statement_outputs m_hat pk_seed w ! k = build_pubout root ! k) \<longleftrightarrow>
    xmss_verify P pk_seed root
      (snd (hm_commit (b3 P) m_hat (segment W_R_OFF HM_R_BYTES w) (segment W_A_OFF HM_A_BYTES w))) (w_sig w) \<and>
    completes (snd (xmss_extract_coords (w_message_hash P m_hat pk_seed w))) w"
  using statement_meaning [OF assms(2) platform_b3_length [OF assms(1)] assms(3-7)]
  by (simp add: output_ok_def w_digest_def)

theorem statement_is_signature_check_witness:
  "(\<forall>k<8. statement_outputs (replicate 32 1) (replicate 16 2) (replicate W_END 3) ! k = build_pubout (replicate 16 4) ! k) \<longleftrightarrow>
    xmss_verify chunk_platform (replicate 16 2) (replicate 16 4)
      (snd (hm_commit (b3 chunk_platform) (replicate 32 1) (segment W_R_OFF HM_R_BYTES (replicate W_END 3))
         (segment W_A_OFF HM_A_BYTES (replicate W_END 3)))) (w_sig (replicate W_END 3)) \<and>
    completes (snd (xmss_extract_coords (w_message_hash chunk_platform (replicate 32 1) (replicate 16 2) (replicate W_END 3)))) (replicate W_END 3)"
  by (rule statement_is_signature_check [OF chunk_platform_ok chunk_b3_ok]) simp_all

text \<open>C21. The schedule builder succeeds exactly when the message hash passes the target-sum
  encoding; it then changes nothing but the schedule, which names only existing chains and
  completes every one of them.\<close>

theorem build_schedule_exact:
  assumes "length input = W_END"
  shows "(kkw_build_schedule P input m_hat pk_seed \<noteq> None \<longleftrightarrow>
      nonce_accepted P pk_seed (w_epoch input) (w_digest P m_hat input) (w_nonce input))
    \<and> (\<forall>out. kkw_build_schedule P input m_hat pk_seed = Some out \<longrightarrow>
        length out = W_END \<and> take W_SCHEDULE_OFF out = take W_SCHEDULE_OFF input \<and>
        completes (snd (xmss_extract_coords (w_message_hash P m_hat pk_seed input))) out)"
  using built_schedule [OF assms, of P m_hat pk_seed]
    build_schedule_eq [OF assms refl, of P m_hat pk_seed] by (auto simp: nonce_accepted_def w_message_hash_def Let_def)

theorem build_schedule_exact_witness:
  "\<exists>out. kkw_build_schedule sample_platform (replicate W_END 0) [] (replicate 16 5) = Some out
     \<and> completes (snd (xmss_extract_coords (w_message_hash sample_platform [] (replicate 16 5) (replicate W_END 0)))) out"
proof -
  have "length (replicate W_END 0 :: bytes) = W_END" by simp
  note exact = build_schedule_exact [OF this, of sample_platform "[]" "replicate 16 5"]
  have "kkw_build_schedule sample_platform (replicate W_END 0) [] (replicate 16 5) \<noteq> None"
    using exact sample_accepted [of "replicate 16 5"] by simp
  then show ?thesis using exact by blast
qed

subsection \<open>The protocol\<close>








end
