(* ===== verification/Keccak.thy ===== *)
theory Keccak
  imports Prelude
begin

text \<open>
  \<^verbatim>\<open>src/voleith/src/keccak_constraints.hpp\<close>: one round of Keccak-f[1600] and its inverse, as
  templates over authenticated bits. The field operations the templates use are the
  record \<open>lane_ops\<close>; the array of 1600 elements is the list of its 25 lanes of 64, lane
  \<open>5 * x + y\<close> being what \<open>get_lane(state, x, y)\<close> points at. Degrees are template bounds
  without a run-time trace and are left out.
\<close>

record 'q lane_ops =
  k_add :: "'q \<Rightarrow> 'q \<Rightarrow> 'q"
  k_mul :: "'q \<Rightarrow> 'q \<Rightarrow> 'q"
  k_const :: "bool \<Rightarrow> 'q"

type_synonym 'q lanes = "'q list list"

definition VOLEKECCAK_W :: nat where "VOLEKECCAK_W = 64"

definition ROTATION_OFFSET :: "nat list" where
  "ROTATION_OFFSET = [0, 36, 3, 41, 18, 1, 44, 10, 45, 2, 62, 6, 43,
                      15, 61, 28, 55, 25, 21, 56, 27, 20, 39, 8, 14]"

definition ROUND_CONST :: "u64 list" where
  "ROUND_CONST = [
     0x0000000000000001, 0x0000000000008082, 0x800000000000808A, 0x8000000080008000,
     0x000000000000808B, 0x0000000080000001, 0x8000000080008081, 0x8000000000008009,
     0x000000000000008A, 0x0000000000000088, 0x0000000080008009, 0x000000008000000A,
     0x000000008000808B, 0x800000000000008B, 0x8000000000008089, 0x8000000000008003,
     0x8000000000008002, 0x8000000000000080, 0x000000000000800A, 0x800000008000000A,
     0x8000000080008081, 0x8000000000008080, 0x0000000080000001, 0x8000000080008008]"

subsection \<open>Lanes\<close>

definition get_lane :: "'q lanes \<Rightarrow> nat \<Rightarrow> nat \<Rightarrow> 'q list" where
  "get_lane st x y = st ! (x * 5 + y)"

definition add_lane :: "'q lane_ops \<Rightarrow> 'q list \<Rightarrow> 'q list \<Rightarrow> 'q list" where
  "add_lane K a b = map (\<lambda>i. k_add K (a ! i) (b ! i)) [0..<VOLEKECCAK_W]"

definition mul_lane :: "'q lane_ops \<Rightarrow> 'q list \<Rightarrow> 'q list \<Rightarrow> 'q list" where
  "mul_lane K a b = map (\<lambda>i. k_mul K (a ! i) (b ! i)) [0..<VOLEKECCAK_W]"

text \<open>Element \<open>i\<close> goes to \<open>(i + shift) mod 64\<close>.\<close>

definition rot_lane :: "'q list \<Rightarrow> nat \<Rightarrow> 'q list" where
  "rot_lane lane shift =
     map (\<lambda>j. lane ! ((j + (VOLEKECCAK_W - shift mod VOLEKECCAK_W)) mod VOLEKECCAK_W)) [0..<VOLEKECCAK_W]"

text \<open>The bits of a round constant, read from its eight little-endian bytes.\<close>

definition load_const_1_bit_and_combine :: "'q lane_ops \<Rightarrow> byte \<Rightarrow> nat \<Rightarrow> 'q" where
  "load_const_1_bit_and_combine K data i = k_const K (bit data i)"

definition round_const_lane :: "'q lane_ops \<Rightarrow> nat \<Rightarrow> 'q list" where
  "round_const_lane K round_idx =
     (let rc_bytes = bytes_le 8 (ROUND_CONST ! round_idx)
      in map (\<lambda>i. load_const_1_bit_and_combine K (rc_bytes ! (i div 8)) (i mod 8)) [0..<VOLEKECCAK_W])"

text \<open>The row and column pairs in the order of the nested loops.\<close>

definition lane_pairs :: "(nat \<times> nat) list" where
  "lane_pairs = List.product [0..<5] [0..<5]"

subsection \<open>A round forwards\<close>

definition forward_C :: "'q lane_ops \<Rightarrow> 'q lanes \<Rightarrow> 'q lanes" where
  "forward_C K st = map (\<lambda>x.
     let c = add_lane K (get_lane st 0 x) (get_lane st 1 x);
         c = add_lane K c (get_lane st 2 x);
         c = add_lane K c (get_lane st 3 x)
     in add_lane K c (get_lane st 4 x)) [0..<5]"

definition forward_D :: "'q lane_ops \<Rightarrow> 'q lanes \<Rightarrow> 'q lanes" where
  "forward_D K C = map (\<lambda>x. add_lane K (get_lane C 0 ((x + 4) mod 5)) (rot_lane (get_lane C 0 ((x + 1) mod 5)) 1)) [0..<5]"

definition forward_theta :: "'q lane_ops \<Rightarrow> 'q lanes \<Rightarrow> 'q lanes" where
  "forward_theta K st =
     (let D = forward_D K (forward_C K st)
      in fold (\<lambda>(x, y) st.
           let yidx = (x * 3 + y) mod 5; xidx = y
           in st[xidx * 5 + yidx := add_lane K (get_lane st xidx yidx) (get_lane D 0 yidx)]) lane_pairs st)"

definition forward_B :: "'q lanes \<Rightarrow> 'q lanes" where
  "forward_B st = map (\<lambda>(x, y).
     let yidx = (x * 3 + y) mod 5; xidx = y
     in rot_lane (get_lane st xidx yidx) (ROTATION_OFFSET ! ((x * 3 * 5 + xidx * 5 + y) mod 25))) lane_pairs"

text \<open>\<open>out\<close> is what the output array holds before the call: the lanes from \<open>output_bits\<close> on
  are not written.\<close>

definition keccak_forward :: "'q lane_ops \<Rightarrow> nat \<Rightarrow> 'q lanes \<Rightarrow> 'q lanes \<Rightarrow> nat \<Rightarrow> 'q lanes" where
  "keccak_forward K round_idx st out output_bits =
     (let B = forward_B (forward_theta K st);
          neg_one = map (\<lambda>i. load_const_1_bit_and_combine K 1 0) [0..<VOLEKECCAK_W];
          out = map (\<lambda>(x, y).
            if (x * 5 + y) * 64 \<ge> output_bits then get_lane out x y
            else let neg_B = add_lane K (get_lane B x ((y + 1) mod 5)) neg_one
                 in mul_lane K neg_B (get_lane B x ((y + 2) mod 5))) lane_pairs;
          out = map (\<lambda>(x, y).
            if (x * 5 + y) * 64 \<ge> output_bits then get_lane out x y
            else add_lane K (get_lane out x y) (get_lane B x y)) lane_pairs
      in out[0 := add_lane K (get_lane out 0 0) (round_const_lane K round_idx)])"

subsection \<open>A round backwards\<close>

text \<open>The loop over the powers, on the five parity lanes.\<close>

definition theta_pass :: "('q \<Rightarrow> 'q \<Rightarrow> 'q) \<Rightarrow> nat \<Rightarrow> 'q lanes \<Rightarrow> 'q lanes" where
  "theta_pass add pw parity =
     (let shift = pw mod 5; rotation = pw mod 64
      in map (\<lambda>x. map (\<lambda>z. add (add (parity ! x ! z) (parity ! ((x + 5 - shift) mod 5) ! z))
                              (parity ! ((x + shift) mod 5) ! ((z + 64 - rotation) mod 64))) [0..<64]) [0..<5])"

definition inverse_theta :: "('q \<Rightarrow> 'q \<Rightarrow> 'q) \<Rightarrow> 'q lanes \<Rightarrow> 'q lanes" where
  "inverse_theta add st =
     (let parity = map (\<lambda>x. map (\<lambda>z. fold (\<lambda>y c. add c (st ! (y * 5 + x) ! z)) [1..<5] (st ! x ! z)) [0..<64]) [0..<5];
          parity = fold (theta_pass add) [1, 2, 4, 8, 16, 32, 128] parity
      in map (\<lambda>(y, x). map (\<lambda>z.
             let d = add (parity ! ((x + 4) mod 5) ! z) (parity ! ((x + 1) mod 5) ! ((z + 63) mod 64))
             in add (st ! (y * 5 + x) ! z) d) [0..<64]) lane_pairs)"

text \<open>The rows of the inverse of chi: per output lane three lanes added, then three
  quadratic products and one cubic one.\<close>

definition chi_sum :: "'q lane_ops \<Rightarrow> 'q lanes \<Rightarrow> nat \<Rightarrow> nat \<times> nat \<times> nat \<Rightarrow> (nat \<times> nat) list \<Rightarrow> nat \<times> nat \<times> nat \<Rightarrow> 'q list" where
  "chi_sum K st y lin quad cub =
     (let (l0, l1, l2) = lin;
          (c0, c1, c2) = cub;
          muldeg2 = map (\<lambda>(i, j). mul_lane K (get_lane st y i) (get_lane st y j)) quad;
          muldeg3 = mul_lane K (mul_lane K (get_lane st y c0) (get_lane st y c1)) (get_lane st y c2);
          out = add_lane K (get_lane st y l0) (get_lane st y l1);
          out = add_lane K out (get_lane st y l2);
          out = fold (\<lambda>p out. add_lane K out p) muldeg2 out
      in add_lane K out muldeg3)"

definition inverse_chi_row :: "'q lane_ops \<Rightarrow> 'q lanes \<Rightarrow> nat \<Rightarrow> 'q lanes" where
  "inverse_chi_row K st y =
     [chi_sum K st y (0, 2, 4) [(1, 2), (1, 4), (3, 4)] (1, 3, 4),
      chi_sum K st y (0, 1, 3) [(0, 2), (0, 4), (2, 3)] (0, 2, 4),
      chi_sum K st y (1, 2, 4) [(0, 1), (1, 3), (3, 4)] (0, 1, 3),
      chi_sum K st y (0, 2, 3) [(0, 4), (1, 2), (2, 4)] (1, 2, 4),
      chi_sum K st y (1, 3, 4) [(0, 1), (0, 3), (2, 3)] (0, 2, 3)]"

definition backward_unrotate :: "'q lanes \<Rightarrow> 'q lanes" where
  "backward_unrotate tmp =
     fold (\<lambda>(x, y) out.
        let yidx = (x * 3 + y) mod 5; xidx = y
        in out[xidx * 5 + yidx :=
             rot_lane (get_lane tmp x y) (VOLEKECCAK_W - ROTATION_OFFSET ! ((x * 3 * 5 + y * 5 + y) mod 25))])
       lane_pairs tmp"

definition keccak_backward :: "'q lane_ops \<Rightarrow> nat \<Rightarrow> 'q lanes \<Rightarrow> 'q lanes" where
  "keccak_backward K round_idx st =
     (let st = st[0 := add_lane K (get_lane st 0 0) (round_const_lane K round_idx)];
          out = concat (map (inverse_chi_row K st) [0..<5])
      in inverse_theta (k_add K) (backward_unrotate out))"

end
