(* ===== verification/Vole_Hash.thy ===== *)
theory Vole_Hash
  imports Commitment Platform
begin

text \<open>
  The second implementation, \<^verbatim>\<open>src/voleith/src/native\<close>: its hash functions (\<^verbatim>\<open>hash.c\<close>), its
  reader of the system's entropy (\<^verbatim>\<open>randombytes.c\<close>) and its commitment (\<^verbatim>\<open>commitment.c\<close>).
  \<^verbatim>\<open>gf128.c\<close> is the file of theory \<open>Gf128\<close> again, so its functions are used from there.

  The XKCP library is not part of the repository: SHAKE256 is the parameter \<open>shake256\<close>, a
  function of the absorbed bytes and the output length. A \<open>Keccak_HashInstance\<close> is the bytes
  absorbed so far, the documented behaviour of its update, final and squeeze calls.
\<close>

record vole =
  shake256 :: "bytes \<Rightarrow> nat \<Rightarrow> bytes"
  vole_malloc_ok :: "nat \<Rightarrow> bool"
  vole_getentropy :: "rng \<Rightarrow> nat \<Rightarrow> bytes option"

text \<open>Documented behaviour: outputs have the requested length.\<close>

definition vole_ok :: "vole \<Rightarrow> bool" where
  "vole_ok V \<longleftrightarrow> (\<forall>bs n. length (shake256 V bs n) = n) \<and>
     (\<forall>c n bs. vole_getentropy V c n = Some bs \<longrightarrow> length bs = n)"

lemma length_shake256 [lens]: "vole_ok V \<Longrightarrow> length (shake256 V bs n) = n"
  by (simp add: vole_ok_def)

subsection \<open>Hashes\<close>

type_synonym keccak_instance = bytes

definition keccak_absorb :: "keccak_instance \<Rightarrow> bytes \<Rightarrow> keccak_instance" where
  "keccak_absorb h p = (if p \<noteq> [] then h @ p else h)"

definition keccak_squeeze :: "(bytes \<Rightarrow> nat \<Rightarrow> bytes) \<Rightarrow> keccak_instance \<Rightarrow> nat \<Rightarrow> bytes" where
  "keccak_squeeze S h n = S h n"

definition SHAKE_APP_PREFIX :: bytes where "SHAKE_APP_PREFIX = ascii ''HBS-VOLE-v1''"
definition SHAKE_PRG_WOTS :: byte where "SHAKE_PRG_WOTS = 1"
definition SHAKE_PRG_UPPER :: byte where "SHAKE_PRG_UPPER = 2"

definition shake256_raw :: "(bytes \<Rightarrow> nat \<Rightarrow> bytes) \<Rightarrow> bytes \<Rightarrow> nat \<Rightarrow> bytes" where
  "shake256_raw S data out_len = keccak_squeeze S (keccak_absorb [] data) out_len"

text \<open>\<open>None\<close> is the call of \<open>abort\<close>.\<close>

definition shake_th :: "(bytes \<Rightarrow> nat \<Rightarrow> bytes) \<Rightarrow> bytes \<Rightarrow> bytes \<Rightarrow> nat \<Rightarrow> bytes option" where
  "shake_th S domain data out_len =
     (if length domain > 255 then None
      else let n = of_nat (length domain) :: byte;
               h = keccak_absorb [] SHAKE_APP_PREFIX;
               h = keccak_absorb h [n];
               h = keccak_absorb h domain;
               h = keccak_absorb h data
           in Some (keccak_squeeze S h out_len))"

text \<open>A call whose domain is known to be short enough, as every domain of the code is.\<close>

definition shake_th_into :: "(bytes \<Rightarrow> nat \<Rightarrow> bytes) \<Rightarrow> bytes \<Rightarrow> bytes \<Rightarrow> nat \<Rightarrow> bytes" where
  "shake_th_into S domain data out_len =
     (case shake_th S domain data out_len of None \<Rightarrow> [] | Some out \<Rightarrow> out)"

definition shake_keyed_xof ::
  "(bytes \<Rightarrow> nat \<Rightarrow> bytes) \<Rightarrow> bytes \<Rightarrow> byte \<Rightarrow> bytes \<Rightarrow> nat \<Rightarrow> bytes" where
  "shake_keyed_xof S key domain data out_len =
     (let h = keccak_absorb [] (ascii ''HBS-VOLE-PRF-v1'');
          h = keccak_absorb h [domain];
          h = keccak_absorb h key;
          h = keccak_absorb h data
      in keccak_squeeze S h out_len)"

text \<open>The framed preimages.\<close>

definition shake_frame :: "bytes \<Rightarrow> bytes \<Rightarrow> bytes" where
  "shake_frame domain data = SHAKE_APP_PREFIX @ [of_nat (length domain)] @ domain @ data"

lemma keccak_absorb_eq [simp]: "keccak_absorb h p = h @ p"
  by (simp add: keccak_absorb_def)

lemma shake_th_eq: "shake_th S domain data n =
    (if length domain \<le> 255 then Some (S (shake_frame domain data) n) else None)"
  by (simp add: shake_th_def shake_frame_def keccak_squeeze_def Let_def)

lemma shake_th_into_eq: "length domain \<le> 255 \<Longrightarrow> shake_th_into S domain data n = S (shake_frame domain data) n"
  by (simp add: shake_th_into_def shake_th_eq)

lemma shake_keyed_xof_eq: "shake_keyed_xof S key d data n = S (ascii ''HBS-VOLE-PRF-v1'' @ [d] @ key @ data) n"
  by (simp add: shake_keyed_xof_def keccak_squeeze_def Let_def)

lemma length_shake_th_into [lens]:
  "vole_ok V \<Longrightarrow> length domain \<le> 255 \<Longrightarrow> length (shake_th_into (shake256 V) domain data n) = n"
  by (simp add: shake_th_into_eq length_shake256)

subsection \<open>Entropy\<close>

definition VOLEITH_GETENTROPY_MAX :: nat where "VOLEITH_GETENTROPY_MAX = 256"

function v_randombytes_loop :: "vole \<Rightarrow> nat \<Rightarrow> bytes \<Rightarrow> rng \<Rightarrow> bytes option \<times> rng" where
  "v_randombytes_loop V n out c =
     (if n = 0 then (Some out, c)
      else let chunk = (if n < VOLEITH_GETENTROPY_MAX then n else VOLEITH_GETENTROPY_MAX)
           in case vole_getentropy V c chunk of
                None \<Rightarrow> (None, Suc c)
              | Some bs \<Rightarrow> v_randombytes_loop V (n - chunk) (out @ bs) (Suc c))"
  by pat_completeness auto
termination
  by (relation "measure (\<lambda>(V, n, out, c). n)") (auto simp: VOLEITH_GETENTROPY_MAX_def)

declare v_randombytes_loop.simps [simp del]

definition v_randombytes_fill ::
  "vole \<Rightarrow> bytes option \<Rightarrow> nat \<Rightarrow> rng \<Rightarrow> (bool \<times> bytes option) \<times> rng" where
  "v_randombytes_fill V buffer n c =
     (case buffer of
        None \<Rightarrow> if n \<noteq> 0 then ((False, None), c) else ((True, None), c)
      | Some buf \<Rightarrow>
          (case v_randombytes_loop V n [] c of
             (None, c') \<Rightarrow> ((False, Some (replicate n 0 @ drop n buf)), c')
           | (Some out, c') \<Rightarrow> ((True, Some (out @ drop n buf)), c')))"

text \<open>A call on a buffer of exactly \<open>n\<close> bytes, as every caller makes it.\<close>

definition v_random_bytes :: "vole \<Rightarrow> nat \<Rightarrow> rng \<Rightarrow> bytes option \<times> rng" where
  "v_random_bytes V n c =
     (case v_randombytes_fill V (Some (replicate n 0)) n c of
        ((ok, out), c') \<Rightarrow> (if ok then out else None, c'))"

subsection \<open>Commitment\<close>

definition v_hm_y :: "vole \<Rightarrow> bytes \<Rightarrow> bytes" where
  "v_hm_y V r = shake_th_into (shake256 V) HM_DOM_Y r HM_Y_BYTES"

definition v_hm_digest :: "vole \<Rightarrow> bytes \<Rightarrow> bytes" where
  "v_hm_digest V com = shake_th_into (shake256 V) HM_DOM_D com 32"

definition v_hm_commit :: "vole \<Rightarrow> bytes \<Rightarrow> bytes \<Rightarrow> bytes \<Rightarrow> bytes \<times> bytes" where
  "v_hm_commit V m_hat r a =
     (let y = v_hm_y V r;
          b = hm_lines m_hat a r;
          com = hm_commitment a b y
      in (com, v_hm_digest V com))"

subsection \<open>The first implementation with another hash\<close>

text \<open>
  The two native libraries differ only in their hash: \<open>kkw_view V\<close> is a platform of the
  first implementation whose BLAKE3 answers a framed preimage with the SHAKE256 value of
  the second implementation's frame, so what is proved of the first for every platform
  holds of the second.
\<close>

definition vole_b3 :: "(bytes \<Rightarrow> nat \<Rightarrow> bytes) \<Rightarrow> b3" where
  "vole_b3 S m bs n = (case m of
     Derive_key ctx \<Rightarrow> S (SHAKE_APP_PREFIX @ [ucast (load_le (take 4 bs) :: u32)] @ drop 4 bs) n
   | Keyed key \<Rightarrow>
       (let w = xof_frame BLAKE3_XOF_DOM_XMSS_WOTS_SK []; u = xof_frame BLAKE3_XOF_DOM_XMSS_UPPER []
        in if take (length w) bs = w then shake_keyed_xof S key SHAKE_PRG_WOTS (drop (length w) bs) n
           else shake_keyed_xof S key SHAKE_PRG_UPPER (drop (length u) bs) n))"

definition kkw_view :: "vole \<Rightarrow> platform" where
  "kkw_view V = \<lparr>b3 = vole_b3 (shake256 V), malloc_ok = vole_malloc_ok V,
     getentropy = vole_getentropy V, fwrite_ok = (\<lambda>n. True)\<rparr>"

lemma kkw_view_simps [simp]:
  "b3 (kkw_view V) = vole_b3 (shake256 V)" "malloc_ok (kkw_view V) = vole_malloc_ok V"
  "getentropy (kkw_view V) = vole_getentropy V"
  by (simp_all add: kkw_view_def)

lemma kkw_view_ok: "vole_ok V \<Longrightarrow> platform_ok (kkw_view V)"
  by (auto simp: vole_ok_def platform_ok_def b3_length_def vole_b3_def shake_keyed_xof_eq Let_def
      split: b3_mode.split)

lemma kkw_view_length: "vole_ok V \<Longrightarrow> b3_length (vole_b3 (shake256 V))"
  using platform_b3_length [OF kkw_view_ok] by simp

lemma vole_th:
  assumes "vole_ok V" "length domain \<le> BLAKE3_TH_MAX_DOMAIN" "n \<le> BLAKE3_OUT_LEN"
  shows "blake3_th_into (vole_b3 (shake256 V)) domain data n = shake_th_into (shake256 V) domain data n"
proof -
  have "(ucast (of_nat (length domain) :: u32) :: byte) = of_nat (length domain)"
    using assms(2) by (simp add: unsigned_of_nat BLAKE3_TH_MAX_DOMAIN_def take_bit_nat_eq_self)
  then show ?thesis
    using assms by (simp add: blake3_th_into_eq kkw_view_length th_def th_frame_def vole_b3_def shake_th_into_eq
        shake_frame_def BLAKE3_TH_FRAME_LEN_def BLAKE3_TH_MAX_DOMAIN_def load_le_bytes_le)
qed

lemma vole_xof_wots:
  "blake3_keyed_xof (vole_b3 S) key BLAKE3_XOF_DOM_XMSS_WOTS_SK data n = shake_keyed_xof S key SHAKE_PRG_WOTS data n"
  by (simp add: blake3_keyed_xof_frame vole_b3_def Let_def) (simp add: xof_frame_def)

lemma nth_xof_frame: "xof_frame d x ! length xof_framing = ucast (of_nat (length d) :: u64)"
  using nth_bytes_le [of 0 8 "of_nat (length d) :: u64"] by (simp add: xof_frame_def nth_append)

lemma xof_upper_differs:
  "take (length (xof_frame BLAKE3_XOF_DOM_XMSS_WOTS_SK [])) (xof_frame BLAKE3_XOF_DOM_XMSS_UPPER x)
     \<noteq> xof_frame BLAKE3_XOF_DOM_XMSS_WOTS_SK []"
proof
  assume *: "take (length (xof_frame BLAKE3_XOF_DOM_XMSS_WOTS_SK [])) (xof_frame BLAKE3_XOF_DOM_XMSS_UPPER x)
      = xof_frame BLAKE3_XOF_DOM_XMSS_WOTS_SK []"
  have "length xof_framing < length (xof_frame BLAKE3_XOF_DOM_XMSS_WOTS_SK [])" by (simp add: xof_frame_def)
  then have "xof_frame BLAKE3_XOF_DOM_XMSS_UPPER x ! length xof_framing
      = xof_frame BLAKE3_XOF_DOM_XMSS_WOTS_SK [] ! length xof_framing"
    using arg_cong [OF *, of "\<lambda>l. l ! length xof_framing"] by simp
  then show False
    unfolding nth_xof_frame by (simp add: BLAKE3_XOF_DOM_XMSS_UPPER_def BLAKE3_XOF_DOM_XMSS_WOTS_SK_def)
qed

lemma vole_xof_upper:
  "blake3_keyed_xof (vole_b3 S) key BLAKE3_XOF_DOM_XMSS_UPPER data n = shake_keyed_xof S key SHAKE_PRG_UPPER data n"
  using xof_upper_differs [of data]
  by (simp add: blake3_keyed_xof_frame vole_b3_def Let_def) (simp add: xof_frame_def)

lemma v_randombytes_loop_view: "v_randombytes_loop V n out c = randombytes_loop (kkw_view V) n out c"
proof (induction V n out c rule: v_randombytes_loop.induct)
  case (1 V n out c)
  show ?case
    by (subst v_randombytes_loop.simps, subst randombytes_loop.simps)
       (use 1 in \<open>auto simp: Let_def VOLEITH_GETENTROPY_MAX_def BLIND_MSS_GETENTROPY_MAX_def split: option.split\<close>)
qed

lemma v_random_bytes_view: "v_random_bytes V n c = random_bytes (kkw_view V) n c"
  by (simp add: v_random_bytes_def random_bytes_def v_randombytes_fill_def randombytes_fill_def v_randombytes_loop_view)

lemma v_hm_view:
  assumes "vole_ok V"
  shows "v_hm_y V r = hm_y (b3 (kkw_view V)) r" "v_hm_digest V com = hm_digest (b3 (kkw_view V)) com"
    "v_hm_commit V m_hat r a = hm_commit (b3 (kkw_view V)) m_hat r a"
proof -
  show y: "v_hm_y V r = hm_y (b3 (kkw_view V)) r" and d: "v_hm_digest V com = hm_digest (b3 (kkw_view V)) com" for com
    using assms by (simp_all add: v_hm_y_def hm_y_def v_hm_digest_def hm_digest_def vole_th HM_DOM_Y_def HM_DOM_D_def
        BLAKE3_TH_MAX_DOMAIN_def BLAKE3_OUT_LEN_def HM_Y_BYTES_def)
  show "v_hm_commit V m_hat r a = hm_commit (b3 (kkw_view V)) m_hat r a"
    by (simp add: v_hm_commit_def hm_commit_def Let_def y d)
qed

end
