(* ===== verification/Vole_Xmss.thy ===== *)
theory Vole_Xmss
  imports Vole_Hash Xmss_Properties
begin

text \<open>
  \<^verbatim>\<open>src/voleith/src/native/xmss.c\<close>: the signature of theory \<open>Xmss\<close> over SHAKE256. The types,
  constants and the functions that do not hash (coordinates, capacity, wire format) are
  the same text in both files and are used from \<open>Xmss\<close>; every function that hashes,
  allocates or draws entropy is translated here. The second half shows each of them to be
  the first implementation's on the platform \<open>kkw_view V\<close>, which carries its theorems over.
\<close>

subsection \<open>Hashes\<close>

definition v_xmss_hash_message :: "vole \<Rightarrow> bytes \<Rightarrow> u32 \<Rightarrow> bytes \<Rightarrow> bytes \<Rightarrow> bytes" where
  "v_xmss_hash_message V pk_seed epoch nonce message =
     (let dom = pk_seed @ [XMSS_TWEAK_MESSAGE] @ put_epoch_be epoch
      in if \<not> vole_malloc_ok V (length nonce + length message) then replicate 32 0
         else shake_th_into (shake256 V) dom (nonce @ message) 32)"

definition v_xmss_hash_chain_step ::
  "vole \<Rightarrow> bytes \<Rightarrow> u32 \<Rightarrow> node \<Rightarrow> byte \<Rightarrow> byte \<Rightarrow> node" where
  "v_xmss_hash_chain_step V pk_seed epoch inp chain_idx pos =
     (let dom = inp @ [XMSS_TWEAK_CHAIN];
          data = pk_seed @ put_epoch_be epoch @ [chain_idx, pos]
      in shake_th_into (shake256 V) dom data XMSS_NODE_BYTES)"

definition v_xmss_hash_chain_multi ::
  "vole \<Rightarrow> bytes \<Rightarrow> u32 \<Rightarrow> node \<Rightarrow> byte \<Rightarrow> byte \<Rightarrow> byte \<Rightarrow> node" where
  "v_xmss_hash_chain_multi V pk_seed epoch start chain_idx start_pos steps =
     fold (\<lambda>i cur. let pos = start_pos + of_nat i + 1
                   in v_xmss_hash_chain_step V pk_seed epoch cur chain_idx pos)
          [0..<unat steps] start"

definition v_xmss_hash_tree_node ::
  "vole \<Rightarrow> bytes \<Rightarrow> node \<Rightarrow> node \<Rightarrow> u32 \<Rightarrow> u32 \<Rightarrow> node" where
  "v_xmss_hash_tree_node V pk_seed left right level index =
     (let dom = pk_seed @ [XMSS_TWEAK_TREE, ucast (level AND 0xff)] @ bytes_le 4 index;
          data = left @ right
      in shake_th_into (shake256 V) dom data XMSS_NODE_BYTES)"

definition v_xmss_hash_public_key :: "vole \<Rightarrow> bytes \<Rightarrow> u32 \<Rightarrow> node list \<Rightarrow> node" where
  "v_xmss_hash_public_key V pk_seed epoch pk_hashes =
     (let dom = pk_seed @ [XMSS_TWEAK_LEAF] @ put_epoch_be epoch
      in shake_th_into (shake256 V) dom (concat pk_hashes) XMSS_NODE_BYTES)"

subsection \<open>WOTS\<close>

definition v_xmss_wots_gen_sk :: "vole \<Rightarrow> bytes \<Rightarrow> u32 \<Rightarrow> node list" where
  "v_xmss_wots_gen_sk V sk_seed leaf_index =
     (let leaf_be = bytes_be 4 leaf_index
      in blocks XMSS_NODE_BYTES XMSS_WOTS_LEN
           (shake_keyed_xof (shake256 V) sk_seed SHAKE_PRG_WOTS leaf_be
              (XMSS_NODE_BYTES * XMSS_WOTS_LEN)))"

definition v_xmss_wots_pk_from_sk :: "vole \<Rightarrow> bytes \<Rightarrow> u32 \<Rightarrow> node list \<Rightarrow> node list" where
  "v_xmss_wots_pk_from_sk V pk_seed epoch sk =
     map (\<lambda>i. v_xmss_hash_chain_multi V pk_seed epoch (sk ! i) (of_nat i) 0 (of_nat XMSS_WOTS_MAX_STEPS))
         [0..<XMSS_WOTS_LEN]"

definition v_xmss_wots_sign :: "vole \<Rightarrow> bytes \<Rightarrow> u32 \<Rightarrow> node list \<Rightarrow> byte list \<Rightarrow> node list" where
  "v_xmss_wots_sign V pk_seed epoch sk coords =
     map (\<lambda>i. if coords ! i = 0 then sk ! i
              else v_xmss_hash_chain_multi V pk_seed epoch (sk ! i) (of_nat i) 0 (coords ! i))
         [0..<XMSS_WOTS_LEN]"

definition v_xmss_wots_pk_from_sig :: "vole \<Rightarrow> bytes \<Rightarrow> u32 \<Rightarrow> node list \<Rightarrow> byte list \<Rightarrow> node list" where
  "v_xmss_wots_pk_from_sig V pk_seed epoch sig coords =
     map (\<lambda>i. let remaining = of_nat XMSS_WOTS_MAX_STEPS - coords ! i
              in if remaining = 0 then sig ! i
                 else v_xmss_hash_chain_multi V pk_seed epoch (sig ! i) (of_nat i) (coords ! i) remaining)
         [0..<XMSS_WOTS_LEN]"

subsection \<open>Trees\<close>

definition v_xmss_alloc_levels :: "vole \<Rightarrow> nat \<Rightarrow> bool" where
  "v_xmss_alloc_levels V levels =
     list_all (\<lambda>h. vole_malloc_ok V (2 ^ (levels - h) * XMSS_NODE_BYTES)) [0..<levels + 1]"

definition v_xmss_subtree_leaf :: "vole \<Rightarrow> bytes \<Rightarrow> bytes \<Rightarrow> u32 \<Rightarrow> nat \<Rightarrow> nat \<Rightarrow> node" where
  "v_xmss_subtree_leaf V sk_seed pk_seed s subtree_h j =
     (let base_epoch = push_bit subtree_h (ucast s :: u64);
          epoch = ucast (base_epoch + of_nat j) :: u32;
          sk = v_xmss_wots_gen_sk V sk_seed epoch;
          pk = v_xmss_wots_pk_from_sk V pk_seed epoch sk
      in v_xmss_hash_public_key V pk_seed epoch pk)"

definition v_xmss_build_subtree :: "vole \<Rightarrow> bytes \<Rightarrow> bytes \<Rightarrow> u32 \<Rightarrow> nat \<Rightarrow> node list list" where
  "v_xmss_build_subtree V sk_seed pk_seed s subtree_h =
     fold (\<lambda>h sub.
             let n = 2 ^ (subtree_h - h);
                 base_index = push_bit (subtree_h - h) (ucast s :: u64)
             in sub @ [map (\<lambda>j. v_xmss_hash_tree_node V pk_seed (sub ! (h - 1) ! (2 * j))
                                  (sub ! (h - 1) ! (2 * j + 1)) (of_nat (h - 1))
                                  (ucast (base_index + of_nat j))) [0..<n]])
          [1..<subtree_h + 1]
          [map (v_xmss_subtree_leaf V sk_seed pk_seed s subtree_h) [0..<2 ^ subtree_h]]"

text \<open>\<open>top0\<close> is the bottom level the caller has filled.\<close>

definition v_xmss_build_top :: "vole \<Rightarrow> bytes \<Rightarrow> nat \<Rightarrow> nat \<Rightarrow> node list \<Rightarrow> node list list" where
  "v_xmss_build_top V pk_seed subtree_h top_h top0 =
     fold (\<lambda>r top.
             let n = 2 ^ (top_h - r)
             in top @ [map (\<lambda>i. v_xmss_hash_tree_node V pk_seed (top ! (r - 1) ! (2 * i))
                                  (top ! (r - 1) ! (2 * i + 1)) (of_nat (subtree_h + r - 1))
                                  (of_nat i)) [0..<n]])
          [1..<top_h + 1] [top0]"

definition v_xmss_derive_upper_siblings :: "vole \<Rightarrow> bytes \<Rightarrow> nat \<Rightarrow> node list" where
  "v_xmss_derive_upper_siblings V sk_seed levels =
     (if levels = 0 then []
      else blocks XMSS_NODE_BYTES levels
             (shake_keyed_xof (shake256 V) sk_seed SHAKE_PRG_UPPER [] (XMSS_NODE_BYTES * levels)))"

definition v_xmss_climb_upper :: "vole \<Rightarrow> bytes \<Rightarrow> node \<Rightarrow> nat \<Rightarrow> node list \<Rightarrow> node" where
  "v_xmss_climb_upper V pk_seed real_root height upper =
     fold (\<lambda>i node. v_xmss_hash_tree_node V pk_seed node (upper ! i) (of_nat (height + i)) 0)
          [0..<XMSS_H - height] real_root"

text \<open>The size of the C structure on a 64-bit vole.\<close>

text \<open>The sweep over the bottom subtrees: the top level's leaves and the last subtree built.\<close>

definition v_xmss_sweep :: "vole \<Rightarrow> bytes \<Rightarrow> bytes \<Rightarrow> nat \<Rightarrow> nat \<Rightarrow> node list \<times> node list list" where
  "v_xmss_sweep V sk_seed pk_seed top_h subtree_h =
     fold (\<lambda>s (top0, bottom).
             let bottom = v_xmss_build_subtree V sk_seed pk_seed (of_nat s) subtree_h
             in (top0 @ [bottom ! subtree_h ! 0], bottom))
          [0..<2 ^ top_h] ([], [])"

definition v_xmss_keypair_new_split ::
  "vole \<Rightarrow> bytes \<Rightarrow> bytes \<Rightarrow> int \<Rightarrow> int \<Rightarrow> xmss_keypair option" where
  "v_xmss_keypair_new_split V sk_seed pk_seed height_arg subtree_arg =
     (if height_arg < 1 \<or> height_arg > int XMSS_H then None
      else if subtree_arg < 1 \<or> subtree_arg > height_arg then None
      else if \<not> vole_malloc_ok V sizeof_xmss_keypair then None
      else
        let height = nat height_arg;
            subtree_h = nat subtree_arg;
            top_h = height - subtree_h
        in if \<not> v_xmss_alloc_levels V top_h then None
           else if \<not> v_xmss_alloc_levels V subtree_h then None
           else
             let (top0, bottom) = v_xmss_sweep V sk_seed pk_seed top_h subtree_h;
                 cached = (if top_h = 0 then 0 else push_bit top_h 1 - 1);
                 top = v_xmss_build_top V pk_seed subtree_h top_h top0;
                 upper = v_xmss_derive_upper_siblings V sk_seed (XMSS_H - height);
                 root = v_xmss_climb_upper V pk_seed (top ! top_h ! 0) height upper
             in Some \<lparr>kp_sk_seed = sk_seed, kp_pk_seed = pk_seed, kp_height = height,
                      kp_subtree_h = subtree_h, kp_top = top, kp_bottom = bottom,
                      kp_cached_subtree = cached, kp_upper = upper, kp_root = root\<rparr>)"

definition v_xmss_keypair_new :: "vole \<Rightarrow> bytes \<Rightarrow> bytes \<Rightarrow> int \<Rightarrow> xmss_keypair option" where
  "v_xmss_keypair_new V sk_seed pk_seed height =
     v_xmss_keypair_new_split V sk_seed pk_seed height
       (if height < int XMSS_SUBTREE_H then height else int XMSS_SUBTREE_H)"

definition v_xmss_compute_root :: "vole \<Rightarrow> bytes \<Rightarrow> bytes \<Rightarrow> int \<Rightarrow> node" where
  "v_xmss_compute_root V sk_seed pk_seed height =
     (case v_xmss_keypair_new V sk_seed pk_seed height of
        None \<Rightarrow> replicate XMSS_NODE_BYTES 0
      | Some kp \<Rightarrow> kp_root kp)"

subsection \<open>Signing and verifying\<close>

definition v_xmss_walk_step :: "vole \<Rightarrow> bytes \<Rightarrow> node list \<Rightarrow> nat \<Rightarrow> node \<times> u32 \<Rightarrow> node \<times> u32" where
  "v_xmss_walk_step V pk_seed auth_path h = (\<lambda>(node, idx).
     let parent = (if idx AND 1 = 0
                   then v_xmss_hash_tree_node V pk_seed node (auth_path ! h) (of_nat h) (drop_bit 1 idx)
                   else v_xmss_hash_tree_node V pk_seed (auth_path ! h) node (of_nat h) (drop_bit 1 idx))
     in (parent, drop_bit 1 idx))"

definition v_xmss_walk_auth_path :: "vole \<Rightarrow> bytes \<Rightarrow> node \<Rightarrow> u32 \<Rightarrow> node list \<Rightarrow> node" where
  "v_xmss_walk_auth_path V pk_seed leaf leaf_index auth_path =
     fst (fold (v_xmss_walk_step V pk_seed auth_path) [0..<XMSS_H] (leaf, leaf_index))"

text \<open>
  The nonce loop. The outer \<open>None\<close> is a run that never returns; \<open>Some (None, c)\<close> is the
  return value 0 after a failure of the entropy source.
\<close>

partial_function (option) v_grind_nonce ::
  "vole \<Rightarrow> bytes \<Rightarrow> u32 \<Rightarrow> bytes \<Rightarrow> rng \<Rightarrow> ((bytes \<times> byte list) option \<times> rng) option" where
  "v_grind_nonce V pk_seed epoch message c =
     (case v_random_bytes V XMSS_NONCE_LEN c of
        (None, c') \<Rightarrow> Some (None, c')
      | (Some nonce, c') \<Rightarrow>
          let mh = v_xmss_hash_message V pk_seed epoch nonce message;
              ok = fst (xmss_extract_coords mh);
              coords = snd (xmss_extract_coords mh)
          in if \<not> ok then v_grind_nonce V pk_seed epoch message c'
             else if coords_sum coords = XMSS_TARGET_SUM then Some (Some (nonce, coords), c')
             else v_grind_nonce V pk_seed epoch message c')"

text \<open>The authentication path: inside the bottom subtree, in the top tree, above the real root.\<close>

text \<open>
  The updated key pair (its subtree cache), the signature on success, and the entropy
  state; the outer \<open>None\<close> is a nonce loop that never returns.
\<close>

definition v_xmss_keypair_sign ::
  "vole \<Rightarrow> xmss_keypair \<Rightarrow> u32 \<Rightarrow> bytes \<Rightarrow> rng \<Rightarrow> (xmss_keypair \<times> xmss_sig option \<times> rng) option" where
  "v_xmss_keypair_sign V kp leaf message c =
     (if ucast leaf \<ge> xmss_keypair_capacity kp then Some (kp, None, c)
      else case v_grind_nonce V (kp_pk_seed kp) leaf message c of
        None \<Rightarrow> None
      | Some (None, c') \<Rightarrow> Some (kp, None, c')
      | Some (Some (nonce, coords), c') \<Rightarrow>
          let sk = v_xmss_wots_gen_sk V (kp_sk_seed kp) leaf;
              hashes = v_xmss_wots_sign V (kp_pk_seed kp) leaf sk coords;
              s = drop_bit (kp_subtree_h kp) (ucast leaf :: u64);
              kp = (if kp_cached_subtree kp \<noteq> s
                    then kp\<lparr>kp_bottom := v_xmss_build_subtree V (kp_sk_seed kp) (kp_pk_seed kp)
                                           (ucast s) (kp_subtree_h kp),
                            kp_cached_subtree := s\<rparr>
                    else kp);
              (p1, idx) = path_bottom (kp_bottom kp) (kp_subtree_h kp) s [0..<kp_subtree_h kp] (ucast leaf);
              p2 = path_top (kp_top kp) [0..<kp_height kp - kp_subtree_h kp] idx;
              p3 = map (\<lambda>h. kp_upper kp ! (h - kp_height kp)) [kp_height kp..<XMSS_H]
          in Some (kp, Some \<lparr>xs_leaf_index = leaf, xs_nonce = nonce, xs_sig_hashes = hashes,
                             xs_auth_path = p1 @ p2 @ p3\<rparr>, c'))"

definition v_xmss_sign ::
  "vole \<Rightarrow> bytes \<Rightarrow> bytes \<Rightarrow> int \<Rightarrow> u32 \<Rightarrow> bytes \<Rightarrow> rng \<Rightarrow> (xmss_sig option \<times> rng) option" where
  "v_xmss_sign V sk_seed pk_seed height leaf message c =
     (case v_xmss_keypair_new V sk_seed pk_seed height of
        None \<Rightarrow> Some (None, c)
      | Some kp \<Rightarrow> map_option snd (v_xmss_keypair_sign V kp leaf message c))"

definition v_xmss_verify :: "vole \<Rightarrow> bytes \<Rightarrow> node \<Rightarrow> bytes \<Rightarrow> xmss_sig \<Rightarrow> bool" where
  "v_xmss_verify V pk_seed root message sig =
     (let mh = v_xmss_hash_message V pk_seed (xs_leaf_index sig) (xs_nonce sig) message;
          (ok, coords) = xmss_extract_coords mh
      in if \<not> ok then False
         else if coords_sum coords \<noteq> XMSS_TARGET_SUM then False
         else let pk_hashes = v_xmss_wots_pk_from_sig V pk_seed (xs_leaf_index sig) (xs_sig_hashes sig) coords;
                  leaf = v_xmss_hash_public_key V pk_seed (xs_leaf_index sig) pk_hashes
              in v_xmss_walk_auth_path V pk_seed leaf (xs_leaf_index sig) (xs_auth_path sig) = root)"

subsection \<open>The same functions\<close>

lemma v_hash_message_view:
  "vole_ok V \<Longrightarrow> length pk = 16 \<Longrightarrow> v_xmss_hash_message V pk e nonce m = xmss_hash_message (kkw_view V) pk e nonce m"
  by (simp add: v_xmss_hash_message_def xmss_hash_message_def vole_th put_epoch_be_def xmss_sizes
      BLAKE3_TH_MAX_DOMAIN_def BLAKE3_OUT_LEN_def)

lemma v_chain_step_view:
  "vole_ok V \<Longrightarrow> length inp = 16 \<Longrightarrow> v_xmss_hash_chain_step V pk e inp ci pos = xmss_hash_chain_step (kkw_view V) pk e inp ci pos"
  by (simp add: v_xmss_hash_chain_step_def xmss_hash_chain_step_def vole_th xmss_sizes
      BLAKE3_TH_MAX_DOMAIN_def BLAKE3_OUT_LEN_def)

lemma v_tree_node_view:
  "vole_ok V \<Longrightarrow> length pk = 16 \<Longrightarrow> v_xmss_hash_tree_node V pk = xmss_hash_tree_node (kkw_view V) pk"
  by (intro ext) (simp add: v_xmss_hash_tree_node_def xmss_hash_tree_node_def vole_th xmss_sizes
      BLAKE3_TH_MAX_DOMAIN_def BLAKE3_OUT_LEN_def)

lemma v_public_key_view:
  "vole_ok V \<Longrightarrow> length pk = 16 \<Longrightarrow> v_xmss_hash_public_key V pk = xmss_hash_public_key (kkw_view V) pk"
  by (intro ext) (simp add: v_xmss_hash_public_key_def xmss_hash_public_key_def vole_th put_epoch_be_def xmss_sizes
      BLAKE3_TH_MAX_DOMAIN_def BLAKE3_OUT_LEN_def)

lemma length_v_chain_step [lens]:
  "vole_ok V \<Longrightarrow> length inp = 16 \<Longrightarrow> length (v_xmss_hash_chain_step V pk e inp ci pos) = 16"
  by (simp add: v_xmss_hash_chain_step_def xmss_sizes length_shake_th_into)

lemma v_chain_multi_view:
  assumes "vole_ok V" "length start = 16"
  shows "v_xmss_hash_chain_multi V pk e start ci p0 n = xmss_hash_chain_multi (kkw_view V) pk e start ci p0 n"
proof -
  have "fold (\<lambda>i cur. v_xmss_hash_chain_step V pk e cur ci (p0 + of_nat i + 1)) is start
      = fold (\<lambda>i cur. xmss_hash_chain_step (kkw_view V) pk e cur ci (p0 + of_nat i + 1)) is start" for "is"
    using assms(2)
    by (induction "is" arbitrary: start) (simp_all add: v_chain_step_view [OF assms(1), symmetric] length_v_chain_step [OF assms(1)])
  then show ?thesis by (simp add: v_xmss_hash_chain_multi_def xmss_hash_chain_multi_def Let_def)
qed

lemma v_gen_sk_view: "v_xmss_wots_gen_sk V = xmss_wots_gen_sk (kkw_view V)"
  by (intro ext) (simp add: v_xmss_wots_gen_sk_def xmss_wots_gen_sk_def vole_xof_wots)

lemma v_gen_sk_length: "vole_ok V \<Longrightarrow> i < 42 \<Longrightarrow> length (xmss_wots_gen_sk (kkw_view V) sk leaf ! i) = 16"
  using length_gen_sk [OF platform_b3_length [OF kkw_view_ok]] by blast

lemma v_wots_sign_view:
  "vole_ok V \<Longrightarrow> (\<And>i. i < 42 \<Longrightarrow> length (sk ! i) = 16) \<Longrightarrow>
     v_xmss_wots_sign V pk e sk coords = xmss_wots_sign (kkw_view V) pk e sk coords"
  by (simp add: v_xmss_wots_sign_def xmss_wots_sign_def v_chain_multi_view XMSS_WOTS_LEN_def)

lemma v_pk_from_sk_view:
  "vole_ok V \<Longrightarrow> (\<And>i. i < 42 \<Longrightarrow> length (sk ! i) = 16) \<Longrightarrow>
     v_xmss_wots_pk_from_sk V pk e sk = xmss_wots_pk_from_sk (kkw_view V) pk e sk"
  by (simp add: v_xmss_wots_pk_from_sk_def xmss_wots_pk_from_sk_def v_chain_multi_view XMSS_WOTS_LEN_def)

lemma v_pk_from_sig_view:
  "vole_ok V \<Longrightarrow> (\<And>i. i < 42 \<Longrightarrow> length (sig ! i) = 16) \<Longrightarrow>
     v_xmss_wots_pk_from_sig V pk e sig coords = xmss_wots_pk_from_sig (kkw_view V) pk e sig coords"
  by (simp add: v_xmss_wots_pk_from_sig_def xmss_wots_pk_from_sig_def v_chain_multi_view XMSS_WOTS_LEN_def Let_def)

lemma v_alloc_levels_view: "v_xmss_alloc_levels V = xmss_alloc_levels (kkw_view V)"
  by (intro ext) (simp add: v_xmss_alloc_levels_def xmss_alloc_levels_def)

lemma v_subtree_leaf_view:
  "vole_ok V \<Longrightarrow> length pk = 16 \<Longrightarrow> v_xmss_subtree_leaf V sk pk = xmss_subtree_leaf (kkw_view V) sk pk"
  by (intro ext) (simp add: v_xmss_subtree_leaf_def xmss_subtree_leaf_def v_gen_sk_view v_pk_from_sk_view v_gen_sk_length
      v_public_key_view)

lemma v_build_subtree_view:
  "vole_ok V \<Longrightarrow> length pk = 16 \<Longrightarrow> v_xmss_build_subtree V sk pk = xmss_build_subtree (kkw_view V) sk pk"
  by (intro ext) (simp add: v_xmss_build_subtree_def xmss_build_subtree_def v_subtree_leaf_view v_tree_node_view)

lemma v_build_top_view:
  "vole_ok V \<Longrightarrow> length pk = 16 \<Longrightarrow> v_xmss_build_top V pk = xmss_build_top (kkw_view V) pk"
  by (intro ext) (simp add: v_xmss_build_top_def xmss_build_top_def v_tree_node_view)

lemma v_upper_siblings_view: "v_xmss_derive_upper_siblings V = xmss_derive_upper_siblings (kkw_view V)"
  by (intro ext) (simp add: v_xmss_derive_upper_siblings_def xmss_derive_upper_siblings_def vole_xof_upper)

lemma v_climb_view:
  "vole_ok V \<Longrightarrow> length pk = 16 \<Longrightarrow> v_xmss_climb_upper V pk = xmss_climb_upper (kkw_view V) pk"
  by (intro ext) (simp add: v_xmss_climb_upper_def xmss_climb_upper_def v_tree_node_view)

lemma v_sweep_view:
  "vole_ok V \<Longrightarrow> length pk = 16 \<Longrightarrow> v_xmss_sweep V sk pk = xmss_sweep (kkw_view V) sk pk"
  by (intro ext) (simp add: v_xmss_sweep_def xmss_sweep_def v_build_subtree_view)

lemma v_keypair_new_view:
  assumes "vole_ok V" "length pk = 16"
  shows "v_xmss_keypair_new_split V sk pk = xmss_keypair_new_split (kkw_view V) sk pk"
    and "v_xmss_keypair_new V sk pk = xmss_keypair_new (kkw_view V) sk pk"
    and "v_xmss_compute_root V sk pk = xmss_compute_root (kkw_view V) sk pk"
proof -
  show *: "v_xmss_keypair_new_split V sk pk = xmss_keypair_new_split (kkw_view V) sk pk"
    unfolding v_xmss_keypair_new_split_def [abs_def] xmss_keypair_new_split_def [abs_def] v_alloc_levels_view
      v_sweep_view [OF assms] v_build_top_view [OF assms] v_upper_siblings_view v_climb_view [OF assms] kkw_view_simps ..
  then show **: "v_xmss_keypair_new V sk pk = xmss_keypair_new (kkw_view V) sk pk"
    by (intro ext) (simp add: v_xmss_keypair_new_def xmss_keypair_new_def)
  then show "v_xmss_compute_root V sk pk = xmss_compute_root (kkw_view V) sk pk"
    by (intro ext) (simp add: v_xmss_compute_root_def xmss_compute_root_def)
qed

lemma v_walk_view:
  "vole_ok V \<Longrightarrow> length pk = 16 \<Longrightarrow> v_xmss_walk_auth_path V pk = xmss_walk_auth_path (kkw_view V) pk"
proof -
  assume "vole_ok V" "length pk = 16"
  then have "v_xmss_walk_step V pk = xmss_walk_step (kkw_view V) pk"
    by (intro ext) (simp add: v_xmss_walk_step_def xmss_walk_step_def v_tree_node_view split: prod.split)
  then show ?thesis by (intro ext) (simp add: v_xmss_walk_auth_path_def xmss_walk_auth_path_def)
qed

lemma v_grind_nonce_step:
  assumes "vole_ok V" "length pk = 16"
  shows "v_grind_nonce V pk e m c =
    (case random_bytes (kkw_view V) XMSS_NONCE_LEN c of
       (None, c') \<Rightarrow> Some (None, c')
     | (Some nonce, c') \<Rightarrow>
         let mh = xmss_hash_message (kkw_view V) pk e nonce m;
             ok = fst (xmss_extract_coords mh);
             coords = snd (xmss_extract_coords mh)
         in if \<not> ok then v_grind_nonce V pk e m c'
            else if coords_sum coords = XMSS_TARGET_SUM then Some (Some (nonce, coords), c')
            else v_grind_nonce V pk e m c')"
  by (subst v_grind_nonce.simps) (unfold v_random_bytes_view v_hash_message_view [OF assms], rule refl)

lemma v_grind_nonce_le:
  assumes "v_grind_nonce V pk e m c = Some y" "vole_ok V" "length pk = 16"
  shows "grind_nonce (kkw_view V) pk e m c = Some y"
proof -
  let ?Q = "\<lambda>V pk e m c y. vole_ok V \<longrightarrow> length pk = 16 \<longrightarrow> grind_nonce (kkw_view V) pk e m c = Some y"
  have "?Q V pk e m c y"
  proof (rule v_grind_nonce.raw_induct [where P = ?Q, OF _ assms(1)])
    fix grind and V :: vole and pk e m c y
    assume IH: "\<And>pk e m c b y. grind pk e m c b = Some y \<Longrightarrow> ?Q pk e m c b y"
      and run: "(case v_random_bytes V XMSS_NONCE_LEN c of (None, c') \<Rightarrow> Some (None, c')
        | (Some nonce, c') \<Rightarrow>
            let mh = v_xmss_hash_message V pk e nonce m;
                ok = fst (xmss_extract_coords mh);
                coords = snd (xmss_extract_coords mh)
            in if \<not> ok then grind V pk e m c'
               else if coords_sum coords = XMSS_TARGET_SUM then Some (Some (nonce, coords), c')
               else grind V pk e m c') = Some y"
    obtain n c' where draw: "random_bytes (kkw_view V) XMSS_NONCE_LEN c = (n, c')" by fastforce
    have "grind_nonce (kkw_view V) pk e m c = Some y" if "vole_ok V" "length pk = 16"
    proof (cases n)
      case (Some nonce)
      then show ?thesis
        using run IH [of V pk e m c' y] that
        by (subst grind_nonce.simps) (simp add: draw v_random_bytes_view v_hash_message_view Let_def split: if_splits)
    qed (use run in \<open>subst grind_nonce.simps, simp add: draw v_random_bytes_view\<close>)
    then show "?Q V pk e m c y" by simp
  qed
  then show ?thesis using assms(2,3) by simp
qed

lemma grind_nonce_le_v:
  assumes "grind_nonce (kkw_view V) pk e m c = Some y" "vole_ok V" "length pk = 16"
  shows "v_grind_nonce V pk e m c = Some y"
proof -
  let ?Q = "\<lambda>((((P, pk), e), m), c) y. \<forall>V. P = kkw_view V \<longrightarrow> vole_ok V \<longrightarrow> length pk = 16 \<longrightarrow> v_grind_nonce V pk e m c = Some y"
  have "?Q ((((kkw_view V, pk), e), m), c) y"
  proof (rule grind_nonce.raw_induct [where Pa = ?Q, OF _ assms(1)])
    fix grind and P :: platform and pk e m c y
    assume IH: "\<And>pk e m c b y. grind pk e m c b = Some y \<Longrightarrow> ?Q ((((pk, e), m), c), b) y"
      and run: "(case random_bytes P XMSS_NONCE_LEN c of (None, c') \<Rightarrow> Some (None, c')
        | (Some nonce, c') \<Rightarrow>
            let mh = xmss_hash_message P pk e nonce m;
                ok = fst (xmss_extract_coords mh);
                coords = snd (xmss_extract_coords mh)
            in if \<not> ok then grind P pk e m c'
               else if coords_sum coords = XMSS_TARGET_SUM then Some (Some (nonce, coords), c')
               else grind P pk e m c') = Some y"
    obtain n c' where draw: "random_bytes P XMSS_NONCE_LEN c = (n, c')" by fastforce
    have "v_grind_nonce V pk e m c = Some y" if "P = kkw_view V" "vole_ok V" "length pk = 16" for V
    proof (cases n)
      case (Some nonce)
      then show ?thesis
        using run IH [of P pk e m c' y] that draw
        by (simp add: v_grind_nonce_step Let_def split: if_splits)
    qed (use run draw that in \<open>simp add: v_grind_nonce_step\<close>)
    then show "?Q ((((P, pk), e), m), c) y" by simp
  qed
  then show ?thesis using assms(2,3) by simp
qed

lemma v_grind_nonce_view:
  assumes "vole_ok V" "length pk = 16"
  shows "v_grind_nonce V pk e m c = grind_nonce (kkw_view V) pk e m c"
  using v_grind_nonce_le [OF _ assms] grind_nonce_le_v [OF _ assms] by (metis option.exhaust)

lemma v_keypair_sign_view:
  assumes "vole_ok V" "length (kp_pk_seed kp) = 16"
  shows "v_xmss_keypair_sign V kp leaf m c = xmss_keypair_sign (kkw_view V) kp leaf m c"
proof -
  have sign: "v_xmss_wots_sign V pk e (xmss_wots_gen_sk (kkw_view V) sk l) coords
      = xmss_wots_sign (kkw_view V) pk e (xmss_wots_gen_sk (kkw_view V) sk l) coords" for pk e sk l coords
    by (rule v_wots_sign_view [OF assms(1)]) (rule v_gen_sk_length [OF assms(1)])
  show ?thesis
    unfolding v_xmss_keypair_sign_def xmss_keypair_sign_def v_grind_nonce_view [OF assms] v_gen_sk_view
      v_build_subtree_view [OF assms] Let_def sign ..
qed

lemma v_sign_view:
  assumes "vole_ok V" "length pk = 16"
  shows "v_xmss_sign V sk pk height leaf m c = xmss_sign (kkw_view V) sk pk height leaf m c"
proof -
  have "v_xmss_keypair_sign V kp leaf m c = xmss_keypair_sign (kkw_view V) kp leaf m c"
    if "xmss_keypair_new (kkw_view V) sk pk height = Some kp" for kp
    using new_split_wf [OF that [unfolded xmss_keypair_new_def]] assms by (simp add: v_keypair_sign_view)
  then show ?thesis
    by (auto simp: v_xmss_sign_def xmss_sign_def v_keypair_new_view [OF assms] split: option.split)
qed

lemma v_verify_view:
  assumes "vole_ok V" "length pk = 16" "\<And>i. i < 42 \<Longrightarrow> length (xs_sig_hashes sig ! i) = 16"
  shows "v_xmss_verify V pk root m sig = xmss_verify (kkw_view V) pk root m sig"
proof -
  have pks: "v_xmss_wots_pk_from_sig V pk e (xs_sig_hashes sig) coords
      = xmss_wots_pk_from_sig (kkw_view V) pk e (xs_sig_hashes sig) coords" for e coords
    by (rule v_pk_from_sig_view [OF assms(1)]) (rule assms(3))
  show ?thesis
    unfolding v_xmss_verify_def xmss_verify_def v_hash_message_view [OF assms(1,2)] v_public_key_view [OF assms(1,2)]
      pks v_walk_view [OF assms(1,2)] ..
qed

subsection \<open>What carries over\<close>

text \<open>The key pairs the library can hold: constructed, then used to sign any number of times.\<close>

inductive v_kp_reachable :: "vole \<Rightarrow> bytes \<Rightarrow> bytes \<Rightarrow> int \<Rightarrow> xmss_keypair \<Rightarrow> bool"
  for V :: vole and sk_seed pk_seed :: bytes and height :: int where
  v_new: "v_xmss_keypair_new_split V sk_seed pk_seed height subtree = Some kp \<Longrightarrow>
            v_kp_reachable V sk_seed pk_seed height kp"
| v_sign: "v_kp_reachable V sk_seed pk_seed height kp \<Longrightarrow>
            v_xmss_keypair_sign V kp leaf message c = Some (kp', r, c') \<Longrightarrow>
            v_kp_reachable V sk_seed pk_seed height kp'"

lemma v_kp_reachable_view:
  assumes "v_kp_reachable V sk pk height kp" "vole_ok V" "length pk = 16"
  shows "kp_reachable (kkw_view V) sk pk height kp"
  using assms(1)
proof (induction rule: v_kp_reachable.induct)
  case (v_new subtree kp)
  then show ?case using assms(2,3) by (intro kp_reachable.new [of _ _ _ _ subtree]) (simp add: v_keypair_new_view)
next
  case (v_sign kp leaf message c kp' r c')
  have "length (kp_pk_seed kp) = 16" using reachable_wf [OF v_sign.IH] assms(3) by simp
  with v_sign assms(2) show ?case by (intro kp_reachable.sign [OF v_sign.IH]) (simp add: v_keypair_sign_view)
qed

lemma v_issued_sig_wf:
  assumes "vole_ok V" "length pk = 16" "v_kp_reachable V sk pk height kp"
    and "v_xmss_keypair_sign V kp leaf message c = Some (kp', Some sig, c')"
  shows "sig_wf sig"
proof -
  note r = v_kp_reachable_view [OF assms(3,1,2)]
  have "length (kp_pk_seed kp) = 16" using reachable_wf [OF r] assms(2) by simp
  then show ?thesis
    using issued_sig_wf [OF kkw_view_ok [OF assms(1)] assms(2) r] assms(1,4) by (simp add: v_keypair_sign_view)
qed

lemma sig_wf_hashes: "sig_wf sig \<Longrightarrow> i < 42 \<Longrightarrow> length (xs_sig_hashes sig ! i) = 16"
  by (simp add: sig_wf_def xmss_sizes)

lemma v_issued_verifies:
  assumes "vole_ok V" "length pk = 16" "v_kp_reachable V sk pk height kp"
    and "v_xmss_keypair_sign V kp leaf message c = Some (kp', Some sig, c')"
  shows "v_xmss_verify V pk (kp_root kp) message sig"
proof -
  note r = v_kp_reachable_view [OF assms(3,1,2)]
  have "length (kp_pk_seed kp) = 16" using reachable_wf [OF r] assms(2) by simp
  then have "xmss_keypair_sign (kkw_view V) kp leaf message c = Some (kp', Some sig, c')"
    using assms(1,4) by (simp add: v_keypair_sign_view)
  from xmss_issued [OF r this] show ?thesis
    using v_verify_view [OF assms(1,2) sig_wf_hashes [OF v_issued_sig_wf [OF assms]]] by simp
qed

end
