(* ===== verification/Vole_Circuit.thy ===== *)
theory Vole_Circuit
  imports Keccak Vole_Xmss
begin

text \<open>
  \<^verbatim>\<open>src/voleith/src/circuit.hpp\<close>: the Boolean circuit of the statement, written once over an
  engine \<open>E\<close> and instantiated for the native evaluation, which computes the witness, and
  for the authenticated one, which emits the constraints. The template parameter is the
  record \<open>engine\<close>; a C++ exception is the left injection of \<open>exn + _\<close>. The two parameters of
  the build that shape the circuit, the proof degree and the order in which the compiler
  evaluates the two arguments of a call, are the record \<open>vconfig\<close>.
\<close>

subsection \<open>Runs: state with exceptions\<close>

datatype exn = Invalid_argument string | Logic_error string | Runtime_error string | Out_of_range

type_synonym ('s, 'a) run = "'s \<Rightarrow> exn + 'a \<times> 's"

definition ret :: "'a \<Rightarrow> ('s, 'a) run" where "ret x = (\<lambda>s. Inr (x, s))"

definition throw :: "exn \<Rightarrow> ('s, 'a) run" where "throw e = (\<lambda>s. Inl e)"

definition seq :: "('s, 'a) run \<Rightarrow> ('a \<Rightarrow> ('s, 'b) run) \<Rightarrow> ('s, 'b) run" where
  "seq m f = (\<lambda>s. case m s of Inl e \<Rightarrow> Inl e | Inr (x, s') \<Rightarrow> f x s')"

text \<open>A loop over the elements of a list with an accumulator, and one that collects.\<close>

fun loop :: "('x \<Rightarrow> 'a \<Rightarrow> ('s, 'a) run) \<Rightarrow> 'x list \<Rightarrow> 'a \<Rightarrow> ('s, 'a) run" where
  "loop f [] a = ret a"
| "loop f (x # xs) a = seq (f x a) (loop f xs)"

fun collect :: "('x \<Rightarrow> ('s, 'a) run) \<Rightarrow> 'x list \<Rightarrow> ('s, 'a list) run" where
  "collect f [] = ret []"
| "collect f (x # xs) = seq (f x) (\<lambda>y. seq (collect f xs) (\<lambda>ys. ret (y # ys)))"

subsection \<open>Engines\<close>

record ('b, 'f, 's) engine =
  e_cursor :: "'s \<Rightarrow> nat"
  e_constant :: "bool \<Rightarrow> 'b"
  e_bit :: "nat \<Rightarrow> ('s, 'b) run"
  e_allocate :: "bool \<Rightarrow> ('s, 'b) run"
  e_add :: "'b \<Rightarrow> 'b \<Rightarrow> 'b"
  e_mul :: "'b \<Rightarrow> 'b \<Rightarrow> ('s, 'b) run"
  e_zero_bit :: "'b \<Rightarrow> ('s, unit) run"
  e_zero :: "'f \<Rightarrow> ('s, unit) run"
  e_pack :: "'b list \<Rightarrow> ('s, 'f) run"
  e_fadd :: "'f \<Rightarrow> 'f \<Rightarrow> 'f"
  e_product :: "'f \<Rightarrow> 'f \<Rightarrow> 'f"
  e_field_witness :: "'f \<Rightarrow> nat \<Rightarrow> ('s, 'b list) run"
  e_permute :: "'b list \<Rightarrow> nat \<Rightarrow> ('s, 'b list) run"

record vconfig =
  kProofDegree :: nat
  left_first :: bool

definition kKeccakStride :: "vconfig \<Rightarrow> nat" where
  "kKeccakStride cfg = (if kProofDegree cfg = 16 then 6 else if kProofDegree cfg = 32 then 8 else 9)"

definition kKeccakSnapshots :: "vconfig \<Rightarrow> nat" where
  "kKeccakSnapshots cfg = 24 div kKeccakStride cfg"

definition kPrimaryBytes :: nat where
  "kPrimaryBytes = HM_R_BYTES + HM_A_BYTES + XMSS_SIG_BYTES + 99 + 42 * 16"

definition kSigOffset :: nat where "kSigOffset = HM_R_BYTES + HM_A_BYTES"
definition kScheduleOffset :: nat where "kScheduleOffset = kSigOffset + XMSS_SIG_BYTES"
definition kEndpointsOffset :: nat where "kEndpointsOffset = kScheduleOffset + 99"

record vstatement =
  vs_message :: bytes
  vs_pk_seed :: bytes
  vs_root :: node

subsection \<open>Gadgets\<close>

definition c_constant :: "('b, 'f, 's) engine \<Rightarrow> bytes \<Rightarrow> 'b list" where
  "c_constant E bs = concat (map (\<lambda>v. map (\<lambda>i. e_constant E (bit v i)) [0..<8]) bs)"

definition c_number :: "('b, 'f, 's) engine \<Rightarrow> u64 \<Rightarrow> nat \<Rightarrow> 'b list" where
  "c_number E v bits = map (\<lambda>i. e_constant E (if i < 64 then bit v i else False)) [0..<bits]"

definition c_input :: "('b, 'f, 's) engine \<Rightarrow> nat \<Rightarrow> nat \<Rightarrow> ('s, 'b list) run" where
  "c_input E byte_offset n = collect (\<lambda>i. e_bit E (byte_offset * 8 + i)) [0..<n * 8]"

definition slice :: "'b list \<Rightarrow> nat \<Rightarrow> nat \<Rightarrow> 'b list" where
  "slice x off n = take n (drop off x)"

definition c_invert :: "('b, 'f, 's) engine \<Rightarrow> 'b \<Rightarrow> 'b" where
  "c_invert E b = e_add E b (e_constant E True)"

definition c_equal :: "('b, 'f, 's) engine \<Rightarrow> 'b list \<Rightarrow> 'b list \<Rightarrow> ('s, 'b) run" where
  "c_equal E a b =
     (if a = [] then ret (e_constant E True)
      else loop (\<lambda>i result. e_mul E result (c_invert E (e_add E (a ! i) (b ! i))))
             [1..<length a] (c_invert E (e_add E (a ! 0) (b ! 0))))"

text \<open>One level of the decoder: each prefix splits in two, except beyond the chain count.\<close>

definition c_flags_level :: "('b, 'f, 's) engine \<Rightarrow> 'b list \<Rightarrow> nat \<Rightarrow> 'b list \<Rightarrow> ('s, 'b list) run" where
  "c_flags_level E index k flags =
     (let count = (42 + 2 ^ k - 1) div 2 ^ k
      in loop (\<lambda>i acc. seq (e_mul E (flags ! i) (index ! k)) (\<lambda>one.
             let acc = acc @ [e_add E (flags ! i) one]
             in ret (if 2 * i + 1 < count then acc @ [one] else acc)))
           [0..<length flags] [])"

definition c_chain_flags :: "('b, 'f, 's) engine \<Rightarrow> 'b list \<Rightarrow> ('s, 'b list) run" where
  "c_chain_flags E index =
     seq (e_zero_bit E (index ! 6)) (\<lambda>_. seq (e_zero_bit E (index ! 7)) (\<lambda>_.
       loop (c_flags_level E index) [4, 3, 2, 1, 0] [c_invert E (index ! 5), index ! 5]))"

text \<open>The two products are arguments of one call, so the compiler chooses their order.\<close>

definition c_less :: "vconfig \<Rightarrow> ('b, 'f, 's) engine \<Rightarrow> 'b list \<Rightarrow> 'b list \<Rightarrow> ('s, 'b) run" where
  "c_less cfg E a b =
     loop (\<lambda>i result.
       let same = c_invert E (e_add E (a ! i) (b ! i));
           first = e_mul E same result;
           second = e_mul E (c_invert E (a ! i)) (b ! i)
       in if left_first cfg
          then seq first (\<lambda>x. seq second (\<lambda>y. ret (e_add E x y)))
          else seq second (\<lambda>y. seq first (\<lambda>x. ret (e_add E x y))))
     [0..<length a] (e_constant E False)"

definition c_add :: "('b, 'f, 's) engine \<Rightarrow> 'b list \<Rightarrow> 'b list \<Rightarrow> bool \<Rightarrow> ('s, 'b list) run" where
  "c_add E a b no_overflow =
     seq (loop (\<lambda>i (out, carry).
            let sum = e_add E (e_add E (a ! i) (b ! i)) carry
            in seq (e_mul E (e_add E (a ! i) carry) (e_add E (b ! i) carry)) (\<lambda>p.
                 ret (out @ [sum], e_add E p carry)))
          [0..<length a] ([], e_constant E False))
       (\<lambda>(out, carry).
          if no_overflow then seq (e_zero_bit E carry) (\<lambda>_. ret out) else ret out)"

definition c_select :: "('b, 'f, 's) engine \<Rightarrow> 'b \<Rightarrow> 'b list \<Rightarrow> 'b list \<Rightarrow> ('s, 'b list) run" where
  "c_select E flag yes no =
     collect (\<lambda>i. seq (e_mul E flag (e_add E (yes ! i) (no ! i))) (\<lambda>p. ret (e_add E (no ! i) p)))
       [0..<length yes]"

definition c_shake :: "('b, 'f, 's) engine \<Rightarrow> 'b list \<Rightarrow> nat \<Rightarrow> ('s, 'b list) run" where
  "c_shake E input_bits output_bytes =
     (if length input_bits mod 8 \<noteq> 0 \<or> output_bytes > 136 then throw (Logic_error ''SHAKE circuit size'')
      else let padded = input_bits @ c_number E 0x1f 8;
               padded = padded @ replicate ((1088 - length padded mod 1088) mod 1088) (e_constant E False);
               padded = butlast padded @ [e_add E (last padded) (e_constant E True)]
           in seq (loop (\<lambda>k state.
                  let off = k * 1088;
                      state = map (\<lambda>i. if i < 1088 then e_add E (state ! i) (padded ! (off + i)) else state ! i)
                                [0..<1600]
                  in e_permute E state (if off + 1088 = length padded then output_bytes * 8 else 1600))
                [0..<length padded div 1088] (c_number E 0 1600))
              (\<lambda>state. ret (take (output_bytes * 8) state)))"

definition c_hash :: "('b, 'f, 's) engine \<Rightarrow> 'b list \<Rightarrow> 'b list \<Rightarrow> nat \<Rightarrow> ('s, 'b list) run" where
  "c_hash E domain data out =
     (let prefix = c_constant E SHAKE_APP_PREFIX;
          prefix = prefix @ c_number E (of_nat (length domain div 8)) 8;
          prefix = prefix @ domain;
          prefix = prefix @ data
      in c_shake E prefix out)"

definition c_hash_str :: "('b, 'f, 's) engine \<Rightarrow> string \<Rightarrow> 'b list \<Rightarrow> nat \<Rightarrow> ('s, 'b list) run" where
  "c_hash_str E domain data out = c_hash E (c_constant E (ascii domain)) data out"

definition c_equal_field :: "('b, 'f, 's) engine \<Rightarrow> 'b list \<Rightarrow> 'b list \<Rightarrow> ('s, unit) run" where
  "c_equal_field E a b = seq (e_pack E a) (\<lambda>x. seq (e_pack E b) (\<lambda>y. e_zero E (e_fadd E x y)))"

text \<open>\<open>e.product(e.pack(x), e.pack(y))\<close>.\<close>

definition c_pack_product :: "('b, 'f, 's) engine \<Rightarrow> 'b list \<Rightarrow> 'b list \<Rightarrow> ('s, 'f) run" where
  "c_pack_product E x y = seq (e_pack E x) (\<lambda>p. seq (e_pack E y) (\<lambda>q. ret (e_product E p q)))"

subsection \<open>The statement\<close>

definition s_line :: "('b, 'f, 's) engine \<Rightarrow> 'b list \<Rightarrow> 'b list \<Rightarrow> 'b list \<Rightarrow> nat \<Rightarrow> ('s, 'b list) run" where
  "s_line E r a m line =
     seq (c_pack_product E (slice a (line * 768) 128) (slice r 0 128)) (\<lambda>sum.
     seq (loop (\<lambda>i sum. seq (c_pack_product E (slice a (line * 768 + i * 128) 128) (slice r (i * 128) 128))
                          (\<lambda>p. ret (e_fadd E sum p))) [1..<6] sum) (\<lambda>sum.
     seq (e_pack E (slice m (line * 128) 128)) (\<lambda>pm.
     e_field_witness E (e_fadd E sum pm) 128)))"

definition s_commitment :: "('b, 'f, 's) engine \<Rightarrow> 'b list \<Rightarrow> 'b list \<Rightarrow> 'b list \<Rightarrow> ('s, 'b list) run" where
  "s_commitment E r a m =
     seq (loop (\<lambda>line b. seq (s_line E r a m line) (\<lambda>w. ret (b @ w))) [0..<2] []) (\<lambda>b.
     seq (c_hash_str E ''HMy'' r 32) (\<lambda>y.
     c_hash_str E ''HMd'' (a @ b @ y) 32))"

definition s_epoch_be :: "'b list \<Rightarrow> 'b list" where
  "s_epoch_be epoch = concat (map (\<lambda>i. slice epoch ((3 - i) * 8) 8) [0..<4])"

definition s_message_hash ::
  "('b, 'f, 's) engine \<Rightarrow> 'b list \<Rightarrow> 'b list \<Rightarrow> 'b list \<Rightarrow> 'b list \<Rightarrow> ('s, 'b list) run" where
  "s_message_hash E seed epoch_be nonce d =
     seq (c_hash E (seed @ c_number E (ucast XMSS_TWEAK_MESSAGE) 8 @ epoch_be) (nonce @ d) 32) (\<lambda>digest.
     seq (e_zero_bit E (digest ! 63)) (\<lambda>_.
     seq (e_zero_bit E (digest ! 127)) (\<lambda>_. ret digest)))"

text \<open>One chain: its coordinate is added to the total, and a complete chain must end where
  it starts.\<close>

definition s_chain ::
  "('b, 'f, 's) engine \<Rightarrow> 'b list \<Rightarrow> nat \<Rightarrow> 'b list list \<times> 'b list list \<times> 'b list list \<times> 'b list \<Rightarrow>
     ('s, 'b list list \<times> 'b list list \<times> 'b list list \<times> 'b list) run" where
  "s_chain E digest i = (\<lambda>(coords, tips, ends, total).
     let coord = slice digest (xmss_coord_bit_pos i) 3;
         term = coord @ replicate 6 (e_constant E False)
     in seq (c_add E total term False) (\<lambda>total.
        seq (c_input E (kSigOffset + 28 + 16 * i) 16) (\<lambda>tip.
        seq (c_input E (kEndpointsOffset + 16 * i) 16) (\<lambda>end.
        seq (c_equal E coord (c_number E 7 3)) (\<lambda>complete.
        seq (e_pack E [complete]) (\<lambda>pc.
        seq (e_pack E tip) (\<lambda>pt.
        seq (e_pack E end) (\<lambda>pe.
        seq (e_zero E (e_product E pc (e_fadd E pt pe))) (\<lambda>_.
        ret (coords @ [coord], tips @ [tip], ends @ [end], total))))))))))"

definition s_chains ::
  "('b, 'f, 's) engine \<Rightarrow> 'b list \<Rightarrow> ('s, 'b list list \<times> 'b list list \<times> 'b list list) run" where
  "s_chains E digest =
     seq (loop (s_chain E digest) [0..<42] ([], [], [], c_number E 0 9)) (\<lambda>(coords, tips, ends, total).
     seq (c_equal_field E total (c_number E 195 9)) (\<lambda>_. ret (coords, tips, ends)))"

text \<open>The sum of the flags times the entries they select.\<close>

definition s_selected :: "('b, 'f, 's) engine \<Rightarrow> 'b list \<Rightarrow> 'b list list \<Rightarrow> ('s, 'f) run" where
  "s_selected E flags xs =
     seq (c_pack_product E [flags ! 0] (xs ! 0)) (\<lambda>sel.
     loop (\<lambda>i sel. seq (c_pack_product E [flags ! i] (xs ! i)) (\<lambda>p. ret (e_fadd E sel p))) [1..<42] sel)"

text \<open>The checks on the order of the schedule: not before the previous index, and a new
  chain only when the previous one is complete.\<close>

definition s_order ::
  "vconfig \<Rightarrow> ('b, 'f, 's) engine \<Rightarrow> nat \<Rightarrow> 'b list \<Rightarrow> 'b list \<Rightarrow> 'b list \<Rightarrow> ('s, 'b) run" where
  "s_order cfg E step index previous_index previous_pos =
     (if step = 0 then ret (e_constant E False)
      else seq (c_equal E index previous_index) (\<lambda>same.
        seq (c_less cfg E index previous_index) (\<lambda>l.
        seq (e_zero_bit E l) (\<lambda>_.
        seq (e_pack E [same]) (\<lambda>ps.
        seq (e_pack E (c_number E 1 1)) (\<lambda>p1.
        seq (e_pack E previous_pos) (\<lambda>pp.
        seq (e_pack E (c_number E 7 3)) (\<lambda>p7.
        seq (e_zero E (e_product E (e_fadd E ps p1) (e_fadd E pp p7))) (\<lambda>_. ret same)))))))))"

definition s_step ::
  "vconfig \<Rightarrow> ('b, 'f, 's) engine \<Rightarrow> 'b list \<Rightarrow> 'b list \<Rightarrow> 'b list list \<Rightarrow> 'b list list \<Rightarrow> 'b list list \<Rightarrow> nat \<Rightarrow>
     'b list \<times> 'b list \<times> 'b list \<Rightarrow> ('s, 'b list \<times> 'b list \<times> 'b list) run" where
  "s_step cfg E seed epoch_be coords tips ends step = (\<lambda>(previous_index, previous_pos, previous_out).
     seq (c_input E (kScheduleOffset + step) 1) (\<lambda>index.
     seq (c_chain_flags E index) (\<lambda>flags.
     let flag_sum = fold (\<lambda>flag sum. e_add E sum flag) flags (e_constant E False)
     in
     seq (e_zero_bit E (c_invert E flag_sum)) (\<lambda>_.
     seq (s_order cfg E step index previous_index previous_pos) (\<lambda>same.
     seq (s_selected E flags tips) (\<lambda>selected_tip.
     seq (s_selected E flags ends) (\<lambda>selected_end.
     seq (s_selected E flags coords) (\<lambda>selected_coord.
     seq (e_field_witness E selected_coord 3) (\<lambda>coordinate.
     seq (c_select E same previous_pos coordinate) (\<lambda>base.
     seq (c_add E base (c_number E 1 3) True) (\<lambda>position.
     seq (e_pack E [same]) (\<lambda>sf.
     seq (e_pack E previous_out) (\<lambda>po.
     seq (e_field_witness E (e_fadd E (e_product E sf (e_fadd E selected_tip po)) selected_tip) 128) (\<lambda>in_node.
     seq (c_hash E (in_node @ c_number E (ucast XMSS_TWEAK_CHAIN) 8)
            (seed @ epoch_be @ index @ (position @ replicate 5 (e_constant E False))) 16) (\<lambda>out_node.
     seq (c_equal E position (c_number E 7 3)) (\<lambda>last.
     seq (e_pack E [last]) (\<lambda>pl.
     seq (e_pack E out_node) (\<lambda>pn.
     seq (e_zero E (e_product E pl (e_fadd E selected_end pn))) (\<lambda>_.
     ret (index, position, out_node))))))))))))))))))))"

definition s_steps ::
  "vconfig \<Rightarrow> ('b, 'f, 's) engine \<Rightarrow> 'b list \<Rightarrow> 'b list \<Rightarrow> 'b list list \<Rightarrow> 'b list list \<Rightarrow> 'b list list \<Rightarrow> ('s, unit) run" where
  "s_steps cfg E seed epoch_be coords tips ends =
     seq (loop (s_step cfg E seed epoch_be coords tips ends) [0..<99]
            (c_number E 0 8, c_number E 0 3, c_number E 0 128))
       (\<lambda>(previous_index, previous_pos, previous_out). c_equal_field E previous_pos (c_number E 7 3))"

definition s_level :: "('b, 'f, 's) engine \<Rightarrow> 'b list \<Rightarrow> nat \<Rightarrow> 'b list \<times> 'b list \<Rightarrow> ('s, 'b list \<times> 'b list) run" where
  "s_level E seed level = (\<lambda>(node, idx).
     seq (c_input E (kSigOffset + 28 + 42 * 16 + level * 16) 16) (\<lambda>sibling.
     seq (c_select E (idx ! 0) sibling node) (\<lambda>left.
     let right = map (\<lambda>i. e_add E (e_add E (left ! i) (node ! i)) (sibling ! i)) [0..<128];
         idx = tl idx @ [e_constant E False];
         tree_dom = seed @ c_number E (ucast XMSS_TWEAK_TREE) 8 @ c_number E (of_nat level) 8 @ idx
     in seq (c_hash E tree_dom (left @ right) 16) (\<lambda>node. ret (node, idx)))))"

definition s_root ::
  "('b, 'f, 's) engine \<Rightarrow> 'b list \<Rightarrow> 'b list \<Rightarrow> 'b list \<Rightarrow> 'b list list \<Rightarrow> node \<Rightarrow> ('s, unit) run" where
  "s_root E seed epoch epoch_be ends root =
     seq (c_hash E (seed @ c_number E (ucast XMSS_TWEAK_LEAF) 8 @ epoch_be) (concat ends) 16) (\<lambda>node.
     seq (loop (s_level E seed) [0..<32] (node, epoch)) (\<lambda>(node, idx).
     c_equal_field E node (c_constant E root)))"

text \<open>\<open>while (e.cursor % 8)\<close>: each turn advances the cursor by one bit.\<close>

definition s_padding :: "('b, 'f, 's) engine \<Rightarrow> ('s, unit) run" where
  "s_padding E = (\<lambda>s. loop (\<lambda>_ _. seq (e_allocate E False) (e_zero_bit E))
                        [0..<(8 - e_cursor E s mod 8) mod 8] () s)"

definition c_statement :: "vconfig \<Rightarrow> ('b, 'f, 's) engine \<Rightarrow> vstatement \<Rightarrow> ('s, unit) run" where
  "c_statement cfg E pub =
     seq (c_input E 0 96) (\<lambda>r.
     seq (c_input E 96 192) (\<lambda>a.
     let m = c_constant E (vs_message pub); seed = c_constant E (vs_pk_seed pub)
     in
     seq (s_commitment E r a m) (\<lambda>d.
     seq (c_input E kSigOffset 4) (\<lambda>epoch.
     seq (c_input E (kSigOffset + 4) 24) (\<lambda>nonce.
     let epoch_be = s_epoch_be epoch
     in
     seq (s_message_hash E seed epoch_be nonce d) (\<lambda>digest.
     seq (s_chains E digest) (\<lambda>(coords, tips, ends).
     seq (s_steps cfg E seed epoch_be coords tips ends) (\<lambda>_.
     seq (s_root E seed epoch epoch_be ends (vs_root pub)) (\<lambda>_.
     s_padding E)))))))))"

end
