(* ===== verification/Vole_Engine.thy ===== *)
theory Vole_Engine
  imports Vole_Circuit
begin

text \<open>
  The two engines of \<^verbatim>\<open>circuit.hpp\<close>. \<open>NativeContext\<close> evaluates the circuit on plain bits,
  appends every allocated bit to the witness and throws at the first constraint that does
  not hold. \<open>AuthContext\<close> reads the allocated bits from an authenticated witness and hands
  every constraint to the QuickSilver state.

  Three libraries are not part of the repository and stay parameters: the arithmetic of
  GF(2^128) in the FAEST code (\<open>poly_mul\<close>), its QuickSilver values (\<open>qs_ops\<close>), and the Keccak
  permutation that records snapshots of its rounds (\<open>permute_trace\<close>).
\<close>

type_synonym poly128 = "128 word"

record circuit_lib =
  poly_mul :: "poly128 \<Rightarrow> poly128 \<Rightarrow> poly128"
  permute_trace :: "u64 list \<Rightarrow> u64 list \<times> u64 list"

subsection \<open>NativeContext\<close>

record native_context =
  nc_witness :: bytes
  nc_cursor :: nat
  nc_constraints :: nat
  nc_permutations :: nat
  nc_check :: bool

text \<open>The constructor: \<open>resize\<close> cuts the primary witness or fills it with zeros.\<close>

definition native_context_new :: "bytes \<Rightarrow> bool \<Rightarrow> native_context" where
  "native_context_new primary validate =
     \<lparr>nc_witness = take kPrimaryBytes (primary @ replicate kPrimaryBytes 0), nc_cursor = kPrimaryBytes * 8,
      nc_constraints = 0, nc_permutations = 0, nc_check = validate\<rparr>"

definition n_bit :: "nat \<Rightarrow> (native_context, bool) run" where
  "n_bit i = (\<lambda>s. if i div 8 < length (nc_witness s)
                  then Inr (bit (nc_witness s ! (i div 8)) (i mod 8), s) else Inl Out_of_range)"

definition n_allocate :: "bool \<Rightarrow> (native_context, bool) run" where
  "n_allocate v = (\<lambda>s.
     let c = nc_cursor s;
         w = (if c div 8 \<ge> length (nc_witness s) then nc_witness s @ [0] else nc_witness s)
     in Inr (v, s\<lparr>nc_witness := w[c div 8 := w ! (c div 8) OR push_bit (c mod 8) (of_bool v)], nc_cursor := c + 1\<rparr>))"

definition n_count :: "nat \<Rightarrow> (native_context, unit) run" where
  "n_count n = (\<lambda>s. Inr ((), s\<lparr>nc_constraints := nc_constraints s + n\<rparr>))"

definition n_mul :: "bool \<Rightarrow> bool \<Rightarrow> (native_context, bool) run" where
  "n_mul a b = seq (n_count 1) (\<lambda>_. n_allocate (a \<and> b))"

definition n_zero_bit :: "bool \<Rightarrow> (native_context, unit) run" where
  "n_zero_bit a = seq (n_count 1) (\<lambda>_ s.
     if nc_check s \<and> a then Inl (Invalid_argument ''unsatisfied Boolean constraint'') else Inr ((), s))"

definition n_zero :: "poly128 \<Rightarrow> (native_context, unit) run" where
  "n_zero a = seq (n_count 1) (\<lambda>_ s.
     if nc_check s \<and> a \<noteq> 0 then Inl (Invalid_argument ''unsatisfied field constraint'') else Inr ((), s))"

definition n_pack :: "bool list \<Rightarrow> (native_context, poly128) run" where
  "n_pack bits =
     (if length bits > 128 then throw (Logic_error ''field packing overflow'')
      else let b = fold (\<lambda>i b. b[i div 8 := b ! (i div 8) OR push_bit (i mod 8) (of_bool (bits ! i))])
                     [0..<length bits] (replicate 16 (0 :: byte))
           in ret (load_le b))"

definition n_field_witness :: "poly128 \<Rightarrow> nat \<Rightarrow> (native_context, bool list) run" where
  "n_field_witness a bits =
     (let b = bytes_le 16 a
      in seq (collect (\<lambda>i. n_allocate (bit (b ! (i div 8)) (i mod 8))) [0..<bits]) (\<lambda>out.
         seq (n_pack out) (\<lambda>p.
         seq (n_zero (a XOR p)) (\<lambda>_. ret out))))"

definition n_permute :: "vconfig \<Rightarrow> circuit_lib \<Rightarrow> bool list \<Rightarrow> nat \<Rightarrow> (native_context, bool list) run" where
  "n_permute cfg L state keep =
     (let words = fold (\<lambda>i w. w[i div 64 := w ! (i div 64) OR push_bit (i mod 64) (of_bool (state ! i))])
                    [0..<1600] (replicate 25 (0 :: u64));
          (words, trace) = permute_trace L words
      in seq (loop (\<lambda>j state. collect (\<lambda>i. n_allocate (bit (trace ! (j * 25 + i div 64)) (i mod 64))) [0..<1600])
                [0..<kKeccakSnapshots cfg] state) (\<lambda>state.
         seq (n_count (1600 * kKeccakSnapshots cfg)) (\<lambda>_.
         seq (if kProofDegree cfg = 64
              then seq (collect (\<lambda>i. n_allocate (bit (words ! (i div 64)) (i mod 64))) [0..<keep]) (\<lambda>state.
                   seq (n_count keep) (\<lambda>_. ret state))
              else ret state) (\<lambda>state s.
         Inr (state, s\<lparr>nc_permutations := nc_permutations s + 1\<rparr>)))))"

definition native_engine :: "vconfig \<Rightarrow> circuit_lib \<Rightarrow> (bool, poly128, native_context) engine" where
  "native_engine cfg L =
     \<lparr>e_cursor = nc_cursor, e_constant = (\<lambda>b. b), e_bit = n_bit, e_allocate = n_allocate,
      e_add = (\<lambda>a b. a \<noteq> b), e_mul = n_mul, e_zero_bit = n_zero_bit, e_zero = n_zero,
      e_pack = n_pack, e_fadd = (XOR), e_product = poly_mul L, e_field_witness = n_field_witness,
      e_permute = n_permute cfg L\<rparr>"

subsection \<open>AuthContext\<close>

record 'q qs_ops =
  qs_constant :: "bool \<Rightarrow> 'q"
  get_witness_bit :: "nat \<Rightarrow> 'q"
  qs_add :: "'q \<Rightarrow> 'q \<Rightarrow> 'q"
  qs_mul :: "'q \<Rightarrow> 'q \<Rightarrow> 'q"
  qs_scale :: "'q \<Rightarrow> poly128 \<Rightarrow> 'q"

text \<open>\<open>ac_emitted\<close> is the sequence of the arguments of \<open>add_constraint\<close>.\<close>

record 'q auth_context =
  ac_cursor :: nat
  ac_constraints :: nat
  ac_permutations :: nat
  ac_emitted :: "'q list"

definition auth_context_new :: "'q auth_context" where
  "auth_context_new = \<lparr>ac_cursor = kPrimaryBytes * 8, ac_constraints = 0, ac_permutations = 0, ac_emitted = []\<rparr>"

definition a_bit :: "'q qs_ops \<Rightarrow> nat \<Rightarrow> ('q auth_context, 'q) run" where
  "a_bit Q i = ret (get_witness_bit Q i)"

definition a_allocate :: "'q qs_ops \<Rightarrow> bool \<Rightarrow> ('q auth_context, 'q) run" where
  "a_allocate Q v = (\<lambda>s. Inr (get_witness_bit Q (ac_cursor s), s\<lparr>ac_cursor := ac_cursor s + 1\<rparr>))"

definition a_zero :: "'q \<Rightarrow> ('q auth_context, unit) run" where
  "a_zero a = (\<lambda>s. Inr ((), s\<lparr>ac_constraints := ac_constraints s + 1, ac_emitted := ac_emitted s @ [a]\<rparr>))"

definition a_mul :: "'q qs_ops \<Rightarrow> 'q \<Rightarrow> 'q \<Rightarrow> ('q auth_context, 'q) run" where
  "a_mul Q a b = seq (a_allocate Q False) (\<lambda>c. seq (a_zero (qs_add Q (qs_mul Q a b) c)) (\<lambda>_. ret c))"

definition a_pack :: "'q qs_ops \<Rightarrow> 'q list \<Rightarrow> ('q auth_context, 'q) run" where
  "a_pack Q bits = ret (fold (\<lambda>i result.
       let coefficient = (replicate 16 (0 :: byte))[i div 8 := push_bit (i mod 8) 1]
       in qs_add Q result (qs_scale Q (bits ! i) (load_le coefficient)))
     [0..<length bits] (qs_constant Q False))"

definition a_field_witness :: "'q qs_ops \<Rightarrow> 'q \<Rightarrow> nat \<Rightarrow> ('q auth_context, 'q list) run" where
  "a_field_witness Q a bits =
     seq (collect (\<lambda>i. a_allocate Q False) [0..<bits]) (\<lambda>out.
     seq (a_pack Q out) (\<lambda>p.
     seq (a_zero (qs_add Q a p)) (\<lambda>_. ret out)))"

definition qs_lane_ops :: "'q qs_ops \<Rightarrow> 'q lane_ops" where
  "qs_lane_ops Q = \<lparr>k_add = qs_add Q, k_mul = qs_mul Q, k_const = qs_constant Q\<rparr>"

text \<open>\<open>meet\<close>: fresh bits for the state after round \<open>last_round\<close>, taken backwards to where the
  forward rounds end.\<close>

definition a_meet :: "vconfig \<Rightarrow> 'q qs_ops \<Rightarrow> 'q lanes \<Rightarrow> nat \<Rightarrow> ('q auth_context, 'q list) run" where
  "a_meet cfg Q forward last_round =
     seq (collect (\<lambda>i. a_allocate Q False) [0..<1600]) (\<lambda>state.
       let K = qs_lane_ops Q;
           b3 = keccak_backward K last_round (blocks 64 25 state);
           b9 = keccak_backward K (last_round - 1) b3;
           b = (if kProofDegree cfg = 16 then b9 else keccak_backward K (last_round - 2) b9)
       in seq (collect (\<lambda>i. a_zero (qs_add Q (concat forward ! i) (concat b ! i))) [0..<1600]) (\<lambda>_. ret state))"

text \<open>\<open>fresh\<close> stands for the elements of the freshly constructed output arrays.\<close>

definition a_stride :: "vconfig \<Rightarrow> 'q qs_ops \<Rightarrow> nat \<Rightarrow> nat \<Rightarrow> 'q list \<Rightarrow> ('q auth_context, 'q list) run" where
  "a_stride cfg Q keep round state =
     (let K = qs_lane_ops Q;
          fresh = replicate 25 (replicate 64 (qs_constant Q False));
          f2 = keccak_forward K round (blocks 64 25 state) fresh 1600;
          f4 = keccak_forward K (round + 1) f2 fresh 1600;
          f8 = keccak_forward K (round + 2) f4 fresh 1600;
          f16 = keccak_forward K (round + 3) f8 fresh 1600
      in if kProofDegree cfg = 16 then a_meet cfg Q f16 (round + 5)
         else let f32 = keccak_forward K (round + 4) f16 fresh 1600
              in if kProofDegree cfg = 32 then a_meet cfg Q f32 (round + 7)
                 else let f64 = keccak_forward K (round + 5) f32 fresh (if round = 18 then keep else 1600)
                      in if round = 18
                         then collect (\<lambda>i. seq (a_allocate Q False) (\<lambda>b.
                                seq (a_zero (qs_add Q (concat f64 ! i) b)) (\<lambda>_. ret b))) [0..<keep]
                         else a_meet cfg Q f64 (round + 8))"

definition a_permute :: "vconfig \<Rightarrow> 'q qs_ops \<Rightarrow> 'q list \<Rightarrow> nat \<Rightarrow> ('q auth_context, 'q list) run" where
  "a_permute cfg Q state keep =
     seq (loop (a_stride cfg Q keep) (map (\<lambda>k. k * kKeccakStride cfg) [0..<(24 + kKeccakStride cfg - 1) div kKeccakStride cfg]) state)
       (\<lambda>state s. Inr (state, s\<lparr>ac_permutations := ac_permutations s + 1\<rparr>))"

definition auth_engine :: "vconfig \<Rightarrow> 'q qs_ops \<Rightarrow> ('q, 'q, 'q auth_context) engine" where
  "auth_engine cfg Q =
     \<lparr>e_cursor = ac_cursor, e_constant = qs_constant Q, e_bit = a_bit Q, e_allocate = a_allocate Q,
      e_add = qs_add Q, e_mul = a_mul Q, e_zero_bit = a_zero, e_zero = a_zero,
      e_pack = a_pack Q, e_fadd = qs_add Q, e_product = qs_mul Q, e_field_witness = a_field_witness Q,
      e_permute = a_permute cfg Q\<rparr>"

end
