(* ===== verification/Fips202.thy ===== *)
theory Fips202
  imports Keccak
begin

text \<open>
  The reference: the step mappings of Keccak-f[1600] as FIPS 202 states them, on a state
  \<open>A x y z\<close> of bits, with the rotation offsets from the walk of the lanes and the round
  constants from the linear feedback shift register. The templates of theory \<open>Keccak\<close> on
  plain bits are shown to compute a round and its inverse.
\<close>

definition bxor :: "bool \<Rightarrow> bool \<Rightarrow> bool" where "bxor a b \<longleftrightarrow> a \<noteq> b"

lemma bxor_assoc: "bxor (bxor a b) c = bxor a (bxor b c)" by (auto simp: bxor_def)
lemma bxor_commute: "bxor a b = bxor b a" by (auto simp: bxor_def)
lemma bxor_left_commute: "bxor a (bxor b c) = bxor b (bxor a c)" by (auto simp: bxor_def)
lemma bxor_self [simp]: "bxor a a = False" by (simp add: bxor_def)
lemma bxor_cancel [simp]: "bxor a (bxor a b) = b" by (auto simp: bxor_def)
lemma bxor_False [simp]: "bxor False a = a" "bxor a False = a" by (auto simp: bxor_def)
lemma bxor_True [simp]: "bxor True a = (\<not> a)" "bxor a True = (\<not> a)" by (auto simp: bxor_def)

lemmas bxor_ac = bxor_assoc bxor_commute bxor_left_commute

type_synonym kstate = "nat \<Rightarrow> nat \<Rightarrow> nat \<Rightarrow> bool"

subsection \<open>The step mappings\<close>

definition column_parity :: "kstate \<Rightarrow> nat \<Rightarrow> nat \<Rightarrow> bool" where
  "column_parity A x z = bxor (A x 0 z) (bxor (A x 1 z) (bxor (A x 2 z) (bxor (A x 3 z) (A x 4 z))))"

definition theta :: "kstate \<Rightarrow> kstate" where
  "theta A = (\<lambda>x y z. bxor (A x y z)
     (bxor (column_parity A ((x + 4) mod 5) z) (column_parity A ((x + 1) mod 5) ((z + 63) mod 64))))"

text \<open>The walk of rho: lane \<open>(1, 0)\<close> first, then \<open>(y, 2x + 3y)\<close>; step \<open>t\<close> rotates by
  \<open>(t + 1)(t + 2) / 2\<close>.\<close>

fun rho_walk :: "nat \<Rightarrow> nat \<times> nat" where
  "rho_walk 0 = (1, 0)"
| "rho_walk (Suc t) = (let (x, y) = rho_walk t in (y, (2 * x + 3 * y) mod 5))"

definition rho_offset :: "nat \<Rightarrow> nat \<Rightarrow> nat" where
  "rho_offset x y = (case find (\<lambda>t. rho_walk t = (x, y)) [0..<24] of
     None \<Rightarrow> 0 | Some t \<Rightarrow> ((t + 1) * (t + 2) div 2) mod 64)"

definition rho :: "kstate \<Rightarrow> kstate" where
  "rho A = (\<lambda>x y z. A x y ((z + (64 - rho_offset x y)) mod 64))"

definition pi_step :: "kstate \<Rightarrow> kstate" where
  "pi_step A = (\<lambda>x y z. A ((x + 3 * y) mod 5) x z)"

definition chi :: "kstate \<Rightarrow> kstate" where
  "chi A = (\<lambda>x y z. bxor (A x y z) (\<not> A ((x + 1) mod 5) y z \<and> A ((x + 2) mod 5) y z))"

text \<open>The register \<open>R\<close> of rc: eight bits, bit 0 first.\<close>

fun rc_step :: "bool list \<Rightarrow> bool list" where
  "rc_step [r0, r1, r2, r3, r4, r5, r6, r7] = [r7, r0, r1, r2, bxor r3 r7, bxor r4 r7, bxor r5 r7, r6]"
| "rc_step r = r"

definition rc_bit :: "nat \<Rightarrow> bool" where
  "rc_bit t = hd ((rc_step ^^ (t mod 255)) [True, False, False, False, False, False, False, False])"

definition rc_word :: "nat \<Rightarrow> nat \<Rightarrow> bool" where
  "rc_word ir z = (\<exists>j<7. z = 2 ^ j - 1 \<and> rc_bit (j + 7 * ir))"

definition iota :: "nat \<Rightarrow> kstate \<Rightarrow> kstate" where
  "iota ir A = (\<lambda>x y z. if x = 0 \<and> y = 0 then bxor (A x y z) (rc_word ir z) else A x y z)"

definition keccak_round :: "nat \<Rightarrow> kstate \<Rightarrow> kstate" where
  "keccak_round ir A = iota ir (chi (pi_step (rho (theta A))))"

subsection \<open>Plain bits and lanes\<close>

definition bit_ops :: "bool lane_ops" where
  "bit_ops = \<lparr>k_add = bxor, k_mul = (\<and>), k_const = (\<lambda>b. b)\<rparr>"

lemma bit_ops_simps [simp]:
  "k_add bit_ops = bxor" "k_mul bit_ops a b = (a \<and> b)" "k_const bit_ops b = b"
  by (simp_all add: bit_ops_def)

definition lanes_ok :: "'q lanes \<Rightarrow> bool" where
  "lanes_ok st \<longleftrightarrow> length st = 25 \<and> (\<forall>l\<in>set st. length l = 64)"

definition kbit :: "bool lanes \<Rightarrow> kstate" where
  "kbit st x y z = st ! (y * 5 + x) ! z"

definition to_lanes :: "kstate \<Rightarrow> bool lanes" where
  "to_lanes A = map (\<lambda>(y, x). map (A x y) [0..<64]) lane_pairs"

lemma less_5_cases: "(x :: nat) < 5 \<Longrightarrow> x = 0 \<or> x = 1 \<or> x = 2 \<or> x = 3 \<or> x = 4"
  by arith

lemma length_lane_pairs [simp]: "length lane_pairs = 25"
  by (simp add: lane_pairs_def)

lemma upt_5: "[0..<5] = [0, 1, 2, 3, 4 :: nat]"
  by (simp add: upt_rec)

lemma lane_pairs_eq: "lane_pairs =
    [(0,0),(0,1),(0,2),(0,3),(0,4),(1,0),(1,1),(1,2),(1,3),(1,4),(2,0),(2,1),(2,2),(2,3),(2,4),
     (3,0),(3,1),(3,2),(3,3),(3,4),(4,0),(4,1),(4,2),(4,3),(4,4)]"
  by (simp add: lane_pairs_def upt_5)

lemma nth_lane_pairs: "a < 5 \<Longrightarrow> b < 5 \<Longrightarrow> lane_pairs ! (a * 5 + b) = (a, b)"
  by (drule less_5_cases, drule less_5_cases) (auto simp: lane_pairs_eq)

lemma lane_index: "(k :: nat) < 25 \<Longrightarrow> \<exists>a b. a < 5 \<and> b < 5 \<and> k = a * 5 + b"
  by (rule exI [of _ "k div 5"], rule exI [of _ "k mod 5"]) simp

lemma index_less: "a < 5 \<Longrightarrow> b < 5 \<Longrightarrow> a * 5 + b < (25 :: nat)"
  by simp

lemma lanes_eqI:
  assumes "lanes_ok s" "lanes_ok t" and "\<And>a b z. a < 5 \<Longrightarrow> b < 5 \<Longrightarrow> z < 64 \<Longrightarrow> s ! (a * 5 + b) ! z = t ! (a * 5 + b) ! z"
  shows "s = t"
proof (rule nth_equalityI)
  show "length s = length t" using assms(1,2) by (simp add: lanes_ok_def)
  fix k assume "k < length s"
  then obtain a b where k: "a < 5" "b < 5" "k = a * 5 + b" "k < length s" "k < length t"
    using assms(1,2) lane_index [of k] by (auto simp: lanes_ok_def)
  have "length (s ! k) = 64" "length (t ! k) = 64" using assms(1,2) k(4,5) by (simp_all add: lanes_ok_def)
  then show "s ! k = t ! k" using assms(3) [OF k(1,2)] k(3) by (intro nth_equalityI) simp_all
qed

lemma lanes_length: "lanes_ok st \<Longrightarrow> a < 5 \<Longrightarrow> b < 5 \<Longrightarrow> length (st ! (a * 5 + b)) = 64"
  using index_less by (simp add: lanes_ok_def)

lemma lanes_ok_map_pairs: "(\<And>a b. length (f (a, b)) = 64) \<Longrightarrow> lanes_ok (map f lane_pairs)"
  by (auto simp: lanes_ok_def)

lemma nth_map_pairs: "a < 5 \<Longrightarrow> b < 5 \<Longrightarrow> map f lane_pairs ! (a * 5 + b) = f (a, b)"
  by (simp add: nth_lane_pairs index_less)

lemma lanes_ok_to_lanes [simp]: "lanes_ok (to_lanes A)"
  unfolding to_lanes_def by (rule lanes_ok_map_pairs) simp

lemma nth_to_lanes: "x < 5 \<Longrightarrow> y < 5 \<Longrightarrow> z < 64 \<Longrightarrow> to_lanes A ! (y * 5 + x) ! z = A x y z"
  unfolding to_lanes_def by (subst nth_map_pairs) simp_all

lemma kbit_to_lanes: "x < 5 \<Longrightarrow> y < 5 \<Longrightarrow> z < 64 \<Longrightarrow> kbit (to_lanes A) x y z = A x y z"
  by (simp add: kbit_def nth_to_lanes)

text \<open>Updates of distinct lanes, each from its own old value.\<close>

lemma fold_updates_other:
  "j \<notin> k ` set ps \<Longrightarrow> fold (\<lambda>p st. st[k p := f p (st ! k p)]) ps st ! j = st ! j"
  by (induction ps arbitrary: st) auto

lemma fold_updates:
  "distinct (map k ps) \<Longrightarrow> p \<in> set ps \<Longrightarrow> k p < length st \<Longrightarrow>
     fold (\<lambda>p st. st[k p := f p (st ! k p)]) ps st ! k p = f p (st ! k p)"
proof (induction ps arbitrary: st)
  case (Cons q ps)
  show ?case
  proof (cases "p = q")
    case True
    then show ?thesis using Cons.prems fold_updates_other [of "k q" k ps f] by simp
  next
    case False
    then have "k p \<noteq> k q" using Cons.prems by (auto simp: image_iff)
    then show ?thesis using Cons False by simp
  qed
qed simp

lemma length_fold_updates: "length (fold (\<lambda>p st. st[k p := f p (st ! k p)]) ps st) = length st"
  by (induction ps arbitrary: st) simp_all

subsection \<open>The templates on plain bits\<close>

lemma nth_add_lane: "z < 64 \<Longrightarrow> add_lane K a b ! z = k_add K (a ! z) (b ! z)"
  by (simp add: add_lane_def VOLEKECCAK_W_def)

lemma nth_mul_lane: "z < 64 \<Longrightarrow> mul_lane K a b ! z = k_mul K (a ! z) (b ! z)"
  by (simp add: mul_lane_def VOLEKECCAK_W_def)

lemma nth_rot_lane: "z < 64 \<Longrightarrow> rot_lane l s ! z = l ! ((z + (64 - s mod 64)) mod 64)"
  by (simp add: rot_lane_def VOLEKECCAK_W_def)

lemma length_lane_fun [simp]: "length (add_lane K a b) = 64" "length (mul_lane K a b) = 64" "length (rot_lane l s) = 64"
  by (simp_all add: add_lane_def mul_lane_def rot_lane_def VOLEKECCAK_W_def)

lemmas nth_lanes = nth_add_lane nth_mul_lane nth_rot_lane

lemma nth_forward_C: "x < 5 \<Longrightarrow> z < 64 \<Longrightarrow> forward_C bit_ops st ! x ! z = column_parity (kbit st) x z"
  by (simp add: forward_C_def nth_lanes get_lane_def column_parity_def kbit_def Let_def bxor_assoc)

lemma nth_forward_D:
  "x < 5 \<Longrightarrow> z < 64 \<Longrightarrow> forward_D bit_ops (forward_C bit_ops st) ! x ! z =
     bxor (column_parity (kbit st) ((x + 4) mod 5) z) (column_parity (kbit st) ((x + 1) mod 5) ((z + 63) mod 64))"
  by (simp add: forward_D_def nth_lanes get_lane_def nth_forward_C)

text \<open>The order in which theta and the inverse of the rotations visit the lanes.\<close>

definition visit :: "nat \<times> nat \<Rightarrow> nat" where
  "visit p = snd p * 5 + (fst p * 3 + snd p) mod 5"

lemma visit_distinct: "distinct (map visit lane_pairs)"
  by (simp add: lane_pairs_eq visit_def)

text \<open>The pair that visits lane \<open>(y, x)\<close>.\<close>

definition visitor :: "nat \<Rightarrow> nat \<Rightarrow> nat \<times> nat" where
  "visitor y x = (((x + 4 * y) * 2) mod 5, y)"

lemma visitor:
  assumes "x < 5" "y < 5"
  shows "visit (visitor y x) = y * 5 + x" "visitor y x \<in> set lane_pairs"
    "fst (visitor y x) < 5" "snd (visitor y x) = y" "(fst (visitor y x) * 3 + y) mod 5 = x"
  using less_5_cases [OF assms(1)] less_5_cases [OF assms(2)]
  by (elim disjE; simp add: visitor_def visit_def lane_pairs_eq)+

lemma forward_theta_alt:
  "forward_theta K st = fold (\<lambda>p st. st[visit p := add_lane K (st ! visit p) (get_lane (forward_D K (forward_C K st0)) 0 ((fst p * 3 + snd p) mod 5))])
     lane_pairs st" if "st0 = st"
  unfolding forward_theta_def that Let_def visit_def get_lane_def case_prod_beta by simp

lemma nth_forward_theta:
  assumes "lanes_ok st" "x < 5" "y < 5" "z < 64"
  shows "forward_theta bit_ops st ! (y * 5 + x) ! z = theta (kbit st) x y z"
proof -
  let ?D = "forward_D bit_ops (forward_C bit_ops st)"
  note v = visitor [OF assms(2,3)]
  have "visit (visitor y x) < length st" using assms by (simp add: lanes_ok_def v)
  from fold_updates [OF visit_distinct v(2) this, of "\<lambda>p l. add_lane bit_ops l (get_lane ?D 0 ((fst p * 3 + snd p) mod 5))"]
  have "forward_theta bit_ops st ! (y * 5 + x) = add_lane bit_ops (st ! (y * 5 + x)) (get_lane ?D 0 x)"
    by (simp only: forward_theta_alt [where st = st, OF refl] v)
  then show ?thesis using assms by (simp add: nth_lanes get_lane_def nth_forward_D theta_def kbit_def)
qed

lemma lanes_ok_update: "lanes_ok st \<Longrightarrow> length l = 64 \<Longrightarrow> lanes_ok (st[k := l])"
  by (auto simp: lanes_ok_def dest!: set_update_subset_insert [THEN subsetD])

lemma lanes_ok_forward_theta: "lanes_ok st \<Longrightarrow> lanes_ok (forward_theta K st)"
proof -
  have "lanes_ok st \<Longrightarrow> lanes_ok (fold (\<lambda>p st. st[visit p := add_lane K (st ! visit p) (g p)]) ps st)" for ps g
    by (induction ps arbitrary: st) (simp_all add: lanes_ok_update)
  then show "lanes_ok st \<Longrightarrow> lanes_ok (forward_theta K st)" unfolding forward_theta_alt [OF refl] by this
qed

text \<open>The rotation table is the walk of rho.\<close>

lemma rotation_table:
  assumes "a < 5" "b < 5"
  shows "ROTATION_OFFSET ! ((a * 3 * 5 + b * 5 + b) mod 25) = rho_offset ((a * 3 + b) mod 5) b"
proof -
  have "list_all (\<lambda>(a, b). ROTATION_OFFSET ! ((a * 3 * 5 + b * 5 + b) mod 25) = rho_offset ((a * 3 + b) mod 5) b) lane_pairs"
    by code_simp
  then show ?thesis using nth_lane_pairs [OF assms] index_less [OF assms]
    by (auto simp: list_all_length dest!: spec [of _ "a * 5 + b"])
qed

lemma rho_offset_less: "rho_offset x y < 64"
  by (simp add: rho_offset_def split: option.split)

lemma nth_forward_B:
  assumes "a < 5" "b < 5" "z < 64"
    and "\<And>x y z. x < 5 \<Longrightarrow> y < 5 \<Longrightarrow> z < 64 \<Longrightarrow> st ! (y * 5 + x) ! z = A x y z"
  shows "forward_B st ! (a * 5 + b) ! z = pi_step (rho A) b a z"
proof -
  have "forward_B st ! (a * 5 + b) = rot_lane (st ! (b * 5 + (a * 3 + b) mod 5)) (rho_offset ((a * 3 + b) mod 5) b)"
    using assms(1,2) rotation_table [OF assms(1,2)] unfolding forward_B_def
    by (subst nth_map_pairs) (simp_all add: get_lane_def Let_def)
  moreover have "st ! (b * 5 + (a * 3 + b) mod 5) ! j = A ((a * 3 + b) mod 5) b j" if "j < 64" for j
    using assms(2) that by (intro assms(4)) simp_all
  ultimately show ?thesis
    using assms(3) rho_offset_less [of "(a * 3 + b) mod 5" b]
    by (simp add: nth_lanes pi_step_def rho_def ac_simps)
qed

text \<open>The table of round constants is the output of the register.\<close>

lemma rc_word_alt: "rc_word ir z = list_ex (\<lambda>j. z = 2 ^ j - 1 \<and> rc_bit (j + 7 * ir)) [0..<7]"
  by (auto simp: rc_word_def list_ex_iff Bex_def)

lemma round_const_table:
  assumes "ir < 24" "z < 64"
  shows "bit (ROUND_CONST ! ir) z = rc_word ir z"
proof -
  have "list_all (\<lambda>ir. list_all (\<lambda>z. bit (ROUND_CONST ! ir) z = list_ex (\<lambda>j. z = 2 ^ j - 1 \<and> rc_bit (j + 7 * ir)) [0..<7]) [0..<64]) [0..<24]"
    by code_simp
  then show ?thesis using assms by (auto simp: list_all_iff rc_word_alt)
qed

lemma nth_round_const_lane:
  assumes "ir < 24" "z < 64"
  shows "round_const_lane bit_ops ir ! z = rc_word ir z"
proof -
  have "z div 8 < 8" using assms(2) by linarith
  then show ?thesis
    using assms by (simp add: round_const_lane_def load_const_1_bit_and_combine_def VOLEKECCAK_W_def Let_def nth_bytes_le
        bit_simps round_const_table [symmetric])
qed

lemma length_round_const_lane [simp]: "length (round_const_lane K ir) = 64"
  by (simp add: round_const_lane_def VOLEKECCAK_W_def Let_def)

text \<open>The whole round, on the lanes the caller asked for.\<close>

theorem keccak_forward_round:
  assumes st: "lanes_ok st" and ir: "ir < 24" and k: "x < 5" "y < 5" "z < 64" and out: "(y * 5 + x) * 64 < n"
  shows "keccak_forward bit_ops ir st init n ! (y * 5 + x) ! z = keccak_round ir (kbit st) x y z"
proof -
  let ?B = "forward_B (forward_theta bit_ops st)" and ?P = "pi_step (rho (theta (kbit st)))"
  have B: "?B ! (a * 5 + b) ! z = ?P b a z" if "a < 5" "b < 5" for a b
    by (rule nth_forward_B [OF that k(3)]) (rule nth_forward_theta [OF st])
  let ?o1 = "map (\<lambda>(x, y). if (x * 5 + y) * 64 \<ge> n then get_lane init x y
      else mul_lane bit_ops (add_lane bit_ops (get_lane ?B x ((y + 1) mod 5))
        (map (\<lambda>i. load_const_1_bit_and_combine bit_ops 1 0) [0..<VOLEKECCAK_W])) (get_lane ?B x ((y + 2) mod 5))) lane_pairs"
  let ?o2 = "map (\<lambda>(x, y). if (x * 5 + y) * 64 \<ge> n then get_lane ?o1 x y
      else add_lane bit_ops (get_lane ?o1 x y) (get_lane ?B x y)) lane_pairs"
  have o1: "?o1 ! (y * 5 + x) ! z = (\<not> ?P ((x + 1) mod 5) y z \<and> ?P ((x + 2) mod 5) y z)"
    using k out by (subst nth_map_pairs) (simp_all add: get_lane_def nth_lanes B load_const_1_bit_and_combine_def VOLEKECCAK_W_def)
  have o2: "?o2 ! (y * 5 + x) ! z = chi ?P x y z"
    using k out o1 by (subst nth_map_pairs) (simp_all add: get_lane_def nth_lanes B chi_def bxor_commute)
  have "keccak_forward bit_ops ir st init n = ?o2[0 := add_lane bit_ops (get_lane ?o2 0 0) (round_const_lane bit_ops ir)]"
    by (simp only: keccak_forward_def Let_def)
  moreover have "length ?o2 = 25" by simp
  ultimately show ?thesis
    using o2 k ir by (auto simp: keccak_round_def iota_def get_lane_def nth_list_update nth_lanes nth_round_const_lane)
qed

subsection \<open>The inverse of theta\<close>

text \<open>\<open>parity_map pw\<close> is the power \<open>L^pw\<close>, for \<open>pw\<close> a power of two, of the map
  \<open>L = I + P^-1 + R P\<close> that theta applies to the column parities.\<close>

definition parity_map :: "nat \<Rightarrow> (nat \<Rightarrow> nat \<Rightarrow> bool) \<Rightarrow> nat \<Rightarrow> nat \<Rightarrow> bool" where
  "parity_map pw f x z = bxor (bxor (f x z) (f ((x + 5 - pw mod 5) mod 5) z))
     (f ((x + pw mod 5) mod 5) ((z + 64 - pw mod 64) mod 64))"

lemma mod_sub_twice:
  assumes "q < m"
  shows "((z + m - q) mod m + m - q) mod m = (z + m - (2 * q) mod m) mod (m :: nat)"
proof -
  have "((z + m - q) mod m + m - q) mod m = (((z + m - q) mod m) + (m - q)) mod m" using assms by simp
  also have "\<dots> = ((z + m - q) + (m - q)) mod m" by (rule mod_add_left_eq)
  also have "\<dots> = (z + m - (2 * q) mod m) mod m"
  proof (cases "2 * q < m")
    case True
    then have "(z + m - q) + (m - q) = (z + m - (2 * q) mod m) + m" by simp
    then show ?thesis by simp
  next
    case False
    then have "(2 * q) mod m = 2 * q - m" using assms by (simp add: mod_nat_eqI)
    then have "(z + m - q) + (m - q) = z + m - (2 * q) mod m" using assms False by simp
    then show ?thesis by simp
  qed
  finally show ?thesis .
qed

lemma mod_sub_add: "q < m \<Longrightarrow> x < m \<Longrightarrow> ((x + m - q) mod m + q) mod m = (x :: nat)"
  by (simp add: mod_simps)

lemma mod_add_sub:
  assumes "q < m" "x < m"
  shows "((x + q) mod m + m - q) mod m = (x :: nat)"
proof -
  have "((x + q) mod m + m - q) mod m = ((x + q) mod m + (m - q)) mod m" using assms by simp
  also have "\<dots> = (x + q + (m - q)) mod m" by (rule mod_add_left_eq)
  finally show ?thesis using assms by simp
qed

lemma parity_map_twice:
  assumes "x < 5"
  shows "parity_map p (parity_map p f) x z = parity_map (2 * p) f x z"
proof -
  have q: "p mod 5 < 5" "p mod 64 < 64" by simp_all
  have two: "2 * p mod 5 = 2 * (p mod 5) mod 5" "2 * p mod 64 = 2 * (p mod 64) mod 64" by (simp_all add: mod_simps)
  have "((x + p mod 5) mod 5 + p mod 5) mod 5 = (x + 2 * (p mod 5) mod 5) mod 5" by (simp add: mod_simps mult_2 add.assoc)
  then show ?thesis
    unfolding parity_map_def two mod_sub_twice [OF q(1)] mod_sub_twice [OF q(2)] mod_sub_add [OF q(1) assms]
      mod_add_sub [OF q(1) assms] by (simp add: bxor_ac)
qed

lemma parity_map_inverse:
  assumes "x < 5" "z < 64"
  shows "parity_map 128 (parity_map 64 f) x z = f x z"
  using less_5_cases [OF assms(1)] assms(2) by (elim disjE) (simp_all add: parity_map_def bxor_ac)

lemma parity_map_cong:
  "(\<And>x z. x < 5 \<Longrightarrow> z < 64 \<Longrightarrow> f x z = g x z) \<Longrightarrow> x < 5 \<Longrightarrow> z < 64 \<Longrightarrow> parity_map pw f x z = parity_map pw g x z"
  by (simp add: parity_map_def)

lemma nth_theta_pass:
  assumes "x < 5" "z < 64"
  shows "theta_pass bxor pw parity ! x ! z = parity_map pw (\<lambda>x z. parity ! x ! z) x z"
  using assms by (simp add: theta_pass_def parity_map_def Let_def)

lemma theta_passes:
  assumes par: "\<And>x z. x < 5 \<Longrightarrow> z < 64 \<Longrightarrow> parity ! x ! z = parity_map 1 f x z" and xz: "x < 5" "z < 64"
  shows "fold (theta_pass bxor) [1, 2, 4, 8, 16, 32, 128] parity ! x ! z = f x z"
proof -
  let ?T = "theta_pass bxor"
  have step: "\<forall>x<5. \<forall>z<64. ?T p par ! x ! z = parity_map (2 * p) f x z"
    if "\<forall>x<5. \<forall>z<64. par ! x ! z = parity_map p f x z" for p par
  proof (intro allI impI)
    fix x z :: nat assume "x < 5" "z < 64"
    then show "?T p par ! x ! z = parity_map (2 * p) f x z"
      using that parity_map_cong [of "\<lambda>x z. par ! x ! z" "parity_map p f" x z p]
      by (simp add: nth_theta_pass parity_map_twice)
  qed
  have "\<forall>x<5. \<forall>z<64. parity ! x ! z = parity_map 1 f x z" using par by blast
  note this [THEN step, simplified, THEN step, simplified, THEN step, simplified, THEN step, simplified,
      THEN step, simplified, THEN step, simplified]
  then have "parity_map 128 (\<lambda>x z. ?T 32 (?T 16 (?T 8 (?T 4 (?T 2 (?T 1 parity))))) ! x ! z) x z = parity_map 128 (parity_map 64 f) x z"
    by (intro parity_map_cong xz) simp
  then show ?thesis using xz by (simp add: nth_theta_pass parity_map_inverse)
qed

lemma column_parity_theta:
  "x < 5 \<Longrightarrow> z < 64 \<Longrightarrow> column_parity (theta A) x z = parity_map 1 (column_parity A) x z"
  unfolding column_parity_def theta_def parity_map_def by (simp add: bxor_ac add.commute)

theorem inverse_theta_correct:
  "inverse_theta bxor (to_lanes (theta A)) = to_lanes A"
proof (rule lanes_eqI)
  show "lanes_ok (inverse_theta bxor (to_lanes (theta A)))"
    unfolding inverse_theta_def Let_def by (rule lanes_ok_map_pairs) simp
  fix y x z :: nat assume k: "y < 5" "x < 5" "z < 64"
  let ?q = "map (\<lambda>x. map (\<lambda>z. fold (\<lambda>y c. bxor c (to_lanes (theta A) ! (y * 5 + x) ! z)) [1..<5] (to_lanes (theta A) ! x ! z)) [0..<64]) [0..<5]"
  let ?p = "fold (theta_pass bxor) [1, 2, 4, 8, 16, 32, 128] ?q"
  have upt: "[1..<5] = [1, 2, 3, 4 :: nat]" by (simp add: upt_rec)
  have "?q ! x ! z = parity_map 1 (column_parity A) x z" if "x < 5" "z < 64" for x z
  proof -
    have "?q ! x ! z = column_parity (theta A) x z"
      using that nth_to_lanes [of x 0 z "theta A"] nth_to_lanes [of x 1 z "theta A"] nth_to_lanes [of x 2 z "theta A"]
        nth_to_lanes [of x 3 z "theta A"] nth_to_lanes [of x 4 z "theta A"]
      unfolding column_parity_def upt by (simp add: bxor_assoc)
    with that show ?thesis by (simp only: column_parity_theta)
  qed
  then have p: "?p ! x ! z = column_parity A x z" if "x < 5" "z < 64" for x z
    using theta_passes that by blast
  have "inverse_theta bxor (to_lanes (theta A)) ! (y * 5 + x) ! z
      = bxor (theta A x y z) (bxor (?p ! ((x + 4) mod 5) ! z) (?p ! ((x + 1) mod 5) ! ((z + 63) mod 64)))"
    using k unfolding inverse_theta_def Let_def by (subst nth_map_pairs) (simp_all add: nth_to_lanes)
  also have "\<dots> = bxor (theta A x y z) (bxor (column_parity A ((x + 4) mod 5) z) (column_parity A ((x + 1) mod 5) ((z + 63) mod 64)))"
    using p [of "(x + 4) mod 5" z] p [of "(x + 1) mod 5" "(z + 63) mod 64"] k(3) by (simp only: mod_less_divisor zero_less_numeral)
  also have "\<dots> = A x y z" by (simp add: theta_def bxor_ac)
  finally show "inverse_theta bxor (to_lanes (theta A)) ! (y * 5 + x) ! z = to_lanes A ! (y * 5 + x) ! z"
    using k by (simp add: nth_to_lanes)
qed simp

subsection \<open>The inverse of a round\<close>

text \<open>Rows of five bits: the degree-three formula inverts chi.\<close>

lemma nth_chi_sum:
  assumes "z < 64"
  shows "chi_sum bit_ops st y (l0, l1, l2) [(q0, q1), (q2, q3), (q4, q5)] (c0, c1, c2) ! z =
    (let b = (\<lambda>x. st ! (y * 5 + x) ! z)
     in bxor (bxor (bxor (bxor (bxor (bxor (b l0) (b l1)) (b l2)) (b q0 \<and> b q1)) (b q2 \<and> b q3)) (b q4 \<and> b q5)) ((b c0 \<and> b c1) \<and> b c2))"
  using assms by (simp add: chi_sum_def nth_lanes get_lane_def)

lemma nth_inverse_chi_row:
  assumes "\<And>x. x < 5 \<Longrightarrow> st ! (y * 5 + x) ! z = chi P x y z" and "x < 5" "y < 5" "z < 64"
  shows "inverse_chi_row bit_ops st y ! x ! z = P x y z"
proof -
  have b: "st ! (y * 5) ! z = chi P 0 y z" "st ! (y * 5 + 1) ! z = chi P 1 y z" "st ! Suc (y * 5) ! z = chi P 1 y z" "st ! Suc (Suc (y * 5)) ! z = chi P 2 y z"
    "st ! (y * 5 + 2) ! z = chi P 2 y z" "st ! (y * 5 + 3) ! z = chi P 3 y z" "st ! (y * 5 + 4) ! z = chi P 4 y z"
    using assms(1) [of 0] assms(1) [of 1] assms(1) [of 2] assms(1) [of 3] assms(1) [of 4] by (simp_all add: numeral_2_eq_2)
  have c: "chi P 0 y z = bxor (P 0 y z) (\<not> P 1 y z \<and> P 2 y z)" "chi P 1 y z = bxor (P 1 y z) (\<not> P 2 y z \<and> P 3 y z)"
    "chi P (Suc 0) y z = bxor (P 1 y z) (\<not> P 2 y z \<and> P 3 y z)"
    "chi P 2 y z = bxor (P 2 y z) (\<not> P 3 y z \<and> P 4 y z)" "chi P 3 y z = bxor (P 3 y z) (\<not> P 4 y z \<and> P 0 y z)"
    "chi P 4 y z = bxor (P 4 y z) (\<not> P 0 y z \<and> P 1 y z)" by (simp_all add: chi_def numeral_2_eq_2)
  show ?thesis
    using less_5_cases [OF assms(2)]
    by (elim disjE; simp add: inverse_chi_row_def nth_chi_sum [OF assms(4)] Let_def b c;
        cases "P 0 y z"; cases "P 1 y z"; cases "P 2 y z"; cases "P 3 y z"; cases "P 4 y z"; simp)
qed

lemma length_inverse_chi_row [simp]: "length (inverse_chi_row K st y) = 5"
  by (simp add: inverse_chi_row_def)

lemma length_chi_sum [simp]: "length (chi_sum K st y lin quad cub) = 64"
  by (simp add: chi_sum_def Let_def split: prod.split)

lemma rows_eq: "concat (map f [0..<5]) = f 0 @ f 1 @ f 2 @ f 3 @ f 4"
  by (simp add: upt_5)

lemma nth_rows:
  assumes "\<And>y. length (f y) = 5" "x < 5" "y < 5"
  shows "concat (map f [0..<5]) ! (y * 5 + x) = f y ! x"
  unfolding rows_eq using less_5_cases [OF assms(3)] assms(2) by (elim disjE) (simp_all add: nth_append assms(1))

lemma lanes_ok_rows: "lanes_ok (concat (map (inverse_chi_row K st) [0..<5]))"
  by (auto simp: lanes_ok_def rows_eq inverse_chi_row_def)

lemma backward_unrotate_alt:
  "backward_unrotate tmp = fold (\<lambda>p out. out[visit p := (\<lambda>p l. rot_lane (get_lane tmp (fst p) (snd p))
     (VOLEKECCAK_W - ROTATION_OFFSET ! ((fst p * 3 * 5 + snd p * 5 + snd p) mod 25))) p (out ! visit p)]) lane_pairs tmp"
  unfolding backward_unrotate_def Let_def visit_def case_prod_beta ..

lemma lanes_ok_unrotate:
  assumes "lanes_ok tmp"
  shows "lanes_ok (backward_unrotate tmp)"
proof -
  have "lanes_ok st \<Longrightarrow> lanes_ok (fold (\<lambda>p st. st[visit p := rot_lane (g p) (h p)]) ps st)" for st :: "'a lanes" and ps g h
    by (induction ps arbitrary: st) (simp_all add: lanes_ok_update)
  from this [OF assms] show ?thesis unfolding backward_unrotate_def Let_def visit_def case_prod_beta .
qed

lemma backward_unrotate_correct:
  assumes "lanes_ok tmp" and tmp: "\<And>x y z. x < 5 \<Longrightarrow> y < 5 \<Longrightarrow> z < 64 \<Longrightarrow> tmp ! (y * 5 + x) ! z = pi_step (rho A) x y z"
  shows "backward_unrotate tmp = to_lanes A"
proof (rule lanes_eqI)
  show "lanes_ok (backward_unrotate tmp)" by (rule lanes_ok_unrotate [OF assms(1)])
  fix y x z :: nat assume k: "y < 5" "x < 5" "z < 64"
  note v = visitor [OF k(2,1)]
  define a where "a = fst (visitor y x)"
  have a: "a < 5" "(a * 3 + y) mod 5 = x" using v by (simp_all add: a_def)
  have "visit (visitor y x) < length tmp" using assms(1) k by (simp add: lanes_ok_def v)
  from fold_updates [OF visit_distinct v(2) this, of "\<lambda>p l. rot_lane (get_lane tmp (fst p) (snd p))
     (VOLEKECCAK_W - ROTATION_OFFSET ! ((fst p * 3 * 5 + snd p * 5 + snd p) mod 25))"]
  have "backward_unrotate tmp ! (y * 5 + x) = rot_lane (tmp ! (a * 5 + y)) (64 - rho_offset x y)"
    by (simp only: backward_unrotate_alt v rotation_table [OF a(1) k(1)] a a_def [symmetric] get_lane_def VOLEKECCAK_W_def)
  moreover have "tmp ! (a * 5 + y) ! j = A x y ((j + (64 - rho_offset x y)) mod 64)" if "j < 64" for j
    using tmp [OF k(1) a(1) that] a(2) by (simp add: pi_step_def rho_def ac_simps)
  moreover have "((z + (64 - (64 - rho_offset x y) mod 64)) mod 64 + (64 - rho_offset x y)) mod 64 = z"
    using rho_offset_less [of x y] k(3) mod_add_sub [of "rho_offset x y" 64 z]
    by (cases "rho_offset x y = 0") (simp_all add: mod_simps)
  ultimately show "backward_unrotate tmp ! (y * 5 + x) ! z = to_lanes A ! (y * 5 + x) ! z"
    using k by (simp add: nth_rot_lane nth_to_lanes)
qed simp

text \<open>Undoing a round.\<close>

theorem keccak_backward_round:
  assumes "ir < 24"
  shows "keccak_backward bit_ops ir (to_lanes (keccak_round ir A)) = to_lanes A"
proof -
  let ?t = "to_lanes (keccak_round ir A)" and ?P = "pi_step (rho (theta A))"
  let ?s = "?t[0 := add_lane bit_ops (get_lane ?t 0 0) (round_const_lane bit_ops ir)]"
  let ?out = "concat (map (inverse_chi_row bit_ops ?s) [0..<5])"
  have s: "?s ! (y * 5 + x) ! z = chi ?P x y z" if k: "x < 5" "y < 5" "z < 64" for x y z
  proof (cases "x = 0 \<and> y = 0")
    case True
    then show ?thesis using k nth_to_lanes [of 0 0 z "keccak_round ir A"] assms lanes_ok_to_lanes [of "keccak_round ir A"]
      by (simp add: lanes_ok_def get_lane_def nth_lanes nth_round_const_lane keccak_round_def iota_def bxor_ac)
  next
    case False
    then have "0 \<noteq> y * 5 + x" by auto
    then have "?s ! (y * 5 + x) = ?t ! (y * 5 + x)" by (rule nth_list_update_neq)
    then show ?thesis using k False by (auto simp: nth_to_lanes keccak_round_def iota_def)
  qed
  have "?out ! (y * 5 + x) ! z = ?P x y z" if "x < 5" "y < 5" "z < 64" for x y z
    using that nth_inverse_chi_row [of ?s y z ?P x] s by (simp add: nth_rows)
  then have "backward_unrotate ?out = to_lanes (theta A)"
    by (intro backward_unrotate_correct lanes_ok_rows)
  then show ?thesis by (simp add: keccak_backward_def Let_def inverse_theta_correct)
qed

text \<open>A round is a bijection of the states, so undoing it first gives it back too.\<close>

lemma to_lanes_kbit: "lanes_ok s \<Longrightarrow> to_lanes (kbit s) = s"
  by (rule lanes_eqI) (simp_all add: nth_to_lanes kbit_def)

lemma finite_lanes: "finite {s :: bool lanes. lanes_ok s}"
proof -
  have "finite {l :: bool list. set l \<subseteq> UNIV \<and> length l = 64}" by (rule finite_lists_length_eq) simp
  then have "finite {s. set s \<subseteq> {l :: bool list. set l \<subseteq> UNIV \<and> length l = 64} \<and> length s = 25}"
    by (rule finite_lists_length_eq)
  moreover have "{s :: bool lanes. lanes_ok s} = {s. set s \<subseteq> {l. set l \<subseteq> UNIV \<and> length l = 64} \<and> length s = 25}"
    by (auto simp: lanes_ok_def)
  ultimately show ?thesis by simp
qed

lemma keccak_backward_ok: "lanes_ok (keccak_backward K ir s)"
  unfolding keccak_backward_def inverse_theta_def Let_def by (rule lanes_ok_map_pairs) simp

theorem keccak_round_backward:
  assumes ir: "ir < 24" and s: "lanes_ok s"
  shows "to_lanes (keccak_round ir (kbit (keccak_backward bit_ops ir s))) = s"
proof -
  let ?S = "{s :: bool lanes. lanes_ok s}" and ?F = "\<lambda>s. to_lanes (keccak_round ir (kbit s))"
  have left: "keccak_backward bit_ops ir (?F t) = t" if "lanes_ok t" for t
    using keccak_backward_round [OF ir, of "kbit t"] that by (simp add: to_lanes_kbit)
  have "inj_on ?F ?S" by (rule inj_on_inverseI [of _ "keccak_backward bit_ops ir"]) (simp add: left)
  moreover have "?F ` ?S \<subseteq> ?S" by auto
  ultimately have "?F ` ?S = ?S" using endo_inj_surj [OF finite_lanes] by blast
  then obtain t where "lanes_ok t" "s = ?F t" using s by blast
  then show ?thesis using left by simp
qed

end
