(* ===== verification/Vole_Native.thy ===== *)
theory Vole_Native
  imports Vole_Engine Fips202
begin

text \<open>
  What the circuit computes in \<open>NativeContext\<close>. \<open>means p m C v\<close> says of a piece \<open>m\<close> of the
  circuit, run on the primary witness \<open>p\<close> with validation on, that it throws unless
  \<open>C\<close> holds, and then returns \<open>v\<close>; it composes along \<open>seq\<close> and the loops, and each gadget
  gets one such lemma.
\<close>

subsection \<open>Invariant of the context\<close>

definition witness_bit :: "native_context \<Rightarrow> nat \<Rightarrow> bool" where
  "witness_bit s i = bit (nc_witness s ! (i div 8)) (i mod 8)"

definition native_inv :: "bytes \<Rightarrow> native_context \<Rightarrow> bool" where
  "native_inv p s \<longleftrightarrow> nc_check s \<and> length p = kPrimaryBytes \<and> kPrimaryBytes * 8 \<le> nc_cursor s \<and>
     length (nc_witness s) = (nc_cursor s + 7) div 8 \<and> take kPrimaryBytes (nc_witness s) = p \<and>
     (\<forall>i\<ge>nc_cursor s. i < 8 * length (nc_witness s) \<longrightarrow> \<not> witness_bit s i)"

text \<open>What an allocation does to the witness.\<close>

definition push_witness :: "bool \<Rightarrow> native_context \<Rightarrow> native_context" where
  "push_witness v s =
     (let c = nc_cursor s;
          w = (if c div 8 \<ge> length (nc_witness s) then nc_witness s @ [0] else nc_witness s)
      in s\<lparr>nc_witness := w[c div 8 := w ! (c div 8) OR push_bit (c mod 8) (of_bool v)], nc_cursor := c + 1\<rparr>)"

lemma n_allocate_eq: "n_allocate v s = Inr (v, push_witness v s)"
  by (simp add: n_allocate_def push_witness_def Let_def)

lemma push_witness_simps [simp]:
  "nc_cursor (push_witness v s) = nc_cursor s + 1" "nc_constraints (push_witness v s) = nc_constraints s"
  "nc_permutations (push_witness v s) = nc_permutations s" "nc_check (push_witness v s) = nc_check s"
  by (simp_all add: push_witness_def Let_def)

lemma push_witness_inv:
  assumes "native_inv p s"
  shows "native_inv p (push_witness v s)"
    and "\<And>i. i < nc_cursor s \<Longrightarrow> witness_bit (push_witness v s) i = witness_bit s i"
    and "witness_bit (push_witness v s) (nc_cursor s) = v"
proof -
  define c where "c = nc_cursor s"
  define w where "w = (if c div 8 \<ge> length (nc_witness s) then nc_witness s @ [0] else nc_witness s)"
  have len: "length (nc_witness s) = (c + 7) div 8" and prim8: "kPrimaryBytes * 8 \<le> c"
    and zero: "\<And>i. c \<le> i \<Longrightarrow> i < 8 * length (nc_witness s) \<Longrightarrow> \<not> witness_bit s i"
    using assms unfolding native_inv_def c_def by blast+
  have prim: "kPrimaryBytes \<le> c div 8" using prim8 by (simp add: less_eq_div_iff_mult_less_eq)
  have lw: "length w = c div 8 + 1"
  proof -
    define k r where "k = c div 8" and "r = c mod 8"
    have c: "c = 8 * k + r" and r: "r < 8" by (simp_all add: k_def r_def)
    have "(c + 7) div 8 = k + (r + 7) div 8" unfolding c by (simp add: add.assoc)
    moreover have "(r + 7) div 8 = (if r = 0 then 0 else 1)" using r by (auto simp: div_nat_eqI)
    ultimately show ?thesis by (simp add: w_def len k_def [symmetric])
  qed
  have w_nth: "w ! k = nc_witness s ! k" if "k < length (nc_witness s)" for k
    using that by (simp add: w_def nth_append)
  have w_last: "\<not> bit (w ! (c div 8)) j" if "c mod 8 \<le> j" "j < 8" for j
  proof (cases "c div 8 < length (nc_witness s)")
    case True
    have "(8 * (c div 8) + j) div 8 = c div 8" "(8 * (c div 8) + j) mod 8 = j" using that by auto
    moreover have "c \<le> 8 * (c div 8) + j" using that div_mult_mod_eq [of c 8] by linarith
    moreover have "8 * (c div 8) + j < 8 * length (nc_witness s)" using True that by linarith
    ultimately show ?thesis using zero [of "8 * (c div 8) + j"] True by (simp add: witness_bit_def w_nth)
  next
    case False
    then have "w ! (c div 8) = 0" using lw by (auto simp: w_def nth_append split: if_splits)
    then show ?thesis by simp
  qed
  let ?w = "w[c div 8 := w ! (c div 8) OR push_bit (c mod 8) (of_bool v)]"
  have wit: "nc_witness (push_witness v s) = ?w" by (simp add: push_witness_def Let_def w_def c_def)
  have bit: "witness_bit (push_witness v s) i =
      (if i div 8 = c div 8 then bit (w ! (c div 8)) (i mod 8) \<or> (i mod 8 = c mod 8 \<and> v) else bit (w ! (i div 8)) (i mod 8))"
    if "i div 8 \<le> c div 8" for i
    using that lw by (auto simp: witness_bit_def wit bit_simps nth_list_update)
  show same: "witness_bit (push_witness v s) i = witness_bit s i" if i: "i < nc_cursor s" for i
  proof -
    have i': "i < c" using i by (simp add: c_def)
    then have "i div 8 < length (nc_witness s)" by (simp add: len)
    moreover have le: "i div 8 \<le> c div 8" using i' by (simp add: div_le_mono)
    moreover have "i mod 8 \<noteq> c mod 8" if "i div 8 = c div 8" using i' that by (metis div_mult_mod_eq nat_neq_iff)
    ultimately show ?thesis unfolding bit [OF le] by (auto simp: w_nth witness_bit_def)
  qed
  show "witness_bit (push_witness v s) (nc_cursor s) = v"
    using bit [of c] w_last [of "c mod 8"] by (simp add: c_def)
  have "length ?w = (nc_cursor (push_witness v s) + 7) div 8" using lw by (simp add: c_def)
  moreover have "take kPrimaryBytes ?w = p"
  proof -
    have "take kPrimaryBytes ?w = take kPrimaryBytes w" using prim by (simp add: take_update_cancel)
    also have "\<dots> = take kPrimaryBytes (nc_witness s)" using prim len by (auto simp: w_def)
    finally show ?thesis using assms by (simp add: native_inv_def)
  qed
  moreover have "\<not> witness_bit (push_witness v s) i" if i: "nc_cursor s + 1 \<le> i" "i < 8 * length ?w" for i
  proof -
    have "i div 8 = c div 8" using i lw by (simp add: c_def)
    moreover have "c mod 8 < i mod 8" using i(1) \<open>i div 8 = c div 8\<close> c_def
      by (metis Suc_eq_plus1 Suc_le_lessD add_less_cancel_left mult_div_mod_eq)
    ultimately show ?thesis using bit [of i] w_last [of "i mod 8"] by auto
  qed
  ultimately show "native_inv p (push_witness v s)"
    using assms by (simp add: native_inv_def wit)
qed

subsection \<open>Meaning\<close>

definition means :: "bytes \<Rightarrow> (native_context, 'a) run \<Rightarrow> bool \<Rightarrow> 'a \<Rightarrow> bool" where
  "means p m C v \<longleftrightarrow> (\<forall>s. native_inv p s \<longrightarrow>
     (if C then \<exists>s'. m s = Inr (v, s') \<and> native_inv p s' else \<exists>e. m s = Inl e))"

lemma meansI:
  "(\<And>s. native_inv p s \<Longrightarrow> C \<Longrightarrow> \<exists>s'. m s = Inr (v, s') \<and> native_inv p s') \<Longrightarrow>
   (\<And>s. native_inv p s \<Longrightarrow> \<not> C \<Longrightarrow> \<exists>e. m s = Inl e) \<Longrightarrow> means p m C v"
  by (simp add: means_def)

lemma means_ret [intro]: "means p (ret x) True x"
  by (simp add: means_def ret_def)

lemma means_seq:
  assumes "means p m C x" "C \<Longrightarrow> means p (f x) D y"
  shows "means p (seq m f) (C \<and> D) y"
proof (rule meansI)
  fix s assume s: "native_inv p s"
  show "\<exists>s'. seq m f s = Inr (y, s') \<and> native_inv p s'" if "C \<and> D"
  proof -
    from assms(1) s that obtain s1 where "m s = Inr (x, s1)" "native_inv p s1" by (auto simp: means_def)
    then show ?thesis using assms(2) that by (auto simp: means_def seq_def)
  qed
  show "\<exists>e. seq m f s = Inl e" if no: "\<not> (C \<and> D)"
  proof (cases C)
    case True
    from assms(1) s True obtain s1 where "m s = Inr (x, s1)" "native_inv p s1" by (auto simp: means_def)
    then show ?thesis using assms(2) [OF True] no True by (auto simp: means_def seq_def)
  next
    case False
    then show ?thesis using assms(1) s by (auto simp: means_def seq_def)
  qed
qed

text \<open>The same with one side condition free, and the rule that changes the description.\<close>

lemma means_seq_T: "means p m True x \<Longrightarrow> means p (f x) D y \<Longrightarrow> means p (seq m f) D y"
  using means_seq [of p m True x f D y] by simp

lemma means_cong: "means p m C v \<Longrightarrow> C = D \<Longrightarrow> (D \<Longrightarrow> v = w) \<Longrightarrow> means p m D w"
  by (cases D) (auto simp: means_def)

fun loop_ok :: "('x \<Rightarrow> 'a \<Rightarrow> bool) \<Rightarrow> ('x \<Rightarrow> 'a \<Rightarrow> 'a) \<Rightarrow> 'x list \<Rightarrow> 'a \<Rightarrow> bool" where
  "loop_ok c g [] a = True"
| "loop_ok c g (x # xs) a = (c x a \<and> loop_ok c g xs (g x a))"

lemma means_loop:
  assumes "\<And>x a. x \<in> set xs \<Longrightarrow> J a \<Longrightarrow> means p (f x a) (c x a) (g x a)"
    and "\<And>x a. x \<in> set xs \<Longrightarrow> J a \<Longrightarrow> c x a \<Longrightarrow> J (g x a)" and "J a"
  shows "means p (loop f xs a) (loop_ok c g xs a) (fold g xs a)"
  using assms
proof (induction xs arbitrary: a)
  case Nil
  then show ?case by (simp add: means_ret)
next
  case (Cons x xs)
  have "means p (seq (f x a) (loop f xs)) (c x a \<and> loop_ok c g xs (g x a)) (fold g xs (g x a))"
    by (rule means_seq) (use Cons in auto)
  then show ?case by simp
qed

lemma means_loop_T:
  assumes "\<And>x a. x \<in> set xs \<Longrightarrow> J a \<Longrightarrow> means p (f x a) True (g x a)"
    and "\<And>x a. x \<in> set xs \<Longrightarrow> J a \<Longrightarrow> J (g x a)" and "J a"
  shows "means p (loop f xs a) True (fold g xs a)"
proof -
  have "loop_ok (\<lambda>_ _. True) g ys b" for ys b by (induction ys arbitrary: b) auto
  then show ?thesis using means_loop [of xs J p f "\<lambda>_ _. True" g a] assms by simp
qed

lemma means_collect_T:
  assumes "\<And>x. x \<in> set xs \<Longrightarrow> means p (f x) True (g x)"
  shows "means p (collect f xs) True (map g xs)"
  using assms
proof (induction xs)
  case (Cons x xs)
  have "means p (seq (f x) (\<lambda>y. seq (collect f xs) (\<lambda>ys. ret (y # ys)))) True (g x # map g xs)"
    by (rule means_seq_T, rule Cons.prems, simp, rule means_seq_T, rule Cons.IH, rule Cons.prems, simp, rule means_ret)
  then show ?case by simp
qed (simp add: means_ret)

subsection \<open>The operations of the context\<close>

definition primary_bits :: "bytes \<Rightarrow> nat \<Rightarrow> nat \<Rightarrow> bool list" where
  "primary_bits p off n = map (\<lambda>i. bit (p ! ((off * 8 + i) div 8)) ((off * 8 + i) mod 8)) [0..<n * 8]"

lemma native_inv_nth:
  assumes "native_inv p s" "k < kPrimaryBytes"
  shows "k < length (nc_witness s)" "nc_witness s ! k = p ! k"
proof -
  have len: "length p = kPrimaryBytes" and t: "take kPrimaryBytes (nc_witness s) = p"
    using assms(1) by (simp_all add: native_inv_def)
  have "kPrimaryBytes \<le> length (nc_witness s)" using len t by (metis length_take min.absorb_iff2 nat_le_linear min_def)
  then show "k < length (nc_witness s)" using assms(2) by simp
  show "nc_witness s ! k = p ! k" using assms(2) unfolding t [symmetric] by simp
qed

lemma means_bit: "i < kPrimaryBytes * 8 \<Longrightarrow> means p (n_bit i) True (bit (p ! (i div 8)) (i mod 8))"
proof -
  assume "i < kPrimaryBytes * 8"
  then have "i div 8 < kPrimaryBytes" by (simp add: less_mult_imp_div_less)
  then show ?thesis using native_inv_nth by (auto simp: means_def n_bit_def)
qed

lemma means_allocate: "means p (n_allocate v) True v"
  by (auto simp: means_def n_allocate_eq push_witness_inv)

lemma native_inv_count: "native_inv p s \<Longrightarrow> native_inv p (s\<lparr>nc_constraints := n\<rparr>)"
  by (simp add: native_inv_def witness_bit_def)

lemma means_count: "means p (n_count n) True ()"
  by (simp add: means_def n_count_def native_inv_count)

lemma means_mul: "means p (n_mul a b) True (a \<and> b)"
  unfolding n_mul_def by (rule means_seq_T [OF means_count means_allocate])

lemma means_zero_bit: "means p (n_zero_bit a) (\<not> a) ()"
  unfolding n_zero_bit_def
  by (rule means_seq_T [OF means_count]) (auto simp: means_def native_inv_def)

lemma means_zero: "means p (n_zero a) (a = 0) ()"
  unfolding n_zero_def
  by (rule means_seq_T [OF means_count]) (auto simp: means_def native_inv_def)

text \<open>Packing: bit \<open>i\<close> of the list is the coefficient of \<open>X^i\<close>.\<close>

definition pack_bits :: "bool list \<Rightarrow> poly128" where
  "pack_bits bits = horner_sum of_bool 2 bits"

lemma bit_pack_bits: "bit (pack_bits bits) i \<longleftrightarrow> i < 128 \<and> i < length bits \<and> bits ! i"
  by (auto simp: pack_bits_def bit_horner_sum_bit_word_iff)

lemma pack_fold:
  assumes "n \<le> 128"
    and "b = fold (\<lambda>i b. b[i div 8 := b ! (i div 8) OR push_bit (i mod 8) (of_bool (bits ! i))]) [0..<n] (replicate 16 (0 :: byte))"
  shows "length b = 16 \<and> (\<forall>k<16. \<forall>j<8. bit (b ! k) j \<longleftrightarrow> 8 * k + j < n \<and> bits ! (8 * k + j))"
  using assms(1) unfolding assms(2)
proof (induction n)
  case 0
  show ?case by simp
next
  case (Suc n)
  let ?b = "fold (\<lambda>i b. b[i div 8 := b ! (i div 8) OR push_bit (i mod 8) (of_bool (bits ! i))]) [0..<n] (replicate 16 (0 :: byte))"
  have IH: "length ?b = 16" "\<And>k j. k < 16 \<Longrightarrow> j < 8 \<Longrightarrow> bit (?b ! k) j \<longleftrightarrow> 8 * k + j < n \<and> bits ! (8 * k + j)"
    using Suc by auto
  have n: "n div 8 < 16" using Suc.prems by simp
  have "bit ((?b[n div 8 := ?b ! (n div 8) OR push_bit (n mod 8) (of_bool (bits ! n))]) ! k) j \<longleftrightarrow>
      8 * k + j < Suc n \<and> bits ! (8 * k + j)" if kj: "k < 16" "j < 8" for k j
  proof -
    have eq: "8 * k + j = n \<longleftrightarrow> k = n div 8 \<and> j = n mod 8" using kj(2) by auto
    show ?thesis
    proof (cases "k = n div 8")
      case True
      then show ?thesis using kj n IH eq by (auto simp: bit_simps less_Suc_eq)
    next
      case False
      then show ?thesis using kj IH eq by (auto simp: less_Suc_eq)
    qed
  qed
  then show ?case using IH(1) by simp
qed

lemma means_pack: "means p (n_pack bits) (length bits \<le> 128) (pack_bits bits)"
proof (cases "length bits \<le> 128")
  case True
  let ?b = "fold (\<lambda>i b. b[i div 8 := b ! (i div 8) OR push_bit (i mod 8) (of_bool (bits ! i))]) [0..<length bits] (replicate 16 (0 :: byte))"
  note f = pack_fold [OF True refl, of bits]
  have "load_le ?b = pack_bits bits"
  proof (rule bit_word_eqI)
    fix i assume "i < LENGTH(128)"
    then have i: "i div 8 < 16" "i mod 8 < 8" by simp_all
    have "bit (?b ! (i div 8)) (i mod 8) \<longleftrightarrow> 8 * (i div 8) + i mod 8 < length bits \<and> bits ! (8 * (i div 8) + i mod 8)"
      using f i by blast
    then show "bit (load_le ?b :: poly128) i = bit (pack_bits bits) i"
      using f i by (simp add: bit_load_le bit_pack_bits)
  qed
  then show ?thesis using True by (auto simp: n_pack_def Let_def intro: means_cong [OF means_ret])
next
  case False
  then show ?thesis by (simp add: n_pack_def means_def throw_def)
qed

lemma means_pack_T: "length bits \<le> 128 \<Longrightarrow> means p (n_pack bits) True (pack_bits bits)"
  using means_pack [of p bits] by simp

definition low_bits :: "poly128 \<Rightarrow> nat \<Rightarrow> bool list" where
  "low_bits a n = map (bit a) [0..<n]"

lemma nth_low_bits: "i < n \<Longrightarrow> low_bits a n ! i = bit a i"
  by (simp add: low_bits_def)

lemma length_low_bits [simp]: "length (low_bits a n) = n"
  by (simp add: low_bits_def)

lemma pack_low_bits: "n \<le> 128 \<Longrightarrow> pack_bits (low_bits a n) = take_bit n a"
  by (rule bit_word_eqI) (auto simp: bit_pack_bits nth_low_bits bit_take_bit_iff)

lemma word_xor_zero: "a XOR b = 0 \<longleftrightarrow> a = (b :: 'a::len word)"
  by (auto simp: bit_eq_iff bit_xor_iff)

lemma low_bits_pack: "length bits = n \<Longrightarrow> n \<le> 128 \<Longrightarrow> low_bits (pack_bits bits) n = bits"
  by (rule nth_equalityI) (simp_all add: low_bits_def bit_pack_bits)

lemma pack_bits_eq_iff: "length a = length b \<Longrightarrow> length a \<le> 128 \<Longrightarrow> pack_bits a = pack_bits b \<longleftrightarrow> a = b"
  by (metis low_bits_pack)

lemma low_bits_word: "n \<le> 128 \<Longrightarrow> map (\<lambda>i. bit (bytes_le 16 (a :: poly128) ! (i div 8)) (i mod 8)) [0..<n] = low_bits a n"
  by (auto simp: low_bits_def nth_bytes_le bit_simps)

lemma means_field_witness:
  assumes "n \<le> 128"
  shows "means p (n_field_witness a n) (take_bit n a = a) (low_bits a n)"
proof -
  have *: "means p (collect (\<lambda>i. n_allocate (bit (bytes_le 16 a ! (i div 8)) (i mod 8))) [0..<n]) True (low_bits a n)"
    using means_collect_T [of "[0..<n]" p "\<lambda>i. n_allocate (bit (bytes_le 16 a ! (i div 8)) (i mod 8))"
        "\<lambda>i. bit (bytes_le 16 a ! (i div 8)) (i mod 8)"] by (simp add: means_allocate low_bits_word [OF assms])
  have "means p (n_field_witness a n) (a XOR take_bit n a = 0 \<and> True) (low_bits a n)"
    unfolding n_field_witness_def Let_def
    by (rule means_seq_T [OF *], rule means_seq_T [OF means_pack_T], simp add: assms)
      (rule means_seq, simp only: pack_low_bits [OF assms], rule means_zero, rule means_ret)
  then show ?thesis by (rule means_cong) (auto simp: word_xor_zero)
qed

subsection \<open>The permutation\<close>

definition keccak_rounds :: "nat \<Rightarrow> kstate \<Rightarrow> kstate" where
  "keccak_rounds n A = fold keccak_round [0..<n] A"

text \<open>Keccak-f[1600] on the flat array of 1600 bits.\<close>

definition keccak_f :: "bool list \<Rightarrow> bool list" where
  "keccak_f s = concat (to_lanes (keccak_rounds 24 (kbit (blocks 64 25 s))))"

definition word_lanes :: "u64 list \<Rightarrow> bool lanes" where
  "word_lanes ws = map (\<lambda>w. map (bit w) [0..<64]) ws"

text \<open>
  Documented behaviour of the libraries: multiplication in GF(2^128) is the one of
  \<^verbatim>\<open>gf128.c\<close>, and the permutation returns Keccak-f with a snapshot after every
  \<open>kKeccakStride\<close> rounds.
\<close>

definition poly_ok :: "circuit_lib \<Rightarrow> bool" where
  "poly_ok L \<longleftrightarrow> (\<forall>x y. length x = 16 \<longrightarrow> length y = 16 \<longrightarrow> poly_mul L (load_le x) (load_le y) = load_le (gf128_mul x y))"

definition trace_ok :: "vconfig \<Rightarrow> circuit_lib \<Rightarrow> bool" where
  "trace_ok cfg L \<longleftrightarrow> (\<forall>words. length words = 25 \<longrightarrow>
     (let (final, trace) = permute_trace L words; A = kbit (word_lanes words)
      in word_lanes final = to_lanes (keccak_rounds 24 A) \<and> length trace = 100 \<and>
         (\<forall>j<kKeccakSnapshots cfg. word_lanes (segment (j * 25) 25 trace) = to_lanes (keccak_rounds ((j + 1) * kKeccakStride cfg) A))))"

definition cfg_ok :: "vconfig \<Rightarrow> bool" where
  "cfg_ok cfg \<longleftrightarrow> kProofDegree cfg \<in> {16, 32, 64}"

lemma nth_concat_lanes:
  assumes "length ls = n" "\<forall>l\<in>set ls. length l = 64" "i < n * 64"
  shows "concat ls ! i = ls ! (i div 64) ! (i mod 64)"
  using assms
proof (induction ls arbitrary: n i)
  case (Cons l ls)
  show ?case
  proof (cases "i < 64")
    case True
    then show ?thesis using Cons.prems by (simp add: nth_append)
  next
    case False
    then have "i div 64 = Suc ((i - 64) div 64)" "i mod 64 = (i - 64) mod 64"
      by (simp_all add: le_div_geq le_mod_geq)
    then show ?thesis using Cons.IH [of "length ls" "i - 64"] Cons.prems False by (simp add: nth_append)
  qed
qed simp

lemma length_concat_lanes: "lanes_ok ls \<Longrightarrow> length (concat ls) = 1600"
  by (auto simp: lanes_ok_def length_concat_const [where w = 64])

lemma concat_lanes: "lanes_ok ls \<Longrightarrow> concat ls = map (\<lambda>i. ls ! (i div 64) ! (i mod 64)) [0..<1600]"
  by (rule nth_equalityI) (simp_all add: length_concat_lanes, simp add: lanes_ok_def nth_concat_lanes [where n = 25])

lemma blocks_concat_lanes: "lanes_ok ls \<Longrightarrow> blocks 64 25 (concat ls) = ls"
  by (rule blocks_concat0) (auto simp: lanes_ok_def)

lemma lanes_ok_blocks: "length s = 1600 \<Longrightarrow> lanes_ok (blocks 64 25 s)"
  by (auto simp: lanes_ok_def in_set_conv_nth length_nth_blocks)

lemma length_keccak_f [simp]: "length (keccak_f s) = 1600"
  by (simp add: keccak_f_def length_concat_lanes)

lemma state_words:
  assumes "n \<le> 1600"
    and "w = fold (\<lambda>i w. w[i div 64 := w ! (i div 64) OR push_bit (i mod 64) (of_bool (state ! i))]) [0..<n] (replicate 25 (0 :: u64))"
  shows "length w = 25 \<and> (\<forall>k<25. \<forall>j<64. bit (w ! k) j \<longleftrightarrow> 64 * k + j < n \<and> state ! (64 * k + j))"
  using assms(1) unfolding assms(2)
proof (induction n)
  case 0
  show ?case by simp
next
  case (Suc n)
  let ?w = "fold (\<lambda>i w. w[i div 64 := w ! (i div 64) OR push_bit (i mod 64) (of_bool (state ! i))]) [0..<n] (replicate 25 (0 :: u64))"
  have IH: "length ?w = 25" "\<And>k j. k < 25 \<Longrightarrow> j < 64 \<Longrightarrow> bit (?w ! k) j \<longleftrightarrow> 64 * k + j < n \<and> state ! (64 * k + j)"
    using Suc by auto
  have n: "n div 64 < 25" using Suc.prems by simp
  have "bit ((?w[n div 64 := ?w ! (n div 64) OR push_bit (n mod 64) (of_bool (state ! n))]) ! k) j \<longleftrightarrow>
      64 * k + j < Suc n \<and> state ! (64 * k + j)" if kj: "k < 25" "j < 64" for k j
  proof -
    have eq: "64 * k + j = n \<longleftrightarrow> k = n div 64 \<and> j = n mod 64" using kj(2) by auto
    show ?thesis
    proof (cases "k = n div 64")
      case True
      then show ?thesis using kj n IH eq by (auto simp: bit_simps less_Suc_eq)
    next
      case False
      then show ?thesis using kj IH eq by (auto simp: less_Suc_eq)
    qed
  qed
  then show ?case using IH(1) by simp
qed

lemma words_of_state:
  assumes "length state = 1600"
    and "w = fold (\<lambda>i w. w[i div 64 := w ! (i div 64) OR push_bit (i mod 64) (of_bool (state ! i))]) [0..<1600] (replicate 25 (0 :: u64))"
  shows "length w = 25" "word_lanes w = blocks 64 25 state"
proof -
  note f = state_words [OF order.refl assms(2)]
  show "length w = 25" using f by blast
  show "word_lanes w = blocks 64 25 state"
  proof (rule nth_equalityI)
    fix k assume "k < length (word_lanes w)"
    then have k: "k < 25" using f by (simp add: word_lanes_def)
    show "word_lanes w ! k = blocks 64 25 state ! k"
      using f k assms(1) by (intro nth_equalityI) (simp_all add: word_lanes_def nth_blocks segment_def mult.commute)
  qed (use f in \<open>simp add: word_lanes_def\<close>)
qed

text \<open>The bits the permutation allocates: the snapshots, and the first bits of the output.\<close>

lemma permute_bits:
  assumes cfg: "cfg_ok cfg" and L: "trace_ok cfg L" and state: "length state = 1600"
    and words: "words = fold (\<lambda>i w. w[i div 64 := w ! (i div 64) OR push_bit (i mod 64) (of_bool (state ! i))])
      [0..<1600] (replicate 25 (0 :: u64))"
    and pt: "permute_trace L words = (final, trace)"
  shows "j < kKeccakSnapshots cfg \<Longrightarrow> map (\<lambda>i. bit (trace ! (j * 25 + i div 64)) (i mod 64)) [0..<1600] =
      concat (to_lanes (keccak_rounds ((j + 1) * kKeccakStride cfg) (kbit (blocks 64 25 state))))"
    and "keep \<le> 1600 \<Longrightarrow> map (\<lambda>i. bit (final ! (i div 64)) (i mod 64)) [0..<keep] = take keep (keccak_f state)"
proof -
  note w = words_of_state [OF state words]
  let ?A = "kbit (blocks 64 25 state)"
  have fin: "word_lanes final = to_lanes (keccak_rounds 24 ?A)" and len: "length trace = 100" and
    snap: "\<And>j. j < kKeccakSnapshots cfg \<Longrightarrow> word_lanes (segment (j * 25) 25 trace) = to_lanes (keccak_rounds ((j + 1) * kKeccakStride cfg) ?A)"
    using L w by (auto simp: trace_ok_def Let_def pt dest!: spec [of _ words])
  have flat: "map (\<lambda>i. bit (ws ! (i div 64)) (i mod 64)) [0..<1600] = concat (to_lanes A)" if "word_lanes ws = to_lanes A" for ws A
  proof -
    have "length ws = 25" using arg_cong [OF that, of length] lanes_ok_to_lanes [of A] by (simp add: word_lanes_def lanes_ok_def)
    then show ?thesis
      using concat_lanes [OF lanes_ok_to_lanes, of A] by (auto simp: that [symmetric] word_lanes_def)
  qed
  show "map (\<lambda>i. bit (trace ! (j * 25 + i div 64)) (i mod 64)) [0..<1600] =
      concat (to_lanes (keccak_rounds ((j + 1) * kKeccakStride cfg) ?A))" if j: "j < kKeccakSnapshots cfg"
  proof -
    have "j < 4" using j cfg by (auto simp: cfg_ok_def kKeccakSnapshots_def kKeccakStride_def split: if_splits)
    then have "j * 25 \<le> length trace" using len by simp
    then have "map (\<lambda>i. bit (trace ! (j * 25 + i div 64)) (i mod 64)) [0..<1600] =
        map (\<lambda>i. bit (segment (j * 25) 25 trace ! (i div 64)) (i mod 64)) [0..<1600]"
      by (auto simp: segment_def)
    also have "\<dots> = concat (to_lanes (keccak_rounds ((j + 1) * kKeccakStride cfg) ?A))" by (rule flat) (rule snap [OF j])
    finally show ?thesis .
  qed
  show "map (\<lambda>i. bit (final ! (i div 64)) (i mod 64)) [0..<keep] = take keep (keccak_f state)" if "keep \<le> 1600"
    unfolding keccak_f_def flat [OF fin, symmetric] take_map using that by (simp add: take_upt)
qed

lemma snapshot_last: "cfg_ok cfg \<Longrightarrow> kProofDegree cfg \<noteq> 64 \<Longrightarrow> kKeccakSnapshots cfg * kKeccakStride cfg = 24"
  by (auto simp: cfg_ok_def kKeccakSnapshots_def kKeccakStride_def)

lemma snapshots_positive: "cfg_ok cfg \<Longrightarrow> 0 < kKeccakSnapshots cfg"
  by (auto simp: cfg_ok_def kKeccakSnapshots_def kKeccakStride_def)

lemma means_keccak:
  assumes cfg: "cfg_ok cfg" and L: "trace_ok cfg L" and state: "length state = 1600" and keep: "keep \<le> 1600"
  shows "means p (n_permute cfg L state keep) True (if kProofDegree cfg = 64 then take keep (keccak_f state) else keccak_f state)"
proof -
  define words where "words = fold (\<lambda>i w. w[i div 64 := w ! (i div 64) OR push_bit (i mod 64) (of_bool (state ! i))])
      [0..<1600] (replicate 25 (0 :: u64))"
  obtain final trace where pt: "permute_trace L words = (final, trace)" by fastforce
  note bits = permute_bits [OF cfg L state words_def pt]
  let ?snap = "\<lambda>j. map (\<lambda>i. bit (trace ! (j * 25 + i div 64)) (i mod 64)) [0..<1600]"
  have loop: "means p (loop (\<lambda>j state. collect (\<lambda>i. n_allocate (bit (trace ! (j * 25 + i div 64)) (i mod 64))) [0..<1600])
      [0..<kKeccakSnapshots cfg] state) True (fold (\<lambda>j _. ?snap j) [0..<kKeccakSnapshots cfg] state)"
    by (rule means_loop_T [where J = "\<lambda>_. True"]) (rule means_collect_T, rule means_allocate, simp_all)
  let ?last = "fold (\<lambda>j _. ?snap j) [0..<kKeccakSnapshots cfg] state"
  have last: "?last = keccak_f state" if "kProofDegree cfg \<noteq> 64"
  proof -
    obtain k where k: "kKeccakSnapshots cfg = Suc k" using snapshots_positive [OF cfg] gr0_conv_Suc by blast
    then show ?thesis using bits(1) [of k] snapshot_last [OF cfg that] by (simp add: keccak_f_def)
  qed
  note final_bits = bits(2) [OF keep]
  have tail: "means p (if kProofDegree cfg = 64
              then seq (collect (\<lambda>i. n_allocate (bit (final ! (i div 64)) (i mod 64))) [0..<keep]) (\<lambda>state.
                   seq (n_count keep) (\<lambda>_. ret state))
              else ret ?last) True (if kProofDegree cfg = 64 then take keep (keccak_f state) else keccak_f state)"
  proof (cases "kProofDegree cfg = 64")
    case True
    have "means p (collect (\<lambda>i. n_allocate (bit (final ! (i div 64)) (i mod 64))) [0..<keep]) True (take keep (keccak_f state))"
      unfolding final_bits [symmetric] by (rule means_collect_T) (rule means_allocate)
    from means_seq_T [OF this, of "\<lambda>state. seq (n_count keep) (\<lambda>_. ret state)" True]
    show ?thesis using True by (auto intro: means_seq_T [OF means_count] means_ret)
  qed (use last in \<open>simp add: means_ret\<close>)
  show ?thesis
    unfolding n_permute_def words_def [symmetric] Let_def pt prod.case
    by (rule means_seq_T [OF loop], rule means_seq_T [OF means_count], rule means_seq_T [OF tail])
      (auto simp: means_def native_inv_def witness_bit_def)
qed

end
