(* ===== verification/Vole_Gadgets.thy ===== *)
theory Vole_Gadgets
  imports Vole_Native
begin

text \<open>
  The gadgets of the circuit in the native context compute what their names say: equality,
  comparison, addition with carry, selection, the chain decoder, and SHAKE256 as FIPS 202
  defines it. A list of bits stands for the number \<open>bits_val\<close>, least significant bit
  first, and the bits of bytes are \<open>bits_of\<close>.
\<close>

subsection \<open>Numbers and bytes as bits\<close>

definition bits_val :: "bool list \<Rightarrow> nat" where
  "bits_val bs = horner_sum of_bool 2 bs"

definition nat_bits :: "nat \<Rightarrow> nat \<Rightarrow> bool list" where
  "nat_bits n v = map (bit v) [0..<n]"

definition bits_of :: "bytes \<Rightarrow> bool list" where
  "bits_of bs = concat (map (\<lambda>v. map (bit v) [0..<8]) bs)"

lemma length_nat_bits [simp]: "length (nat_bits n v) = n"
  by (simp add: nat_bits_def)

lemma bits_val_simps [simp]: "bits_val [] = 0" "bits_val (b # bs) = of_bool b + 2 * bits_val bs"
  by (simp_all add: bits_val_def)

lemma bits_val_less: "bits_val bs < 2 ^ length bs"
  by (induction bs) auto

lemma bits_val_nat_bits: "bits_val (nat_bits n v) = v mod 2 ^ n"
  by (simp add: bits_val_def nat_bits_def horner_sum_bit_eq_take_bit take_bit_eq_mod)

lemma nat_bits_val: "length bs = n \<Longrightarrow> nat_bits n (bits_val bs) = bs"
  by (rule nth_equalityI) (simp_all add: nat_bits_def bits_val_def bit_horner_sum_bit_iff)

lemma bits_val_inject: "length a = length b \<Longrightarrow> bits_val a = bits_val b \<longleftrightarrow> a = b"
  by (metis nat_bits_val)

lemma bits_val_append: "bits_val (a @ b) = bits_val a + 2 ^ length a * bits_val b"
  by (simp add: bits_val_def horner_sum_append)

lemma bits_val_take_Suc:
  "n < length a \<Longrightarrow> bits_val (take (Suc n) a) = bits_val (take n a) + of_bool (a ! n) * 2 ^ n"
  by (simp add: take_Suc_conv_app_nth bits_val_append min_def)

lemma length_bits_of [simp]: "length (bits_of bs) = 8 * length bs"
  by (induction bs) (simp_all add: bits_of_def)

lemma bits_of_append [simp]: "bits_of (a @ b) = bits_of a @ bits_of b"
  by (simp add: bits_of_def)

lemma bits_of_Nil [simp]: "bits_of [] = []"
  by (simp add: bits_of_def)

lemma bits_of_Cons: "bits_of (b # bs) = map (bit b) [0..<8] @ bits_of bs"
  by (simp add: bits_of_def)

lemma nth_bits_of: "i < 8 * length bs \<Longrightarrow> bits_of bs ! i = bit (bs ! (i div 8)) (i mod 8)"
proof (induction bs arbitrary: i)
  case (Cons b bs)
  show ?case
  proof (cases "i < 8")
    case False
    then have "i div 8 = Suc ((i - 8) div 8)" "i mod 8 = (i - 8) mod 8"
      by (simp_all add: le_div_geq le_mod_geq)
    then show ?thesis using Cons.IH [of "i - 8"] Cons.prems False by (simp add: bits_of_Cons nth_append)
  qed (simp add: bits_of_Cons nth_append)
qed simp

lemma bits_of_inject: "length a = length b \<Longrightarrow> bits_of a = bits_of b \<longleftrightarrow> a = b"
proof
  assume len: "length a = length b" and eq: "bits_of a = bits_of b"
  show "a = b"
  proof (rule nth_equalityI [OF len])
    fix k assume k: "k < length a"
    show "a ! k = b ! k"
    proof (rule bit_word_eqI)
      fix j assume "j < LENGTH(8)"
      then have j: "j < 8" by simp
      have "bits_of a ! (8 * k + j) = bits_of b ! (8 * k + j)" by (simp add: eq)
      then show "bit (a ! k) j = bit (b ! k) j" using k len j by (simp add: nth_bits_of)
    qed
  qed
qed simp

lemma bits_of_bytes_le: "bits_of (bytes_le n v) = map (bit v) [0..<8 * n]"
  by (rule nth_equalityI) (auto simp: nth_bits_of nth_bytes_le bit_simps)

lemma slice_bits_of: "slice (bits_of bs) (8 * off) (8 * n) = bits_of (segment off n bs)"
  by (rule nth_equalityI) (auto simp: slice_def segment_def nth_bits_of)

lemma pack_bits_of: "length bs \<le> 16 \<Longrightarrow> pack_bits (bits_of bs) = load_le bs"
  by (rule bit_word_eqI) (auto simp: bit_pack_bits bit_load_le nth_bits_of)

lemma low_bits_128: "low_bits a 128 = bits_of (bytes_le 16 a)"
  by (simp add: low_bits_def bits_of_bytes_le)

subsection \<open>The engine's operations\<close>

lemma native_engine_simps [simp]:
  "e_cursor (native_engine cfg L) = nc_cursor" "e_constant (native_engine cfg L) = (\<lambda>b. b)"
  "e_bit (native_engine cfg L) = n_bit" "e_allocate (native_engine cfg L) = n_allocate"
  "e_add (native_engine cfg L) = (\<lambda>a b. a \<noteq> b)" "e_mul (native_engine cfg L) = n_mul"
  "e_zero_bit (native_engine cfg L) = n_zero_bit" "e_zero (native_engine cfg L) = n_zero"
  "e_pack (native_engine cfg L) = n_pack" "e_fadd (native_engine cfg L) = (XOR)"
  "e_product (native_engine cfg L) = poly_mul L" "e_field_witness (native_engine cfg L) = n_field_witness"
  "e_permute (native_engine cfg L) = n_permute cfg L"
  by (simp_all add: native_engine_def)

lemma native_constant: "c_constant (native_engine cfg L) bs = bits_of bs"
  by (simp add: c_constant_def bits_of_def)

lemma native_number: "c_number (native_engine cfg L) v n = nat_bits n (unat v)"
  by (auto simp: c_number_def nat_bits_def bit_unsigned_iff dest: bit_imp_le_length)

lemma native_number_bytes: "v < 256 \<Longrightarrow> c_number (native_engine cfg L) v 8 = bits_of [ucast v]"
  by (auto simp: native_number nat_bits_def bits_of_Cons bit_unsigned_iff bit_simps dest: bit_imp_le_length)

lemma means_input:
  assumes "off + n \<le> kPrimaryBytes"
  shows "means p (c_input (native_engine cfg L) off n) True (map (\<lambda>i. bit (p ! ((off * 8 + i) div 8)) ((off * 8 + i) mod 8)) [0..<n * 8])"
  unfolding c_input_def native_engine_simps
  by (rule means_collect_T, rule means_bit) (use assms in auto)

lemma input_bits:
  assumes "off + n \<le> length p"
  shows "map (\<lambda>i. bit (p ! ((off * 8 + i) div 8)) ((off * 8 + i) mod 8)) [0..<n * 8] = bits_of (segment off n p)"
proof (rule nth_equalityI)
  fix i assume "i < length (map (\<lambda>i. bit (p ! ((off * 8 + i) div 8)) ((off * 8 + i) mod 8)) [0..<n * 8])"
  then have i: "i < n * 8" by simp
  then have "i div 8 < n" by (simp add: less_mult_imp_div_less)
  then show "map (\<lambda>i. bit (p ! ((off * 8 + i) div 8)) ((off * 8 + i) mod 8)) [0..<n * 8] ! i = bits_of (segment off n p) ! i"
    using i assms by (simp add: nth_bits_of segment_def)
qed (use assms in \<open>simp add: segment_def\<close>)

lemma means_input_bytes:
  assumes "length p = kPrimaryBytes" "off + n \<le> kPrimaryBytes"
  shows "means p (c_input (native_engine cfg L) off n) True (bits_of (segment off n p))"
  using means_input [OF assms(2), of p] input_bits [of off n p] assms by simp

subsection \<open>Boolean gadgets\<close>

lemma means_equal:
  assumes "length a = length b"
  shows "means p (c_equal (native_engine cfg L) a b) True (a = b)"
proof (cases "a = []")
  case True
  then show ?thesis using assms by (simp add: c_equal_def means_ret)
next
  case False
  have fold: "fold (\<lambda>i r. r \<and> a ! i = b ! i) [1..<n] (a ! 0 = b ! 0) = (\<forall>i<n. a ! i = b ! i)" if "0 < n" for n
    using that
  proof (induction n)
    case (Suc n)
    then show ?case by (cases "n = 0") (auto simp: less_Suc_eq)
  qed simp
  have "means p (loop (\<lambda>i result. n_mul result ((a ! i \<noteq> b ! i) \<noteq> True)) [1..<length a] ((a ! 0 \<noteq> b ! 0) \<noteq> True)) True
      (fold (\<lambda>i r. r \<and> a ! i = b ! i) [1..<length a] (a ! 0 = b ! 0))"
    using means_loop_T [of "[1..<length a]" "\<lambda>_. True" p "\<lambda>i result. n_mul result ((a ! i \<noteq> b ! i) \<noteq> True)"
        "\<lambda>i r. r \<and> a ! i = b ! i" "a ! 0 = b ! 0"] means_mul by simp
  also have "fold (\<lambda>i r. r \<and> a ! i = b ! i) [1..<length a] (a ! 0 = b ! 0) = (\<forall>i<length a. a ! i = b ! i)"
    by (rule fold) (use False in simp)
  also have "\<dots> = (a = b)" using assms by (auto intro: nth_equalityI)
  finally show ?thesis using False by (simp add: c_equal_def c_invert_def)
qed

lemma means_less:
  assumes "length a = length b"
  shows "means p (c_less cfg (native_engine cfg' L) a b) True (bits_val a < bits_val b)"
proof -
  let ?g = "\<lambda>i r. ((a ! i = b ! i) \<and> r) \<noteq> (\<not> a ! i \<and> b ! i)"
  have fold: "fold ?g [0..<n] False = (bits_val (take n a) < bits_val (take n b))" if "n \<le> length a" for n
    using that
  proof (induction n)
    case (Suc n)
    have "bits_val (take n a) < 2 ^ n" "bits_val (take n b) < 2 ^ n"
      using bits_val_less [of "take n a"] bits_val_less [of "take n b"] Suc.prems assms by simp_all
    then show ?case using Suc assms by (auto simp: bits_val_take_Suc)
  qed simp
  have step: "means p (let same = c_invert (native_engine cfg' L) (e_add (native_engine cfg' L) (a ! i) (b ! i));
           first = e_mul (native_engine cfg' L) same r;
           second = e_mul (native_engine cfg' L) (c_invert (native_engine cfg' L) (a ! i)) (b ! i)
       in if left_first cfg
          then seq first (\<lambda>x. seq second (\<lambda>y. ret (e_add (native_engine cfg' L) x y)))
          else seq second (\<lambda>y. seq first (\<lambda>x. ret (e_add (native_engine cfg' L) x y)))) True (?g i r)" for i r
    by (auto simp: Let_def c_invert_def intro!: means_seq_T [OF means_mul] means_cong [OF means_ret])
  have "means p (c_less cfg (native_engine cfg' L) a b) True (fold ?g [0..<length a] False)"
    unfolding c_less_def by (rule means_cong [OF means_loop_T [where J = "\<lambda>_. True" and g = ?g]]) (use step in simp_all)
  then show ?thesis using fold [of "length a"] assms by simp
qed

lemma means_select:
  assumes "length yes = length no"
  shows "means p (c_select (native_engine cfg L) flag yes no) True (if flag then yes else no)"
proof -
  let ?g = "\<lambda>i. no ! i \<noteq> (flag \<and> yes ! i \<noteq> no ! i)"
  have "means p (c_select (native_engine cfg L) flag yes no) True (map ?g [0..<length yes])"
    unfolding c_select_def by (rule means_collect_T) (auto intro!: means_seq_T [OF means_mul] means_ret)
  moreover have "map ?g [0..<length yes] = (if flag then yes else no)"
    using assms by (intro nth_equalityI) auto
  ultimately show ?thesis by simp
qed

text \<open>Addition: the sum modulo the width, and the carry refused on demand.\<close>

lemma means_add:
  assumes "length a = length b"
  shows "means p (c_add (native_engine cfg L) a b no_overflow) (no_overflow \<longrightarrow> bits_val a + bits_val b < 2 ^ length a)
    (nat_bits (length a) (bits_val a + bits_val b))"
proof -
  let ?g = "\<lambda>i (out, carry). (out @ [(a ! i \<noteq> b ! i) \<noteq> carry], ((a ! i \<noteq> carry) \<and> (b ! i \<noteq> carry)) \<noteq> carry)"
  have fold: "\<exists>out carry. fold ?g [0..<n] ([], False) = (out, carry) \<and> length out = n \<and>
      bits_val out + of_bool carry * 2 ^ n = bits_val (take n a) + bits_val (take n b)" if "n \<le> length a" for n
    using that
  proof (induction n)
    case 0
    show ?case by (rule exI [of _ "[]"], rule exI [of _ False]) simp
  next
    case (Suc n)
    then obtain out carry where IH: "fold ?g [0..<n] ([], False) = (out, carry)" "length out = n"
      "bits_val out + of_bool carry * 2 ^ n = bits_val (take n a) + bits_val (take n b)" by auto
    have t: "bits_val (take (Suc n) a) = bits_val (take n a) + of_bool (a ! n) * 2 ^ n"
      "bits_val (take (Suc n) b) = bits_val (take n b) + of_bool (b ! n) * 2 ^ n"
      using Suc.prems assms by (simp_all add: bits_val_take_Suc)
    let ?o = "out @ [(a ! n \<noteq> b ! n) \<noteq> carry]" and ?c = "((a ! n \<noteq> carry) \<and> (b ! n \<noteq> carry)) \<noteq> carry"
    have "fold ?g [0..<Suc n] ([], False) = (?o, ?c)"
      unfolding upt_Suc_append [OF le0] fold_append o_apply IH(1) by simp
    moreover have "length ?o = Suc n" by (simp add: IH(2))
    moreover have "bits_val ?o + of_bool ?c * 2 ^ Suc n = bits_val (take (Suc n) a) + bits_val (take (Suc n) b)"
      using IH(3) unfolding t bits_val_append by (cases "a ! n"; cases "b ! n"; cases carry) (simp_all add: IH(2))
    ultimately show ?case by blast
  qed
  then obtain out carry where f: "fold ?g [0..<length a] ([], False) = (out, carry)" "length out = length a"
    "bits_val out + of_bool carry * 2 ^ length a = bits_val a + bits_val b" using assms by fastforce
  have less: "bits_val out < 2 ^ length a" using bits_val_less [of out] f(2) by simp
  have carry: "carry \<longleftrightarrow> \<not> bits_val a + bits_val b < 2 ^ length a" using f(3) less by (cases carry) auto
  have "bits_val out = (bits_val a + bits_val b) mod 2 ^ length a"
    unfolding f(3) [symmetric] using less by simp
  then have out: "out = nat_bits (length a) (bits_val a + bits_val b)"
    using f(2) by (simp add: bits_val_inject [symmetric] bits_val_nat_bits)
  have loop: "means p (loop (\<lambda>i (out, carry).
            let sum = e_add (native_engine cfg L) (e_add (native_engine cfg L) (a ! i) (b ! i)) carry
            in seq (e_mul (native_engine cfg L) (e_add (native_engine cfg L) (a ! i) carry) (e_add (native_engine cfg L) (b ! i) carry)) (\<lambda>p.
                 ret (out @ [sum], e_add (native_engine cfg L) p carry)))
          [0..<length a] ([], e_constant (native_engine cfg L) False)) True (out, carry)"
    unfolding f(1) [symmetric] native_engine_simps
    by (rule means_loop_T [where J = "\<lambda>_. True" and g = ?g])
      (auto simp: Let_def intro!: means_seq_T [OF means_mul] means_ret)
  show ?thesis
  proof (cases no_overflow)
    case True
    have "means p (c_add (native_engine cfg L) a b no_overflow) (\<not> carry \<and> True) out"
      unfolding c_add_def by (rule means_seq_T [OF loop]) (simp add: True, rule means_seq [OF means_zero_bit means_ret, simplified])
    then show ?thesis by (rule means_cong) (simp_all add: True carry out)
  next
    case False
    have "means p (c_add (native_engine cfg L) a b no_overflow) True out"
      unfolding c_add_def by (rule means_seq_T [OF loop]) (simp add: False means_ret)
    then show ?thesis by (simp add: False out)
  qed
qed

end
