(* ===== verification/Vole_Shake.thy ===== *)
theory Vole_Shake
  imports Vole_Gadgets
begin

text \<open>
  SHAKE256 in the circuit. The reference is the sponge of FIPS 202: the message with the
  suffix 1111, the padding pad10*1, the capacity of 512 bits; the circuit's single output
  block is its first bytes, so the circuit hashes what \<^verbatim>\<open>shake_th\<close> hashes.
\<close>

subsection \<open>The sponge\<close>

definition pad_rate :: "bool list \<Rightarrow> bool list" where
  "pad_rate N = N @ [True] @ replicate ((1088 - (length N + 2) mod 1088) mod 1088) False @ [True]"

definition absorb_block :: "bool list \<Rightarrow> bool list \<Rightarrow> bool list" where
  "absorb_block blk s = keccak_f (map2 (\<lambda>a b. a \<noteq> b) (blk @ replicate 512 False) s)"

lemma length_absorb_block [simp]: "length (absorb_block blk s) = 1600"
  by (simp add: absorb_block_def)

fun squeeze_blocks :: "nat \<Rightarrow> bool list \<Rightarrow> bool list" where
  "squeeze_blocks 0 s = []"
| "squeeze_blocks (Suc n) s = take 1088 s @ squeeze_blocks n (keccak_f s)"

definition shake256_bits :: "bool list \<Rightarrow> nat \<Rightarrow> bool list" where
  "shake256_bits M d =
     (let P = pad_rate (M @ [True, True, True, True]);
          s = fold absorb_block (blocks 1088 (length P div 1088) P) (replicate 1600 False)
      in take d (squeeze_blocks (d div 1088 + 1) s))"

text \<open>Documented behaviour of the hash library.\<close>

definition shake_ok :: "vole \<Rightarrow> bool" where
  "shake_ok V \<longleftrightarrow> (\<forall>data n. bits_of (shake256 V data n) = shake256_bits (bits_of data) (8 * n))"

subsection \<open>The circuit's padding\<close>

definition circuit_pad :: "bool list \<Rightarrow> bool list" where
  "circuit_pad M =
     (let padded = M @ nat_bits 8 0x1f;
          padded = padded @ replicate ((1088 - length padded mod 1088) mod 1088) False
      in butlast padded @ [last padded \<noteq> True])"

lemma nat_bits_1f: "nat_bits 8 31 = [True, True, True, True, True, False, False, False]"
  by (simp add: nat_bits_def upt_rec bit_numeral_rec bit_Suc_0_iff)

lemma circuit_pad_eq:
  assumes "length M mod 8 = 0"
  shows "circuit_pad M = pad_rate (M @ [True, True, True, True])"
proof -
  define q where "q = length M mod 1088"
  obtain m where m: "length M = 8 * m" using assms by (metis mod_0_imp_dvd dvdE)
  have q8: "q mod 8 = 0" unfolding q_def m by (simp add: mod_mult_mult1 mult_mod_right [of 8 m 136, simplified, symmetric])
  have q: "q \<le> 1080" using q8 mod_less_divisor [of 1088 "length M"] unfolding q_def [symmetric] by presburger
  have e: "(length M + k) mod 1088 = (q + k) mod 1088" for k by (simp add: q_def mod_add_left_eq)
  have r: "(1088 - (length M + 8) mod 1088) mod 1088 = 1080 - q" and j: "(1088 - (length M + 6) mod 1088) mod 1088 = 1080 - q + 2"
    unfolding e using q by (auto simp: mod_if)
  let ?z = "replicate (1080 - q) False"
  have l8: "length (M @ nat_bits 8 31) = length M + 8" by simp
  have c: "circuit_pad M = butlast (M @ [True, True, True, True, True, False, False, False] @ ?z)
      @ [last (M @ [True, True, True, True, True, False, False, False] @ ?z) \<noteq> True]"
    unfolding circuit_pad_def Let_def l8 r unfolding nat_bits_1f append_assoc ..
  have "[False, False, False] @ replicate k False = replicate (k + 2) False @ [False]" for k
    by (simp add: replicate_append_same)
  note zs = this [of "1080 - q"]
  have e: "M @ [True, True, True, True, True, False, False, False] @ ?z
      = ((M @ [True, True, True, True]) @ [True] @ replicate (1080 - q + 2) False) @ [False]"
    using zs by simp
  have l4: "length (M @ [True, True, True, True]) + 2 = length M + 6" by simp
  show ?thesis
    unfolding c e butlast_snoc last_snoc pad_rate_def l4 j by simp
qed

lemma length_circuit_pad:
  "length (circuit_pad M) = length M + 8 + (1088 - (length M + 8) mod 1088) mod 1088"
  by (simp add: circuit_pad_def Let_def)

lemma length_circuit_pad_mod: "length (circuit_pad M) mod 1088 = 0" "0 < length (circuit_pad M) div 1088"
proof -
  have "(n + (1088 - n mod 1088) mod 1088) mod 1088 = 0" for n :: nat
  proof -
    obtain a b where n: "n = a * 1088 + b" "b < 1088" using div_mult_mod_eq [of n 1088] by (metis mod_less_divisor zero_less_numeral)
    have "a * 1088 + b + (1088 - b) = (a + 1) * 1088" using n(2) by simp
    then show ?thesis using n by (cases "b = 0") (simp, simp only: mod_mult_self3 mod_less diff_less zero_less_numeral mod_mult_self2_is_0)
  qed
  then show d: "length (circuit_pad M) mod 1088 = 0" unfolding length_circuit_pad .
  have "0 < length (circuit_pad M)" unfolding length_circuit_pad by simp
  then show "0 < length (circuit_pad M) div 1088"
    using d by (metis dvd_imp_le mod_0_imp_dvd div_greater_zero_iff zero_less_numeral)
qed

subsection \<open>The circuit's sponge\<close>

lemma absorb_step:
  assumes "length s = 1600" "off + 1088 \<le> length P"
  shows "map (\<lambda>i. if i < 1088 then s ! i \<noteq> P ! (off + i) else s ! i) [0..<1600]
    = map2 (\<lambda>a b. a \<noteq> b) (segment off 1088 P @ replicate 512 False) s"
  using assms by (intro nth_equalityI) (auto simp: segment_def nth_append)

lemma means_shake:
  assumes cfg: "cfg_ok cfg" and L: "trace_ok cfg L" and M: "length M mod 8 = 0" and out: "out \<le> 136"
  shows "means p (c_shake (native_engine cfg L) M out) True (shake256_bits M (8 * out))"
proof -
  let ?E = "native_engine cfg L" and ?P = "circuit_pad M"
  define n where "n = length ?P div 1088"
  have n: "0 < n" "n * 1088 = length ?P" unfolding n_def using length_circuit_pad_mod [of M] by auto
  let ?blk = "\<lambda>k s. map (\<lambda>i. if i < 1088 then s ! i \<noteq> ?P ! (k * 1088 + i) else s ! i) [0..<1600]"
  let ?keep = "\<lambda>k. if k * 1088 + 1088 = length ?P then out * 8 else 1600"
  let ?res = "\<lambda>k s. if kProofDegree cfg = 64 then take (?keep k) (keccak_f (?blk k s)) else keccak_f (?blk k s)"
  define m where "m = n - 1"
  have m: "n = Suc m" using n(1) by (simp add: m_def)
  have step: "means p (e_permute ?E (?blk k s) (?keep k)) True (?res k s)" for k s
    unfolding native_engine_simps by (rule means_keccak [OF cfg L]) (use out in auto)
  have loop: "means p (loop (\<lambda>k s. e_permute ?E (?blk k s) (?keep k)) [0..<n] (replicate 1600 False)) True
      (fold ?res [0..<n] (replicate 1600 False))"
    by (rule means_loop_T [where J = "\<lambda>_. True"]) (use step in simp_all)
  let ?abs = "\<lambda>k. absorb_block (segment (k * 1088) 1088 ?P)"
  have block: "?res k s = ?abs k s" if "length s = 1600" "k * 1088 + 1088 \<le> length ?P" "?keep k = 1600" for k s
    using absorb_step [OF that(1,2)] that(3) by (simp add: absorb_block_def)
  have prefix: "fold ?res [0..<k] (replicate 1600 False) = fold ?abs [0..<k] (replicate 1600 False)
      \<and> length (fold ?abs [0..<k] (replicate 1600 False)) = 1600" if "k \<le> m" for k
    using that
  proof (induction k)
    case (Suc k)
    let ?s = "fold ?abs [0..<k] (replicate 1600 False)"
    have IH: "fold ?res [0..<k] (replicate 1600 False) = ?s" "length ?s = 1600" using Suc by auto
    have k: "k * 1088 + 1088 < length ?P" using Suc.prems n(2) m by (simp flip: n(2))
    have res: "?res k ?s = ?abs k ?s" by (rule block [OF IH(2)]) (use k in simp_all)
    have a: "fold ?res [0..<Suc k] (replicate 1600 False) = ?res k ?s"
      unfolding upt_Suc_append [OF le0] fold_append o_apply IH(1) by simp
    have b: "fold ?abs [0..<Suc k] (replicate 1600 False) = ?abs k ?s"
      unfolding upt_Suc_append [OF le0] fold_append o_apply by simp
    show ?case by (rule conjI, rule trans [OF a trans [OF res b [symmetric]]], simp only: b length_absorb_block)
  qed simp
  let ?s = "fold ?abs [0..<m] (replicate 1600 False)"
  have ps: "fold ?res [0..<m] (replicate 1600 False) = ?s" "length ?s = 1600" using prefix [of m] by auto
  have last_off: "m * 1088 + 1088 = length ?P" using n(2) m by simp
  have res: "take (out * 8) (?res m s) = take (out * 8) (?abs m s)" if "length s = 1600" for s
    using absorb_step [OF that, of "m * 1088" ?P] last_off by (simp add: absorb_block_def)
  have full: "fold absorb_block (blocks 1088 n ?P) (replicate 1600 False) = ?abs m ?s"
    unfolding blocks_def fold_map m by (simp add: comp_def)
  have val: "take (out * 8) (fold ?res [0..<n] (replicate 1600 False)) = shake256_bits M (8 * out)"
  proof -
    let ?t = "fold absorb_block (blocks 1088 n ?P) (replicate 1600 False)"
    have "shake256_bits M (8 * out) = take (8 * out) (squeeze_blocks (8 * out div 1088 + 1) ?t)"
      by (simp add: shake256_bits_def Let_def n_def circuit_pad_eq [OF M, symmetric])
    also have "\<dots> = take (8 * out) ?t"
    proof -
      have "length ?t = 1600" unfolding full by (simp add: absorb_block_def)
      then show ?thesis using out by (simp add: min_def)
    qed
    also have "\<dots> = take (out * 8) (?res m ?s)" unfolding res [OF ps(2)] full by (simp add: mult.commute)
    also have "?res m ?s = fold ?res [0..<n] (replicate 1600 False)"
      unfolding m upt_Suc_append [OF le0] fold_append o_apply ps(1) by simp
    finally show ?thesis by simp
  qed
  show ?thesis
  proof -
    have pad: "(let padded = M @ c_number ?E 0x1f 8;
               padded = padded @ replicate ((1088 - length padded mod 1088) mod 1088) (e_constant ?E False)
               in butlast padded @ [e_add ?E (last padded) (e_constant ?E True)]) = ?P"
      by (simp add: circuit_pad_def Let_def native_number)
    have init: "c_number ?E 0 1600 = replicate 1600 False"
      by (rule nth_equalityI) (simp_all add: c_number_def)
    have "c_shake ?E M out = seq (loop (\<lambda>k s. e_permute ?E (?blk k s) (?keep k)) [0..<n] (replicate 1600 False))
        (\<lambda>s. ret (take (out * 8) s))"
      using pad M out unfolding c_shake_def Let_def init n_def by simp
    then show ?thesis
      using means_seq_T [OF loop means_ret, of "take (out * 8)"] unfolding val by simp
  qed
qed

subsection \<open>Hashes\<close>

lemma ascii_bits: "c_constant (native_engine cfg L) bs = bits_of bs" by (rule native_constant)

lemma means_hash:
  assumes cfg: "cfg_ok cfg" and L: "trace_ok cfg L" and V: "shake_ok V" and dom: "length domain \<le> 255" and n: "n \<le> 136"
  shows "means p (c_hash (native_engine cfg L) (bits_of domain) (bits_of data) n) True
    (bits_of (shake_th_into (shake256 V) domain data n))"
proof -
  let ?E = "native_engine cfg L"
  have len: "unat (of_nat (length domain) :: u64) = length domain"
    using dom by (simp add: unsigned_of_nat take_bit_nat_eq_self)
  have number: "c_number ?E (of_nat (length domain)) 8 = bits_of [of_nat (length domain)]"
    unfolding native_number len by (rule nth_equalityI) (auto simp: nat_bits_def bits_of_Cons bit_simps)
  have "c_hash ?E (bits_of domain) (bits_of data) n = c_shake ?E (bits_of (shake_frame domain data)) n"
    by (simp add: c_hash_def Let_def native_constant number shake_frame_def bits_of_Cons [of "of_nat _"])
  moreover have "bits_of (shake_th_into (shake256 V) domain data n) = shake256_bits (bits_of (shake_frame domain data)) (8 * n)"
    using V dom by (simp add: shake_th_into_eq shake_ok_def)
  ultimately show ?thesis using means_shake [OF cfg L _ n, of "bits_of (shake_frame domain data)" p] by simp
qed

lemma means_hash_str:
  assumes "cfg_ok cfg" "trace_ok cfg L" "shake_ok V" "length s \<le> 255" "n \<le> 136"
  shows "means p (c_hash_str (native_engine cfg L) s (bits_of data) n) True
    (bits_of (shake_th_into (shake256 V) (ascii s) data n))"
  unfolding c_hash_str_def native_constant by (rule means_hash [OF assms(1-3) _ assms(5)]) (use assms(4) in \<open>simp add: ascii_def\<close>)

end
