(* ===== verification/Vole_Fields.thy ===== *)
theory Vole_Fields
  imports Vole_Shake
begin

text \<open>
  The field gadgets and the chain decoder in the native context: products of packed bits
  are products in GF(2^128), a product with a single bit selects, and the decoder turns a
  chain index into its indicator vector and refuses indices of 64 and above.
\<close>

subsection \<open>The field\<close>

definition field_laws :: "circuit_lib \<Rightarrow> bool" where
  "field_laws L \<longleftrightarrow> (\<forall>x. poly_mul L 0 x = 0 \<and> poly_mul L 1 x = x \<and> poly_mul L x 0 = 0 \<and> poly_mul L x 1 = x)"

lemma poly_ok_words:
  assumes "poly_ok L"
  shows "poly_mul L x y = load_le (gf128_mul (bytes_le 16 x) (bytes_le 16 y))"
proof -
  have "load_le (bytes_le 16 x) = x" "load_le (bytes_le 16 y) = y" by (simp_all add: load_le_bytes_le)
  then show ?thesis using assms by (metis poly_ok_def length_bytes_le)
qed

lemma load_zero: "gf128_load (bytes_le 16 (0 :: poly128)) = replicate 4 0"
  by code_simp

lemma load_one: "gf128_load (bytes_le 16 (1 :: poly128)) = [1, 0, 0, 0]"
  by code_simp

lemma gf128_mul_words_zero:
  assumes "length Y = 4"
  shows "gf128_mul_words (replicate 4 0) Y = replicate 4 0"
proof (rule limbs_cong_eq)
  show "clcong gf128_poly (limbs (gf128_mul_words (replicate 4 0) Y)) (limbs (replicate 4 0))"
    using limbs_mul_words(2) [of "replicate 4 0" Y] assms by simp
qed (use limbs_mul_words(1) [of "replicate 4 0" Y] assms in simp_all)

lemma gf128_store_load_word: "load_le (gf128_store (gf128_load (bytes_le 16 x))) = (x :: poly128)"
  by (simp add: gf128_store_load load_le_bytes_le)

lemma poly_ok_laws:
  assumes "poly_ok L"
  shows "field_laws L"
proof -
  have z: "load_le (gf128_store (replicate 4 0)) = (0 :: poly128)"
    using gf128_store_load_word [of 0] by (simp only: load_zero)
  have zero: "poly_mul L 0 x = 0" and one: "poly_mul L 1 x = x" and comm: "poly_mul L x y = poly_mul L y x" for x y
    using gf128_mul_words_commute [of "[1, 0, 0, 0]" "gf128_load (bytes_le 16 x)"]
      gf128_mul_words_commute [of "gf128_load (bytes_le 16 x)" "gf128_load (bytes_le 16 y)"]
    by (simp_all add: poly_ok_words [OF assms] gf128_mul_def load_zero load_one gf128_mul_words_zero z
        gf128_mul_words_one gf128_store_load_word)
  show ?thesis unfolding field_laws_def using zero one by (simp add: comm [of _ 0] comm [of _ 1])
qed

lemma field_lawsD:
  assumes "field_laws L"
  shows "poly_mul L 0 x = 0" "poly_mul L x 0 = 0" "poly_mul L 1 x = x" "poly_mul L x 1 = x"
    "poly_mul L (of_bool b) x = (if b then x else 0)" "poly_mul L x (of_bool b) = (if b then x else 0)"
  using assms by (auto simp: field_laws_def)

lemma pack_single: "pack_bits [b] = of_bool b"
  by (simp add: pack_bits_def)

lemma load_le_xor_words:
  "length x = length y \<Longrightarrow> load_le (xor_words x y) = (load_le x XOR load_le y :: 'a::len word)"
  by (rule bit_word_eqI) (auto simp: bit_load_le bit_xor_iff)

subsection \<open>Products and equality\<close>

lemma means_pack_product:
  assumes "length x \<le> 128" "length y \<le> 128"
  shows "means p (c_pack_product (native_engine cfg L) x y) True (poly_mul L (pack_bits x) (pack_bits y))"
  unfolding c_pack_product_def native_engine_simps
  by (rule means_seq_T [OF means_pack_T [OF assms(1)]], rule means_seq_T [OF means_pack_T [OF assms(2)]], rule means_ret)

lemma means_equal_field:
  assumes "length a = length b" "length a \<le> 128"
  shows "means p (c_equal_field (native_engine cfg L) a b) (a = b) ()"
proof -
  have "means p (c_equal_field (native_engine cfg L) a b) (pack_bits a XOR pack_bits b = 0) ()"
    unfolding c_equal_field_def native_engine_simps
    by (rule means_seq_T [OF means_pack_T], use assms in simp, rule means_seq_T [OF means_pack_T], use assms in simp, rule means_zero)
  then show ?thesis by (rule means_cong) (simp_all add: word_xor_zero pack_bits_eq_iff [OF assms])
qed

text \<open>The first product starts the sum, the others are added to it.\<close>

lemma means_selected:
  assumes L: "field_laws L" and xs: "length xs = 42" "\<forall>x\<in>set xs. length x \<le> 128" and v: "v < 42"
  shows "means p (s_selected (native_engine cfg L) (map (\<lambda>j. j = v) [0..<42]) xs) True (pack_bits (xs ! v))"
proof -
  let ?fl = "map (\<lambda>j. j = v) [0..<42 :: nat]" and ?E = "native_engine cfg L"
  have item: "means p (c_pack_product ?E [?fl ! i] (xs ! i)) True (if i = v then pack_bits (xs ! i) else 0)" if "i < 42" for i
    by (rule means_cong [OF means_pack_product]) (use that xs in \<open>simp_all add: pack_single field_lawsD [OF L]\<close>)
  let ?g = "\<lambda>i sel. sel XOR (if i = v then pack_bits (xs ! i) else 0)"
  have fold: "fold ?g [1..<n] (if 0 = v then pack_bits (xs ! 0) else 0) = (if v < n then pack_bits (xs ! v) else 0)" if "0 < n" for n
    using that
  proof (induction n)
    case (Suc n)
    then show ?case by (cases "n = 0") (auto simp: less_Suc_eq)
  qed simp
  have "means p (s_selected ?E ?fl xs) True (fold ?g [1..<42] (if 0 = v then pack_bits (xs ! 0) else 0))"
    unfolding s_selected_def
  proof (rule means_seq_T [OF item means_loop_T [where J = "\<lambda>_. True"]])
    fix i sel assume "i \<in> set [1..<42 :: nat]"
    then show "means p (seq (c_pack_product ?E [?fl ! i] (xs ! i)) (\<lambda>q. ret (e_fadd ?E sel q))) True (?g i sel)"
      unfolding native_engine_simps by (intro means_seq_T [OF item] means_ret) simp
  qed simp_all
  also have "fold ?g [1..<42] (if 0 = v then pack_bits (xs ! 0) else 0) = pack_bits (xs ! v)"
    using fold [of 42] v by simp
  finally show ?thesis .
qed

subsection \<open>The chain decoder\<close>

definition indicator_bits :: "nat \<Rightarrow> nat \<Rightarrow> bool list" where
  "indicator_bits v n = map (\<lambda>j. j = v) [0..<n]"

lemma indicator_level:
  fixes b :: bool
  assumes "count = (42 + 2 ^ k - 1) div 2 ^ k" and "n = (42 + 2 ^ Suc k - 1) div 2 ^ Suc k" and "k < 5"
  shows "fold (\<lambda>i acc. let acc = acc @ [indicator_bits m n ! i \<noteq> (indicator_bits m n ! i \<and> b)]
            in if 2 * i + 1 < count then acc @ [indicator_bits m n ! i \<and> b] else acc) [0..<n] []
    = indicator_bits (of_bool b + 2 * m) count"
proof -
  let ?f = "\<lambda>i acc. let acc = acc @ [indicator_bits m n ! i \<noteq> (indicator_bits m n ! i \<and> b)]
            in if 2 * i + 1 < count then acc @ [indicator_bits m n ! i \<and> b] else acc"
  have "k = 0 \<or> k = 1 \<or> k = 2 \<or> k = 3 \<or> k = 4" using assms(3) by linarith
  then have cn: "2 * n = count \<or> 2 * n = Suc count" unfolding assms(1,2) by auto
  have "fold ?f [0..<i] [] = indicator_bits (of_bool b + 2 * m) (min (2 * i) count)" if "i \<le> n" for i
    using that
  proof (induction i)
    case (Suc i)
    let ?ind = "indicator_bits (of_bool b + 2 * m)"
    have i: "i < n" "2 * i < count" using Suc.prems cn by linarith+
    then have at: "indicator_bits m n ! i = (i = m)" by (simp add: indicator_bits_def)
    have one: "?ind (2 * i) @ [(i = m) \<noteq> ((i = m) \<and> b)] = ?ind (Suc (2 * i))"
      by (cases b) (auto simp: indicator_bits_def dest: arg_cong [of _ _ even])
    have two: "?ind (Suc (2 * i)) @ [(i = m) \<and> b] = ?ind (2 * Suc i)"
      by (cases b) (auto simp: indicator_bits_def, presburger+)
    have "fold ?f [0..<Suc i] [] = ?f i (?ind (2 * i))"
      unfolding upt_Suc_append [OF le0] fold_append o_apply using Suc i by (simp add: min_def)
    also have "\<dots> = ?ind (min (2 * Suc i) count)"
    proof (cases "2 * i + 1 < count")
      case True
      then show ?thesis unfolding at Let_def one using two by (simp add: min_def)
    next
      case False
      then have "count = Suc (2 * i)" using i by linarith
      then show ?thesis unfolding at Let_def one by (simp add: min_def)
    qed
    finally show ?case .
  qed (simp add: indicator_bits_def)
  from this [of n] show ?thesis using cn by (auto simp: min_def)
qed

lemma means_flags_level:
  assumes "k < 5" "n = (42 + 2 ^ Suc k - 1) div 2 ^ Suc k"
  shows "means p (c_flags_level (native_engine cfg L) index k (indicator_bits m n)) True
    (indicator_bits (of_bool (index ! k) + 2 * m) ((42 + 2 ^ k - 1) div 2 ^ k))"
proof -
  let ?fl = "indicator_bits m n" and ?b = "index ! k"
  let ?g = "\<lambda>i acc. let acc = acc @ [?fl ! i \<noteq> (?fl ! i \<and> ?b)]
            in if 2 * i + 1 < (42 + 2 ^ k - 1) div 2 ^ k then acc @ [?fl ! i \<and> ?b] else acc"
  have "length ?fl = n" by (simp add: indicator_bits_def)
  then have "means p (c_flags_level (native_engine cfg L) index k ?fl) True (fold ?g [0..<n] [])"
    unfolding c_flags_level_def Let_def native_engine_simps
    by (simp only:) (rule means_loop_T [where J = "\<lambda>_. True"], rule means_seq_T [OF means_mul], rule means_ret, simp_all)
  then show ?thesis unfolding indicator_level [OF refl assms(2,1)] .
qed

lemma means_chain_flags:
  assumes "length index = 8"
  shows "means p (c_chain_flags (native_engine cfg L) index) (bits_val index < 64) (indicator_bits (bits_val index) 42)"
proof -
  let ?E = "native_engine cfg L"
  obtain b0 b1 b2 b3 b4 b5 b6 b7 where i: "index = [b0, b1, b2, b3, b4, b5, b6, b7]"
    using assms by (auto simp: length_Suc_conv numeral_eq_Suc)
  have start: "[c_invert ?E (index ! 5), index ! 5] = indicator_bits (of_bool b5) 2"
    by (cases b5) (simp_all add: i c_invert_def indicator_bits_def numeral_2_eq_2)
  have lv: "means p (c_flags_level ?E index k (indicator_bits m n)) True (indicator_bits m' n')"
    if "k < 5" "n = (42 + 2 ^ Suc k - 1) div 2 ^ Suc k" "n' = (42 + 2 ^ k - 1) div 2 ^ k" "m' = of_bool (index ! k) + 2 * m" for k m n m' n'
    unfolding that(3,4) by (rule means_flags_level [OF that(1,2)])
  let ?m4 = "of_bool b4 + 2 * of_bool b5 :: nat"
  let ?m3 = "of_bool b3 + 2 * ?m4" let ?m2 = "of_bool b2 + 2 * ?m3" let ?m1 = "of_bool b1 + 2 * ?m2"
  let ?m0 = "of_bool b0 + 2 * ?m1"
  have loop: "means p (loop (c_flags_level ?E index) [4, 3, 2, 1, 0] (indicator_bits (of_bool b5) 2)) True (indicator_bits ?m0 42)"
    unfolding loop.simps
  proof (intro means_seq_T)
    show "means p (c_flags_level ?E index 4 (indicator_bits (of_bool b5) 2)) True (indicator_bits ?m4 3)"
      by (rule lv) (simp_all add: i)
    show "means p (c_flags_level ?E index 3 (indicator_bits ?m4 3)) True (indicator_bits ?m3 6)"
      by (rule lv) (simp_all add: i)
    show "means p (c_flags_level ?E index 2 (indicator_bits ?m3 6)) True (indicator_bits ?m2 11)"
      by (rule lv) (simp_all add: i)
    show "means p (c_flags_level ?E index 1 (indicator_bits ?m2 11)) True (indicator_bits ?m1 21)"
      by (rule lv) (simp_all add: i)
    show "means p (c_flags_level ?E index 0 (indicator_bits ?m1 21)) True (indicator_bits ?m0 42)"
      by (rule lv) (simp_all add: i)
  qed (rule means_ret)
  have "means p (c_chain_flags ?E index) (\<not> b6 \<and> (\<not> b7 \<and> True)) (indicator_bits ?m0 42)"
    unfolding c_chain_flags_def start native_engine_simps
    by (rule means_seq, use means_zero_bit [of p b6] in \<open>simp add: i\<close>, rule means_seq, use means_zero_bit [of p b7] in \<open>simp add: i\<close>, rule loop)
  then show ?thesis
  proof (rule means_cong)
    show "(\<not> b6 \<and> \<not> b7 \<and> True) = (bits_val index < 64)"
      by (cases b6; cases b7) (auto simp: i of_bool_def)
    assume "bits_val index < 64"
    then have "\<not> b6" "\<not> b7" by (auto simp: i of_bool_def split: if_splits)
    then show "indicator_bits ?m0 42 = indicator_bits (bits_val index) 42" by (simp add: i)
  qed
qed

text \<open>The exclusive or of the indicator vector says whether the index is below its length.\<close>

lemma indicator_sum: "fold (\<lambda>flag sum. sum \<noteq> flag) (indicator_bits v n) False = (v < n)"
proof (induction n)
  case (Suc n)
  have "indicator_bits v (Suc n) = indicator_bits v n @ [n = v]" by (simp add: indicator_bits_def)
  then show ?case using Suc by (auto simp: less_Suc_eq)
qed (simp add: indicator_bits_def)

end
