(* ===== verification/Vole_Statement.thy ===== *)
theory Vole_Statement
  imports Vole_Fields Statement_Correct
begin

text \<open>
  The parts of the statement in the native context: the commitment, the message hash, the
  coordinates, the walk up the tree. Each is what the native library computes on the
  fields of the primary witness.
\<close>

subsection \<open>The primary witness\<close>

definition pw_r :: "bytes \<Rightarrow> bytes" where "pw_r p = segment 0 96 p"
definition pw_a :: "bytes \<Rightarrow> bytes" where "pw_a p = segment 96 192 p"
definition pw_epoch :: "bytes \<Rightarrow> u32" where "pw_epoch p = load_le (segment kSigOffset 4 p)"
definition pw_nonce :: "bytes \<Rightarrow> bytes" where "pw_nonce p = segment (kSigOffset + 4) 24 p"
definition pw_tip :: "bytes \<Rightarrow> nat \<Rightarrow> node" where "pw_tip p i = segment (kSigOffset + 28 + 16 * i) 16 p"
definition pw_sibling :: "bytes \<Rightarrow> nat \<Rightarrow> node" where "pw_sibling p l = segment (kSigOffset + 28 + 42 * 16 + l * 16) 16 p"
definition pw_schedule :: "bytes \<Rightarrow> bytes" where "pw_schedule p = segment kScheduleOffset 99 p"
definition pw_end :: "bytes \<Rightarrow> nat \<Rightarrow> node" where "pw_end p i = segment (kEndpointsOffset + 16 * i) 16 p"

definition pw_sig :: "bytes \<Rightarrow> xmss_sig" where
  "pw_sig p = \<lparr>xs_leaf_index = pw_epoch p, xs_nonce = pw_nonce p,
     xs_sig_hashes = map (pw_tip p) [0..<42], xs_auth_path = map (pw_sibling p) [0..<32]\<rparr>"

lemmas pw_layout = kPrimaryBytes_def kSigOffset_def kScheduleOffset_def kEndpointsOffset_def hm_sizes
  XMSS_SIG_BYTES_def xmss_sizes

lemma layout_values: "kSigOffset = 288" "kScheduleOffset = 1500" "kEndpointsOffset = 1599" "kPrimaryBytes = 2271"
  by (simp_all add: pw_layout)

lemma length_pw:
  assumes "length p = kPrimaryBytes"
  shows "length (pw_r p) = 96" "length (pw_a p) = 192" "length (pw_nonce p) = 24" "i < 42 \<Longrightarrow> length (pw_tip p i) = 16"
    "l < 32 \<Longrightarrow> length (pw_sibling p l) = 16" "length (pw_schedule p) = 99" "i < 42 \<Longrightarrow> length (pw_end p i) = 16"
  using assms by (simp_all add: pw_r_def pw_a_def pw_nonce_def pw_tip_def pw_sibling_def pw_schedule_def pw_end_def
      segment_def layout_values)

subsection \<open>Loops with a described state\<close>

lemma loop_append: "loop f (xs @ ys) a = seq (loop f xs a) (loop f ys)"
  by (induction xs arbitrary: a) (auto simp: seq_def ret_def fun_eq_iff split: sum.splits)

text \<open>If the state before turn \<open>k\<close> is \<open>st k\<close> as long as no earlier turn has thrown.\<close>

lemma means_loop_upto:
  assumes "\<And>k. k < n \<Longrightarrow> \<forall>j<k. D j \<Longrightarrow> means p (f k (st k)) (D k) (st (Suc k))"
  shows "means p (loop f [0..<n] (st 0)) (\<forall>k<n. D k) (st n)"
  using assms
proof (induction n)
  case (Suc n)
  have IH: "means p (loop f [0..<n] (st 0)) (\<forall>k<n. D k) (st n)" by (rule Suc.IH) (use Suc.prems in simp)
  have step: "means p (loop f [n] (st n)) (D n) (st (Suc n))" if "\<forall>k<n. D k"
  proof -
    have "means p (seq (f n (st n)) ret) (D n \<and> True) (st (Suc n))"
      by (rule means_seq [OF _ means_ret]) (use Suc.prems that in simp)
    moreover have "loop f [] = ret" by (simp add: fun_eq_iff)
    ultimately show ?thesis by simp
  qed
  have "means p (loop f [0..<Suc n] (st 0)) ((\<forall>k<n. D k) \<and> D n) (st (Suc n))"
    unfolding upt_Suc_append [OF le0] loop_append by (rule means_seq, rule IH, rule step)
  then show ?case by (rule means_cong) (auto simp: less_Suc_eq)
qed (simp add: means_ret)

subsection \<open>The commitment\<close>

lemma slice_bytes: "slice (bits_of bs) (8 * off) 128 = bits_of (segment off 16 bs)"
  using slice_bits_of [of bs off 16] by simp

lemma means_product_bytes:
  assumes L: "poly_ok L" and "off + 16 \<le> length a" "off' + 16 \<le> length r"
  shows "means p (c_pack_product (native_engine cfg L) (slice (bits_of a) (8 * off) 128) (slice (bits_of r) (8 * off') 128)) True
    (load_le (gf128_mul (segment off 16 a) (segment off' 16 r)))"
proof -
  have len: "length (segment off 16 a) = 16" "length (segment off' 16 r) = 16" using assms by (simp_all add: length_segment)
  show ?thesis
    unfolding slice_bytes
    by (rule means_cong [OF means_pack_product]) (use L len in \<open>simp_all add: pack_bits_of poly_ok_def\<close>)
qed

lemma means_line:
  assumes L: "poly_ok L" and r: "length r = 96" and a: "length a = 192" and m: "length m = 32" and k: "k < 2"
  shows "means p (s_line (native_engine cfg L) (bits_of r) (bits_of a) (bits_of m) k) True (bits_of (hm_line m a r k))"
proof -
  let ?E = "native_engine cfg L"
  define g :: "nat \<Rightarrow> poly128" where "g i = load_le (gf128_mul (segment (k * 96 + i * 16) 16 a) (segment (i * 16) 16 r))" for i
  have item: "means p (c_pack_product ?E (slice (bits_of a) (k * 768 + i * 128) 128) (slice (bits_of r) (i * 128) 128)) True (g i)"
    if "i < 6" for i
  proof -
    have e: "k * 768 + i * 128 = 8 * (k * 96 + i * 16)" "i * 128 = 8 * (i * 16)" by simp_all
    have "k * 96 + i * 16 + 16 \<le> length a" "i * 16 + 16 \<le> length r" using that k r a by linarith+
    then show ?thesis using means_product_bytes [OF L, of "k * 96 + i * 16" a "i * 16" r p cfg] unfolding g_def e [symmetric] by blast
  qed
  have first: "means p (c_pack_product ?E (slice (bits_of a) (k * 768) 128) (slice (bits_of r) 0 128)) True (g 0)"
    using item [of 0] by simp
  have loop: "means p (loop (\<lambda>i sum. seq (c_pack_product ?E (slice (bits_of a) (k * 768 + i * 128) 128) (slice (bits_of r) (i * 128) 128))
                          (\<lambda>q. ret (e_fadd ?E sum q))) [1..<6] (g 0)) True (fold (\<lambda>i s. s XOR g i) [1..<6] (g 0))"
    unfolding native_engine_simps
    by (rule means_loop_T [where J = "\<lambda>_. True"]) (rule means_seq_T [OF item], simp_all add: means_ret)
  have seg: "slice (bits_of m) (k * 128) 128 = bits_of (segment (k * 16) 16 m)"
    using slice_bytes [of m "k * 16"] by (simp add: mult.commute)
  have lm: "length (segment (k * 16) 16 m) = 16" using m k by (simp add: length_segment)
  have acc: "load_le (fold (\<lambda>i acc. xor_words acc (gf128_mul (segment (k * 96 + i * 16) 16 a) (segment (i * 16) 16 r))) is acc)
      = fold (\<lambda>i s. s XOR g i) is (load_le acc)" if "length acc = 16" for "is" acc
    using that by (induction "is" arbitrary: acc) (simp_all add: load_le_xor_words g_def)
  have six: "[0..<6] = [0, 1, 2, 3, 4, 5 :: nat]" "[1..<6] = [1, 2, 3, 4, 5 :: nat]" by (simp_all add: upt_rec)
  have "hm_line m a r k = fold (\<lambda>i acc. xor_words acc (gf128_mul (segment (k * 96 + i * 16) 16 a) (segment (i * 16) 16 r)))
      [0..<6] (segment (k * 16) 16 m)"
    by (simp add: hm_line_def Let_def hm_sizes algebra_simps)
  then have val: "load_le (hm_line m a r k) = fold (\<lambda>i s. s XOR g i) [1..<6] (g 0) XOR load_le (segment (k * 16) 16 m)"
    using acc [OF lm, of "[0..<6]"] unfolding six by (simp add: ac_simps)
  have hl: "length (hm_line m a r k) = 16" by (rule length_hm_line) (use m k in \<open>simp_all add: hm_sizes\<close>)
  have pk: "means p (e_pack ?E (slice (bits_of m) (k * 128) 128)) True (load_le (segment (k * 16) 16 m))"
    unfolding seg native_engine_simps by (rule means_cong [OF means_pack_T]) (use lm in \<open>simp_all add: pack_bits_of\<close>)
  have bits: "low_bits (load_le (hm_line m a r k)) 128 = bits_of (hm_line m a r k)"
    unfolding low_bits_128 using bytes_le_load_le [where 'a = 128 and bs = "hm_line m a r k"] hl by simp
  have fw: "means p (e_field_witness ?E (load_le (hm_line m a r k)) 128) True (bits_of (hm_line m a r k))"
    unfolding native_engine_simps
    by (rule means_cong [OF means_field_witness]) (simp_all add: bits take_bit_word_eq_self)
  show ?thesis
    unfolding s_line_def
    by (rule means_seq_T [OF first], rule means_seq_T [OF loop], rule means_seq_T [OF pk])
      (use fw in \<open>simp add: val\<close>)
qed

lemma means_commitment:
  assumes cfg: "cfg_ok cfg" and L: "poly_ok L" "trace_ok cfg L" and V: "shake_ok V"
    and r: "length r = 96" and a: "length a = 192" and m: "length m = 32"
  shows "means p (s_commitment (native_engine cfg L) (bits_of r) (bits_of a) (bits_of m)) True
    (bits_of (snd (v_hm_commit V m r a)))"
proof -
  let ?E = "native_engine cfg L"
  let ?st = "\<lambda>k. bits_of (concat (map (hm_line m a r) [0..<k]))"
  have "means p (loop (\<lambda>line b. seq (s_line ?E (bits_of r) (bits_of a) (bits_of m) line) (\<lambda>w. ret (b @ w))) [0..<2] (?st 0))
      (\<forall>k<2 :: nat. True) (?st 2)"
  proof (rule means_loop_upto)
    fix k :: nat assume "k < 2"
    have "means p (seq (s_line ?E (bits_of r) (bits_of a) (bits_of m) k) (\<lambda>w. ret (?st k @ w))) True (?st k @ bits_of (hm_line m a r k))"
      by (rule means_seq_T [OF means_line [OF L(1) r a m \<open>k < 2\<close>] means_ret])
    then show "means p (seq (s_line ?E (bits_of r) (bits_of a) (bits_of m) k) (\<lambda>w. ret (?st k @ w))) True (?st (Suc k))"
      by simp
  qed
  then have lines: "means p (loop (\<lambda>line b. seq (s_line ?E (bits_of r) (bits_of a) (bits_of m) line) (\<lambda>w. ret (b @ w))) [0..<2] [])
      True (bits_of (hm_lines m a r))"
    by (simp add: hm_lines_def hm_sizes)
  have dig: "snd (v_hm_commit V m r a) = shake_th_into (shake256 V) HM_DOM_D (a @ hm_lines m a r @ v_hm_y V r) 32"
    by (simp add: v_hm_commit_def Let_def v_hm_digest_def hm_commitment_def)
  have "means p (c_hash_str ?E ''HMy'' (bits_of r) 32) True (bits_of (v_hm_y V r))"
    using means_hash_str [OF cfg L(2) V, of "''HMy''" 32 p r] by (simp add: v_hm_y_def HM_DOM_Y_def HM_Y_BYTES_def)
  moreover have "means p (c_hash_str ?E ''HMd'' (bits_of a @ bits_of (hm_lines m a r) @ bits_of (v_hm_y V r)) 32) True
      (bits_of (snd (v_hm_commit V m r a)))"
    using means_hash_str [OF cfg L(2) V, of "''HMd''" 32 p "a @ hm_lines m a r @ v_hm_y V r"] by (simp add: dig HM_DOM_D_def)
  ultimately show ?thesis
    unfolding s_commitment_def by (intro means_seq_T [OF lines] means_seq_T)
qed


subsection \<open>The message hash\<close>

lemma number_byte: "c_number (native_engine cfg L) (ucast (w :: byte)) 8 = bits_of [w]"
  unfolding native_number by (rule nth_equalityI) (auto simp: nat_bits_def bits_of_Cons bit_simps unsigned_ucast_eq)

lemma epoch_be_bits: "length bs = 4 \<Longrightarrow> s_epoch_be (bits_of bs) = bits_of (rev bs)"
proof -
  assume "length bs = 4"
  then obtain a b c d where bs: "bs = [a, b, c, d]" by (auto simp: length_Suc_conv numeral_eq_Suc)
  have four: "[0..<4] = [0, 1, 2, 3 :: nat]" by (simp add: upt_rec)
  show ?thesis by (simp add: bs s_epoch_be_def four slice_def bits_of_Cons)
qed

lemma put_epoch_be_pw:
  assumes "length p = kPrimaryBytes"
  shows "put_epoch_be (pw_epoch p) = rev (segment kSigOffset 4 p)"
proof -
  have len: "length (segment kSigOffset 4 p) = 4" using assms by (simp add: segment_def layout_values)
  then show ?thesis
    using bytes_le_load_le [where 'a = 32 and bs = "segment kSigOffset 4 p"]
    by (simp add: put_epoch_be_def bytes_be_def pw_epoch_def XMSS_EPOCH_BYTES_def)
qed

lemma extract_ok_iff: "fst (xmss_extract_coords mh) \<longleftrightarrow> \<not> bit (mh ! 7) 7 \<and> \<not> bit (mh ! 15) 7"
proof -
  have seven: "drop_bit 7 w = of_bool (bit w 7)" for w :: byte
  proof (rule bit_word_eqI)
    fix n assume "n < LENGTH(8)"
    have "\<not> bit w (7 + n)" if "0 < n" using bit_imp_le_length [of w "7 + n"] that by auto
    then show "bit (drop_bit 7 w) n = bit (of_bool (bit w 7) :: byte) n"
      by (cases "n = 0") (auto simp: bit_drop_bit_eq of_bool_def bit_1_iff)
  qed
  show ?thesis
    by (cases "bit (mh ! 7) 7"; cases "bit (mh ! 15) 7") (simp_all add: xmss_extract_coords_def Let_def XMSS_MSG_HASH_LEN_def seven)
qed

lemma length_v_hash_message: "vole_ok V \<Longrightarrow> length pk = 16 \<Longrightarrow> length (v_xmss_hash_message V pk e nonce m) = 32"
  by (simp add: v_xmss_hash_message_def length_shake_th_into put_epoch_be_def xmss_sizes)

lemma means_message_hash:
  assumes cfg: "cfg_ok cfg" and L: "trace_ok cfg L" and V: "shake_ok V" "vole_ok V" "vole_malloc_ok V 56"
    and len: "length seed = 16" "length nonce = 24" "length d = 32"
    and mh: "mh = v_xmss_hash_message V seed e nonce d"
  shows "means p (s_message_hash (native_engine cfg L) (bits_of seed) (bits_of (put_epoch_be e)) (bits_of nonce) (bits_of d))
    (fst (xmss_extract_coords mh)) (bits_of mh)"
proof -
  let ?E = "native_engine cfg L"
  have m: "mh = shake_th_into (shake256 V) (seed @ [XMSS_TWEAK_MESSAGE] @ put_epoch_be e) (nonce @ d) 32"
    using V(3) len by (simp add: mh v_xmss_hash_message_def)
  have hash: "means p (c_hash ?E (bits_of seed @ c_number ?E (ucast XMSS_TWEAK_MESSAGE) 8 @ bits_of (put_epoch_be e)) (bits_of nonce @ bits_of d) 32)
      True (bits_of mh)"
    using means_hash [OF cfg L V(1), of "seed @ [XMSS_TWEAK_MESSAGE] @ put_epoch_be e" 32 p "nonce @ d"] len
    by (simp add: m number_byte put_epoch_be_def XMSS_EPOCH_BYTES_def bits_of_Cons)
  have "length mh = 32" unfolding mh by (rule length_v_hash_message [OF V(2) len(1)])
  then have nth: "bits_of mh ! 63 = bit (mh ! 7) 7" "bits_of mh ! 127 = bit (mh ! 15) 7" by (simp_all add: nth_bits_of)
  have "means p (s_message_hash ?E (bits_of seed) (bits_of (put_epoch_be e)) (bits_of nonce) (bits_of d))
      (\<not> bit (mh ! 7) 7 \<and> \<not> bit (mh ! 15) 7 \<and> True) (bits_of mh)"
    unfolding s_message_hash_def native_engine_simps
    by (rule means_seq_T [OF hash [unfolded native_engine_simps]]) (unfold nth, rule means_seq [OF means_zero_bit means_seq [OF means_zero_bit means_ret]])
  then show ?thesis by (rule means_cong) (simp_all add: extract_ok_iff)
qed

subsection \<open>The coordinates\<close>

lemma length_coord_bits:
  assumes "length mh = 32" "i < 42"
  shows "slice (bits_of mh) (xmss_coord_bit_pos i) 3 = nat_bits 3 (unat (snd (xmss_extract_coords mh) ! i))"
proof -
  have pos: "xmss_coord_bit_pos i + 3 \<le> 256"
    using assms(2) by (auto simp: xmss_coord_bit_pos_def XMSS_DIGITS_PER_WORD_def XMSS_WOTS_LEN_def XMSS_COORD_RES_BITS_def)
  show ?thesis
    by (rule nth_equalityI)
      (use pos assms in \<open>simp_all add: slice_def nat_bits_def nth_bits_of bit_extract_coords bit_unsigned_iff bit_imp_le_length\<close>)
qed

lemma nat_bits_small: "v < 2 ^ n \<Longrightarrow> bits_val (nat_bits n v) = v"
  by (simp add: bits_val_nat_bits)

lemma nat_bits_inject: "v < 2 ^ n \<Longrightarrow> w < 2 ^ n \<Longrightarrow> nat_bits n v = nat_bits n w \<longleftrightarrow> v = w"
  by (metis nat_bits_small)

lemma bits_val_zeros: "bits_val (bs @ replicate n False) = bits_val bs"
proof -
  have "bits_val (replicate n False) = 0" by (induction n) simp_all
  then show ?thesis by (simp add: bits_val_append)
qed

lemma pack_bytes_eq: "length x = 16 \<Longrightarrow> length y = 16 \<Longrightarrow> pack_bits (bits_of x) XOR pack_bits (bits_of y) = 0 \<longleftrightarrow> x = y"
  by (simp add: word_xor_zero pack_bits_eq_iff bits_of_inject)

text \<open>A product with a bit that must vanish: the bit is 0 or the other factor is.\<close>

lemma means_when:
  assumes "field_laws L"
  shows "means p (n_zero (poly_mul L (of_bool b) x)) (b \<longrightarrow> x = 0) ()"
  by (rule means_cong [OF means_zero]) (simp_all add: field_lawsD [OF assms])

lemma means_chains:
  assumes L: "field_laws L" and mh: "length mh = 32" and p: "length p = kPrimaryBytes"
    and cs: "cs = snd (xmss_extract_coords mh)"
  shows "means p (s_chains (native_engine cfg L) (bits_of mh))
    ((\<forall>i<42. cs ! i = 7 \<longrightarrow> pw_tip p i = pw_end p i) \<and> coords_sum cs = 195)
    (map (\<lambda>i. nat_bits 3 (unat (cs ! i))) [0..<42], map (\<lambda>i. bits_of (pw_tip p i)) [0..<42], map (\<lambda>i. bits_of (pw_end p i)) [0..<42])"
proof -
  let ?E = "native_engine cfg L"
  have ok: "length cs = 42" "\<And>i. i < 42 \<Longrightarrow> unat (cs ! i) \<le> 7"
    using extract_coords_ok [of mh] by (auto simp: cs coords_ok_def)
  let ?sum = "\<lambda>k. sum_list (map unat (take k cs))"
  have sum_le: "?sum k \<le> 7 * k" if "k \<le> 42" for k
    using that
  proof (induction k)
    case (Suc k)
    then show ?case using ok(2) [of k] by (simp add: take_Suc_conv_app_nth ok(1))
  qed simp
  define st where "st k = (map (\<lambda>i. nat_bits 3 (unat (cs ! i))) [0..<k], map (\<lambda>i. bits_of (pw_tip p i)) [0..<k],
      map (\<lambda>i. bits_of (pw_end p i)) [0..<k], nat_bits 9 (?sum k))" for k
  have step: "means p (s_chain ?E (bits_of mh) k (st k)) (cs ! k = 7 \<longrightarrow> pw_tip p k = pw_end p k) (st (Suc k))" if k: "k < 42" for k
  proof -
    have coord: "slice (bits_of mh) (xmss_coord_bit_pos k) 3 = nat_bits 3 (unat (cs ! k))"
      unfolding cs by (rule length_coord_bits [OF mh k])
    have c: "unat (cs ! k) \<le> 7" by (rule ok(2) [OF k])
    have S: "?sum (Suc k) = ?sum k + unat (cs ! k)" using k ok(1) by (simp add: take_Suc_conv_app_nth)
    have total: "means p (c_add ?E (nat_bits 9 (?sum k)) (nat_bits 3 (unat (cs ! k)) @ replicate 6 False) False) True (nat_bits 9 (?sum (Suc k)))"
      by (rule means_cong [OF means_add]) (use sum_le [of k] k c in \<open>simp_all add: S bits_val_zeros nat_bits_small\<close>)
    have tip: "means p (c_input ?E (kSigOffset + 28 + 16 * k) 16) True (bits_of (pw_tip p k))"
      unfolding pw_tip_def by (rule means_input_bytes [OF p]) (use k in \<open>simp add: layout_values\<close>)
    have en: "means p (c_input ?E (kEndpointsOffset + 16 * k) 16) True (bits_of (pw_end p k))"
      unfolding pw_end_def by (rule means_input_bytes [OF p]) (use k in \<open>simp add: layout_values\<close>)
    have seven: "c_number ?E 7 3 = nat_bits 3 7" by (simp add: native_number)
    have complete: "means p (c_equal ?E (nat_bits 3 (unat (cs ! k))) (c_number ?E 7 3)) True (cs ! k = 7)"
      unfolding seven by (rule means_cong [OF means_equal]) (use c in \<open>simp_all add: nat_bits_inject word_unat_eq_iff\<close>)
    note len = length_pw(4,7) [OF p k]
    have fin: "means p (n_zero (poly_mul L (of_bool (cs ! k = 7)) (pack_bits (bits_of (pw_tip p k)) XOR pack_bits (bits_of (pw_end p k)))))
        (cs ! k = 7 \<longrightarrow> pw_tip p k = pw_end p k) ()"
      by (rule means_cong [OF means_when [OF L]]) (simp_all add: pack_bytes_eq len)
    have "means p (s_chain ?E (bits_of mh) k (st k)) ((cs ! k = 7 \<longrightarrow> pw_tip p k = pw_end p k) \<and> True) (st (Suc k))"
      unfolding s_chain_def st_def prod.case Let_def coord
      unfolding native_engine_simps
      apply (rule means_seq_T [OF total])
      apply (rule means_seq_T [OF tip])
      apply (rule means_seq_T [OF en])
      apply (rule means_seq_T [OF complete])
      apply (rule means_seq_T [OF means_pack_T], simp)
      apply (rule means_seq_T [OF means_pack_T], simp add: len)
      apply (rule means_seq_T [OF means_pack_T], simp add: len)
      apply (rule means_seq, unfold pack_single, rule fin)
      apply (simp add: means_ret)
      done
    then show ?thesis by simp
  qed
  have init: "st 0 = ([], [], [], c_number ?E 0 9)" by (simp add: st_def native_number)
  have loop: "means p (loop (s_chain ?E (bits_of mh)) [0..<42] ([], [], [], c_number ?E 0 9))
      (\<forall>k<42. cs ! k = 7 \<longrightarrow> pw_tip p k = pw_end p k) (st 42)"
    unfolding init [symmetric] by (rule means_loop_upto) (rule step)
  have S: "?sum 42 = coords_sum cs" using ok(1) by (simp add: coords_sum_def)
  have target: "c_number ?E 195 9 = nat_bits 9 195" by (simp add: native_number)
  have sum: "means p (c_equal_field ?E (nat_bits 9 (?sum 42)) (c_number ?E 195 9)) (coords_sum cs = 195) ()"
    unfolding target by (rule means_cong [OF means_equal_field]) (use sum_le [of 42] S in \<open>simp_all add: nat_bits_inject\<close>)
  have "means p (s_chains ?E (bits_of mh)) ((\<forall>k<42. cs ! k = 7 \<longrightarrow> pw_tip p k = pw_end p k) \<and> coords_sum cs = 195 \<and> True)
    (map (\<lambda>i. nat_bits 3 (unat (cs ! i))) [0..<42], map (\<lambda>i. bits_of (pw_tip p i)) [0..<42], map (\<lambda>i. bits_of (pw_end p i)) [0..<42])"
    unfolding s_chains_def
    by (rule means_seq [OF loop]) (unfold st_def prod.case, rule means_seq [OF sum means_ret])
  then show ?thesis by simp
qed

end
