(* ===== verification/Vole_Schedule.thy ===== *)
theory Vole_Schedule
  imports Vole_Statement
begin

text \<open>
  The 99 schedule steps of the circuit. As long as no constraint has failed, the state before
  step \<open>k\<close> is described by the first \<open>k\<close> schedule bytes alone: the last named chain has
  advanced from its tip as often as it was named. The steps therefore all hold exactly when
  the bytes are sorted, name a chain only when the previous one is complete, never pass
  position 7, and end each completed chain in its endpoint; with the target sum this leaves
  one schedule, the one \<open>primary_witness\<close> writes.
\<close>

subsection \<open>Chains\<close>

definition v_chain :: "vole \<Rightarrow> bytes \<Rightarrow> u32 \<Rightarrow> nat \<Rightarrow> byte \<Rightarrow> nat \<Rightarrow> node \<Rightarrow> node" where
  "v_chain V pk e ci c n start =
     fold (\<lambda>j cur. v_xmss_hash_chain_step V pk e cur (of_nat ci) (c + of_nat j + 1)) [0..<n] start"

lemma v_chain_0 [simp]: "v_chain V pk e ci c 0 x = x"
  by (simp add: v_chain_def)

lemma v_chain_Suc: "v_chain V pk e ci c (Suc n) x = v_xmss_hash_chain_step V pk e (v_chain V pk e ci c n x) (of_nat ci) (c + of_nat n + 1)"
  by (simp add: v_chain_def)

lemma length_v_chain: "vole_ok V \<Longrightarrow> length x = 16 \<Longrightarrow> length (v_chain V pk e ci c n x) = 16"
  by (induction n) (simp_all add: v_chain_Suc length_v_chain_step)

lemma v_wots_pk_from_sig_chain:
  assumes "ci < 42" "unat (cs ! ci) \<le> 7"
  shows "v_xmss_wots_pk_from_sig V pk e sig cs ! ci = v_chain V pk e ci (cs ! ci) (7 - unat (cs ! ci)) (sig ! ci)"
proof -
  have c7: "cs ! ci \<le> 7" using assms(2) by (simp add: word_le_nat_alt)
  then have sub: "unat (7 - cs ! ci) = 7 - unat (cs ! ci)" by (simp add: unat_sub_if_size word_le_nat_alt)
  have z: "7 - cs ! ci = 0 \<longleftrightarrow> 7 - unat (cs ! ci) = 0" using sub by (metis unat_eq_zero)
  show ?thesis
    using assms(1) sub z
    by (auto simp: v_xmss_wots_pk_from_sig_def XMSS_WOTS_LEN_def XMSS_WOTS_MAX_STEPS_def Let_def v_xmss_hash_chain_multi_def v_chain_def)
qed

subsection \<open>The conditions of the steps\<close>

text \<open>How often the first \<open>k\<close> bytes of a schedule name chain \<open>i\<close>.\<close>

definition times_named :: "bytes \<Rightarrow> nat \<Rightarrow> nat \<Rightarrow> nat" where
  "times_named sc k i = length (filter (\<lambda>b. unat b = i) (take k sc))"

lemma times_named_0 [simp]: "times_named sc 0 i = 0"
  by (simp add: times_named_def)

lemma times_named_Suc: "k < length sc \<Longrightarrow> times_named sc (Suc k) i = times_named sc k i + (if unat (sc ! k) = i then 1 else 0)"
  by (simp add: times_named_def take_Suc_conv_app_nth)

definition step_ok :: "byte list \<Rightarrow> (nat \<Rightarrow> nat \<Rightarrow> node) \<Rightarrow> (nat \<Rightarrow> node) \<Rightarrow> bytes \<Rightarrow> nat \<Rightarrow> bool" where
  "step_ok cs node_at end_at sc k \<longleftrightarrow>
     (let i = unat (sc ! k); j = unat (sc ! (k - 1)); pos = unat (cs ! i) + times_named sc (Suc k) i
      in i < 42 \<and> (k \<noteq> 0 \<longrightarrow> j \<le> i \<and> (j = i \<or> unat (cs ! j) + times_named sc k j = 7)) \<and>
         pos \<le> 7 \<and> (pos = 7 \<longrightarrow> end_at i = node_at i (times_named sc (Suc k) i)))"

lemma step_okD:
  assumes "step_ok cs N E sc k"
  shows "unat (sc ! k) < 42" "k \<noteq> 0 \<Longrightarrow> unat (sc ! (k - 1)) \<le> unat (sc ! k)"
    "k \<noteq> 0 \<Longrightarrow> unat (sc ! (k - 1)) \<noteq> unat (sc ! k) \<Longrightarrow> unat (cs ! unat (sc ! (k - 1))) + times_named sc k (unat (sc ! (k - 1))) = 7"
    "unat (cs ! unat (sc ! k)) + times_named sc (Suc k) (unat (sc ! k)) \<le> 7"
    "unat (cs ! unat (sc ! k)) + times_named sc (Suc k) (unat (sc ! k)) = 7 \<Longrightarrow>
       E (unat (sc ! k)) = N (unat (sc ! k)) (times_named sc (Suc k) (unat (sc ! k)))"
  using assms by (auto simp: step_ok_def Let_def)

lemma steps_sorted:
  assumes "\<forall>j<k. step_ok cs N E sc j" "a \<le> b" "b < k"
  shows "unat (sc ! a) \<le> unat (sc ! b)"
  using assms(2,3)
proof (induction b)
  case (Suc b)
  show ?case
  proof (cases "a = Suc b")
    case False
    then have "unat (sc ! a) \<le> unat (sc ! b)" using Suc by simp
    also have "\<dots> \<le> unat (sc ! Suc b)" using assms(1) Suc.prems step_okD(2) [of cs N E sc "Suc b"] by simp
    finally show ?thesis .
  qed simp
qed simp

text \<open>A chain larger than the last one named has not been named yet.\<close>

lemma times_named_fresh:
  assumes "\<forall>j<k. step_ok cs N E sc j" "k \<le> length sc" "k \<noteq> 0" "unat (sc ! (k - 1)) < i"
  shows "times_named sc k i = 0"
proof -
  have "unat b \<noteq> i" if "b \<in> set (take k sc)" for b
  proof -
    from that obtain a where "a < length (take k sc)" "take k sc ! a = b" by (auto simp only: in_set_conv_nth)
    then have "a < k" "b = sc ! a" by simp_all
    moreover have "unat (sc ! a) \<le> unat (sc ! (k - 1))" by (rule steps_sorted [OF assms(1)]) (use \<open>a < k\<close> in auto)
    ultimately show ?thesis using assms(4) by auto
  qed
  then show ?thesis by (simp add: times_named_def filter_empty_conv)
qed

subsection \<open>The state of the circuit\<close>

definition step_state :: "byte list \<Rightarrow> (nat \<Rightarrow> nat \<Rightarrow> node) \<Rightarrow> bytes \<Rightarrow> nat \<Rightarrow> bool list \<times> bool list \<times> bool list" where
  "step_state cs node_at sc k =
     (if k = 0 then (nat_bits 8 0, nat_bits 3 0, replicate 128 False)
      else let b = sc ! (k - 1); i = unat b; n = times_named sc k i
           in (bits_of [b], nat_bits 3 (unat (cs ! i) + n), bits_of (node_at i n)))"

lemma bits_val_byte: "bits_val (bits_of [b]) = unat b"
proof -
  have "bits_of [b] = nat_bits 8 (unat b)"
    by (rule nth_equalityI) (auto simp: nat_bits_def bits_of_Cons bit_unsigned_iff)
  then show ?thesis using unsigned_less [where 'b = 8 and 'a = nat, of b] by (simp add: nat_bits_small)
qed

lemma bits_byte_eq: "bits_of [b] = bits_of [c] \<longleftrightarrow> b = c"
  by (simp add: bits_of_inject)

lemma of_bool_xor_1: "of_bool b XOR 1 = (of_bool (\<not> b) :: poly128)"
  by (cases b) simp_all

lemma means_order:
  assumes L: "field_laws L" and k: "k \<noteq> 0" and pos: "length pos = 3"
  shows "means p (s_order cfg (native_engine cfg' L) k (bits_of [b]) (bits_of [c]) pos)
    (unat c \<le> unat b \<and> (b = c \<or> pos = nat_bits 3 7)) (b = c)"
proof -
  let ?E = "native_engine cfg' L"
  have seven: "c_number ?E 7 3 = nat_bits 3 7" and one: "c_number ?E 1 1 = [True]"
    by (simp_all add: native_number nat_bits_def bit_Suc_0_iff)
  have same: "means p (c_equal ?E (bits_of [b]) (bits_of [c])) True (b = c)"
    by (rule means_cong [OF means_equal]) (simp_all add: bits_byte_eq)
  have less: "means p (c_less cfg ?E (bits_of [b]) (bits_of [c])) True (unat b < unat c)"
    by (rule means_cong [OF means_less]) (simp_all add: bits_val_byte)
  have z: "means p (n_zero (poly_mul L (of_bool (b = c) XOR 1) (pack_bits pos XOR pack_bits (nat_bits 3 7)))) (b = c \<or> pos = nat_bits 3 7) ()"
    unfolding of_bool_xor_1
    by (rule means_cong [OF means_when [OF L]]) (use pos in \<open>auto simp: word_xor_zero pack_bits_eq_iff\<close>)
  have "means p (s_order cfg ?E k (bits_of [b]) (bits_of [c]) pos) (\<not> unat b < unat c \<and> (b = c \<or> pos = nat_bits 3 7) \<and> True) (b = c)"
    unfolding s_order_def if_not_P [OF k] seven one unfolding native_engine_simps
    apply (rule means_seq_T [OF same])
    apply (rule means_seq_T [OF less])
    apply (rule means_seq [OF means_zero_bit])
    apply (rule means_seq_T [OF means_pack_T], simp)
    apply (rule means_seq_T [OF means_pack_T], simp)
    apply (rule means_seq_T [OF means_pack_T], simp add: pos)
    apply (rule means_seq_T [OF means_pack_T], simp)
    apply (rule means_seq, unfold pack_single of_bool_eq(2), rule z)
    apply (rule means_ret)
    done
  then show ?thesis by (rule means_cong) auto
qed

lemma pack_fits: "length bs \<le> n \<Longrightarrow> take_bit n (pack_bits bs) = pack_bits bs"
  by (rule bit_word_eqI) (auto simp: bit_take_bit_iff bit_pack_bits)

lemma means_field_witness_bits:
  "length bs = n \<Longrightarrow> n \<le> 128 \<Longrightarrow> means p (n_field_witness (pack_bits bs) n) True bs"
  by (rule means_cong [OF means_field_witness]) (simp_all add: pack_fits low_bits_pack)

text \<open>The step's choice of the node to advance.\<close>

lemma choose_node:
  assumes "field_laws L" "length x = 128" "length y = 128"
  shows "poly_mul L (of_bool b) (pack_bits x XOR pack_bits y) XOR pack_bits x = pack_bits (if b then y else x)"
  using assms by (simp add: field_lawsD xor.assoc xor.commute xor.left_commute)


subsection \<open>One step\<close>

lemma number_bits: "v < 2 ^ n \<Longrightarrow> n \<le> 8 \<Longrightarrow> nat_bits n v @ replicate (8 - n) False = bits_of [of_nat v]"
proof (rule nth_equalityI)
  fix j assume v: "v < 2 ^ n" "n \<le> 8" and "j < length (nat_bits n v @ replicate (8 - n) False)"
  then have j: "j < 8" by simp
  have "\<not> bit v j" if "n \<le> j"
  proof -
    have "take_bit n v = v" using v(1) by (simp add: take_bit_nat_eq_self_iff)
    then show ?thesis using that by (metis bit_take_bit_iff not_less)
  qed
  then show "(nat_bits n v @ replicate (8 - n) False) ! j = bits_of [of_nat v] ! j"
    using j v(2) by (auto simp: nth_append nat_bits_def bits_of_Cons bit_of_nat_iff)
qed (simp add: bits_of_Cons)

text \<open>What the loop is entered with.\<close>

definition run_ok :: "vconfig \<Rightarrow> circuit_lib \<Rightarrow> vole \<Rightarrow> bytes \<Rightarrow> bytes \<Rightarrow> byte list \<Rightarrow> bool" where
  "run_ok cfg L V p seed cs \<longleftrightarrow> cfg_ok cfg \<and> trace_ok cfg L \<and> field_laws L \<and> shake_ok V \<and> vole_ok V \<and>
     length p = kPrimaryBytes \<and> length seed = 16 \<and> (\<forall>i<42. unat (cs ! i) \<le> 7)"

lemma run_okD:
  assumes "run_ok cfg L V p seed cs"
  shows "cfg_ok cfg" "trace_ok cfg L" "field_laws L" "shake_ok V" "vole_ok V" "length p = kPrimaryBytes" "length seed = 16"
    "i < 42 \<Longrightarrow> unat (cs ! i) \<le> 7"
  using assms by (simp_all add: run_ok_def)

definition node_at :: "vole \<Rightarrow> bytes \<Rightarrow> bytes \<Rightarrow> byte list \<Rightarrow> nat \<Rightarrow> nat \<Rightarrow> node" where
  "node_at V seed p cs i n = v_chain V seed (pw_epoch p) i (cs ! i) n (pw_tip p i)"

abbreviation run_state :: "vole \<Rightarrow> bytes \<Rightarrow> bytes \<Rightarrow> byte list \<Rightarrow> nat \<Rightarrow> bool list \<times> bool list \<times> bool list" where
  "run_state V seed p cs \<equiv> step_state cs (node_at V seed p cs) (pw_schedule p)"

abbreviation run_step_ok :: "vole \<Rightarrow> bytes \<Rightarrow> bytes \<Rightarrow> byte list \<Rightarrow> nat \<Rightarrow> bool" where
  "run_step_ok V seed p cs \<equiv> step_ok cs (node_at V seed p cs) (pw_end p) (pw_schedule p)"

lemma length_node_at:
  assumes R: "run_ok cfg L V p seed cs"
  shows "i < 42 \<Longrightarrow> length (node_at V seed p cs i n) = 16"
  unfolding node_at_def by (rule length_v_chain [OF run_okD(5) [OF R] length_pw(4) [OF run_okD(6) [OF R]]])

lemma prefix_facts:
  assumes R: "run_ok cfg L V p seed cs" and before: "\<forall>j<k. run_step_ok V seed p cs j" and k: "k < 99" and st: "run_state V seed p cs k = (pi, pp, po)"
  shows "length pp = 3" "length po = 128" "length pi = 8"
    and "k \<noteq> 0 \<Longrightarrow> pi = bits_of [pw_schedule p ! (k - 1)]"
    and "k \<noteq> 0 \<Longrightarrow> pp = nat_bits 3 7 \<longleftrightarrow> unat (cs ! unat (pw_schedule p ! (k - 1))) + times_named (pw_schedule p) k (unat (pw_schedule p ! (k - 1))) = 7"
proof -
  have len: "length (pw_schedule p) = 99" by (rule length_pw(6) [OF run_okD(6) [OF R]])
  show "length pp = 3" "length pi = 8" "k \<noteq> 0 \<Longrightarrow> pi = bits_of [pw_schedule p ! (k - 1)]"
    using st by (auto simp: step_state_def Let_def split: if_splits)
  have prev: "unat (pw_schedule p ! (k - 1)) < 42" "unat (cs ! unat (pw_schedule p ! (k - 1))) + times_named (pw_schedule p) k (unat (pw_schedule p ! (k - 1))) \<le> 7" if "k \<noteq> 0"
    using step_okD(1,4) [of cs "node_at V seed p cs" "pw_end p" "pw_schedule p" "k - 1"] before that by auto
  show "length po = 128" using st prev by (auto simp: step_state_def Let_def length_node_at [OF R] split: if_splits)
  show "pp = nat_bits 3 7 \<longleftrightarrow> unat (cs ! unat (pw_schedule p ! (k - 1))) + times_named (pw_schedule p) k (unat (pw_schedule p ! (k - 1))) = 7" if "k \<noteq> 0"
    using st prev [OF that] that by (auto simp: step_state_def Let_def nat_bits_inject)
qed

lemma same_or_fresh:
  assumes R: "run_ok cfg L V p seed cs" and before: "\<forall>j<k. run_step_ok V seed p cs j" and k: "k < 99" and st: "run_state V seed p cs k = (pi, pp, po)" and i: "i = unat (pw_schedule p ! k)" "i < 42"
    and same: "same \<longleftrightarrow> k \<noteq> 0 \<and> pw_schedule p ! k = pw_schedule p ! (k - 1)" and le: "k \<noteq> 0 \<Longrightarrow> unat (pw_schedule p ! (k - 1)) \<le> i"
  shows "(if same then pp else nat_bits 3 (unat (cs ! i))) = nat_bits 3 (unat (cs ! i) + times_named (pw_schedule p) k i)"
    and "(if same then po else bits_of (pw_tip p i)) = bits_of (node_at V seed p cs i (times_named (pw_schedule p) k i))"
    and "unat (cs ! i) + times_named (pw_schedule p) k i \<le> 7"
proof -
  have len: "length (pw_schedule p) = 99" by (rule length_pw(6) [OF run_okD(6) [OF R]])
  have fresh: "times_named (pw_schedule p) k i = 0" if "\<not> same"
  proof (cases "k = 0")
    case False
    then have "unat (pw_schedule p ! (k - 1)) < i" using that le [OF False] by (auto simp: same i(1) le_less word_unat_eq_iff)
    then show ?thesis by (intro times_named_fresh [OF before]) (use k len False in auto)
  qed simp
  have stay: "pp = nat_bits 3 (unat (cs ! i) + times_named (pw_schedule p) k i) \<and> po = bits_of (node_at V seed p cs i (times_named (pw_schedule p) k i))" if same
    using st that by (auto simp: step_state_def Let_def same i(1))
  show "(if same then pp else nat_bits 3 (unat (cs ! i))) = nat_bits 3 (unat (cs ! i) + times_named (pw_schedule p) k i)"
    "(if same then po else bits_of (pw_tip p i)) = bits_of (node_at V seed p cs i (times_named (pw_schedule p) k i))"
    using stay fresh by (auto simp: node_at_def)
  show "unat (cs ! i) + times_named (pw_schedule p) k i \<le> 7"
  proof (cases same)
    case True
    then show ?thesis using step_okD(4) [of cs "node_at V seed p cs" "pw_end p" "pw_schedule p" "k - 1"] before by (auto simp: same i(1))
  next
    case False
    then show ?thesis using fresh run_okD(8) [OF R] i(2) by simp
  qed
qed

lemma means_order_or_start:
  assumes R: "run_ok cfg L V p seed cs" and before: "\<forall>j<k. run_step_ok V seed p cs j" and k: "k < 99" and st: "run_state V seed p cs k = (pi, pp, po)"
  shows "means p (s_order cfg' (native_engine cfg L) k (bits_of [pw_schedule p ! k]) pi pp)
    (k \<noteq> 0 \<longrightarrow> unat (pw_schedule p ! (k - 1)) \<le> unat (pw_schedule p ! k) \<and> (pw_schedule p ! k = pw_schedule p ! (k - 1) \<or> pp = nat_bits 3 7))
    (k \<noteq> 0 \<and> pw_schedule p ! k = pw_schedule p ! (k - 1))"
proof (cases "k = 0")
  case True
  then show ?thesis by (simp add: s_order_def means_ret)
next
  case False
  note f = prefix_facts [OF R before k st]
  show ?thesis
    unfolding f(4) [OF False] by (rule means_cong [OF means_order [OF run_okD(3) [OF R] False f(1)]]) (use False in auto)
qed



abbreviation coord_bits :: "byte list \<Rightarrow> bool list list" where
  "coord_bits cs \<equiv> map (\<lambda>i. nat_bits 3 (unat (cs ! i))) [0..<42]"

abbreviation tip_bits :: "bytes \<Rightarrow> bool list list" where
  "tip_bits p \<equiv> map (\<lambda>i. bits_of (pw_tip p i)) [0..<42]"

abbreviation end_bits :: "bytes \<Rightarrow> bool list list" where
  "end_bits p \<equiv> map (\<lambda>i. bits_of (pw_end p i)) [0..<42]"

lemma means_selected_of:
  assumes "field_laws L" "i < 42" "\<And>i. i < 42 \<Longrightarrow> length (f i) \<le> 128"
  shows "means p (s_selected (native_engine cfg L) (indicator_bits i 42) (map f [0..<42])) True (pack_bits (f i))"
  unfolding indicator_bits_def
  by (rule means_cong [OF means_selected]) (use assms in auto)

text \<open>The hash of a chain step, on bits.\<close>

lemma means_chain_hash:
  assumes R: "run_ok cfg L V p seed cs" and x: "length x = 16" and pos: "pos < 8"
  shows "means p (c_hash (native_engine cfg L) (bits_of x @ c_number (native_engine cfg L) (ucast XMSS_TWEAK_CHAIN) 8)
      (bits_of seed @ bits_of (put_epoch_be e) @ bits_of [b] @ (nat_bits 3 pos @ replicate 5 False)) 16) True
    (bits_of (v_xmss_hash_chain_step V seed e x b (of_nat pos)))"
proof -
  have "nat_bits 3 pos @ replicate 5 False = bits_of [of_nat pos]" using number_bits [of pos 3] pos by simp
  then show ?thesis
    using means_hash [OF run_okD(1,2,4) [OF R], of "x @ [XMSS_TWEAK_CHAIN]" 16 p "seed @ put_epoch_be e @ [b, of_nat pos]"] x
    by (simp add: number_byte v_xmss_hash_chain_step_def XMSS_NODE_BYTES_def bits_of_Cons [of b])
qed

lemma means_step:
  assumes R: "run_ok cfg L V p seed cs" and before: "\<forall>j<k. run_step_ok V seed p cs j" and k: "k < 99"
  shows "means p (s_step cfg (native_engine cfg L) (bits_of seed) (bits_of (put_epoch_be (pw_epoch p)))
      (coord_bits cs) (tip_bits p) (end_bits p) k (run_state V seed p cs k))
    (run_step_ok V seed p cs k) (run_state V seed p cs (Suc k))"
proof -
  let ?E = "native_engine cfg L" and ?e = "pw_epoch p"
  note field = run_okD(3) [OF R] and p = run_okD(6) [OF R]
  obtain pi pp po where st: "run_state V seed p cs k = (pi, pp, po)" by (cases "run_state V seed p cs k")
  note f = prefix_facts [OF R before k st]
  define b where "b = pw_schedule p ! k"
  define i where "i = unat b"
  define same where "same \<longleftrightarrow> k \<noteq> 0 \<and> b = pw_schedule p ! (k - 1)"
  define n where "n = times_named (pw_schedule p) k i"
  define ord where "ord \<longleftrightarrow> (k \<noteq> 0 \<longrightarrow> unat (pw_schedule p ! (k - 1)) \<le> i \<and> (same \<or> pp = nat_bits 3 7))"
  define pos where "pos = unat (cs ! i) + n + 1"
  have len: "length (pw_schedule p) = 99" by (rule length_pw(6) [OF p])
  have Suc_n: "times_named (pw_schedule p) (Suc k) i = n + 1" using k len by (simp add: times_named_Suc n_def i_def b_def)
  have index: "means p (c_input ?E (kScheduleOffset + k) 1) True (bits_of [b])"
  proof -
    have "segment (kScheduleOffset + k) 1 p = [b]"
      by (rule nth_equalityI) (use k p in \<open>simp_all add: segment_def b_def pw_schedule_def layout_values\<close>)
    then show ?thesis using means_input_bytes [OF p, of "kScheduleOffset + k" 1 cfg L] k by (simp add: layout_values)
  qed
  have flags: "means p (c_chain_flags ?E (bits_of [b])) (i < 64) (indicator_bits i 42)"
    using means_chain_flags [of "bits_of [b]" p cfg L] by (simp add: bits_val_byte i_def)
  have sum: "means p (n_zero_bit (c_invert ?E (fold (\<lambda>flag sum. sum \<noteq> flag) (indicator_bits i 42) False))) (i < 42) ()"
    unfolding indicator_sum by (rule means_cong [OF means_zero_bit]) (simp_all add: c_invert_def)
  have order: "means p (s_order cfg ?E k (bits_of [b]) pi pp) ord same"
    by (rule means_cong [OF means_order_or_start [OF R before k st, of cfg, folded b_def]]) (auto simp: ord_def same_def i_def)
  have seven: "c_number ?E 7 3 = nat_bits 3 7" and one: "c_number ?E 1 3 = nat_bits 3 1" by (simp_all add: native_number)
  note widths = length_pw(4,7) [OF p]
  define N where "N m = node_at V seed p cs i m" for m
  have N_Suc: "N (Suc n) = v_xmss_hash_chain_step V seed ?e (N n) b (of_nat pos)" if "i < 42"
  proof -
    have "(of_nat i :: byte) = b" by (simp add: i_def)
    then show ?thesis by (simp add: N_def node_at_def v_chain_Suc pos_def ac_simps)
  qed
  have out_state: "run_state V seed p cs (Suc k) = (bits_of [b], nat_bits 3 pos, bits_of (N (Suc n)))"
    by (simp add: step_state_def Let_def N_def flip: b_def i_def) (simp add: Suc_n pos_def)
  have tail_facts: "(if same then pp else nat_bits 3 (unat (cs ! i))) = nat_bits 3 (unat (cs ! i) + n)"
      "(if same then po else bits_of (pw_tip p i)) = bits_of (N n)" "unat (cs ! i) + n \<le> 7"
    if "i < 42" ord
    using same_or_fresh [OF R before k st, of i same] that by (auto simp: b_def i_def same_def n_def ord_def N_def)
  have "means p (s_step cfg ?E (bits_of seed) (bits_of (put_epoch_be ?e)) (coord_bits cs) (tip_bits p) (end_bits p) k (pi, pp, po))
    (i < 64 \<and> i < 42 \<and> ord \<and> pos < 8 \<and> (pos = 7 \<longrightarrow> pw_end p i = N (Suc n)) \<and> True)
    (bits_of [b], nat_bits 3 pos, bits_of (N (Suc n)))"
    unfolding s_step_def prod.case Let_def seven one
    apply (rule means_seq_T [OF index])
    apply (rule means_seq [OF flags])
    unfolding native_engine_simps
    apply (rule means_seq [OF sum])
    apply (rule means_seq [OF order])
    subgoal premises prems
    proof -
      note t = tail_facts [OF prems(2,3)]
      have NL: "length (N m) = 16" for m unfolding N_def by (rule length_node_at [OF R prems(2)])
      have coord: "means p (n_field_witness (pack_bits (nat_bits 3 (unat (cs ! i)))) 3) True (nat_bits 3 (unat (cs ! i)))"
        by (rule means_field_witness_bits) simp_all
      have base: "means p (c_select ?E same pp (nat_bits 3 (unat (cs ! i)))) True (nat_bits 3 (unat (cs ! i) + n))"
        by (rule means_cong [OF means_select]) (simp_all add: f t(1))
      have position: "means p (c_add ?E (nat_bits 3 (unat (cs ! i) + n)) (nat_bits 3 1) True) (pos < 8) (nat_bits 3 pos)"
        by (rule means_cong [OF means_add]) (use t(3) in \<open>simp_all add: nat_bits_small pos_def\<close>)
      have inn: "means p (n_field_witness (poly_mul L (pack_bits [same]) (pack_bits (bits_of (pw_tip p i)) XOR pack_bits po)
          XOR pack_bits (bits_of (pw_tip p i))) 128) True (bits_of (N n))"
      proof -
        have "poly_mul L (of_bool same) (pack_bits (bits_of (pw_tip p i)) XOR pack_bits po) XOR pack_bits (bits_of (pw_tip p i))
            = pack_bits (bits_of (N n))"
          unfolding t(2) [symmetric] by (rule choose_node [OF field]) (simp_all add: widths prems(2) f)
        then show ?thesis unfolding pack_single by (simp add: means_field_witness_bits NL)
      qed
      show ?thesis
        apply (rule means_seq_T [OF means_selected_of [OF field prems(2)]], simp add: widths)
        apply (rule means_seq_T [OF means_selected_of [OF field prems(2)]], simp add: widths)
        apply (rule means_seq_T [OF means_selected_of [OF field prems(2)]], simp)
        apply (rule means_seq_T [OF coord])
        apply (rule means_seq_T [OF base])
        apply (rule means_seq [OF position])
        apply (rule means_seq_T [OF means_pack_T], simp)
        apply (rule means_seq_T [OF means_pack_T], simp add: f)
        apply (rule means_seq_T [OF inn])
        apply (rule means_seq_T [OF means_chain_hash [OF R NL]], assumption)
        apply (rule means_seq_T [OF means_equal], simp)
        apply (rule means_seq_T [OF means_pack_T], simp)
        apply (rule means_seq_T [OF means_pack_T], simp add: length_v_chain_step [OF run_okD(5) [OF R]] NL)
        apply (unfold pack_single N_Suc [OF prems(2), symmetric])
        apply (rule means_seq [OF means_cong [OF means_when [OF field]] means_ret])
         apply (simp_all add: nat_bits_inject pack_bytes_eq widths prems NL)
        done
    qed
    done
  then show ?thesis
    unfolding st out_state
  proof (rule means_cong)
    show "(i < 64 \<and> i < 42 \<and> ord \<and> pos < 8 \<and> (pos = 7 \<longrightarrow> pw_end p i = N (Suc n)) \<and> True) = run_step_ok V seed p cs k"
    proof -
      have "run_step_ok V seed p cs k \<longleftrightarrow> i < 42 \<and> (k \<noteq> 0 \<longrightarrow> unat (pw_schedule p ! (k - 1)) \<le> i \<and>
          (unat (pw_schedule p ! (k - 1)) = i \<or>
           unat (cs ! unat (pw_schedule p ! (k - 1))) + times_named (pw_schedule p) k (unat (pw_schedule p ! (k - 1))) = 7)) \<and>
          pos \<le> 7 \<and> (pos = 7 \<longrightarrow> pw_end p i = N (Suc n))"
        unfolding step_ok_def Let_def b_def [symmetric] i_def [symmetric] Suc_n N_def pos_def by simp
      moreover have "unat (pw_schedule p ! (k - 1)) = i \<longleftrightarrow> same" if "k \<noteq> 0"
        using that by (auto simp: same_def i_def word_unat_eq_iff)
      ultimately show ?thesis using f(5) by (auto simp: ord_def)
    qed
  qed simp
qed


subsection \<open>The only schedule\<close>

lemma last_named: "n \<le> length sc \<Longrightarrow> times_named sc n i \<noteq> 0 \<Longrightarrow>
    \<exists>k<n. unat (sc ! k) = i \<and> times_named sc (Suc k) i = times_named sc n i"
proof (induction n)
  case (Suc n)
  show ?case
  proof (cases "unat (sc ! n) = i")
    case False
    then have "times_named sc (Suc n) i = times_named sc n i" using Suc.prems by (simp add: times_named_Suc)
    then show ?thesis using Suc by (auto simp: less_Suc_eq)
  qed auto
qed simp

lemma sum_named: "\<forall>b\<in>set xs. unat b < n \<Longrightarrow> (\<Sum>i<n. length (filter (\<lambda>b. unat b = i) xs)) = length xs"
proof (induction xs)
  case (Cons x xs)
  have "(\<Sum>i<n. length (filter (\<lambda>b. unat b = i) (x # xs))) = (\<Sum>i<n. length (filter (\<lambda>b. unat b = i) xs) + (if i = unat x then 1 else 0))"
    by (rule sum.cong) auto
  also have "\<dots> = length xs + 1" using Cons by (simp add: sum.distrib)
  finally show ?case by simp
qed simp

lemma chain_bytes_Suc: "chain_bytes cs [0..<Suc n] = chain_bytes cs [0..<n] @ replicate (7 - unat (cs ! n)) (of_nat n)"
  by (simp add: chain_bytes_def)

lemma chain_bytes_less: "n \<le> 42 \<Longrightarrow> b \<in> set (chain_bytes cs [0..<n]) \<Longrightarrow> unat b < n"
proof (induction n)
  case (Suc n)
  have "unat (of_nat n :: byte) = n" using Suc.prems by (simp add: unsigned_of_nat take_bit_nat_eq_self)
  then show ?case using Suc unfolding chain_bytes_Suc by (auto split: if_splits)
qed (simp add: chain_bytes_def)

lemma sorted_chain_bytes: "n \<le> 42 \<Longrightarrow> sorted (chain_bytes cs [0..<n])"
proof (induction n)
  case (Suc n)
  have "unat (of_nat n :: byte) = n" using Suc.prems by (simp add: unsigned_of_nat take_bit_nat_eq_self)
  then have "b \<le> of_nat n" if "b \<in> set (chain_bytes cs [0..<n])" for b
    using chain_bytes_less [of n b cs] that Suc.prems by (simp add: word_le_nat_alt [of b])
  then show ?case using Suc unfolding chain_bytes_Suc sorted_append by (auto simp: sorted_replicate)
qed (simp add: chain_bytes_def)

lemma sorted_unique:
  fixes xs ys :: bytes
  assumes "sorted xs" "sorted ys" "\<And>i. length (filter (\<lambda>b. unat b = i) xs) = length (filter (\<lambda>b. unat b = i) ys)"
  shows "xs = ys"
proof -
  have "count (mset xs) b = length (filter (\<lambda>c. unat c = unat b) xs)" for b and xs :: bytes
    by (induction xs) (auto simp flip: word_unat_eq_iff)
  then have "mset xs = mset ys" using assms(3) by (intro multiset_eqI) simp
  then show ?thesis using assms(1,2) by (metis sorted_sort_id properties_for_sort)
qed

lemma steps_iff:
  assumes sc: "length sc = 99" and cs: "length cs = 42" "\<And>i. i < 42 \<Longrightarrow> unat (cs ! i) \<le> 7" and sum: "coords_sum cs = 195"
  shows "(\<forall>k<99. step_ok cs N E sc k) \<and> unat (cs ! unat (sc ! 98)) + times_named sc 99 (unat (sc ! 98)) = 7 \<longleftrightarrow>
    sc = chain_bytes cs [0..<42] \<and> (\<forall>i<42. cs ! i \<noteq> 7 \<longrightarrow> E i = N i (7 - unat (cs ! i)))"
proof -
  have seven: "cs ! i \<noteq> 7 \<longleftrightarrow> unat (cs ! i) < 7" if "i < 42" for i
    using cs(2) [OF that] by (auto simp: word_unat_eq_iff le_less)
  have all: "times_named sc 99 i = length (filter (\<lambda>b. unat b = i) sc)" for i using sc by (simp add: times_named_def)
  have total: "(\<Sum>i<42. 7 - unat (cs ! i)) = 99"
  proof -
    have "(\<Sum>i<42. unat (cs ! i)) = 195" using sum cs(1) by (simp add: coords_sum_def sum_list_sum_nth atLeast0LessThan)
    moreover have "(\<Sum>i<42. 7 - unat (cs ! i)) + (\<Sum>i<42. unat (cs ! i)) = (\<Sum>i<(42 :: nat). 7)"
      unfolding sum.distrib [symmetric] by (rule sum.cong) (use cs(2) in auto)
    ultimately show ?thesis by simp
  qed
  show ?thesis
  proof (intro iffI conjI)
    assume "(\<forall>k<99. step_ok cs N E sc k) \<and> unat (cs ! unat (sc ! 98)) + times_named sc 99 (unat (sc ! 98)) = 7"
    then have ok: "\<And>k. k < 99 \<Longrightarrow> step_ok cs N E sc k" by blast
    have below: "\<forall>b\<in>set sc. unat b < 42" using step_okD(1) [OF ok] sc by (auto simp: in_set_conv_nth)
    have bound: "times_named sc 99 i \<le> 7 - unat (cs ! i)" for i
    proof (cases "times_named sc 99 i = 0")
      case False
      then obtain k where k: "k < 99" "unat (sc ! k) = i" "times_named sc (Suc k) i = times_named sc 99 i"
        using last_named [of 99 sc i] sc by auto
      then show ?thesis using step_okD(4) [OF ok [OF k(1)]] by simp
    qed simp
    have eq: "times_named sc 99 i = 7 - unat (cs ! i)" if "i < 42" for i
    proof (rule sum_mono_inv [where I = "{..<42}" and f = "times_named sc 99" and g = "\<lambda>i. 7 - unat (cs ! i)"])
      show "(\<Sum>i<42. times_named sc 99 i) = (\<Sum>i<42. 7 - unat (cs ! i))" unfolding total all using sum_named [OF below] sc by simp
    qed (use bound that in auto)
    show "sc = chain_bytes cs [0..<42]"
    proof (rule sorted_unique [OF _ sorted_chain_bytes [OF order.refl]])
      show "sorted sc"
        unfolding sorted_iff_nth_mono word_le_nat_alt sc
        by (intro allI impI steps_sorted [of 99 cs N E sc]) (use ok in auto)
      show "length (filter (\<lambda>b. unat b = i) sc) = length (filter (\<lambda>b. unat b = i) (chain_bytes cs [0..<42]))" for i
      proof (cases "i < 42")
        case True
        then show ?thesis using eq [OF True] unfolding all count_chain_bytes [OF order.refl True] by simp
      next
        case False
        then have "filter (\<lambda>b. unat b = i) sc = []" "filter (\<lambda>b. unat b = i) (chain_bytes cs [0..<42]) = []"
          using below chain_bytes_below [of 42 _ cs] by (auto simp: filter_empty_conv)
        then show ?thesis by simp
      qed
    qed
    show "\<forall>i<42. cs ! i \<noteq> 7 \<longrightarrow> E i = N i (7 - unat (cs ! i))"
    proof (intro allI impI)
      fix i assume i: "i < 42" "cs ! i \<noteq> 7"
      then have "times_named sc 99 i \<noteq> 0" using eq seven by simp
      then obtain k where k: "k < 99" "unat (sc ! k) = i" "times_named sc (Suc k) i = times_named sc 99 i"
        using last_named [of 99 sc i] sc by auto
      then show "E i = N i (7 - unat (cs ! i))"
        using step_okD(5) [OF ok [OF k(1)]] eq [OF i(1)] cs(2) [OF i(1)] by simp
    qed
  next
    assume rhs: "sc = chain_bytes cs [0..<42] \<and> (\<forall>i<42. cs ! i \<noteq> 7 \<longrightarrow> E i = N i (7 - unat (cs ! i)))"
    have below: "unat (sc ! k) < 42" if "k < 99" for k
      using chain_bytes_below [of 42 "sc ! k" cs] rhs that sc by (simp add: nth_mem)
    have sorted: "unat (sc ! a) \<le> unat (sc ! b)" if "a \<le> b" "b < 99" for a b
      using sorted_nth_mono [OF sorted_chain_bytes [OF order.refl, of cs], of a b] rhs that sc by (simp add: word_le_nat_alt)
    have T: "times_named sc 99 i = 7 - unat (cs ! i)" if "i < 42" for i
      using count_chain_bytes [OF order.refl that, of cs] that rhs unfolding all by simp
    have mono: "times_named sc a i \<le> times_named sc b i" if "a \<le> b" "b \<le> 99" for a b i
      using that by (induction b rule: dec_induct) (use sc in \<open>auto simp: times_named_Suc\<close>)
    have complete: "times_named sc k j = times_named sc 99 j" if "k \<le> 99" "\<And>a. k \<le> a \<Longrightarrow> a < 99 \<Longrightarrow> unat (sc ! a) \<noteq> j" for k j
      using that(1) by (induction k rule: inc_induct) (use that(2) sc in \<open>auto simp: times_named_Suc\<close>)
    show "\<forall>k<99. step_ok cs N E sc k"
    proof (intro allI impI)
      fix k :: nat assume k: "k < 99"
      define i where "i = unat (sc ! k)"
      define j where "j = unat (sc ! (k - 1))"
      have i: "i < 42" and j: "j < 42" using below [of k] below [of "k - 1"] k by (simp_all add: i_def j_def)
      have ji: "j \<le> i" unfolding i_def j_def by (rule sorted) (use k in auto)
      have pos: "unat (cs ! i) + times_named sc (Suc k) i \<le> 7"
        using mono [of "Suc k" 99 i] T [OF i] cs(2) [OF i] k by simp
      have "unat (cs ! j) + times_named sc k j = 7" if "j \<noteq> i"
      proof -
        have "times_named sc k j = times_named sc 99 j"
        proof (rule complete)
          fix a assume "k \<le> a" "a < 99"
          then have "i \<le> unat (sc ! a)" unfolding i_def by (rule sorted)
          then show "unat (sc ! a) \<noteq> j" using ji that by simp
        qed (use k in simp)
        then show ?thesis using T [OF j] cs(2) [OF j] by simp
      qed
      moreover have "E i = N i (times_named sc (Suc k) i)" if "unat (cs ! i) + times_named sc (Suc k) i = 7"
      proof -
        have "times_named sc (Suc k) i \<noteq> 0" using k sc by (simp add: times_named_Suc i_def)
        then have "cs ! i \<noteq> 7" "times_named sc (Suc k) i = 7 - unat (cs ! i)" using that seven [OF i] by auto
        then show ?thesis using rhs i by simp
      qed
      ultimately show "step_ok cs N E sc k"
        using i ji pos unfolding step_ok_def Let_def i_def [symmetric] j_def [symmetric] by blast
    qed
    have "unat (sc ! 98) < 42" by (rule below) simp
    then show "unat (cs ! unat (sc ! 98)) + times_named sc 99 (unat (sc ! 98)) = 7"
      using T cs(2) by simp
  qed
qed

lemma means_steps:
  assumes R: "run_ok cfg L V p seed cs" and cs: "length cs = 42" and sum: "coords_sum cs = 195"
  shows "means p (s_steps cfg (native_engine cfg L) (bits_of seed) (bits_of (put_epoch_be (pw_epoch p))) (coord_bits cs) (tip_bits p) (end_bits p))
    (pw_schedule p = chain_bytes cs [0..<42] \<and> (\<forall>i<42. cs ! i \<noteq> 7 \<longrightarrow> pw_end p i = node_at V seed p cs i (7 - unat (cs ! i)))) ()"
proof -
  let ?E = "native_engine cfg L" and ?j = "unat (pw_schedule p ! 98)"
  have start: "(c_number ?E 0 8, c_number ?E 0 3, c_number ?E 0 128) = run_state V seed p cs 0"
    unfolding step_state_def if_True by (auto simp: native_number intro!: nth_equalityI) (simp add: nat_bits_def)
  have seven: "c_number ?E 7 3 = nat_bits 3 7" by (simp add: native_number)
  let ?n = "unat (cs ! ?j) + times_named (pw_schedule p) 99 ?j"
  obtain pi po where last: "run_state V seed p cs 99 = (pi, nat_bits 3 ?n, po)"
    by (simp add: step_state_def Let_def)
  have loop: "means p (loop (s_step cfg ?E (bits_of seed) (bits_of (put_epoch_be (pw_epoch p))) (coord_bits cs) (tip_bits p) (end_bits p))
      [0..<99] (run_state V seed p cs 0)) (\<forall>k<99. run_step_ok V seed p cs k) (run_state V seed p cs 99)"
    by (rule means_loop_upto) (rule means_step [OF R])
  have fin: "means p (c_equal_field ?E (nat_bits 3 ?n) (nat_bits 3 7)) (?n = 7) ()" if "\<forall>k<99. run_step_ok V seed p cs k"
  proof -
    have "?n \<le> 7" using step_okD(4) [of cs "node_at V seed p cs" "pw_end p" "pw_schedule p" 98] that by simp
    then show ?thesis by (intro means_cong [OF means_equal_field]) (simp_all add: nat_bits_inject)
  qed
  have "means p (s_steps cfg ?E (bits_of seed) (bits_of (put_epoch_be (pw_epoch p))) (coord_bits cs) (tip_bits p) (end_bits p))
      ((\<forall>k<99. run_step_ok V seed p cs k) \<and> ?n = 7) ()"
    unfolding s_steps_def start seven
    by (rule means_seq [OF loop]) (unfold last prod.case, rule fin)
  then show ?thesis
    by (rule means_cong)
      (use steps_iff [OF length_pw(6) [OF run_okD(6) [OF R]] cs run_okD(8) [OF R] sum, of "node_at V seed p cs" "pw_end p"] in simp_all)
qed

end
