(* ===== verification/Vole_Exact.thy ===== *)
theory Vole_Exact
  imports Vole_Schedule
begin

text \<open>
  What the circuit says: run on a primary witness with validation on, it throws unless the
  witness holds an XMSS signature on the digest of a commitment to the message, the one
  schedule of its codeword and the public key hashes of its one-time signature.
\<close>

subsection \<open>The root\<close>

definition walk :: "vole \<Rightarrow> bytes \<Rightarrow> bytes \<Rightarrow> node \<Rightarrow> nat \<Rightarrow> node \<times> u32" where
  "walk V seed p leaf k = fold (v_xmss_walk_step V seed (map (pw_sibling p) [0..<32])) [0..<k] (leaf, pw_epoch p)"

definition level_state :: "node \<times> u32 \<Rightarrow> bool list \<times> bool list" where
  "level_state = (\<lambda>(node, idx). (bits_of node, map (bit idx) [0..<32]))"

lemma walk_0: "walk V seed p leaf 0 = (leaf, pw_epoch p)"
  by (simp add: walk_def)

lemma walk_Suc: "walk V seed p leaf (Suc k) = v_xmss_walk_step V seed (map (pw_sibling p) [0..<32]) k (walk V seed p leaf k)"
  unfolding walk_def upt_Suc_append [OF le0] fold_append by simp

lemma length_v_tree_node: "vole_ok V \<Longrightarrow> length seed = 16 \<Longrightarrow> length (v_xmss_hash_tree_node V seed l r h i) = 16"
  by (simp add: v_xmss_hash_tree_node_def xmss_sizes length_shake_th_into)

lemma length_walk:
  assumes "vole_ok V" "length seed = 16" "length leaf = 16"
  shows "length (fst (walk V seed p leaf k)) = 16"
proof (cases k)
  case (Suc n)
  show ?thesis
    unfolding Suc walk_Suc v_xmss_walk_step_def
    by (cases "walk V seed p leaf n") (simp add: Let_def length_v_tree_node assms)
qed (simp add: walk_0 assms)

lemma bits_shift_word: "tl (map (bit (w :: u32)) [0..<32]) @ [False] = map (bit (drop_bit 1 w)) [0..<32]"
proof (rule nth_equalityI)
  fix i assume "i < length (tl (map (bit w) [0..<32]) @ [False])"
  then have i: "i < 32" by simp
  have "\<not> bit w 32" using bit_imp_le_length [of w 32] by auto
  then show "(tl (map (bit w) [0..<32]) @ [False]) ! i = map (bit (drop_bit 1 w)) [0..<32] ! i"
    using i by (cases "i = 31") (auto simp: nth_append nth_tl bit_drop_bit_eq)
qed simp

lemma level_number: "level < 32 \<Longrightarrow> c_number (native_engine cfg L) (of_nat level) 8 = bits_of [ucast ((of_nat level :: u32) AND 0xff)]"
proof -
  assume l: "level < 32"
  have ff: "(0xff :: u32) = mask 8" by (simp add: mask_eq_exp_minus_1)
  have "(ucast ((of_nat level :: u32) AND 0xff) :: byte) = of_nat level"
    unfolding ff by (intro bit_word_eqI) (auto simp: bit_simps)
  moreover have "unat (of_nat level :: u64) = level" using l by (simp add: unsigned_of_nat take_bit_nat_eq_self)
  ultimately show ?thesis
    unfolding native_number by (intro nth_equalityI) (auto simp: nat_bits_def bits_of_Cons bit_simps)
qed


lemma means_level:
  assumes R: "run_ok cfg L V p seed cs" and leaf: "length leaf = 16" and k: "k < 32"
  shows "means p (s_level (native_engine cfg L) (bits_of seed) k (level_state (walk V seed p leaf k))) True
    (level_state (walk V seed p leaf (Suc k)))"
proof -
  let ?E = "native_engine cfg L"
  obtain node idx where w: "walk V seed p leaf k = (node, idx)" by fastforce
  note p = run_okD(6) [OF R]
  let ?sib = "pw_sibling p k"
  have len: "length node = 16" "length ?sib = 16"
    using length_walk [OF run_okD(5,7) [OF R] leaf, of p k] length_pw(5) [OF p k] by (simp_all add: w)
  have sib: "means p (c_input ?E (kSigOffset + 28 + 42 * 16 + k * 16) 16) True (bits_of ?sib)"
    unfolding pw_sibling_def by (rule means_input_bytes [OF p]) (use k in \<open>simp add: layout_values\<close>)
  let ?left = "if bit idx 0 then ?sib else node" and ?right = "if bit idx 0 then node else ?sib"
  have left: "means p (c_select ?E (map (bit idx) [0..<32] ! 0) (bits_of ?sib) (bits_of node)) True (bits_of ?left)"
    by (rule means_cong [OF means_select]) (simp_all add: len)
  have right: "map (\<lambda>i. (bits_of ?left ! i \<noteq> bits_of node ! i) \<noteq> bits_of ?sib ! i) [0..<128] = bits_of ?right"
    by (rule nth_equalityI) (auto simp: len)
  have idx': "tl (map (bit idx) [0..<32]) @ [False] = bits_of (bytes_le 4 (drop_bit 1 idx))"
    unfolding bits_shift_word bits_of_bytes_le by simp
  have hash: "means p (c_hash ?E (bits_of seed @ c_number ?E (ucast XMSS_TWEAK_TREE) 8 @ c_number ?E (of_nat k) 8
        @ bits_of (bytes_le 4 (drop_bit 1 idx))) (bits_of ?left @ bits_of ?right) 16) True
      (bits_of (v_xmss_hash_tree_node V seed ?left ?right (of_nat k) (drop_bit 1 idx)))"
    using means_hash [OF run_okD(1,2,4) [OF R], of "seed @ [XMSS_TWEAK_TREE, ucast ((of_nat k :: u32) AND 0xff)] @ bytes_le 4 (drop_bit 1 idx)"
        16 p "?left @ ?right"] run_okD(7) [OF R]
    by (simp add: number_byte level_number [OF k] v_xmss_hash_tree_node_def XMSS_NODE_BYTES_def
        bits_of_Cons [of XMSS_TWEAK_TREE] bits_of_Cons [of "ucast _"])
  have parent: "walk V seed p leaf (Suc k) = (v_xmss_hash_tree_node V seed ?left ?right (of_nat k) (drop_bit 1 idx), drop_bit 1 idx)"
    using k by (simp add: walk_Suc w v_xmss_walk_step_def Let_def and_one_eq mod_2_eq_odd bit_0)
  show ?thesis
    unfolding s_level_def w parent level_state_def prod.case
    apply (rule means_seq_T [OF sib])
    apply (rule means_seq_T [OF left])
    unfolding Let_def native_engine_simps right idx'
    apply (rule means_seq_T [OF hash])
    apply (simp add: means_ret bits_of_bytes_le)
    done
qed

lemma means_root:
  assumes R: "run_ok cfg L V p seed cs" and ends: "\<forall>x\<in>set ends. length x = 16" and root: "length root = 16"
  shows "means p (s_root (native_engine cfg L) (bits_of seed) (map (bit (pw_epoch p)) [0..<32]) (bits_of (put_epoch_be (pw_epoch p)))
      (map bits_of ends) root)
    (v_xmss_walk_auth_path V seed (v_xmss_hash_public_key V seed (pw_epoch p) ends) (pw_epoch p) (map (pw_sibling p) [0..<32]) = root) ()"
proof -
  let ?E = "native_engine cfg L" and ?e = "pw_epoch p"
  define leaf where "leaf = v_xmss_hash_public_key V seed ?e ends"
  have leaf: "length leaf = 16"
    using run_okD(5,7) [OF R] by (simp add: leaf_def v_xmss_hash_public_key_def put_epoch_be_def xmss_sizes length_shake_th_into)
  have concat: "concat (map bits_of ends) = bits_of (concat ends)" by (induction ends) simp_all
  have hash: "means p (c_hash ?E (bits_of seed @ c_number ?E (ucast XMSS_TWEAK_LEAF) 8 @ bits_of (put_epoch_be ?e)) (concat (map bits_of ends)) 16)
      True (bits_of leaf)"
    using means_hash [OF run_okD(1,2,4) [OF R], of "seed @ [XMSS_TWEAK_LEAF] @ put_epoch_be ?e" 16 p "concat ends"] run_okD(7) [OF R]
    by (simp add: concat number_byte leaf_def v_xmss_hash_public_key_def put_epoch_be_def xmss_sizes bits_of_Cons [of XMSS_TWEAK_LEAF])
  let ?st = "\<lambda>k. level_state (walk V seed p leaf k)"
  have loop: "means p (loop (s_level ?E (bits_of seed)) [0..<32] (?st 0)) (\<forall>k<32 :: nat. True) (?st 32)"
    by (rule means_loop_upto) (rule means_level [OF R leaf])
  obtain node idx where w: "walk V seed p leaf 32 = (node, idx)" by fastforce
  have node: "length node = 16" "v_xmss_walk_auth_path V seed leaf ?e (map (pw_sibling p) [0..<32]) = node"
    using length_walk [OF run_okD(5,7) [OF R] leaf, of p 32] w
    by (simp_all add: v_xmss_walk_auth_path_def walk_def XMSS_H_def)
  have fin: "means p (c_equal_field ?E (bits_of node) (c_constant ?E root)) (node = root) ()"
    unfolding native_constant by (rule means_cong [OF means_equal_field]) (simp_all add: node root bits_of_inject)
  have init: "(bits_of leaf, map (bit ?e) [0..<32]) = ?st 0" by (simp add: walk_0 level_state_def)
  have "means p (s_root ?E (bits_of seed) (map (bit ?e) [0..<32]) (bits_of (put_epoch_be ?e)) (map bits_of ends) root) (True \<and> node = root) ()"
    unfolding s_root_def
    by (rule means_seq_T [OF hash], unfold init, rule means_seq [OF loop [simplified]])
      (simp only: w level_state_def prod.case, rule fin)
  then show ?thesis using node(2) by (simp add: leaf_def)
qed

lemma means_padding: "means p (s_padding (native_engine cfg L)) True ()"
proof -
  have "means p (loop (\<lambda>_ _. seq (n_allocate False) n_zero_bit) [0..<n] ()) True ()" for n
  proof -
    have "means p (loop (\<lambda>_ _. seq (n_allocate False) n_zero_bit) [0..<n] ()) True (fold (\<lambda>_ u. u) [0..<n] ())"
      by (rule means_loop_T [where J = "\<lambda>_. True"])
        (rule means_seq_T [OF means_allocate means_cong [OF means_zero_bit]], simp_all)
    then show ?thesis by simp
  qed
  then show ?thesis by (simp add: s_padding_def means_def)
qed


subsection \<open>The statement\<close>

definition pw_digest :: "vole \<Rightarrow> bytes \<Rightarrow> bytes \<Rightarrow> bytes" where
  "pw_digest V m p = snd (v_hm_commit V m (pw_r p) (pw_a p))"

definition pw_coords :: "vole \<Rightarrow> bytes \<Rightarrow> bytes \<Rightarrow> bytes \<Rightarrow> byte list" where
  "pw_coords V m seed p = snd (xmss_extract_coords (v_xmss_hash_message V seed (pw_epoch p) (pw_nonce p) (pw_digest V m p)))"

text \<open>The primary witness is what the statement asks for.\<close>

definition primary_ok :: "vole \<Rightarrow> vstatement \<Rightarrow> bytes \<Rightarrow> bool" where
  "primary_ok V stm p \<longleftrightarrow>
     (let cs = pw_coords V (vs_message stm) (vs_pk_seed stm) p
      in v_xmss_verify V (vs_pk_seed stm) (vs_root stm) (pw_digest V (vs_message stm) p) (pw_sig p) \<and>
         pw_schedule p = chain_bytes cs [0..<42] \<and>
         map (pw_end p) [0..<42] = v_xmss_wots_pk_from_sig V (vs_pk_seed stm) (pw_epoch p) (map (pw_tip p) [0..<42]) cs)"

definition statement_wf :: "vstatement \<Rightarrow> bool" where
  "statement_wf stm \<longleftrightarrow> length (vs_message stm) = 32 \<and> length (vs_pk_seed stm) = 16 \<and> length (vs_root stm) = 16"

lemma length_v_hm_digest:
  assumes "vole_ok V"
  shows "length (snd (v_hm_commit V m r a)) = 32"
  using assms by (simp add: v_hm_commit_def Let_def v_hm_digest_def HM_DOM_D_def length_shake_th_into)

lemma pw_ends_iff:
  assumes "\<And>i. i < 42 \<Longrightarrow> unat (cs ! i) \<le> 7"
  shows "map (pw_end p) [0..<42] = v_xmss_wots_pk_from_sig V seed (pw_epoch p) (map (pw_tip p) [0..<42]) cs \<longleftrightarrow>
    (\<forall>i<42. cs ! i = 7 \<longrightarrow> pw_tip p i = pw_end p i) \<and>
    (\<forall>i<42. cs ! i \<noteq> 7 \<longrightarrow> pw_end p i = node_at V seed p cs i (7 - unat (cs ! i)))"
proof -
  have len: "length (v_xmss_wots_pk_from_sig V seed (pw_epoch p) (map (pw_tip p) [0..<42]) cs) = 42"
    by (simp add: v_xmss_wots_pk_from_sig_def XMSS_WOTS_LEN_def)
  have item: "v_xmss_wots_pk_from_sig V seed (pw_epoch p) (map (pw_tip p) [0..<42]) cs ! i = node_at V seed p cs i (7 - unat (cs ! i))"
    if "i < 42" for i
    using v_wots_pk_from_sig_chain [of i cs] that assms [OF that] by (simp add: node_at_def)
  have "map (pw_end p) [0..<42] = v_xmss_wots_pk_from_sig V seed (pw_epoch p) (map (pw_tip p) [0..<42]) cs \<longleftrightarrow>
    (\<forall>i<42. pw_end p i = node_at V seed p cs i (7 - unat (cs ! i)))"
    using len by (auto simp: list_eq_iff_nth_eq item)
  moreover have "node_at V seed p cs i (7 - unat (cs ! i)) = pw_tip p i" if "cs ! i = 7" for i
    using that by (simp add: node_at_def)
  ultimately show ?thesis by metis
qed

theorem means_statement:
  assumes cfg: "cfg_ok cfg" and L: "poly_ok L" "trace_ok cfg L" and V: "vole_ok V" "shake_ok V" "vole_malloc_ok V 56"
    and p: "length p = kPrimaryBytes" and stm: "statement_wf stm"
  shows "means p (c_statement cfg (native_engine cfg L) stm) (primary_ok V stm p) ()"
proof -
  let ?E = "native_engine cfg L" and ?m = "vs_message stm" and ?seed = "vs_pk_seed stm" and ?e = "pw_epoch p"
  have wf: "length ?m = 32" "length ?seed = 16" "length (vs_root stm) = 16" using stm by (simp_all add: statement_wf_def)
  define d where "d = pw_digest V ?m p"
  define mh where "mh = v_xmss_hash_message V ?seed ?e (pw_nonce p) d"
  define cs where "cs = snd (xmss_extract_coords mh)"
  have cs: "length cs = 42" "\<And>i. i < 42 \<Longrightarrow> unat (cs ! i) \<le> 7"
    using extract_coords_ok [of mh] by (auto simp: cs_def coords_ok_def)
  note lens = length_pw [OF p]
  have R: "run_ok cfg L V p ?seed cs"
    using cfg L(2) V(1,2) p wf(2) cs(2) poly_ok_laws [OF L(1)] by (simp add: run_ok_def)
  have d_len: "length d = 32" by (simp add: d_def pw_digest_def length_v_hm_digest V(1))
  have mh_len: "length mh = 32" unfolding mh_def by (rule length_v_hash_message [OF V(1) wf(2)])
  have r: "means p (c_input ?E 0 96) True (bits_of (pw_r p))" and a: "means p (c_input ?E 96 192) True (bits_of (pw_a p))"
    and nonce: "means p (c_input ?E (kSigOffset + 4) 24) True (bits_of (pw_nonce p))"
    and epoch: "means p (c_input ?E kSigOffset 4) True (bits_of (segment kSigOffset 4 p))"
    unfolding pw_r_def pw_a_def pw_nonce_def by (rule means_input_bytes [OF p], simp add: layout_values)+
  have e4: "length (segment kSigOffset 4 p) = 4" using p by (simp add: segment_def layout_values)
  have be: "s_epoch_be (bits_of (segment kSigOffset 4 p)) = bits_of (put_epoch_be ?e)"
    by (simp add: epoch_be_bits [OF e4] put_epoch_be_pw [OF p])
  have eb: "bits_of (segment kSigOffset 4 p) = map (bit ?e) [0..<32]"
    using bytes_le_load_le [where 'a = 32 and bs = "segment kSigOffset 4 p"] e4 bits_of_bytes_le [of 4 ?e] by (simp add: pw_epoch_def)
  have commitment: "means p (s_commitment ?E (bits_of (pw_r p)) (bits_of (pw_a p)) (bits_of ?m)) True (bits_of d)"
    unfolding d_def pw_digest_def by (rule means_commitment [OF cfg L V(2) lens(1,2) wf(1)])
  have message: "means p (s_message_hash ?E (bits_of ?seed) (bits_of (put_epoch_be ?e)) (bits_of (pw_nonce p)) (bits_of d))
      (fst (xmss_extract_coords mh)) (bits_of mh)"
    by (rule means_message_hash [OF cfg L(2) V(2,1,3) wf(2) lens(3) d_len mh_def])
  note chains = means_chains [OF run_okD(3) [OF R] mh_len p cs_def, of cfg]
  have ends: "end_bits p = map bits_of (map (pw_end p) [0..<42])" by simp
  note root = means_root [OF R _ wf(3), of "map (pw_end p) [0..<42]", folded ends]
  let ?sched = "pw_schedule p = chain_bytes cs [0..<42]"
  let ?full = "\<forall>i<42. cs ! i = 7 \<longrightarrow> pw_tip p i = pw_end p i"
  let ?part = "\<forall>i<42. cs ! i \<noteq> 7 \<longrightarrow> pw_end p i = node_at V ?seed p cs i (7 - unat (cs ! i))"
  let ?root = "v_xmss_walk_auth_path V ?seed (v_xmss_hash_public_key V ?seed ?e (map (pw_end p) [0..<42])) ?e (map (pw_sibling p) [0..<32]) = vs_root stm"
  have "means p (c_statement cfg ?E stm)
    (fst (xmss_extract_coords mh) \<and> (?full \<and> coords_sum cs = 195) \<and> (?sched \<and> ?part) \<and> ?root \<and> True) ()"
    unfolding c_statement_def Let_def native_constant
    apply (rule means_seq_T [OF r])
    apply (rule means_seq_T [OF a])
    apply (rule means_seq_T [OF commitment])
    apply (rule means_seq_T [OF epoch])
    apply (rule means_seq_T [OF nonce])
    unfolding be unfolding eb
    apply (rule means_seq [OF message])
    apply (rule means_seq [OF chains])
    unfolding prod.case
    apply (rule means_seq [OF means_steps [OF R cs(1)]], simp)
    apply (rule means_seq [OF root means_padding])
    using lens(7) apply auto
    done
  then show ?thesis
  proof (rule means_cong)
    have "primary_ok V stm p \<longleftrightarrow> v_xmss_verify V ?seed (vs_root stm) d (pw_sig p) \<and> ?sched \<and> ?full \<and> ?part"
      unfolding primary_ok_def pw_coords_def Let_def d_def [symmetric] mh_def [symmetric] cs_def [symmetric]
      using pw_ends_iff [OF cs(2), of p V ?seed] by simp
    moreover have "v_xmss_verify V ?seed (vs_root stm) d (pw_sig p) \<longleftrightarrow>
      fst (xmss_extract_coords mh) \<and> coords_sum cs = 195 \<and> ?root" if "?full \<and> ?part"
      using that pw_ends_iff [OF cs(2), of p V ?seed]
      by (simp add: v_xmss_verify_def pw_sig_def Let_def case_prod_beta XMSS_TARGET_SUM_def flip: mh_def) (simp add: cs_def)
    ultimately show "(fst (xmss_extract_coords mh) \<and> (?full \<and> coords_sum cs = 195) \<and> (?sched \<and> ?part) \<and> ?root \<and> True) = primary_ok V stm p"
      by blast
  qed simp
qed

lemma native_inv_new: "length p = kPrimaryBytes \<Longrightarrow> native_inv p (native_context_new p True)"
  by (simp add: native_inv_def native_context_new_def)

end
