(* ===== verification/Sample_Vole.thy ===== *)
theory Sample_Vole
  imports Vole_Exact
begin

text \<open>
  Concrete libraries for the witnesses: SHAKE256 and the field as FIPS 202 and \<^verbatim>\<open>gf128.c\<close> define
  them, a permutation that records the snapshots the proof degree asks for, and, for what needs
  a nonce to be found, the constant hash of theory \<open>Sample_Platform\<close>.
\<close>

subsection \<open>SHAKE256\<close>

definition pack_bytes :: "nat \<Rightarrow> bool list \<Rightarrow> bytes" where
  "pack_bytes n bits = map (\<lambda>k. horner_sum of_bool 2 (segment (8 * k) 8 bits)) [0..<n]"

lemma bits_of_pack_bytes:
  assumes "length bits = 8 * n"
  shows "bits_of (pack_bytes n bits) = bits"
proof (rule nth_equalityI)
  fix i assume "i < length (bits_of (pack_bytes n bits))"
  then have i: "i < 8 * n" by (simp add: pack_bytes_def)
  then have k: "i div 8 < n" "8 * (i div 8) + i mod 8 = i" by auto
  have "8 * (i div 8) + 8 \<le> 8 * n" using k(1) by linarith
  then have seg: "length (segment (8 * (i div 8)) 8 bits) = 8" using assms by (auto intro!: length_segment)
  have "segment (8 * (i div 8)) 8 bits ! (i mod 8) = bits ! i"
    using nth_segment [of "i mod 8" 8 "8 * (i div 8)" bits] i assms by simp
  moreover have "pack_bytes n bits ! (i div 8) = horner_sum of_bool 2 (segment (8 * (i div 8)) 8 bits)"
    using k(1) by (simp add: pack_bytes_def)
  ultimately show "bits_of (pack_bytes n bits) ! i = bits ! i"
    using i nth_bits_of [of i "pack_bytes n bits"] by (simp add: bit_horner_sum_bit_word_iff seg) (simp add: pack_bytes_def)
qed (simp add: pack_bytes_def assms)

lemma length_squeeze_blocks: "length s = 1600 \<Longrightarrow> length (squeeze_blocks n s) = n * 1088"
  by (induction n arbitrary: s) simp_all

lemma length_shake256_bits: "length (shake256_bits M d) = d"
proof -
  have absorb: "length s = 1600 \<Longrightarrow> length (fold absorb_block bs s) = 1600" for bs s
    by (induction bs arbitrary: s) simp_all
  have "d \<le> (d div 1088 + 1) * 1088" using div_mult_mod_eq [of d 1088] mod_less_divisor [of 1088 d] by simp
  then show ?thesis
    unfolding shake256_bits_def Let_def by (subst length_take, subst length_squeeze_blocks) (simp_all add: absorb)
qed

definition fips_vole :: vole where
  "fips_vole = \<lparr>shake256 = (\<lambda>data n. pack_bytes n (shake256_bits (bits_of data) (8 * n))),
     vole_malloc_ok = (\<lambda>n. True), vole_getentropy = (\<lambda>c n. Some (replicate n 0))\<rparr>"

lemma fips_vole_ok: "vole_ok fips_vole" "shake_ok fips_vole" "vole_malloc_ok fips_vole n"
proof -
  show "shake_ok fips_vole" by (simp add: shake_ok_def fips_vole_def bits_of_pack_bytes length_shake256_bits)
qed (auto simp: vole_ok_def fips_vole_def pack_bytes_def)

subsection \<open>The circuit's libraries\<close>

definition words_of_lanes :: "bool lanes \<Rightarrow> u64 list" where
  "words_of_lanes ls = map (horner_sum of_bool 2) ls"

lemma word_lanes_of_lanes:
  assumes "\<forall>l\<in>set ls. length l = 64"
  shows "word_lanes (words_of_lanes ls) = ls"
  unfolding word_lanes_def words_of_lanes_def map_map
proof (rule map_idI)
  fix l :: "bool list" assume "l \<in> set ls"
  then have "length l = 64" using assms by simp
  then show "((\<lambda>w. map (bit w) [0..<64]) \<circ> (horner_sum of_bool 2 :: bool list \<Rightarrow> u64)) l = l"
    by (auto intro!: nth_equalityI simp: bit_horner_sum_bit_word_iff)
qed

definition sample_lib :: "vconfig \<Rightarrow> circuit_lib" where
  "sample_lib cfg =
     \<lparr>poly_mul = (\<lambda>x y. load_le (gf128_mul (bytes_le 16 x) (bytes_le 16 y))),
      permute_trace = (\<lambda>words. let A = kbit (word_lanes words) in
        (words_of_lanes (to_lanes (keccak_rounds 24 A)),
         concat (map (\<lambda>j. words_of_lanes (to_lanes (keccak_rounds ((j + 1) * kKeccakStride cfg) A))) [0..<4])))\<rparr>"

lemma sample_poly_ok: "poly_ok (sample_lib cfg)"
proof -
  have "bytes_le 16 (load_le x :: poly128) = x" if "length x = 16" for x
    using bytes_le_load_le [where 'a = 128 and bs = x] that by simp
  then show ?thesis by (simp add: poly_ok_def sample_lib_def)
qed

lemma segment_concat_map:
  assumes "\<And>j. j < n \<Longrightarrow> length (f j) = w" "k < n"
  shows "segment (k * w) w (concat (map f [0..<n])) = f k"
  using assms
proof (induction n)
  case (Suc n)
  have len: "length (concat (map f [0..<m])) = m * w" if "m \<le> n" for m
    using that Suc.prems(1) by (induction m) simp_all
  show ?case
  proof (cases "k < n")
    case True
    have "Suc k * w \<le> n * w" using True by (intro mult_le_mono1) simp
    then show ?thesis using Suc True len [of n] by (simp add: segment_def)
  next
    case False
    then show ?thesis using Suc.prems len [of n] by (simp add: segment_def less_Suc_eq)
  qed
qed simp

lemma sample_trace_ok: "cfg_ok cfg \<Longrightarrow> trace_ok cfg (sample_lib cfg)"
proof -
  assume cfg: "cfg_ok cfg"
  have lanes: "word_lanes (words_of_lanes (to_lanes A)) = to_lanes A" for A
    using lanes_ok_to_lanes [of A] by (intro word_lanes_of_lanes) (simp add: lanes_ok_def)
  have len: "length (words_of_lanes (to_lanes A)) = 25" for A
    using lanes_ok_to_lanes [of A] by (simp add: words_of_lanes_def lanes_ok_def)
  have "kKeccakSnapshots cfg \<le> 4" using cfg by (auto simp: cfg_ok_def kKeccakSnapshots_def kKeccakStride_def)
  then show ?thesis
    by (simp add: trace_ok_def sample_lib_def Let_def lanes segment_concat_map [where w = 25] len length_concat comp_def
        del: upt_rec_numeral) (simp add: numeral_eq_Suc)
qed

definition sample_cfg :: vconfig where
  "sample_cfg = \<lparr>kProofDegree = 16, left_first = True\<rparr>"

lemma sample_cfg_ok: "cfg_ok sample_cfg"
  by (simp add: cfg_ok_def sample_cfg_def)

lemma sample_libs: "poly_ok (sample_lib sample_cfg)" "trace_ok sample_cfg (sample_lib sample_cfg)"
  by (simp_all add: sample_poly_ok sample_trace_ok sample_cfg_ok)

text \<open>QuickSilver values that are field elements, over a witness of zeros.\<close>

definition sample_qs :: "poly128 qs_ops" where
  "sample_qs = \<lparr>qs_constant = of_bool, get_witness_bit = (\<lambda>i. 0), qs_add = (XOR), qs_mul = poly_mul (sample_lib sample_cfg),
     qs_scale = poly_mul (sample_lib sample_cfg)\<rparr>"

definition sample_statement :: vstatement where
  "sample_statement = \<lparr>vs_message = replicate 32 0, vs_pk_seed = replicate 16 0, vs_root = replicate 16 0\<rparr>"

lemma sample_statement_wf: "statement_wf sample_statement"
  by (simp add: statement_wf_def sample_statement_def)

subsection \<open>A constant hash\<close>

definition sample_vole :: vole where
  "sample_vole = \<lparr>shake256 = (\<lambda>data n. take n (sample_digest @ replicate n 0)), vole_malloc_ok = (\<lambda>n. True),
     vole_getentropy = (\<lambda>c n. Some (replicate n 0))\<rparr>"

lemma sample_vole_ok: "vole_ok sample_vole"
  by (auto simp: vole_ok_def sample_vole_def)

lemma sample_vole_view: "kkw_view sample_vole = sample_platform"
proof -
  have "vole_b3 (shake256 sample_vole) m bs n = take n (sample_digest @ replicate n 0)" for m bs n
    by (simp add: vole_b3_def sample_vole_def shake_keyed_xof_eq Let_def split: b3_mode.split)
  then show ?thesis
    by (intro platform.equality) (simp_all add: kkw_view_def sample_platform_def sample_vole_def fun_eq_iff)
qed

end
