(* ===== verification/Keccak_Lift.thy ===== *)
theory Keccak_Lift
  imports Fips202
begin

text \<open>
  The Keccak templates do the same on related elements: if two records of field operations
  respect a relation, so do a round and its inverse. The authenticated circuit runs them on
  field values that stand for bits, and the verifier's circuit on keys of the prover's values.
\<close>

definition ops_rel :: "('q \<Rightarrow> 'r \<Rightarrow> bool) \<Rightarrow> 'q lane_ops \<Rightarrow> 'r lane_ops \<Rightarrow> bool" where
  "ops_rel R K K2 \<longleftrightarrow>
     (\<forall>a b x y. R a x \<longrightarrow> R b y \<longrightarrow> R (k_add K a b) (k_add K2 x y) \<and> R (k_mul K a b) (k_mul K2 x y)) \<and>
     (\<forall>b. R (k_const K b) (k_const K2 b))"

lemma ops_relD:
  assumes "ops_rel R K K2"
  shows "R a x \<Longrightarrow> R b y \<Longrightarrow> R (k_add K a b) (k_add K2 x y)" "R a x \<Longrightarrow> R b y \<Longrightarrow> R (k_mul K a b) (k_mul K2 x y)"
    "R (k_const K c) (k_const K2 c)"
  using assms by (simp_all add: ops_rel_def)

definition lane_rel :: "('q \<Rightarrow> 'r \<Rightarrow> bool) \<Rightarrow> 'q list \<Rightarrow> 'r list \<Rightarrow> bool" where
  "lane_rel R l m \<longleftrightarrow> length l = 64 \<and> length m = 64 \<and> (\<forall>z<64. R (l ! z) (m ! z))"

definition lanes_rel :: "nat \<Rightarrow> ('q \<Rightarrow> 'r \<Rightarrow> bool) \<Rightarrow> 'q lanes \<Rightarrow> 'r lanes \<Rightarrow> bool" where
  "lanes_rel n R s t \<longleftrightarrow> length s = n \<and> length t = n \<and> (\<forall>k<n. lane_rel R (s ! k) (t ! k))"

named_theorems rel_intros

lemma lane_rel_nth: "lane_rel R l m \<Longrightarrow> z < 64 \<Longrightarrow> R (l ! z) (m ! z)"
  by (simp add: lane_rel_def)

lemma lanes_rel_nth: "lanes_rel n R s t \<Longrightarrow> k < n \<Longrightarrow> lane_rel R (s ! k) (t ! k)"
  by (simp add: lanes_rel_def)

lemma lane_rel_map: "(\<And>z. z < 64 \<Longrightarrow> R (f z) (g z)) \<Longrightarrow> lane_rel R (map f [0..<64]) (map g [0..<64])"
  by (simp add: lane_rel_def)

lemma lanes_rel_map: "(\<And>x. x \<in> set xs \<Longrightarrow> lane_rel R (f x) (g x)) \<Longrightarrow> lanes_rel (length xs) R (map f xs) (map g xs)"
  by (simp add: lanes_rel_def)

lemma lanes_rel_update:
  "lanes_rel n R s t \<Longrightarrow> lane_rel R l m \<Longrightarrow> lanes_rel n R (s[k := l]) (t[k := m])"
  by (cases "k < n") (auto simp: lanes_rel_def nth_list_update list_update_beyond)

lemma lane_rel_get: "lanes_rel n R s t \<Longrightarrow> x * 5 + y < n \<Longrightarrow> lane_rel R (get_lane s x y) (get_lane t x y)"
  by (simp add: get_lane_def lanes_rel_nth)

lemmas lane_rel_state = lane_rel_get [where n = 25]
lemmas lane_rel_plane = lane_rel_get [where n = 5 and x = 0]

lemma lane_rel_add [rel_intros]:
  "ops_rel R K K2 \<Longrightarrow> lane_rel R a x \<Longrightarrow> lane_rel R b y \<Longrightarrow> lane_rel R (add_lane K a b) (add_lane K2 x y)"
  unfolding add_lane_def VOLEKECCAK_W_def by (rule lane_rel_map) (simp add: ops_relD lane_rel_nth)

lemma lane_rel_mul [rel_intros]:
  "ops_rel R K K2 \<Longrightarrow> lane_rel R a x \<Longrightarrow> lane_rel R b y \<Longrightarrow> lane_rel R (mul_lane K a b) (mul_lane K2 x y)"
  unfolding mul_lane_def VOLEKECCAK_W_def  by (rule lane_rel_map) (simp add: ops_relD(2) lane_rel_nth)

lemma lane_rel_rot [rel_intros]: "lane_rel R a x \<Longrightarrow> lane_rel R (rot_lane a s) (rot_lane x s)"
  unfolding rot_lane_def VOLEKECCAK_W_def by (rule lane_rel_map) (simp add: lane_rel_nth)

lemma lane_rel_round_const [rel_intros]: "ops_rel R K K2 \<Longrightarrow> lane_rel R (round_const_lane K i) (round_const_lane K2 i)"
  unfolding round_const_lane_def Let_def VOLEKECCAK_W_def load_const_1_bit_and_combine_def 
  by (rule lane_rel_map) (simp add: ops_relD(3))

lemma lanes_rel_pairs:
  "(\<And>a b. a < 5 \<Longrightarrow> b < 5 \<Longrightarrow> lane_rel R (f (a, b)) (g (a, b))) \<Longrightarrow> lanes_rel 25 R (map f lane_pairs) (map g lane_pairs)"
  using lanes_rel_map [of lane_pairs R f g] by (auto simp: lane_pairs_def)

lemma lanes_rel_fold:
  assumes "\<And>a b s t. a < 5 \<Longrightarrow> b < 5 \<Longrightarrow> lanes_rel n R s t \<Longrightarrow> lanes_rel n R (f (a, b) s) (g (a, b) t)" "lanes_rel n R s t"
  shows "lanes_rel n R (fold f lane_pairs s) (fold g lane_pairs t)"
proof -
  have "lanes_rel n R (fold f ps s) (fold g ps t)" if "\<forall>p\<in>set ps. fst p < 5 \<and> snd p < 5" "lanes_rel n R s t" for ps s t
    using that by (induction ps arbitrary: s t) (auto simp: assms(1))
  then show ?thesis using assms(2) by (auto simp: lane_pairs_def)
qed

subsection \<open>Forwards\<close>

lemma lanes_rel_C: "ops_rel R K K2 \<Longrightarrow> lanes_rel 25 R s t \<Longrightarrow> lanes_rel 5 R (forward_C K s) (forward_C K2 t)"
  unfolding forward_C_def Let_def
  by (intro lanes_rel_map [where xs = "[0..<5]", simplified] rel_intros lane_rel_state) auto

lemma lanes_rel_D: "ops_rel R K K2 \<Longrightarrow> lanes_rel 5 R s t \<Longrightarrow> lanes_rel 5 R (forward_D K s) (forward_D K2 t)"
  unfolding forward_D_def Let_def
  by (intro lanes_rel_map [where xs = "[0..<5]", simplified] rel_intros lane_rel_plane) auto

lemma lanes_rel_forward_theta:
  assumes "ops_rel R K K2" "lanes_rel 25 R s t"
  shows "lanes_rel 25 R (forward_theta K s) (forward_theta K2 t)"
proof -
  have "(a * 3 + b) mod 5 < 5" for a b :: nat by simp
  note D = lanes_rel_D [OF assms(1) lanes_rel_C [OF assms]]
  show ?thesis
    unfolding forward_theta_def Let_def
    by (rule lanes_rel_fold [OF _ assms(2)], unfold prod.case, intro lanes_rel_update lane_rel_add lane_rel_state lane_rel_plane [OF D] assms(1)) auto
qed

lemma lanes_rel_B: "lanes_rel 25 R s t \<Longrightarrow> lanes_rel 25 R (forward_B s) (forward_B t)"
  unfolding forward_B_def Let_def by (rule lanes_rel_pairs, unfold prod.case, intro rel_intros lane_rel_state) auto

lemma lanes_rel_forward:
  assumes K: "ops_rel R K K2" and s: "lanes_rel 25 R s t" and out: "lanes_rel 25 R out out'"
  shows "lanes_rel 25 R (keccak_forward K i s out n) (keccak_forward K2 i t out' n)"
proof -
  note B = lanes_rel_B [OF lanes_rel_forward_theta [OF K s]]
  have one: "lane_rel R (map (\<lambda>i. load_const_1_bit_and_combine K 1 0) [0..<VOLEKECCAK_W])
      (map (\<lambda>i. load_const_1_bit_and_combine K2 1 0) [0..<VOLEKECCAK_W])"
    unfolding VOLEKECCAK_W_def load_const_1_bit_and_combine_def  by (rule lane_rel_map) (rule ops_relD(3) [OF K])
  have m5: "a < 5 \<Longrightarrow> a * 5 + b mod 5 < 25" for a b :: nat
  proof -
    assume "a < 5"
    moreover have "b mod 5 < 5" by simp
    ultimately show "a * 5 + b mod 5 < 25" by linarith
  qed
  let ?B = "forward_B (forward_theta K s)" and ?B' = "forward_B (forward_theta K2 t)"
  let ?one = "\<lambda>K. map (\<lambda>i. load_const_1_bit_and_combine K 1 0) [0..<VOLEKECCAK_W]"
  let ?p1 = "\<lambda>K B out. map (\<lambda>(x, y). if (x * 5 + y) * 64 \<ge> n then get_lane out x y
            else mul_lane K (add_lane K (get_lane B x ((y + 1) mod 5)) (?one K)) (get_lane B x ((y + 2) mod 5))) lane_pairs"
  let ?p2 = "\<lambda>K B o1. map (\<lambda>(x, y). if (x * 5 + y) * 64 \<ge> n then get_lane o1 x y
            else add_lane K (get_lane o1 x y) (get_lane B x y)) lane_pairs"
  have p1: "lanes_rel 25 R (?p1 K ?B out) (?p1 K2 ?B' out')"
  proof (rule lanes_rel_pairs)
    fix a b :: nat assume "a < 5" "b < 5"
    then show "lane_rel R ((\<lambda>(x, y). if (x * 5 + y) * 64 \<ge> n then get_lane out x y
            else mul_lane K (add_lane K (get_lane ?B x ((y + 1) mod 5)) (?one K)) (get_lane ?B x ((y + 2) mod 5))) (a, b))
        ((\<lambda>(x, y). if (x * 5 + y) * 64 \<ge> n then get_lane out' x y
            else mul_lane K2 (add_lane K2 (get_lane ?B' x ((y + 1) mod 5)) (?one K2)) (get_lane ?B' x ((y + 2) mod 5))) (a, b))"
      using lane_rel_get [OF out, of a b] index_less [of a b]
      by (cases "(a * 5 + b) * 64 \<ge> n") (simp_all add: lane_rel_mul [OF K] lane_rel_add [OF K] lane_rel_get [OF B] m5 one)
  qed
  have p2: "lanes_rel 25 R (?p2 K ?B o1) (?p2 K2 ?B' o2)" if "lanes_rel 25 R o1 o2" for o1 o2
  proof (rule lanes_rel_pairs)
    fix a b :: nat assume "a < 5" "b < 5"
    then show "lane_rel R ((\<lambda>(x, y). if (x * 5 + y) * 64 \<ge> n then get_lane o1 x y
            else add_lane K (get_lane o1 x y) (get_lane ?B x y)) (a, b))
        ((\<lambda>(x, y). if (x * 5 + y) * 64 \<ge> n then get_lane o2 x y
            else add_lane K2 (get_lane o2 x y) (get_lane ?B' x y)) (a, b))"
      using lane_rel_get [OF that, of a b] index_less [of a b]
      by (cases "(a * 5 + b) * 64 \<ge> n") (simp_all add: lane_rel_add [OF K] lane_rel_get [OF B])
  qed
  show ?thesis
    unfolding keccak_forward_def Let_def
    by (intro lanes_rel_update lane_rel_add lane_rel_state lane_rel_round_const K p2 p1) simp_all
qed


subsection \<open>Backwards\<close>

lemma lane_rel_chi_sum:
  assumes K: "ops_rel R K K2" and s: "lanes_rel 25 R s t" and y: "y < 5"
    and idx: "l0 < 5" "l1 < 5" "l2 < 5" "c0 < 5" "c1 < 5" "c2 < 5" "\<forall>(i, j)\<in>set quad. i < 5 \<and> j < 5"
  shows "lane_rel R (chi_sum K s y (l0, l1, l2) quad (c0, c1, c2)) (chi_sum K2 t y (l0, l1, l2) quad (c0, c1, c2))"
proof -
  have get: "lane_rel R (get_lane s y j) (get_lane t y j)" if "j < 5" for j
    by (rule lane_rel_get [OF s]) (use that y in simp)
  have fold: "lane_rel R (fold (\<lambda>p out. add_lane K out p) (map (\<lambda>(i, j). mul_lane K (get_lane s y i) (get_lane s y j)) qs) a)
      (fold (\<lambda>p out. add_lane K2 out p) (map (\<lambda>(i, j). mul_lane K2 (get_lane t y i) (get_lane t y j)) qs) b)"
    if "\<forall>(i, j)\<in>set qs. i < 5 \<and> j < 5" "lane_rel R a b" for qs a b
    using that
  proof (induction qs arbitrary: a b)
    case (Cons p qs)
    obtain i j where p: "p = (i, j)" by fastforce
    have "lane_rel R (add_lane K a (mul_lane K (get_lane s y i) (get_lane s y j)))
        (add_lane K2 b (mul_lane K2 (get_lane t y i) (get_lane t y j)))"
      by (intro lane_rel_add lane_rel_mul K get) (use Cons.prems in \<open>simp_all add: p\<close>)
    with Cons show ?case by (simp add: p)
  qed simp
  show ?thesis
    unfolding chi_sum_def prod.case Let_def
    by (intro lane_rel_add lane_rel_mul fold K get idx)
qed

lemma lanes_rel_append: "lanes_rel n R s t \<Longrightarrow> lanes_rel m R s' t' \<Longrightarrow> lanes_rel (n + m) R (s @ s') (t @ t')"
  by (auto simp: lanes_rel_def nth_append)

lemma lanes_rel_Cons: "lane_rel R l m \<Longrightarrow> lanes_rel n R s t \<Longrightarrow> lanes_rel (Suc n) R (l # s) (m # t)"
  by (auto simp: lanes_rel_def nth_Cons split: nat.splits)

lemma lanes_rel_Nil: "lanes_rel 0 R [] []"
  by (simp add: lanes_rel_def)

lemma lanes_rel_chi_row:
  assumes "ops_rel R K K2" "lanes_rel 25 R s t" "y < 5"
  shows "lanes_rel 5 R (inverse_chi_row K s y) (inverse_chi_row K2 t y)"
proof -
  have "lanes_rel (Suc (Suc (Suc (Suc (Suc 0))))) R (inverse_chi_row K s y) (inverse_chi_row K2 t y)"
    unfolding inverse_chi_row_def by (intro lanes_rel_Cons lane_rel_chi_sum lanes_rel_Nil assms) simp_all
  then show ?thesis by (simp add: numeral_eq_Suc)
qed

lemma lanes_rel_chi_rows:
  assumes "ops_rel R K K2" "lanes_rel 25 R s t"
  shows "lanes_rel 25 R (concat (map (inverse_chi_row K s) [0..<5])) (concat (map (inverse_chi_row K2 t) [0..<5]))"
proof -
  have "lanes_rel (5 + (5 + (5 + (5 + 5)))) R (concat (map (inverse_chi_row K s) [0..<5])) (concat (map (inverse_chi_row K2 t) [0..<5]))"
    unfolding rows_eq by (intro lanes_rel_append lanes_rel_chi_row assms) simp_all
  then show ?thesis by simp
qed

lemma lanes_rel_unrotate:
  assumes "lanes_rel 25 R s t"
  shows "lanes_rel 25 R (backward_unrotate s) (backward_unrotate t)"
  unfolding backward_unrotate_def Let_def
  by (rule lanes_rel_fold [OF _ assms], unfold prod.case, intro lanes_rel_update lane_rel_rot lane_rel_state assms) auto

lemma lanes_rel_theta_pass:
  assumes K: "ops_rel R K K2" and s: "lanes_rel 5 R s t"
  shows "lanes_rel 5 R (theta_pass (k_add K) pw s) (theta_pass (k_add K2) pw t)"
proof -
  have add: "R (k_add K a b) (k_add K2 x y)" if "R a x" "R b y" for a b x y by (rule ops_relD(1) [OF K that])
  have at: "R (s ! x ! z) (t ! x ! z)" if "x < 5" "z < 64" for x z
    by (rule lane_rel_nth [OF lanes_rel_nth [OF s that(1)] that(2)])
  show ?thesis
    unfolding theta_pass_def Let_def
    by (intro lanes_rel_map [where xs = "[0..<5]", simplified] lane_rel_map add at) auto
qed

lemma lanes_rel_inverse_theta:
  assumes K: "ops_rel R K K2" and s: "lanes_rel 25 R s t"
  shows "lanes_rel 25 R (inverse_theta (k_add K) s) (inverse_theta (k_add K2) t)"
proof -
  have add: "R (k_add K a b) (k_add K2 x y)" if "R a x" "R b y" for a b x y by (rule ops_relD(1) [OF K that])
  have at: "R (s ! k ! z) (t ! k ! z)" if "k < 25" "z < 64" for k z
    by (rule lane_rel_nth [OF lanes_rel_nth [OF s that(1)] that(2)])
  have sum: "R (fold (\<lambda>y c. k_add K c (s ! (y * 5 + x) ! z)) ys a) (fold (\<lambda>y c. k_add K2 c (t ! (y * 5 + x) ! z)) ys b)"
    if "x < 5" "z < 64" "\<forall>y\<in>set ys. y < 5" "R a b" for x z ys a b
    using that(3,4)
  proof (induction ys arbitrary: a b)
    case (Cons y ys)
    have "R (k_add K a (s ! (y * 5 + x) ! z)) (k_add K2 b (t ! (y * 5 + x) ! z))"
      by (intro add at) (use Cons.prems that in auto)
    with Cons show ?case by simp
  qed simp
  have parity: "lanes_rel 5 R (map (\<lambda>x. map (\<lambda>z. fold (\<lambda>y c. k_add K c (s ! (y * 5 + x) ! z)) [1..<5] (s ! x ! z)) [0..<64]) [0..<5])
      (map (\<lambda>x. map (\<lambda>z. fold (\<lambda>y c. k_add K2 c (t ! (y * 5 + x) ! z)) [1..<5] (t ! x ! z)) [0..<64]) [0..<5])"
    by (intro lanes_rel_map [where xs = "[0..<5]", simplified] lane_rel_map sum at) auto
  have passes: "lanes_rel 5 R (fold (theta_pass (k_add K)) pws a) (fold (theta_pass (k_add K2)) pws b)" if "lanes_rel 5 R a b" for pws a b
    using that by (induction pws arbitrary: a b) (auto intro: lanes_rel_theta_pass [OF K])
  define P where "P = fold (theta_pass (k_add K)) [1, 2, 4, 8, 16, 32, 128]
      (map (\<lambda>x. map (\<lambda>z. fold (\<lambda>y c. k_add K c (s ! (y * 5 + x) ! z)) [1..<5] (s ! x ! z)) [0..<64]) [0..<5])"
  define Q where "Q = fold (theta_pass (k_add K2)) [1, 2, 4, 8, 16, 32, 128]
      (map (\<lambda>x. map (\<lambda>z. fold (\<lambda>y c. k_add K2 c (t ! (y * 5 + x) ! z)) [1..<5] (t ! x ! z)) [0..<64]) [0..<5])"
  have PQ: "R (P ! x ! z) (Q ! x ! z)" if "x < 5" "z < 64" for x z
    unfolding P_def Q_def by (rule lane_rel_nth [OF lanes_rel_nth [OF passes [OF parity] that(1)] that(2)])
  have cell: "R (k_add K (s ! (y * 5 + x) ! z) (k_add K (P ! ((x + 4) mod 5) ! z) (P ! ((x + 1) mod 5) ! ((z + 63) mod 64))))
      (k_add K2 (t ! (y * 5 + x) ! z) (k_add K2 (Q ! ((x + 4) mod 5) ! z) (Q ! ((x + 1) mod 5) ! ((z + 63) mod 64))))"
    if "x < 5" "y < 5" "z < 64" for x y z
    by (intro add at PQ) (use that in auto)
  show ?thesis
    unfolding inverse_theta_def Let_def P_def [symmetric] Q_def [symmetric]
    by (rule lanes_rel_pairs, unfold prod.case, rule lane_rel_map, rule cell)
qed

lemma lanes_rel_backward:
  assumes K: "ops_rel R K K2" and s: "lanes_rel 25 R s t"
  shows "lanes_rel 25 R (keccak_backward K i s) (keccak_backward K2 i t)"
  unfolding keccak_backward_def Let_def 
  by (intro lanes_rel_inverse_theta lanes_rel_unrotate lanes_rel_chi_rows lanes_rel_update lane_rel_add lane_rel_state
      lane_rel_round_const K s) simp_all

end
