(* ===== verification/Vole_Sim.thy ===== *)
theory Vole_Sim
  imports Vole_Circuit
begin

text \<open>
  Two engines with related operations run the circuit in step: on related states both throw,
  or both return related values in related states. The contract is the locale
  \<open>related_engines\<close>; inside it every gadget and the statement are shown to be related.
\<close>

definition in_step :: "('s \<Rightarrow> 't \<Rightarrow> bool) \<Rightarrow> ('a \<Rightarrow> 'b \<Rightarrow> bool) \<Rightarrow> ('s, 'a) run \<Rightarrow> ('t, 'b) run \<Rightarrow> bool" where
  "in_step S R m n \<longleftrightarrow> (\<forall>s t. S s t \<longrightarrow> rel_sum (\<lambda>_ _. True) (rel_prod R S) (m s) (n t))"

lemma in_stepI:
  "(\<And>s t. S s t \<Longrightarrow> (\<exists>e e'. m s = Inl e \<and> n t = Inl e') \<or> (\<exists>x s' y t'. m s = Inr (x, s') \<and> n t = Inr (y, t') \<and> R x y \<and> S s' t')) \<Longrightarrow> in_step S R m n"
  unfolding in_step_def by fastforce

lemma in_stepD:
  assumes "in_step S R m n" "S s t"
  obtains e e' where "m s = Inl e" "n t = Inl e'" | x s' y t' where "m s = Inr (x, s')" "n t = Inr (y, t')" "R x y" "S s' t'"
proof -
  have "rel_sum (\<lambda>_ _. True) (rel_prod R S) (m s) (n t)" using assms by (simp add: in_step_def)
  then show thesis by (cases "m s"; cases "n t") (use that in auto)
qed

named_theorems in_step_intros

lemma in_step_ret: "R x y \<Longrightarrow> in_step S R (ret x) (ret y)"
  by (auto simp: in_step_def ret_def)

lemma in_step_throw [in_step_intros]: "in_step S R (throw e) (throw e')"
  by (auto simp: in_step_def throw_def)

lemma in_step_seq:
  assumes "in_step S R m n" "\<And>x y. R x y \<Longrightarrow> in_step S R' (f x) (g y)"
  shows "in_step S R' (seq m f) (seq n g)"
proof (rule in_stepI)
  fix s t assume st: "S s t"
  show "(\<exists>e e'. seq m f s = Inl e \<and> seq n g t = Inl e') \<or>
      (\<exists>x s' y t'. seq m f s = Inr (x, s') \<and> seq n g t = Inr (y, t') \<and> R' x y \<and> S s' t')"
  proof (cases rule: in_stepD [OF assms(1) st])
    case (2 x s' y t')
    show ?thesis by (cases rule: in_stepD [OF assms(2) [OF 2(3)] 2(4)]) (auto simp: seq_def 2)
  qed (auto simp: seq_def)
qed

lemma in_step_mono: "in_step S R m n \<Longrightarrow> (\<And>x y. R x y \<Longrightarrow> R' x y) \<Longrightarrow> in_step S R' m n"
  by (rule in_stepI, erule (1) in_stepD) blast+

lemma in_step_loop:
  assumes "\<And>x a b. x \<in> set xs \<Longrightarrow> A a b \<Longrightarrow> in_step S A (f x a) (g x b)" "A a b"
  shows "in_step S A (loop f xs a) (loop g xs b)"
  using assms
proof (induction xs arbitrary: a b)
  case (Cons x xs)
  have "in_step S A (seq (f x a) (loop f xs)) (seq (g x b) (loop g xs))"
    by (rule in_step_seq [of S A], rule Cons.prems, simp, rule Cons.prems, rule Cons.IH, rule Cons.prems) simp_all
  then show ?case by simp
qed (simp add: in_step_ret)

lemma in_step_loop_upto:
  assumes "\<And>k a b. k < n \<Longrightarrow> A k a b \<Longrightarrow> in_step S (A (Suc k)) (f k a) (g k b)" "A 0 a b"
  shows "in_step S (A n) (loop f [0..<n] a) (loop g [0..<n] b)"
proof -
  have "in_step S (A (m + l)) (loop f [m..<m + l] a) (loop g [m..<m + l] b)" if "m + l \<le> n" "A m a b" for m l a b
    using that
  proof (induction l arbitrary: m a b)
    case (Suc l)
    have "[m..<m + Suc l] = m # [Suc m..<Suc m + l]" by (simp add: upt_conv_Cons)
    moreover have "in_step S (A (m + Suc l)) (seq (f m a) (loop f [Suc m..<Suc m + l])) (seq (g m b) (loop g [Suc m..<Suc m + l]))"
      by (rule in_step_seq [OF assms(1) [OF _ Suc.prems(2)]]) (use Suc.prems Suc.IH [of "Suc m"] in auto)
    ultimately show ?case by simp
  qed (simp add: in_step_ret)
  from this [of 0 n] show ?thesis using assms(2) by simp
qed

text \<open>Related lists of a known length.\<close>

definition bits_rel :: "('a \<Rightarrow> 'b \<Rightarrow> bool) \<Rightarrow> nat \<Rightarrow> 'a list \<Rightarrow> 'b list \<Rightarrow> bool" where
  "bits_rel R n xs ys \<longleftrightarrow> length xs = n \<and> length ys = n \<and> (\<forall>i<n. R (xs ! i) (ys ! i))"

lemma bits_rel_length: "bits_rel R n xs ys \<Longrightarrow> length xs = n" "bits_rel R n xs ys \<Longrightarrow> length ys = n"
  by (simp_all add: bits_rel_def)

lemma bits_rel_nth: "bits_rel R n xs ys \<Longrightarrow> i < n \<Longrightarrow> R (xs ! i) (ys ! i)"
  by (simp add: bits_rel_def)

lemma bits_rel_Nil: "bits_rel R 0 [] []"
  by (simp add: bits_rel_def)

lemma bits_rel_single: "R x y \<Longrightarrow> bits_rel R (Suc 0) [x] [y]"
  by (simp add: bits_rel_def)

lemma bits_rel_append: "bits_rel R n xs ys \<Longrightarrow> bits_rel R m xs' ys' \<Longrightarrow> bits_rel R (n + m) (xs @ xs') (ys @ ys')"
  by (auto simp: bits_rel_def nth_append)

lemma bits_rel_snoc: "bits_rel R n xs ys \<Longrightarrow> R x y \<Longrightarrow> bits_rel R (Suc n) (xs @ [x]) (ys @ [y])"
  by (auto simp: bits_rel_def nth_append less_Suc_eq)

lemma bits_rel_map: "(\<And>i. i < n \<Longrightarrow> R (f i) (g i)) \<Longrightarrow> bits_rel R n (map f [0..<n]) (map g [0..<n])"
  by (simp add: bits_rel_def)

lemma bits_rel_replicate: "R x y \<Longrightarrow> bits_rel R n (replicate n x) (replicate n y)"
  by (simp add: bits_rel_def)

lemma bits_rel_slice: "bits_rel R N xs ys \<Longrightarrow> off + n \<le> N \<Longrightarrow> bits_rel R n (slice xs off n) (slice ys off n)"
  by (auto simp: bits_rel_def slice_def)

lemma bits_rel_take: "bits_rel R N xs ys \<Longrightarrow> n \<le> N \<Longrightarrow> bits_rel R n (take n xs) (take n ys)"
  by (auto simp: bits_rel_def)

lemma bits_rel_tl: "bits_rel R (Suc n) xs ys \<Longrightarrow> bits_rel R n (tl xs) (tl ys)"
  by (auto simp: bits_rel_def nth_tl)

lemma bits_rel_butlast: "bits_rel R (Suc n) xs ys \<Longrightarrow> bits_rel R n (butlast xs) (butlast ys) \<and> R (last xs) (last ys)"
proof -
  assume *: "bits_rel R (Suc n) xs ys"
  then have "xs \<noteq> []" "ys \<noteq> []" by (auto simp: bits_rel_def)
  with * show ?thesis by (simp add: bits_rel_def butlast_conv_take last_conv_nth)
qed

lemma bits_rel_concat:
  assumes "bits_rel (bits_rel R w) n xss yss"
  shows "bits_rel R (n * w) (concat xss) (concat yss)"
  using assms
proof (induction n arbitrary: xss yss)
  case 0
  then show ?case by (simp add: bits_rel_def)
next
  case (Suc n)
  obtain x xs y ys where l: "xss = x # xs" "yss = y # ys" using Suc.prems by (cases xss; cases yss) (auto simp: bits_rel_def)
  have "bits_rel R w x y" using bits_rel_nth [OF Suc.prems, of 0] by (simp add: l)
  moreover have "bits_rel (bits_rel R w) n xs ys" using bits_rel_tl [OF Suc.prems] by (simp add: l)
  ultimately show ?case using bits_rel_append [of R w x y "n * w"] Suc.IH by (simp add: l)
qed

lemma in_step_collect:
  assumes "\<And>i. i < n \<Longrightarrow> in_step S R (f i) (g i)"
  shows "in_step S (bits_rel R n) (collect f [0..<n]) (collect g [0..<n])"
proof -
  have "in_step S (bits_rel R (length xs)) (collect f xs) (collect g xs)" if "\<forall>x\<in>set xs. in_step S R (f x) (g x)" for xs :: "nat list"
    using that
  proof (induction xs)
    case (Cons x xs)
    have "in_step S (bits_rel R (length (x # xs))) (seq (f x) (\<lambda>y. seq (collect f xs) (\<lambda>ys. ret (y # ys))))
        (seq (g x) (\<lambda>y. seq (collect g xs) (\<lambda>ys. ret (y # ys))))"
    proof (rule in_step_seq)
      show "in_step S R (f x) (g x)" using Cons.prems by simp
      fix u v assume "R u v"
      show "in_step S (bits_rel R (length (x # xs))) (seq (collect f xs) (\<lambda>ys. ret (u # ys))) (seq (collect g xs) (\<lambda>ys. ret (v # ys)))"
        by (rule in_step_seq [OF Cons.IH in_step_ret], use Cons.prems in simp)
          (use \<open>R u v\<close> in \<open>auto simp: bits_rel_def nth_Cons split: nat.splits\<close>)
    qed
    then show ?case by simp
  qed (simp add: in_step_ret bits_rel_Nil)
  from this [of "[0..<n]"] show ?thesis using assms by simp
qed


subsection \<open>The contract\<close>

text \<open>\<open>kept\<close> is how many bits a permutation returns when it is asked for some.\<close>

locale related_engines =
  fixes E1 :: "('b, 'f, 's) engine" and E2 :: "('c, 'g, 't) engine"
    and S :: "'s \<Rightarrow> 't \<Rightarrow> bool" and RB :: "'b \<Rightarrow> 'c \<Rightarrow> bool" and RF :: "'f \<Rightarrow> 'g \<Rightarrow> bool" and kept :: "nat \<Rightarrow> nat"
  assumes rel_cursor: "S s t \<Longrightarrow> e_cursor E1 s = e_cursor E2 t"
    and rel_constant: "RB (e_constant E1 v) (e_constant E2 v)"
    and rel_bit: "i < kPrimaryBytes * 8 \<Longrightarrow> in_step S RB (e_bit E1 i) (e_bit E2 i)"
    and rel_pad: "in_step S (\<lambda>_ _. True) (seq (e_allocate E1 False) (e_zero_bit E1)) (seq (e_allocate E2 False) (e_zero_bit E2))"
    and rel_add: "RB a x \<Longrightarrow> RB b y \<Longrightarrow> RB (e_add E1 a b) (e_add E2 x y)"
    and rel_mul: "RB a x \<Longrightarrow> RB b y \<Longrightarrow> in_step S RB (e_mul E1 a b) (e_mul E2 x y)"
    and rel_zero_bit: "RB a x \<Longrightarrow> in_step S (\<lambda>_ _. True) (e_zero_bit E1 a) (e_zero_bit E2 x)"
    and rel_zero: "RF p q \<Longrightarrow> in_step S (\<lambda>_ _. True) (e_zero E1 p) (e_zero E2 q)"
    and rel_pack: "bits_rel RB n as xs \<Longrightarrow> n \<le> 128 \<Longrightarrow> in_step S RF (e_pack E1 as) (e_pack E2 xs)"
    and rel_fadd: "RF p q \<Longrightarrow> RF p' q' \<Longrightarrow> RF (e_fadd E1 p p') (e_fadd E2 q q')"
    and rel_product: "RF p q \<Longrightarrow> RF p' q' \<Longrightarrow> RF (e_product E1 p p') (e_product E2 q q')"
    and rel_field_witness: "RF p q \<Longrightarrow> n \<le> 128 \<Longrightarrow> in_step S (bits_rel RB n) (e_field_witness E1 p n) (e_field_witness E2 q n)"
    and rel_permute: "bits_rel RB 1600 as xs \<Longrightarrow> keep \<le> 1600 \<Longrightarrow> in_step S (bits_rel RB (kept keep)) (e_permute E1 as keep) (e_permute E2 xs keep)"
    and kept_full: "kept 1600 = 1600" and kept_enough: "keep \<le> 1600 \<Longrightarrow> keep \<le> kept keep"
begin

lemma rel_constants: "bits_rel RB (8 * length bs) (c_constant E1 bs) (c_constant E2 bs)"
proof (induction bs)
  case (Cons v bs)
  have "bits_rel RB 8 (map (\<lambda>i. e_constant E1 (bit v i)) [0..<8]) (map (\<lambda>i. e_constant E2 (bit v i)) [0..<8])"
    by (rule bits_rel_map) (rule rel_constant)
  from bits_rel_append [OF this Cons.IH] show ?case by (simp add: c_constant_def)
qed (simp add: c_constant_def bits_rel_Nil)

lemma rel_number: "bits_rel RB n (c_number E1 v n) (c_number E2 v n)"
  unfolding c_number_def by (rule bits_rel_map) (rule rel_constant)

lemma rel_input: "off + n \<le> kPrimaryBytes \<Longrightarrow> in_step S (bits_rel RB (n * 8)) (c_input E1 off n) (c_input E2 off n)"
  unfolding c_input_def by (rule in_step_collect) (rule rel_bit, simp)

lemma rel_invert: "RB a x \<Longrightarrow> RB (c_invert E1 a) (c_invert E2 x)"
  unfolding c_invert_def by (rule rel_add [OF _ rel_constant])

lemma rel_equal:
  assumes "bits_rel RB n as xs" "bits_rel RB n bs ys"
  shows "in_step S RB (c_equal E1 as bs) (c_equal E2 xs ys)"
proof (cases "n = 0")
  case True
  then show ?thesis using assms by (auto simp: c_equal_def bits_rel_def intro: in_step_ret rel_constant)
next
  case False
  then have ne: "as \<noteq> []" "xs \<noteq> []" and len: "length as = n" "length xs = n" using assms by (auto simp: bits_rel_def)
  have eq: "RB (c_invert E1 (e_add E1 (as ! i) (bs ! i))) (c_invert E2 (e_add E2 (xs ! i) (ys ! i)))" if "i < n" for i
    by (intro rel_invert rel_add bits_rel_nth [OF assms(1)] bits_rel_nth [OF assms(2)] that)
  show ?thesis
    unfolding c_equal_def if_not_P [OF ne(1)] if_not_P [OF ne(2)] len
    by (rule in_step_loop, rule rel_mul) (use False in \<open>auto intro: eq\<close>)
qed

lemma rel_flags_level:
  assumes fl: "bits_rel RB n as xs" and idx: "bits_rel RB 8 is js" and k: "k < 5"
    and count: "count = (42 + 2 ^ k - 1) div 2 ^ k" and n: "n = (42 + 2 ^ Suc k - 1) div 2 ^ Suc k"
  shows "in_step S (bits_rel RB count) (c_flags_level E1 is k as) (c_flags_level E2 js k xs)"
proof -
  have "k = 0 \<or> k = 1 \<or> k = 2 \<or> k = 3 \<or> k = 4" using k by linarith
  then have cn: "2 * n = count \<or> 2 * n = Suc count" unfolding count n by auto
  let ?A = "\<lambda>i. bits_rel RB (min (2 * i) count)"
  have "in_step S (?A n) (c_flags_level E1 is k as) (c_flags_level E2 js k xs)"
    unfolding c_flags_level_def Let_def count [symmetric] bits_rel_length [OF fl]
  proof (rule in_step_loop_upto)
    fix i acc acc' assume i: "i < n" and acc: "bits_rel RB (min (2 * i) count) acc acc'"
    then have i2: "min (2 * i) count = 2 * i" "2 * i < count" using cn by linarith+
    show "in_step S (?A (Suc i)) (seq (e_mul E1 (as ! i) (is ! k)) (\<lambda>one. ret (if 2 * i + 1 < count
            then (acc @ [e_add E1 (as ! i) one]) @ [one] else acc @ [e_add E1 (as ! i) one])))
        (seq (e_mul E2 (xs ! i) (js ! k)) (\<lambda>one. ret (if 2 * i + 1 < count
            then (acc' @ [e_add E2 (xs ! i) one]) @ [one] else acc' @ [e_add E2 (xs ! i) one])))"
    proof (rule in_step_seq)
      show "in_step S RB (e_mul E1 (as ! i) (is ! k)) (e_mul E2 (xs ! i) (js ! k))"
        by (rule rel_mul) (use fl idx i k in \<open>auto intro: bits_rel_nth\<close>)
      fix one one' assume one: "RB one one'"
      have first: "bits_rel RB (Suc (2 * i)) (acc @ [e_add E1 (as ! i) one]) (acc' @ [e_add E2 (xs ! i) one'])"
        by (rule bits_rel_snoc [OF acc [unfolded i2] rel_add [OF bits_rel_nth [OF fl i] one]])
      show "in_step S (?A (Suc i)) (ret (if 2 * i + 1 < count then (acc @ [e_add E1 (as ! i) one]) @ [one] else acc @ [e_add E1 (as ! i) one]))
          (ret (if 2 * i + 1 < count then (acc' @ [e_add E2 (xs ! i) one']) @ [one'] else acc' @ [e_add E2 (xs ! i) one']))"
      proof (cases "2 * i + 1 < count")
        case True
        then have "min (2 * Suc i) count = Suc (Suc (2 * i))" by simp
        then show ?thesis using True bits_rel_snoc [OF first one] by (simp add: in_step_ret)
      next
        case False
        then have "min (2 * Suc i) count = Suc (2 * i)" using i2 by simp
        then show ?thesis using False first by (simp add: in_step_ret)
      qed
    qed
  qed (simp add: bits_rel_Nil)
  moreover have "min (2 * n) count = count" using cn by linarith
  ultimately show ?thesis by simp
qed

lemma rel_chain_flags:
  assumes idx: "bits_rel RB 8 is js"
  shows "in_step S (bits_rel RB 42) (c_chain_flags E1 is) (c_chain_flags E2 js)"
proof -
  have nth: "RB (is ! k) (js ! k)" if "k < 8" for k by (rule bits_rel_nth [OF idx that])
  have start: "bits_rel RB 2 [c_invert E1 (is ! 5), is ! 5] [c_invert E2 (js ! 5), js ! 5]"
    using nth [of 5] rel_invert [OF nth [of 5]] by (auto simp: bits_rel_def nth_Cons less_Suc_eq numeral_2_eq_2 split: nat.splits)
  have loop: "in_step S (bits_rel RB 42) (loop (c_flags_level E1 is) [4, 3, 2, 1, 0] as) (loop (c_flags_level E2 js) [4, 3, 2, 1, 0] xs)"
    if "bits_rel RB 2 as xs" for as xs
    unfolding loop.simps
    apply (rule in_step_seq [OF rel_flags_level [where n = 2 and count = 3, OF that idx]], simp, simp, simp)
    apply (rule in_step_seq [OF rel_flags_level [where n = 3 and count = 6, OF _ idx]], assumption, simp, simp, simp)
    apply (rule in_step_seq [OF rel_flags_level [where n = 6 and count = 11, OF _ idx]], assumption, simp, simp, simp)
    apply (rule in_step_seq [OF rel_flags_level [where n = 11 and count = 21, OF _ idx]], assumption, simp, simp, simp)
    apply (rule in_step_seq [OF rel_flags_level [where n = 21 and count = 42, OF _ idx]], assumption, simp, simp, simp)
    apply (erule in_step_ret)
    done
  show ?thesis
    unfolding c_chain_flags_def
    by (rule in_step_seq [OF rel_zero_bit [OF nth]], simp, rule in_step_seq [OF rel_zero_bit [OF nth]], simp, rule loop [OF start])
qed

lemma rel_less:
  assumes "bits_rel RB n as xs" "bits_rel RB n bs ys"
  shows "in_step S RB (c_less cfg E1 as bs) (c_less cfg E2 xs ys)"
proof -
  have at: "RB (as ! i) (xs ! i)" "RB (bs ! i) (ys ! i)" if "i < n" for i
    by (rule bits_rel_nth [OF assms(1) that], rule bits_rel_nth [OF assms(2) that])
  show ?thesis
    unfolding c_less_def bits_rel_length [OF assms(1)] Let_def
  proof (rule in_step_loop)
    fix i r r' assume "i \<in> set [0..<n]" and r: "RB r r'"
    then have i: "i < n" by simp
    have first: "in_step S RB (e_mul E1 (c_invert E1 (e_add E1 (as ! i) (bs ! i))) r) (e_mul E2 (c_invert E2 (e_add E2 (xs ! i) (ys ! i))) r')"
      by (intro rel_mul rel_invert rel_add at i r)
    have second: "in_step S RB (e_mul E1 (c_invert E1 (as ! i)) (bs ! i)) (e_mul E2 (c_invert E2 (xs ! i)) (ys ! i))"
      by (intro rel_mul rel_invert at i)
    show "in_step S RB
        (if left_first cfg
         then seq (e_mul E1 (c_invert E1 (e_add E1 (as ! i) (bs ! i))) r) (\<lambda>x. seq (e_mul E1 (c_invert E1 (as ! i)) (bs ! i)) (\<lambda>y. ret (e_add E1 x y)))
         else seq (e_mul E1 (c_invert E1 (as ! i)) (bs ! i)) (\<lambda>y. seq (e_mul E1 (c_invert E1 (e_add E1 (as ! i) (bs ! i))) r) (\<lambda>x. ret (e_add E1 x y))))
        (if left_first cfg
         then seq (e_mul E2 (c_invert E2 (e_add E2 (xs ! i) (ys ! i))) r') (\<lambda>x. seq (e_mul E2 (c_invert E2 (xs ! i)) (ys ! i)) (\<lambda>y. ret (e_add E2 x y)))
         else seq (e_mul E2 (c_invert E2 (xs ! i)) (ys ! i)) (\<lambda>y. seq (e_mul E2 (c_invert E2 (e_add E2 (xs ! i) (ys ! i))) r') (\<lambda>x. ret (e_add E2 x y))))"
    proof (cases "left_first cfg")
      case True
      show ?thesis unfolding if_P [OF True]
        by (rule in_step_seq [OF first], rule in_step_seq [OF second], rule in_step_ret, rule rel_add)
    next
      case False
      show ?thesis unfolding if_not_P [OF False]
        by (rule in_step_seq [OF second], rule in_step_seq [OF first], rule in_step_ret, rule rel_add)
    qed
  qed (rule rel_constant)
qed

lemma rel_addition:
  assumes "bits_rel RB n as xs" "bits_rel RB n bs ys"
  shows "in_step S (bits_rel RB n) (c_add E1 as bs no) (c_add E2 xs ys no)"
proof -
  have at: "RB (as ! i) (xs ! i)" "RB (bs ! i) (ys ! i)" if "i < n" for i
    by (rule bits_rel_nth [OF assms(1) that], rule bits_rel_nth [OF assms(2) that])
  let ?A = "\<lambda>k. rel_prod (bits_rel RB k) RB"
  have loop: "in_step S (?A n)
      (loop (\<lambda>i (out, carry). let sum = e_add E1 (e_add E1 (as ! i) (bs ! i)) carry
            in seq (e_mul E1 (e_add E1 (as ! i) carry) (e_add E1 (bs ! i) carry)) (\<lambda>p. ret (out @ [sum], e_add E1 p carry)))
        [0..<n] ([], e_constant E1 False))
      (loop (\<lambda>i (out, carry). let sum = e_add E2 (e_add E2 (xs ! i) (ys ! i)) carry
            in seq (e_mul E2 (e_add E2 (xs ! i) carry) (e_add E2 (ys ! i) carry)) (\<lambda>p. ret (out @ [sum], e_add E2 p carry)))
        [0..<n] ([], e_constant E2 False))"
  proof (rule in_step_loop_upto)
    fix k and a :: "'b list \<times> 'b" and b :: "'c list \<times> 'c" assume k: "k < n" and ab: "?A k a b"
    obtain out c out' c' where e: "a = (out, c)" "b = (out', c')" by (cases a; cases b)
    then have o: "bits_rel RB k out out'" "RB c c'" using ab by auto
    show "in_step S (?A (Suc k)) (case a of (out, carry) \<Rightarrow> let sum = e_add E1 (e_add E1 (as ! k) (bs ! k)) carry
            in seq (e_mul E1 (e_add E1 (as ! k) carry) (e_add E1 (bs ! k) carry)) (\<lambda>p. ret (out @ [sum], e_add E1 p carry)))
        (case b of (out, carry) \<Rightarrow> let sum = e_add E2 (e_add E2 (xs ! k) (ys ! k)) carry
            in seq (e_mul E2 (e_add E2 (xs ! k) carry) (e_add E2 (ys ! k) carry)) (\<lambda>p. ret (out @ [sum], e_add E2 p carry)))"
      unfolding e prod.case Let_def
    proof (rule in_step_seq)
      show "in_step S RB (e_mul E1 (e_add E1 (as ! k) c) (e_add E1 (bs ! k) c)) (e_mul E2 (e_add E2 (xs ! k) c') (e_add E2 (ys ! k) c'))"
        by (intro rel_mul rel_add at k o)
      fix p q assume pq: "RB p q"
      have "RB (e_add E1 (e_add E1 (as ! k) (bs ! k)) c) (e_add E2 (e_add E2 (xs ! k) (ys ! k)) c')" "RB (e_add E1 p c) (e_add E2 q c')"
        by (intro rel_add at k o pq)+
      then show "in_step S (?A (Suc k)) (ret (out @ [e_add E1 (e_add E1 (as ! k) (bs ! k)) c], e_add E1 p c))
          (ret (out' @ [e_add E2 (e_add E2 (xs ! k) (ys ! k)) c'], e_add E2 q c'))"
        by (intro in_step_ret) (simp add: bits_rel_snoc o)
    qed
  qed (simp add: bits_rel_Nil rel_constant)
  show ?thesis
    unfolding c_add_def bits_rel_length [OF assms(1)]
  proof (rule in_step_seq [OF loop])
    fix a :: "'b list \<times> 'b" and b :: "'c list \<times> 'c" assume ab: "?A n a b"
    obtain out c out' c' where e: "a = (out, c)" "b = (out', c')" by (cases a; cases b)
    then have o: "bits_rel RB n out out'" "RB c c'" using ab by auto
    show "in_step S (bits_rel RB n) (case a of (out, carry) \<Rightarrow> if no then seq (e_zero_bit E1 carry) (\<lambda>_. ret out) else ret out)
        (case b of (out, carry) \<Rightarrow> if no then seq (e_zero_bit E2 carry) (\<lambda>_. ret out) else ret out)"
      unfolding e prod.case by (cases no) (auto intro!: in_step_ret o in_step_seq [OF rel_zero_bit [OF o(2)]])
  qed
qed

lemma rel_select:
  assumes "RB f g" "bits_rel RB n as xs" "bits_rel RB n bs ys"
  shows "in_step S (bits_rel RB n) (c_select E1 f as bs) (c_select E2 g xs ys)"
proof -
  have at: "RB (as ! i) (xs ! i)" "RB (bs ! i) (ys ! i)" if "i < n" for i
    by (rule bits_rel_nth [OF assms(2) that], rule bits_rel_nth [OF assms(3) that])
  show ?thesis
    unfolding c_select_def bits_rel_length [OF assms(2)]
    by (rule in_step_collect, rule in_step_seq, rule rel_mul [OF assms(1) rel_add], (intro at, assumption)+, rule in_step_ret, intro rel_add at)
qed

end

end
