(* ===== verification/Vole_Lockstep.thy ===== *)
theory Vole_Lockstep
  imports Vole_Sim
begin

text \<open>
  The statement on related engines: the hashes, the commitment, the chains, the schedule and
  the authentication path run in step.
\<close>

context related_engines begin

subsection \<open>Hashes and fields\<close>

lemma rel_single: "RB a x \<Longrightarrow> bits_rel RB (Suc 0) [a] [x]"
  by (rule bits_rel_single)

lemma rel_constant_replicate: "bits_rel RB n (replicate n (e_constant E1 v)) (replicate n (e_constant E2 v))"
  by (rule bits_rel_replicate) (rule rel_constant)

lemma rel_shake:
  assumes M: "bits_rel RB n as xs" and out: "out \<le> 136"
  shows "in_step S (bits_rel RB (out * 8)) (c_shake E1 as out) (c_shake E2 xs out)"
proof (cases "n mod 8 = 0")
  case False
  then show ?thesis using bits_rel_length [OF M] by (simp add: c_shake_def in_step_throw)
next
  case True
  define r where "r = (1088 - (n + 8) mod 1088) mod 1088"
  let ?p1 = "(as @ c_number E1 0x1f 8) @ replicate r (e_constant E1 False)"
  let ?p2 = "(xs @ c_number E2 0x1f 8) @ replicate r (e_constant E2 False)"
  have pad: "bits_rel RB (n + 8 + r) ?p1 ?p2"
    by (intro bits_rel_append M rel_number bits_rel_replicate rel_constant)
  have "n + 8 + r = Suc (n + 7 + r)" by simp
  note pad' = pad [unfolded this]
  let ?q1 = "butlast ?p1 @ [e_add E1 (last ?p1) (e_constant E1 True)]"
  let ?q2 = "butlast ?p2 @ [e_add E2 (last ?p2) (e_constant E2 True)]"
  define N where "N = Suc (n + 7 + r)"
  have q: "bits_rel RB N ?q1 ?q2"
    unfolding N_def using bits_rel_butlast [OF pad'] by (intro bits_rel_snoc rel_add rel_constant) auto
  define blk where "blk = N div 1088"
  have "N mod 1088 = 0"
  proof -
    obtain a b where e: "n + 8 = a * 1088 + b" "b < 1088" using div_mult_mod_eq [of "n + 8" 1088] by (metis mod_less_divisor zero_less_numeral)
    have "a * 1088 + b + (1088 - b) = (a + 1) * 1088" using e(2) by simp
    then have "(n + 8 + r) mod 1088 = 0"
      unfolding r_def e(1) using e(2) by (cases "b = 0") (simp, simp only: mod_mult_self3 mod_less diff_less zero_less_numeral mod_mult_self2_is_0)
    moreover have "N = n + 8 + r" by (simp add: N_def)
    ultimately show ?thesis by metis
  qed
  then have Nb: "N = blk * 1088" by (auto simp: blk_def)
  have blk: "blk \<noteq> 0" using Nb by (auto simp: N_def)
  let ?A = "\<lambda>k. bits_rel RB (if k < blk then 1600 else kept (out * 8))"
  let ?step = "\<lambda>E q k state. e_permute E (map (\<lambda>i. if i < 1088 then e_add E (state ! i) (q ! (k * 1088 + i)) else state ! i) [0..<1600])
      (if k * 1088 + 1088 = N then out * 8 else 1600)"
  have step: "in_step S (?A (Suc k)) (?step E1 ?q1 k s) (?step E2 ?q2 k t)" if k: "k < blk" and s: "?A k s t" for k s t
  proof -
    have st: "bits_rel RB 1600 s t" using s k by simp
    have at: "k * 1088 + i < N" if "i < 1088" for i
    proof -
      have "Suc k * 1088 \<le> blk * 1088" using k by (intro mult_le_mono1) simp
      then show ?thesis using that unfolding Nb by simp
    qed
    have x: "bits_rel RB 1600 (map (\<lambda>i. if i < 1088 then e_add E1 (s ! i) (?q1 ! (k * 1088 + i)) else s ! i) [0..<1600])
        (map (\<lambda>i. if i < 1088 then e_add E2 (t ! i) (?q2 ! (k * 1088 + i)) else t ! i) [0..<1600])"
    proof (rule bits_rel_map)
      fix i :: nat assume i: "i < 1600"
      show "RB (if i < 1088 then e_add E1 (s ! i) (?q1 ! (k * 1088 + i)) else s ! i) (if i < 1088 then e_add E2 (t ! i) (?q2 ! (k * 1088 + i)) else t ! i)"
      proof (cases "i < 1088")
        case True
        show ?thesis unfolding if_P [OF True] by (intro rel_add bits_rel_nth [OF st i] bits_rel_nth [OF q] at True)
      next
        case False
        show ?thesis unfolding if_not_P [OF False] by (rule bits_rel_nth [OF st i])
      qed
    qed
    have last: "k * 1088 + 1088 = N \<longleftrightarrow> \<not> Suc k < blk" using k unfolding Nb by auto
    show ?thesis
    proof (cases "Suc k < blk")
      case True
      then have "\<not> k * 1088 + 1088 = N" using last by simp
      then show ?thesis using rel_permute [OF x, of 1600] True by (simp only: if_False if_True kept_full order.refl)
    next
      case False
      then have "k * 1088 + 1088 = N" using last by simp
      then show ?thesis using rel_permute [OF x, of "out * 8"] out False by simp
    qed
  qed
  have len: "length as = n" "length xs = n" "length (as @ c_number E1 31 8) = n + 8" "length (xs @ c_number E2 31 8) = n + 8"
    "length ?q1 = N" "length ?q2 = N"
    using bits_rel_length [OF M] bits_rel_length [OF q] by (simp_all add: c_number_def)
  have cond: "\<not> (n mod 8 \<noteq> 0 \<or> out > 136)" using True out by simp
  have "in_step S (?A blk) (loop (?step E1 ?q1) [0..<blk] (c_number E1 0 1600)) (loop (?step E2 ?q2) [0..<blk] (c_number E2 0 1600))"
    by (rule in_step_loop_upto) (use step rel_number blk in simp_all)
  then have loop: "in_step S (bits_rel RB (kept (out * 8))) (loop (?step E1 ?q1) [0..<blk] (c_number E1 0 1600))
      (loop (?step E2 ?q2) [0..<blk] (c_number E2 0 1600))" by simp
  have enough: "out * 8 \<le> kept (out * 8)" by (rule kept_enough) (use out in simp)
  have "in_step S (bits_rel RB (out * 8)) (seq (loop (?step E1 ?q1) [0..<blk] (c_number E1 0 1600)) (\<lambda>state. ret (take (out * 8) state)))
      (seq (loop (?step E2 ?q2) [0..<blk] (c_number E2 0 1600)) (\<lambda>state. ret (take (out * 8) state)))"
    by (rule in_step_seq [OF loop in_step_ret]) (rule bits_rel_take [OF _ enough])
  then show ?thesis
    unfolding c_shake_def len(1,2) if_not_P [OF cond] Let_def len(3,4) r_def [symmetric] len(5,6) blk_def [symmetric] .
qed

lemma rel_hash:
  assumes "bits_rel RB n as xs" "bits_rel RB m bs ys" "out \<le> 136"
  shows "in_step S (bits_rel RB (out * 8)) (c_hash E1 as bs out) (c_hash E2 xs ys out)"
  unfolding c_hash_def Let_def bits_rel_length [OF assms(1)]
  by (rule rel_shake [OF bits_rel_append [OF bits_rel_append [OF bits_rel_append [OF rel_constants rel_number] assms(1)] assms(2)] assms(3)])

lemma rel_hash_str:
  assumes "bits_rel RB m bs ys" "out \<le> 136"
  shows "in_step S (bits_rel RB (out * 8)) (c_hash_str E1 str bs out) (c_hash_str E2 str ys out)"
  unfolding c_hash_str_def by (rule rel_hash [OF rel_constants assms])

lemma rel_equal_field:
  assumes "bits_rel RB n as xs" "bits_rel RB m bs ys" "n \<le> 128" "m \<le> 128"
  shows "in_step S (\<lambda>_ _. True) (c_equal_field E1 as bs) (c_equal_field E2 xs ys)"
  unfolding c_equal_field_def
  by (rule in_step_seq [OF rel_pack [OF assms(1,3)]], rule in_step_seq [OF rel_pack [OF assms(2,4)]], rule rel_zero, rule rel_fadd)

lemma rel_pack_product:
  assumes "bits_rel RB n as xs" "bits_rel RB m bs ys" "n \<le> 128" "m \<le> 128"
  shows "in_step S RF (c_pack_product E1 as bs) (c_pack_product E2 xs ys)"
  unfolding c_pack_product_def
  by (rule in_step_seq [OF rel_pack [OF assms(1,3)]], rule in_step_seq [OF rel_pack [OF assms(2,4)]], rule in_step_ret, rule rel_product)

subsection \<open>The commitment and the message hash\<close>

lemma rel_line:
  assumes r: "bits_rel RB 768 r r'" and a: "bits_rel RB 1536 a a'" and m: "bits_rel RB 256 m m'" and k: "k < 2"
  shows "in_step S (bits_rel RB 128) (s_line E1 r a m k) (s_line E2 r' a' m' k)"
proof -
  have item: "in_step S RF (c_pack_product E1 (slice a (k * 768 + i * 128) 128) (slice r (i * 128) 128))
      (c_pack_product E2 (slice a' (k * 768 + i * 128) 128) (slice r' (i * 128) 128))" if "i < 6" for i
    by (rule rel_pack_product [OF bits_rel_slice [OF a] bits_rel_slice [OF r]]) (use that k in auto)
  have first: "in_step S RF (c_pack_product E1 (slice a (k * 768) 128) (slice r 0 128)) (c_pack_product E2 (slice a' (k * 768) 128) (slice r' 0 128))"
    using item [of 0] by simp
  have mk: "bits_rel RB 128 (slice m (k * 128) 128) (slice m' (k * 128) 128)"
    by (rule bits_rel_slice [OF m]) (use k in simp)
  show ?thesis
    unfolding s_line_def
  proof (rule in_step_seq [OF first], rule in_step_seq, rule in_step_loop [where A = RF])
    fix i s t assume "i \<in> set [1..<6 :: nat]" "RF s t"
    then show "in_step S RF (seq (c_pack_product E1 (slice a (k * 768 + i * 128) 128) (slice r (i * 128) 128)) (\<lambda>p. ret (e_fadd E1 s p)))
        (seq (c_pack_product E2 (slice a' (k * 768 + i * 128) 128) (slice r' (i * 128) 128)) (\<lambda>p. ret (e_fadd E2 t p)))"
      by (intro in_step_seq [OF item] in_step_ret rel_fadd) auto
  next
    fix s t assume st: "RF s t"
    show "in_step S (bits_rel RB 128) (seq (e_pack E1 (slice m (k * 128) 128)) (\<lambda>pm. e_field_witness E1 (e_fadd E1 s pm) 128))
        (seq (e_pack E2 (slice m' (k * 128) 128)) (\<lambda>pm. e_field_witness E2 (e_fadd E2 t pm) 128))"
      by (rule in_step_seq [OF rel_pack [OF mk]], simp, rule rel_field_witness, rule rel_fadd [OF st]) simp_all
  qed
qed

lemma rel_commitment:
  assumes r: "bits_rel RB 768 r r'" and a: "bits_rel RB 1536 a a'" and m: "bits_rel RB 256 m m'"
  shows "in_step S (bits_rel RB 256) (s_commitment E1 r a m) (s_commitment E2 r' a' m')"
proof -
  have lines: "in_step S (bits_rel RB (2 * 128)) (loop (\<lambda>line b. seq (s_line E1 r a m line) (\<lambda>w. ret (b @ w))) [0..<2] [])
      (loop (\<lambda>line b. seq (s_line E2 r' a' m' line) (\<lambda>w. ret (b @ w))) [0..<2] [])"
  proof (rule in_step_loop_upto [where A = "\<lambda>k. bits_rel RB (k * 128)"])
    fix k b b' assume "k < 2" "bits_rel RB (k * 128) b b'"
    then show "in_step S (bits_rel RB (Suc k * 128)) (seq (s_line E1 r a m k) (\<lambda>w. ret (b @ w))) (seq (s_line E2 r' a' m' k) (\<lambda>w. ret (b' @ w)))"
      using bits_rel_append [of RB "k * 128" b b' 128] by (intro in_step_seq [OF rel_line [OF r a m]] in_step_ret) (simp_all add: add.commute)
  qed (simp add: bits_rel_Nil)
  have y: "in_step S (bits_rel RB 256) (c_hash_str E1 ''HMy'' r 32) (c_hash_str E2 ''HMy'' r' 32)" using rel_hash_str [OF r, of 32] by simp
  have d: "in_step S (bits_rel RB 256) (c_hash_str E1 ''HMd'' (a @ b @ z) 32) (c_hash_str E2 ''HMd'' (a' @ b' @ z') 32)"
    if "bits_rel RB (2 * 128) b b'" "bits_rel RB 256 z z'" for b b' z z'
    using rel_hash_str [OF bits_rel_append [OF a bits_rel_append [OF that]], of 32] by simp
  show ?thesis
    unfolding s_commitment_def by (rule in_step_seq [OF lines], rule in_step_seq [OF y], rule d)
qed

lemma rel_epoch_be: "bits_rel RB 32 e e' \<Longrightarrow> bits_rel RB 32 (s_epoch_be e) (s_epoch_be e')"
proof -
  assume e: "bits_rel RB 32 e e'"
  have "bits_rel (bits_rel RB 8) 4 (map (\<lambda>i. slice e ((3 - i) * 8) 8) [0..<4]) (map (\<lambda>i. slice e' ((3 - i) * 8) 8) [0..<4])"
    by (rule bits_rel_map, rule bits_rel_slice [OF e]) auto
  from bits_rel_concat [OF this] show ?thesis by (simp add: s_epoch_be_def)
qed

lemma rel_message_hash:
  assumes "bits_rel RB 128 seed seed'" "bits_rel RB 32 e e'" "bits_rel RB 192 n n'" "bits_rel RB 256 d d'"
  shows "in_step S (bits_rel RB 256) (s_message_hash E1 seed e n d) (s_message_hash E2 seed' e' n' d')"
proof -
  have hash: "in_step S (bits_rel RB 256) (c_hash E1 (seed @ c_number E1 (ucast XMSS_TWEAK_MESSAGE) 8 @ e) (n @ d) 32)
      (c_hash E2 (seed' @ c_number E2 (ucast XMSS_TWEAK_MESSAGE) 8 @ e') (n' @ d') 32)"
    using rel_hash [OF bits_rel_append [OF assms(1) bits_rel_append [OF rel_number assms(2)]] bits_rel_append [OF assms(3,4)], of 32] by simp
  show ?thesis
    unfolding s_message_hash_def
    by (rule in_step_seq [OF hash], rule in_step_seq [OF rel_zero_bit [OF bits_rel_nth]], assumption, simp,
        rule in_step_seq [OF rel_zero_bit [OF bits_rel_nth]], assumption, simp, rule in_step_ret)
qed

subsection \<open>The chains\<close>

lemma rel_chain:
  assumes d: "bits_rel RB 256 d d'" and k: "k < 42"
    and c: "bits_rel (bits_rel RB 3) k cs cs'" and t: "bits_rel (bits_rel RB 128) k ts ts'" and e: "bits_rel (bits_rel RB 128) k es es'"
    and s: "bits_rel RB 9 tot tot'"
  shows "in_step S (rel_prod (bits_rel (bits_rel RB 3) (Suc k)) (rel_prod (bits_rel (bits_rel RB 128) (Suc k))
      (rel_prod (bits_rel (bits_rel RB 128) (Suc k)) (bits_rel RB 9))))
    (s_chain E1 d k (cs, ts, es, tot)) (s_chain E2 d' k (cs', ts', es', tot'))"
proof -
  have pos: "xmss_coord_bit_pos k + 3 \<le> 256"
    using k by (auto simp: xmss_coord_bit_pos_def XMSS_DIGITS_PER_WORD_def XMSS_WOTS_LEN_def XMSS_COORD_RES_BITS_def)
  note coord = bits_rel_slice [OF d pos]
  have trm: "bits_rel RB 9 (slice d (xmss_coord_bit_pos k) 3 @ replicate 6 (e_constant E1 False)) (slice d' (xmss_coord_bit_pos k) 3 @ replicate 6 (e_constant E2 False))"
    using bits_rel_append [OF coord rel_constant_replicate [of 6 False]] by simp
  have tip: "in_step S (bits_rel RB 128) (c_input E1 (kSigOffset + 28 + 16 * k) 16) (c_input E2 (kSigOffset + 28 + 16 * k) 16)"
    and en: "in_step S (bits_rel RB 128) (c_input E1 (kEndpointsOffset + 16 * k) 16) (c_input E2 (kEndpointsOffset + 16 * k) 16)"
    using rel_input [of "kSigOffset + 28 + 16 * k" 16] rel_input [of "kEndpointsOffset + 16 * k" 16] k
    by (simp_all add: kSigOffset_def kEndpointsOffset_def kScheduleOffset_def kPrimaryBytes_def XMSS_SIG_BYTES_def
        XMSS_NONCE_LEN_def XMSS_WOTS_LEN_def XMSS_NODE_BYTES_def XMSS_H_def)
  show ?thesis
    unfolding s_chain_def prod.case Let_def
    apply (rule in_step_seq [OF rel_addition [OF s trm]])
    apply (rule in_step_seq [OF tip])
    apply (rule in_step_seq [OF en])
    apply (rule in_step_seq [OF rel_equal [OF coord rel_number]])
    apply (rule in_step_seq [OF rel_pack [OF rel_single]], assumption, simp)
    apply (rule in_step_seq [OF rel_pack], assumption, simp)
    apply (rule in_step_seq [OF rel_pack], assumption, simp)
    apply (rule in_step_seq [OF rel_zero [OF rel_product [OF _ rel_fadd]]], assumption, assumption, assumption)
    apply (rule in_step_ret)
    apply (simp add: bits_rel_snoc c t e coord)
    done
qed

lemma rel_chains:
  assumes d: "bits_rel RB 256 d d'"
  shows "in_step S (rel_prod (bits_rel (bits_rel RB 3) 42) (rel_prod (bits_rel (bits_rel RB 128) 42) (bits_rel (bits_rel RB 128) 42)))
    (s_chains E1 d) (s_chains E2 d')"
proof -
  let ?A = "\<lambda>k. rel_prod (bits_rel (bits_rel RB 3) k) (rel_prod (bits_rel (bits_rel RB 128) k) (rel_prod (bits_rel (bits_rel RB 128) k) (bits_rel RB 9)))"
  have loop: "in_step S (?A 42) (loop (s_chain E1 d) [0..<42] ([], [], [], c_number E1 0 9)) (loop (s_chain E2 d') [0..<42] ([], [], [], c_number E2 0 9))"
    by (rule in_step_loop_upto) (auto intro!: rel_chain [OF d] simp: bits_rel_Nil rel_number)
  show ?thesis
    unfolding s_chains_def
  proof (rule in_step_seq [OF loop])
    fix x y assume "?A 42 x y"
    then show "in_step S (rel_prod (bits_rel (bits_rel RB 3) 42) (rel_prod (bits_rel (bits_rel RB 128) 42) (bits_rel (bits_rel RB 128) 42)))
        (case x of (coords, tips, ends, tot) \<Rightarrow> seq (c_equal_field E1 tot (c_number E1 195 9)) (\<lambda>_. ret (coords, tips, ends)))
        (case y of (coords, tips, ends, tot) \<Rightarrow> seq (c_equal_field E2 tot (c_number E2 195 9)) (\<lambda>_. ret (coords, tips, ends)))"
      by (cases x; cases y) (auto intro!: in_step_seq [OF rel_equal_field [OF _ rel_number]] in_step_ret)
  qed
qed

subsection \<open>The schedule\<close>

lemma rel_selected:
  assumes fl: "bits_rel RB 42 fs fs'" and xs: "bits_rel (bits_rel RB w) 42 xs xs'" and w: "w \<le> 128"
  shows "in_step S RF (s_selected E1 fs xs) (s_selected E2 fs' xs')"
proof -
  have item: "in_step S RF (c_pack_product E1 [fs ! i] (xs ! i)) (c_pack_product E2 [fs' ! i] (xs' ! i))" if "i < 42" for i
    by (rule rel_pack_product [OF rel_single [OF bits_rel_nth [OF fl that]] bits_rel_nth [OF xs that] _ w]) simp
  show ?thesis
    unfolding s_selected_def
  proof (rule in_step_seq [OF item], simp, rule in_step_loop)
    fix i s t assume "i \<in> set [1..<42 :: nat]" "RF s t"
    then show "in_step S RF (seq (c_pack_product E1 [fs ! i] (xs ! i)) (\<lambda>p. ret (e_fadd E1 s p))) (seq (c_pack_product E2 [fs' ! i] (xs' ! i)) (\<lambda>p. ret (e_fadd E2 t p)))"
      by (intro in_step_seq [OF item] in_step_ret rel_fadd) auto
  qed
qed

lemma rel_order:
  assumes i: "bits_rel RB 8 is js" and pi: "bits_rel RB 8 pi pj" and pp: "bits_rel RB 3 pp pq"
  shows "in_step S RB (s_order cfg E1 k is pi pp) (s_order cfg E2 k js pj pq)"
proof (cases "k = 0")
  case True
  then show ?thesis by (simp add: s_order_def in_step_ret rel_constant)
next
  case False
  show ?thesis
    unfolding s_order_def if_not_P [OF False]
    apply (rule in_step_seq [OF rel_equal [OF i pi]])
    apply (rule in_step_seq [OF rel_less [OF i pi]])
    apply (rule in_step_seq [OF rel_zero_bit], assumption)
    apply (rule in_step_seq [OF rel_pack [OF rel_single]], assumption, simp)
    apply (rule in_step_seq [OF rel_pack [OF rel_number]], simp)
    apply (rule in_step_seq [OF rel_pack [OF pp]], simp)
    apply (rule in_step_seq [OF rel_pack [OF rel_number]], simp)
    apply (rule in_step_seq [OF rel_zero [OF rel_product [OF rel_fadd rel_fadd]]], assumption, assumption, assumption, assumption)
    apply (erule in_step_ret)
    done
qed

lemma rel_step:
  assumes seed: "bits_rel RB 128 seed seed'" and ep: "bits_rel RB 32 ep ep'"
    and cs: "bits_rel (bits_rel RB 3) 42 cs cs'" and ts: "bits_rel (bits_rel RB 128) 42 ts ts'" and es: "bits_rel (bits_rel RB 128) 42 es es'"
    and k: "k < 99" and pi: "bits_rel RB 8 pi pi'" and pp: "bits_rel RB 3 pp pp'" and po: "bits_rel RB 128 po po'"
  shows "in_step S (rel_prod (bits_rel RB 8) (rel_prod (bits_rel RB 3) (bits_rel RB 128)))
    (s_step cfg E1 seed ep cs ts es k (pi, pp, po)) (s_step cfg E2 seed' ep' cs' ts' es' k (pi', pp', po'))"
proof -
  have index: "in_step S (bits_rel RB 8) (c_input E1 (kScheduleOffset + k) 1) (c_input E2 (kScheduleOffset + k) 1)"
    using rel_input [of "kScheduleOffset + k" 1] k
    by (simp add: kSigOffset_def kScheduleOffset_def kPrimaryBytes_def)
  have fsum: "RB (fold (\<lambda>flag sum. e_add E1 sum flag) fs a) (fold (\<lambda>flag sum. e_add E2 sum flag) fs' b)"
    if "bits_rel RB n fs fs'" "RB a b" for n fs fs' a b
    using that
  proof (induction fs arbitrary: n fs' a b)
    case Nil
    then show ?case by (auto simp: bits_rel_def)
  next
    case (Cons f fs)
    then obtain m g gs where e: "n = Suc m" "fs' = g # gs" by (cases fs') (auto simp: bits_rel_def)
    have "RB f g" using bits_rel_nth [OF Cons.prems(1), of 0] by (simp add: e)
    moreover have "bits_rel RB m fs gs" using bits_rel_tl [of RB m "f # fs" fs'] Cons.prems(1) by (simp add: e)
    ultimately show ?case using Cons.IH [of m gs] rel_add Cons.prems(2) by (simp add: e)
  qed
  have hash: "in_step S (bits_rel RB 128) (c_hash E1 (x @ c_number E1 (ucast XMSS_TWEAK_CHAIN) 8) (seed @ ep @ is @ (pos @ replicate 5 (e_constant E1 False))) 16)
      (c_hash E2 (x' @ c_number E2 (ucast XMSS_TWEAK_CHAIN) 8) (seed' @ ep' @ js @ (pos' @ replicate 5 (e_constant E2 False))) 16)"
    if "bits_rel RB 128 x x'" "bits_rel RB 8 is js" "bits_rel RB 3 pos pos'" for x x' "is" js pos pos'
    using rel_hash [OF bits_rel_append [OF that(1) rel_number] bits_rel_append [OF seed bits_rel_append [OF ep bits_rel_append [OF that(2)
        bits_rel_append [OF that(3) rel_constant_replicate]]]], of 16] by simp
  show ?thesis
    unfolding s_step_def prod.case Let_def
    apply (rule in_step_seq [OF index])
    subgoal for ix js
    apply (rule in_step_seq [OF rel_chain_flags], assumption)
    subgoal for fs fs'
    apply (rule in_step_seq [OF rel_zero_bit [OF rel_invert [OF fsum]]], assumption, rule rel_constant)
    apply (rule in_step_seq [OF rel_order [OF _ pi pp]], assumption)
    apply (rule in_step_seq [OF rel_selected [OF _ ts]], assumption, simp)
    apply (rule in_step_seq [OF rel_selected [OF _ es]], assumption, simp)
    apply (rule in_step_seq [OF rel_selected [OF _ cs]], assumption, simp)
    apply (rule in_step_seq [OF rel_field_witness], assumption, simp)
    apply (rule in_step_seq [OF rel_select [OF _ pp]], assumption, assumption)
    apply (rule in_step_seq [OF rel_addition [OF _ rel_number]], assumption)
    apply (rule in_step_seq [OF rel_pack [OF rel_single]], assumption, simp)
    apply (rule in_step_seq [OF rel_pack [OF po]], simp)
    apply (rule in_step_seq [OF rel_field_witness [OF rel_fadd [OF rel_product [OF _ rel_fadd]]]], assumption, assumption, assumption, assumption, simp)
    apply (rule in_step_seq [OF hash], assumption, assumption, assumption)
    apply (rule in_step_seq [OF rel_equal [OF _ rel_number]], assumption)
    apply (rule in_step_seq [OF rel_pack [OF rel_single]], assumption, simp)
    apply (rule in_step_seq [OF rel_pack], assumption, simp)
    apply (rule in_step_seq [OF rel_zero [OF rel_product [OF _ rel_fadd]]], assumption, assumption, assumption)
    apply (rule in_step_ret, simp)
    done
    done
    done
qed

lemma rel_steps:
  assumes "bits_rel RB 128 seed seed'" "bits_rel RB 32 ep ep'"
    and "bits_rel (bits_rel RB 3) 42 cs cs'" "bits_rel (bits_rel RB 128) 42 ts ts'" "bits_rel (bits_rel RB 128) 42 es es'"
  shows "in_step S (\<lambda>_ _. True) (s_steps cfg E1 seed ep cs ts es) (s_steps cfg E2 seed' ep' cs' ts' es')"
proof -
  let ?A = "rel_prod (bits_rel RB 8) (rel_prod (bits_rel RB 3) (bits_rel RB 128))"
  have loop: "in_step S ?A (loop (s_step cfg E1 seed ep cs ts es) [0..<99] (c_number E1 0 8, c_number E1 0 3, c_number E1 0 128))
      (loop (s_step cfg E2 seed' ep' cs' ts' es') [0..<99] (c_number E2 0 8, c_number E2 0 3, c_number E2 0 128))"
    by (rule in_step_loop) (auto intro!: rel_step assms simp: rel_number)
  show ?thesis
    unfolding s_steps_def
  proof (rule in_step_seq [OF loop])
    fix x y assume "?A x y"
    then show "in_step S (\<lambda>_ _. True) (case x of (previous_index, previous_pos, previous_out) \<Rightarrow> c_equal_field E1 previous_pos (c_number E1 7 3))
        (case y of (previous_index, previous_pos, previous_out) \<Rightarrow> c_equal_field E2 previous_pos (c_number E2 7 3))"
      by (cases x; cases y) (auto intro!: rel_equal_field [OF _ rel_number])
  qed
qed

subsection \<open>The root\<close>

lemma rel_level:
  assumes seed: "bits_rel RB 128 seed seed'" and k: "k < 32" and node: "bits_rel RB 128 node node'" and idx: "bits_rel RB 32 idx idx'"
  shows "in_step S (rel_prod (bits_rel RB 128) (bits_rel RB 32)) (s_level E1 seed k (node, idx)) (s_level E2 seed' k (node', idx'))"
proof -
  have sib: "in_step S (bits_rel RB 128) (c_input E1 (kSigOffset + 28 + 42 * 16 + k * 16) 16) (c_input E2 (kSigOffset + 28 + 42 * 16 + k * 16) 16)"
    using rel_input [of "kSigOffset + 28 + 42 * 16 + k * 16" 16] k
    by (simp add: kSigOffset_def kPrimaryBytes_def XMSS_SIG_BYTES_def XMSS_NONCE_LEN_def XMSS_WOTS_LEN_def XMSS_NODE_BYTES_def XMSS_H_def)
  have right: "bits_rel RB 128 (map (\<lambda>i. e_add E1 (e_add E1 (l ! i) (node ! i)) (s ! i)) [0..<128]) (map (\<lambda>i. e_add E2 (e_add E2 (l' ! i) (node' ! i)) (s' ! i)) [0..<128])"
    if "bits_rel RB 128 l l'" "bits_rel RB 128 s s'" for l l' s s'
    by (rule bits_rel_map) (intro rel_add bits_rel_nth [OF that(1)] bits_rel_nth [OF that(2)] bits_rel_nth [OF node])
  have idx32: "bits_rel RB 32 (tl idx @ [e_constant E1 False]) (tl idx' @ [e_constant E2 False])"
    using bits_rel_snoc [OF bits_rel_tl [of RB 31] rel_constant] idx by simp
  have hash: "in_step S (bits_rel RB 128) (c_hash E1 (seed @ c_number E1 (ucast XMSS_TWEAK_TREE) 8 @ c_number E1 (of_nat k) 8 @ (tl idx @ [e_constant E1 False])) (l @ r) 16)
      (c_hash E2 (seed' @ c_number E2 (ucast XMSS_TWEAK_TREE) 8 @ c_number E2 (of_nat k) 8 @ (tl idx' @ [e_constant E2 False])) (l' @ r') 16)"
    if "bits_rel RB 128 l l'" "bits_rel RB 128 r r'" for l l' r r'
    using rel_hash [OF bits_rel_append [OF seed bits_rel_append [OF rel_number bits_rel_append [OF rel_number idx32]]] bits_rel_append [OF that], of 16]
    by simp
  show ?thesis
    unfolding s_level_def prod.case Let_def
    apply (rule in_step_seq [OF sib])
    apply (rule in_step_seq [OF rel_select [OF bits_rel_nth [OF idx] _ node]], simp, assumption)
    apply (rule in_step_seq [OF hash [OF _ right]], assumption, assumption, assumption)
    apply (rule in_step_ret, simp only: rel_prod_inject idx32 simp_thms)
    done
qed

lemma rel_root:
  assumes seed: "bits_rel RB 128 seed seed'" and ep: "bits_rel RB 32 ep ep'" and be: "bits_rel RB 32 be be'"
    and es: "bits_rel (bits_rel RB 128) 42 es es'" and root: "length root = 16"
  shows "in_step S (\<lambda>_ _. True) (s_root E1 seed ep be es root) (s_root E2 seed' ep' be' es' root)"
proof -
  have leaf: "in_step S (bits_rel RB 128) (c_hash E1 (seed @ c_number E1 (ucast XMSS_TWEAK_LEAF) 8 @ be) (concat es) 16)
      (c_hash E2 (seed' @ c_number E2 (ucast XMSS_TWEAK_LEAF) 8 @ be') (concat es') 16)"
    using rel_hash [OF bits_rel_append [OF seed bits_rel_append [OF rel_number be]] bits_rel_concat [OF es], of 16] by simp
  let ?A = "rel_prod (bits_rel RB 128) (bits_rel RB 32)"
  have loop: "in_step S ?A (loop (s_level E1 seed) [0..<32] (n, ep)) (loop (s_level E2 seed') [0..<32] (n', ep'))" if "bits_rel RB 128 n n'" for n n'
    by (rule in_step_loop) (use that in \<open>auto intro!: rel_level seed simp: ep\<close>)
  have rc: "bits_rel RB 128 (c_constant E1 root) (c_constant E2 root)" using rel_constants [of root] root by simp
  show ?thesis
    unfolding s_root_def
  proof (rule in_step_seq [OF leaf], rule in_step_seq [OF loop], assumption)
    fix x y assume "?A x y"
    then show "in_step S (\<lambda>_ _. True) (case x of (node, idx) \<Rightarrow> c_equal_field E1 node (c_constant E1 root)) (case y of (node, idx) \<Rightarrow> c_equal_field E2 node (c_constant E2 root))"
      by (cases x; cases y) (auto intro!: rel_equal_field [OF _ rc])
  qed
qed

lemma rel_padding: "in_step S (\<lambda>_ _. True) (s_padding E1) (s_padding E2)"
proof -
  have "in_step S (\<lambda>_ _. True) (loop (\<lambda>_ _. seq (e_allocate E1 False) (e_zero_bit E1)) [0..<n] ()) (loop (\<lambda>_ _. seq (e_allocate E2 False) (e_zero_bit E2)) [0..<n] ())" for n
    by (rule in_step_loop [where A = "\<lambda>_ _. True"]) (rule rel_pad, simp)
  then show ?thesis by (simp add: s_padding_def in_step_def rel_cursor)
qed

lemma rel_statement:
  assumes "length (vs_message stm) = 32" "length (vs_pk_seed stm) = 16" "length (vs_root stm) = 16"
  shows "in_step S (\<lambda>_ _. True) (c_statement cfg E1 stm) (c_statement cfg E2 stm)"
proof -
  have m: "bits_rel RB 256 (c_constant E1 (vs_message stm)) (c_constant E2 (vs_message stm))"
    and seed: "bits_rel RB 128 (c_constant E1 (vs_pk_seed stm)) (c_constant E2 (vs_pk_seed stm))"
    using rel_constants [of "vs_message stm"] rel_constants [of "vs_pk_seed stm"] assms by simp_all
  have inputs: "in_step S (bits_rel RB 768) (c_input E1 0 96) (c_input E2 0 96)" "in_step S (bits_rel RB 1536) (c_input E1 96 192) (c_input E2 96 192)"
    "in_step S (bits_rel RB 32) (c_input E1 kSigOffset 4) (c_input E2 kSigOffset 4)" "in_step S (bits_rel RB 192) (c_input E1 (kSigOffset + 4) 24) (c_input E2 (kSigOffset + 4) 24)"
    using rel_input [of 0 96] rel_input [of 96 192] rel_input [of kSigOffset 4] rel_input [of "kSigOffset + 4" 24]
    by (simp_all add: kSigOffset_def kPrimaryBytes_def HM_R_BYTES_def HM_A_BYTES_def HM_NONCES_def HM_ELT_def HM_LINES_def XMSS_SIG_BYTES_def
        XMSS_NONCE_LEN_def)
  show ?thesis
    unfolding c_statement_def Let_def
    apply (rule in_step_seq [OF inputs(1)])
    apply (rule in_step_seq [OF inputs(2)])
    apply (rule in_step_seq [OF rel_commitment [OF _ _ m]], assumption, assumption)
    apply (rule in_step_seq [OF inputs(3)])
    apply (rule in_step_seq [OF inputs(4)])
    apply (rule in_step_seq [OF rel_message_hash [OF seed rel_epoch_be]], assumption, assumption, assumption)
    apply (rule in_step_seq [OF rel_chains], assumption)
    subgoal for r r' a a' d d' ep ep' n n' dg dg' x y
      by (cases x; cases y)
        (auto intro!: in_step_seq [OF rel_steps [OF seed rel_epoch_be]] in_step_seq [OF rel_root [OF seed _ rel_epoch_be _ assms(3)]] rel_padding)
    done
qed

end

end
