(* ===== verification/Vole_Auth.thy ===== *)
theory Vole_Auth
  imports Vole_Engine Keccak_Lift Vole_Lockstep Vole_Exact
begin

text \<open>
  An engine that stops at the first state outside a set \<open>good\<close>. When no operation of the
  engine leads from a bad state to a good one, the circuit run on the guarded engine returns
  exactly when the plain run returns in a good state. Both engines of the code are
  compared through their guarded versions: \<open>AuthContext\<close> stopping at a constraint that does
  not vanish, \<open>NativeContext\<close> stopping at a bit that is not the given witness's.
\<close>

definition guard :: "('s \<Rightarrow> bool) \<Rightarrow> ('s, 'a) run \<Rightarrow> ('s, 'a) run" where
  "guard good m = (\<lambda>s. case m s of Inl e \<Rightarrow> Inl e
     | Inr (x, s') \<Rightarrow> if good s' then Inr (x, s') else Inl (Logic_error ''guard''))"

definition guard_engine :: "('s \<Rightarrow> bool) \<Rightarrow> ('b, 'f, 's) engine \<Rightarrow> ('b, 'f, 's) engine" where
  "guard_engine good E =
     E\<lparr>e_bit := \<lambda>i. guard good (e_bit E i), e_allocate := \<lambda>v. guard good (e_allocate E v),
       e_mul := \<lambda>a b. guard good (e_mul E a b), e_zero_bit := \<lambda>a. guard good (e_zero_bit E a),
       e_zero := \<lambda>a. guard good (e_zero E a), e_pack := \<lambda>xs. guard good (e_pack E xs),
       e_field_witness := \<lambda>a n. guard good (e_field_witness E a n),
       e_permute := \<lambda>xs n. guard good (e_permute E xs n)\<rparr>"

text \<open>\<open>keeps\<close>: the invariant is kept and a bad state never becomes good. \<open>checked\<close>: the second
  run is the first one, stopped at bad states.\<close>

definition keeps :: "('s \<Rightarrow> bool) \<Rightarrow> ('s \<Rightarrow> bool) \<Rightarrow> ('s, 'a) run \<Rightarrow> bool" where
  "keeps iv good m \<longleftrightarrow> (\<forall>s x s'. iv s \<longrightarrow> m s = Inr (x, s') \<longrightarrow> iv s' \<and> (good s' \<longrightarrow> good s))"

definition checked :: "('s \<Rightarrow> bool) \<Rightarrow> ('s \<Rightarrow> bool) \<Rightarrow> ('s, 'a) run \<Rightarrow> ('s, 'a) run \<Rightarrow> bool" where
  "checked iv good m m' \<longleftrightarrow> keeps iv good m \<and>
     (\<forall>s. iv s \<longrightarrow> good s \<longrightarrow> (\<forall>x s'. m' s = Inr (x, s') \<longleftrightarrow> m s = Inr (x, s') \<and> good s'))"

lemma seq_Inr_iff: "seq m f s = Inr (y, s2) \<longleftrightarrow> (\<exists>x s1. m s = Inr (x, s1) \<and> f x s1 = Inr (y, s2))"
  by (auto simp: seq_def split: sum.splits)

named_theorems keeps_intros
named_theorems checked_intros

lemma keeps_ret [keeps_intros]: "keeps iv good (ret x)"
  by (simp add: keeps_def ret_def)

lemma keeps_throw [keeps_intros]: "keeps iv good (throw e)"
  by (simp add: keeps_def throw_def)

lemma keeps_seq [keeps_intros]: "keeps iv good m \<Longrightarrow> (\<And>x. keeps iv good (f x)) \<Longrightarrow> keeps iv good (seq m f)"
  unfolding keeps_def seq_Inr_iff by blast

lemma keeps_loop [keeps_intros]: "(\<And>x a. keeps iv good (f x a)) \<Longrightarrow> keeps iv good (loop f xs a)"
  by (induction xs arbitrary: a) (auto intro: keeps_intros)

lemma keeps_collect [keeps_intros]: "(\<And>x. keeps iv good (f x)) \<Longrightarrow> keeps iv good (collect f xs)"
  by (induction xs) (auto intro: keeps_intros)

lemma checked_ret [checked_intros]: "checked iv good (ret x) (ret x)"
  by (auto simp: checked_def keeps_ret) (auto simp: ret_def)

lemma checked_throw [checked_intros]: "checked iv good (throw e) (throw e)"
  by (auto simp: checked_def keeps_throw) (auto simp: throw_def)

lemma checked_seq [checked_intros]:
  assumes "checked iv good m m'" "\<And>x. checked iv good (f x) (f' x)"
  shows "checked iv good (seq m f) (seq m' f')"
proof -
  have "keeps iv good (seq m f)" using assms by (intro keeps_seq) (auto simp: checked_def)
  moreover have "seq m' f' s = Inr (y, s2) \<longleftrightarrow> seq m f s = Inr (y, s2) \<and> good s2" if "iv s" "good s" for s y s2
  proof -
    have f: "f' x s1 = Inr (y, s2) \<longleftrightarrow> f x s1 = Inr (y, s2) \<and> good s2" if "iv s1" "good s1" for x s1
      using assms(2) [of x] that by (auto simp: checked_def)
    have m: "m' s = Inr (x, s1) \<longleftrightarrow> m s = Inr (x, s1) \<and> good s1" for x s1
      using assms(1) that by (auto simp: checked_def)
    have iv: "iv s1" if "m s = Inr (x, s1)" for x s1
      using assms(1) \<open>iv s\<close> that by (auto simp: checked_def keeps_def)
    have bad: "good s1" if "iv s1" "f x s1 = Inr (y, s2)" "good s2" for x s1
      using assms(2) [of x] that by (auto simp: checked_def keeps_def)
    show ?thesis unfolding seq_Inr_iff using f m iv bad by blast
  qed
  ultimately show ?thesis by (auto simp: checked_def)
qed

lemma checked_loop [checked_intros]:
  "(\<And>x a. checked iv good (f x a) (f' x a)) \<Longrightarrow> checked iv good (loop f xs a) (loop f' xs a)"
  by (induction xs arbitrary: a) (auto intro: checked_intros)

lemma checked_collect [checked_intros]:
  "(\<And>x. checked iv good (f x) (f' x)) \<Longrightarrow> checked iv good (collect f xs) (collect f' xs)"
  by (induction xs) (auto intro: checked_intros)

lemma checked_if [checked_intros]:
  "checked iv good m m' \<Longrightarrow> checked iv good n n' \<Longrightarrow> checked iv good (if b then m else n) (if b then m' else n')"
  by simp

lemma checked_prod [checked_intros]:
  "(\<And>a b. checked iv good (f a b) (f' a b)) \<Longrightarrow> checked iv good (case p of (a, b) \<Rightarrow> f a b) (case p of (a, b) \<Rightarrow> f' a b)"
  by (cases p) simp

lemma checked_guard: "keeps iv good m \<Longrightarrow> checked iv good m (guard good m)"
  by (auto simp: checked_def guard_def split: sum.splits if_splits)

lemma guard_engine_simps [simp]:
  "e_cursor (guard_engine good E) = e_cursor E" "e_constant (guard_engine good E) = e_constant E"
  "e_add (guard_engine good E) = e_add E" "e_fadd (guard_engine good E) = e_fadd E"
  "e_product (guard_engine good E) = e_product E"
  by (simp_all add: guard_engine_def)

lemma guard_engine_runs:
  "e_bit (guard_engine good E) i = guard good (e_bit E i)"
  "e_allocate (guard_engine good E) v = guard good (e_allocate E v)"
  "e_mul (guard_engine good E) a b = guard good (e_mul E a b)"
  "e_zero_bit (guard_engine good E) a = guard good (e_zero_bit E a)"
  "e_zero (guard_engine good E) x = guard good (e_zero E x)"
  "e_pack (guard_engine good E) xs = guard good (e_pack E xs)"
  "e_field_witness (guard_engine good E) x n = guard good (e_field_witness E x n)"
  "e_permute (guard_engine good E) xs n = guard good (e_permute E xs n)"
  by (simp_all add: guard_engine_def)

lemma guard_pure [simp]:
  "c_constant (guard_engine good E) = c_constant E" "c_number (guard_engine good E) = c_number E"
  "c_invert (guard_engine good E) = c_invert E"
  by (intro ext, simp add: c_constant_def c_number_def c_invert_def)+

subsection \<open>The circuit\<close>

text \<open>The contract: what every operation of an engine keeps.\<close>

locale guarded_engine =
  fixes E :: "('b, 'f, 's) engine" and iv good :: "'s \<Rightarrow> bool"
  assumes keeps_bit: "keeps iv good (e_bit E i)" and keeps_allocate: "keeps iv good (e_allocate E v)"
    and keeps_mul: "keeps iv good (e_mul E a b)" and keeps_zero_bit: "keeps iv good (e_zero_bit E a)"
    and keeps_zero: "keeps iv good (e_zero E x)" and keeps_pack: "keeps iv good (e_pack E as)"
    and keeps_field_witness: "keeps iv good (e_field_witness E x n)"
    and keeps_permute: "keeps iv good (e_permute E as n)"
begin

lemma checked_ops:
  "checked iv good (e_bit E i) (e_bit (guard_engine good E) i)"
  "checked iv good (e_allocate E v) (e_allocate (guard_engine good E) v)"
  "checked iv good (e_mul E a b) (e_mul (guard_engine good E) a b)"
  "checked iv good (e_zero_bit E a) (e_zero_bit (guard_engine good E) a)"
  "checked iv good (e_zero E x) (e_zero (guard_engine good E) x)"
  "checked iv good (e_pack E as) (e_pack (guard_engine good E) as)"
  "checked iv good (e_field_witness E x n) (e_field_witness (guard_engine good E) x n)"
  "checked iv good (e_permute E as n) (e_permute (guard_engine good E) as n)"
  unfolding guard_engine_runs
  by (intro checked_guard keeps_bit keeps_allocate keeps_mul keeps_zero_bit keeps_zero keeps_pack keeps_field_witness keeps_permute)+

lemma checked_gadgets:
  "checked iv good (c_input E off n) (c_input (guard_engine good E) off n)"
  "checked iv good (c_equal E as bs) (c_equal (guard_engine good E) as bs)"
  "checked iv good (c_flags_level E as k bs) (c_flags_level (guard_engine good E) as k bs)"
  "checked iv good (c_less cfg E as bs) (c_less cfg (guard_engine good E) as bs)"
  "checked iv good (c_add E as bs no) (c_add (guard_engine good E) as bs no)"
  "checked iv good (c_select E a as bs) (c_select (guard_engine good E) a as bs)"
  "checked iv good (c_shake E as n) (c_shake (guard_engine good E) as n)"
  "checked iv good (c_equal_field E as bs) (c_equal_field (guard_engine good E) as bs)"
  "checked iv good (c_pack_product E as bs) (c_pack_product (guard_engine good E) as bs)"
  unfolding c_input_def c_equal_def c_flags_level_def c_less_def c_add_def c_select_def c_shake_def
    c_equal_field_def c_pack_product_def guard_engine_simps guard_pure Let_def
  by (intro checked_intros checked_ops)+

lemma checked_flags_hash:
  "checked iv good (c_chain_flags E as) (c_chain_flags (guard_engine good E) as)"
  "checked iv good (c_hash E as bs n) (c_hash (guard_engine good E) as bs n)"
  "checked iv good (c_hash_str E str bs n) (c_hash_str (guard_engine good E) str bs n)"
  unfolding c_chain_flags_def c_hash_def c_hash_str_def guard_pure Let_def
  by (intro checked_intros checked_ops checked_gadgets)+

lemmas checked_parts = checked_ops checked_gadgets checked_flags_hash

lemma checked_commitment:
  "checked iv good (s_commitment E r a m) (s_commitment (guard_engine good E) r a m)"
  unfolding s_commitment_def s_line_def guard_engine_simps by (intro checked_intros checked_parts)

lemma checked_message_hash:
  "checked iv good (s_message_hash E seed be nonce d) (s_message_hash (guard_engine good E) seed be nonce d)"
  unfolding s_message_hash_def guard_pure by (intro checked_intros checked_parts)

lemma checked_chains: "checked iv good (s_chains E digest) (s_chains (guard_engine good E) digest)"
  unfolding s_chains_def s_chain_def Let_def guard_pure guard_engine_simps by (intro checked_intros checked_parts)

lemma checked_selected: "checked iv good (s_selected E as xs) (s_selected (guard_engine good E) as xs)"
  unfolding s_selected_def guard_engine_simps by (intro checked_intros checked_parts)

lemma checked_order: "checked iv good (s_order cfg E k as bs cs) (s_order cfg (guard_engine good E) k as bs cs)"
  unfolding s_order_def guard_pure guard_engine_simps by (intro checked_intros checked_parts)

lemma checked_steps:
  "checked iv good (s_steps cfg E seed be coords tips ends) (s_steps cfg (guard_engine good E) seed be coords tips ends)"
  unfolding s_steps_def s_step_def Let_def guard_pure guard_engine_simps
  by (intro checked_intros checked_parts checked_selected checked_order)

lemma checked_root: "checked iv good (s_root E seed ep be ends r) (s_root (guard_engine good E) seed ep be ends r)"
  unfolding s_root_def s_level_def Let_def guard_pure guard_engine_simps by (intro checked_intros checked_parts)

lemma checked_padding: "checked iv good (s_padding E) (s_padding (guard_engine good E))"
proof -
  have "checked iv good (loop (\<lambda>_ _. seq (e_allocate E False) (e_zero_bit E)) [0..<n] ())
      (loop (\<lambda>_ _. seq (e_allocate (guard_engine good E) False) (e_zero_bit (guard_engine good E))) [0..<n] ())" for n
    by (intro checked_intros checked_parts)
  then show ?thesis unfolding s_padding_def guard_engine_simps by (auto simp: checked_def keeps_def)
qed

lemma checked_statement: "checked iv good (c_statement cfg E stm) (c_statement cfg (guard_engine good E) stm)"
  unfolding c_statement_def Let_def guard_pure guard_engine_simps
  by (intro checked_intros checked_parts checked_commitment checked_message_hash checked_chains checked_steps checked_root checked_padding)

end

text \<open>
  The authenticated evaluation against the native one. A QuickSilver value stands for a field
  element, its valuation; the values the circuit calls bits stand for 0 and 1. The
  constraints \<open>AuthContext\<close> emits all vanish exactly when the authenticated witness is the
  one \<open>NativeContext\<close> computes and no native constraint fails.
\<close>

subsection \<open>The QuickSilver library\<close>

text \<open>Documented behaviour: the valuation is a homomorphism, and witness bit \<open>i\<close> stands for
  bit \<open>i\<close> of the witness.\<close>

definition qs_ok :: "circuit_lib \<Rightarrow> 'q qs_ops \<Rightarrow> ('q \<Rightarrow> poly128) \<Rightarrow> (nat \<Rightarrow> bool) \<Rightarrow> bool" where
  "qs_ok L Q val w \<longleftrightarrow> (\<forall>b. val (qs_constant Q b) = of_bool b) \<and> (\<forall>i. val (get_witness_bit Q i) = of_bool (w i)) \<and>
     (\<forall>a b. val (qs_add Q a b) = val a XOR val b) \<and> (\<forall>a b. val (qs_mul Q a b) = poly_mul L (val a) (val b)) \<and>
     (\<forall>a c. val (qs_scale Q a c) = poly_mul L (val a) c)"

definition auth_ok :: "vconfig \<Rightarrow> circuit_lib \<Rightarrow> 'q qs_ops \<Rightarrow> ('q \<Rightarrow> poly128) \<Rightarrow> (nat \<Rightarrow> bool) \<Rightarrow> bool" where
  "auth_ok cfg L Q val w \<longleftrightarrow> cfg_ok cfg \<and> trace_ok cfg L \<and> field_laws L \<and> qs_ok L Q val w"

lemma auth_okD:
  assumes "auth_ok cfg L Q val w"
  shows "cfg_ok cfg" "trace_ok cfg L" "field_laws L" "val (qs_constant Q b) = of_bool b" "val (get_witness_bit Q i) = of_bool (w i)"
    "val (qs_add Q x y) = val x XOR val y" "val (qs_mul Q x y) = poly_mul L (val x) (val y)" "val (qs_scale Q x c) = poly_mul L (val x) c"
  using assms by (auto simp: auth_ok_def qs_ok_def)

text \<open>The states that are kept, and the relation of states that run in step.\<close>

definition zeros :: "('q \<Rightarrow> poly128) \<Rightarrow> 'q auth_context \<Rightarrow> bool" where
  "zeros val as \<longleftrightarrow> (\<forall>c\<in>set (ac_emitted as). val c = 0)"

definition on_witness :: "(nat \<Rightarrow> bool) \<Rightarrow> native_context \<Rightarrow> bool" where
  "on_witness w ns \<longleftrightarrow> (\<forall>i<nc_cursor ns. witness_bit ns i = w i)"

definition lock :: "bytes \<Rightarrow> ('q \<Rightarrow> poly128) \<Rightarrow> (nat \<Rightarrow> bool) \<Rightarrow> 'q auth_context \<Rightarrow> native_context \<Rightarrow> bool" where
  "lock p val w as ns \<longleftrightarrow> ac_cursor as = nc_cursor ns \<and> ac_constraints as = nc_constraints ns \<and>
     ac_permutations as = nc_permutations ns \<and> zeros val as \<and> native_inv p ns \<and> on_witness w ns"

lemma lockD:
  assumes "lock p val w as ns"
  shows "ac_cursor as = nc_cursor ns" "ac_constraints as = nc_constraints ns" "ac_permutations as = nc_permutations ns"
    "zeros val as" "native_inv p ns" "on_witness w ns"
  using assms by (simp_all add: lock_def)

subsection \<open>Both engines only move away from good states\<close>

lemma on_witness_push:
  assumes "native_inv p s"
  shows "on_witness w (push_witness v s) \<longleftrightarrow> on_witness w s \<and> v = w (nc_cursor s)"
  using push_witness_inv(2) [OF assms, where v = v] push_witness_inv(3) [OF assms, where v = v]
  by (auto simp: on_witness_def less_Suc_eq)

lemma keeps_n_allocate: "keeps (native_inv p) (on_witness w) (n_allocate v)"
  by (auto simp: keeps_def n_allocate_eq push_witness_inv on_witness_push)

lemma on_witness_update [simp]:
  "on_witness w (s\<lparr>nc_constraints := c\<rparr>) = on_witness w s" "on_witness w (s\<lparr>nc_permutations := c\<rparr>) = on_witness w s"
  "native_inv p (s\<lparr>nc_permutations := c\<rparr>) = native_inv p s" "native_inv p (s\<lparr>nc_constraints := c\<rparr>) = native_inv p s"
  by (simp_all add: on_witness_def witness_bit_def native_inv_def)

lemma keeps_n_count: "keeps (native_inv p) (on_witness w) (n_count n)"
  by (simp add: keeps_def n_count_def)

lemma keeps_state: "keeps iv good (\<lambda>s. if b s then Inl e else Inr (x, s))"
  by (simp add: keeps_def)

lemma keeps_case_prod: "(\<And>a b. keeps iv good (f a b)) \<Longrightarrow> keeps iv good (case p of (a, b) \<Rightarrow> f a b)"
  by (cases p) simp

lemma keeps_n_zero: "keeps (native_inv p) (on_witness w) (n_zero_bit a)" "keeps (native_inv p) (on_witness w) (n_zero x)"
  unfolding n_zero_bit_def n_zero_def by (intro keeps_seq keeps_n_count keeps_state)+

lemma keeps_n_pack: "keeps (native_inv p) (on_witness w) (n_pack as)"
  unfolding n_pack_def Let_def by (auto intro: keeps_intros)

lemma keeps_n_permute: "keeps (native_inv p) (on_witness w) (n_permute cfg L as n)"
proof -
  have "keeps (native_inv p) (on_witness w) (\<lambda>s. Inr (x, s\<lparr>nc_permutations := nc_permutations s + 1\<rparr>))" for x :: "bool list"
    by (simp add: keeps_def)
  then show ?thesis
    unfolding n_permute_def Let_def
    by (intro keeps_case_prod keeps_intros keeps_n_allocate keeps_n_count) (auto intro!: keeps_intros keeps_n_allocate keeps_n_count)
qed

interpretation native_guard: guarded_engine "native_engine cfg L" "native_inv p" "on_witness w" for cfg L p w
proof
  show "keeps (native_inv p) (on_witness w) (e_bit (native_engine cfg L) i)" for i
    by (simp add: keeps_def n_bit_def)
  show "keeps (native_inv p) (on_witness w) (e_field_witness (native_engine cfg L) x n)" for x n
    unfolding native_engine_simps n_field_witness_def Let_def by (intro keeps_intros keeps_n_allocate keeps_n_pack keeps_n_zero)
  show "keeps (native_inv p) (on_witness w) (e_mul (native_engine cfg L) a b)" for a b
    unfolding native_engine_simps n_mul_def by (intro keeps_intros keeps_n_allocate keeps_n_count)
qed (simp_all add: keeps_n_allocate keeps_n_zero keeps_n_pack keeps_n_permute)

lemma auth_engine_simps [simp]:
  "e_cursor (auth_engine cfg Q) = ac_cursor" "e_constant (auth_engine cfg Q) = qs_constant Q"
  "e_bit (auth_engine cfg Q) = a_bit Q" "e_allocate (auth_engine cfg Q) = a_allocate Q"
  "e_add (auth_engine cfg Q) = qs_add Q" "e_mul (auth_engine cfg Q) = a_mul Q"
  "e_zero_bit (auth_engine cfg Q) = a_zero" "e_zero (auth_engine cfg Q) = a_zero"
  "e_pack (auth_engine cfg Q) = a_pack Q" "e_fadd (auth_engine cfg Q) = qs_add Q"
  "e_product (auth_engine cfg Q) = qs_mul Q" "e_field_witness (auth_engine cfg Q) = a_field_witness Q"
  "e_permute (auth_engine cfg Q) = a_permute cfg Q"
  by (simp_all add: auth_engine_def)

lemma keeps_a_allocate: "keeps (\<lambda>_. True) (zeros val) (a_allocate Q v)"
  by (simp add: keeps_def a_allocate_def zeros_def)

lemma keeps_a_zero: "keeps (\<lambda>_. True) (zeros val) (a_zero a)"
  by (auto simp: keeps_def a_zero_def zeros_def)

lemma keeps_a_meet: "keeps (\<lambda>_. True) (zeros val) (a_meet cfg Q f r)"
  unfolding a_meet_def Let_def by (intro keeps_intros keeps_a_allocate keeps_a_zero)

lemma keeps_a_stride: "keeps (\<lambda>_. True) (zeros val) (a_stride cfg Q keep r st)"
  unfolding a_stride_def Let_def by (auto intro!: keeps_intros keeps_a_allocate keeps_a_zero keeps_a_meet)

interpretation auth_guard: guarded_engine "auth_engine cfg Q" "\<lambda>_. True" "zeros val" for cfg Q val
proof
  show "keeps (\<lambda>_. True) (zeros val) (e_permute (auth_engine cfg Q) as n)" for as n
  proof -
    have "keeps (\<lambda>_. True) (zeros val) (\<lambda>s. Inr (x, s\<lparr>ac_permutations := ac_permutations s + 1\<rparr>))" for x :: "'a list"
      by (simp add: keeps_def zeros_def)
    then show ?thesis
      unfolding auth_engine_simps a_permute_def by (intro keeps_intros keeps_a_stride)
  qed
  show "keeps (\<lambda>_. True) (zeros val) (e_field_witness (auth_engine cfg Q) x n)" for x n
    unfolding auth_engine_simps a_field_witness_def a_pack_def by (intro keeps_intros keeps_a_allocate keeps_a_zero)
  show "keeps (\<lambda>_. True) (zeros val) (e_mul (auth_engine cfg Q) a b)" for a b
    unfolding auth_engine_simps a_mul_def by (intro keeps_intros keeps_a_allocate keeps_a_zero)
qed (auto simp: a_bit_def a_pack_def keeps_a_allocate keeps_a_zero intro: keeps_intros)

subsection \<open>Allocation\<close>

lemma collect_allocate:
  assumes "native_inv p s"
  shows "\<exists>s'. collect (\<lambda>i. n_allocate (f i)) [m..<m + n] s = Inr (map f [m..<m + n], s') \<and> native_inv p s' \<and>
    nc_cursor s' = nc_cursor s + n \<and> nc_constraints s' = nc_constraints s \<and> nc_permutations s' = nc_permutations s \<and>
    (on_witness w s' \<longleftrightarrow> on_witness w s \<and> (\<forall>i<n. f (m + i) = w (nc_cursor s + i)))"
  using assms
proof (induction n arbitrary: m s)
  case 0
  then show ?case by (simp add: ret_def)
next
  case (Suc n)
  let ?s1 = "push_witness (f m) s"
  have inv: "native_inv p ?s1" by (rule push_witness_inv(1) [OF Suc.prems])
  obtain s' where s': "collect (\<lambda>i. n_allocate (f i)) [Suc m..<Suc m + n] ?s1 = Inr (map f [Suc m..<Suc m + n], s')" "native_inv p s'"
    "nc_cursor s' = nc_cursor s + Suc n" "nc_constraints s' = nc_constraints s" "nc_permutations s' = nc_permutations s"
    "on_witness w s' \<longleftrightarrow> on_witness w ?s1 \<and> (\<forall>i<n. f (Suc m + i) = w (nc_cursor s + 1 + i))"
    using Suc.IH [OF inv, of "Suc m"] by auto
  have upt: "[m..<m + Suc n] = m # [Suc m..<Suc m + n]" by (simp add: upt_conv_Cons)
  have "(\<forall>i<Suc n. f (m + i) = w (nc_cursor s + i)) \<longleftrightarrow> f m = w (nc_cursor s) \<and> (\<forall>i<n. f (Suc m + i) = w (nc_cursor s + 1 + i))"
    by (auto simp: less_Suc_eq_0_disj)
  then have "on_witness w s' \<longleftrightarrow> on_witness w s \<and> (\<forall>i<Suc n. f (m + i) = w (nc_cursor s + i))"
    using s'(6) on_witness_push [OF Suc.prems, of w "f m"] by blast
  moreover have "collect (\<lambda>i. n_allocate (f i)) [m..<m + Suc n] s = Inr (map f [m..<m + Suc n], s')"
    using s'(1) by (simp only: upt collect.simps seq_def n_allocate_eq sum.case prod.case list.map ret_def)
  ultimately show ?case using s' by auto
qed

lemma collect_a_allocate:
  "collect (\<lambda>i. a_allocate Q False) [m..<m + n] s =
     Inr (map (\<lambda>i. get_witness_bit Q (ac_cursor s + i)) [0..<n], s\<lparr>ac_cursor := ac_cursor s + n\<rparr>)"
proof (induction n arbitrary: m s)
  case (Suc n)
  have upt: "[m..<m + Suc n] = m # [Suc m..<Suc m + n]" by (simp add: upt_conv_Cons)
  have "map (\<lambda>i. get_witness_bit Q (ac_cursor s + i)) [0..<Suc n] =
      get_witness_bit Q (ac_cursor s) # map (\<lambda>i. get_witness_bit Q (ac_cursor s + 1 + i)) [0..<n]"
    by (subst upt_conv_Cons, simp, simp only: map_Suc_upt [symmetric] list.map map_map comp_def) simp
  then show ?case
    unfolding upt using Suc.IH [of "Suc m" "s\<lparr>ac_cursor := ac_cursor s + 1\<rparr>"]
    by (simp add: seq_def a_allocate_def ret_def)
qed (simp add: ret_def)

lemma collect_a_zero:
  "collect (\<lambda>i. a_zero (f i)) [m..<m + n] s =
     Inr (replicate n (), s\<lparr>ac_constraints := ac_constraints s + n, ac_emitted := ac_emitted s @ map f [m..<m + n]\<rparr>)"
proof (induction n arbitrary: m s)
  case (Suc n)
  have upt: "[m..<m + Suc n] = m # [Suc m..<Suc m + n]" by (simp add: upt_conv_Cons)
  show ?case
    unfolding upt using Suc.IH [of "Suc m" "s\<lparr>ac_constraints := ac_constraints s + 1, ac_emitted := ac_emitted s @ [f m]\<rparr>"]
    by (simp add: seq_def a_zero_def ret_def)
qed (simp add: ret_def)

end
