(* ===== verification/Vole_Auth_Keccak.thy ===== *)
theory Vole_Auth_Keccak
  imports Vole_Auth
begin

text \<open>
  The permutation in the authenticated context. The constraints of one stride vanish exactly
  when the fresh bits are the state that many rounds later, so the constraints of a whole
  permutation vanish exactly when the fresh bits are the snapshots the native context records.
\<close>

subsection \<open>Rounds on lanes\<close>

definition round_on :: "nat \<Rightarrow> bool lanes \<Rightarrow> bool lanes" where
  "round_on i s = to_lanes (keccak_round i (kbit s))"

lemma lanes_ok_round_on [simp]: "lanes_ok (round_on i s)"
  by (simp add: round_on_def)

lemma backward_iff:
  assumes "i < 24" "lanes_ok s" "lanes_ok t"
  shows "keccak_backward bit_ops i s = t \<longleftrightarrow> s = round_on i t"
  using keccak_round_backward [OF assms(1,2)] keccak_backward_round [OF assms(1), of "kbit t"] to_lanes_kbit [OF assms(3)]
  by (auto simp: round_on_def)

lemma round_on_to_lanes: "i < 24 \<Longrightarrow> round_on i (to_lanes A) = to_lanes (keccak_round i A)"
proof -
  assume i: "i < 24"
  show ?thesis
    using backward_iff [OF i, of "to_lanes (keccak_round i A)" "to_lanes A"] keccak_backward_round [OF i, of A] by simp
qed

lemma rounds_on:
  assumes "lanes_ok s"
  shows "n \<le> 24 \<Longrightarrow> fold round_on [0..<n] s = to_lanes (keccak_rounds n (kbit s))"
proof (induction n)
  case (Suc n)
  then show ?case using round_on_to_lanes [of n] by (simp add: keccak_rounds_def)
qed (simp add: keccak_rounds_def to_lanes_kbit assms)

lemma lanes_ok_rounds_on: "lanes_ok s \<Longrightarrow> lanes_ok (fold round_on is s)"
  by (induction "is" arbitrary: s) simp_all

lemma lanes_rel_ok: "lanes_rel 25 R s t \<Longrightarrow> lanes_ok t"
  by (auto simp: lanes_rel_def lane_rel_def lanes_ok_def in_set_conv_nth)

lemma lanes_rel_refl: "lanes_ok s \<Longrightarrow> lanes_rel 25 (=) s s"
  by (auto simp: lanes_rel_def lane_rel_def lanes_ok_def)

lemma forward_round_on:
  assumes "i < 24" "lanes_ok s" "lanes_ok out"
  shows "keccak_forward bit_ops i s out 1600 = round_on i s"
proof (rule lanes_eqI)
  have "ops_rel (=) bit_ops bit_ops" by (simp add: ops_rel_def)
  from lanes_rel_forward [OF this lanes_rel_refl [OF assms(2)] lanes_rel_refl [OF assms(3)]]
  show "lanes_ok (keccak_forward bit_ops i s out 1600)" by (rule lanes_rel_ok)
  fix x y z :: nat assume k: "x < 5" "y < 5" "z < 64"
  then have "(y * 5 + x) * 64 < 1600" by simp
  with k show "keccak_forward bit_ops i s out 1600 ! (y * 5 + x) ! z = round_on i s ! (y * 5 + x) ! z"
    using keccak_forward_round [OF assms(2,1), of x y z 1600 out] by (simp add: round_on_def nth_to_lanes)
qed simp

subsection \<open>Values that stand for bits\<close>

definition stands :: "('q \<Rightarrow> poly128) \<Rightarrow> 'q \<Rightarrow> bool \<Rightarrow> bool" where
  "stands val q b \<longleftrightarrow> val q = of_bool b"

lemma stands_ops: "auth_ok cfg L Q val w \<Longrightarrow> ops_rel (stands val) (qs_lane_ops Q) bit_ops"
proof -
  assume ok: "auth_ok cfg L Q val w"
  have "(of_bool x XOR of_bool y :: poly128) = of_bool (bxor x y)" for x y by (simp add: bxor_def)
  moreover have "poly_mul L (of_bool x) (of_bool y) = of_bool (x \<and> y)" for x y
    using auth_okD(3) [OF ok] by (auto simp: field_laws_def)
  ultimately show ?thesis by (simp add: ops_rel_def qs_lane_ops_def stands_def auth_okD(4,6,7) [OF ok])
qed

lemma stands_witness: "auth_ok cfg L Q val w \<Longrightarrow> stands val (get_witness_bit Q i) (w i)"
  by (simp add: stands_def auth_okD(5))

lemma stands_sum: "auth_ok cfg L Q val w \<Longrightarrow> stands val a x \<Longrightarrow> stands val b y \<Longrightarrow> val (qs_add Q a b) = 0 \<longleftrightarrow> x = y"
  by (auto simp: stands_def auth_okD(6))

lemma stands_fresh:
  "auth_ok cfg L Q val w \<Longrightarrow> lanes_rel 25 (stands val) (replicate 25 (replicate 64 (qs_constant Q False))) (replicate 25 (replicate 64 False))"
  by (simp add: lanes_rel_def lane_rel_def stands_def auth_okD(4))

lemma stands_blocks: "bits_rel R 1600 xs ys \<Longrightarrow> lanes_rel 25 R (blocks 64 25 xs) (blocks 64 25 ys)"
  by (auto simp: bits_rel_def lanes_rel_def lane_rel_def nth_blocks length_segment nth_segment)

lemma lanes_rel_concat:
  assumes "lanes_rel 25 R s t" "i < 1600"
  shows "R (concat s ! i) (concat t ! i)"
proof -
  have "length s = 25" "length t = 25" "\<forall>l\<in>set s. length l = 64" "\<forall>l\<in>set t. length l = 64"
    using assms(1) by (auto simp: lanes_rel_def lane_rel_def in_set_conv_nth)
  then have "concat s ! i = s ! (i div 64) ! (i mod 64)" "concat t ! i = t ! (i div 64) ! (i mod 64)"
    using assms(2) by (simp_all add: nth_concat_lanes [where n = 25])
  moreover have "lane_rel R (s ! (i div 64)) (t ! (i div 64))" using assms by (intro lanes_rel_nth) auto
  ultimately show ?thesis by (simp add: lane_rel_nth)
qed

definition fresh_bits :: "(nat \<Rightarrow> bool) \<Rightarrow> nat \<Rightarrow> nat \<Rightarrow> bool list" where
  "fresh_bits w c n = map (\<lambda>i. w (c + i)) [0..<n]"

lemma length_fresh_bits [simp]: "length (fresh_bits w c n) = n"
  by (simp add: fresh_bits_def)

definition fresh_values :: "'q qs_ops \<Rightarrow> nat \<Rightarrow> nat \<Rightarrow> 'q list" where
  "fresh_values Q c n = map (\<lambda>i. get_witness_bit Q (c + i)) [0..<n]"

lemma stands_fresh_values: "auth_ok cfg L Q val w \<Longrightarrow> bits_rel (stands val) n (fresh_values Q c n) (fresh_bits w c n)"
  by (simp add: bits_rel_def fresh_values_def fresh_bits_def stands_witness)

subsection \<open>A stride\<close>

text \<open>What the state of the authenticated context is after \<open>n\<close> allocations and the given
  constraints.\<close>

definition moved :: "nat \<Rightarrow> 'q list \<Rightarrow> 'q auth_context \<Rightarrow> 'q auth_context" where
  "moved n cs as = as\<lparr>ac_cursor := ac_cursor as + n, ac_constraints := ac_constraints as + length cs,
     ac_emitted := ac_emitted as @ cs\<rparr>"

lemma moved_simps [simp]:
  "ac_cursor (moved n cs as) = ac_cursor as + n" "ac_constraints (moved n cs as) = ac_constraints as + length cs"
  "ac_permutations (moved n cs as) = ac_permutations as" "ac_emitted (moved n cs as) = ac_emitted as @ cs"
  by (simp_all add: moved_def)

lemma moved_moved: "moved m ds (moved n cs as) = moved (n + m) (cs @ ds) as"
  by (simp add: moved_def)

lemma zeros_moved: "zeros val (moved n cs as) \<longleftrightarrow> zeros val as \<and> (\<forall>c\<in>set cs. val c = 0)"
  by (auto simp: zeros_def)

lemma collect_fresh: "collect (\<lambda>i. a_allocate Q False) [0..<n] as = Inr (fresh_values Q (ac_cursor as) n, moved n [] as)"
  using collect_a_allocate [of Q 0 n as] by (simp add: fresh_values_def moved_def)

lemma collect_zero: "collect (\<lambda>i. a_zero (f i)) [0..<n] as = Inr (replicate n (), moved 0 (map f [0..<n]) as)"
  using collect_a_zero [of f 0 n as] by (simp add: moved_def)

text \<open>\<open>checks val cs b\<close>: the constraints vanish exactly if \<open>b\<close>.\<close>

definition checks :: "('q \<Rightarrow> poly128) \<Rightarrow> 'q list \<Rightarrow> bool \<Rightarrow> bool" where
  "checks val cs b \<longleftrightarrow> (\<forall>c\<in>set cs. val c = 0) = b"

lemma checks_sums:
  assumes "auth_ok cfg L Q val w" "\<And>i. i < n \<Longrightarrow> stands val (f i) (x i)" "\<And>i. i < n \<Longrightarrow> stands val (g i) (y i)"
  shows "checks val (map (\<lambda>i. qs_add Q (f i) (g i)) [0..<n]) (\<forall>i<n. x i = y i)"
  using stands_sum [OF assms(1) assms(2,3)] by (auto simp: checks_def)

lemma concat_lanes_eq_iff:
  assumes "lanes_ok s" "lanes_ok t"
  shows "(\<forall>i<1600. concat s ! i = concat t ! i) \<longleftrightarrow> s = t"
proof
  assume *: "\<forall>i<1600. concat s ! i = concat t ! i"
  have "concat s = concat t"
    by (rule nth_equalityI, unfold length_concat_lanes [OF assms(1)] length_concat_lanes [OF assms(2)]) (rule refl, rule * [rule_format])
  then show "s = t" by (metis blocks_concat_lanes assms)
qed simp

lemma a_meet_run:
  assumes ok: "auth_ok cfg L Q val w" and fwd: "lanes_rel 25 (stands val) forward t" and lr: "3 \<le> lr" "lr < 24"
  shows "\<exists>cs. a_meet cfg Q forward lr as = Inr (fresh_values Q (ac_cursor as) 1600, moved 1600 cs as) \<and> length cs = 1600 \<and>
    checks val cs (blocks 64 25 (fresh_bits w (ac_cursor as) 1600) =
      fold round_on [lr - (if kProofDegree cfg = 16 then 1 else 2)..<Suc lr] t)"
proof -
  let ?K = "qs_lane_ops Q" and ?v = "fresh_values Q (ac_cursor as) 1600" and ?b = "fresh_bits w (ac_cursor as) 1600"
  let ?undo = "\<lambda>K s. let b9 = keccak_backward K (lr - 1) (keccak_backward K lr s)
      in if kProofDegree cfg = 16 then b9 else keccak_backward K (lr - 2) b9"
  let ?s = "blocks 64 25 ?b"
  note K = stands_ops [OF ok]
  have s: "lanes_rel 25 (stands val) (blocks 64 25 ?v) ?s" by (rule stands_blocks [OF stands_fresh_values [OF ok]])
  then have b: "lanes_rel 25 (stands val) (?undo ?K (blocks 64 25 ?v)) (?undo bit_ops ?s)"
    by (auto simp: Let_def intro!: lanes_rel_backward [OF K])
  let ?cs = "map (\<lambda>i. qs_add Q (concat forward ! i) (concat (?undo ?K (blocks 64 25 ?v)) ! i)) [0..<1600]"
  have t: "lanes_ok t" by (rule lanes_rel_ok [OF fwd])
  have okb: "lanes_ok (?undo bit_ops ?s)" by (rule lanes_rel_ok [OF b])
  have "checks val ?cs (\<forall>i<1600. concat t ! i = concat (?undo bit_ops ?s) ! i)"
    by (rule checks_sums [OF ok]) (intro lanes_rel_concat [OF fwd] lanes_rel_concat [OF b], assumption)+
  then have cs: "checks val ?cs (?undo bit_ops ?s = t)" by (simp only: concat_lanes_eq_iff [OF t okb] eq_commute)
  have sok: "lanes_ok ?s" by (rule lanes_ok_blocks) simp
  have lr3: "lr - 1 < 24" "lr - 2 < 24" using lr by simp_all
  have upt: "[lr - 1..<Suc lr] = [lr - 1, lr]" "[lr - 2..<Suc lr] = [lr - 2, lr - 1, lr]"
  proof -
    obtain k where "lr = Suc (Suc k)" using lr by (metis One_nat_def Suc_le_D numeral_3_eq_3 Suc_le_mono)
    then show "[lr - 1..<Suc lr] = [lr - 1, lr]" "[lr - 2..<Suc lr] = [lr - 2, lr - 1, lr]"
      by (simp_all add: upt_conv_Cons)
  qed
  have two: "keccak_backward bit_ops (lr - 1) (keccak_backward bit_ops lr x) = u \<longleftrightarrow> x = round_on lr (round_on (lr - 1) u)"
    if "lanes_ok x" "lanes_ok u" for x u
    unfolding backward_iff [OF lr3(1) keccak_backward_ok that(2)] by (rule backward_iff [OF lr(2) that(1) lanes_ok_round_on])
  have "?undo bit_ops ?s = t \<longleftrightarrow> ?s = fold round_on [lr - (if kProofDegree cfg = 16 then 1 else 2)..<Suc lr] t"
  proof (cases "kProofDegree cfg = 16")
    case True
    then show ?thesis unfolding Let_def if_P [OF True] upt two [OF sok t] by simp
  next
    case False
    show ?thesis
      unfolding Let_def if_not_P [OF False] upt backward_iff [OF lr3(2) keccak_backward_ok t] two [OF sok lanes_ok_round_on] by simp
  qed
  with cs have "checks val ?cs (?s = fold round_on [lr - (if kProofDegree cfg = 16 then 1 else 2)..<Suc lr] t)" by simp
  moreover have "a_meet cfg Q forward lr as = Inr (?v, moved 1600 ?cs as)"
    by (simp add: a_meet_def seq_def collect_fresh collect_zero ret_def Let_def moved_moved)
  ultimately show ?thesis by (intro exI [of _ ?cs]) simp
qed

lemma forward_stands:
  assumes ok: "auth_ok cfg L Q val w" and s: "lanes_rel 25 (stands val) s t" and i: "i < 24"
  shows "lanes_rel 25 (stands val) (keccak_forward (qs_lane_ops Q) i s (replicate 25 (replicate 64 (qs_constant Q False))) 1600) (round_on i t)"
proof -
  have "lanes_ok (replicate 25 (replicate 64 False))" by (simp add: lanes_ok_def)
  from forward_round_on [OF i lanes_rel_ok [OF s] this] show ?thesis
    using lanes_rel_forward [OF stands_ops [OF ok] s stands_fresh [OF ok], of i 1600] by simp
qed

lemma upt_add_more: "[i..<i + Suc n] = [i..<i + n] @ [i + n]"
  by simp

lemma a_stride_run:
  assumes ok: "auth_ok cfg L Q val w" and st: "bits_rel (stands val) 1600 st bs"
    and r: "rd + kKeccakStride cfg \<le> 24"
  shows "\<exists>cs. a_stride cfg Q keep rd st as = Inr (fresh_values Q (ac_cursor as) 1600, moved 1600 cs as) \<and> length cs = 1600 \<and>
    checks val cs (blocks 64 25 (fresh_bits w (ac_cursor as) 1600) =
      fold round_on [rd..<rd + kKeccakStride cfg] (blocks 64 25 bs))"
proof -
  let ?K = "qs_lane_ops Q" and ?fresh = "replicate 25 (replicate 64 (qs_constant Q False))"
  define f where "f i s = keccak_forward ?K i s ?fresh 1600" for i s
  define F where "F n = fold f [rd..<rd + n] (blocks 64 25 st)" for n
  define T where "T n = fold round_on [rd..<rd + n] (blocks 64 25 bs)" for n
  have F: "lanes_rel 25 (stands val) (F n) (T n)" if "rd + n \<le> 24" for n
    using that
  proof (induction n)
    case (Suc n)
    then show ?case using forward_stands [OF ok Suc.IH, of "rd + n"] by (simp add: F_def T_def f_def)
  qed (simp add: F_def T_def stands_blocks [OF st])
  have chain: "F 4 = f (rd + 3) (f (rd + 2) (f (rd + 1) (f rd (blocks 64 25 st))))"
    "F 5 = f (rd + 4) (F 4)" "F 6 = f (rd + 5) (F 5)"
    by (simp_all add: F_def upt_add_more [of _ 0] numeral_eq_Suc)
  have compose: "fold round_on [m..<rd + k] (T l) = T k" if "m = rd + l" "l \<le> k" for m k l
    using that upt_add_eq_append [of rd "rd + l" "k - l"] by (simp add: T_def)
  have meet: "\<exists>cs. a_meet cfg Q (F l) lr as = Inr (fresh_values Q (ac_cursor as) 1600, moved 1600 cs as) \<and> length cs = 1600 \<and>
      checks val cs (blocks 64 25 (fresh_bits w (ac_cursor as) 1600) = T k)"
    if "rd + k \<le> 24" "Suc lr = rd + k" "k = l + (if kProofDegree cfg = 16 then 2 else 3)" "4 \<le> l" for l lr k
  proof -
    have "fold round_on [lr - (if kProofDegree cfg = 16 then 1 else 2)..<Suc lr] (T l) = T k"
      unfolding that(2) by (rule compose) (use that in \<open>auto split: if_splits\<close>)
    moreover have "lanes_rel 25 (stands val) (F l) (T l)" by (rule F) (use that in \<open>auto split: if_splits\<close>)
    ultimately show ?thesis using a_meet_run [OF ok, of "F l" "T l" lr as] that by auto
  qed
  have "kProofDegree cfg = 16 \<or> kProofDegree cfg = 32 \<or> kProofDegree cfg = 64" using auth_okD(1) [OF ok] by (auto simp: cfg_ok_def)
  then consider "kProofDegree cfg = 16" "kKeccakStride cfg = 6" | "kProofDegree cfg = 32" "kKeccakStride cfg = 8"
    | "kProofDegree cfg = 64" "kKeccakStride cfg = 9" by (auto simp: kKeccakStride_def)
  then show ?thesis
  proof cases
    case 1
    have "a_stride cfg Q keep rd st = a_meet cfg Q (F 4) (rd + 5)"
      unfolding a_stride_def Let_def if_P [OF 1(1)] chain f_def ..
    from this show ?thesis
      by (simp only: 1(2) T_def [symmetric]) (rule meet, use r 1 in simp_all)
  next
    case 2
    then have no: "kProofDegree cfg \<noteq> 16" by simp
    have "a_stride cfg Q keep rd st = a_meet cfg Q (F 5) (rd + 7)"
      unfolding a_stride_def Let_def if_not_P [OF no] if_P [OF 2(1)] chain f_def ..
    from this show ?thesis
      by (simp only: 2(2) T_def [symmetric]) (rule meet, use r 2 in simp_all)
  next
    case 3
    then have no: "rd \<noteq> 18" "kProofDegree cfg \<noteq> 16" "kProofDegree cfg \<noteq> 32" using r by simp_all
    have "a_stride cfg Q keep rd st = a_meet cfg Q (F 6) (rd + 8)"
      unfolding a_stride_def Let_def if_not_P [OF no(1)] if_not_P [OF no(2)] if_not_P [OF no(3)] chain f_def ..
    from this show ?thesis
      by (simp only: 3(2) T_def [symmetric]) (rule meet, use r 3 in simp_all)
  qed
qed

text \<open>The last six rounds of degree 64, which commit to the output bits only.\<close>

lemma collect_fresh_zero:
  "collect (\<lambda>i. seq (a_allocate Q False) (\<lambda>b. seq (a_zero (qs_add Q (f i) b)) (\<lambda>_. ret b))) [m..<m + n] as =
     Inr (fresh_values Q (ac_cursor as) n, moved n (map (\<lambda>i. qs_add Q (f (m + i)) (fresh_values Q (ac_cursor as) n ! i)) [0..<n]) as)"
proof (induction n arbitrary: m as)
  case (Suc n)
  let ?v = "get_witness_bit Q (ac_cursor as)"
  have upt: "[m..<m + Suc n] = m # [Suc m..<Suc m + n]" by (simp add: upt_conv_Cons)
  have vals: "fresh_values Q c (Suc n) = get_witness_bit Q c # fresh_values Q (Suc c) n" for c
    by (simp add: fresh_values_def upt_conv_Cons map_Suc_upt [symmetric] comp_def del: upt_Suc)
  have cs: "map (\<lambda>i. qs_add Q (f (m + i)) ((v # vs) ! i)) [0..<Suc n] = qs_add Q (f m) v # map (\<lambda>i. qs_add Q (f (Suc m + i)) (vs ! i)) [0..<n]" for v vs
    by (simp add: upt_conv_Cons map_Suc_upt [symmetric] comp_def del: upt_Suc)
  have one: "seq (a_allocate Q False) (\<lambda>b. seq (a_zero (qs_add Q (f m) b)) (\<lambda>_. ret b)) as = Inr (?v, moved 1 [qs_add Q (f m) ?v] as)"
    by (simp add: seq_def a_allocate_def a_zero_def ret_def moved_def)
  show ?case
    unfolding upt collect.simps vals cs
    by (subst seq_def, subst one, unfold sum.case prod.case, subst seq_def, subst Suc.IH)
      (simp add: ret_def moved_moved)
qed (simp add: ret_def fresh_values_def moved_def)

end
