(* ===== verification/Vole_Auth_Permute.thy ===== *)
theory Vole_Auth_Permute
  imports Vole_Auth_Keccak
begin

text \<open>
  The whole permutation on both sides: the bits \<open>NativeContext\<close> records, and the values
  \<open>AuthContext\<close> allocates with their constraints.
\<close>

subsection \<open>The last stride of degree 64\<close>

lemma truncated_round:
  assumes ok: "auth_ok cfg L Q val w" and s: "lanes_rel 25 (stands val) s t" and i: "i < n" "n \<le> 1600" "rd < 24"
  shows "stands val (concat (keccak_forward (qs_lane_ops Q) rd s (replicate 25 (replicate 64 (qs_constant Q False))) n) ! i)
    (concat (round_on rd t) ! i)"
proof -
  let ?out = "replicate 25 (replicate 64 False)"
  have out: "lanes_ok ?out" by (simp add: lanes_ok_def)
  note rel = lanes_rel_forward [OF stands_ops [OF ok] s stands_fresh [OF ok], of rd n]
  note t = lanes_rel_ok [OF s] and fw = lanes_rel_ok [OF rel]
  have k: "i div 64 < 25" "i mod 64 < 64" using i by auto
  obtain y x where yx: "y < 5" "x < 5" "i div 64 = y * 5 + x" using lane_index [OF k(1)] by auto
  have "(y * 5 + x) * 64 \<le> i" using div_times_less_eq_dividend [of i 64] unfolding yx(3) [symmetric] by simp
  then have le: "(y * 5 + x) * 64 < n" using i by linarith
  have "concat (keccak_forward bit_ops rd t ?out n) ! i = keccak_forward bit_ops rd t ?out n ! (i div 64) ! (i mod 64)"
    by (rule nth_concat_lanes [where n = 25]) (use fw i in \<open>auto simp: lanes_ok_def\<close>)
  also have "\<dots> = round_on rd t ! (i div 64) ! (i mod 64)"
    unfolding yx(3) using keccak_forward_round [OF t i(3) yx(2,1) k(2) le, of ?out] yx(1,2) k(2) by (simp add: round_on_def nth_to_lanes)
  also have "\<dots> = concat (round_on rd t) ! i"
    by (rule nth_concat_lanes [where n = 25, symmetric]) (use lanes_ok_round_on [of rd t] i in \<open>auto simp: lanes_ok_def\<close>)
  finally show ?thesis using lanes_rel_concat [OF rel, of i] i by simp
qed

lemma a_last_run:
  assumes ok: "auth_ok cfg L Q val w" and st: "bits_rel (stands val) 1600 st bs" and deg: "kProofDegree cfg = 64" and keep: "keep \<le> 1600"
  shows "\<exists>cs. a_stride cfg Q keep 18 st as = Inr (fresh_values Q (ac_cursor as) keep, moved keep cs as) \<and> length cs = keep \<and>
    checks val cs (fresh_bits w (ac_cursor as) keep = take keep (concat (fold round_on [18..<24] (blocks 64 25 bs))))"
proof -
  let ?K = "qs_lane_ops Q" and ?fresh = "replicate 25 (replicate 64 (qs_constant Q False))"
  let ?f = "\<lambda>i s. keccak_forward ?K i s ?fresh 1600"
  define s where "s = ?f (18 + 4) (?f (18 + 3) (?f (18 + 2) (?f (18 + 1) (?f 18 (blocks 64 25 st)))))"
  define t where "t = round_on (18 + 4) (round_on (18 + 3) (round_on (18 + 2) (round_on (18 + 1) (round_on 18 (blocks 64 25 bs)))))"
  have st: "lanes_rel 25 (stands val) s t"
    unfolding s_def t_def by (intro forward_stands [OF ok] stands_blocks st) simp_all
  let ?f64 = "keccak_forward ?K (18 + 5) s ?fresh keep"
  let ?cs = "map (\<lambda>i. qs_add Q (concat ?f64 ! i) (fresh_values Q (ac_cursor as) keep ! i)) [0..<keep]"
  have no: "kProofDegree cfg \<noteq> 16" "kProofDegree cfg \<noteq> 32" "(18 :: nat) = 18" using deg by simp_all
  have "a_stride cfg Q keep 18 st = collect (\<lambda>i. seq (a_allocate Q False) (\<lambda>b. seq (a_zero (qs_add Q (concat ?f64 ! i) b)) (\<lambda>_. ret b))) [0..<keep]"
    unfolding a_stride_def Let_def if_not_P [OF no(1)] if_not_P [OF no(2)] if_P [OF no(3)] s_def ..
  then have "a_stride cfg Q keep 18 st as = Inr (fresh_values Q (ac_cursor as) keep, moved keep ?cs as)"
    using collect_fresh_zero [of Q "\<lambda>i. concat ?f64 ! i" 0 keep as] by simp
  moreover have "checks val ?cs (\<forall>i<keep. concat (round_on 23 t) ! i = fresh_bits w (ac_cursor as) keep ! i)"
  proof (rule checks_sums [OF ok])
    fix i assume i: "i < keep"
    show "stands val (concat ?f64 ! i) (concat (round_on 23 t) ! i)"
      using truncated_round [OF ok st i keep, of 23] by simp
    show "stands val (fresh_values Q (ac_cursor as) keep ! i) (fresh_bits w (ac_cursor as) keep ! i)"
      by (rule bits_rel_nth [OF stands_fresh_values [OF ok] i])
  qed
  moreover have "(\<forall>i<keep. concat (round_on 23 t) ! i = fresh_bits w (ac_cursor as) keep ! i) \<longleftrightarrow>
      fresh_bits w (ac_cursor as) keep = take keep (concat (round_on 23 t))"
    using keep length_concat_lanes [OF lanes_ok_round_on [of 23 t]] by (auto simp: list_eq_iff_nth_eq)
  moreover have "[18..<24] = [18, 18 + 1, 18 + 2, 18 + 3, 18 + 4, 23 :: nat]" by (simp add: upt_rec)
  then have "round_on 23 t = fold round_on [18..<24] (blocks 64 25 bs)" by (simp only: t_def fold_simps id_apply)
  ultimately show ?thesis by (intro exI [of _ ?cs]) simp
qed

subsection \<open>All strides\<close>

definition snapshot :: "vconfig \<Rightarrow> bool list \<Rightarrow> nat \<Rightarrow> bool list" where
  "snapshot cfg bs k = concat (to_lanes (keccak_rounds (k * kKeccakStride cfg) (kbit (blocks 64 25 bs))))"

lemma length_snapshot [simp]: "length (snapshot cfg bs k) = 1600"
  by (simp add: snapshot_def length_concat_lanes)

lemma snapshot_0: "length bs = 1600 \<Longrightarrow> snapshot cfg bs 0 = bs"
  by (simp add: snapshot_def keccak_rounds_def to_lanes_kbit lanes_ok_blocks concat_blocks)

lemma blocks_snapshot: "blocks 64 25 (snapshot cfg bs k) = to_lanes (keccak_rounds (k * kKeccakStride cfg) (kbit (blocks 64 25 bs)))"
  by (simp add: snapshot_def blocks_concat_lanes)

lemma blocks_eq_iff: "length xs = 1600 \<Longrightarrow> lanes_ok t \<Longrightarrow> blocks 64 25 xs = t \<longleftrightarrow> xs = concat t"
  using concat_blocks [of 25 64 xs] blocks_concat_lanes [of t] by auto

lemma rounds_on_from:
  assumes "m + n \<le> 24"
  shows "fold round_on [m..<m + n] (to_lanes (keccak_rounds m A)) = to_lanes (keccak_rounds (m + n) A)"
  using assms
proof (induction n)
  case (Suc n)
  then show ?case using round_on_to_lanes [of "m + n"] by (simp add: keccak_rounds_def)
qed simp

lemma snapshot_Suc:
  assumes "(k + 1) * kKeccakStride cfg \<le> 24"
  shows "fold round_on [k * kKeccakStride cfg..<k * kKeccakStride cfg + kKeccakStride cfg] (blocks 64 25 (snapshot cfg bs k)) =
    blocks 64 25 (snapshot cfg bs (Suc k))"
  using rounds_on_from [of "k * kKeccakStride cfg" "kKeccakStride cfg"] assms by (simp add: blocks_snapshot algebra_simps)

lemma snapshots_fit: "cfg_ok cfg \<Longrightarrow> kKeccakSnapshots cfg * kKeccakStride cfg \<le> 24"
  by (auto simp: cfg_ok_def kKeccakSnapshots_def kKeccakStride_def)

text \<open>The bits before stride \<open>n\<close>.\<close>

definition strides_bits :: "(nat \<Rightarrow> bool) \<Rightarrow> nat \<Rightarrow> bool list \<Rightarrow> nat \<Rightarrow> bool list" where
  "strides_bits w c bs n = (if n = 0 then bs else fresh_bits w (c + 1600 * (n - 1)) 1600)"

definition strides_values :: "'q qs_ops \<Rightarrow> nat \<Rightarrow> 'q list \<Rightarrow> nat \<Rightarrow> 'q list" where
  "strides_values Q c st n = (if n = 0 then st else fresh_values Q (c + 1600 * (n - 1)) 1600)"

lemma strides_rel:
  "auth_ok cfg L Q val w \<Longrightarrow> bits_rel (stands val) 1600 st bs \<Longrightarrow> bits_rel (stands val) 1600 (strides_values Q c st n) (strides_bits w c bs n)"
  by (simp add: strides_bits_def strides_values_def stands_fresh_values)

lemma strides_bits_snapshot:
  assumes "length bs = 1600" "\<forall>k<n. fresh_bits w (c + 1600 * k) 1600 = snapshot cfg bs (Suc k)"
  shows "strides_bits w c bs n = snapshot cfg bs n"
  using assms by (cases n) (simp_all add: strides_bits_def snapshot_0)

lemma checks_append: "checks val cs b \<Longrightarrow> (b \<Longrightarrow> checks val ds d) \<Longrightarrow> checks val (cs @ ds) (b \<and> d)"
  by (auto simp: checks_def)

lemma a_strides_run:
  assumes ok: "auth_ok cfg L Q val w" and st: "bits_rel (stands val) 1600 st bs"
    and n: "n * kKeccakStride cfg \<le> 24"
  shows "\<exists>cs. loop (a_stride cfg Q keep) (map (\<lambda>k. k * kKeccakStride cfg) [0..<n]) st as =
      Inr (strides_values Q (ac_cursor as) st n, moved (1600 * n) cs as) \<and> length cs = 1600 * n \<and>
    checks val cs (\<forall>k<n. fresh_bits w (ac_cursor as + 1600 * k) 1600 = snapshot cfg bs (Suc k))"
  using n
proof (induction n)
  case 0
  then show ?case by (intro exI [of _ "[]"]) (simp add: ret_def strides_values_def moved_def checks_def)
next
  case (Suc n)
  let ?c = "ac_cursor as" and ?S = "kKeccakStride cfg"
  have bs: "length bs = 1600" using st by (simp add: bits_rel_def)
  from Suc obtain cs where cs: "loop (a_stride cfg Q keep) (map (\<lambda>k. k * ?S) [0..<n]) st as =
      Inr (strides_values Q ?c st n, moved (1600 * n) cs as)" "length cs = 1600 * n"
    "checks val cs (\<forall>k<n. fresh_bits w (?c + 1600 * k) 1600 = snapshot cfg bs (Suc k))" by auto
  have fits: "n * ?S + ?S \<le> 24" using Suc.prems by simp
  obtain ds where ds: "a_stride cfg Q keep (n * ?S) (strides_values Q ?c st n) (moved (1600 * n) cs as) =
      Inr (fresh_values Q (?c + 1600 * n) 1600, moved 1600 ds (moved (1600 * n) cs as))" "length ds = 1600"
    "checks val ds (blocks 64 25 (fresh_bits w (?c + 1600 * n) 1600) = fold round_on [n * ?S..<n * ?S + ?S] (blocks 64 25 (strides_bits w ?c bs n)))"
    using a_stride_run [OF ok strides_rel [OF ok st] fits, of keep ?c n "moved (1600 * n) cs as"] by auto
  have "checks val ds (fresh_bits w (?c + 1600 * n) 1600 = snapshot cfg bs (Suc n))"
    if "\<forall>k<n. fresh_bits w (?c + 1600 * k) 1600 = snapshot cfg bs (Suc k)"
  proof -
    have "fold round_on [n * ?S..<n * ?S + ?S] (blocks 64 25 (strides_bits w ?c bs n)) = blocks 64 25 (snapshot cfg bs (Suc n))"
      unfolding strides_bits_snapshot [OF bs that] by (rule snapshot_Suc) (use fits in simp)
    moreover have "blocks 64 25 (fresh_bits w (?c + 1600 * n) 1600) = blocks 64 25 (snapshot cfg bs (Suc n)) \<longleftrightarrow>
        fresh_bits w (?c + 1600 * n) 1600 = snapshot cfg bs (Suc n)"
      by (subst blocks_eq_iff) (simp_all add: lanes_ok_blocks concat_blocks)
    ultimately show ?thesis using ds(3) by simp
  qed
  note * = checks_append [OF cs(3) this]
  have "checks val (cs @ ds) (\<forall>k<Suc n. fresh_bits w (?c + 1600 * k) 1600 = snapshot cfg bs (Suc k))"
    using * by (simp add: less_Suc_eq all_conj_distrib conj_commute imp_conjL [symmetric] cong: conj_cong)
  moreover have "loop (a_stride cfg Q keep) (map (\<lambda>k. k * ?S) [0..<Suc n]) st as =
      Inr (strides_values Q ?c st (Suc n), moved (1600 * Suc n) (cs @ ds) as)"
  proof -
    have "[0..<Suc n] = [0..<n] @ [n]" by simp
    then show ?thesis
      by (simp only: map_append loop_append seq_def cs(1) sum.case prod.case list.map loop.simps ds(1) ret_def moved_moved)
        (simp add: strides_values_def add.commute)
  qed
  ultimately show ?case using cs(2) ds(2) by (intro exI [of _ "cs @ ds"]) simp
qed

definition permute_size :: "vconfig \<Rightarrow> nat \<Rightarrow> nat" where
  "permute_size cfg keep = 1600 * kKeccakSnapshots cfg + (if kProofDegree cfg = 64 then keep else 0)"

text \<open>The bits a permutation has to find at the cursor.\<close>

definition permute_ok :: "vconfig \<Rightarrow> (nat \<Rightarrow> bool) \<Rightarrow> nat \<Rightarrow> bool list \<Rightarrow> nat \<Rightarrow> bool" where
  "permute_ok cfg w c bs keep \<longleftrightarrow>
     (\<forall>k<kKeccakSnapshots cfg. fresh_bits w (c + 1600 * k) 1600 = snapshot cfg bs (Suc k)) \<and>
     (kProofDegree cfg = 64 \<longrightarrow> fresh_bits w (c + 1600 * kKeccakSnapshots cfg) keep = take keep (keccak_f bs))"

definition permuted :: "vconfig \<Rightarrow> bool list \<Rightarrow> nat \<Rightarrow> bool list" where
  "permuted cfg bs keep = (if kProofDegree cfg = 64 then take keep (keccak_f bs) else keccak_f bs)"

lemma last_rounds:
  assumes "kProofDegree cfg = 64"
  shows "concat (fold round_on [18..<24] (blocks 64 25 (snapshot cfg bs 2))) = keccak_f bs"
  using rounds_on_from [of 18 6] assms by (simp add: blocks_snapshot keccak_f_def kKeccakStride_def)

lemma a_permute_run:
  assumes ok: "auth_ok cfg L Q val w" and st: "bits_rel (stands val) 1600 st bs" and keep: "keep \<le> 1600"
  shows "\<exists>cs vs. a_permute cfg Q st keep as = Inr (vs, moved (permute_size cfg keep) cs as\<lparr>ac_permutations := ac_permutations as + 1\<rparr>) \<and>
    length cs = permute_size cfg keep \<and> checks val cs (permute_ok cfg w (ac_cursor as) bs keep) \<and>
    (permute_ok cfg w (ac_cursor as) bs keep \<longrightarrow> bits_rel (stands val) (if kProofDegree cfg = 64 then keep else 1600) vs (permuted cfg bs keep))"
proof -
  let ?c = "ac_cursor as" and ?N = "kKeccakSnapshots cfg"
  have bs: "length bs = 1600" using st by (simp add: bits_rel_def)
  note cfg = auth_okD(1) [OF ok]
  obtain cs where cs: "loop (a_stride cfg Q keep) (map (\<lambda>k. k * kKeccakStride cfg) [0..<?N]) st as =
      Inr (strides_values Q ?c st ?N, moved (1600 * ?N) cs as)" "length cs = 1600 * ?N"
    "checks val cs (\<forall>k<?N. fresh_bits w (?c + 1600 * k) 1600 = snapshot cfg bs (Suc k))"
    using a_strides_run [OF ok st snapshots_fit [OF cfg], of keep as] by auto
  note rel = strides_rel [OF ok st, of ?c ?N] and same = strides_bits_snapshot [OF bs, of ?N w ?c cfg]
  show ?thesis
  proof (cases "kProofDegree cfg = 64")
    case False
    have "(24 + kKeccakStride cfg - 1) div kKeccakStride cfg = ?N"
      using False cfg by (auto simp: cfg_ok_def kKeccakStride_def kKeccakSnapshots_def)
    then have run: "a_permute cfg Q st keep as = Inr (strides_values Q ?c st ?N, moved (1600 * ?N) cs as\<lparr>ac_permutations := ac_permutations as + 1\<rparr>)"
      by (simp add: a_permute_def seq_def cs(1))
    have "snapshot cfg bs ?N = keccak_f bs" by (simp add: snapshot_def keccak_f_def snapshot_last [OF cfg False])
    then have "permute_ok cfg w ?c bs keep \<longrightarrow> bits_rel (stands val) 1600 (strides_values Q ?c st ?N) (permuted cfg bs keep)"
      using rel same False by (auto simp: permute_ok_def permuted_def)
    then show ?thesis using run cs(2,3) False by (auto simp: permute_size_def permute_ok_def)
  next
    case True
    then have deg: "kKeccakStride cfg = 9" "?N = 2" by (simp_all add: kKeccakStride_def kKeccakSnapshots_def)
    have split: "map (\<lambda>k. k * kKeccakStride cfg) [0..<(24 + kKeccakStride cfg - 1) div kKeccakStride cfg] =
        map (\<lambda>k. k * kKeccakStride cfg) [0..<?N] @ [18]"
      by (simp add: deg upt_rec)
    obtain ds where ds: "a_stride cfg Q keep 18 (strides_values Q ?c st ?N) (moved (1600 * ?N) cs as) =
        Inr (fresh_values Q (?c + 1600 * ?N) keep, moved keep ds (moved (1600 * ?N) cs as))" "length ds = keep"
      "checks val ds (fresh_bits w (?c + 1600 * ?N) keep = take keep (concat (fold round_on [18..<24] (blocks 64 25 (strides_bits w ?c bs ?N)))))"
      using a_last_run [OF ok rel True keep, of "moved (1600 * ?N) cs as"] by auto
    have "checks val ds (fresh_bits w (?c + 1600 * ?N) keep = take keep (keccak_f bs))"
      if "\<forall>k<?N. fresh_bits w (?c + 1600 * k) 1600 = snapshot cfg bs (Suc k)"
      using ds(3) unfolding same [OF that] unfolding deg(2) last_rounds [OF True] .
    from checks_append [OF cs(3) this] have "checks val (cs @ ds) (permute_ok cfg w ?c bs keep)"
      using True by (simp add: permute_ok_def)
    moreover have "a_permute cfg Q st keep as = Inr (fresh_values Q (?c + 1600 * ?N) keep,
        moved (permute_size cfg keep) (cs @ ds) as\<lparr>ac_permutations := ac_permutations as + 1\<rparr>)"
      unfolding a_permute_def split
      by (simp only: loop_append seq_def cs(1) ds(1) sum.case prod.case loop.simps ret_def moved_moved)
        (simp add: permute_size_def True moved_def)
    moreover have "permute_ok cfg w ?c bs keep \<longrightarrow> bits_rel (stands val) keep (fresh_values Q (?c + 1600 * ?N) keep) (permuted cfg bs keep)"
      using stands_fresh_values [OF ok, of keep "?c + 1600 * ?N"] True by (auto simp: permute_ok_def permuted_def)
    ultimately show ?thesis using cs(2) ds(2) True by (intro exI conjI) (auto simp: permute_size_def)
  qed
qed

subsection \<open>The native side\<close>

lemma allocate_bits:
  assumes "native_inv p s"
  shows "\<exists>s'. collect (\<lambda>i. n_allocate (f i)) [0..<n] s = Inr (map f [0..<n], s') \<and> native_inv p s' \<and>
    nc_cursor s' = nc_cursor s + n \<and> nc_constraints s' = nc_constraints s \<and> nc_permutations s' = nc_permutations s \<and>
    (on_witness w s' \<longleftrightarrow> on_witness w s \<and> fresh_bits w (nc_cursor s) n = map f [0..<n])"
  using collect_allocate [OF assms, of f 0 n w] by (fastforce simp: fresh_bits_def)

lemma allocate_snapshots:
  assumes "native_inv p s"
  shows "\<exists>s'. loop (\<lambda>j st. collect (\<lambda>i. n_allocate (f j i)) [0..<m]) [0..<n] st s =
      Inr (if n = 0 then st else map (f (n - 1)) [0..<m], s') \<and> native_inv p s' \<and>
    nc_cursor s' = nc_cursor s + m * n \<and> nc_constraints s' = nc_constraints s \<and> nc_permutations s' = nc_permutations s \<and>
    (on_witness w s' \<longleftrightarrow> on_witness w s \<and> (\<forall>k<n. fresh_bits w (nc_cursor s + m * k) m = map (f k) [0..<m]))"
proof (induction n)
  case 0
  then show ?case using assms by (simp add: ret_def)
next
  case (Suc n)
  then obtain s1 where s1: "loop (\<lambda>j st. collect (\<lambda>i. n_allocate (f j i)) [0..<m]) [0..<n] st s =
      Inr (if n = 0 then st else map (f (n - 1)) [0..<m], s1)" "native_inv p s1"
    "nc_cursor s1 = nc_cursor s + m * n" "nc_constraints s1 = nc_constraints s" "nc_permutations s1 = nc_permutations s"
    "on_witness w s1 \<longleftrightarrow> on_witness w s \<and> (\<forall>k<n. fresh_bits w (nc_cursor s + m * k) m = map (f k) [0..<m])" by blast
  from allocate_bits [OF s1(2), of "f n" m w] obtain s2 where
    s2: "collect (\<lambda>i. n_allocate (f n i)) [0..<m] s1 = Inr (map (f n) [0..<m], s2)" "native_inv p s2"
      "nc_cursor s2 = nc_cursor s1 + m" "nc_constraints s2 = nc_constraints s1" "nc_permutations s2 = nc_permutations s1"
      "on_witness w s2 \<longleftrightarrow> on_witness w s1 \<and> fresh_bits w (nc_cursor s1) m = map (f n) [0..<m]" by blast
  have "on_witness w s2 \<longleftrightarrow> on_witness w s \<and> (\<forall>k<Suc n. fresh_bits w (nc_cursor s + m * k) m = map (f k) [0..<m])"
    using s1(3,6) s2(6) by (auto simp: less_Suc_eq)
  moreover have "loop (\<lambda>j st. collect (\<lambda>i. n_allocate (f j i)) [0..<m]) [0..<Suc n] st s = Inr (map (f n) [0..<m], s2)"
    using s1(1) s2(1) by (simp add: loop_append seq_def ret_def)
  ultimately show ?case using s1 s2 by (intro exI [of _ s2]) simp
qed

lemma n_permute_run:
  assumes cfg: "cfg_ok cfg" and L: "trace_ok cfg L" and bs: "length bs = 1600" and keep: "keep \<le> 1600" and inv: "native_inv p s"
  shows "\<exists>s'. n_permute cfg L bs keep s = Inr (permuted cfg bs keep, s') \<and> native_inv p s' \<and>
    nc_cursor s' = nc_cursor s + permute_size cfg keep \<and> nc_constraints s' = nc_constraints s + permute_size cfg keep \<and>
    nc_permutations s' = nc_permutations s + 1 \<and> (on_witness w s' \<longleftrightarrow> on_witness w s \<and> permute_ok cfg w (nc_cursor s) bs keep)"
proof -
  let ?N = "kKeccakSnapshots cfg"
  define words where "words = fold (\<lambda>i w. w[i div 64 := w ! (i div 64) OR push_bit (i mod 64) (of_bool (bs ! i))])
      [0..<1600] (replicate 25 (0 :: u64))"
  obtain final trace where pt: "permute_trace L words = (final, trace)" by fastforce
  note bits = permute_bits [OF cfg L bs words_def pt]
  have snap: "map (\<lambda>i. bit (trace ! (k * 25 + i div 64)) (i mod 64)) [0..<1600] = snapshot cfg bs (Suc k)" if "k < ?N" for k
    using bits(1) [OF that] by (simp add: snapshot_def)
  obtain s1 where s1: "loop (\<lambda>j st. collect (\<lambda>i. n_allocate (bit (trace ! (j * 25 + i div 64)) (i mod 64))) [0..<1600]) [0..<?N] bs s =
      Inr (snapshot cfg bs ?N, s1)" "native_inv p s1"
    "nc_cursor s1 = nc_cursor s + 1600 * ?N" "nc_constraints s1 = nc_constraints s" "nc_permutations s1 = nc_permutations s"
    "on_witness w s1 \<longleftrightarrow> on_witness w s \<and> (\<forall>k<?N. fresh_bits w (nc_cursor s + 1600 * k) 1600 = snapshot cfg bs (Suc k))"
  proof -
    obtain k where "?N = Suc k" using snapshots_positive [OF cfg] gr0_conv_Suc by blast
    then have "(if ?N = 0 then bs else map (\<lambda>i. bit (trace ! ((?N - 1) * 25 + i div 64)) (i mod 64)) [0..<1600]) = snapshot cfg bs ?N"
      using snap [of k] by simp
    then show thesis
      using allocate_snapshots [OF inv, of "\<lambda>j i. bit (trace ! (j * 25 + i div 64)) (i mod 64)" 1600 ?N bs w] that snap by auto
  qed
  let ?tail = "if kProofDegree cfg = 64
      then seq (collect (\<lambda>i. n_allocate (bit (final ! (i div 64)) (i mod 64))) [0..<keep]) (\<lambda>state. seq (n_count keep) (\<lambda>_. ret state))
      else ret (snapshot cfg bs ?N)"
  let ?s2 = "s1\<lparr>nc_constraints := nc_constraints s1 + 1600 * ?N\<rparr>"
  have inv2: "native_inv p ?s2" using s1(2) by simp
  obtain s3 where s3: "?tail ?s2 = Inr (permuted cfg bs keep, s3)" "native_inv p s3"
    "nc_cursor s3 = nc_cursor s + permute_size cfg keep" "nc_constraints s3 = nc_constraints s + permute_size cfg keep"
    "nc_permutations s3 = nc_permutations s" "on_witness w s3 \<longleftrightarrow> on_witness w s \<and> permute_ok cfg w (nc_cursor s) bs keep"
  proof (cases "kProofDegree cfg = 64")
    case True
    from allocate_bits [OF inv2, of "\<lambda>i. bit (final ! (i div 64)) (i mod 64)" keep w] obtain t where
      t: "collect (\<lambda>i. n_allocate (bit (final ! (i div 64)) (i mod 64))) [0..<keep] ?s2 = Inr (take keep (keccak_f bs), t)" "native_inv p t"
        "nc_cursor t = nc_cursor s1 + keep" "nc_constraints t = nc_constraints s1 + 1600 * ?N" "nc_permutations t = nc_permutations s1"
        "on_witness w t \<longleftrightarrow> on_witness w s1 \<and> fresh_bits w (nc_cursor s1) keep = take keep (keccak_f bs)"
      unfolding bits(2) [OF keep] by auto
    show ?thesis
      by (rule that [of "t\<lparr>nc_constraints := nc_constraints t + keep\<rparr>"])
        (use t s1 True in \<open>auto simp: seq_def n_count_def ret_def permuted_def permute_size_def permute_ok_def\<close>)
  next
    case False
    have "snapshot cfg bs ?N = keccak_f bs" by (simp add: snapshot_def keccak_f_def snapshot_last [OF cfg False])
    then show ?thesis
      by (intro that [of ?s2]) (use s1 False in \<open>auto simp: ret_def permuted_def permute_size_def permute_ok_def\<close>)
  qed
  have "n_permute cfg L bs keep s = Inr (permuted cfg bs keep, s3\<lparr>nc_permutations := nc_permutations s3 + 1\<rparr>)"
    unfolding n_permute_def words_def [symmetric] Let_def pt prod.case
    by (subst seq_def, subst s1(1), unfold sum.case prod.case, subst seq_def, unfold n_count_def sum.case prod.case,
        subst seq_def, fold n_count_def, subst s3(1)) simp
  then show ?thesis
    by (intro exI [of _ "s3\<lparr>nc_permutations := nc_permutations s3 + 1\<rparr>"]) (use s3 in simp)
qed

end
