(* ===== verification/Vole_Auth_Exact.thy ===== *)
theory Vole_Auth_Exact
  imports Vole_Auth_Permute
begin

text \<open>
  \<open>AuthContext\<close> against \<open>NativeContext\<close>: both, stopped at their bad states, run the circuit in
  step. Hence the emitted constraints vanish exactly for the witness the native evaluation
  computes.
\<close>

subsection \<open>One operation\<close>

definition locked :: "vconfig \<Rightarrow> circuit_lib \<Rightarrow> 'q qs_ops \<Rightarrow> bytes \<Rightarrow> ('q \<Rightarrow> poly128) \<Rightarrow> (nat \<Rightarrow> bool) \<Rightarrow>
    'q auth_context \<Rightarrow> native_context \<Rightarrow> bool" where
  "locked cfg L Q p val w as ns \<longleftrightarrow> auth_ok cfg L Q val w \<and> (\<forall>i<kPrimaryBytes * 8. bit (p ! (i div 8)) (i mod 8) = w i) \<and> lock p val w as ns"

text \<open>The relations of bits and of field values, which say nothing without the hypothesis.\<close>

definition bit_rel :: "vconfig \<Rightarrow> circuit_lib \<Rightarrow> 'q qs_ops \<Rightarrow> ('q \<Rightarrow> poly128) \<Rightarrow> (nat \<Rightarrow> bool) \<Rightarrow> 'q \<Rightarrow> bool \<Rightarrow> bool" where
  "bit_rel cfg L Q val w q b \<longleftrightarrow> (auth_ok cfg L Q val w \<longrightarrow> stands val q b)"

definition field_rel :: "vconfig \<Rightarrow> circuit_lib \<Rightarrow> 'q qs_ops \<Rightarrow> ('q \<Rightarrow> poly128) \<Rightarrow> (nat \<Rightarrow> bool) \<Rightarrow> 'q \<Rightarrow> poly128 \<Rightarrow> bool" where
  "field_rel cfg L Q val w q x \<longleftrightarrow> (auth_ok cfg L Q val w \<longrightarrow> val q = x)"

lemma bits_rel_stands:
  assumes "bits_rel (bit_rel cfg L Q val w) n xs ys" "auth_ok cfg L Q val w"
  shows "bits_rel (stands val) n xs ys"
  using assms by (simp add: bits_rel_def bit_rel_def)

lemma stands_bits_rel: "bits_rel (stands val) n xs ys \<Longrightarrow> bits_rel (bit_rel cfg L Q val w) n xs ys"
  by (simp add: bits_rel_def bit_rel_def)

text \<open>Runs that both return: the good states correspond. Runs of which the native one throws:
  the authenticated one ends in a bad state.\<close>

lemma in_step_guards:
  assumes "\<And>as ns. locked cfg L Q p val w as ns \<Longrightarrow> \<exists>x as'. m as = Inr (x, as') \<and>
     ((\<exists>e. n ns = Inl e) \<and> \<not> zeros val as' \<or>
      (\<exists>y ns'. n ns = Inr (y, ns') \<and> (zeros val as' \<longleftrightarrow> on_witness w ns') \<and> (on_witness w ns' \<longrightarrow> R x y \<and> lock p val w as' ns')))"
  shows "in_step (locked cfg L Q p val w) R (guard (zeros val) m) (guard (on_witness w) n)"
proof (rule in_stepI)
  fix as ns assume *: "locked cfg L Q p val w as ns"
  from assms [OF *] obtain x as' where m: "m as = Inr (x, as')" and
    n: "(\<exists>e. n ns = Inl e) \<and> \<not> zeros val as' \<or>
      (\<exists>y ns'. n ns = Inr (y, ns') \<and> (zeros val as' \<longleftrightarrow> on_witness w ns') \<and> (on_witness w ns' \<longrightarrow> R x y \<and> lock p val w as' ns'))" by blast
  from * have l: "\<And>as' ns'. lock p val w as' ns' \<Longrightarrow> locked cfg L Q p val w as' ns'" by (simp add: locked_def)
  from n show "(\<exists>e e'. guard (zeros val) m as = Inl e \<and> guard (on_witness w) n ns = Inl e') \<or>
      (\<exists>x as' y ns'. guard (zeros val) m as = Inr (x, as') \<and> guard (on_witness w) n ns = Inr (y, ns') \<and> R x y \<and> locked cfg L Q p val w as' ns')"
  proof (elim disjE exE conjE)
    fix e assume "n ns = Inl e" "\<not> zeros val as'"
    then show ?thesis by (simp add: guard_def m)
  next
    fix y ns' assume "n ns = Inr (y, ns')" "zeros val as' \<longleftrightarrow> on_witness w ns'" "on_witness w ns' \<longrightarrow> R x y \<and> lock p val w as' ns'"
    then show ?thesis using l by (cases "on_witness w ns'") (auto simp: guard_def m)
  qed
qed

lemma lockedD:
  assumes "locked cfg L Q p val w as ns"
  shows "auth_ok cfg L Q val w" "ac_cursor as = nc_cursor ns" "ac_constraints as = nc_constraints ns" "ac_permutations as = nc_permutations ns"
    "zeros val as" "native_inv p ns" "on_witness w ns" "nc_check ns"
  using assms by (simp_all add: locked_def lock_def native_inv_def)

lemma zero_moved: "a_zero a as = Inr ((), moved 0 [a] as)"
  by (simp add: a_zero_def moved_def)

lemma allocate_moved: "a_allocate Q v as = Inr (get_witness_bit Q (ac_cursor as), moved 1 [] as)"
  by (simp add: a_allocate_def moved_def)

lemma n_zero_run:
  "nc_check s \<Longrightarrow> n_zero x s = (if x = 0 then Inr ((), s\<lparr>nc_constraints := nc_constraints s + 1\<rparr>) else Inl (Invalid_argument ''unsatisfied field constraint''))"
  "nc_check s \<Longrightarrow> n_zero_bit b s = (if b then Inl (Invalid_argument ''unsatisfied Boolean constraint'') else Inr ((), s\<lparr>nc_constraints := nc_constraints s + 1\<rparr>))"
  by (simp_all add: n_zero_def n_zero_bit_def seq_def n_count_def)

lemma in_step_zero:
  assumes "auth_ok cfg L Q val w \<Longrightarrow> val q = x"
  shows "in_step (locked cfg L Q p val w) (\<lambda>_ _. True) (guard (zeros val) (a_zero q)) (guard (on_witness w) (n_zero x))"
proof (rule in_step_guards)
  fix as ns assume l: "locked cfg L Q p val w as ns"
  note d = lockedD [OF l]
  show "\<exists>u as'. a_zero q as = Inr (u, as') \<and> ((\<exists>e. n_zero x ns = Inl e) \<and> \<not> zeros val as' \<or>
      (\<exists>y ns'. n_zero x ns = Inr (y, ns') \<and> (zeros val as' \<longleftrightarrow> on_witness w ns') \<and> (on_witness w ns' \<longrightarrow> True \<and> lock p val w as' ns')))"
    using d assms [OF d(1)] by (auto simp: zero_moved n_zero_run zeros_moved lock_def)
qed

lemma in_step_zero_bit:
  assumes "bit_rel cfg L Q val w q b"
  shows "in_step (locked cfg L Q p val w) (\<lambda>_ _. True) (guard (zeros val) (a_zero q)) (guard (on_witness w) (n_zero_bit b))"
proof (rule in_step_guards)
  fix as ns assume l: "locked cfg L Q p val w as ns"
  note d = lockedD [OF l]
  have "val q = of_bool b" using assms d(1) by (simp add: bit_rel_def stands_def)
  then show "\<exists>u as'. a_zero q as = Inr (u, as') \<and> ((\<exists>e. n_zero_bit b ns = Inl e) \<and> \<not> zeros val as' \<or>
      (\<exists>y ns'. n_zero_bit b ns = Inr (y, ns') \<and> (zeros val as' \<longleftrightarrow> on_witness w ns') \<and> (on_witness w ns' \<longrightarrow> True \<and> lock p val w as' ns')))"
    using d by (auto simp: zero_moved n_zero_run zeros_moved lock_def)
qed

lemma in_step_pad:
  "in_step (locked cfg L Q p val w) (\<lambda>_ _. True) (seq (guard (zeros val) (a_allocate Q False)) (\<lambda>b. guard (zeros val) (a_zero b)))
     (seq (guard (on_witness w) (n_allocate False)) (\<lambda>b. guard (on_witness w) (n_zero_bit b)))"
proof (rule in_stepI)
  fix as ns assume l: "locked cfg L Q p val w as ns"
  note d = lockedD [OF l]
  let ?m = "seq (guard (zeros val) (a_allocate Q False)) (\<lambda>b. guard (zeros val) (a_zero b))"
  let ?n = "seq (guard (on_witness w) (n_allocate False)) (\<lambda>b. guard (on_witness w) (n_zero_bit b))"
  have v: "val (get_witness_bit Q (nc_cursor ns)) = of_bool (w (nc_cursor ns))" by (rule auth_okD(5) [OF d(1)])
  have inv: "native_inv p (push_witness False ns)" "on_witness w (push_witness False ns) \<longleftrightarrow> \<not> w (nc_cursor ns)"
    using push_witness_inv(1) [OF d(6)] on_witness_push [OF d(6)] d(7) by auto
  have rel: "locked cfg L Q p val w (moved 1 [get_witness_bit Q (nc_cursor ns)] as)
      ((push_witness False ns)\<lparr>nc_constraints := nc_constraints ns + 1\<rparr>)" if "\<not> w (nc_cursor ns)"
    using l inv d that v by (auto simp: locked_def lock_def zeros_moved)
  show "(\<exists>e e'. ?m as = Inl e \<and> ?n ns = Inl e') \<or>
      (\<exists>x as' y ns'. ?m as = Inr (x, as') \<and> ?n ns = Inr (y, ns') \<and> True \<and> locked cfg L Q p val w as' ns')"
  proof (cases "w (nc_cursor ns)")
    case True
    then show ?thesis using d v inv
      by (simp add: seq_def guard_def allocate_moved zero_moved n_allocate_eq moved_moved zeros_moved)
  next
    case False
    then show ?thesis using d v inv rel [OF False]
      by (simp add: seq_def guard_def allocate_moved zero_moved n_allocate_eq n_zero_run moved_moved zeros_moved)
  qed
qed

lemma in_step_bit:
  assumes "i < kPrimaryBytes * 8"
  shows "in_step (locked cfg L Q p val w) (bit_rel cfg L Q val w) (guard (zeros val) (a_bit Q i)) (guard (on_witness w) (n_bit i))"
proof (rule in_step_guards)
  fix as ns assume l: "locked cfg L Q p val w as ns"
  note d = lockedD [OF l]
  have i: "i div 8 < kPrimaryBytes" using assms by (simp add: less_mult_imp_div_less)
  have "bit_rel cfg L Q val w (get_witness_bit Q i) (bit (p ! (i div 8)) (i mod 8))"
    using l assms stands_witness [OF d(1)] by (auto simp: locked_def bit_rel_def)
  then show "\<exists>x as'. a_bit Q i as = Inr (x, as') \<and> ((\<exists>e. n_bit i ns = Inl e) \<and> \<not> zeros val as' \<or>
      (\<exists>y ns'. n_bit i ns = Inr (y, ns') \<and> (zeros val as' \<longleftrightarrow> on_witness w ns') \<and>
        (on_witness w ns' \<longrightarrow> bit_rel cfg L Q val w x y \<and> lock p val w as' ns')))"
    using l d native_inv_nth [OF d(6) i] by (simp add: a_bit_def ret_def n_bit_def locked_def)
qed

lemma in_step_mul:
  assumes "bit_rel cfg L Q val w a x" "bit_rel cfg L Q val w b y"
  shows "in_step (locked cfg L Q p val w) (bit_rel cfg L Q val w) (guard (zeros val) (a_mul Q a b)) (guard (on_witness w) (n_mul x y))"
proof (rule in_step_guards)
  fix as ns assume l: "locked cfg L Q p val w as ns"
  note d = lockedD [OF l]
  let ?c = "nc_cursor ns" and ?s = "ns\<lparr>nc_constraints := nc_constraints ns + 1\<rparr>"
  let ?q = "qs_add Q (qs_mul Q a b) (get_witness_bit Q ?c)"
  have "val (qs_mul Q a b) = of_bool (x \<and> y)"
    using assms d(1) by (simp add: bit_rel_def stands_def auth_okD(7) [OF d(1)] field_lawsD [OF auth_okD(3) [OF d(1)]])
  then have v: "val ?q = 0 \<longleftrightarrow> (x \<and> y) = w ?c"
    by (auto simp: auth_okD(5,6) [OF d(1)])
  have inv: "native_inv p ?s" using d(6) by simp
  have "\<And>v. native_inv p (push_witness v ?s)" "on_witness w (push_witness (x \<and> y) ?s) \<longleftrightarrow> (x \<and> y) = w ?c"
    using push_witness_inv(1) [OF inv] on_witness_push [OF inv] d(7) by auto
  moreover have "bit_rel cfg L Q val w (get_witness_bit Q ?c) (w ?c)" by (auto simp: bit_rel_def intro: stands_witness)
  moreover have "a_mul Q a b as = Inr (get_witness_bit Q ?c, moved 1 [?q] as)"
    using d(2) by (simp add: a_mul_def seq_def allocate_moved zero_moved ret_def moved_moved)
  moreover have "n_mul x y ns = Inr (x \<and> y, push_witness (x \<and> y) ?s)"
    by (simp add: n_mul_def seq_def n_count_def n_allocate_eq)
  ultimately show "\<exists>x' as'. a_mul Q a b as = Inr (x', as') \<and> ((\<exists>e. n_mul x y ns = Inl e) \<and> \<not> zeros val as' \<or>
      (\<exists>y' ns'. n_mul x y ns = Inr (y', ns') \<and> (zeros val as' \<longleftrightarrow> on_witness w ns') \<and>
        (on_witness w ns' \<longrightarrow> bit_rel cfg L Q val w x' y' \<and> lock p val w as' ns')))"
    using d v by (simp add: zeros_moved lock_def)
qed

subsection \<open>Packing\<close>

lemma coefficient_word: "i < 128 \<Longrightarrow> (load_le ((replicate 16 (0 :: byte))[i div 8 := 2 ^ (i mod 8)]) :: poly128) = 2 ^ i"
proof -
  assume i: "i < 128"
  define b where "b = (replicate 16 (0 :: byte))[i div 8 := 2 ^ (i mod 8)]"
  have len: "length b = 16" by (simp add: b_def)
  have k: "i div 8 < 16" using i by simp
  have "bit (b ! (j div 8)) (j mod 8) \<longleftrightarrow> j = i" if j: "j < 128" for j
  proof (cases "i div 8 = j div 8")
    case True
    have "i mod 8 = j mod 8 \<longleftrightarrow> j = i" using True by (metis div_mult_mod_eq)
    moreover have "b ! (j div 8) = 2 ^ (i mod 8)" using k True by (simp add: b_def)
    ultimately show ?thesis by (auto simp: bit_simps)
  next
    case False
    have "j div 8 < 16" using j by simp
    then have "b ! (j div 8) = 0" using False by (simp add: b_def)
    then show ?thesis using False by auto
  qed
  then have "bit (load_le b :: poly128) j = bit (2 ^ i :: poly128) j" if "j < 128" for j
    using that len i by (auto simp: bit_load_le bit_exp_iff)
  then have "(load_le b :: poly128) = 2 ^ i" by (intro bit_word_eqI) simp
  then show ?thesis by (simp only: b_def)
qed

lemma pack_bits_take_Suc:
  assumes "n < length bs" "n < 128"
  shows "pack_bits (take (Suc n) bs) = pack_bits (take n bs) XOR (if bs ! n then 2 ^ n else 0)"
  by (rule bit_word_eqI) (use assms in \<open>auto simp: bit_pack_bits bit_xor_iff bit_exp_iff less_Suc_eq\<close>)

lemma val_a_pack:
  assumes ok: "auth_ok cfg L Q val w" and st: "bits_rel (stands val) n xs bs" and n: "n \<le> 128"
  shows "\<exists>q. a_pack Q xs = ret q \<and> val q = pack_bits bs"
proof -
  define f where "f i result = (let coefficient = (replicate 16 (0 :: byte))[i div 8 := push_bit (i mod 8) 1]
       in qs_add Q result (qs_scale Q (xs ! i) (load_le coefficient)))" for i result
  have len: "length xs = n" "length bs = n" using st by (simp_all add: bits_rel_def)
  have "val (fold f [0..<m] (qs_constant Q False)) = pack_bits (take m bs)" if "m \<le> n" for m
    using that
  proof (induction m)
    case (Suc m)
    have "val (xs ! m) = of_bool (bs ! m)" using st Suc.prems by (simp add: bits_rel_def stands_def)
    then have "val (f m q) = val q XOR (if bs ! m then 2 ^ m else 0)" for q
      using Suc.prems n by (simp add: f_def coefficient_word auth_okD(6,8) [OF ok] field_lawsD [OF auth_okD(3) [OF ok]])
    then show ?case using Suc n by (simp add: pack_bits_take_Suc len)
  qed (simp add: auth_okD(4) [OF ok] pack_bits_def)
  from this [of n] show ?thesis
    unfolding a_pack_def len f_def [abs_def, symmetric] by (intro exI [of _ "fold f [0..<n] (qs_constant Q False)"]) (simp add: len f_def [abs_def])
qed

lemma n_pack_run: "length bs \<le> 128 \<Longrightarrow> n_pack bs = ret (pack_bits bs)"
proof -
  assume n: "length bs \<le> 128"
  let ?b = "fold (\<lambda>i b. b[i div 8 := b ! (i div 8) OR push_bit (i mod 8) (of_bool (bs ! i))]) [0..<length bs] (replicate 16 (0 :: byte))"
  have "native_inv (replicate kPrimaryBytes 0) (native_context_new (replicate kPrimaryBytes 0) True)" by (rule native_inv_new) simp
  with means_pack [of "replicate kPrimaryBytes 0" bs] n have "(load_le ?b :: poly128) = pack_bits bs"
    by (auto simp: means_def n_pack_def Let_def ret_def)
  then show ?thesis using n by (simp add: n_pack_def Let_def)
qed

lemma in_step_pure:
  assumes "auth_ok cfg L Q val w \<Longrightarrow> \<exists>q. m = ret q \<and> R q x"
  shows "in_step (locked cfg L Q p val w) R (guard (zeros val) m) (guard (on_witness w) (ret x))"
proof (rule in_step_guards)
  fix as ns assume l: "locked cfg L Q p val w as ns"
  note d = lockedD [OF l]
  obtain q where "m = ret q" "R q x" using assms [OF d(1)] by blast
  then show "\<exists>x' as'. m as = Inr (x', as') \<and> ((\<exists>e. ret x ns = Inl e) \<and> \<not> zeros val as' \<or>
      (\<exists>y ns'. ret x ns = Inr (y, ns') \<and> (zeros val as' \<longleftrightarrow> on_witness w ns') \<and> (on_witness w ns' \<longrightarrow> R x' y \<and> lock p val w as' ns')))"
    using l d by (simp add: ret_def locked_def)
qed

lemma in_step_pack:
  assumes st: "bits_rel (bit_rel cfg L Q val w) n xs bs" and n: "n \<le> 128"
  shows "in_step (locked cfg L Q p val w) (field_rel cfg L Q val w) (guard (zeros val) (a_pack Q xs)) (guard (on_witness w) (n_pack bs))"
proof -
  have "length bs \<le> 128" using st n by (simp add: bits_rel_def)
  then show ?thesis
    unfolding n_pack_run [OF \<open>length bs \<le> 128\<close>]
    by (intro in_step_pure) (use val_a_pack [OF _ bits_rel_stands [OF st] n] in \<open>fastforce simp: field_rel_def\<close>)
qed

subsection \<open>Field witnesses\<close>

lemma in_step_field_witness:
  assumes q: "field_rel cfg L Q val w q x" and n: "n \<le> 128"
  shows "in_step (locked cfg L Q p val w) (bits_rel (bit_rel cfg L Q val w) n)
    (guard (zeros val) (a_field_witness Q q n)) (guard (on_witness w) (n_field_witness x n))"
proof (rule in_step_guards)
  fix as ns assume l: "locked cfg L Q p val w as ns"
  note d = lockedD [OF l]
  let ?c = "nc_cursor ns"
  note fresh = stands_fresh_values [OF d(1), of n ?c]
  obtain r where r: "a_pack Q (fresh_values Q ?c n) = ret r" "val r = pack_bits (fresh_bits w ?c n)"
    using val_a_pack [OF d(1) fresh n] by blast
  have auth: "a_field_witness Q q n as = Inr (fresh_values Q ?c n, moved n [qs_add Q q r] as)"
    using d(2) r(1) by (simp add: a_field_witness_def seq_def collect_fresh ret_def zero_moved moved_moved)
  have "val q = x" using q d(1) by (simp add: field_rel_def)
  then have v: "val (qs_add Q q r) = 0 \<longleftrightarrow> x = pack_bits (fresh_bits w ?c n)"
    by (simp add: auth_okD(6) [OF d(1)] r(2) word_xor_zero)
  obtain s1 where s1: "collect (\<lambda>i. n_allocate (bit (bytes_le 16 x ! (i div 8)) (i mod 8))) [0..<n] ns = Inr (low_bits x n, s1)"
    "native_inv p s1" "nc_cursor s1 = ?c + n" "nc_constraints s1 = nc_constraints ns" "nc_permutations s1 = nc_permutations ns"
    "on_witness w s1 \<longleftrightarrow> fresh_bits w ?c n = low_bits x n"
    using allocate_bits [OF d(6), of "\<lambda>i. bit (bytes_le 16 x ! (i div 8)) (i mod 8)" n w] d(7) unfolding low_bits_word [OF n] by auto
  have check: "nc_check s1" using s1(2) by (simp add: native_inv_def)
  have native: "n_field_witness x n ns = (if x = pack_bits (low_bits x n)
      then Inr (low_bits x n, s1\<lparr>nc_constraints := nc_constraints s1 + 1\<rparr>) else Inl (Invalid_argument ''unsatisfied field constraint''))"
    using n by (simp add: n_field_witness_def seq_def s1(1) n_pack_run ret_def n_zero_run(1) [OF check] word_xor_zero)
  have "x = pack_bits (fresh_bits w ?c n) \<longleftrightarrow> fresh_bits w ?c n = low_bits x n \<and> x = pack_bits (low_bits x n)"
    using low_bits_pack [of "fresh_bits w ?c n" n] n by auto
  moreover have "bits_rel (bit_rel cfg L Q val w) n (fresh_values Q ?c n) (fresh_bits w ?c n)" by (rule stands_bits_rel [OF fresh])
  ultimately show "\<exists>y as'. a_field_witness Q q n as = Inr (y, as') \<and> ((\<exists>e. n_field_witness x n ns = Inl e) \<and> \<not> zeros val as' \<or>
      (\<exists>z ns'. n_field_witness x n ns = Inr (z, ns') \<and> (zeros val as' \<longleftrightarrow> on_witness w ns') \<and>
        (on_witness w ns' \<longrightarrow> bits_rel (bit_rel cfg L Q val w) n y z \<and> lock p val w as' ns')))"
    unfolding auth native using d s1 v by (auto simp: zeros_moved lock_def)
qed

subsection \<open>Permutations\<close>

lemma in_step_permute:
  assumes st: "bits_rel (bit_rel cfg L Q val w) 1600 xs bs" and keep: "keep \<le> 1600"
  shows "in_step (locked cfg L Q p val w) (bits_rel (bit_rel cfg L Q val w) (if kProofDegree cfg = 64 then keep else 1600))
    (guard (zeros val) (a_permute cfg Q xs keep)) (guard (on_witness w) (n_permute cfg L bs keep))"
proof (rule in_step_guards)
  fix as ns assume l: "locked cfg L Q p val w as ns"
  note d = lockedD [OF l]
  let ?c = "nc_cursor ns" and ?n = "permute_size cfg keep"
  have bs: "length bs = 1600" using st by (simp add: bits_rel_def)
  obtain cs vs where a: "a_permute cfg Q xs keep as = Inr (vs, moved ?n cs as\<lparr>ac_permutations := ac_permutations as + 1\<rparr>)"
    "length cs = ?n" "checks val cs (permute_ok cfg w ?c bs keep)"
    "permute_ok cfg w ?c bs keep \<longrightarrow> bits_rel (stands val) (if kProofDegree cfg = 64 then keep else 1600) vs (permuted cfg bs keep)"
    using a_permute_run [OF d(1) bits_rel_stands [OF st d(1)] keep, of as] d(2) by auto
  obtain s' where s': "n_permute cfg L bs keep ns = Inr (permuted cfg bs keep, s')" "native_inv p s'" "nc_cursor s' = ?c + ?n"
    "nc_constraints s' = nc_constraints ns + ?n" "nc_permutations s' = nc_permutations ns + 1"
    "on_witness w s' \<longleftrightarrow> permute_ok cfg w ?c bs keep"
    using n_permute_run [OF auth_okD(1,2) [OF d(1)] bs keep d(6), of w] d(7) by auto
  have z: "zeros val (moved ?n cs as\<lparr>ac_permutations := c\<rparr>) \<longleftrightarrow> permute_ok cfg w ?c bs keep" for c
    using zeros_moved [of val ?n cs as] a(3) d(5) by (simp add: zeros_def checks_def)
  have lk: "lock p val w (moved ?n cs as\<lparr>ac_permutations := ac_permutations as + 1\<rparr>) s'" if "permute_ok cfg w ?c bs keep"
    using d s' a(2) z that by (simp add: lock_def)
  have br: "bits_rel (bit_rel cfg L Q val w) (if kProofDegree cfg = 64 then keep else 1600) vs (permuted cfg bs keep)"
    if "permute_ok cfg w ?c bs keep" using stands_bits_rel a(4) that by blast
  show "\<exists>y as'. a_permute cfg Q xs keep as = Inr (y, as') \<and> ((\<exists>e. n_permute cfg L bs keep ns = Inl e) \<and> \<not> zeros val as' \<or>
      (\<exists>z ns'. n_permute cfg L bs keep ns = Inr (z, ns') \<and> (zeros val as' \<longleftrightarrow> on_witness w ns') \<and>
        (on_witness w ns' \<longrightarrow> bits_rel (bit_rel cfg L Q val w) (if kProofDegree cfg = 64 then keep else 1600) y z \<and> lock p val w as' ns')))"
    by (rule exI, rule exI, rule conjI [OF a(1)], rule disjI2, rule exI, rule exI, rule conjI [OF s'(1)], unfold z s'(6))
      (simp only: simp_thms, intro impI conjI br lk)
qed

subsection \<open>The circuit\<close>

interpretation auth_native: related_engines "guard_engine (zeros val) (auth_engine cfg Q)" "guard_engine (on_witness w) (native_engine cfg L)"
    "locked cfg L Q p val w" "bit_rel cfg L Q val w" "field_rel cfg L Q val w" "\<lambda>k. if kProofDegree cfg = 64 then k else 1600"
  for cfg L Q p val w
proof
  show "in_step (locked cfg L Q p val w) (\<lambda>_ _. True)
      (seq (e_allocate (guard_engine (zeros val) (auth_engine cfg Q)) False) (e_zero_bit (guard_engine (zeros val) (auth_engine cfg Q))))
      (seq (e_allocate (guard_engine (on_witness w) (native_engine cfg L)) False) (e_zero_bit (guard_engine (on_witness w) (native_engine cfg L))))"
    using in_step_pad [of cfg L Q p val w] by (simp add: guard_engine_def)
  show "in_step (locked cfg L Q p val w) (bits_rel (bit_rel cfg L Q val w) (if kProofDegree cfg = 64 then keep else 1600))
      (e_permute (guard_engine (zeros val) (auth_engine cfg Q)) as keep) (e_permute (guard_engine (on_witness w) (native_engine cfg L)) xs keep)"
    if "bits_rel (bit_rel cfg L Q val w) 1600 as xs" "keep \<le> 1600" for as xs keep
    using in_step_permute [OF that] by (simp add: guard_engine_def)
qed (auto simp: guard_engine_runs lockedD bit_rel_def field_rel_def stands_def auth_okD field_lawsD
    intro: in_step_bit in_step_mul in_step_zero_bit in_step_zero in_step_pack in_step_field_witness)

lemma lock_new:
  assumes "length p = kPrimaryBytes" "\<forall>i<kPrimaryBytes * 8. bit (p ! (i div 8)) (i mod 8) = w i"
  shows "lock p val w auth_context_new (native_context_new p True)"
proof -
  have "native_inv p (native_context_new p True)" by (rule native_inv_new [OF assms(1)])
  moreover have "on_witness w (native_context_new p True)"
    using assms by (auto simp: on_witness_def witness_bit_def native_context_new_def)
  ultimately show ?thesis by (simp add: lock_def zeros_def auth_context_new_def native_context_new_def)
qed

theorem auth_statement:
  assumes ok: "auth_ok cfg L Q val w" and stm: "statement_wf stm" and p: "length p = kPrimaryBytes"
    and w: "\<forall>i<kPrimaryBytes * 8. bit (p ! (i div 8)) (i mod 8) = w i"
  shows "(\<exists>as. c_statement cfg (auth_engine cfg Q) stm auth_context_new = Inr ((), as) \<and> zeros val as) \<longleftrightarrow>
    (\<exists>ns. c_statement cfg (native_engine cfg L) stm (native_context_new p True) = Inr ((), ns) \<and> on_witness w ns)"
proof -
  let ?as = "auth_context_new" and ?ns = "native_context_new p True"
  let ?m = "c_statement cfg (guard_engine (zeros val) (auth_engine cfg Q)) stm"
  let ?n = "c_statement cfg (guard_engine (on_witness w) (native_engine cfg L)) stm"
  have l: "locked cfg L Q p val w ?as ?ns" using ok w lock_new [OF p w] by (simp add: locked_def)
  note d = lockedD [OF l]
  have step: "in_step (locked cfg L Q p val w) (\<lambda>_ _. True) ?m ?n"
    by (rule auth_native.rel_statement) (use stm in \<open>simp_all add: statement_wf_def\<close>)
  have "(\<exists>as. ?m ?as = Inr ((), as)) \<longleftrightarrow> (\<exists>ns. ?n ?ns = Inr ((), ns))"
    by (rule in_stepD [OF step l]) auto
  moreover have "checked (\<lambda>_. True) (zeros val) (c_statement cfg (auth_engine cfg Q) stm) ?m" by (rule auth_guard.checked_statement)
  then have "?m ?as = Inr ((), as) \<longleftrightarrow> c_statement cfg (auth_engine cfg Q) stm ?as = Inr ((), as) \<and> zeros val as" for as
    using d(5) by (simp add: checked_def)
  moreover have "checked (native_inv p) (on_witness w) (c_statement cfg (native_engine cfg L) stm) ?n" by (rule native_guard.checked_statement)
  then have "?n ?ns = Inr ((), ns) \<longleftrightarrow> c_statement cfg (native_engine cfg L) stm ?ns = Inr ((), ns) \<and> on_witness w ns" for ns
    using d(6,7) by (simp add: checked_def)
  ultimately show ?thesis by simp
qed

end
