(* ===== verification/Vole_Properties.thy ===== *)
theory Vole_Properties
  imports Sample_Vole Vole_Auth_Exact
begin

text \<open>
  The properties of the second implementation, \<^verbatim>\<open>src/voleith/src\<close>: its XMSS signatures, the
  Keccak templates, the hash circuit and the statement circuit.
\<close>

text \<open>A signature that a key pair of the VOLEitH native library issues verifies under the
  root of the key pair, for every height, split and state of the cached subtree and every
  message, over any hash with outputs of the requested length.\<close>

theorem vole_issued_verifies:
  assumes "vole_ok V" "length pk_seed = 16" "v_kp_reachable V sk_seed pk_seed height kp"
    and "v_xmss_keypair_sign V kp leaf message c = Some (kp', Some sig, c')"
  shows "v_xmss_verify V pk_seed (kp_root kp) message sig"
  by (rule v_issued_verifies [OF assms])

lemma vole_issued_verifies_witness:
  "\<exists>kp kp' sig c'. v_xmss_keypair_sign sample_vole kp 3 [1, 2] 0 = Some (kp', Some sig, c') \<and>
     v_xmss_verify sample_vole (replicate 16 7) (kp_root kp) [1, 2] sig"
proof -
  let ?pk = "replicate 16 7 :: bytes" and ?sk = "replicate 32 9 :: bytes"
  obtain kp where kp: "xmss_keypair_new_split sample_platform ?sk ?pk 2 1 = Some kp" "kp_reachable sample_platform ?sk ?pk 2 kp"
    by (rule sample_reachable)
  have new: "v_xmss_keypair_new_split sample_vole ?sk ?pk 2 1 = Some kp"
    using kp(1) v_keypair_new_view(1) [OF sample_vole_ok, of ?pk ?sk] by (simp add: sample_vole_view)
  note wf = reachable_wf [OF kp(2)]
  have pk: "length (kp_pk_seed kp) = 16" using wf by simp
  from wf have w: "kp_wf sample_platform kp" and l: "unat (3 :: u32) < 2 ^ kp_height kp" by simp_all
  obtain kp' sig c' where s: "xmss_keypair_sign sample_platform kp 3 [1, 2] 0 = Some (kp', Some sig, c')"
    using sign_spec [OF w l, of "[1, 2]" 0] sample_grind [OF pk] wf by auto
  then have vs: "v_xmss_keypair_sign sample_vole kp 3 [1, 2] 0 = Some (kp', Some sig, c')"
    using v_keypair_sign_view [OF sample_vole_ok pk] by (simp add: sample_vole_view)
  have "v_xmss_verify sample_vole ?pk (kp_root kp) [1, 2] sig"
    by (rule vole_issued_verifies [OF sample_vole_ok _ v_new [OF new] vs]) simp
  with vs show ?thesis by blast
qed

text \<open>C37. The Keccak templates on plain bits are FIPS 202: the forward template computes a round
  on every lane below the requested output length, the backward template undoes a round, and a
  round undoes it.\<close>

theorem keccak_templates_fips202:
  assumes "ir < 24" "lanes_ok st"
  shows "(\<forall>x y z n. x < 5 \<and> y < 5 \<and> z < 64 \<and> (y * 5 + x) * 64 < n \<longrightarrow>
      keccak_forward bit_ops ir st out n ! (y * 5 + x) ! z = keccak_round ir (kbit st) x y z) \<and>
    keccak_backward bit_ops ir (to_lanes (keccak_round ir (kbit st))) = st \<and>
    to_lanes (keccak_round ir (kbit (keccak_backward bit_ops ir st))) = st"
  using keccak_forward_round [OF assms(2,1)] keccak_backward_round [OF assms(1), of "kbit st"]
    keccak_round_backward [OF assms] to_lanes_kbit [OF assms(2)] by auto

lemma keccak_templates_fips202_witness:
  "keccak_backward bit_ops 5 (to_lanes (keccak_round 5 (kbit (to_lanes (\<lambda>x y z. x = z))))) = to_lanes (\<lambda>x y z. x = z)"
  using keccak_templates_fips202 [of 5 "to_lanes (\<lambda>x y z. x = z)"] by simp

text \<open>C38. The hash circuit in the native context computes SHAKE256 of FIPS 202 on every message of
  whole bytes: the padding, the absorption of every block, the permutation from its recorded
  snapshots and the shortened last output, at each of the three proof degrees.\<close>

theorem circuit_shake_fips202:
  assumes "cfg_ok cfg" "trace_ok cfg L" "length p = kPrimaryBytes" "length M mod 8 = 0" "out \<le> 136"
  shows "\<exists>s. c_shake (native_engine cfg L) M out (native_context_new p True) = Inr (shake256_bits M (8 * out), s)"
  using means_shake [OF assms(1,2,4,5)] native_inv_new [OF assms(3)] by (auto simp: means_def)

lemma circuit_shake_fips202_witness:
  "\<exists>s. c_shake (native_engine sample_cfg (sample_lib sample_cfg)) (replicate 8 True) 32 (native_context_new (replicate kPrimaryBytes 0) True)
     = Inr (shake256_bits (replicate 8 True) 256, s)"
  using circuit_shake_fips202 [OF sample_cfg_ok sample_libs(2), of "replicate kPrimaryBytes 0" "replicate 8 True" 32] by simp

text \<open>C9. The statement circuit in the native context, with validation on, returns exactly when
  the primary witness holds randomness and a matrix that open a commitment to the message, a
  valid XMSS signature on its digest under the public key, the schedule of the chain steps the
  digest asks for, and the end of every chain. Otherwise it throws.\<close>

theorem native_statement_exact:
  assumes "cfg_ok cfg" "poly_ok L" "trace_ok cfg L" "vole_ok V" "shake_ok V" "vole_malloc_ok V 56"
    and "length p = kPrimaryBytes" "statement_wf stm"
  shows "(\<exists>s. c_statement cfg (native_engine cfg L) stm (native_context_new p True) = Inr ((), s)) \<longleftrightarrow> primary_ok V stm p"
  using means_statement [OF assms] native_inv_new [OF assms(7)] by (auto simp: means_def split: if_splits)

lemma native_statement_exact_witness:
  "(\<exists>s. c_statement sample_cfg (native_engine sample_cfg (sample_lib sample_cfg)) sample_statement
      (native_context_new (replicate kPrimaryBytes 0) True) = Inr ((), s))
    \<longleftrightarrow> primary_ok fips_vole sample_statement (replicate kPrimaryBytes 0)"
  by (rule native_statement_exact [OF sample_cfg_ok sample_libs fips_vole_ok _ sample_statement_wf]) simp

text \<open>C10. The authenticated circuit is exact: whatever the authenticated witness, the
  constraints \<open>AuthContext\<close> emits all vanish exactly when its primary part is what the statement
  asks for and every other bit is the one \<open>NativeContext\<close> computes. So the verifier's constraints
  leave a prover no freedom beyond the primary witness, at each proof degree.\<close>

theorem auth_statement_exact:
  assumes "auth_ok cfg L Q val w" "poly_ok L" "vole_ok V" "shake_ok V" "vole_malloc_ok V 56"
    and "length p = kPrimaryBytes" "statement_wf stm" "\<forall>i<kPrimaryBytes * 8. bit (p ! (i div 8)) (i mod 8) = w i"
  shows "(\<exists>s. c_statement cfg (auth_engine cfg Q) stm auth_context_new = Inr ((), s) \<and> (\<forall>c\<in>set (ac_emitted s). val c = 0)) \<longleftrightarrow>
    primary_ok V stm p \<and>
    (\<exists>s. c_statement cfg (native_engine cfg L) stm (native_context_new p True) = Inr ((), s) \<and> (\<forall>i<nc_cursor s. witness_bit s i = w i))"
  using auth_statement [OF assms(1,7,6,8)] means_statement [OF auth_okD(1) [OF assms(1)] assms(2) auth_okD(2) [OF assms(1)] assms(3-7)]
    native_inv_new [OF assms(6)]
  by (auto simp: zeros_def on_witness_def means_def split: if_splits)

lemma auth_statement_exact_witness:
  "(\<exists>s. c_statement sample_cfg (auth_engine sample_cfg sample_qs) sample_statement auth_context_new = Inr ((), s) \<and>
      (\<forall>c\<in>set (ac_emitted s). id c = 0)) \<longleftrightarrow>
    primary_ok fips_vole sample_statement (replicate kPrimaryBytes 0) \<and>
    (\<exists>s. c_statement sample_cfg (native_engine sample_cfg (sample_lib sample_cfg)) sample_statement
      (native_context_new (replicate kPrimaryBytes 0) True) = Inr ((), s) \<and> (\<forall>i<nc_cursor s. witness_bit s i = False))"
proof -
  have zero: "bit (replicate kPrimaryBytes (0 :: byte) ! (i div 8)) (i mod 8) = False" if "i < kPrimaryBytes * 8" for i
    using that by (simp add: less_mult_imp_div_less)
  have "auth_ok sample_cfg (sample_lib sample_cfg) sample_qs id (\<lambda>i. False)"
    by (simp add: auth_ok_def sample_cfg_ok sample_libs poly_ok_laws qs_ok_def sample_qs_def)
  then show ?thesis
    by (rule auth_statement_exact [OF _ sample_libs(1) fips_vole_ok _ sample_statement_wf]) (simp_all add: zero)
qed

end
