(* ===== verification/Vole_Cost.thy ===== *)
theory Vole_Cost
  imports Vole_Circuit
begin

text \<open>
  What a run of the circuit adds to the counters of an engine. A permutation allocates and
  constrains a fixed number of bits per snapshot, and at degree 64 its output bits too, so a
  cost has four parts: witness bits, constraints, permutations and output bits of
  permutations. The contract of an engine is the locale \<open>counted_engine\<close>; inside it every
  gadget and every part of the statement gets its exact cost.
\<close>

record 's meter =
  m_cursor :: "'s \<Rightarrow> nat"
  m_constraints :: "'s \<Rightarrow> nat"
  m_permutations :: "'s \<Rightarrow> nat"
  m_bulk :: nat
  m_final :: nat
  m_returns :: bool

text \<open>\<open>costs M m c k q f P\<close>: if the run returns, it has added these amounts and \<open>P\<close> holds of
  its result; on an engine whose operations never throw, it returns.\<close>

definition spent :: "'s meter \<Rightarrow> nat \<Rightarrow> nat \<Rightarrow> nat \<Rightarrow> nat \<Rightarrow> 's \<Rightarrow> 's \<Rightarrow> bool" where
  "spent M c k q f s s' \<longleftrightarrow>
     m_cursor M s' = m_cursor M s + c + m_bulk M * q + m_final M * f \<and>
     m_constraints M s' = m_constraints M s + k + m_bulk M * q + m_final M * f \<and>
     m_permutations M s' = m_permutations M s + q"

definition costs :: "'s meter \<Rightarrow> ('s, 'a) run \<Rightarrow> nat \<Rightarrow> nat \<Rightarrow> nat \<Rightarrow> nat \<Rightarrow> ('a \<Rightarrow> bool) \<Rightarrow> bool" where
  "costs M m c k q f P \<longleftrightarrow> (\<forall>s. case m s of Inl e \<Rightarrow> \<not> m_returns M | Inr (x, s') \<Rightarrow> spent M c k q f s s' \<and> P x)"

lemma costsD: "costs M m c k q f P \<Longrightarrow> m s = Inr (x, s') \<Longrightarrow> spent M c k q f s s' \<and> P x"
  unfolding costs_def by (metis (mono_tags, lifting) prod.case sum.case(2))

lemma costs_returns: "costs M m c k q f P \<Longrightarrow> m_returns M \<Longrightarrow> \<exists>x s'. m s = Inr (x, s')"
  by (cases "m s") (auto simp: costs_def dest: spec [of _ s])

lemma spent_add:
  "spent M c k q f s t \<Longrightarrow> spent M c' k' q' f' t u \<Longrightarrow> spent M (c + c') (k + k') (q + q') (f + f') s u"
  by (simp add: spent_def algebra_simps)

lemma costs_ret: "P x \<Longrightarrow> costs M (ret x) 0 0 0 0 P"
  by (simp add: costs_def ret_def spent_def)

lemma costs_throw: "\<not> m_returns M \<Longrightarrow> costs M (throw e) c k q f P"
  by (simp add: costs_def throw_def)

lemma costs_seq:
  assumes "costs M m c k q f P" "\<And>x. P x \<Longrightarrow> costs M (g x) c' k' q' f' R"
  shows "costs M (seq m g) (c + c') (k + k') (q + q') (f + f') R"
  unfolding costs_def
proof
  fix s
  show "case seq m g s of Inl e \<Rightarrow> \<not> m_returns M | Inr (y, s') \<Rightarrow> spent M (c + c') (k + k') (q + q') (f + f') s s' \<and> R y"
  proof (cases "m s")
    case (Inl e)
    then show ?thesis using assms(1) by (auto simp: costs_def seq_def dest: spec [of _ s])
  next
    case (Inr r)
    then obtain x s1 where m: "m s = Inr (x, s1)" by (cases r) simp
    have 1: "spent M c k q f s s1" "P x" using costsD [OF assms(1) m] by simp_all
    have "case g x s1 of Inl e \<Rightarrow> \<not> m_returns M | Inr (y, s') \<Rightarrow> spent M c' k' q' f' s1 s' \<and> R y"
      using assms(2) [OF 1(2)] by (simp add: costs_def)
    then show ?thesis using spent_add [OF 1(1)] by (auto simp: seq_def m split: sum.splits)
  qed
qed

lemma costs_cong:
  "costs M m c k q f P \<Longrightarrow> c = c' \<Longrightarrow> k = k' \<Longrightarrow> q = q' \<Longrightarrow> f = f' \<Longrightarrow> (\<And>x. P x \<Longrightarrow> R x) \<Longrightarrow> costs M m c' k' q' f' R"
  by (fastforce simp: costs_def split: sum.splits)

lemma costs_loop:
  assumes "\<And>x a. x \<in> set xs \<Longrightarrow> J a \<Longrightarrow> costs M (g x a) c k q f J" "J a"
  shows "costs M (loop g xs a) (length xs * c) (length xs * k) (length xs * q) (length xs * f) J"
  using assms
proof (induction xs arbitrary: a)
  case (Cons x xs)
  have "costs M (seq (g x a) (loop g xs)) (c + length xs * c) (k + length xs * k) (q + length xs * q) (f + length xs * f) J"
    by (rule costs_seq, rule Cons.prems) (use Cons in auto)
  then show ?case by simp
qed (simp add: costs_ret)

lemma costs_loop_upto:
  assumes "\<And>i a. i < n \<Longrightarrow> A i a \<Longrightarrow> costs M (g i a) c k q f (A (Suc i))" "A 0 a"
  shows "costs M (loop g [0..<n] a) (n * c) (n * k) (n * q) (n * f) (A n)"
proof -
  have "costs M (loop g [m..<m + l] a) (l * c) (l * k) (l * q) (l * f) (A (m + l))" if "m + l \<le> n" "A m a" for m l a
    using that
  proof (induction l arbitrary: m a)
    case (Suc l)
    have "[m..<m + Suc l] = m # [Suc m..<Suc m + l]" by (simp add: upt_conv_Cons)
    moreover have "costs M (seq (g m a) (loop g [Suc m..<Suc m + l])) (c + l * c) (k + l * k) (q + l * q) (f + l * f) (A (m + Suc l))"
      by (rule costs_seq [OF assms(1) [OF _ Suc.prems(2)]]) (use Suc.prems Suc.IH [of "Suc m"] in auto)
    ultimately show ?case by simp
  qed (simp add: costs_ret)
  from this [of 0 n] show ?thesis using assms(2) by simp
qed

lemma costs_collect:
  assumes "\<And>x. costs M (g x) c k q f (\<lambda>_. True)"
  shows "costs M (collect g xs) (length xs * c) (length xs * k) (length xs * q) (length xs * f) (\<lambda>ys. length ys = length xs)"
proof (induction xs)
  case (Cons x xs)
  have "costs M (seq (g x) (\<lambda>y. seq (collect g xs) (\<lambda>ys. ret (y # ys)))) (c + (length xs * c + 0)) (k + (length xs * k + 0))
      (q + (length xs * q + 0)) (f + (length xs * f + 0)) (\<lambda>ys. length ys = length (x # xs))"
    by (rule costs_seq [OF assms], rule costs_seq [OF Cons.IH], rule costs_ret) simp
  then show ?case by simp
qed (simp add: costs_ret)

subsection \<open>The contract\<close>

locale counted_engine =
  fixes E :: "('b, 'f, 's) engine" and M :: "'s meter" and kept :: "nat \<Rightarrow> nat"
  assumes cost_bit: "costs M (e_bit E i) 0 0 0 0 (\<lambda>_. True)"
    and cost_allocate: "costs M (e_allocate E v) 1 0 0 0 (\<lambda>_. True)"
    and cost_mul: "costs M (e_mul E a b) 1 1 0 0 (\<lambda>_. True)"
    and cost_zero_bit: "costs M (e_zero_bit E a) 0 1 0 0 (\<lambda>_. True)"
    and cost_zero: "costs M (e_zero E x) 0 1 0 0 (\<lambda>_. True)"
    and cost_pack: "costs M (e_pack E as) 0 0 0 0 (\<lambda>_. True)"
    and cost_field_witness: "costs M (e_field_witness E x n) n 1 0 0 (\<lambda>ys. length ys = n)"
    and cost_permute: "length as = 1600 \<Longrightarrow> costs M (e_permute E as n) 0 0 1 n (\<lambda>ys. length ys = kept n)"
    and cost_kept: "kept 1600 = 1600" "n \<le> 1600 \<Longrightarrow> n \<le> kept n"
    and cost_cursor: "e_cursor E = m_cursor M"
begin

lemma length_number [simp]: "length (c_number E v n) = n"
  by (simp add: c_number_def)

lemma length_constant [simp]: "length (c_constant E bs) = 8 * length bs"
  by (induction bs) (simp_all add: c_constant_def)

lemma cost_input: "costs M (c_input E off n) 0 0 0 0 (\<lambda>ys. length ys = 8 * n)"
  unfolding c_input_def by (rule costs_cong [OF costs_collect [OF cost_bit]]) simp_all

lemma cost_equal:
  assumes "length as = Suc n"
  shows "costs M (c_equal E as bs) n n 0 0 (\<lambda>_. True)"
proof -
  have "as \<noteq> []" using assms by auto
  then show ?thesis
    unfolding c_equal_def if_not_P [OF \<open>as \<noteq> []\<close>]
    by (intro costs_cong [OF costs_loop [where J = "\<lambda>_. True" and c = 1 and k = 1 and q = 0 and f = 0]] cost_mul) (simp_all add: assms)
qed

lemma cost_flags_level:
  assumes "length flags = n" "2 * n = count \<or> 2 * n = Suc count" "count = (42 + 2 ^ j - 1) div 2 ^ j"
  shows "costs M (c_flags_level E idx j flags) n n 0 0 (\<lambda>ys. length ys = count)"
proof -
  let ?A = "\<lambda>i (acc :: 'b list). length acc = min (2 * i) count"
  have "costs M (c_flags_level E idx j flags) (n * 1) (n * 1) (n * 0) (n * 0) (?A n)"
    unfolding c_flags_level_def Let_def assms(3) [symmetric] assms(1)
  proof (rule costs_loop_upto)
    fix i and acc :: "'b list" assume i: "i < n" and acc: "?A i acc"
    show "costs M (seq (e_mul E (flags ! i) (idx ! j)) (\<lambda>one. ret (if 2 * i + 1 < count
        then (acc @ [e_add E (flags ! i) one]) @ [one] else acc @ [e_add E (flags ! i) one]))) 1 1 0 0 (?A (Suc i))"
      by (rule costs_cong [OF costs_seq [OF cost_mul costs_ret [where P = "?A (Suc i)"]]]) (use i acc assms(2) in auto)
  qed simp
  then show ?thesis by (rule costs_cong) (use assms(2) in auto)
qed

lemma cost_chain_flags: "costs M (c_chain_flags E idx) 43 45 0 0 (\<lambda>ys. length ys = 42)"
proof -
  have loop: "costs M (loop (c_flags_level E idx) [4, 3, 2, 1, 0] as) 43 43 0 0 (\<lambda>ys. length ys = 42)" if "length as = 2" for as
    unfolding loop.simps
    apply (rule costs_cong)
    apply (rule costs_seq [OF cost_flags_level [where n = 2 and count = 3, OF that]], simp, simp)
    apply (rule costs_seq [OF cost_flags_level [where n = 3 and count = 6]], assumption, simp, simp)
    apply (rule costs_seq [OF cost_flags_level [where n = 6 and count = 11]], assumption, simp, simp)
    apply (rule costs_seq [OF cost_flags_level [where n = 11 and count = 21]], assumption, simp, simp)
    apply (rule costs_seq [OF cost_flags_level [where n = 21 and count = 42]], assumption, simp, simp)
    apply (rule costs_ret, assumption, simp_all)
    done
  show ?thesis
    unfolding c_chain_flags_def
    by (rule costs_cong [OF costs_seq [OF cost_zero_bit costs_seq [OF cost_zero_bit loop]]]) simp_all
qed

lemma cost_less: "length as = n \<Longrightarrow> costs M (c_less cfg E as bs) (2 * n) (2 * n) 0 0 (\<lambda>_. True)"
proof -
  assume n: "length as = n"
  have "costs M (if left_first cfg then seq (e_mul E a b) (\<lambda>x. seq (e_mul E c d) (\<lambda>y. ret (e_add E x y)))
      else seq (e_mul E c d) (\<lambda>y. seq (e_mul E a b) (\<lambda>x. ret (e_add E x y)))) 2 2 0 0 (\<lambda>_. True)" for a b c d
  proof -
    have "costs M (seq (e_mul E a b) (\<lambda>x. seq (e_mul E c d) (\<lambda>y. ret (g x y)))) 2 2 0 0 (\<lambda>_. True)" for a b c d and g :: "'b \<Rightarrow> 'b \<Rightarrow> 'b"
      by (rule costs_cong [OF costs_seq [OF cost_mul costs_seq [OF cost_mul costs_ret]]]) simp_all
    from this [of a b c d "e_add E"] this [of c d a b "\<lambda>y x. e_add E x y"] show ?thesis by simp
  qed
  then show ?thesis
    unfolding c_less_def Let_def n
    by (intro costs_cong [OF costs_loop [where J = "\<lambda>_. True" and c = 2 and k = 2 and q = 0 and f = 0]]) simp_all
qed

lemma cost_add:
  assumes "length as = n"
  shows "costs M (c_add E as bs no) n (n + of_bool no) 0 0 (\<lambda>ys. length ys = n)"
proof -
  let ?A = "\<lambda>i (out :: 'b list, carry :: 'b). length out = i"
  have loop: "costs M (loop (\<lambda>i (out, carry). let sum = e_add E (e_add E (as ! i) (bs ! i)) carry
        in seq (e_mul E (e_add E (as ! i) carry) (e_add E (bs ! i) carry)) (\<lambda>p. ret (out @ [sum], e_add E p carry)))
      [0..<n] ([], e_constant E False)) (n * 1) (n * 1) (n * 0) (n * 0) (?A n)"
  proof (rule costs_loop_upto)
    fix i and a :: "'b list \<times> 'b" assume a: "?A i a"
    obtain out carry where e: "a = (out, carry)" by (cases a)
    show "costs M (case a of (out, carry) \<Rightarrow> let sum = e_add E (e_add E (as ! i) (bs ! i)) carry
        in seq (e_mul E (e_add E (as ! i) carry) (e_add E (bs ! i) carry)) (\<lambda>p. ret (out @ [sum], e_add E p carry))) 1 1 0 0 (?A (Suc i))"
      unfolding e prod.case Let_def
      by (rule costs_cong [OF costs_seq [OF cost_mul costs_ret [where P = "?A (Suc i)"]]]) (use a e in auto)
  qed simp
  have fin: "costs M (case a of (out, carry) \<Rightarrow> if no then seq (e_zero_bit E carry) (\<lambda>_. ret out) else ret out) 0 (of_bool no) 0 0 (\<lambda>ys. length ys = n)"
    if "?A n a" for a :: "'b list \<times> 'b"
  proof -
    obtain out carry where e: "a = (out, carry)" by (cases a)
    have "costs M (seq (e_zero_bit E carry) (\<lambda>_. ret out)) (0 + 0) (1 + 0) (0 + 0) (0 + 0) (\<lambda>ys. length ys = n)"
      by (rule costs_seq [OF cost_zero_bit costs_ret]) (use that e in simp)
    then show ?thesis using that e by (auto intro: costs_ret)
  qed
  show ?thesis
    unfolding c_add_def assms by (rule costs_cong [OF costs_seq [OF loop fin]]) simp_all
qed

lemma cost_select: "length as = n \<Longrightarrow> costs M (c_select E a as bs) n n 0 0 (\<lambda>ys. length ys = n)"
  unfolding c_select_def
  by (rule costs_cong [OF costs_collect [OF costs_seq [OF cost_mul costs_ret]]]) simp_all

lemma cost_equal_field: "costs M (c_equal_field E as bs) 0 1 0 0 (\<lambda>_. True)"
  unfolding c_equal_field_def
  by (rule costs_cong [OF costs_seq [OF cost_pack costs_seq [OF cost_pack cost_zero]]]) simp_all

lemma cost_pack_product: "costs M (c_pack_product E as bs) 0 0 0 0 (\<lambda>_. True)"
  unfolding c_pack_product_def
  by (rule costs_cong [OF costs_seq [OF cost_pack costs_seq [OF cost_pack costs_ret]]]) simp_all

subsection \<open>Hashes\<close>

lemma padded_length:
  fixes n :: nat
  assumes "n mod 8 = 0"
  shows "(n + 8 + (1088 - (n + 8) mod 1088) mod 1088) = ((n + 8 + 1087) div 1088) * 1088"
proof -
  define a b where "a = (n + 8) div 1088" and "b = (n + 8) mod 1088"
  have ab: "n + 8 = a * 1088 + b" "b < 1088" by (simp_all add: a_def b_def)
  show ?thesis
  proof (cases "b = 0")
    case True
    have "(a * 1088 + 1087) div 1088 = a" by (simp add: div_nat_eqI)
    then show ?thesis using ab True by simp
  next
    case False
    have "(a * 1088 + b + 1087) div 1088 = a + 1" using False ab(2) by (intro div_nat_eqI) simp_all
    then show ?thesis using ab False by simp
  qed
qed

lemma cost_shake:
  assumes out: "out \<le> 136" and len: "length as = n" "n mod 8 = 0" and blk: "Suc blk = (n + 1095) div 1088"
  shows "costs M (c_shake E as out) 0 0 (Suc blk) (blk * 1600 + out * 8) (\<lambda>ys. length ys = out * 8)"
proof -
  let ?p = "(as @ c_number E 0x1f 8) @ replicate ((1088 - length (as @ c_number E 0x1f 8) mod 1088) mod 1088) (e_constant E False)"
  define q where "q = butlast ?p @ [e_add E (last ?p) (e_constant E True)]"
  have "length ?p = Suc blk * 1088" using padded_length [OF len(2)] by (simp add: len blk add.commute)
  then have q: "length q = Suc blk * 1088" unfolding q_def by (simp only: length_append length_butlast) simp
  let ?perm = "\<lambda>k state. let off = k * 1088; state = map (\<lambda>i. if i < 1088 then e_add E (state ! i) (q ! (off + i)) else state ! i) [0..<1600]
      in e_permute E state (if off + 1088 = length q then out * 8 else 1600)"
  have step: "costs M (?perm k s) 0 0 1 (if k = blk then out * 8 else 1600) (\<lambda>ys. length ys = kept (if k = blk then out * 8 else 1600))"
    for k s
  proof -
    have "k * 1088 + 1088 = length q \<longleftrightarrow> k = blk" unfolding q by auto
    then show ?thesis unfolding Let_def by (simp only:) (rule cost_permute, simp)
  qed
  have first: "costs M (loop ?perm [0..<blk] (c_number E 0 1600)) (blk * 0) (blk * 0) (blk * 1) (blk * 1600) (\<lambda>ys. length ys = 1600)"
    by (rule costs_loop_upto [where A = "\<lambda>_ ys. length ys = 1600"], rule costs_cong [OF step]) (simp_all add: cost_kept(1))
  have "costs M (seq (loop ?perm [0..<Suc blk] (c_number E 0 1600)) (\<lambda>state. ret (take (out * 8) state))) 0 0 (Suc blk) (blk * 1600 + out * 8)
      (\<lambda>ys. length ys = out * 8)"
  proof -
    have "costs M (?perm blk s) 0 0 1 (out * 8) (\<lambda>ys. length ys = kept (out * 8))" for s using step [of blk s] by simp
    then have "costs M (seq (?perm blk s) (\<lambda>state. ret (take (out * 8) state))) (0 + 0) (0 + 0) (1 + 0) (out * 8 + 0) (\<lambda>ys. length ys = out * 8)" for s
      by (rule costs_seq) (rule costs_ret, use cost_kept(2) [of "out * 8"] out in simp)
    note last = this
    have split: "seq (loop g [0..<Suc blk] a) h = seq (loop g [0..<blk] a) (\<lambda>s. seq (g blk s) h)" for g h and a :: "'b list"
    proof -
      have l: "loop g (xs @ [y]) a = seq (loop g xs a) (g y)" for xs y and a :: "'b list"
        by (induction xs arbitrary: a) (auto simp: seq_def ret_def fun_eq_iff split: sum.splits)
      show ?thesis by (simp add: l) (auto simp: seq_def fun_eq_iff split: sum.splits)
    qed
    show ?thesis unfolding split by (rule costs_cong [OF costs_seq [OF first last]]) simp_all
  qed
  moreover have "c_shake E as out = seq (loop ?perm [0..<Suc blk] (c_number E 0 1600)) (\<lambda>state. ret (take (out * 8) state))"
  proof -
    have "\<not> (length as mod 8 \<noteq> 0 \<or> out > 136)" using assms by simp
    moreover have "length q div 1088 = Suc blk" unfolding q by simp
    ultimately show ?thesis unfolding c_shake_def Let_def q_def by (simp only: if_False)
  qed
  ultimately show ?thesis by simp
qed

text \<open>\<open>n\<close> is the number of bytes hashed, the frame included.\<close>

lemma cost_hash:
  assumes "out \<le> 136" "length domain + length data = 8 * m" "n = m + 12" "Suc blk = (n + 136) div 136"
  shows "costs M (c_hash E domain data out) 0 0 (Suc blk) (blk * 1600 + out * 8) (\<lambda>ys. length ys = out * 8)"
proof -
  have "(8 * n + 1095) div 1088 = (n + 136) div 136"
  proof -
    have "(8 * n + 1095) div 8 = n + 136" by simp
    moreover have "(8 * n + 1095) div 1088 = (8 * n + 1095) div 8 div 136" by (simp add: div_mult2_eq [symmetric])
    ultimately show ?thesis by simp
  qed
  then show ?thesis
    unfolding c_hash_def Let_def
    by (intro cost_shake [where n = "8 * n"]) (use assms in \<open>simp_all add: SHAKE_APP_PREFIX_def ascii_def\<close>)
qed

end

end
