(* ===== verification/Vole_Dimensions.thy ===== *)
theory Vole_Dimensions
  imports Vole_Cost Vole_Auth_Exact
begin

text \<open>
  The dimensions of the statement circuit: every run that returns leaves the counters where
  \<^verbatim>\<open>proof.hpp\<close> says (\<open>kWitnessBits\<close>, \<open>kConstraints\<close>, \<open>kPermutations\<close>), for both contexts and each
  proof degree, so that \<open>evaluate\<close> never finds circuit and VOLE parameters to disagree.
\<close>

subsection \<open>The statement\<close>

definition statement_body :: "vconfig \<Rightarrow> ('b, 'f, 's) engine \<Rightarrow> vstatement \<Rightarrow> ('s, unit) run" where
  "statement_body cfg E stm =
     (let seed = c_constant E (vs_pk_seed stm)
      in seq (c_input E 0 96) (\<lambda>r. seq (c_input E 96 192) (\<lambda>a. seq (s_commitment E r a (c_constant E (vs_message stm))) (\<lambda>d.
         seq (c_input E kSigOffset 4) (\<lambda>epoch. seq (c_input E (kSigOffset + 4) 24) (\<lambda>nonce.
         seq (s_message_hash E seed (s_epoch_be epoch) nonce d) (\<lambda>digest. seq (s_chains E digest) (\<lambda>(coords, tips, ends).
         seq (s_steps cfg E seed (s_epoch_be epoch) coords tips ends) (\<lambda>_. s_root E seed epoch (s_epoch_be epoch) ends (vs_root stm))))))))))"

lemma statement_split: "c_statement cfg E stm = seq (statement_body cfg E stm) (\<lambda>_. s_padding E)"
  unfolding c_statement_def statement_body_def Let_def by (auto simp: seq_def fun_eq_iff split: sum.split prod.split)

context counted_engine begin

lemma cost_line: "costs M (s_line E r a m l) 128 1 0 0 (\<lambda>ys. length ys = 128)"
proof -
  have loop: "costs M (loop (\<lambda>i sum. seq (c_pack_product E (slice a (l * 768 + i * 128) 128) (slice r (i * 128) 128))
      (\<lambda>p. ret (e_fadd E sum p))) [1..<6] s) (length [1..<6] * 0) (length [1..<6] * 0) (length [1..<6] * 0) (length [1..<6] * 0) (\<lambda>_. True)" for s
    by (rule costs_loop, rule costs_cong [OF costs_seq [OF cost_pack_product costs_ret]]) simp_all
  show ?thesis
    unfolding s_line_def
    by (rule costs_cong [OF costs_seq [OF cost_pack_product costs_seq [OF loop costs_seq [OF cost_pack cost_field_witness]]]]) simp_all
qed

lemma cost_commitment:
  assumes "length r = 768" "length a = 1536"
  shows "costs M (s_commitment E r a m) 256 2 3 2112 (\<lambda>ys. length ys = 256)"
proof -
  have loop: "costs M (loop (\<lambda>line b. seq (s_line E r a m line) (\<lambda>w. ret (b @ w))) [0..<2] []) (2 * 128) (2 * 1) (2 * 0) (2 * 0)
      (\<lambda>b. length b = 256)"
    by (rule costs_cong [OF costs_loop_upto [where A = "\<lambda>i b. length b = i * 128" and n = 2]], rule costs_cong [OF costs_seq [OF cost_line costs_ret [where P = "\<lambda>b. length b = Suc _ * 128"]]]) simp_all
  have y: "costs M (c_hash_str E ''HMy'' r 32) 0 0 1 256 (\<lambda>ys. length ys = 256)"
    unfolding c_hash_str_def by (rule costs_cong [OF cost_hash [where m = 99 and blk = 0, OF _ _ refl]]) (simp_all add: assms ascii_def)
  have d: "costs M (c_hash_str E ''HMd'' (a @ b @ y) 32) 0 0 2 1856 (\<lambda>ys. length ys = 256)" if "length b = 256" "length y = 256" for b y
    unfolding c_hash_str_def by (rule costs_cong [OF cost_hash [where m = 259 and blk = 1, OF _ _ refl]]) (simp_all add: assms that ascii_def)
  show ?thesis
    unfolding s_commitment_def by (rule costs_cong [OF costs_seq [OF loop costs_seq [OF y d]]]) simp_all
qed

lemma cost_message_hash:
  assumes "length seed = 128" "length be = 32" "length nonce = 192" "length d = 256"
  shows "costs M (s_message_hash E seed be nonce d) 0 2 1 256 (\<lambda>ys. length ys = 256)"
proof -
  have h: "costs M (c_hash E (seed @ c_number E (ucast XMSS_TWEAK_MESSAGE) 8 @ be) (nonce @ d) 32) 0 0 1 256 (\<lambda>ys. length ys = 256)"
    by (rule costs_cong [OF cost_hash [where m = 77 and blk = 0, OF _ _ refl]]) (simp_all add: assms)
  show ?thesis
    unfolding s_message_hash_def
    by (rule costs_cong [OF costs_seq [OF h costs_seq [OF cost_zero_bit costs_seq [OF cost_zero_bit costs_ret]]]]) simp_all
qed

lemma cost_chains:
  assumes digest: "length digest = 256"
  shows "costs M (s_chains E digest) 462 505 0 0 (\<lambda>(coords, tips, ends). length ends = 42 \<and> (\<forall>e\<in>set ends. length e = 128))"
proof -
  let ?A = "\<lambda>i (coords :: 'b list list, tips :: 'b list list, ends :: 'b list list, tot :: 'b list).
      length ends = i \<and> (\<forall>e\<in>set ends. length e = 128) \<and> length tot = 9"
  have chain: "costs M (s_chain E digest i a) 11 12 0 0 (?A (Suc i))" if i: "i < 42" and a: "?A i a" for i a
  proof -
    obtain coords tips ends tot where e: "a = (coords, tips, ends, tot)" by (cases a)
    have "xmss_coord_bit_pos i + 2 < 127" using i
      by (auto simp: xmss_coord_bit_pos_def XMSS_DIGITS_PER_WORD_def XMSS_WOTS_LEN_def XMSS_COORD_RES_BITS_def)
    then have c: "length (slice digest (xmss_coord_bit_pos i) 3) = Suc 2" by (simp add: slice_def digest)
    have t: "length tot = 9" using a by (simp add: e)
    show ?thesis
      unfolding s_chain_def e prod.case Let_def
      by (rule costs_cong [OF costs_seq [OF cost_add [OF t] costs_seq [OF cost_input costs_seq [OF cost_input
            costs_seq [OF cost_equal [OF c] costs_seq [OF cost_pack costs_seq [OF cost_pack costs_seq [OF cost_pack
            costs_seq [OF cost_zero costs_ret [where P = "?A (Suc i)"]]]]]]]]]]) (use a e in auto)
  qed
  have loop: "costs M (loop (s_chain E digest) [0..<42] ([], [], [], c_number E 0 9)) (42 * 11) (42 * 12) (42 * 0) (42 * 0) (?A 42)"
    by (rule costs_loop_upto) (use chain in auto)
  have fin: "costs M (case a of (coords, tips, ends, tot) \<Rightarrow> seq (c_equal_field E tot (c_number E 195 9)) (\<lambda>_. ret (coords, tips, ends))) 0 1 0 0
      (\<lambda>(coords, tips, ends). length ends = 42 \<and> (\<forall>e\<in>set ends. length e = 128))" if "?A 42 a" for a
  proof -
    obtain coords tips ends tot where e: "a = (coords, tips, ends, tot)" by (cases a)
    show ?thesis
      unfolding e prod.case
      by (rule costs_cong [OF costs_seq [OF cost_equal_field costs_ret [where P = "\<lambda>(coords, tips, ends). length ends = 42 \<and> (\<forall>e\<in>set ends. length e = 128)"]]])
        (use that e in auto)
  qed
  show ?thesis unfolding s_chains_def by (rule costs_cong [OF costs_seq [OF loop fin]]) simp_all
qed

lemma cost_selected: "costs M (s_selected E flags xs) 0 0 0 0 (\<lambda>_. True)"
proof -
  have loop: "costs M (loop (\<lambda>i sel. seq (c_pack_product E [flags ! i] (xs ! i)) (\<lambda>p. ret (e_fadd E sel p))) [1..<42] s)
      (length [1..<42] * 0) (length [1..<42] * 0) (length [1..<42] * 0) (length [1..<42] * 0) (\<lambda>_. True)" for s
    by (rule costs_loop, rule costs_cong [OF costs_seq [OF cost_pack_product costs_ret]]) simp_all
  show ?thesis unfolding s_selected_def by (rule costs_cong [OF costs_seq [OF cost_pack_product loop]]) simp_all
qed

lemma cost_order:
  assumes "length index = 8"
  shows "costs M (s_order cfg E step index pi pp) (if step = 0 then 0 else 23) (if step = 0 then 0 else 25) 0 0 (\<lambda>_. True)"
proof (cases "step = 0")
  case True
  then show ?thesis by (simp add: s_order_def costs_ret)
next
  case False
  have i: "length index = Suc 7" using assms by simp
  show ?thesis
    unfolding s_order_def if_not_P [OF False]
    by (rule costs_cong [OF costs_seq [OF cost_equal [OF i] costs_seq [OF cost_less [OF assms] costs_seq [OF cost_zero_bit
          costs_seq [OF cost_pack costs_seq [OF cost_pack costs_seq [OF cost_pack costs_seq [OF cost_pack costs_seq [OF cost_zero costs_ret]]]]]]]]]) simp_all
qed

lemma cost_step:
  assumes lens: "length seed = 128" "length be = 32" and prev: "length pp = 3"
  shows "costs M (s_step cfg E seed be coords tips ends step (pi, pp, po)) (if step = 0 then 182 else 205) (if step = 0 then 58 else 83) 1 128
    (\<lambda>(i, p, out). length p = 3)"
proof -
  let ?R = "\<lambda>(i :: 'b list, p :: 'b list, out :: 'b list). length p = 3"
  have h: "costs M (c_hash E (node @ c_number E (ucast XMSS_TWEAK_CHAIN) 8) (seed @ be @ index @ (position @ replicate 5 (e_constant E False))) 16)
      0 0 1 128 (\<lambda>ys. length ys = 128)" if "length node = 128" "length index = 8 * 1" "length position = 3" for node index position
    by (rule costs_cong [OF cost_hash [where m = 39 and blk = 0, OF _ _ refl]]) (simp_all add: lens that)
  have tail: "costs M (seq (c_equal E position (c_number E 7 3)) (\<lambda>last. seq (e_pack E [last]) (\<lambda>pl. seq (e_pack E out_node) (\<lambda>pn.
      seq (e_zero E (e_product E pl (e_fadd E x pn))) (\<lambda>_. ret (index, position, out_node)))))) 2 3 0 0 ?R"
    if "length position = 3" for position out_node x index
  proof -
    have p: "length position = Suc 2" using that by simp
    show ?thesis
      by (rule costs_cong [OF costs_seq [OF cost_equal [OF p] costs_seq [OF cost_pack costs_seq [OF cost_pack costs_seq [OF cost_zero
            costs_ret [where P = ?R]]]]]]) (simp_all add: that)
  qed
  show ?thesis
    unfolding s_step_def prod.case Let_def
    apply (rule costs_cong)
    apply (rule costs_seq [OF cost_input])
    apply (rule costs_seq [OF cost_chain_flags])
    apply (rule costs_seq [OF cost_zero_bit])
    apply (rule costs_seq [OF cost_order], simp)
    apply (rule costs_seq [OF cost_selected])
    apply (rule costs_seq [OF cost_selected])
    apply (rule costs_seq [OF cost_selected])
    apply (rule costs_seq [OF cost_field_witness])
    apply (rule costs_seq [OF cost_select [OF prev]])
    apply (rule costs_seq [OF cost_add], assumption)
    apply (rule costs_seq [OF cost_pack])
    apply (rule costs_seq [OF cost_pack])
    apply (rule costs_seq [OF cost_field_witness])
    apply (rule costs_seq [OF h], assumption, assumption, assumption)
    apply (rule tail, assumption)
    apply (simp_all split: if_splits)
    done
qed

lemma cost_steps:
  assumes "length seed = 128" "length be = 32"
  shows "costs M (s_steps cfg E seed be coords tips ends) 20272 8193 99 12672 (\<lambda>_. True)"
proof -
  let ?R = "\<lambda>(i :: 'b list, p :: 'b list, out :: 'b list). length p = 3" and ?step = "s_step cfg E seed be coords tips ends"
  have step: "costs M (?step j a) (if j = 0 then 182 else 205) (if j = 0 then 58 else 83) 1 128 ?R" if "?R a" for j a
  proof -
    obtain pi pp po where e: "a = (pi, pp, po)" by (cases a)
    show ?thesis unfolding e by (rule cost_step [OF assms]) (use that e in simp)
  qed
  have rest: "costs M (loop ?step [1..<99] a) (length [1..<99] * 205) (length [1..<99] * 83) (length [1..<99] * 1) (length [1..<99] * 128) ?R"
    if "?R a" for a
    by (rule costs_loop [where J = ?R], rule costs_cong [OF step]) (use that in simp_all)
  have fin: "costs M (case a of (pi, pp, po) \<Rightarrow> c_equal_field E pp (c_number E 7 3)) 0 1 0 0 (\<lambda>_. True)" for a :: "'b list \<times> 'b list \<times> 'b list"
    by (cases a) (simp only: prod.case cost_equal_field)
  have "costs M (seq (?step 0 a) (loop ?step [1..<99])) 20272 8192 99 12672 ?R" if "?R a" for a
    by (rule costs_cong [OF costs_seq [OF step [OF that] rest]]) simp_all
  moreover have "loop ?step [0..<99] a = seq (?step 0 a) (loop ?step [1..<99])" for a
    by (subst upt_conv_Cons) simp_all
  ultimately have loop: "costs M (loop ?step [0..<99] (c_number E 0 8, c_number E 0 3, c_number E 0 128)) 20272 8192 99 12672 ?R" by simp
  show ?thesis
    unfolding s_steps_def by (rule costs_cong [OF costs_seq [OF loop fin]]) simp_all
qed

lemma cost_root:
  assumes seed: "length seed = 128" "length epoch = 32" "length be = 32" and ends: "length ends = 42" "\<forall>e\<in>set ends. length e = 128"
  shows "costs M (s_root E seed epoch be ends root) 4096 4097 38 12224 (\<lambda>_. True)"
proof -
  have "length (concat ends) = 42 * 128" using length_concat_const [of ends 128] ends by simp
  then have leaf: "costs M (c_hash E (seed @ c_number E (ucast XMSS_TWEAK_LEAF) 8 @ be) (concat ends) 16) 0 0 6 8128 (\<lambda>ys. length ys = 128)"
    by (intro costs_cong [OF cost_hash [where m = 693 and blk = 5, OF _ _ refl]]) (simp_all add: seed)
  let ?A = "\<lambda>(node :: 'b list, idx :: 'b list). length node = 128 \<and> length idx = 32"
  have level: "costs M (s_level E seed j a) 128 128 1 128 ?A" if a: "?A a" for j a
  proof -
    obtain node idx where e: "a = (node, idx)" by (cases a)
    have h: "costs M (c_hash E (seed @ c_number E (ucast XMSS_TWEAK_TREE) 8 @ c_number E (of_nat j) 8 @ tl idx @ [e_constant E False])
        (left @ map f [0..<128]) 16) 0 0 1 128 (\<lambda>ys. length ys = 128)" if "length left = 128" for left f
      by (rule costs_cong [OF cost_hash [where m = 54 and blk = 0, OF _ _ refl]]) (use a e that seed in simp_all)
    show ?thesis
      unfolding s_level_def e prod.case Let_def
      apply (rule costs_cong)
      apply (rule costs_seq [OF cost_input])
      apply (rule costs_seq [OF cost_select], assumption)
      apply (rule costs_seq [OF h], simp)
      apply (rule costs_ret [where P = ?A])
      using a e apply simp_all
      done
  qed
  have levels: "costs M (loop (s_level E seed) [0..<32] a) (length [0..<32] * 128) (length [0..<32] * 128) (length [0..<32] * 1) (length [0..<32] * 128) ?A"
    if "?A a" for a
    by (rule costs_loop [OF level that])
  have fin: "costs M (case a of (node, idx) \<Rightarrow> c_equal_field E node (c_constant E root)) 0 1 0 0 (\<lambda>_. True)" for a
    by (cases a) (simp only: prod.case cost_equal_field)
  show ?thesis
    unfolding s_root_def by (rule costs_cong [OF costs_seq [OF leaf costs_seq [OF levels fin]]]) (simp_all add: seed)
qed

text \<open>The padding depends on the cursor, which the other parts leave at 6 modulo 8.\<close>

lemma cost_padding:
  assumes "s_padding E s = Inr (x, s')"
  shows "m_cursor M s' = m_cursor M s + (8 - m_cursor M s mod 8) mod 8 \<and> m_constraints M s' = m_constraints M s + (8 - m_cursor M s mod 8) mod 8 \<and>
    m_permutations M s' = m_permutations M s"
proof -
  have "costs M (loop (\<lambda>_ _. seq (e_allocate E False) (e_zero_bit E)) [0..<n] ()) (length [0..<n] * 1) (length [0..<n] * 1) (length [0..<n] * 0) (length [0..<n] * 0) (\<lambda>_. True)" for n
    by (rule costs_loop [OF costs_cong [OF costs_seq [OF cost_allocate cost_zero_bit]]]) simp_all
  note loop = this
  define n where "n = (8 - m_cursor M s mod 8) mod 8"
  have "loop (\<lambda>_ _. seq (e_allocate E False) (e_zero_bit E)) [0..<n] () s = Inr (x, s')"
    using assms unfolding s_padding_def cost_cursor n_def .
  with costsD [OF loop [of n]] show ?thesis unfolding spent_def n_def [symmetric] by fastforce
qed

lemma length_epoch_be: "length epoch = 32 \<Longrightarrow> length (s_epoch_be epoch) = 32"
  by (simp add: s_epoch_be_def slice_def upt_rec)

lemma cost_body:
  assumes "length (vs_pk_seed stm) = 16"
  shows "costs M (statement_body cfg E stm) 25086 12799 141 27264 (\<lambda>_. True)"
proof -
  let ?seed = "c_constant E (vs_pk_seed stm)"
  have seed: "length ?seed = 128" using assms by simp
  have rest: "costs M (case t of (coords, tips, ends) \<Rightarrow> seq (s_steps cfg E ?seed (s_epoch_be epoch) coords tips ends)
      (\<lambda>_. s_root E ?seed epoch (s_epoch_be epoch) ends (vs_root stm))) 24368 12290 137 24896 (\<lambda>_. True)"
    if "case t of (coords, tips, ends) \<Rightarrow> length ends = 42 \<and> (\<forall>e\<in>set ends. length e = 128)" "length epoch = 8 * 4" for t epoch
  proof -
    obtain coords tips ends where e: "t = (coords, tips, ends)" by (cases t)
    show ?thesis
      unfolding e prod.case
      by (rule costs_cong [OF costs_seq [OF cost_steps cost_root]]) (use that e in \<open>simp_all add: assms length_epoch_be\<close>)
  qed
  show ?thesis
    unfolding statement_body_def Let_def
    apply (rule costs_cong)
    apply (rule costs_seq [OF cost_input])
    apply (rule costs_seq [OF cost_input])
    apply (rule costs_seq [OF cost_commitment], simp, simp)
    apply (rule costs_seq [OF cost_input])
    apply (rule costs_seq [OF cost_input])
    apply (rule costs_seq [OF cost_message_hash [OF seed]], simp add: length_epoch_be, simp, simp)
    apply (rule costs_seq [OF cost_chains], assumption)
    apply (rule rest, assumption, assumption)
    apply simp_all
    done
qed

lemma cost_statement:
  assumes "length (vs_pk_seed stm) = 16" and run: "c_statement cfg E stm s = Inr (x, s')"
    and start: "m_cursor M s = kPrimaryBytes * 8" "m_constraints M s = 0" "m_permutations M s = 0" and bulk: "m_bulk M mod 8 = 0"
  shows "m_cursor M s' = 43256 + 141 * m_bulk M + m_final M * 27264 \<and> m_constraints M s' = 12801 + 141 * m_bulk M + m_final M * 27264 \<and>
    m_permutations M s' = 141"
proof -
  obtain y s1 where b: "statement_body cfg E stm s = Inr (y, s1)" and p: "s_padding E s1 = Inr (x, s')"
    using run by (auto simp: statement_split seq_def split: sum.splits)
  have 1: "m_cursor M s1 = m_cursor M s + 25086 + m_bulk M * 141 + m_final M * 27264"
    "m_constraints M s1 = m_constraints M s + 12799 + m_bulk M * 141 + m_final M * 27264" "m_permutations M s1 = m_permutations M s + 141"
    using costsD [OF cost_body [OF assms(1)] b] unfolding spent_def by simp_all
  obtain h where h: "m_bulk M = 8 * h" using bulk by auto
  have c: "m_cursor M s1 = 8 * (5406 + h * 141 + m_final M * 3408) + 6"
    unfolding 1 start h by (simp add: layout_values)
  then have "m_cursor M s1 mod 8 = 6" by (simp only: mod_mult_self4) simp
  then show ?thesis
    using cost_padding [OF p] 1 start c h by simp
qed

lemma statement_returns:
  assumes "length (vs_pk_seed stm) = 16" "m_returns M"
  shows "\<exists>s'. c_statement cfg E stm s = Inr ((), s')"
proof -
  obtain y s1 where b: "statement_body cfg E stm s = Inr (y, s1)" using costs_returns [OF cost_body [OF assms(1)] assms(2)] by blast
  have "costs M (loop (\<lambda>_ _. seq (e_allocate E False) (e_zero_bit E)) [0..<n] ()) (length [0..<n] * 1) (length [0..<n] * 1) (length [0..<n] * 0) (length [0..<n] * 0) (\<lambda>_. True)" for n
    by (rule costs_loop [OF costs_cong [OF costs_seq [OF cost_allocate cost_zero_bit]]]) simp_all
  from costs_returns [OF this assms(2)] obtain s' where "s_padding E s1 = Inr ((), s')" unfolding s_padding_def by auto
  then show ?thesis using b by (auto simp: statement_split seq_def)
qed

end

subsection \<open>The contexts\<close>

definition native_meter :: "vconfig \<Rightarrow> native_context meter" where
  "native_meter cfg = \<lparr>m_cursor = nc_cursor, m_constraints = nc_constraints, m_permutations = nc_permutations,
     m_bulk = 1600 * kKeccakSnapshots cfg, m_final = of_bool (kProofDegree cfg = 64), m_returns = False\<rparr>"

definition auth_meter :: "vconfig \<Rightarrow> 'q auth_context meter" where
  "auth_meter cfg = \<lparr>m_cursor = ac_cursor, m_constraints = ac_constraints, m_permutations = ac_permutations,
     m_bulk = 1600 * kKeccakSnapshots cfg, m_final = of_bool (kProofDegree cfg \<notin> {16, 32}), m_returns = True\<rparr>"

lemma meter_simps [simp]:
  "m_cursor (native_meter cfg) = nc_cursor" "m_constraints (native_meter cfg) = nc_constraints"
  "m_permutations (native_meter cfg) = nc_permutations" "m_bulk (native_meter cfg) = 1600 * kKeccakSnapshots cfg"
  "m_final (native_meter cfg) = of_bool (kProofDegree cfg = 64)" "\<not> m_returns (native_meter cfg)" "m_returns (auth_meter cfg)"
  "m_cursor (auth_meter cfg) = ac_cursor" "m_constraints (auth_meter cfg) = ac_constraints"
  "m_permutations (auth_meter cfg) = ac_permutations" "m_bulk (auth_meter cfg) = 1600 * kKeccakSnapshots cfg"
  "m_final (auth_meter cfg) = of_bool (kProofDegree cfg \<notin> {16, 32})"
  by (simp_all add: native_meter_def auth_meter_def)

text \<open>A permutation: what it allocates and constrains, then the count of permutations.\<close>

lemma costs_permutation:
  assumes "costs M m (m_bulk M + m_final M * n) (m_bulk M + m_final M * n) 0 0 P"
    and "\<And>s. m_cursor M (g s) = m_cursor M s" "\<And>s. m_constraints M (g s) = m_constraints M s" "\<And>s. m_permutations M (g s) = m_permutations M s + 1"
  shows "costs M (seq m (\<lambda>x s. Inr (x, g s))) 0 0 1 n P"
  using assms unfolding costs_def by (fastforce simp: seq_def spent_def split: sum.splits)

lemma costs_n_allocate: "costs (native_meter cfg) (n_allocate v) 1 0 0 0 (\<lambda>_. True)"
  by (simp add: costs_def spent_def n_allocate_eq)

lemma costs_n_count: "costs (native_meter cfg) (n_count n) 0 n 0 0 (\<lambda>_. True)"
  by (simp add: costs_def spent_def n_count_def)

lemma costs_n_zero: "costs (native_meter cfg) (n_zero x) 0 1 0 0 (\<lambda>_. True)" "costs (native_meter cfg) (n_zero_bit b) 0 1 0 0 (\<lambda>_. True)"
  by (auto simp: costs_def spent_def n_zero_def n_zero_bit_def seq_def n_count_def split: if_splits)

lemma costs_n_pack: "costs (native_meter cfg) (n_pack as) 0 0 0 0 (\<lambda>_. True)"
  unfolding n_pack_def Let_def by (auto intro!: costs_throw costs_ret)

lemma costs_n_permute:
  "costs (native_meter cfg) (n_permute cfg L as n) 0 0 1 n (\<lambda>ys. length ys = (if kProofDegree cfg = 64 then n else 1600))"
proof -
  let ?N = "kKeccakSnapshots cfg"
  have N: "0 < ?N" by (simp add: kKeccakSnapshots_def kKeccakStride_def)
  define f where "f words j st = collect (\<lambda>i. n_allocate (bit (words ! (j * 25 + i div 64)) (i mod 64))) [0..<1600]" for words :: "u64 list" and j :: nat and st :: "bool list"
  have loop: "costs (native_meter cfg) (loop (f words) [0..<?N] st) (?N * 1600) (?N * 0) (?N * 0) (?N * 0) (\<lambda>ys. 0 < ?N \<longrightarrow> length ys = 1600)" for words st
    by (rule costs_loop_upto [where A = "\<lambda>i ys. 0 < i \<longrightarrow> length ys = 1600"], unfold f_def, rule costs_cong [OF costs_collect [OF costs_n_allocate]]) simp_all
  have last: "costs (native_meter cfg) (if kProofDegree cfg = 64
      then seq (collect (\<lambda>i. n_allocate (bit (words ! (i div 64)) (i mod 64))) [0..<n]) (\<lambda>state. seq (n_count n) (\<lambda>_. ret state))
      else ret st) (m_final (native_meter cfg) * n) (m_final (native_meter cfg) * n) 0 0 (\<lambda>ys. length ys = (if kProofDegree cfg = 64 then n else 1600))"
    if "length st = 1600" for words :: "u64 list" and st
  proof -
    have "costs (native_meter cfg) (seq (collect (\<lambda>i. n_allocate (bit (words ! (i div 64)) (i mod 64))) [0..<n]) (\<lambda>state. seq (n_count n) (\<lambda>_. ret state)))
        n n 0 0 (\<lambda>ys. length ys = n)"
      by (rule costs_cong [OF costs_seq [OF costs_collect [OF costs_n_allocate] costs_seq [OF costs_n_count costs_ret]]]) simp_all
    then show ?thesis using that by (simp add: costs_ret)
  qed
  obtain final trace where pt: "permute_trace L (fold (\<lambda>i w. w[i div 64 := w ! (i div 64) OR push_bit (i mod 64) (of_bool (as ! i))])
      [0..<1600] (replicate 25 (0 :: u64))) = (final, trace)" by fastforce
  let ?m = "seq (loop (f trace) [0..<?N] as) (\<lambda>state. seq (n_count (1600 * ?N)) (\<lambda>_. if kProofDegree cfg = 64
      then seq (collect (\<lambda>i. n_allocate (bit (final ! (i div 64)) (i mod 64))) [0..<n]) (\<lambda>state. seq (n_count n) (\<lambda>_. ret state))
      else ret state))"
  have "costs (native_meter cfg) ?m (m_bulk (native_meter cfg) + m_final (native_meter cfg) * n) (m_bulk (native_meter cfg) + m_final (native_meter cfg) * n) 0 0
      (\<lambda>ys. length ys = (if kProofDegree cfg = 64 then n else 1600))"
    by (rule costs_cong [OF costs_seq [OF loop costs_seq [OF costs_n_count last]]]) (use N in simp_all)
  then have "costs (native_meter cfg) (seq ?m (\<lambda>x s. Inr (x, s\<lparr>nc_permutations := nc_permutations s + 1\<rparr>))) 0 0 1 n
      (\<lambda>ys. length ys = (if kProofDegree cfg = 64 then n else 1600))"
    by (rule costs_permutation) simp_all
  moreover have "n_permute cfg L as n = seq ?m (\<lambda>x s. Inr (x, s\<lparr>nc_permutations := nc_permutations s + 1\<rparr>))"
    unfolding n_permute_def Let_def pt prod.case f_def by (auto simp: seq_def fun_eq_iff split: sum.split)
  ultimately show ?thesis by simp
qed

interpretation native_counted: counted_engine "native_engine cfg L" "native_meter cfg" "\<lambda>n. if kProofDegree cfg = 64 then n else 1600" for cfg L
proof
  show "costs (native_meter cfg) (e_mul (native_engine cfg L) a b) 1 1 0 0 (\<lambda>_. True)" for a b
    unfolding native_engine_simps n_mul_def by (rule costs_cong [OF costs_seq [OF costs_n_count costs_n_allocate]]) simp_all
  show "costs (native_meter cfg) (e_field_witness (native_engine cfg L) x n) n 1 0 0 (\<lambda>ys. length ys = n)" for x n
    unfolding native_engine_simps n_field_witness_def Let_def
    by (rule costs_cong [OF costs_seq [OF costs_collect [OF costs_n_allocate] costs_seq [OF costs_n_pack costs_seq [OF costs_n_zero(1) costs_ret]]]]) simp_all
  show "costs (native_meter cfg) (e_bit (native_engine cfg L) i) 0 0 0 0 (\<lambda>_. True)" for i
    by (simp add: costs_def spent_def n_bit_def)
qed (simp_all only: native_engine_simps costs_n_allocate costs_n_zero costs_n_pack costs_n_permute meter_simps, simp_all)

lemma costs_a_allocate: "costs (auth_meter cfg) (a_allocate Q v) 1 0 0 0 (\<lambda>_. True)"
  by (simp add: costs_def spent_def a_allocate_def)

lemma costs_a_zero: "costs (auth_meter cfg) (a_zero a) 0 1 0 0 (\<lambda>_. True)"
  by (simp add: costs_def spent_def a_zero_def)

lemma costs_a_meet: "costs (auth_meter cfg) (a_meet cfg Q f r) 1600 1600 0 0 (\<lambda>ys. length ys = 1600)"
  unfolding a_meet_def Let_def
  by (rule costs_cong [OF costs_seq [OF costs_collect [OF costs_a_allocate] costs_seq [OF costs_collect [OF costs_a_zero] costs_ret]]]) simp_all

lemma costs_a_stride:
  assumes "kProofDegree cfg \<in> {16, 32} \<or> r \<noteq> 18"
  shows "costs (auth_meter cfg) (a_stride cfg Q n r st) 1600 1600 0 0 (\<lambda>ys. length ys = 1600)"
  unfolding a_stride_def Let_def using assms by (auto simp: costs_a_meet)

lemma costs_a_last:
  assumes "kProofDegree cfg \<notin> {16, 32}"
  shows "costs (auth_meter cfg) (a_stride cfg Q n 18 st) n n 0 0 (\<lambda>ys. length ys = n)"
proof -
  have "costs (auth_meter cfg) (collect (\<lambda>i. seq (a_allocate Q False) (\<lambda>b. seq (a_zero (qs_add Q (g i) b)) (\<lambda>_. ret b))) [0..<n]) n n 0 0 (\<lambda>ys. length ys = n)" for g
  proof -
    have "costs (auth_meter cfg) (seq (a_allocate Q False) (\<lambda>b. seq (a_zero (qs_add Q (g i) b)) (\<lambda>_. ret b))) 1 1 0 0 (\<lambda>_. True)" for i
      by (rule costs_cong [OF costs_seq [OF costs_a_allocate costs_seq [OF costs_a_zero costs_ret]]]) simp_all
    from costs_collect [OF this, where xs = "[0..<n]"] show ?thesis by simp
  qed
  then show ?thesis unfolding a_stride_def Let_def using assms by simp
qed

lemma costs_a_permute:
  "costs (auth_meter cfg) (a_permute cfg Q as n) 0 0 1 n (\<lambda>ys. length ys = (if kProofDegree cfg \<notin> {16, 32} then n else 1600))"
proof -
  let ?M = "auth_meter cfg :: 'a auth_context meter" and ?P = "\<lambda>ys :: 'a list. length ys = (if kProofDegree cfg \<notin> {16, 32} then n else 1600)"
  have "costs ?M (loop (a_stride cfg Q n) (map (\<lambda>k. k * kKeccakStride cfg) [0..<(24 + kKeccakStride cfg - 1) div kKeccakStride cfg]) as)
      (m_bulk ?M + m_final ?M * n) (m_bulk ?M + m_final ?M * n) 0 0 ?P"
  proof (cases "kProofDegree cfg \<in> {16, 32}")
    case True
    let ?N = "(24 + kKeccakStride cfg - 1) div kKeccakStride cfg"
    have N: "?N = kKeccakSnapshots cfg" "0 < ?N" using True by (auto simp: kKeccakStride_def kKeccakSnapshots_def)
    have each: "costs ?M (a_stride cfg Q n r st) 1600 1600 0 0 (\<lambda>ys. length ys = 1600)" for r st
      by (rule costs_a_stride) (use True in simp)
    let ?rounds = "map (\<lambda>k. k * kKeccakStride cfg) [0..<?N]"
    have ne: "?rounds = 0 # tl ?rounds" using N(2) by (cases ?N) (simp_all add: upt_conv_Cons del: upt_Suc)
    have "costs ?M (loop (a_stride cfg Q n) (0 # tl ?rounds) as) (1600 + length (tl ?rounds) * 1600) (1600 + length (tl ?rounds) * 1600)
        (0 + length (tl ?rounds) * 0) (0 + length (tl ?rounds) * 0) (\<lambda>ys. length ys = 1600)"
      unfolding loop.simps by (rule costs_seq [OF each], rule costs_loop [OF each])
    then show ?thesis
      unfolding ne [symmetric] by (rule costs_cong) (use True N in auto)
  next
    case False
    then have deg: "kKeccakStride cfg = 9" "kKeccakSnapshots cfg = 2" by (simp_all add: kKeccakStride_def kKeccakSnapshots_def)
    have rounds: "map (\<lambda>k. k * kKeccakStride cfg) [0..<(24 + kKeccakStride cfg - 1) div kKeccakStride cfg] = [0, 9, 18]"
      by (simp add: deg upt_rec)
    show ?thesis
      unfolding rounds loop.simps
      apply (rule costs_cong)
      apply (rule costs_seq [OF costs_a_stride], simp)
      apply (rule costs_seq [OF costs_a_stride], simp)
      apply (rule costs_seq [OF costs_a_last [OF False]])
      apply (rule costs_ret, assumption)
      using False deg apply simp_all
      done
  qed
  then show ?thesis unfolding a_permute_def by (rule costs_permutation) simp_all
qed

interpretation auth_counted: counted_engine "auth_engine cfg Q" "auth_meter cfg" "\<lambda>n. if kProofDegree cfg \<notin> {16, 32} then n else 1600" for cfg Q
proof
  show "costs (auth_meter cfg) (e_mul (auth_engine cfg Q) a b) 1 1 0 0 (\<lambda>_. True)" for a b
    unfolding auth_engine_simps a_mul_def by (rule costs_cong [OF costs_seq [OF costs_a_allocate costs_seq [OF costs_a_zero costs_ret]]]) simp_all
  show "costs (auth_meter cfg) (e_pack (auth_engine cfg Q) as) 0 0 0 0 (\<lambda>_. True)" for as
    by (simp add: a_pack_def costs_ret)
  show "costs (auth_meter cfg) (e_field_witness (auth_engine cfg Q) x n) n 1 0 0 (\<lambda>ys. length ys = n)" for x n
  proof -
    have pack: "costs (auth_meter cfg) (a_pack Q as) 0 0 0 0 (\<lambda>_. True)" for as by (simp add: a_pack_def costs_ret)
    show ?thesis
      unfolding auth_engine_simps a_field_witness_def
      by (rule costs_cong [OF costs_seq [OF costs_collect [OF costs_a_allocate] costs_seq [OF pack costs_seq [OF costs_a_zero costs_ret]]]]) simp_all
  qed
  show "costs (auth_meter cfg) (e_bit (auth_engine cfg Q) i) 0 0 0 0 (\<lambda>_. True)" for i
    by (simp add: a_bit_def costs_ret)
qed (simp_all only: auth_engine_simps costs_a_allocate costs_a_zero costs_a_permute meter_simps, simp_all)

subsection \<open>The dimensions\<close>

definition kFinalKeccakBits :: "vconfig \<Rightarrow> nat" where
  "kFinalKeccakBits cfg = (if kProofDegree cfg = 64 then 27264 else 0)"

definition kWitnessBits :: "vconfig \<Rightarrow> nat" where
  "kWitnessBits cfg = 43256 + 141 * 1600 * kKeccakSnapshots cfg + kFinalKeccakBits cfg"

definition kConstraints :: "vconfig \<Rightarrow> nat" where
  "kConstraints cfg = 12801 + 141 * 1600 * kKeccakSnapshots cfg + kFinalKeccakBits cfg"

definition kPermutations :: nat where "kPermutations = 141"

lemmas dimension_defs = kWitnessBits_def kConstraints_def kFinalKeccakBits_def kPermutations_def

lemma native_dimensions:
  assumes "cfg_ok cfg" "statement_wf stm"
    and "c_statement cfg (native_engine cfg L) stm (native_context_new p v) = Inr (x, s)"
  shows "nc_cursor s = kWitnessBits cfg" "nc_constraints s = kConstraints cfg" "nc_permutations s = kPermutations"
  using native_counted.cost_statement [OF _ assms(3)] assms(2) by (simp_all add: statement_wf_def native_context_new_def dimension_defs)

lemma auth_dimensions:
  assumes "cfg_ok cfg" "statement_wf stm"
    and "c_statement cfg (auth_engine cfg Q) stm auth_context_new = Inr (x, s)"
  shows "ac_cursor s = kWitnessBits cfg" "ac_constraints s = kConstraints cfg" "ac_permutations s = kPermutations"
proof -
  have "of_bool (kProofDegree cfg \<notin> {16, 32}) = (of_bool (kProofDegree cfg = 64) :: nat)" using assms(1) by (auto simp: cfg_ok_def)
  then show "ac_cursor s = kWitnessBits cfg" "ac_constraints s = kConstraints cfg" "ac_permutations s = kPermutations"
    using auth_counted.cost_statement [OF _ assms(3)] assms(2) by (simp_all add: statement_wf_def auth_context_new_def dimension_defs)
qed

text \<open>The authenticated context never throws.\<close>

lemma auth_returns: "statement_wf stm \<Longrightarrow> \<exists>s. c_statement cfg (auth_engine cfg Q) stm as = Inr ((), s)"
  by (rule auth_counted.statement_returns) (simp_all add: statement_wf_def)

end
