(* ===== verification/Vole_Proof.thy ===== *)
theory Vole_Proof
  imports Vole_Dimensions
begin

text \<open>
  \<^verbatim>\<open>src/voleith/src/proof.cpp\<close> and \<^verbatim>\<open>proof.hpp\<close>: the zero-knowledge proof of the statement circuit,
  its layout, the Fiat-Shamir transcript with grinding, \<open>prove\<close> and \<open>verify_proof\<close>.

  The FAEST code (the GGM forest, the VOLE, the consistency check, QuickSilver) is not part of
  the repository: it is the record \<open>faest\<close>, one field for each function the file calls and each
  size it uses. What the file relies on is \<open>faest_ok\<close>. The hash state of the transcript is the
  bytes absorbed, finalised with SHAKE256.
\<close>

subsection \<open>Parameters\<close>

record pconfig =
  p_circuit :: vconfig
  kVoleTrees :: nat
  kGrindingBits :: nat

definition pconfig_ok :: "pconfig \<Rightarrow> bool" where
  "pconfig_ok C \<longleftrightarrow> cfg_ok (p_circuit C) \<and> kVoleTrees C < 256 \<and> kGrindingBits C \<le> 128"

definition kProofVersion :: bytes where "kProofVersion = ascii ''HBVITH03''"

definition WBytes :: "vconfig \<Rightarrow> nat" where "WBytes cfg = kWitnessBits cfg div 8"

text \<open>
  The library. \<open>'g\<close> is the committed GGM forest with its leaves, \<open>'m\<close> a matrix of VOLE columns,
  \<open>'p\<close> and \<open>'r\<close> are the prover's and the verifier's QuickSilver values. A QuickSilver state is
  determined by the arguments of its constructor and the constraints added to it. The two
  checks of the VOLE return what they absorb into the transcript.
\<close>

record ('g, 'm, 'p, 'r) faest =
  VOLE_COMMIT_SIZE :: nat
  VOLE_COMMIT_CHECK_SIZE :: nat
  VOLE_CHECK_CHALLENGE_BYTES :: nat
  VOLE_CHECK_PROOF_BYTES :: nat
  QS_CHALLENGE_BYTES :: nat
  QS_CHECK_BYTES :: nat
  OPEN_SIZE :: nat
  vole_commit :: "bytes \<Rightarrow> bytes \<Rightarrow> 'g \<times> bytes \<times> 'm \<times> bytes \<times> bytes"
  vole_check_sender :: "bytes \<Rightarrow> 'm \<Rightarrow> bytes \<Rightarrow> bytes \<times> bytes"
  vole_check_receiver :: "'m \<Rightarrow> bytes \<Rightarrow> bytes \<Rightarrow> bytes \<Rightarrow> bytes"
  vole_reconstruct :: "bytes \<Rightarrow> bytes \<Rightarrow> bytes \<Rightarrow> bytes \<Rightarrow> ('m \<times> bytes) option"
  vole_receiver_apply_correction :: "bytes \<Rightarrow> 'm \<Rightarrow> bytes \<Rightarrow> 'm"
  transpose_secpar :: "'m \<Rightarrow> poly128 list"
  expand_bits_to_bytes :: "bytes \<Rightarrow> bytes"
  vc_open :: "'g \<Rightarrow> bytes \<Rightarrow> bytes option"
  qs_prover :: "bytes \<Rightarrow> poly128 list \<Rightarrow> nat \<Rightarrow> bytes \<Rightarrow> 'p qs_ops"
  qs_prove :: "bytes \<Rightarrow> poly128 list \<Rightarrow> nat \<Rightarrow> bytes \<Rightarrow> 'p list \<Rightarrow> nat \<Rightarrow> bytes \<times> bytes"
  qs_verifier :: "poly128 list \<Rightarrow> nat \<Rightarrow> poly128 \<Rightarrow> bytes \<Rightarrow> 'r qs_ops"
  qs_verify :: "poly128 list \<Rightarrow> nat \<Rightarrow> poly128 \<Rightarrow> bytes \<Rightarrow> 'r list \<Rightarrow> nat \<Rightarrow> bytes \<Rightarrow> bytes"

text \<open>The static assertion of the file.\<close>

definition QS_PROOF_BYTES :: "vconfig \<Rightarrow> nat" where "QS_PROOF_BYTES cfg = (kProofDegree cfg - 1) * 16"

subsection \<open>The transcript\<close>

definition transcript :: "pconfig \<Rightarrow> byte \<Rightarrow> bytes" where
  "transcript C tag =
     (let h = ascii ''HBS-VOLE-PROOF-v1'';
          h = h @ kProofVersion;
          h = h @ [of_nat (kVoleTrees C)];
          h = h @ [of_nat (kProofDegree (p_circuit C))];
          h = h @ [of_nat (kGrindingBits C)]
      in h @ [tag])"

definition get_iv :: "vole \<Rightarrow> pconfig \<Rightarrow> bytes \<Rightarrow> bytes" where
  "get_iv V C nonce = shake256 V (transcript C 0 @ nonce) 16"

definition challenge1 ::
  "vole \<Rightarrow> ('g, 'm, 'p, 'r) faest \<Rightarrow> pconfig \<Rightarrow> vstatement \<Rightarrow> bytes \<Rightarrow> bytes \<Rightarrow> bytes \<Rightarrow> bytes \<Rightarrow> bytes" where
  "challenge1 V F C stm nonce check commitment iv =
     (let h = transcript C 1;
          h = h @ vs_message stm;
          h = h @ vs_pk_seed stm;
          h = h @ vs_root stm;
          h = h @ nonce;
          h = h @ check;
          h = h @ commitment;
          h = h @ iv
      in shake256 V h (VOLE_CHECK_CHALLENGE_BYTES F))"

definition challenge3_prefix :: "pconfig \<Rightarrow> bytes \<Rightarrow> bytes \<Rightarrow> bytes \<Rightarrow> bytes" where
  "challenge3_prefix C chal2 qs_check qs_pf =
     (let h = transcript C 3;
          h = h @ chal2;
          h = h @ qs_check
      in h @ qs_pf)"

definition finish_challenge3 :: "vole \<Rightarrow> pconfig \<Rightarrow> bytes \<Rightarrow> bytes \<Rightarrow> bytes" where
  "finish_challenge3 V C h counter =
     (let h = (if kGrindingBits C > 0 then h @ counter else h)
      in shake256 V h 16)"

definition grinding_passes :: "pconfig \<Rightarrow> bytes \<Rightarrow> bool" where
  "grinding_passes C delta =
     list_all (\<lambda>i. \<not> bit (delta ! (i div 8)) (i mod 8)) [128 - kGrindingBits C..<128]"

text \<open>\<open>evaluate\<close>, for an engine whose constraint and permutation counters are given.\<close>

definition evaluate ::
  "vconfig \<Rightarrow> ('b, 'f, 's) engine \<Rightarrow> ('s \<Rightarrow> nat) \<Rightarrow> ('s \<Rightarrow> nat) \<Rightarrow> vstatement \<Rightarrow> ('s, unit) run" where
  "evaluate cfg E constraints permutations stm =
     seq (c_statement cfg E stm) (\<lambda>_ s.
       if e_cursor E s \<noteq> kWitnessBits cfg \<or> constraints s \<noteq> kConstraints cfg \<or> permutations s \<noteq> kPermutations
       then Inl (Logic_error ''circuit and VOLE parameters disagree'') else Inr ((), s))"

subsection \<open>Layout\<close>

record ProofLayout =
  l_nonce :: nat
  l_commitment :: nat
  l_vole_check :: nat
  l_correction :: nat
  l_quicksilver :: nat
  l_opening :: nat
  l_delta :: nat
  l_counter :: nat
  l_size :: nat

definition proof_layout :: "('g, 'm, 'p, 'r) faest \<Rightarrow> pconfig \<Rightarrow> ProofLayout" where
  "proof_layout F C =
     (let nonce = length kProofVersion + 3;
          commitment = nonce + 32;
          vole_check = commitment + VOLE_COMMIT_SIZE F;
          correction = vole_check + VOLE_CHECK_PROOF_BYTES F;
          quicksilver = correction + WBytes (p_circuit C);
          opening_off = quicksilver + QS_PROOF_BYTES (p_circuit C);
          delta = opening_off + OPEN_SIZE F;
          counter = delta + 16
      in \<lparr>l_nonce = nonce, l_commitment = commitment, l_vole_check = vole_check, l_correction = correction,
          l_quicksilver = quicksilver, l_opening = opening_off, l_delta = delta, l_counter = counter,
          l_size = counter + (if kGrindingBits C > 0 then 4 else 0)\<rparr>)"

subsection \<open>Prove\<close>

text \<open>The grinding loop: the counter and the challenge it is left with.\<close>

function grind :: "vole \<Rightarrow> pconfig \<Rightarrow> bytes \<Rightarrow> u32 \<Rightarrow> bytes \<Rightarrow> exn + u32 \<times> bytes" where
  "grind V C h3 counter delta =
     (if grinding_passes C delta then Inr (counter, delta)
      else if counter = - 1 then Inl (Runtime_error ''Fiat-Shamir grinding counter exhausted'')
      else let counter = counter + 1;
               delta = finish_challenge3 V C h3 (bytes_le 4 counter)
           in grind V C h3 counter delta)"
  by pat_completeness auto
termination
proof (relation "measure (\<lambda>(V, C, h3, counter, delta). unat (- 1 - counter))")
  fix V C h3 and counter x :: u32 and delta d :: bytes
  assume "counter \<noteq> - 1" "x = counter + 1"
  then have "- 1 - counter \<noteq> 0" "- 1 - x = (- 1 - counter) - 1" by auto
  then have "unat (- 1 - x) < unat (- 1 - counter)" by (metis diff_less unat_eq_zero unat_minus_one zero_less_one gr0I)
  then show "((V, C, h3, x, d), V, C, h3, counter, delta) \<in> measure (\<lambda>(V, C, h3, counter, delta). unat (- 1 - counter))"
    by simp
qed simp

declare grind.simps [simp del]

text \<open>From the evaluated circuit and the random values on.\<close>

definition prove_from ::
  "vole \<Rightarrow> ('g, 'm, 'p, 'r) faest \<Rightarrow> pconfig \<Rightarrow> vstatement \<Rightarrow> bytes \<Rightarrow> bytes \<Rightarrow> bytes \<Rightarrow> exn + bytes" where
  "prove_from V F C stm witness seed nonce =
     (let cfg = p_circuit C;
          l = proof_layout F C;
          p = replicate (l_size l) 0;
          p = put 0 kProofVersion p;
          p = p[8 := of_nat (kVoleTrees C)];
          p = p[9 := of_nat (kProofDegree cfg)];
          p = p[10 := of_nat (kGrindingBits C)];
          p = put (l_nonce l) nonce p;
          iv = get_iv V C nonce;
          (forest, u, v, commitment, check) = vole_commit F seed iv;
          p = put (l_commitment l) commitment p;
          chal1 = challenge1 V F C stm nonce check commitment iv;
          h2 = transcript C 2 @ chal1;
          (check_pf, absorbed) = vole_check_sender F u v chal1;
          p = put (l_vole_check l) check_pf p;
          h2 = h2 @ absorbed;
          correction = map (\<lambda>i. u ! i XOR witness ! i) [0..<WBytes cfg];
          p = put (l_correction l) correction p;
          h2 = h2 @ correction;
          chal2 = shake256 V h2 (QS_CHALLENGE_BYTES F);
          macs = transpose_secpar F v;
          u = witness @ drop (WBytes cfg) u
      in case evaluate cfg (auth_engine cfg (qs_prover F u macs (kConstraints cfg) chal2)) ac_constraints ac_permutations stm auth_context_new of
           Inl e \<Rightarrow> Inl e
         | Inr (_, auth) \<Rightarrow>
             let (qs_pf, qs_check) = qs_prove F u macs (kConstraints cfg) chal2 (ac_emitted auth) (kWitnessBits cfg);
                 p = put (l_quicksilver l) qs_pf p;
                 h3 = challenge3_prefix C chal2 qs_check qs_pf;
                 delta = finish_challenge3 V C h3 (segment (l_counter l) 4 p)
             in case (if kGrindingBits C > 0 then grind V C h3 0 delta else Inr (0, delta)) of
                  Inl e \<Rightarrow> Inl e
                | Inr (counter, delta) \<Rightarrow>
                    let p = (if kGrindingBits C > 0 then put (l_counter l) (bytes_le 4 counter) p else p);
                        expanded = expand_bits_to_bytes F delta
                    in case vc_open F forest expanded of
                         None \<Rightarrow> Inl (Logic_error ''GGM forest opening failed'')
                       | Some opened \<Rightarrow> Inr (put (l_delta l) delta (put (l_opening l) opened p)))"

definition prove ::
  "vole \<Rightarrow> ('g, 'm, 'p, 'r) faest \<Rightarrow> pconfig \<Rightarrow> circuit_lib \<Rightarrow> vstatement \<Rightarrow> bytes \<Rightarrow> rng \<Rightarrow> (exn + bytes) \<times> rng" where
  "prove V F C L stm primary c =
     (if length primary \<noteq> kPrimaryBytes then (Inl (Invalid_argument ''primary witness size''), c)
      else case evaluate (p_circuit C) (native_engine (p_circuit C) L) nc_constraints nc_permutations stm (native_context_new primary True) of
             Inl e \<Rightarrow> (Inl e, c)
           | Inr (_, native) \<Rightarrow>
               (case v_random_bytes V 16 c of
                  (None, c) \<Rightarrow> (Inl (Runtime_error ''OS random source failed''), c)
                | (Some seed, c) \<Rightarrow>
                    (case v_random_bytes V 32 c of
                       (None, c) \<Rightarrow> (Inl (Runtime_error ''OS random source failed''), c)
                     | (Some nonce, c) \<Rightarrow> (prove_from V F C stm (nc_witness native) seed nonce, c))))"

subsection \<open>Verify\<close>

definition verify_proof ::
  "vole \<Rightarrow> ('g, 'm, 'p, 'r) faest \<Rightarrow> pconfig \<Rightarrow> vstatement \<Rightarrow> bytes \<Rightarrow> exn + bool" where
  "verify_proof V F C stm p =
     (let cfg = p_circuit C;
          l = proof_layout F C
      in if length p \<noteq> l_size l \<or> take (length kProofVersion) p \<noteq> kProofVersion \<or>
           unat (p ! 8) \<noteq> kVoleTrees C \<or> unat (p ! 9) \<noteq> kProofDegree cfg \<or> unat (p ! 10) \<noteq> kGrindingBits C
         then Inr False
         else
           let delta = segment (l_delta l) 16 p
           in if \<not> grinding_passes C delta then Inr False
              else
                let nonce = segment (l_nonce l) 32 p;
                    iv = get_iv V C nonce;
                    expanded = expand_bits_to_bytes F delta;
                    commitment = segment (l_commitment l) (VOLE_COMMIT_SIZE F) p
                in case vole_reconstruct F iv expanded commitment (segment (l_opening l) (OPEN_SIZE F) p) of
                     None \<Rightarrow> Inr False
                   | Some (q, check) \<Rightarrow>
                       let chal1 = challenge1 V F C stm nonce check commitment iv;
                           h2 = transcript C 2 @ chal1;
                           check_pf = segment (l_vole_check l) (VOLE_CHECK_PROOF_BYTES F) p;
                           h2 = h2 @ check_pf;
                           h2 = h2 @ vole_check_receiver F q expanded chal1 check_pf;
                           correction = segment (l_correction l) (WBytes cfg) p;
                           h2 = h2 @ correction;
                           chal2 = shake256 V h2 (QS_CHALLENGE_BYTES F);
                           q = vole_receiver_apply_correction F correction q expanded;
                           macs = transpose_secpar F q;
                           key = load_le delta;
                           qs_pf = segment (l_quicksilver l) (QS_PROOF_BYTES cfg) p
                       in case evaluate cfg (auth_engine cfg (qs_verifier F macs (kConstraints cfg) key chal2)) ac_constraints ac_permutations stm auth_context_new of
                            Inl e \<Rightarrow> Inl e
                          | Inr (_, auth) \<Rightarrow>
                              let qs_check = qs_verify F macs (kConstraints cfg) key chal2 (ac_emitted auth) (kWitnessBits cfg) qs_pf;
                                  expected = finish_challenge3 V C (challenge3_prefix C chal2 qs_check qs_pf) (segment (l_counter l) 4 p)
                              in Inr (fold (\<lambda>i d. d OR (expected ! i XOR delta ! i)) [0..<16] 0 = (0 :: byte)))"

end
