(* ===== verification/Vole_Protocol.thy ===== *)
theory Vole_Protocol
  imports Vole_Proof
begin

text \<open>
  \<^verbatim>\<open>src/voleith/src/protocol.cpp\<close> and \<^verbatim>\<open>protocol.hpp\<close>: the signer, the user's commitment and
  unblinding, the verification of a signature, and the framed encodings of all artifacts. An
  exception is the left injection of \<open>exn + _\<close>; a \<open>std::array\<close> is a list whose length is its
  bound.
\<close>

subsection \<open>Data\<close>

record PublicKey =
  pub_seed :: bytes
  pub_root :: node

record UserState =
  st_digest :: bytes
  st_r :: bytes
  st_commitment :: bytes

record SecretKey =
  sec_seed :: bytes
  sec_public_seed :: bytes
  sec_height :: byte
  sec_next_leaf :: u64

record Signer =
  sg_key :: SecretKey
  sg_tree :: xmss_keypair

definition random :: "vole \<Rightarrow> nat \<Rightarrow> rng \<Rightarrow> (exn + bytes) \<times> rng" where
  "random V n c =
     (case v_random_bytes V n c of
        (None, c) \<Rightarrow> (Inl (Runtime_error ''OS random source failed''), c)
      | (Some bs, c) \<Rightarrow> (Inr bs, c))"

definition validate_key :: "SecretKey \<Rightarrow> bool" where
  "validate_key key \<longleftrightarrow> \<not> (uint (sec_height key) < 1 \<or> uint (sec_height key) > 32 \<or>
     sec_next_leaf key > push_bit (unat (sec_height key)) 1)"

definition invalid_key :: exn where "invalid_key = Invalid_argument ''invalid XMSS secret key state''"

definition statement :: "PublicKey \<Rightarrow> bytes \<Rightarrow> vstatement" where
  "statement pk digest = \<lparr>vs_message = digest, vs_pk_seed = pub_seed pk, vs_root = pub_root pk\<rparr>"

subsection \<open>Frames\<close>

definition frame :: "char \<Rightarrow> nat \<Rightarrow> bytes" where
  "frame kind n = (put 0 (ascii ''HBVO001'') (replicate (8 + n) 0))[7 := of_char kind]"

definition payload :: "bytes \<Rightarrow> char \<Rightarrow> nat \<Rightarrow> exn + bytes" where
  "payload b kind n =
     (let prefix = frame kind 0
      in if length b \<noteq> 8 + n \<or> take (length prefix) b \<noteq> prefix
         then Inl (Invalid_argument ''wrong artifact type, version or length'') else Inr (drop 8 b))"

definition load64 :: "bytes \<Rightarrow> u64" where
  "load64 p = fold (\<lambda>i v. v OR push_bit (8 * i) (ucast (p ! i))) [0..<8] 0"

definition store64 :: "u64 \<Rightarrow> bytes" where
  "store64 v = map (\<lambda>i. ucast (drop_bit (8 * i) v)) [0..<8]"

subsection \<open>The signer\<close>

definition Signer_new :: "vole \<Rightarrow> SecretKey \<Rightarrow> exn + Signer" where
  "Signer_new V key =
     (if \<not> validate_key key then Inl invalid_key
      else case v_xmss_keypair_new V (sec_seed key) (sec_public_seed key) (uint (sec_height key)) of
             None \<Rightarrow> Inl (Runtime_error ''XMSS tree generation failed'')
           | Some tree \<Rightarrow> Inr \<lparr>sg_key = key, sg_tree = tree\<rparr>)"

definition Signer_generate :: "vole \<Rightarrow> int \<Rightarrow> rng \<Rightarrow> (exn + Signer) \<times> rng" where
  "Signer_generate V height c =
     (if height < 1 \<or> height > 32 then (Inl (Invalid_argument ''XMSS height must be in [1,32]''), c)
      else case random V 32 c of
             (Inl e, c) \<Rightarrow> (Inl e, c)
           | (Inr seed, c) \<Rightarrow>
               (case random V 16 c of
                  (Inl e, c) \<Rightarrow> (Inl e, c)
                | (Inr public_seed, c) \<Rightarrow>
                    (Signer_new V \<lparr>sec_seed = seed, sec_public_seed = public_seed, sec_height = of_int height, sec_next_leaf = 0\<rparr>, c)))"

definition public_key :: "Signer \<Rightarrow> PublicKey" where
  "public_key sg = \<lparr>pub_seed = sec_public_seed (sg_key sg), pub_root = kp_root (sg_tree sg)\<rparr>"

definition secret_key :: "Signer \<Rightarrow> SecretKey" where "secret_key sg = sg_key sg"

text \<open>
  The callback \<open>persist\<close> is called with the key, acts on a state of the caller and may throw;
  \<open>None\<close> is the empty function. The result holds the signer, the caller's state and the entropy
  afterwards, whatever the outcome; the outer \<open>None\<close> is a nonce loop without end.
\<close>

type_synonym 'w persist = "SecretKey \<Rightarrow> 'w \<Rightarrow> exn option \<times> 'w"

definition Signer_sign ::
  "vole \<Rightarrow> Signer \<Rightarrow> bytes \<Rightarrow> 'w persist option \<Rightarrow> 'w \<times> rng \<Rightarrow> ((exn + xmss_sig) \<times> Signer \<times> 'w \<times> rng) option" where
  "Signer_sign V sg com persist = (\<lambda>(world, c).
     let key = sg_key sg
     in if sec_next_leaf key = push_bit (unat (sec_height key)) 1
        then Some (Inl (Runtime_error ''XMSS key exhausted''), sg, world, c)
        else
          let leaf = ucast (sec_next_leaf key) :: u32;
              sg = sg\<lparr>sg_key := key\<lparr>sec_next_leaf := sec_next_leaf key + 1\<rparr>\<rparr>;
              (thrown, world) = (case persist of None \<Rightarrow> (None, world) | Some f \<Rightarrow> f (sg_key sg) world)
          in case thrown of
               Some e \<Rightarrow> Some (Inl e, sg, world, c)
             | None \<Rightarrow>
                 let d = v_hm_digest V com
                 in case v_xmss_keypair_sign V (sg_tree sg) leaf d c of
                      None \<Rightarrow> None
                    | Some (tree, None, c) \<Rightarrow>
                        Some (Inl (Runtime_error ''XMSS signing failed; reserved leaf consumed''), sg\<lparr>sg_tree := tree\<rparr>, world, c)
                    | Some (tree, Some sig, c) \<Rightarrow> Some (Inr sig, sg\<lparr>sg_tree := tree\<rparr>, world, c))"

subsection \<open>The user\<close>

definition message_digest :: "vole \<Rightarrow> bytes \<Rightarrow> bytes" where
  "message_digest V message = shake_th_into (shake256 V) (ascii ''MSG'') message 32"

definition user_commit :: "vole \<Rightarrow> bytes \<Rightarrow> rng \<Rightarrow> (exn + UserState) \<times> rng" where
  "user_commit V message c =
     (let digest = message_digest V message
      in case random V 96 c of
           (Inl e, c) \<Rightarrow> (Inl e, c)
         | (Inr r, c) \<Rightarrow>
             (case random V 192 c of
                (Inl e, c) \<Rightarrow> (Inl e, c)
              | (Inr a, c) \<Rightarrow>
                  (Inr \<lparr>st_digest = digest, st_r = r, st_commitment = fst (v_hm_commit V digest r a)\<rparr>, c)))"

text \<open>The two nested loops that fill the schedule: the witness and the position \<open>at\<close>.\<close>

definition schedule_write :: "nat \<Rightarrow> (bytes \<times> nat, unit) run" where
  "schedule_write i = (\<lambda>(p, pos). if pos < length p then Inr ((), p[pos := of_nat i], pos + 1) else Inl Out_of_range)"

definition schedule_fill :: "byte list \<Rightarrow> (bytes \<times> nat, unit) run" where
  "schedule_fill coords =
     loop (\<lambda>i _. loop (\<lambda>j _. schedule_write i) [unat (coords ! i)..<7] ()) [0..<42] ()"

definition primary_witness :: "vole \<Rightarrow> UserState \<Rightarrow> PublicKey \<Rightarrow> xmss_sig \<Rightarrow> exn + bytes" where
  "primary_witness V st pk sig =
     (let (com, d) = v_hm_commit V (st_digest st) (st_r st) (take 192 (st_commitment st))
      in if com \<noteq> st_commitment st then Inl (Invalid_argument ''inconsistent HM opening'')
         else if \<not> v_xmss_verify V (pub_seed pk) (pub_root pk) d sig then Inl (Invalid_argument ''invalid XMSS signer response'')
         else
           let p = replicate kPrimaryBytes 0;
               p = put 0 (take 96 (st_r st)) p;
               p = put 96 (take 192 (st_commitment st)) p;
               p = put kSigOffset (xmss_write_sig sig) p;
               digest = v_xmss_hash_message V (pub_seed pk) (xs_leaf_index sig) (xs_nonce sig) d;
               (ok, coords) = xmss_extract_coords digest
           in if \<not> ok then Inl (Invalid_argument ''invalid target-sum codeword'')
              else case schedule_fill coords (p, kScheduleOffset) of
                     Inl e \<Rightarrow> Inl e
                   | Inr (_, p, pos) \<Rightarrow>
                       if pos \<noteq> kEndpointsOffset then Inl (Logic_error ''chain schedule length'')
                       else Inr (put kEndpointsOffset
                              (concat (v_xmss_wots_pk_from_sig V (pub_seed pk) (xs_leaf_index sig) (xs_sig_hashes sig) coords)) p))"

definition unblind ::
  "vole \<Rightarrow> ('g, 'm, 'p, 'r) faest \<Rightarrow> pconfig \<Rightarrow> circuit_lib \<Rightarrow> UserState \<Rightarrow> PublicKey \<Rightarrow> xmss_sig \<Rightarrow> rng \<Rightarrow> (exn + bytes) \<times> rng" where
  "unblind V F C L st pk response c =
     (case primary_witness V st pk response of
        Inl e \<Rightarrow> (Inl e, c)
      | Inr p \<Rightarrow> prove V F C L (statement pk (st_digest st)) p c)"

definition verify_signature ::
  "vole \<Rightarrow> ('g, 'm, 'p, 'r) faest \<Rightarrow> pconfig \<Rightarrow> PublicKey \<Rightarrow> bytes \<Rightarrow> bytes \<Rightarrow> exn + bool" where
  "verify_signature V F C pk message signature = verify_proof V F C (statement pk (message_digest V message)) signature"

subsection \<open>Encodings\<close>

definition encode_public :: "PublicKey \<Rightarrow> bytes" where
  "encode_public pk = put 24 (pub_root pk) (put 8 (pub_seed pk) (frame (CHR ''P'') 32))"

definition decode_public :: "bytes \<Rightarrow> exn + PublicKey" where
  "decode_public b =
     (case payload b (CHR ''P'') 32 of
        Inl e \<Rightarrow> Inl e
      | Inr p \<Rightarrow> Inr \<lparr>pub_seed = segment 0 16 p, pub_root = segment 16 16 p\<rparr>)"

definition encode_secret :: "SecretKey \<Rightarrow> exn + bytes" where
  "encode_secret sk =
     (if \<not> validate_key sk then Inl invalid_key
      else let b = frame (CHR ''K'') 57;
               b = put 8 (sec_seed sk) b;
               b = put (8 + 32) (sec_public_seed sk) b;
               b = b[8 + 48 := sec_height sk]
           in Inr (put (8 + 49) (store64 (sec_next_leaf sk)) b))"

definition decode_secret :: "bytes \<Rightarrow> exn + SecretKey" where
  "decode_secret b =
     (case payload b (CHR ''K'') 57 of
        Inl e \<Rightarrow> Inl e
      | Inr p \<Rightarrow>
          let sk = \<lparr>sec_seed = segment 0 32 p, sec_public_seed = segment 32 16 p, sec_height = p ! 48, sec_next_leaf = load64 (drop 49 p)\<rparr>
          in if \<not> validate_key sk then Inl invalid_key else Inr sk)"

definition encode_state :: "UserState \<Rightarrow> bytes" where
  "encode_state s = put (8 + 128) (st_commitment s) (put (8 + 32) (st_r s) (put 8 (st_digest s) (frame (CHR ''U'') 384)))"

definition decode_state :: "bytes \<Rightarrow> exn + UserState" where
  "decode_state b =
     (case payload b (CHR ''U'') 384 of
        Inl e \<Rightarrow> Inl e
      | Inr p \<Rightarrow> Inr \<lparr>st_digest = segment 0 32 p, st_r = segment 32 96 p, st_commitment = segment 128 256 p\<rparr>)"

definition encode_commitment :: "bytes \<Rightarrow> bytes" where
  "encode_commitment com = put 8 com (frame (CHR ''C'') 256)"

definition decode_commitment :: "bytes \<Rightarrow> exn + bytes" where
  "decode_commitment b = (case payload b (CHR ''C'') 256 of Inl e \<Rightarrow> Inl e | Inr p \<Rightarrow> Inr (segment 0 256 p))"

definition encode_response :: "xmss_sig \<Rightarrow> bytes" where
  "encode_response sig = put 8 (xmss_write_sig sig) (frame (CHR ''S'') XMSS_SIG_BYTES)"

definition decode_response :: "bytes \<Rightarrow> exn + xmss_sig" where
  "decode_response b =
     (case payload b (CHR ''S'') XMSS_SIG_BYTES of
        Inl e \<Rightarrow> Inl e
      | Inr p \<Rightarrow> (case xmss_read_sig p of
                   None \<Rightarrow> Inl (Invalid_argument ''invalid XMSS encoding'')
                 | Some s \<Rightarrow> Inr s))"

end
