(* ===== verification/Vole_Pair.thy ===== *)
theory Vole_Pair
  imports Vole_Auth_Permute
begin

text \<open>
  The prover and the verifier run the same circuit in two authenticated contexts. If the
  operations of their QuickSilver values preserve a relation, the two runs stay in step and
  emit related constraints.
\<close>

definition qs_rel :: "('q \<Rightarrow> 'r \<Rightarrow> bool) \<Rightarrow> 'q qs_ops \<Rightarrow> 'r qs_ops \<Rightarrow> bool" where
  "qs_rel R Q Q' \<longleftrightarrow> (\<forall>b. R (qs_constant Q b) (qs_constant Q' b)) \<and> (\<forall>i. R (get_witness_bit Q i) (get_witness_bit Q' i)) \<and>
     (\<forall>a b x y. R a x \<longrightarrow> R b y \<longrightarrow> R (qs_add Q a b) (qs_add Q' x y) \<and> R (qs_mul Q a b) (qs_mul Q' x y)) \<and>
     (\<forall>a x c. R a x \<longrightarrow> R (qs_scale Q a c) (qs_scale Q' x c))"

lemma qs_relD:
  assumes "qs_rel R Q Q'"
  shows "R (qs_constant Q v) (qs_constant Q' v)" "R (get_witness_bit Q i) (get_witness_bit Q' i)"
    "R a x \<Longrightarrow> R b y \<Longrightarrow> R (qs_add Q a b) (qs_add Q' x y)" "R a x \<Longrightarrow> R b y \<Longrightarrow> R (qs_mul Q a b) (qs_mul Q' x y)"
    "R a x \<Longrightarrow> R (qs_scale Q a c) (qs_scale Q' x c)"
  using assms by (simp_all add: qs_rel_def)

lemma qs_rel_ops: "qs_rel R Q Q' \<Longrightarrow> ops_rel R (qs_lane_ops Q) (qs_lane_ops Q')"
  by (simp add: ops_rel_def qs_lane_ops_def qs_relD)

definition paired :: "('q \<Rightarrow> 'r \<Rightarrow> bool) \<Rightarrow> 'q auth_context \<Rightarrow> 'r auth_context \<Rightarrow> bool" where
  "paired R s t \<longleftrightarrow> ac_cursor s = ac_cursor t \<and> ac_constraints s = ac_constraints t \<and>
     ac_permutations s = ac_permutations t \<and> list_all2 R (ac_emitted s) (ac_emitted t)"

lemma paired_new: "paired R auth_context_new auth_context_new"
  by (simp add: paired_def auth_context_new_def)

lemma pair_allocate: "qs_rel R Q Q' \<Longrightarrow> in_step (paired R) R (a_allocate Q v) (a_allocate Q' v')"
  by (rule in_stepI) (simp add: a_allocate_def paired_def qs_relD)

lemma pair_zero: "R a x \<Longrightarrow> in_step (paired R) (\<lambda>_ _. True) (a_zero a) (a_zero x)"
  by (rule in_stepI) (simp add: a_zero_def paired_def list_all2_appendI)

lemma pair_pack:
  assumes Q: "qs_rel R Q Q'" and as: "bits_rel R n as xs"
  shows "in_step (paired R) R (a_pack Q as) (a_pack Q' xs)"
proof -
  have "R (fold (\<lambda>i r. qs_add Q r (qs_scale Q (as ! i) (co i))) is a) (fold (\<lambda>i r. qs_add Q' r (qs_scale Q' (xs ! i) (co i))) is x)"
    if "\<forall>i\<in>set is. i < n" "R a x" for co :: "nat \<Rightarrow> poly128" and "is" a x
    using that by (induction "is" arbitrary: a x) (auto simp: qs_relD [OF Q] bits_rel_nth [OF as])
  then show ?thesis
    unfolding a_pack_def Let_def bits_rel_length [OF as] by (intro in_step_ret) (simp add: qs_relD [OF Q])
qed

lemma pair_field_witness:
  assumes Q: "qs_rel R Q Q'" and a: "R a x"
  shows "in_step (paired R) (bits_rel R n) (a_field_witness Q a n) (a_field_witness Q' x n)"
  unfolding a_field_witness_def
  by (rule in_step_seq [OF in_step_collect [OF pair_allocate [OF Q]]], rule in_step_seq [OF pair_pack [OF Q]], assumption,
      rule in_step_seq [OF pair_zero], rule qs_relD(3) [OF Q a], assumption, rule in_step_ret, assumption)

lemma pair_blocks: "bits_rel R 1600 xs ys \<Longrightarrow> lanes_rel 25 R (blocks 64 25 xs) (blocks 64 25 ys)"
  by (rule stands_blocks)

lemma pair_meet:
  assumes Q: "qs_rel R Q Q'" and fwd: "lanes_rel 25 R s t"
  shows "in_step (paired R) (bits_rel R 1600) (a_meet cfg Q s lr) (a_meet cfg Q' t lr)"
proof -
  let ?undo = "\<lambda>K st. let b9 = keccak_backward K (lr - 1) (keccak_backward K lr (blocks 64 25 st))
      in if kProofDegree cfg = 16 then b9 else keccak_backward K (lr - 2) b9"
  have b: "lanes_rel 25 R (?undo (qs_lane_ops Q) xs) (?undo (qs_lane_ops Q') ys)" if "bits_rel R 1600 xs ys" for xs ys
    using pair_blocks [OF that] by (auto simp: Let_def intro!: lanes_rel_backward [OF qs_rel_ops [OF Q]])
  have z: "in_step (paired R) (\<lambda>_ _. True) (a_zero (qs_add Q (concat s ! i) (concat (?undo (qs_lane_ops Q) xs) ! i)))
      (a_zero (qs_add Q' (concat t ! i) (concat (?undo (qs_lane_ops Q') ys) ! i)))" if "bits_rel R 1600 xs ys" "i < 1600" for xs ys i
    by (intro pair_zero qs_relD(3) [OF Q] lanes_rel_concat [OF fwd] lanes_rel_concat [OF b [OF that(1)]] that(2))
  have "in_step (paired R) (bits_rel R 1600)
      (seq (collect (\<lambda>i. a_allocate Q False) [0..<1600]) (\<lambda>st. seq (collect (\<lambda>i. a_zero (qs_add Q (concat s ! i) (concat (?undo (qs_lane_ops Q) st) ! i))) [0..<1600]) (\<lambda>_. ret st)))
      (seq (collect (\<lambda>i. a_allocate Q' False) [0..<1600]) (\<lambda>st. seq (collect (\<lambda>i. a_zero (qs_add Q' (concat t ! i) (concat (?undo (qs_lane_ops Q') st) ! i))) [0..<1600]) (\<lambda>_. ret st)))"
    by (rule in_step_seq [OF in_step_collect [OF pair_allocate [OF Q]]], rule in_step_seq [OF in_step_collect [OF z]], assumption+, rule in_step_ret, assumption)
  then show ?thesis unfolding a_meet_def Let_def .
qed

lemma pair_forward:
  assumes Q: "qs_rel R Q Q'" and s: "lanes_rel 25 R s t"
  shows "lanes_rel 25 R (keccak_forward (qs_lane_ops Q) i s (replicate 25 (replicate 64 (qs_constant Q False))) n)
    (keccak_forward (qs_lane_ops Q') i t (replicate 25 (replicate 64 (qs_constant Q' False))) n)"
  by (rule lanes_rel_forward [OF qs_rel_ops [OF Q] s]) (simp add: lanes_rel_def lane_rel_def qs_relD(1) [OF Q])

lemma pair_stride:
  assumes Q: "qs_rel R Q Q'" and st: "bits_rel R 1600 xs ys" and keep: "keep \<le> 1600"
  shows "in_step (paired R) (bits_rel R (if kProofDegree cfg \<notin> {16, 32} \<and> r = 18 then keep else 1600)) (a_stride cfg Q keep r xs) (a_stride cfg Q' keep r ys)"
proof -
  note b = pair_blocks [OF st] and f = pair_forward [OF Q]
  have last: "in_step (paired R) (bits_rel R keep)
      (collect (\<lambda>i. seq (a_allocate Q False) (\<lambda>b. seq (a_zero (qs_add Q (concat s ! i) b)) (\<lambda>_. ret b))) [0..<keep])
      (collect (\<lambda>i. seq (a_allocate Q' False) (\<lambda>b. seq (a_zero (qs_add Q' (concat t ! i) b)) (\<lambda>_. ret b))) [0..<keep])"
    if "lanes_rel 25 R s t" for s t
  proof (rule in_step_collect)
    fix i assume i: "i < keep"
    have "R (concat s ! i) (concat t ! i)" by (rule lanes_rel_concat [OF that]) (use i keep in simp)
    then show "in_step (paired R) R (seq (a_allocate Q False) (\<lambda>b. seq (a_zero (qs_add Q (concat s ! i) b)) (\<lambda>_. ret b)))
        (seq (a_allocate Q' False) (\<lambda>b. seq (a_zero (qs_add Q' (concat t ! i) b)) (\<lambda>_. ret b)))"
      by (intro in_step_seq [OF pair_allocate [OF Q]] in_step_seq [OF pair_zero] in_step_ret qs_relD(3) [OF Q])
  qed
  show ?thesis
  proof (cases "kProofDegree cfg = 16")
    case True
    then have n: "(if kProofDegree cfg \<notin> {16, 32} \<and> r = 18 then keep else 1600) = 1600" by simp
    show ?thesis unfolding n a_stride_def Let_def if_P [OF True] by (intro pair_meet [OF Q] f b)
  next
    case no: False
    show ?thesis
    proof (cases "kProofDegree cfg = 32")
      case True
      then have n: "(if kProofDegree cfg \<notin> {16, 32} \<and> r = 18 then keep else 1600) = 1600" by simp
      show ?thesis unfolding n a_stride_def Let_def if_not_P [OF no] if_P [OF True] by (intro pair_meet [OF Q] f b)
    next
      case False
      show ?thesis
      proof (cases "r = 18")
        case True
        then have n: "(if kProofDegree cfg \<notin> {16, 32} \<and> r = 18 then keep else 1600) = keep" using no False by simp
        show ?thesis unfolding n a_stride_def Let_def if_not_P [OF no] if_not_P [OF False] if_P [OF True] by (intro last f b)
      next
        case other: False
        then have n: "(if kProofDegree cfg \<notin> {16, 32} \<and> r = 18 then keep else 1600) = 1600" by simp
        show ?thesis unfolding n a_stride_def Let_def if_not_P [OF no] if_not_P [OF False] if_not_P [OF other] by (intro pair_meet [OF Q] f b)
      qed
    qed
  qed
qed

lemma pair_permute:
  assumes Q: "qs_rel R Q Q'" and st: "bits_rel R 1600 xs ys" and keep: "keep \<le> 1600"
  shows "in_step (paired R) (bits_rel R (if kProofDegree cfg \<notin> {16, 32} then keep else 1600)) (a_permute cfg Q xs keep) (a_permute cfg Q' ys keep)"
proof -
  let ?n = "if kProofDegree cfg \<notin> {16, 32} then keep else 1600"
  have loop: "in_step (paired R) (bits_rel R ?n)
      (loop (a_stride cfg Q keep) (map (\<lambda>k. k * kKeccakStride cfg) [0..<(24 + kKeccakStride cfg - 1) div kKeccakStride cfg]) xs)
      (loop (a_stride cfg Q' keep) (map (\<lambda>k. k * kKeccakStride cfg) [0..<(24 + kKeccakStride cfg - 1) div kKeccakStride cfg]) ys)"
  proof (cases "kProofDegree cfg \<in> {16, 32}")
    case True
    have "in_step (paired R) (bits_rel R 1600) (a_stride cfg Q keep r a) (a_stride cfg Q' keep r b)" if "bits_rel R 1600 a b" for r a b
      using pair_stride [OF Q that keep, of cfg r] True by auto
    then show ?thesis using True st by (auto intro!: in_step_loop [where A = "bits_rel R 1600"])
  next
    case False
    then have deg: "kKeccakStride cfg = 9" by (simp add: kKeccakStride_def)
    have rounds: "map (\<lambda>k. k * kKeccakStride cfg) [0..<(24 + kKeccakStride cfg - 1) div kKeccakStride cfg] = [0, 9, 18]"
      by (simp add: deg upt_rec)
    have full: "in_step (paired R) (bits_rel R 1600) (a_stride cfg Q keep r a) (a_stride cfg Q' keep r b)" if "bits_rel R 1600 a b" "r \<noteq> 18" for r a b
      using pair_stride [OF Q that(1) keep, of cfg r] that(2) by simp
    have last: "in_step (paired R) (bits_rel R keep) (a_stride cfg Q keep 18 a) (a_stride cfg Q' keep 18 b)" if "bits_rel R 1600 a b" for a b
      using pair_stride [OF Q that keep, of cfg 18] False by simp
    have n: "?n = keep" using False by simp
    show ?thesis
      unfolding rounds n loop.simps
      by (rule in_step_seq [OF full [OF st]], simp, rule in_step_seq [OF full], assumption, simp,
          rule in_step_seq [OF last], assumption, rule in_step_ret, assumption)
  qed
  show ?thesis
    unfolding a_permute_def
    by (rule in_step_seq [OF loop], rule in_stepI) (simp add: paired_def)
qed

lemma paired_engines:
  assumes "qs_rel R Q Q'"
  shows "related_engines (auth_engine cfg Q) (auth_engine cfg Q') (paired R) R R (\<lambda>n. if kProofDegree cfg \<notin> {16, 32} then n else 1600)"
proof
  show "in_step (paired R) (\<lambda>_ _. True) (seq (e_allocate (auth_engine cfg Q) False) (e_zero_bit (auth_engine cfg Q)))
      (seq (e_allocate (auth_engine cfg Q') False) (e_zero_bit (auth_engine cfg Q')))"
    unfolding auth_engine_simps by (rule in_step_seq [OF pair_allocate [OF assms]], rule pair_zero)
  show "in_step (paired R) R (e_mul (auth_engine cfg Q) a b) (e_mul (auth_engine cfg Q') x y)" if "R a x" "R b y" for a b x y
    unfolding auth_engine_simps a_mul_def
    by (rule in_step_seq [OF pair_allocate [OF assms]], rule in_step_seq [OF pair_zero], intro qs_relD [OF assms] that, assumption, rule in_step_ret)
  show "in_step (paired R) R (e_bit (auth_engine cfg Q) i) (e_bit (auth_engine cfg Q') i)" for i
    unfolding auth_engine_simps a_bit_def by (rule in_step_ret) (rule qs_relD(2) [OF assms])
  show "in_step (paired R) (bits_rel R (if kProofDegree cfg \<notin> {16, 32} then keep else 1600)) (e_permute (auth_engine cfg Q) as keep) (e_permute (auth_engine cfg Q') xs keep)"
    if "bits_rel R 1600 as xs" "keep \<le> 1600" for as xs keep
    unfolding auth_engine_simps by (rule pair_permute [OF assms that])
qed (auto simp: paired_def qs_relD [OF assms] intro: pair_zero pair_pack [OF assms] pair_field_witness [OF assms])

theorem paired_statement:
  assumes "qs_rel R Q Q'" "statement_wf stm"
  shows "in_step (paired R) (\<lambda>_ _. True) (c_statement cfg (auth_engine cfg Q) stm) (c_statement cfg (auth_engine cfg Q') stm)"
  by (rule related_engines.rel_statement [OF paired_engines [OF assms(1)]]) (use assms(2) in \<open>simp_all add: statement_wf_def\<close>)

end
