(* ===== verification/Vole_Complete.thy ===== *)
theory Vole_Complete
  imports Vole_Proof Vole_Pair
begin

text \<open>
  What \<open>prove\<close> returns, \<open>verify_proof\<close> accepts. \<open>faest_ok\<close> states what the FAEST code promises; from
  it, and from the equality of the two circuits, the verifier recomputes every value the prover
  put into the transcript.
\<close>

subsection \<open>The library's promises\<close>

text \<open>The VOLE correlation on the rows of the transposed matrices: the verifier's keys are the
  prover's MACs, plus \<open>\<Delta>\<close> where the bit is set.\<close>

definition correlated :: "poly128 \<Rightarrow> bytes \<Rightarrow> poly128 list \<Rightarrow> poly128 list \<Rightarrow> bool" where
  "correlated D x macs keys \<longleftrightarrow> length keys = length macs \<and>
     (\<forall>i<8 * length x. i < length macs \<longrightarrow> keys ! i = macs ! i XOR (if bit (x ! (i div 8)) (i mod 8) then D else 0))"

text \<open>The VOLE: a forest opens at every \<open>\<Delta>\<close> (the file asserts \<open>OPEN_ALWAYS_SUCCEEDS\<close>); the
  opening reconstructs the receiver's matrix and the check value of the commitment; the sender
  absorbs the proof of the consistency check and then what the receiver absorbs (the comment in
  \<open>verify_proof\<close>); after the correction by the difference of \<open>u\<close> and a witness, the two matrices are
  correlated on that witness and the remaining masks.\<close>

definition vole_law :: "('g, 'm, 'p, 'r) faest \<Rightarrow> vconfig \<Rightarrow> bytes \<Rightarrow> 'g \<Rightarrow> bytes \<Rightarrow> 'm \<Rightarrow> bytes \<Rightarrow> bytes \<Rightarrow> bytes \<Rightarrow> bytes \<Rightarrow> 'm \<Rightarrow> bool" where
  "vole_law F cfg iv forest u v commitment check delta opened q \<longleftrightarrow>
     vc_open F forest (expand_bits_to_bytes F delta) = Some opened \<and> length opened = OPEN_SIZE F \<and>
     vole_reconstruct F iv (expand_bits_to_bytes F delta) commitment opened = Some (q, check) \<and>
     (\<forall>chal. snd (vole_check_sender F u v chal) = fst (vole_check_sender F u v chal) @
        vole_check_receiver F q (expand_bits_to_bytes F delta) chal (fst (vole_check_sender F u v chal))) \<and>
     (\<forall>w. length w = WBytes cfg \<longrightarrow> correlated (load_le delta) (w @ drop (WBytes cfg) u) (transpose_secpar F v)
        (transpose_secpar F (vole_receiver_apply_correction F (map (\<lambda>i. u ! i XOR w ! i) [0..<WBytes cfg]) q (expand_bits_to_bytes F delta))))"

definition faest_vole_ok :: "('g, 'm, 'p, 'r) faest \<Rightarrow> vconfig \<Rightarrow> bool" where
  "faest_vole_ok F cfg \<longleftrightarrow> (\<forall>seed iv forest u v commitment check. vole_commit F seed iv = (forest, u, v, commitment, check) \<longrightarrow>
     length commitment = VOLE_COMMIT_SIZE F \<and> WBytes cfg \<le> length u \<and>
     (\<forall>chal. length (fst (vole_check_sender F u v chal)) = VOLE_CHECK_PROOF_BYTES F) \<and>
     (\<forall>delta. length delta = 16 \<longrightarrow> (\<exists>opened q. vole_law F cfg iv forest u v commitment check delta opened q)))"

text \<open>QuickSilver: on correlated MACs and keys, the prover's values stand for field elements and
  the witness bits for the witness; the verifier's operations keep the relation of keys to
  values; if every constraint the prover adds stands for zero, and the verifier adds the related
  ones, both arrive at the same check value.\<close>

definition quicksilver_law ::
  "('g, 'm, 'p, 'r) faest \<Rightarrow> vconfig \<Rightarrow> circuit_lib \<Rightarrow> bytes \<Rightarrow> poly128 list \<Rightarrow> poly128 list \<Rightarrow> poly128 \<Rightarrow> bytes \<Rightarrow>
   ('p \<Rightarrow> 'r \<Rightarrow> bool) \<Rightarrow> ('p \<Rightarrow> poly128) \<Rightarrow> (nat \<Rightarrow> bool) \<Rightarrow> bool" where
  "quicksilver_law F cfg L x macs keys D chal R val w \<longleftrightarrow>
     (\<forall>i<8 * length x. w i = bit (x ! (i div 8)) (i mod 8)) \<and>
     qs_ok L (qs_prover F x macs (kConstraints cfg) chal) val w \<and>
     qs_rel R (qs_prover F x macs (kConstraints cfg) chal) (qs_verifier F keys (kConstraints cfg) D chal) \<and>
     (\<forall>cs ds. list_all2 R cs ds \<longrightarrow> (\<forall>c\<in>set cs. val c = 0) \<longrightarrow>
        qs_verify F keys (kConstraints cfg) D chal ds (kWitnessBits cfg) (fst (qs_prove F x macs (kConstraints cfg) chal cs (kWitnessBits cfg))) =
        snd (qs_prove F x macs (kConstraints cfg) chal cs (kWitnessBits cfg)))"

definition faest_qs_ok :: "('g, 'm, 'p, 'r) faest \<Rightarrow> vconfig \<Rightarrow> circuit_lib \<Rightarrow> bool" where
  "faest_qs_ok F cfg L \<longleftrightarrow>
     (\<forall>x macs chal cs. length (fst (qs_prove F x macs (kConstraints cfg) chal cs (kWitnessBits cfg))) = QS_PROOF_BYTES cfg) \<and>
     (\<forall>x macs keys D chal. correlated D x macs keys \<longrightarrow> (\<exists>R val w. quicksilver_law F cfg L x macs keys D chal R val w))"

definition faest_ok :: "('g, 'm, 'p, 'r) faest \<Rightarrow> vconfig \<Rightarrow> circuit_lib \<Rightarrow> bool" where
  "faest_ok F cfg L \<longleftrightarrow> faest_vole_ok F cfg \<and> faest_qs_ok F cfg L"

subsection \<open>Dimensions\<close>

lemma WBytes_bits: "8 * WBytes cfg = kWitnessBits cfg"
  by (simp add: WBytes_def kWitnessBits_def kFinalKeccakBits_def)

lemma evaluate_native:
  assumes "cfg_ok cfg" "statement_wf stm"
  shows "evaluate cfg (native_engine cfg L) nc_constraints nc_permutations stm (native_context_new p v) =
    c_statement cfg (native_engine cfg L) stm (native_context_new p v)"
  using native_dimensions [OF assms, of L p v] by (auto simp: evaluate_def seq_def split: sum.split)

lemma evaluate_auth:
  assumes "cfg_ok cfg" "statement_wf stm"
  shows "evaluate cfg (auth_engine cfg Q) ac_constraints ac_permutations stm auth_context_new =
    c_statement cfg (auth_engine cfg Q) stm auth_context_new"
  using auth_dimensions [OF assms, of Q] by (auto simp: evaluate_def seq_def split: sum.split)

subsection \<open>Buffers\<close>

lemma put_append: "put (length a) b (a @ c) = (a @ b) @ drop (length b) c"
  by (simp add: put_def)

lemma put_zeros: "off = length a \<Longrightarrow> put off b (a @ replicate n 0) = (a @ b) @ replicate (n - length b) 0"
  by (simp add: put_append)

lemma update_zeros: "off = length a \<Longrightarrow> 0 < n \<Longrightarrow> (a @ replicate n 0)[off := x] = (a @ [x]) @ replicate (n - 1) 0"
  by (cases n) (simp_all add: list_update_append)

lemma put_inner: "off = length a + length b \<Longrightarrow> put off c (a @ b @ d) = a @ b @ c @ drop (length c) d"
  using put_append [of "a @ b" c d] by simp

lemma segment_inner: "off = length a \<Longrightarrow> n = length b \<Longrightarrow> segment off n (a @ b @ c) = b"
  by (simp add: segment_def)

subsection \<open>Grinding\<close>

lemma grind_outcome:
  assumes "grind V C h3 counter delta = Inr (counter', delta')" "delta = finish_challenge3 V C h3 (bytes_le 4 counter)"
  shows "delta' = finish_challenge3 V C h3 (bytes_le 4 counter') \<and> grinding_passes C delta'"
  using assms
proof (induction V C h3 counter delta rule: grind.induct)
  case (1 V C h3 counter delta)
  note eq = grind.simps [of V C h3 counter delta]
  show ?case
  proof (cases "grinding_passes C delta")
    case True
    then show ?thesis using 1(2,3) eq by simp
  next
    case False
    then have c: "counter \<noteq> - 1" using 1(2) eq by auto
    then have "grind V C h3 (counter + 1) (finish_challenge3 V C h3 (bytes_le 4 (counter + 1))) = Inr (counter', delta')"
      using 1(2) eq False by (simp add: Let_def)
    then show ?thesis by (rule 1(1) [OF False c refl refl _ refl])
  qed
qed

lemma xor_fold_zero:
  "fold (\<lambda>i d. d OR (a ! i XOR b ! i)) [0..<n] 0 = (0 :: byte) \<longleftrightarrow> (\<forall>i<n. a ! i = b ! i)"
  by (induction n) (auto simp: word_xor_zero or_eq_0_iff less_Suc_eq)

subsection \<open>What the prover returns\<close>

definition proof_front :: "pconfig \<Rightarrow> bytes \<Rightarrow> bytes \<Rightarrow> bytes \<Rightarrow> bytes \<Rightarrow> bytes \<Rightarrow> bytes" where
  "proof_front C nonce commitment check_pf correction qs_pf =
     kProofVersion @ [of_nat (kVoleTrees C), of_nat (kProofDegree (p_circuit C)), of_nat (kGrindingBits C)] @
     nonce @ commitment @ check_pf @ correction @ qs_pf"

definition counter_bytes :: "pconfig \<Rightarrow> u32 \<Rightarrow> bytes" where
  "counter_bytes C counter = (if kGrindingBits C > 0 then bytes_le 4 counter else [])"

lemma finish_counter: "finish_challenge3 V C h (counter_bytes C k) = finish_challenge3 V C h (bytes_le 4 k)"
  by (simp add: finish_challenge3_def counter_bytes_def)

lemma length_version: "length kProofVersion = 8"
  by (simp add: kProofVersion_def ascii_def)

text \<open>Lengths of the parts of a proof.\<close>

definition parts_fit :: "('g, 'm, 'p, 'r) faest \<Rightarrow> pconfig \<Rightarrow> bytes \<Rightarrow> bytes \<Rightarrow> bytes \<Rightarrow> bytes \<Rightarrow> bytes \<Rightarrow> bool" where
  "parts_fit F C nonce commitment check_pf correction qs_pf \<longleftrightarrow> length nonce = 32 \<and> length commitment = VOLE_COMMIT_SIZE F \<and>
     length check_pf = VOLE_CHECK_PROOF_BYTES F \<and> length correction = WBytes (p_circuit C) \<and> length qs_pf = QS_PROOF_BYTES (p_circuit C)"

lemma front_layout:
  assumes "parts_fit F C nonce com cpf cor qpf"
  shows "length (proof_front C nonce com cpf cor qpf) = l_opening (proof_layout F C)"
    "l_delta (proof_layout F C) = l_opening (proof_layout F C) + OPEN_SIZE F"
    "l_counter (proof_layout F C) = l_opening (proof_layout F C) + OPEN_SIZE F + 16"
    "l_size (proof_layout F C) = l_opening (proof_layout F C) + OPEN_SIZE F + 16 + (if kGrindingBits C > 0 then 4 else 0)"
  using assms by (simp_all add: parts_fit_def proof_front_def proof_layout_def Let_def length_version)

lemma front_filled:
  assumes "parts_fit F C nonce com cpf cor qpf"
  defines "l \<equiv> proof_layout F C"
  shows "put (l_quicksilver l) qpf (put (l_correction l) cor (put (l_vole_check l) cpf (put (l_commitment l) com (put (l_nonce l) nonce
      ((put 0 kProofVersion (replicate (l_size l) 0))[8 := of_nat (kVoleTrees C), 9 := of_nat (kProofDegree (p_circuit C)), 10 := of_nat (kGrindingBits C)]))))) =
    proof_front C nonce com cpf cor qpf @ replicate (OPEN_SIZE F + 16 + (if kGrindingBits C > 0 then 4 else 0)) 0"
proof -
  note len = assms(1) [unfolded parts_fit_def]
  let ?k = "OPEN_SIZE F + 16 + (if kGrindingBits C > 0 then 4 else 0)"
  let ?n = "32 + length com + length cpf + length cor + length qpf + ?k"
  let ?h = "kProofVersion @ [of_nat (kVoleTrees C), of_nat (kProofDegree (p_circuit C)), of_nat (kGrindingBits C)]"
  have size: "l_size l = 8 + 3 + ?n" using len by (simp add: l_def proof_layout_def Let_def length_version)
  have "put 0 kProofVersion (replicate (l_size l) 0) = kProofVersion @ replicate (3 + ?n) 0"
    using put_zeros [of 0 "[]" kProofVersion "l_size l"] by (simp add: size length_version)
  moreover have "(kProofVersion @ replicate (3 + ?n) 0)[8 := a, 9 := b, 10 := c] = (kProofVersion @ [a, b, c]) @ replicate ?n 0" for a b c
    by (simp add: update_zeros [of 8 kProofVersion] update_zeros [of 9 "kProofVersion @ [a]", simplified]
        update_zeros [of 10 "kProofVersion @ [a, b]", simplified] length_version)
  ultimately have h: "(put 0 kProofVersion (replicate (l_size l) 0))[8 := of_nat (kVoleTrees C), 9 := of_nat (kProofDegree (p_circuit C)), 10 := of_nat (kGrindingBits C)] =
      ?h @ replicate ?n 0" by simp
  have offs: "l_nonce l = length ?h" "l_commitment l = length (?h @ nonce)" "l_vole_check l = length ((?h @ nonce) @ com)"
    "l_correction l = length (((?h @ nonce) @ com) @ cpf)" "l_quicksilver l = length ((((?h @ nonce) @ com) @ cpf) @ cor)"
    using len by (simp_all add: l_def proof_layout_def Let_def length_version)
  show ?thesis
    unfolding h put_zeros [OF offs(1)] put_zeros [OF offs(2)] put_zeros [OF offs(3)] put_zeros [OF offs(4)] put_zeros [OF offs(5)]
    using len by (simp add: proof_front_def)
qed

lemma back_filled:
  assumes "parts_fit F C nonce com cpf cor qpf" "length opened = OPEN_SIZE F" "length delta = 16"
  defines "l \<equiv> proof_layout F C" and "a \<equiv> proof_front C nonce com cpf cor qpf"
  shows "put (l_delta l) delta (put (l_opening l) opened (if kGrindingBits C > 0
      then put (l_counter l) (bytes_le 4 counter) (a @ replicate (OPEN_SIZE F + 16 + (if kGrindingBits C > 0 then 4 else 0)) 0)
      else a @ replicate (OPEN_SIZE F + 16 + (if kGrindingBits C > 0 then 4 else 0)) 0)) = a @ opened @ delta @ counter_bytes C counter"
proof -
  note fl = front_layout [OF assms(1), folded l_def a_def]
  have counter: "(if kGrindingBits C > 0
      then put (l_counter l) (bytes_le 4 counter) (a @ replicate (OPEN_SIZE F + 16 + (if kGrindingBits C > 0 then 4 else 0)) 0)
      else a @ replicate (OPEN_SIZE F + 16 + (if kGrindingBits C > 0 then 4 else 0)) 0) = a @ replicate (OPEN_SIZE F + 16) 0 @ counter_bytes C counter"
  proof (cases "kGrindingBits C > 0")
    case True
    have "a @ replicate (OPEN_SIZE F + 16 + 4) 0 = (a @ replicate (OPEN_SIZE F + 16) 0) @ replicate 4 0" by (simp only: replicate_add append_assoc)
    moreover have "l_counter l = length (a @ replicate (OPEN_SIZE F + 16) 0)" by (simp add: fl)
    ultimately show ?thesis using True by (simp only: if_True put_zeros) (simp add: counter_bytes_def)
  qed (simp add: counter_bytes_def)
  have op: "put (l_opening l) opened (a @ replicate (OPEN_SIZE F + 16) 0 @ counter_bytes C counter) = (a @ opened) @ replicate 16 0 @ counter_bytes C counter"
    using put_append [of a opened "replicate (OPEN_SIZE F + 16) 0 @ counter_bytes C counter"] by (simp add: fl(1) assms(2))
  have "put (l_delta l) delta ((a @ opened) @ replicate 16 0 @ counter_bytes C counter) = ((a @ opened) @ delta) @ counter_bytes C counter"
    using put_append [of "a @ opened" delta "replicate 16 0 @ counter_bytes C counter"] by (simp add: fl(1,2) assms(2,3))
  then show ?thesis by (simp only: counter op append_assoc)
qed

text \<open>What the verifier reads back.\<close>

lemma read_back:
  fixes counter :: u32
  assumes "parts_fit F C nonce com cpf cor qpf" "length opened = OPEN_SIZE F" "length delta = 16"
  defines "l \<equiv> proof_layout F C" and "p \<equiv> proof_front C nonce com cpf cor qpf @ opened @ delta @ counter_bytes C counter"
  shows "length p = l_size l" "take (length kProofVersion) p = kProofVersion" "p ! 8 = of_nat (kVoleTrees C)"
    "p ! 9 = of_nat (kProofDegree (p_circuit C))" "p ! 10 = of_nat (kGrindingBits C)"
    "segment (l_nonce l) 32 p = nonce" "segment (l_commitment l) (VOLE_COMMIT_SIZE F) p = com"
    "segment (l_vole_check l) (VOLE_CHECK_PROOF_BYTES F) p = cpf" "segment (l_correction l) (WBytes (p_circuit C)) p = cor"
    "segment (l_quicksilver l) (QS_PROOF_BYTES (p_circuit C)) p = qpf" "segment (l_opening l) (OPEN_SIZE F) p = opened"
    "segment (l_delta l) 16 p = delta" "segment (l_counter l) 4 p = counter_bytes C counter"
proof -
  note len = assms(1) [unfolded parts_fit_def] and fl = front_layout [OF assms(1), folded l_def]
  let ?h = "kProofVersion @ [of_nat (kVoleTrees C), of_nat (kProofDegree (p_circuit C)), of_nat (kGrindingBits C)]"
  show "length p = l_size l" by (simp add: p_def fl assms(2,3) counter_bytes_def)
  show "take (length kProofVersion) p = kProofVersion" by (simp add: p_def proof_front_def)
  show "p ! 8 = of_nat (kVoleTrees C)" "p ! 9 = of_nat (kProofDegree (p_circuit C))" "p ! 10 = of_nat (kGrindingBits C)"
    by (simp_all add: p_def proof_front_def nth_append length_version)
  have offs: "l_nonce l = length ?h" "l_commitment l = length (?h @ nonce)" "l_vole_check l = length (?h @ nonce @ com)"
    "l_correction l = length (?h @ nonce @ com @ cpf)" "l_quicksilver l = length (?h @ nonce @ com @ cpf @ cor)"
    using len by (simp_all add: l_def proof_layout_def Let_def length_version)
  have seg: "segment off n p = b" if "p = a @ b @ c" "off = length a" "n = length b" for a b c off n
    unfolding that(1) by (rule segment_inner [OF that(2,3)])
  show "segment (l_nonce l) 32 p = nonce" by (rule seg [of ?h]) (use len offs in \<open>simp_all add: p_def proof_front_def\<close>)
  show "segment (l_commitment l) (VOLE_COMMIT_SIZE F) p = com"
    by (rule seg [of "?h @ nonce"]) (use len offs in \<open>simp_all add: p_def proof_front_def\<close>)
  show "segment (l_vole_check l) (VOLE_CHECK_PROOF_BYTES F) p = cpf"
    by (rule seg [of "?h @ nonce @ com"]) (use len offs in \<open>simp_all add: p_def proof_front_def\<close>)
  show "segment (l_correction l) (WBytes (p_circuit C)) p = cor"
    by (rule seg [of "?h @ nonce @ com @ cpf"]) (use len offs in \<open>simp_all add: p_def proof_front_def\<close>)
  show "segment (l_quicksilver l) (QS_PROOF_BYTES (p_circuit C)) p = qpf"
    by (rule seg [of "?h @ nonce @ com @ cpf @ cor"]) (use len offs in \<open>simp_all add: p_def proof_front_def\<close>)
  show "segment (l_opening l) (OPEN_SIZE F) p = opened"
    by (rule seg [of "proof_front C nonce com cpf cor qpf"]) (simp_all add: p_def fl assms(2))
  show "segment (l_delta l) 16 p = delta"
    by (rule seg [of "proof_front C nonce com cpf cor qpf @ opened"]) (simp_all add: p_def fl assms(2,3))
  show "segment (l_counter l) 4 p = counter_bytes C counter"
    using assms(2,3) by (simp add: segment_def p_def fl counter_bytes_def)
qed

subsection \<open>The prover's run\<close>

text \<open>The values the prover has computed when it starts to grind.\<close>

record transcript_values =
  t_iv :: bytes
  t_commitment :: bytes
  t_check :: bytes
  t_chal1 :: bytes
  t_check_pf :: bytes
  t_correction :: bytes
  t_chal2 :: bytes
  t_qs_pf :: bytes
  t_qs_check :: bytes

definition transcript_end :: "pconfig \<Rightarrow> transcript_values \<Rightarrow> bytes" where
  "transcript_end C t = challenge3_prefix C (t_chal2 t) (t_qs_check t) (t_qs_pf t)"

text \<open>How both sides compute them, from what the VOLE absorbs and the check value.\<close>

definition transcript_ok :: "vole \<Rightarrow> ('g, 'm, 'p, 'r) faest \<Rightarrow> pconfig \<Rightarrow> vstatement \<Rightarrow> bytes \<Rightarrow> bytes \<Rightarrow> transcript_values \<Rightarrow> bool" where
  "transcript_ok V F C stm nonce absorbed t \<longleftrightarrow> t_iv t = get_iv V C nonce \<and>
     t_chal1 t = challenge1 V F C stm nonce (t_check t) (t_commitment t) (t_iv t) \<and>
     t_chal2 t = shake256 V (((transcript C 2 @ t_chal1 t) @ absorbed) @ t_correction t) (QS_CHALLENGE_BYTES F)"

lemma prove_from_run:
  assumes commit: "vole_commit F seed (t_iv t) = (forest, u, v, t_commitment t, t_check t)"
    and sender: "vole_check_sender F u v (t_chal1 t) = (t_check_pf t, absorbed)"
    and t: "transcript_ok V F C stm nonce absorbed t"
    and cor: "t_correction t = map (\<lambda>i. u ! i XOR witness ! i) [0..<WBytes (p_circuit C)]"
    and x: "x = witness @ drop (WBytes (p_circuit C)) u"
    and auth: "evaluate (p_circuit C) (auth_engine (p_circuit C) (qs_prover F x (transpose_secpar F v) (kConstraints (p_circuit C)) (t_chal2 t)))
      ac_constraints ac_permutations stm auth_context_new = Inr ((), as)"
    and qs: "qs_prove F x (transpose_secpar F v) (kConstraints (p_circuit C)) (t_chal2 t) (ac_emitted as) (kWitnessBits (p_circuit C)) = (t_qs_pf t, t_qs_check t)"
    and fit: "parts_fit F C nonce (t_commitment t) (t_check_pf t) (t_correction t) (t_qs_pf t)"
  shows "prove_from V F C stm witness seed nonce =
    (case (if kGrindingBits C > 0 then grind V C (transcript_end C t) 0 (finish_challenge3 V C (transcript_end C t) (bytes_le 4 (0 :: u32)))
        else Inr (0, finish_challenge3 V C (transcript_end C t) (bytes_le 4 (0 :: u32)))) of
       Inl e \<Rightarrow> Inl e
     | Inr (counter, delta) \<Rightarrow>
         (case vc_open F forest (expand_bits_to_bytes F delta) of
            None \<Rightarrow> Inl (Logic_error ''GGM forest opening failed'')
          | Some opened \<Rightarrow>
              let l = proof_layout F C;
                  p = proof_front C nonce (t_commitment t) (t_check_pf t) (t_correction t) (t_qs_pf t)
                    @ replicate (OPEN_SIZE F + 16 + (if kGrindingBits C > 0 then 4 else 0)) 0
              in Inr (put (l_delta l) delta (put (l_opening l) opened (if kGrindingBits C > 0 then put (l_counter l) (bytes_le 4 counter) p else p)))))"
proof -
  let ?l = "proof_layout F C"
  note tt = t [unfolded transcript_ok_def]
  have iv: "get_iv V C nonce = t_iv t" and chal1: "challenge1 V F C stm nonce (t_check t) (t_commitment t) (t_iv t) = t_chal1 t"
    and chal2: "shake256 V (((transcript C 2 @ t_chal1 t) @ absorbed) @ t_correction t) (QS_CHALLENGE_BYTES F) = t_chal2 t"
    using tt by simp_all
  let ?p = "proof_front C nonce (t_commitment t) (t_check_pf t) (t_correction t) (t_qs_pf t) @ replicate (OPEN_SIZE F + 16 + (if kGrindingBits C > 0 then 4 else 0)) 0"
  have "finish_challenge3 V C (transcript_end C t) (segment (l_counter ?l) 4 ?p) = finish_challenge3 V C (transcript_end C t) (bytes_le 4 (0 :: u32))"
  proof -
    have "segment (l_counter ?l) 4 ?p = bytes_le 4 (0 :: u32)" if "kGrindingBits C > 0"
    proof -
      have "bytes_le 4 (0 :: u32) = replicate 4 0" by (simp add: numeral_eq_Suc)
      then show ?thesis using that front_layout [OF fit] by (simp add: segment_def)
    qed
    then show ?thesis by (simp add: finish_challenge3_def)
  qed
  note first = this [unfolded transcript_end_def]
  show ?thesis
    unfolding prove_from_def Let_def iv commit prod.case chal1 sender cor [symmetric] chal2 x [symmetric] auth sum.case qs front_filled [OF fit]
      first transcript_end_def ..
qed

subsection \<open>The verifier's run\<close>

lemma byte_back: "k < 256 \<Longrightarrow> unat (of_nat k :: byte) = k"
  by (simp add: unat_of_nat)

lemma verify_run:
  assumes C: "pconfig_ok C" and fit: "parts_fit F C nonce (t_commitment t) (t_check_pf t) (t_correction t) (t_qs_pf t)"
    and lens: "length opened = OPEN_SIZE F" "length delta = 16" and grinds: "grinding_passes C delta"
    and reconstruct: "vole_reconstruct F (t_iv t) (expand_bits_to_bytes F delta) (t_commitment t) opened = Some (q, t_check t)"
    and t: "transcript_ok V F C stm nonce (t_check_pf t @ vole_check_receiver F q (expand_bits_to_bytes F delta) (t_chal1 t) (t_check_pf t)) t"
    and keys: "keys = transpose_secpar F (vole_receiver_apply_correction F (t_correction t) q (expand_bits_to_bytes F delta))"
    and auth: "evaluate (p_circuit C) (auth_engine (p_circuit C) (qs_verifier F keys (kConstraints (p_circuit C)) (load_le delta) (t_chal2 t)))
      ac_constraints ac_permutations stm auth_context_new = Inr ((), bs)"
    and qs: "qs_verify F keys (kConstraints (p_circuit C)) (load_le delta) (t_chal2 t) (ac_emitted bs) (kWitnessBits (p_circuit C)) (t_qs_pf t) = t_qs_check t"
    and expected: "delta = finish_challenge3 V C (transcript_end C t) (bytes_le 4 (counter :: u32))"
  shows "verify_proof V F C stm (proof_front C nonce (t_commitment t) (t_check_pf t) (t_correction t) (t_qs_pf t) @ opened @ delta @ counter_bytes C counter) = Inr True"
proof -
  note r = read_back [OF fit lens, of counter]
  have iv: "get_iv V C nonce = t_iv t" and chal1: "challenge1 V F C stm nonce (t_check t) (t_commitment t) (t_iv t) = t_chal1 t"
    and chal2: "shake256 V ((((transcript C 2 @ t_chal1 t) @ t_check_pf t) @ vole_check_receiver F q (expand_bits_to_bytes F delta) (t_chal1 t) (t_check_pf t)) @ t_correction t)
      (QS_CHALLENGE_BYTES F) = t_chal2 t"
    using t by (simp_all add: transcript_ok_def)
  have deg: "kProofDegree (p_circuit C) < 256" using C by (auto simp: pconfig_ok_def cfg_ok_def)
  have exact: "finish_challenge3 V C (challenge3_prefix C (t_chal2 t) (t_qs_check t) (t_qs_pf t)) (counter_bytes C counter) = delta"
    using expected by (simp add: transcript_end_def finish_counter)
  let ?p = "proof_front C nonce (t_commitment t) (t_check_pf t) (t_correction t) (t_qs_pf t) @ opened @ delta @ counter_bytes C counter"
  have header: "\<not> (length ?p \<noteq> l_size (proof_layout F C) \<or> take (length kProofVersion) ?p \<noteq> kProofVersion \<or> unat (?p ! 8) \<noteq> kVoleTrees C \<or>
      unat (?p ! 9) \<noteq> kProofDegree (p_circuit C) \<or> unat (?p ! 10) \<noteq> kGrindingBits C)"
    unfolding r using C deg by (simp add: byte_back pconfig_ok_def)
  show ?thesis
    unfolding verify_proof_def Let_def if_not_P [OF header]
    unfolding r iv reconstruct option.case prod.case chal1 chal2 keys [symmetric] auth sum.case qs exact
    by (simp only: grinds xor_fold_zero simp_thms if_False)
qed

subsection \<open>Completeness\<close>

lemma nth_bytes_bit:
  assumes "i < 8 * length a"
  shows "bit ((a @ b) ! (i div 8)) (i mod 8) = bit (a ! (i div 8)) (i mod 8)"
  using assms by (simp add: nth_append less_mult_imp_div_less mult.commute)

theorem prove_from_complete:
  fixes F :: "('g, 'm, 'p, 'r) faest"
  defines "exhausted \<equiv> Runtime_error ''Fiat-Shamir grinding counter exhausted''"
  assumes C: "pconfig_ok C" and F: "faest_ok F (p_circuit C) L" and V: "vole_ok V" and L: "field_laws L" "trace_ok (p_circuit C) L"
    and stm: "statement_wf stm" and p: "length p = kPrimaryBytes" and nonce: "length nonce = 32"
    and native: "c_statement (p_circuit C) (native_engine (p_circuit C) L) stm (native_context_new p True) = Inr ((), ns)" "native_inv p ns"
  shows "case prove_from V F C stm (nc_witness ns) seed nonce of Inl e \<Rightarrow> e = exhausted | Inr pf \<Rightarrow> verify_proof V F C stm pf = Inr True"
proof -
  define cfg where "cfg = p_circuit C"
  note [simp] = cfg_def [symmetric]
  have cfg: "cfg_ok cfg" using C by (simp add: pconfig_ok_def)
  obtain forest u v com check where commit: "vole_commit F seed (get_iv V C nonce) = (forest, u, v, com, check)" by (metis prod_cases5)
  from F have fv: "faest_vole_ok F cfg" and fq: "faest_qs_ok F cfg L" by (simp_all add: faest_ok_def)
  from fv commit have lens: "length com = VOLE_COMMIT_SIZE F" "WBytes cfg \<le> length u"
    "\<And>chal. length (fst (vole_check_sender F u v chal)) = VOLE_CHECK_PROOF_BYTES F"
    and law: "\<And>delta. length delta = 16 \<Longrightarrow> \<exists>opened q. vole_law F cfg (get_iv V C nonce) forest u v com check delta opened q"
    by (auto simp: faest_vole_ok_def)
  let ?w = "nc_witness ns" and ?n = "kConstraints cfg" and ?m = "kWitnessBits cfg"
  have dims: "nc_cursor ns = ?m" using native_dimensions(1) [OF cfg stm] native(1) by simp
  have wlen: "length ?w = WBytes cfg"
    using native(2) by (simp add: native_inv_def dims WBytes_bits [symmetric])
  define chal1 where "chal1 = challenge1 V F C stm nonce check com (get_iv V C nonce)"
  obtain cpf absorbed where sender: "vole_check_sender F u v chal1 = (cpf, absorbed)" by fastforce
  define cor where "cor = map (\<lambda>i. u ! i XOR ?w ! i) [0..<WBytes cfg]"
  define chal2 where "chal2 = shake256 V (((transcript C 2 @ chal1) @ absorbed) @ cor) (QS_CHALLENGE_BYTES F)"
  define x where "x = ?w @ drop (WBytes cfg) u"
  define macs where "macs = transpose_secpar F v"
  let ?Qp = "qs_prover F x macs ?n chal2"
  obtain as where as: "c_statement cfg (auth_engine cfg ?Qp) stm auth_context_new = Inr ((), as)"
    using auth_returns [OF stm] by blast
  obtain qpf qchk where qs: "qs_prove F x macs ?n chal2 (ac_emitted as) ?m = (qpf, qchk)" by fastforce
  have qlen: "length qpf = QS_PROOF_BYTES cfg" using fq qs by (metis faest_qs_ok_def fst_conv)
  define t where "t = \<lparr>t_iv = get_iv V C nonce, t_commitment = com, t_check = check, t_chal1 = chal1, t_check_pf = cpf, t_correction = cor,
    t_chal2 = chal2, t_qs_pf = qpf, t_qs_check = qchk\<rparr>"
  have t [simp]: "t_iv t = get_iv V C nonce" "t_commitment t = com" "t_check t = check" "t_chal1 t = chal1" "t_check_pf t = cpf" "t_correction t = cor"
    "t_chal2 t = chal2" "t_qs_pf t = qpf" "t_qs_check t = qchk" by (simp_all add: t_def)
  have tok: "transcript_ok V F C stm nonce absorbed t" by (simp add: transcript_ok_def chal1_def chal2_def)
  have fit: "parts_fit F C nonce (t_commitment t) (t_check_pf t) (t_correction t) (t_qs_pf t)"
    using nonce lens(1) lens(3) [of chal1] sender qlen by (simp add: parts_fit_def cor_def)
  have ev: "evaluate cfg (auth_engine cfg Q) ac_constraints ac_permutations stm auth_context_new = c_statement cfg (auth_engine cfg Q) stm auth_context_new"
    for Q :: "'z qs_ops" by (rule evaluate_auth [OF cfg stm])
  let ?h3 = "transcript_end C t"
  let ?grind = "if kGrindingBits C > 0 then grind V C ?h3 0 (finish_challenge3 V C ?h3 (bytes_le 4 (0 :: u32)))
    else Inr (0, finish_challenge3 V C ?h3 (bytes_le 4 (0 :: u32)))"
  have run: "prove_from V F C stm ?w seed nonce = (case ?grind of
       Inl e \<Rightarrow> Inl e
     | Inr (counter, delta) \<Rightarrow>
         (case vc_open F forest (expand_bits_to_bytes F delta) of
            None \<Rightarrow> Inl (Logic_error ''GGM forest opening failed'')
          | Some opened \<Rightarrow>
              let l = proof_layout F C;
                  p = proof_front C nonce (t_commitment t) (t_check_pf t) (t_correction t) (t_qs_pf t)
                    @ replicate (OPEN_SIZE F + 16 + (if kGrindingBits C > 0 then 4 else 0)) 0
              in Inr (put (l_delta l) delta (put (l_opening l) opened (if kGrindingBits C > 0 then put (l_counter l) (bytes_le 4 counter) p else p)))))"
  proof (rule prove_from_run [OF _ _ tok _ _ _ _ fit])
    show "vole_commit F seed (t_iv t) = (forest, u, v, t_commitment t, t_check t)" by (simp add: commit)
    show "vole_check_sender F u v (t_chal1 t) = (t_check_pf t, absorbed)" by (simp add: sender)
    show "t_correction t = map (\<lambda>i. u ! i XOR ?w ! i) [0..<WBytes (p_circuit C)]" by (simp add: cor_def)
    show "x = ?w @ drop (WBytes (p_circuit C)) u" by (simp add: x_def)
    show "evaluate (p_circuit C) (auth_engine (p_circuit C) (qs_prover F x (transpose_secpar F v) (kConstraints (p_circuit C)) (t_chal2 t)))
        ac_constraints ac_permutations stm auth_context_new = Inr ((), as)"
      unfolding t cfg_def [symmetric] macs_def [symmetric] ev by (rule as)
    show "qs_prove F x (transpose_secpar F v) (kConstraints (p_circuit C)) (t_chal2 t) (ac_emitted as) (kWitnessBits (p_circuit C)) = (t_qs_pf t, t_qs_check t)"
      unfolding t cfg_def [symmetric] macs_def [symmetric] by (rule qs)
  qed
  show ?thesis
  proof (cases ?grind)
    case (Inl e)
    have "grind V C h c d = Inl e \<Longrightarrow> e = exhausted" for h c d
    proof (induction V C h c d rule: grind.induct)
      case (1 V C h3 counter delta)
      then show ?case using grind.simps [of V C h3 counter delta] by (auto simp: Let_def exhausted_def split: if_splits)
    qed
    then show ?thesis unfolding run Inl using Inl by (auto split: if_splits)
  next
    case (Inr r)
    obtain counter delta where r: "r = (counter, delta)" by (cases r)
    have delta: "delta = finish_challenge3 V C ?h3 (bytes_le 4 counter)" "grinding_passes C delta"
    proof -
      have "delta = finish_challenge3 V C ?h3 (bytes_le 4 counter) \<and> grinding_passes C delta"
      proof (cases "kGrindingBits C > 0")
        case True
        then show ?thesis using grind_outcome [OF _ refl] Inr r by auto
      next
        case False
        then show ?thesis using Inr r by (simp add: grinding_passes_def)
      qed
      then show "delta = finish_challenge3 V C ?h3 (bytes_le 4 counter)" "grinding_passes C delta" by blast+
    qed
    have dlen: "length delta = 16" unfolding delta(1) by (simp add: finish_challenge3_def Let_def length_shake256 [OF V])
    obtain opened q where vl: "vole_law F cfg (get_iv V C nonce) forest u v com check delta opened q" using law [OF dlen] by blast
    note vl' = vl [unfolded vole_law_def]
    have op: "vc_open F forest (expand_bits_to_bytes F delta) = Some opened" "length opened = OPEN_SIZE F"
      "vole_reconstruct F (get_iv V C nonce) (expand_bits_to_bytes F delta) com opened = Some (q, check)" using vl' by simp_all
    define keys where "keys = transpose_secpar F (vole_receiver_apply_correction F cor q (expand_bits_to_bytes F delta))"
    have "correlated (load_le delta) x macs keys" using vl' wlen by (simp add: x_def macs_def keys_def cor_def)
    then obtain R val w where ql: "quicksilver_law F cfg L x macs keys (load_le delta) chal2 R val w"
      using fq unfolding faest_qs_ok_def by blast
    note ql' = ql [unfolded quicksilver_law_def]
    let ?Qv = "qs_verifier F keys ?n (load_le delta) chal2"
    have auth_ok: "auth_ok cfg L ?Qp val w" using cfg L ql' by (simp add: auth_ok_def)
    have w: "w i = bit (?w ! (i div 8)) (i mod 8)" if "i < ?m" for i
      using ql' that wlen nth_bytes_bit [of i ?w] by (auto simp: x_def WBytes_bits [symmetric])
    have on: "on_witness w ns" using w by (simp add: on_witness_def dims witness_bit_def)
    have "take kPrimaryBytes ?w = p" using native(2) by (simp add: native_inv_def)
    then have pw: "\<forall>i<kPrimaryBytes * 8. bit (p ! (i div 8)) (i mod 8) = w i"
      using w native(2) by (auto simp: native_inv_def dims less_mult_imp_div_less)
    have "\<exists>as. c_statement cfg (auth_engine cfg ?Qp) stm auth_context_new = Inr ((), as) \<and> zeros val as"
      unfolding auth_statement [OF auth_ok stm p pw] using native(1) on by auto
    then have zeros: "\<forall>c\<in>set (ac_emitted as). val c = 0" using as by (auto simp: zeros_def)
    have "qs_rel R ?Qp ?Qv" using ql' by simp
    note step = paired_statement [OF this stm, of cfg]
    obtain bs where
      bs: "c_statement cfg (auth_engine cfg ?Qv) stm auth_context_new = Inr ((), bs)" "list_all2 R (ac_emitted as) (ac_emitted bs)"
      by (rule in_stepD [where s = auth_context_new and t = auth_context_new, OF step paired_new]) (use as in \<open>auto simp: paired_def\<close>)
    have qv: "qs_verify F keys ?n (load_le delta) chal2 (ac_emitted bs) ?m qpf = qchk"
      using ql' bs(2) zeros qs by (metis fst_conv snd_conv)
    have absorbed: "absorbed = cpf @ vole_check_receiver F q (expand_bits_to_bytes F delta) chal1 cpf"
      using vl' sender by (metis fst_conv snd_conv)
    have "verify_proof V F C stm (proof_front C nonce (t_commitment t) (t_check_pf t) (t_correction t) (t_qs_pf t) @ opened @ delta @ counter_bytes C counter) = Inr True"
      by (rule verify_run [where keys = keys and bs = bs and q = q, OF C fit op(2) dlen delta(2)])
        (use op tok absorbed in \<open>simp_all add: keys_def [symmetric] ev bs qv delta(1) [symmetric]\<close>)
    then have "verify_proof V F C stm (let l = proof_layout F C;
                  p = proof_front C nonce (t_commitment t) (t_check_pf t) (t_correction t) (t_qs_pf t)
                    @ replicate (OPEN_SIZE F + 16 + (if kGrindingBits C > 0 then 4 else 0)) 0
              in put (l_delta l) delta (put (l_opening l) opened (if kGrindingBits C > 0 then put (l_counter l) (bytes_le 4 counter) p else p))) = Inr True"
      unfolding Let_def back_filled [OF fit op(2) dlen] .
    then show ?thesis unfolding run Inr r sum.case prod.case op(1) option.case Let_def .
  qed
qed

text \<open>The two failures of \<open>prove\<close> that do not depend on the statement.\<close>

definition prove_failures :: "exn set" where
  "prove_failures = {Runtime_error ''OS random source failed'', Runtime_error ''Fiat-Shamir grinding counter exhausted''}"

theorem prove_outcome:
  assumes C: "pconfig_ok C" and F: "faest_ok F (p_circuit C) L" and L: "poly_ok L" "trace_ok (p_circuit C) L"
    and V: "vole_ok V" "shake_ok V" "vole_malloc_ok V 56" and stm: "statement_wf stm"
  shows "case prove V F C L stm p c of
      (Inr pf, c') \<Rightarrow> length p = kPrimaryBytes \<and> primary_ok V stm p \<and> verify_proof V F C stm pf = Inr True
    | (Inl e, c') \<Rightarrow> \<not> (length p = kPrimaryBytes \<and> primary_ok V stm p) \<and> c' = c \<or> e \<in> prove_failures"
proof (cases "length p = kPrimaryBytes")
  case False
  then show ?thesis by (simp add: prove_def)
next
  case True
  define cfg where "cfg = p_circuit C"
  have cfg: "cfg_ok cfg" using C by (simp add: pconfig_ok_def cfg_def)
  have L': "trace_ok cfg L" using L(2) by (simp add: cfg_def)
  note ev = evaluate_native [OF cfg stm, of L p True, unfolded cfg_def]
  note run = means_statement [OF cfg L(1) L' V True stm] and inv = native_inv_new [OF True]
  show ?thesis
  proof (cases "primary_ok V stm p")
    case False
    then obtain e where "c_statement (p_circuit C) (native_engine (p_circuit C) L) stm (native_context_new p True) = Inl e"
      using run inv by (auto simp: means_def cfg_def)
    then show ?thesis using True False by (simp add: prove_def ev)
  next
    case ok: True
    then obtain ns where ns: "c_statement (p_circuit C) (native_engine (p_circuit C) L) stm (native_context_new p True) = Inr ((), ns)" "native_inv p ns"
      using run inv by (auto simp: means_def cfg_def)
    show ?thesis
    proof (cases "v_random_bytes V 16 c")
      case 1: (Pair a c1)
      show ?thesis
      proof (cases a)
        case None
        then show ?thesis using True by (simp add: prove_def ev ns 1 prove_failures_def)
      next
        case (Some seed)
        show ?thesis
        proof (cases "v_random_bytes V 32 c1")
          case 2: (Pair b c2)
          show ?thesis
          proof (cases b)
            case None
            then show ?thesis using True Some by (simp add: prove_def ev ns 1 2 prove_failures_def)
          next
            case nonce: (Some nonce)
            have len: "length nonce = 32" using 2 nonce length_random_bytes [OF kkw_view_ok [OF V(1)]] by (simp add: v_random_bytes_view)
            have "prove V F C L stm p c = (prove_from V F C stm (nc_witness ns) seed nonce, c2)"
              using True Some nonce by (simp add: prove_def ev ns 1 2)
            then show ?thesis
              using prove_from_complete [OF C F V(1) poly_ok_laws [OF L(1)] L(2) stm True len ns, of seed] True ok
              by (auto simp: prove_failures_def split: sum.splits)
          qed
        qed
      qed
    qed
  qed
qed

subsection \<open>The verifier is total\<close>

theorem verify_total:
  assumes "pconfig_ok C" "statement_wf stm"
  shows "\<exists>b. verify_proof V F C stm pf = Inr b"
proof -
  have cfg: "cfg_ok (p_circuit C)" using assms(1) by (simp add: pconfig_ok_def)
  have "evaluate (p_circuit C) (auth_engine (p_circuit C) Q) ac_constraints ac_permutations stm auth_context_new \<noteq> Inl e" for Q :: "'z qs_ops" and e
    unfolding evaluate_auth [OF cfg assms(2)] using auth_returns [OF assms(2)] by (metis Inl_Inr_False)
  then show ?thesis
    unfolding verify_proof_def Let_def by (auto split: option.split sum.split)
qed

theorem verify_format:
  assumes "verify_proof V F C stm pf = Inr True"
  shows "length pf = l_size (proof_layout F C) \<and> take 8 pf = kProofVersion \<and> unat (pf ! 8) = kVoleTrees C \<and>
    unat (pf ! 9) = kProofDegree (p_circuit C) \<and> unat (pf ! 10) = kGrindingBits C \<and>
    grinding_passes C (segment (l_delta (proof_layout F C)) 16 pf)"
  using assms unfolding verify_proof_def Let_def by (auto simp: length_version split: if_splits)

end
