(* ===== verification/Vole_Protocol_Correct.thy ===== *)
theory Vole_Protocol_Correct
  imports Vole_Protocol Vole_Complete
begin

text \<open>
  Correctness of the VOLEitH protocol: the encodings are exact, the witness a user builds is the
  one the statement asks for, and no leaf is used twice, also over restarts from the persisted key.
\<close>

subsection \<open>Frames\<close>

lemma frame_bytes: "frame kind n = ascii ''HBVO001'' @ [of_char kind] @ replicate n 0"
proof -
  have "length (ascii ''HBVO001'') = 7" by (simp add: ascii_def)
  then have "put 0 (ascii ''HBVO001'') (replicate (8 + n) 0) = ascii ''HBVO001'' @ replicate (Suc n) 0" by (simp add: put_def)
  then show ?thesis by (simp add: frame_def list_update_append \<open>length (ascii ''HBVO001'') = 7\<close>)
qed

definition header :: "char \<Rightarrow> bytes" where
  "header kind = ascii ''HBVO001'' @ [of_char kind]"

lemma length_header [simp]: "length (header kind) = 8"
  by (simp add: header_def ascii_def)

lemma frame_header: "frame kind n = header kind @ replicate n 0"
  by (simp add: frame_bytes header_def)

lemma payload_iff: "payload b kind n = Inr p \<longleftrightarrow> length p = n \<and> b = header kind @ p"
proof
  assume "payload b kind n = Inr p"
  then have "length b = 8 + n" "take 8 b = header kind" "p = drop 8 b"
    by (simp_all add: payload_def frame_header Let_def split: if_splits)
  then show "length p = n \<and> b = header kind @ p" using append_take_drop_id [of 8 b] by simp
qed (auto simp: payload_def frame_header Let_def)

lemma put_frame: "put 8 x (frame kind n) = header kind @ x @ replicate (n - length x) 0"
  by (simp add: frame_header put_def)

lemma put_after: "off = 8 + length a \<Longrightarrow> put off x (header kind @ a @ replicate n 0) = header kind @ (a @ x) @ replicate (n - length x) 0"
  by (simp add: put_def)

lemma store64_bytes: "store64 v = bytes_le 8 v"
  by (rule nth_equalityI) (simp_all add: store64_def nth_bytes_le)

lemma load64_bytes: "length p = 8 \<Longrightarrow> load64 p = load_le p"
proof -
  assume len: "length p = 8"
  have fold: "fold (\<lambda>i v. v OR push_bit (8 * i) (ucast (p ! i))) [0..<n] (0 :: u64) = load_le (take n p)" if "n \<le> 8" for n
    using that
  proof (induction n)
    case (Suc n)
    have n: "n < length p" using Suc.prems len by simp
    have "load_le (take n p @ [p ! n]) = (load_le (take n p) OR push_bit (8 * n) (ucast (p ! n)) :: u64)"
    proof (rule bit_word_eqI)
      fix i assume i: "i < LENGTH(64)"
      have "bit (p ! n) (i - 8 * n) \<and> 8 * n \<le> i \<longleftrightarrow> i div 8 = n \<and> bit (p ! n) (i mod 8)"
      proof
        assume *: "bit (p ! n) (i - 8 * n) \<and> 8 * n \<le> i"
        then have "i - 8 * n < 8" using bit_imp_le_length [of "p ! n"] by auto
        then have "i div 8 = n" "i mod 8 = i - 8 * n" using * by (auto intro: div_nat_eqI mod_nat_eqI)
        with * show "i div 8 = n \<and> bit (p ! n) (i mod 8)" by simp
      next
        assume *: "i div 8 = n \<and> bit (p ! n) (i mod 8)"
        then have "i = 8 * n + i mod 8" using mult_div_mod_eq [of 8 i] by simp
        then show "bit (p ! n) (i - 8 * n) \<and> 8 * n \<le> i" using * by (metis add_diff_cancel_left' le_add1)
      qed
      then show "bit (load_le (take n p @ [p ! n]) :: u64) i = bit (load_le (take n p) OR push_bit (8 * n) (ucast (p ! n)) :: u64) i"
        using i n len Suc.prems by (auto simp: bit_load_le bit_simps nth_append less_Suc_eq)
    qed
    then show ?case using Suc n by (simp add: take_Suc_conv_app_nth)
  qed simp
  from fold [of 8] len show "load64 p = load_le p" by (simp add: load64_def)
qed

subsection \<open>Encodings\<close>

definition public_wf :: "PublicKey \<Rightarrow> bool" where
  "public_wf pk \<longleftrightarrow> length (pub_seed pk) = 16 \<and> length (pub_root pk) = 16"

definition state_wf :: "UserState \<Rightarrow> bool" where
  "state_wf st \<longleftrightarrow> length (st_digest st) = 32 \<and> length (st_r st) = 96 \<and> length (st_commitment st) = 256"

definition secret_wf :: "SecretKey \<Rightarrow> bool" where
  "secret_wf sk \<longleftrightarrow> length (sec_seed sk) = 32 \<and> length (sec_public_seed sk) = 16 \<and> validate_key sk"

lemma encode_public_bytes: "public_wf pk \<Longrightarrow> encode_public pk = header (CHR ''P'') @ pub_seed pk @ pub_root pk"
  by (simp add: encode_public_def public_wf_def put_frame put_after)

lemma encode_state_bytes: "state_wf st \<Longrightarrow> encode_state st = header (CHR ''U'') @ st_digest st @ st_r st @ st_commitment st"
  unfolding encode_state_def state_wf_def put_frame by (subst put_after, simp, subst put_after) simp_all

lemma encode_secret_bytes:
  assumes "secret_wf sk"
  shows "encode_secret sk = Inr (header (CHR ''K'') @ sec_seed sk @ sec_public_seed sk @ [sec_height sk] @ bytes_le 8 (sec_next_leaf sk))"
proof -
  let ?a = "sec_seed sk @ sec_public_seed sk"
  have a: "length ?a = 48" using assms by (simp add: secret_wf_def)
  have one: "put (8 + 32) (sec_public_seed sk) (put 8 (sec_seed sk) (frame (CHR ''K'') 57)) = header (CHR ''K'') @ ?a @ replicate 9 0"
    unfolding put_frame by (subst put_after) (use assms in \<open>simp_all add: secret_wf_def\<close>)
  have "(header (CHR ''K'') @ ?a @ replicate 9 0)[8 + 48 := sec_height sk] = header (CHR ''K'') @ (?a @ [sec_height sk]) @ replicate 8 0"
    using a by (simp add: list_update_append replicate_add [of 1 8 "0 :: byte", simplified] del: append_assoc)
  moreover have "put (8 + 49) (store64 (sec_next_leaf sk)) (header (CHR ''K'') @ (?a @ [sec_height sk]) @ replicate 8 0) =
      header (CHR ''K'') @ ((?a @ [sec_height sk]) @ store64 (sec_next_leaf sk)) @ replicate (8 - length (store64 (sec_next_leaf sk))) 0"
    by (rule put_after) (use a in simp)
  ultimately show ?thesis using assms unfolding encode_secret_def Let_def one by (simp add: secret_wf_def store64_bytes)
qed

lemma encode_commitment_bytes: "length com = 256 \<Longrightarrow> encode_commitment com = header (CHR ''C'') @ com"
  by (simp add: encode_commitment_def put_frame)

lemma encode_response_bytes: "sig_wf sig \<Longrightarrow> encode_response sig = header (CHR ''S'') @ xmss_write_sig sig"
  by (simp add: encode_response_def put_frame length_write_sig)

lemma cut2: "length p = m + n \<Longrightarrow> segment 0 m p @ segment m n p = p"
  by (simp add: segment_def)

lemma decode_public_iff: "decode_public b = Inr pk \<longleftrightarrow> public_wf pk \<and> encode_public pk = b"
proof
  assume "decode_public b = Inr pk"
  then obtain p where p: "length p = 32" "b = header (CHR ''P'') @ p" "pk = \<lparr>pub_seed = segment 0 16 p, pub_root = segment 16 16 p\<rparr>"
    by (auto simp: decode_public_def payload_iff split: sum.splits)
  then have wf: "public_wf pk" by (simp add: public_wf_def length_segment)
  then show "public_wf pk \<and> encode_public pk = b" using p cut2 [of p 16 16] by (simp add: encode_public_bytes)
next
  assume *: "public_wf pk \<and> encode_public pk = b"
  then have "payload b (CHR ''P'') 32 = Inr (pub_seed pk @ pub_root pk)"
    unfolding payload_iff by (auto simp: encode_public_bytes) (simp add: public_wf_def)
  with * show "decode_public b = Inr pk" by (simp add: decode_public_def public_wf_def segment_def)
qed

lemma cut3: "length p = k + m + n \<Longrightarrow> segment 0 k p @ segment k m p @ segment (k + m) n p = p"
  using append_take_drop_id [of m "drop k p"] append_take_drop_id [of k p] by (simp add: segment_def add.commute)

lemma decode_state_iff: "decode_state b = Inr st \<longleftrightarrow> state_wf st \<and> encode_state st = b"
proof
  assume "decode_state b = Inr st"
  then obtain p where p: "length p = 384" "b = header (CHR ''U'') @ p"
    "st = \<lparr>st_digest = segment 0 32 p, st_r = segment 32 96 p, st_commitment = segment 128 256 p\<rparr>"
    by (auto simp: decode_state_def payload_iff split: sum.splits)
  then have wf: "state_wf st" by (simp add: state_wf_def length_segment)
  then show "state_wf st \<and> encode_state st = b" using p cut3 [of p 32 96 256] by (simp add: encode_state_bytes)
next
  assume *: "state_wf st \<and> encode_state st = b"
  then have "payload b (CHR ''U'') 384 = Inr (st_digest st @ st_r st @ st_commitment st)"
    unfolding payload_iff by (auto simp: encode_state_bytes) (simp add: state_wf_def)
  with * show "decode_state b = Inr st" by (simp add: decode_state_def state_wf_def segment_def)
qed

lemma decode_secret_iff: "decode_secret b = Inr sk \<longleftrightarrow> secret_wf sk \<and> encode_secret sk = Inr b"
proof
  assume "decode_secret b = Inr sk"
  then obtain p where p: "length p = 57" "b = header (CHR ''K'') @ p" "validate_key sk"
    "sk = \<lparr>sec_seed = segment 0 32 p, sec_public_seed = segment 32 16 p, sec_height = p ! 48, sec_next_leaf = load64 (drop 49 p)\<rparr>"
    by (auto simp: decode_secret_def payload_iff Let_def split: sum.splits if_splits)
  then have wf: "secret_wf sk" by (simp add: secret_wf_def length_segment)
  have "bytes_le 8 (sec_next_leaf sk) = drop 49 p"
    using p(1) bytes_le_load_le [of "drop 49 p", where 'a = 64] by (simp add: p(4) load64_bytes)
  moreover have "segment 0 32 p @ segment 32 16 p @ [p ! 48] @ drop 49 p = p"
  proof -
    have "segment (32 + 16) 9 p = p ! 48 # drop 49 p"
      using p(1) Cons_nth_drop_Suc [of 48 p] by (simp add: segment_def)
    then show ?thesis using cut3 [of p 32 16 9] p(1) by simp
  qed
  ultimately show "secret_wf sk \<and> encode_secret sk = Inr b" using p wf by (simp add: encode_secret_bytes)
next
  assume *: "secret_wf sk \<and> encode_secret sk = Inr b"
  then have wf: "length (sec_seed sk) = 32" "length (sec_public_seed sk) = 16" "validate_key sk" by (simp_all add: secret_wf_def)
  let ?p = "sec_seed sk @ sec_public_seed sk @ [sec_height sk] @ bytes_le 8 (sec_next_leaf sk)"
  have "payload b (CHR ''K'') 57 = Inr ?p"
    unfolding payload_iff using * wf by (auto simp: encode_secret_bytes)
  moreover have "segment 0 32 ?p = sec_seed sk" "segment 32 16 ?p = sec_public_seed sk" "?p ! 48 = sec_height sk"
    "drop 49 ?p = bytes_le 8 (sec_next_leaf sk)"
    using wf by (simp_all add: segment_def nth_append)
  moreover have "load64 (bytes_le 8 (sec_next_leaf sk)) = sec_next_leaf sk" by (simp add: load64_bytes load_le_bytes_le)
  ultimately show "decode_secret b = Inr sk" using wf by (simp add: decode_secret_def Let_def validate_key_def)
qed

lemma decode_commitment_iff: "decode_commitment b = Inr com \<longleftrightarrow> length com = 256 \<and> encode_commitment com = b"
  by (auto simp: decode_commitment_def encode_commitment_bytes payload_iff segment_0 split: sum.splits)
    (metis payload_iff sum.distinct(1))+

lemma decode_response_iff: "decode_response b = Inr sig \<longleftrightarrow> sig_wf sig \<and> encode_response sig = b"
proof
  assume "decode_response b = Inr sig"
  then obtain p where "b = header (CHR ''S'') @ p" "xmss_read_sig p = Some sig"
    by (auto simp: decode_response_def payload_iff split: sum.splits option.splits)
  then show "sig_wf sig \<and> encode_response sig = b" using write_read_sig [of p sig] by (simp add: encode_response_bytes)
next
  assume *: "sig_wf sig \<and> encode_response sig = b"
  then have "payload b (CHR ''S'') XMSS_SIG_BYTES = Inr (xmss_write_sig sig)"
    unfolding payload_iff by (auto simp: encode_response_bytes length_write_sig)
  then show "decode_response b = Inr sig" using * by (simp add: decode_response_def read_write_sig)
qed

text \<open>The codec interface of the artifacts whose encoding cannot fail, and of the secret key.\<close>

definition result :: "exn + 'a \<Rightarrow> 'a option" where
  "result r = (case r of Inl e \<Rightarrow> None | Inr x \<Rightarrow> Some x)"

lemma result_Some [simp]: "result r = Some x \<longleftrightarrow> r = Inr x"
  by (simp add: result_def split: sum.split)

interpretation vpub: codec encode_public "\<lambda>b. result (decode_public b)" public_wf
  by unfold_locales (auto simp: decode_public_iff)

interpretation vst: codec encode_state "\<lambda>b. result (decode_state b)" state_wf
  by unfold_locales (auto simp: decode_state_iff)

interpretation vcom: codec encode_commitment "\<lambda>b. result (decode_commitment b)" "\<lambda>com. length com = 256"
  by unfold_locales (auto simp: decode_commitment_iff)

interpretation vsig: codec encode_response "\<lambda>b. result (decode_response b)" sig_wf
  by unfold_locales (auto simp: decode_response_iff)

interpretation vkey: codec "\<lambda>sk. projr (encode_secret sk)" "\<lambda>b. result (decode_secret b)" secret_wf
  by unfold_locales (auto simp: decode_secret_iff encode_secret_bytes)

text \<open>No artifact reads as an artifact of another kind.\<close>

lemma kinds_differ:
  assumes "payload b k n = Inr p" "payload b k' m = Inr q" "of_char k \<noteq> (of_char k' :: byte)"
  shows False
proof -
  have "header k @ p = header k' @ q" using assms(1,2) by (simp add: payload_iff)
  then show False using assms(3) by (simp add: header_def)
qed

text \<open>
  The user's side: \<open>primary_witness\<close> returns exactly for a consistent opening and a signature that
  verifies, and what it returns is the witness the statement circuit accepts.
\<close>

subsection \<open>The schedule\<close>

lemma put_one: "pos < length p \<Longrightarrow> put pos [x] p = p[pos := x]"
  by (simp add: put_def upd_conv_take_nth_drop)

lemma put_nil: "put pos [] p = p"
  by (simp add: put_def)

lemma schedule_inner:
  assumes "pos + length js \<le> length p"
  shows "loop (\<lambda>j _. schedule_write i) js () (p, pos) = Inr ((), put pos (replicate (length js) (of_nat i)) p, pos + length js)"
  using assms
proof (induction js arbitrary: p pos)
  case (Cons j js)
  have "schedule_write i (p, pos) = Inr ((), put pos [of_nat i] p, pos + 1)" using Cons.prems by (simp add: schedule_write_def put_one)
  moreover have "put (pos + 1) (replicate (length js) (of_nat i)) (put pos [of_nat i] p) = put pos (replicate (length (j # js)) (of_nat i)) p"
    using put_put [of pos "[of_nat i]" "replicate (length js) (of_nat i)" p] Cons.prems by simp
  moreover have "length (put pos [of_nat i :: byte] p) = length p" using Cons.prems by (simp add: length_put)
  ultimately show ?case using Cons by (simp add: seq_def)
qed (simp add: ret_def put_nil)

lemma schedule_outer:
  assumes "pos + length (chain_bytes coords is) \<le> length p"
  shows "loop (\<lambda>i _. loop (\<lambda>j _. schedule_write i) [unat (coords ! i)..<7] ()) is () (p, pos) =
    Inr ((), put pos (chain_bytes coords is) p, pos + length (chain_bytes coords is))"
  using assms
proof (induction "is" arbitrary: p pos)
  case (Cons i "is")
  let ?x = "replicate (7 - unat (coords ! i)) (of_nat i) :: bytes"
  have b: "chain_bytes coords (i # is) = ?x @ chain_bytes coords is" by (simp add: chain_bytes_def)
  have one: "loop (\<lambda>j _. schedule_write i) [unat (coords ! i)..<7] () (p, pos) = Inr ((), put pos ?x p, pos + length ?x)"
    using schedule_inner [of pos "[unat (coords ! i)..<7]" p i] Cons.prems by (simp add: b)
  have "put (pos + length ?x) (chain_bytes coords is) (put pos ?x p) = put pos (chain_bytes coords (i # is)) p"
    using put_put [of pos ?x "chain_bytes coords is" p] Cons.prems by (simp add: b)
  moreover have "length (put pos ?x p) = length p" using Cons.prems by (simp add: length_put b)
  ultimately show ?case using Cons one by (simp add: seq_def b)
qed (simp add: ret_def put_nil chain_bytes_def)

lemma schedule_length:
  assumes "coords_sum (snd (xmss_extract_coords mh)) = XMSS_TARGET_SUM"
  shows "length (chain_bytes (snd (xmss_extract_coords mh)) [0..<42]) = 99"
proof -
  let ?cs = "snd (xmss_extract_coords mh)"
  have cs: "length ?cs = 42" "\<forall>c\<in>set ?cs. unat c \<le> 7" using extract_coords_ok [of mh] by (simp_all add: coords_ok_def)
  then have "length (chain_bytes ?cs [0..<42]) + coords_sum ?cs = 294" using length_chain_bytes [of 42 ?cs] by (simp add: coords_sum_def)
  then show ?thesis using assms by (simp add: XMSS_TARGET_SUM_def)
qed

subsection \<open>The layout\<close>

lemma length_v_chain_multi:
  assumes "vole_ok V" "length x = 16"
  shows "length (v_xmss_hash_chain_multi V pk e x ci p n) = 16"
proof -
  have "length (fold (\<lambda>i cur. let pos = p + of_nat i + 1 in v_xmss_hash_chain_step V pk e cur ci pos) is x) = 16" for "is"
    using assms(2) by (induction "is" arbitrary: x) (simp_all add: length_v_chain_step [OF assms(1)] Let_def)
  then show ?thesis by (simp add: v_xmss_hash_chain_multi_def)
qed

lemma length_v_ends:
  assumes "vole_ok V" "sig_wf sig" "e \<in> set (v_xmss_wots_pk_from_sig V pk ep (xs_sig_hashes sig) coords)"
  shows "length e = 16"
  using assms(3) sig_wf_hashes [OF assms(2)]
  by (auto simp: v_xmss_wots_pk_from_sig_def Let_def xmss_sizes intro!: length_v_chain_multi [OF assms(1)])

lemma filled_witness:
  assumes "length r = 96" "length a = 192" "length s = 1212" "length sched_bytes = 99" "length ends = 672"
  shows "put kEndpointsOffset ends (put kScheduleOffset sched_bytes (put kSigOffset s (put 96 a (put 0 r (replicate kPrimaryBytes 0))))) =
    r @ a @ s @ sched_bytes @ ends"
  using assms by (simp add: put_def layout_values)

lemma read_witness:
  assumes lens: "length r = 96" "length a = 192" "sig_wf sig" "length sched_bytes = 99" "length ends = 42" "\<forall>e\<in>set ends. length e = 16"
  defines "p \<equiv> r @ a @ xmss_write_sig sig @ sched_bytes @ concat ends"
  shows "length p = kPrimaryBytes" "pw_r p = r" "pw_a p = a" "pw_sig p = sig" "pw_schedule p = sched_bytes" "map (pw_end p) [0..<42] = ends"
proof -
  have s: "length (xmss_write_sig sig) = 1212" using length_write_sig [OF lens(3)] by (simp add: XMSS_SIG_BYTES_def xmss_sizes)
  have e: "length (concat ends) = 672" using length_concat_const [of ends 16] lens by simp
  show "length p = kPrimaryBytes" using lens s e by (simp add: p_def layout_values)
  show "pw_r p = r" "pw_a p = a" "pw_schedule p = sched_bytes" using lens s e by (simp_all add: p_def pw_r_def pw_a_def pw_schedule_def layout_values segment_def)
  have sig: "segment 288 1212 p = xmss_write_sig sig" using lens s by (simp add: p_def segment_def)
  have seg: "segment off n (segment 288 1212 p) = segment (288 + off) n p" if "off + n \<le> 1212" for off n
    using that by (simp add: segment_def drop_take min_def add.commute)
  have "xmss_read_sig (segment 288 1212 p) = Some (pw_sig p)"
  proof -
    have "blocks 16 42 (drop 28 (segment 288 1212 p)) = map (pw_tip p) [0..<42]"
      by (rule nth_equalityI) (simp_all add: nth_blocks pw_tip_def layout_values segment_def drop_take min_def ac_simps)
    moreover have "blocks 16 32 (drop 700 (segment 288 1212 p)) = map (pw_sibling p) [0..<32]"
      by (rule nth_equalityI) (simp_all add: nth_blocks pw_sibling_def layout_values segment_def drop_take min_def ac_simps)
    moreover have "length (segment 288 1212 p) = 1212" using s sig by simp
    ultimately show ?thesis
      using seg [of 0 4] seg [of 4 24]
      by (simp add: xmss_read_sig_def XMSS_SIG_BYTES_def xmss_sizes pw_sig_def pw_epoch_def pw_nonce_def layout_values)
  qed
  then show "pw_sig p = sig" using read_write_sig [OF lens(3)] sig by simp
  have drop: "drop 1599 p = concat ends" using lens s by (simp add: p_def)
  have "map (pw_end p) [0..<42] = blocks 16 42 (drop 1599 p)"
    by (rule nth_equalityI) (simp_all add: nth_blocks pw_end_def layout_values segment_def ac_simps)
  then show "map (pw_end p) [0..<42] = ends" using blocks_concat0 [of ends 16 42] lens by (simp add: drop)
qed

subsection \<open>The witness\<close>

text \<open>What the user needs: an opening that gives the commitment, and a signature of its digest.\<close>

definition response_ok :: "vole \<Rightarrow> UserState \<Rightarrow> PublicKey \<Rightarrow> xmss_sig \<Rightarrow> bool" where
  "response_ok V st pk sig \<longleftrightarrow>
     (let (com, d) = v_hm_commit V (st_digest st) (st_r st) (take 192 (st_commitment st))
      in com = st_commitment st \<and> v_xmss_verify V (pub_seed pk) (pub_root pk) d sig)"

lemma statement_wf_of: "public_wf pk \<Longrightarrow> length m = 32 \<Longrightarrow> statement_wf (statement pk m)"
  by (simp add: statement_wf_def statement_def public_wf_def)

theorem primary_witness_outcome:
  assumes V: "vole_ok V" and wf: "state_wf st" "public_wf pk" "sig_wf sig"
  shows "case primary_witness V st pk sig of
      Inr p \<Rightarrow> response_ok V st pk sig \<and> length p = kPrimaryBytes \<and> primary_ok V (statement pk (st_digest st)) p
    | Inl e \<Rightarrow> \<not> response_ok V st pk sig \<and> (\<exists>msg. e = Invalid_argument msg)"
proof -
  obtain com d where hm: "v_hm_commit V (st_digest st) (st_r st) (take 192 (st_commitment st)) = (com, d)" by fastforce
  show ?thesis
  proof (cases "response_ok V st pk sig")
    case False
    then have "com \<noteq> st_commitment st \<or> \<not> v_xmss_verify V (pub_seed pk) (pub_root pk) d sig" by (simp add: response_ok_def hm)
    then have "\<exists>msg. primary_witness V st pk sig = Inl (Invalid_argument msg)" by (auto simp: primary_witness_def hm)
    with False show ?thesis by auto
  next
    case True
    then have com: "com = st_commitment st" and ver: "v_xmss_verify V (pub_seed pk) (pub_root pk) d sig" by (simp_all add: response_ok_def hm)
    define mh where "mh = v_xmss_hash_message V (pub_seed pk) (xs_leaf_index sig) (xs_nonce sig) d"
    obtain ok coords where x: "xmss_extract_coords mh = (ok, coords)" by fastforce
    have ok: "ok" "coords_sum coords = XMSS_TARGET_SUM"
      using ver by (auto simp: v_xmss_verify_def mh_def [symmetric] x Let_def split: if_splits)
    define ends where "ends = v_xmss_wots_pk_from_sig V (pub_seed pk) (xs_leaf_index sig) (xs_sig_hashes sig) coords"
    define sb where "sb = chain_bytes coords [0..<42]"
    have sb: "length sb = 99" using schedule_length [of mh] ok(2) by (simp add: sb_def x)
    have lens: "length (st_r st) = 96" "length (take 192 (st_commitment st)) = 192" "length sb = 99" "length ends = 42" "\<forall>e\<in>set ends. length e = 16"
      using wf sb length_v_ends [OF V wf(3)] by (auto simp: state_wf_def ends_def) (simp add: v_xmss_wots_pk_from_sig_def xmss_sizes)
    have s: "length (xmss_write_sig sig) = 1212" using length_write_sig [OF wf(3)] by (simp add: XMSS_SIG_BYTES_def xmss_sizes)
    define q where "q = put kSigOffset (xmss_write_sig sig) (put 96 (take 192 (st_commitment st)) (put 0 (take 96 (st_r st)) (replicate kPrimaryBytes 0)))"
    define p where "p = st_r st @ take 192 (st_commitment st) @ xmss_write_sig sig @ sb @ concat ends"
    have q: "length q = kPrimaryBytes" using lens s by (simp add: q_def length_put layout_values)
    have fill: "schedule_fill coords (q, kScheduleOffset) = Inr ((), put kScheduleOffset sb q, kEndpointsOffset)"
      using schedule_outer [of kScheduleOffset coords "[0..<42]" q] sb q by (simp add: schedule_fill_def sb_def layout_values)
    have "length (concat ends) = 672" using length_concat_const [of ends 16] lens by simp
    then have p: "put kEndpointsOffset (concat ends) (put kScheduleOffset sb q) = p"
      using filled_witness [OF lens(1,2) s lens(3)] lens(1) by (simp add: q_def p_def)
    have "primary_witness V st pk sig = Inr p"
      unfolding primary_witness_def hm Let_def prod.case mh_def [symmetric] x q_def [symmetric] ends_def [symmetric] fill p [symmetric]
      using com ver ok by simp
    moreover note r = read_witness [OF lens(1,2) wf(3) lens(3-5), folded p_def]
    have fields: "pw_epoch p = xs_leaf_index sig" "pw_nonce p = xs_nonce sig" "map (pw_tip p) [0..<42] = xs_sig_hashes sig"
      using r(4) by (metis pw_sig_def xmss_sig.select_convs)+
    have d: "pw_digest V (st_digest st) p = d" by (simp add: pw_digest_def r hm)
    have cs: "pw_coords V (st_digest st) (pub_seed pk) p = coords" by (simp add: pw_coords_def d fields mh_def [symmetric] x)
    have "primary_ok V (statement pk (st_digest st)) p"
      unfolding primary_ok_def statement_def vstatement.select_convs Let_def cs d fields r(4-6) using ver by (simp add: sb_def ends_def)
    ultimately show ?thesis using True r(1) by simp
  qed
qed

end
