(* ===== verification/Vole_Run.thy ===== *)
theory Vole_Run
  imports Vole_Protocol_Correct
begin

text \<open>
  The signer over its whole life, with crashes and restarts from the persisted key, and the run
  of the protocol from the user's commitment to the verified blind signature.
\<close>

subsection \<open>The key state\<close>

lemma validate_key_iff: "validate_key key \<longleftrightarrow> 1 \<le> unat (sec_height key) \<and> unat (sec_height key) \<le> 32 \<and> unat (sec_next_leaf key) \<le> 2 ^ unat (sec_height key)"
proof -
  have u: "uint (sec_height key) < 1 \<longleftrightarrow> \<not> 1 \<le> unat (sec_height key)" "32 < uint (sec_height key) \<longleftrightarrow> \<not> unat (sec_height key) \<le> 32"
    using uint_nat [of "sec_height key"] by linarith+
  show ?thesis
    unfolding validate_key_def u using unat_one_shift [of "unat (sec_height key)"] by (auto simp: word_less_nat_alt)
qed

text \<open>The key with its next leaf reserved.\<close>

definition reserve :: "SecretKey \<Rightarrow> SecretKey" where
  "reserve key = key\<lparr>sec_next_leaf := sec_next_leaf key + 1\<rparr>"

definition exhausted_key :: "SecretKey \<Rightarrow> bool" where
  "exhausted_key key \<longleftrightarrow> sec_next_leaf key = push_bit (unat (sec_height key)) 1"

lemma reserve_simps [simp]:
  "sec_seed (reserve key) = sec_seed key" "sec_public_seed (reserve key) = sec_public_seed key" "sec_height (reserve key) = sec_height key"
  by (simp_all add: reserve_def)

lemma reserve_key:
  assumes "validate_key key" "\<not> exhausted_key key"
  shows "unat (sec_next_leaf key) < 2 ^ unat (sec_height key)" "unat (sec_next_leaf (reserve key)) = unat (sec_next_leaf key) + 1"
    "unat (ucast (sec_next_leaf key) :: u32) = unat (sec_next_leaf key)" "validate_key (reserve key)"
proof -
  have h: "unat (sec_height key) \<le> 32" and le: "unat (sec_next_leaf key) \<le> 2 ^ unat (sec_height key)" using assms(1) by (simp_all add: validate_key_iff)
  have "unat (sec_next_leaf key) \<noteq> 2 ^ unat (sec_height key)"
    using assms(2) unat_one_shift [OF h] by (metis exhausted_key_def word_unat_eq_iff)
  with le show less: "unat (sec_next_leaf key) < 2 ^ unat (sec_height key)" by simp
  have "(2 :: nat) ^ unat (sec_height key) \<le> 2 ^ 32" using h by (intro power_increasing) simp_all
  with less have "unat (sec_next_leaf key) < 2 ^ 32" by linarith
  then show "unat (ucast (sec_next_leaf key) :: u32) = unat (sec_next_leaf key)"
    by (simp add: unsigned_ucast_eq take_bit_nat_eq_self)
  show one: "unat (sec_next_leaf (reserve key)) = unat (sec_next_leaf key) + 1"
    using \<open>unat (sec_next_leaf key) < 2 ^ 32\<close> by (simp add: reserve_def unat_word_ariths)
  show "validate_key (reserve key)" using assms(1) less one by (simp add: validate_key_iff)
qed

subsection \<open>Signing\<close>

definition signer_wf :: "vole \<Rightarrow> Signer \<Rightarrow> bool" where
  "signer_wf V sg \<longleftrightarrow> secret_wf (sg_key sg) \<and>
     v_kp_reachable V (sec_seed (sg_key sg)) (sec_public_seed (sg_key sg)) (uint (sec_height (sg_key sg))) (sg_tree sg)"

lemma Signer_new_wf:
  assumes "Signer_new V key = Inr sg" "length (sec_seed key) = 32" "length (sec_public_seed key) = 16"
  shows "signer_wf V sg" "sg_key sg = key"
  using assms by (auto simp: Signer_new_def signer_wf_def secret_wf_def v_xmss_keypair_new_def intro: v_new split: if_splits option.splits)

lemma v_sign_leaf:
  "v_xmss_keypair_sign V kp leaf m c = Some (kp', Some sig, c') \<Longrightarrow> xs_leaf_index sig = leaf"
  by (auto simp: v_xmss_keypair_sign_def Let_def split: if_splits option.splits prod.splits)

text \<open>Which exceptions \<open>sign\<close> throws, the callback's among them.\<close>

definition sign_throws :: "'w persist option \<Rightarrow> Signer \<Rightarrow> 'w \<Rightarrow> exn \<Rightarrow> bool" where
  "sign_throws persist sg world e \<longleftrightarrow> e = Runtime_error ''XMSS signing failed; reserved leaf consumed'' \<or>
     e = Runtime_error ''XMSS key exhausted'' \<and> exhausted_key (sg_key sg) \<or>
     (\<exists>f. persist = Some f \<and> fst (f (reserve (sg_key sg)) world) = Some e)"

text \<open>What the callback leaves.\<close>

definition persisted :: "'w persist option \<Rightarrow> Signer \<Rightarrow> 'w \<Rightarrow> 'w" where
  "persisted persist sg world = (case persist of None \<Rightarrow> world | Some f \<Rightarrow> snd (f (reserve (sg_key sg)) world))"

lemma sign_exhausted:
  "exhausted_key (sg_key sg) \<Longrightarrow> Signer_sign V sg com persist (world, c) = Some (Inl (Runtime_error ''XMSS key exhausted''), sg, world, c)"
  by (simp add: Signer_sign_def exhausted_key_def Let_def)

lemma sign_reserves:
  assumes "Signer_sign V sg com persist (world, c) = Some (r, sg', world', c')" "\<not> exhausted_key (sg_key sg)"
  shows "sg_key sg' = reserve (sg_key sg)" "world' = persisted persist sg world"
    "r = Inr sig \<Longrightarrow> (\<forall>f. persist = Some f \<longrightarrow> fst (f (reserve (sg_key sg)) world) = None) \<and>
       v_xmss_keypair_sign V (sg_tree sg) (ucast (sec_next_leaf (sg_key sg))) (v_hm_digest V com) c = Some (sg_tree sg', Some sig, c')"
    "r = Inl e \<Longrightarrow> sign_throws persist sg world e"
    "sg_tree sg' = sg_tree sg \<or> (\<exists>o' c2. v_xmss_keypair_sign V (sg_tree sg) (ucast (sec_next_leaf (sg_key sg))) (v_hm_digest V com) c = Some (sg_tree sg', o', c2))"
  using assms by (auto simp: Signer_sign_def exhausted_key_def Let_def reserve_def persisted_def sign_throws_def split: if_splits option.splits prod.splits)

lemma sign_wf:
  assumes "signer_wf V sg" "Signer_sign V sg com persist (world, c) = Some (r, sg', world', c')"
  shows "signer_wf V sg'"
proof (cases "exhausted_key (sg_key sg)")
  case True
  then show ?thesis using sign_exhausted [OF True, of V com persist world c] assms by simp
next
  case False
  note s = sign_reserves [OF assms(2) False]
  have key: "secret_wf (reserve (sg_key sg))" using assms(1) reserve_key(4) [OF _ False] by (simp add: signer_wf_def secret_wf_def)
  have reach: "v_kp_reachable V (sec_seed (sg_key sg)) (sec_public_seed (sg_key sg)) (uint (sec_height (sg_key sg))) (sg_tree sg)"
    using assms(1) by (simp add: signer_wf_def)
  from s(5) have "v_kp_reachable V (sec_seed (sg_key sg)) (sec_public_seed (sg_key sg)) (uint (sec_height (sg_key sg))) (sg_tree sg')"
    using reach v_sign [OF reach] by auto
  then show ?thesis using key s(1) by (simp add: signer_wf_def)
qed

subsection \<open>A signer's life\<close>

text \<open>A callback that stores the key, or throws with the old or the new key stored: the write of
  the command line replaces the file and may then still fail.\<close>

definition stores :: "SecretKey persist \<Rightarrow> bool" where
  "stores f \<longleftrightarrow> (\<forall>key old. case f key old of (None, new) \<Rightarrow> new = key | (Some e, new) \<Rightarrow> new = old \<or> new = key)"

text \<open>
  What can happen to a key: a process starts on the stored key, signs or fails to, is killed
  while the callback runs or afterwards, and another process starts. The state is the stored
  key, the signer in memory and the signatures handed out.
\<close>

inductive signer_life :: "vole \<Rightarrow> SecretKey \<Rightarrow> SecretKey \<Rightarrow> Signer \<Rightarrow> (bytes \<times> xmss_sig) list \<Rightarrow> bool"
  for V key where
  boot: "Signer_new V key = Inr sg \<Longrightarrow> signer_life V key key sg []"
| issue: "signer_life V key stored sg issued \<Longrightarrow> stores f \<Longrightarrow>
    Signer_sign V sg com (Some f) (stored, c) = Some (Inr sig, sg', stored', c') \<Longrightarrow> signer_life V key stored' sg' (issued @ [(com, sig)])"
| refuse: "signer_life V key stored sg issued \<Longrightarrow> stores f \<Longrightarrow>
    Signer_sign V sg com (Some f) (stored, c) = Some (Inl e, sg', stored', c') \<Longrightarrow> signer_life V key stored' sg' issued"
| restart: "signer_life V key stored sg issued \<Longrightarrow> Signer_new V stored = Inr sg' \<Longrightarrow> signer_life V key stored sg' issued"
| crash: "signer_life V key stored sg issued \<Longrightarrow> stores f \<Longrightarrow> \<not> exhausted_key (sg_key sg) \<Longrightarrow>
    f (reserve (sg_key sg)) stored = (r, stored') \<Longrightarrow> Signer_new V stored' = Inr sg' \<Longrightarrow> signer_life V key stored' sg' issued"

definition same_key :: "SecretKey \<Rightarrow> SecretKey \<Rightarrow> bool" where
  "same_key a b \<longleftrightarrow> sec_seed a = sec_seed b \<and> sec_public_seed a = sec_public_seed b \<and> sec_height a = sec_height b"

definition key_root :: "vole \<Rightarrow> SecretKey \<Rightarrow> node" where
  "key_root V key = xroot (kkw_view V) (sec_seed key) (sec_public_seed key) (unat (sec_height key))"

text \<open>The signatures handed out use leaves below \<open>n\<close>, each once and in order, and verify.\<close>

definition issued_ok :: "vole \<Rightarrow> SecretKey \<Rightarrow> nat \<Rightarrow> (bytes \<times> xmss_sig) list \<Rightarrow> bool" where
  "issued_ok V key n issued \<longleftrightarrow> sorted_wrt (<) (map (unat \<circ> xs_leaf_index \<circ> snd) issued) \<and>
     (\<forall>i\<in>set issued. unat (xs_leaf_index (snd i)) < n \<and>
        v_xmss_verify V (sec_public_seed key) (key_root V key) (v_hm_digest V (fst i)) (snd i))"

lemma issued_mono: "issued_ok V key n issued \<Longrightarrow> n \<le> m \<Longrightarrow> issued_ok V key m issued"
  by (auto simp: issued_ok_def)

lemma issued_snoc:
  assumes "issued_ok V key n issued" "n \<le> unat (xs_leaf_index sig)" "unat (xs_leaf_index sig) < m"
    and "v_xmss_verify V (sec_public_seed key) (key_root V key) (v_hm_digest V com) sig"
  shows "issued_ok V key m (issued @ [(com, sig)])"
  using assms by (auto simp: issued_ok_def sorted_wrt_append)

definition life_inv :: "vole \<Rightarrow> SecretKey \<Rightarrow> SecretKey \<Rightarrow> Signer \<Rightarrow> (bytes \<times> xmss_sig) list \<Rightarrow> bool" where
  "life_inv V key stored sg issued \<longleftrightarrow> signer_wf V sg \<and> same_key (sg_key sg) key \<and> same_key stored key \<and>
     unat (sec_next_leaf stored) \<le> unat (sec_next_leaf (sg_key sg)) \<and> issued_ok V key (unat (sec_next_leaf stored)) issued"

lemma same_key_reserve [simp]: "same_key (reserve a) b = same_key a b"
  by (simp add: same_key_def)

text \<open>The stored key after a call of the callback: the old one or the reserved one.\<close>

lemma stored_cases:
  assumes "stores f" "f k stored = (r, stored')"
  shows "stored' = stored \<and> r \<noteq> None \<or> stored' = k"
proof -
  have "case f k stored of (None, new) \<Rightarrow> new = k | (Some e, new) \<Rightarrow> new = stored \<or> new = k" using assms(1) by (simp add: stores_def)
  then show ?thesis using assms(2) by (auto split: option.splits)
qed

lemma restart_inv:
  assumes "length (sec_seed key) = 32" "length (sec_public_seed key) = 16" "life_inv V key stored sg issued"
    and "same_key stored' key" "unat (sec_next_leaf stored) \<le> unat (sec_next_leaf stored')" "Signer_new V stored' = Inr sg'"
  shows "life_inv V key stored' sg' issued"
proof -
  have "signer_wf V sg'" "sg_key sg' = stored'" using Signer_new_wf [OF assms(6)] assms(1,2,4) by (simp_all add: same_key_def)
  then show ?thesis using assms(3-5) by (auto simp: life_inv_def intro: issued_mono)
qed

lemma signer_wf_root:
  assumes "vole_ok V" "signer_wf V sg"
  shows "kp_root (sg_tree sg) = xroot (kkw_view V) (sec_seed (sg_key sg)) (sec_public_seed (sg_key sg)) (unat (sec_height (sg_key sg)))"
proof -
  have "length (sec_public_seed (sg_key sg)) = 16" using assms(2) by (simp add: signer_wf_def secret_wf_def)
  then have "kp_reachable (kkw_view V) (sec_seed (sg_key sg)) (sec_public_seed (sg_key sg)) (uint (sec_height (sg_key sg))) (sg_tree sg)"
    using assms v_kp_reachable_view by (auto simp: signer_wf_def)
  from reachable_wf [OF this] show ?thesis by (auto simp: kp_wf_def)
qed

lemma issue_inv:
  assumes V: "vole_ok V" and inv: "life_inv V key stored sg issued" and f: "stores f"
    and sign: "Signer_sign V sg com (Some f) (stored, c) = Some (Inr sig, sg', stored', c')"
  shows "life_inv V key stored' sg' (issued @ [(com, sig)])"
proof -
  note i = inv [unfolded life_inv_def]
  have no: "\<not> exhausted_key (sg_key sg)" using sign sign_exhausted [of sg V com "Some f" stored c] by auto
  note s = sign_reserves [OF sign no]
  have wf: "signer_wf V sg" "validate_key (sg_key sg)" using i by (simp_all add: signer_wf_def secret_wf_def)
  note rk = reserve_key [OF wf(2) no]
  have ok: "fst (f (reserve (sg_key sg)) stored) = None"
    and xs: "v_xmss_keypair_sign V (sg_tree sg) (ucast (sec_next_leaf (sg_key sg))) (v_hm_digest V com) c = Some (sg_tree sg', Some sig, c')"
    using s(3) [of sig] by simp_all
  obtain r where "f (reserve (sg_key sg)) stored = (r, stored')" using s(2) by (cases "f (reserve (sg_key sg)) stored") (simp add: persisted_def)
  then have st: "stored' = reserve (sg_key sg)" using stored_cases [OF f] ok by fastforce
  have leaf: "unat (xs_leaf_index sig) = unat (sec_next_leaf (sg_key sg))" using v_sign_leaf [OF xs] rk(3) by simp
  have "v_xmss_verify V (sec_public_seed (sg_key sg)) (kp_root (sg_tree sg)) (v_hm_digest V com) sig"
    by (rule v_issued_verifies [OF V _ _ xs]) (use wf in \<open>auto simp: signer_wf_def secret_wf_def\<close>)
  then have "v_xmss_verify V (sec_public_seed key) (key_root V key) (v_hm_digest V com) sig"
    using i signer_wf_root [OF V wf(1)] by (simp add: same_key_def key_root_def)
  then have "issued_ok V key (unat (sec_next_leaf stored')) (issued @ [(com, sig)])"
    by (rule issued_snoc [rotated 3]) (use i leaf rk(2) st in auto)
  then show ?thesis using i s(1) st sign_wf [OF wf(1) sign] by (simp add: life_inv_def)
qed

lemma signer_life_inv:
  assumes "signer_life V key stored sg issued" "vole_ok V" "length (sec_seed key) = 32" "length (sec_public_seed key) = 16"
  shows "life_inv V key stored sg issued"
  using assms(1)
proof induction
  case (boot sg)
  then show ?case using Signer_new_wf [OF boot assms(3,4)] by (simp add: life_inv_def same_key_def issued_ok_def)
next
  case (issue stored sg issued f com c sig sg' stored' c')
  show ?case by (rule issue_inv [OF assms(2) issue.IH issue.hyps(2,3)])
next
  case (refuse stored sg issued f com c e sg' stored' c')
  note i = refuse.IH [unfolded life_inv_def]
  show ?case
  proof (cases "exhausted_key (sg_key sg)")
    case True
    then show ?thesis using sign_exhausted [OF True, of V com "Some f" stored c] refuse by simp
  next
    case False
    note s = sign_reserves [OF refuse.hyps(3) False]
    have wf: "signer_wf V sg" "validate_key (sg_key sg)" using i by (simp_all add: signer_wf_def secret_wf_def)
    note rk = reserve_key [OF wf(2) False]
    obtain r where "f (reserve (sg_key sg)) stored = (r, stored')" using s(2) by (cases "f (reserve (sg_key sg)) stored") (simp add: persisted_def)
    from stored_cases [OF refuse.hyps(2) this] show ?thesis
      using i s(1) rk(2) sign_wf [OF wf(1) refuse.hyps(3)] by (auto simp: life_inv_def intro: issued_mono)
  qed
next
  case (restart stored sg issued sg')
  show ?case by (rule restart_inv [OF assms(3,4) restart.IH _ _ restart.hyps(2)]) (use restart.IH in \<open>simp_all add: life_inv_def\<close>)
next
  case (crash stored sg issued f r stored' sg')
  note i = crash.IH [unfolded life_inv_def]
  have "validate_key (sg_key sg)" using i by (simp add: signer_wf_def secret_wf_def)
  note rk = reserve_key [OF this crash.hyps(3)]
  from stored_cases [OF crash.hyps(2,4)] have "same_key stored' key \<and> unat (sec_next_leaf stored) \<le> unat (sec_next_leaf stored')"
    using i rk(2) by auto
  then show ?case using restart_inv [OF assms(3,4) crash.IH _ _ crash.hyps(5)] by blast
qed

subsection \<open>From the commitment to the blind signature\<close>

lemma signer_public_wf:
  assumes "vole_ok V" "signer_wf V sg"
  shows "public_wf (public_key sg)"
proof -
  let ?key = "sg_key sg"
  have pk: "length (sec_public_seed ?key) = 16" using assms(2) by (simp add: signer_wf_def secret_wf_def)
  note b3 = kkw_view_length [OF assms(1)]
  have "length (xmss_climb_upper (kkw_view V) (sec_public_seed ?key) n h us) = 16" if "length n = 16" for n h us
  proof -
    have "length (fold (\<lambda>i node. xmss_hash_tree_node (kkw_view V) (sec_public_seed ?key) node (us ! i) (of_nat (h + i)) 0) is n) = 16" for "is"
      using that
      by (induction "is" arbitrary: n) (use b3 pk in \<open>simp_all add: xmss_hash_tree_node_def blake3_th_into_eq BLAKE3_TH_MAX_DOMAIN_def
          BLAKE3_OUT_LEN_def xmss_sizes lens\<close>)
    then show ?thesis by (simp add: xmss_climb_upper_def)
  qed
  then have "length (kp_root (sg_tree sg)) = 16"
    unfolding signer_wf_root [OF assms] xroot_def by (simp add: length_xtree [OF _ pk] b3)
  then show ?thesis using pk by (simp add: public_wf_def public_key_def)
qed

lemma length_v_commit:
  assumes "vole_ok V" "length m = 32" "length r = 96" "length a = 192"
  shows "length (fst (v_hm_commit V m r a)) = 256" "take 192 (fst (v_hm_commit V m r a)) = a"
proof -
  have "length (fst (v_hm_commit V m r a)) = HM_COM_BYTES"
    unfolding v_hm_view(3) [OF assms(1)] using length_hm_commit [of "b3 (kkw_view V)"] kkw_view_length [OF assms(1)] assms by (simp add: hm_sizes)
  then show "length (fst (v_hm_commit V m r a)) = 256" by (simp add: hm_sizes)
  show "take 192 (fst (v_hm_commit V m r a)) = a" using assms(4) by (simp add: v_hm_commit_def Let_def hm_commitment_def)
qed

text \<open>What the user holds after committing: the state opens the commitment.\<close>

lemma user_commit_opens:
  assumes V: "vole_ok V" and run: "user_commit V m c = (Inr st, c')"
  shows "state_wf st" "st_digest st = message_digest V m"
    "v_hm_commit V (st_digest st) (st_r st) (take 192 (st_commitment st)) = (st_commitment st, v_hm_digest V (st_commitment st))"
proof -
  obtain r c1 a where d: "random V 96 c = (Inr r, c1)" "random V 192 c1 = (Inr a, c')"
    and st: "st = \<lparr>st_digest = message_digest V m, st_r = r, st_commitment = fst (v_hm_commit V (message_digest V m) r a)\<rparr>"
    using run by (auto simp: user_commit_def Let_def split: prod.splits sum.splits)
  have len: "length r = 96" "length a = 192"
    using d length_random_bytes [OF kkw_view_ok [OF V]] by (auto simp: random_def v_random_bytes_view split: prod.splits option.splits)
  have m: "length (message_digest V m) = 32" unfolding message_digest_def by (rule length_shake_th_into [OF V]) (simp add: ascii_def)
  note hm = length_v_commit [OF V m len]
  show "state_wf st" "st_digest st = message_digest V m" using len m hm by (simp_all add: st state_wf_def)
  show "v_hm_commit V (st_digest st) (st_r st) (take 192 (st_commitment st)) = (st_commitment st, v_hm_digest V (st_commitment st))"
    using hm(2) by (simp add: st) (simp add: v_hm_commit_def Let_def)
qed

lemma unblind_outcome:
  assumes C: "pconfig_ok C" "faest_ok F (p_circuit C) L" "poly_ok L" "trace_ok (p_circuit C) L"
    and V: "vole_ok V" "shake_ok V" "vole_malloc_ok V 56"
    and wf: "state_wf st" "st_digest st = message_digest V m" "public_wf pk" "sig_wf sig"
  shows "case unblind V F C L st pk sig c of
      (Inr bs, c') \<Rightarrow> response_ok V st pk sig \<and> verify_signature V F C pk m bs = Inr True
    | (Inl e, c') \<Rightarrow> \<not> response_ok V st pk sig \<and> c' = c \<or> response_ok V st pk sig \<and> e \<in> prove_failures"
proof (cases "primary_witness V st pk sig")
  case (Inl e)
  then show ?thesis using primary_witness_outcome [OF V(1) wf(1,3,4)] by (simp add: unblind_def)
next
  case (Inr p)
  have stm: "statement_wf (statement pk (st_digest st))" using wf(1,3) by (simp add: statement_wf_of state_wf_def)
  from Inr primary_witness_outcome [OF V(1) wf(1,3,4)]
  have p: "response_ok V st pk sig" "length p = kPrimaryBytes" "primary_ok V (statement pk (st_digest st)) p" by simp_all
  show ?thesis
    using prove_outcome [OF C V stm, of p c] p wf(2) by (auto simp: unblind_def Inr verify_signature_def split: prod.splits sum.splits)
qed

text \<open>Every outcome of the honest run.\<close>

theorem protocol_run:
  assumes C: "pconfig_ok C" "faest_ok F (p_circuit C) L" "poly_ok L" "trace_ok (p_circuit C) L"
    and V: "vole_ok V" "shake_ok V" "vole_malloc_ok V 56" and sg: "signer_wf V sg"
  shows "case user_commit V m c of
      (Inl e, c1) \<Rightarrow> e = Runtime_error ''OS random source failed''
    | (Inr st, c1) \<Rightarrow>
        (case Signer_sign V sg (st_commitment st) persist (world, c1) of
           None \<Rightarrow> v_xmss_keypair_sign V (sg_tree sg) (ucast (sec_next_leaf (sg_key sg))) (v_hm_digest V (st_commitment st)) c1 = None
         | Some (Inl e, sg', world', c2) \<Rightarrow> sign_throws persist sg world e
         | Some (Inr sig, sg', world', c2) \<Rightarrow>
             (case unblind V F C L st (public_key sg) sig c2 of
                (Inl e, c3) \<Rightarrow> e \<in> prove_failures
              | (Inr bs, c3) \<Rightarrow> verify_signature V F C (public_key sg) m bs = Inr True))"
proof (cases "user_commit V m c")
  case run: (Pair r c1)
  show ?thesis
  proof (cases r)
    case (Inl e)
    then show ?thesis using run by (auto simp: user_commit_def Let_def random_def split: prod.splits sum.splits option.splits)
  next
    case (Inr st)
    note opens = user_commit_opens [OF V(1) run [unfolded Inr]]
    show ?thesis
    proof (cases "Signer_sign V sg (st_commitment st) persist (world, c1)")
      case None
      then show ?thesis using run Inr by (auto simp: Signer_sign_def Let_def split: if_splits option.splits prod.splits)
    next
      case (Some x)
      obtain r2 sg' world' c2 where x: "x = (r2, sg', world', c2)" by (cases x)
      note sign = Some [unfolded x]
      show ?thesis
      proof (cases r2)
        case e: (Inl e)
        have "sign_throws persist sg world e"
        proof (cases "exhausted_key (sg_key sg)")
          case True
          then show ?thesis using sign_exhausted [OF True, of V "st_commitment st" persist world c1] sign e by (simp add: sign_throws_def)
        next
          case False
          show ?thesis by (rule sign_reserves(4) [OF sign False e])
        qed
        then show ?thesis using run Inr Some x e by simp
      next
        case sig: (Inr sig)
        have no: "\<not> exhausted_key (sg_key sg)"
          using sign sig sign_exhausted [of sg V "st_commitment st" persist world c1] by auto
        have xs: "v_xmss_keypair_sign V (sg_tree sg) (ucast (sec_next_leaf (sg_key sg))) (v_hm_digest V (st_commitment st)) c1 = Some (sg_tree sg', Some sig, c2)"
          using sign_reserves(3) [OF sign no sig] by simp
        have reach: "length (sec_public_seed (sg_key sg)) = 16"
          "v_kp_reachable V (sec_seed (sg_key sg)) (sec_public_seed (sg_key sg)) (uint (sec_height (sg_key sg))) (sg_tree sg)"
          using sg by (simp_all add: signer_wf_def secret_wf_def)
        have "response_ok V st (public_key sg) sig"
          using v_issued_verifies [OF V(1) reach xs] opens(3) by (simp add: response_ok_def public_key_def)
        then show ?thesis
          using unblind_outcome [OF C V opens(1,2) signer_public_wf [OF V(1) sg] v_issued_sig_wf [OF V(1) reach xs], of c2] run Inr Some x sig
          by (auto split: prod.splits sum.splits)
      qed
    qed
  qed
qed

end
