(* ===== verification/Sample_Proof.thy ===== *)
theory Sample_Proof
  imports Sample_Vole Vole_Run
begin

text \<open>
  A concrete proof library and signers for the witnesses. The library keeps every promise of
  \<open>faest_ok\<close> and hides nothing: its VOLE has zero masks and MACs, and its QuickSilver values are
  the field elements themselves.
\<close>

definition bit_at :: "bytes \<Rightarrow> nat \<Rightarrow> bool" where
  "bit_at x i \<longleftrightarrow> i < 8 * length x \<and> bit (x ! (i div 8)) (i mod 8)"

definition sample_prover :: "bytes \<Rightarrow> poly128 qs_ops" where
  "sample_prover x = \<lparr>qs_constant = of_bool, get_witness_bit = (\<lambda>i. of_bool (bit_at x i)), qs_add = (XOR),
     qs_mul = poly_mul (sample_lib sample_cfg), qs_scale = poly_mul (sample_lib sample_cfg)\<rparr>"

definition sample_verifier :: "unit qs_ops" where
  "sample_verifier = \<lparr>qs_constant = (\<lambda>b. ()), get_witness_bit = (\<lambda>i. ()), qs_add = (\<lambda>a b. ()), qs_mul = (\<lambda>a b. ()), qs_scale = (\<lambda>a c. ())\<rparr>"

definition sample_faest :: "(unit, poly128 list, poly128, unit) faest" where
  "sample_faest =
     \<lparr>VOLE_COMMIT_SIZE = 16, VOLE_COMMIT_CHECK_SIZE = 16, VOLE_CHECK_CHALLENGE_BYTES = 16, VOLE_CHECK_PROOF_BYTES = 16,
      QS_CHALLENGE_BYTES = 16, QS_CHECK_BYTES = 16, OPEN_SIZE = 16,
      vole_commit = (\<lambda>seed iv. ((), replicate (WBytes sample_cfg) 0, replicate (8 * WBytes sample_cfg) 0, replicate 16 0, replicate 16 0)),
      vole_check_sender = (\<lambda>u v chal. (replicate 16 0, replicate 16 0)),
      vole_check_receiver = (\<lambda>q expanded chal check_pf. []),
      vole_reconstruct = (\<lambda>iv expanded commitment opened. Some (replicate (8 * WBytes sample_cfg) 0, replicate 16 0)),
      vole_receiver_apply_correction = (\<lambda>c q expanded. map (\<lambda>i. if bit_at c i then load_le expanded else 0) [0..<length q]),
      transpose_secpar = (\<lambda>m. m), expand_bits_to_bytes = (\<lambda>delta. delta), vc_open = (\<lambda>forest expanded. Some (replicate 16 0)),
      qs_prover = (\<lambda>x macs n chal. sample_prover x),
      qs_prove = (\<lambda>x macs n chal cs m. (replicate (QS_PROOF_BYTES sample_cfg) 0, replicate 16 0)),
      qs_verifier = (\<lambda>keys n D chal. sample_verifier),
      qs_verify = (\<lambda>keys n D chal ds m qs_pf. replicate 16 0)\<rparr>"

lemma sample_faest_simps [simp]:
  "VOLE_COMMIT_SIZE sample_faest = 16" "VOLE_CHECK_PROOF_BYTES sample_faest = 16" "OPEN_SIZE sample_faest = 16"
  "vole_commit sample_faest seed iv = ((), replicate (WBytes sample_cfg) 0, replicate (8 * WBytes sample_cfg) 0, replicate 16 0, replicate 16 0)"
  "vole_check_sender sample_faest u v chal = (replicate 16 0, replicate 16 0)" "vole_check_receiver sample_faest q ex chal pf = []"
  "vole_reconstruct sample_faest iv ex com opened = Some (replicate (8 * WBytes sample_cfg) 0, replicate 16 0)"
  "vole_receiver_apply_correction sample_faest c q ex = map (\<lambda>i. if bit_at c i then load_le ex else 0) [0..<length q]"
  "transpose_secpar sample_faest m = m" "expand_bits_to_bytes sample_faest delta = delta" "vc_open sample_faest forest ex = Some (replicate 16 0)"
  "qs_prover sample_faest x macs n chal = sample_prover x" "qs_verifier sample_faest keys n D chal = sample_verifier"
  "qs_prove sample_faest x macs n chal cs k = (replicate (QS_PROOF_BYTES sample_cfg) 0, replicate 16 0)"
  "qs_verify sample_faest keys n D chal ds k qs_pf = replicate 16 0"
  by (simp_all add: sample_faest_def)

lemma sample_vole_law:
  "vole_law sample_faest sample_cfg iv forest (replicate (WBytes sample_cfg) 0) (replicate (8 * WBytes sample_cfg) 0) com (replicate 16 0) delta
     (replicate 16 0) (replicate (8 * WBytes sample_cfg) 0)"
proof -
  have "map (\<lambda>i. replicate (WBytes sample_cfg) 0 ! i XOR w ! i) [0..<WBytes sample_cfg] = w" if "length w = WBytes sample_cfg" for w :: bytes
    using that by (auto intro!: nth_equalityI)
  then show ?thesis by (simp add: vole_law_def correlated_def bit_at_def)
qed

lemma sample_faest_ok: "faest_ok sample_faest sample_cfg (sample_lib sample_cfg)"
proof -
  have "quicksilver_law sample_faest sample_cfg (sample_lib sample_cfg) x macs keys D chal (\<lambda>_ _. True) id (bit_at x)" for x macs keys D chal
    by (simp add: quicksilver_law_def qs_ok_def qs_rel_def sample_prover_def bit_at_def)
  then have "faest_qs_ok sample_faest sample_cfg (sample_lib sample_cfg)" unfolding faest_qs_ok_def
    by (intro conjI allI impI) (simp, blast)
  moreover have "faest_vole_ok sample_faest sample_cfg" unfolding faest_vole_ok_def
    by (simp, intro allI impI exI) (rule sample_vole_law)
  ultimately show ?thesis by (simp add: faest_ok_def)
qed

definition sample_pconfig :: pconfig where
  "sample_pconfig = \<lparr>p_circuit = sample_cfg, kVoleTrees = 11, kGrindingBits = 8\<rparr>"

lemma sample_pconfig_ok: "pconfig_ok sample_pconfig" "p_circuit sample_pconfig = sample_cfg"
  by (simp_all add: pconfig_ok_def sample_pconfig_def sample_cfg_ok)

subsection \<open>Signers\<close>

definition sample_secret :: SecretKey where
  "sample_secret = \<lparr>sec_seed = replicate 32 9, sec_public_seed = replicate 16 7, sec_height = 2, sec_next_leaf = 0\<rparr>"

lemma sample_secret_wf: "secret_wf sample_secret" "length (sec_seed sample_secret) = 32" "length (sec_public_seed sample_secret) = 16"
  by (simp_all add: secret_wf_def sample_secret_def validate_key_def)

lemma sample_signer:
  assumes "vole_ok V" "\<And>n. vole_malloc_ok V n"
  obtains sg where "Signer_new V sample_secret = Inr sg" "signer_wf V sg" "sg_key sg = sample_secret"
proof -
  have "\<exists>kp. v_xmss_keypair_new V (replicate 32 9) (replicate 16 7) 2 = Some kp"
    unfolding v_keypair_new_view(2) [OF assms(1), of "replicate 16 7", simplified] xmss_keypair_new_def
    using assms(2) by (simp add: new_split_some_iff XMSS_SUBTREE_H_def xmss_alloc_levels_def list_all_iff)
  then obtain sg where sg: "Signer_new V sample_secret = Inr sg"
    by (auto simp: Signer_new_def sample_secret_def validate_key_def)
  with Signer_new_wf [OF sg sample_secret_wf(2,3)] show thesis using that by blast
qed

end
