(* ===== verification/Vole_Protocol_Properties.thy ===== *)
theory Vole_Protocol_Properties
  imports Sample_Proof
begin

text \<open>
  The properties of the VOLEitH proof and protocol: the honest run, the prover and the verifier,
  the dimensions of the circuit, the user's witness, the signer's leaves and the encodings.
\<close>

subsection \<open>The proof\<close>





text \<open>C16. The verifier is total: on every input it returns, without an exception, and what it
  accepts has the length of the layout, the version, the parameters of the build in its header,
  and a challenge that passes the grinding.\<close>

theorem vole_verify_total:
  assumes "pconfig_ok C" "statement_wf stm"
  shows "verify_proof V F C stm pf = Inr False \<or>
    verify_proof V F C stm pf = Inr True \<and> length pf = l_size (proof_layout F C) \<and> take 8 pf = kProofVersion \<and> unat (pf ! 8) = kVoleTrees C \<and>
      unat (pf ! 9) = kProofDegree (p_circuit C) \<and> unat (pf ! 10) = kGrindingBits C \<and>
      grinding_passes C (segment (l_delta (proof_layout F C)) 16 pf)"
proof -
  obtain b where b: "verify_proof V F C stm pf = Inr b" using verify_total [OF assms] by blast
  then show ?thesis by (cases b) (use verify_format [of V F C stm pf] in auto)
qed

lemma vole_verify_total_witness:
  "verify_proof fips_vole sample_faest sample_pconfig sample_statement [1, 2, 3] = Inr False"
  using vole_verify_total [OF sample_pconfig_ok(1) sample_statement_wf, of fips_vole sample_faest "[1, 2, 3]"]
  by (auto simp: kProofVersion_def ascii_def)

text \<open>C33. The dimensions in \<^verbatim>\<open>proof.hpp\<close> are those of the circuit at each proof degree: in both contexts
  \<open>evaluate\<close> never finds the circuit and the VOLE parameters to disagree, so it does what the
  statement circuit does, and in the authenticated context it always returns, with exactly
  \<open>kWitnessBits\<close> bits, \<open>kConstraints\<close> constraints and 141 permutations.\<close>

theorem circuit_dimensions:
  assumes "cfg_ok cfg" "statement_wf stm"
  shows "evaluate cfg (native_engine cfg L) nc_constraints nc_permutations stm (native_context_new p v) =
      c_statement cfg (native_engine cfg L) stm (native_context_new p v) \<and>
    (\<exists>s. evaluate cfg (auth_engine cfg Q) ac_constraints ac_permutations stm auth_context_new = Inr ((), s) \<and>
      ac_cursor s = kWitnessBits cfg \<and> ac_constraints s = kConstraints cfg \<and> ac_permutations s = 141)"
proof -
  obtain s where s: "c_statement cfg (auth_engine cfg Q) stm auth_context_new = Inr ((), s)" using auth_returns [OF assms(2)] by blast
  then have "evaluate cfg (auth_engine cfg Q) ac_constraints ac_permutations stm auth_context_new = Inr ((), s)"
    by (simp add: evaluate_auth [OF assms])
  then show ?thesis
    using evaluate_native [OF assms, of L p v] auth_dimensions [OF assms s] by (auto simp: kPermutations_def)
qed

lemma circuit_dimensions_witness:
  "\<exists>s. evaluate sample_cfg (auth_engine sample_cfg sample_qs) ac_constraints ac_permutations sample_statement auth_context_new = Inr ((), s) \<and>
     ac_cursor s = 945656 \<and> ac_constraints s = 915201"
  using circuit_dimensions [OF sample_cfg_ok sample_statement_wf, of "sample_lib sample_cfg" "[]" True sample_qs]
  by (auto simp: dimension_defs sample_cfg_def kKeccakSnapshots_def kKeccakStride_def)

subsection \<open>The protocol\<close>

text \<open>C22. The user's primary witness: it is built exactly when the state opens its commitment and
  the signature verifies on the digest, it is then the one the statement circuit accepts, and
  otherwise the only exception is an invalid argument, so the length check of the schedule and
  the bounds check of its writes never fire.\<close>

theorem vole_primary_witness:
  assumes "vole_ok V" "state_wf st" "public_wf pk" "sig_wf sig"
  shows "case primary_witness V st pk sig of
      Inr p \<Rightarrow> response_ok V st pk sig \<and> length p = kPrimaryBytes \<and> primary_ok V (statement pk (st_digest st)) p
    | Inl e \<Rightarrow> \<not> response_ok V st pk sig \<and> (\<exists>msg. e = Invalid_argument msg)"
  by (rule primary_witness_outcome [OF assms])

lemma vole_primary_witness_witness:
  "\<exists>st pk sig p. primary_witness sample_vole st pk sig = Inr p \<and> primary_ok sample_vole (statement pk (st_digest st)) p"
proof -
  note V = sample_vole_ok
  obtain sg where sg: "signer_wf sample_vole sg" "sg_key sg = sample_secret" by (rule sample_signer [OF V]) (simp_all add: sample_vole_def)
  have r: "\<exists>bs c'. random sample_vole n c = (Inr bs, c')" for n c
  proof -
    have "\<exists>bs c'. v_randombytes_loop sample_vole n out c = (Some bs, c')" for out
    proof (induction n arbitrary: out c rule: less_induct)
      case (less n)
      then show ?case
        by (subst v_randombytes_loop.simps) (auto simp: sample_vole_def Let_def VOLEITH_GETENTROPY_MAX_def)
    qed
    from this [of "[]"] show ?thesis by (auto simp: random_def v_random_bytes_def v_randombytes_fill_def)
  qed
  obtain r1 c0 where r1: "random sample_vole 96 0 = (Inr r1, c0)" using r by blast
  obtain a c1 where "random sample_vole 192 c0 = (Inr a, c1)" using r by blast
  with r1 obtain st where st: "user_commit sample_vole [1] 0 = (Inr st, c1)" by (simp add: user_commit_def Let_def)
  note opens = user_commit_opens [OF V st]
  have reach: "length (sec_public_seed (sg_key sg)) = 16"
    "v_kp_reachable sample_vole (sec_seed (sg_key sg)) (sec_public_seed (sg_key sg)) (uint (sec_height (sg_key sg))) (sg_tree sg)"
    using sg(1) by (simp_all add: signer_wf_def secret_wf_def)
  note wf = reachable_wf [OF v_kp_reachable_view [OF reach(2) V reach(1), unfolded sample_vole_view]]
  have pk: "length (kp_pk_seed (sg_tree sg)) = 16" using wf reach by simp
  have leaf: "unat (0 :: u32) < 2 ^ kp_height (sg_tree sg)" by simp
  obtain kp' sig c2 where "xmss_keypair_sign sample_platform (sg_tree sg) 0 (v_hm_digest sample_vole (st_commitment st)) c1 = Some (kp', Some sig, c2)"
    using sign_spec [OF conjunct1 [OF wf] leaf, of "v_hm_digest sample_vole (st_commitment st)" c1] sample_grind [OF pk] by auto
  then have xs: "v_xmss_keypair_sign sample_vole (sg_tree sg) 0 (v_hm_digest sample_vole (st_commitment st)) c1 = Some (kp', Some sig, c2)"
    using v_keypair_sign_view [OF V pk] by (simp add: sample_vole_view)
  have "response_ok sample_vole st (public_key sg) sig"
    using v_issued_verifies [OF V reach xs] opens(3) by (simp add: response_ok_def public_key_def)
  with vole_primary_witness [OF V opens(1) signer_public_wf [OF V sg(1)] v_issued_sig_wf [OF V reach xs]] show ?thesis
    by (auto split: sum.splits)
qed

text \<open>C7. No leaf is used twice over the whole life of a key: whatever is signed, however often the
  process is killed, also while the key is being persisted, and restarted from the stored key, and
  whether the callback throws before or after it replaced the stored key, the signatures handed
  out have strictly increasing leaves, all below the stored counter, and each verifies under
  the root of the key.\<close>

theorem vole_leaf_once:
  assumes "vole_ok V" "length (sec_seed key) = 32" "length (sec_public_seed key) = 16" "signer_life V key stored sg issued"
  shows "sorted_wrt (<) (map (unat \<circ> xs_leaf_index \<circ> snd) issued) \<and>
    (\<forall>i\<in>set issued. unat (xs_leaf_index (snd i)) < unat (sec_next_leaf stored) \<and>
      v_xmss_verify V (sec_public_seed key) (pub_root (public_key sg)) (v_hm_digest V (fst i)) (snd i))"
proof -
  note inv = signer_life_inv [OF assms(4,1-3), unfolded life_inv_def]
  then have "pub_root (public_key sg) = key_root V key"
    using signer_wf_root [OF assms(1), of sg] by (simp add: public_key_def key_root_def same_key_def)
  then show ?thesis using inv by (simp add: issued_ok_def)
qed

lemma vole_leaf_once_witness:
  "\<exists>stored sg sig. signer_life sample_vole sample_secret stored sg [([1, 2], sig)] \<and> unat (xs_leaf_index sig) < unat (sec_next_leaf stored)"
proof -
  note V = sample_vole_ok
  obtain sg where sg: "Signer_new sample_vole sample_secret = Inr sg" "signer_wf sample_vole sg" "sg_key sg = sample_secret"
    by (rule sample_signer [OF V]) (simp_all add: sample_vole_def)
  have reach: "length (sec_public_seed (sg_key sg)) = 16"
    "v_kp_reachable sample_vole (sec_seed (sg_key sg)) (sec_public_seed (sg_key sg)) (uint (sec_height (sg_key sg))) (sg_tree sg)"
    using sg(2) by (simp_all add: signer_wf_def secret_wf_def)
  note wf = reachable_wf [OF v_kp_reachable_view [OF reach(2) V reach(1), unfolded sample_vole_view]]
  have pk: "length (kp_pk_seed (sg_tree sg)) = 16" using wf reach by simp
  have leaf: "unat (0 :: u32) < 2 ^ kp_height (sg_tree sg)" by simp
  obtain kp' sig c2 where "xmss_keypair_sign sample_platform (sg_tree sg) 0 (v_hm_digest sample_vole [1, 2]) 0 = Some (kp', Some sig, c2)"
    using sign_spec [OF conjunct1 [OF wf] leaf, of "v_hm_digest sample_vole [1, 2]" 0] sample_grind [OF pk] by auto
  then have xs: "v_xmss_keypair_sign sample_vole (sg_tree sg) 0 (v_hm_digest sample_vole [1, 2]) 0 = Some (kp', Some sig, c2)"
    using v_keypair_sign_view [OF V pk] by (simp add: sample_vole_view)
  let ?f = "\<lambda>key old. (None :: exn option, key :: SecretKey)"
  have "\<exists>sg' stored'. Signer_sign sample_vole sg [1, 2] (Some ?f) (sample_secret, 0) = Some (Inr sig, sg', stored', c2)"
    using xs by (simp add: Signer_sign_def sg(3) sample_secret_def)
  then obtain sg' stored' where sign: "Signer_sign sample_vole sg [1, 2] (Some ?f) (sample_secret, 0) = Some (Inr sig, sg', stored', c2)" by blast
  have "signer_life sample_vole sample_secret stored' sg' ([] @ [([1, 2], sig)])"
    by (rule signer_life.issue [OF signer_life.boot [OF sg(1)] _ sign]) (simp add: stores_def)
  then have life: "signer_life sample_vole sample_secret stored' sg' [([1, 2], sig)]" by simp
  from vole_leaf_once [OF V sample_secret_wf(2,3) life] life show ?thesis by auto
qed


end
