(* ===== verification/Vole_Disk.thy ===== *)
theory Vole_Disk
  imports Prelude
begin

text \<open>
  What the command line of the VOLEitH implementation takes from the operating system: a disk of
  directory entries and file contents, the calls that change it as events, and what a loss of
  power may leave of events that were not flushed. A file is named by a path and identified by
  a number, as by its inode; a rename moves an entry and does not touch contents.
\<close>

subsection \<open>The disk\<close>

record disk =
  entries :: "string \<Rightarrow> nat option"
  contents :: "nat \<Rightarrow> bytes"

datatype event =
    Create nat string
  | Append nat bytes
  | Fsync nat
  | Rename nat string string
  | Fsync_dir string
  | Unlink string

fun apply_event :: "event \<Rightarrow> disk \<Rightarrow> disk" where
  "apply_event (Create n p) d = d\<lparr>entries := (entries d)(p \<mapsto> n)\<rparr>"
| "apply_event (Append n bs) d = d\<lparr>contents := (contents d)(n := contents d n @ bs)\<rparr>"
| "apply_event (Fsync n) d = d"
| "apply_event (Rename n t p) d = d\<lparr>entries := (entries d)(t := None, p \<mapsto> n)\<rparr>"
| "apply_event (Fsync_dir dir) d = d"
| "apply_event (Unlink p) d = d\<lparr>entries := (entries d)(p := None)\<rparr>"

definition replay :: "event list \<Rightarrow> disk \<Rightarrow> disk" where "replay = fold apply_event"

definition file_at :: "disk \<Rightarrow> string \<Rightarrow> bytes option" where
  "file_at d p = map_option (contents d) (entries d p)"

text \<open>The directory of a path, as \<open>parent_path\<close> gives it.\<close>

definition parent_path :: "string \<Rightarrow> string" where
  "parent_path p =
     (let up = rev (dropWhile (\<lambda>ch. ch \<noteq> CHR ''/'') (rev p));
          dir = rev (dropWhile (\<lambda>ch. ch = CHR ''/'') (rev up))
      in if dir = [] \<and> up \<noteq> [] then ''/'' else dir)"

text \<open>
  An event is flushed by the events after it: the data of a file by \<open>fsync\<close> on the file, an entry
  by \<open>fsync\<close> on its directory. After a loss of power a flushed event is on the disk, and any
  other may be or not.
\<close>

definition flushed :: "event \<Rightarrow> event list \<Rightarrow> bool" where
  "flushed e later =
     (case e of
        Create n p \<Rightarrow> Fsync_dir (parent_path p) \<in> set later
      | Append n bs \<Rightarrow> Fsync n \<in> set later
      | Rename n t p \<Rightarrow> Fsync_dir (parent_path p) \<in> set later
      | Unlink p \<Rightarrow> Fsync_dir (parent_path p) \<in> set later
      | Fsync n \<Rightarrow> True
      | Fsync_dir dir \<Rightarrow> True)"

inductive survives :: "event list \<Rightarrow> event list \<Rightarrow> bool" where
  empty: "survives [] []"
| kept: "survives es fs \<Longrightarrow> survives (e # es) (e # fs)"
| lost: "survives es fs \<Longrightarrow> \<not> flushed e es \<Longrightarrow> survives (e # es) fs"

inductive_cases survives_NilE [elim!]: "survives [] fs"
inductive_cases survives_ConsE: "survives (e # es) fs"

subsection \<open>The operating system\<close>

text \<open>
  \<open>os_disk\<close> is what was on the disk when the log begins, \<open>os_next\<close> the next file number and \<open>os_time\<close>
  the number of calls made, which indexes the answers \<open>sys\<close> of the calls that may fail.
\<close>

record os =
  os_disk :: disk
  os_log :: "event list"
  os_next :: nat
  os_time :: nat

datatype written = Interrupted | Failed | Wrote nat

record sys =
  sys_open :: "nat \<Rightarrow> string \<Rightarrow> bool"
  sys_tellg :: "nat \<Rightarrow> string \<Rightarrow> bool"
  sys_read :: "nat \<Rightarrow> string \<Rightarrow> bool"
  sys_mkstemp :: "nat \<Rightarrow> string \<Rightarrow> string option"
  sys_write :: "nat \<Rightarrow> nat \<Rightarrow> written"
  sys_fsync :: "nat \<Rightarrow> bool"
  sys_close :: "nat \<Rightarrow> bool"
  sys_rename :: "nat \<Rightarrow> bool"
  sys_open_dir :: "nat \<Rightarrow> string \<Rightarrow> bool"
  sys_unlink :: "nat \<Rightarrow> bool"
  sys_open_lock :: "nat \<Rightarrow> string \<Rightarrow> bool"
  sys_flock :: "nat \<Rightarrow> bool"
  sys_mkdirs :: "nat \<Rightarrow> string \<Rightarrow> bool"
  sys_stat :: "nat \<Rightarrow> string \<Rightarrow> bool"

text \<open>\<open>mkstemp\<close> replaces the last six characters of the template and, as it opens with \<open>O_EXCL\<close>, a
  name that is taken is no answer.\<close>

definition sys_ok :: "sys \<Rightarrow> bool" where
  "sys_ok S \<longleftrightarrow> (\<forall>k p t. sys_mkstemp S k p = Some t \<longrightarrow> (\<exists>s. length s = 6 \<and> t = take (length p - 6) p @ s))"

definition visible :: "os \<Rightarrow> disk" where "visible s = replay (os_log s) (os_disk s)"

definition tick :: "os \<Rightarrow> os" where "tick s = s\<lparr>os_time := os_time s + 1\<rparr>"

definition record_event :: "event \<Rightarrow> os \<Rightarrow> os" where "record_event e s = s\<lparr>os_log := os_log s @ [e]\<rparr>"

definition ask :: "(nat \<Rightarrow> bool) \<Rightarrow> os \<Rightarrow> bool \<times> os" where "ask f s = (f (os_time s), tick s)"

text \<open>A call that has an effect when it succeeds.\<close>

definition attempt :: "(nat \<Rightarrow> bool) \<Rightarrow> event \<Rightarrow> os \<Rightarrow> bool \<times> os" where
  "attempt f e s = (if f (os_time s) then (True, record_event e (tick s)) else (False, tick s))"

definition create_file :: "string \<Rightarrow> os \<Rightarrow> nat \<times> os" where
  "create_file p s = (os_next s, (record_event (Create (os_next s) p) s)\<lparr>os_next := os_next s + 1\<rparr>)"

definition mkstemp :: "sys \<Rightarrow> string \<Rightarrow> os \<Rightarrow> (nat \<times> string) option \<times> os" where
  "mkstemp S p s =
     (case sys_mkstemp S (os_time s) p of
        None \<Rightarrow> (None, tick s)
      | Some t \<Rightarrow> if entries (visible s) t \<noteq> None then (None, tick s)
                  else let (n, s) = create_file t (tick s) in (Some (n, t), s))"

definition rename_file :: "sys \<Rightarrow> string \<Rightarrow> string \<Rightarrow> os \<Rightarrow> bool \<times> os" where
  "rename_file S t p s =
     (case entries (visible s) t of
        None \<Rightarrow> (False, tick s)
      | Some n \<Rightarrow> attempt (sys_rename S) (Rename n t p) s)"

subsection \<open>Replaying events\<close>

fun names :: "event \<Rightarrow> string set" where
  "names (Create n p) = {p}"
| "names (Rename n t p) = {t, p}"
| "names (Unlink p) = {p}"
| "names _ = {}"

fun number :: "event \<Rightarrow> nat option" where
  "number (Create n p) = Some n"
| "number (Append n bs) = Some n"
| "number (Fsync n) = Some n"
| "number (Rename n t p) = Some n"
| "number _ = None"

fun appended :: "nat \<Rightarrow> event list \<Rightarrow> bytes" where
  "appended n [] = []"
| "appended n (Append m bs # es) = (if m = n then bs @ appended n es else appended n es)"
| "appended n (_ # es) = appended n es"

text \<open>Every append to the file has an \<open>fsync\<close> after it.\<close>

fun synced :: "nat \<Rightarrow> event list \<Rightarrow> bool" where
  "synced n [] = True"
| "synced n (Append m bs # es) = ((m = n \<longrightarrow> Fsync n \<in> set es) \<and> synced n es)"
| "synced n (_ # es) = synced n es"

lemma replay_simps [simp]:
  "replay [] d = d" "replay (e # es) d = replay es (apply_event e d)" "replay (a @ b) d = replay b (replay a d)"
  by (simp_all add: replay_def)

lemma contents_replay: "contents (replay es d) n = contents d n @ appended n es"
proof (induction es arbitrary: d)
  case (Cons e es)
  then show ?case by (cases e) simp_all
qed simp

lemma entries_other: "(\<And>e. e \<in> set es \<Longrightarrow> p \<notin> names e) \<Longrightarrow> entries (replay es d) p = entries d p"
proof (induction es arbitrary: d)
  case (Cons e es)
  then have "p \<notin> names e" by simp
  then have "entries (apply_event e d) p = entries d p" by (cases e) auto
  with Cons show ?case by simp
qed simp

lemma entries_number:
  "entries (replay es d) p = Some n \<Longrightarrow> entries d p = Some n \<or> (\<exists>e\<in>set es. number e = Some n)"
proof (induction es arbitrary: d)
  case (Cons e es)
  from Cons.IH [of "apply_event e d"] Cons.prems show ?case by (cases e) (auto split: if_splits)
qed simp

lemma appended_append [simp]: "appended n (a @ b) = appended n a @ appended n b"
  by (induction n a rule: appended.induct) auto

lemma appended_none: "(\<And>e. e \<in> set es \<Longrightarrow> number e \<noteq> Some n) \<Longrightarrow> appended n es = []"
proof (induction es)
  case (Cons e es)
  then have "number e \<noteq> Some n" "appended n es = []" by simp_all
  then show ?case by (cases e) auto
qed simp

lemma file_at_cong:
  "entries d q = entries d' q \<Longrightarrow> (\<And>m. entries d' q = Some m \<Longrightarrow> contents d m = contents d' m) \<Longrightarrow> file_at d q = file_at d' q"
  by (cases "entries d' q") (simp_all add: file_at_def)

lemma appended_chunks [simp]: "appended n (map (Append n) cs) = concat cs"
  by (induction cs) auto

subsection \<open>What survives\<close>

lemma survives_refl [simp]: "survives es es"
  by (induction es) (auto intro: survives.intros)

lemma survives_subset: "survives es fs \<Longrightarrow> set fs \<subseteq> set es"
  by (induction rule: survives.induct) auto

lemma flushed_mono: "set a \<subseteq> set b \<Longrightarrow> flushed e a \<Longrightarrow> flushed e b"
  by (auto simp: flushed_def split: event.splits)

lemma survives_append:
  "survives (a @ b) fs \<Longrightarrow> \<exists>f g. fs = f @ g \<and> survives a f \<and> survives b g"
proof (induction a arbitrary: fs)
  case Nil
  then show ?case using survives.empty by fastforce
next
  case (Cons e a)
  from Cons.prems have "survives (e # (a @ b)) fs" by simp
  then consider (kept) gs where "fs = e # gs" "survives (a @ b) gs" | (lost) "survives (a @ b) fs" "\<not> flushed e (a @ b)"
    by (cases rule: survives_ConsE) auto
  then show ?case
  proof cases
    case (kept gs)
    then show ?thesis using Cons.IH [of gs] survives.kept by (metis append_Cons)
  next
    case lost
    then obtain f g where "fs = f @ g" "survives a f" "survives b g" using Cons.IH by blast
    moreover have "\<not> flushed e a" using lost flushed_mono [of a "a @ b" e] by auto
    ultimately show ?thesis using survives.lost by blast
  qed
qed

lemma survives_flushed:
  assumes "survives (a @ e # b) fs" "flushed e b"
  shows "\<exists>f g. fs = f @ e # g \<and> survives a f \<and> survives b g"
proof -
  obtain f h where fs: "fs = f @ h" "survives a f" "survives (e # b) h" using survives_append [OF assms(1)] by blast
  from fs(3) show ?thesis
    by (cases rule: survives_ConsE) (use fs assms(2) in auto)
qed

lemma survives_appended: "survives es fs \<Longrightarrow> synced n es \<Longrightarrow> appended n fs = appended n es"
proof (induction rule: survives.induct)
  case (kept es fs e)
  then show ?case by (cases e) auto
next
  case (lost es fs e)
  then show ?case by (cases e) (auto simp: flushed_def)
qed simp

subsection \<open>Atomic replacement\<close>

text \<open>File numbers below \<open>os_next\<close> are the only ones in use.\<close>

definition os_ok :: "os \<Rightarrow> bool" where
  "os_ok s \<longleftrightarrow> (\<forall>p n. entries (os_disk s) p = Some n \<longrightarrow> n < os_next s) \<and>
     (\<forall>e\<in>set (os_log s). \<forall>n. number e = Some n \<longrightarrow> n < os_next s) \<and> (\<forall>n\<ge>os_next s. contents (os_disk s) n = [])"

lemma tick_simps [simp]:
  "os_disk (tick s) = os_disk s" "os_log (tick s) = os_log s" "os_next (tick s) = os_next s" "visible (tick s) = visible s"
  "os_ok (tick s) = os_ok s"
  by (simp_all add: tick_def visible_def os_ok_def)

text \<open>
  The events of a replacement of the file at \<open>p\<close> by a file \<open>n\<close> that was written under the name \<open>t\<close>, or of
  the first part of one: the rename comes only when the contents are written and flushed.
\<close>

definition replacing :: "nat \<Rightarrow> string \<Rightarrow> string \<Rightarrow> bytes \<Rightarrow> event list \<Rightarrow> bool" where
  "replacing n t p b es \<longleftrightarrow>
     (\<forall>e\<in>set es. e = Create n t \<or> (\<exists>bs. e = Append n bs) \<or> e = Fsync n \<or> e = Rename n t p \<or> e = Fsync_dir (parent_path p) \<or> e = Unlink t) \<and>
     (Rename n t p \<in> set es \<longrightarrow> synced n es \<and> appended n es = b)"

lemma replacing_cases:
  assumes "replacing n t p b es" "e \<in> set es"
  obtains "e = Create n t" | bs where "e = Append n bs" | "e = Fsync n" | "e = Rename n t p" | "e = Fsync_dir (parent_path p)" | "e = Unlink t"
  using assms unfolding replacing_def by meson

lemma replacing_names: "replacing n t p b es \<Longrightarrow> e \<in> set es \<Longrightarrow> names e \<subseteq> {t, p}"
  by (erule (1) replacing_cases) auto

lemma replacing_rename: "replacing n t p b es \<Longrightarrow> t \<noteq> p \<Longrightarrow> e \<in> set es \<Longrightarrow> p \<in> names e \<Longrightarrow> e = Rename n t p"
  by (erule (1) replacing_cases) auto

lemma replacing_number: "replacing n t p b es \<Longrightarrow> e \<in> set es \<Longrightarrow> number e = Some n \<or> number e = None"
  by (erule (1) replacing_cases) auto

lemma entry_below:
  assumes "os_ok s" "survives (os_log s) f" "entries (replay f (os_disk s)) q = Some m"
  shows "m < os_next s"
  using entries_number [OF assms(3)] assms(1) survives_subset [OF assms(2)] unfolding os_ok_def by blast

lemma appended_fresh:
  assumes "os_ok s" "survives (os_log s) f"
  shows "appended (os_next s) f = []"
  by (rule appended_none) (use assms survives_subset [OF assms(2)] in \<open>unfold os_ok_def, blast\<close>)

text \<open>Any other file is untouched, whatever survives.\<close>

lemma untouched:
  assumes "os_ok s" "survives (os_log s) f" "set g \<subseteq> set es" "replacing (os_next s) t p b es" "q \<noteq> t" "q \<noteq> p"
  shows "file_at (replay (f @ g) (os_disk s)) q = file_at (replay f (os_disk s)) q"
proof -
  have g: "\<And>e. e \<in> set g \<Longrightarrow> names e \<subseteq> {t, p} \<and> (number e = Some (os_next s) \<or> number e = None)"
    using replacing_names [OF assms(4) subsetD [OF assms(3)]] replacing_number [OF assms(4) subsetD [OF assms(3)]] by simp
  have same: "entries (replay (f @ g) (os_disk s)) q = entries (replay f (os_disk s)) q"
    unfolding replay_simps by (rule entries_other) (use g assms(5,6) in blast)
  have "contents (replay (f @ g) (os_disk s)) m = contents (replay f (os_disk s)) m" if "m < os_next s" for m
  proof -
    have "appended m g = []" using g that by (intro appended_none) force
    then show ?thesis by (simp add: contents_replay)
  qed
  moreover have "m < os_next s" if "entries (replay f (os_disk s)) q = Some m" for m
    by (rule entry_below [OF assms(1,2) that])
  ultimately show ?thesis using same by (intro file_at_cong) blast+
qed

text \<open>The replaced file is the old one or the new one.\<close>

lemma fresh_contents:
  assumes "os_ok s" "replacing (os_next s) t p b es" "Rename (os_next s) t p \<in> set es" "survives (os_log s) f" "survives es g"
  shows "contents (replay (f @ g) (os_disk s)) (os_next s) = b"
proof -
  have "appended (os_next s) f = []" by (rule appended_fresh [OF assms(1,4)])
  moreover have "appended (os_next s) g = b" using survives_appended [OF assms(5)] assms(2,3) by (simp add: replacing_def)
  ultimately show ?thesis using assms(1) by (simp add: contents_replay os_ok_def)
qed

lemma replaced_entry:
  assumes "\<And>e. e \<in> set es \<Longrightarrow> p \<in> names e \<Longrightarrow> e = Rename n t p"
  shows "entries (replay es d) p = (if Rename n t p \<in> set es then Some n else entries d p)"
  using assms
proof (induction es arbitrary: d)
  case (Cons e es)
  then have IH: "entries (replay es (apply_event e d)) p = (if Rename n t p \<in> set es then Some n else entries (apply_event e d) p)" by simp
  have "p \<notin> names e \<or> e = Rename n t p" using Cons.prems by auto
  then have "entries (apply_event e d) p = (if e = Rename n t p then Some n else entries d p)" by (cases e) auto
  with IH show ?case by auto
qed simp

lemma replaced:
  assumes "os_ok s" "replacing (os_next s) t p b es" "survives (os_log s) f" "survives es g" "t \<noteq> p"
  shows "file_at (replay (f @ g) (os_disk s)) p = Some b \<or> file_at (replay (f @ g) (os_disk s)) p = file_at (replay f (os_disk s)) p"
proof -
  let ?n = "os_next s"
  have only: "\<And>e. e \<in> set g \<Longrightarrow> p \<in> names e \<Longrightarrow> e = Rename ?n t p"
    by (rule replacing_rename [OF assms(2,5) subsetD [OF survives_subset [OF assms(4)]]])
  note entry = replaced_entry [OF only, of g "replay f (os_disk s)"]
  show ?thesis
  proof (cases "Rename ?n t p \<in> set g")
    case True
    then have "Rename ?n t p \<in> set es" using survives_subset [OF assms(4)] by blast
    then show ?thesis using fresh_contents [OF assms(1,2) _ assms(3,4)] entry True by (simp add: file_at_def)
  next
    case False
    have "m < ?n" if "entries (replay f (os_disk s)) p = Some m" for m
      by (rule entry_below [OF assms(1,3) that])
    moreover have "appended m g = []" if "m < ?n" for m
      using survives_subset [OF assms(4)] replacing_number [OF assms(2)] that by (intro appended_none) force
    ultimately have "file_at (replay (f @ g) (os_disk s)) p = file_at (replay f (os_disk s)) p"
      using entry False by (intro file_at_cong) (simp_all add: contents_replay)
    then show ?thesis by blast
  qed
qed

text \<open>After the directory was flushed it is the new one.\<close>

lemma survivor_new:
  assumes "os_ok s" "replacing (os_next s) t p b (es @ [Fsync_dir (parent_path p)])" "Rename (os_next s) t p \<in> set es" "t \<noteq> p"
    and "survives (os_log s @ es @ [Fsync_dir (parent_path p)]) fs"
  shows "file_at (replay fs (os_disk s)) p = Some b"
proof -
  let ?n = "os_next s"
  let ?es = "es @ [Fsync_dir (parent_path p)]"
  obtain f g where fs: "fs = f @ g" "survives (os_log s) f" "survives ?es g" using survives_append [OF assms(5)] by blast
  obtain a c where es: "es = a @ Rename ?n t p # c" using split_list [OF assms(3)] by blast
  have "survives (a @ Rename ?n t p # (c @ [Fsync_dir (parent_path p)])) g" using fs(3) es by simp
  from survives_flushed [OF this] have there: "Rename ?n t p \<in> set g" by (auto simp: flushed_def)
  have only: "\<And>e. e \<in> set g \<Longrightarrow> p \<in> names e \<Longrightarrow> e = Rename ?n t p"
    by (rule replacing_rename [OF assms(2,4) subsetD [OF survives_subset [OF fs(3)]]])
  have "entries (replay g (replay f (os_disk s))) p = Some ?n" unfolding replaced_entry [OF only, of g, simplified] if_P [OF there] ..
  then have "entries (replay fs (os_disk s)) p = Some ?n" by (simp add: fs(1))
  moreover have "contents (replay fs (os_disk s)) ?n = b" unfolding fs(1) by (rule fresh_contents [OF assms(1,2) _ fs(2,3)]) (use assms(3) in simp)
  ultimately show ?thesis by (simp add: file_at_def)
qed

end
