(* ===== verification/Vole_Cli.thy ===== *)
theory Vole_Cli
  imports Vole_Run Vole_Disk Cli
begin

text \<open>
  \<^verbatim>\<open>src/voleith/src/cli.cpp\<close>: reading and atomic replacement of artifacts, the lock, the six
  commands and \<open>main\<close>. A \<open>task\<close> threads the operating system and the entropy source and may throw;
  \<open>None\<close> is a task that never returns. Where C++ leaves the order of two calls open (the arguments of
  one call in \<open>verify\<close>) they are in the order written. Messages and timing are left out, and so is running out of
  memory. The lock is held while the task runs: two commands that lock are never interleaved.
\<close>

type_synonym vmachine = "os \<times> rng"
type_synonym 'a task = "vmachine \<Rightarrow> ((exn + 'a) \<times> vmachine) option"

definition give :: "'a \<Rightarrow> 'a task" where "give x m = Some (Inr x, m)"
definition of_result :: "exn + 'a \<Rightarrow> 'a task" where "of_result r m = Some (r, m)"

definition task_seq :: "'a task \<Rightarrow> ('a \<Rightarrow> 'b task) \<Rightarrow> 'b task" where
  "task_seq t f m =
     (case t m of
        None \<Rightarrow> None
      | Some (Inl e, m) \<Rightarrow> Some (Inl e, m)
      | Some (Inr x, m) \<Rightarrow> f x m)"

definition with_os :: "(os \<Rightarrow> ((exn + 'a) \<times> os) option) \<Rightarrow> 'a task" where
  "with_os f = (\<lambda>(s, c). map_option (\<lambda>(r, s). (r, s, c)) (f s))"

definition with_rng :: "(rng \<Rightarrow> (exn + 'a) \<times> rng) \<Rightarrow> 'a task" where
  "with_rng f = (\<lambda>(s, c). let (r, c) = f c in Some (r, s, c))"

subsection \<open>Files\<close>

definition SIZE_MAX :: nat where "SIZE_MAX = 2 ^ 64 - 1"

definition read_path :: "sys \<Rightarrow> string \<Rightarrow> nat \<Rightarrow> os \<Rightarrow> (exn + bytes) \<times> os" where
  "read_path S path limit s =
     (case file_at (visible s) path of
        None \<Rightarrow> (Inl (Runtime_error (''cannot open '' @ path)), tick s)
      | Some b \<Rightarrow>
          let (opened, s) = ask (\<lambda>k. sys_open S k path) s
          in if \<not> opened then (Inl (Runtime_error (''cannot open '' @ path)), s)
             else let (told, s) = ask (\<lambda>k. sys_tellg S k path) s
                  in if \<not> told \<or> length b > limit then (Inl (Runtime_error (''invalid file length: '' @ path)), s)
                     else if b = [] then (Inr [], s)
                     else let (ok, s) = ask (\<lambda>k. sys_read S k path) s
                          in if ok then (Inr b, s) else (Inl (Runtime_error (''cannot read '' @ path)), s))"

text \<open>The loop over \<open>::write\<close>: whether every byte was taken. It may be interrupted for ever.\<close>

partial_function (option) write_loop :: "sys \<Rightarrow> nat \<Rightarrow> bytes \<Rightarrow> nat \<Rightarrow> os \<Rightarrow> (bool \<times> os) option" where
  "write_loop S fd b pos s =
     (if pos < length b
      then case sys_write S (os_time s) (length b - pos) of
             Interrupted \<Rightarrow> write_loop S fd b pos (tick s)
           | Failed \<Rightarrow> Some (False, tick s)
           | Wrote n \<Rightarrow> if n = 0 then Some (False, tick s)
                        else write_loop S fd b (pos + n) (record_event (Append fd (take n (drop pos b))) (tick s))
      else Some (True, s))"

text \<open>The body of the \<open>try\<close>: the flag \<open>closed\<close> and the result.\<close>

definition write_body :: "sys \<Rightarrow> nat \<Rightarrow> string \<Rightarrow> string \<Rightarrow> bytes \<Rightarrow> os \<Rightarrow> (bool \<times> (exn + unit) \<times> os) option" where
  "write_body S fd tmp path b s =
     (case write_loop S fd b 0 s of
        None \<Rightarrow> None
      | Some (ok, s) \<Rightarrow>
          if \<not> ok then Some (False, Inl (Runtime_error ''artifact write failed''), s)
          else let (synced, s) = attempt (sys_fsync S) (Fsync fd) s
          in if \<not> synced then Some (False, Inl (Runtime_error ''artifact fsync failed''), s)
          else let (result, s) = ask (sys_close S) s;
                   (renamed, s) = (if \<not> result then (False, s) else rename_file S tmp path s)
          in if \<not> renamed then Some (True, Inl (Runtime_error ''artifact replacement failed''), s)
          else let (opened, s) = ask (\<lambda>k. sys_open_dir S k (parent_path path)) s
          in if \<not> opened then Some (True, Inl (Runtime_error ''cannot open artifact directory''), s)
          else let (synced, s) = attempt (sys_fsync S) (Fsync_dir (parent_path path)) s;
                   (_, s) = ask (sys_close S) s
          in if \<not> synced then Some (True, Inl (Runtime_error ''directory fsync failed''), s)
          else Some (True, Inr (), s))"

definition write_path :: "sys \<Rightarrow> string \<Rightarrow> bytes \<Rightarrow> os \<Rightarrow> ((exn + unit) \<times> os) option" where
  "write_path S path b s =
     (case mkstemp S (path @ ''.tmp.XXXXXX'') s of
        (None, s) \<Rightarrow> Some (Inl (Runtime_error ''cannot create temporary artifact''), s)
      | (Some (fd, tmp), s) \<Rightarrow>
          (case write_body S fd tmp path b s of
             None \<Rightarrow> None
           | Some (closed, Inr _, s) \<Rightarrow> Some (Inr (), s)
           | Some (closed, Inl e, s) \<Rightarrow>
               let s = (if closed then s else snd (ask (sys_close S) s));
                   (_, s) = attempt (sys_unlink S) (Unlink tmp) s
               in Some (Inl e, s)))"

text \<open>\<open>open\<close> with \<open>O_CREAT\<close> and an exclusive lock.\<close>

definition Lock :: "sys \<Rightarrow> string \<Rightarrow> os \<Rightarrow> (exn + unit) \<times> os" where
  "Lock S path s =
     (let (opened, s) = ask (\<lambda>k. sys_open_lock S k path) s
      in if \<not> opened then (Inl (Runtime_error ''cannot open signer lock''), s)
         else let s = (if entries (visible s) path = None then snd (create_file path s) else s);
                  (locked, s) = ask (sys_flock S) s
              in if \<not> locked then (Inl (Runtime_error ''cannot lock signer state''), snd (ask (sys_close S) s))
                 else (Inr (), s))"

definition create_directories :: "sys \<Rightarrow> string \<Rightarrow> os \<Rightarrow> (exn + unit) \<times> os" where
  "create_directories S dir s =
     (let (ok, s) = ask (\<lambda>k. sys_mkdirs S k dir) s
      in (if ok then Inr () else Inl (Runtime_error ''cannot create directories''), s))"

definition exists_path :: "sys \<Rightarrow> string \<Rightarrow> os \<Rightarrow> (exn + bool) \<times> os" where
  "exists_path S path s =
     (let (ok, s) = ask (\<lambda>k. sys_stat S k path) s
      in (if ok then Inr (entries (visible s) path \<noteq> None) else Inl (Runtime_error ''cannot get file status''), s))"

text \<open>\<open>dir / name\<close> for a name without a slash.\<close>

definition path_append :: "string \<Rightarrow> string \<Rightarrow> string" where
  "path_append dir name = (if dir = [] \<or> last dir = CHR ''/'' then dir @ name else dir @ ''/'' @ name)"

definition read_task :: "sys \<Rightarrow> string \<Rightarrow> nat \<Rightarrow> bytes task" where
  "read_task S path limit = with_os (\<lambda>s. Some (read_path S path limit s))"

definition write_task :: "sys \<Rightarrow> string \<Rightarrow> bytes \<Rightarrow> unit task" where
  "write_task S path b = with_os (write_path S path b)"

definition lock_task :: "sys \<Rightarrow> string \<Rightarrow> unit task" where
  "lock_task S dir = with_os (\<lambda>s. Some (Lock S (path_append dir ''signer.lock'') s))"

subsection \<open>The commands\<close>

definition command_keygen :: "sys \<Rightarrow> vole \<Rightarrow> string \<Rightarrow> int \<Rightarrow> int task" where
  "command_keygen S V dir height =
     task_seq (with_os (\<lambda>s. Some (create_directories S dir s))) (\<lambda>_.
     task_seq (lock_task S dir) (\<lambda>_.
     task_seq (with_os (\<lambda>s. Some (exists_path S (path_append dir ''signer_key.bin'') s))) (\<lambda>key_there.
     task_seq (if key_there then give True
               else with_os (\<lambda>s. Some (exists_path S (path_append dir ''signer_pub.bin'') s))) (\<lambda>there.
     if there then of_result (Inl (Runtime_error ''key artifacts already exist; choose a new directory''))
     else
       task_seq (with_rng (Signer_generate V height)) (\<lambda>signer.
       task_seq (of_result (encode_secret (secret_key signer))) (\<lambda>key.
       task_seq (write_task S (path_append dir ''signer_key.bin'') key) (\<lambda>_.
       task_seq (write_task S (path_append dir ''signer_pub.bin'') (encode_public (public_key signer))) (\<lambda>_.
       give 0))))))))"

definition command_commit :: "sys \<Rightarrow> vole \<Rightarrow> string \<Rightarrow> string \<Rightarrow> int task" where
  "command_commit S V dir message =
     task_seq (with_os (\<lambda>s. Some (create_directories S dir s))) (\<lambda>_.
     task_seq (read_task S message SIZE_MAX) (\<lambda>msg.
     task_seq (with_rng (user_commit V msg)) (\<lambda>state.
     task_seq (write_task S (path_append dir ''user_state.bin'') (encode_state state)) (\<lambda>_.
     task_seq (write_task S (path_append dir ''commitment.bin'') (encode_commitment (st_commitment state))) (\<lambda>_.
     give 0)))))"

text \<open>
  The callback of \<open>sign\<close>. Its state is the operating system, or \<open>None\<close> once it runs for ever,
  and then nothing after it runs either.
\<close>

definition persist_key :: "sys \<Rightarrow> string \<Rightarrow> os option persist" where
  "persist_key S dir key w =
     (case w of
        None \<Rightarrow> (Some Out_of_range, None)
      | Some s \<Rightarrow>
          (case encode_secret key of
             Inl e \<Rightarrow> (Some e, Some s)
           | Inr b \<Rightarrow>
               (case write_path S (path_append dir ''signer_key.bin'') b s of
                  None \<Rightarrow> (Some Out_of_range, None)
                | Some (Inl e, s) \<Rightarrow> (Some e, Some s)
                | Some (Inr _, s) \<Rightarrow> (None, Some s))))"

definition sign_task :: "sys \<Rightarrow> vole \<Rightarrow> string \<Rightarrow> Signer \<Rightarrow> bytes \<Rightarrow> xmss_sig task" where
  "sign_task S V dir signer com = (\<lambda>(s, c).
     case Signer_sign V signer com (Some (persist_key S dir)) (Some s, c) of
       None \<Rightarrow> None
     | Some (r, signer, None, c) \<Rightarrow> None
     | Some (r, signer, Some s, c) \<Rightarrow> Some (r, s, c))"

definition command_sign :: "sys \<Rightarrow> vole \<Rightarrow> string \<Rightarrow> int task" where
  "command_sign S V dir =
     task_seq (lock_task S dir) (\<lambda>_.
     task_seq (read_task S (path_append dir ''commitment.bin'') 264) (\<lambda>com_buf.
     task_seq (of_result (decode_commitment com_buf)) (\<lambda>com.
     task_seq (read_task S (path_append dir ''signer_key.bin'') 65) (\<lambda>key_buf.
     task_seq (of_result (decode_secret key_buf)) (\<lambda>key.
     task_seq (of_result (Signer_new V key)) (\<lambda>signer.
     task_seq (sign_task S V dir signer com) (\<lambda>response.
     task_seq (write_task S (path_append dir ''xmss_sig.bin'') (encode_response response)) (\<lambda>_.
     give 0))))))))"

definition command_prove :: "sys \<Rightarrow> vole \<Rightarrow> ('g, 'm, 'p, 'r) faest \<Rightarrow> pconfig \<Rightarrow> circuit_lib \<Rightarrow> string \<Rightarrow> int task" where
  "command_prove S V F C L dir =
     task_seq (read_task S (path_append dir ''signer_pub.bin'') 40) (\<lambda>pub_buf.
     task_seq (of_result (decode_public pub_buf)) (\<lambda>pk.
     task_seq (read_task S (path_append dir ''user_state.bin'') 392) (\<lambda>state_buf.
     task_seq (of_result (decode_state state_buf)) (\<lambda>state.
     task_seq (read_task S (path_append dir ''xmss_sig.bin'') (8 + XMSS_SIG_BYTES)) (\<lambda>sig_buf.
     task_seq (of_result (decode_response sig_buf)) (\<lambda>response.
     task_seq (with_rng (unblind V F C L state pk response)) (\<lambda>signature.
     task_seq (write_task S (path_append dir ''blind_sig.bin'') signature) (\<lambda>_.
     give 0))))))))"

definition command_verify :: "sys \<Rightarrow> vole \<Rightarrow> ('g, 'm, 'p, 'r) faest \<Rightarrow> pconfig \<Rightarrow> string \<Rightarrow> string \<Rightarrow> int task" where
  "command_verify S V F C dir message =
     task_seq (read_task S (path_append dir ''signer_pub.bin'') 40) (\<lambda>pub_buf.
     task_seq (of_result (decode_public pub_buf)) (\<lambda>pk.
     task_seq (read_task S message SIZE_MAX) (\<lambda>msg.
     task_seq (read_task S (path_append dir ''blind_sig.bin'') (l_size (proof_layout F C))) (\<lambda>signature.
     task_seq (of_result (verify_signature V F C pk msg signature)) (\<lambda>valid.
     give (if valid then 0 else 1))))))"

subsection \<open>Arguments\<close>

text \<open>\<open>std::stoi\<close>: the value of a decimal prefix after leading space and the number of characters
  used.\<close>

definition stoi :: "string \<Rightarrow> exn + int \<times> nat" where
  "stoi s =
     (let body = dropWhile is_space s;
          signed = (case body of [] \<Rightarrow> False | ch # _ \<Rightarrow> ch = CHR ''-'' \<or> ch = CHR ''+'');
          digits = takeWhile is_digit (if signed then tl body else body);
          value = (if signed \<and> hd body = CHR ''-'' then - digits_value digits else digits_value digits)
      in if digits = [] then Inl (Invalid_argument ''stoi'')
         else if value < - (2 ^ 31) \<or> 2 ^ 31 \<le> value then Inl Out_of_range
         else Inr (value, length (takeWhile is_space s) + (if signed then 1 else 0) + length digits))"

record voptions =
  vo_dir :: string
  vo_message :: string
  vo_height :: int
  vo_height_set :: bool

definition default_options :: voptions where
  "default_options = \<lparr>vo_dir = ''.'', vo_message = [], vo_height = int XMSS_H_DEFAULT, vo_height_set = False\<rparr>"

text \<open>The option loop: an exception, the code of an early return, or the options.\<close>

fun voptions_of :: "string list \<Rightarrow> voptions \<Rightarrow> exn + (int + voptions)" where
  "voptions_of [] o' = Inr (Inr o')"
| "voptions_of (a # args) o' =
     (if (a = ''-d'' \<or> a = ''--dir'') \<and> args \<noteq> [] then voptions_of (tl args) (o'\<lparr>vo_dir := hd args\<rparr>)
      else if a = ''--height'' \<and> args \<noteq> []
      then (case stoi (hd args) of
              Inl e \<Rightarrow> Inl e
            | Inr (height, used) \<Rightarrow>
                if used \<noteq> length (hd args) then Inl (Invalid_argument ''invalid height'')
                else voptions_of (tl args) (o'\<lparr>vo_height := height, vo_height_set := True\<rparr>))
      else if a = ''-h'' \<or> a = ''--help'' then Inr (Inl 0)
      else if \<not> (a \<noteq> [] \<and> hd a = CHR ''-'') \<and> vo_message o' = [] then voptions_of args (o'\<lparr>vo_message := a\<rparr>)
      else Inl (Invalid_argument (''unknown or incomplete argument: '' @ a)))"

definition run_command ::
  "sys \<Rightarrow> vole \<Rightarrow> ('g, 'm, 'p, 'r) faest \<Rightarrow> pconfig \<Rightarrow> circuit_lib \<Rightarrow> string \<Rightarrow> voptions \<Rightarrow> int task" where
  "run_command S V F C L command o' =
     (let has_message = (command = ''commit'' \<or> command = ''verify'')
      in if has_message = (vo_message o' = []) then of_result (Inl (Invalid_argument ''message file required only for commit and verify''))
         else if vo_height_set o' \<and> command \<noteq> ''keygen'' then of_result (Inl (Invalid_argument ''--height is for keygen only''))
         else if command = ''keygen'' then command_keygen S V (vo_dir o') (vo_height o')
         else if command = ''commit'' then command_commit S V (vo_dir o') (vo_message o')
         else if command = ''sign'' then command_sign S V (vo_dir o')
         else if command = ''prove'' then command_prove S V F C L (vo_dir o')
         else if command = ''verify'' then command_verify S V F C (vo_dir o') (vo_message o')
         else if command = ''params'' then give 0
         else give 1)"

text \<open>\<open>argv\<close> without the program's name; every exception is caught and reported with code 1.\<close>

definition voleith_main ::
  "sys \<Rightarrow> vole \<Rightarrow> ('g, 'm, 'p, 'r) faest \<Rightarrow> pconfig \<Rightarrow> circuit_lib \<Rightarrow> string list \<Rightarrow> vmachine \<Rightarrow> (int \<times> vmachine) option" where
  "voleith_main S V F C L argv m =
     (case argv of
        [] \<Rightarrow> Some (1, m)
      | command # args \<Rightarrow>
          (case voptions_of args default_options of
             Inl e \<Rightarrow> Some (1, m)
           | Inr (Inl code) \<Rightarrow> Some (code, m)
           | Inr (Inr o') \<Rightarrow>
               if command = ''--help'' \<or> command = ''-h'' then Some (0, m)
               else map_option (\<lambda>(r, m). (case r of Inl e \<Rightarrow> 1 | Inr code \<Rightarrow> code, m)) (run_command S V F C L command o' m)))"

end
