(* ===== verification/Vole_Cli_Correct.thy ===== *)
theory Vole_Cli_Correct
  imports Vole_Cli
begin

text \<open>
  What the commands leave on the disk, at every moment and after a loss of power: a replaced
  artifact is the old one or the new one, and a signature is released only when no outcome has
  the old key.
\<close>

subsection \<open>The log of a replacement\<close>

lemma record_event_simps [simp]:
  "os_disk (record_event e s) = os_disk s" "os_log (record_event e s) = os_log s @ [e]"
  "os_next (record_event e s) = os_next s" "os_time (record_event e s) = os_time s"
  by (simp_all add: record_event_def)

lemma visible_record [simp]: "visible (record_event e s) = apply_event e (visible s)"
  by (simp add: visible_def)

text \<open>From \<open>s\<close> to \<open>s'\<close> the log grows by \<open>es\<close> and no file number is taken.\<close>

definition grows :: "event list \<Rightarrow> os \<Rightarrow> os \<Rightarrow> bool" where
  "grows es s s' \<longleftrightarrow> os_disk s' = os_disk s \<and> os_next s' = os_next s \<and> os_log s' = os_log s @ es"

lemma grows_refl [simp]: "grows [] s s" "grows [] s (tick s)" "grows [e] s (record_event e (tick s))"
  by (simp_all add: grows_def)

lemma grows_trans: "grows a s s1 \<Longrightarrow> grows b s1 s2 \<Longrightarrow> grows (a @ b) s s2"
  by (simp add: grows_def)

lemma grows_ask: "ask f s = (ok, s') \<Longrightarrow> grows [] s s'"
  by (auto simp: ask_def)

lemma grows_attempt: "attempt f e s = (ok, s') \<Longrightarrow> grows (if ok then [e] else []) s s'"
  by (auto simp: attempt_def split: if_splits)

lemma visible_grows: "grows es s s' \<Longrightarrow> visible s' = replay es (visible s)"
  by (simp add: grows_def visible_def)

lemma write_loop_log:
  assumes "write_loop S fd b pos s = Some (ok, s')"
  shows "\<exists>cs. grows (map (Append fd) cs) s s' \<and> (ok \<longrightarrow> concat cs = drop pos b)"
proof -
  let ?Q = "\<lambda>S fd b pos s r. \<exists>cs. grows (map (Append fd) cs) s (snd r) \<and> (fst r \<longrightarrow> concat cs = drop pos b)"
  have "?Q S fd b pos s (ok, s')"
  proof (rule write_loop.raw_induct [OF _ assms, where P = ?Q])
    fix loop and S :: sys and fd b pos s r
    assume IH: "\<And>S fd b pos s r. loop S fd b pos s = Some r \<Longrightarrow> ?Q S fd b pos s r"
      and run: "(if pos < length b then case sys_write S (os_time s) (length b - pos) of
             Interrupted \<Rightarrow> loop S fd b pos (tick s)
           | Failed \<Rightarrow> Some (False, tick s)
           | Wrote n \<Rightarrow> if n = 0 then Some (False, tick s)
                        else loop S fd b (pos + n) (record_event (Append fd (take n (drop pos b))) (tick s))
         else Some (True, s)) = Some r"
    show "?Q S fd b pos s r"
    proof (cases "pos < length b")
      case True
      show ?thesis
      proof (cases "sys_write S (os_time s) (length b - pos)")
        case Interrupted
        then have "loop S fd b pos (tick s) = Some r" using run True by simp
        from IH [OF this] show ?thesis by (auto simp: grows_def)
      next
        case Failed
        then show ?thesis using run True by (auto intro: exI [of _ "[]"])
      next
        case (Wrote n)
        show ?thesis
        proof (cases "n = 0")
          case False
          then have "loop S fd b (pos + n) (record_event (Append fd (take n (drop pos b))) (tick s)) = Some r" using run True Wrote by simp
          then obtain cs where cs: "grows (map (Append fd) cs) (record_event (Append fd (take n (drop pos b))) (tick s)) (snd r)"
              "fst r \<longrightarrow> concat cs = drop (pos + n) b" using IH by blast
          have "concat (take n (drop pos b) # cs) = drop pos b" if "fst r"
            using cs(2) that append_take_drop_id [of n "drop pos b"] by (simp add: add.commute)
          then show ?thesis using grows_trans [OF grows_refl(3) cs(1)] by (intro exI [of _ "take n (drop pos b) # cs"]) simp
        qed (use run True Wrote in \<open>auto intro: exI [of _ "[]"]\<close>)
      qed
    qed (use run in \<open>auto intro: exI [of _ "[]"]\<close>)
  qed
  then show ?thesis by simp
qed

text \<open>The events after the file was created, for each result of the \<open>try\<close> block.\<close>

definition body_log :: "nat \<Rightarrow> string \<Rightarrow> string \<Rightarrow> bytes \<Rightarrow> exn + unit \<Rightarrow> event list \<Rightarrow> bool" where
  "body_log fd tmp path b r es \<longleftrightarrow>
     (\<exists>cs more. es = map (Append fd) cs @ more \<and>
        (r \<noteq> Inr () \<and> (more = [] \<or> more = [Fsync fd]) \<or>
         r \<noteq> Inr () \<and> more = [Fsync fd, Rename fd tmp path] \<and> concat cs = b \<or>
         r = Inr () \<and> more = [Fsync fd, Rename fd tmp path, Fsync_dir (parent_path path)] \<and> concat cs = b))"

lemma body_logI:
  "r \<noteq> Inr () \<Longrightarrow> body_log fd tmp path b r (map (Append fd) cs)"
  "r \<noteq> Inr () \<Longrightarrow> body_log fd tmp path b r (map (Append fd) cs @ [Fsync fd])"
  "r \<noteq> Inr () \<Longrightarrow> concat cs = b \<Longrightarrow> body_log fd tmp path b r (map (Append fd) cs @ [Fsync fd, Rename fd tmp path])"
  "concat cs = b \<Longrightarrow> body_log fd tmp path b (Inr ()) (map (Append fd) cs @ [Fsync fd, Rename fd tmp path, Fsync_dir (parent_path path)])"
  unfolding body_log_def by blast+

lemma rename_log:
  assumes "rename_file S tmp path s = (ok, s')" "entries (visible s) tmp = Some fd"
  shows "grows (if ok then [Rename fd tmp path] else []) s s'"
  using assms by (auto simp: rename_file_def dest: grows_attempt)

lemma entries_quiet: "entries (replay (map (Append fd) cs) d) p = entries d p" "entries (replay (map (Append fd) cs @ [Fsync fd]) d) p = entries d p"
  by (rule entries_other, auto)+

lemma write_body_log:
  assumes "write_body S fd tmp path b s = Some (closed, r, s')" "entries (visible s) tmp = Some fd"
  shows "\<exists>es. grows es s s' \<and> body_log fd tmp path b r es"
proof -
  obtain ok s1 where loop: "write_loop S fd b 0 s = Some (ok, s1)"
    using assms(1) by (auto simp: write_body_def split: option.splits)
  obtain cs where cs: "grows (map (Append fd) cs) s s1" "ok \<Longrightarrow> concat cs = b" using write_loop_log [OF loop] by auto
  note run = assms(1) [unfolded write_body_def loop option.case prod.case]
  show ?thesis
  proof (cases ok)
    case False
    then have "s' = s1" "r \<noteq> Inr ()" using run by auto
    then show ?thesis using cs(1) body_logI(1) by blast
  next
    case True
    obtain sy s2 where sync: "attempt (sys_fsync S) (Fsync fd) s1 = (sy, s2)" by fastforce
    have g2: "grows (map (Append fd) cs @ (if sy then [Fsync fd] else [])) s s2" by (rule grows_trans [OF cs(1) grows_attempt [OF sync]])
    show ?thesis
    proof (cases sy)
      case False
      then have "s' = s2" "r \<noteq> Inr ()" using run True sync by auto
      then show ?thesis using g2 False body_logI(1) by fastforce
    next
      case sy: True
      obtain res s3 where close: "ask (sys_close S) s2 = (res, s3)" by fastforce
      have g3: "grows (map (Append fd) cs @ [Fsync fd]) s s3" using grows_trans [OF g2 grows_ask [OF close]] sy by simp
      obtain rn s4 where rename: "(if \<not> res then (False, s3) else rename_file S tmp path s3) = (rn, s4)" by fastforce
      have "entries (visible s3) tmp = Some fd" unfolding visible_grows [OF g3] entries_quiet by (rule assms(2))
      then have "grows (if rn then [Rename fd tmp path] else []) s3 s4"
        using rename rename_log [of S tmp path s3 rn s4 fd] by (auto split: if_splits)
      from grows_trans [OF g3 this] have g4: "grows (map (Append fd) cs @ [Fsync fd] @ (if rn then [Rename fd tmp path] else [])) s s4" by simp
      show ?thesis
      proof (cases rn)
        case False
        then have "s' = s4" "r \<noteq> Inr ()" using run True sync sy close rename by auto
        then show ?thesis using g4 False body_logI(2) by fastforce
      next
        case rn: True
        obtain op s5 where dir: "ask (\<lambda>k. sys_open_dir S k (parent_path path)) s4 = (op, s5)" by fastforce
        have g5: "grows (map (Append fd) cs @ [Fsync fd, Rename fd tmp path]) s s5" using grows_trans [OF g4 grows_ask [OF dir]] rn by simp
        obtain ds s6 where dsync: "attempt (sys_fsync S) (Fsync_dir (parent_path path)) s5 = (ds, s6)" by fastforce
        obtain x s7 where last: "ask (sys_close S) s6 = (x, s7)" by fastforce
        have g7: "grows (map (Append fd) cs @ [Fsync fd, Rename fd tmp path] @ (if ds then [Fsync_dir (parent_path path)] else [])) s s7"
          using grows_trans [OF grows_trans [OF g5 grows_attempt [OF dsync]] grows_ask [OF last]] by simp
        have c: "concat cs = b" by (rule cs(2) [OF True])
        show ?thesis
        proof (cases op)
          case False
          then have "s' = s5" "r \<noteq> Inr ()" using run True sync sy close rename rn dir by auto
          then show ?thesis using g5 body_logI(3) [OF _ c] by blast
        next
          case op: True
          show ?thesis
          proof (cases ds)
            case True
            then have "s' = s7" "r = Inr ()" using run \<open>ok\<close> sync sy close rename rn dir op dsync last by auto
            then show ?thesis using g7 True body_logI(4) [OF c] by fastforce
          next
            case False
            then have "s' = s7" "r \<noteq> Inr ()" using run \<open>ok\<close> sync sy close rename rn dir op dsync last by auto
            then show ?thesis using g7 False body_logI(3) [OF _ c] by fastforce
          qed
        qed
      qed
    qed
  qed
qed

text \<open>Every first part of the log of a replacement is one of an atomic replacement.\<close>

lemma synced_chunks: "synced n es \<Longrightarrow> synced n (map (Append n) cs @ Fsync n # es)"
  by (induction cs) simp_all

lemma synced_none: "(\<And>e bs. e \<in> set es \<Longrightarrow> e \<noteq> Append n bs) \<Longrightarrow> synced n es"
proof (induction es)
  case (Cons e es)
  then have "\<And>bs. e \<noteq> Append n bs" "synced n es" by simp_all
  then show ?case by (cases e) auto
qed simp

lemma appended_quiet: "(\<And>e bs. e \<in> set es \<Longrightarrow> e \<noteq> Append n bs) \<Longrightarrow> appended n es = []"
proof (induction es)
  case (Cons e es)
  then have "\<And>bs. e \<noteq> Append n bs" "appended n es = []" by simp_all
  then show ?case by (cases e) auto
qed simp

lemma replacing_part:
  assumes "\<And>e. e \<in> set rest \<Longrightarrow> e = Rename n t p \<or> e = Fsync_dir (parent_path p) \<or> e = Unlink t"
    and "Rename n t p \<in> set rest \<Longrightarrow> concat cs = b"
  shows "replacing n t p b (Create n t # map (Append n) cs @ Fsync n # rest)"
proof -
  have no: "e \<noteq> Append n bs" if "e \<in> set rest" for e bs using assms(1) [OF that] by auto
  have "appended n rest = []" by (rule appended_quiet [OF no])
  have sync: "synced n (map (Append n) cs @ Fsync n # rest)" by (rule synced_chunks [OF synced_none [OF no]])
  have kinds: "e = Create n t \<or> (\<exists>bs. e = Append n bs) \<or> e = Fsync n \<or> e = Rename n t p \<or> e = Fsync_dir (parent_path p) \<or> e = Unlink t"
    if "e \<in> set (Create n t # map (Append n) cs @ Fsync n # rest)" for e
    using that assms(1) [of e] by auto
  have "concat cs = b" if "Rename n t p \<in> set (Create n t # map (Append n) cs @ Fsync n # rest)"
    using that by (intro assms(2)) auto
  with kinds sync \<open>appended n rest = []\<close> show ?thesis unfolding replacing_def by (intro conjI ballI impI) simp_all
qed

lemma replacing_unfinished:
  assumes "\<And>e. e \<in> set es \<Longrightarrow> e = Create n t \<or> (\<exists>bs. e = Append n bs) \<or> e = Fsync n \<or> e = Unlink t"
  shows "replacing n t p b es"
  using assms unfolding replacing_def by fastforce

lemma replacing_take:
  assumes "body_log n t p b r es" "U = [] \<or> U = [Unlink t]"
  shows "replacing n t p b (take k (Create n t # es @ U))"
proof -
  obtain cs more where es: "es = map (Append n) cs @ more" and more: "more = [] \<or> more = [Fsync n] \<or>
      concat cs = b \<and> more = Fsync n # Rename n t p # [] \<or> concat cs = b \<and> more = Fsync n # Rename n t p # [Fsync_dir (parent_path p)]"
    using assms(1) unfolding body_log_def by blast
  let ?pre = "Create n t # map (Append n) cs @ [Fsync n]"
  consider (open_file) "more = []" | (flushed_file) rest where "more = Fsync n # rest" "rest = [] \<or> concat cs = b"
      "\<And>e. e \<in> set (rest @ U) \<Longrightarrow> e = Rename n t p \<or> e = Fsync_dir (parent_path p) \<or> e = Unlink t"
    using more assms(2) by fastforce
  then show ?thesis
  proof cases
    case open_file
    then show ?thesis using assms(2) by (intro replacing_unfinished) (auto simp: es dest!: in_set_takeD)
  next
    case (flushed_file rest)
    have all: "Create n t # es @ U = ?pre @ rest @ U" by (simp add: es flushed_file(1))
    show ?thesis
    proof (cases "k \<le> length ?pre")
      case True
      then have "take k (Create n t # es @ U) = take k ?pre" unfolding all by (simp only: take_append) simp
      then show ?thesis by (intro replacing_unfinished) (auto dest!: in_set_takeD)
    next
      case False
      then have "take k (Create n t # es @ U) = Create n t # map (Append n) cs @ Fsync n # take (k - length ?pre) (rest @ U)"
        unfolding all by (simp only: take_append) simp
      moreover have "replacing n t p b (Create n t # map (Append n) cs @ Fsync n # take (k - length ?pre) (rest @ U))"
        by (rule replacing_part) (use flushed_file(2,3) assms(2) in \<open>auto dest!: in_set_takeD\<close>)
      ultimately show ?thesis by simp
    qed
  qed
qed

text \<open>The name of a temporary file for a path.\<close>

definition temp_of :: "string \<Rightarrow> string \<Rightarrow> bool" where
  "temp_of p t \<longleftrightarrow> (\<exists>s. length s = 6 \<and> t = p @ ''.tmp.'' @ s)"

lemma temp_neq: "temp_of p t \<Longrightarrow> t \<noteq> p"
  by (auto simp: temp_of_def)

lemma mkstemp_log:
  assumes "mkstemp S (p @ ''.tmp.XXXXXX'') s = (a, s')" "sys_ok S"
  shows "case a of None \<Rightarrow> grows [] s s'
    | Some (n, t) \<Rightarrow> n = os_next s \<and> temp_of p t \<and> os_disk s' = os_disk s \<and> os_next s' = os_next s + 1 \<and>
        os_log s' = os_log s @ [Create n t] \<and> entries (visible s') t = Some n"
proof (cases "sys_mkstemp S (os_time s) (p @ ''.tmp.XXXXXX'')")
  case None
  then show ?thesis using assms(1) by (auto simp: mkstemp_def)
next
  case (Some t)
  obtain x where x: "length x = 6" "t = take (length (p @ ''.tmp.XXXXXX'') - 6) (p @ ''.tmp.XXXXXX'') @ x"
    using assms(2) Some unfolding sys_ok_def by blast
  then have "temp_of p t" by (auto simp: temp_of_def)
  then show ?thesis
    using assms(1) Some by (auto simp: mkstemp_def create_file_def visible_def split: if_splits)
qed

lemma write_path_log:
  assumes run: "write_path S p b s = Some (r, s')" and sys: "sys_ok S"
  shows "r \<noteq> Inr () \<and> grows [] s s' \<or>
    (\<exists>t es. temp_of p t \<and> os_disk s' = os_disk s \<and> os_next s' = os_next s + 1 \<and> os_log s' = os_log s @ es \<and>
       (\<forall>k. replacing (os_next s) t p b (take k es)) \<and>
       (r = Inr () \<longrightarrow> (\<exists>es0. es = es0 @ [Fsync_dir (parent_path p)] \<and> Rename (os_next s) t p \<in> set es0)))"
proof -
  obtain a s1 where m: "mkstemp S (p @ ''.tmp.XXXXXX'') s = (a, s1)" by fastforce
  note log = mkstemp_log [OF m sys]
  show ?thesis
  proof (cases a)
    case None
    then show ?thesis using run m log by (auto simp: write_path_def)
  next
    case (Some nt)
    obtain n t where nt: "nt = (n, t)" by fastforce
    have n: "n = os_next s" "temp_of p t" "os_disk s1 = os_disk s" "os_next s1 = os_next s + 1"
        "os_log s1 = os_log s @ [Create n t]" "entries (visible s1) t = Some n"
      using log Some nt by simp_all
    obtain closed r2 s2 where body: "write_body S n t p b s1 = Some (closed, r2, s2)"
      using run m Some nt by (auto simp: write_path_def split: option.splits)
    obtain es where es: "grows es s1 s2" "body_log n t p b r2 es" using write_body_log [OF body n(6)] by blast
    show ?thesis
    proof (cases r2)
      case (Inr u)
      then have r: "r = Inr ()" "s' = s2" using run m Some nt body by (simp_all add: write_path_def)
      have last: "\<exists>es0. Create n t # es = es0 @ [Fsync_dir (parent_path p)] \<and> Rename n t p \<in> set es0"
      proof -
        obtain cs where "es = map (Append n) cs @ [Fsync n, Rename n t p, Fsync_dir (parent_path p)]"
          using es(2) Inr by (auto simp: body_log_def)
        then have "Create n t # es = (Create n t # map (Append n) cs @ [Fsync n, Rename n t p]) @ [Fsync_dir (parent_path p)]" by simp
        then show ?thesis by fastforce
      qed
      have "\<forall>k. replacing n t p b (take k (Create n t # es))" using replacing_take [OF es(2), of "[]"] by simp
      then show ?thesis using n es(1) r last by (intro disjI2 exI [of _ t] exI [of _ "Create n t # es"]) (simp add: grows_def)
    next
      case (Inl e)
      let ?s3 = "if closed then s2 else snd (ask (sys_close S) s2)"
      obtain u s4 where u: "attempt (sys_unlink S) (Unlink t) ?s3 = (u, s4)" by fastforce
      have r: "r \<noteq> Inr ()" "s' = s4" using run m Some nt body Inl u by (auto simp: write_path_def Let_def split: prod.splits)
      have "grows [] s2 ?s3" by (simp add: ask_def)
      from grows_trans [OF grows_trans [OF es(1) this] grows_attempt [OF u]]
      have g: "grows (es @ (if u then [Unlink t] else [])) s1 s4" by simp
      have "\<forall>k. replacing n t p b (take k (Create n t # es @ (if u then [Unlink t] else [])))" using replacing_take [OF es(2)] by auto
      then show ?thesis using n g r by (intro disjI2 exI [of _ t] exI [of _ "Create n t # es @ (if u then [Unlink t] else [])"]) (simp add: grows_def)
    qed
  qed
qed

subsection \<open>At every moment\<close>

text \<open>\<open>I\<close> holds of the disk and the log at every moment from \<open>s\<close> to \<open>s'\<close>.\<close>

definition throughout :: "(disk \<Rightarrow> event list \<Rightarrow> bool) \<Rightarrow> os \<Rightarrow> os \<Rightarrow> bool" where
  "throughout I s s' \<longleftrightarrow> os_disk s' = os_disk s \<and> os_ok s' \<and> os_next s \<le> os_next s' \<and>
     (\<exists>es. os_log s' = os_log s @ es \<and> (\<forall>k. I (os_disk s) (os_log s @ take k es)))"

definition now :: "(disk \<Rightarrow> event list \<Rightarrow> bool) \<Rightarrow> os \<Rightarrow> bool" where
  "now I s \<longleftrightarrow> I (os_disk s) (os_log s)"

lemma throughout_end: "throughout I s s' \<Longrightarrow> now I s' \<and> os_ok s'"
  unfolding throughout_def now_def by (metis order_refl take_all)

lemma throughout_grows: "grows [] s s' \<Longrightarrow> os_ok s \<Longrightarrow> now I s \<Longrightarrow> throughout I s s'"
  by (auto simp: throughout_def grows_def now_def os_ok_def)

lemma throughout_refl: "os_ok s \<Longrightarrow> now I s \<Longrightarrow> throughout I s s"
  by (rule throughout_grows) simp_all

lemma throughout_trans:
  assumes "throughout I s s1" "throughout I s1 s2"
  shows "throughout I s s2"
proof -
  obtain a where a: "os_log s1 = os_log s @ a" "\<And>k. I (os_disk s) (os_log s @ take k a)" using assms(1) by (auto simp: throughout_def)
  obtain b where b: "os_log s2 = os_log s1 @ b" "\<And>k. I (os_disk s1) (os_log s1 @ take k b)" using assms(2) by (auto simp: throughout_def)
  have d: "os_disk s1 = os_disk s" using assms(1) by (simp add: throughout_def)
  have "I (os_disk s) (os_log s @ take k (a @ b))" for k
  proof (cases "k \<le> length a")
    case True
    then show ?thesis using a(2) [of k] by simp
  next
    case False
    then show ?thesis using b(2) [of "k - length a"] by (simp add: d a(1))
  qed
  then show ?thesis using assms a(1) b(1) unfolding throughout_def by (metis append_assoc order_trans)
qed

lemma throughout_mono: "throughout I s s' \<Longrightarrow> (\<And>log. I (os_disk s) log \<Longrightarrow> J (os_disk s) log) \<Longrightarrow> throughout J s s'"
  unfolding throughout_def by blast

lemma throughout_conj: "throughout I s s' \<Longrightarrow> throughout J s s' \<Longrightarrow> throughout (\<lambda>d log. I d log \<and> J d log) s s'"
  unfolding throughout_def by (metis append_same_eq same_append_eq)

lemma throughout_write:
  assumes run: "write_path S p b s = Some (r, s')" and s: "os_ok s" "sys_ok S" "now I s"
    and I: "\<And>t es. temp_of p t \<Longrightarrow> replacing (os_next s) t p b es \<Longrightarrow> I (os_disk s) (os_log s @ es)"
  shows "throughout I s s'"
  using write_path_log [OF run s(2)]
proof
  assume "r \<noteq> Inr () \<and> grows [] s s'"
  then show ?thesis using throughout_grows s by blast
next
  assume "\<exists>t es. temp_of p t \<and> os_disk s' = os_disk s \<and> os_next s' = os_next s + 1 \<and> os_log s' = os_log s @ es \<and>
       (\<forall>k. replacing (os_next s) t p b (take k es)) \<and>
       (r = Inr () \<longrightarrow> (\<exists>es0. es = es0 @ [Fsync_dir (parent_path p)] \<and> Rename (os_next s) t p \<in> set es0))"
  then obtain t es where t: "temp_of p t" "os_disk s' = os_disk s" "os_next s' = os_next s + 1" "os_log s' = os_log s @ es"
    and es: "\<And>k. replacing (os_next s) t p b (take k es)" by blast
  have "number e = Some (os_next s) \<or> number e = None" if "e \<in> set es" for e
    using replacing_number [OF es [of "length es"]] that by simp
  then have "os_ok s'"
    using s(1) t(2,3) unfolding os_ok_def t(4) by (fastforce simp: less_Suc_eq)
  moreover have "I (os_disk s) (os_log s @ take k es)" for k by (rule I [OF t(1) es])
  ultimately show ?thesis using t by (auto simp: throughout_def)
qed

subsection \<open>What a file holds\<close>

text \<open>In every outcome the file at \<open>q\<close> is one of \<open>X\<close>; the file at \<open>q\<close> is now \<open>x\<close>.\<close>

definition left :: "string \<Rightarrow> bytes option set \<Rightarrow> disk \<Rightarrow> event list \<Rightarrow> bool" where
  "left q X d log \<longleftrightarrow> (\<forall>f. survives log f \<longrightarrow> file_at (replay f d) q \<in> X)"

definition sees :: "string \<Rightarrow> bytes option \<Rightarrow> disk \<Rightarrow> event list \<Rightarrow> bool" where
  "sees q x d log \<longleftrightarrow> file_at (replay log d) q = x"

lemma left_mono: "left q X d log \<Longrightarrow> X \<subseteq> Y \<Longrightarrow> left q Y d log"
  by (auto simp: left_def)

lemma left_visible: "now (left q X) s \<Longrightarrow> file_at (visible s) q \<in> X"
  by (simp add: now_def left_def visible_def)

text \<open>A path that replacing \<open>p\<close> does not touch.\<close>

definition clear_of :: "string \<Rightarrow> string \<Rightarrow> bool" where
  "clear_of q p \<longleftrightarrow> q \<noteq> p \<and> \<not> temp_of p q"

lemma left_other:
  assumes "os_ok s" "clear_of q p" "now (left q X) s" "t = p \<or> temp_of p t" "replacing (os_next s) t p b es"
  shows "left q X (os_disk s) (os_log s @ es)"
  unfolding left_def
proof (intro allI impI)
  fix fs assume "survives (os_log s @ es) fs"
  then obtain f g where fs: "fs = f @ g" "survives (os_log s) f" "survives es g" using survives_append by blast
  have q: "q \<noteq> t" "q \<noteq> p" using assms(2,4) by (auto simp: clear_of_def)
  show "file_at (replay fs (os_disk s)) q \<in> X"
    unfolding fs(1) untouched [OF assms(1) fs(2) survives_subset [OF fs(3)] assms(5) q] using assms(3) fs(2) by (simp add: now_def left_def)
qed

lemma sees_other:
  assumes "os_ok s" "clear_of q p" "now (sees q x) s" "t = p \<or> temp_of p t" "replacing (os_next s) t p b es"
  shows "sees q x (os_disk s) (os_log s @ es)"
proof -
  have q: "q \<noteq> t" "q \<noteq> p" using assms(2,4) by (auto simp: clear_of_def)
  from untouched [OF assms(1) survives_refl subset_refl assms(5) q] show ?thesis using assms(3) by (simp add: now_def sees_def)
qed

lemma write_own:
  assumes "write_path S p b s = Some (r, s')" "os_ok s" "sys_ok S" "now (left p X) s"
  shows "throughout (left p (insert (Some b) X)) s s'" "r = Inr () \<Longrightarrow> now (left p {Some b}) s'"
proof -
  show "throughout (left p (insert (Some b) X)) s s'"
  proof (rule throughout_write [OF assms(1-3)])
    show "now (left p (insert (Some b) X)) s" using assms(4) unfolding now_def by (rule left_mono) blast
    fix t es assume t: "temp_of p t" and es: "replacing (os_next s) t p b es"
    show "left p (insert (Some b) X) (os_disk s) (os_log s @ es)"
      unfolding left_def
    proof (intro allI impI)
      fix fs assume "survives (os_log s @ es) fs"
      then obtain f g where fs: "fs = f @ g" "survives (os_log s) f" "survives es g" using survives_append by blast
      have "file_at (replay f (os_disk s)) p \<in> X" using assms(4) fs(2) by (simp add: now_def left_def)
      then show "file_at (replay fs (os_disk s)) p \<in> insert (Some b) X"
        using replaced [OF assms(2) es fs(2,3) temp_neq [OF t]] fs(1) by auto
    qed
  qed
  assume "r = Inr ()"
  with write_path_log [OF assms(1,3)] obtain t es0 where t: "temp_of p t" "os_disk s' = os_disk s"
      "os_log s' = os_log s @ es0 @ [Fsync_dir (parent_path p)]"
      "\<And>k. replacing (os_next s) t p b (take k (es0 @ [Fsync_dir (parent_path p)]))" "Rename (os_next s) t p \<in> set es0" by blast
  have "replacing (os_next s) t p b (es0 @ [Fsync_dir (parent_path p)])" using t(4) [of "length es0 + 1"] by simp
  from survivor_new [OF assms(2) this t(5) temp_neq [OF t(1)]] show "now (left p {Some b}) s'"
    by (simp add: now_def left_def t(2,3))
qed

lemma write_own_sees:
  assumes "write_path S p b s = Some (r, s')" "os_ok s" "sys_ok S"
  shows "throughout (\<lambda>d log. sees p (file_at (visible s) p) d log \<or> sees p (Some b) d log) s s'"
proof (rule throughout_write [OF assms])
  show "now (\<lambda>d log. sees p (file_at (visible s) p) d log \<or> sees p (Some b) d log) s" by (simp add: now_def sees_def visible_def)
  fix t es assume t: "temp_of p t" and es: "replacing (os_next s) t p b es"
  show "sees p (file_at (visible s) p) (os_disk s) (os_log s @ es) \<or> sees p (Some b) (os_disk s) (os_log s @ es)"
    using replaced [OF assms(2) es survives_refl survives_refl temp_neq [OF t]] by (auto simp: sees_def visible_def)
qed

subsection \<open>Invariants of the disk\<close>

text \<open>
  An invariant that replacing or creating a file at one of \<open>paths\<close> keeps, and the tasks that keep
  it at every moment.
\<close>

definition upholds :: "(disk \<Rightarrow> event list \<Rightarrow> bool) \<Rightarrow> 'a task \<Rightarrow> bool" where
  "upholds I t \<longleftrightarrow> (\<forall>s c r s' c'. os_ok s \<longrightarrow> now I s \<longrightarrow> t (s, c) = Some (r, s', c') \<longrightarrow> throughout I s s')"

lemma upholdsD: "upholds I t \<Longrightarrow> t (s, c) = Some (r, s', c') \<Longrightarrow> os_ok s \<Longrightarrow> now I s \<Longrightarrow> throughout I s s'"
  unfolding upholds_def by blast

lemma upholdsI: "(\<And>s c r s' c'. os_ok s \<Longrightarrow> now I s \<Longrightarrow> t (s, c) = Some (r, s', c') \<Longrightarrow> throughout I s s') \<Longrightarrow> upholds I t"
  unfolding upholds_def by blast

text \<open>What taking the lock does to the disk: it may create the lock file.\<close>

definition locks :: "string \<Rightarrow> os \<Rightarrow> os \<Rightarrow> bool" where
  "locks p s s' \<longleftrightarrow> grows [] s s' \<or>
     entries (visible s) p = None \<and> os_disk s' = os_disk s \<and> os_next s' = os_next s + 1 \<and> os_log s' = os_log s @ [Create (os_next s) p]"

lemma Lock_locks: "Lock S p s = (r, s') \<Longrightarrow> locks p s s'"
  by (auto simp: Lock_def ask_def Let_def locks_def grows_def create_file_def split: if_splits)

lemma grows_read: "read_path S p n s = (r, s') \<Longrightarrow> grows [] s s'"
  by (auto simp: read_path_def ask_def Let_def grows_def split: option.splits if_splits)

locale disk_invariant =
  fixes I :: "disk \<Rightarrow> event list \<Rightarrow> bool" and paths :: "string set"
  assumes other_file: "os_ok s \<Longrightarrow> now I s \<Longrightarrow> p \<in> paths \<Longrightarrow> t = p \<or> temp_of p t \<Longrightarrow>
    replacing (os_next s) t p b es \<Longrightarrow> I (os_disk s) (os_log s @ es)"
begin

lemma upholds_seq: "upholds I t \<Longrightarrow> (\<And>x. upholds I (f x)) \<Longrightarrow> upholds I (task_seq t f)"
  unfolding upholds_def task_seq_def
  by (auto split: option.splits sum.splits) (metis throughout_end throughout_trans)+

lemma upholds_result: "upholds I (of_result r)" "upholds I (give x)"
  by (auto simp: upholds_def of_result_def give_def intro: throughout_refl)

lemma upholds_rng: "upholds I (with_rng f)"
  by (auto simp: upholds_def with_rng_def Let_def split: prod.splits intro: throughout_refl)

lemma upholds_quiet: "(\<And>s r s'. f s = (r, s') \<Longrightarrow> grows [] s s') \<Longrightarrow> upholds I (with_os (\<lambda>s. Some (f s)))"
  by (rule upholdsI) (auto simp: with_os_def split: prod.splits intro: throughout_grows)

lemma upholds_write: "sys_ok S \<Longrightarrow> p \<in> paths \<Longrightarrow> upholds I (write_task S p b)"
  by (rule upholdsI, auto simp: write_task_def with_os_def, erule throughout_write, assumption+, rule other_file, auto)

lemma throughout_locks:
  assumes "locks p s s'" "os_ok s" "now I s" "p \<in> paths"
  shows "throughout I s s'"
  using assms(1) unfolding locks_def
proof
  assume "grows [] s s'"
  then show ?thesis by (rule throughout_grows [OF _ assms(2,3)])
next
  assume *: "entries (visible s) p = None \<and> os_disk s' = os_disk s \<and> os_next s' = os_next s + 1 \<and> os_log s' = os_log s @ [Create (os_next s) p]"
  have rep: "replacing (os_next s) p p b (take k [Create (os_next s) p])" for b k
    by (rule replacing_unfinished) (auto dest!: in_set_takeD)
  have "I (os_disk s) (os_log s @ take k [Create (os_next s) p])" for k
    by (rule other_file [OF assms(2-4) _ rep]) simp
  moreover have "os_ok s'" using assms(2) * by (auto simp: os_ok_def less_Suc_eq)
  ultimately show ?thesis using * by (auto simp: throughout_def)
qed

lemma upholds_lock:
  assumes "path_append dir ''signer.lock'' \<in> paths"
  shows "upholds I (lock_task S dir)"
proof (rule upholdsI)
  fix s c r s' c' assume s: "os_ok s" "now I s" and "lock_task S dir (s, c) = Some (r, s', c')"
  then have "Lock S (path_append dir ''signer.lock'') s = (r, s')"
    by (cases "Lock S (path_append dir ''signer.lock'') s") (simp add: lock_task_def with_os_def)
  from throughout_locks [OF Lock_locks [OF this] s assms] show "throughout I s s'" .
qed

lemmas upholds_rules = upholds_seq upholds_result upholds_rng upholds_write upholds_lock

lemma upholds_read: "upholds I (read_task S p n)"
  unfolding read_task_def by (rule upholds_quiet) (rule grows_read)

lemma upholds_mkdirs: "upholds I (with_os (\<lambda>s. Some (create_directories S dir s)))"
  by (rule upholds_quiet) (auto simp: create_directories_def ask_def grows_def)

lemma upholds_exists: "upholds I (with_os (\<lambda>s. Some (exists_path S p s)))"
  by (rule upholds_quiet) (auto simp: exists_path_def ask_def grows_def)

lemma upholds_commit:
  assumes "sys_ok S" "path_append dir ''user_state.bin'' \<in> paths" "path_append dir ''commitment.bin'' \<in> paths"
  shows "upholds I (command_commit S V dir message)"
  unfolding command_commit_def by (intro upholds_rules upholds_mkdirs upholds_read assms)

lemma upholds_prove:
  assumes "sys_ok S" "path_append dir ''blind_sig.bin'' \<in> paths"
  shows "upholds I (command_prove S V F C L dir)"
  unfolding command_prove_def by (intro upholds_rules upholds_read assms)

lemma upholds_verify: "upholds I (command_verify S V F C dir message)"
  unfolding command_verify_def by (intro upholds_rules upholds_read)

end

interpretation file_left: disk_invariant "left q X" "{p. clear_of q p}" for q X
  by unfold_locales (rule left_other, auto)

interpretation file_seen: disk_invariant "sees q x" "{p. clear_of q p}" for q x
  by unfold_locales (rule sees_other, auto)

interpretation signing_files: disk_invariant "\<lambda>d log. left q X d log \<and> sees g x d log" "{p. clear_of q p \<and> clear_of g p}" for q X g x
proof
  fix s p t b es
  assume "os_ok s" "now (\<lambda>d log. left q X d log \<and> sees g x d log) s" "p \<in> {p. clear_of q p \<and> clear_of g p}"
    "t = p \<or> temp_of p t" "replacing (os_next s) t p b es"
  then show "left q X (os_disk s) (os_log s @ es) \<and> sees g x (os_disk s) (os_log s @ es)"
    using left_other [of s q p X t b es] sees_other [of s g p x t b es] by (simp add: now_def)
qed

subsection \<open>Paths\<close>

lemma temp_append: "temp_of (base @ b) (base @ a) \<longleftrightarrow> temp_of b a"
  by (simp add: temp_of_def)

lemma clear_append: "clear_of (path_append dir a) (path_append dir b) \<longleftrightarrow> a \<noteq> b \<and> \<not> temp_of b a"
proof -
  obtain base where base: "\<And>x. path_append dir x = base @ x"
    by (cases "dir = [] \<or> last dir = CHR ''/''") (use that [of dir] that [of "dir @ ''/''"] in \<open>auto simp: path_append_def\<close>)
  show ?thesis by (simp add: base clear_of_def temp_append)
qed

lemma clear_artifacts:
  "clear_of (path_append dir ''signer_key.bin'') (path_append dir ''signer.lock'')"
  "clear_of (path_append dir ''signer_key.bin'') (path_append dir ''signer_pub.bin'')"
  "clear_of (path_append dir ''signer_key.bin'') (path_append dir ''user_state.bin'')"
  "clear_of (path_append dir ''signer_key.bin'') (path_append dir ''commitment.bin'')"
  "clear_of (path_append dir ''signer_key.bin'') (path_append dir ''xmss_sig.bin'')"
  "clear_of (path_append dir ''signer_key.bin'') (path_append dir ''blind_sig.bin'')"
  "clear_of (path_append dir ''xmss_sig.bin'') (path_append dir ''signer.lock'')"
  "clear_of (path_append dir ''xmss_sig.bin'') (path_append dir ''signer_key.bin'')"
  "clear_of (path_append dir ''xmss_sig.bin'') (path_append dir ''signer_pub.bin'')"
  "clear_of (path_append dir ''xmss_sig.bin'') (path_append dir ''user_state.bin'')"
  "clear_of (path_append dir ''xmss_sig.bin'') (path_append dir ''commitment.bin'')"
  "clear_of (path_append dir ''xmss_sig.bin'') (path_append dir ''blind_sig.bin'')"
  "clear_of (path_append dir ''signer_pub.bin'') (path_append dir ''signer.lock'')"
  unfolding clear_append by (simp_all add: temp_of_def)

subsection \<open>Releasing a signature\<close>

text \<open>The contents of a key file for this key with a counter of at least \<open>n\<close>.\<close>

definition keys_from :: "SecretKey \<Rightarrow> nat \<Rightarrow> bytes option set" where
  "keys_from key n = {Some b | b sk. encode_secret sk = Inr b \<and> secret_wf sk \<and> same_key sk key \<and> n \<le> unat (sec_next_leaf sk)}"

lemma keys_from_mono: "n \<le> m \<Longrightarrow> keys_from key m \<subseteq> keys_from key n"
  by (auto simp: keys_from_def intro: order_trans)

text \<open>The file at \<open>g\<close> holds a signature of the key with a leaf from \<open>n\<close>, and no outcome has a key file
  that would use the leaf again.\<close>

definition released :: "vole \<Rightarrow> SecretKey \<Rightarrow> nat \<Rightarrow> string \<Rightarrow> string \<Rightarrow> disk \<Rightarrow> event list \<Rightarrow> bool" where
  "released V key n q g d log \<longleftrightarrow>
     (\<exists>sig com. sees g (Some (encode_response sig)) d log \<and> sig_wf sig \<and> n \<le> unat (xs_leaf_index sig) \<and>
        v_xmss_verify V (sec_public_seed key) (key_root V key) (v_hm_digest V com) sig \<and>
        left q (keys_from key (Suc (unat (xs_leaf_index sig)))) d log)"

lemma task_moments:
  assumes run: "task_seq t f (s, c) = Some (r, s', c')" and s: "os_ok s" "now I s" and t: "upholds I t"
    and IJ: "\<And>d log. I d log \<Longrightarrow> J d log"
    and f: "\<And>x s1 c1. t (s, c) = Some (Inr x, s1, c1) \<Longrightarrow> os_ok s1 \<Longrightarrow> now I s1 \<Longrightarrow> f x (s1, c1) = Some (r, s', c') \<Longrightarrow> throughout J s1 s'"
  shows "throughout J s s'"
proof -
  obtain r1 s1 c1 where one: "t (s, c) = Some (r1, s1, c1)" using run by (auto simp: task_seq_def split: option.splits)
  have I1: "throughout I s s1" by (rule upholdsD [OF t one s])
  have J1: "throughout J s s1" by (rule throughout_mono [OF I1]) (rule IJ)
  show ?thesis
  proof (cases r1)
    case (Inl e)
    then show ?thesis using run one J1 by (simp add: task_seq_def)
  next
    case (Inr x)
    then have "f x (s1, c1) = Some (r, s', c')" using run one by (simp add: task_seq_def)
    then have "throughout J s1 s'" using f [OF one [unfolded Inr]] throughout_end [OF I1] by blast
    with J1 show ?thesis by (rule throughout_trans)
  qed
qed

lemma read_task_file:
  assumes "read_task S p n (s, c) = Some (Inr b, s1, c1)"
  shows "file_at (visible s) p = Some b"
  using assms by (auto simp: read_task_def with_os_def read_path_def Let_def ask_def split: option.splits if_splits prod.splits)

lemma of_result_eq: "of_result r (s, c) = Some (Inr x, s1, c1) \<longleftrightarrow> r = Inr x \<and> s1 = s \<and> c1 = c"
  by (auto simp: of_result_def)

lemma persist_key_writes:
  assumes "encode_secret key = Inr b" "snd (persist_key S dir key (Some s)) = Some s'"
  obtains w where "write_path S (path_append dir ''signer_key.bin'') b s = Some (w, s')" "w = Inr () \<longleftrightarrow> fst (persist_key S dir key (Some s)) = None"
proof (cases "write_path S (path_append dir ''signer_key.bin'') b s")
  case None
  then show thesis using assms by (simp add: persist_key_def)
next
  case (Some ws)
  then show thesis using assms that by (cases ws; cases "fst ws") (simp_all add: persist_key_def)
qed

lemma sign_task_moments:
  assumes V: "vole_ok V" and S: "sys_ok S" and s: "os_ok s" "now (\<lambda>d log. left (path_append dir ''signer_key.bin'') (keys_from key n) d log \<and> sees (path_append dir ''xmss_sig.bin'') x d log) s"
    and sg: "signer_wf V sg" "same_key (sg_key sg) key" "n \<le> unat (sec_next_leaf (sg_key sg))"
    and run: "sign_task S V dir sg com (s, c) = Some (r, s', c')"
  shows "throughout (\<lambda>d log. left (path_append dir ''signer_key.bin'') (keys_from key n) d log \<and> sees (path_append dir ''xmss_sig.bin'') x d log) s s'"
    and "r = Inr sig \<Longrightarrow> n \<le> unat (xs_leaf_index sig) \<and> sig_wf sig \<and> v_xmss_verify V (sec_public_seed key) (key_root V key) (v_hm_digest V com) sig \<and>
      now (left (path_append dir ''signer_key.bin'') (keys_from key (Suc (unat (xs_leaf_index sig))))) s'"
proof -
  let ?K = "path_append dir ''signer_key.bin''"
  let ?I = "\<lambda>d log. left ?K (keys_from key n) d log \<and> sees (path_append dir ''xmss_sig.bin'') x d log"
  obtain sg' where sign: "Signer_sign V sg com (Some (persist_key S dir)) (Some s, c) = Some (r, sg', Some s', c')"
    using run by (auto simp: sign_task_def split: option.splits prod.splits)
  have wf: "secret_wf (sg_key sg)" "validate_key (sg_key sg)" using sg(1) by (simp_all add: signer_wf_def secret_wf_def)
  have "throughout ?I s s' \<and> (r = Inr sig \<longrightarrow> n \<le> unat (xs_leaf_index sig) \<and> sig_wf sig \<and>
      v_xmss_verify V (sec_public_seed key) (key_root V key) (v_hm_digest V com) sig \<and> now (left ?K (keys_from key (Suc (unat (xs_leaf_index sig))))) s')"
  proof (cases "exhausted_key (sg_key sg)")
    case True
    then show ?thesis using sign_exhausted [OF True, of V com "Some (persist_key S dir)" "Some s" c] sign s by (auto intro: throughout_refl)
  next
    case False
    note res = sign_reserves [OF sign False]
    note rk = reserve_key [OF wf(2) False]
    have rwf: "secret_wf (reserve (sg_key sg))" using wf(1) rk(4) by (simp add: secret_wf_def)
    then obtain b where b: "encode_secret (reserve (sg_key sg)) = Inr b" using encode_secret_bytes by blast
    have "Some b \<in> keys_from key m" if "m \<le> Suc (unat (sec_next_leaf (sg_key sg)))" for m
      unfolding keys_from_def using b rwf sg(2) rk(2) that by (intro CollectI exI [of _ b] exI [of _ "reserve (sg_key sg)"]) simp
    then have kb: "insert (Some b) (keys_from key n) \<subseteq> keys_from key n" "{Some b} \<subseteq> keys_from key (Suc (unat (sec_next_leaf (sg_key sg))))"
      using sg(3) by auto
    obtain w where w: "write_path S ?K b s = Some (w, s')" and ok: "w = Inr () \<longleftrightarrow> fst (persist_key S dir (reserve (sg_key sg)) (Some s)) = None"
      by (rule persist_key_writes [OF b res(2) [unfolded persisted_def option.case, symmetric]])
    note own = write_own [OF w s(1) S, of "keys_from key n"]
    have left0: "now (left ?K (keys_from key n)) s" and sees0: "now (sees (path_append dir ''xmss_sig.bin'') x) s"
      using s(2) by (simp_all add: now_def)
    have leftI: "throughout (left ?K (keys_from key n)) s s'"
      by (rule throughout_mono [OF own(1) [OF left0]], erule left_mono, rule kb(1))
    have "throughout (sees (path_append dir ''xmss_sig.bin'') x) s s'"
      by (rule throughout_write [OF w s(1) S sees0], rule sees_other [OF s(1) _ sees0], rule clear_artifacts) auto
    from throughout_conj [OF leftI this] have I: "throughout ?I s s'" .
    moreover have "n \<le> unat (xs_leaf_index sig) \<and> sig_wf sig \<and>
      v_xmss_verify V (sec_public_seed key) (key_root V key) (v_hm_digest V com) sig \<and> now (left ?K (keys_from key (Suc (unat (xs_leaf_index sig))))) s'"
      if r: "r = Inr sig"
    proof -
      have none: "fst (persist_key S dir (reserve (sg_key sg)) (Some s)) = None"
        and xs: "v_xmss_keypair_sign V (sg_tree sg) (ucast (sec_next_leaf (sg_key sg))) (v_hm_digest V com) c = Some (sg_tree sg', Some sig, c')"
        using res(3) [OF r] by simp_all
      have reach: "length (sec_public_seed (sg_key sg)) = 16"
        "v_kp_reachable V (sec_seed (sg_key sg)) (sec_public_seed (sg_key sg)) (uint (sec_height (sg_key sg))) (sg_tree sg)"
        using sg(1) by (simp_all add: signer_wf_def secret_wf_def)
      have leaf: "unat (xs_leaf_index sig) = unat (sec_next_leaf (sg_key sg))" using v_sign_leaf [OF xs] rk(3) by simp
      have "now (left ?K {Some b}) s'" by (rule own(2)) (use s(2) ok none in \<open>simp_all add: now_def\<close>)
      then have "now (left ?K (keys_from key (Suc (unat (xs_leaf_index sig))))) s'"
        unfolding now_def leaf by (rule left_mono) (rule kb(2))
      moreover have "v_xmss_verify V (sec_public_seed key) (key_root V key) (v_hm_digest V com) sig"
        using v_issued_verifies [OF V reach xs] signer_wf_root [OF V sg(1)] sg(2) by (simp add: same_key_def key_root_def)
      ultimately show ?thesis using v_issued_sig_wf [OF V reach xs] leaf sg(3) by simp
    qed
    ultimately show ?thesis by blast
  qed
  then show "throughout ?I s s'" "r = Inr sig \<Longrightarrow> n \<le> unat (xs_leaf_index sig) \<and> sig_wf sig \<and> v_xmss_verify V (sec_public_seed key) (key_root V key) (v_hm_digest V com) sig \<and>
      now (left ?K (keys_from key (Suc (unat (xs_leaf_index sig))))) s'" by blast+
qed

text \<open>The last steps of \<open>sign\<close>: the signature is written when the key is stored for good.\<close>

lemma release_moments:
  assumes V: "vole_ok V" and S: "sys_ok S" and s: "os_ok s" "now (\<lambda>d log. left (path_append dir ''signer_key.bin'') (keys_from key n) d log \<and> sees (path_append dir ''xmss_sig.bin'') x d log) s"
    and sg: "signer_wf V sg" "same_key (sg_key sg) key" "n \<le> unat (sec_next_leaf (sg_key sg))"
    and run: "task_seq (sign_task S V dir sg com) (\<lambda>response. task_seq (write_task S (path_append dir ''xmss_sig.bin'') (encode_response response)) (\<lambda>_. give (0 :: int))) (s, c) = Some (r, s', c')"
  shows "throughout (\<lambda>d log. left (path_append dir ''signer_key.bin'') (keys_from key n) d log \<and>
    (sees (path_append dir ''xmss_sig.bin'') x d log \<or>
     released V key n (path_append dir ''signer_key.bin'') (path_append dir ''xmss_sig.bin'') d log)) s s'"
    (is "throughout ?J s s'")
proof -
  let ?K = "path_append dir ''signer_key.bin''" and ?G = "path_append dir ''xmss_sig.bin''"
  let ?I = "\<lambda>d log. left ?K (keys_from key n) d log \<and> sees ?G x d log"
  have IJ: "\<And>d log. ?I d log \<Longrightarrow> ?J d log" by blast
  have keeps: "upholds ?I (write_task S p b)" if "clear_of ?K p" "clear_of ?G p" for p b
    by (rule signing_files.upholds_write [OF S]) (use that in simp)
  obtain r1 s1 c1 where one: "sign_task S V dir sg com (s, c) = Some (r1, s1, c1)" using run by (auto simp: task_seq_def split: option.splits)
  note m = sign_task_moments [OF V S s sg one]
  have J1: "throughout ?J s s1" by (rule throughout_mono [OF m(1)]) (rule IJ)
  have ok1: "os_ok s1" "now ?I s1" using throughout_end [OF m(1)] by blast+
  show ?thesis
  proof (cases r1)
    case (Inl e)
    then show ?thesis using run one J1 by (simp add: task_seq_def)
  next
    case (Inr sig)
    let ?n = "Suc (unat (xs_leaf_index sig))"
    note sig = m(2) [OF Inr]
    obtain w where w: "write_path S ?G (encode_response sig) s1 = Some (w, s')"
      using run one Inr by (auto simp: task_seq_def write_task_def with_os_def give_def split: option.splits sum.splits)
    have kept: "now (left ?K (keys_from key ?n)) s1" and old: "now (sees ?G x) s1" using sig ok1(2) by (simp_all add: now_def)
    have "throughout (left ?K (keys_from key ?n)) s1 s'"
      by (rule throughout_write [OF w ok1(1) S kept], rule left_other [OF ok1(1) _ kept], rule clear_artifacts) auto
    from throughout_conj [OF this write_own_sees [OF w ok1(1) S]]
    have "throughout ?J s1 s'"
    proof (rule throughout_mono)
      fix log assume *: "left ?K (keys_from key ?n) (os_disk s1) log \<and>
        (sees ?G (file_at (visible s1) ?G) (os_disk s1) log \<or> sees ?G (Some (encode_response sig)) (os_disk s1) log)"
      have "left ?K (keys_from key n) (os_disk s1) log" by (rule left_mono [OF conjunct1 [OF *]], rule keys_from_mono) (use sig in simp)
      moreover have "file_at (visible s1) ?G = x" using old by (simp add: now_def sees_def visible_def)
      moreover have "released V key n ?K ?G (os_disk s1) log" if "sees ?G (Some (encode_response sig)) (os_disk s1) log"
        unfolding released_def using that sig * by blast
      ultimately show "?J (os_disk s1) log" using * by auto
    qed
    with J1 show ?thesis by (rule throughout_trans)
  qed
qed

lemma command_sign_moments:
  assumes V: "vole_ok V" and S: "sys_ok S" and key: "length (sec_seed key) = 32" "length (sec_public_seed key) = 16"
    and s: "os_ok s" "now (left (path_append dir ''signer_key.bin'') (keys_from key n)) s" "now (sees (path_append dir ''xmss_sig.bin'') x) s"
    and run: "command_sign S V dir (s, c) = Some (r, s', c')"
  shows "throughout (\<lambda>d log. left (path_append dir ''signer_key.bin'') (keys_from key n) d log \<and>
    (sees (path_append dir ''xmss_sig.bin'') x d log \<or>
     released V key n (path_append dir ''signer_key.bin'') (path_append dir ''xmss_sig.bin'') d log)) s s'"
    (is "throughout ?J s s'")
proof -
  let ?K = "path_append dir ''signer_key.bin''" and ?G = "path_append dir ''xmss_sig.bin''"
  let ?I = "\<lambda>d log. left ?K (keys_from key n) d log \<and> sees ?G x d log"
  have IJ: "\<And>d log. ?I d log \<Longrightarrow> ?J d log" by blast
  have s': "now ?I s" using s(2,3) by (simp add: now_def)
  have lock: "upholds ?I (lock_task S dir)" by (rule signing_files.upholds_lock) (use clear_artifacts in simp)
  note quiet = signing_files.upholds_read [of ?K "keys_from key n" ?G x] signing_files.upholds_result(1) [of ?K "keys_from key n" ?G x]
  show ?thesis
  proof (rule task_moments [OF run [unfolded command_sign_def] s(1) s' lock IJ], assumption)
    fix s1 c1 assume 1: "os_ok s1" "now ?I s1"
      and run1: "task_seq (read_task S (path_append dir ''commitment.bin'') 264) (\<lambda>com_buf. task_seq (of_result (decode_commitment com_buf))
        (\<lambda>com. task_seq (read_task S ?K 65) (\<lambda>key_buf. task_seq (of_result (decode_secret key_buf)) (\<lambda>key. task_seq (of_result (Signer_new V key))
        (\<lambda>signer. task_seq (sign_task S V dir signer com) (\<lambda>response. task_seq (write_task S ?G (encode_response response)) (\<lambda>_. give 0))))))) (s1, c1) = Some (r, s', c')"
    show "throughout ?J s1 s'"
    proof (rule task_moments [OF run1 1 quiet(1) IJ], assumption)
      fix com_buf s2 c2 assume 2: "os_ok s2" "now ?I s2"
        and run2: "task_seq (of_result (decode_commitment com_buf))
        (\<lambda>com. task_seq (read_task S ?K 65) (\<lambda>key_buf. task_seq (of_result (decode_secret key_buf)) (\<lambda>key. task_seq (of_result (Signer_new V key))
        (\<lambda>signer. task_seq (sign_task S V dir signer com) (\<lambda>response. task_seq (write_task S ?G (encode_response response)) (\<lambda>_. give 0)))))) (s2, c2) = Some (r, s', c')"
      show "throughout ?J s2 s'"
      proof (rule task_moments [OF run2 2 quiet(2) IJ], assumption)
        fix com s3 c3 assume 3: "os_ok s3" "now ?I s3"
          and run3: "task_seq (read_task S ?K 65) (\<lambda>key_buf. task_seq (of_result (decode_secret key_buf)) (\<lambda>key. task_seq (of_result (Signer_new V key))
        (\<lambda>signer. task_seq (sign_task S V dir signer com) (\<lambda>response. task_seq (write_task S ?G (encode_response response)) (\<lambda>_. give 0))))) (s3, c3) = Some (r, s', c')"
        show "throughout ?J s3 s'"
        proof (rule task_moments [OF run3 3 quiet(1) IJ], assumption)
          fix b s4 c4 assume 4: "os_ok s4" "now ?I s4" and b: "read_task S ?K 65 (s3, c3) = Some (Inr b, s4, c4)"
            and run4: "task_seq (of_result (decode_secret b)) (\<lambda>key. task_seq (of_result (Signer_new V key))
        (\<lambda>signer. task_seq (sign_task S V dir signer com) (\<lambda>response. task_seq (write_task S ?G (encode_response response)) (\<lambda>_. give 0)))) (s4, c4) = Some (r, s', c')"
          have "Some b \<in> keys_from key n"
            using left_visible [of ?K "keys_from key n" s3] 3(2) read_task_file [OF b] by (simp add: now_def)
          then obtain sk where sk: "encode_secret sk = Inr b" "secret_wf sk" "same_key sk key" "n \<le> unat (sec_next_leaf sk)"
            by (auto simp: keys_from_def)
          then have dec: "decode_secret b = Inr sk" by (simp add: decode_secret_iff)
          show "throughout ?J s4 s'"
          proof (rule task_moments [OF run4 4 quiet(2) IJ], assumption)
            fix k s5 c5 assume 5: "os_ok s5" "now ?I s5" and k: "of_result (decode_secret b) (s4, c4) = Some (Inr k, s5, c5)"
              and run5: "task_seq (of_result (Signer_new V k)) (\<lambda>signer. task_seq (sign_task S V dir signer com)
                (\<lambda>response. task_seq (write_task S ?G (encode_response response)) (\<lambda>_. give 0))) (s5, c5) = Some (r, s', c')"
            have k: "k = sk" using k dec by (simp add: of_result_eq)
            show "throughout ?J s5 s'"
            proof (rule task_moments [OF run5 5 quiet(2) IJ], assumption)
              fix sg s6 c6 assume 6: "os_ok s6" "now ?I s6" and sg: "of_result (Signer_new V k) (s5, c5) = Some (Inr sg, s6, c6)"
                and run6: "task_seq (sign_task S V dir sg com) (\<lambda>response. task_seq (write_task S ?G (encode_response response)) (\<lambda>_. give 0)) (s6, c6) = Some (r, s', c')"
              have "signer_wf V sg" "sg_key sg = sk"
                using Signer_new_wf [of V sk sg] sg k sk(3) key by (simp_all add: of_result_eq same_key_def)
              then show "throughout ?J s6 s'" using release_moments [OF V S 6 _ _ _ run6] sk by simp
            qed
          qed
        qed
      qed
    qed
  qed
qed

end
