(* ===== verification/Vole_Cli_Run.thy ===== *)
theory Vole_Cli_Run
  imports Vole_Cli_Correct
begin

text \<open>
  The commands of the VOLEitH implementation on one directory: key generation never replaces a
  key, and no leaf is released twice over crashes and losses of power.
\<close>

subsection \<open>Key generation\<close>

lemma file_at_None: "file_at d p = None \<longleftrightarrow> entries d p = None"
  by (simp add: file_at_def)

lemma locks_file:
  assumes "locks p s s'" "os_ok s" "q \<noteq> p"
  shows "file_at (visible s') q = file_at (visible s) q"
proof -
  have rep: "replacing (os_next s) p p [] [Create (os_next s) p]" by (rule replacing_unfinished) simp
  from untouched [OF assms(2) survives_refl subset_refl rep assms(3,3)]
  show ?thesis using assms(1) by (auto simp: locks_def grows_def visible_def)
qed

lemma keygen_refuses:
  assumes run: "command_keygen S V dir height (s, c) = Some (r, s', c')" and s: "os_ok s"
    and there: "file_at (visible s) (path_append dir ''signer_key.bin'') \<noteq> None \<or> file_at (visible s) (path_append dir ''signer_pub.bin'') \<noteq> None"
  shows "(\<exists>e. r = Inl e) \<and> c' = c \<and> locks (path_append dir ''signer.lock'') s s'"
proof -
  let ?L = "path_append dir ''signer.lock''" and ?K = "path_append dir ''signer_key.bin''" and ?P = "path_append dir ''signer_pub.bin''"
  obtain m s1 where mk: "create_directories S dir s = (m, s1)" by fastforce
  have g1: "grows [] s s1" using mk by (auto simp: create_directories_def ask_def grows_def)
  obtain l s2 where lock: "Lock S ?L s1 = (l, s2)" by fastforce
  have locks: "locks ?L s s2" using Lock_locks [OF lock] g1 by (auto simp: locks_def grows_def visible_def)
  have same: "entries (visible s2) q = None \<longleftrightarrow> entries (visible s) q = None" if "q \<noteq> ?L" for q
    using locks_file [OF locks s that] file_at_None by metis
  have neq: "?K \<noteq> ?L" "?P \<noteq> ?L" using clear_artifacts(1,13) by (auto simp: clear_of_def)
  obtain x s3 where key: "exists_path S ?K s2 = (x, s3)" by fastforce
  have x: "grows [] s2 s3" "x = Inr k \<Longrightarrow> k = (entries (visible s) ?K \<noteq> None)" for k
    using key same [OF neq(1)] by (auto simp: exists_path_def ask_def grows_def visible_def split: if_splits)
  obtain y s4 where pub: "exists_path S ?P s3 = (y, s4)" by fastforce
  have y: "grows [] s3 s4" "y = Inr k \<Longrightarrow> k = (entries (visible s) ?P \<noteq> None)" for k
    using pub same [OF neq(2)] visible_grows [OF x(1)] by (auto simp: exists_path_def ask_def grows_def visible_def split: if_splits)
  have ends: "locks ?L s s1" "locks ?L s s3" "locks ?L s s4" using g1 locks x(1) y(1) by (auto simp: locks_def grows_def)
  note mono = run [unfolded command_keygen_def task_seq_def with_os_def lock_task_def, simplified, unfolded mk, simplified]
  show ?thesis
  proof (cases m)
    case Inl
    then show ?thesis using mono ends by auto
  next
    case m: Inr
    show ?thesis
    proof (cases l)
      case Inl
      then show ?thesis using mono m lock locks by auto
    next
      case l: Inr
      show ?thesis
      proof (cases x)
        case Inl
        then show ?thesis using mono m l lock key ends by auto
      next
        case xk: (Inr k)
        show ?thesis
        proof (cases k)
          case True
          then show ?thesis using mono m l lock key xk ends by (auto simp: give_def of_result_def)
        next
          case False
          then have "entries (visible s) ?P \<noteq> None" using x(2) [OF xk] there by (simp add: file_at_None)
          then show ?thesis
            using mono m l lock key xk False pub ends y(2) by (cases y) (auto simp: give_def of_result_def)
        qed
      qed
    qed
  qed
qed

lemma keygen_returns:
  assumes "os_ok s"
    and "file_at (visible s) (path_append dir ''signer_key.bin'') \<noteq> None \<or> file_at (visible s) (path_append dir ''signer_pub.bin'') \<noteq> None"
  shows "command_keygen S V dir height (s, c) \<noteq> None"
proof -
  let ?L = "path_append dir ''signer.lock''" and ?K = "path_append dir ''signer_key.bin''" and ?P = "path_append dir ''signer_pub.bin''"
  obtain m s1 where mk: "create_directories S dir s = (m, s1)" by fastforce
  have g1: "grows [] s s1" using mk by (auto simp: create_directories_def ask_def grows_def)
  obtain l s2 where lock: "Lock S ?L s1 = (l, s2)" by fastforce
  have locks: "locks ?L s s2" using Lock_locks [OF lock] g1 by (auto simp: locks_def grows_def visible_def)
  have neq: "?K \<noteq> ?L" "?P \<noteq> ?L" using clear_artifacts(1,13) by (auto simp: clear_of_def)
  have "entries (visible s2) ?K \<noteq> None \<or> entries (visible s2) ?P \<noteq> None"
    using locks_file [OF locks assms(1) neq(1)] locks_file [OF locks assms(1) neq(2)] assms(2) by (simp add: file_at_None [symmetric])
  then show ?thesis
    by (auto simp: command_keygen_def task_seq_def with_os_def lock_task_def mk lock give_def of_result_def exists_path_def ask_def
        split: sum.splits)
qed

subsection \<open>A directory over crashes and losses of power\<close>

text \<open>The signature a step made public: the new content of the file.\<close>

definition newly :: "string \<Rightarrow> disk \<Rightarrow> disk \<Rightarrow> xmss_sig list" where
  "newly g d d' =
     (if file_at d' g = file_at d g then []
      else case file_at d' g of
             None \<Rightarrow> []
           | Some b \<Rightarrow> (case decode_response b of Inl e \<Rightarrow> [] | Inr sig \<Rightarrow> [sig]))"

text \<open>A process killed after \<open>k\<close> of the events of its run.\<close>

definition killed :: "nat \<Rightarrow> os \<Rightarrow> os \<Rightarrow> os" where
  "killed k s s' = s'\<lparr>os_log := take (length (os_log s) + k) (os_log s')\<rparr>"

text \<open>Another program replaces the file at \<open>p\<close>.\<close>

definition deliver :: "string \<Rightarrow> bytes \<Rightarrow> os \<Rightarrow> os" where
  "deliver p b s = s\<lparr>os_log := os_log s @ [Create (os_next s) p, Append (os_next s) b], os_next := os_next s + 1\<rparr>"

definition lose_power :: "event list \<Rightarrow> os \<Rightarrow> os" where
  "lose_power f s = s\<lparr>os_disk := replay f (os_disk s), os_log := []\<rparr>"

text \<open>The arguments after the command name this directory, or do not get as far as a command.\<close>

definition targets :: "string \<Rightarrow> string list \<Rightarrow> bool" where
  "targets dir args \<longleftrightarrow> (\<forall>o'. voptions_of args default_options = Inr (Inr o') \<longrightarrow> vo_dir o' = dir)"

text \<open>
  What can happen to a directory that holds a key: the program runs with any arguments, and is
  killed at some moment or returns; files other than the key are replaced; power is lost. The
  list has the signatures made public.
\<close>

inductive disk_life :: "vole \<Rightarrow> ('g, 'm, 'p, 'r) faest \<Rightarrow> pconfig \<Rightarrow> circuit_lib \<Rightarrow> SecretKey \<Rightarrow> string \<Rightarrow> os \<Rightarrow> xmss_sig list \<Rightarrow> bool"
  for V F C L key dir where
  start: "os_ok s \<Longrightarrow> now (left (path_append dir ''signer_key.bin'') (keys_from key 0)) s \<Longrightarrow> disk_life V F C L key dir s []"
| command: "disk_life V F C L key dir s issued \<Longrightarrow> sys_ok S \<Longrightarrow> targets dir (tl argv) \<Longrightarrow>
    voleith_main S V F C L argv (s, c) = Some (code, s', c') \<Longrightarrow>
    disk_life V F C L key dir (killed k s s') (issued @ newly (path_append dir ''xmss_sig.bin'') (visible s) (visible (killed k s s')))"
| deliver: "disk_life V F C L key dir s issued \<Longrightarrow> p \<noteq> path_append dir ''signer_key.bin'' \<Longrightarrow> disk_life V F C L key dir (deliver p b s) issued"
| power: "disk_life V F C L key dir s issued \<Longrightarrow> survives (os_log s) f \<Longrightarrow> disk_life V F C L key dir (lose_power f s) issued"

lemma killed_moment:
  assumes "throughout J s s'"
  shows "now J (killed k s s')" "os_ok (killed k s s')"
proof -
  obtain es where es: "os_log s' = os_log s @ es" "\<And>k. J (os_disk s) (os_log s @ take k es)" and d: "os_disk s' = os_disk s" "os_ok s'"
    using assms by (auto simp: throughout_def)
  then show "now J (killed k s s')" by (simp add: now_def killed_def)
  show "os_ok (killed k s s')" using d(2) by (auto simp: os_ok_def killed_def dest!: in_set_takeD)
qed

lemma run_command_cases:
  assumes "\<And>e. P (of_result (Inl e))" "\<And>x. P (give x)" "P (command_keygen S V (vo_dir o') (vo_height o'))"
    and "P (command_commit S V (vo_dir o') (vo_message o'))" "P (command_sign S V (vo_dir o'))"
    and "P (command_prove S V F C L (vo_dir o'))" "P (command_verify S V F C (vo_dir o') (vo_message o'))"
  shows "P (run_command S V F C L command o')"
  unfolding run_command_def Let_def using assms by (simp split: if_split)

lemma run_moments:
  assumes V: "vole_ok V" and S: "sys_ok S" and key: "length (sec_seed key) = 32" "length (sec_public_seed key) = 16"
    and s: "os_ok s" "now (left (path_append dir ''signer_key.bin'') (keys_from key n)) s"
    and dir: "vo_dir o' = dir" and run: "run_command S V F C L command o' (s, c) = Some (r, s', c')"
  shows "throughout (\<lambda>d log. left (path_append dir ''signer_key.bin'') (keys_from key n) d log \<and>
    (sees (path_append dir ''xmss_sig.bin'') (file_at (visible s) (path_append dir ''xmss_sig.bin'')) d log \<or>
     released V key n (path_append dir ''signer_key.bin'') (path_append dir ''xmss_sig.bin'') d log)) s s'"
    (is "throughout ?J s s'")
proof -
  let ?K = "path_append dir ''signer_key.bin''" and ?G = "path_append dir ''xmss_sig.bin''"
  let ?I = "\<lambda>d log. left ?K (keys_from key n) d log \<and> sees ?G (file_at (visible s) ?G) d log"
  have old: "now (sees ?G (file_at (visible s) ?G)) s" by (simp add: now_def sees_def visible_def)
  with s(2) have I: "now ?I s" by (simp add: now_def)
  have weak: "throughout ?I s s' \<Longrightarrow> throughout ?J s s'" for s' by (erule throughout_mono) blast
  have keep: "throughout ?J s s'" if "upholds ?I t" "t (s, c) = Some (r, s', c')" for t :: "int task" and r s' c'
    by (rule weak [OF upholdsD [OF that s(1) I]])
  have K: "file_at (visible s) ?K \<noteq> None" using left_visible [OF s(2)] by (auto simp: keys_from_def)
  have "\<forall>r s' c'. t (s, c) = Some (r, s', c') \<longrightarrow> throughout ?J s s'" if "t = run_command S V F C L command o'" for t :: "int task"
    unfolding that
  proof (rule run_command_cases; intro allI impI)
    fix r s' c' assume "command_keygen S V (vo_dir o') (vo_height o') (s, c) = Some (r, s', c')"
    then have "locks (path_append dir ''signer.lock'') s s'" using keygen_refuses [of S V dir "vo_height o'" s c r s' c'] s(1) K dir by simp
    then have "throughout ?I s s'" by (rule signing_files.throughout_locks [OF _ s(1) I]) (use clear_artifacts in simp)
    then show "throughout ?J s s'" by (rule weak)
  next
    fix r s' c' assume "command_sign S V (vo_dir o') (s, c) = Some (r, s', c')"
    then show "throughout ?J s s'" unfolding dir by (rule command_sign_moments [OF V S key s old])
  qed (erule keep [rotated], rule signing_files.upholds_result signing_files.upholds_commit [OF S] signing_files.upholds_prove [OF S] signing_files.upholds_verify,
      (use clear_artifacts dir in simp_all)?)+
  with run show ?thesis by blast
qed

lemma main_moments:
  assumes V: "vole_ok V" and S: "sys_ok S" and key: "length (sec_seed key) = 32" "length (sec_public_seed key) = 16"
    and s: "os_ok s" "now (left (path_append dir ''signer_key.bin'') (keys_from key n)) s"
    and dir: "targets dir (tl argv)" and run: "voleith_main S V F C L argv (s, c) = Some (code, s', c')"
  shows "throughout (\<lambda>d log. left (path_append dir ''signer_key.bin'') (keys_from key n) d log \<and>
    (sees (path_append dir ''xmss_sig.bin'') (file_at (visible s) (path_append dir ''xmss_sig.bin'')) d log \<or>
     released V key n (path_append dir ''signer_key.bin'') (path_append dir ''xmss_sig.bin'') d log)) s s'"
    (is "throughout ?J s s'")
proof -
  have "now ?J s" using s(2) by (simp add: now_def sees_def visible_def)
  then have idle: "throughout ?J s s" by (rule throughout_refl [OF s(1)])
  show ?thesis
  proof (cases argv)
    case Nil
    then show ?thesis using run idle by (simp add: voleith_main_def)
  next
    case (Cons command args)
    consider (stop) "s' = s" | (go) o' r where "voptions_of args default_options = Inr (Inr o')" "run_command S V F C L command o' (s, c) = Some (r, s', c')"
    proof (cases "voptions_of args default_options")
      case (Inr x)
      show ?thesis
      proof (cases x)
        case o': (Inr o')
        show ?thesis
        proof (cases "command = ''--help'' \<or> command = ''-h''")
          case False
          then obtain r where "run_command S V F C L command o' (s, c) = Some (r, s', c')"
            using run Inr o' by (auto simp: Cons voleith_main_def)
          then show ?thesis using go Inr o' by simp
        qed (use run stop Inr o' in \<open>simp add: Cons voleith_main_def\<close>)
      qed (use run stop Inr in \<open>simp add: Cons voleith_main_def\<close>)
    qed (use run stop in \<open>simp add: Cons voleith_main_def\<close>)
    then show ?thesis
    proof cases
      case stop
      then show ?thesis using idle by simp
    next
      case go
      then show ?thesis using run_moments [OF V S key s _ go(2)] dir by (simp add: targets_def Cons)
    qed
  qed
qed

definition public_ok :: "vole \<Rightarrow> SecretKey \<Rightarrow> nat \<Rightarrow> xmss_sig list \<Rightarrow> bool" where
  "public_ok V key n issued \<longleftrightarrow> sorted_wrt (<) (map (unat \<circ> xs_leaf_index) issued) \<and>
     (\<forall>sig\<in>set issued. unat (xs_leaf_index sig) < n \<and> (\<exists>com. v_xmss_verify V (sec_public_seed key) (key_root V key) (v_hm_digest V com) sig))"

lemma disk_life_inv:
  assumes "disk_life V F C L key dir s issued" "vole_ok V" "length (sec_seed key) = 32" "length (sec_public_seed key) = 16"
  shows "os_ok s \<and> (\<exists>n. now (left (path_append dir ''signer_key.bin'') (keys_from key n)) s \<and> public_ok V key n issued)"
  using assms(1)
proof induction
  case (start s)
  then show ?case by (auto simp: public_ok_def)
next
  case (command s issued S argv c code s' c' k)
  let ?K = "path_append dir ''signer_key.bin''" and ?G = "path_append dir ''xmss_sig.bin''"
  obtain n where n: "os_ok s" "now (left ?K (keys_from key n)) s" "public_ok V key n issued" using command.IH by blast
  note m = killed_moment [OF main_moments [OF assms(2) command.hyps(2) assms(3,4) n(1,2) command.hyps(3,4)], of k]
  let ?s = "killed k s s'"
  from m(1) consider (same) "file_at (visible ?s) ?G = file_at (visible s) ?G" | (new) "released V key n ?K ?G (os_disk ?s) (os_log ?s)"
    by (auto simp: now_def sees_def visible_def)
  then show ?case
  proof cases
    case same
    then show ?thesis using m n(3) by (auto simp: newly_def now_def)
  next
    case new
    then obtain sig com where sig: "file_at (visible ?s) ?G = Some (encode_response sig)" "sig_wf sig" "n \<le> unat (xs_leaf_index sig)"
        "v_xmss_verify V (sec_public_seed key) (key_root V key) (v_hm_digest V com) sig"
        "now (left ?K (keys_from key (Suc (unat (xs_leaf_index sig))))) ?s"
      by (auto simp: released_def sees_def visible_def now_def)
    have "decode_response (encode_response sig) = Inr sig" using sig(2) by (simp add: decode_response_iff)
    then have "newly ?G (visible s) (visible ?s) = [] \<or> newly ?G (visible s) (visible ?s) = [sig]" by (simp add: newly_def sig(1))
    moreover have "public_ok V key (Suc (unat (xs_leaf_index sig))) (issued @ [sig])" "public_ok V key (Suc (unat (xs_leaf_index sig))) issued"
      using n(3) sig(3,4) by (auto simp: public_ok_def sorted_wrt_append less_Suc_eq_le intro: order.strict_trans2)
    ultimately show ?thesis using m(2) sig(5) by fastforce
  qed
next
  case (deliver s issued p b)
  let ?K = "path_append dir ''signer_key.bin''"
  obtain n where n: "os_ok s" "now (left ?K (keys_from key n)) s" "public_ok V key n issued" using deliver.IH by blast
  have "os_ok (deliver p b s)" using n(1) by (auto simp: os_ok_def deliver_def less_Suc_eq)
  moreover have "now (left ?K (keys_from key n)) (deliver p b s)"
    unfolding now_def left_def
  proof (intro allI impI)
    fix fs assume "survives (os_log (deliver p b s)) fs"
    then have "survives (os_log s @ [Create (os_next s) p, Append (os_next s) b]) fs" by (simp add: deliver_def)
    then obtain f g where fs: "fs = f @ g" "survives (os_log s) f" "survives [Create (os_next s) p, Append (os_next s) b] g"
      using survives_append by blast
    have rep: "replacing (os_next s) p p [] [Create (os_next s) p, Append (os_next s) b]" by (rule replacing_unfinished) auto
    have "file_at (replay fs (os_disk s)) ?K = file_at (replay f (os_disk s)) ?K"
      unfolding fs(1) using untouched [OF n(1) fs(2) survives_subset [OF fs(3)] rep] deliver.hyps(2) by auto
    then show "file_at (replay fs (os_disk (deliver p b s))) ?K \<in> keys_from key n"
      using n(2) fs(2) by (simp add: deliver_def now_def left_def)
  qed
  ultimately show ?case using n(3) by blast
next
  case (power s issued f)
  let ?K = "path_append dir ''signer_key.bin''"
  obtain n where n: "os_ok s" "now (left ?K (keys_from key n)) s" "public_ok V key n issued" using power.IH by blast
  have "os_ok (lose_power f s)"
    using n(1) entry_below [OF n(1) power.hyps(2)] unfolding os_ok_def lose_power_def
    by (auto simp: contents_replay intro!: appended_none dest!: subsetD [OF survives_subset [OF power.hyps(2)]])
  moreover have "now (left ?K (keys_from key n)) (lose_power f s)"
    using n(2) power.hyps(2) by (auto simp: now_def left_def lose_power_def)
  ultimately show ?case using n(3) by blast
qed

end
