(* ===== verification/Vole_Cli_Commands.thy ===== *)
theory Vole_Cli_Commands
  imports Vole_Cli_Run
begin

text \<open>
  The five commands in sequence on one directory: what a command that exits with 0 leaves there,
  that \<open>verify\<close> then accepts, and what each command does in a process in which no call fails.
\<close>

subsection \<open>Commands that succeed\<close>

lemma task_seq_Inr: "task_seq t f m = Some (Inr y, m') \<longleftrightarrow> (\<exists>x m1. t m = Some (Inr x, m1) \<and> f x m1 = Some (Inr y, m'))"
  by (auto simp: task_seq_def split: option.splits sum.splits)

text \<open>From \<open>s\<close> to \<open>s'\<close> every file that is clear of \<open>ps\<close> is kept.\<close>

definition keeps_files :: "string list \<Rightarrow> os \<Rightarrow> os \<Rightarrow> bool" where
  "keeps_files ps s s' \<longleftrightarrow> os_ok s' \<and> (\<forall>q. (\<forall>p\<in>set ps. clear_of q p) \<longrightarrow> file_at (visible s') q = file_at (visible s) q)"

lemma keeps_files_trans: "keeps_files ps s s1 \<Longrightarrow> keeps_files qs s1 s2 \<Longrightarrow> set ps \<union> set qs \<subseteq> set rs \<Longrightarrow> keeps_files rs s s2"
  unfolding keeps_files_def by (metis Un_iff subsetD)

lemma keeps_filesD: "keeps_files ps s s' \<Longrightarrow> (\<And>p. p \<in> set ps \<Longrightarrow> clear_of q p) \<Longrightarrow> file_at (visible s') q = file_at (visible s) q"
  by (simp add: keeps_files_def)

lemma grows_keeps: "grows [] s s' \<Longrightarrow> os_ok s \<Longrightarrow> keeps_files ps s s'"
  by (auto simp: keeps_files_def grows_def visible_def os_ok_def)

lemma write_task_done:
  assumes "write_task S p b (s, c) = Some (Inr x, s', c')" "os_ok s" "sys_ok S"
  shows "c' = c \<and> file_at (visible s') p = Some b \<and> keeps_files [p] s s'"
proof -
  have w: "write_path S p b s = Some (Inr (), s')" and c: "c' = c" using assms(1) by (auto simp: write_task_def with_os_def)
  have p: "file_at (visible s') p = Some b"
    using left_visible [OF write_own(2) [OF w assms(2,3), of UNIV]] by (simp add: now_def left_def)
  have "file_at (visible s') q = file_at (visible s) q \<and> os_ok s'" if "clear_of q p" for q
  proof -
    have old: "now (sees q (file_at (visible s) q)) s" by (simp add: now_def sees_def visible_def)
    have "throughout (sees q (file_at (visible s) q)) s s'"
      by (rule throughout_write [OF w assms(2,3) old], rule sees_other [OF assms(2) that old]) auto
    from throughout_end [OF this] show ?thesis by (simp add: now_def sees_def visible_def)
  qed
  moreover have "clear_of (p @ ''x'') p" by (simp add: clear_of_def temp_of_def)
  ultimately show ?thesis using c p by (auto simp: keeps_files_def)
qed

lemma read_task_done:
  assumes "read_task S p n (s, c) = Some (r, s', c')" "os_ok s"
  shows "c' = c \<and> keeps_files [] s s' \<and> (\<forall>b. r = Inr b \<longrightarrow> file_at (visible s) p = Some b)"
proof -
  have "read_path S p n s = (r, s')" "c' = c" using assms(1) by (auto simp: read_task_def with_os_def split: prod.splits)
  then show ?thesis using grows_keeps [OF grows_read assms(2)] read_task_file assms(1) by blast
qed

lemma lock_task_done:
  assumes "lock_task S dir (s, c) = Some (r, s', c')" "os_ok s"
  shows "c' = c \<and> keeps_files [path_append dir ''signer.lock''] s s'"
proof -
  let ?p = "path_append dir ''signer.lock''"
  have l: "Lock S ?p s = (r, s')" "c' = c" using assms(1) by (cases "Lock S ?p s", auto simp: lock_task_def with_os_def)+
  note locks = Lock_locks [OF l(1)]
  have "os_ok s'" using locks assms(2) by (auto simp: locks_def grows_def os_ok_def less_Suc_eq)
  then show ?thesis using locks_file [OF locks assms(2)] l(2) by (simp add: keeps_files_def clear_of_def)
qed

lemma mkdirs_done: "with_os (\<lambda>s. Some (create_directories S dir s)) (s, c) = Some (r, s', c') \<Longrightarrow> os_ok s \<Longrightarrow> c' = c \<and> keeps_files [] s s'"
  by (auto simp: with_os_def create_directories_def ask_def intro!: grows_keeps)

lemma exists_done: "with_os (\<lambda>s. Some (exists_path S p s)) (s, c) = Some (r, s', c') \<Longrightarrow> os_ok s \<Longrightarrow> c' = c \<and> keeps_files [] s s'"
  by (auto simp: with_os_def exists_path_def ask_def intro!: grows_keeps)

definition artifacts :: "string \<Rightarrow> string list" where
  "artifacts dir = map (path_append dir) [''signer.lock'', ''signer_key.bin'', ''signer_pub.bin'', ''user_state.bin'', ''commitment.bin'', ''xmss_sig.bin'', ''blind_sig.bin'']"

lemma with_rng_Inr: "with_rng f (s, c) = Some (Inr x, m) \<longleftrightarrow> (\<exists>c'. m = (s, c') \<and> f c = (Inr x, c'))"
  by (cases "f c") (auto simp: with_rng_def)

lemma keygen_done:
  assumes "command_keygen S V dir height (s, c) = Some (Inr code, s', c')" "os_ok s" "sys_ok S"
  shows "\<exists>sg b. Signer_generate V height c = (Inr sg, c') \<and> encode_secret (secret_key sg) = Inr b \<and>
    file_at (visible s') (path_append dir ''signer_key.bin'') = Some b \<and>
    file_at (visible s') (path_append dir ''signer_pub.bin'') = Some (encode_public (public_key sg)) \<and> keeps_files (artifacts dir) s s'"
proof -
  let ?K = "path_append dir ''signer_key.bin''" and ?P = "path_append dir ''signer_pub.bin''" and ?L = "path_append dir ''signer.lock''"
  obtain u s1 c1 l s2 c2 k s3 c3 where
      1: "with_os (\<lambda>s. Some (create_directories S dir s)) (s, c) = Some (Inr u, s1, c1)"
    and 2: "lock_task S dir (s1, c1) = Some (Inr l, s2, c2)"
    and 3: "with_os (\<lambda>s. Some (exists_path S ?K s)) (s2, c2) = Some (Inr k, s3, c3)"
    and run3: "task_seq (if k then give True else with_os (\<lambda>s. Some (exists_path S ?P s))) (\<lambda>there. if there then of_result (Inl (Runtime_error ''key artifacts already exist; choose a new directory''))
        else task_seq (with_rng (Signer_generate V height)) (\<lambda>signer. task_seq (of_result (encode_secret (secret_key signer)))
          (\<lambda>key. task_seq (write_task S ?K key) (\<lambda>_. task_seq (write_task S ?P (encode_public (public_key signer))) (\<lambda>_. give 0))))) (s3, c3) = Some (Inr code, s', c')"
    using assms(1) by (auto simp: command_keygen_def task_seq_Inr)
  obtain there s4 c4 where 4: "(if k then give True else with_os (\<lambda>s. Some (exists_path S ?P s))) (s3, c3) = Some (Inr there, s4, c4)" and "\<not> there"
    and run4: "task_seq (with_rng (Signer_generate V height)) (\<lambda>signer. task_seq (of_result (encode_secret (secret_key signer)))
          (\<lambda>key. task_seq (write_task S ?K key) (\<lambda>_. task_seq (write_task S ?P (encode_public (public_key signer))) (\<lambda>_. give 0)))) (s4, c4) = Some (Inr code, s', c')"
    using run3 by (auto simp: task_seq_Inr of_result_def split: if_splits)
  have "\<not> k" using 4 \<open>\<not> there\<close> by (auto simp: give_def)
  then have 4: "with_os (\<lambda>s. Some (exists_path S ?P s)) (s3, c3) = Some (Inr there, s4, c4)" using 4 by simp
  obtain sg c5 b s6 u6 u7 c6 where 5: "Signer_generate V height c4 = (Inr sg, c5)" "encode_secret (secret_key sg) = Inr b"
    and 6: "write_task S ?K b (s4, c5) = Some (Inr u6, s6, c6)" and 7: "write_task S ?P (encode_public (public_key sg)) (s6, c6) = Some (Inr u7, s', c')"
    using run4 by (auto simp: task_seq_Inr with_rng_Inr of_result_def give_def)
  note d1 = mkdirs_done [OF 1 assms(2)]
  note d2 = lock_task_done [OF 2] note d3 = exists_done [OF 3] note d4 = exists_done [OF 4]
  note d6 = write_task_done [OF 6 _ assms(3)] note d7 = write_task_done [OF 7 _ assms(3)]
  have ok: "os_ok s1" "os_ok s2" "os_ok s3" "os_ok s4" "os_ok s6" using d1 d2 d3 d4 d6 unfolding keeps_files_def by blast+
  have c: "c1 = c" "c2 = c" "c3 = c" "c4 = c" "c6 = c5" "c' = c5" using d1 d2 [OF ok(1)] d3 [OF ok(2)] d4 [OF ok(3)] d6 [OF ok(4)] d7 [OF ok(5)] by simp_all
  have all: "set [] \<union> set [?L] \<subseteq> set [?L]" "set [?L] \<union> set [] \<subseteq> set [?L]" "set [?L] \<union> set [?K] \<subseteq> set [?L, ?K]" "set [?L, ?K] \<union> set [?P] \<subseteq> set (artifacts dir)"
    by (simp_all add: artifacts_def)
  have "keeps_files [?L] s s2" using keeps_files_trans [OF _ _ all(1)] d1 d2 [OF ok(1)] by blast
  then have "keeps_files [?L] s s4" using keeps_files_trans [OF _ _ all(2)] d3 [OF ok(2)] d4 [OF ok(3)] by blast
  then have "keeps_files (artifacts dir) s s'" using keeps_files_trans [OF _ _ all(3)] keeps_files_trans [OF _ _ all(4)] d6 [OF ok(4)] d7 [OF ok(5)] by blast
  moreover have "file_at (visible s') ?K = Some b"
    using keeps_filesD [of "[?P]" s6 s' ?K] d7 [OF ok(5)] d6 [OF ok(4)] clear_artifacts by simp
  ultimately show ?thesis using 5 c d7 [OF ok(5)] by auto
qed

lemma commit_done:
  assumes "command_commit S V dir message (s, c) = Some (Inr code, s', c')" "os_ok s" "sys_ok S"
  shows "\<exists>m st. file_at (visible s) message = Some m \<and> user_commit V m c = (Inr st, c') \<and>
    file_at (visible s') (path_append dir ''user_state.bin'') = Some (encode_state st) \<and>
    file_at (visible s') (path_append dir ''commitment.bin'') = Some (encode_commitment (st_commitment st)) \<and>
    keeps_files (map (path_append dir) [''user_state.bin'', ''commitment.bin'']) s s'"
proof -
  let ?U = "path_append dir ''user_state.bin''" and ?C = "path_append dir ''commitment.bin''"
  obtain u s1 c1 m s2 c2 st c3 u4 s4 c4 u5 where
      1: "with_os (\<lambda>s. Some (create_directories S dir s)) (s, c) = Some (Inr u, s1, c1)"
    and 2: "read_task S message SIZE_MAX (s1, c1) = Some (Inr m, s2, c2)" and 3: "user_commit V m c2 = (Inr st, c3)"
    and 4: "write_task S ?U (encode_state st) (s2, c3) = Some (Inr u4, s4, c4)"
    and 5: "write_task S ?C (encode_commitment (st_commitment st)) (s4, c4) = Some (Inr u5, s', c')"
    using assms(1) by (auto simp: command_commit_def task_seq_Inr with_rng_Inr give_def)
  note d1 = mkdirs_done [OF 1 assms(2)] note d2 = read_task_done [OF 2]
  note d4 = write_task_done [OF 4 _ assms(3)] note d5 = write_task_done [OF 5 _ assms(3)]
  have ok: "os_ok s1" "os_ok s2" "os_ok s4" using d1 d2 d4 unfolding keeps_files_def by blast+
  have m: "file_at (visible s) message = Some m" using d2 [OF ok(1)] d1 by (simp add: keeps_files_def)
  have all: "set [] \<union> set [?U] \<subseteq> set [?U]" "set [?U] \<union> set [?C] \<subseteq> set (map (path_append dir) [''user_state.bin'', ''commitment.bin''])"
    "set [] \<union> set [] \<subseteq> set ([] :: string list)" by simp_all
  have "keeps_files [] s s2" using keeps_files_trans [OF _ _ all(3)] d1 d2 [OF ok(1)] by blast
  then have "keeps_files [?U] s s4" using keeps_files_trans [OF _ _ all(1)] d4 [OF ok(2)] by blast
  then have "keeps_files (map (path_append dir) [''user_state.bin'', ''commitment.bin'']) s s'" using keeps_files_trans [OF _ _ all(2)] d5 [OF ok(3)] by blast
  moreover have "clear_of ?U ?C" unfolding clear_append by (simp add: temp_of_def)
  then have "file_at (visible s') ?U = Some (encode_state st)" using keeps_filesD [of "[?C]" s4 s' ?U] d5 [OF ok(3)] d4 [OF ok(2)] by simp
  ultimately show ?thesis using m 3 d1 d2 [OF ok(1)] d4 [OF ok(2)] d5 [OF ok(3)] by auto
qed

lemma sign_task_done:
  assumes run: "sign_task S V dir sg com (s, c) = Some (Inr sig, s', c')" and s: "os_ok s" "sys_ok S" and key: "secret_wf (sg_key sg)"
  shows "keeps_files [path_append dir ''signer_key.bin''] s s' \<and>
    (\<exists>tree. v_xmss_keypair_sign V (sg_tree sg) (ucast (sec_next_leaf (sg_key sg))) (v_hm_digest V com) c = Some (tree, Some sig, c'))"
proof -
  let ?K = "path_append dir ''signer_key.bin''"
  obtain sg' where sign: "Signer_sign V sg com (Some (persist_key S dir)) (Some s, c) = Some (Inr sig, sg', Some s', c')"
    using run by (auto simp: sign_task_def split: option.splits prod.splits)
  have no: "\<not> exhausted_key (sg_key sg)"
    using sign sign_exhausted [of sg V com "Some (persist_key S dir)" "Some s" c] by auto
  note res = sign_reserves [OF sign no]
  have "secret_wf (reserve (sg_key sg))" using key reserve_key(4) [OF _ no] by (simp add: secret_wf_def)
  then obtain b where b: "encode_secret (reserve (sg_key sg)) = Inr b" using encode_secret_bytes by blast
  have none: "fst (persist_key S dir (reserve (sg_key sg)) (Some s)) = None" and xs: "v_xmss_keypair_sign V (sg_tree sg) (ucast (sec_next_leaf (sg_key sg))) (v_hm_digest V com) c = Some (sg_tree sg', Some sig, c')"
    using res(3) [OF refl] by simp_all
  obtain w where w: "write_path S ?K b s = Some (w, s')" "w = Inr () \<longleftrightarrow> fst (persist_key S dir (reserve (sg_key sg)) (Some s)) = None"
    by (rule persist_key_writes [OF b res(2) [unfolded persisted_def option.case, symmetric]])
  have "write_task S ?K b (s, c) = Some (Inr (), s', c)" using w none by (simp add: write_task_def with_os_def)
  from write_task_done [OF this s] xs show ?thesis by blast
qed

lemma sign_done:
  assumes "command_sign S V dir (s, c) = Some (Inr code, s', c')" "os_ok s" "sys_ok S"
  shows "\<exists>cb com kb key sg tree sig. file_at (visible s) (path_append dir ''commitment.bin'') = Some cb \<and> decode_commitment cb = Inr com \<and>
    file_at (visible s) (path_append dir ''signer_key.bin'') = Some kb \<and> decode_secret kb = Inr key \<and> Signer_new V key = Inr sg \<and>
    v_xmss_keypair_sign V (sg_tree sg) (ucast (sec_next_leaf key)) (v_hm_digest V com) c = Some (tree, Some sig, c') \<and>
    file_at (visible s') (path_append dir ''xmss_sig.bin'') = Some (encode_response sig) \<and>
    keeps_files (map (path_append dir) [''signer.lock'', ''signer_key.bin'', ''xmss_sig.bin'']) s s'"
proof -
  let ?K = "path_append dir ''signer_key.bin''" and ?C = "path_append dir ''commitment.bin''" and ?L = "path_append dir ''signer.lock''"
    and ?G = "path_append dir ''xmss_sig.bin''"
  obtain u s1 c1 cb s2 c2 com kb s3 c3 key sg sig s4 c4 u5 where 1: "lock_task S dir (s, c) = Some (Inr u, s1, c1)"
    and 2: "read_task S ?C 264 (s1, c1) = Some (Inr cb, s2, c2)" "decode_commitment cb = Inr com"
    and 3: "read_task S ?K 65 (s2, c2) = Some (Inr kb, s3, c3)" "decode_secret kb = Inr key" "Signer_new V key = Inr sg"
    and 4: "sign_task S V dir sg com (s3, c3) = Some (Inr sig, s4, c4)"
    and 5: "write_task S ?G (encode_response sig) (s4, c4) = Some (Inr u5, s', c')"
    using assms(1) by (auto simp: command_sign_def task_seq_Inr of_result_def give_def)
  note d1 = lock_task_done [OF 1 assms(2)] note d2 = read_task_done [OF 2(1)] note d3 = read_task_done [OF 3(1)]
  have wf: "secret_wf key" using 3(2) by (simp add: decode_secret_iff)
  have sg: "sg_key sg = key" using Signer_new_wf(2) [OF 3(3)] wf by (simp add: secret_wf_def)
  note d4 = sign_task_done [OF 4 _ assms(3), unfolded sg, OF _ wf] note d5 = write_task_done [OF 5 _ assms(3)]
  have ok: "os_ok s1" "os_ok s2" "os_ok s3" using d1 d2 d3 unfolding keeps_files_def by blast+
  have ok4: "os_ok s4" using d4 [OF ok(3)] by (simp add: keeps_files_def)
  have all: "set [?L] \<union> set [] \<subseteq> set [?L]" "set [?L] \<union> set [?K] \<subseteq> set [?L, ?K]"
    "set [?L, ?K] \<union> set [?G] \<subseteq> set (map (path_append dir) [''signer.lock'', ''signer_key.bin'', ''xmss_sig.bin''])" by simp_all
  have 12: "keeps_files [?L] s s2" using keeps_files_trans [OF _ _ all(1)] d1 d2 [OF ok(1)] by blast
  then have "keeps_files [?L] s s3" using keeps_files_trans [OF _ _ all(1)] d3 [OF ok(2)] by blast
  then have "keeps_files [?L, ?K] s s4" using keeps_files_trans [OF _ _ all(2)] d4 [OF ok(3)] by blast
  then have "keeps_files (map (path_append dir) [''signer.lock'', ''signer_key.bin'', ''xmss_sig.bin'']) s s'"
    using keeps_files_trans [OF _ _ all(3)] d5 [OF ok4] by blast
  moreover have "clear_of ?C ?L" unfolding clear_append by (simp add: temp_of_def)
  then have "file_at (visible s) ?C = Some cb" using keeps_filesD [of "[?L]" s s1 ?C] d1 d2 [OF ok(1)] by simp
  moreover have "file_at (visible s) ?K = Some kb" using keeps_filesD [OF 12, of ?K] d3 [OF ok(2)] clear_artifacts by simp
  ultimately show ?thesis using 2 3 d1 d2 [OF ok(1)] d3 [OF ok(2)] d4 [OF ok(3)] d5 [OF ok4] by auto
qed

lemma prove_done:
  assumes "command_prove S V F C L dir (s, c) = Some (Inr code, s', c')" "os_ok s" "sys_ok S"
  shows "\<exists>pb pk ub st gb sig bs. file_at (visible s) (path_append dir ''signer_pub.bin'') = Some pb \<and> decode_public pb = Inr pk \<and>
    file_at (visible s) (path_append dir ''user_state.bin'') = Some ub \<and> decode_state ub = Inr st \<and>
    file_at (visible s) (path_append dir ''xmss_sig.bin'') = Some gb \<and> decode_response gb = Inr sig \<and>
    unblind V F C L st pk sig c = (Inr bs, c') \<and> file_at (visible s') (path_append dir ''blind_sig.bin'') = Some bs \<and>
    keeps_files [path_append dir ''blind_sig.bin''] s s'"
proof -
  let ?P = "path_append dir ''signer_pub.bin''" and ?U = "path_append dir ''user_state.bin''" and ?G = "path_append dir ''xmss_sig.bin''"
    and ?B = "path_append dir ''blind_sig.bin''"
  obtain pb s1 c1 pk ub s2 c2 st gb s3 c3 sig bs c4 u5 where 1: "read_task S ?P 40 (s, c) = Some (Inr pb, s1, c1)" "decode_public pb = Inr pk"
    and 2: "read_task S ?U 392 (s1, c1) = Some (Inr ub, s2, c2)" "decode_state ub = Inr st"
    and 3: "read_task S ?G (8 + XMSS_SIG_BYTES) (s2, c2) = Some (Inr gb, s3, c3)" "decode_response gb = Inr sig"
    and 4: "unblind V F C L st pk sig c3 = (Inr bs, c4)" and 5: "write_task S ?B bs (s3, c4) = Some (Inr u5, s', c')"
    using assms(1) by (auto simp: command_prove_def task_seq_Inr with_rng_Inr of_result_def give_def)
  note d1 = read_task_done [OF 1(1) assms(2)] note d2 = read_task_done [OF 2(1)] note d3 = read_task_done [OF 3(1)]
  note d5 = write_task_done [OF 5 _ assms(3)]
  have ok: "os_ok s1" "os_ok s2" "os_ok s3" using d1 d2 d3 unfolding keeps_files_def by blast+
  have all: "set [] \<union> set [] \<subseteq> set ([] :: string list)" "set [] \<union> set [?B] \<subseteq> set [?B]" by simp_all
  have k1: "keeps_files [] s s1" and k2: "keeps_files [] s s2" using keeps_files_trans [OF _ _ all(1)] d1 d2 [OF ok(1)] by blast+
  have "keeps_files [] s s3" using keeps_files_trans [OF k2 _ all(1)] d3 [OF ok(2)] by blast
  then have "keeps_files [?B] s s'" using keeps_files_trans [OF _ _ all(2)] d5 [OF ok(3)] by blast
  moreover have "file_at (visible s) ?U = Some ub" "file_at (visible s) ?G = Some gb"
    using keeps_filesD [OF k1, of ?U] keeps_filesD [OF k2, of ?G] d2 [OF ok(1)] d3 [OF ok(2)] by simp_all
  ultimately show ?thesis using 1 2 3 4 d1 d2 [OF ok(1)] d3 [OF ok(2)] d5 [OF ok(3)] by auto
qed

subsection \<open>The five commands\<close>

lemma generate_wf:
  assumes V: "vole_ok V" and gen: "Signer_generate V height c = (Inr sg, c')"
  shows "signer_wf V sg" "Signer_new V (secret_key sg) = Inr sg"
proof -
  obtain seed c1 pub where d: "random V 32 c = (Inr seed, c1)" "random V 16 c1 = (Inr pub, c')"
    and new: "Signer_new V \<lparr>sec_seed = seed, sec_public_seed = pub, sec_height = of_int height, sec_next_leaf = 0\<rparr> = Inr sg"
    using gen by (auto simp: Signer_generate_def split: prod.splits sum.splits if_splits)
  have "length seed = 32" "length pub = 16"
    using d length_random_bytes [OF kkw_view_ok [OF V]] by (auto simp: random_def v_random_bytes_view split: prod.splits option.splits)
  then show "signer_wf V sg" "Signer_new V (secret_key sg) = Inr sg" using Signer_new_wf [OF new] new by (simp_all add: secret_key_def)
qed

lemma message_clear:
  assumes "\<And>p. p \<in> set (artifacts dir) \<Longrightarrow> clear_of q p" "set ps \<subseteq> set (artifacts dir)" "keeps_files ps s s'"
  shows "file_at (visible s') q = file_at (visible s) q"
  using assms(1,2) by (intro keeps_filesD [OF assms(3)]) blast

text \<open>What is in the directory after \<open>keygen\<close> and \<open>commit\<close>.\<close>

definition committed :: "vole \<Rightarrow> string \<Rightarrow> string \<Rightarrow> Signer \<Rightarrow> bytes \<Rightarrow> UserState \<Rightarrow> os \<Rightarrow> bool" where
  "committed V dir message sg m st s \<longleftrightarrow> os_ok s \<and> signer_wf V sg \<and> Signer_new V (secret_key sg) = Inr sg \<and>
     (\<exists>b. encode_secret (secret_key sg) = Inr b \<and> file_at (visible s) (path_append dir ''signer_key.bin'') = Some b) \<and>
     file_at (visible s) (path_append dir ''signer_pub.bin'') = Some (encode_public (public_key sg)) \<and> file_at (visible s) message = Some m \<and>
     (\<exists>c c'. user_commit V m c = (Inr st, c')) \<and> file_at (visible s) (path_append dir ''user_state.bin'') = Some (encode_state st) \<and>
     file_at (visible s) (path_append dir ''commitment.bin'') = Some (encode_commitment (st_commitment st))"

lemma after_commit:
  assumes V: "vole_ok V" and sys: "sys_ok Sk" "sys_ok Sc" and s: "os_ok s0"
    and message: "\<And>p. p \<in> set (artifacts dir) \<Longrightarrow> clear_of message p" "file_at (visible s0) message = Some m"
    and keygen: "command_keygen Sk V dir height (s0, c0) = Some (Inr code0, s1, c0')"
    and commit: "command_commit Sc V dir message (s1, c1) = Some (Inr code1, s2, c1')"
  shows "\<exists>sg st. Signer_generate V height c0 = (Inr sg, c0') \<and> user_commit V m c1 = (Inr st, c1') \<and> committed V dir message sg m st s2"
proof -
  let ?K = "path_append dir ''signer_key.bin''" and ?P = "path_append dir ''signer_pub.bin''" and ?U = "path_append dir ''user_state.bin''"
    and ?C = "path_append dir ''commitment.bin''"
  obtain sg b where g: "Signer_generate V height c0 = (Inr sg, c0')" "encode_secret (secret_key sg) = Inr b" "file_at (visible s1) ?K = Some b"
      "file_at (visible s1) ?P = Some (encode_public (public_key sg))" "keeps_files (artifacts dir) s0 s1"
    using keygen_done [OF keygen s sys(1)] by blast
  have ok1: "os_ok s1" using g(5) by (simp add: keeps_files_def)
  have m1: "file_at (visible s1) message = Some m" using message_clear [OF message(1) subset_refl g(5)] message(2) by simp
  obtain st where u: "user_commit V m c1 = (Inr st, c1')" "file_at (visible s2) ?U = Some (encode_state st)"
      "file_at (visible s2) ?C = Some (encode_commitment (st_commitment st))" "keeps_files (map (path_append dir) [''user_state.bin'', ''commitment.bin'']) s1 s2"
    using commit_done [OF commit ok1 sys(2)] m1 by auto
  have clears: "clear_of ?P ?U" "clear_of ?P ?C" unfolding clear_append by (simp_all add: temp_of_def)
  have "file_at (visible s2) ?K = Some b" using keeps_filesD [OF u(4), of ?K] g(3) clear_artifacts by fastforce
  moreover have "file_at (visible s2) ?P = Some (encode_public (public_key sg))" using keeps_filesD [OF u(4), of ?P] g(4) clears by fastforce
  moreover have "file_at (visible s2) message = Some m" using message_clear [OF message(1) _ u(4)] m1 by (simp add: artifacts_def)
  ultimately have "committed V dir message sg m st s2"
    using g(2) u generate_wf [OF V g(1)] unfolding committed_def keeps_files_def by blast
  with g(1) u(1) show ?thesis by blast
qed

definition signed :: "vole \<Rightarrow> string \<Rightarrow> string \<Rightarrow> Signer \<Rightarrow> bytes \<Rightarrow> UserState \<Rightarrow> xmss_sig \<Rightarrow> os \<Rightarrow> bool" where
  "signed V dir message sg m st sig s \<longleftrightarrow> os_ok s \<and> public_wf (public_key sg) \<and> state_wf st \<and> sig_wf sig \<and> st_digest st = message_digest V m \<and>
     response_ok V st (public_key sg) sig \<and> file_at (visible s) (path_append dir ''signer_pub.bin'') = Some (encode_public (public_key sg)) \<and>
     file_at (visible s) message = Some m \<and> file_at (visible s) (path_append dir ''user_state.bin'') = Some (encode_state st) \<and>
     file_at (visible s) (path_append dir ''xmss_sig.bin'') = Some (encode_response sig)"

text \<open>The key and the commitment \<open>sign\<close> reads.\<close>

lemma committed_reads:
  assumes V: "vole_ok V" and com: "committed V dir message sg m st s"
  shows "\<exists>b. file_at (visible s) (path_append dir ''signer_key.bin'') = Some b \<and> decode_secret b = Inr (sg_key sg)"
    "decode_commitment (encode_commitment (st_commitment st)) = Inr (st_commitment st)" "Signer_new V (sg_key sg) = Inr sg"
proof -
  note c = com [unfolded committed_def]
  have "secret_wf (secret_key sg)" using c by (simp add: signer_wf_def secret_key_def)
  then show "\<exists>b. file_at (visible s) (path_append dir ''signer_key.bin'') = Some b \<and> decode_secret b = Inr (sg_key sg)"
    using c unfolding decode_secret_iff secret_key_def by blast
  show "Signer_new V (sg_key sg) = Inr sg" using c by (simp add: secret_key_def)
  have "state_wf st" using c user_commit_opens(1) [OF V] by blast
  then show "decode_commitment (encode_commitment (st_commitment st)) = Inr (st_commitment st)" by (simp add: decode_commitment_iff state_wf_def)
qed

lemma after_sign:
  assumes V: "vole_ok V" and sys: "sys_ok S" and message: "\<And>p. p \<in> set (artifacts dir) \<Longrightarrow> clear_of message p"
    and com: "committed V dir message sg m st s2" and sign: "command_sign S V dir (s2, c2) = Some (Inr code, s3, c2')"
  shows "\<exists>sig. signed V dir message sg m st sig s3"
proof -
  let ?P = "path_append dir ''signer_pub.bin''" and ?U = "path_append dir ''user_state.bin''" and ?K = "path_append dir ''signer_key.bin''"
  note c = com [unfolded committed_def] and reads = committed_reads [OF V com]
  have ok2: "os_ok s2" using c by blast
  obtain tree sig where i: "v_xmss_keypair_sign V (sg_tree sg) (ucast (sec_next_leaf (sg_key sg))) (v_hm_digest V (st_commitment st)) c2 = Some (tree, Some sig, c2')"
      "file_at (visible s3) (path_append dir ''xmss_sig.bin'') = Some (encode_response sig)"
      "keeps_files (map (path_append dir) [''signer.lock'', ''signer_key.bin'', ''xmss_sig.bin'']) s2 s3"
    using sign_done [OF sign ok2 sys] reads c by auto
  obtain c0 c0' where commit: "user_commit V m c0 = (Inr st, c0')" using c by blast
  note opens = user_commit_opens [OF V commit]
  have reach: "length (sec_public_seed (sg_key sg)) = 16"
    "v_kp_reachable V (sec_seed (sg_key sg)) (sec_public_seed (sg_key sg)) (uint (sec_height (sg_key sg))) (sg_tree sg)"
    using c by (simp_all add: signer_wf_def secret_wf_def)
  have sig: "sig_wf sig" by (rule v_issued_sig_wf [OF V reach i(1)])
  have "response_ok V st (public_key sg) sig"
    using v_issued_verifies [OF V reach i(1)] opens(3) by (simp add: response_ok_def public_key_def)
  moreover have "clear_of ?U (path_append dir ''signer.lock'')" "clear_of ?U ?K" "clear_of ?U (path_append dir ''xmss_sig.bin'')"
    "clear_of ?P ?K" "clear_of ?P (path_append dir ''xmss_sig.bin'')" "clear_of ?P (path_append dir ''signer.lock'')"
    unfolding clear_append by (simp_all add: temp_of_def)
  then have "file_at (visible s3) ?P = file_at (visible s2) ?P" "file_at (visible s3) ?U = file_at (visible s2) ?U"
    using keeps_filesD [OF i(3), of ?P] keeps_filesD [OF i(3), of ?U] by fastforce+
  moreover have "file_at (visible s3) message = Some m" using message_clear [OF message _ i(3)] c by (simp add: artifacts_def)
  moreover have "os_ok s3" using i(3) by (simp add: keeps_files_def)
  moreover have "public_wf (public_key sg)" by (rule signer_public_wf [OF V]) (use c in blast)
  ultimately show ?thesis unfolding signed_def using sig opens(1,2) i(2) c by metis
qed

lemma after_prove:
  assumes C: "pconfig_ok C" "faest_ok F (p_circuit C) L" "poly_ok L" "trace_ok (p_circuit C) L"
    and V: "vole_ok V" "shake_ok V" "vole_malloc_ok V 56" and sys: "sys_ok S"
    and message: "\<And>p. p \<in> set (artifacts dir) \<Longrightarrow> clear_of message p"
    and signed: "signed V dir message sg m st sig s3" and prove: "command_prove S V F C L dir (s3, c3) = Some (Inr code, s4, c3')"
  shows "os_ok s4 \<and> (\<exists>bs. public_wf (public_key sg) \<and> file_at (visible s4) (path_append dir ''signer_pub.bin'') = Some (encode_public (public_key sg)) \<and>
    file_at (visible s4) message = Some m \<and> file_at (visible s4) (path_append dir ''blind_sig.bin'') = Some bs \<and>
    verify_signature V F C (public_key sg) m bs = Inr True)"
proof -
  let ?P = "path_append dir ''signer_pub.bin''" and ?U = "path_append dir ''user_state.bin''"
  note s = signed [unfolded signed_def]
  have ok3: "os_ok s3" and pw: "public_wf (public_key sg)" and st: "state_wf st" "st_digest st = message_digest V m" and sig: "sig_wf sig" using s by blast+
  obtain pb pk ub st' gb sig' bs where d: "file_at (visible s3) ?P = Some pb" "decode_public pb = Inr pk" "file_at (visible s3) ?U = Some ub" "decode_state ub = Inr st'"
      "file_at (visible s3) (path_append dir ''xmss_sig.bin'') = Some gb" "decode_response gb = Inr sig'" "unblind V F C L st' pk sig' c3 = (Inr bs, c3')"
      "file_at (visible s4) (path_append dir ''blind_sig.bin'') = Some bs" "keeps_files [path_append dir ''blind_sig.bin''] s3 s4"
    using prove_done [OF prove ok3 sys] by blast
  have "pk = public_key sg" "st' = st" "sig' = sig"
    using d(1-6) s decode_public_iff [of pb "public_key sg"] decode_state_iff [of ub st] decode_response_iff [of gb sig] by auto
  then have ver: "verify_signature V F C (public_key sg) m bs = Inr True"
    using unblind_outcome [OF C V st pw sig, of c3] d(7) by simp
  have "clear_of ?P (path_append dir ''blind_sig.bin'')" unfolding clear_append by (simp add: temp_of_def)
  then have p4: "file_at (visible s4) ?P = Some (encode_public (public_key sg))" using keeps_filesD [OF d(9), of ?P] s by simp
  have m4: "file_at (visible s4) message = Some m" using message_clear [OF message _ d(9)] s by (simp add: artifacts_def)
  have "os_ok s4" using d(9) by (simp add: keeps_files_def)
  with ver m4 p4 d(8) pw show ?thesis by blast
qed

subsection \<open>When no call fails\<close>

definition sys_good :: "sys \<Rightarrow> bool" where
  "sys_good S \<longleftrightarrow> sys_ok S \<and>
     (\<forall>k p. sys_open S k p \<and> sys_tellg S k p \<and> sys_read S k p \<and> sys_open_dir S k p \<and> sys_open_lock S k p \<and> sys_mkdirs S k p \<and> sys_stat S k p) \<and>
     (\<forall>k. sys_fsync S k \<and> sys_close S k \<and> sys_rename S k \<and> sys_flock S k) \<and>
     (\<forall>k p. sys_mkstemp S k p \<noteq> None) \<and> (\<forall>k n. 0 < n \<longrightarrow> (\<exists>j>0. sys_write S k n = Wrote j))"

text \<open>No file has a name that a temporary file of an artifact could get.\<close>

definition no_temps :: "string \<Rightarrow> os \<Rightarrow> bool" where
  "no_temps dir s \<longleftrightarrow> (\<forall>p\<in>set (artifacts dir). \<forall>t. temp_of p t \<longrightarrow> entries (visible s) t = None)"

lemma no_temps_cong: "visible s' = visible s \<Longrightarrow> no_temps dir s' = no_temps dir s"
  by (simp add: no_temps_def)

lemma write_loop_good:
  assumes "sys_good S"
  shows "\<exists>s'. write_loop S fd b pos s = Some (True, s')"
proof (induction "length b - pos" arbitrary: pos s rule: less_induct)
  case less
  show ?case
  proof (cases "pos < length b")
    case True
    then obtain j where "0 < j" "sys_write S (os_time s) (length b - pos) = Wrote j" using assms unfolding sys_good_def by (metis zero_less_diff)
    moreover have "\<exists>s'. write_loop S fd b (pos + j) (record_event (Append fd (take j (drop pos b))) (tick s)) = Some (True, s')"
      by (rule less) (use True \<open>0 < j\<close> in simp)
    ultimately show ?thesis using True by (subst write_loop.simps) simp
  qed (subst write_loop.simps, simp)
qed

lemma attempt_good: "f (os_time s) \<Longrightarrow> attempt f e s = (True, record_event e (tick s))"
  by (simp add: attempt_def)

lemma write_body_good:
  assumes "sys_good S" "entries (visible s) tmp = Some fd"
  shows "\<exists>s'. write_body S fd tmp path b s = Some (True, Inr (), s') \<and> entries (visible s') = (entries (visible s))(tmp := None, path \<mapsto> fd)"
proof -
  obtain s1 where loop: "write_loop S fd b 0 s = Some (True, s1)" using write_loop_good [OF assms(1)] by blast
  obtain cs where "grows (map (Append fd) cs) s s1" using write_loop_log [OF loop] by blast
  then have e: "entries (visible s1) = entries (visible s)" by (simp add: visible_grows entries_quiet fun_eq_iff)
  note S = assms(1) [unfolded sys_good_def]
  show ?thesis
    using assms(2) e S by (simp add: write_body_def loop attempt_def ask_def rename_file_def)
qed

lemma write_path_good:
  assumes "sys_good S" "\<And>t. temp_of p t \<Longrightarrow> entries (visible s) t = None"
  shows "\<exists>s' t n. write_path S p b s = Some (Inr (), s') \<and> temp_of p t \<and> entries (visible s') = (entries (visible s))(t := None, p \<mapsto> n)"
proof -
  note S = assms(1) [unfolded sys_good_def]
  obtain t where t: "sys_mkstemp S (os_time s) (p @ ''.tmp.XXXXXX'') = Some t" using S by blast
  obtain a s1 where m: "mkstemp S (p @ ''.tmp.XXXXXX'') s = (a, s1)" by fastforce
  obtain x where x: "length x = 6" "t = take (length (p @ ''.tmp.XXXXXX'') - 6) (p @ ''.tmp.XXXXXX'') @ x"
    using S t unfolding sys_ok_def by blast
  then have temp: "temp_of p t" by (auto simp: temp_of_def)
  have a: "a = Some (os_next s, t)" "visible s1 = apply_event (Create (os_next s) t) (visible s)"
    using m t assms(2) [OF temp] by (auto simp: mkstemp_def create_file_def visible_def)
  obtain s' where "write_body S (os_next s) t p b s1 = Some (True, Inr (), s')" "entries (visible s') = (entries (visible s1))(t := None, p \<mapsto> os_next s)"
    using write_body_good [OF assms(1), of s1 t "os_next s" p b] a(2) by auto
  then show ?thesis using temp m a by (intro exI [of _ s'] exI [of _ t] exI [of _ "os_next s"]) (simp add: write_path_def)
qed

lemma names_temp:
  "\<forall>a\<in>set [''signer.lock'', ''signer_key.bin'', ''signer_pub.bin'', ''user_state.bin'', ''commitment.bin'', ''xmss_sig.bin'', ''blind_sig.bin''].
   \<forall>b\<in>set [''signer.lock'', ''signer_key.bin'', ''signer_pub.bin'', ''user_state.bin'', ''commitment.bin'', ''xmss_sig.bin'', ''blind_sig.bin''].
     \<not> temp_of a b"
  by (simp add: temp_of_def)

lemma path_append_temp: "temp_of (path_append dir a) (path_append dir b) \<longleftrightarrow> temp_of a b"
  by (cases "dir = [] \<or> last dir = CHR ''/''") (simp_all add: path_append_def temp_of_def)

lemma artifact_temp: "p \<in> set (artifacts dir) \<Longrightarrow> q \<in> set (artifacts dir) \<Longrightarrow> \<not> temp_of p q"
  unfolding artifacts_def set_map using names_temp path_append_temp by blast

lemma write_task_good:
  assumes "sys_good S" "no_temps dir s" "p \<in> set (artifacts dir)"
  shows "\<exists>s'. write_task S p b (s, c) = Some (Inr (), s', c) \<and> no_temps dir s'"
proof -
  obtain s' t n where s': "write_path S p b s = Some (Inr (), s')" "temp_of p t" "entries (visible s') = (entries (visible s))(t := None, p \<mapsto> n)"
    using write_path_good [OF assms(1), of p s b] assms(2,3) by (auto simp: no_temps_def)
  have "no_temps dir s'"
    using assms(2) artifact_temp [OF _ assms(3)] by (auto simp: no_temps_def s'(3))
  then show ?thesis using s'(1) by (simp add: write_task_def with_os_def)
qed

lemma read_task_good:
  assumes "sys_good S" "file_at (visible s) p = Some b" "length b \<le> n"
  shows "\<exists>s'. read_task S p n (s, c) = Some (Inr b, s', c) \<and> visible s' = visible s"
  using assms by (simp add: read_task_def with_os_def read_path_def ask_def sys_good_def Let_def)

lemma lock_task_good:
  assumes "sys_good S" "no_temps dir s"
  shows "\<exists>s'. lock_task S dir (s, c) = Some (Inr (), s', c) \<and> no_temps dir s'"
proof -
  let ?p = "path_append dir ''signer.lock''"
  have "?p \<in> set (artifacts dir)" by (simp add: artifacts_def)
  then have t: "\<not> temp_of q ?p" if "q \<in> set (artifacts dir)" for q using artifact_temp [OF that] by blast
  show ?thesis
    using assms t by (auto simp: lock_task_def with_os_def Lock_def ask_def sys_good_def Let_def create_file_def no_temps_def visible_def)
qed

lemma mkdirs_good: "sys_good S \<Longrightarrow> with_os (\<lambda>s. Some (create_directories S dir s)) (s, c) = Some (Inr (), tick s, c)"
  by (simp add: with_os_def create_directories_def ask_def sys_good_def)

lemma exists_good: "sys_good S \<Longrightarrow> with_os (\<lambda>s. Some (exists_path S p s)) (s, c) = Some (Inr (file_at (visible s) p \<noteq> None), tick s, c)"
  by (simp add: with_os_def exists_path_def ask_def sys_good_def file_at_None)

lemma keygen_good:
  assumes S: "sys_good S" and s: "os_ok s" "no_temps dir s" and V: "vole_ok V"
    and new: "file_at (visible s) (path_append dir ''signer_key.bin'') = None" "file_at (visible s) (path_append dir ''signer_pub.bin'') = None"
  shows "\<exists>s'. no_temps dir s' \<and> command_keygen S V dir height (s, c) =
    (case Signer_generate V height c of (Inl e, c') \<Rightarrow> Some (Inl e, s', c') | (Inr sg, c') \<Rightarrow> Some (Inr 0, s', c'))"
proof -
  let ?K = "path_append dir ''signer_key.bin''" and ?P = "path_append dir ''signer_pub.bin''"
  note 1 = mkdirs_good [OF S, of dir s c]
  have t: "os_ok (tick s)" "no_temps dir (tick s)" using s by (simp_all add: no_temps_def)
  obtain s2 where 2: "lock_task S dir (tick s, c) = Some (Inr (), s2, c)" "no_temps dir s2" using lock_task_good [OF S t(2)] by blast
  have k2: "keeps_files [path_append dir ''signer.lock''] (tick s) s2" using lock_task_done [OF 2(1) t(1)] by blast
  have "file_at (visible s2) ?K = None" "file_at (visible s2) ?P = None"
    using keeps_filesD [OF k2, of ?K] keeps_filesD [OF k2, of ?P] clear_artifacts new by simp_all
  then have 3: "with_os (\<lambda>s. Some (exists_path S ?K s)) (s2, c) = Some (Inr False, tick s2, c)"
    "with_os (\<lambda>s. Some (exists_path S ?P s)) (tick s2, c) = Some (Inr False, tick (tick s2), c)"
    using exists_good [OF S, of ?K s2 c] exists_good [OF S, of ?P "tick s2" c] by simp_all
  have t3: "no_temps dir (tick (tick s2))" using 2(2) by (simp add: no_temps_def)
  have up: "\<And>c s' f. task_seq (with_os (\<lambda>s. Some (create_directories S dir s))) f (s, c) = f () (tick s, c)"
    using mkdirs_good [OF S] by (simp add: task_seq_def)
  show ?thesis
  proof (cases "Signer_generate V height c")
    case (Pair r c')
    show ?thesis
    proof (cases r)
      case (Inl e)
      then show ?thesis using Pair t3
        by (intro exI [of _ "tick (tick s2)"]) (simp add: command_keygen_def task_seq_def 1 2(1) 3 with_rng_def)
    next
      case (Inr sg)
      have "secret_wf (secret_key sg)" using generate_wf(1) [OF V, of height c sg c'] Pair Inr by (simp add: signer_wf_def secret_key_def)
      then obtain b where b: "encode_secret (secret_key sg) = Inr b" using encode_secret_bytes by blast
      have in_dir: "?K \<in> set (artifacts dir)" "?P \<in> set (artifacts dir)" by (simp_all add: artifacts_def)
      obtain s4 where 4: "write_task S ?K b (tick (tick s2), c') = Some (Inr (), s4, c')" "no_temps dir s4"
        using write_task_good [OF S t3 in_dir(1)] by blast
      obtain s5 where 5: "write_task S ?P (encode_public (public_key sg)) (s4, c') = Some (Inr (), s5, c')" "no_temps dir s5"
        using write_task_good [OF S 4(2) in_dir(2)] by blast
      show ?thesis using Pair Inr 5(2)
        by (intro exI [of _ s5]) (simp add: command_keygen_def task_seq_def 1 2(1) 3 4(1) 5(1) b with_rng_def of_result_def give_def)
    qed
  qed
qed

lemma commit_good:
  assumes S: "sys_good S" and s: "no_temps dir s" and m: "file_at (visible s) message = Some m" "length m \<le> SIZE_MAX"
  shows "\<exists>s'. no_temps dir s' \<and> command_commit S V dir message (s, c) =
    (case user_commit V m c of (Inl e, c') \<Rightarrow> Some (Inl e, s', c') | (Inr st, c') \<Rightarrow> Some (Inr 0, s', c'))"
proof -
  let ?U = "path_append dir ''user_state.bin''" and ?C = "path_append dir ''commitment.bin''"
  have in_dir: "?U \<in> set (artifacts dir)" "?C \<in> set (artifacts dir)" by (simp_all add: artifacts_def)
  note 1 = mkdirs_good [OF S, of dir s c]
  obtain s2 where 2: "read_task S message SIZE_MAX (tick s, c) = Some (Inr m, s2, c)" "visible s2 = visible (tick s)"
    using read_task_good [OF S, of "tick s" message m SIZE_MAX c] m by auto
  have t: "no_temps dir s2" using s 2(2) by (simp add: no_temps_def)
  show ?thesis
  proof (cases "user_commit V m c")
    case (Pair r c')
    show ?thesis
    proof (cases r)
      case (Inl e)
      then show ?thesis using Pair t by (intro exI [of _ s2]) (simp add: command_commit_def task_seq_def 1 2(1) with_rng_def)
    next
      case (Inr st)
      obtain s4 where 4: "write_task S ?U (encode_state st) (s2, c') = Some (Inr (), s4, c')" "no_temps dir s4"
        using write_task_good [OF S t in_dir(1)] by blast
      obtain s5 where 5: "write_task S ?C (encode_commitment (st_commitment st)) (s4, c') = Some (Inr (), s5, c')" "no_temps dir s5"
        using write_task_good [OF S 4(2) in_dir(2)] by blast
      show ?thesis using Pair Inr 5(2)
        by (intro exI [of _ s5]) (simp add: command_commit_def task_seq_def 1 2(1) 4(1) 5(1) with_rng_def give_def)
    qed
  qed
qed

text \<open>Signing with a counter that is not at the end of the key.\<close>

lemma sign_good:
  assumes S: "sys_good S" and s: "os_ok s" "no_temps dir s"
    and files: "file_at (visible s) (path_append dir ''commitment.bin'') = Some cb" "decode_commitment cb = Inr com"
      "file_at (visible s) (path_append dir ''signer_key.bin'') = Some kb" "decode_secret kb = Inr (sg_key sg)" "Signer_new V (sg_key sg) = Inr sg"
    and room: "\<not> exhausted_key (sg_key sg)"
  shows "\<exists>s'. no_temps dir s' \<and> command_sign S V dir (s, c) =
    (case v_xmss_keypair_sign V (sg_tree sg) (ucast (sec_next_leaf (sg_key sg))) (v_hm_digest V com) c of
       None \<Rightarrow> None
     | Some (tree, None, c') \<Rightarrow> Some (Inl (Runtime_error ''XMSS signing failed; reserved leaf consumed''), s', c')
     | Some (tree, Some sig, c') \<Rightarrow> Some (Inr 0, s', c'))"
proof -
  let ?K = "path_append dir ''signer_key.bin''" and ?C = "path_append dir ''commitment.bin''" and ?G = "path_append dir ''xmss_sig.bin''"
  obtain s1 where 1: "lock_task S dir (s, c) = Some (Inr (), s1, c)" "no_temps dir s1" using lock_task_good [OF S s(2)] by blast
  have k1: "keeps_files [path_append dir ''signer.lock''] s s1" using lock_task_done [OF 1(1) s(1)] by blast
  have cC: "clear_of ?C (path_append dir ''signer.lock'')" unfolding clear_append by (simp add: temp_of_def)
  have vis: "file_at (visible s1) ?C = Some cb" "file_at (visible s1) ?K = Some kb"
    using keeps_filesD [OF k1, of ?C] keeps_filesD [OF k1, of ?K] clear_artifacts cC files by simp_all
  have len: "length cb \<le> 264" "length kb \<le> 65"
    using files(2,4) by (auto simp: decode_commitment_def decode_secret_def payload_iff split: sum.splits)
  obtain s2 where 2: "read_task S ?C 264 (s1, c) = Some (Inr cb, s2, c)" "visible s2 = visible s1" using read_task_good [OF S vis(1) len(1)] by blast
  obtain s3 where 3: "read_task S ?K 65 (s2, c) = Some (Inr kb, s3, c)" "visible s3 = visible s2"
    using read_task_good [OF S _ len(2), of s2 ?K] vis(2) 2(2) by auto
  have t3: "no_temps dir s3" using 1(2) 2(2) 3(2) by (simp add: no_temps_def)
  have wf: "secret_wf (sg_key sg)" "validate_key (sg_key sg)" using files(4) by (simp_all add: decode_secret_iff secret_wf_def)
  have "secret_wf (reserve (sg_key sg))" using wf reserve_key(4) [OF wf(2) room] by (simp add: secret_wf_def)
  then obtain b where b: "encode_secret (reserve (sg_key sg)) = Inr b" using encode_secret_bytes by blast
  have in_dir: "?K \<in> set (artifacts dir)" "?G \<in> set (artifacts dir)" by (simp_all add: artifacts_def)
  obtain s4 where 4: "write_path S ?K b s3 = Some (Inr (), s4)" "no_temps dir s4"
    using write_task_good [OF S t3 in_dir(1), of b c] by (auto simp: write_task_def with_os_def)
  have persist: "persist_key S dir (reserve (sg_key sg)) (Some s3) = (None, Some s4)" by (simp add: persist_key_def b 4(1))
  let ?x = "v_xmss_keypair_sign V (sg_tree sg) (ucast (sec_next_leaf (sg_key sg))) (v_hm_digest V com) c"
  have sign: "sign_task S V dir sg com (s3, c) = (case ?x of None \<Rightarrow> None
      | Some (tree, None, c') \<Rightarrow> Some (Inl (Runtime_error ''XMSS signing failed; reserved leaf consumed''), s4, c')
      | Some (tree, Some sig, c') \<Rightarrow> Some (Inr sig, s4, c'))"
    using room persist by (auto simp: sign_task_def Signer_sign_def exhausted_key_def reserve_def Let_def split: option.splits)
  have run: "command_sign S V dir (s, c) = task_seq (sign_task S V dir sg com) (\<lambda>response. task_seq (write_task S ?G (encode_response response)) (\<lambda>_. give 0)) (s3, c)"
    by (simp add: command_sign_def task_seq_def 1(1) 2(1) 3(1) files(2,4,5) of_result_def)
  show ?thesis
  proof (cases ?x)
    case None
    then show ?thesis using run sign 4(2) by (auto simp: task_seq_def)
  next
    case (Some y)
    obtain tree o' c' where y: "y = (tree, o', c')" by (cases y)
    show ?thesis
    proof (cases o')
      case None
      then show ?thesis using run sign Some y 4(2) by (auto simp: task_seq_def)
    next
      case sig: (Some sig)
      obtain s5 where 5: "write_task S ?G (encode_response sig) (s4, c') = Some (Inr (), s5, c')" "no_temps dir s5"
        using write_task_good [OF S 4(2) in_dir(2)] by blast
      show ?thesis using run sign Some y sig 5 by (intro exI [of _ s5]) (simp add: task_seq_def give_def)
    qed
  qed
qed

lemma prove_good:
  assumes S: "sys_good S" and s: "no_temps dir s"
    and files: "file_at (visible s) (path_append dir ''signer_pub.bin'') = Some pb" "decode_public pb = Inr pk"
      "file_at (visible s) (path_append dir ''user_state.bin'') = Some ub" "decode_state ub = Inr st"
      "file_at (visible s) (path_append dir ''xmss_sig.bin'') = Some gb" "decode_response gb = Inr sig"
  shows "\<exists>s'. command_prove S V F C L dir (s, c) =
    (case unblind V F C L st pk sig c of (Inl e, c') \<Rightarrow> Some (Inl e, s', c') | (Inr bs, c') \<Rightarrow> Some (Inr 0, s', c'))"
proof -
  let ?P = "path_append dir ''signer_pub.bin''" and ?U = "path_append dir ''user_state.bin''" and ?G = "path_append dir ''xmss_sig.bin''"
    and ?B = "path_append dir ''blind_sig.bin''"
  have len: "length pb \<le> 40" "length ub \<le> 392" "length gb \<le> 8 + XMSS_SIG_BYTES"
    using files(2,4,6) by (auto simp: decode_public_def decode_state_def decode_response_def payload_iff split: sum.splits)
  obtain s1 where 1: "read_task S ?P 40 (s, c) = Some (Inr pb, s1, c)" "visible s1 = visible s" using read_task_good [OF S files(1) len(1)] by blast
  obtain s2 where 2: "read_task S ?U 392 (s1, c) = Some (Inr ub, s2, c)" "visible s2 = visible s1"
    using read_task_good [OF S _ len(2), of s1 ?U] files(3) 1(2) by auto
  obtain s3 where 3: "read_task S ?G (8 + XMSS_SIG_BYTES) (s2, c) = Some (Inr gb, s3, c)" "visible s3 = visible s2"
    using read_task_good [OF S _ len(3), of s2 ?G] files(5) 1(2) 2(2) by auto
  have t3: "no_temps dir s3" using s 1(2) 2(2) 3(2) by (simp add: no_temps_def)
  have in_dir: "?B \<in> set (artifacts dir)" by (simp add: artifacts_def)
  show ?thesis
  proof (cases "unblind V F C L st pk sig c")
    case (Pair r c')
    show ?thesis
    proof (cases r)
      case (Inl e)
      then show ?thesis using Pair
        by (intro exI [of _ s3]) (simp add: command_prove_def task_seq_def 1(1) 2(1) 3(1) files(2,4,6) with_rng_def of_result_def)
    next
      case (Inr bs)
      obtain s4 where 4: "write_task S ?B bs (s3, c') = Some (Inr (), s4, c')" using write_task_good [OF S t3 in_dir] by blast
      show ?thesis using Pair Inr
        by (intro exI [of _ s4]) (simp add: command_prove_def task_seq_def 1(1) 2(1) 3(1) 4 files(2,4,6) with_rng_def of_result_def give_def)
    qed
  qed
qed

lemma verify_good:
  assumes S: "sys_good S" and files: "file_at (visible s) (path_append dir ''signer_pub.bin'') = Some pb" "decode_public pb = Inr pk"
      "file_at (visible s) message = Some m" "length m \<le> SIZE_MAX" "file_at (visible s) (path_append dir ''blind_sig.bin'') = Some bs"
      "length bs \<le> l_size (proof_layout F C)" "verify_signature V F C pk m bs = Inr valid"
  shows "\<exists>s'. command_verify S V F C dir message (s, c) = Some (Inr (if valid then 0 else 1), s', c)"
proof -
  let ?P = "path_append dir ''signer_pub.bin''" and ?B = "path_append dir ''blind_sig.bin''"
  have len: "length pb \<le> 40" using files(2) by (auto simp: decode_public_def payload_iff split: sum.splits)
  obtain s1 where 1: "read_task S ?P 40 (s, c) = Some (Inr pb, s1, c)" "visible s1 = visible s" using read_task_good [OF S files(1) len] by blast
  obtain s2 where 2: "read_task S message SIZE_MAX (s1, c) = Some (Inr m, s2, c)" "visible s2 = visible s1"
    using read_task_good [OF S _ files(4), of s1 message] files(3) 1(2) by auto
  obtain s3 where 3: "read_task S ?B (l_size (proof_layout F C)) (s2, c) = Some (Inr bs, s3, c)"
    using read_task_good [OF S _ files(6), of s2 ?B] files(5) 1(2) 2(2) by auto
  show ?thesis
    by (intro exI [of _ s3]) (simp add: command_verify_def task_seq_def 1(1) 2(1) 3 files(2,7) of_result_def give_def)
qed

text \<open>The five commands in a process in which no call fails.\<close>

lemma run_good:
  assumes C: "pconfig_ok C" "faest_ok F (p_circuit C) L" "poly_ok L" "trace_ok (p_circuit C) L"
    and V: "vole_ok V" "shake_ok V" "vole_malloc_ok V 56" and S: "sys_good S" and s: "os_ok s0" "no_temps dir s0"
    and new: "file_at (visible s0) (path_append dir ''signer_key.bin'') = None" "file_at (visible s0) (path_append dir ''signer_pub.bin'') = None"
    and message: "\<And>p. p \<in> set (artifacts dir) \<Longrightarrow> clear_of message p" "file_at (visible s0) message = Some m" "length m \<le> SIZE_MAX"
  shows "case command_keygen S V dir height (s0, c0) of
      None \<Rightarrow> False
    | Some (Inl e, m1) \<Rightarrow> fst (Signer_generate V height c0) = Inl e
    | Some (Inr code, s1, c1) \<Rightarrow> code = 0 \<and>
        (case command_commit S V dir message (s1, c1) of
           None \<Rightarrow> False
         | Some (Inl e, m2) \<Rightarrow> e = Runtime_error ''OS random source failed''
         | Some (Inr code, s2, c2) \<Rightarrow> code = 0 \<and>
             (case command_sign S V dir (s2, c2) of
                None \<Rightarrow> \<exists>tree d. v_xmss_keypair_sign V tree 0 d c2 = None
              | Some (Inl e, m3) \<Rightarrow> e = Runtime_error ''XMSS signing failed; reserved leaf consumed''
              | Some (Inr code, s3, c3) \<Rightarrow> code = 0 \<and>
                  (case command_prove S V F C L dir (s3, c3) of
                     None \<Rightarrow> False
                   | Some (Inl e, m4) \<Rightarrow> e \<in> prove_failures
                   | Some (Inr code, s4, c4) \<Rightarrow> code = 0 \<and> (\<exists>m5. command_verify S V F C dir message (s4, c4) = Some (Inr 0, m5)))))"
proof -
  have sys: "sys_ok S" using S by (simp add: sys_good_def)
  obtain s1 where k: "no_temps dir s1" "command_keygen S V dir height (s0, c0) =
      (case Signer_generate V height c0 of (Inl e, c') \<Rightarrow> Some (Inl e, s1, c') | (Inr sg, c') \<Rightarrow> Some (Inr 0, s1, c'))"
    using keygen_good [OF S s V(1) new] by blast
  obtain r0 c1 where gen: "Signer_generate V height c0 = (r0, c1)" by fastforce
  show ?thesis
  proof (cases r0)
    case (Inl e)
    then show ?thesis using k(2) gen by simp
  next
    case sg0: (Inr sg0)
    have keygen: "command_keygen S V dir height (s0, c0) = Some (Inr 0, s1, c1)" using k(2) gen sg0 by simp
    have m1: "file_at (visible s1) message = Some m"
      using keygen_done [OF keygen s(1) sys] message_clear [OF message(1) subset_refl] message(2) by metis
    obtain s2 where u: "no_temps dir s2" "command_commit S V dir message (s1, c1) =
        (case user_commit V m c1 of (Inl e, c') \<Rightarrow> Some (Inl e, s2, c') | (Inr st, c') \<Rightarrow> Some (Inr 0, s2, c'))"
      using commit_good [OF S k(1) m1 message(3)] by blast
    obtain r1 c2 where com: "user_commit V m c1 = (r1, c2)" by fastforce
    show ?thesis
    proof (cases r1)
      case (Inl e)
      then have "e = Runtime_error ''OS random source failed''"
        using com by (auto simp: user_commit_def Let_def random_def split: prod.splits sum.splits option.splits)
      then show ?thesis using keygen u(2) com Inl by simp
    next
      case (Inr st0)
      have commit: "command_commit S V dir message (s1, c1) = Some (Inr 0, s2, c2)" using u(2) com Inr by simp
      obtain sg st where g: "Signer_generate V height c0 = (Inr sg, c1)" and cm: "committed V dir message sg m st s2"
        using after_commit [OF V(1) sys sys s(1) message(1,2) keygen commit] by blast
      note reads = committed_reads [OF V(1) cm]
      obtain b where b: "file_at (visible s2) (path_append dir ''signer_key.bin'') = Some b" "decode_secret b = Inr (sg_key sg)" using reads(1) by blast
      have zero: "sec_next_leaf (sg_key sg) = 0"
        using g by (auto simp: Signer_generate_def Signer_new_def split: prod.splits sum.splits if_splits option.splits)
      have "validate_key (sg_key sg)" using cm by (simp add: committed_def signer_wf_def secret_wf_def)
      then have room: "\<not> exhausted_key (sg_key sg)"
        using unat_one_shift [of "unat (sec_height (sg_key sg))"] zero by (auto simp: exhausted_key_def validate_key_iff)
      have ok2: "os_ok s2" "file_at (visible s2) (path_append dir ''commitment.bin'') = Some (encode_commitment (st_commitment st))"
        using cm by (simp_all add: committed_def)
      let ?x = "v_xmss_keypair_sign V (sg_tree sg) (ucast (sec_next_leaf (sg_key sg))) (v_hm_digest V (st_commitment st)) c2"
      obtain s3 where i: "no_temps dir s3" "command_sign S V dir (s2, c2) =
          (case ?x of None \<Rightarrow> None
           | Some (tree, None, c') \<Rightarrow> Some (Inl (Runtime_error ''XMSS signing failed; reserved leaf consumed''), s3, c')
           | Some (tree, Some sig, c') \<Rightarrow> Some (Inr 0, s3, c'))"
        using sign_good [OF S ok2(1) u(1) ok2(2) reads(2) b reads(3) room] by blast
      show ?thesis
      proof (cases ?x)
        case None
        then have "command_sign S V dir (s2, c2) = None" "\<exists>tree d. v_xmss_keypair_sign V tree 0 d c2 = None" using i(2) zero by auto
        then show ?thesis using keygen commit by simp
      next
        case (Some y)
        obtain tree o' c3 where y: "y = (tree, o', c3)" by (cases y)
        show ?thesis
        proof (cases o')
          case None
          then show ?thesis using keygen commit i(2) Some y by simp
        next
          case sig0: (Some sig0)
          have sign: "command_sign S V dir (s2, c2) = Some (Inr 0, s3, c3)" using i(2) Some y sig0 by simp
          obtain sig where sd: "signed V dir message sg m st sig s3" using after_sign [OF V(1) sys message(1) cm sign] by blast
          note sf = sd [unfolded signed_def]
          have dec: "decode_public (encode_public (public_key sg)) = Inr (public_key sg)" "decode_state (encode_state st) = Inr st"
            "decode_response (encode_response sig) = Inr sig"
            using sf by (simp_all add: decode_public_iff decode_state_iff decode_response_iff)
          have files: "file_at (visible s3) (path_append dir ''signer_pub.bin'') = Some (encode_public (public_key sg))"
            "file_at (visible s3) (path_append dir ''user_state.bin'') = Some (encode_state st)"
            "file_at (visible s3) (path_append dir ''xmss_sig.bin'') = Some (encode_response sig)"
            using sf by blast+
          obtain s4 where p: "command_prove S V F C L dir (s3, c3) = (case unblind V F C L st (public_key sg) sig c3 of
              (Inl e, c') \<Rightarrow> Some (Inl e, s4, c') | (Inr bs, c') \<Rightarrow> Some (Inr 0, s4, c'))"
            using prove_good [OF S i(1) files(1) dec(1) files(2) dec(2) files(3) dec(3)] by blast
          obtain r3 c4 where un: "unblind V F C L st (public_key sg) sig c3 = (r3, c4)" by fastforce
          have wf: "state_wf st" "st_digest st = message_digest V m" "public_wf (public_key sg)" "sig_wf sig" "response_ok V st (public_key sg) sig"
            using sf by blast+
          note out = unblind_outcome [OF C V wf(1-4), of c3]
          show ?thesis
          proof (cases r3)
            case (Inl e)
            then have "e \<in> prove_failures" using out un wf(5) by simp
            then show ?thesis using keygen commit sign p un Inl by simp
          next
            case (Inr bs0)
            have prove: "command_prove S V F C L dir (s3, c3) = Some (Inr 0, s4, c4)" using p un Inr by simp
            obtain bs where v: "file_at (visible s4) (path_append dir ''signer_pub.bin'') = Some (encode_public (public_key sg))"
                "file_at (visible s4) message = Some m" "file_at (visible s4) (path_append dir ''blind_sig.bin'') = Some bs"
                "verify_signature V F C (public_key sg) m bs = Inr True"
              using after_prove [OF C V sys message(1) sd prove] by blast
            have "length bs \<le> l_size (proof_layout F C)" using verify_format(1) v(4) unfolding verify_signature_def by (metis order_refl)
            then have "\<exists>s5. command_verify S V F C dir message (s4, c4) = Some (Inr (if True then 0 else 1), s5, c4)"
              by (rule verify_good [OF S v(1) dec(1) v(2) message(3) v(3) _ v(4)])
            then have "\<exists>m5. command_verify S V F C dir message (s4, c4) = Some (Inr 0, m5)" by auto
            then show ?thesis using keygen commit sign prove by simp
          qed
        qed
      qed
    qed
  qed
qed

end
