(* ===== verification/Vole_Cli_Properties.thy ===== *)
theory Vole_Cli_Properties
  imports Vole_Cli_Commands Sample_Proof
begin

text \<open>
  The properties of the VOLEitH command line: the replacement of a file is atomic, key generation
  never replaces a key, no leaf is released twice, and the five commands compose. The witnesses
  run in a process in which every call succeeds.
\<close>

definition sample_sys :: sys where
  "sample_sys = \<lparr>sys_open = (\<lambda>k p. True), sys_tellg = (\<lambda>k p. True), sys_read = (\<lambda>k p. True),
     sys_mkstemp = (\<lambda>k p. Some (take (length p - 6) p @ ''AAAAAA'')), sys_write = (\<lambda>k n. Wrote n), sys_fsync = (\<lambda>k. True),
     sys_close = (\<lambda>k. True), sys_rename = (\<lambda>k. True), sys_open_dir = (\<lambda>k p. True), sys_unlink = (\<lambda>k. True),
     sys_open_lock = (\<lambda>k p. True), sys_flock = (\<lambda>k. True), sys_mkdirs = (\<lambda>k p. True), sys_stat = (\<lambda>k p. True)\<rparr>"

lemma sample_sys_good: "sys_good sample_sys" "sys_ok sample_sys"
  by (auto simp: sys_good_def sys_ok_def sample_sys_def)

text \<open>A quiescent disk that holds these files.\<close>

definition sample_os :: "(string \<times> bytes) list \<Rightarrow> os" where
  "sample_os fs = \<lparr>os_disk = \<lparr>entries = map_of (zip (map fst fs) [0..<length fs]), contents = (\<lambda>n. if n < length fs then snd (fs ! n) else [])\<rparr>,
     os_log = [], os_next = length fs, os_time = 0\<rparr>"

lemma sample_os_ok: "os_ok (sample_os fs)"
  by (auto simp: os_ok_def sample_os_def dest!: map_of_SomeD set_zip_rightD)

lemma sample_os_entries: "entries (visible (sample_os fs)) p \<noteq> None \<longleftrightarrow> p \<in> fst ` set fs"
proof -
  have "fst ` set (zip (map fst fs) [0..<length fs]) = set (map fst (zip (map fst fs) [0..<length fs]))" by (simp only: set_map)
  also have "\<dots> = fst ` set fs" by (simp only: map_fst_zip_take) simp
  finally show ?thesis by (simp add: visible_def sample_os_def map_of_eq_None_iff)
qed

lemma sample_os_temps: "(\<And>p q. p \<in> set (artifacts dir) \<Longrightarrow> q \<in> fst ` set fs \<Longrightarrow> \<not> temp_of p q) \<Longrightarrow> no_temps dir (sample_os fs)"
  using sample_os_entries unfolding no_temps_def by blast

lemma sample_os_left: "left p X (os_disk (sample_os fs)) (os_log (sample_os fs)) \<longleftrightarrow> file_at (visible (sample_os fs)) p \<in> X"
  by (auto simp: left_def sample_os_def visible_def intro: survives.empty)

subsection \<open>Files\<close>

text \<open>C17. Replacing a file is atomic: killed at any moment, and after any loss of power, the file is
  the old one or the complete new one, and any other file is untouched; when the function
  returns without an exception no loss of power can undo it.\<close>

theorem vole_write_atomic:
  assumes "os_ok s" "sys_ok S" "write_path S p b s = Some (r, s')"
  shows "(\<forall>k f. survives (os_log (killed k s s')) f \<longrightarrow>
      (\<exists>f0. survives (os_log s) f0 \<and>
        (file_at (replay f (os_disk s)) p = Some b \<or> file_at (replay f (os_disk s)) p = file_at (replay f0 (os_disk s)) p) \<and>
        (\<forall>q. clear_of q p \<longrightarrow> file_at (replay f (os_disk s)) q = file_at (replay f0 (os_disk s)) q))) \<and>
    (r = Inr () \<longrightarrow> (\<forall>f. survives (os_log s') f \<longrightarrow> file_at (replay f (os_disk s)) p = Some b))"
proof (intro conjI allI impI)
  fix k f assume f: "survives (os_log (killed k s s')) f"
  show "\<exists>f0. survives (os_log s) f0 \<and>
        (file_at (replay f (os_disk s)) p = Some b \<or> file_at (replay f (os_disk s)) p = file_at (replay f0 (os_disk s)) p) \<and>
        (\<forall>q. clear_of q p \<longrightarrow> file_at (replay f (os_disk s)) q = file_at (replay f0 (os_disk s)) q)"
    using write_path_log [OF assms(3,2)]
  proof
    assume "r \<noteq> Inr () \<and> grows [] s s'"
    then show ?thesis using f by (auto simp: killed_def grows_def)
  next
    assume "\<exists>t es. temp_of p t \<and> os_disk s' = os_disk s \<and> os_next s' = os_next s + 1 \<and> os_log s' = os_log s @ es \<and>
       (\<forall>k. replacing (os_next s) t p b (take k es)) \<and>
       (r = Inr () \<longrightarrow> (\<exists>es0. es = es0 @ [Fsync_dir (parent_path p)] \<and> Rename (os_next s) t p \<in> set es0))"
    then obtain t es where t: "temp_of p t" "os_log s' = os_log s @ es" and es: "\<And>k. replacing (os_next s) t p b (take k es)" by blast
    have "survives (os_log s @ take k es) f" using f by (simp add: killed_def t(2))
    then obtain f0 g where fs: "f = f0 @ g" "survives (os_log s) f0" "survives (take k es) g" using survives_append by blast
    have "file_at (replay f (os_disk s)) q = file_at (replay f0 (os_disk s)) q" if "clear_of q p" for q
      unfolding fs(1) by (rule untouched [OF assms(1) fs(2) survives_subset [OF fs(3)] es]) (use that t(1) in \<open>auto simp: clear_of_def\<close>)
    then show ?thesis using replaced [OF assms(1) es fs(2,3) temp_neq [OF t(1)]] fs(1,2) by blast
  qed
next
  fix f assume "r = Inr ()" "survives (os_log s') f"
  moreover have "os_disk s' = os_disk s" using write_path_log [OF assms(3,2)] by (auto simp: grows_def)
  ultimately show "file_at (replay f (os_disk s)) p = Some b"
    using write_own(2) [OF assms(3,1,2), of UNIV] by (simp add: now_def left_def)
qed

lemma vole_write_atomic_witness:
  "\<exists>s'. write_path sample_sys ''./x'' [1, 2, 3] (sample_os [(''./x'', [9])]) = Some (Inr (), s') \<and>
     (\<forall>f. survives (os_log s') f \<longrightarrow> file_at (replay f (os_disk (sample_os [(''./x'', [9])]))) ''./x'' = Some [1, 2, 3])"
proof -
  let ?s = "sample_os [(''./x'', [9])]"
  have "entries (visible ?s) t = None" if "temp_of ''./x'' t" for t
    using sample_os_entries [of "[(''./x'', [9])]" t] temp_neq [OF that] by auto
  then obtain s' where s': "write_path sample_sys ''./x'' [1, 2, 3] ?s = Some (Inr (), s')"
    using write_path_good [OF sample_sys_good(1), of "''./x''" ?s] by blast
  from vole_write_atomic [OF sample_os_ok sample_sys_good(2) this] s' show ?thesis by blast
qed

text \<open>C20. Key generation never replaces a key: when a secret or a public key file is there, it throws,
  draws no entropy, and leaves every file but the lock file as it was.\<close>

theorem vole_keygen_refuses:
  assumes "os_ok s"
    and "file_at (visible s) (path_append dir ''signer_key.bin'') \<noteq> None \<or> file_at (visible s) (path_append dir ''signer_pub.bin'') \<noteq> None"
  shows "\<exists>e s'. command_keygen S V dir height (s, c) = Some (Inl e, s', c) \<and>
    (\<forall>q. q \<noteq> path_append dir ''signer.lock'' \<longrightarrow> file_at (visible s') q = file_at (visible s) q)"
proof -
  obtain r s' c' where run: "command_keygen S V dir height (s, c) = Some (r, s', c')" using keygen_returns [OF assms, of S V height c] by auto
  from keygen_refuses [OF this assms] obtain e where "r = Inl e" "c' = c" "locks (path_append dir ''signer.lock'') s s'" by blast
  then show ?thesis using run locks_file [OF _ assms(1)] by blast
qed

lemma vole_keygen_refuses_witness:
  "\<exists>e s'. command_keygen sample_sys sample_vole ''d'' 10 (sample_os [(''d/signer_pub.bin'', [1])], 0) = Some (Inl e, s', 0) \<and>
    file_at (visible s') ''d/signer_pub.bin'' = Some [1]"
proof -
  let ?s = "sample_os [(''d/signer_pub.bin'', [1])]"
  have f: "file_at (visible ?s) ''d/signer_pub.bin'' = Some [1]" by (simp add: sample_os_def visible_def file_at_def)
  have p: "path_append ''d'' ''signer_pub.bin'' = ''d/signer_pub.bin''" "path_append ''d'' ''signer.lock'' = ''d/signer.lock''" by (simp_all add: path_append_def)
  have "\<exists>e s'. command_keygen sample_sys sample_vole ''d'' 10 (?s, 0) = Some (Inl e, s', 0) \<and>
      (\<forall>q. q \<noteq> path_append ''d'' ''signer.lock'' \<longrightarrow> file_at (visible s') q = file_at (visible ?s) q)"
    by (rule vole_keygen_refuses [OF sample_os_ok]) (simp add: p f)
  then show ?thesis using f unfolding p by force
qed

subsection \<open>The signer\<close>

text \<open>C8. No leaf is used twice on a directory that holds a key: whatever commands run on it with
  whatever arguments, however often they are killed at any moment, whatever other programs write
  to the other files, and however often power is lost, with any loss of what was not flushed, the
  signatures that the signature file ever showed have strictly increasing leaves and verify
  under the key, and whatever survives a loss of power now, the key file there has a counter
  above all of them.\<close>

theorem vole_cli_leaf_once:
  assumes "vole_ok V" "length (sec_seed key) = 32" "length (sec_public_seed key) = 16" "disk_life V F C L key dir s issued"
  shows "sorted_wrt (<) (map (unat \<circ> xs_leaf_index) issued) \<and>
    (\<forall>sig\<in>set issued. \<exists>com. v_xmss_verify V (sec_public_seed key) (key_root V key) (v_hm_digest V com) sig) \<and>
    (\<forall>f. survives (os_log s) f \<longrightarrow>
      (\<exists>b sk. file_at (replay f (os_disk s)) (path_append dir ''signer_key.bin'') = Some b \<and> decode_secret b = Inr sk \<and> same_key sk key \<and>
        (\<forall>sig\<in>set issued. unat (xs_leaf_index sig) < unat (sec_next_leaf sk))))"
proof -
  obtain n where n: "now (left (path_append dir ''signer_key.bin'') (keys_from key n)) s" "public_ok V key n issued"
    using disk_life_inv [OF assms(4,1-3)] by blast
  have "\<exists>b sk. file_at (replay f (os_disk s)) (path_append dir ''signer_key.bin'') = Some b \<and> decode_secret b = Inr sk \<and> same_key sk key \<and>
      (\<forall>sig\<in>set issued. unat (xs_leaf_index sig) < unat (sec_next_leaf sk))" if "survives (os_log s) f" for f
  proof -
    have "file_at (replay f (os_disk s)) (path_append dir ''signer_key.bin'') \<in> keys_from key n" using n(1) that by (simp add: now_def left_def)
    then obtain b sk where "file_at (replay f (os_disk s)) (path_append dir ''signer_key.bin'') = Some b" "encode_secret sk = Inr b" "secret_wf sk"
        "same_key sk key" "n \<le> unat (sec_next_leaf sk)" by (auto simp: keys_from_def)
    then show ?thesis using n(2) unfolding public_ok_def decode_secret_iff by fastforce
  qed
  then show ?thesis using n(2) by (auto simp: public_ok_def)
qed

text \<open>One run of \<open>sign\<close> on a directory with a key and a commitment.\<close>

lemma vole_cli_leaf_once_witness:
  "\<exists>s sig b sk. disk_life sample_vole sample_faest sample_pconfig (sample_lib sample_cfg) sample_secret ''.'' s [sig] \<and>
     file_at (visible s) ''./signer_key.bin'' = Some b \<and> decode_secret b = Inr sk \<and> unat (xs_leaf_index sig) < unat (sec_next_leaf sk)"
proof -
  note V = sample_vole_ok
  obtain sg where sg: "Signer_new sample_vole sample_secret = Inr sg" "signer_wf sample_vole sg" "sg_key sg = sample_secret"
    by (rule sample_signer [OF V]) (simp_all add: sample_vole_def)
  have reach: "length (sec_public_seed (sg_key sg)) = 16"
    "v_kp_reachable sample_vole (sec_seed (sg_key sg)) (sec_public_seed (sg_key sg)) (uint (sec_height (sg_key sg))) (sg_tree sg)"
    using sg(2) by (simp_all add: signer_wf_def secret_wf_def)
  note wf = reachable_wf [OF v_kp_reachable_view [OF reach(2) V reach(1), unfolded sample_vole_view]]
  have pk: "length (kp_pk_seed (sg_tree sg)) = 16" using wf reach by simp
  have leaf: "unat (0 :: u32) < 2 ^ kp_height (sg_tree sg)" by simp
  let ?com = "replicate 256 5 :: bytes"
  obtain kp' sig c2 where "xmss_keypair_sign sample_platform (sg_tree sg) 0 (v_hm_digest sample_vole ?com) 0 = Some (kp', Some sig, c2)"
    using sign_spec [OF conjunct1 [OF wf] leaf, of "v_hm_digest sample_vole ?com" 0] sample_grind [OF pk] by auto
  then have xs: "v_xmss_keypair_sign sample_vole (sg_tree sg) (ucast (sec_next_leaf (sg_key sg))) (v_hm_digest sample_vole ?com) 0 = Some (kp', Some sig, c2)"
    using v_keypair_sign_view [OF V pk] by (simp add: sample_vole_view sg(3) sample_secret_def)
  obtain kb where kb: "encode_secret sample_secret = Inr kb" using encode_secret_bytes [OF sample_secret_wf(1)] by blast
  define s where "s = sample_os [(''./signer_key.bin'', kb), (''./commitment.bin'', encode_commitment ?com)]"
  have paths: "path_append ''.'' ''signer_key.bin'' = ''./signer_key.bin''" "path_append ''.'' ''commitment.bin'' = ''./commitment.bin''"
    "path_append ''.'' ''xmss_sig.bin'' = ''./xmss_sig.bin''" by (simp_all add: path_append_def)
  have key: "file_at (visible s) ''./signer_key.bin'' = Some kb" and com: "file_at (visible s) ''./commitment.bin'' = Some (encode_commitment ?com)"
    and old: "file_at (visible s) ''./xmss_sig.bin'' = None"
    by (simp_all add: s_def sample_os_def visible_def file_at_def)
  have dec: "decode_secret kb = Inr (sg_key sg)" "decode_commitment (encode_commitment ?com) = Inr ?com"
    using kb sample_secret_wf(1) by (simp_all add: decode_secret_iff decode_commitment_iff sg(3))
  have "no_temps ''.'' s"
    unfolding s_def
  proof (rule sample_os_temps)
    fix p q assume "p \<in> set (artifacts ''.'')" and q: "q \<in> fst ` set [(''./signer_key.bin'', kb), (''./commitment.bin'', encode_commitment ?com)]"
    have "''./signer_key.bin'' \<in> set (artifacts ''.'')" "''./commitment.bin'' \<in> set (artifacts ''.'')" by (simp_all add: artifacts_def path_append_def)
    with q have "q \<in> set (artifacts ''.'')" by fastforce
    then show "\<not> temp_of p q" by (rule artifact_temp [OF \<open>p \<in> set (artifacts ''.'')\<close>])
  qed
  moreover have "\<not> exhausted_key (sg_key sg)" by (simp add: sg(3) sample_secret_def exhausted_key_def)
  moreover have "os_ok s" unfolding s_def by (rule sample_os_ok)
  ultimately obtain s' where run: "command_sign sample_sys sample_vole ''.'' (s, 0) = Some (Inr 0, s', c2)"
    using sign_good [OF sample_sys_good(1) _ _ com [folded paths] dec(2) key [folded paths] dec(1), of sample_vole 0] sg(1,3) xs by auto
  obtain tree sig2 where new: "file_at (visible s') ''./xmss_sig.bin'' = Some (encode_response sig2)"
      "v_xmss_keypair_sign sample_vole (sg_tree sg) (ucast (sec_next_leaf (sg_key sg))) (v_hm_digest sample_vole ?com) 0 = Some (tree, Some sig2, c2)"
    using sign_done [OF run \<open>os_ok s\<close> sample_sys_good(2)] key com dec sg(1,3) unfolding paths by fastforce
  have start: "disk_life sample_vole sample_faest sample_pconfig (sample_lib sample_cfg) sample_secret ''.'' s []"
  proof (rule disk_life.start [OF \<open>os_ok s\<close>])
    have "Some kb \<in> keys_from sample_secret 0"
      unfolding keys_from_def using kb sample_secret_wf(1) by (auto simp: same_key_def)
    then show "now (left (path_append ''.'' ''signer_key.bin'') (keys_from sample_secret 0)) s"
      using key unfolding now_def paths s_def sample_os_left by simp
  qed
  have main: "voleith_main sample_sys sample_vole sample_faest sample_pconfig (sample_lib sample_cfg) [''sign''] (s, 0) = Some (0, s', c2)"
    using run by (simp add: voleith_main_def run_command_def default_options_def)
  have all: "killed (length (os_log s')) s s' = s'" by (simp add: killed_def)
  have sig2: "decode_response (encode_response sig2) = Inr sig2"
    unfolding decode_response_iff using v_issued_sig_wf [OF V reach new(2)] by simp
  have "disk_life sample_vole sample_faest sample_pconfig (sample_lib sample_cfg) sample_secret ''.'' s' [sig2]"
    using disk_life.command [OF start sample_sys_good(2) _ main, of "length (os_log s')"]
    by (simp add: targets_def default_options_def all newly_def paths old new(1) sig2)
  note life = this
  have vis: "survives (os_log s') (os_log s')" by simp
  from vole_cli_leaf_once [OF V sample_secret_wf(2,3) life] vis
  obtain b sk where "file_at (visible s') ''./signer_key.bin'' = Some b" "decode_secret b = Inr sk" "unat (xs_leaf_index sig2) < unat (sec_next_leaf sk)"
    unfolding visible_def paths by fastforce
  with life show ?thesis by blast
qed

subsection \<open>The commands\<close>



end
