(* ===== verification/Spec2Isabelle.thy ===== *)
theory Spec2Isabelle
  imports Xmss_Properties Foundation_Properties Kkw_Properties Blind_Properties Vole_Properties Vole_Protocol_Properties Vole_Cli_Properties
begin

text \<open>
  \<^bold>\<open>The program.\<close> The repository implements one hash-based blind signature scheme several
  times. This development verifies the C implementation over the KKW proof system,
  \<^verbatim>\<open>src/kkw/src\<close>, and of the implementation over the FAEST proof system, \<^verbatim>\<open>src/voleith/src\<close>, the
  native library, the circuit, the proof, the protocol and the command line. A signer holds an XMSS key. A user commits to the digest of a message with
  the Halevi-Micali commitment (\<^verbatim>\<open>commitment.c\<close>); the signer signs the digest of the commitment
  (\<^verbatim>\<open>xmss.c\<close>); the user publishes a zero-knowledge proof of knowledge of such a commitment and
  signature (\<^verbatim>\<open>kkw_prove.c\<close>), which is the blind signature anyone can check
  (\<^verbatim>\<open>kkw_verify.c\<close>). \<^verbatim>\<open>protocol.c\<close> ties these together, and \<^verbatim>\<open>cli.c\<close> is a command line whose five
  commands pass keys, commitments, signatures and proofs through files. The proof is a
  cut-and-choose of MPC-in-the-head instances: the statement is a circuit of 32-bit AND and
  ADD gates (\<^verbatim>\<open>circuits.c\<close>, \<^verbatim>\<open>pooled_chains.inc\<close>, \<^verbatim>\<open>MPC_prove_functions.c\<close>,
  \<^verbatim>\<open>MPC_verify_functions.c\<close>, \<^verbatim>\<open>blake3_th_mpc.h\<close>) that the prover evaluates on masked words for all
  parties and the verifier re-evaluates for all parties but one. The VOLEitH implementation
  replaces BLAKE3 by SHAKE256 (\<^verbatim>\<open>native/hash.c\<close>) and states the same relation as a Boolean circuit,
  a C++ template (\<^verbatim>\<open>circuit.hpp\<close>) that is instantiated twice: \<^verbatim>\<open>NativeContext\<close> evaluates it and
  writes the extended witness, \<^verbatim>\<open>AuthContext\<close> emits its constraints over authenticated bits, with
  the rounds of Keccak met in the middle by forward and backward templates
  (\<^verbatim>\<open>keccak_constraints.hpp\<close>). \<^verbatim>\<open>proof.cpp\<close> runs \<^verbatim>\<open>AuthContext\<close> over the prover's and the verifier's
  QuickSilver values, between the two halves of a VOLE whose challenges come from one
  transcript, and \<^verbatim>\<open>protocol.cpp\<close> wraps keys, states and signatures in framed encodings around a
  signer that stores its next leaf before it releases a signature. \<^verbatim>\<open>cli.cpp\<close> stores it by atomic
  replacement of a file.

  \<^bold>\<open>The model,\<close> theory by theory, each definition with the name of its C counterpart:
  \<^item> \<open>Prelude\<close>: the machine types, byte strings, the codec interface. \<open>Platform\<close>: what the code
    takes from outside (the BLAKE3 library, a submodule that is not in the repository, \<open>malloc\<close>,
    \<open>getentropy\<close>, \<open>fwrite\<close>) as a record of functions, and \<^verbatim>\<open>randombytes.c\<close>. The entropy source is
    indexed by the number of calls made, which is the threaded state.
  \<^item> \<open>Blake3\<close>: \<^verbatim>\<open>blake3_th.c\<close>, \<^verbatim>\<open>blake3_keyed_xof.c\<close> and the compression function, which the code
    writes out for the circuit. \<open>Gf128\<close>: \<^verbatim>\<open>gf128.c\<close>. \<open>Commitment\<close>: \<^verbatim>\<open>commitment.c\<close>. \<open>Xmss\<close>: \<^verbatim>\<open>xmss.c\<close>.
  \<^item> \<open>Mpc\<close>, \<open>Circuit\<close>, \<open>Pool\<close>, \<open>Statement\<close>: masked words, gates, gadgets, pooled chains and the
    statement. The circuit is written once over a record of gates in the state monad;
    \<open>prover_gates\<close>, \<open>verifier_gates\<close> and \<open>plain_gates\<close> give \<open>building_views\<close>, \<open>verify\<close> and the
    evaluation in the clear.
  \<^item> \<open>Shared\<close>: \<^verbatim>\<open>shared.c\<close> and \<^verbatim>\<open>shared.h\<close>, parameters, seeds, PRG, challenge. \<open>Kkw\<close>:
    \<^verbatim>\<open>kkw_prove.c\<close> and \<^verbatim>\<open>kkw_verify.c\<close>. \<open>Protocol\<close>: \<^verbatim>\<open>protocol.c\<close> and \<open>kkw_build_schedule\<close>. \<open>Cli\<close>:
    \<^verbatim>\<open>cli.c\<close> over a map from paths to contents.
  \<^item> \<open>Vole_Hash\<close>: \<^verbatim>\<open>hash.c\<close>, \<^verbatim>\<open>randombytes.c\<close>, \<^verbatim>\<open>commitment.c\<close> of \<^verbatim>\<open>src/voleith/src/native\<close>; \<open>Vole_Xmss\<close>: its
    \<^verbatim>\<open>xmss.c\<close>. \<open>Keccak\<close>: \<^verbatim>\<open>keccak_constraints.hpp\<close>. \<open>Vole_Circuit\<close>: the class \<^verbatim>\<open>Circuit\<close>, over a record
    of the operations of its template parameter, in a state and exception monad.
    \<open>Vole_Engine\<close>: \<^verbatim>\<open>NativeContext\<close> and \<^verbatim>\<open>AuthContext\<close> as two such records.
  \<^item> \<open>Vole_Dimensions\<close>: the sizes of \<^verbatim>\<open>proof.hpp\<close>. \<open>Vole_Proof\<close>: \<^verbatim>\<open>proof.cpp\<close> (\<open>proof_layout\<close>, the
    transcript, \<open>grind\<close>, \<open>prove\<close>, \<open>verify_proof\<close>) over a record \<open>faest\<close> of the functions it calls.
    \<open>Vole_Protocol\<close>: \<^verbatim>\<open>protocol.cpp\<close> and \<^verbatim>\<open>protocol.hpp\<close>, where an exception is a left injection and the
    callback that stores the key a function on an arbitrary state of the outside.
  \<^item> \<open>Vole_Disk\<close>: a disk of directory entries and contents, the calls that change it as a log of
    events, and what of the log may survive a loss of power. \<open>Vole_Cli\<close>: \<^verbatim>\<open>cli.cpp\<close>.

  A C function that returns a code and fills output buffers is a function to an option; errors
  are its \<open>None\<close>. Where a loop may run forever (the nonce loop, grinding, rejection sampling)
  the model is a \<open>partial_function (option)\<close> and an outer \<open>None\<close> is a call that never returns.
  Arrays are lists, whose lengths the invariants state; words keep their width. Words in the
  proof file are written as the little-endian hosts the code runs on lay them out.

  \<^bold>\<open>The lemmas.\<close>
  \<^item> \<open>Clmul\<close>, with \<open>Gf128\<close> and \<open>Commitment\<close>: the limb arithmetic is multiplication of polynomials
    over GF(2) modulo the field polynomial; a commitment line is an inner product.
  \<^item> \<open>Xmss_Correct\<close>: the abstract tree \<open>xroot\<close>, the invariant \<open>kp_wf\<close> of key pairs, signing refines
    the abstract signature \<open>sig_spec\<close>, verification accepts it, the wire format is a codec.
  \<^item> \<open>Mpc_Sim\<close> (what it is for two evaluations of one circuit to be related), \<open>Circuit_Sim\<close> (the
    locale of two related sets of gates and the simulation of every gadget inside it),
    \<open>Mpc_Gates\<close> and \<open>Mpc_Instances\<close> (its interpretations on the code's gates: prover against
    clear, prover against verifier, prover against itself on other scratch contents),
    \<open>Gate_Count\<close> (the constant \<open>ySize\<close> that sizes tapes and arrays is exact), \<open>Rounds\<close> (one
    instance), \<open>Challenge\<close>, \<open>Kkw_Correct\<close> (the verifier accepts what the prover writes,
    and when the prover writes).
  \<^item> \<open>Plain\<close>, \<open>Plain_Xmss\<close>, \<open>Plain_Pool\<close>, \<open>Plain_Chains\<close>: the circuit in the clear computes the native
    functions, gadget by gadget; \<open>Statement_Correct\<close>: hence its output is the published one
    exactly for a valid signature on the opened commitment, and the schedule the builder
    finds completes the chains.
  \<^item> \<open>Protocol_Correct\<close>, \<open>Blind_Correct\<close>, \<open>Cli_Run\<close>: codecs of keys and states, the signer between
    calls, the user's witness, the honest run, the commands on one directory.

  \<^item> \<open>Vole_Hash\<close> and \<open>Vole_Xmss\<close>: the native library is the first one's on a platform whose hash
    is SHAKE256, so its theorems carry over. \<open>Fips202\<close>: the standard's five step mappings, and
    that the templates compute a round and its inverse. \<open>Vole_Native\<close> (what it is for a piece of
    the circuit to mean a condition and a value), \<open>Vole_Gadgets\<close>, \<open>Vole_Shake\<close>, \<open>Vole_Fields\<close>,
    \<open>Vole_Statement\<close>, \<open>Vole_Schedule\<close>: the meaning of each gadget and each part of the statement;
    \<open>Vole_Exact\<close>: the circuit returns exactly on the witnesses of a valid signature.
  \<^item> \<open>Vole_Sim\<close> and \<open>Vole_Lockstep\<close> (the locale of two
    engines that run the circuit in step), \<open>Keccak_Lift\<close> (the templates on values that stand for
    bits), \<open>Vole_Auth\<close> (an engine that stops at bad
    states), \<open>Vole_Auth_Keccak\<close>, \<open>Vole_Auth_Permute\<close>, \<open>Vole_Auth_Exact\<close>: the authenticated
    context against the native one, operation by operation, then for the circuit.
  \<^item> \<open>Vole_Cost\<close> (the locale of an engine with counters, and the cost of every gadget inside it) and
    \<open>Vole_Dimensions\<close>: every run of the circuit uses exactly the published numbers of witness bits,
    constraints and permutations. \<open>Vole_Pair\<close>: the circuit in the prover's and the verifier's
    contexts, in step. \<open>Vole_Complete\<close>: what \<open>prove\<close> writes \<open>verify_proof\<close> accepts, every way \<open>prove\<close>
    can fail, and that \<open>verify_proof\<close> never throws. \<open>Vole_Protocol_Correct\<close>: the frames and codecs,
    and that the witness that \<open>unblind\<close> builds satisfies the circuit. \<open>Vole_Run\<close>: the signer over
    restarts and crashes as a step relation, and the honest run.
  \<^item> \<open>Vole_Cli_Correct\<close>: the log of a replacement and the locale of an invariant of the disk, with the
    tasks that keep it at every moment. \<open>Vole_Cli_Run\<close>: key generation, and the life of a directory
    under commands, kills, other programs and losses of power. \<open>Vole_Cli_Commands\<close>: the commands in
    sequence.

  The numbered properties are in the theories \<open>Foundation_Properties\<close>, \<open>Xmss_Properties\<close>,
  \<open>Kkw_Properties\<close>, \<open>Protocol_Properties\<close>, \<open>Cli_Properties\<close>, \<open>Cli_Run\<close>, \<open>Blind_Properties\<close>, \<open>Vole_Properties\<close>,
  \<open>Vole_Protocol_Properties\<close> and \<open>Vole_Cli_Properties\<close>. Each with a hypothesis has a witness: \<open>Sample_Platform\<close> has a platform whose hash is constant, and
  \<open>Sample_Kkw\<close> one whose hash is BLAKE3 on the frames of the circuit and constant on those of
  the proof system, so that all its loops end. \<open>Sample_Vole\<close> has SHAKE256 itself, and
  \<open>Sample_Proof\<close> a proof library that keeps every promise of \<open>faest_ok\<close> and hides nothing.

  \<^bold>\<open>Hypotheses on the outside.\<close> \<open>platform_ok\<close>: the library returns as many bytes as it is
  asked for and \<open>getentropy\<close> fills its buffer. \<open>b3_chunk_ok\<close>, only where the circuit is
  compared with the native hashes: in derive-key mode on at most one chunk the library is the
  documented chain of compressions. Termination of the challenge's loops (\<open>challenge_ends\<close>) is
  assumed only where a theorem says that the prover answers; the nonce loop is never assumed
  to end. For the circuit of the second implementation: \<open>shake_ok\<close>, the hash library computes
  SHAKE256 of FIPS 202; \<open>poly_ok\<close>, the field library multiplies as \<^verbatim>\<open>gf128.c\<close> does; \<open>trace_ok\<close>, the
  permutation that records snapshots is Keccak-f; \<open>qs_ok\<close>, a QuickSilver value stands for a field
  element and its operations for the field's. For its proof: \<open>faest_ok\<close>, which is \<open>faest_vole_ok\<close> (the
  sizes of the buffers, that a forest opens at every challenge, that the two transcripts of the
  consistency check agree, the VOLE correlation) and \<open>faest_qs_ok\<close> (the QuickSilver check of
  constraints that all hold is the same on both sides). Grinding counts in 32 bits, so \<open>grind\<close>
  ends by a measure, and a run that exhausts the counter is an error like any other.
  For its command line: \<open>sys_ok\<close>, \<open>mkstemp\<close> replaces the last six characters of its template. That
  \<open>fsync\<close> makes contents or entries survive is the definition of \<open>survives\<close>.

  \<^bold>\<open>What it showed.\<close> \<open>cmd_sign\<close> writes the signature before the advanced key, so that a failed
  second write loses the one-time property (\<open>cli_sign_lost_key_write\<close>).

  \<^bold>\<open>Not modelled.\<close> Soundness and zero knowledge as cryptographic statements, which no theorem
  here claims; wiping and freeing of memory, progress output, timing and \<^verbatim>\<open>bench.c\<close>; OpenMP,
  whose iterations share only the scratch arrays that are parameters here; the BLAKE3
  library; the FAEST library below \<^verbatim>\<open>proof.cpp\<close>, a submodule that is not in the repository. The other implementations of the scheme
  (\<^verbatim>\<open>src/longfellow\<close>, \<^verbatim>\<open>src/binius64\<close>) repeat the commitment, the signature and the protocol over
  third-party proof systems.
\<close>

end
